(* ===== verification/Prelude.thy ===== *)
theory Prelude
  imports Main "HOL-Library.Word" "HOL-Library.Monad_Syntax"
begin

text \<open>
  Shared vocabulary of the development: the machine integers of the C sources, nullable
  pointers, the accesses of C whose out-of-range case is undefined behaviour, the searches
  that the sources write as \<open>for\<close> loops over fixed tables, and the generic lemmas on
  lists, options and words that the component theories use.

  Conventions.
  \<^item> \<open>uintN_t\<close> is \<open>N word\<close>; \<open>+\<close>, \<open>-\<close> and \<open>*\<close> wrap around. A signed integer
    is the word with the same bits, read by \<open>sint\<close>.
  \<^item> A pointer argument that the code compares with \<open>NULL\<close> has type \<open>'a ptr\<close>:
    \<open>NULL\<close>, or \<open>Ref x\<close> where \<open>x\<close> is the value of the object before the call; the
    function returns the object after the call. Distinct pointer arguments of one call do
    not alias.
  \<^item> A computation that may run into undefined behaviour (an access outside an array, a
    division by zero) has type \<open>'a comp\<close>: \<open>None\<close> is undefined behaviour. A theorem
    that such a computation equals \<open>Some\<close> is a memory safety theorem too.
\<close>

section \<open>Types\<close>

type_synonym u8 = "8 word"
type_synonym u16 = "16 word"
type_synonym u32 = "32 word"
type_synonym u64 = "64 word"
type_synonym i32 = "32 word"
type_synonym i64 = "64 word"

datatype 'a ptr = NULL | Ref 'a

type_synonym 'a comp = "'a option"

named_theorems c_access \<open>evaluation of array accesses and divisions that are in range\<close>

section \<open>Array accesses\<close>

definition c_rd :: "'a list \<Rightarrow> nat \<Rightarrow> 'a comp" where
  "c_rd xs i = (if i < length xs then Some (xs ! i) else None)"

definition c_wr :: "'a list \<Rightarrow> nat \<Rightarrow> 'a \<Rightarrow> 'a list comp" where
  "c_wr xs i v = (if i < length xs then Some (xs[i := v]) else None)"

text \<open>Unsigned remainder and quotient: a zero divisor is undefined behaviour.\<close>

definition c_mod :: "'a::len word \<Rightarrow> 'a word \<Rightarrow> 'a word comp" where
  "c_mod a b = (if b = 0 then None else Some (a mod b))"

definition c_div :: "'a::len word \<Rightarrow> 'a word \<Rightarrow> 'a word comp" where
  "c_div a b = (if b = 0 then None else Some (a div b))"

text \<open>
  Copying \<open>n\<close> elements of \<open>src\<close> to offset \<open>off\<close> of \<open>dst\<close>, the byte loops
  \<open>ow_memcpy\<close>, \<open>owmsg_memcopy\<close>, \<open>cache_copy\<close> of the sources.
\<close>

definition c_memcpy :: "'a list \<Rightarrow> nat \<Rightarrow> 'a list \<Rightarrow> nat \<Rightarrow> 'a list comp" where
  "c_memcpy dst off src n =
     (if n \<le> length src \<and> off + n \<le> length dst
      then Some (take off dst @ take n src @ drop (off + n) dst) else None)"

lemma c_rd_in [c_access, simp]: "i < length xs \<Longrightarrow> c_rd xs i = Some (xs ! i)"
  by (simp add: c_rd_def)

lemma c_wr_in [c_access, simp]: "i < length xs \<Longrightarrow> c_wr xs i v = Some (xs[i := v])"
  by (simp add: c_wr_def)

lemma c_mod_in [c_access, simp]: "b \<noteq> 0 \<Longrightarrow> c_mod a b = Some (a mod b)"
  by (simp add: c_mod_def)

lemma c_div_in [c_access, simp]: "b \<noteq> 0 \<Longrightarrow> c_div a b = Some (a div b)"
  by (simp add: c_div_def)

lemma c_memcpy_in [c_access]:
  "n \<le> length src \<Longrightarrow> off + n \<le> length dst \<Longrightarrow>
     c_memcpy dst off src n = Some (take off dst @ take n src @ drop (off + n) dst)"
  by (simp add: c_memcpy_def)

lemma length_c_memcpy: "c_memcpy dst off src n = Some d \<Longrightarrow> length d = length dst"
  by (auto simp: c_memcpy_def split: if_splits)

lemma length_c_wr: "c_wr xs i v = Some ys \<Longrightarrow> length ys = length xs"
  by (auto simp: c_wr_def split: if_splits)

lemma list_all_update: "list_all P xs \<Longrightarrow> P y \<Longrightarrow> list_all P (xs[i := y])"
  by (auto simp: list_all_iff dest: set_update_subset_insert [THEN subsetD])

lemma list_all_nth: "list_all P xs \<Longrightarrow> i < length xs \<Longrightarrow> P (xs ! i)"
  by (simp add: list_all_length)

lemma ex_nth_update:
  "i < n \<Longrightarrow> i < length xs \<Longrightarrow>
     (\<exists>j < n. Q (xs[i := x] ! j)) \<longleftrightarrow> Q x \<or> (\<exists>j < n. j \<noteq> i \<and> Q (xs ! j))"
  by (auto simp: nth_list_update)

lemma last_not_butlast: "distinct xs \<Longrightarrow> xs \<noteq> [] \<Longrightarrow> last xs \<notin> set (butlast xs)"
  by (induction xs rule: rev_induct) auto

section \<open>Strings\<close>

text \<open>
  A C string is the list of its bytes before the terminating NUL, so it holds no NUL itself; a
  \<open>char\<close> array that holds a string is the string. The copy loops of the sources
  (\<open>while (src[i] != 0 && i + 1 < cap) dst[i] = src[i], i++; dst[i] = 0;\<close>) copy until the end
  of the source or until only the terminator fits; a \<open>NULL\<close> source gives the empty string.
\<close>

fun c_strcopy_loop :: "nat \<Rightarrow> nat \<Rightarrow> string \<Rightarrow> string" where
  "c_strcopy_loop cap i [] = []"
| "c_strcopy_loop cap i (ch # src) = (if i + 1 < cap then ch # c_strcopy_loop cap (Suc i) src else [])"

definition c_strcopy :: "nat \<Rightarrow> string ptr \<Rightarrow> string" where
  "c_strcopy cap src = (case src of NULL \<Rightarrow> [] | Ref s \<Rightarrow> c_strcopy_loop cap 0 s)"

lemma c_strcopy_loop_take: "c_strcopy_loop cap i s = take (cap - 1 - i) s"
proof (induction cap i s rule: c_strcopy_loop.induct)
  case (2 cap i ch src)
  then show ?case by (auto simp: take_Cons')
qed simp

lemma c_strcopy_Ref [simp]: "c_strcopy cap (Ref s) = take (cap - 1) s"
  by (simp add: c_strcopy_def c_strcopy_loop_take)

text \<open>The comparison loops: equal bytes up to a common end.\<close>

fun c_streq :: "string \<Rightarrow> string \<Rightarrow> bool" where
  "c_streq (a # as) (b # bs) = (if a \<noteq> b then False else c_streq as bs)"
| "c_streq [] [] = True"
| "c_streq _ _ = False"

lemma c_streq_iff [simp]: "c_streq a b \<longleftrightarrow> a = b"
  by (induction a b rule: c_streq.induct) auto

section \<open>Searching a table\<close>

text \<open>
  The loop \<open>for (i = 0; i < N; ++i) if (P(a[i])) return i;\<close> over a table: the first index
  whose entry satisfies \<open>P\<close>.
\<close>

fun first_index :: "('a \<Rightarrow> bool) \<Rightarrow> 'a list \<Rightarrow> nat option" where
  "first_index P [] = None"
| "first_index P (x # xs) = (if P x then Some 0 else map_option Suc (first_index P xs))"

lemma first_index_None_iff: "first_index P xs = None \<longleftrightarrow> (\<forall>x \<in> set xs. \<not> P x)"
  by (induction xs) auto

lemma first_index_take_None:
  "n \<le> length xs \<Longrightarrow> first_index P (take n xs) = None \<longleftrightarrow> (\<forall>i < n. \<not> P (xs ! i))"
  by (auto simp: first_index_None_iff all_set_conv_all_nth)

lemma first_index_Some_iff:
  "first_index P xs = Some i \<longleftrightarrow> i < length xs \<and> P (xs ! i) \<and> (\<forall>j < i. \<not> P (xs ! j))"
proof (induction xs arbitrary: i)
  case Nil
  then show ?case by simp
next
  case (Cons x xs)
  show ?case
    by (cases i) (auto simp: Cons.IH less_Suc_eq_0_disj nth_Cons')
qed

lemma first_index_SomeD:
  assumes "first_index P xs = Some i"
  shows "i < length xs" and "P (xs ! i)" and "\<And>j. j < i \<Longrightarrow> \<not> P (xs ! j)"
  using assms by (auto simp: first_index_Some_iff)

lemma first_index_exists: "i < length xs \<Longrightarrow> P (xs ! i) \<Longrightarrow> \<exists>j. first_index P xs = Some j"
  by (cases "first_index P xs") (auto simp: first_index_None_iff)

lemma first_index_unique:
  assumes "i < length xs" and "P (xs ! i)"
    and "\<And>j. j < length xs \<Longrightarrow> P (xs ! j) \<Longrightarrow> j = i"
  shows "first_index P xs = Some i"
  unfolding first_index_Some_iff
proof (intro conjI allI impI notI)
  fix j assume "j < i" and "P (xs ! j)"
  then have "j = i" using assms(1) by (intro assms(3)) auto
  then show False using \<open>j < i\<close> by simp
qed (fact assms(1), fact assms(2))

lemma first_index_cong_update:
  "(\<And>j. j < length xs \<Longrightarrow> P (xs ! j) = Q (ys ! j)) \<Longrightarrow> length ys = length xs \<Longrightarrow>
     first_index P xs = first_index Q ys"
proof (induction xs arbitrary: ys)
  case Nil
  then show ?case by simp
next
  case (Cons x xs)
  then obtain y ys' where ys: "ys = y # ys'" by (cases ys) auto
  have "P x = Q y" using Cons.prems(1)[of 0] ys by simp
  moreover have "first_index P xs = first_index Q ys'"
  proof (rule Cons.IH)
    show "P (xs ! j) = Q (ys' ! j)" if "j < length xs" for j
      using that Cons.prems(1)[of "Suc j"] ys by simp
  qed (use Cons.prems(2) ys in simp)
  ultimately show ?case using ys by simp
qed

text \<open>The same loop over a table that is only known by a pointer and a length.\<close>

function c_find :: "('a \<Rightarrow> bool) \<Rightarrow> 'a list \<Rightarrow> nat \<Rightarrow> nat \<Rightarrow> nat option comp" where
  "c_find P xs n i =
     (if i < n then do { x \<leftarrow> c_rd xs i; if P x then Some (Some i) else c_find P xs n (Suc i) }
      else Some None)"
  by pat_completeness auto
termination by (relation "measure (\<lambda>(P, xs, n, i). n - i)") auto

declare c_find.simps [simp del]

lemma c_find_from:
  assumes "n \<le> length xs" and "i \<le> n"
  shows "c_find P xs n i = Some (map_option ((+) i) (first_index P (drop i (take n xs))))"
  using assms
proof (induction P xs n i rule: c_find.induct)
  case (1 P xs n i)
  show ?case
  proof (cases "i < n")
    case True
    then have "drop i (take n xs) = xs ! i # drop (Suc i) (take n xs)"
      using "1.prems" by (simp add: Cons_nth_drop_Suc [symmetric])
    then show ?thesis
      using 1 True by (subst c_find.simps) (simp add: option.map_comp comp_def)
  qed (use 1 in \<open>subst c_find.simps, simp\<close>)
qed

lemma c_find_eq: "n \<le> length xs \<Longrightarrow> c_find P xs n 0 = Some (first_index P (take n xs))"
  by (cases "first_index P (take n xs)") (simp_all add: c_find_from)

section \<open>Counting entries of a table\<close>

definition count_if :: "('a \<Rightarrow> bool) \<Rightarrow> 'a list \<Rightarrow> nat" where
  "count_if P xs = length (filter P xs)"

lemma count_if_le [simp]: "count_if P xs \<le> length xs"
  by (simp add: count_if_def)

lemma count_if_Nil [simp]: "count_if P [] = 0"
  and count_if_Cons [simp]: "count_if P (x # xs) = (if P x then 1 else 0) + count_if P xs"
  by (simp_all add: count_if_def)

lemma count_if_update:
  "i < length xs \<Longrightarrow>
     count_if P (xs[i := y]) + (if P (xs ! i) then 1 else 0) = count_if P xs + (if P y then 1 else 0)"
proof (induction xs arbitrary: i)
  case (Cons x xs)
  show ?case
  proof (cases i)
    case (Suc j)
    with Cons.IH [of j] Cons.prems show ?thesis by (auto split: if_splits)
  qed simp
qed simp

lemma count_if_update_same:
  "i < length xs \<Longrightarrow> P y = P (xs ! i) \<Longrightarrow> count_if P (xs[i := y]) = count_if P xs"
  using count_if_update [of i xs P y] by simp

lemma count_if_update_add:
  "i < length xs \<Longrightarrow> P y \<Longrightarrow> \<not> P (xs ! i) \<Longrightarrow> count_if P (xs[i := y]) = Suc (count_if P xs)"
  using count_if_update [of i xs P y] by simp

lemma count_if_update_del:
  "i < length xs \<Longrightarrow> \<not> P y \<Longrightarrow> P (xs ! i) \<Longrightarrow> Suc (count_if P (xs[i := y])) = count_if P xs"
  using count_if_update [of i xs P y] by simp

lemma count_if_pos: "i < length xs \<Longrightarrow> P (xs ! i) \<Longrightarrow> 0 < count_if P xs"
  by (auto simp: count_if_def filter_empty_conv)

lemma count_if_less: "i < length xs \<Longrightarrow> \<not> P (xs ! i) \<Longrightarrow> count_if P xs < length xs"
  unfolding count_if_def by (rule length_filter_less [of "xs ! i"]) auto

lemma count_if_0_iff: "count_if P xs = 0 \<longleftrightarrow> (\<forall>x \<in> set xs. \<not> P x)"
  by (simp add: count_if_def filter_empty_conv)

section \<open>Words\<close>

lemma unat_Suc_less: "unat (x :: 'a::len word) < n \<Longrightarrow> n < 2 ^ LENGTH('a) \<Longrightarrow> unat (x + 1) = Suc (unat x)"
  by (subst unat_word_ariths) simp

lemma unat_add1: "Suc (unat x) < 2 ^ LENGTH('a) \<Longrightarrow> unat (x + 1 :: 'a::len word) = Suc (unat x)"
  by (subst unat_word_ariths) simp

lemma unat_add1_less: "(x :: 'a::len word) < y \<Longrightarrow> unat (x + 1) = Suc (unat x)"
proof (rule unat_add1)
  assume "x < y"
  moreover have "unat y < 2 ^ LENGTH('a)" by (rule unsigned_less)
  ultimately show "Suc (unat x) < 2 ^ LENGTH('a)" unfolding word_less_nat_alt by linarith
qed

lemma unat_minus1: "(x :: 'a::len word) \<noteq> 0 \<Longrightarrow> unat (x - 1) = unat x - 1"
  by (rule unat_minus_one)

lemma unat_eq_0_word [simp]: "0 < unat (x :: 'a::len word) \<longleftrightarrow> x \<noteq> 0"
  by (simp add: unat_gt_0)

lemma unat_sub_le: "(y :: 'a::len word) \<le> x \<Longrightarrow> unat (x - y) = unat x - unat y"
  by (simp add: unat_sub_if' word_le_nat_alt)

lemma unat_ucast_up:
  "LENGTH('a) \<le> LENGTH('b) \<Longrightarrow> unat (ucast (x :: 'a::len word) :: 'b::len word) = unat x"
proof -
  assume le: "LENGTH('a) \<le> LENGTH('b)"
  have "unat x < 2 ^ LENGTH('a)" by (rule unsigned_less)
  also have "(2::nat) ^ LENGTH('a) \<le> 2 ^ LENGTH('b)" using le by simp
  finally show ?thesis by (simp add: unsigned_ucast_eq take_bit_nat_eq_self)
qed

lemma ucast_up_eq_0:
  "LENGTH('a) \<le> LENGTH('b) \<Longrightarrow> (ucast (x :: 'a::len word) :: 'b::len word) = 0 \<longleftrightarrow> x = 0"
  by (metis unat_eq_0 unat_ucast_up)

lemma unat_ucast_down:
  "unat (ucast (x :: 'a::len word) :: 'b::len word) = unat x mod 2 ^ LENGTH('b)"
  by (simp add: unsigned_ucast_eq take_bit_eq_mod)

lemma and_255: "and x 255 = take_bit 8 (x :: 'a::len word)"
  by (simp add: take_bit_eq_mask mask_eq_exp_minus_1)

text \<open>A 32-bit value read as signed is non-negative when its top bit is clear.\<close>

lemma xor_zero_iff: "xor a b = 0 \<longleftrightarrow> a = b" for a b :: "'a::len word"
  by (auto simp: bit_eq_iff bit_simps)

lemma xor_cancel: "xor a c = xor b c \<longleftrightarrow> a = b" "xor c a = xor c b \<longleftrightarrow> a = b" for a b c :: "'a::len word"
  by (auto simp: bit_eq_iff bit_simps)

lemma small_take_bit: "unat (x :: 'a::len word) < 2 ^ k \<Longrightarrow> take_bit k x = x"
  unfolding word_unat_eq_iff unsigned_take_bit_eq by (simp add: take_bit_nat_eq_self)

lemma or_push_bit_add:
  assumes "unat (x :: 'a::len word) < 2 ^ k"
  shows "or x (push_bit k y) = x + push_bit k y"
proof -
  have "take_bit k x = x" by (rule small_take_bit [OF assms])
  moreover have "and (take_bit k x) (push_bit k y) = 0" by (rule bit_word_eqI) (auto simp: bit_simps)
  ultimately show ?thesis by (simp add: disjunctive_add_eq_or)
qed

lemma odd_div_iff:
  fixes k n :: int
  assumes "k < 2 * n" and "0 \<le> k" and "0 < n"
  shows "odd (k div n) \<longleftrightarrow> n \<le> k"
proof (cases "k < n")
  case True
  with assms show ?thesis by (simp add: div_pos_pos_trivial)
next
  case False
  with assms have "k div n = (k - n) div n + 1" by (intro div_pos_geq) auto
  moreover have "(k - n) div n = 0" using False assms by (intro div_pos_pos_trivial) auto
  ultimately show ?thesis using False by simp
qed

lemma sint_nonneg_iff: "0 \<le> sint (w :: 32 word) \<longleftrightarrow> unat w < 2 ^ 31"
proof -
  have "uint w < 2 ^ 32" using uint_lt2p [of w] by simp
  then have "odd (uint w div 2 ^ 31) \<longleftrightarrow> 2 ^ 31 \<le> uint w"
    by (intro odd_div_iff) simp_all
  then have "bit (uint w) 31 \<longleftrightarrow> 2 ^ 31 \<le> uint w"
    by (subst bit_iff_odd)
  moreover have "0 \<le> sint w \<longleftrightarrow> \<not> bit (uint w) 31"
    by (simp add: sint_uint)
  moreover have "unat w < n \<longleftrightarrow> \<not> int n \<le> uint w" for n
    unfolding uint_nat not_le of_nat_less_iff ..
  from this [of "2 ^ 31"] have "unat w < 2 ^ 31 \<longleftrightarrow> \<not> 2 ^ 31 \<le> uint w" by simp
  ultimately show ?thesis by blast
qed

lemma sint_neg_iff: "sint (w :: 32 word) < 0 \<longleftrightarrow> \<not> unat w < 2 ^ 31"
  using sint_nonneg_iff [of w] by linarith

lemma sint_pos_iff: "0 < sint (w :: 32 word) \<longleftrightarrow> w \<noteq> 0 \<and> unat w < 2 ^ 31"
proof -
  have "sint w = 0 \<longleftrightarrow> w = 0" by (simp add: signed_eq_0_iff)
  then show ?thesis using sint_nonneg_iff [of w] by (auto simp: less_le)
qed

lemma unat_of_nat_u32: "n < 2 ^ 32 \<Longrightarrow> unat (of_nat n :: u32) = n"
  by (simp add: unat_of_nat)

text \<open>The step of a ring index: \<open>(i + 1) % n\<close> does not wrap around before the reduction.\<close>

lemma unat_ring_step:
  assumes "(i :: 'a::len word) < n"
  shows "unat ((i + 1) mod n) = Suc (unat i) mod unat n"
  using assms by (simp add: unat_mod unat_add1_less)

lemma unat_ring_step_less:
  assumes "(i :: 'a::len word) < n"
  shows "(i + 1) mod n < n"
proof -
  have "0 < n" using assms by (rule le_less_trans [OF word_zero_le])
  then show ?thesis by (rule word_mod_less_divisor)
qed

lemma option_eqI: "(\<And>x. a = Some x \<longleftrightarrow> b = Some x) \<Longrightarrow> a = b"
  by (cases a; cases b) auto

end
