(* ===== verification/Ring_Queue.thy ===== *)
theory Ring_Queue
  imports Prelude
begin

text \<open>
  Ring buffers and the queue contract. Several components keep a first-in first-out queue
  in a fixed array with a read index, a write index and a counter. This theory holds the
  abstraction function from such a ring to the list of its queued elements, the lemmas on
  writing at the write index and stepping the read index, and the interface locale
  \<open>bounded_queue\<close>: what every queue of the sources promises, and the refinement of an
  arbitrary sequence of operations to a bounded list, proved once from the promises.
\<close>

section \<open>The elements of a ring\<close>

definition ring_list :: "'a list \<Rightarrow> nat \<Rightarrow> nat \<Rightarrow> 'a list" where
  "ring_list buf h n = map (\<lambda>i. buf ! ((h + i) mod length buf)) [0..<n]"

lemma length_ring_list [simp]: "length (ring_list buf h n) = n"
  by (simp add: ring_list_def)

lemma ring_list_0 [simp]: "ring_list buf h 0 = []"
  by (simp add: ring_list_def)

lemma ring_list_Suc:
  "ring_list buf h (Suc n) = (buf ! (h mod length buf)) # ring_list buf (Suc h mod length buf) n"
  by (simp add: ring_list_def upt_conv_Cons map_Suc_upt [symmetric] mod_add_left_eq
      del: upt_Suc)

text \<open>A write at the write index, with room left, leaves every queued element alone.\<close>

lemma ring_list_write:
  assumes "n < length buf" and "h < length buf"
  shows "ring_list (buf[(h + n) mod length buf := v]) h (Suc n) = ring_list buf h n @ [v]"
proof -
  have wrap: "(h + k) mod length buf = (if h + k < length buf then h + k else h + k - length buf)"
    if "k < length buf" for k
    using that assms(2) by (simp add: mod_if)
  have "(h + i) mod length buf \<noteq> (h + n) mod length buf" if "i < n" for i
    using that assms(1) by (auto simp: wrap)
  moreover have "(h + n) mod length buf < length buf"
    using assms by (intro mod_less_divisor) auto
  ultimately show ?thesis
    by (auto simp: ring_list_def) (metis nth_list_update_neq)
qed

lemma ring_index_next:
  "(h + Suc n) mod c = Suc ((h + n) mod c) mod c"
  by (simp add: mod_Suc_eq)

lemma ring_index_drop:
  "n \<noteq> 0 \<Longrightarrow> (Suc h mod c + (n - 1)) mod c = (h + n) mod c"
  by (cases n) (simp_all add: mod_add_left_eq)

section \<open>Rings with word indices\<close>

text \<open>
  A ring of capacity \<open>c\<close> with read index \<open>h\<close>, write index \<open>t\<close> and \<open>n\<close>
  queued elements, all 32-bit words as in the sources. A push writes at \<open>t\<close> and steps
  \<open>t\<close>; a pop reads at \<open>h\<close> and steps \<open>h\<close>.
\<close>

definition ring_ok :: "u32 \<Rightarrow> u32 \<Rightarrow> u32 \<Rightarrow> u32 \<Rightarrow> bool" where
  "ring_ok c h t n \<longleftrightarrow>
     h < c \<and> t < c \<and> n \<le> c \<and> unat t = (unat h + unat n) mod unat c"

lemma ring_okD:
  assumes "ring_ok c h t n"
  shows "unat h < unat c" and "unat t < unat c" and "unat n \<le> unat c" and "c \<noteq> 0"
proof -
  show "unat h < unat c" "unat t < unat c" "unat n \<le> unat c"
    using assms by (auto simp: ring_ok_def word_less_nat_alt word_le_nat_alt)
  then show "c \<noteq> 0" by auto
qed

lemma ring_ok_start: "c \<noteq> 0 \<Longrightarrow> ring_ok c 0 0 0"
  by (simp add: ring_ok_def word_less_nat_alt)

lemma ring_ok_push:
  assumes "ring_ok c h t n" and "n < c"
  shows "ring_ok c h ((t + 1) mod c) (n + 1)" and "unat (n + 1) = Suc (unat n)"
proof -
  show n1: "unat (n + 1) = Suc (unat n)" using assms(2) by (rule unat_add1_less)
  then show "ring_ok c h ((t + 1) mod c) (n + 1)"
    using assms unat_ring_step [of t c] unat_ring_step_less [of t c]
    by (simp add: ring_ok_def word_le_nat_alt word_less_nat_alt mod_Suc_eq)
qed

lemma ring_ok_pop:
  assumes "ring_ok c h t n" and "n \<noteq> 0"
  shows "ring_ok c ((h + 1) mod c) t (n - 1)" and "unat n = Suc (unat (n - 1))"
proof -
  show n1: "unat n = Suc (unat (n - 1))" using assms(2) by (simp add: unat_minus1)
  then show "ring_ok c ((h + 1) mod c) t (n - 1)"
    using assms unat_ring_step [of h c] unat_ring_step_less [of h c]
      ring_index_drop [of "unat n" "unat h" "unat c"]
    by (simp add: ring_ok_def word_le_nat_alt)
qed

lemma ring_list_push:
  assumes "ring_ok c h t n" and "n < c" and "length buf = unat c"
  shows "ring_list (buf[unat t := v]) (unat h) (unat (n + 1)) = ring_list buf (unat h) (unat n) @ [v]"
  using ring_list_write [of "unat n" buf "unat h" v] ring_okD [OF assms(1)] ring_ok_push(2) [OF assms(1,2)]
    assms by (simp add: ring_ok_def word_less_nat_alt)

lemma ring_list_pop:
  assumes "ring_ok c h t n" and "n \<noteq> 0" and "length buf = unat c"
  shows "ring_list buf (unat h) (unat n) =
     buf ! unat h # ring_list buf (unat ((h + 1) mod c)) (unat (n - 1))"
  using ring_okD [OF assms(1)] assms unat_ring_step [of h c]
  by (simp add: ring_ok_pop(2) [OF assms(1,2)] ring_list_Suc ring_ok_def)

section \<open>Sequences of queue operations\<close>

datatype 'a queue_op = Enq 'a | Deq

datatype 'a queue_res = Accepted bool | Taken "'a option"

text \<open>A run of operations on an implementation; \<open>None\<close> is undefined behaviour.\<close>

fun queue_run ::
  "('s \<Rightarrow> 'a \<Rightarrow> (bool \<times> 's) comp) \<Rightarrow> ('s \<Rightarrow> ('a option \<times> 's) comp) \<Rightarrow>
   's \<Rightarrow> 'a queue_op list \<Rightarrow> ('a queue_res list \<times> 's) comp" where
  "queue_run enq deq s [] = Some ([], s)"
| "queue_run enq deq s (Enq x # ops) =
     do { (b, s1) \<leftarrow> enq s x;
          (rs, s2) \<leftarrow> queue_run enq deq s1 ops;
          Some (Accepted b # rs, s2) }"
| "queue_run enq deq s (Deq # ops) =
     do { (r, s1) \<leftarrow> deq s;
          (rs, s2) \<leftarrow> queue_run enq deq s1 ops;
          Some (Taken r # rs, s2) }"

text \<open>The same run on the specification: a list of at most \<open>c\<close> elements.\<close>

fun spec_run :: "nat \<Rightarrow> 'a list \<Rightarrow> 'a queue_op list \<Rightarrow> 'a queue_res list \<times> 'a list" where
  "spec_run c q [] = ([], q)"
| "spec_run c q (Enq x # ops) =
     (let ok = length q < c; (rs, q') = spec_run c (if ok then q @ [x] else q) ops
      in (Accepted ok # rs, q'))"
| "spec_run c q (Deq # ops) =
     (let (rs, q') = spec_run c (tl q) ops
      in (Taken (case q of [] \<Rightarrow> None | x # _ \<Rightarrow> Some x) # rs, q'))"

section \<open>The queue interface\<close>

locale bounded_queue =
  fixes enq :: "'s \<Rightarrow> 'a \<Rightarrow> (bool \<times> 's) comp"
    and deq :: "'s \<Rightarrow> ('a option \<times> 's) comp"
    and contents :: "'s \<Rightarrow> 'a list"
    and invar :: "'s \<Rightarrow> bool"
    and cap :: "'s \<Rightarrow> nat"
    and valid :: "'a \<Rightarrow> bool"
  assumes enq_room: "invar s \<Longrightarrow> valid x \<Longrightarrow> length (contents s) < cap s \<Longrightarrow>
      \<exists>s'. enq s x = Some (True, s') \<and> invar s' \<and> contents s' = contents s @ [x] \<and> cap s' = cap s"
    and enq_full: "invar s \<Longrightarrow> valid x \<Longrightarrow> \<not> length (contents s) < cap s \<Longrightarrow>
      \<exists>s'. enq s x = Some (False, s') \<and> invar s' \<and> contents s' = contents s \<and> cap s' = cap s"
    and deq_some: "invar s \<Longrightarrow> contents s = x # xs \<Longrightarrow>
      \<exists>s'. deq s = Some (Some x, s') \<and> invar s' \<and> contents s' = xs \<and> cap s' = cap s"
    and deq_empty: "invar s \<Longrightarrow> contents s = [] \<Longrightarrow>
      \<exists>s'. deq s = Some (None, s') \<and> invar s' \<and> contents s' = [] \<and> cap s' = cap s"
    and bounded: "invar s \<Longrightarrow> length (contents s) \<le> cap s"
begin

lemma enq_step:
  assumes "invar s" and "valid x"
  shows "\<exists>s'. enq s x = Some (length (contents s) < cap s, s') \<and> invar s' \<and> cap s' = cap s \<and>
     contents s' = (if length (contents s) < cap s then contents s @ [x] else contents s)"
  using enq_room [OF assms] enq_full [OF assms]
  by (cases "length (contents s) < cap s") auto

lemma deq_step:
  assumes "invar s"
  shows "\<exists>s'. deq s = Some (case contents s of [] \<Rightarrow> None | x # _ \<Rightarrow> Some x, s') \<and> invar s' \<and>
     cap s' = cap s \<and> contents s' = tl (contents s)"
  using deq_some [OF assms] deq_empty [OF assms] by (cases "contents s") auto

text \<open>Refinement of whole runs: same answers, and the ring holds what the list holds.\<close>

lemma run_refines:
  assumes "invar s" and "\<forall>x. Enq x \<in> set ops \<longrightarrow> valid x"
  shows "\<exists>s'. queue_run enq deq s ops = Some (fst (spec_run (cap s) (contents s) ops), s') \<and>
     invar s' \<and> contents s' = snd (spec_run (cap s) (contents s) ops) \<and> cap s' = cap s"
  using assms
proof (induction ops arbitrary: s)
  case Nil
  then show ?case by simp
next
  case (Cons op ops)
  show ?case
  proof (cases op)
    case (Enq x)
    from enq_step [OF Cons.prems(1), of x] Cons.prems(2) Enq obtain s1 where
      s1: "enq s x = Some (length (contents s) < cap s, s1)" "invar s1" "cap s1 = cap s"
        "contents s1 = (if length (contents s) < cap s then contents s @ [x] else contents s)"
      by auto
    from Cons.IH [OF s1(2)] Cons.prems(2) s1 Enq show ?thesis
      by (auto simp: Let_def case_prod_unfold)
  next
    case Deq
    from deq_step [OF Cons.prems(1)] obtain s1 where
      s1: "deq s = Some (case contents s of [] \<Rightarrow> None | x # _ \<Rightarrow> Some x, s1)" "invar s1"
        "cap s1 = cap s" "contents s1 = tl (contents s)"
      by blast
    from Cons.IH [OF s1(2)] Cons.prems(2) s1 Deq show ?thesis
      by (auto simp: Let_def case_prod_unfold)
  qed
qed

end

text \<open>What goes in comes out, in order: enqueueing \<open>xs\<close> and then dequeueing.\<close>

lemma spec_run_enqs:
  "length q + length xs \<le> c \<Longrightarrow>
     spec_run c q (map Enq xs @ ops) =
       (map (\<lambda>_. Accepted True) xs @ fst (spec_run c (q @ xs) ops), snd (spec_run c (q @ xs) ops))"
  by (induction xs arbitrary: q) (auto simp: Let_def case_prod_unfold)

lemma spec_run_deqs:
  "spec_run c (xs @ q) (replicate (length xs) Deq) = (map (\<lambda>x. Taken (Some x)) xs, q)"
  by (induction xs) (auto simp: Let_def case_prod_unfold)

context bounded_queue
begin

lemma fifo_order:
  assumes "invar s" and "contents s = []" and "length xs \<le> cap s" and "\<forall>x \<in> set xs. valid x"
  shows "\<exists>s'. queue_run enq deq s (map Enq xs @ replicate (length xs) Deq) =
     Some (map (\<lambda>_. Accepted True) xs @ map (\<lambda>x. Taken (Some x)) xs, s') \<and> contents s' = []"
  using run_refines [OF assms(1), of "map Enq xs @ replicate (length xs) Deq"] assms(2-4)
  by (auto simp: spec_run_enqs spec_run_deqs [where q = "[]", simplified])

end

end
