(* ===== verification/Fifo.thy ===== *)
theory Fifo
  imports Ring_Queue
begin

text \<open>
  The byte queue \<open>DLL/owfifo64\<close>: a ring over storage the caller provides. The record
  \<open>owfifo_t\<close> is the C structure; its \<open>buf\<close> is the caller's array. The operations are
  the seven of the library, with every early return. The invariant \<open>owfifo_inv\<close> holds
  after \<open>owfifo_init\<close> on an array of at least \<open>capacity\<close> bytes; under it no operation
  has undefined behaviour, and the library implements a bounded queue of bytes.
\<close>

section \<open>State and operations\<close>

record owfifo_t =
  buf :: "u8 list"
  capacity :: u32
  head :: u32
  tail :: u32
  used :: u32
  initialized :: bool

definition owfifo_init :: "owfifo_t ptr \<Rightarrow> u8 list ptr \<Rightarrow> u32 \<Rightarrow> bool \<times> owfifo_t ptr" where
  "owfifo_init fifo b cap =
     (case (fifo, b) of
        (Ref f, Ref bytes) \<Rightarrow>
          if cap = 0 then (False, fifo)
          else (True, Ref (f\<lparr>buf := bytes, capacity := cap, head := 0, tail := 0, used := 0,
                             initialized := True\<rparr>))
      | _ \<Rightarrow> (False, fifo))"

definition owfifo_push :: "owfifo_t ptr \<Rightarrow> u8 \<Rightarrow> (bool \<times> owfifo_t ptr) comp" where
  "owfifo_push fifo v =
     (case fifo of
        NULL \<Rightarrow> Some (False, fifo)
      | Ref f \<Rightarrow>
          if \<not> initialized f then Some (False, fifo)
          else if used f \<ge> capacity f then Some (False, fifo)
          else do {
            b \<leftarrow> c_wr (buf f) (unat (tail f)) v;
            t \<leftarrow> c_mod (tail f + 1) (capacity f);
            Some (True, Ref (f\<lparr>buf := b, tail := t, used := used f + 1\<rparr>))
          })"

definition owfifo_pop :: "owfifo_t ptr \<Rightarrow> u8 ptr \<Rightarrow> (bool \<times> owfifo_t ptr \<times> u8 ptr) comp" where
  "owfifo_pop fifo out =
     (case (fifo, out) of
        (Ref f, Ref _) \<Rightarrow>
          if \<not> initialized f then Some (False, fifo, out)
          else if used f = 0 then Some (False, fifo, out)
          else do {
            v \<leftarrow> c_rd (buf f) (unat (head f));
            h \<leftarrow> c_mod (head f + 1) (capacity f);
            Some (True, Ref (f\<lparr>head := h, used := used f - 1\<rparr>), Ref v)
          }
      | _ \<Rightarrow> Some (False, fifo, out))"

definition owfifo_peek :: "owfifo_t ptr \<Rightarrow> u8 ptr \<Rightarrow> (bool \<times> u8 ptr) comp" where
  "owfifo_peek fifo out =
     (case (fifo, out) of
        (Ref f, Ref _) \<Rightarrow>
          if \<not> initialized f then Some (False, out)
          else if used f = 0 then Some (False, out)
          else do { v \<leftarrow> c_rd (buf f) (unat (head f)); Some (True, Ref v) }
      | _ \<Rightarrow> Some (False, out))"

definition owfifo_count :: "owfifo_t ptr \<Rightarrow> u32" where
  "owfifo_count fifo =
     (case fifo of NULL \<Rightarrow> 0 | Ref f \<Rightarrow> if \<not> initialized f then 0 else used f)"

definition owfifo_is_empty :: "owfifo_t ptr \<Rightarrow> bool" where
  "owfifo_is_empty fifo =
     (case fifo of NULL \<Rightarrow> True | Ref f \<Rightarrow> if \<not> initialized f then True else used f = 0)"

definition owfifo_is_full :: "owfifo_t ptr \<Rightarrow> bool" where
  "owfifo_is_full fifo =
     (case fifo of NULL \<Rightarrow> False | Ref f \<Rightarrow> if \<not> initialized f then False else used f \<ge> capacity f)"

section \<open>Invariant and abstraction\<close>

text \<open>The ring is the first \<open>capacity\<close> bytes of the caller's array.\<close>

definition owfifo_list :: "owfifo_t \<Rightarrow> u8 list" where
  "owfifo_list f = ring_list (take (unat (capacity f)) (buf f)) (unat (head f)) (unat (used f))"

definition owfifo_inv :: "owfifo_t \<Rightarrow> bool" where
  "owfifo_inv f \<longleftrightarrow>
     initialized f \<and> unat (capacity f) \<le> length (buf f) \<and>
     ring_ok (capacity f) (head f) (tail f) (used f)"

abbreviation owfifo_cap :: "owfifo_t \<Rightarrow> nat" where
  "owfifo_cap f \<equiv> unat (capacity f)"

lemma length_owfifo_list [simp]: "length (owfifo_list f) = unat (used f)"
  by (simp add: owfifo_list_def)

lemma owfifo_init_inv:
  assumes "cap \<noteq> 0" and "unat cap \<le> length bytes"
  shows "\<exists>f'. owfifo_init (Ref f) (Ref bytes) cap = (True, Ref f') \<and> owfifo_inv f' \<and>
     owfifo_list f' = [] \<and> capacity f' = cap"
  using assms by (auto simp: owfifo_init_def owfifo_inv_def owfifo_list_def ring_ok_start)

section \<open>The queue interface\<close>

text \<open>\<open>owfifo_push\<close> and \<open>owfifo_pop\<close> on an object, seen as the operations of a queue.\<close>

definition fifo_enq :: "owfifo_t \<Rightarrow> u8 \<Rightarrow> (bool \<times> owfifo_t) comp" where
  "fifo_enq f v =
     do { (ok, p) \<leftarrow> owfifo_push (Ref f) v;
          case p of NULL \<Rightarrow> None | Ref f' \<Rightarrow> Some (ok, f') }"

definition fifo_deq :: "owfifo_t \<Rightarrow> (u8 option \<times> owfifo_t) comp" where
  "fifo_deq f =
     do { (ok, p, out) \<leftarrow> owfifo_pop (Ref f) (Ref 0);
          case (p, out) of
            (Ref f', Ref v) \<Rightarrow> Some (if ok then Some v else None, f')
          | _ \<Rightarrow> None }"

lemma owfifo_push_room:
  assumes inv: "owfifo_inv f" and room: "used f < capacity f"
  shows "\<exists>f'. owfifo_push (Ref f) v = Some (True, Ref f') \<and> owfifo_inv f' \<and>
     owfifo_list f' = owfifo_list f @ [v] \<and> capacity f' = capacity f"
proof -
  have ring: "ring_ok (capacity f) (head f) (tail f) (used f)"
    and init: "initialized f" and len: "unat (capacity f) \<le> length (buf f)"
    using inv by (auto simp: owfifo_inv_def)
  show ?thesis
    using room init len ring_okD [OF ring] ring_ok_push [OF ring room]
      ring_list_push [OF ring room, of "take (unat (capacity f)) (buf f)" v]
    by (simp add: owfifo_push_def owfifo_inv_def owfifo_list_def take_update_swap min_absorb2 not_le)
qed

lemma owfifo_pop_some:
  assumes inv: "owfifo_inv f" and some: "owfifo_list f = x # xs"
  shows "\<exists>f'. owfifo_pop (Ref f) (Ref o0) = Some (True, Ref f', Ref x) \<and> owfifo_inv f' \<and>
     owfifo_list f' = xs \<and> capacity f' = capacity f"
proof -
  have ring: "ring_ok (capacity f) (head f) (tail f) (used f)"
    and init: "initialized f" and len: "unat (capacity f) \<le> length (buf f)"
    using inv by (auto simp: owfifo_inv_def)
  have ne: "used f \<noteq> 0" using some by (auto simp: owfifo_list_def)
  show ?thesis
    using ne init len some ring_okD [OF ring] ring_ok_pop [OF ring ne]
      ring_list_pop [OF ring ne, of "take (unat (capacity f)) (buf f)"]
    by (simp add: owfifo_pop_def owfifo_inv_def owfifo_list_def min_absorb2)
qed

lemma owfifo_full: "owfifo_inv f \<Longrightarrow> \<not> used f < capacity f \<Longrightarrow> owfifo_push (Ref f) v = Some (False, Ref f)"
  by (simp add: owfifo_push_def owfifo_inv_def not_less)

lemma owfifo_empty: "owfifo_inv f \<Longrightarrow> owfifo_list f = [] \<Longrightarrow> owfifo_pop (Ref f) p = Some (False, Ref f, p)"
  by (cases p) (auto simp: owfifo_pop_def owfifo_inv_def owfifo_list_def ring_list_def unat_eq_0)

interpretation fifo: bounded_queue fifo_enq fifo_deq owfifo_list owfifo_inv owfifo_cap
  "\<lambda>_. True"
proof
  fix f :: owfifo_t and v x :: u8 and xs
  assume inv: "owfifo_inv f"
  show "\<exists>f'. fifo_enq f v = Some (True, f') \<and> owfifo_inv f' \<and> owfifo_list f' = owfifo_list f @ [v] \<and>
      owfifo_cap f' = owfifo_cap f" if "length (owfifo_list f) < owfifo_cap f"
    using owfifo_push_room [OF inv, of v] that by (auto simp: fifo_enq_def word_less_nat_alt)
  show "\<exists>f'. fifo_enq f v = Some (False, f') \<and> owfifo_inv f' \<and> owfifo_list f' = owfifo_list f \<and>
      owfifo_cap f' = owfifo_cap f" if "\<not> length (owfifo_list f) < owfifo_cap f"
    using owfifo_full [OF inv, of v] that inv by (auto simp: fifo_enq_def word_less_nat_alt)
  show "\<exists>f'. fifo_deq f = Some (Some x, f') \<and> owfifo_inv f' \<and> owfifo_list f' = xs \<and>
      owfifo_cap f' = owfifo_cap f" if "owfifo_list f = x # xs"
    using owfifo_pop_some [OF inv that, of 0] by (auto simp: fifo_deq_def)
  show "\<exists>f'. fifo_deq f = Some (None, f') \<and> owfifo_inv f' \<and> owfifo_list f' = [] \<and>
      owfifo_cap f' = owfifo_cap f" if "owfifo_list f = []"
    using owfifo_empty [OF inv that, of "Ref 0"] inv that by (auto simp: fifo_deq_def)
  show "length (owfifo_list f) \<le> owfifo_cap f"
    using inv ring_okD(3) by (auto simp: owfifo_inv_def)
qed

section \<open>Properties\<close>

text \<open>C28: After a successful \<open>owfifo_init\<close> on an array of at least \<open>capacity\<close> bytes, every
  sequence of \<open>owfifo_push\<close> and \<open>owfifo_pop\<close> calls runs without undefined behaviour and
  gives exactly the answers of a first-in first-out list bounded by \<open>capacity\<close>: a push is
  refused only when the queue is full, a pop only when it is empty, and bytes come out in the
  order they went in.\<close>

theorem owfifo_refines_queue:
  assumes "cap \<noteq> 0" and "unat cap \<le> length bytes"
  shows "\<exists>f0 f'. owfifo_init (Ref f) (Ref bytes) cap = (True, Ref f0) \<and>
     queue_run fifo_enq fifo_deq f0 ops = Some (fst (spec_run (unat cap) [] ops), f') \<and>
     owfifo_list f' = snd (spec_run (unat cap) [] ops)"
proof -
  from owfifo_init_inv [OF assms, of f] obtain f0 where
    "owfifo_init (Ref f) (Ref bytes) cap = (True, Ref f0)" "owfifo_inv f0" "owfifo_list f0 = []"
    "capacity f0 = cap" by blast
  with fifo.run_refines [of f0 ops] show ?thesis by auto
qed

theorem owfifo_refines_queue_witness:
  "\<exists>f0 f'. owfifo_init (Ref \<lparr>buf = [], capacity = 0, head = 0, tail = 0, used = 0, initialized = False\<rparr>)
       (Ref [0, 0]) 2 = (True, Ref f0) \<and>
     queue_run fifo_enq fifo_deq f0 [Enq 5, Enq 6, Enq 7, Deq, Enq 8, Deq, Deq, Deq] =
       Some ([Accepted True, Accepted True, Accepted False, Taken (Some 5), Accepted True,
              Taken (Some 6), Taken (Some 8), Taken None], f') \<and>
     owfifo_list f' = []"
  using owfifo_refines_queue [of 2 "[0, 0]"
      "\<lparr>buf = [], capacity = 0, head = 0, tail = 0, used = 0, initialized = False\<rparr>"
      "[Enq 5, Enq 6, Enq 7, Deq, Enq 8, Deq, Deq, Deq]"]
  by simp

text \<open>On a consistent queue the observers report the abstract queue: \<open>owfifo_count\<close> its
  length, \<open>owfifo_is_empty\<close> and \<open>owfifo_is_full\<close> its extremes, and \<open>owfifo_peek\<close> its
  oldest byte without removing it, failing only on the empty queue.\<close>

theorem owfifo_observers:
  assumes "owfifo_inv f"
  shows "unat (owfifo_count (Ref f)) = length (owfifo_list f) \<and>
     owfifo_is_empty (Ref f) = (owfifo_list f = []) \<and>
     owfifo_is_full (Ref f) = (length (owfifo_list f) = unat (capacity f)) \<and>
     owfifo_peek (Ref f) (Ref v0) =
       (case owfifo_list f of [] \<Rightarrow> Some (False, Ref v0) | x # _ \<Rightarrow> Some (True, Ref x))"
proof -
  have init: "initialized f" and ring: "ring_ok (capacity f) (head f) (tail f) (used f)"
    and len: "unat (capacity f) \<le> length (buf f)"
    using assms by (auto simp: owfifo_inv_def)
  have nil: "owfifo_list f = [] \<longleftrightarrow> used f = 0"
    by (metis length_owfifo_list length_0_conv unat_eq_0)
  have full: "capacity f \<le> used f \<longleftrightarrow> unat (used f) = unat (capacity f)"
    using ring_okD(3) [OF ring] by (auto simp: word_le_nat_alt)
  show ?thesis
  proof (cases "used f = 0")
    case True
    with nil init full show ?thesis
      by (simp add: owfifo_peek_def owfifo_count_def owfifo_is_empty_def owfifo_is_full_def)
  next
    case False
    with ring_list_pop [OF ring False, of "take (unat (capacity f)) (buf f)"] init len nil full
      ring_okD [OF ring] ring_ok_pop(2) [OF ring False] show ?thesis
      by (simp add: owfifo_peek_def owfifo_list_def min_absorb2 owfifo_count_def owfifo_is_empty_def
          owfifo_is_full_def)
  qed
qed

definition fifo_example :: owfifo_t where
  "fifo_example = \<lparr>buf = [7, 9, 8], capacity = 3, head = 2, tail = 1, used = 2, initialized = True\<rparr>"

theorem owfifo_observers_witness:
  "owfifo_list fifo_example = [8, 7] \<and> owfifo_count (Ref fifo_example) = 2 \<and>
   unat (owfifo_count (Ref fifo_example)) = length (owfifo_list fifo_example) \<and>
   owfifo_peek (Ref fifo_example) (Ref 0) = Some (True, Ref 8)"
proof -
  have inv: "owfifo_inv fifo_example"
    by (simp add: owfifo_inv_def fifo_example_def ring_ok_def)
  have list: "owfifo_list fifo_example = [8, 7]"
    by (simp add: owfifo_list_def fifo_example_def ring_list_def upt_rec)
  show ?thesis
    using owfifo_observers [OF inv, of 0] list
    by (simp add: owfifo_count_def fifo_example_def)
qed

end
