(* ===== verification/Msg.thy ===== *)
theory Msg
  imports Ring_Queue
begin

text \<open>
  The message queues \<open>DLL/owmsg64\<close>: eight independent rings of sixteen message slots, with
  counters. The module's static variables \<open>g_queues\<close> and \<open>g_ready\<close> are the record
  \<open>owmsg_state\<close>, passed through every call. The theory shows that every queue is a bounded
  queue of (type, payload) pairs, that the calls on one queue leave the others alone, and
  that the counters of a queue account for every message ever accepted.
\<close>

section \<open>State\<close>

datatype owmsg_status = OWMSG_OK | OWMSG_ERR_PARAM | OWMSG_ERR_NOT_READY | OWMSG_ERR_BAD_QUEUE
  | OWMSG_ERR_FULL | OWMSG_ERR_EMPTY | OWMSG_ERR_TOO_LARGE

abbreviation OWMSG_MAX_QUEUES :: nat where "OWMSG_MAX_QUEUES \<equiv> 8"
abbreviation OWMSG_QUEUE_DEPTH :: u32 where "OWMSG_QUEUE_DEPTH \<equiv> 16"
abbreviation OWMSG_PAYLOAD_SIZE :: nat where "OWMSG_PAYLOAD_SIZE \<equiv> 256"

record owmsg_message_t =
  type :: u32
  mlen :: u32
  data :: "u8 list"

record owmsg_stats_t =
  sent :: u64
  received :: u64
  dropped :: u64
  discarded :: u64

record owmsg_queue_t =
  qhead :: u32
  qtail :: u32
  qcount :: u32
  stats :: owmsg_stats_t
  slots :: "owmsg_message_t list"

record owmsg_state =
  g_queues :: "owmsg_queue_t list"
  g_ready :: bool

text \<open>\<open>owmsg_memzero\<close> of a message slot and of a whole queue.\<close>

definition zero_message :: owmsg_message_t where
  "zero_message = \<lparr>type = 0, mlen = 0, data = replicate OWMSG_PAYLOAD_SIZE 0\<rparr>"

definition zero_queue :: owmsg_queue_t where
  "zero_queue = \<lparr>qhead = 0, qtail = 0, qcount = 0,
     stats = \<lparr>sent = 0, received = 0, dropped = 0, discarded = 0\<rparr>,
     slots = replicate (unat OWMSG_QUEUE_DEPTH) zero_message\<rparr>"

section \<open>Operations\<close>

definition owmsg_require_ready :: "owmsg_state \<Rightarrow> owmsg_status" where
  "owmsg_require_ready s = (if g_ready s then OWMSG_OK else OWMSG_ERR_NOT_READY)"

text \<open>\<open>owmsg_queue\<close>: the queue with the given id, or \<open>NULL\<close> when the id is out of range.\<close>

definition owmsg_queue :: "owmsg_state \<Rightarrow> u32 \<Rightarrow> owmsg_queue_t ptr comp" where
  "owmsg_queue s ident =
     (if unat ident \<ge> OWMSG_MAX_QUEUES then Some NULL
      else do { q \<leftarrow> c_rd (g_queues s) (unat ident); Some (Ref q) })"

definition put_queue :: "owmsg_state \<Rightarrow> u32 \<Rightarrow> owmsg_queue_t \<Rightarrow> owmsg_state" where
  "put_queue s ident q = s\<lparr>g_queues := (g_queues s)[unat ident := q]\<rparr>"

definition owmsg_init :: "owmsg_state \<Rightarrow> owmsg_status \<times> owmsg_state" where
  "owmsg_init s = (OWMSG_OK, s\<lparr>g_queues := map (\<lambda>_. zero_queue) (g_queues s), g_ready := True\<rparr>)"

definition owmsg_send ::
  "owmsg_state \<Rightarrow> u32 \<Rightarrow> u32 \<Rightarrow> u8 list ptr \<Rightarrow> u32 \<Rightarrow> (owmsg_status \<times> owmsg_state) comp" where
  "owmsg_send s ident ty dat n =
     (let st = owmsg_require_ready s in
      if st \<noteq> OWMSG_OK then Some (st, s)
      else if unat n > OWMSG_PAYLOAD_SIZE then Some (OWMSG_ERR_TOO_LARGE, s)
      else if n \<noteq> 0 \<and> dat = NULL then Some (OWMSG_ERR_PARAM, s)
      else do {
        qp \<leftarrow> owmsg_queue s ident;
        case qp of
          NULL \<Rightarrow> Some (OWMSG_ERR_BAD_QUEUE, s)
        | Ref q \<Rightarrow>
            if qcount q \<ge> OWMSG_QUEUE_DEPTH then
              Some (OWMSG_ERR_FULL,
                    put_queue s ident (q\<lparr>stats := (stats q)\<lparr>dropped := dropped (stats q) + 1\<rparr>\<rparr>))
            else do {
              slot \<leftarrow> c_rd (slots q) (unat (qtail q));
              bytes \<leftarrow> (case dat of
                          Ref src \<Rightarrow> if n \<noteq> 0 then c_memcpy (data slot) 0 src (unat n) else Some (data slot)
                        | NULL \<Rightarrow> Some (data slot));
              slots' \<leftarrow> c_wr (slots q) (unat (qtail q)) (slot\<lparr>type := ty, mlen := n, data := bytes\<rparr>);
              t \<leftarrow> c_mod (qtail q + 1) OWMSG_QUEUE_DEPTH;
              Some (OWMSG_OK,
                    put_queue s ident (q\<lparr>slots := slots', qtail := t, qcount := qcount q + 1,
                                         stats := (stats q)\<lparr>sent := sent (stats q) + 1\<rparr>\<rparr>))
            }
      })"

definition owmsg_recv ::
  "owmsg_state \<Rightarrow> u32 \<Rightarrow> owmsg_message_t ptr \<Rightarrow>
   (owmsg_status \<times> owmsg_state \<times> owmsg_message_t ptr) comp" where
  "owmsg_recv s ident out =
     (let st = owmsg_require_ready s in
      if st \<noteq> OWMSG_OK then Some (st, s, out)
      else if out = NULL then Some (OWMSG_ERR_PARAM, s, out)
      else do {
        qp \<leftarrow> owmsg_queue s ident;
        case qp of
          NULL \<Rightarrow> Some (OWMSG_ERR_BAD_QUEUE, s, out)
        | Ref q \<Rightarrow>
            if qcount q = 0 then Some (OWMSG_ERR_EMPTY, s, out)
            else do {
              m \<leftarrow> c_rd (slots q) (unat (qhead q));
              h \<leftarrow> c_mod (qhead q + 1) OWMSG_QUEUE_DEPTH;
              Some (OWMSG_OK,
                    put_queue s ident (q\<lparr>qhead := h, qcount := qcount q - 1,
                                         stats := (stats q)\<lparr>received := received (stats q) + 1\<rparr>\<rparr>),
                    Ref m)
            }
      })"

definition owmsg_peek ::
  "owmsg_state \<Rightarrow> u32 \<Rightarrow> owmsg_message_t ptr \<Rightarrow> (owmsg_status \<times> owmsg_message_t ptr) comp" where
  "owmsg_peek s ident out =
     (let st = owmsg_require_ready s in
      if st \<noteq> OWMSG_OK then Some (st, out)
      else if out = NULL then Some (OWMSG_ERR_PARAM, out)
      else do {
        qp \<leftarrow> owmsg_queue s ident;
        case qp of
          NULL \<Rightarrow> Some (OWMSG_ERR_BAD_QUEUE, out)
        | Ref q \<Rightarrow>
            if qcount q = 0 then Some (OWMSG_ERR_EMPTY, out)
            else do { m \<leftarrow> c_rd (slots q) (unat (qhead q)); Some (OWMSG_OK, Ref m) }
      })"

text \<open>
  The loop of \<open>owmsg_flush\<close>: zero the oldest slot and step, until the counter is zero. It
  ends because the counter decreases.
\<close>

function flush_loop :: "owmsg_queue_t \<Rightarrow> owmsg_queue_t comp" where
  "flush_loop q =
     (if qcount q = 0 then Some q
      else do {
        slots' \<leftarrow> c_wr (slots q) (unat (qhead q)) zero_message;
        h \<leftarrow> c_mod (qhead q + 1) OWMSG_QUEUE_DEPTH;
        flush_loop (q\<lparr>slots := slots', qhead := h, qcount := qcount q - 1\<rparr>)
      })"
  by pat_completeness auto
termination
  by (relation "measure (\<lambda>q. unat (qcount q))") (auto simp: unat_minus1)

declare flush_loop.simps [simp del]

definition owmsg_flush ::
  "owmsg_state \<Rightarrow> u32 \<Rightarrow> u32 ptr \<Rightarrow> (owmsg_status \<times> owmsg_state \<times> u32 ptr) comp" where
  "owmsg_flush s ident out =
     (let st = owmsg_require_ready s in
      if st \<noteq> OWMSG_OK then Some (st, s, out)
      else do {
        qp \<leftarrow> owmsg_queue s ident;
        case qp of
          NULL \<Rightarrow> Some (OWMSG_ERR_BAD_QUEUE, s, out)
        | Ref q \<Rightarrow>
            let n = qcount q in
            do {
              q1 \<leftarrow> flush_loop q;
              Some (OWMSG_OK,
                    put_queue s ident (q1\<lparr>qhead := 0, qtail := 0,
                      stats := (stats q1)\<lparr>discarded := discarded (stats q1) + ucast n\<rparr>\<rparr>),
                    case out of NULL \<Rightarrow> NULL | Ref _ \<Rightarrow> Ref n)
            }
      })"

definition owmsg_count :: "owmsg_state \<Rightarrow> u32 \<Rightarrow> u32 ptr \<Rightarrow> (owmsg_status \<times> u32 ptr) comp" where
  "owmsg_count s ident out =
     (let st = owmsg_require_ready s in
      if st \<noteq> OWMSG_OK then Some (st, out)
      else if out = NULL then Some (OWMSG_ERR_PARAM, out)
      else do {
        qp \<leftarrow> owmsg_queue s ident;
        case qp of NULL \<Rightarrow> Some (OWMSG_ERR_BAD_QUEUE, out) | Ref q \<Rightarrow> Some (OWMSG_OK, Ref (qcount q))
      })"

definition owmsg_get_stats ::
  "owmsg_state \<Rightarrow> u32 \<Rightarrow> owmsg_stats_t ptr \<Rightarrow> (owmsg_status \<times> owmsg_stats_t ptr) comp" where
  "owmsg_get_stats s ident out =
     (let st = owmsg_require_ready s in
      if st \<noteq> OWMSG_OK then Some (st, out)
      else if out = NULL then Some (OWMSG_ERR_PARAM, out)
      else do {
        qp \<leftarrow> owmsg_queue s ident;
        case qp of NULL \<Rightarrow> Some (OWMSG_ERR_BAD_QUEUE, out) | Ref q \<Rightarrow> Some (OWMSG_OK, Ref (stats q))
      })"

section \<open>Invariant and abstraction\<close>

definition msg_view :: "owmsg_message_t \<Rightarrow> u32 \<times> u8 list" where
  "msg_view m = (type m, take (unat (mlen m)) (data m))"

definition queue_list :: "owmsg_queue_t \<Rightarrow> (u32 \<times> u8 list) list" where
  "queue_list q = map msg_view (ring_list (slots q) (unat (qhead q)) (unat (qcount q)))"

definition message_ok :: "owmsg_message_t \<Rightarrow> bool" where
  "message_ok m \<longleftrightarrow> length (data m) = OWMSG_PAYLOAD_SIZE \<and> unat (mlen m) \<le> OWMSG_PAYLOAD_SIZE"

text \<open>
  Besides the shape of the ring, the invariant states the account of the queue, modulo the
  width of its counters: every message sent was received, was discarded by a flush, or is
  still queued.
\<close>

definition queue_inv :: "owmsg_queue_t \<Rightarrow> bool" where
  "queue_inv q \<longleftrightarrow>
     length (slots q) = unat OWMSG_QUEUE_DEPTH \<and> list_all message_ok (slots q) \<and>
     ring_ok OWMSG_QUEUE_DEPTH (qhead q) (qtail q) (qcount q) \<and>
     sent (stats q) = received (stats q) + discarded (stats q) + ucast (qcount q)"

definition owmsg_inv :: "owmsg_state \<Rightarrow> bool" where
  "owmsg_inv s \<longleftrightarrow> g_ready s \<and> length (g_queues s) = OWMSG_MAX_QUEUES \<and> list_all queue_inv (g_queues s)"

abbreviation the_queue :: "owmsg_state \<Rightarrow> u32 \<Rightarrow> owmsg_queue_t" where
  "the_queue s ident \<equiv> g_queues s ! unat ident"

lemma length_queue_list [simp]: "length (queue_list q) = unat (qcount q)"
  by (simp add: queue_list_def)

lemma queue_list_Nil_iff: "queue_list q = [] \<longleftrightarrow> qcount q = 0"
  by (metis length_queue_list length_0_conv unat_eq_0)

lemma zero_queue_inv: "queue_inv zero_queue" "queue_list zero_queue = []"
  by (simp_all add: queue_inv_def queue_list_def zero_queue_def zero_message_def message_ok_def
      ring_ok_start list_all_length)

lemma the_queue_inv: "owmsg_inv s \<Longrightarrow> unat ident < OWMSG_MAX_QUEUES \<Longrightarrow> queue_inv (the_queue s ident)"
  by (simp add: owmsg_inv_def list_all_length)

lemma put_queue_inv:
  "owmsg_inv s \<Longrightarrow> queue_inv q \<Longrightarrow> owmsg_inv (put_queue s ident q)"
  by (simp add: owmsg_inv_def put_queue_def list_all_update)

lemma the_put_queue [simp]:
  "owmsg_inv s \<Longrightarrow> unat i < OWMSG_MAX_QUEUES \<Longrightarrow>
     the_queue (put_queue s ident q) i = (if i = ident then q else the_queue s i)"
  by (auto simp: owmsg_inv_def put_queue_def nth_list_update word_unat_eq_iff)

lemma lookup_queue:
  "owmsg_inv s \<Longrightarrow> unat ident < OWMSG_MAX_QUEUES \<Longrightarrow> owmsg_queue s ident = Some (Ref (the_queue s ident))"
  by (simp add: owmsg_queue_def owmsg_inv_def)

lemma ready_ok: "owmsg_inv s \<Longrightarrow> owmsg_require_ready s = OWMSG_OK"
  by (simp add: owmsg_require_ready_def owmsg_inv_def)

lemmas msg_call = ready_ok lookup_queue

lemma ucast_u32_succ: "n < 16 \<Longrightarrow> (ucast (n + 1 :: u32) :: u64) = ucast n + 1"
  by (intro word_unat_eq_iff [THEN iffD2])
    (simp add: unat_ucast_up unat_add1_less unat_word_ariths word_less_nat_alt)

lemma ucast_u32_pred: "n \<noteq> 0 \<Longrightarrow> (ucast (n :: u32) :: u64) = ucast (n - 1) + 1"
proof -
  assume "n \<noteq> 0"
  then have "unat n = Suc (unat (n - 1))" by (simp add: unat_minus1)
  moreover have "unat n < 2 ^ 32" using unsigned_less [of n] by simp
  ultimately show ?thesis
    by (intro word_unat_eq_iff [THEN iffD2]) (simp add: unat_ucast_up unat_word_ariths)
qed

section \<open>Sending and receiving on one queue\<close>

lemma send_room:
  assumes inv: "owmsg_inv s" and qid: "unat ident < OWMSG_MAX_QUEUES"
    and room: "qcount (the_queue s ident) < OWMSG_QUEUE_DEPTH"
    and n: "unat n \<le> OWMSG_PAYLOAD_SIZE" "unat n \<le> length src"
  shows "\<exists>q'. owmsg_send s ident ty (Ref src) n = Some (OWMSG_OK, put_queue s ident q') \<and>
     queue_inv q' \<and> queue_list q' = queue_list (the_queue s ident) @ [(ty, take (unat n) src)]"
proof -
  define q where "q = the_queue s ident"
  have qinv: "queue_inv q" using the_queue_inv [OF inv qid] by (simp add: q_def)
  then have len: "length (slots q) = 16" and ok: "list_all message_ok (slots q)"
    and ring: "ring_ok OWMSG_QUEUE_DEPTH (qhead q) (qtail q) (qcount q)"
    and acc: "sent (stats q) = received (stats q) + discarded (stats q) + ucast (qcount q)"
    by (auto simp: queue_inv_def)
  have room': "qcount q < OWMSG_QUEUE_DEPTH" using room by (simp add: q_def)
  have t: "unat (qtail q) < 16" using ring_okD(2) [OF ring] by simp
  define slot where "slot = slots q ! unat (qtail q)"
  have dlen: "length (data slot) = OWMSG_PAYLOAD_SIZE"
    using ok t len by (simp add: slot_def list_all_length message_ok_def)
  define bytes where "bytes = take (unat n) src @ drop (unat n) (data slot)"
  have bytes: "(if n \<noteq> 0 then c_memcpy (data slot) 0 src (unat n) else Some (data slot)) = Some bytes"
    using n dlen by (cases "n = 0") (simp_all add: bytes_def c_memcpy_in)
  define m where "m = slot\<lparr>type := ty, mlen := n, data := bytes\<rparr>"
  have view: "msg_view m = (ty, take (unat n) src)" and mok: "message_ok m"
    using n dlen by (simp_all add: m_def msg_view_def message_ok_def bytes_def)
  define q' where "q' = q\<lparr>slots := (slots q)[unat (qtail q) := m],
    qtail := (qtail q + 1) mod OWMSG_QUEUE_DEPTH, qcount := qcount q + 1,
    stats := (stats q)\<lparr>sent := sent (stats q) + 1\<rparr>\<rparr>"
  have "owmsg_send s ident ty (Ref src) n = Some (OWMSG_OK, put_queue s ident q')"
    using room' n t len bytes
    by (simp add: owmsg_send_def msg_call [OF inv] qid q_def [symmetric] slot_def [symmetric] q'_def m_def
        not_le)
  moreover have "queue_inv q'"
    using qinv mok ring_ok_push(1) [OF ring room'] acc ucast_u32_succ [of "qcount q"] room'
    by (simp add: queue_inv_def q'_def list_all_update)
  moreover have "queue_list q' = queue_list q @ [(ty, take (unat n) src)]"
    using ring_list_push [OF ring room', of "slots q" m] len view
    by (simp add: queue_list_def q'_def)
  ultimately show ?thesis by (auto simp: q_def)
qed

lemma send_full:
  assumes inv: "owmsg_inv s" and qid: "unat ident < OWMSG_MAX_QUEUES"
    and full: "\<not> qcount (the_queue s ident) < OWMSG_QUEUE_DEPTH"
    and n: "unat n \<le> OWMSG_PAYLOAD_SIZE"
  shows "\<exists>q'. owmsg_send s ident ty (Ref src) n = Some (OWMSG_ERR_FULL, put_queue s ident q') \<and>
     queue_inv q' \<and> queue_list q' = queue_list (the_queue s ident)"
proof (intro exI conjI)
  let ?q = "the_queue s ident"
  let ?q' = "?q\<lparr>stats := (stats ?q)\<lparr>dropped := dropped (stats ?q) + 1\<rparr>\<rparr>"
  show "owmsg_send s ident ty (Ref src) n = Some (OWMSG_ERR_FULL, put_queue s ident ?q')"
    using full n by (simp add: owmsg_send_def msg_call [OF inv] qid not_less)
  show "queue_inv ?q'" "queue_list ?q' = queue_list ?q"
    using the_queue_inv [OF inv qid] by (simp_all add: queue_inv_def queue_list_def)
qed

lemma recv_some:
  assumes inv: "owmsg_inv s" and qid: "unat ident < OWMSG_MAX_QUEUES"
    and some: "queue_list (the_queue s ident) = x # xs"
  shows "\<exists>q' m. owmsg_recv s ident (Ref m0) = Some (OWMSG_OK, put_queue s ident q', Ref m) \<and>
     msg_view m = x \<and> queue_inv q' \<and> queue_list q' = xs"
proof -
  define q where "q = the_queue s ident"
  have qinv: "queue_inv q" using the_queue_inv [OF inv qid] by (simp add: q_def)
  then have len: "length (slots q) = 16"
    and ring: "ring_ok OWMSG_QUEUE_DEPTH (qhead q) (qtail q) (qcount q)"
    and acc: "sent (stats q) = received (stats q) + discarded (stats q) + ucast (qcount q)"
    by (auto simp: queue_inv_def)
  have ne: "qcount q \<noteq> 0" using some by (metis list.discI q_def queue_list_Nil_iff)
  define q' where "q' = q\<lparr>qhead := (qhead q + 1) mod OWMSG_QUEUE_DEPTH, qcount := qcount q - 1,
    stats := (stats q)\<lparr>received := received (stats q) + 1\<rparr>\<rparr>"
  have split: "queue_list q = msg_view (slots q ! unat (qhead q)) # queue_list q'"
    using ring_list_pop [OF ring ne, of "slots q"] len by (simp add: queue_list_def q'_def)
  have "owmsg_recv s ident (Ref m0) =
      Some (OWMSG_OK, put_queue s ident q', Ref (slots q ! unat (qhead q)))"
    using ne ring_okD(1) [OF ring] len
    by (simp add: owmsg_recv_def msg_call [OF inv] qid q_def [symmetric] q'_def)
  moreover have "queue_inv q'"
    using qinv ring_ok_pop(1) [OF ring ne] acc ucast_u32_pred [OF ne]
    by (simp add: queue_inv_def q'_def)
  ultimately show ?thesis using split some by (auto simp: q_def)
qed

lemma recv_empty:
  assumes "owmsg_inv s" and "unat ident < OWMSG_MAX_QUEUES" and "queue_list (the_queue s ident) = []"
  shows "owmsg_recv s ident (Ref m0) = Some (OWMSG_ERR_EMPTY, s, Ref m0)"
  using assms by (simp add: owmsg_recv_def msg_call queue_list_Nil_iff)

section \<open>Flushing a queue\<close>

lemma flush_loop_done:
  assumes "length (slots q) = 16" and "list_all message_ok (slots q)" and "unat (qhead q) < 16"
  shows "\<exists>q1. flush_loop q = Some q1 \<and> qcount q1 = 0 \<and> stats q1 = stats q \<and>
     length (slots q1) = 16 \<and> list_all message_ok (slots q1)"
  using assms
proof (induction q rule: flush_loop.induct)
  case (1 q)
  show ?case
  proof (cases "qcount q = 0")
    case True
    with "1.prems" show ?thesis by (simp add: flush_loop.simps [of q])
  next
    case False
    have "message_ok zero_message" by (simp add: message_ok_def zero_message_def)
    moreover have "unat ((qhead q + 1) mod (16::u32)) < 16"
      by (simp add: unat_mod)
    ultimately show ?thesis
      using "1.IH" [OF False, of "(slots q)[unat (qhead q) := zero_message]" "(qhead q + 1) mod 16"]
        "1.prems" False
      by (simp add: flush_loop.simps [of q] list_all_update)
  qed
qed

lemma flush_queue:
  assumes inv: "owmsg_inv s" and qid: "unat ident < OWMSG_MAX_QUEUES"
  shows "\<exists>q'. owmsg_flush s ident out =
       Some (OWMSG_OK, put_queue s ident q',
             case out of NULL \<Rightarrow> NULL | Ref _ \<Rightarrow> Ref (qcount (the_queue s ident))) \<and>
     queue_inv q' \<and> queue_list q' = []"
proof -
  define q where "q = the_queue s ident"
  have qinv: "queue_inv q" using the_queue_inv [OF inv qid] by (simp add: q_def)
  then have len: "length (slots q) = 16" and ok: "list_all message_ok (slots q)"
    and ring: "ring_ok OWMSG_QUEUE_DEPTH (qhead q) (qtail q) (qcount q)"
    and acc: "sent (stats q) = received (stats q) + discarded (stats q) + ucast (qcount q)"
    by (auto simp: queue_inv_def)
  obtain q1 where q1: "flush_loop q = Some q1" "qcount q1 = 0" "stats q1 = stats q"
    "length (slots q1) = 16" "list_all message_ok (slots q1)"
    using flush_loop_done [OF len ok] ring_okD(1) [OF ring] by auto
  define q' where "q' = q1\<lparr>qhead := 0, qtail := 0,
    stats := (stats q1)\<lparr>discarded := discarded (stats q1) + ucast (qcount q)\<rparr>\<rparr>"
  have "queue_inv q'" "queue_list q' = []"
    using q1 acc by (simp_all add: q'_def queue_inv_def queue_list_Nil_iff ring_ok_start)
  moreover have "owmsg_flush s ident out = Some (OWMSG_OK, put_queue s ident q',
      case out of NULL \<Rightarrow> NULL | Ref _ \<Rightarrow> Ref (qcount (the_queue s ident)))"
    using q1 by (simp add: owmsg_flush_def msg_call [OF inv] qid q_def q'_def Let_def)
  ultimately show ?thesis by blast
qed

section \<open>The queue interface\<close>

definition msg_enq :: "u32 \<Rightarrow> owmsg_state \<Rightarrow> u32 \<times> u8 list \<Rightarrow> (bool \<times> owmsg_state) comp" where
  "msg_enq ident s m =
     do { (st, s') \<leftarrow> owmsg_send s ident (fst m) (Ref (snd m)) (of_nat (length (snd m)));
          if st = OWMSG_OK then Some (True, s')
          else if st = OWMSG_ERR_FULL then Some (False, s') else None }"

definition msg_deq :: "u32 \<Rightarrow> owmsg_state \<Rightarrow> ((u32 \<times> u8 list) option \<times> owmsg_state) comp" where
  "msg_deq ident s =
     do { (st, s', out) \<leftarrow> owmsg_recv s ident (Ref zero_message);
          case out of
            NULL \<Rightarrow> None
          | Ref m \<Rightarrow> if st = OWMSG_OK then Some (Some (msg_view m), s')
                     else if st = OWMSG_ERR_EMPTY then Some (None, s') else None }"

definition msg_valid :: "u32 \<times> u8 list \<Rightarrow> bool" where
  "msg_valid m \<longleftrightarrow> length (snd m) \<le> OWMSG_PAYLOAD_SIZE"

definition msg_invar :: "u32 \<Rightarrow> owmsg_state \<Rightarrow> bool" where
  "msg_invar ident s \<longleftrightarrow> owmsg_inv s \<and> unat ident < OWMSG_MAX_QUEUES"

lemma unat_payload: "msg_valid m \<Longrightarrow> unat (of_nat (length (snd m)) :: u32) = length (snd m)"
  by (simp add: msg_valid_def unat_of_nat)

interpretation msg: bounded_queue "msg_enq ident" "msg_deq ident" "\<lambda>s. queue_list (the_queue s ident)"
  "msg_invar ident" "\<lambda>_. unat OWMSG_QUEUE_DEPTH" msg_valid for ident
proof
  fix s :: owmsg_state and m x :: "u32 \<times> u8 list" and xs
  assume "msg_invar ident s"
  then have inv: "owmsg_inv s" and qid: "unat ident < OWMSG_MAX_QUEUES"
    by (auto simp: msg_invar_def)
  show "\<exists>s'. msg_enq ident s m = Some (True, s') \<and> msg_invar ident s' \<and>
      queue_list (the_queue s' ident) = queue_list (the_queue s ident) @ [m] \<and>
      unat OWMSG_QUEUE_DEPTH = unat OWMSG_QUEUE_DEPTH"
    if v: "msg_valid m" and r: "length (queue_list (the_queue s ident)) < unat OWMSG_QUEUE_DEPTH"
  proof -
    from send_room [OF inv qid, of "of_nat (length (snd m))" "snd m" "fst m"] v r unat_payload [OF v]
    obtain q' where "owmsg_send s ident (fst m) (Ref (snd m)) (of_nat (length (snd m))) =
        Some (OWMSG_OK, put_queue s ident q')" "queue_inv q'"
        "queue_list q' = queue_list (the_queue s ident) @ [m]"
      by (auto simp: word_less_nat_alt msg_valid_def)
    with inv qid show ?thesis by (simp add: msg_enq_def msg_invar_def put_queue_inv)
  qed
  show "\<exists>s'. msg_enq ident s m = Some (False, s') \<and> msg_invar ident s' \<and>
      queue_list (the_queue s' ident) = queue_list (the_queue s ident) \<and>
      unat OWMSG_QUEUE_DEPTH = unat OWMSG_QUEUE_DEPTH"
    if v: "msg_valid m" and r: "\<not> length (queue_list (the_queue s ident)) < unat OWMSG_QUEUE_DEPTH"
  proof -
    from send_full [OF inv qid, of "of_nat (length (snd m))" "fst m" "snd m"] v r unat_payload [OF v]
    obtain q' where "owmsg_send s ident (fst m) (Ref (snd m)) (of_nat (length (snd m))) =
        Some (OWMSG_ERR_FULL, put_queue s ident q')" "queue_inv q'"
        "queue_list q' = queue_list (the_queue s ident)"
      by (auto simp: word_less_nat_alt msg_valid_def)
    with inv qid show ?thesis by (simp add: msg_enq_def msg_invar_def put_queue_inv)
  qed
  show "\<exists>s'. msg_deq ident s = Some (Some x, s') \<and> msg_invar ident s' \<and>
      queue_list (the_queue s' ident) = xs \<and> unat OWMSG_QUEUE_DEPTH = unat OWMSG_QUEUE_DEPTH"
    if "queue_list (the_queue s ident) = x # xs"
    using recv_some [OF inv qid that, of zero_message] inv qid
    by (auto simp: msg_deq_def msg_invar_def put_queue_inv)
  show "\<exists>s'. msg_deq ident s = Some (None, s') \<and> msg_invar ident s' \<and>
      queue_list (the_queue s' ident) = [] \<and> unat OWMSG_QUEUE_DEPTH = unat OWMSG_QUEUE_DEPTH"
    if "queue_list (the_queue s ident) = []"
    using recv_empty [OF inv qid that, of zero_message] inv qid that
    by (simp add: msg_deq_def msg_invar_def)
  show "length (queue_list (the_queue s ident)) \<le> unat OWMSG_QUEUE_DEPTH"
    using the_queue_inv [OF inv qid] ring_okD(3) by (fastforce simp: queue_inv_def)
qed

section \<open>Sequences of calls\<close>

datatype owmsg_call = Send u32 u32 "u8 list" u32 | Recv u32 | Flush u32

fun owmsg_step :: "owmsg_state \<Rightarrow> owmsg_call \<Rightarrow> (owmsg_status \<times> owmsg_state) comp" where
  "owmsg_step s (Send ident ty src n) = owmsg_send s ident ty (Ref src) n"
| "owmsg_step s (Recv ident) =
     do { (st, s', _) \<leftarrow> owmsg_recv s ident (Ref zero_message); Some (st, s') }"
| "owmsg_step s (Flush ident) = do { (st, s', _) \<leftarrow> owmsg_flush s ident NULL; Some (st, s') }"

text \<open>The caller's side of the contract: a payload buffer holds at least \<open>len\<close> bytes.\<close>

fun call_ok :: "owmsg_call \<Rightarrow> bool" where
  "call_ok (Send ident ty src n) \<longleftrightarrow> unat n \<le> length src"
| "call_ok _ \<longleftrightarrow> True"

fun call_queue :: "owmsg_call \<Rightarrow> u32" where
  "call_queue (Send ident ty src n) = ident"
| "call_queue (Recv ident) = ident"
| "call_queue (Flush ident) = ident"

fun owmsg_run :: "owmsg_state \<Rightarrow> owmsg_call list \<Rightarrow> owmsg_state comp" where
  "owmsg_run s [] = Some s"
| "owmsg_run s (c # cs) = do { (_, s') \<leftarrow> owmsg_step s c; owmsg_run s' cs }"

lemma bad_queue: "\<not> unat ident < OWMSG_MAX_QUEUES \<Longrightarrow> owmsg_queue s ident = Some NULL"
  by (simp add: owmsg_queue_def)

text \<open>Every call returns, and changes at most the queue it names.\<close>

lemma owmsg_step_inv:
  assumes inv: "owmsg_inv s" and ok: "call_ok c"
  shows "\<exists>st s'. owmsg_step s c = Some (st, s') \<and> owmsg_inv s' \<and>
     (s' = s \<or> (\<exists>q'. s' = put_queue s (call_queue c) q' \<and> queue_inv q'))"
proof (cases "unat (call_queue c) < OWMSG_MAX_QUEUES")
  case False
  with bad_queue [of "call_queue c" s] inv show ?thesis
    by (cases c) (auto simp: owmsg_send_def owmsg_recv_def owmsg_flush_def ready_ok Let_def)
next
  case qid: True
  show ?thesis
  proof (cases c)
    case (Send ident ty src n)
    show ?thesis
    proof (cases "unat n \<le> OWMSG_PAYLOAD_SIZE")
      case False
      with Send inv show ?thesis by (simp add: owmsg_send_def ready_ok)
    next
      case True
      with Send qid ok send_room [OF inv, of ident n src ty] send_full [OF inv, of ident n ty src]
      show ?thesis by (cases "qcount (the_queue s ident) < OWMSG_QUEUE_DEPTH")
          (auto intro: put_queue_inv [OF inv])
    qed
  next
    case (Recv ident)
    with qid have qid': "unat ident < OWMSG_MAX_QUEUES" by simp
    show ?thesis
    proof (cases "queue_list (the_queue s ident)")
      case Nil
      with recv_empty [OF inv qid'] Recv inv show ?thesis by simp
    next
      case (Cons x xs)
      from recv_some [OF inv qid' Cons, of zero_message] Recv show ?thesis
        by (auto intro: put_queue_inv [OF inv])
    qed
  next
    case (Flush ident)
    with qid flush_queue [OF inv, of ident NULL] show ?thesis
      by (auto intro: put_queue_inv [OF inv])
  qed
qed

lemma owmsg_run_inv:
  "owmsg_inv s \<Longrightarrow> list_all call_ok cs \<Longrightarrow> \<exists>s'. owmsg_run s cs = Some s' \<and> owmsg_inv s'"
proof (induction cs arbitrary: s)
  case (Cons c cs)
  with owmsg_step_inv [of s c] show ?case by auto
qed simp

lemma owmsg_init_inv:
  "length (g_queues s) = OWMSG_MAX_QUEUES \<Longrightarrow> owmsg_inv (snd (owmsg_init s))"
  by (simp add: owmsg_init_def owmsg_inv_def list_all_iff zero_queue_inv)

lemma owmsg_init_empty:
  "length (g_queues s) = OWMSG_MAX_QUEUES \<Longrightarrow> unat ident < OWMSG_MAX_QUEUES \<Longrightarrow>
     queue_list (the_queue (snd (owmsg_init s)) ident) = []"
  by (simp add: owmsg_init_def zero_queue_inv)

section \<open>Properties\<close>

text \<open>C29: After \<open>owmsg_init\<close>, any sequence of sends and receives on one queue id in range, with
  payloads of at most 256 bytes, runs without undefined behaviour and answers exactly like a
  first-in first-out list of at most sixteen (type, payload) messages; a send is refused only
  when sixteen messages are queued.\<close>

theorem owmsg_refines_queue:
  assumes "length (g_queues s) = OWMSG_MAX_QUEUES" and "unat ident < OWMSG_MAX_QUEUES"
    and "\<forall>m. Enq m \<in> set ops \<longrightarrow> msg_valid m"
  shows "\<exists>s'. queue_run (msg_enq ident) (msg_deq ident) (snd (owmsg_init s)) ops =
       Some (fst (spec_run 16 [] ops), s') \<and>
     queue_list (the_queue s' ident) = snd (spec_run 16 [] ops)"
  using msg.run_refines [of ident "snd (owmsg_init s)" ops] assms
    owmsg_init_inv [OF assms(1)] owmsg_init_empty [OF assms(1,2)]
  by (auto simp: msg_invar_def)

definition msg_boot :: owmsg_state where
  "msg_boot = \<lparr>g_queues = replicate OWMSG_MAX_QUEUES zero_queue, g_ready = False\<rparr>"

lemma length_msg_boot: "length (g_queues msg_boot) = OWMSG_MAX_QUEUES"
  by (simp add: msg_boot_def)

theorem owmsg_refines_queue_witness:
  "\<exists>s'. queue_run (msg_enq 3) (msg_deq 3)
       (snd (owmsg_init msg_boot))
       [Enq (1, [10, 11]), Enq (2, []), Deq, Deq, Deq] =
     Some ([Accepted True, Accepted True, Taken (Some (1, [10, 11])), Taken (Some (2, [])), Taken None], s') \<and>
     queue_list (the_queue s' 3) = []"
proof -
  let ?ops = "[Enq (1, [10, 11]), Enq (2, []), Deq, Deq, Deq] :: (u32 \<times> u8 list) queue_op list"
  have valid: "\<forall>m. Enq m \<in> set ?ops \<longrightarrow> msg_valid m" by (auto simp: msg_valid_def)
  have spec: "spec_run 16 [] ?ops =
      ([Accepted True, Accepted True, Taken (Some (1, [10, 11])), Taken (Some (2, [])), Taken None], [])"
    by simp
  show ?thesis
    using owmsg_refines_queue [OF length_msg_boot _ valid, of 3] unfolding spec by simp
qed

text \<open>From \<open>owmsg_init\<close> on, whatever calls are made on whatever queue ids, in range or not,
  with payload buffers of at least the stated length, no call has undefined behaviour, and on
  each of the eight queues the 64-bit counters account for every message: what was sent is what
  was received, plus what flushes discarded, plus what is still queued.\<close>

theorem owmsg_accounts:
  assumes "length (g_queues s) = OWMSG_MAX_QUEUES" and "list_all call_ok cs"
  shows "\<exists>s'. owmsg_run (snd (owmsg_init s)) cs = Some s' \<and> length (g_queues s') = OWMSG_MAX_QUEUES \<and>
     list_all (\<lambda>q. sent (stats q) = received (stats q) + discarded (stats q) + ucast (qcount q) \<and>
                   qcount q \<le> OWMSG_QUEUE_DEPTH) (g_queues s')"
proof -
  from owmsg_run_inv [OF owmsg_init_inv [OF assms(1)] assms(2)] obtain s' where
    run: "owmsg_run (snd (owmsg_init s)) cs = Some s'" and inv: "owmsg_inv s'" by blast
  have "list_all (\<lambda>q. sent (stats q) = received (stats q) + discarded (stats q) + ucast (qcount q) \<and>
      qcount q \<le> OWMSG_QUEUE_DEPTH) (g_queues s')"
    using inv by (auto simp: owmsg_inv_def queue_inv_def ring_ok_def list_all_iff)
  with run inv show ?thesis by (auto simp: owmsg_inv_def)
qed

theorem owmsg_accounts_witness:
  "\<exists>s'. owmsg_run (snd (owmsg_init msg_boot))
       [Send 0 1 [1, 2, 3] 2, Send 9 1 [] 0, Recv 0, Recv 0, Send 1 4 [5] 1, Flush 1] = Some s' \<and>
     length (g_queues s') = OWMSG_MAX_QUEUES \<and>
     list_all (\<lambda>q. sent (stats q) = received (stats q) + discarded (stats q) + ucast (qcount q) \<and>
                   qcount q \<le> OWMSG_QUEUE_DEPTH) (g_queues s')"
  by (rule owmsg_accounts [OF length_msg_boot]) simp

text \<open>Queues are isolated: a send, receive or flush on one queue id leaves every other queue,
  its messages and its counters, exactly as they were.\<close>

theorem owmsg_isolated:
  assumes "owmsg_inv s" and "call_ok c" and "owmsg_step s c = Some (st, s')" and "j \<noteq> call_queue c"
  shows "the_queue s' j = the_queue s j"
proof -
  from owmsg_step_inv [OF assms(1,2)] assms(3)
  have "s' = s \<or> (\<exists>q'. s' = put_queue s (call_queue c) q' \<and> queue_inv q')" by auto
  with assms(4) show ?thesis
    by (auto simp: put_queue_def word_unat_eq_iff)
qed

theorem owmsg_isolated_witness:
  "\<exists>st s'. owmsg_step (snd (owmsg_init msg_boot)) (Send 1 7 [1, 2] 2) = Some (st, s') \<and>
     the_queue s' 2 = the_queue (snd (owmsg_init msg_boot)) 2"
proof -
  let ?s = "snd (owmsg_init msg_boot)" and ?c = "Send 1 7 [1, 2] 2"
  have inv: "owmsg_inv ?s" by (rule owmsg_init_inv [OF length_msg_boot])
  have ok: "call_ok ?c" by simp
  from owmsg_step_inv [OF inv ok] obtain st s' where step: "owmsg_step ?s ?c = Some (st, s')"
    by blast
  show ?thesis using owmsg_isolated [OF inv ok step, of 2] step by auto
qed

end
