(* ===== verification/Free_List.thy ===== *)
theory Free_List
  imports Prelude
begin

unbundle bit_operations_syntax

text \<open>
  Fixed-size block allocators. The pool and the slab allocator of the sources thread a free
  list through the free blocks themselves: a block's first four bytes hold the index of the
  next free block, or \<open>-1\<close>. This theory has the two loops they share (the walk that looks
  for a block and the construction of the list), with the link accesses as arguments, the
  interface \<open>link_store\<close> of the link accesses with the facts on free lists that follow from
  it, and the interface \<open>block_allocator\<close> of an allocator with its refinement to a
  set of live blocks.
\<close>

section \<open>Free lists in memory\<close>

text \<open>
  \<open>free_path load m bs hp is\<close>: following the links from \<open>hp\<close> in memory \<open>m\<close> with blocks
  of \<open>bs\<close> bytes visits exactly the block indices \<open>is\<close>.
\<close>

fun free_path :: "(u8 list \<Rightarrow> nat \<Rightarrow> i32 comp) \<Rightarrow> u8 list \<Rightarrow> nat \<Rightarrow> i32 \<Rightarrow> nat list \<Rightarrow> bool" where
  "free_path load m bs hp [] \<longleftrightarrow> hp = -1"
| "free_path load m bs hp (i # is) \<longleftrightarrow>
     i < 2 ^ 31 \<and> hp = of_nat i \<and> (\<exists>nx. load m (i * bs) = Some nx \<and> free_path load m bs nx is)"

text \<open>
  The loop \<open>while (current >= 0 && guard <= free_count)\<close> that looks for a block index on
  the list. Its guard is a 32-bit counter, so nothing in the loop itself bounds it when
  \<open>free_count\<close> is the largest 32-bit value: \<open>None\<close> is an access outside the arena or no
  return.
\<close>

partial_function (option) free_walk ::
  "(u8 list \<Rightarrow> nat \<Rightarrow> i32 comp) \<Rightarrow> u8 list \<Rightarrow> nat \<Rightarrow> u32 \<Rightarrow> u32 \<Rightarrow> i32 \<Rightarrow> u32 \<Rightarrow> bool comp" where
  "free_walk load m bs free_count index current guard =
     (if 0 \<le> sint current \<and> guard \<le> free_count then
        if current = index then Some True
        else do {
          nx \<leftarrow> load m (unat current * bs);
          free_walk load m bs free_count index nx (guard + 1)
        }
      else Some False)"

text \<open>The loop \<open>for (i = count; i > 0; --i)\<close> that links every block, last to first.\<close>

fun free_build ::
  "(u8 list \<Rightarrow> nat \<Rightarrow> i32 \<Rightarrow> u8 list comp) \<Rightarrow> nat \<Rightarrow> nat \<Rightarrow> u8 list \<times> i32 \<times> u32 \<Rightarrow> (u8 list \<times> i32 \<times> u32) comp" where
  "free_build store bs 0 (m, hp, cnt) = Some (m, hp, cnt)"
| "free_build store bs (Suc index) (m, hp, cnt) =
     do { m' \<leftarrow> store m (index * bs) hp;
          free_build store bs index (m', of_nat index, cnt + 1) }"

text \<open>A link written as four bytes, low byte first, and read back.\<close>

lemma link_bytes:
  fixes v :: u32
  shows "(ucast (ucast (v AND 0xFF) :: u8) :: u32) OR push_bit 8 (ucast (ucast (drop_bit 8 v AND 0xFF) :: u8)) OR
    push_bit 16 (ucast (ucast (drop_bit 16 v AND 0xFF) :: u8)) OR
    push_bit 24 (ucast (ucast (drop_bit 24 v AND 0xFF) :: u8)) = v"
    (is "?w = v")
proof (rule bit_word_eqI)
  fix n assume "n < LENGTH(32)"
  then consider "n < 8" | "8 \<le> n \<and> n < 16" | "16 \<le> n \<and> n < 24" | "24 \<le> n \<and> n < 32"
    by fastforce
  then show "bit ?w n = bit v n"
    by cases (auto simp: and_255 bit_simps)
qed

text \<open>Different blocks share no byte.\<close>

lemma block_disjoint:
  fixes i j bs k :: nat
  assumes "i \<noteq> j" and "i * bs \<le> k" and "k < i * bs + bs"
  shows "k < j * bs \<or> j * bs + bs \<le> k"
proof (cases "i < j")
  case True
  then have "Suc i * bs \<le> j * bs" by (intro mult_le_mono1) simp
  with assms(3) show ?thesis by simp
next
  case False
  with assms(1) have "Suc j * bs \<le> i * bs" by (intro mult_le_mono1) simp
  with assms(2) show ?thesis by simp
qed

section \<open>The interface of the link accesses\<close>

text \<open>
  What the free lists rely on: a link can be stored in any four bytes of the arena, is read
  back as it was stored, and a store changes only its own four bytes; a read depends only on
  its own four bytes.
\<close>

locale link_store =
  fixes load :: "u8 list \<Rightarrow> nat \<Rightarrow> i32 comp"
    and store :: "u8 list \<Rightarrow> nat \<Rightarrow> i32 \<Rightarrow> u8 list comp"
  assumes store_load: "off + 4 \<le> length m \<Longrightarrow>
      \<exists>m'. store m off v = Some m' \<and> length m' = length m \<and> load m' off = Some v \<and>
           (\<forall>k. k < off \<or> off + 4 \<le> k \<longrightarrow> m' ! k = m ! k)"
    and load_local: "off + 4 \<le> length m \<Longrightarrow> length m' = length m \<Longrightarrow>
      (\<forall>k. off \<le> k \<and> k < off + 4 \<longrightarrow> m' ! k = m ! k) \<Longrightarrow> load m' off = load m off"
begin

text \<open>A free list does not depend on the bytes of blocks that are not on it.\<close>

lemma path_frame:
  assumes "free_path load m bs hp is" and "\<forall>i \<in> set is. i < n" and "n * bs \<le> length m" and "4 \<le> bs"
    and "length m' = length m"
    and "\<forall>i \<in> set is. \<forall>k. i * bs \<le> k \<and> k < i * bs + bs \<longrightarrow> m' ! k = m ! k"
  shows "free_path load m' bs hp is"
  using assms
proof (induction "is" arbitrary: hp)
  case (Cons i "is")
  have "Suc i * bs \<le> n * bs" using Cons.prems(2) by (intro mult_le_mono1) auto
  then have "i * bs + 4 \<le> length m" using Cons.prems(3,4) by simp
  then have "load m' (i * bs) = load m (i * bs)"
    using Cons.prems(4-6) by (intro load_local) auto
  with Cons show ?case by auto
qed simp

text \<open>Pushing a block on the list: store the old head in it and make it the head.\<close>

lemma path_push:
  assumes "free_path load m bs hp is" and "\<forall>i \<in> set is. i < n" and "n * bs \<le> length m" and "4 \<le> bs"
    and "i < n" and "i < 2 ^ 31" and "i \<notin> set is"
  shows "\<exists>m'. store m (i * bs) hp = Some m' \<and> length m' = length m \<and>
     free_path load m' bs (of_nat i) (i # is) \<and>
     (\<forall>k. k < i * bs \<or> i * bs + bs \<le> k \<longrightarrow> m' ! k = m ! k)"
proof -
  have "Suc i * bs \<le> n * bs" using assms(5) by (intro mult_le_mono1) simp
  then have off: "i * bs + 4 \<le> length m" using assms(3,4) by simp
  from store_load [OF this, of hp] obtain m' where
    m': "store m (i * bs) hp = Some m'" "length m' = length m" "load m' (i * bs) = Some hp"
      "\<forall>k. k < i * bs \<or> i * bs + 4 \<le> k \<longrightarrow> m' ! k = m ! k" by blast
  have same: "\<forall>k. k < i * bs \<or> i * bs + bs \<le> k \<longrightarrow> m' ! k = m ! k"
    using m'(4) assms(4) by auto
  have "m' ! k = m ! k" if "j \<in> set is" "j * bs \<le> k" "k < j * bs + bs" for j k
  proof -
    have "j \<noteq> i" using that(1) assms(7) by auto
    from block_disjoint [OF this that(2,3)] same show ?thesis by blast
  qed
  then have "free_path load m' bs hp is"
    using path_frame [OF assms(1-4) m'(2)] by blast
  with m' same assms(6) show ?thesis by auto
qed

text \<open>The walk finds exactly the blocks on the list, and returns.\<close>

lemma walk_correct:
  assumes "free_path load m bs hp is" and "unat g + length is \<le> unat free_count" and "idx < 2 ^ 31"
  shows "free_walk load m bs free_count (of_nat idx) hp g = Some (idx \<in> set is)"
  using assms
proof (induction "is" arbitrary: hp g)
  case Nil
  then have "\<not> 0 \<le> sint hp" by simp
  then show ?case by (simp add: free_walk.simps)
next
  case (Cons i "is")
  then obtain nx where hp: "hp = of_nat i" "i < 2 ^ 31" and nx: "load m (i * bs) = Some nx"
    "free_path load m bs nx is" by auto
  have u: "unat hp = i" using hp by (simp add: unat_of_nat)
  then have pos: "0 \<le> sint hp" using hp(2) by (simp add: sint_nonneg_iff)
  have lt: "unat g < unat free_count" using Cons.prems(2) by simp
  then have g: "g \<le> free_count" and g1: "unat (g + 1) = Suc (unat g)"
    by (auto simp: word_le_nat_alt word_less_nat_alt intro: unat_add1_less)
  have eq: "hp = of_nat idx \<longleftrightarrow> idx = i"
  proof
    assume "hp = of_nat idx"
    then have "unat hp = idx" using Cons.prems(3) by (simp add: unat_of_nat)
    then show "idx = i" using u by simp
  qed (simp add: hp(1))
  have "free_walk load m bs free_count (of_nat idx) nx (g + 1) = Some (idx \<in> set is)"
    using Cons.prems(2,3) g1 by (intro Cons.IH nx(2)) auto
  then show ?case
    by (subst free_walk.simps) (simp add: pos g eq u nx(1))
qed

lemma build_correct:
  assumes "free_path load m bs hp [k..<n]" and "n * bs \<le> length m" and "4 \<le> bs" and "n < 2 ^ 31"
    and "k \<le> n" and "unat cnt = n - k"
  shows "\<exists>m' hp' cnt'. free_build store bs k (m, hp, cnt) = Some (m', hp', cnt') \<and>
     length m' = length m \<and> free_path load m' bs hp' [0..<n] \<and> unat cnt' = n"
  using assms
proof (induction k arbitrary: m hp cnt)
  case (Suc k)
  from path_push [OF Suc.prems(1) _ Suc.prems(2,3), of k] Suc.prems(4,5)
  obtain m' where m': "store m (k * bs) hp = Some m'" "length m' = length m"
    "free_path load m' bs (of_nat k) (k # [Suc k..<n])"
    by auto
  have "k # [Suc k..<n] = [k..<n]" using Suc.prems(5) by (simp add: upt_conv_Cons)
  moreover have "unat (cnt + 1) = n - k"
    using Suc.prems(4-6) by (subst unat_add1) auto
  ultimately show ?case
    using Suc.IH [of m' "of_nat k" "cnt + 1"] m' Suc.prems by simp
qed simp

end

section \<open>Clients of an allocator\<close>

text \<open>
  What a client does: allocate, free an address (any address: a wrong or a doubly freed one
  too), and write a byte at an offset into a block it holds. The run keeps the list of the
  blocks the client holds; a write to anything else, which the client has no right to, is not
  performed.
\<close>

datatype client_op = Alloc | Free u64 | Poke u64 nat u8

datatype client_event = Got "u64 ptr" | Freed u64 bool | Wrote

fun client_run ::
  "('s \<Rightarrow> (u64 ptr \<times> 's) comp) \<Rightarrow> ('s \<Rightarrow> u64 \<Rightarrow> (bool \<times> 's) comp) \<Rightarrow>
   ('s \<Rightarrow> u64 \<Rightarrow> nat \<Rightarrow> u8 \<Rightarrow> 's comp) \<Rightarrow> nat \<Rightarrow>
   's \<Rightarrow> u64 list \<Rightarrow> client_op list \<Rightarrow> (client_event list \<times> u64 list \<times> 's) comp" where
  "client_run alloc free poke bs s live [] = Some ([], live, s)"
| "client_run alloc free poke bs s live (Alloc # ops) =
     do { (r, s1) \<leftarrow> alloc s;
          (es, live', s') \<leftarrow> client_run alloc free poke bs s1
             (case r of NULL \<Rightarrow> live | Ref p \<Rightarrow> p # live) ops;
          Some (Got r # es, live', s') }"
| "client_run alloc free poke bs s live (Free p # ops) =
     do { (ok, s1) \<leftarrow> free s p;
          (es, live', s') \<leftarrow> client_run alloc free poke bs s1
             (if ok then remove1 p live else live) ops;
          Some (Freed p ok # es, live', s') }"
| "client_run alloc free poke bs s live (Poke p j v # ops) =
     do { s1 \<leftarrow> (if p \<in> set live \<and> j < bs then poke s p j v else Some s);
          (es, live', s') \<leftarrow> client_run alloc free poke bs s1 live ops;
          Some (Wrote # es, live', s') }"

text \<open>
  The specification of a trace, for an allocator of the blocks \<open>B\<close> of which \<open>L\<close> are live:
  an allocation returns a block that is not live, and \<open>NULL\<close> only when every block is live;
  a free succeeds exactly on a live block.
\<close>

fun legal_trace :: "u64 set \<Rightarrow> u64 set \<Rightarrow> client_event list \<Rightarrow> bool" where
  "legal_trace B L [] \<longleftrightarrow> True"
| "legal_trace B L (Got NULL # es) \<longleftrightarrow> L = B \<and> legal_trace B L es"
| "legal_trace B L (Got (Ref p) # es) \<longleftrightarrow> p \<in> B \<and> p \<notin> L \<and> legal_trace B (insert p L) es"
| "legal_trace B L (Freed p ok # es) \<longleftrightarrow>
     (ok \<longleftrightarrow> p \<in> L) \<and> legal_trace B (if ok then L - {p} else L) es"
| "legal_trace B L (Wrote # es) \<longleftrightarrow> legal_trace B L es"

section \<open>The interface of an allocator\<close>

locale block_allocator =
  fixes alloc :: "'s \<Rightarrow> (u64 ptr \<times> 's) comp"
    and free :: "'s \<Rightarrow> u64 \<Rightarrow> (bool \<times> 's) comp"
    and poke :: "'s \<Rightarrow> u64 \<Rightarrow> nat \<Rightarrow> u8 \<Rightarrow> 's comp"
    and invar :: "'s \<Rightarrow> bool"
    and blocks :: "'s \<Rightarrow> u64 set"
    and avail :: "'s \<Rightarrow> u64 set"
    and bsize :: "'s \<Rightarrow> nat"
  assumes avail_sub: "invar s \<Longrightarrow> avail s \<subseteq> blocks s"
    and alloc_some: "invar s \<Longrightarrow> avail s \<noteq> {} \<Longrightarrow>
      \<exists>p s'. alloc s = Some (Ref p, s') \<and> invar s' \<and> p \<in> avail s \<and> avail s' = avail s - {p} \<and>
             blocks s' = blocks s \<and> bsize s' = bsize s"
    and alloc_none: "invar s \<Longrightarrow> avail s = {} \<Longrightarrow> alloc s = Some (NULL, s)"
    and free_live: "invar s \<Longrightarrow> p \<in> blocks s - avail s \<Longrightarrow>
      \<exists>s'. free s p = Some (True, s') \<and> invar s' \<and> avail s' = insert p (avail s) \<and>
           blocks s' = blocks s \<and> bsize s' = bsize s"
    and free_wrong: "invar s \<Longrightarrow> p \<notin> blocks s - avail s \<Longrightarrow> free s p = Some (False, s)"
    and poke_live: "invar s \<Longrightarrow> p \<in> blocks s - avail s \<Longrightarrow> j < bsize s \<Longrightarrow>
      \<exists>s'. poke s p j v = Some s' \<and> invar s' \<and> avail s' = avail s \<and> blocks s' = blocks s \<and>
           bsize s' = bsize s"
begin

lemma run_legal:
  assumes "invar s" and "distinct live" and "set live = blocks s - avail s"
  shows "\<exists>es live' s'. client_run alloc free poke (bsize s) s live ops = Some (es, live', s') \<and>
     invar s' \<and> distinct live' \<and> set live' = blocks s' - avail s' \<and> blocks s' = blocks s \<and>
     legal_trace (blocks s) (set live) es"
  using assms
proof (induction ops arbitrary: s live)
  case Nil
  then show ?case by auto
next
  case (Cons op ops)
  note inv = Cons.prems(1) and live = Cons.prems(2,3)
  show ?case
  proof (cases op)
    case Alloc
    show ?thesis
    proof (cases "avail s = {}")
      case True
      from Cons.IH [OF Cons.prems] alloc_none [OF inv True] True live Alloc show ?thesis by auto
    next
      case False
      from alloc_some [OF inv False] obtain p s1 where s1: "alloc s = Some (Ref p, s1)" "invar s1"
        "p \<in> avail s" "avail s1 = avail s - {p}" "blocks s1 = blocks s" "bsize s1 = bsize s"
        by blast
      have l1: "distinct (p # live)" "set (p # live) = blocks s1 - avail s1"
        using live s1 avail_sub [OF inv] by auto
      from Cons.IH [OF s1(2) l1] s1 live Alloc avail_sub [OF inv] show ?thesis by auto
    qed
  next
    case (Free p)
    show ?thesis
    proof (cases "p \<in> blocks s - avail s")
      case True
      from free_live [OF inv True] obtain s1 where s1: "free s p = Some (True, s1)" "invar s1"
        "avail s1 = insert p (avail s)" "blocks s1 = blocks s" "bsize s1 = bsize s" by blast
      have l1: "distinct (remove1 p live)" "set (remove1 p live) = blocks s1 - avail s1"
        using live s1 by (auto simp: distinct_remove1)
      from Cons.IH [OF s1(2) l1] s1 live True Free show ?thesis by auto
    next
      case False
      from Cons.IH [OF Cons.prems] free_wrong [OF inv False] live False Free show ?thesis by auto
    qed
  next
    case (Poke p j v)
    show ?thesis
    proof (cases "p \<in> set live \<and> j < bsize s")
      case True
      with live have "p \<in> blocks s - avail s" by simp
      from poke_live [OF inv this conjunct2 [OF True], of v] obtain s1 where
        s1: "poke s p j v = Some s1" "invar s1" "avail s1 = avail s" "blocks s1 = blocks s"
          "bsize s1 = bsize s" by blast
      with live have "set live = blocks s1 - avail s1" by simp
      from Cons.IH [OF s1(2) live(1) this] s1 True Poke show ?thesis by auto
    next
      case False
      from Cons.IH [OF Cons.prems] False Poke show ?thesis by auto
    qed
  qed
qed

end

end
