(* ===== verification/Pool.thy ===== *)
theory Pool
  imports Free_List
begin

unbundle bit_operations_syntax

text \<open>
  The fixed-size block pool \<open>DLL/owpool64\<close>. The caller's arena is a base address and its
  bytes; a pointer to a block is an address. Links are stored in the blocks byte by byte, as
  in the code. The invariant \<open>pool_inv\<close> says that the links form a list of distinct blocks
  and that the counters agree with it; the pool is shown to implement \<open>block_allocator\<close>:
  no block is handed out twice, a wrong or a doubly freed address is rejected, and a client
  writing into the blocks it holds cannot damage the free list.
\<close>

section \<open>State and operations\<close>

record owpool_t =
  arena_base :: u64
  arena :: "u8 list"
  block_size :: u32
  block_count :: u32
  free_head :: i32
  free_count :: u32
  in_use :: u32
  high_water :: u32
  total_allocs :: u64
  total_frees :: u64
  initialized :: bool

record owpool_stats_t =
  st_total_allocs :: u64
  st_total_frees :: u64
  st_in_use :: u32
  st_high_water :: u32
  st_capacity :: u32

abbreviation OWPOOL_MIN_BLOCK :: u32 where "OWPOOL_MIN_BLOCK \<equiv> 4"

definition pool_store_next :: "u8 list \<Rightarrow> nat \<Rightarrow> i32 \<Rightarrow> u8 list comp" where
  "pool_store_next m block v =
     do { m0 \<leftarrow> c_wr m block (ucast (v AND 0xFF));
          m1 \<leftarrow> c_wr m0 (block + 1) (ucast (drop_bit 8 v AND 0xFF));
          m2 \<leftarrow> c_wr m1 (block + 2) (ucast (drop_bit 16 v AND 0xFF));
          c_wr m2 (block + 3) (ucast (drop_bit 24 v AND 0xFF)) }"

definition pool_load_next :: "u8 list \<Rightarrow> nat \<Rightarrow> i32 comp" where
  "pool_load_next m block =
     do { b0 \<leftarrow> c_rd m block;
          b1 \<leftarrow> c_rd m (block + 1);
          b2 \<leftarrow> c_rd m (block + 2);
          b3 \<leftarrow> c_rd m (block + 3);
          Some (ucast b0 OR push_bit 8 (ucast b1) OR push_bit 16 (ucast b2) OR push_bit 24 (ucast b3)) }"

text \<open>The offset of a block in the arena; its address is \<open>arena_base\<close> plus the offset.\<close>

definition pool_block_at :: "owpool_t \<Rightarrow> u32 \<Rightarrow> nat" where
  "pool_block_at pool index = unat index * unat (block_size pool)"

definition pool_block_is_free :: "owpool_t \<Rightarrow> u32 \<Rightarrow> bool comp" where
  "pool_block_is_free pool index =
     free_walk pool_load_next (arena pool) (unat (block_size pool)) (free_count pool) index
       (free_head pool) 0"

definition pool_rebuild :: "owpool_t \<Rightarrow> owpool_t comp" where
  "pool_rebuild pool =
     do { (m, h, cnt) \<leftarrow> free_build pool_store_next (unat (block_size pool)) (unat (block_count pool))
            (arena pool, -1, 0);
          Some (pool\<lparr>arena := m, free_head := h, free_count := cnt\<rparr>) }"

definition owpool_init ::
  "owpool_t ptr \<Rightarrow> (u64 \<times> u8 list) ptr \<Rightarrow> u32 \<Rightarrow> u32 \<Rightarrow> (bool \<times> owpool_t ptr) comp" where
  "owpool_init pool mem bsize bcount =
     (case (pool, mem) of
        (Ref p, Ref (base, bytes)) \<Rightarrow>
          if bsize < OWPOOL_MIN_BLOCK \<or> bcount = 0 then Some (False, pool)
          else if bcount > 0x7FFFFFFF then Some (False, pool)
          else do {
            p1 \<leftarrow> pool_rebuild (p\<lparr>arena_base := base, arena := bytes, block_size := bsize,
                    block_count := bcount, in_use := 0, high_water := 0, total_allocs := 0,
                    total_frees := 0, free_head := -1, free_count := 0\<rparr>);
            Some (True, Ref (p1\<lparr>initialized := True\<rparr>))
          }
      | _ \<Rightarrow> Some (False, pool))"

definition owpool_alloc :: "owpool_t ptr \<Rightarrow> (u64 ptr \<times> owpool_t ptr) comp" where
  "owpool_alloc pool =
     (case pool of
        NULL \<Rightarrow> Some (NULL, pool)
      | Ref p \<Rightarrow>
          if \<not> initialized p \<or> sint (free_head p) < 0 then Some (NULL, pool)
          else
            let index = free_head p; block = pool_block_at p index in
            do {
              h \<leftarrow> pool_load_next (arena p) block;
              Some (Ref (arena_base p + of_nat block),
                    Ref (p\<lparr>free_head := h, free_count := free_count p - 1, in_use := in_use p + 1,
                           total_allocs := total_allocs p + 1,
                           high_water := (if in_use p + 1 > high_water p then in_use p + 1
                                          else high_water p)\<rparr>))
            })"

definition owpool_free :: "owpool_t ptr \<Rightarrow> u64 ptr \<Rightarrow> (bool \<times> owpool_t ptr) comp" where
  "owpool_free pool ptr =
     (case (pool, ptr) of
        (Ref p, Ref block) \<Rightarrow>
          if \<not> initialized p then Some (False, pool)
          else if block < arena_base p then Some (False, pool)
          else
            let offset = block - arena_base p in
            do {
              r \<leftarrow> c_mod offset (ucast (block_size p));
              if r \<noteq> 0 then Some (False, pool)
              else do {
                index \<leftarrow> c_div offset (ucast (block_size p));
                if index \<ge> ucast (block_count p) then Some (False, pool)
                else do {
                  isfree \<leftarrow> pool_block_is_free p (ucast index);
                  if isfree then Some (False, pool)
                  else do {
                    m \<leftarrow> pool_store_next (arena p) (unat offset) (free_head p);
                    Some (True, Ref (p\<lparr>arena := m, free_head := ucast index,
                            free_count := free_count p + 1, total_frees := total_frees p + 1,
                            in_use := (if in_use p > 0 then in_use p - 1 else in_use p)\<rparr>))
                  }
                }
              }
            }
      | _ \<Rightarrow> Some (False, pool))"

definition owpool_reset :: "owpool_t ptr \<Rightarrow> (bool \<times> owpool_t ptr) comp" where
  "owpool_reset pool =
     (case pool of
        NULL \<Rightarrow> Some (False, pool)
      | Ref p \<Rightarrow>
          if \<not> initialized p then Some (False, pool)
          else do {
            p1 \<leftarrow> pool_rebuild p;
            Some (True, Ref (p1\<lparr>in_use := 0, high_water := 0\<rparr>))
          })"

definition owpool_stats :: "owpool_t ptr \<Rightarrow> owpool_stats_t ptr \<Rightarrow> bool \<times> owpool_stats_t ptr" where
  "owpool_stats pool out =
     (case (pool, out) of
        (Ref p, Ref _) \<Rightarrow>
          if \<not> initialized p then (False, out)
          else (True, Ref \<lparr>st_total_allocs = total_allocs p, st_total_frees = total_frees p,
                 st_in_use = in_use p, st_high_water = high_water p, st_capacity = block_count p\<rparr>)
      | _ \<Rightarrow> (False, out))"

section \<open>Links\<close>

interpretation pool_link: link_store pool_load_next pool_store_next
proof
  fix off :: nat and m m' :: "u8 list" and v :: i32
  assume off: "off + 4 \<le> length m"
  show "\<exists>m'. pool_store_next m off v = Some m' \<and> length m' = length m \<and>
      pool_load_next m' off = Some v \<and> (\<forall>k. k < off \<or> off + 4 \<le> k \<longrightarrow> m' ! k = m ! k)"
    using off by (auto simp: pool_store_next_def pool_load_next_def link_bytes)
  show "pool_load_next m' off = pool_load_next m off" if "length m' = length m"
    "\<forall>k. off \<le> k \<and> k < off + 4 \<longrightarrow> m' ! k = m ! k"
    using off that by (simp add: pool_load_next_def)
qed

section \<open>Invariant\<close>

definition pool_addr :: "owpool_t \<Rightarrow> nat \<Rightarrow> u64" where
  "pool_addr p i = arena_base p + of_nat (i * unat (block_size p))"

definition pool_shape :: "owpool_t \<Rightarrow> bool" where
  "pool_shape p \<longleftrightarrow>
     initialized p \<and> 4 \<le> unat (block_size p) \<and> unat (block_count p) < 2 ^ 31 \<and>
     unat (block_count p) * unat (block_size p) \<le> length (arena p) \<and>
     unat (arena_base p) + length (arena p) < 2 ^ 64"

definition pool_free_list :: "owpool_t \<Rightarrow> nat list \<Rightarrow> bool" where
  "pool_free_list p fl \<longleftrightarrow>
     free_path pool_load_next (arena p) (unat (block_size p)) (free_head p) fl \<and> distinct fl \<and>
     (\<forall>i \<in> set fl. i < unat (block_count p)) \<and> unat (free_count p) = length fl \<and>
     unat (in_use p) + length fl = unat (block_count p) \<and> in_use p \<le> high_water p"

definition pool_inv :: "owpool_t \<Rightarrow> bool" where
  "pool_inv p \<longleftrightarrow> pool_shape p \<and> (\<exists>fl. pool_free_list p fl)"

definition pool_blocks :: "owpool_t \<Rightarrow> u64 set" where
  "pool_blocks p = pool_addr p ` {i. i < unat (block_count p)}"

text \<open>The free blocks, as the code itself would tell.\<close>

definition pool_avail :: "owpool_t \<Rightarrow> u64 set" where
  "pool_avail p =
     pool_addr p ` {i. i < unat (block_count p) \<and> pool_block_is_free p (of_nat i) = Some True}"

lemma pool_is_free:
  assumes "pool_shape p" and "pool_free_list p fl" and "i < unat (block_count p)"
  shows "pool_block_is_free p (of_nat i) = Some (i \<in> set fl)"
  unfolding pool_block_is_free_def
  using assms by (intro pool_link.walk_correct) (auto simp: pool_shape_def pool_free_list_def)

lemma pool_avail_eq:
  assumes "pool_shape p" and "pool_free_list p fl"
  shows "pool_avail p = pool_addr p ` set fl"
  using pool_is_free [OF assms] assms(2) unfolding pool_avail_def pool_free_list_def by force

lemma pool_offset:
  assumes "pool_shape p" and "i < unat (block_count p)"
  shows "i * unat (block_size p) + unat (block_size p) \<le> length (arena p)"
    and "unat (pool_addr p i) = unat (arena_base p) + i * unat (block_size p)"
    and "unat (pool_addr p i - arena_base p) = i * unat (block_size p)"
    and "arena_base p \<le> pool_addr p i"
proof -
  have "Suc i * unat (block_size p) \<le> unat (block_count p) * unat (block_size p)"
    using assms(2) by (intro mult_le_mono1) simp
  then show len: "i * unat (block_size p) + unat (block_size p) \<le> length (arena p)"
    using assms(1) by (simp add: pool_shape_def)
  then have lt: "unat (arena_base p) + i * unat (block_size p) < 2 ^ 64"
    using assms(1) by (simp add: pool_shape_def)
  then have off: "unat (of_nat (i * unat (block_size p)) :: u64) = i * unat (block_size p)"
    by (subst unat_of_nat) simp
  with lt show addr: "unat (pool_addr p i) = unat (arena_base p) + i * unat (block_size p)"
    unfolding pool_addr_def by (subst unat_word_ariths) simp
  show "unat (pool_addr p i - arena_base p) = i * unat (block_size p)"
    using off by (simp add: pool_addr_def)
  show "arena_base p \<le> pool_addr p i" using addr by (simp add: word_le_nat_alt)
qed

lemma pool_addr_inj:
  assumes "pool_shape p" and "i < unat (block_count p)" and "j < unat (block_count p)"
  shows "pool_addr p i = pool_addr p j \<longleftrightarrow> i = j"
proof
  assume "pool_addr p i = pool_addr p j"
  then have "i * unat (block_size p) = j * unat (block_size p)"
    using pool_offset(3) [OF assms(1,2)] pool_offset(3) [OF assms(1,3)] by metis
  moreover have "unat (block_size p) \<noteq> 0" using assms(1) unfolding pool_shape_def by linarith
  ultimately show "i = j" by (metis mult_cancel2)
qed simp

lemma pool_avail_sub: "pool_shape p \<Longrightarrow> pool_free_list p fl \<Longrightarrow> pool_avail p \<subseteq> pool_blocks p"
  by (auto simp: pool_avail_eq pool_blocks_def pool_free_list_def)

lemma pool_avail_mem:
  assumes "pool_shape p" and "pool_free_list p fl" and "i < unat (block_count p)"
  shows "pool_addr p i \<in> pool_avail p \<longleftrightarrow> i \<in> set fl"
  using assms pool_addr_inj [OF assms(1)] by (auto simp: pool_avail_eq pool_free_list_def)

section \<open>The allocator interface\<close>

text \<open>\<open>owpool_alloc\<close> and \<open>owpool_free\<close> on an object, and a client's write into the arena.\<close>

definition pool_do_alloc :: "owpool_t \<Rightarrow> (u64 ptr \<times> owpool_t) comp" where
  "pool_do_alloc p =
     do { (r, q) \<leftarrow> owpool_alloc (Ref p); case q of NULL \<Rightarrow> None | Ref p' \<Rightarrow> Some (r, p') }"

definition pool_do_free :: "owpool_t \<Rightarrow> u64 \<Rightarrow> (bool \<times> owpool_t) comp" where
  "pool_do_free p a =
     do { (ok, q) \<leftarrow> owpool_free (Ref p) (Ref a); case q of NULL \<Rightarrow> None | Ref p' \<Rightarrow> Some (ok, p') }"

definition pool_poke :: "owpool_t \<Rightarrow> u64 \<Rightarrow> nat \<Rightarrow> u8 \<Rightarrow> owpool_t comp" where
  "pool_poke p a j v =
     do { m \<leftarrow> c_wr (arena p) (unat (a - arena_base p) + j) v; Some (p\<lparr>arena := m\<rparr>) }"

lemma pool_alloc_empty:
  assumes "pool_shape p" and "pool_free_list p []"
  shows "pool_do_alloc p = Some (NULL, p)"
  using assms by (simp add: pool_do_alloc_def owpool_alloc_def pool_free_list_def)

lemma pool_alloc_cons:
  assumes shape: "pool_shape p" and fl: "pool_free_list p (i # fl)"
  shows "\<exists>p'. pool_do_alloc p = Some (Ref (pool_addr p i), p') \<and> pool_shape p' \<and> pool_free_list p' fl \<and>
     pool_addr p' = pool_addr p \<and> block_count p' = block_count p \<and> block_size p' = block_size p"
proof -
  from fl obtain nx where hp: "free_head p = of_nat i" "i < 2 ^ 31"
    and nx: "pool_load_next (arena p) (i * unat (block_size p)) = Some nx"
      "free_path pool_load_next (arena p) (unat (block_size p)) nx fl"
    by (auto simp: pool_free_list_def)
  have u: "unat (free_head p) = i" using hp by (simp add: unat_of_nat)
  have pos: "\<not> sint (free_head p) < 0" using u hp(2) by (simp add: sint_neg_iff)
  have cnt: "unat (free_count p) = Suc (length fl)" "unat (in_use p) + Suc (length fl) = unat (block_count p)"
    using fl by (auto simp: pool_free_list_def)
  have fc: "unat (free_count p - 1) = length fl"
    using cnt(1) by (subst unat_minus1) auto
  have iu: "unat (in_use p + 1) = Suc (unat (in_use p))"
    using cnt(2) shape by (intro unat_add1) (auto simp: pool_shape_def)
  define p' where "p' = p\<lparr>free_head := nx, free_count := free_count p - 1, in_use := in_use p + 1,
      total_allocs := total_allocs p + 1,
      high_water := (if in_use p + 1 > high_water p then in_use p + 1 else high_water p)\<rparr>"
  have "pool_do_alloc p = Some (Ref (pool_addr p i), p')"
    using shape pos nx(1) u
    by (simp add: pool_do_alloc_def owpool_alloc_def Let_def pool_block_at_def pool_shape_def
        pool_addr_def p'_def del: of_nat_mult)
  moreover have "pool_shape p'" using shape by (simp add: pool_shape_def p'_def)
  moreover have "pool_free_list p' fl"
    using fl nx(2) fc iu cnt(2) by (auto simp: pool_free_list_def p'_def not_less)
  ultimately show ?thesis by (auto simp: p'_def pool_addr_def fun_eq_iff)
qed

text \<open>What \<open>owpool_free\<close> computes from an address: its block index, if it has one.\<close>

lemma pool_index:
  assumes "pool_shape p" and "i < unat (block_count p)"
  shows "(pool_addr p i - arena_base p) mod ucast (block_size p) = 0"
    and "(pool_addr p i - arena_base p) div ucast (block_size p) = of_nat i"
    and "(of_nat i :: u64) < ucast (block_count p)"
    and "(ucast (of_nat i :: u64) :: u32) = of_nat i"
proof -
  have bs: "unat (ucast (block_size p) :: u64) = unat (block_size p)" by (simp add: unat_ucast_up)
  have pos: "0 < unat (block_size p)" using assms(1) unfolding pool_shape_def by linarith
  have i: "i < 2 ^ 31" using assms by (simp add: pool_shape_def)
  then have ui: "unat (of_nat i :: u64) = i" by (subst unat_of_nat) simp
  show "(pool_addr p i - arena_base p) mod ucast (block_size p) = 0"
    using pool_offset(3) [OF assms] bs by (intro word_unat_eq_iff [THEN iffD2]) (simp add: unat_mod)
  show "(pool_addr p i - arena_base p) div ucast (block_size p) = of_nat i"
    using pool_offset(3) [OF assms] bs pos ui
    by (intro word_unat_eq_iff [THEN iffD2]) (simp add: unat_div)
  show "(of_nat i :: u64) < ucast (block_count p)"
    using ui assms(2) by (simp add: word_less_nat_alt unat_ucast_up)
  show "(ucast (of_nat i :: u64) :: u32) = of_nat i"
    using i ui by (intro word_unat_eq_iff [THEN iffD2]) (simp add: unat_ucast_down unat_of_nat)
qed

lemma pool_free_live:
  assumes shape: "pool_shape p" and fl: "pool_free_list p fl" and i: "i < unat (block_count p)" "i \<notin> set fl"
  shows "\<exists>p'. pool_do_free p (pool_addr p i) = Some (True, p') \<and> pool_shape p' \<and>
     pool_free_list p' (i # fl) \<and> pool_addr p' = pool_addr p \<and> block_count p' = block_count p \<and>
     block_size p' = block_size p"
proof -
  let ?bs = "unat (block_size p)"
  have i31: "i < 2 ^ 31" using shape i(1) by (simp add: pool_shape_def)
  from fl shape have path: "free_path pool_load_next (arena p) ?bs (free_head p) fl"
    "\<forall>j \<in> set fl. j < unat (block_count p)" "unat (block_count p) * ?bs \<le> length (arena p)" "4 \<le> ?bs"
    by (auto simp: pool_free_list_def pool_shape_def)
  from pool_link.path_push [OF path i(1) i31 i(2)] obtain m' where
    m': "pool_store_next (arena p) (i * ?bs) (free_head p) = Some m'" "length m' = length (arena p)"
      "free_path pool_load_next m' ?bs (of_nat i) (i # fl)" by blast
  have card: "Suc (length fl) \<le> unat (block_count p)"
  proof -
    have "set (i # fl) \<subseteq> {..<unat (block_count p)}" using i(1) path(2) by auto
    then have "card (set (i # fl)) \<le> unat (block_count p)" by (metis card_lessThan card_mono finite_lessThan)
    then show ?thesis using i(2) fl by (simp add: pool_free_list_def distinct_card)
  qed
  then have iu: "in_use p \<noteq> 0" and fc: "unat (free_count p + 1) = Suc (length fl)"
    using fl shape by (auto simp: pool_free_list_def pool_shape_def intro!: trans [OF unat_add1])
  define p' where "p' = p\<lparr>arena := m', free_head := of_nat i, free_count := free_count p + 1,
    total_frees := total_frees p + 1, in_use := in_use p - 1\<rparr>"
  have bs0: "(ucast (block_size p) :: u64) \<noteq> 0"
    using path(4) by (auto simp: ucast_up_eq_0)
  have "pool_do_free p (pool_addr p i) = Some (True, p')"
    using shape m'(1) iu bs0 pool_offset(3,4) [OF shape i(1)] pool_index [OF shape i(1)]
      pool_is_free [OF shape fl i(1)] i(2)
    by (simp add: pool_do_free_def owpool_free_def Let_def pool_shape_def p'_def not_less not_le word_gt_0)
  moreover have "pool_shape p'" using shape m'(2) by (simp add: pool_shape_def p'_def)
  moreover have iu': "unat (in_use p) = Suc (unat (in_use p - 1))"
    using iu by (simp add: unat_minus1)
  moreover have "pool_free_list p' (i # fl)"
    using fl m'(3) fc i iu' by (auto simp: pool_free_list_def p'_def word_le_nat_alt)
  ultimately show ?thesis by (auto simp: p'_def pool_addr_def fun_eq_iff)
qed

text \<open>An address that is no live block is refused and changes nothing.\<close>

lemma pool_free_wrong:
  assumes shape: "pool_shape p" and fl: "pool_free_list p fl"
    and wrong: "a \<notin> pool_blocks p - pool_avail p"
  shows "pool_do_free p a = Some (False, p)"
proof -
  let ?bs = "ucast (block_size p) :: u64" and ?off = "a - arena_base p"
  have init: "initialized p" and bs4: "4 \<le> unat (block_size p)" using shape by (auto simp: pool_shape_def)
  then have bs0: "?bs \<noteq> 0" by (auto simp: ucast_up_eq_0)
  have ubs: "unat ?bs = unat (block_size p)" by (simp add: unat_ucast_up)
  show ?thesis
  proof (cases "arena_base p \<le> a \<and> ?off mod ?bs = 0 \<and> ?off div ?bs < ucast (block_count p)")
    case False
    with init bs0 show ?thesis
      by (auto simp: pool_do_free_def owpool_free_def Let_def not_le not_less)
  next
    case True
    define i where "i = unat (?off div ?bs)"
    have i: "i < unat (block_count p)"
      using True by (simp add: i_def word_less_nat_alt unat_ucast_up)
    have "unat ?off mod unat (block_size p) = 0"
      using True ubs by (metis unat_0 unat_mod)
    moreover have "i = unat ?off div unat (block_size p)"
      using ubs by (simp add: i_def unat_div)
    ultimately have "unat ?off = i * unat (block_size p)"
      by (metis add.right_neutral div_mult_mod_eq)
    then have "?off = pool_addr p i - arena_base p"
      using pool_offset(3) [OF shape i] by (simp add: word_unat_eq_iff)
    then have a: "a = pool_addr p i" by simp
    with wrong i have "i \<in> set fl"
      using pool_avail_mem [OF shape fl i] by (auto simp: pool_blocks_def)
    then show ?thesis
      using init bs0 True pool_index [OF shape i] pool_is_free [OF shape fl i] a
      by (simp add: pool_do_free_def owpool_free_def Let_def not_less not_le)
  qed
qed

lemma pool_poke_live:
  assumes shape: "pool_shape p" and fl: "pool_free_list p fl"
    and i: "i < unat (block_count p)" "i \<notin> set fl" and j: "j < unat (block_size p)"
  shows "\<exists>p'. pool_poke p (pool_addr p i) j v = Some p' \<and> pool_shape p' \<and> pool_free_list p' fl \<and>
     pool_addr p' = pool_addr p \<and> block_count p' = block_count p \<and> block_size p' = block_size p"
proof -
  let ?bs = "unat (block_size p)"
  define m' where "m' = (arena p)[i * ?bs + j := v]"
  have len: "i * ?bs + j < length (arena p)" using pool_offset(1) [OF shape i(1)] j by linarith
  have "m' ! k = arena p ! k" if "l \<in> set fl" "l * ?bs \<le> k" "k < l * ?bs + ?bs" for l k
  proof -
    have "l \<noteq> i" using that(1) i(2) by auto
    from block_disjoint [OF this that(2,3)] j have "k \<noteq> i * ?bs + j" by linarith
    then show ?thesis by (simp add: m'_def)
  qed
  then have same: "\<forall>l \<in> set fl. \<forall>k. l * ?bs \<le> k \<and> k < l * ?bs + ?bs \<longrightarrow> m' ! k = arena p ! k"
    by blast
  from fl shape have path: "free_path pool_load_next (arena p) ?bs (free_head p) fl"
    "\<forall>j \<in> set fl. j < unat (block_count p)" "unat (block_count p) * ?bs \<le> length (arena p)" "4 \<le> ?bs"
    by (auto simp: pool_free_list_def pool_shape_def)
  have "length m' = length (arena p)" by (simp add: m'_def)
  with pool_link.path_frame [OF path _ same] have "free_path pool_load_next m' ?bs (free_head p) fl"
    by blast
  with fl shape have "pool_free_list (p\<lparr>arena := m'\<rparr>) fl" "pool_shape (p\<lparr>arena := m'\<rparr>)"
    by (simp_all add: pool_free_list_def pool_shape_def m'_def)
  moreover have "pool_poke p (pool_addr p i) j v = Some (p\<lparr>arena := m'\<rparr>)"
    using len pool_offset(3) [OF shape i(1)] by (simp add: pool_poke_def m'_def)
  ultimately show ?thesis by (auto simp: pool_addr_def fun_eq_iff)
qed

lemma pool_sets:
  assumes "pool_shape p'" "pool_free_list p' fl" "pool_addr p' = pool_addr p" "block_count p' = block_count p"
  shows "pool_inv p'" and "pool_avail p' = pool_addr p ` set fl" and "pool_blocks p' = pool_blocks p"
  using assms by (auto simp: pool_inv_def pool_avail_eq pool_blocks_def)

interpretation pool: block_allocator pool_do_alloc pool_do_free pool_poke pool_inv pool_blocks pool_avail
  "\<lambda>p. unat (block_size p)"
proof
  fix p :: owpool_t and a :: u64 and j :: nat and v :: u8
  assume "pool_inv p"
  then obtain fl where shape: "pool_shape p" and fl: "pool_free_list p fl"
    by (auto simp: pool_inv_def)
  note avail = pool_avail_eq [OF shape fl]
  show "pool_avail p \<subseteq> pool_blocks p" by (rule pool_avail_sub [OF shape fl])
  show "\<exists>q p'. pool_do_alloc p = Some (Ref q, p') \<and> pool_inv p' \<and> q \<in> pool_avail p \<and>
      pool_avail p' = pool_avail p - {q} \<and> pool_blocks p' = pool_blocks p \<and>
      unat (block_size p') = unat (block_size p)" if "pool_avail p \<noteq> {}"
  proof -
    from that avail obtain i fl' where "fl = i # fl'" by (cases fl) auto
    with pool_alloc_cons [OF shape] fl obtain p' where
      p': "pool_do_alloc p = Some (Ref (pool_addr p i), p')" "pool_shape p'" "pool_free_list p' fl'"
        "pool_addr p' = pool_addr p" "block_count p' = block_count p" "block_size p' = block_size p"
      by blast
    have "i < unat (block_count p)" "\<forall>k \<in> set fl'. k < unat (block_count p)" "i \<notin> set fl'"
      using fl \<open>fl = i # fl'\<close> by (auto simp: pool_free_list_def)
    then have "pool_addr p i \<notin> pool_addr p ` set fl'"
      using pool_addr_inj [OF shape] by (metis imageE)
    then have "pool_addr p ` set fl' = pool_addr p ` set fl - {pool_addr p i}"
      using \<open>fl = i # fl'\<close> by auto
    then have "pool_avail p' = pool_avail p - {pool_addr p i}"
      unfolding avail pool_sets(2) [OF p'(2-5)] .
    moreover have "pool_addr p i \<in> pool_avail p" unfolding avail \<open>fl = i # fl'\<close> by simp
    moreover have "unat (block_size p') = unat (block_size p)" unfolding p'(6) ..
    ultimately show ?thesis using pool_sets(1,3) [OF p'(2-5)] p'(1) by blast
  qed
  show "pool_do_alloc p = Some (NULL, p)" if "pool_avail p = {}"
    using pool_alloc_empty [OF shape] fl that avail by auto
  have live: "\<exists>i. a = pool_addr p i \<and> i < unat (block_count p) \<and> i \<notin> set fl" if "a \<in> pool_blocks p - pool_avail p"
    using that avail by (auto simp: pool_blocks_def)
  show "\<exists>p'. pool_do_free p a = Some (True, p') \<and> pool_inv p' \<and> pool_avail p' = insert a (pool_avail p) \<and>
      pool_blocks p' = pool_blocks p \<and> unat (block_size p') = unat (block_size p)"
    if "a \<in> pool_blocks p - pool_avail p"
  proof -
    from live [OF that] pool_free_live [OF shape fl] obtain i p' where
      p': "a = pool_addr p i" "pool_do_free p a = Some (True, p')" "pool_shape p'" "pool_free_list p' (i # fl)"
        "pool_addr p' = pool_addr p" "block_count p' = block_count p" "block_size p' = block_size p"
      by blast
    with pool_sets [OF p'(3-6)] avail show ?thesis by auto
  qed
  show "pool_do_free p a = Some (False, p)" if "a \<notin> pool_blocks p - pool_avail p"
    by (rule pool_free_wrong [OF shape fl that])
  show "\<exists>p'. pool_poke p a j v = Some p' \<and> pool_inv p' \<and> pool_avail p' = pool_avail p \<and>
      pool_blocks p' = pool_blocks p \<and> unat (block_size p') = unat (block_size p)"
    if "a \<in> pool_blocks p - pool_avail p" and j: "j < unat (block_size p)"
  proof -
    from live [OF that(1)] pool_poke_live [OF shape fl _ _ j, of _ v] obtain i p' where
      p': "a = pool_addr p i" "pool_poke p a j v = Some p'" "pool_shape p'" "pool_free_list p' fl"
        "pool_addr p' = pool_addr p" "block_count p' = block_count p" "block_size p' = block_size p"
      by blast
    with pool_sets [OF p'(3-6)] avail show ?thesis by auto
  qed
qed

section \<open>Initialisation and reset\<close>

lemma pool_rebuild_free:
  assumes "4 \<le> unat (block_size p)" and "unat (block_count p) < 2 ^ 31"
    and "unat (block_count p) * unat (block_size p) \<le> length (arena p)"
  shows "\<exists>m h cnt. pool_rebuild p = Some (p\<lparr>arena := m, free_head := h, free_count := cnt\<rparr>) \<and>
     length m = length (arena p) \<and> unat cnt = unat (block_count p) \<and>
     free_path pool_load_next m (unat (block_size p)) h [0..<unat (block_count p)]"
proof -
  have "free_path pool_load_next (arena p) (unat (block_size p)) (- 1)
      [unat (block_count p)..<unat (block_count p)]" by simp
  from pool_link.build_correct [OF this assms(3,1,2), of 0] obtain m h cnt where
    "free_build pool_store_next (unat (block_size p)) (unat (block_count p)) (arena p, - 1, 0) =
       Some (m, h, cnt)" "length m = length (arena p)"
    "free_path pool_load_next m (unat (block_size p)) h [0..<unat (block_count p)]"
    "unat cnt = unat (block_count p)" by auto
  then show ?thesis
    by (intro exI [of _ m] exI [of _ h] exI [of _ cnt]) (simp add: pool_rebuild_def)
qed

lemma pool_fresh:
  assumes "4 \<le> unat bsize" and "bcount \<noteq> 0" and "unat bcount < 2 ^ 31"
    and "unat bcount * unat bsize \<le> length bytes" and "unat base + length bytes < 2 ^ 64"
  shows "\<exists>p'. owpool_init (Ref p) (Ref (base, bytes)) bsize bcount = Some (True, Ref p') \<and>
     pool_inv p' \<and> pool_avail p' = pool_blocks p' \<and> block_size p' = bsize \<and>
     pool_blocks p' = (\<lambda>i. base + of_nat (i * unat bsize)) ` {i. i < unat bcount}"
proof -
  let ?p = "p\<lparr>arena_base := base, arena := bytes, block_size := bsize, block_count := bcount,
    in_use := 0, high_water := 0, total_allocs := 0, total_frees := 0, free_head := -1, free_count := 0\<rparr>"
  from pool_rebuild_free [of ?p] assms obtain m h cnt where
    r: "pool_rebuild ?p = Some (?p\<lparr>arena := m, free_head := h, free_count := cnt\<rparr>)"
      "length m = length bytes" "unat cnt = unat bcount"
      "free_path pool_load_next m (unat bsize) h [0..<unat bcount]"
    by auto
  define p' where "p' = ?p\<lparr>arena := m, free_head := h, free_count := cnt, initialized := True\<rparr>"
  have init: "owpool_init (Ref p) (Ref (base, bytes)) bsize bcount = Some (True, Ref p')"
    using r(1) assms by (simp add: owpool_init_def p'_def word_less_nat_alt)
  have shape: "pool_shape p'" using assms r(2) by (simp add: pool_shape_def p'_def)
  have fl: "pool_free_list p' [0..<unat bcount]"
    using r by (simp add: pool_free_list_def p'_def)
  have "pool_avail p' = pool_blocks p'"
    using pool_avail_eq [OF shape fl] by (auto simp: pool_blocks_def p'_def)
  moreover have "pool_blocks p' = (\<lambda>i. base + of_nat (i * unat bsize)) ` {i. i < unat bcount}"
    by (simp add: pool_blocks_def pool_addr_def p'_def del: of_nat_mult)
  ultimately show ?thesis using init shape fl by (auto simp: pool_inv_def p'_def)
qed

lemma pool_reset_inv:
  assumes "pool_inv p"
  shows "\<exists>p'. owpool_reset (Ref p) = Some (True, Ref p') \<and> pool_inv p' \<and> pool_avail p' = pool_blocks p' \<and>
     pool_blocks p' = pool_blocks p \<and> in_use p' = 0"
proof -
  have shape: "pool_shape p" using assms by (auto simp: pool_inv_def)
  then obtain m h cnt where
    r: "pool_rebuild p = Some (p\<lparr>arena := m, free_head := h, free_count := cnt\<rparr>)"
      "length m = length (arena p)" "unat cnt = unat (block_count p)"
      "free_path pool_load_next m (unat (block_size p)) h [0..<unat (block_count p)]"
    using pool_rebuild_free [of p] unfolding pool_shape_def by blast
  define p' where "p' = p\<lparr>arena := m, free_head := h, free_count := cnt, in_use := 0, high_water := 0\<rparr>"
  have shape': "pool_shape p'" using shape r(2) by (simp add: pool_shape_def p'_def)
  have fl: "pool_free_list p' [0..<unat (block_count p)]"
    using r by (simp add: pool_free_list_def p'_def)
  have "owpool_reset (Ref p) = Some (True, Ref p')"
    using r(1) shape by (simp add: owpool_reset_def p'_def pool_shape_def)
  moreover have "pool_avail p' = pool_blocks p'"
    using pool_avail_eq [OF shape' fl] by (auto simp: pool_blocks_def p'_def)
  moreover have "pool_blocks p' = pool_blocks p"
    by (simp add: pool_blocks_def pool_addr_def p'_def del: of_nat_mult)
  ultimately show ?thesis using shape' fl by (auto simp: pool_inv_def p'_def)
qed

lemma pool_live_count:
  assumes "pool_inv p" and "distinct live" and "set live = pool_blocks p - pool_avail p"
  shows "unat (in_use p) = length live"
proof -
  from assms(1) obtain fl where shape: "pool_shape p" and fl: "pool_free_list p fl"
    by (auto simp: pool_inv_def)
  have inj: "inj_on (pool_addr p) {i. i < unat (block_count p)}"
    using pool_addr_inj [OF shape] by (auto simp: inj_on_def)
  have sub: "set fl \<subseteq> {i. i < unat (block_count p)}" using fl by (auto simp: pool_free_list_def)
  have "card (pool_blocks p) = unat (block_count p)"
    using card_image [OF inj] by (simp add: pool_blocks_def)
  moreover have "card (pool_avail p) = length fl"
    using card_image [OF inj_on_subset [OF inj sub]] fl pool_avail_eq [OF shape fl]
    by (simp add: pool_free_list_def distinct_card)
  moreover have "card (pool_blocks p - pool_avail p) = card (pool_blocks p) - card (pool_avail p)"
    using pool_avail_sub [OF shape fl] by (intro card_Diff_subset) (auto simp: pool_avail_eq [OF shape fl])
  moreover have "length live = card (pool_blocks p - pool_avail p)"
    using assms(2,3) by (metis distinct_card)
  moreover have "unat (in_use p) + length fl = unat (block_count p)"
    using fl by (simp add: pool_free_list_def)
  ultimately show ?thesis by linarith
qed

section \<open>Properties\<close>

text \<open>C24: After a successful \<open>owpool_init\<close>, whatever sequence of allocations, frees (of any
  address, right or wrong) and writes into blocks it holds a client performs, no call accesses
  memory outside the arena or fails to return; an allocation returns a block of the arena that
  is not in use, and \<open>NULL\<close> only when every block is in use; a free succeeds exactly on a block
  in use, so foreign addresses and double frees are rejected; and \<open>in_use\<close> counts the blocks the
  client holds.\<close>

theorem owpool_client_legal:
  assumes "4 \<le> unat bsize" and "bcount \<noteq> 0" and "unat bcount < 2 ^ 31"
    and "unat bcount * unat bsize \<le> length bytes" and "unat base + length bytes < 2 ^ 64"
  shows "\<exists>p0 es live p'.
     owpool_init (Ref p) (Ref (base, bytes)) bsize bcount = Some (True, Ref p0) \<and>
     client_run pool_do_alloc pool_do_free pool_poke (unat bsize) p0 [] ops = Some (es, live, p') \<and>
     legal_trace ((\<lambda>i. base + of_nat (i * unat bsize)) ` {i. i < unat bcount}) {} es \<and>
     distinct live \<and> unat (in_use p') = length live"
proof -
  from pool_fresh [OF assms, of p] obtain p0 where
    p0: "owpool_init (Ref p) (Ref (base, bytes)) bsize bcount = Some (True, Ref p0)" "pool_inv p0"
      "pool_avail p0 = pool_blocks p0" "block_size p0 = bsize"
      "pool_blocks p0 = (\<lambda>i. base + of_nat (i * unat bsize)) ` {i. i < unat bcount}" by blast
  have "set [] = pool_blocks p0 - pool_avail p0" using p0(3) by simp
  from pool.run_legal [OF p0(2) distinct.simps(1) [THEN iffD2, OF TrueI] this, of ops]
  obtain es live p' where run: "client_run pool_do_alloc pool_do_free pool_poke (unat bsize) p0 [] ops =
      Some (es, live, p')" "pool_inv p'" "distinct live" "set live = pool_blocks p' - pool_avail p'"
      "legal_trace (pool_blocks p0) {} es"
    unfolding p0(4) by auto
  from pool_live_count [OF run(2-4)] run(1,3,5) p0(1) show ?thesis unfolding p0(5) by blast
qed

definition pool_blank :: owpool_t where
  "pool_blank = \<lparr>arena_base = 0, arena = [], block_size = 0, block_count = 0, free_head = 0,
     free_count = 0, in_use = 0, high_water = 0, total_allocs = 0, total_frees = 0, initialized = False\<rparr>"

theorem owpool_client_legal_witness:
  "\<exists>p0 es live p'.
     owpool_init (Ref pool_blank) (Ref (4096, replicate 16 0)) 8 2 = Some (True, Ref p0) \<and>
     client_run pool_do_alloc pool_do_free pool_poke (unat (8::u32)) p0 []
       [Alloc, Poke 4096 0 255, Alloc, Alloc, Free 4096, Free 4096, Free 4100, Alloc] = Some (es, live, p') \<and>
     legal_trace ((\<lambda>i. 4096 + of_nat (i * unat (8::u32))) ` {i. i < unat (2::u32)}) {} es \<and>
     distinct live \<and> unat (in_use p') = length live"
  by (rule owpool_client_legal) simp_all

text \<open>\<open>owpool_reset\<close> on a pool in any consistent state rebuilds the free list without leaving the
  arena: afterwards every block of the arena is available again and \<open>in_use\<close> is zero.\<close>

theorem owpool_reset_all_free:
  assumes "pool_inv p"
  shows "\<exists>p'. owpool_reset (Ref p) = Some (True, Ref p') \<and> pool_inv p' \<and>
     pool_avail p' = pool_blocks p \<and> in_use p' = 0"
  using pool_reset_inv [OF assms] by auto

theorem owpool_reset_all_free_witness:
  "\<exists>p0 p'. owpool_init (Ref pool_blank) (Ref (4096, replicate 16 0)) 8 2 = Some (True, Ref p0) \<and>
     owpool_reset (Ref p0) = Some (True, Ref p') \<and> pool_avail p' = pool_blocks p0 \<and> in_use p' = 0"
proof -
  have "\<exists>p0. owpool_init (Ref pool_blank) (Ref (4096, replicate 16 0)) 8 2 = Some (True, Ref p0) \<and> pool_inv p0"
    using pool_fresh [of 8 2 "replicate 16 0" 4096 pool_blank] by auto
  then obtain p0 where p0: "owpool_init (Ref pool_blank) (Ref (4096, replicate 16 0)) 8 2 = Some (True, Ref p0)"
    "pool_inv p0" by blast
  from owpool_reset_all_free [OF p0(2)] p0(1) show ?thesis by blast
qed

end
