(* ===== verification/Slab.thy ===== *)
theory Slab
  imports Pool
begin

unbundle bit_operations_syntax

text \<open>
  The slab allocator \<open>DLL/owslab64\<close>: a registry of sixteen caches, each a free list of
  equally sized objects in an arena of its own. A pointer to a cache is its index in the
  registry. Every cache operation is shown to be the corresponding pool operation on the view
  \<open>slab_view\<close> of the cache, so that the guarantees of the pool carry over; the registry has its
  own invariant on the number of active caches.
\<close>

section \<open>State and operations\<close>

abbreviation OWSLAB_MAX_CACHES :: nat where "OWSLAB_MAX_CACHES \<equiv> 16"
abbreviation OWSLAB_NAME_LEN :: nat where "OWSLAB_NAME_LEN \<equiv> 24"
abbreviation OWSLAB_MIN_OBJECT :: u32 where "OWSLAB_MIN_OBJECT \<equiv> 4"

record owslab_cache_t =
  name :: string
  slab :: "(u64 \<times> u8 list) ptr"
  object_size :: u32
  object_count :: u32
  cfree_head :: i32
  cfree_count :: u32
  cin_use :: u32
  chigh_water :: u32
  active :: bool

record owslab_state_t =
  caches :: "owslab_cache_t list"
  cache_count :: u32
  sinitialized :: bool

definition slab_store_next :: "u8 list \<Rightarrow> nat \<Rightarrow> i32 \<Rightarrow> u8 list comp" where
  "slab_store_next m object v =
     do { m0 \<leftarrow> c_wr m object (ucast (v AND 0xFF));
          m1 \<leftarrow> c_wr m0 (object + 1) (ucast (drop_bit 8 v AND 0xFF));
          m2 \<leftarrow> c_wr m1 (object + 2) (ucast (drop_bit 16 v AND 0xFF));
          c_wr m2 (object + 3) (ucast (drop_bit 24 v AND 0xFF)) }"

definition slab_load_next :: "u8 list \<Rightarrow> nat \<Rightarrow> i32 comp" where
  "slab_load_next m object =
     do { b0 \<leftarrow> c_rd m object;
          b1 \<leftarrow> c_rd m (object + 1);
          b2 \<leftarrow> c_rd m (object + 2);
          b3 \<leftarrow> c_rd m (object + 3);
          Some (ucast b0 OR push_bit 8 (ucast b1) OR push_bit 16 (ucast b2) OR push_bit 24 (ucast b3)) }"

definition slab_object_at :: "owslab_cache_t \<Rightarrow> u32 \<Rightarrow> nat" where
  "slab_object_at cache index = unat index * unat (object_size cache)"

definition slab_copy_name :: "string ptr \<Rightarrow> string" where
  "slab_copy_name src = c_strcopy OWSLAB_NAME_LEN src"

text \<open>Dereferencing the arena of a cache whose \<open>slab\<close> pointer is \<open>NULL\<close> is undefined.\<close>

definition slab_mem :: "owslab_cache_t \<Rightarrow> (u64 \<times> u8 list) comp" where
  "slab_mem cache = (case slab cache of NULL \<Rightarrow> None | Ref m \<Rightarrow> Some m)"

definition slab_object_is_free :: "owslab_cache_t \<Rightarrow> u32 \<Rightarrow> bool comp" where
  "slab_object_is_free cache index =
     do { (base, m) \<leftarrow> slab_mem cache;
          free_walk slab_load_next m (unat (object_size cache)) (cfree_count cache) index
            (cfree_head cache) 0 }"

definition slab_build_freelist :: "owslab_cache_t \<Rightarrow> owslab_cache_t comp" where
  "slab_build_freelist cache =
     do { (base, m) \<leftarrow> slab_mem cache;
          (m', h, cnt) \<leftarrow> free_build slab_store_next (unat (object_size cache))
             (unat (object_count cache)) (m, -1, 0);
          Some (cache\<lparr>slab := Ref (base, m'), cfree_head := h, cfree_count := cnt\<rparr>) }"

definition slab_cache_index :: "owslab_state_t \<Rightarrow> nat \<Rightarrow> int" where
  "slab_cache_index st cache =
     (case first_index (\<lambda>i. i = cache) [0..<OWSLAB_MAX_CACHES] of None \<Rightarrow> -1 | Some i \<Rightarrow> int i)"

definition owslab_init :: "owslab_state_t ptr \<Rightarrow> bool \<times> owslab_state_t ptr" where
  "owslab_init state =
     (case state of
        NULL \<Rightarrow> (False, state)
      | Ref st \<Rightarrow> (True, Ref (st\<lparr>
          caches := map (\<lambda>c. c\<lparr>name := [], slab := NULL, object_size := 0, object_count := 0,
                      cfree_head := -1, cfree_count := 0, cin_use := 0, chigh_water := 0,
                      active := False\<rparr>) (caches st),
          cache_count := 0, sinitialized := True\<rparr>)))"

definition owslab_create_cache ::
  "owslab_state_t ptr \<Rightarrow> string ptr \<Rightarrow> (u64 \<times> u8 list) ptr \<Rightarrow> u32 \<Rightarrow> u32 \<Rightarrow>
   (nat ptr \<times> owslab_state_t ptr) comp" where
  "owslab_create_cache state nm mem osize ocount =
     (case (state, mem) of
        (Ref st, Ref (base, bytes)) \<Rightarrow>
          if \<not> sinitialized st then Some (NULL, state)
          else if osize < OWSLAB_MIN_OBJECT \<or> ocount = 0 then Some (NULL, state)
          else if ocount > 0x7FFFFFFF then Some (NULL, state)
          else (case first_index (\<lambda>c. \<not> active c) (caches st) of
              None \<Rightarrow> Some (NULL, state)
            | Some slot \<Rightarrow> do {
                cache \<leftarrow> slab_build_freelist ((caches st ! slot)\<lparr>name := slab_copy_name nm,
                   slab := Ref (base, bytes), object_size := osize, object_count := ocount,
                   cin_use := 0, chigh_water := 0\<rparr>);
                Some (Ref slot, Ref (st\<lparr>caches := (caches st)[slot := cache\<lparr>active := True\<rparr>],
                                       cache_count := cache_count st + 1\<rparr>))
              })
      | _ \<Rightarrow> Some (NULL, state))"

definition owslab_alloc :: "owslab_cache_t ptr \<Rightarrow> (u64 ptr \<times> owslab_cache_t ptr) comp" where
  "owslab_alloc cache =
     (case cache of
        NULL \<Rightarrow> Some (NULL, cache)
      | Ref c \<Rightarrow>
          if \<not> active c \<or> sint (cfree_head c) < 0 then Some (NULL, cache)
          else
            let index = cfree_head c; object = slab_object_at c index in
            do {
              (base, m) \<leftarrow> slab_mem c;
              h \<leftarrow> slab_load_next m object;
              Some (Ref (base + of_nat object),
                    Ref (c\<lparr>cfree_head := h, cfree_count := cfree_count c - 1, cin_use := cin_use c + 1,
                           chigh_water := (if cin_use c + 1 > chigh_water c then cin_use c + 1
                                           else chigh_water c)\<rparr>))
            })"

definition owslab_free :: "owslab_cache_t ptr \<Rightarrow> u64 ptr \<Rightarrow> (bool \<times> owslab_cache_t ptr) comp" where
  "owslab_free cache ptr =
     (case (cache, ptr) of
        (Ref c, Ref object) \<Rightarrow>
          if \<not> active c then Some (False, cache)
          else do {
            (base, m) \<leftarrow> slab_mem c;
            if object < base then Some (False, cache)
            else
              let offset = object - base in
              do {
                r \<leftarrow> c_mod offset (ucast (object_size c));
                if r \<noteq> 0 then Some (False, cache)
                else do {
                  index \<leftarrow> c_div offset (ucast (object_size c));
                  if index \<ge> ucast (object_count c) then Some (False, cache)
                  else do {
                    isfree \<leftarrow> slab_object_is_free c (ucast index);
                    if isfree then Some (False, cache)
                    else do {
                      m' \<leftarrow> slab_store_next m (unat offset) (cfree_head c);
                      Some (True, Ref (c\<lparr>slab := Ref (base, m'), cfree_head := ucast index,
                              cfree_count := cfree_count c + 1,
                              cin_use := (if cin_use c > 0 then cin_use c - 1 else cin_use c)\<rparr>))
                    }
                  }
                }
              }
          }
      | _ \<Rightarrow> Some (False, cache))"

definition owslab_destroy_cache ::
  "owslab_state_t ptr \<Rightarrow> nat ptr \<Rightarrow> (bool \<times> owslab_state_t ptr) comp" where
  "owslab_destroy_cache state cache =
     (case (state, cache) of
        (Ref st, Ref i) \<Rightarrow>
          if \<not> sinitialized st then Some (False, state)
          else if slab_cache_index st i < 0 then Some (False, state)
          else do {
            c \<leftarrow> c_rd (caches st) i;
            Some (True, Ref (st\<lparr>caches := (caches st)[i := c\<lparr>active := False, name := [], slab := NULL,
                      cfree_head := -1, cfree_count := 0, cin_use := 0, chigh_water := 0\<rparr>],
                    cache_count := (if cache_count st > 0 then cache_count st - 1 else cache_count st)\<rparr>))
          }
      | _ \<Rightarrow> Some (False, state))"

section \<open>A cache is a pool\<close>

lemma slab_links: "slab_load_next = pool_load_next" "slab_store_next = pool_store_next"
  by (intro ext, simp add: slab_load_next_def pool_load_next_def)
    (intro ext, simp add: slab_store_next_def pool_store_next_def)

definition slab_view :: "owslab_cache_t \<Rightarrow> owpool_t" where
  "slab_view c = \<lparr>arena_base = (case slab c of NULL \<Rightarrow> 0 | Ref bm \<Rightarrow> fst bm),
     arena = (case slab c of NULL \<Rightarrow> [] | Ref bm \<Rightarrow> snd bm), block_size = object_size c,
     block_count = object_count c, free_head = cfree_head c, free_count = cfree_count c,
     in_use = cin_use c, high_water = chigh_water c, total_allocs = 0, total_frees = 0,
     initialized = active c\<rparr>"

text \<open>Writing a pool state back into the cache it came from.\<close>

definition slab_back :: "owslab_cache_t \<Rightarrow> owpool_t \<Rightarrow> owslab_cache_t" where
  "slab_back c p = c\<lparr>slab := Ref (arena_base p, arena p), cfree_head := free_head p,
     cfree_count := free_count p, cin_use := in_use p, chigh_water := high_water p\<rparr>"

definition slab_inv :: "owslab_cache_t \<Rightarrow> bool" where
  "slab_inv c \<longleftrightarrow> slab c \<noteq> NULL \<and> pool_inv (slab_view c)"

definition slab_do_alloc :: "owslab_cache_t \<Rightarrow> (u64 ptr \<times> owslab_cache_t) comp" where
  "slab_do_alloc c =
     do { (r, q) \<leftarrow> owslab_alloc (Ref c); case q of NULL \<Rightarrow> None | Ref c' \<Rightarrow> Some (r, c') }"

definition slab_do_free :: "owslab_cache_t \<Rightarrow> u64 \<Rightarrow> (bool \<times> owslab_cache_t) comp" where
  "slab_do_free c a =
     do { (ok, q) \<leftarrow> owslab_free (Ref c) (Ref a); case q of NULL \<Rightarrow> None | Ref c' \<Rightarrow> Some (ok, c') }"

definition slab_poke :: "owslab_cache_t \<Rightarrow> u64 \<Rightarrow> nat \<Rightarrow> u8 \<Rightarrow> owslab_cache_t comp" where
  "slab_poke c a j v =
     do { (base, m) \<leftarrow> slab_mem c; m' \<leftarrow> c_wr m (unat (a - base) + j) v;
          Some (c\<lparr>slab := Ref (base, m')\<rparr>) }"

lemma slab_alloc_sim:
  "slab c = Ref (b, m) \<Longrightarrow>
     slab_do_alloc c = map_option (\<lambda>(r, p). (r, slab_back c p)) (pool_do_alloc (slab_view c))"
  by (cases "pool_load_next m (unat (cfree_head c) * unat (object_size c))")
    (simp_all add: slab_do_alloc_def owslab_alloc_def pool_do_alloc_def owpool_alloc_def slab_view_def
      slab_back_def slab_mem_def slab_links slab_object_at_def pool_block_at_def Let_def)

lemma slab_is_free_sim:
  "slab c = Ref (b, m) \<Longrightarrow> slab_object_is_free c i = pool_block_is_free (slab_view c) i"
  by (simp add: slab_object_is_free_def pool_block_is_free_def slab_mem_def slab_view_def slab_links)

lemma slab_view_sel:
  assumes "slab c = Ref (b, m)"
  shows "arena_base (slab_view c) = b" and "arena (slab_view c) = m"
    and "block_size (slab_view c) = object_size c" and "block_count (slab_view c) = object_count c"
    and "free_head (slab_view c) = cfree_head c" and "free_count (slab_view c) = cfree_count c"
    and "in_use (slab_view c) = cin_use c" and "high_water (slab_view c) = chigh_water c"
    and "initialized (slab_view c) = active c"
  using assms by (simp_all add: slab_view_def)

lemma slab_back_same: "slab c = Ref (b, m) \<Longrightarrow> slab_back c (slab_view c) = c"
  by (simp add: slab_back_def slab_view_def)

lemma slab_free_sim:
  assumes "slab c = Ref (b, m)"
  shows "slab_do_free c a = map_option (\<lambda>(ok, p). (ok, slab_back c p)) (pool_do_free (slab_view c) a)"
proof -
  let ?i = "ucast ((a - b) div ucast (object_size c)) :: u32"
  show ?thesis
    by (cases "pool_block_is_free (slab_view c) ?i";
        cases "pool_store_next m (unat (a - b)) (cfree_head c)")
      (simp_all add: slab_do_free_def owslab_free_def pool_do_free_def owpool_free_def assms
        slab_is_free_sim [OF assms] slab_view_sel [OF assms] slab_back_same [OF assms] slab_mem_def
        slab_links Let_def c_mod_def c_div_def,
       simp_all add: slab_back_def slab_view_sel [OF assms] assms)
qed

lemma slab_poke_sim:
  "slab c = Ref (b, m) \<Longrightarrow>
     slab_poke c a j v = map_option (slab_back c) (pool_poke (slab_view c) a j v)"
  by (auto simp: slab_poke_def pool_poke_def slab_view_def slab_back_def slab_mem_def c_wr_def)

text \<open>Pool operations keep the geometry, so a cache keeps its own.\<close>

lemma pool_alloc_frame:
  "pool_do_alloc p = Some (r, p') \<Longrightarrow> block_size p' = block_size p \<and> block_count p' = block_count p"
  by (auto simp: pool_do_alloc_def owpool_alloc_def Let_def split: if_splits Option.bind_splits)

lemma pool_free_frame:
  "pool_do_free p a = Some (ok, p') \<Longrightarrow> block_size p' = block_size p \<and> block_count p' = block_count p"
  by (auto simp: pool_do_free_def owpool_free_def Let_def split: if_splits Option.bind_splits)

lemma pool_poke_frame:
  "pool_poke p a j v = Some p' \<Longrightarrow> block_size p' = block_size p \<and> block_count p' = block_count p"
  by (auto simp: pool_poke_def split: Option.bind_splits)

lemma pool_totals_irrelevant:
  "pool_inv (p\<lparr>total_allocs := x, total_frees := y\<rparr>) = pool_inv p"
  "pool_blocks (p\<lparr>total_allocs := x, total_frees := y\<rparr>) = pool_blocks p"
  "pool_avail (p\<lparr>total_allocs := x, total_frees := y\<rparr>) = pool_avail p"
  by (simp_all add: pool_inv_def pool_shape_def pool_free_list_def pool_blocks_def pool_avail_def
      pool_addr_def pool_block_is_free_def del: of_nat_mult)

lemma slab_back_view:
  assumes "slab_inv c" and "pool_inv p" and "block_size p = object_size c \<and> block_count p = object_count c"
  shows "slab_inv (slab_back c p) \<and> pool_avail (slab_view (slab_back c p)) = pool_avail p \<and>
     pool_blocks (slab_view (slab_back c p)) = pool_blocks p \<and>
     object_size (slab_back c p) = object_size c"
proof -
  have "initialized p" "active c"
    using assms by (auto simp: slab_inv_def pool_inv_def pool_shape_def slab_view_def)
  then have view: "slab_view (slab_back c p) = p\<lparr>total_allocs := 0, total_frees := 0\<rparr>"
    using assms(3) by (simp add: slab_view_def slab_back_def)
  have "slab (slab_back c p) \<noteq> NULL" "object_size (slab_back c p) = object_size c"
    by (simp_all add: slab_back_def)
  then show ?thesis unfolding slab_inv_def view pool_totals_irrelevant using assms(2) by blast
qed

lemma slab_invD:
  assumes "slab_inv c"
  obtains b m where "slab c = Ref (b, m)" and "pool_inv (slab_view c)"
  using assms by (cases "slab c") (auto simp: slab_inv_def)

lemma slab_view_size [simp]: "block_size (slab_view c) = object_size c"
  and slab_view_count [simp]: "block_count (slab_view c) = object_count c"
  by (simp_all add: slab_view_def)

interpretation slab: block_allocator slab_do_alloc slab_do_free slab_poke slab_inv
  "\<lambda>c. pool_blocks (slab_view c)" "\<lambda>c. pool_avail (slab_view c)" "\<lambda>c. unat (object_size c)"
proof
  fix c :: owslab_cache_t and a :: u64 and j :: nat and v :: u8
  assume inv: "slab_inv c"
  then obtain b m where c: "slab c = Ref (b, m)" and pinv: "pool_inv (slab_view c)" by (rule slab_invD)
  note bk = slab_back_view [OF inv] and same = slab_back_same [OF c]
  show "pool_avail (slab_view c) \<subseteq> pool_blocks (slab_view c)" by (rule pool.avail_sub [OF pinv])
  show "\<exists>p c'. slab_do_alloc c = Some (Ref p, c') \<and> slab_inv c' \<and> p \<in> pool_avail (slab_view c) \<and>
      pool_avail (slab_view c') = pool_avail (slab_view c) - {p} \<and>
      pool_blocks (slab_view c') = pool_blocks (slab_view c) \<and> unat (object_size c') = unat (object_size c)"
    if "pool_avail (slab_view c) \<noteq> {}"
  proof -
    from pool.alloc_some [OF pinv that] obtain p q where
      q: "pool_do_alloc (slab_view c) = Some (Ref p, q)" "pool_inv q" "p \<in> pool_avail (slab_view c)"
        "pool_avail q = pool_avail (slab_view c) - {p}" "pool_blocks q = pool_blocks (slab_view c)" by blast
    from bk [OF q(2)] pool_alloc_frame [OF q(1)] q slab_alloc_sim [OF c] show ?thesis by auto
  qed
  show "slab_do_alloc c = Some (NULL, c)" if "pool_avail (slab_view c) = {}"
    using pool.alloc_none [OF pinv that] slab_alloc_sim [OF c] same by simp
  show "\<exists>c'. slab_do_free c a = Some (True, c') \<and> slab_inv c' \<and>
      pool_avail (slab_view c') = insert a (pool_avail (slab_view c)) \<and>
      pool_blocks (slab_view c') = pool_blocks (slab_view c) \<and> unat (object_size c') = unat (object_size c)"
    if "a \<in> pool_blocks (slab_view c) - pool_avail (slab_view c)"
  proof -
    from pool.free_live [OF pinv that] obtain q where
      q: "pool_do_free (slab_view c) a = Some (True, q)" "pool_inv q"
        "pool_avail q = insert a (pool_avail (slab_view c))" "pool_blocks q = pool_blocks (slab_view c)" by blast
    from bk [OF q(2)] pool_free_frame [OF q(1)] q slab_free_sim [OF c] show ?thesis by auto
  qed
  show "slab_do_free c a = Some (False, c)" if "a \<notin> pool_blocks (slab_view c) - pool_avail (slab_view c)"
    using pool.free_wrong [OF pinv that] slab_free_sim [OF c] same by simp
  show "\<exists>c'. slab_poke c a j v = Some c' \<and> slab_inv c' \<and>
      pool_avail (slab_view c') = pool_avail (slab_view c) \<and>
      pool_blocks (slab_view c') = pool_blocks (slab_view c) \<and> unat (object_size c') = unat (object_size c)"
    if "a \<in> pool_blocks (slab_view c) - pool_avail (slab_view c)" and j: "j < unat (object_size c)"
  proof -
    from pool.poke_live [OF pinv that(1)] j obtain q where
      q: "pool_poke (slab_view c) a j v = Some q" "pool_inv q"
        "pool_avail q = pool_avail (slab_view c)" "pool_blocks q = pool_blocks (slab_view c)"
      by (metis slab_view_size)
    from bk [OF q(2)] pool_poke_frame [OF q(1)] q slab_poke_sim [OF c] show ?thesis by auto
  qed
qed

section \<open>The registry\<close>

text \<open>
  \<open>cache_count\<close> is meant to be the number of active caches. Creation keeps it so; destruction
  keeps it so on an active cache.
\<close>

definition registry_ok :: "owslab_state_t \<Rightarrow> bool" where
  "registry_ok st \<longleftrightarrow> sinitialized st \<and> length (caches st) = OWSLAB_MAX_CACHES \<and>
     unat (cache_count st) = count_if active (caches st)"

lemma slab_build_fresh:
  assumes "slab c = Ref (base, bytes)" and "4 \<le> unat (object_size c)" and "unat (object_count c) < 2 ^ 31"
    and "unat (object_count c) * unat (object_size c) \<le> length bytes"
  shows "\<exists>m h cnt. slab_build_freelist c = Some (c\<lparr>slab := Ref (base, m), cfree_head := h, cfree_count := cnt\<rparr>) \<and>
     length m = length bytes \<and> unat cnt = unat (object_count c) \<and>
     free_path pool_load_next m (unat (object_size c)) h [0..<unat (object_count c)]"
proof -
  have "free_path pool_load_next bytes (unat (object_size c)) (- 1)
      [unat (object_count c)..<unat (object_count c)]" by simp
  from pool_link.build_correct [OF this assms(4,2,3), of 0] obtain m h cnt where
    "free_build pool_store_next (unat (object_size c)) (unat (object_count c)) (bytes, - 1, 0) =
       Some (m, h, cnt)" "length m = length bytes"
    "free_path pool_load_next m (unat (object_size c)) h [0..<unat (object_count c)]"
    "unat cnt = unat (object_count c)" by auto
  then show ?thesis
    by (intro exI [of _ m] exI [of _ h] exI [of _ cnt])
      (simp add: slab_build_freelist_def slab_mem_def assms(1) slab_links)
qed

lemma slab_create:
  assumes reg: "registry_ok st" and slot: "first_index (\<lambda>c. \<not> active c) (caches st) = Some slot"
    and g: "4 \<le> unat osize" "ocount \<noteq> 0" "unat ocount < 2 ^ 31"
      "unat ocount * unat osize \<le> length bytes" "unat base + length bytes < 2 ^ 64"
  shows "\<exists>st'. owslab_create_cache (Ref st) nm (Ref (base, bytes)) osize ocount = Some (Ref slot, Ref st') \<and>
     registry_ok st' \<and> slab_inv (caches st' ! slot) \<and> object_size (caches st' ! slot) = osize \<and>
     pool_avail (slab_view (caches st' ! slot)) = pool_blocks (slab_view (caches st' ! slot)) \<and>
     pool_blocks (slab_view (caches st' ! slot)) =
       (\<lambda>i. base + of_nat (i * unat osize)) ` {i. i < unat ocount}"
proof -
  let ?c = "(caches st ! slot)\<lparr>name := slab_copy_name nm, slab := Ref (base, bytes),
    object_size := osize, object_count := ocount, cin_use := 0, chigh_water := 0\<rparr>"
  from slab_build_fresh [of ?c base bytes] g obtain m h cnt where
    b: "slab_build_freelist ?c = Some (?c\<lparr>slab := Ref (base, m), cfree_head := h, cfree_count := cnt\<rparr>)"
      "length m = length bytes" "unat cnt = unat ocount"
      "free_path pool_load_next m (unat osize) h [0..<unat ocount]" by auto
  define c' where "c' = ?c\<lparr>slab := Ref (base, m), cfree_head := h, cfree_count := cnt, active := True\<rparr>"
  define st' where "st' = st\<lparr>caches := (caches st)[slot := c'], cache_count := cache_count st + 1\<rparr>"
  note s = first_index_SomeD [OF slot]
  have create: "owslab_create_cache (Ref st) nm (Ref (base, bytes)) osize ocount = Some (Ref slot, Ref st')"
    using reg g slot b(1)
    by (simp add: owslab_create_cache_def registry_ok_def word_less_nat_alt st'_def c'_def)
  have "count_if active (caches st) < OWSLAB_MAX_CACHES"
    using count_if_less [OF s(1), of active] s(2) reg by (simp add: registry_ok_def)
  then have "unat (cache_count st + 1) = Suc (count_if active (caches st))"
    using reg by (subst unat_add1) (auto simp: registry_ok_def)
  moreover have "count_if active ((caches st)[slot := c']) = Suc (count_if active (caches st))"
    using s by (intro count_if_update_add) (auto simp: c'_def)
  ultimately have reg': "registry_ok st'" using reg by (simp add: registry_ok_def st'_def)
  have shape: "pool_shape (slab_view c')" using g b(2) by (simp add: pool_shape_def slab_view_def c'_def)
  have fl: "pool_free_list (slab_view c') [0..<unat ocount]"
    using b by (simp add: pool_free_list_def slab_view_def c'_def)
  have "pool_avail (slab_view c') = pool_blocks (slab_view c')"
    using pool_avail_eq [OF shape fl] by (auto simp: pool_blocks_def c'_def slab_view_def)
  moreover have "pool_blocks (slab_view c') = (\<lambda>i. base + of_nat (i * unat osize)) ` {i. i < unat ocount}"
    by (simp add: pool_blocks_def pool_addr_def slab_view_def c'_def del: of_nat_mult)
  moreover have "slab_inv c'" using shape fl by (auto simp: slab_inv_def pool_inv_def c'_def)
  moreover have "caches st' ! slot = c'" using s(1) by (simp add: st'_def)
  moreover have "object_size c' = osize" by (simp add: c'_def)
  ultimately show ?thesis using create reg' by metis
qed

lemma slab_init_ok:
  assumes "length (caches st) = OWSLAB_MAX_CACHES"
  shows "\<exists>st'. owslab_init (Ref st) = (True, Ref st') \<and> registry_ok st' \<and> list_all (\<lambda>c. \<not> active c) (caches st')"
  using assms by (auto simp: owslab_init_def registry_ok_def list_all_iff count_if_0_iff)

section \<open>Properties\<close>

text \<open>A cache created in a consistent registry, over an arena large enough for its objects, serves
  any client as a set of objects: with allocations, frees of any address and writes into held
  objects in any order, no access leaves the arena, an allocation returns an object not in use
  (\<open>NULL\<close> only when all are), a free succeeds exactly on an object in use, and the registry
  still counts its active caches.\<close>

theorem owslab_client_legal:
  assumes "registry_ok st" and "first_index (\<lambda>c. \<not> active c) (caches st) = Some slot"
    and "4 \<le> unat osize" and "ocount \<noteq> 0" and "unat ocount < 2 ^ 31"
    and "unat ocount * unat osize \<le> length bytes" and "unat base + length bytes < 2 ^ 64"
  shows "\<exists>st' es live c'.
     owslab_create_cache (Ref st) nm (Ref (base, bytes)) osize ocount = Some (Ref slot, Ref st') \<and>
     registry_ok st' \<and>
     client_run slab_do_alloc slab_do_free slab_poke (unat osize) (caches st' ! slot) [] ops =
       Some (es, live, c') \<and>
     legal_trace ((\<lambda>i. base + of_nat (i * unat osize)) ` {i. i < unat ocount}) {} es \<and> distinct live"
proof -
  from slab_create [OF assms, of nm] obtain st' where
    st': "owslab_create_cache (Ref st) nm (Ref (base, bytes)) osize ocount = Some (Ref slot, Ref st')"
      "registry_ok st'" "slab_inv (caches st' ! slot)" "object_size (caches st' ! slot) = osize"
      "pool_avail (slab_view (caches st' ! slot)) = pool_blocks (slab_view (caches st' ! slot))"
      "pool_blocks (slab_view (caches st' ! slot)) =
         (\<lambda>i. base + of_nat (i * unat osize)) ` {i. i < unat ocount}" by blast
  have "set [] = pool_blocks (slab_view (caches st' ! slot)) - pool_avail (slab_view (caches st' ! slot))"
    using st'(5) by simp
  from slab.run_legal [OF st'(3) distinct.simps(1) [THEN iffD2, OF TrueI] this, of ops]
  obtain es live c' where "client_run slab_do_alloc slab_do_free slab_poke (unat osize)
      (caches st' ! slot) [] ops = Some (es, live, c')" "distinct live"
      "legal_trace (pool_blocks (slab_view (caches st' ! slot))) {} es"
    unfolding st'(4) by auto
  with st'(1,2) show ?thesis unfolding st'(6) by blast
qed

definition blank_cache :: owslab_cache_t where
  "blank_cache = \<lparr>name = [], slab = NULL, object_size = 0, object_count = 0, cfree_head = -1,
     cfree_count = 0, cin_use = 0, chigh_water = 0, active = False\<rparr>"

definition blank_registry :: owslab_state_t where
  "blank_registry = \<lparr>caches = replicate OWSLAB_MAX_CACHES blank_cache, cache_count = 0, sinitialized = True\<rparr>"

lemma blank_registry_ok:
  "registry_ok blank_registry" "first_index (\<lambda>c. \<not> active c) (caches blank_registry) = Some 0"
  by (simp_all add: blank_registry_def registry_ok_def blank_cache_def first_index_Some_iff count_if_0_iff)

theorem owslab_client_legal_witness:
  "\<exists>st' es live c'.
     owslab_create_cache (Ref blank_registry) (Ref ''inode'') (Ref (8192, replicate 12 0)) 4 3 =
       Some (Ref 0, Ref st') \<and> registry_ok st' \<and>
     client_run slab_do_alloc slab_do_free slab_poke (unat (4::u32)) (caches st' ! 0) []
       [Alloc, Alloc, Poke 8192 3 9, Free 8196, Free 8196, Alloc] = Some (es, live, c') \<and>
     legal_trace ((\<lambda>i. 8192 + of_nat (i * unat (4::u32))) ` {i. i < unat (3::u32)}) {} es \<and> distinct live"
  by (rule owslab_client_legal [OF blank_registry_ok]) simp_all

text \<open>What \<open>owslab_destroy_cache\<close> does to \<open>cache_count\<close>: in a registry whose count is the number
  of active caches, destroying a registered cache always succeeds, makes it inactive, and leaves
  the count right exactly when the cache was active or no cache was; destroying an already
  inactive cache while others are active makes the count one too small.\<close>

theorem owslab_destroy_counts:
  assumes "registry_ok st" and "i < OWSLAB_MAX_CACHES"
  shows "\<exists>st'. owslab_destroy_cache (Ref st) (Ref i) = Some (True, Ref st') \<and> \<not> active (caches st' ! i) \<and>
     (registry_ok st' \<longleftrightarrow> active (caches st ! i) \<or> cache_count st = 0)"
proof -
  have len: "length (caches st) = OWSLAB_MAX_CACHES" and init: "sinitialized st"
    and cnt: "unat (cache_count st) = count_if active (caches st)"
    using assms(1) by (auto simp: registry_ok_def)
  have idx: "slab_cache_index st i = int i"
  proof -
    have "first_index (\<lambda>k. k = i) [0..<OWSLAB_MAX_CACHES] = Some i"
      using assms(2) by (intro first_index_unique) auto
    then show ?thesis by (simp add: slab_cache_index_def)
  qed
  define c' where "c' = (caches st ! i)\<lparr>active := False, name := [], slab := NULL, cfree_head := -1,
    cfree_count := 0, cin_use := 0, chigh_water := 0\<rparr>"
  define st' where "st' = st\<lparr>caches := (caches st)[i := c'],
    cache_count := (if cache_count st > 0 then cache_count st - 1 else cache_count st)\<rparr>"
  have run: "owslab_destroy_cache (Ref st) (Ref i) = Some (True, Ref st')"
    using init len idx assms(2) by (simp add: owslab_destroy_cache_def st'_def c'_def)
  have upd: "count_if active ((caches st)[i := c']) + (if active (caches st ! i) then 1 else 0) =
      count_if active (caches st)"
    using count_if_update [of i "caches st" active c'] assms(2) len by (simp add: c'_def)
  have pos: "cache_count st \<noteq> 0 \<Longrightarrow> unat (cache_count st - 1) = unat (cache_count st) - 1"
    by (rule unat_minus1)
  have zero: "cache_count st = 0 \<longleftrightarrow> unat (cache_count st) = 0" by (simp add: unat_eq_0)
  have "registry_ok st' \<longleftrightarrow> active (caches st ! i) \<or> cache_count st = 0"
    using upd pos zero init len cnt
    by (auto simp: registry_ok_def st'_def word_gt_0 split: if_splits)
  moreover have "\<not> active (caches st' ! i)" using assms(2) len by (simp add: st'_def c'_def)
  ultimately show ?thesis using run by blast
qed

theorem owslab_destroy_counts_witness:
  "\<exists>st'. owslab_destroy_cache (Ref blank_registry) (Ref 3) = Some (True, Ref st') \<and>
     \<not> active (caches st' ! 3) \<and> registry_ok st'"
  using owslab_destroy_counts [OF blank_registry_ok(1), of 3] by (simp add: blank_registry_def)

end
