(* ===== verification/C_Loops.thy ===== *)
theory C_Loops
  imports Prelude
begin

text \<open>
  Counted \<open>for\<close> loops whose body may have undefined behaviour, with an invariant rule and a
  rule for loops that compute a known sequence of states; contiguous writes into an array, the
  effect of the copy and fill loops of the sources; and the meaning of a byte string as a number
  (\<open>le_word\<close>, \<open>be_word\<close>) and of a number as a byte string (\<open>le_bytes\<close>, \<open>be_bytes\<close>).
\<close>

unbundle bit_operations_syntax

section \<open>Counted loops\<close>

text \<open>\<open>for (i = a; i < n; i++) s = f(i, s);\<close>\<close>

function c_for :: "nat \<Rightarrow> nat \<Rightarrow> (nat \<Rightarrow> 's \<Rightarrow> 's comp) \<Rightarrow> 's \<Rightarrow> 's comp" where
  "c_for i n f s = (if i < n then do { t \<leftarrow> f i s; c_for (Suc i) n f t } else Some s)"
  by pat_completeness auto
termination by (relation "measure (\<lambda>(i, n, f, s). n - i)") auto

declare c_for.simps [simp del]

lemma c_for_done [simp]: "n \<le> i \<Longrightarrow> c_for i n f s = Some s"
  by (simp add: c_for.simps)

lemma c_for_step: "i < n \<Longrightarrow> c_for i n f s = do { t \<leftarrow> f i s; c_for (Suc i) n f t }"
  by (subst c_for.simps) simp

lemma c_for_rule:
  assumes "P a s" and "a \<le> n"
    and "\<And>i t. a \<le> i \<Longrightarrow> i < n \<Longrightarrow> P i t \<Longrightarrow> \<exists>u. f i t = Some u \<and> P (Suc i) u"
  shows "\<exists>t. c_for a n f s = Some t \<and> P n t"
  using assms
proof (induction a n f s rule: c_for.induct)
  case (1 a n f s)
  show ?case
  proof (cases "a < n")
    case True
    from "1.prems"(3) [OF order_refl True "1.prems"(1)]
    obtain u where u: "f a s = Some u" "P (Suc a) u" by blast
    have "\<exists>t. c_for (Suc a) n f u = Some t \<and> P n t"
    proof (rule "1.IH" [OF True u(1) u(2)])
      show "\<exists>v. f i t = Some v \<and> P (Suc i) v" if "Suc a \<le> i" "i < n" "P i t" for i t
        using that by (intro "1.prems"(3)) auto
    qed (use True in simp)
    then show ?thesis using u(1) True by (simp add: c_for_step)
  qed (use "1.prems" in simp)
qed

lemma c_for_det:
  assumes "\<And>i. a \<le> i \<Longrightarrow> i < n \<Longrightarrow> f i (g i) = Some (g (Suc i))" and "a \<le> n"
  shows "c_for a n f (g a) = Some (g n)"
proof -
  have "\<exists>t. c_for a n f (g a) = Some t \<and> t = g n"
    using assms by (intro c_for_rule [where P = "\<lambda>i t. t = g i"]) auto
  then show ?thesis by blast
qed

section \<open>Contiguous writes\<close>

definition patch :: "'a list \<Rightarrow> nat \<Rightarrow> 'a list \<Rightarrow> 'a list" where
  "patch xs off ys = take off xs @ ys @ drop (off + length ys) xs"

lemma patch_Nil [simp]: "patch xs off [] = xs"
  by (simp add: patch_def)

lemma length_patch [simp]: "off + length ys \<le> length xs \<Longrightarrow> length (patch xs off ys) = length xs"
  by (simp add: patch_def)

lemma patch_Cons: "off < length xs \<Longrightarrow> patch xs off (y # ys) = patch (xs[off := y]) (Suc off) ys"
  by (simp add: patch_def take_Suc_conv_app_nth list_update_append)

lemma patch_snoc:
  "off + length ys < length xs \<Longrightarrow> patch xs off (ys @ [y]) = (patch xs off ys)[off + length ys := y]"
  by (simp add: patch_def list_update_append Cons_nth_drop_Suc [symmetric])

lemma patch_append:
  "off + length ys + length zs \<le> length xs \<Longrightarrow>
     patch (patch xs off ys) (off + length ys) zs = patch xs off (ys @ zs)"
  by (simp add: patch_def add.commute add.left_commute)

lemma patch_append_at:
  "n = off + length ys \<Longrightarrow> n + length zs \<le> length xs \<Longrightarrow> patch (patch xs off ys) n zs = patch xs off (ys @ zs)"
  by (simp add: patch_append)

lemma patch_0: "length ys = length xs \<Longrightarrow> patch xs 0 ys = ys"
  by (simp add: patch_def)

lemma patch_0_drop: "patch xs 0 ys = ys @ drop (length ys) xs"
  by (simp add: patch_def)

lemma take_patch: "off + length ys \<le> length xs \<Longrightarrow> take (off + length ys) (patch xs off ys) = take off xs @ ys"
  by (simp add: patch_def)

lemma take_patch_eq:
  "n = off + length ys \<Longrightarrow> n \<le> length xs \<Longrightarrow> take n (patch xs off ys) = take off xs @ ys"
  by (simp add: take_patch)

lemma take_patch_before: "n \<le> off \<Longrightarrow> n \<le> length xs \<Longrightarrow> take n (patch xs off ys) = take n xs"
  by (cases "off \<le> length xs") (simp_all add: patch_def min_def)

text \<open>A loop that fills consecutive cells.\<close>

lemma c_for_fill:
  assumes "\<And>i. a \<le> i \<Longrightarrow> i < n \<Longrightarrow> G i = Some (g i)" and "a \<le> n" and "off + n \<le> length xs"
  shows "c_for a n (\<lambda>i ys. do { v \<leftarrow> G i; c_wr ys (off + i) v }) xs = Some (patch xs (off + a) (map g [a..<n]))"
proof -
  define s where "s i = patch xs (off + a) (map g [a..<i])" for i
  have "c_for a n (\<lambda>i ys. do { v \<leftarrow> G i; c_wr ys (off + i) v }) (s a) = Some (s n)"
  proof (rule c_for_det)
    fix i assume i: "a \<le> i" "i < n"
    then have "length (s i) = length xs" using assms(3) by (simp add: s_def)
    moreover have "s (Suc i) = (s i)[off + i := g i]"
      using i assms(3) patch_snoc [of "off + a" "map g [a..<i]" xs "g i"] by (simp add: s_def)
    ultimately show "do { v \<leftarrow> G i; c_wr (s i) (off + i) v } = Some (s (Suc i))"
      using i assms by simp
  qed (rule assms(2))
  then show ?thesis by (simp add: s_def)
qed

lemma map_nth_take_drop: "off + n \<le> length xs \<Longrightarrow> map (\<lambda>i. xs ! (off + i)) [0..<n] = take n (drop off xs)"
  by (rule nth_equalityI) auto

lemma take_drop_in: "off + n \<le> N \<Longrightarrow> take n (drop off (take N xs)) = take n (drop off xs)"
  by (simp add: drop_take min_def)

lemma c_for_copy:
  assumes "n \<le> length p" and "off + n \<le> length xs"
  shows "c_for 0 n (\<lambda>i ys. do { v \<leftarrow> c_rd p i; c_wr ys (off + i) v }) xs = Some (patch xs off (take n p))"
proof -
  have "map ((!) p) [0..<n] = take n p" using map_nth_take_drop [of 0 n p] assms(1) by simp
  then show ?thesis using c_for_fill [of 0 n "c_rd p" "(!) p" off xs] assms by simp
qed

lemma nth_patch:
  assumes "off + length ys \<le> length xs" and "j < length xs"
  shows "patch xs off ys ! j = (if off \<le> j \<and> j < off + length ys then ys ! (j - off) else xs ! j)"
  using assms by (auto simp: patch_def nth_append)

text \<open>A loop that copies two arrays side by side.\<close>

lemma c_for_copy2:
  assumes "n \<le> length xs" and "n \<le> length ys" and "a + n \<le> b" and "b + n \<le> length f"
  shows "c_for 0 n (\<lambda>i f. do { x \<leftarrow> c_rd xs i; f \<leftarrow> c_wr f (a + i) x; y \<leftarrow> c_rd ys i; c_wr f (b + i) y }) f =
     Some (patch (patch f a (take n xs)) b (take n ys))"
proof -
  define s where "s i = patch (patch f a (take i xs)) b (take i ys)" for i
  have "c_for 0 n (\<lambda>i f. do { x \<leftarrow> c_rd xs i; f \<leftarrow> c_wr f (a + i) x; y \<leftarrow> c_rd ys i; c_wr f (b + i) y }) (s 0) = Some (s n)"
  proof (rule c_for_det)
    fix i assume "i < n"
    then have i: "i < length xs" "i < length ys" "a + i < b" "b + i < length f" using assms by simp_all
    have "s (Suc i) = (s i)[a + i := xs ! i, b + i := ys ! i]"
      using i by (intro nth_equalityI)
        (auto simp: s_def nth_patch nth_list_update take_Suc_conv_app_nth nth_append le_less_Suc_eq min_def)
    moreover have "length (s i) = length f" using i by (simp add: s_def)
    ultimately show "do { x \<leftarrow> c_rd xs i; f \<leftarrow> c_wr (s i) (a + i) x; y \<leftarrow> c_rd ys i; c_wr f (b + i) y } = Some (s (Suc i))"
      using i by simp
  qed simp
  then show ?thesis by (simp add: s_def)
qed

section \<open>Byte strings and numbers\<close>

fun le_word :: "u8 list \<Rightarrow> 'a::len word" where
  "le_word [] = 0"
| "le_word (b # bs) = ucast b OR push_bit 8 (le_word bs)"

fun le_bytes :: "nat \<Rightarrow> 'a::len word \<Rightarrow> u8 list" where
  "le_bytes 0 v = []"
| "le_bytes (Suc n) v = ucast v # le_bytes n (drop_bit 8 v)"

definition be_word :: "u8 list \<Rightarrow> 'a::len word" where
  "be_word bs = le_word (rev bs)"

definition be_bytes :: "nat \<Rightarrow> 'a::len word \<Rightarrow> u8 list" where
  "be_bytes n v = rev (le_bytes n v)"

lemma length_le_bytes [simp]: "length (le_bytes n v) = n"
  by (induction n v rule: le_bytes.induct) auto

lemma length_be_bytes [simp]: "length (be_bytes n v) = n"
  by (simp add: be_bytes_def)

lemma le_word_bytes: "le_word (le_bytes n v) = take_bit (8 * n) (v :: 'a::len word)"
proof (induction n v rule: le_bytes.induct)
  case (2 n v)
  have "ucast (ucast v :: u8) OR push_bit 8 (take_bit (8 * n) (drop_bit 8 v)) = take_bit (8 + 8 * n) v"
    by (rule bit_word_eqI) (auto simp: bit_simps)
  with 2 show ?case by simp
qed simp

lemma be_word_bytes: "be_word (be_bytes n v) = take_bit (8 * n) v"
  by (simp add: be_word_def be_bytes_def le_word_bytes)

lemma le_bytes_le_word:
  "length x = n \<Longrightarrow> 8 * n \<le> LENGTH('a) \<Longrightarrow> le_bytes n (le_word x :: 'a::len word) = x"
proof (induction x arbitrary: n)
  case (Cons b bs)
  then obtain k where n: "n = Suc k" "length bs = k" by auto
  have len: "8 \<le> LENGTH('a)" using Cons.prems(2) n(1) by simp
  have 1: "ucast (ucast b OR push_bit 8 (le_word bs) :: 'a word) = b"
    using len by (intro bit_word_eqI) (auto simp: bit_simps)
  have "drop_bit 8 (ucast b OR push_bit 8 (le_word bs) :: 'a word) = drop_bit 8 (push_bit 8 (le_word bs))"
    by (intro bit_word_eqI) (auto simp: bit_simps dest: bit_imp_le_length)
  moreover have "le_bytes k (drop_bit 8 (push_bit 8 (le_word bs :: 'a word))) = le_bytes k (le_word bs :: 'a word)"
  proof -
    have "drop_bit 8 (push_bit 8 w) = take_bit (LENGTH('a) - 8) (w :: 'a word)" for w
      by (intro bit_word_eqI) (auto simp: bit_simps)
    moreover have "le_bytes k (take_bit m w) = le_bytes k (w :: 'a word)" if "8 * k \<le> m" for m w
      using that
    proof (induction k arbitrary: m w)
      case (Suc k)
      have "drop_bit 8 (take_bit m w) = take_bit (m - 8) (drop_bit 8 w)" using Suc.prems by (intro bit_word_eqI) (auto simp: bit_simps)
      moreover have "(ucast (take_bit m w) :: u8) = ucast w" using Suc.prems by (intro bit_word_eqI) (auto simp: bit_simps)
      ultimately show ?case using Suc.IH [of "m - 8"] Suc.prems by simp
    qed simp
    ultimately show ?thesis using Cons.prems(2) n(1) by simp
  qed
  ultimately show ?case using 1 Cons.IH [of k] Cons.prems(2) n by simp
qed simp

section \<open>Loads and stores\<close>

text \<open>A typed access of \<open>n\<close> bytes on a little-endian machine.\<close>

definition ld_le :: "nat \<Rightarrow> u8 list \<Rightarrow> nat \<Rightarrow> 'a::len word comp" where
  "ld_le n buf off = (if off + n \<le> length buf then Some (le_word (take n (drop off buf))) else None)"

definition st_le :: "nat \<Rightarrow> u8 list \<Rightarrow> nat \<Rightarrow> 'a::len word \<Rightarrow> u8 list comp" where
  "st_le n buf off v = (if off + n \<le> length buf then Some (patch buf off (le_bytes n v)) else None)"

lemma ld_le_at:
  assumes "length p = off" and "8 * n = LENGTH('a)"
  shows "ld_le n (p @ le_bytes n v @ q) off = Some (v :: 'a::len word)"
  using assms by (simp add: ld_le_def le_word_bytes)

lemma st_le_at:
  assumes "length p = off" and "length x = n"
  shows "st_le n (p @ x @ q) off v = Some (p @ le_bytes n v @ q)"
  using assms by (simp add: st_le_def patch_def)

text \<open>A copy within one array, between ranges that do not overlap.\<close>

lemma c_for_move:
  assumes "d + n \<le> length m" and "s + n \<le> length m" and "s + n \<le> d \<or> d + n \<le> s"
  shows "c_for 0 n (\<lambda>i m. do { v \<leftarrow> c_rd m (s + i); c_wr m (d + i) v }) m = Some (patch m d (take n (drop s m)))"
proof -
  define g where "g i = patch m d (take i (drop s m))" for i
  have len: "length (g i) = length m" if "i \<le> n" for i using that assms(1,2) by (simp add: g_def)
  have "c_for 0 n (\<lambda>i m. do { v \<leftarrow> c_rd m (s + i); c_wr m (d + i) v }) (g 0) = Some (g n)"
  proof (rule c_for_det)
    fix i assume i: "i < n"
    have "g i ! (s + i) = m ! (s + i)" unfolding g_def using i assms by (subst nth_patch) auto
    moreover have "g (Suc i) = (g i)[d + i := m ! (s + i)]"
    proof -
      have "take (Suc i) (drop s m) = take i (drop s m) @ [m ! (s + i)]" using i assms(2) by (simp add: take_Suc_conv_app_nth)
      then show ?thesis using patch_snoc [of d "take i (drop s m)" m "m ! (s + i)"] i assms by (simp add: g_def)
    qed
    ultimately show "do { v \<leftarrow> c_rd (g i) (s + i); c_wr (g i) (d + i) v } = Some (g (Suc i))"
      using i len [of i] assms by simp
  qed simp
  then show ?thesis by (simp add: g_def)
qed

end
