(* ===== verification/Heap.thy ===== *)
theory Heap
  imports C_Loops
begin

text \<open>
  The first-fit heap \<open>src/DLL/owheap64/owheap64.c\<close>. The arena is a list of bytes at an address;
  the block headers lie in it, in front of their payloads, and every access of a header field is
  a load or store of its bytes, so that a write of the client, a stale header or a wrong pointer
  has the effect it has in memory. An access outside the arena is undefined behaviour. A walk
  along the \<open>next\<close> pointers need not end on a corrupted heap, which the model renders as
  undefined too: the theorems show that the walks end.
\<close>

section \<open>Model\<close>

abbreviation (input) OWHEAP_MAGIC :: u32 where "OWHEAP_MAGIC \<equiv> 0x4F57484F"
abbreviation (input) OWHEAP_FLAG_FREE :: u32 where "OWHEAP_FLAG_FREE \<equiv> 1"

text \<open>Pointers are addresses, \<open>NULL\<close> is 0; \<open>hmem\<close> holds the bytes from \<open>arena\<close> on.\<close>

record owheap_t =
  arena :: u64
  arena_size :: u32
  head :: u64
  alloc_count :: u64
  free_count :: u64
  bytes_in_use :: u64
  peak_bytes :: u64
  initialized :: bool
  hmem :: "u8 list"

record owheap_stats_t =
  st_arena_size :: u64
  st_bytes_in_use :: u64
  st_peak_bytes :: u64
  st_alloc_count :: u64
  st_free_count :: u64
  st_block_count :: u32
  st_free_block_count :: u32

text \<open>
  The fields of \<open>owheap_block_t\<close>: \<open>size\<close>, \<open>flags\<close>, \<open>magic\<close>, \<open>reserved\<close> at 0, 4, 8, 12, and the
  pointers \<open>next\<close> and \<open>prev\<close> at 16 and 24; its size is 32.
\<close>

definition rd32 :: "owheap_t \<Rightarrow> u64 \<Rightarrow> nat \<Rightarrow> u32 comp" where
  "rd32 h p k = ld_le 4 (hmem h) (unat (p - arena h) + k)"

definition rd64 :: "owheap_t \<Rightarrow> u64 \<Rightarrow> nat \<Rightarrow> u64 comp" where
  "rd64 h p k = ld_le 8 (hmem h) (unat (p - arena h) + k)"

definition wr32 :: "owheap_t \<Rightarrow> u64 \<Rightarrow> nat \<Rightarrow> u32 \<Rightarrow> owheap_t comp" where
  "wr32 h p k v = do { m \<leftarrow> st_le 4 (hmem h) (unat (p - arena h) + k) v; Some (h\<lparr>hmem := m\<rparr>) }"

definition wr64 :: "owheap_t \<Rightarrow> u64 \<Rightarrow> nat \<Rightarrow> u64 \<Rightarrow> owheap_t comp" where
  "wr64 h p k v = do { m \<leftarrow> st_le 8 (hmem h) (unat (p - arena h) + k) v; Some (h\<lparr>hmem := m\<rparr>) }"

definition get_size :: "owheap_t \<Rightarrow> u64 \<Rightarrow> u32 comp" where "get_size h p = rd32 h p 0"
definition get_flags :: "owheap_t \<Rightarrow> u64 \<Rightarrow> u32 comp" where "get_flags h p = rd32 h p 4"
definition get_magic :: "owheap_t \<Rightarrow> u64 \<Rightarrow> u32 comp" where "get_magic h p = rd32 h p 8"
definition get_next :: "owheap_t \<Rightarrow> u64 \<Rightarrow> u64 comp" where "get_next h p = rd64 h p 16"
definition get_prev :: "owheap_t \<Rightarrow> u64 \<Rightarrow> u64 comp" where "get_prev h p = rd64 h p 24"

definition set_size :: "u64 \<Rightarrow> u32 \<Rightarrow> owheap_t \<Rightarrow> owheap_t comp" where "set_size p v h = wr32 h p 0 v"
definition set_flags :: "u64 \<Rightarrow> u32 \<Rightarrow> owheap_t \<Rightarrow> owheap_t comp" where "set_flags p v h = wr32 h p 4 v"
definition set_magic :: "u64 \<Rightarrow> u32 \<Rightarrow> owheap_t \<Rightarrow> owheap_t comp" where "set_magic p v h = wr32 h p 8 v"
definition set_reserved :: "u64 \<Rightarrow> u32 \<Rightarrow> owheap_t \<Rightarrow> owheap_t comp" where "set_reserved p v h = wr32 h p 12 v"
definition set_next :: "u64 \<Rightarrow> u64 \<Rightarrow> owheap_t \<Rightarrow> owheap_t comp" where "set_next p v h = wr64 h p 16 v"
definition set_prev :: "u64 \<Rightarrow> u64 \<Rightarrow> owheap_t \<Rightarrow> owheap_t comp" where "set_prev p v h = wr64 h p 24 v"

definition heap_payload :: "u64 \<Rightarrow> u64" where
  "heap_payload block = block + 32"

definition heap_header :: "u64 \<Rightarrow> u64" where
  "heap_header p = p - 32"

definition heap_align :: "u64 \<Rightarrow> u32" where
  "heap_align sz =
     (let aligned = (sz + 7) AND NOT 7
      in if aligned < sz then 0 else if aligned > 0xFFFFFFFF then 0 else ucast aligned)"

definition heap_split :: "owheap_t \<Rightarrow> u64 \<Rightarrow> u32 \<Rightarrow> owheap_t comp" where
  "heap_split h block need =
     do { sz \<leftarrow> get_size h block;
          let remain = sz - need;
          if remain < 32 + 8 then Some h
          else do {
            let rest = heap_payload block + ucast need;
            h \<leftarrow> set_size rest (remain - 32) h;
            h \<leftarrow> set_flags rest OWHEAP_FLAG_FREE h;
            h \<leftarrow> set_magic rest OWHEAP_MAGIC h;
            h \<leftarrow> set_reserved rest 0 h;
            nx \<leftarrow> get_next h block;
            h \<leftarrow> set_next rest nx h;
            h \<leftarrow> set_prev rest block h;
            nx \<leftarrow> get_next h block;
            h \<leftarrow> (if nx \<noteq> 0 then set_prev nx rest h else Some h);
            h \<leftarrow> set_next block rest h;
            set_size block need h } }"

text \<open>The condition \<open>p != NULL && (p->flags & OWHEAP_FLAG_FREE) != 0\<close>.\<close>

definition is_free_block :: "owheap_t \<Rightarrow> u64 \<Rightarrow> bool comp" where
  "is_free_block h p =
     (if p \<noteq> 0 then do { f \<leftarrow> get_flags h p; Some (f AND OWHEAP_FLAG_FREE \<noteq> 0) } else Some False)"

text \<open>
  \<open>block\<close> swallows its successor \<open>next_block\<close>; the code has these statements twice in
  \<open>heap_coalesce\<close>, for the block and its successor and for the predecessor and the block.
\<close>

definition heap_absorb :: "owheap_t \<Rightarrow> u64 \<Rightarrow> u64 \<Rightarrow> owheap_t comp" where
  "heap_absorb h block next_block =
     do { sz \<leftarrow> get_size h block;
          nsz \<leftarrow> get_size h next_block;
          h \<leftarrow> set_size block (sz + (32 + nsz)) h;
          nn \<leftarrow> get_next h next_block;
          h \<leftarrow> set_next block nn h;
          nn \<leftarrow> get_next h next_block;
          if nn \<noteq> 0 then set_prev nn block h else Some h }"

definition heap_coalesce :: "owheap_t \<Rightarrow> u64 \<Rightarrow> owheap_t comp" where
  "heap_coalesce h block =
     do { nx \<leftarrow> get_next h block;
          fr \<leftarrow> is_free_block h nx;
          h \<leftarrow> (if fr then heap_absorb h block nx else Some h);
          pv \<leftarrow> get_prev h block;
          fr \<leftarrow> is_free_block h pv;
          if fr then heap_absorb h pv block else Some h }"

definition heap_account_grow :: "owheap_t \<Rightarrow> u32 \<Rightarrow> owheap_t" where
  "heap_account_grow h amount =
     (let h1 = h\<lparr>bytes_in_use := bytes_in_use h + ucast amount\<rparr>
      in if bytes_in_use h1 > peak_bytes h1 then h1\<lparr>peak_bytes := bytes_in_use h1\<rparr> else h1)"

definition heap_account_shrink :: "owheap_t \<Rightarrow> u32 \<Rightarrow> owheap_t" where
  "heap_account_shrink h amount =
     (if bytes_in_use h \<ge> ucast amount then h\<lparr>bytes_in_use := bytes_in_use h - ucast amount\<rparr>
      else h\<lparr>bytes_in_use := 0\<rparr>)"

text \<open>The caller's arena: its address and its bytes.\<close>

definition owheap_init :: "owheap_t ptr \<Rightarrow> (u64 \<times> u8 list) ptr \<Rightarrow> u64 \<Rightarrow> (bool \<times> owheap_t ptr) comp" where
  "owheap_init heap ar len =
     (case (heap, ar) of
        (Ref h, Ref (base, bytes)) \<Rightarrow>
          let aligned = (base + 7) AND NOT 7; skip = aligned - base in
          if len \<le> skip then Some (False, heap)
          else let usable = len - skip in
          if usable \<le> 32 + 8 then Some (False, heap)
          else if usable > 0xFFFFFFFF then Some (False, heap)
          else let h = h\<lparr>arena := aligned, arena_size := ucast usable, alloc_count := 0, free_count := 0,
                         bytes_in_use := 0, peak_bytes := 0, hmem := drop (unat skip) bytes\<rparr>;
                   block = aligned in
            do { h \<leftarrow> set_size block (ucast usable - 32) h;
                 h \<leftarrow> set_flags block OWHEAP_FLAG_FREE h;
                 h \<leftarrow> set_magic block OWHEAP_MAGIC h;
                 h \<leftarrow> set_reserved block 0 h;
                 h \<leftarrow> set_next block 0 h;
                 h \<leftarrow> set_prev block 0 h;
                 Some (True, Ref (h\<lparr>head := block, initialized := True\<rparr>)) }
      | _ \<Rightarrow> Some (False, heap))"

text \<open>The walk of \<open>owheap_alloc\<close>: the block to use, or 0.\<close>

partial_function (option) alloc_loop :: "owheap_t \<Rightarrow> u32 \<Rightarrow> u64 \<Rightarrow> u64 comp" where
  "alloc_loop h need block =
     (if block = 0 then Some 0
      else do { f \<leftarrow> get_flags h block;
                if f AND OWHEAP_FLAG_FREE = 0 then do { nx \<leftarrow> get_next h block; alloc_loop h need nx }
                else do { sz \<leftarrow> get_size h block;
                          if sz < need then do { nx \<leftarrow> get_next h block; alloc_loop h need nx }
                          else Some block } })"

declare alloc_loop.simps [code]

definition owheap_alloc :: "owheap_t ptr \<Rightarrow> u64 \<Rightarrow> (u64 \<times> owheap_t ptr) comp" where
  "owheap_alloc heap req =
     (case heap of NULL \<Rightarrow> Some (0, heap)
      | Ref h \<Rightarrow>
         if \<not> initialized h \<or> req = 0 then Some (0, heap)
         else let need = heap_align req in
         if need = 0 then Some (0, heap)
         else do { block \<leftarrow> alloc_loop h need (head h);
                   if block = 0 then Some (0, heap)
                   else do { h \<leftarrow> heap_split h block need;
                             f \<leftarrow> get_flags h block;
                             h \<leftarrow> set_flags block (f AND NOT OWHEAP_FLAG_FREE) h;
                             sz \<leftarrow> get_size h block;
                             Some (heap_payload block, Ref (heap_account_grow (h\<lparr>alloc_count := alloc_count h + 1\<rparr>) sz)) } })"

definition owheap_free :: "owheap_t ptr \<Rightarrow> u64 \<Rightarrow> (bool \<times> owheap_t ptr) comp" where
  "owheap_free heap p =
     (case heap of NULL \<Rightarrow> Some (False, heap)
      | Ref h \<Rightarrow>
         if \<not> initialized h \<or> p = 0 then Some (False, heap)
         else if p < arena h \<or> p \<ge> arena h + ucast (arena_size h) then Some (False, heap)
         else let block = heap_header p in
         do { mg \<leftarrow> get_magic h block;
              if mg \<noteq> OWHEAP_MAGIC then Some (False, heap)
              else do {
                f \<leftarrow> get_flags h block;
                if f AND OWHEAP_FLAG_FREE \<noteq> 0 then Some (False, heap)
                else do {
                  sz \<leftarrow> get_size h block;
                  let h = heap_account_shrink h sz;
                  h \<leftarrow> set_flags block (f OR OWHEAP_FLAG_FREE) h;
                  h \<leftarrow> heap_coalesce (h\<lparr>free_count := free_count h + 1\<rparr>) block;
                  Some (True, Ref h) } } })"

text \<open>\<open>for (i = 0; i < n; ++i) dst[i] = src[i];\<close> inside the arena.\<close>

definition heap_copy :: "owheap_t \<Rightarrow> u64 \<Rightarrow> u64 \<Rightarrow> nat \<Rightarrow> owheap_t comp" where
  "heap_copy h dst src n =
     do { m \<leftarrow> c_for 0 n (\<lambda>i m. do { v \<leftarrow> c_rd m (unat (src - arena h) + i); c_wr m (unat (dst - arena h) + i) v }) (hmem h);
          Some (h\<lparr>hmem := m\<rparr>) }"

text \<open>Growing into the successor, when it is free and large enough.\<close>

definition grow_in_place :: "owheap_t \<Rightarrow> u64 \<Rightarrow> u32 \<Rightarrow> u32 \<Rightarrow> owheap_t option comp" where
  "grow_in_place h block original need =
     do { nx \<leftarrow> get_next h block;
          fr \<leftarrow> is_free_block h nx;
          if fr then
            do { nsz \<leftarrow> get_size h nx;
                 if original + 32 + nsz \<ge> need then
                   do { h \<leftarrow> set_size block (original + 32 + nsz) h;
                        nn \<leftarrow> get_next h nx;
                        h \<leftarrow> set_next block nn h;
                        nn \<leftarrow> get_next h nx;
                        h \<leftarrow> (if nn \<noteq> 0 then set_prev nn block h else Some h);
                        h \<leftarrow> heap_split h block need;
                        sz \<leftarrow> get_size h block;
                        Some (Some (heap_account_grow h sz)) }
                 else Some None }
          else Some None }"

definition owheap_realloc :: "owheap_t ptr \<Rightarrow> u64 \<Rightarrow> u64 \<Rightarrow> (u64 \<times> owheap_t ptr) comp" where
  "owheap_realloc heap p new_size =
     (case heap of NULL \<Rightarrow> Some (0, heap)
      | Ref h \<Rightarrow>
         if \<not> initialized h then Some (0, heap)
         else if p = 0 then owheap_alloc heap new_size
         else if new_size = 0 then do { (_, heap) \<leftarrow> owheap_free heap p; Some (0, heap) }
         else if p < arena h \<or> p \<ge> arena h + ucast (arena_size h) then Some (0, heap)
         else let block = heap_header p in
         do { mg \<leftarrow> get_magic h block;
              if mg \<noteq> OWHEAP_MAGIC then Some (0, heap)
              else do {
              f \<leftarrow> get_flags h block;
              if f AND OWHEAP_FLAG_FREE \<noteq> 0 then Some (0, heap)
              else let need = heap_align new_size in
              if need = 0 then Some (0, heap)
              else do {
              original \<leftarrow> get_size h block;
              let h = heap_account_shrink h original;
              if need \<le> original then
                do { h \<leftarrow> heap_split h block need;
                     sz \<leftarrow> get_size h block;
                     Some (p, Ref (heap_account_grow h sz)) }
              else do {
                g \<leftarrow> grow_in_place h block original need;
                case g of Some h \<Rightarrow> Some (p, Ref h)
                | None \<Rightarrow>
                   do { (fresh, hp) \<leftarrow> owheap_alloc (Ref (heap_account_grow h original)) new_size;
                        if fresh = 0 then Some (0, hp)
                        else (case hp of NULL \<Rightarrow> None
                              | Ref h \<Rightarrow>
                                 do { h \<leftarrow> heap_copy h fresh p (unat (if original < need then original else need));
                                      (_, hp) \<leftarrow> owheap_free (Ref h) p;
                                      Some (fresh, hp) }) } } } } })"

partial_function (option) stats_loop :: "owheap_t \<Rightarrow> u64 \<Rightarrow> u32 \<times> u32 \<Rightarrow> (u32 \<times> u32) comp" where
  "stats_loop h block n =
     (if block = 0 then Some n
      else do { f \<leftarrow> get_flags h block;
                nx \<leftarrow> get_next h block;
                stats_loop h nx (fst n + 1, if f AND OWHEAP_FLAG_FREE \<noteq> 0 then snd n + 1 else snd n) })"

declare stats_loop.simps [code]

definition owheap_stats :: "owheap_t ptr \<Rightarrow> owheap_stats_t ptr \<Rightarrow> (bool \<times> owheap_stats_t ptr) comp" where
  "owheap_stats heap out =
     (case (heap, out) of
        (Ref h, Ref _) \<Rightarrow>
          if \<not> initialized h then Some (False, out)
          else do { n \<leftarrow> stats_loop h (head h) (0, 0);
                    Some (True, Ref \<lparr>st_arena_size = ucast (arena_size h), st_bytes_in_use = bytes_in_use h,
                      st_peak_bytes = peak_bytes h, st_alloc_count = alloc_count h, st_free_count = free_count h,
                      st_block_count = fst n, st_free_block_count = snd n\<rparr>) }
      | _ \<Rightarrow> Some (False, out))"

section \<open>Headers in memory\<close>

definition hdr :: "u32 \<Rightarrow> u32 \<Rightarrow> u32 \<Rightarrow> u32 \<Rightarrow> u64 \<Rightarrow> u64 \<Rightarrow> u8 list" where
  "hdr s f m r n v = le_bytes 4 s @ le_bytes 4 f @ le_bytes 4 m @ le_bytes 4 r @ le_bytes 8 n @ le_bytes 8 v"

lemma length_hdr [simp]: "length (hdr s f m r n v) = 32"
  by (simp add: hdr_def)

text \<open>Any 32 bytes are some header.\<close>

lemma hdr_surj:
  assumes "length x = 32"
  obtains s f m r n v where "x = hdr s f m r n v"
proof -
  have "x = take 4 x @ take 4 (drop 4 x) @ take 4 (drop 8 x) @ take 4 (drop 12 x) @ take 8 (drop 16 x) @ drop 24 x"
    using assms by (simp add: take_add [symmetric] flip: append_assoc take_add)
  moreover have "le_bytes 4 (le_word y :: u32) = y" if "length y = 4" for y using that by (intro le_bytes_le_word) simp_all
  moreover have "le_bytes 8 (le_word y :: u64) = y" if "length y = 8" for y using that by (intro le_bytes_le_word) simp_all
  ultimately have "x = hdr (le_word (take 4 x)) (le_word (take 4 (drop 4 x))) (le_word (take 4 (drop 8 x)))
      (le_word (take 4 (drop 12 x))) (le_word (take 8 (drop 16 x))) (le_word (drop 24 x))"
    using assms by (simp add: hdr_def)
  then show ?thesis by (rule that)
qed

text \<open>A place for a header in the memory of a heap, and what is around it.\<close>

definition slot :: "u64 \<Rightarrow> u64 \<Rightarrow> (u8 list \<Rightarrow> owheap_t) \<Rightarrow> bool" where
  "slot base a F \<longleftrightarrow> (\<exists>P Q h. arena h = base \<and> length P = unat (a - base) \<and> (\<forall>x. F x = h\<lparr>hmem := P @ x @ Q\<rparr>))"

lemma slotI: "arena h = base \<Longrightarrow> length P = unat (a - base) \<Longrightarrow> slot base a (\<lambda>x. h\<lparr>hmem := P @ x @ Q\<rparr>)"
  by (auto simp: slot_def)

lemma slot_get:
  assumes "slot base a F"
  shows "get_size (F (hdr s f m r n v)) a = Some s" and "get_flags (F (hdr s f m r n v)) a = Some f"
    and "get_magic (F (hdr s f m r n v)) a = Some m" and "get_next (F (hdr s f m r n v)) a = Some n"
    and "get_prev (F (hdr s f m r n v)) a = Some v"
proof -
  obtain P Q h where F: "arena h = base" "length P = unat (a - base)" "\<And>x. F x = h\<lparr>hmem := P @ x @ Q\<rparr>"
    using assms by (auto simp: slot_def)
  let ?s = "le_bytes 4 s" and ?f = "le_bytes 4 f" and ?m = "le_bytes 4 m" and ?r = "le_bytes 4 r"
    and ?n = "le_bytes 8 n" and ?v = "le_bytes 8 v"
  show "get_size (F (hdr s f m r n v)) a = Some s"
    using ld_le_at [of P "unat (a - base)" 4 s] F by (simp add: get_size_def rd32_def hdr_def)
  show "get_flags (F (hdr s f m r n v)) a = Some f"
    using ld_le_at [of "P @ ?s" "unat (a - base) + 4" 4 f] F by (simp add: get_flags_def rd32_def hdr_def)
  show "get_magic (F (hdr s f m r n v)) a = Some m"
    using ld_le_at [of "P @ ?s @ ?f" "unat (a - base) + 8" 4 m] F by (simp add: get_magic_def rd32_def hdr_def)
  show "get_next (F (hdr s f m r n v)) a = Some n"
    using ld_le_at [of "P @ ?s @ ?f @ ?m @ ?r" "unat (a - base) + 16" 8 n] F by (simp add: get_next_def rd64_def hdr_def)
  show "get_prev (F (hdr s f m r n v)) a = Some v"
    using ld_le_at [of "P @ ?s @ ?f @ ?m @ ?r @ ?n" "unat (a - base) + 24" 8 v] F by (simp add: get_prev_def rd64_def hdr_def)
qed

lemma slot_set:
  assumes "slot base a F"
  shows "set_size a x (F (hdr s f m r n v)) = Some (F (hdr x f m r n v))"
    and "set_flags a x (F (hdr s f m r n v)) = Some (F (hdr s x m r n v))"
    and "set_magic a x (F (hdr s f m r n v)) = Some (F (hdr s f x r n v))"
    and "set_reserved a x (F (hdr s f m r n v)) = Some (F (hdr s f m x n v))"
    and "set_next a y (F (hdr s f m r n v)) = Some (F (hdr s f m r y v))"
    and "set_prev a y (F (hdr s f m r n v)) = Some (F (hdr s f m r n y))"
proof -
  obtain P Q h where F: "arena h = base" "length P = unat (a - base)" "\<And>x. F x = h\<lparr>hmem := P @ x @ Q\<rparr>"
    using assms by (auto simp: slot_def)
  let ?s = "le_bytes 4 s" and ?f = "le_bytes 4 f" and ?m = "le_bytes 4 m" and ?r = "le_bytes 4 r"
    and ?n = "le_bytes 8 n" and ?v = "le_bytes 8 v"
  show "set_size a x (F (hdr s f m r n v)) = Some (F (hdr x f m r n v))"
    using st_le_at [of P "unat (a - base)" ?s 4 _ x] F by (simp add: set_size_def wr32_def hdr_def)
  show "set_flags a x (F (hdr s f m r n v)) = Some (F (hdr s x m r n v))"
    using st_le_at [of "P @ ?s" "unat (a - base) + 4" ?f 4 _ x] F by (simp add: set_flags_def wr32_def hdr_def)
  show "set_magic a x (F (hdr s f m r n v)) = Some (F (hdr s f x r n v))"
    using st_le_at [of "P @ ?s @ ?f" "unat (a - base) + 8" ?m 4 _ x] F by (simp add: set_magic_def wr32_def hdr_def)
  show "set_reserved a x (F (hdr s f m r n v)) = Some (F (hdr s f m x n v))"
    using st_le_at [of "P @ ?s @ ?f @ ?m" "unat (a - base) + 12" ?r 4 _ x] F by (simp add: set_reserved_def wr32_def hdr_def)
  show "set_next a y (F (hdr s f m r n v)) = Some (F (hdr s f m r y v))"
    using st_le_at [of "P @ ?s @ ?f @ ?m @ ?r" "unat (a - base) + 16" ?n 8 _ y] F by (simp add: set_next_def wr64_def hdr_def)
  show "set_prev a y (F (hdr s f m r n v)) = Some (F (hdr s f m r n y))"
    using st_le_at [of "P @ ?s @ ?f @ ?m @ ?r @ ?n" "unat (a - base) + 24" ?v 8 _ y] F by (simp add: set_prev_def wr64_def hdr_def)
qed

section \<open>A heap as a list of blocks\<close>

text \<open>A block is its free flag and its payload; blocks tile the arena.\<close>

type_synonym block = "bool \<times> u8 list"

definition blk_len :: "block \<Rightarrow> nat" where
  "blk_len b = 32 + length (snd b)"

definition span :: "block list \<Rightarrow> nat" where
  "span bs = sum_list (map blk_len bs)"

lemma span_simps [simp]: "span [] = 0" "span (b # bs) = 32 + length (snd b) + span bs" "span (xs @ ys) = span xs + span ys"
  by (simp_all add: span_def blk_len_def)

definition addr :: "u64 \<Rightarrow> nat \<Rightarrow> u64" where
  "addr base off = base + of_nat off"

definition blk_hdr :: "u64 \<Rightarrow> u64 \<Rightarrow> block \<Rightarrow> u8 list" where
  "blk_hdr n v b = hdr (of_nat (length (snd b))) (if fst b then 1 else 0) OWHEAP_MAGIC 0 n v"

lemma length_blk_hdr [simp]: "length (blk_hdr n v b) = 32"
  by (simp add: blk_hdr_def)

text \<open>The bytes of a list of blocks from offset \<open>off\<close> on; \<open>v\<close> is the predecessor of the first block and \<open>e\<close> the successor of the last.\<close>

fun layout :: "u64 \<Rightarrow> nat \<Rightarrow> u64 \<Rightarrow> u64 \<Rightarrow> block list \<Rightarrow> u8 list" where
  "layout base off v e [] = []"
| "layout base off v e (b # bs) =
     blk_hdr (if bs = [] then e else addr base (off + blk_len b)) v b @ snd b @ layout base (off + blk_len b) (addr base off) e bs"

lemma length_layout [simp]: "length (layout base off v e bs) = span bs"
  by (induction bs arbitrary: off v) (auto simp: blk_len_def)

definition last_addr :: "u64 \<Rightarrow> nat \<Rightarrow> u64 \<Rightarrow> block list \<Rightarrow> u64" where
  "last_addr base off v xs = (if xs = [] then v else addr base (off + span (butlast xs)))"

lemma layout_append:
  "layout base off v e (xs @ ys) =
     layout base off v (if ys = [] then e else addr base (off + span xs)) xs @
     layout base (off + span xs) (last_addr base off v xs) e ys"
proof (induction xs arbitrary: off v)
  case (Cons x xs)
  show ?case
  proof (cases xs)
    case Nil
    then show ?thesis using Cons by (simp add: last_addr_def blk_len_def)
  next
    case (Cons z zs)
    then show ?thesis using Cons.IH [of "off + blk_len x" "addr base off"]
      by (simp add: last_addr_def blk_len_def add.assoc)
  qed
qed (simp add: last_addr_def)

lemma addr_0 [simp]: "addr base 0 = base"
  by (simp add: addr_def)

lemma unat_addr: "off < 2 ^ 64 \<Longrightarrow> unat (addr base off - base) = off"
  by (simp add: addr_def unat_of_nat)

lemma addr_payload: "heap_payload (addr base off) = addr base (off + 32)"
  "heap_header (addr base (off + 32)) = addr base off"
  by (simp_all add: addr_def heap_payload_def heap_header_def)

lemma addr_inj: "x < 2 ^ 64 \<Longrightarrow> y < 2 ^ 64 \<Longrightarrow> addr base x = addr base y \<Longrightarrow> x = y"
  by (metis unat_addr)

text \<open>The arena: not at address 0, within the address space, at most \<open>2 ^ 32 - 1\<close> bytes.\<close>

definition arena_ok :: "u64 \<Rightarrow> nat \<Rightarrow> bool" where
  "arena_ok base n \<longleftrightarrow> base \<noteq> 0 \<and> unat base + n < 2 ^ 64 \<and> n < 2 ^ 32 \<and> 8 dvd unat base"

lemma unat_addr_abs: "arena_ok base n \<Longrightarrow> off \<le> n \<Longrightarrow> unat (addr base off) = unat base + off"
  by (simp add: addr_def arena_ok_def unat_word_ariths unat_of_nat)

lemma addr_nonzero:
  assumes "arena_ok base n" and "off \<le> n"
  shows "addr base off \<noteq> 0"
proof
  assume "addr base off = 0"
  then have "unat base + off = 0" using unat_addr_abs [OF assms] by simp
  then show False using assms(1) by (simp add: arena_ok_def unat_eq_0)
qed

definition heap_shape :: "owheap_t \<Rightarrow> block list \<Rightarrow> bool" where
  "heap_shape h bs \<longleftrightarrow> hmem h = layout (arena h) 0 0 0 bs \<and> arena_ok (arena h) (span bs)"

text \<open>The header of a block in the middle of the heap.\<close>

lemma heap_shape_split:
  assumes "heap_shape h (pre @ b # post)"
  obtains P Q where "hmem h = P @ blk_hdr (if post = [] then 0 else addr (arena h) (span pre + blk_len b))
       (last_addr (arena h) 0 0 pre) b @ Q"
    and "length P = unat (addr (arena h) (span pre) - arena h)"
proof -
  have l: "span pre < 2 ^ 64" using assms by (simp add: heap_shape_def arena_ok_def)
  show ?thesis
    using that [of "layout (arena h) 0 0 (addr (arena h) (span pre)) pre"] assms unat_addr [OF l, of "arena h"]
    by (simp add: heap_shape_def layout_append)
qed

lemma heap_get:
  assumes "heap_shape h (pre @ b # post)"
  shows "get_size h (addr (arena h) (span pre)) = Some (of_nat (length (snd b)))"
    and "get_flags h (addr (arena h) (span pre)) = Some (if fst b then 1 else 0)"
    and "get_magic h (addr (arena h) (span pre)) = Some OWHEAP_MAGIC"
    and "get_next h (addr (arena h) (span pre)) = Some (if post = [] then 0 else addr (arena h) (span pre + blk_len b))"
    and "get_prev h (addr (arena h) (span pre)) = Some (last_addr (arena h) 0 0 pre)"
proof -
  let ?n = "if post = [] then 0 else addr (arena h) (span pre + blk_len b)" and ?v = "last_addr (arena h) 0 0 pre"
  obtain P Q where pq: "hmem h = P @ blk_hdr ?n ?v b @ Q" "length P = unat (addr (arena h) (span pre) - arena h)"
    by (rule heap_shape_split [OF assms])
  have s: "slot (arena h) (addr (arena h) (span pre)) (\<lambda>x. h\<lparr>hmem := P @ x @ Q\<rparr>)" using pq(2) by (intro slotI) simp_all
  have h: "h\<lparr>hmem := P @ blk_hdr ?n ?v b @ Q\<rparr> = h" using pq(1) by simp
  note g = slot_get [OF s, of "of_nat (length (snd b))" "if fst b then 1 else 0" OWHEAP_MAGIC 0 ?n ?v,
    folded blk_hdr_def, unfolded h]
  show "get_size h (addr (arena h) (span pre)) = Some (of_nat (length (snd b)))"
    "get_flags h (addr (arena h) (span pre)) = Some (if fst b then 1 else 0)"
    "get_magic h (addr (arena h) (span pre)) = Some OWHEAP_MAGIC"
    "get_next h (addr (arena h) (span pre)) = Some ?n" "get_prev h (addr (arena h) (span pre)) = Some ?v"
    by (fact g)+
qed

section \<open>What the list operations do to the blocks\<close>

definition put_blocks :: "owheap_t \<Rightarrow> block list \<Rightarrow> owheap_t" where
  "put_blocks h bs = h\<lparr>hmem := layout (arena h) 0 0 0 bs\<rparr>"

lemma put_blocks_simps [simp]:
  "arena (put_blocks h bs) = arena h" "head (put_blocks h bs) = head h" "arena_size (put_blocks h bs) = arena_size h"
  "bytes_in_use (put_blocks h bs) = bytes_in_use h" "initialized (put_blocks h bs) = initialized h"
  "peak_bytes (put_blocks h bs) = peak_bytes h" "alloc_count (put_blocks h bs) = alloc_count h"
  "free_count (put_blocks h bs) = free_count h" "put_blocks (put_blocks h bs) cs = put_blocks h cs"
  by (simp_all add: put_blocks_def)

lemma heap_shape_put: "heap_shape h bs \<Longrightarrow> span cs = span bs \<Longrightarrow> heap_shape (put_blocks h cs) cs"
  by (simp add: heap_shape_def put_blocks_def)

lemma put_blocks_same: "heap_shape h bs \<Longrightarrow> put_blocks h bs = h"
  by (simp add: put_blocks_def heap_shape_def)

lemma heap_set_flags:
  assumes "heap_shape h (pre @ (f, p) # post)"
  shows "set_flags (addr (arena h) (span pre)) (if g then 1 else 0) h = Some (put_blocks h (pre @ (g, p) # post))"
proof -
  let ?a = "addr (arena h) (span pre)" and ?v = "last_addr (arena h) 0 0 pre"
  let ?n = "if post = [] then 0 else addr (arena h) (span pre + (32 + length p))"
  let ?P = "layout (arena h) 0 0 ?a pre" and ?Q = "p @ layout (arena h) (span pre + (32 + length p)) ?a 0 post"
  have "unat (?a - arena h) = span pre" using assms by (intro unat_addr) (simp add: heap_shape_def arena_ok_def)
  then have s: "slot (arena h) ?a (\<lambda>x. h\<lparr>hmem := ?P @ x @ ?Q\<rparr>)" by (intro slotI) simp_all
  have lay: "layout (arena h) 0 0 0 (pre @ (x, p) # post) = ?P @ blk_hdr ?n ?v (x, p) @ ?Q" for x
    by (simp add: layout_append blk_len_def)
  have "h = h\<lparr>hmem := ?P @ blk_hdr ?n ?v (f, p) @ ?Q\<rparr>" using assms lay [of f] by (simp add: heap_shape_def)
  then show ?thesis
    using slot_set(2) [OF s, of "if g then 1 else 0" "of_nat (length p)" "if f then 1 else 0" OWHEAP_MAGIC 0 ?n ?v] lay [of g]
    by (simp add: blk_hdr_def put_blocks_def)
qed

text \<open>A block swallows its successor.\<close>

lemma heap_absorb_blocks:
  assumes "heap_shape h (pre @ (f, p) # (g, q) # post)"
  obtains x where "heap_absorb h (addr (arena h) (span pre)) (addr (arena h) (span pre + (32 + length p))) =
      Some (put_blocks h (pre @ (f, p @ x @ q) # post))" and "length x = 32"
proof -
  let ?base = "arena h" and ?v = "last_addr (arena h) 0 0 pre"
  let ?a = "addr ?base (span pre)" and ?b = "addr ?base (span pre + (32 + length p))"
  let ?off = "span pre + (32 + length p) + (32 + length q)" and ?P = "layout ?base 0 0 (addr ?base (span pre)) pre"
  let ?fa = "if f then 1 else 0 :: u32" and ?fb = "if g then 1 else 0 :: u32"
  have ok: "arena_ok ?base (span (pre @ (f, p) # (g, q) # post))" using assms by (simp add: heap_shape_def)
  have ua: "unat (?a - ?base) = span pre" and ub: "unat (?b - ?base) = span pre + (32 + length p)"
    using ok by (intro unat_addr; simp add: arena_ok_def)+
  show ?thesis
  proof (cases post)
    case Nil
    define H where "H x y = h\<lparr>hmem := ?P @ x @ p @ y @ q\<rparr>" for x y
    have s1: "slot ?base ?a (\<lambda>x. H x y)" for y unfolding H_def using ua by (intro slotI) simp_all
    have s2: "slot ?base ?b (\<lambda>y. H (hdr s fl m r n v) y)" for s fl m r n v
      unfolding H_def using ub slotI [of h ?base "?P @ hdr s fl m r n v @ p" ?b q] by simp
    let ?y = "hdr (of_nat (length q)) ?fb OWHEAP_MAGIC 0 0 ?a"
    have h: "h = H (hdr (of_nat (length p)) ?fa OWHEAP_MAGIC 0 ?b ?v) ?y"
      using assms by (simp add: heap_shape_def layout_append Nil blk_len_def blk_hdr_def H_def)
    have "heap_absorb h ?a ?b = Some (H (hdr (of_nat (length p) + (32 + of_nat (length q))) ?fa OWHEAP_MAGIC 0 0 ?v) ?y)"
      by (subst h) (simp add: heap_absorb_def slot_get [OF s1] slot_set [OF s1] slot_get [OF s2])
    also have "\<dots> = Some (put_blocks h (pre @ (f, p @ ?y @ q) # post))"
      by (simp add: put_blocks_def layout_append Nil blk_len_def blk_hdr_def H_def)
    finally show ?thesis using that by simp
  next
    case (Cons c post')
    define c_at where "c_at = addr ?base ?off"
    define n_at where "n_at = (if post' = [] then 0 else addr ?base (?off + (32 + length (snd c))))"
    define R where "R = snd c @ layout ?base (?off + (32 + length (snd c))) c_at 0 post'"
    define H where "H x y z = h\<lparr>hmem := ?P @ x @ p @ y @ q @ z @ R\<rparr>" for x y z
    let ?fc = "if fst c then 1 else 0 :: u32"
    have s1: "slot ?base ?a (\<lambda>x. H x y z)" for y z unfolding H_def using ua by (intro slotI) simp_all
    have s2: "slot ?base ?b (\<lambda>y. H (hdr s fl m r n v) y z)" for s fl m r n v z
      unfolding H_def using ub slotI [of h ?base "?P @ hdr s fl m r n v @ p" ?b] by simp
    have uc: "unat (c_at - ?base) = ?off" unfolding c_at_def using ok Cons by (intro unat_addr) (simp add: arena_ok_def)
    have s3: "slot ?base c_at (\<lambda>z. H (hdr s fl m r n v) (hdr s' fl' m' r' n' v') z)" for s fl m r n v s' fl' m' r' n' v'
      unfolding H_def using uc slotI [of h ?base "?P @ hdr s fl m r n v @ p @ hdr s' fl' m' r' n' v' @ q" c_at] by simp
    have nz: "c_at \<noteq> 0" unfolding c_at_def using ok Cons by (intro addr_nonzero [OF ok]) simp
    let ?y = "hdr (of_nat (length q)) ?fb OWHEAP_MAGIC 0 c_at ?a"
    let ?z = "\<lambda>v. hdr (of_nat (length (snd c))) ?fc OWHEAP_MAGIC 0 n_at v"
    have lay: "layout ?base 0 0 0 (pre @ (f, p) # (g, q) # post) =
        ?P @ hdr (of_nat (length p)) ?fa OWHEAP_MAGIC 0 ?b ?v @ p @ ?y @ q @ ?z ?b @ R"
      by (simp add: layout_append Cons blk_len_def blk_hdr_def add.assoc c_at_def n_at_def R_def)
    then have h: "h = H (hdr (of_nat (length p)) ?fa OWHEAP_MAGIC 0 ?b ?v) ?y (?z ?b)"
      using assms by (simp add: heap_shape_def H_def)
    have "heap_absorb h ?a ?b =
        Some (H (hdr (of_nat (length p) + (32 + of_nat (length q))) ?fa OWHEAP_MAGIC 0 c_at ?v) ?y (?z ?a))"
      by (subst h) (simp add: heap_absorb_def slot_get [OF s1] slot_set [OF s1] slot_get [OF s2] slot_set [OF s3] nz)
    also have "\<dots> = Some (put_blocks h (pre @ (f, p @ ?y @ q) # post))"
      by (simp add: put_blocks_def layout_append Cons blk_len_def blk_hdr_def H_def c_at_def n_at_def R_def ac_simps)
    finally show ?thesis using that by simp
  qed
qed

text \<open>Splitting a block: the tail becomes a free block when it can hold a header and eight bytes.\<close>

definition split_blk :: "nat \<Rightarrow> block \<Rightarrow> block list" where
  "split_blk k b =
     (if length (snd b) < k + 40 then [b] else [(fst b, take k (snd b)), (True, drop (k + 32) (snd b))])"

lemma span_split_blk: "k \<le> length (snd b) \<Longrightarrow> span (split_blk k b) = blk_len b"
  by (simp add: split_blk_def blk_len_def)

lemma heap_split_blocks:
  assumes "heap_shape h (pre @ (f, p) # post)" and "k \<le> length p"
  shows "heap_split h (addr (arena h) (span pre)) (of_nat k) = Some (put_blocks h (pre @ split_blk k (f, p) @ post))"
proof -
  let ?base = "arena h" and ?v = "last_addr (arena h) 0 0 pre" and ?a = "addr (arena h) (span pre)"
  have ok: "arena_ok ?base (span (pre @ (f, p) # post))" using assms(1) by (simp add: heap_shape_def)
  have small: "length p < 2 ^ 32" using ok by (simp add: arena_ok_def)
  have rem: "of_nat (length p) - of_nat k = (of_nat (length p - k) :: u32)" using assms(2) by (simp add: of_nat_diff)
  have unat_rem: "unat (of_nat (length p - k) :: u32) = length p - k" using small by (intro unat_of_nat_u32) simp
  have size: "get_size h ?a = Some (of_nat (length p))" using heap_get(1) [OF assms(1)] by simp
  show ?thesis
  proof (cases "length p < k + 40")
    case True
    then have "of_nat (length p - k) < (40 :: u32)" using unat_rem by (simp add: word_less_nat_alt)
    then have "heap_split h ?a (of_nat k) = Some h" by (simp add: heap_split_def size rem)
    then show ?thesis using True put_blocks_same [OF assms(1)] by (simp add: split_blk_def)
  next
    case big: False
    then have nlt: "\<not> of_nat (length p - k) < (40 :: u32)" using unat_rem by (simp add: word_less_nat_alt)
    define p1 where "p1 = take k p"
    define p2 where "p2 = drop (k + 32) p"
    define X where "X = take 32 (drop k p)"
    have "drop (k + 32) p = drop 32 (drop k p)" by (simp add: add.commute)
    then have p: "p = p1 @ X @ p2" by (simp only: p1_def p2_def X_def append_take_drop_id)
    have len: "length p1 = k" "length X = 32" "length p2 = length p - k - 32" using big by (simp_all add: p1_def X_def p2_def)
    obtain xs xf xm xr xn xv where X: "X = hdr xs xf xm xr xn xv" by (rule hdr_surj [OF len(2)])
    have size2: "of_nat (length p - k) - 32 = (of_nat (length p2) :: u32)" using big len(3) by (simp add: of_nat_diff)
    define r_at where "r_at = addr ?base (span pre + (32 + k))"
    have rest: "heap_payload ?a + ucast (of_nat k :: u32) = r_at"
    proof -
      have "(ucast (of_nat k :: u32) :: u64) = of_nat k" using assms(2) small by (simp add: unsigned_of_nat take_bit_nat_eq_self)
      then show ?thesis by (simp add: r_at_def heap_payload_def addr_def)
    qed
    let ?P = "layout ?base 0 0 ?a pre" and ?f = "if f then 1 else 0 :: u32"
    have ua: "unat (?a - ?base) = span pre" and ur: "unat (r_at - ?base) = span pre + (32 + k)"
      unfolding r_at_def using ok big by (intro unat_addr; simp add: arena_ok_def)+
    have tail: "blk_len (f, p) = (32 + k) + (32 + length p2)" using big len by (simp add: blk_len_def)
    show ?thesis
    proof (cases post)
      case Nil
      define H where "H x y = h\<lparr>hmem := ?P @ x @ p1 @ y @ p2\<rparr>" for x y
      have s1: "slot ?base ?a (\<lambda>x. H x y)" for y unfolding H_def using ua by (intro slotI) simp_all
      have s2: "slot ?base r_at (\<lambda>y. H (hdr s fl m r n v) y)" for s fl m r n v
        unfolding H_def using ur len(1) slotI [of h ?base "?P @ hdr s fl m r n v @ p1" r_at] by simp
      have h: "h = H (hdr (of_nat (length p)) ?f OWHEAP_MAGIC 0 0 ?v) X"
        using assms(1) p by (simp add: heap_shape_def layout_append Nil blk_hdr_def H_def)
      have "heap_split h ?a (of_nat k) =
          Some (H (hdr (of_nat k) ?f OWHEAP_MAGIC 0 r_at ?v) (hdr (of_nat (length p2)) 1 OWHEAP_MAGIC 0 0 ?a))"
        unfolding heap_split_def size bind.bind_lunit Let_def rest rem size2
        by (subst h) (simp add: X nlt slot_get [OF s1] slot_set [OF s1] slot_get [OF s2] slot_set [OF s2])
      also have "\<dots> = Some (put_blocks h (pre @ split_blk k (f, p) @ post))"
        using big len(1) by (simp add: put_blocks_def layout_append Nil split_blk_def blk_len_def blk_hdr_def H_def r_at_def p1_def p2_def)
      finally show ?thesis .
    next
      case (Cons c post')
      define c_at where "c_at = addr ?base (span pre + blk_len (f, p))"
      define n_at where "n_at = (if post' = [] then 0 else addr ?base (span pre + blk_len (f, p) + blk_len c))"
      define R where "R = snd c @ layout ?base (span pre + blk_len (f, p) + blk_len c) c_at 0 post'"
      define H where "H x y z = h\<lparr>hmem := ?P @ x @ p1 @ y @ p2 @ z @ R\<rparr>" for x y z
      let ?fc = "if fst c then 1 else 0 :: u32"
      have s1: "slot ?base ?a (\<lambda>x. H x y z)" for y z unfolding H_def using ua by (intro slotI) simp_all
      have s2: "slot ?base r_at (\<lambda>y. H (hdr s fl m r n v) y z)" for s fl m r n v z
        unfolding H_def using ur len(1) slotI [of h ?base "?P @ hdr s fl m r n v @ p1" r_at] by simp
      have uc: "unat (c_at - ?base) = span pre + blk_len (f, p)"
        unfolding c_at_def using ok Cons by (intro unat_addr) (simp add: arena_ok_def blk_len_def)
      have s3: "slot ?base c_at (\<lambda>z. H (hdr s fl m r n v) (hdr s' fl' m' r' n' v') z)" for s fl m r n v s' fl' m' r' n' v'
        unfolding H_def using uc tail len(1) slotI [of h ?base "?P @ hdr s fl m r n v @ p1 @ hdr s' fl' m' r' n' v' @ p2" c_at] by simp
      have nz: "c_at \<noteq> 0" unfolding c_at_def using ok Cons by (intro addr_nonzero [OF ok]) (simp add: blk_len_def)
      let ?z = "\<lambda>v. hdr (of_nat (length (snd c))) ?fc OWHEAP_MAGIC 0 n_at v"
      have "layout ?base 0 0 0 (pre @ (f, p) # post) = ?P @ hdr (of_nat (length p)) ?f OWHEAP_MAGIC 0 c_at ?v @ p @ ?z ?a @ R"
        by (simp add: layout_append Cons blk_hdr_def c_at_def n_at_def R_def)
      then have h: "h = H (hdr (of_nat (length p)) ?f OWHEAP_MAGIC 0 c_at ?v) X (?z ?a)"
        using assms(1) p by (simp add: heap_shape_def H_def)
      have "heap_split h ?a (of_nat k) =
          Some (H (hdr (of_nat k) ?f OWHEAP_MAGIC 0 r_at ?v) (hdr (of_nat (length p2)) 1 OWHEAP_MAGIC 0 c_at ?a) (?z r_at))"
        unfolding heap_split_def size bind.bind_lunit Let_def rest rem size2
        by (subst h) (simp add: X nlt nz slot_get [OF s1] slot_set [OF s1] slot_get [OF s2] slot_set [OF s2] slot_set [OF s3])
      also have "\<dots> = Some (put_blocks h (pre @ split_blk k (f, p) @ post))"
      proof -
        have o1: "span pre + blk_len (f, take k p) = span pre + (32 + k)" using assms(2) by (simp add: blk_len_def)
        have o2: "span pre + (32 + k) + blk_len (True, p2) = span pre + blk_len (f, p)" using tail by (simp add: blk_len_def)
        have "layout ?base 0 0 0 (pre @ (f, take k p) # (True, p2) # c # post') =
            ?P @ blk_hdr r_at ?v (f, take k p) @ take k p @ blk_hdr c_at ?a (True, p2) @ p2 @ blk_hdr n_at r_at c @ R"
          by (simp add: layout_append o1 o2 r_at_def c_at_def n_at_def R_def)
        then show ?thesis using big len(1) assms(2)
          by (simp add: put_blocks_def Cons split_blk_def blk_hdr_def H_def p1_def p2_def)
      qed
      finally show ?thesis .
    qed
  qed
qed

text \<open>Freeing a block merges it with its free neighbours.\<close>

lemma heap_addr_nonzero: "heap_shape h (pre @ post) \<Longrightarrow> addr (arena h) (span pre) \<noteq> 0"
  using addr_nonzero [of "arena h" "span (pre @ post)" "span pre"] by (simp add: heap_shape_def)

lemma is_free_block_eq:
  assumes "heap_shape h (pre @ b # post)"
  shows "is_free_block h (addr (arena h) (span pre)) = Some (fst b)"
proof -
  have "addr (arena h) (span pre) \<noteq> 0" by (rule heap_addr_nonzero [OF assms])
  then show ?thesis using heap_get(2) [OF assms] by (simp add: is_free_block_def)
qed

lemma is_free_block_0: "is_free_block h 0 = Some False"
  by (simp add: is_free_block_def)

lemma heap_coalesce_next:
  assumes "heap_shape h (pre @ (True, p) # post)"
  obtains q ex post' where
    "do { nx \<leftarrow> get_next h (addr (arena h) (span pre)); fr \<leftarrow> is_free_block h nx;
          if fr then heap_absorb h (addr (arena h) (span pre)) nx else Some h } = Some (put_blocks h (pre @ (True, q) # post'))"
    and "post = ex @ post'" and "list_all fst ex" and "32 + length q = 32 + length p + span ex"
proof (cases post)
  case Nil
  then have "get_next h (addr (arena h) (span pre)) = Some 0" using heap_get(4) [OF assms] by simp
  then show ?thesis
    by (intro that [where q = p and ex = "[]" and post' = "[]"])
      (use Nil put_blocks_same [OF assms] in \<open>simp_all add: is_free_block_0\<close>)
next
  case (Cons c post')
  have c: "heap_shape h ((pre @ [(True, p)]) @ c # post')" using assms Cons by simp
  have at: "addr (arena h) (span (pre @ [(True, p)])) = addr (arena h) (span pre + (32 + length p))" by simp
  have nx: "get_next h (addr (arena h) (span pre)) = Some (addr (arena h) (span pre + (32 + length p)))"
    using heap_get(4) [OF assms] Cons by (simp add: blk_len_def)
  note fr = is_free_block_eq [OF c, unfolded at]
  show ?thesis
  proof (cases "fst c")
    case False
    then show ?thesis
      by (intro that [where q = p and ex = "[]" and post' = post]) (use put_blocks_same [OF assms] in \<open>simp_all add: nx fr\<close>)
  next
    case True
    then obtain q where c': "c = (True, q)" by (cases c) auto
    obtain x where "heap_absorb h (addr (arena h) (span pre)) (addr (arena h) (span pre + (32 + length p))) =
      Some (put_blocks h (pre @ (True, p @ x @ q) # post'))" "length x = 32"
      using heap_absorb_blocks [of h pre True p True q post'] assms unfolding Cons c' by blast
    then show ?thesis using that [where q = "p @ x @ q" and ex = "[c]" and post' = post'] True Cons by (simp add: nx fr c')
  qed
qed

lemma heap_coalesce_prev:
  assumes "heap_shape h (pre @ (True, p) # post)"
  obtains q ex pre' where
    "do { pv \<leftarrow> get_prev h (addr (arena h) (span pre)); fr \<leftarrow> is_free_block h pv;
          if fr then heap_absorb h pv (addr (arena h) (span pre)) else Some h } = Some (put_blocks h (pre' @ (True, q) # post))"
    and "pre = pre' @ ex" and "list_all fst ex" and "32 + length q = 32 + length p + span ex"
proof (cases pre rule: rev_cases)
  case Nil
  then have "get_prev h (addr (arena h) (span pre)) = Some 0" using heap_get(5) [OF assms] by (simp add: last_addr_def)
  then show ?thesis
    by (intro that [where q = p and ex = "[]" and pre' = "[]"])
      (use Nil put_blocks_same [OF assms] in \<open>simp_all add: is_free_block_0\<close>)
next
  case (snoc pre' c)
  have c: "heap_shape h (pre' @ c # (True, p) # post)" using assms snoc by simp
  have pv: "get_prev h (addr (arena h) (span pre)) = Some (addr (arena h) (span pre'))"
    using heap_get(5) [OF assms] snoc by (simp add: last_addr_def)
  note fr = is_free_block_eq [OF c]
  show ?thesis
  proof (cases "fst c")
    case False
    then show ?thesis
      by (intro that [where q = p and ex = "[]" and pre' = pre]) (use put_blocks_same [OF assms] in \<open>simp_all add: pv fr\<close>)
  next
    case True
    then obtain q where c': "c = (True, q)" by (cases c) auto
    have at: "span pre = span pre' + (32 + length q)" using snoc c' by simp
    obtain x where "heap_absorb h (addr (arena h) (span pre')) (addr (arena h) (span pre' + (32 + length q))) =
      Some (put_blocks h (pre' @ (True, q @ x @ p) # post))" "length x = 32"
      using heap_absorb_blocks [of h pre' True q True p post] c unfolding c' by blast
    then show ?thesis using that [where q = "q @ x @ p" and ex = "[c]" and pre' = pre'] snoc pv fr True by (simp add: at c')
  qed
qed

lemma heap_coalesce_blocks:
  assumes "heap_shape h (pre @ (True, p) # post)"
  obtains pre' ex1 q ex2 post' where
    "heap_coalesce h (addr (arena h) (span pre)) = Some (put_blocks h (pre' @ (True, q) # post'))"
    and "pre = pre' @ ex1" and "post = ex2 @ post'" and "list_all fst ex1" and "list_all fst ex2"
    and "32 + length q = span ex1 + (32 + length p) + span ex2"
proof -
  obtain q1 ex2 post' where n: "do { nx \<leftarrow> get_next h (addr (arena h) (span pre)); fr \<leftarrow> is_free_block h nx;
          if fr then heap_absorb h (addr (arena h) (span pre)) nx else Some h } = Some (put_blocks h (pre @ (True, q1) # post'))"
    "post = ex2 @ post'" "list_all fst ex2" "32 + length q1 = 32 + length p + span ex2"
    by (rule heap_coalesce_next [OF assms])
  let ?h = "put_blocks h (pre @ (True, q1) # post')"
  have sh: "heap_shape ?h (pre @ (True, q1) # post')" using assms n(2,4) by (intro heap_shape_put [OF assms]) simp
  obtain q ex1 pre' where v: "do { pv \<leftarrow> get_prev ?h (addr (arena ?h) (span pre)); fr \<leftarrow> is_free_block ?h pv;
          if fr then heap_absorb ?h pv (addr (arena ?h) (span pre)) else Some ?h } = Some (put_blocks ?h (pre' @ (True, q) # post'))"
    "pre = pre' @ ex1" "list_all fst ex1" "32 + length q = 32 + length q1 + span ex1"
    by (rule heap_coalesce_prev [OF sh])
  let ?a = "addr (arena h) (span pre)"
  have "heap_coalesce h ?a =
      do { h1 \<leftarrow> do { nx \<leftarrow> get_next h ?a; fr \<leftarrow> is_free_block h nx; if fr then heap_absorb h ?a nx else Some h };
           pv \<leftarrow> get_prev h1 ?a; fr \<leftarrow> is_free_block h1 pv; if fr then heap_absorb h1 pv ?a else Some h1 }"
    by (simp add: heap_coalesce_def)
  then have "heap_coalesce h ?a = Some (put_blocks h (pre' @ (True, q) # post'))"
    unfolding n(1) bind.bind_lunit using v(1) [unfolded put_blocks_simps] by simp
  then show ?thesis using that n(2-4) v(2-4) by simp
qed

section \<open>Walks along the list\<close>

definition fits :: "nat \<Rightarrow> block \<Rightarrow> bool" where
  "fits k b \<longleftrightarrow> fst b \<and> k \<le> length (snd b)"

lemma alloc_loop_blocks:
  assumes "heap_shape h (pre @ post)" and "unat need = k"
  shows "alloc_loop h need (if post = [] then 0 else addr (arena h) (span pre)) =
     Some (case first_index (fits k) post of None \<Rightarrow> 0 | Some i \<Rightarrow> addr (arena h) (span (pre @ take i post)))"
  using assms(1)
proof (induction post arbitrary: pre)
  case Nil
  then show ?case by (simp add: alloc_loop.simps)
next
  case (Cons b post)
  have nz: "addr (arena h) (span pre) \<noteq> 0" by (rule heap_addr_nonzero [OF Cons.prems])
  have small: "length (snd b) < 2 ^ 32" using Cons.prems by (simp add: heap_shape_def arena_ok_def)
  have lt: "(of_nat (length (snd b)) :: u32) < need \<longleftrightarrow> length (snd b) < k"
    using unat_of_nat_u32 [OF small] assms(2) by (simp add: word_less_nat_alt)
  note g = heap_get [OF Cons.prems]
  have sp: "span pre + blk_len b = span (pre @ [b])" by (simp add: blk_len_def)
  have ih: "alloc_loop h need (if post = [] then 0 else addr (arena h) (span (pre @ [b]))) =
     Some (case first_index (fits k) post of None \<Rightarrow> 0 | Some i \<Rightarrow> addr (arena h) (span ((pre @ [b]) @ take i post)))"
    using Cons.prems by (intro Cons.IH) simp
  show ?case
  proof (cases "fits k b")
    case True
    then show ?thesis using nz g(1,2) by (subst alloc_loop.simps) (simp add: fits_def lt)
  next
    case False
    then have "alloc_loop h need (addr (arena h) (span pre)) =
        alloc_loop h need (if post = [] then 0 else addr (arena h) (span (pre @ [b])))"
      using nz g(1,2,4) by (subst alloc_loop.simps) (simp add: fits_def not_le blk_len_def lt)
    then show ?thesis using False unfolding ih by (simp add: add.assoc split: option.split)
  qed
qed

lemma stats_loop_blocks:
  assumes "heap_shape h (pre @ post)"
  shows "stats_loop h (if post = [] then 0 else addr (arena h) (span pre)) n =
     Some (fst n + of_nat (length post), snd n + of_nat (count_if fst post))"
  using assms
proof (induction post arbitrary: pre n)
  case Nil
  then show ?case by (simp add: stats_loop.simps)
next
  case (Cons b post)
  have nz: "addr (arena h) (span pre) \<noteq> 0" by (rule heap_addr_nonzero [OF Cons.prems])
  note g = heap_get [OF Cons.prems]
  have "stats_loop h (addr (arena h) (span pre)) n =
      stats_loop h (if post = [] then 0 else addr (arena h) (span (pre @ [b])))
        (fst n + 1, if fst b then snd n + 1 else snd n)"
    using nz g(2,4) by (subst stats_loop.simps) (simp add: blk_len_def)
  also have "\<dots> = Some (fst (fst n + 1, if fst b then snd n + 1 else snd n) + of_nat (length post),
      snd (fst n + 1, if fst b then snd n + 1 else snd n) + of_nat (count_if fst post))"
    using Cons.prems by (intro Cons.IH) simp
  finally show ?case by (simp add: count_if_def)
qed

section \<open>The live blocks and the invariant\<close>

text \<open>The offset of the payload of every block in use, with its contents.\<close>

fun live :: "nat \<Rightarrow> block list \<Rightarrow> nat \<rightharpoonup> u8 list" where
  "live off [] = Map.empty"
| "live off (b # bs) =
     (if fst b then live (off + blk_len b) bs else (live (off + blk_len b) bs)(off + 32 \<mapsto> snd b))"

lemma live_bounds: "live off bs x = Some p \<Longrightarrow> off + 32 \<le> x \<and> x + length p \<le> off + span bs"
proof (induction bs arbitrary: off)
  case (Cons b bs)
  show ?case
  proof (cases "\<not> fst b \<and> x = off + 32")
    case True
    then show ?thesis using Cons.prems by (auto simp: blk_len_def)
  next
    case False
    then have "live (off + blk_len b) bs x = Some p" using Cons.prems by (auto split: if_splits)
    then show ?thesis using Cons.IH [of "off + blk_len b"] by (simp add: blk_len_def)
  qed
qed simp

lemma live_append: "live off (xs @ ys) = live (off + span xs) ys ++ live off xs"
proof (induction xs arbitrary: off)
  case (Cons x xs)
  have "live (off + blk_len x + span xs) ys = live (off + span (x # xs)) ys" by (simp add: blk_len_def add.assoc)
  then show ?case using Cons by (simp add: map_add_upd del: fun_upd_apply)
qed simp

lemma live_free: "list_all fst bs \<Longrightarrow> live off bs = Map.empty"
  by (induction bs arbitrary: off) auto

text \<open>The blocks around one block.\<close>

definition live_around :: "block list \<Rightarrow> nat \<Rightarrow> block list \<Rightarrow> nat \<rightharpoonup> u8 list" where
  "live_around pre n post = live (span pre + (32 + n)) post ++ live 0 pre"

lemma live_mid:
  "live 0 (pre @ (f, p) # post) =
     (if f then live_around pre (length p) post else (live_around pre (length p) post)(span pre + 32 \<mapsto> p))"
  "live_around pre n post (span pre + 32) = None"
proof -
  have none: "live 0 pre (span pre + 32) = None" using live_bounds [of 0 pre "span pre + 32"] by (cases "live 0 pre (span pre + 32)") auto
  show "live_around pre n post (span pre + 32) = None"
    using none live_bounds [of "span pre + (32 + n)" post "span pre + 32"]
    by (cases "live (span pre + (32 + n)) post (span pre + 32)") (auto simp: live_around_def map_add_def)
  have "(m1(k \<mapsto> v) ++ m2) = (m1 ++ m2)(k \<mapsto> v)" if "m2 k = None" for m1 m2 and k :: nat and v :: "u8 list"
    using that by (auto simp: map_add_def split: option.split)
  then show "live 0 (pre @ (f, p) # post) =
     (if f then live_around pre (length p) post else (live_around pre (length p) post)(span pre + 32 \<mapsto> p))"
    using none by (simp add: live_append live_around_def blk_len_def)
qed

lemma live_around_merge:
  assumes "list_all fst ex1" and "list_all fst ex2" and "32 + n = span ex1 + (32 + m) + span ex2"
  shows "live_around pre n post = live_around (pre @ ex1) m (ex2 @ post)"
proof -
  have "span pre + (32 + n) = span pre + span ex1 + (32 + m) + span ex2" using assms(3) by simp
  then show ?thesis using assms(1,2) by (simp add: live_around_def live_append live_free ac_simps)
qed

text \<open>Every header is at a multiple of eight.\<close>

fun aligned :: "nat \<Rightarrow> block list \<Rightarrow> bool" where
  "aligned off [] \<longleftrightarrow> True"
| "aligned off (b # bs) \<longleftrightarrow> 8 dvd off \<and> aligned (off + blk_len b) bs"

lemma aligned_append [simp]: "aligned off (xs @ ys) \<longleftrightarrow> aligned off xs \<and> aligned (off + span xs) ys"
  by (induction xs arbitrary: off) (auto simp: blk_len_def add.assoc)

lemma live_aligned: "aligned off bs \<Longrightarrow> live off bs x = Some p \<Longrightarrow> 8 dvd x"
  by (induction bs arbitrary: off) (auto split: if_splits)

text \<open>The bytes in use.\<close>

definition used :: "block list \<Rightarrow> nat" where
  "used bs = sum_list (map (\<lambda>b. if fst b then 0 else length (snd b)) bs)"

lemma used_simps [simp]: "used [] = 0" "used (b # bs) = (if fst b then 0 else length (snd b)) + used bs"
  "used (xs @ ys) = used xs + used ys"
  by (simp_all add: used_def)

lemma used_free: "list_all fst bs \<Longrightarrow> used bs = 0"
  by (induction bs) auto

lemma used_le: "used bs \<le> span bs"
  by (induction bs) auto

definition heap_inv :: "owheap_t \<Rightarrow> block list \<Rightarrow> bool" where
  "heap_inv h bs \<longleftrightarrow> initialized h \<and> heap_shape h bs \<and> bs \<noteq> [] \<and> head h = arena h \<and> unat (arena_size h) = span bs \<and>
     aligned 0 bs \<and> list_all (\<lambda>b. 8 \<le> length (snd b)) bs \<and> unat (bytes_in_use h) = used bs"

text \<open>The heap promises its client the contents of the blocks in use.\<close>

definition heap_live :: "owheap_t \<Rightarrow> (nat \<rightharpoonup> u8 list) \<Rightarrow> bool" where
  "heap_live h L \<longleftrightarrow> (\<exists>bs. heap_inv h bs \<and> L = live 0 bs)"

section \<open>Alignment of a request\<close>

lemma unat_and_not_7: "unat ((x :: u64) AND NOT 7) = unat x div 8 * 8"
proof -
  have "(7 :: u64) = mask 3" by (simp add: mask_eq_exp_minus_1)
  moreover have "x AND NOT (mask 3) = push_bit 3 (drop_bit 3 x)" by (intro bit_word_eqI) (auto simp: bit_simps)
  ultimately have "x AND NOT 7 = push_bit 3 (drop_bit 3 x)" by simp
  moreover have "unat (drop_bit 3 x) = unat x div 8" by (simp add: drop_bit_eq_div unat_div)
  moreover have "unat x div 8 * 8 < 2 ^ LENGTH(64)"
    using div_times_less_eq_dividend [of "unat x" 8] unsigned_less [of x] by (rule le_less_trans)
  ultimately show ?thesis by (simp add: push_bit_eq_mult unat_word_ariths)
qed

lemma heap_align_props:
  assumes "heap_align req \<noteq> 0"
  shows "unat req \<le> unat (heap_align req)" and "8 dvd unat (heap_align req)"
proof -
  let ?a = "(req + 7) AND NOT 7"
  have c: "\<not> ?a < req" "\<not> ?a > 0xFFFFFFFF" "heap_align req = ucast ?a"
    using assms by (auto simp: heap_align_def Let_def split: if_splits)
  have "unat ?a \<le> 0xFFFFFFFF" using c(2) by (simp add: word_less_nat_alt)
  then have u: "unat (heap_align req) = unat ?a" unfolding c(3) by (subst unat_ucast_down) simp_all
  show "unat req \<le> unat (heap_align req)" unfolding u using c(1) by (simp add: word_less_nat_alt)
  show "8 dvd unat (heap_align req)" unfolding u unat_and_not_7 by simp
qed

section \<open>The client's view of the memory\<close>

lemma live_split:
  assumes "live off bs x = Some p"
  obtains pre post where "bs = pre @ (False, p) # post" and "x = off + span pre + 32"
  using assms
proof (induction bs arbitrary: off thesis)
  case (Cons b bs)
  show ?case
  proof (cases "\<not> fst b \<and> x = off + 32")
    case True
    then have "b = (False, p)" using Cons.prems(2) by (cases b) auto
    then show ?thesis using Cons.prems(1) [of "[]" bs] True by simp
  next
    case False
    then have "live (off + blk_len b) bs x = Some p" using Cons.prems(2) by (auto split: if_splits)
    then obtain pre post where "bs = pre @ (False, p) # post" "x = off + blk_len b + span pre + 32" by (rule Cons.IH [rotated])
    then show ?thesis using Cons.prems(1) [of "b # pre" post] by (simp add: blk_len_def)
  qed
qed simp

lemma live_disjoint:
  assumes "live 0 bs x = Some p" and "live 0 bs y = Some q" and "x \<noteq> y"
  shows "x + length p + 32 \<le> y \<or> y + length q + 32 \<le> x"
proof -
  obtain pre post where b: "bs = pre @ (False, p) # post" "x = 0 + span pre + 32" by (rule live_split [OF assms(1)])
  have "live_around pre (length p) post y = Some q" using assms(2,3) b live_mid(1) [of pre False p post] by simp
  then have "live (span pre + (32 + length p)) post y = Some q \<or> live 0 pre y = Some q"
    by (auto simp: live_around_def map_add_def split: option.splits)
  then show ?thesis using live_bounds [of 0 pre y q] live_bounds [of "span pre + (32 + length p)" post y q] b(2) by auto
qed

lemma layout_payload: "take (length p) (drop (span pre + 32) (layout base 0 v e (pre @ (f, p) # post))) = p"
  by (simp add: layout_append)

lemma layout_patch:
  assumes "k + length ys \<le> length p"
  shows "patch (layout base 0 v e (pre @ (f, p) # post)) (span pre + 32 + k) ys = layout base 0 v e (pre @ (f, patch p k ys) # post)"
proof -
  have mid: "patch (a @ b @ c) (length a + k) ys = a @ patch b k ys @ c" if "k + length ys \<le> length b" for a b c :: "u8 list"
    using that by (simp add: patch_def add.assoc)
  obtain A C where L: "\<And>q. length q = length p \<Longrightarrow> layout base 0 v e (pre @ (f, q) # post) = A @ q @ C" "length A = span pre + 32"
    by (rule that [of "layout base 0 v (addr base (span pre)) pre @
        blk_hdr (if post = [] then e else addr base (span pre + (32 + length p))) (last_addr base 0 v pre) (f, p)"
      "layout base (span pre + (32 + length p)) (addr base (span pre)) e post"])
      (simp_all add: layout_append blk_len_def blk_hdr_def)
  show ?thesis using L(1) [of p] L(1) [of "patch p k ys"] L(2) mid [OF assms, of A C] assms by simp
qed

lemma heap_live_read:
  assumes "heap_live h L" and "L x = Some p"
  shows "take (length p) (drop x (hmem h)) = p" and "x + length p \<le> length (hmem h)"
proof -
  obtain bs where bs: "heap_inv h bs" "L = live 0 bs" using assms(1) by (auto simp: heap_live_def)
  then obtain pre post where b: "bs = pre @ (False, p) # post" "x = 0 + span pre + 32" using live_split assms(2) by metis
  have m: "hmem h = layout (arena h) 0 0 0 bs" using bs(1) by (simp add: heap_inv_def heap_shape_def)
  show "take (length p) (drop x (hmem h)) = p" unfolding m b(1) using layout_payload [of p pre] b(2) by simp
  show "x + length p \<le> length (hmem h)" unfolding m b(1) using b(2) by simp
qed

lemma heap_live_write:
  assumes "heap_live h L" and "L x = Some p" and "k + length ys \<le> length p"
  shows "heap_live (h\<lparr>hmem := patch (hmem h) (x + k) ys\<rparr>) (L(x \<mapsto> patch p k ys))"
proof -
  obtain bs where bs: "heap_inv h bs" "L = live 0 bs" using assms(1) by (auto simp: heap_live_def)
  then obtain pre post where b: "bs = pre @ (False, p) # post" "x = 0 + span pre + 32" using live_split assms(2) by metis
  let ?cs = "pre @ (False, patch p k ys) # post"
  have len: "length (patch p k ys) = length p" using assms(3) by simp
  have "hmem h = layout (arena h) 0 0 0 (pre @ (False, p) # post)" using bs(1) b(1) by (simp add: heap_inv_def heap_shape_def)
  then have "patch (hmem h) (x + k) ys = layout (arena h) 0 0 0 ?cs" using layout_patch [OF assms(3)] b(2) by simp
  then have "heap_inv (h\<lparr>hmem := patch (hmem h) (x + k) ys\<rparr>) ?cs"
    using bs(1) b(1) len by (auto simp: heap_inv_def heap_shape_def blk_len_def)
  moreover have "L(x \<mapsto> patch p k ys) = live 0 ?cs"
    unfolding bs(2) b live_mid(1) [of pre False] using len by simp
  ultimately show ?thesis by (auto simp: heap_live_def)
qed

section \<open>The operations on the live blocks\<close>

lemma heap_inv_shape: "heap_inv h bs \<Longrightarrow> heap_shape h bs" and heap_inv_arena: "heap_inv h bs \<Longrightarrow> arena_ok (arena h) (span bs)"
  by (simp_all add: heap_inv_def heap_shape_def)

lemma heap_inv_update:
  assumes "heap_inv h bs" and "span cs = span bs" and "cs \<noteq> []" and "aligned 0 cs" and "list_all (\<lambda>b. 8 \<le> length (snd b)) cs"
    and "arena h' = arena h" and "head h' = head h" and "arena_size h' = arena_size h" and "initialized h' = initialized h"
    and "hmem h' = layout (arena h) 0 0 0 cs" and "unat (bytes_in_use h') = used cs"
  shows "heap_inv h' cs"
  using assms by (simp add: heap_inv_def heap_shape_def)

lemma account_grow:
  assumes "n < 2 ^ 32" and "unat (bytes_in_use h) + n < 2 ^ 64"
  shows "unat (bytes_in_use (heap_account_grow h (of_nat n))) = unat (bytes_in_use h) + n"
    and "arena (heap_account_grow h s) = arena h" and "head (heap_account_grow h s) = head h"
    and "arena_size (heap_account_grow h s) = arena_size h" and "initialized (heap_account_grow h s) = initialized h"
    and "hmem (heap_account_grow h s) = hmem h"
proof -
  have "unat (ucast (of_nat n :: u32) :: u64) = n" using assms(1) by (simp add: unsigned_of_nat take_bit_nat_eq_self)
  then show "unat (bytes_in_use (heap_account_grow h (of_nat n))) = unat (bytes_in_use h) + n"
    using assms(2) by (simp add: heap_account_grow_def Let_def unat_word_ariths)
qed (simp_all add: heap_account_grow_def Let_def)

lemma account_shrink:
  assumes "n < 2 ^ 32" and "n \<le> unat (bytes_in_use h)"
  shows "unat (bytes_in_use (heap_account_shrink h (of_nat n))) = unat (bytes_in_use h) - n"
    and "arena (heap_account_shrink h s) = arena h" and "head (heap_account_shrink h s) = head h"
    and "arena_size (heap_account_shrink h s) = arena_size h" and "initialized (heap_account_shrink h s) = initialized h"
    and "hmem (heap_account_shrink h s) = hmem h"
proof -
  have u: "unat (ucast (of_nat n :: u32) :: u64) = n" using assms(1) by (simp add: unsigned_of_nat take_bit_nat_eq_self)
  then have le: "ucast (of_nat n :: u32) \<le> bytes_in_use h" using assms(2) by (simp add: word_le_nat_alt)
  then show "unat (bytes_in_use (heap_account_shrink h (of_nat n))) = unat (bytes_in_use h) - n"
    using u unat_sub_le [OF le] by (simp add: heap_account_shrink_def)
qed (simp_all add: heap_account_shrink_def)

text \<open>
  The books: the figures that \<open>owheap_stats\<close> copies. Changes of the memory leave them alone;
  \<open>acct h h' a f n\<close> says that between \<open>h\<close> and \<open>h'\<close> they went up by \<open>a\<close> allocations and
  \<open>f\<close> frees and that \<open>n\<close> bytes were in use at the fullest moment.
\<close>

definition books :: "owheap_t \<Rightarrow> u64 \<times> u32 \<times> u64 \<times> u64 \<times> u64 \<times> u64" where
  "books h = (arena h, arena_size h, alloc_count h, free_count h, peak_bytes h, bytes_in_use h)"

definition acct :: "owheap_t \<Rightarrow> owheap_t \<Rightarrow> u64 \<Rightarrow> u64 \<Rightarrow> u64 \<Rightarrow> bool" where
  "acct h h' a f n \<longleftrightarrow> arena_size h' = arena_size h \<and> alloc_count h' = alloc_count h + a \<and>
     free_count h' = free_count h + f \<and> peak_bytes h' = max (peak_bytes h) n"

lemmas set_defs = set_size_def set_flags_def set_magic_def set_reserved_def set_next_def set_prev_def

lemma books_set:
  "set_size p v32 h = Some h' \<Longrightarrow> books h' = books h" "set_flags p v32 h = Some h' \<Longrightarrow> books h' = books h"
  "set_magic p v32 h = Some h' \<Longrightarrow> books h' = books h" "set_reserved p v32 h = Some h' \<Longrightarrow> books h' = books h"
  "set_next p v64 h = Some h' \<Longrightarrow> books h' = books h" "set_prev p v64 h = Some h' \<Longrightarrow> books h' = books h"
  by (auto simp: set_defs wr32_def wr64_def books_def split: bind_splits)

lemma books_split: "heap_split h b n = Some h' \<Longrightarrow> books h' = books h"
  by (auto simp: heap_split_def Let_def split: bind_splits if_splits dest!: books_set)

lemma books_absorb: "heap_absorb h a b = Some h' \<Longrightarrow> books h' = books h"
  by (auto simp: heap_absorb_def split: bind_splits if_splits dest!: books_set)

lemma books_coalesce: "heap_coalesce h b = Some h' \<Longrightarrow> books h' = books h"
  by (auto simp: heap_coalesce_def split: bind_splits if_splits dest!: books_absorb)

lemma acct_grow: "books h = books h0 \<Longrightarrow> acct h0 (heap_account_grow h s) 0 0 (bytes_in_use (heap_account_grow h s))"
  by (auto simp: acct_def heap_account_grow_def books_def Let_def max_def)

lemma alloc_acct:
  assumes "owheap_alloc (Ref h) n = Some (a, Ref h')"
  shows "a = 0 \<and> h' = h \<or> acct h h' 1 0 (bytes_in_use h')"
proof -
  have "acct h (heap_account_grow (g\<lparr>alloc_count := alloc_count g + 1\<rparr>) s) 1 0
      (bytes_in_use (heap_account_grow (g\<lparr>alloc_count := alloc_count g + 1\<rparr>) s))" if "books g = books h" for g s
    using that by (auto simp: acct_def heap_account_grow_def books_def Let_def max_def)
  then show ?thesis
    using assms by (auto simp: owheap_alloc_def Let_def split: bind_splits if_splits dest!: books_set books_split)
qed

lemma free_acct:
  assumes "owheap_free (Ref h) p = Some (True, Ref h')"
  shows "acct h h' 0 1 0"
proof -
  have sk: "books (heap_account_shrink h s) = (arena h, arena_size h, alloc_count h, free_count h, peak_bytes h, bytes_in_use (heap_account_shrink h s))"
    for s by (simp add: heap_account_shrink_def books_def)
  obtain s g g' where g: "books g = books (heap_account_shrink h s)" "g' = g\<lparr>free_count := free_count g + 1\<rparr>" "books h' = books g'"
    using assms by (auto simp: owheap_free_def Let_def split: bind_splits if_splits dest!: books_set books_coalesce)
  then show ?thesis using sk [of s] by (simp add: acct_def books_def)
qed

lemma grow_acct:
  assumes "grow_in_place h b s n = Some (Some h')"
  shows "acct h h' 0 0 (bytes_in_use h')"
  using assms by (auto simp: grow_in_place_def split: bind_splits if_splits dest!: books_set books_split intro!: acct_grow)

lemma acct_shrink: "acct (heap_account_shrink h s) h' a f n \<longleftrightarrow> acct h h' a f n"
  by (simp add: acct_def heap_account_shrink_def)

text \<open>The first block of a split and the rest.\<close>

lemma split_blk_cases:
  assumes "k \<le> length p" and "8 \<le> k"
  obtains q ex where "\<And>f. split_blk k (f, p) = (f, q) # ex" and "list_all fst ex" and "k \<le> length q"
    and "32 + length q + span ex = 32 + length p" and "take k q = take k p" and "length q \<le> length p"
    and "list_all (\<lambda>b. 8 \<le> length (snd b)) ((False, q) # ex)"
    and "\<And>off. 8 dvd off \<Longrightarrow> 8 dvd k \<Longrightarrow> aligned off ((False, q) # ex)"
proof (cases "length p < k + 40")
  case True
  then show ?thesis using that [of p "[]"] assms by (simp add: split_blk_def)
next
  case False
  show ?thesis
  proof (rule that [of "take k p" "[(True, drop (k + 32) p)]"])
    show "aligned off [(False, take k p), (True, drop (k + 32) p)]" if "8 dvd off" "8 dvd k" for off
      using that assms(1) by (simp add: blk_len_def dvd_add)
  qed (use False assms in \<open>simp_all add: split_blk_def\<close>)
qed

lemma owheap_alloc_null:
  assumes "heap_inv h bs" and "req = 0 \<or> heap_align req = 0 \<or> (\<forall>b \<in> set bs. \<not> fits (unat (heap_align req)) b)"
  shows "owheap_alloc (Ref h) req = Some (0, Ref h)"
proof -
  have "alloc_loop h (heap_align req) (head h) = Some 0" if "\<forall>b \<in> set bs. \<not> fits (unat (heap_align req)) b"
    using alloc_loop_blocks [of h "[]" bs "heap_align req" "unat (heap_align req)"] that assms(1)
    by (simp add: heap_inv_def first_index_None_iff [THEN iffD2])
  then show ?thesis using assms by (auto simp: owheap_alloc_def heap_inv_def Let_def)
qed

lemma owheap_alloc_fit:
  assumes "heap_inv h bs" and "req \<noteq> 0" and "heap_align req \<noteq> 0" and "\<exists>b \<in> set bs. fits (unat (heap_align req)) b"
  obtains x q h' where "owheap_alloc (Ref h) req = Some (addr (arena h) x, Ref h')" and "arena h' = arena h"
    and "live 0 bs x = None" and "unat (heap_align req) \<le> length q" and "heap_live h' ((live 0 bs)(x \<mapsto> q))" and "addr (arena h) x \<noteq> 0"
    and "unat (bytes_in_use h') = unat (bytes_in_use h) + length q"
proof -
  let ?k = "unat (heap_align req)" and ?base = "arena h"
  obtain i where i: "first_index (fits ?k) bs = Some i"
    using assms(4) by (cases "first_index (fits ?k) bs") (auto simp: first_index_None_iff)
  define pre where "pre = take i bs"
  define post where "post = drop (Suc i) bs"
  obtain p where p: "bs = pre @ (True, p) # post" "?k \<le> length p"
    using first_index_SomeD(1,2) [OF i] id_take_nth_drop [of i bs] by (cases "bs ! i") (auto simp: fits_def pre_def post_def)
  have k: "8 \<le> ?k" "8 dvd ?k"
    using heap_align_props(2) [OF assms(3)] assms(3) dvd_imp_le [of 8 ?k] by simp_all
  obtain q ex where s: "\<And>f. split_blk ?k (f, p) = (f, q) # ex" "list_all fst ex" "?k \<le> length q"
      "32 + length q + span ex = 32 + length p" "length q \<le> length p"
      "list_all (\<lambda>b. 8 \<le> length (snd b)) ((False, q) # ex)" "\<And>off. 8 dvd off \<Longrightarrow> 8 dvd ?k \<Longrightarrow> aligned off ((False, q) # ex)"
    by (rule split_blk_cases [OF p(2) k(1)]) blast
  have sh: "heap_shape h (pre @ (True, p) # post)" using heap_inv_shape [OF assms(1)] p(1) by simp
  have ok: "arena_ok ?base (span bs)" by (rule heap_inv_arena [OF assms(1)])
  have loop: "alloc_loop h (heap_align req) (head h) = Some (addr ?base (span pre))"
    using alloc_loop_blocks [of h "[]" bs "heap_align req" ?k] i assms(1) by (simp add: heap_inv_def pre_def)
  have nz: "addr ?base (span pre) \<noteq> 0" by (rule heap_addr_nonzero [OF sh])
  let ?h1 = "put_blocks h (pre @ (True, q) # ex @ post)"
  have split: "heap_split h (addr ?base (span pre)) (heap_align req) = Some ?h1"
    using heap_split_blocks [OF sh p(2)] s(1) by simp
  have sh1: "heap_shape ?h1 (pre @ (True, q) # ex @ post)" using s(4) by (intro heap_shape_put [OF sh]) simp
  let ?h2 = "put_blocks h (pre @ (False, q) # ex @ post)"
  have flags: "set_flags (addr ?base (span pre)) 0 ?h1 = Some ?h2" using heap_set_flags [OF sh1, of False] by simp
  have sh2: "heap_shape ?h2 (pre @ (False, q) # ex @ post)" using s(4) by (intro heap_shape_put [OF sh]) simp
  have get: "get_flags ?h1 (addr ?base (span pre)) = Some 1" "get_size ?h2 (addr ?base (span pre)) = Some (of_nat (length q))"
    using heap_get(2) [OF sh1] heap_get(1) [OF sh2] by simp_all
  let ?h3 = "heap_account_grow (?h2\<lparr>alloc_count := alloc_count ?h2 + 1\<rparr>) (of_nat (length q))"
  have run: "owheap_alloc (Ref h) req = Some (addr ?base (span pre + 32), Ref ?h3)"
    using assms(1-3) loop nz split get flags by (simp add: owheap_alloc_def heap_inv_def Let_def addr_payload)
  have lim: "length q < 2 ^ 32" "used bs + length q < 2 ^ 64"
    using ok used_le [of bs] s(5) p(1) by (auto simp: arena_ok_def)
  have bytes: "unat (bytes_in_use ?h3) = unat (bytes_in_use h) + length q"
    using account_grow(1) [OF lim(1), of "?h2\<lparr>alloc_count := alloc_count ?h2 + 1\<rparr>"] lim(2) assms(1) by (simp add: heap_inv_def)
  have inv: "heap_inv ?h3 (pre @ (False, q) # ex @ post)"
  proof (rule heap_inv_update [OF assms(1)])
    show "span (pre @ (False, q) # ex @ post) = span bs" using s(4) p(1) by simp
    have "aligned (span pre) ((True, p) # post)" "aligned 0 pre" using assms(1) p(1) by (auto simp: heap_inv_def)
    then show "aligned 0 (pre @ (False, q) # ex @ post)"
      using s(7) [of "span pre"] s(4) k(2) by (simp add: blk_len_def add.assoc)
    show "list_all (\<lambda>b. 8 \<le> length (snd b)) (pre @ (False, q) # ex @ post)"
      using assms(1) p(1) s(6) by (simp add: heap_inv_def)
    show "unat (bytes_in_use ?h3) = used (pre @ (False, q) # ex @ post)"
      using bytes assms(1) p(1) used_free [OF s(2)] by (simp add: heap_inv_def)
  qed (simp_all add: account_grow put_blocks_def heap_account_grow_def Let_def)
  have around: "live_around pre (length q) (ex @ post) = live_around pre (length p) post"
    using live_around_merge [of "[]" ex "length p" "length q" pre post] s(2,4) 
    by (simp add: live_around_def live_append live_free [OF s(2)] add.assoc)
  have live: "live 0 bs = live_around pre (length p) post" unfolding p(1) live_mid(1) by simp
  have "live 0 (pre @ (False, q) # ex @ post) = (live 0 bs)(span pre + 32 \<mapsto> q)"
    unfolding live live_mid(1) [of pre False] by (simp add: around)
  then have hl: "heap_live ?h3 ((live 0 bs)(span pre + 32 \<mapsto> q))" using inv unfolding heap_live_def by metis
  have none: "live 0 bs (span pre + 32) = None" unfolding live by (rule live_mid(2))
  have nz2: "addr ?base (span pre + 32) \<noteq> 0" using p(1) by (intro addr_nonzero [OF ok]) simp
  show ?thesis by (rule that [OF run _ none _ hl nz2 bytes]) (use s(3) in \<open>simp_all add: heap_account_grow_def Let_def\<close>)
qed

text \<open>The guards of \<open>owheap_free\<close> and \<open>owheap_realloc\<close> on a live pointer.\<close>

lemma live_guards:
  assumes "heap_inv h (pre @ (False, p) # post)"
  shows "addr (arena h) (span pre + 32) \<noteq> 0" and "\<not> addr (arena h) (span pre + 32) < arena h"
    and "\<not> addr (arena h) (span pre + 32) \<ge> arena h + ucast (arena_size h)"
    and "heap_header (addr (arena h) (span pre + 32)) = addr (arena h) (span pre)"
    and "get_magic h (addr (arena h) (span pre)) = Some OWHEAP_MAGIC"
    and "get_flags h (addr (arena h) (span pre)) = Some 0"
    and "get_size h (addr (arena h) (span pre)) = Some (of_nat (length p))"
    and "length p < 2 ^ 32" and "length p \<le> unat (bytes_in_use h)"
proof -
  let ?bs = "pre @ (False, p) # post"
  have ok: "arena_ok (arena h) (span ?bs)" by (rule heap_inv_arena [OF assms])
  have at: "unat (addr (arena h) (span pre + 32)) = unat (arena h) + (span pre + 32)"
    by (rule unat_addr_abs [OF ok]) simp
  have top: "unat (arena h + ucast (arena_size h)) = unat (arena h) + span ?bs"
  proof -
    have "unat (ucast (arena_size h) :: u64) = span ?bs" using assms by (subst unat_ucast_up) (simp_all add: heap_inv_def)
    then show ?thesis using ok by (simp add: unat_word_ariths arena_ok_def)
  qed
  have "0 < length p" using assms by (auto simp: heap_inv_def)
  then have "unat (arena h) + (span pre + 32) < unat (arena h) + span ?bs" by simp
  then show "\<not> addr (arena h) (span pre + 32) \<ge> arena h + ucast (arena_size h)"
    unfolding word_le_nat_alt at top by simp
  show "addr (arena h) (span pre + 32) \<noteq> 0" by (rule addr_nonzero [OF ok]) simp
  show "\<not> addr (arena h) (span pre + 32) < arena h" using at by (simp add: word_less_nat_alt)
  show "heap_header (addr (arena h) (span pre + 32)) = addr (arena h) (span pre)" by (rule addr_payload)
  show "get_magic h (addr (arena h) (span pre)) = Some OWHEAP_MAGIC" "get_flags h (addr (arena h) (span pre)) = Some 0"
    "get_size h (addr (arena h) (span pre)) = Some (of_nat (length p))"
    using heap_get [OF heap_inv_shape [OF assms]] by simp_all
  show "length p < 2 ^ 32" using ok by (simp add: arena_ok_def)
  show "length p \<le> unat (bytes_in_use h)" using assms by (simp add: heap_inv_def)
qed

lemma aligned_merge:
  assumes "aligned 0 ((pre @ ex1) @ b # ex2 @ post)" and "blk_len c = span ex1 + blk_len b + span ex2"
  shows "aligned 0 (pre @ c # post)"
proof -
  have a: "aligned 0 pre" "aligned (span pre) ex1" "8 dvd span pre + span ex1"
    "aligned (span pre + span ex1 + blk_len b + span ex2) post" using assms(1) by simp_all
  have "span pre + blk_len c = span pre + span ex1 + blk_len b + span ex2" using assms(2) by simp
  then have "aligned (span pre + blk_len c) post" using a(4) by (simp only:)
  moreover have "8 dvd span pre" using a(2,3) by (cases ex1) simp_all
  ultimately show ?thesis using a(1) by simp
qed

lemma owheap_free_live:
  assumes "heap_live h L" and "L x = Some p"
  obtains h' where "owheap_free (Ref h) (addr (arena h) x) = Some (True, Ref h')" and "arena h' = arena h"
    and "heap_live h' (L(x := None))" and "unat (bytes_in_use h') = unat (bytes_in_use h) - length p"
proof -
  obtain bs where bs: "heap_inv h bs" "L = live 0 bs" using assms(1) by (auto simp: heap_live_def)
  then obtain pre post where b: "bs = pre @ (False, p) # post" "x = 0 + span pre + 32" using live_split assms(2) by metis
  have inv: "heap_inv h (pre @ (False, p) # post)" using bs(1) b(1) by simp
  note g = live_guards [OF inv]
  let ?a = "addr (arena h) (span pre)"
  let ?h1 = "heap_account_shrink h (of_nat (length p))"
  note sk = account_shrink [OF g(8) g(9)]
  have sh1: "heap_shape ?h1 (pre @ (False, p) # post)" using heap_inv_shape [OF inv] by (simp add: heap_shape_def sk)
  let ?h2 = "put_blocks ?h1 (pre @ (True, p) # post)"
  have flags: "set_flags ?a 1 ?h1 = Some ?h2" using heap_set_flags [OF sh1, of True] by (simp add: sk)
  let ?h3 = "?h2\<lparr>free_count := free_count ?h2 + 1\<rparr>"
  have sh3: "heap_shape ?h3 (pre @ (True, p) # post)" using sh1 by (simp add: heap_shape_def put_blocks_def)
  obtain pre' ex1 q ex2 post' where c: "heap_coalesce ?h3 (addr (arena ?h3) (span pre)) = Some (put_blocks ?h3 (pre' @ (True, q) # post'))"
    "pre = pre' @ ex1" "post = ex2 @ post'" "list_all fst ex1" "list_all fst ex2"
    "32 + length q = span ex1 + (32 + length p) + span ex2" by (rule heap_coalesce_blocks [OF sh3])
  let ?h4 = "put_blocks ?h3 (pre' @ (True, q) # post')"
  have run: "owheap_free (Ref h) (addr (arena h) x) = Some (True, Ref ?h4)"
    using inv g flags c(1) b(2) by (simp add: owheap_free_def heap_inv_def Let_def sk)
  have bytes: "unat (bytes_in_use ?h4) = unat (bytes_in_use h) - length p" by (simp add: sk)
  have "heap_inv ?h4 (pre' @ (True, q) # post')"
  proof (rule heap_inv_update [OF inv])
    show "span (pre' @ (True, q) # post') = span (pre @ (False, p) # post)" using c(2,3,6) by simp
    show "aligned 0 (pre' @ (True, q) # post')"
      by (rule aligned_merge [of pre' ex1 "(False, p)" ex2 post']) (use inv c(2,3,6) in \<open>simp_all add: heap_inv_def blk_len_def\<close>)
    show "list_all (\<lambda>b. 8 \<le> length (snd b)) (pre' @ (True, q) # post')"
      using inv c(2,3,6) by (auto simp: heap_inv_def)
    show "unat (bytes_in_use ?h4) = used (pre' @ (True, q) # post')"
      using bytes inv c(2,3) used_free [OF c(4)] used_free [OF c(5)] by (simp add: heap_inv_def)
  qed (simp_all add: put_blocks_def sk)
  moreover have "L(x := None) = live 0 (pre' @ (True, q) # post')"
  proof -
    have "live_around pre' (length q) post' = live_around pre (length p) post"
      unfolding c(2,3) by (rule live_around_merge [OF c(4,5)]) (use c(6) in simp)
    moreover have "live_around pre (length p) post x = None" using live_mid(2) [of pre] b(2) by simp
    ultimately show ?thesis unfolding bs(2) b live_mid(1) by (auto simp: fun_upd_idem)
  qed
  ultimately have "heap_live ?h4 (L(x := None))" by (auto simp: heap_live_def)
  then show ?thesis using that [OF run] bytes by (simp add: sk)
qed

subsection \<open>Reallocation\<close>

text \<open>Replacing the block in use by a longer or shorter one.\<close>

lemma heap_inv_resize:
  assumes "heap_inv h (pre @ (False, p) # exs @ post)" and "list_all fst exs" and "list_all fst ex"
    and "32 + length q + span ex = 32 + length p + span exs"
    and "list_all (\<lambda>b. 8 \<le> length (snd b)) ((False, q) # ex)" and "aligned (span pre) ((False, q) # ex)"
    and "h' = heap_account_grow (put_blocks (heap_account_shrink h (of_nat (length p))) (pre @ (False, q) # ex @ post)) (of_nat (length q))"
  shows "heap_inv h' (pre @ (False, q) # ex @ post)" and "arena h' = arena h"
    and "live 0 (pre @ (False, q) # ex @ post) = (live 0 (pre @ (False, p) # exs @ post))(span pre + 32 \<mapsto> q)"
proof -
  note g = live_guards [OF assms(1)]
  note sk = account_shrink [OF g(8) g(9)]
  have ok: "arena_ok (arena h) (span (pre @ (False, p) # exs @ post))" by (rule heap_inv_arena [OF assms(1)])
  have lim: "length q < 2 ^ 32" using ok assms(4) by (simp add: arena_ok_def)
  have "used pre + used post + length q < 2 ^ 64"
    using ok used_le [of pre] used_le [of post] assms(4) by (simp add: arena_ok_def)
  then have bytes: "unat (bytes_in_use h') = used pre + used post + length q"
    unfolding assms(7) using assms(1) used_free [OF assms(2)] by (subst account_grow(1) [OF lim]) (simp_all add: sk heap_inv_def)
  show "arena h' = arena h" unfolding assms(7) by (simp add: heap_account_grow_def Let_def sk)
  have "aligned (span pre + 32 + length p + span exs) post" using assms(1) by (simp add: heap_inv_def blk_len_def add.assoc)
  moreover have "span pre + 32 + length p + span exs = span pre + 32 + length q + span ex" using assms(4) by simp
  ultimately have al: "aligned (span pre + 32 + length q + span ex) post" by (simp only:)
  show "heap_inv h' (pre @ (False, q) # ex @ post)"
    by (rule heap_inv_update [OF assms(1)])
      (use assms(1,4,5,6) al bytes used_free [OF assms(3)] in
       \<open>simp_all add: assms(7) heap_inv_def heap_account_grow_def Let_def put_blocks_def sk blk_len_def add.assoc\<close>)
  have "live_around pre (length q) (ex @ post) = live_around pre (length p) (exs @ post)"
  proof -
    have "span pre + (32 + length q) + span ex = span pre + (32 + length p) + span exs" using assms(4) by simp
    then have "live (span pre + (32 + length q) + span ex) post = live (span pre + (32 + length p) + span exs) post"
      by (simp only:)
    then show ?thesis by (simp add: live_around_def live_append live_free [OF assms(2)] live_free [OF assms(3)])
  qed
  then show "live 0 (pre @ (False, q) # ex @ post) = (live 0 (pre @ (False, p) # exs @ post))(span pre + 32 \<mapsto> q)"
    unfolding live_mid(1) by simp
qed

lemma absorb_size:
  "get_size h a = Some s \<Longrightarrow> get_size h b = Some t \<Longrightarrow> heap_absorb h a b =
     do { h \<leftarrow> set_size a (s + 32 + t) h; nn \<leftarrow> get_next h b; h \<leftarrow> set_next a nn h; nn \<leftarrow> get_next h b;
          if nn \<noteq> 0 then set_prev nn a h else Some h }"
  by (simp add: heap_absorb_def add.assoc)

lemma grow_in_place_blocks:
  assumes "heap_inv h (pre @ (False, p) # post)" and "length p < unat need" and "8 dvd unat need"
    and "h1 = heap_account_shrink h (of_nat (length p))"
  shows "grow_in_place h1 (addr (arena h) (span pre)) (of_nat (length p)) need = Some None \<or>
     (\<exists>h' q. grow_in_place h1 (addr (arena h) (span pre)) (of_nat (length p)) need = Some (Some h') \<and> arena h' = arena h \<and>
        heap_live h' ((live 0 (pre @ (False, p) # post))(span pre + 32 \<mapsto> q)) \<and> unat need \<le> length q \<and> take (length p) q = p)"
proof -
  note g = live_guards [OF assms(1)]
  note sk = account_shrink [OF g(8) g(9)]
  let ?a = "addr (arena h) (span pre)" and ?k = "unat need"
  have sh: "heap_shape h1 (pre @ (False, p) # post)" using heap_inv_shape [OF assms(1)] by (simp add: heap_shape_def sk assms(4))
  have ar: "arena h1 = arena h" by (simp add: sk assms(4))
  note get = heap_get [OF sh, unfolded ar]
  show ?thesis
  proof (cases "\<exists>nx post'. post = (True, nx) # post' \<and> ?k \<le> length p + 32 + length nx")
    case False
    show ?thesis
    proof (cases post)
      case Nil
      then show ?thesis using get(4) by (simp add: grow_in_place_def is_free_block_0)
    next
      case (Cons c post')
      have shc: "heap_shape h1 ((pre @ [(False, p)]) @ c # post')" using sh Cons by simp
      have at: "span (pre @ [(False, p)]) = span pre + (32 + length p)" by simp
      note fr = is_free_block_eq [OF shc, unfolded ar at] and sz = heap_get(1) [OF shc, unfolded ar at]
      have "length p + 32 + length (snd c) < 2 ^ 32" using heap_inv_arena [OF assms(1)] Cons by (simp add: arena_ok_def)
      then have "unat (of_nat (length p + 32 + length (snd c)) :: u32) = length p + 32 + length (snd c)" by (rule unat_of_nat_u32)
      moreover have "fst c \<Longrightarrow> length p + 32 + length (snd c) < ?k" using False Cons by (cases c) auto
      ultimately have "fst c \<Longrightarrow> \<not> (of_nat (length p) + 32 + of_nat (length (snd c)) :: u32) \<ge> need"
        by (simp add: word_le_nat_alt)
      then show ?thesis using get(4) Cons by (simp add: grow_in_place_def fr sz blk_len_def)
    qed
  next
    case True
    then obtain nx post' where n: "post = (True, nx) # post'" "?k \<le> length p + 32 + length nx" by blast
    have shc: "heap_shape h1 ((pre @ [(False, p)]) @ (True, nx) # post')" using sh n(1) by simp
    have at: "span (pre @ [(False, p)]) = span pre + (32 + length p)" by simp
    let ?b = "addr (arena h) (span pre + (32 + length p))"
    note fr = is_free_block_eq [OF shc, unfolded ar at] and sz = heap_get(1) [OF shc, unfolded ar at]
    have "length p + 32 + length nx < 2 ^ 32" using heap_inv_arena [OF assms(1)] n(1) by (simp add: arena_ok_def)
    then have "unat (of_nat (length p + 32 + length nx) :: u32) = length p + 32 + length nx" by (rule unat_of_nat_u32)
    then have ge: "(of_nat (length p) + 32 + of_nat (length nx) :: u32) \<ge> need" using n(2) by (simp add: word_le_nat_alt)
    obtain x where x: "heap_absorb h1 ?a ?b = Some (put_blocks h1 (pre @ (False, p @ x @ nx) # post'))" "length x = 32"
      using heap_absorb_blocks [of h1 pre False p True nx post'] sh n(1) unfolding ar by blast
    let ?h2 = "put_blocks h1 (pre @ (False, p @ x @ nx) # post')"
    have sh2: "heap_shape ?h2 (pre @ (False, p @ x @ nx) # post')" using x(2) n(1) by (intro heap_shape_put [OF sh]) simp
    have k: "?k \<le> length (p @ x @ nx)" "8 \<le> ?k"
      using n(2) x(2) assms(2) dvd_imp_le [OF assms(3)] by (simp_all del: unat_eq_0_word)
    obtain q ex where s: "\<And>f. split_blk ?k (f, p @ x @ nx) = (f, q) # ex" "list_all fst ex" "?k \<le> length q"
      "32 + length q + span ex = 32 + length (p @ x @ nx)" "take ?k q = take ?k (p @ x @ nx)"
      "list_all (\<lambda>b. 8 \<le> length (snd b)) ((False, q) # ex)" "\<And>off. 8 dvd off \<Longrightarrow> 8 dvd ?k \<Longrightarrow> aligned off ((False, q) # ex)"
      by (rule split_blk_cases [OF k]) blast
    let ?h3 = "put_blocks h1 (pre @ (False, q) # ex @ post')"
    have split: "heap_split ?h2 ?a need = Some ?h3" using heap_split_blocks [OF sh2 k(1)] s(1) ar by simp
    have sh3: "heap_shape ?h3 (pre @ (False, q) # ex @ post')" using s(4) x(2) n(1) by (intro heap_shape_put [OF sh]) simp
    have sz3: "get_size ?h3 ?a = Some (of_nat (length q))" using heap_get(1) [OF sh3] ar by simp
    let ?h' = "heap_account_grow ?h3 (of_nat (length q))"
    have run: "grow_in_place h1 ?a (of_nat (length p)) need = Some (Some ?h')"
    proof -
      have nxt: "get_next h1 ?a = Some ?b" using get(4) n(1) by (simp add: blk_len_def)
      have "grow_in_place h1 ?a (of_nat (length p)) need =
          do { h \<leftarrow> heap_absorb h1 ?a ?b; h \<leftarrow> heap_split h ?a need; sz \<leftarrow> get_size h ?a; Some (Some (heap_account_grow h sz)) }"
        using ge get(1) sz by (simp add: grow_in_place_def nxt fr absorb_size)
      then show ?thesis by (simp add: x(1) split sz3)
    qed
    have al: "8 dvd span pre" using assms(1) by (simp add: heap_inv_def)
    have res: "heap_inv ?h' (pre @ (False, q) # ex @ post')" "arena ?h' = arena h"
      "live 0 (pre @ (False, q) # ex @ post') = (live 0 (pre @ (False, p) # [(True, nx)] @ post'))(span pre + 32 \<mapsto> q)"
      by (rule heap_inv_resize [of h pre p "[(True, nx)]" post' ex q];
          use assms(1,4) n(1) s(2,4) x(2) s(6) s(7) [OF al assms(3)] in simp)+
    have "take (length p) q = p"
    proof -
      have "take (length p) (take ?k q) = take (length p) (take ?k (p @ x @ nx))" using s(5) by simp
      then show ?thesis using assms(2) s(3) by (simp add: min_def)
    qed
    then show ?thesis using run res s(3) n(1) unfolding heap_live_def by (intro disjI2) (metis append_Cons append_Nil)
  qed
qed

lemma heap_copy_live:
  assumes "heap_live h L" and "L x = Some p" and "L y = Some q" and "x \<noteq> y" and "length p \<le> length q"
  shows "heap_copy h (addr (arena h) y) (addr (arena h) x) (length p) = Some (h\<lparr>hmem := patch (hmem h) y p\<rparr>)"
    and "heap_live (h\<lparr>hmem := patch (hmem h) y p\<rparr>) (L(y \<mapsto> p @ drop (length p) q))"
proof -
  obtain bs where bs: "heap_inv h bs" "L = live 0 bs" using assms(1) by (auto simp: heap_live_def)
  note rx = heap_live_read [OF assms(1,2)] and ry = heap_live_read [OF assms(1,3)]
  have small: "length (hmem h) < 2 ^ 64" using heap_inv_shape [OF bs(1)] by (simp add: heap_shape_def arena_ok_def)
  have u: "unat (addr (arena h) x - arena h) = x" "unat (addr (arena h) y - arena h) = y"
    using rx(2) ry(2) small by (intro unat_addr; simp)+
  have "x + length p \<le> y \<or> y + length p \<le> x" using live_disjoint [of bs x p y q] assms(2-5) bs(2) by auto
  then show "heap_copy h (addr (arena h) y) (addr (arena h) x) (length p) = Some (h\<lparr>hmem := patch (hmem h) y p\<rparr>)"
    using c_for_move [of y "length p" "hmem h" x] rx ry(2) assms(5) by (simp add: heap_copy_def u)
  show "heap_live (h\<lparr>hmem := patch (hmem h) y p\<rparr>) (L(y \<mapsto> p @ drop (length p) q))"
    using heap_live_write [OF assms(1,3), of 0 p] assms(5) by (simp add: patch_0_drop)
qed

lemma owheap_alloc_live:
  assumes "heap_live h L"
  shows "owheap_alloc (Ref h) req = Some (0, Ref h) \<or>
     (\<exists>x q h'. owheap_alloc (Ref h) req = Some (addr (arena h) x, Ref h') \<and> addr (arena h) x \<noteq> 0 \<and> arena h' = arena h \<and>
        L x = None \<and> unat req \<le> length q \<and> unat (heap_align req) \<le> length q \<and> heap_live h' (L(x \<mapsto> q)) \<and>
        unat (bytes_in_use h') = unat (bytes_in_use h) + length q)"
proof -
  obtain bs where bs: "heap_inv h bs" "L = live 0 bs" using assms by (auto simp: heap_live_def)
  show ?thesis
  proof (cases "req = 0 \<or> heap_align req = 0 \<or> (\<forall>b \<in> set bs. \<not> fits (unat (heap_align req)) b)")
    case True
    then show ?thesis using owheap_alloc_null [OF bs(1)] by blast
  next
    case False
    then have c: "req \<noteq> 0" "heap_align req \<noteq> 0" "\<exists>b \<in> set bs. fits (unat (heap_align req)) b" by blast+
    obtain x q h' where a: "owheap_alloc (Ref h) req = Some (addr (arena h) x, Ref h')" "arena h' = arena h"
      "live 0 bs x = None" "unat (heap_align req) \<le> length q" "heap_live h' ((live 0 bs)(x \<mapsto> q))" "addr (arena h) x \<noteq> 0"
      "unat (bytes_in_use h') = unat (bytes_in_use h) + length q"
      by (rule owheap_alloc_fit [OF bs(1) c])
    moreover have "unat req \<le> length q" using a(4) heap_align_props(1) [OF c(2)] by simp
    ultimately show ?thesis unfolding bs(2) by blast
  qed
qed

text \<open>What a call of \<open>owheap_realloc\<close> on a live pointer may do.\<close>

definition realloc_result :: "owheap_t \<Rightarrow> (nat \<rightharpoonup> u8 list) \<Rightarrow> nat \<Rightarrow> u8 list \<Rightarrow> u64 \<Rightarrow> (u64 \<times> owheap_t ptr) comp \<Rightarrow> bool" where
  "realloc_result h L x p n r \<longleftrightarrow>
     (\<exists>h'. r = Some (0, Ref h') \<and> arena h' = arena h \<and> heap_live h' L \<and> (h' = h \<or> acct h h' 0 0 (bytes_in_use h))) \<or>
     (\<exists>y q h'. r = Some (addr (arena h) y, Ref h') \<and> addr (arena h) y \<noteq> 0 \<and> arena h' = arena h \<and> (y = x \<or> L y = None) \<and>
        unat n \<le> length q \<and> take (min (unat n) (length p)) q = take (min (unat n) (length p)) p \<and>
        heap_live h' ((L(x := None))(y \<mapsto> q)) \<and>
        (if y = x then acct h h' 0 0 (bytes_in_use h')
         else acct h h' 1 1 (bytes_in_use h + of_nat (length q))))"

lemma realloc_inplace:
  assumes "r = Some (addr (arena h) x, Ref h')" and "addr (arena h) x \<noteq> 0" and "arena h' = arena h" and "heap_live h' (L(x \<mapsto> q))"
    and "unat n \<le> length q" and "take k q = take k p" and "min (unat n) (length p) \<le> k"
    and "acct h h' 0 0 (bytes_in_use h')"
  shows "realloc_result h L x p n r"
proof -
  have "take (min (unat n) (length p)) q = take (min (unat n) (length p)) p"
    using arg_cong [OF assms(6), of "take (min (unat n) (length p))"] assms(7) by (simp add: min_def)
  then show ?thesis unfolding realloc_result_def using assms(1-5,8)
    by (intro disjI2 exI [of _ x] exI [of _ q] exI [of _ h']) simp
qed

lemma acct_move:
  assumes "acct g h 0 0 (bytes_in_use g)" and "acct h h1 1 0 (bytes_in_use g + n)" and "acct (h1\<lparr>hmem := m\<rparr>) h2 0 1 0"
    and "bytes_in_use g \<le> bytes_in_use g + n"
  shows "acct g h2 1 1 (bytes_in_use g + n)"
  using assms by (simp add: acct_def max.assoc max_absorb2)

lemma realloc_move:
  assumes "heap_live h L" and "L x = Some p" and "length p < unat (heap_align n)"
    and "arena h = arena g" and "bytes_in_use h = bytes_in_use g" and "acct g h 0 0 (bytes_in_use g)"
  shows "realloc_result g L x p n
     (do { (fresh, hp) \<leftarrow> owheap_alloc (Ref h) n;
           if fresh = 0 then Some (0, hp)
           else (case hp of NULL \<Rightarrow> None
                 | Ref h' \<Rightarrow> do { h2 \<leftarrow> heap_copy h' fresh (addr (arena h) x) (length p);
                                 (_, hp) \<leftarrow> owheap_free (Ref h2) (addr (arena h) x); Some (fresh, hp) }) })"
    (is "realloc_result g L x p n ?r")
proof (cases "owheap_alloc (Ref h) n = Some (0, Ref h)")
  case True
  then show ?thesis using assms(1,4,6) by (simp add: realloc_result_def)
next
  case False
  then obtain y q h1 where a: "owheap_alloc (Ref h) n = Some (addr (arena h) y, Ref h1)" "addr (arena h) y \<noteq> 0" "arena h1 = arena h"
    "L y = None" "unat n \<le> length q" "unat (heap_align n) \<le> length q" "heap_live h1 (L(y \<mapsto> q))"
    "unat (bytes_in_use h1) = unat (bytes_in_use h) + length q"
    using owheap_alloc_live [OF assms(1), of n] by blast
  have ne: "x \<noteq> y" using assms(2) a(4) by auto
  have lx: "(L(y \<mapsto> q)) x = Some p" "(L(y \<mapsto> q)) y = Some q" using ne assms(2) by simp_all
  have le: "length p \<le> length q" using assms(3) a(6) by simp
  note c = heap_copy_live [OF a(7) lx ne le]
  let ?h2 = "h1\<lparr>hmem := patch (hmem h1) y p\<rparr>" and ?q = "p @ drop (length p) q"
  have "(L(y \<mapsto> q, y \<mapsto> ?q)) x = Some p" using ne assms(2) by simp
  then obtain h3 where f: "owheap_free (Ref ?h2) (addr (arena ?h2) x) = Some (True, Ref h3)" "arena h3 = arena ?h2"
    "heap_live h3 ((L(y \<mapsto> q, y \<mapsto> ?q))(x := None))" by (rule owheap_free_live [OF c(2)])
  have r: "?r = Some (addr (arena h) y, Ref h3)" using a(1-3) c(1) f(1) by simp
  have "(L(y \<mapsto> q, y \<mapsto> ?q))(x := None) = (L(x := None))(y \<mapsto> ?q)" using ne by auto
  moreover have "unat n \<le> length ?q" using a(5) le by simp
  moreover have "take (min (unat n) (length p)) ?q = take (min (unat n) (length p)) p" by simp
  moreover have "acct g h3 1 1 (bytes_in_use g + of_nat (length q))"
  proof -
    have "unat (bytes_in_use h1) < 2 ^ 64" using unsigned_less [of "bytes_in_use h1", where ?'a = nat] by simp
    then have u: "unat (bytes_in_use g + of_nat (length q)) = unat (bytes_in_use g) + length q"
      using a(8) assms(5) by (simp add: unat_word_ariths unat_of_nat)
    then have "bytes_in_use h1 = bytes_in_use g + of_nat (length q)" using a(8) assms(5) by (simp add: word_unat_eq_iff)
    moreover have "bytes_in_use g \<le> bytes_in_use g + of_nat (length q)" using u by (simp add: word_le_nat_alt)
    ultimately show ?thesis
      using alloc_acct [OF a(1)] a(2) free_acct [OF f(1)] by (intro acct_move [OF assms(6), of h1]) simp_all
  qed
  moreover have "length ?q = length q" using le by simp
  ultimately show ?thesis unfolding realloc_result_def r using a(2-4) f(2,3) ne assms(4)
    by (intro disjI2 exI [of _ y] exI [of _ ?q] exI [of _ h3]) simp
qed

lemma account_restore:
  assumes "n < 2 ^ 32" and "n \<le> unat (bytes_in_use h)"
  shows "bytes_in_use (heap_account_grow (heap_account_shrink h (of_nat n)) (of_nat n)) = bytes_in_use h"
proof -
  note sk = account_shrink [OF assms]
  have "unat (bytes_in_use (heap_account_grow (heap_account_shrink h (of_nat n)) (of_nat n))) = unat (bytes_in_use h)"
    using account_grow(1) [OF assms(1), of "heap_account_shrink h (of_nat n)"] sk(1) assms(2)
      unsigned_less [of "bytes_in_use h", where ?'a = nat] by simp
  then show ?thesis by (simp only: word_unat_eq_iff)
qed

lemma owheap_realloc_live:
  assumes "heap_live h L" and "L x = Some p" and "n \<noteq> 0"
  shows "realloc_result h L x p n (owheap_realloc (Ref h) (addr (arena h) x) n)"
proof -
  obtain bs where bs: "heap_inv h bs" "L = live 0 bs" using assms(1) by (auto simp: heap_live_def)
  then obtain pre post where b: "bs = pre @ (False, p) # post" "x = 0 + span pre + 32" using live_split assms(2) by metis
  have inv: "heap_inv h (pre @ (False, p) # post)" using bs(1) b(1) by simp
  note g = live_guards [OF inv]
  note sk = account_shrink [OF g(8) g(9)]
  let ?a = "addr (arena h) (span pre)" and ?k = "unat (heap_align n)" and ?h1 = "heap_account_shrink h (of_nat (length p))"
  have ini: "initialized h" using inv by (simp add: heap_inv_def)
  have x: "addr (arena h) x = addr (arena h) (span pre + 32)" using b(2) by simp
  have up: "unat (of_nat (length p) :: u32) = length p" using g(8) by (rule unat_of_nat_u32)
  show ?thesis
  proof (cases "heap_align n = 0")
    case True
    then have "owheap_realloc (Ref h) (addr (arena h) x) n = Some (0, Ref h)"
      using ini assms(3) g(1-6) unfolding x by (simp add: owheap_realloc_def Let_def)
    then show ?thesis using assms(1) by (simp add: realloc_result_def)
  next
    case al: False
    have k8: "8 dvd ?k" "8 \<le> ?k" "unat n \<le> ?k"
      using heap_align_props [OF al] al dvd_imp_le [of 8 ?k] by simp_all
    show ?thesis
    proof (cases "?k \<le> length p")
      case True
      then have le: "heap_align n \<le> of_nat (length p)" using up by (simp add: word_le_nat_alt)
      obtain q ex where s: "\<And>f. split_blk ?k (f, p) = (f, q) # ex" "list_all fst ex" "?k \<le> length q"
        "32 + length q + span ex = 32 + length p" "take ?k q = take ?k p"
        "list_all (\<lambda>b. 8 \<le> length (snd b)) ((False, q) # ex)" "\<And>off. 8 dvd off \<Longrightarrow> 8 dvd ?k \<Longrightarrow> aligned off ((False, q) # ex)"
        by (rule split_blk_cases [OF True k8(2)]) blast
      have sh: "heap_shape ?h1 (pre @ (False, p) # post)" using heap_inv_shape [OF inv] by (simp add: heap_shape_def sk)
      let ?h2 = "put_blocks ?h1 (pre @ (False, q) # ex @ post)"
      have split: "heap_split ?h1 ?a (heap_align n) = Some ?h2" using heap_split_blocks [OF sh True] s(1) by (simp add: sk)
      have "heap_shape ?h2 (pre @ (False, q) # ex @ post)" using s(4) by (intro heap_shape_put [OF sh]) simp
      then have sz: "get_size ?h2 ?a = Some (of_nat (length q))" using heap_get(1) by (fastforce simp: sk)
      let ?h' = "heap_account_grow ?h2 (of_nat (length q))"
      have run: "owheap_realloc (Ref h) (addr (arena h) x) n = Some (addr (arena h) x, Ref ?h')"
        using ini assms(3) g(1-7) al le split sz unfolding x by (simp add: owheap_realloc_def Let_def)
      have res: "heap_inv ?h' (pre @ (False, q) # ex @ post)" "arena ?h' = arena h"
        "live 0 (pre @ (False, q) # ex @ post) = (live 0 (pre @ (False, p) # [] @ post))(span pre + 32 \<mapsto> q)"
        using inv by (intro heap_inv_resize [of h pre p "[]" post ex q]; use inv s(2,4,6) s(7) [OF _ k8(1)] in \<open>simp add: heap_inv_def\<close>)+
      have "heap_live ?h' (L(x \<mapsto> q))" unfolding heap_live_def bs(2) b using res(1,3) by auto
      moreover have "acct h ?h' 0 0 (bytes_in_use ?h')"
        using acct_grow [of ?h2 ?h1] books_split [OF split] acct_shrink by blast
      ultimately show ?thesis using g(1) res(2) k8(3) s(3) by (intro realloc_inplace [OF run _ _ _ _ s(5)]) (auto simp: x)
    next
      case False
      then have lt: "length p < ?k" by simp
      then have nle: "\<not> heap_align n \<le> of_nat (length p)" "(of_nat (length p) :: u32) < heap_align n"
        using up by (simp_all add: word_le_nat_alt word_less_nat_alt)
      let ?h0 = "heap_account_grow ?h1 (of_nat (length p))"
      have run: "owheap_realloc (Ref h) (addr (arena h) x) n =
          do { gr \<leftarrow> grow_in_place ?h1 ?a (of_nat (length p)) (heap_align n);
               case gr of Some h' \<Rightarrow> Some (addr (arena h) x, Ref h')
               | None \<Rightarrow>
                  do { (fresh, hp) \<leftarrow> owheap_alloc (Ref ?h0) n;
                       if fresh = 0 then Some (0, hp)
                       else (case hp of NULL \<Rightarrow> None
                             | Ref h' \<Rightarrow> do { h2 \<leftarrow> heap_copy h' fresh (addr (arena h) x) (length p);
                                             (_, hp) \<leftarrow> owheap_free (Ref h2) (addr (arena h) x); Some (fresh, hp) }) } }"
        unfolding x by (simp only: owheap_realloc_def ptr.case ini g simp_thms if_False if_True assms(3) bind.bind_lunit Let_def
            zero_and_eq al nle up split: if_split)
      have h0: "arena ?h0 = arena h" "heap_live ?h0 L" "bytes_in_use ?h0 = bytes_in_use h" "acct h ?h0 0 0 (bytes_in_use h)"
      proof -
        show "arena ?h0 = arena h" by (simp add: account_grow sk heap_account_grow_def Let_def)
        have "heap_inv ?h0 bs"
          using bs(1) account_restore [OF g(8,9)] by (auto simp: heap_inv_def heap_shape_def heap_account_grow_def Let_def sk)
        then show "heap_live ?h0 L" using bs(2) by (auto simp: heap_live_def)
        show b: "bytes_in_use ?h0 = bytes_in_use h" by (rule account_restore [OF g(8,9)])
        show "acct h ?h0 0 0 (bytes_in_use h)" using acct_grow [OF refl, of ?h1 "of_nat (length p)"] unfolding acct_shrink b .
      qed
      from grow_in_place_blocks [OF inv lt k8(1) refl] show ?thesis
      proof
        assume none: "grow_in_place ?h1 ?a (of_nat (length p)) (heap_align n) = Some None"
        show ?thesis
          unfolding run none bind.bind_lunit option.case
          by (rule realloc_move [OF h0(2) assms(2) lt h0(1,3,4), unfolded h0(1)])
      next
        assume "\<exists>h' q. grow_in_place ?h1 ?a (of_nat (length p)) (heap_align n) = Some (Some h') \<and> arena h' = arena h \<and>
          heap_live h' ((live 0 (pre @ (False, p) # post))(span pre + 32 \<mapsto> q)) \<and> ?k \<le> length q \<and> take (length p) q = p"
        then obtain h' q where gr: "grow_in_place ?h1 ?a (of_nat (length p)) (heap_align n) = Some (Some h')" "arena h' = arena h"
          "heap_live h' (L(x \<mapsto> q))" "?k \<le> length q" "take (length p) q = take (length p) p"
          unfolding bs(2) b by auto
        have "owheap_realloc (Ref h) (addr (arena h) x) n = Some (addr (arena h) x, Ref h')" unfolding run gr(1) by simp
        then show ?thesis using g(1) gr(2-4) k8(3) grow_acct [OF gr(1)]
          by (intro realloc_inplace [OF _ _ _ _ _ gr(5)]) (auto simp: x acct_shrink)
      qed
    qed
  qed
qed

section \<open>Initialisation\<close>

lemma align_up:
  assumes "unat base + n < 2 ^ 64" and "((base + 7) AND NOT 7) - base < of_nat n" and "n < 2 ^ 64"
  shows "unat ((base + 7) AND NOT 7) = unat base + unat (((base + 7) AND NOT 7) - base)" and "8 dvd unat ((base + 7) AND NOT 7 :: u64)"
proof -
  let ?a = "((base + 7) AND NOT 7)"
  show "8 dvd unat ?a" unfolding unat_and_not_7 by simp
  have un: "unat (of_nat n :: u64) = n" using assms(3) by (simp add: unat_of_nat)
  have "base \<le> ?a"
  proof (rule ccontr)
    assume "\<not> base \<le> ?a"
    then have lt: "unat ?a < unat base" by (simp add: word_le_nat_alt)
    have wrap: "2 ^ 64 \<le> unat base + 7"
    proof (rule ccontr)
      assume "\<not> 2 ^ 64 \<le> unat base + 7"
      then have "unat (base + 7) = unat base + 7" by (simp add: unat_word_ariths)
      moreover have "unat base \<le> (unat base + 7) div 8 * 8" by presburger
      ultimately show False using lt unat_and_not_7 [of "base + 7"] by simp
    qed
    have "unat (base + 7) = unat base + 7 - 2 ^ 64"
      using wrap unsigned_less [of base, where ?'a = nat] by (simp add: unat_word_ariths mod_if)
    then have "unat ?a = 0" unfolding unat_and_not_7 using unsigned_less [of base, where ?'a = nat] by simp
    then have zero: "(?a - base) + base = 0" by (simp add: unat_eq_0)
    have "unat ((?a - base) + base) = unat (?a - base) + unat base"
      using assms(1,2) un by (subst unat_word_ariths) (simp add: word_less_nat_alt)
    then show False using lt unfolding zero by simp
  qed
  then show "unat ?a = unat base + unat (?a - base)" by (simp add: unat_sub_le word_le_nat_alt)
qed

lemma owheap_init_live:
  assumes "owheap_init (Ref h0) (Ref (base, bytes)) (of_nat (length bytes)) = Some (True, hp)"
    and "base \<noteq> 0" and "unat base + length bytes < 2 ^ 64"
  obtains h where "hp = Ref h" and "heap_live h Map.empty" and "bytes_in_use h = 0"
    and "unat base \<le> unat (arena h)" and "unat (arena h) + unat (arena_size h) = unat base + length bytes"
proof -
  define al where "al = (base + 7) AND NOT 7"
  define usable where "usable = of_nat (length bytes) - (al - base)"
  have ulen: "unat (of_nat (length bytes) :: u64) = length bytes" using assms(3) by (simp add: unat_of_nat)
  have g: "\<not> of_nat (length bytes) \<le> al - base" "\<not> usable \<le> 40" "\<not> usable > 0xFFFFFFFF"
    using assms(1) by (auto simp: owheap_init_def Let_def al_def usable_def split: if_splits)
  have a: "unat al = unat base + unat (al - base)" "8 dvd unat al"
    using align_up [of base "length bytes"] assms(3) g(1) by (simp_all add: al_def)
  have us: "unat usable = length bytes - unat (al - base)" unfolding usable_def using g(1) ulen by (subst unat_sub_le) simp_all
  let ?m = "drop (unat (al - base)) bytes"
  have lm: "length ?m = unat usable" "40 < length ?m" "length ?m < 2 ^ 32"
    using us g(2,3) by (simp_all add: word_less_nat_alt word_le_nat_alt)
  define p where "p = drop 32 ?m"
  obtain xs xf xm xr xn xv where X: "take 32 ?m = hdr xs xf xm xr xn xv"
    by (rule hdr_surj [of "take 32 ?m"]) (use lm(2) in simp_all)
  have m: "?m = hdr xs xf xm xr xn xv @ p" unfolding X [symmetric] p_def by (rule append_take_drop_id [symmetric])
  define h1 where "h1 = h0\<lparr>arena := al, arena_size := ucast usable, alloc_count := 0, free_count := 0,
      bytes_in_use := 0, peak_bytes := 0\<rparr>"
  define H where "H x = h1\<lparr>hmem := [] @ x @ p\<rparr>" for x
  have s: "slot al al H" unfolding H_def [abs_def] by (rule slotI) (simp_all add: h1_def)
  have sz: "ucast usable - 32 = (of_nat (length p) :: u32)"
  proof -
    have u: "unat (ucast usable :: u32) = length ?m" using lm by (subst unat_ucast_down) simp_all
    have le: "(32 :: u32) \<le> ucast usable" using u lm(2) by (simp add: word_le_nat_alt)
    have "unat (ucast usable - 32 :: u32) = length p" using unat_sub_le [OF le] u by (simp add: p_def)
    moreover have "unat (of_nat (length p) :: u32) = length p" using lm(3) by (intro unat_of_nat_u32) (simp add: p_def)
    ultimately show ?thesis by (simp only: word_unat_eq_iff)
  qed
  have sub: "(of_nat (length bytes) - (al - base)) = usable" by (simp add: usable_def)
  have h0: "h0\<lparr>arena := al, arena_size := ucast usable, alloc_count := 0, free_count := 0,
      bytes_in_use := 0, peak_bytes := 0, hmem := ?m\<rparr> = H (hdr xs xf xm xr xn xv)"
    unfolding H_def h1_def m by simp
  let ?h = "(H (hdr (of_nat (length p)) 1 OWHEAP_MAGIC 0 0 0))\<lparr>head := al, initialized := True\<rparr>"
  have "owheap_init (Ref h0) (Ref (base, bytes)) (of_nat (length bytes)) = Some (True, Ref ?h)"
    unfolding owheap_init_def ptr.case prod.case Let_def al_def [symmetric] sub h0
    using g by (simp add: sz slot_set [OF s])
  then have hp: "hp = Ref ?h" using assms(1) by simp
  have asz: "unat (ucast usable :: u32) = length ?m" using lm by (subst unat_ucast_down) simp_all
  have lp: "span [(True, p)] = length ?m" using lm(2) by (simp add: p_def)
  have "arena_ok al (span [(True, p)])"
    unfolding lp arena_ok_def
  proof (intro conjI)
    show "al \<noteq> 0" using a(1) assms(2) by (metis add_is_0 unat_0 unat_eq_0)
    show "unat al + length ?m < 2 ^ 64" using a(1) us lm(1,2) assms(3) by simp
  qed (use a(2) lm(3) in simp_all)
  then have "heap_inv ?h [(True, p)]"
    using lm(2) asz lp by (simp add: heap_inv_def heap_shape_def H_def h1_def blk_hdr_def p_def)
  then have "heap_live ?h Map.empty" by (force simp: heap_live_def)
  moreover have "unat (arena ?h) + unat (arena_size ?h) = unat base + length bytes"
    using a(1) asz us lm(1,2) by (simp add: H_def h1_def)
  ultimately show ?thesis using that [OF hp] a(1) by (simp add: H_def h1_def)
qed

section \<open>Clients\<close>

text \<open>
  A client keeps a list of the blocks it holds, each with the bytes it expects to find there: as
  many as it asked for. It allocates, frees, resizes, and writes into its blocks; indices that
  name no block are ignored. After an allocation the client takes over whatever the block
  contains. A refusal to free a held block ends the run.
\<close>

datatype heap_op = HAlloc u64 | HFree nat | HRealloc nat u64 | HWrite nat nat u8

type_synonym held = "(u64 \<times> u8 list) list"

definition heap_peek :: "owheap_t \<Rightarrow> u64 \<Rightarrow> nat \<Rightarrow> u8 list comp" where
  "heap_peek h p n =
     (let off = unat (p - arena h) in if off + n \<le> length (hmem h) then Some (take n (drop off (hmem h))) else None)"

definition drop_at :: "nat \<Rightarrow> 'a list \<Rightarrow> 'a list" where
  "drop_at i xs = take i xs @ drop (Suc i) xs"

definition heap_do :: "heap_op \<Rightarrow> owheap_t \<times> held \<Rightarrow> (owheap_t \<times> held) comp" where
  "heap_do a hc = (case hc of (h, cs) \<Rightarrow>
     (case a of
        HAlloc n \<Rightarrow>
          do { (r, hp) \<leftarrow> owheap_alloc (Ref h) n;
               case hp of NULL \<Rightarrow> None
               | Ref h' \<Rightarrow> if r = 0 then Some (h', cs) else do { b \<leftarrow> heap_peek h' r (unat n); Some (h', cs @ [(r, b)]) } }
      | HFree i \<Rightarrow>
          if i < length cs then
            do { (ok, hp) \<leftarrow> owheap_free (Ref h) (fst (cs ! i));
                 case hp of NULL \<Rightarrow> None | Ref h' \<Rightarrow> if ok then Some (h', drop_at i cs) else None }
          else Some (h, cs)
      | HRealloc i n \<Rightarrow>
          if i < length cs \<and> n \<noteq> 0 then
            do { (r, hp) \<leftarrow> owheap_realloc (Ref h) (fst (cs ! i)) n;
                 case hp of NULL \<Rightarrow> None
                 | Ref h' \<Rightarrow>
                    if r = 0 then Some (h', cs)
                    else do { b \<leftarrow> heap_peek h' r (unat n);
                              let k = min (unat n) (length (snd (cs ! i)));
                              Some (h', cs[i := (r, take k (snd (cs ! i)) @ drop k b)]) } }
          else Some (h, cs)
      | HWrite i k v \<Rightarrow>
          if i < length cs \<and> k < length (snd (cs ! i)) then
            do { m \<leftarrow> c_wr (hmem h) (unat (fst (cs ! i) - arena h) + k) v;
                 Some (h\<lparr>hmem := m\<rparr>, cs[i := (fst (cs ! i), (snd (cs ! i))[k := v])]) }
          else Some (h, cs)))"

fun heap_run :: "heap_op list \<Rightarrow> owheap_t \<times> held \<Rightarrow> (owheap_t \<times> held) comp" where
  "heap_run [] hc = Some hc"
| "heap_run (a # as) hc = do { hc' \<leftarrow> heap_do a hc; heap_run as hc' }"

text \<open>The blocks held by the client are the live blocks, and begin with the bytes it expects.\<close>

definition holds :: "owheap_t \<Rightarrow> (nat \<rightharpoonup> u8 list) \<Rightarrow> nat \<Rightarrow> u64 \<times> u8 list \<Rightarrow> bool" where
  "holds h L x c \<longleftrightarrow> fst c = addr (arena h) x \<and>
     (\<exists>p. L x = Some p \<and> length (snd c) \<le> length p \<and> take (length (snd c)) p = snd c)"

definition client_inv :: "owheap_t \<Rightarrow> held \<Rightarrow> bool" where
  "client_inv h cs \<longleftrightarrow> (\<exists>L xs. heap_live h L \<and> distinct xs \<and> set xs = dom L \<and> list_all2 (holds h L) xs cs)"

lemma heap_live_small:
  assumes "heap_live h L" and "L x = Some p"
  shows "unat (addr (arena h) x - arena h) = x"
proof -
  obtain bs where "heap_inv h bs" using assms(1) by (auto simp: heap_live_def)
  then have "length (hmem h) < 2 ^ 64" by (auto simp: heap_inv_def heap_shape_def arena_ok_def)
  then show ?thesis using heap_live_read(2) [OF assms] by (intro unat_addr) simp
qed

lemma heap_peek_live:
  assumes "heap_live h L" and "L x = Some p" and "n \<le> length p"
  shows "heap_peek h (addr (arena h) x) n = Some (take n p)"
proof -
  note r = heap_live_read [OF assms(1,2)]
  have "take n (take (length p) (drop x (hmem h))) = take n p" using r(1) by simp
  then show ?thesis using r(2) assms(3) heap_live_small [OF assms(1,2)] by (simp add: heap_peek_def min_def)
qed

lemma holds_cong: "holds h L x c \<Longrightarrow> arena h' = arena h \<Longrightarrow> L' x = L x \<Longrightarrow> holds h' L' x c"
  by (simp add: holds_def)

lemma distinct_drop_at:
  assumes "distinct xs" and "i < length xs"
  shows "distinct (drop_at i xs)" and "set (drop_at i xs) = set xs - {xs ! i}"
proof -
  have "xs = take i xs @ xs ! i # drop (Suc i) xs" using assms(2) by (rule id_take_nth_drop)
  then have d: "distinct (take i xs @ xs ! i # drop (Suc i) xs)" "set xs = set (take i xs) \<union> insert (xs ! i) (set (drop (Suc i) xs))"
    using assms(1) by (metis, metis set_append list.simps(15))
  then show "distinct (drop_at i xs)" "set (drop_at i xs) = set xs - {xs ! i}" by (auto simp: drop_at_def)
qed

lemma list_all2_mono_set:
  "list_all2 P xs ys \<Longrightarrow> (\<And>x y. x \<in> set xs \<Longrightarrow> P x y \<Longrightarrow> Q x y) \<Longrightarrow> list_all2 Q xs ys"
  by (auto simp: list_all2_conv_all_nth)

lemma list_all2_drop_at: "list_all2 P xs ys \<Longrightarrow> list_all2 P (drop_at i xs) (drop_at i ys)"
  unfolding drop_at_def by (intro list_all2_appendI list_all2_takeI list_all2_dropI)

lemma used_live: "finite (dom (live off bs)) \<and> used bs = (\<Sum>x \<in> dom (live off bs). length (the (live off bs x)))"
proof (induction bs arbitrary: off)
  case (Cons b bs)
  let ?M = "live (off + blk_len b) bs"
  have ih: "finite (dom ?M)" "used bs = (\<Sum>x \<in> dom ?M. length (the (?M x)))" using Cons.IH by blast+
  have new: "off + 32 \<notin> dom ?M" using live_bounds [of "off + blk_len b" bs "off + 32"] by (auto simp: blk_len_def)
  have "(\<Sum>x \<in> dom ?M. length (the ((?M(off + 32 \<mapsto> snd b)) x))) = (\<Sum>x \<in> dom ?M. length (the (?M x)))"
    using new by (intro sum.cong) auto
  then have "finite (dom (?M(off + 32 \<mapsto> snd b))) \<and> length (snd b) + used bs =
      (\<Sum>x \<in> dom (?M(off + 32 \<mapsto> snd b)). length (the ((?M(off + 32 \<mapsto> snd b)) x)))"
    using ih new by (simp add: dom_fun_upd del: fun_upd_apply) simp
  then show ?case using ih by (cases "fst b") (simp_all del: fun_upd_apply)
qed simp

text \<open>
  The books seen from the client. A block holds as many bytes as its header says. A step of the client
  takes as many blocks from the heap as it holds more than before, and returns as many as it holds
  less; a reallocation that moves a block takes one and returns one, and holds both for a moment.
\<close>

definition block_bytes :: "owheap_t \<Rightarrow> u64 \<Rightarrow> nat" where
  "block_bytes h p = (case get_size h (heap_header p) of Some s \<Rightarrow> unat s | None \<Rightarrow> 0)"

definition held_bytes :: "owheap_t \<Rightarrow> held \<Rightarrow> nat" where
  "held_bytes h cs = sum_list (map (\<lambda>c. block_bytes h (fst c)) cs)"

definition op_moves :: "heap_op \<Rightarrow> held \<Rightarrow> held \<Rightarrow> bool" where
  "op_moves a cs cs' = (case a of HRealloc i _ \<Rightarrow> i < length cs \<and> fst (cs' ! i) \<noteq> fst (cs ! i) | _ \<Rightarrow> False)"

definition op_allocs :: "heap_op \<Rightarrow> held \<Rightarrow> held \<Rightarrow> nat" where
  "op_allocs a cs cs' = (length cs' - length cs) + (if op_moves a cs cs' then 1 else 0)"

definition op_frees :: "heap_op \<Rightarrow> held \<Rightarrow> held \<Rightarrow> nat" where
  "op_frees a cs cs' = (length cs - length cs') + (if op_moves a cs cs' then 1 else 0)"

definition op_bytes :: "heap_op \<Rightarrow> owheap_t \<times> held \<Rightarrow> owheap_t \<times> held \<Rightarrow> nat" where
  "op_bytes a hc hc' =
     (case a of
        HRealloc i _ \<Rightarrow>
          if op_moves a (snd hc) (snd hc') then held_bytes (fst hc) (snd hc) + block_bytes (fst hc') (fst (snd hc' ! i))
          else held_bytes (fst hc') (snd hc')
      | _ \<Rightarrow> held_bytes (fst hc') (snd hc'))"

definition op_acct :: "heap_op \<Rightarrow> owheap_t \<times> held \<Rightarrow> owheap_t \<times> held \<Rightarrow> bool" where
  "op_acct a hc hc' \<longleftrightarrow> (bytes_in_use (fst hc) \<le> peak_bytes (fst hc) \<longrightarrow>
     acct (fst hc) (fst hc') (of_nat (op_allocs a (snd hc) (snd hc'))) (of_nat (op_frees a (snd hc) (snd hc'))) (of_nat (op_bytes a hc hc')) \<and>
     op_bytes a hc hc' < 2 ^ 64 \<and> held_bytes (fst hc') (snd hc') \<le> op_bytes a hc hc')"

lemma live_block_bytes:
  assumes "heap_live h L" and "L x = Some p"
  shows "block_bytes h (addr (arena h) x) = length p" and "length p < 2 ^ 32" and "unat (bytes_in_use h) < 2 ^ 32"
proof -
  obtain bs where bs: "heap_inv h bs" "L = live 0 bs" using assms(1) by (auto simp: heap_live_def)
  then obtain pre post where b: "bs = pre @ (False, p) # post" "x = 0 + span pre + 32" using live_split assms(2) by metis
  note g = live_guards [OF bs(1) [unfolded b(1)]]
  show "length p < 2 ^ 32" by (rule g(8))
  then show "block_bytes h (addr (arena h) x) = length p" using b(2) g(4,7) by (simp add: block_bytes_def unat_of_nat_u32)
  have "unat (arena_size h) < 2 ^ LENGTH(32)" by (rule unsigned_less)
  then show "unat (bytes_in_use h) < 2 ^ 32" using bs(1) used_le [of bs] by (simp add: heap_inv_def)
qed

lemma client_bytes:
  assumes "client_inv h cs"
  shows "held_bytes h cs = unat (bytes_in_use h)"
proof -
  obtain L xs where c: "heap_live h L" "distinct xs" "set xs = dom L" "list_all2 (holds h L) xs cs"
    using assms by (auto simp: client_inv_def)
  obtain bs where bs: "heap_inv h bs" "L = live 0 bs" using c(1) by (auto simp: heap_live_def)
  have "held_bytes h cs = sum_list (map (\<lambda>x. length (the (L x))) xs)"
    using c(4) unfolding held_bytes_def
    by (induction rule: list_all2_induct) (auto simp: holds_def live_block_bytes(1) [OF c(1)])
  also have "\<dots> = (\<Sum>x \<in> set xs. length (the (L x)))" using c(2) by (simp add: sum_list_distinct_conv_sum_set)
  also have "\<dots> = used bs" using used_live [of 0 bs] bs(2) c(3) by simp
  finally show ?thesis using bs(1) by (simp add: heap_inv_def)
qed

lemma op_acctI:
  assumes "client_inv h' cs'" and "\<not> op_moves a cs cs'"
    and "acct h h' (of_nat (length cs' - length cs)) (of_nat (length cs - length cs')) (bytes_in_use h') \<or> peak_bytes h' = peak_bytes h \<and>
      bytes_in_use h' \<le> bytes_in_use h \<and> arena_size h' = arena_size h \<and> alloc_count h' = alloc_count h + of_nat (length cs' - length cs) \<and>
      free_count h' = free_count h + of_nat (length cs - length cs')"
  shows "op_acct a (h, cs) (h', cs')"
proof -
  have b: "op_bytes a (h, cs) (h', cs') = unat (bytes_in_use h')"
    using assms(2) client_bytes [OF assms(1)] by (cases a) (simp_all add: op_bytes_def)
  have "acct h h' (of_nat (length cs' - length cs)) (of_nat (length cs - length cs')) (bytes_in_use h')"
    if "bytes_in_use h \<le> peak_bytes h"
  proof -
    have "max (peak_bytes h) (bytes_in_use h') = peak_bytes h" if "bytes_in_use h' \<le> bytes_in_use h"
      using order_trans [OF that \<open>bytes_in_use h \<le> peak_bytes h\<close>] by (simp add: max_absorb1)
    then show ?thesis using assms(3) by (auto simp: acct_def)
  qed
  then show ?thesis
    using assms(2) unsigned_less [of "bytes_in_use h'", where ?'a = nat] client_bytes [OF assms(1)] by (auto simp: op_acct_def op_allocs_def op_frees_def b)
qed

lemma op_acct_idle: "client_inv h cs \<Longrightarrow> op_acct a (h, cs) (h, cs)"
  by (rule op_acctI) (auto simp: op_moves_def split: heap_op.splits)

lemma heap_live_bytes: "heap_live h L \<Longrightarrow> unat (bytes_in_use h) = (\<Sum>x \<in> dom L. length (the (L x)))"
  using used_live [of 0] by (auto simp: heap_live_def heap_inv_def)

lemma op_acct_moved:
  assumes "client_inv h cs" and "i < length cs" and "op_moves (HRealloc i n) cs (cs[i := (addr (arena h) y, b)])"
    and "heap_live h L" and "L x = Some p" and "heap_live h' ((L(x := None))(y \<mapsto> q))" and "arena h' = arena h"
    and "acct h h' 1 1 (bytes_in_use h + of_nat (length q))" and "client_inv h' (cs[i := (addr (arena h) y, b)])"
  shows "op_acct (HRealloc i n) (h, cs) (h', cs[i := (addr (arena h) y, b)])"
proof -
  have q: "block_bytes h' (addr (arena h) y) = length q" "length q < 2 ^ 32"
    using live_block_bytes [OF assms(6), of y q] assms(7) by simp_all
  have "unat (bytes_in_use h) < 2 ^ 32" by (rule live_block_bytes(3) [OF assms(4,5)])
  moreover have "op_bytes (HRealloc i n) (h, cs) (h', cs[i := (addr (arena h) y, b)]) = unat (bytes_in_use h) + length q"
    using assms(2,3) q(1) client_bytes [OF assms(1)] by (simp add: op_bytes_def)
  moreover have "unat (bytes_in_use h') \<le> unat (bytes_in_use h) + length q"
  proof -
    let ?L = "(L(x := None))(y \<mapsto> q)" and ?len = "\<lambda>M. \<lambda>z. length (the ((M :: nat \<rightharpoonup> u8 list) z))"
    have fin: "finite (dom L)" using assms(4) used_live by (auto simp: heap_live_def)
    have "sum (?len ?L) (dom ?L) = length q + sum (?len ?L) (dom L - {x} - {y})"
      using fin by (simp add: dom_fun_upd insert_absorb sum.insert_remove del: fun_upd_apply) simp
    also have "sum (?len ?L) (dom L - {x} - {y}) = sum (?len L) (dom L - {x} - {y})" by (rule sum.cong) auto
    also have "sum (?len L) (dom L - {x} - {y}) \<le> sum (?len L) (dom L)" using fin by (intro sum_mono2) auto
    finally show ?thesis unfolding heap_live_bytes [OF assms(4)] heap_live_bytes [OF assms(6)] by (simp only: add.commute)
  qed
  ultimately show ?thesis
    using assms(3,8) q(2) client_bytes [OF assms(9)] by (simp add: op_acct_def op_allocs_def op_frees_def)
qed

lemma client_alloc:
  assumes "client_inv h cs"
  shows "\<exists>h' cs'. heap_do (HAlloc n) (h, cs) = Some (h', cs') \<and> client_inv h' cs' \<and> op_acct (HAlloc n) (h, cs) (h', cs')"
proof -
  obtain L xs where c: "heap_live h L" "distinct xs" "set xs = dom L" "list_all2 (holds h L) xs cs"
    using assms by (auto simp: client_inv_def)
  show ?thesis
  proof (cases "owheap_alloc (Ref h) n = Some (0, Ref h)")
    case True
    then show ?thesis using assms op_acct_idle by (simp add: heap_do_def)
  next
    case False
    then obtain x q h' where a: "owheap_alloc (Ref h) n = Some (addr (arena h) x, Ref h')" "addr (arena h) x \<noteq> 0" "arena h' = arena h"
      "L x = None" "unat n \<le> length q" "heap_live h' (L(x \<mapsto> q))" using owheap_alloc_live [OF c(1), of n] by blast
    have pk: "heap_peek h' (addr (arena h) x) (unat n) = Some (take (unat n) q)"
      using heap_peek_live [OF a(6), of x q "unat n"] a(3,5) by simp
    have run: "heap_do (HAlloc n) (h, cs) = Some (h', cs @ [(addr (arena h) x, take (unat n) q)])"
      using a(1,2) pk by (simp add: heap_do_def)
    have new: "x \<notin> set xs" using c(3) a(4) by auto
    have "list_all2 (holds h' (L(x \<mapsto> q))) xs cs"
      using c(4) by (rule list_all2_mono_set) (use new a(3) in \<open>auto intro: holds_cong\<close>)
    then have "list_all2 (holds h' (L(x \<mapsto> q))) (xs @ [x]) (cs @ [(addr (arena h) x, take (unat n) q)])"
      using a(3,5) by (intro list_all2_appendI) (simp_all add: holds_def min_def)
    moreover have "distinct (xs @ [x])" "set (xs @ [x]) = dom (L(x \<mapsto> q))" using c(2,3) new by auto
    ultimately have inv: "client_inv h' (cs @ [(addr (arena h) x, take (unat n) q)])" using a(6) unfolding client_inv_def by blast
    moreover have "op_acct (HAlloc n) (h, cs) (h', cs @ [(addr (arena h) x, take (unat n) q)])"
      using alloc_acct [OF a(1)] a(2) by (intro op_acctI [OF inv]) (auto simp: op_moves_def)
    ultimately show ?thesis using run by blast
  qed
qed

lemma client_free:
  assumes "client_inv h cs"
  shows "\<exists>h' cs'. heap_do (HFree i) (h, cs) = Some (h', cs') \<and> client_inv h' cs' \<and> op_acct (HFree i) (h, cs) (h', cs')"
proof (cases "i < length cs")
  case True
  obtain L xs where c: "heap_live h L" "distinct xs" "set xs = dom L" "list_all2 (holds h L) xs cs"
    using assms by (auto simp: client_inv_def)
  have l: "length xs = length cs" using c(4) by (rule list_all2_lengthD)
  have "holds h L (xs ! i) (cs ! i)" using c(4) True l by (simp add: list_all2_conv_all_nth)
  then obtain p where p: "fst (cs ! i) = addr (arena h) (xs ! i)" "L (xs ! i) = Some p" by (auto simp: holds_def)
  obtain h' where f: "owheap_free (Ref h) (addr (arena h) (xs ! i)) = Some (True, Ref h')" "arena h' = arena h"
    "heap_live h' (L(xs ! i := None))" "unat (bytes_in_use h') = unat (bytes_in_use h) - length p"
    by (rule owheap_free_live [OF c(1) p(2)])
  have run: "heap_do (HFree i) (h, cs) = Some (h', drop_at i cs)" using True f(1) p(1) by (simp add: heap_do_def)
  note d = distinct_drop_at [OF c(2), of i, unfolded l, OF True]
  have "list_all2 (holds h' (L(xs ! i := None))) (drop_at i xs) (drop_at i cs)"
    using list_all2_drop_at [OF c(4), of i] by (rule list_all2_mono_set) (use d(2) f(2) in \<open>auto intro: holds_cong\<close>)
  moreover have "set (drop_at i xs) = dom (L(xs ! i := None))" using d(2) c(3) by auto
  ultimately have inv: "client_inv h' (drop_at i cs)" using f(3) d(1) unfolding client_inv_def by blast
  moreover have "op_acct (HFree i) (h, cs) (h', drop_at i cs)"
    using free_acct [OF f(1)] f(4) True
    by (intro op_acctI [OF inv]) (simp_all add: op_moves_def acct_def word_le_nat_alt drop_at_def max_absorb1)
  ultimately show ?thesis using run by blast
qed (use assms op_acct_idle in \<open>simp add: heap_do_def\<close>)

text \<open>Replacing the \<open>i\<close>-th block of the client.\<close>

lemma client_replace:
  assumes "distinct xs" and "set xs = dom L" and "list_all2 (holds h L) xs cs" and "i < length xs" and "arena h' = arena h"
    and "y = xs ! i \<or> L y = None" and "heap_live h' ((L(xs ! i := None))(y \<mapsto> q))"
    and "length b \<le> length q" and "take (length b) q = b"
  shows "client_inv h' (cs[i := (addr (arena h) y, b)])"
proof -
  let ?L = "(L(xs ! i := None))(y \<mapsto> q)"
  have l: "length xs = length cs" using assms(3) by (rule list_all2_lengthD)
  have ne: "xs ! j \<noteq> xs ! i \<and> xs ! j \<noteq> y" if "j < length xs" "j \<noteq> i" for j
  proof -
    have "xs ! j \<noteq> xs ! i" using that assms(1,4) by (simp add: nth_eq_iff_index_eq)
    moreover have "xs ! j \<in> dom L" using that(1) assms(2) nth_mem by blast
    ultimately show ?thesis using assms(6) by auto
  qed
  have "list_all2 (holds h' ?L) (xs[i := y]) (cs[i := (addr (arena h) y, b)])"
    unfolding list_all2_conv_all_nth
  proof (intro conjI allI impI)
    fix j assume "j < length (xs[i := y])"
    then have j: "j < length xs" "j < length cs" using l by simp_all
    show "holds h' ?L (xs[i := y] ! j) (cs[i := (addr (arena h) y, b)] ! j)"
    proof (cases "j = i")
      case True
      then show ?thesis using assms(4,5,8,9) l by (simp add: holds_def)
    next
      case False
      have "holds h L (xs ! j) (cs ! j)" using assms(3) j by (simp add: list_all2_conv_all_nth)
      then show ?thesis using False ne [OF j(1) False] assms(5) by (auto intro: holds_cong)
    qed
  qed (simp add: l)
  moreover have "distinct (xs[i := y])"
    unfolding distinct_conv_nth using ne assms(1,4) by (auto simp: nth_list_update nth_eq_iff_index_eq)
  moreover have "set (xs[i := y]) = dom ?L"
  proof -
    have "set (xs[i := y]) = insert y (set xs - {xs ! i})"
      using set_update_distinct [OF assms(1,4)] by simp
    then show ?thesis using assms(2) by auto
  qed
  ultimately show ?thesis using assms(7) unfolding client_inv_def by blast
qed

lemma client_held:
  assumes "client_inv h cs" and "i < length cs"
  obtains L xs p where "heap_live h L" and "distinct xs" and "set xs = dom L" and "list_all2 (holds h L) xs cs" and "i < length xs"
    and "fst (cs ! i) = addr (arena h) (xs ! i)" and "L (xs ! i) = Some p" and "length (snd (cs ! i)) \<le> length p"
    and "take (length (snd (cs ! i))) p = snd (cs ! i)"
proof -
  obtain L xs where c: "heap_live h L" "distinct xs" "set xs = dom L" "list_all2 (holds h L) xs cs"
    using assms(1) by (auto simp: client_inv_def)
  have l: "length xs = length cs" using c(4) by (rule list_all2_lengthD)
  then have "holds h L (xs ! i) (cs ! i)" using c(4) assms(2) by (simp add: list_all2_conv_all_nth)
  then show ?thesis using that [OF c] assms(2) l by (auto simp: holds_def)
qed

lemma client_realloc:
  assumes "client_inv h cs"
  shows "\<exists>h' cs'. heap_do (HRealloc i n) (h, cs) = Some (h', cs') \<and> client_inv h' cs' \<and> op_acct (HRealloc i n) (h, cs) (h', cs')"
proof (cases "i < length cs \<and> n \<noteq> 0")
  case True
  then obtain L xs p where c: "heap_live h L" "distinct xs" "set xs = dom L" "list_all2 (holds h L) xs cs" "i < length xs"
    "fst (cs ! i) = addr (arena h) (xs ! i)" "L (xs ! i) = Some p" "length (snd (cs ! i)) \<le> length p"
    "take (length (snd (cs ! i))) p = snd (cs ! i)" using client_held [OF assms] by metis
  let ?x = "xs ! i" and ?old = "snd (cs ! i)"
  let ?r = "owheap_realloc (Ref h) (addr (arena h) ?x) n"
  have "realloc_result h L ?x p n ?r" using owheap_realloc_live [OF c(1,7)] True by simp
  then consider (null) h' where "?r = Some (0, Ref h')" "arena h' = arena h" "heap_live h' L" "h' = h \<or> acct h h' 0 0 (bytes_in_use h)"
    | (moved) y q h' where "?r = Some (addr (arena h) y, Ref h')" "addr (arena h) y \<noteq> 0" "arena h' = arena h" "y = ?x \<or> L y = None"
        "unat n \<le> length q" "take (min (unat n) (length p)) q = take (min (unat n) (length p)) p"
        "heap_live h' ((L(?x := None))(y \<mapsto> q))"
        "if y = ?x then acct h h' 0 0 (bytes_in_use h') else acct h h' 1 1 (bytes_in_use h + of_nat (length q))"
    unfolding realloc_result_def by blast
  then show ?thesis
  proof cases
    case null
    have "list_all2 (holds h' L) xs cs" using c(4) by (rule list_all2_mono_set) (use null(2) in \<open>auto intro: holds_cong\<close>)
    then have inv: "client_inv h' cs" using null(3) c(2,3) unfolding client_inv_def by blast
    have "bytes_in_use h' = bytes_in_use h" using heap_live_bytes [OF null(3)] heap_live_bytes [OF c(1)] by (simp add: word_unat_eq_iff)
    then have "op_acct (HRealloc i n) (h, cs) (h', cs)"
      using null(4) by (intro op_acctI [OF inv]) (auto simp: op_moves_def)
    then show ?thesis using True null(1) c(6) inv by (simp add: heap_do_def)
  next
    case moved
    let ?k = "min (unat n) (length ?old)"
    have pk: "heap_peek h' (addr (arena h) y) (unat n) = Some (take (unat n) q)"
      using heap_peek_live [OF moved(7), of y q "unat n"] moved(3,5) by simp
    have "take ?k ?old = take ?k q"
    proof -
      have "take ?k (take (min (unat n) (length p)) q) = take ?k (take (min (unat n) (length p)) p)" using moved(6) by simp
      then have "take ?k q = take ?k p" using c(8) by (simp add: min_def split: if_splits)
      moreover have "take ?k ?old = take ?k p" using arg_cong [OF c(9), of "take ?k"] by simp
      ultimately show ?thesis by simp
    qed
    moreover have "take ?k q @ drop ?k (take (unat n) q) = take (unat n) q"
      using append_take_drop_id [of ?k "take (unat n) q"] by (simp add: min_def split: if_splits)
    ultimately have b: "take ?k ?old @ drop ?k (take (unat n) q) = take (unat n) q" by simp
    have run: "heap_do (HRealloc i n) (h, cs) = Some (h', cs[i := (addr (arena h) y, take (unat n) q)])"
      using True moved(1,2) pk c(6) b by (simp add: heap_do_def Let_def)
    have inv: "client_inv h' (cs[i := (addr (arena h) y, take (unat n) q)])"
      using moved(5) by (intro client_replace [OF c(2,3,4,5) moved(3,4,7)]) simp_all
    have "op_acct (HRealloc i n) (h, cs) (h', cs[i := (addr (arena h) y, take (unat n) q)])"
    proof (cases "y = ?x")
      case y: True
      then show ?thesis using True moved(8) c(6) by (intro op_acctI [OF inv]) (simp_all add: op_moves_def)
    next
      case y: False
      have "addr (arena h) y \<noteq> addr (arena h) ?x"
        using heap_live_small [OF moved(7), of y q] heap_live_small [OF c(1,7)] moved(3) y by auto
      then have "op_moves (HRealloc i n) cs (cs[i := (addr (arena h) y, take (unat n) q)])" using True c(6) by (simp add: op_moves_def)
      then show ?thesis using op_acct_moved [OF assms _ _ c(1,7) moved(7) moved(3) _ inv] True y moved(8) by simp
    qed
    then show ?thesis using run inv by blast
  qed
qed (use assms op_acct_idle in \<open>auto simp: heap_do_def\<close>)

lemma client_write:
  assumes "client_inv h cs"
  shows "\<exists>h' cs'. heap_do (HWrite i k v) (h, cs) = Some (h', cs') \<and> client_inv h' cs' \<and> op_acct (HWrite i k v) (h, cs) (h', cs')"
proof (cases "i < length cs \<and> k < length (snd (cs ! i))")
  case True
  then obtain L xs p where c: "heap_live h L" "distinct xs" "set xs = dom L" "list_all2 (holds h L) xs cs" "i < length xs"
    "fst (cs ! i) = addr (arena h) (xs ! i)" "L (xs ! i) = Some p" "length (snd (cs ! i)) \<le> length p"
    "take (length (snd (cs ! i))) p = snd (cs ! i)" using client_held [OF assms] by metis
  let ?x = "xs ! i" and ?b = "snd (cs ! i)"
  have k: "k + length [v] \<le> length p" using True c(8) by simp
  note r = heap_live_read(2) [OF c(1,7)]
  have patch: "patch zs j [v] = zs[j := v]" if "j < length zs" for zs :: "u8 list" and j
    using that by (simp add: patch_Cons)
  have "c_wr (hmem h) (?x + k) v = Some (patch (hmem h) (?x + k) [v])" using r k patch [of "?x + k" "hmem h"] by simp
  then have run: "heap_do (HWrite i k v) (h, cs) = Some (h\<lparr>hmem := patch (hmem h) (?x + k) [v]\<rparr>, cs[i := (addr (arena h) ?x, ?b[k := v])])"
    using True c(6) heap_live_small [OF c(1,7)] by (simp add: heap_do_def)
  have "L(?x \<mapsto> patch p k [v]) = (L(?x := None))(?x \<mapsto> p[k := v])" using k patch [of k p] by simp
  then have live: "heap_live (h\<lparr>hmem := patch (hmem h) (?x + k) [v]\<rparr>) ((L(?x := None))(?x \<mapsto> p[k := v]))"
    using heap_live_write [OF c(1,7) k] by simp
  have "take (length ?b) (p[k := v]) = ?b[k := v]" using c(9) by (simp add: take_update_swap)
  then have "client_inv (h\<lparr>hmem := patch (hmem h) (?x + k) [v]\<rparr>) (cs[i := (addr (arena h) ?x, ?b[k := v])])"
    using c(8) by (intro client_replace [OF c(2-5) _ _ live]) simp_all
  moreover from this have "op_acct (HWrite i k v) (h, cs) (h\<lparr>hmem := patch (hmem h) (?x + k) [v]\<rparr>, cs[i := (addr (arena h) ?x, ?b[k := v])])"
    by (rule op_acctI) (simp_all add: op_moves_def)
  ultimately show ?thesis using run by blast
qed (use assms op_acct_idle in \<open>auto simp: heap_do_def\<close>)

lemma heap_do_ok:
  assumes "client_inv h cs"
  obtains h' cs' where "heap_do a (h, cs) = Some (h', cs')" and "client_inv h' cs'" and "op_acct a (h, cs) (h', cs')"
  using client_alloc [OF assms] client_free [OF assms] client_realloc [OF assms] client_write [OF assms]
  by (cases a) blast+

lemma heap_run_ok: "client_inv h cs \<Longrightarrow> \<exists>h' cs'. heap_run as (h, cs) = Some (h', cs') \<and> client_inv h' cs'"
proof (induction as arbitrary: h cs)
  case (Cons a as)
  obtain h1 cs1 where "heap_do a (h, cs) = Some (h1, cs1)" "client_inv h1 cs1" by (rule heap_do_ok [OF Cons.prems, of a])
  then show ?case using Cons.IH by simp
qed simp

text \<open>What a run has done so far: allocations, frees, and the bytes held at the fullest moment.\<close>

fun heap_history :: "heap_op list \<Rightarrow> owheap_t \<times> held \<Rightarrow> nat \<times> nat \<times> nat" where
  "heap_history [] hc = (0, 0, held_bytes (fst hc) (snd hc))"
| "heap_history (a # as) hc =
     (case heap_do a hc of None \<Rightarrow> (0, 0, 0)
      | Some hc' \<Rightarrow>
          (case heap_history as hc' of
             (al, fr, pk) \<Rightarrow>
               (op_allocs a (snd hc) (snd hc') + al, op_frees a (snd hc) (snd hc') + fr,
                max (held_bytes (fst hc) (snd hc)) (max (op_bytes a hc hc') pk))))"

lemma heap_run_acct:
  "client_inv h cs \<Longrightarrow> bytes_in_use h \<le> peak_bytes h \<Longrightarrow> heap_run as (h, cs) = Some (h', cs') \<Longrightarrow> heap_history as (h, cs) = (al, fr, pk) \<Longrightarrow>
     arena_size h' = arena_size h \<and> alloc_count h' = alloc_count h + of_nat al \<and> free_count h' = free_count h + of_nat fr \<and>
     unat (peak_bytes h') = max (unat (peak_bytes h)) pk"
proof (induction as arbitrary: h cs al fr pk)
  case Nil
  then show ?case using client_bytes [OF Nil.prems(1)] by (simp add: word_le_nat_alt)
next
  case (Cons a as)
  obtain h1 cs1 where s: "heap_do a (h, cs) = Some (h1, cs1)" "client_inv h1 cs1" "op_acct a (h, cs) (h1, cs1)"
    by (rule heap_do_ok [OF Cons.prems(1), of a])
  obtain al1 fr1 pk1 where hist: "heap_history as (h1, cs1) = (al1, fr1, pk1)" by (cases "heap_history as (h1, cs1)") auto
  let ?b = "op_bytes a (h, cs) (h1, cs1)"
  have acc: "acct h h1 (of_nat (op_allocs a cs cs1)) (of_nat (op_frees a cs cs1)) (of_nat ?b)" "?b < 2 ^ 64" "held_bytes h1 cs1 \<le> ?b"
    using s(3) Cons.prems(2) by (simp_all add: op_acct_def)
  have pk1: "unat (peak_bytes h1) = max (unat (peak_bytes h)) ?b"
    using acc by (simp add: acct_def max_def word_le_nat_alt unat_of_nat)
  then have "bytes_in_use h1 \<le> peak_bytes h1" using acc(3) client_bytes [OF s(2)] by (simp add: word_le_nat_alt)
  from Cons.IH [OF s(2) this _ hist] Cons.prems(3) s(1)
  have "arena_size h' = arena_size h1 \<and> alloc_count h' = alloc_count h1 + of_nat al1 \<and> free_count h' = free_count h1 + of_nat fr1 \<and>
     unat (peak_bytes h') = max (unat (peak_bytes h1)) pk1" by simp
  moreover have "al = op_allocs a cs cs1 + al1" "fr = op_frees a cs cs1 + fr1" "pk = max (held_bytes h cs) (max ?b pk1)"
    using Cons.prems(4) s(1) hist by simp_all
  moreover have "held_bytes h cs \<le> unat (peak_bytes h)" using client_bytes [OF Cons.prems(1)] Cons.prems(2) by (simp add: word_le_nat_alt)
  ultimately show ?case using acc(1) pk1 by (simp add: acct_def)
qed

lemma card_live: "length bs = card (dom (live off bs)) + count_if fst bs"
proof (induction bs arbitrary: off)
  case (Cons b bs)
  let ?M = "live (off + blk_len b) bs"
  have "off + 32 \<notin> dom ?M" using live_bounds [of "off + blk_len b" bs "off + 32"] by (auto simp: blk_len_def)
  then have "card (dom (?M(off + 32 \<mapsto> snd b))) = Suc (card (dom ?M))" using used_live [of "off + blk_len b" bs] by simp
  then show ?case using Cons.IH [of "off + blk_len b"] by (cases "fst b") (simp_all add: count_if_def del: fun_upd_apply)
qed (simp add: count_if_def)

lemma length_le_span: "length bs \<le> span bs"
  by (induction bs) (auto simp: blk_len_def)

definition client_ok :: "owheap_t \<Rightarrow> held \<Rightarrow> bool" where
  "client_ok h cs \<longleftrightarrow>
     (\<forall>i < length cs. unat (arena h) \<le> unat (fst (cs ! i)) \<and>
        unat (fst (cs ! i)) + length (snd (cs ! i)) \<le> unat (arena h) + unat (arena_size h) \<and>
        8 dvd unat (fst (cs ! i)) \<and> heap_peek h (fst (cs ! i)) (length (snd (cs ! i))) = Some (snd (cs ! i))) \<and>
     (\<forall>i < length cs. \<forall>j < length cs. i \<noteq> j \<longrightarrow>
        unat (fst (cs ! i)) + length (snd (cs ! i)) \<le> unat (fst (cs ! j)) \<or>
        unat (fst (cs ! j)) + length (snd (cs ! j)) \<le> unat (fst (cs ! i))) \<and>
     sum_list (map (\<lambda>c. length (snd c)) cs) \<le> unat (bytes_in_use h) \<and> (cs = [] \<longrightarrow> bytes_in_use h = 0)"

lemma client_inv_ok:
  assumes "client_inv h cs"
  shows "client_ok h cs"
proof -
  obtain L xs where c: "heap_live h L" "distinct xs" "set xs = dom L" "list_all2 (holds h L) xs cs"
    using assms by (auto simp: client_inv_def)
  obtain bs where bs: "heap_inv h bs" "L = live 0 bs" using c(1) by (auto simp: heap_live_def)
  have ok: "arena_ok (arena h) (span bs)" and asz: "unat (arena_size h) = span bs" and al: "aligned 0 bs"
    and bytes: "unat (bytes_in_use h) = used bs" using bs(1) heap_inv_arena [OF bs(1)] by (simp_all add: heap_inv_def)
  have l: "length xs = length cs" using c(4) by (rule list_all2_lengthD)
  have held: "fst (cs ! i) = addr (arena h) (xs ! i)" "\<exists>p. L (xs ! i) = Some p \<and> length (snd (cs ! i)) \<le> length p \<and> take (length (snd (cs ! i))) p = snd (cs ! i)"
    if "i < length cs" for i using c(4) that l by (auto simp: list_all2_conv_all_nth holds_def)
  have at: "unat (fst (cs ! i)) = unat (arena h) + xs ! i" if "i < length cs" for i
    using held [OF that] live_bounds [of 0 bs "xs ! i"] bs(2) unat_addr_abs [OF ok, of "xs ! i"] by force
  have 1: "unat (arena h) \<le> unat (fst (cs ! i)) \<and>
      unat (fst (cs ! i)) + length (snd (cs ! i)) \<le> unat (arena h) + unat (arena_size h) \<and>
      8 dvd unat (fst (cs ! i)) \<and> heap_peek h (fst (cs ! i)) (length (snd (cs ! i))) = Some (snd (cs ! i))" if i: "i < length cs" for i
  proof -
    obtain p where p: "L (xs ! i) = Some p" "length (snd (cs ! i)) \<le> length p" "take (length (snd (cs ! i))) p = snd (cs ! i)"
      using held(2) [OF i] by blast
    have "8 dvd xs ! i" using live_aligned [OF al] p(1) bs(2) by blast
    moreover have "8 dvd unat (arena h)" using ok by (simp add: arena_ok_def)
    moreover have "xs ! i + length p \<le> span bs" using live_bounds [of 0 bs "xs ! i" p] p(1) bs(2) by simp
    moreover have "heap_peek h (fst (cs ! i)) (length (snd (cs ! i))) = Some (snd (cs ! i))"
      using heap_peek_live [OF c(1) p(1,2)] held(1) [OF i] p(3) by simp
    ultimately show ?thesis using at [OF i] asz p(2) by (simp add: dvd_add)
  qed
  have 2: "unat (fst (cs ! i)) + length (snd (cs ! i)) \<le> unat (fst (cs ! j)) \<or>
      unat (fst (cs ! j)) + length (snd (cs ! j)) \<le> unat (fst (cs ! i))" if ij: "i < length cs" "j < length cs" "i \<noteq> j" for i j
  proof -
    obtain p q where p: "live 0 bs (xs ! i) = Some p" "length (snd (cs ! i)) \<le> length p"
      and q: "live 0 bs (xs ! j) = Some q" "length (snd (cs ! j)) \<le> length q" using held(2) [OF ij(1)] held(2) [OF ij(2)] bs(2) by blast
    have "xs ! i \<noteq> xs ! j" using ij c(2) l by (simp add: nth_eq_iff_index_eq)
    then show ?thesis using live_disjoint [OF p(1) q(1)] p(2) q(2) at [OF ij(1)] at [OF ij(2)] by auto
  qed
  have "used bs = (\<Sum>x \<in> set xs. length (the (L x)))" using used_live [of 0 bs] bs(2) c(3) by simp
  then have u: "used bs = sum_list (map (\<lambda>x. length (the (L x))) xs)" using c(2) by (simp add: sum_list_distinct_conv_sum_set)
  have "sum_list (map (\<lambda>c. length (snd c)) cs) \<le> sum_list (map (\<lambda>x. length (the (L x))) xs)"
    using c(4) by (induction rule: list_all2_induct) (auto simp: holds_def)
  then have 3: "sum_list (map (\<lambda>c. length (snd c)) cs) \<le> unat (bytes_in_use h)" using u bytes by simp
  have "bytes_in_use h = 0" if "cs = []" using that l u bytes by (simp add: unat_eq_0)
  then show ?thesis using 1 2 3 unfolding client_ok_def by blast
qed

section \<open>Properties\<close>

text \<open>C5: After a successful \<open>owheap_init\<close>, whatever sequence of allocations, frees, reallocations and writes into
  its own blocks a client performs, no call accesses memory outside the arena, follows a wrong pointer or
  fails to return, and no free of a held block is refused. At every moment the blocks the client holds lie in
  the arena, are aligned to eight bytes and do not overlap; each has the bytes the client last wrote to it,
  whatever happened to the other blocks since, and a reallocation keeps them up to the smaller of the two
  sizes. The count of bytes in use covers the blocks held, and is zero when none is held.
\<close>

theorem owheap_client_safe:
  assumes "owheap_init (Ref h0) (Ref (base, bytes)) (of_nat (length bytes)) = Some (True, hp)"
    and "base \<noteq> 0" and "unat base + length bytes < 2 ^ 64"
  shows "\<exists>h h' cs. hp = Ref h \<and> heap_run ops (h, []) = Some (h', cs) \<and> client_ok h' cs"
proof -
  obtain h where h: "hp = Ref h" "heap_live h Map.empty" by (rule owheap_init_live [OF assms])
  have "client_inv h []" using h(2) unfolding client_inv_def by (intro exI [of _ Map.empty] exI [of _ "[]"]) simp
  then obtain h' cs where "heap_run ops (h, []) = Some (h', cs)" "client_inv h' cs" using heap_run_ok by blast
  then show ?thesis using h(1) client_inv_ok by blast
qed

definition sample_heap :: owheap_t where
  "sample_heap = \<lparr>arena = 0, arena_size = 0, head = 0, alloc_count = 0, free_count = 0, bytes_in_use = 0, peak_bytes = 0,
     initialized = False, hmem = []\<rparr>"

lemma sample_heap_init:
  "\<exists>hp. owheap_init (Ref sample_heap) (Ref (4097, replicate 239 0)) 239 = Some (True, hp)"
proof -
  have "(\<lambda>(ok, _). ok) (the (owheap_init (Ref sample_heap) (Ref (4097, replicate 239 0)) 239)) \<and>
      owheap_init (Ref sample_heap) (Ref (4097, replicate 239 0)) 239 \<noteq> None" by code_simp
  then show ?thesis by auto
qed

theorem owheap_client_safe_witness:
  "\<exists>h h' cs. owheap_init (Ref sample_heap) (Ref (4097, replicate 239 0)) 239 = Some (True, Ref h) \<and>
     heap_run [HAlloc 96, HWrite 0 5 7, HAlloc 8, HRealloc 0 104, HRealloc 0 40, HFree 1] (h, []) = Some (h', cs) \<and> client_ok h' cs"
proof -
  obtain hp where i: "owheap_init (Ref sample_heap) (Ref (4097, replicate 239 0)) 239 = Some (True, hp)"
    using sample_heap_init by blast
  have "owheap_init (Ref sample_heap) (Ref (4097, replicate 239 0)) (of_nat (length (replicate 239 (0 :: u8)))) = Some (True, hp)"
    using i by simp
  from owheap_client_safe [OF this, of "[HAlloc 96, HWrite 0 5 7, HAlloc 8, HRealloc 0 104, HRealloc 0 40, HFree 1]"]
  show ?thesis using i by auto
qed

lemma heap_client_stats:
  assumes "client_inv h cs"
  shows "\<exists>bs. heap_shape h bs \<and> span bs = unat (arena_size h) \<and> length bs = length cs + count_if fst bs \<and> length bs < 2 ^ 32 \<and>
     owheap_stats (Ref h) (Ref st0) =
       Some (True, Ref \<lparr>st_arena_size = ucast (arena_size h), st_bytes_in_use = bytes_in_use h, st_peak_bytes = peak_bytes h,
         st_alloc_count = alloc_count h, st_free_count = free_count h, st_block_count = of_nat (length bs),
         st_free_block_count = of_nat (count_if fst bs)\<rparr>)"
proof -
  obtain L xs where c: "heap_live h L" "distinct xs" "set xs = dom L" "list_all2 (holds h L) xs cs"
    using assms by (auto simp: client_inv_def)
  obtain bs where bs: "heap_inv h bs" "L = live 0 bs" using c(1) by (auto simp: heap_live_def)
  have sh: "heap_shape h ([] @ bs)" and ne: "bs \<noteq> []" "head h = addr (arena h) 0" "initialized h"
    and asz: "unat (arena_size h) = span bs" using bs(1) by (auto simp: heap_inv_def)
  have "length cs = card (set xs)" using c(2,4) by (simp add: distinct_card list_all2_lengthD)
  then have held: "length bs = length cs + count_if fst bs" using card_live [of bs 0] bs(2) c(3) by simp
  have "unat (arena_size h) < 2 ^ LENGTH(32)" by (rule unsigned_less)
  then have "length bs < 2 ^ 32" using length_le_span [of bs] asz by simp
  moreover have "stats_loop h (head h) (0, 0) = Some (of_nat (length bs), of_nat (count_if fst bs))"
    using stats_loop_blocks [OF sh, of "(0, 0)"] ne by simp
  ultimately show ?thesis using ne(3) held sh asz by (intro exI [of _ bs]) (simp add: owheap_stats_def del: of_nat_add)
qed

lemma owheap_init_books:
  assumes "owheap_init (Ref h0) (Ref (base, bytes)) n = Some (True, Ref h)"
  shows "arena h = (base + 7) AND NOT 7 \<and> alloc_count h = 0 \<and> free_count h = 0 \<and> peak_bytes h = 0"
  using assms by (auto simp: owheap_init_def Let_def books_def split: bind_splits if_splits dest!: books_set)

text \<open>C35: In every heap that a client can reach from \<open>owheap_init\<close> the walk of \<open>owheap_stats\<close> over the
  chain of blocks ends, whatever the client wrote into its blocks, and every figure it reports is exact. The
  arena size is what the caller's memory has behind the first aligned address. The block counts are the number
  of blocks of the chain and the number of those that are free, the others being the ones the client holds.
  The bytes in use are the sum of the sizes of the blocks the client holds. The allocations and frees are the
  blocks the client got and gave back since \<open>owheap_init\<close>, modulo \<open>2 ^ 64\<close>, a reallocation that moves its
  block counting as one of each, and the peak is the largest number of bytes it held at any moment of the run,
  the moment of such a move with both blocks included.
\<close>

theorem owheap_stats_counts:
  assumes "owheap_init (Ref h0) (Ref (base, bytes)) (of_nat (length bytes)) = Some (True, Ref h)"
    and "base \<noteq> 0" and "unat base + length bytes < 2 ^ 64"
    and "heap_run ops (h, []) = Some (h', cs)" and "heap_history ops (h, []) = (allocs, frees, peak)"
  shows "\<exists>st bs. owheap_stats (Ref h') (Ref st0) = Some (True, Ref st) \<and>
     unat (st_arena_size st) = length bytes - unat (((base + 7) AND NOT 7) - base) \<and>
     heap_shape h' bs \<and> unat (st_block_count st) = length bs \<and> unat (st_free_block_count st) = count_if fst bs \<and>
     length bs = length cs + count_if fst bs \<and> unat (st_bytes_in_use st) = held_bytes h' cs \<and>
     st_alloc_count st = of_nat allocs \<and> st_free_count st = of_nat frees \<and> unat (st_peak_bytes st) = peak"
proof -
  have l: "heap_live h Map.empty" "bytes_in_use h = 0" "unat base \<le> unat (arena h)"
    "unat (arena h) + unat (arena_size h) = unat base + length bytes" using owheap_init_live [OF assms(1-3)] by blast+
  note i = owheap_init_books [OF assms(1)]
  have inv0: "client_inv h []" using l(1) unfolding client_inv_def by (intro exI [of _ Map.empty] exI [of _ "[]"]) simp
  then have inv: "client_inv h' cs" using heap_run_ok [of h "[]" ops] assms(4) by auto
  note acc = heap_run_acct [OF inv0 _ assms(4,5)]
  obtain bs where bs: "heap_shape h' bs" "length bs = length cs + count_if fst bs" "length bs < 2 ^ 32"
    "owheap_stats (Ref h') (Ref st0) =
       Some (True, Ref \<lparr>st_arena_size = ucast (arena_size h'), st_bytes_in_use = bytes_in_use h', st_peak_bytes = peak_bytes h',
         st_alloc_count = alloc_count h', st_free_count = free_count h', st_block_count = of_nat (length bs),
         st_free_block_count = of_nat (count_if fst bs)\<rparr>)" using heap_client_stats [OF inv] by blast
  have "unat (arena h - base) = unat (arena h) - unat base" using l(3) by (intro unat_sub_le) (simp add: word_le_nat_alt)
  then have "unat (arena_size h) = length bytes - unat (((base + 7) AND NOT 7) - base)" using l(3,4) i by simp
  moreover have "unat (ucast (arena_size h) :: u64) = unat (arena_size h)" by (rule unat_ucast_up) simp
  moreover have "unat (of_nat (length bs) :: u32) = length bs" "unat (of_nat (count_if fst bs) :: u32) = count_if fst bs"
    using bs(2,3) by (simp_all only: unat_of_nat_u32)
  ultimately show ?thesis
    using acc i l(2) client_bytes [OF inv] bs by (intro exI [of _ "\<lparr>st_arena_size = ucast (arena_size h'), st_bytes_in_use = bytes_in_use h',
      st_peak_bytes = peak_bytes h', st_alloc_count = alloc_count h', st_free_count = free_count h', st_block_count = of_nat (length bs),
      st_free_block_count = of_nat (count_if fst bs)\<rparr>"] exI [of _ bs]) (simp del: of_nat_add)
qed

definition sample_run :: "(owheap_t \<times> owheap_t \<times> held) comp" where
  "sample_run =
     do { (ok, hp) \<leftarrow> owheap_init (Ref sample_heap) (Ref (4097, replicate 239 0)) 239;
          case hp of NULL \<Rightarrow> None
          | Ref h \<Rightarrow> if ok then do { (h', cs) \<leftarrow> heap_run [HAlloc 96, HRealloc 0 40, HFree 0] (h, []); Some (h, h', cs) }
                    else None }"

lemma sample_run_ends:
  "case sample_run of None \<Rightarrow> False
   | Some (h, h', cs) \<Rightarrow> cs = [] \<and> bytes_in_use h' = 0 \<and>
       map_option fst (owheap_alloc (Ref h) 200) = Some 4136 \<and> owheap_alloc (Ref h') 104 = Some (0, Ref h')"
  by code_simp

lemma sample_run_E:
  assumes "sample_run = Some (h, h', cs)"
  shows "owheap_init (Ref sample_heap) (Ref (4097, replicate 239 0)) 239 = Some (True, Ref h)"
    and "heap_run [HAlloc 96, HRealloc 0 40, HFree 0] (h, []) = Some (h', cs)"
  using assms by (auto simp: sample_run_def split: bind_splits ptr.splits if_splits)

text \<open>An allocation, one behind it, and a reallocation that moves the first.\<close>

definition moving_ops :: "heap_op list" where
  "moving_ops = [HAlloc 8, HAlloc 8, HRealloc 0 16]"

definition moving_run :: "(owheap_t \<times> owheap_t \<times> held) comp" where
  "moving_run =
     do { (ok, hp) \<leftarrow> owheap_init (Ref sample_heap) (Ref (4097, replicate 135 0)) 135;
          case hp of NULL \<Rightarrow> None
          | Ref h \<Rightarrow> if ok then do { (h', cs) \<leftarrow> heap_run moving_ops (h, []); Some (h, h', cs) } else None }"

lemma moving_run_ends:
  "case moving_run of None \<Rightarrow> False
   | Some (h, h', cs) \<Rightarrow> length cs = 2 \<and> held_bytes h' cs = 24 \<and> heap_history moving_ops (h, []) = (3, 1, 32)"
  by code_simp

theorem owheap_stats_counts_witness:
  "\<exists>h' cs st bs. map_option snd moving_run = Some (h', cs) \<and> length cs = 2 \<and>
     owheap_stats (Ref h') (Ref \<lparr>st_arena_size = 0, st_bytes_in_use = 0, st_peak_bytes = 0, st_alloc_count = 0,
        st_free_count = 0, st_block_count = 0, st_free_block_count = 0\<rparr>) = Some (True, Ref st) \<and>
     unat (st_arena_size st) = 128 \<and> heap_shape h' bs \<and> unat (st_block_count st) = length bs \<and>
     unat (st_free_block_count st) = count_if fst bs \<and> length bs = 2 + count_if fst bs \<and>
     unat (st_bytes_in_use st) = 24 \<and> st_alloc_count st = 3 \<and> st_free_count st = 1 \<and> unat (st_peak_bytes st) = 32"
proof -
  obtain h h' cs where r: "moving_run = Some (h, h', cs)" using moving_run_ends by (auto split: option.splits)
  then have i: "owheap_init (Ref sample_heap) (Ref (4097, replicate 135 0)) (of_nat (length (replicate 135 (0 :: u8)))) = Some (True, Ref h)"
    and run: "heap_run moving_ops (h, []) = Some (h', cs)"
    by (auto simp: moving_run_def split: bind_splits ptr.splits if_splits)
  have f: "length cs = 2" "held_bytes h' cs = 24" "heap_history moving_ops (h, []) = (3, 1, 32)" using moving_run_ends by (simp_all add: r)
  have skip: "unat (((4097 + 7) AND NOT 7) - 4097 :: u64) = 7" by code_simp
  obtain st bs where "owheap_stats (Ref h') (Ref \<lparr>st_arena_size = 0, st_bytes_in_use = 0, st_peak_bytes = 0, st_alloc_count = 0,
        st_free_count = 0, st_block_count = 0, st_free_block_count = 0\<rparr>) = Some (True, Ref st)"
     "unat (st_arena_size st) = 128" "heap_shape h' bs" "unat (st_block_count st) = length bs"
     "unat (st_free_block_count st) = count_if fst bs" "length bs = 2 + count_if fst bs"
     "unat (st_bytes_in_use st) = 24" "st_alloc_count st = 3" "st_free_count st = 1" "unat (st_peak_bytes st) = 32"
    using owheap_stats_counts [OF i _ _ run f(3), unfolded skip f(1,2),
      of "\<lparr>st_arena_size = 0, st_bytes_in_use = 0, st_peak_bytes = 0, st_alloc_count = 0,
        st_free_count = 0, st_block_count = 0, st_free_block_count = 0\<rparr>"] by auto
  then show ?thesis unfolding r using f(1) by auto
qed

text \<open>Free neighbours are not always merged, although \<open>owheap64.h\<close> promises immediate coalescing: a shrinking
  \<open>owheap_realloc\<close> splits off a free block next to one that is free already, and the later free of the
  shrunk block merges with only one of the two. From a fresh heap that can serve 200 bytes, three calls
  lead to one in which nothing is in use and 104 bytes can not be allocated any more.
\<close>

theorem owheap_realloc_fragments:
  "\<exists>h h'. owheap_init (Ref sample_heap) (Ref (4097, replicate 239 0)) 239 = Some (True, Ref h) \<and>
     map_option fst (owheap_alloc (Ref h) 200) = Some 4136 \<and>
     heap_run [HAlloc 96, HRealloc 0 40, HFree 0] (h, []) = Some (h', []) \<and>
     bytes_in_use h' = 0 \<and> owheap_alloc (Ref h') 104 = Some (0, Ref h')"
proof -
  obtain h h' where r: "sample_run = Some (h, h', [])" using sample_run_ends by (auto split: option.splits)
  have "bytes_in_use h' = 0 \<and> map_option fst (owheap_alloc (Ref h) 200) = Some 4136 \<and> owheap_alloc (Ref h') 104 = Some (0, Ref h')"
    using sample_run_ends by (simp add: r)
  then show ?thesis using sample_run_E [OF r] by blast
qed

end
