(* ===== verification/Bitmap.thy ===== *)
theory Bitmap
  imports Prelude
begin

text \<open>
  The bitmap allocator \<open>src/DLL/owbitmap64/owbitmap64.c\<close>: bits in an array of 64-bit
  words provided by the caller, a word-at-a-time search for the first clear bit with a tail mask
  for the last word, and a counter of the set bits. The abstract allocator is a finite set of
  indices; every sequence of allocations, releases and tests answers as that set does, and an
  allocation returns the least index that is not in it.
\<close>

unbundle bit_operations_syntax

section \<open>Model\<close>

record owbitmap_t =
  words :: "u64 list"
  word_count :: u32
  bit_count :: u32
  used :: u32
  initialized :: bool

definition bmp_mask :: "u32 \<Rightarrow> u64" where
  "bmp_mask b = push_bit (unat (b AND (64 - 1))) 1"

text \<open>\<open>ws\<close> is the caller's array; the initialisation loop writes its first words.\<close>

definition owbmp_init :: "owbitmap_t ptr \<Rightarrow> u64 list ptr \<Rightarrow> u32 \<Rightarrow> (bool \<times> owbitmap_t ptr) comp" where
  "owbmp_init bm ws n =
     (case (bm, ws) of
        (Ref b, Ref w) \<Rightarrow>
          if n = 0 then Some (False, bm)
          else if n > 0xFFFFFFFF - (64 - 1) then Some (False, bm)
          else let wc = (n + (64 - 1)) div 64 in
            do { w' \<leftarrow> c_memcpy w 0 (replicate (unat wc) 0) (unat wc);
                 Some (True, Ref (b\<lparr>words := w', word_count := wc, bit_count := n, used := 0,
                                     initialized := True\<rparr>)) }
      | _ \<Rightarrow> Some (False, bm))"

text \<open>The free bits of word \<open>i\<close>, the unused high bits of the final word masked off.\<close>

definition bmp_free_bits :: "owbitmap_t \<Rightarrow> u32 \<Rightarrow> u64 \<Rightarrow> u64" where
  "bmp_free_bits bm i word =
     (let free_bits = NOT word; base = i * 64 in
      if base + 64 > bit_count bm then
        let valid = bit_count bm - base in
        if valid < 64 then free_bits AND (push_bit (unat valid) 1 - 1) else free_bits
      else free_bits)"

text \<open>The shift loop: it would not end on a word without a set bit.\<close>

partial_function (option) bmp_shift :: "u64 \<Rightarrow> u32 \<Rightarrow> u32 comp" where
  "bmp_shift free_bits b =
     (if free_bits AND 1 = 0 then bmp_shift (drop_bit 1 free_bits) (b + 1) else Some b)"

function bmp_find :: "owbitmap_t \<Rightarrow> u32 \<Rightarrow> int comp" where
  "bmp_find bm i =
     (if i < word_count bm then
        do { word \<leftarrow> c_rd (words bm) (unat i);
             if word = 0xFFFFFFFFFFFFFFFF then bmp_find bm (i + 1)
             else if bmp_free_bits bm i word = 0 then bmp_find bm (i + 1)
             else do { b \<leftarrow> bmp_shift (bmp_free_bits bm i word) 0;
                       Some (int (unat (i * 64 + b))) } }
      else Some (-1))"
  by pat_completeness auto
termination
  by (relation "measure (\<lambda>(bm, i). unat (word_count bm) - unat i)")
     (auto simp: unat_add1_less word_less_nat_alt diff_less_mono2)

declare bmp_find.simps [simp del]

definition owbmp_find_first_free :: "owbitmap_t ptr \<Rightarrow> int comp" where
  "owbmp_find_first_free bm =
     (case bm of NULL \<Rightarrow> Some (-1)
      | Ref b \<Rightarrow> if \<not> initialized b then Some (-1) else bmp_find b 0)"

definition owbmp_alloc :: "owbitmap_t ptr \<Rightarrow> (int \<times> owbitmap_t ptr) comp" where
  "owbmp_alloc bm =
     do { r \<leftarrow> owbmp_find_first_free bm;
          if r < 0 then Some (-1, bm)
          else case bm of NULL \<Rightarrow> None
            | Ref b \<Rightarrow>
               let idx = (word_of_int r :: u32) in
               do { word \<leftarrow> c_rd (words b) (unat (idx div 64));
                    ws \<leftarrow> c_wr (words b) (unat (idx div 64)) (word OR bmp_mask idx);
                    Some (r, Ref (b\<lparr>words := ws, used := used b + 1\<rparr>)) } }"

definition owbmp_free :: "owbitmap_t ptr \<Rightarrow> u32 \<Rightarrow> (bool \<times> owbitmap_t ptr) comp" where
  "owbmp_free bm n =
     (case bm of NULL \<Rightarrow> Some (False, bm)
      | Ref b \<Rightarrow>
         if \<not> initialized b \<or> n \<ge> bit_count b then Some (False, bm)
         else let idx = n div 64; mask = bmp_mask n in
           do { word \<leftarrow> c_rd (words b) (unat idx);
                if word AND mask = 0 then Some (False, bm)
                else do { ws \<leftarrow> c_wr (words b) (unat idx) (word AND NOT mask);
                          Some (True, Ref (b\<lparr>words := ws,
                                  used := (if used b > 0 then used b - 1 else used b)\<rparr>)) } })"

definition owbmp_test :: "owbitmap_t ptr \<Rightarrow> u32 \<Rightarrow> bool comp" where
  "owbmp_test bm n =
     (case bm of NULL \<Rightarrow> Some False
      | Ref b \<Rightarrow>
         if \<not> initialized b \<or> n \<ge> bit_count b then Some False
         else do { word \<leftarrow> c_rd (words b) (unat (n div 64));
                   Some (word AND bmp_mask n \<noteq> 0) })"

section \<open>The set of allocated indices\<close>

definition bit_at :: "owbitmap_t \<Rightarrow> nat \<Rightarrow> bool" where
  "bit_at bm n = bit (words bm ! (n div 64)) (n mod 64)"

definition bmp_set :: "owbitmap_t \<Rightarrow> nat set" where
  "bmp_set bm = {n. n < unat (bit_count bm) \<and> bit_at bm n}"

definition bmp_inv :: "owbitmap_t \<Rightarrow> bool" where
  "bmp_inv bm \<longleftrightarrow>
     initialized bm \<and> unat (bit_count bm) \<le> 2 ^ 32 - 64 \<and>
     unat (word_count bm) = (unat (bit_count bm) + 63) div 64 \<and>
     unat (word_count bm) \<le> length (words bm) \<and>
     unat (used bm) = card (bmp_set bm)"

lemma bmp_invD:
  assumes "bmp_inv bm"
  shows "initialized bm" and "unat (bit_count bm) \<le> 2 ^ 32 - 64"
    and "unat (word_count bm) = (unat (bit_count bm) + 63) div 64"
    and "unat (word_count bm) \<le> length (words bm)"
    and "n < unat (bit_count bm) \<Longrightarrow> n div 64 < length (words bm)"
  using assms by (auto simp: bmp_inv_def)

lemma bmp_set_finite [simp]: "finite (bmp_set bm)"
  by (rule finite_subset [of _ "{..< unat (bit_count bm)}"]) (auto simp: bmp_set_def)

lemma bmp_set_bound: "card (bmp_set bm) \<le> unat (bit_count bm)"
proof -
  have "card (bmp_set bm) \<le> card {..< unat (bit_count bm)}"
    by (rule card_mono) (auto simp: bmp_set_def)
  then show ?thesis by simp
qed

section \<open>The search\<close>

lemma and_one_eq_0: "(w :: u64) AND 1 = 0 \<longleftrightarrow> \<not> bit w 0"
  by (simp add: and_one_eq bit_0 even_iff_mod_2_eq_zero)

lemma bmp_shift_least:
  "bit f n \<Longrightarrow> (\<forall>m < n. \<not> bit f m) \<Longrightarrow> bmp_shift f b = Some (b + of_nat n)"
proof (induction n arbitrary: f b)
  case 0
  then show ?case by (subst bmp_shift.simps) (simp add: and_one_eq_0)
next
  case (Suc n)
  have "bmp_shift (drop_bit 1 f) (b + 1) = Some (b + 1 + of_nat n)"
    using Suc.prems by (intro Suc.IH) (auto simp: bit_drop_bit_eq)
  moreover have "\<not> bit f 0" using Suc.prems by auto
  ultimately show ?case
    by (subst bmp_shift.simps) (simp add: and_one_eq_0 algebra_simps)
qed

lemma unat_base:
  assumes "unat i * 64 + k < 2 ^ 32"
  shows "unat (i * 64 + of_nat k :: u32) = unat i * 64 + k"
proof -
  have "i * 64 + of_nat k = (of_nat (unat i * 64 + k) :: u32)" by simp
  then show ?thesis using assms by (metis unat_of_nat_u32)
qed

lemma bit_bmp_free_bits:
  assumes "bmp_inv bm" and "i < word_count bm"
  shows "bit (bmp_free_bits bm i w) n \<longleftrightarrow>
     n < 64 \<and> \<not> bit w n \<and> unat i * 64 + n < unat (bit_count bm)"
proof -
  let ?bc = "unat (bit_count bm)"
  have i: "unat i * 64 < ?bc" and bc: "?bc \<le> 2 ^ 32 - 64"
    using assms bmp_invD [OF assms(1)] by (simp_all add: word_less_nat_alt)
  have base: "unat (i * 64) = unat i * 64" and base64: "unat (i * 64 + 64) = unat i * 64 + 64"
    using unat_base [of i 0] unat_base [of i 64] i bc by simp_all
  have valid: "unat (bit_count bm - i * 64) = ?bc - unat i * 64"
    using i by (subst unat_sub_le) (simp_all add: word_le_nat_alt base)
  have tail: "bit (2 ^ k - 1 :: u64) n \<longleftrightarrow> n < k \<and> n < 64" for k
    by (auto simp: mask_eq_exp_minus_1 [symmetric] bit_mask_iff)
  have "bmp_free_bits bm i w = (if ?bc < unat i * 64 + 64
      then NOT w AND (push_bit (?bc - unat i * 64) 1 - 1) else NOT w)"
    unfolding bmp_free_bits_def Let_def word_less_nat_alt base64 valid using i by auto
  moreover have "bit (NOT w) n \<longleftrightarrow> n < 64 \<and> \<not> bit w n" by (simp add: bit_not_iff)
  ultimately show ?thesis
    using i by (simp add: bit_and_iff tail) linarith
qed

lemma all_ones: "(w :: u64) = 0xFFFFFFFFFFFFFFFF \<longleftrightarrow> (\<forall>n < 64. bit w n)"
proof -
  have "(0xFFFFFFFFFFFFFFFF :: u64) = - 1" by simp
  moreover have "w = - 1 \<longleftrightarrow> (\<forall>n < 64. bit w n)"
    by (auto simp: bit_eq_iff)
  ultimately show ?thesis by metis
qed

text \<open>What the search from word \<open>i\<close> returns: the least clear index from there on.\<close>

definition least_clear :: "owbitmap_t \<Rightarrow> nat \<Rightarrow> int \<Rightarrow> bool" where
  "least_clear bm from r \<longleftrightarrow>
     (if r = -1 then \<forall>n. from \<le> n \<and> n < unat (bit_count bm) \<longrightarrow> bit_at bm n
      else \<exists>n. r = int n \<and> from \<le> n \<and> n < unat (bit_count bm) \<and> \<not> bit_at bm n \<and>
             (\<forall>m. from \<le> m \<and> m < n \<longrightarrow> bit_at bm m))"

lemma least_clearI:
  "from \<le> n \<Longrightarrow> n < unat (bit_count bm) \<Longrightarrow> \<not> bit_at bm n \<Longrightarrow>
     (\<And>m. from \<le> m \<Longrightarrow> m < n \<Longrightarrow> bit_at bm m) \<Longrightarrow> least_clear bm from (int n)"
  by (auto simp: least_clear_def)

lemma bit_at_base: "k < 64 \<Longrightarrow> bit_at bm (i * 64 + k) = bit (words bm ! i) k"
  by (simp add: bit_at_def)

lemma nat_block_cases:
  assumes "i * 64 \<le> m" obtains k where "m = i * 64 + k" "k < 64" | "Suc i * 64 \<le> (m :: nat)"
proof (cases "Suc i * 64 \<le> m")
  case False
  then show ?thesis using assms by (intro that(1) [of "m - i * 64"]) auto
qed (rule that(2))

lemma least_clear_next:
  assumes "least_clear bm (Suc i * 64) r"
    and "\<And>k. k < 64 \<Longrightarrow> i * 64 + k < unat (bit_count bm) \<Longrightarrow> bit (words bm ! i) k"
  shows "least_clear bm (i * 64) r"
proof -
  have low: "bit_at bm m"
    if "i * 64 \<le> m" "m < unat (bit_count bm)" "\<not> Suc i * 64 \<le> m" for m
    using that(1)
  proof (cases rule: nat_block_cases)
    case (1 k)
    then show ?thesis using that assms(2) [of k] by (simp add: bit_at_base)
  qed (use that(3) in simp)
  show ?thesis
  proof (cases "r = -1")
    case True
    then show ?thesis using assms(1) low unfolding least_clear_def by (smt (verit))
  next
    case False
    then obtain n where n: "r = int n" "Suc i * 64 \<le> n" "n < unat (bit_count bm)" "\<not> bit_at bm n"
      "\<forall>m. Suc i * 64 \<le> m \<and> m < n \<longrightarrow> bit_at bm m"
      using assms(1) by (auto simp: least_clear_def)
    have "bit_at bm m" if "i * 64 \<le> m" "m < n" for m
      using low [of m] that n by fastforce
    then show ?thesis using n False by (auto simp: least_clear_def)
  qed
qed

lemma bmp_find_least:
  assumes "bmp_inv bm" and "unat i \<le> unat (word_count bm)"
  shows "\<exists>r. bmp_find bm i = Some r \<and> least_clear bm (unat i * 64) r"
  using assms
proof (induction bm i rule: bmp_find.induct)
  case (1 bm i)
  note inv = bmp_invD [OF \<open>bmp_inv bm\<close>]
  show ?case
  proof (cases "i < word_count bm")
    case False
    then have "unat (bit_count bm) \<le> unat i * 64"
      using 1(4) inv(3) by (simp add: word_less_nat_alt)
    then show ?thesis using False by (subst bmp_find.simps) (auto simp: least_clear_def)
  next
    case True
    let ?w = "words bm ! unat i" let ?f = "bmp_free_bits bm i ?w"
    have len: "unat i < length (words bm)" using True inv(4) by (simp add: word_less_nat_alt)
    have S: "unat (i + 1) = Suc (unat i)" using True by (rule unat_add1_less)
    note f = bit_bmp_free_bits [OF \<open>bmp_inv bm\<close> True]
    show ?thesis
    proof (cases "?w = 0xFFFFFFFFFFFFFFFF \<or> ?f = 0")
      case skip: True
      have le: "unat (i + 1) \<le> unat (word_count bm)"
        using True S by (simp add: word_less_nat_alt)
      have rd: "c_rd (words bm) (unat i) = Some ?w" using len by simp
      have "\<exists>r. bmp_find bm (i + 1) = Some r \<and> least_clear bm (unat (i + 1) * 64) r"
        using 1(1) [OF True rd _ 1(3) le] 1(2) [OF True rd _ _ 1(3) le] skip by blast
      then obtain r where r: "bmp_find bm (i + 1) = Some r" "least_clear bm (Suc (unat i) * 64) r"
        unfolding S by blast
      have "bit ?w k" if "k < 64" "unat i * 64 + k < unat (bit_count bm)" for k
        using skip f [of ?w k] that by (auto simp: all_ones)
      from least_clear_next [OF r(2) this] r(1) len True skip show ?thesis
        by (subst bmp_find.simps) auto
    next
      case False
      then have "\<exists>n. bit ?f n" by (auto simp: bit_eq_iff)
      then obtain n where n: "bit ?f n" "\<forall>m < n. \<not> bit ?f m"
        using exists_least_iff [of "bit ?f"] by blast
      have hit: "n < 64" "\<not> bit ?w n" "unat i * 64 + n < unat (bit_count bm)"
        using f n(1) by auto
      have "bmp_find bm i = Some (int (unat (i * 64 + of_nat n)))"
        using False len True bmp_shift_least [OF n, of 0] by (subst bmp_find.simps) simp
      also have "unat (i * 64 + of_nat n) = unat i * 64 + n"
        using hit inv(2) by (intro unat_base) simp
      finally have "bmp_find bm i = Some (int (unat i * 64 + n))" .
      moreover have "bit_at bm m" if m: "unat i * 64 \<le> m" "m < unat i * 64 + n" for m
        using m(1)
      proof (cases rule: nat_block_cases)
        case (1 k)
        then show ?thesis using m n(2) f [of ?w k] hit by (auto simp: bit_at_base)
      qed (use m hit in simp)
      ultimately show ?thesis
        using hit least_clearI [of "unat i * 64" "unat i * 64 + n" bm] by (simp add: bit_at_base)
    qed
  qed
qed


section \<open>Single operations\<close>

lemma bit_bmp_mask: "bit (bmp_mask b) k \<longleftrightarrow> k = unat b mod 64"
proof -
  have "b AND (64 - 1) = take_bit 6 b" by (simp add: take_bit_eq_mask mask_eq_exp_minus_1)
  then have "unat (b AND (64 - 1)) = unat b mod 64"
    by (simp add: take_bit_eq_mod unat_mod)
  then show ?thesis
    unfolding bmp_mask_def by (auto simp: bit_exp_iff)
qed

lemma and_bmp_mask: "w AND bmp_mask b = 0 \<longleftrightarrow> \<not> bit w (unat b mod 64)"
proof -
  have "bit (w AND bmp_mask b) k \<longleftrightarrow> bit w k \<and> k = unat b mod 64" for k
    by (simp add: bit_and_iff bit_bmp_mask)
  moreover have "unat b mod 64 < 64" by simp
  ultimately show ?thesis unfolding bit_eq_iff [of "w AND bmp_mask b" 0]
    by (auto simp del: mod_less_divisor)
qed

lemma unat_idx: "unat ((b :: u32) div 64) = unat b div 64"
  by (simp add: unat_div)

lemma same_bit: "m div 64 = n div 64 \<Longrightarrow> m mod 64 = n mod 64 \<Longrightarrow> m = (n :: nat)"
  by (metis div_mult_mod_eq)

lemma bit_at_set:
  assumes "unat b div 64 < length (words bm)"
  shows "bit_at (bm\<lparr>words := (words bm)[unat b div 64 := words bm ! (unat b div 64) OR bmp_mask b],
           used := u\<rparr>) n \<longleftrightarrow> n = unat b \<or> bit_at bm n"
  using assms same_bit [of n "unat b"]
  by (auto simp: bit_at_def nth_list_update bit_or_iff bit_bmp_mask)

lemma bit_at_clear:
  assumes "unat b div 64 < length (words bm)"
  shows "bit_at (bm\<lparr>words := (words bm)[unat b div 64 := words bm ! (unat b div 64) AND NOT (bmp_mask b)],
           used := u\<rparr>) n \<longleftrightarrow> n \<noteq> unat b \<and> bit_at bm n"
  using assms same_bit [of n "unat b"]
  by (auto simp: bit_at_def nth_list_update bit_and_iff bit_not_iff bit_bmp_mask)

lemma word_count_of_bits:
  assumes "unat (n :: u32) \<le> 2 ^ 32 - 64"
  shows "unat ((n + (64 - 1)) div 64) = (unat n + 63) div 64"
proof -
  have "unat (n + 63) = unat n + 63" using assms by (subst unat_word_ariths) simp
  then show ?thesis by (simp add: unat_div)
qed

lemma owbmp_init_ok:
  assumes "n \<noteq> 0" and "unat n \<le> 2 ^ 32 - 64" and "(unat n + 63) div 64 \<le> length ws"
  shows "\<exists>bm. owbmp_init (Ref b) (Ref ws) n = Some (True, Ref bm) \<and> bmp_inv bm \<and>
     bmp_set bm = {} \<and> bit_count bm = n"
proof -
  note wc = word_count_of_bits [OF assms(2)]
  let ?w = "replicate ((unat n + 63) div 64) 0 @ drop ((unat n + 63) div 64) ws"
  let ?bm = "b\<lparr>words := ?w, word_count := (n + (64 - 1)) div 64, bit_count := n, used := 0,
    initialized := True\<rparr>"
  have "\<not> n > 0xFFFFFFFF - (64 - 1)" using assms(2) by (simp add: word_less_nat_alt)
  moreover have "c_memcpy ws 0 (replicate ((unat n + 63) div 64) 0) ((unat n + 63) div 64) = Some ?w"
    using assms(3) by (simp add: c_memcpy_def)
  ultimately have "owbmp_init (Ref b) (Ref ws) n = Some (True, Ref ?bm)"
    unfolding owbmp_init_def Let_def wc using assms(1) by simp
  moreover have "bmp_set ?bm = {}"
    by (auto simp: bmp_set_def bit_at_def nth_append)
  moreover have "bmp_inv ?bm"
    using assms wc \<open>bmp_set ?bm = {}\<close> by (simp add: bmp_inv_def)
  ultimately show ?thesis by auto
qed

lemma find_first_free_eq:
  assumes "bmp_inv bm"
  shows "owbmp_find_first_free (Ref bm) =
     Some (case find (\<lambda>k. k \<notin> bmp_set bm) [0..<unat (bit_count bm)] of
             None \<Rightarrow> -1 | Some k \<Rightarrow> int k)"
proof -
  from bmp_find_least [OF assms, of 0] obtain r where
    r: "bmp_find bm 0 = Some r" "least_clear bm 0 r" by auto
  have "r = (case find (\<lambda>k. k \<notin> bmp_set bm) [0..<unat (bit_count bm)] of
             None \<Rightarrow> -1 | Some k \<Rightarrow> int k)"
  proof (cases "r = -1")
    case True
    then have "find (\<lambda>k. k \<notin> bmp_set bm) [0..<unat (bit_count bm)] = None"
      using r(2) by (auto simp: find_None_iff least_clear_def bmp_set_def)
    then show ?thesis using True by simp
  next
    case False
    with r(2) obtain n where n: "r = int n" "n < unat (bit_count bm)" "\<not> bit_at bm n"
      "\<forall>m < n. bit_at bm m" by (auto simp: least_clear_def)
    then have "find (\<lambda>k. k \<notin> bmp_set bm) [0..<unat (bit_count bm)] = Some n"
      unfolding find_Some_iff by (intro exI [of _ n]) (auto simp: bmp_set_def)
    then show ?thesis using n(1) by simp
  qed
  then show ?thesis using r(1) bmp_invD(1) [OF assms] by (simp add: owbmp_find_first_free_def)
qed

lemma bmp_used_bound:
  assumes "bmp_inv bm" and "k < unat (bit_count bm)" and "k \<notin> bmp_set bm"
  shows "unat (used bm + 1) = Suc (card (bmp_set bm))"
proof -
  have "bmp_set bm \<subseteq> {..< unat (bit_count bm)} - {k}" using assms(3) by (auto simp: bmp_set_def)
  then have "card (bmp_set bm) \<le> card ({..< unat (bit_count bm)} - {k})" by (intro card_mono) auto
  then have "card (bmp_set bm) < unat (bit_count bm)" using assms(2) by simp
  moreover have "unat (bit_count bm) < 2 ^ 32" using unsigned_less [of "bit_count bm"] by simp
  ultimately show ?thesis using assms(1) by (subst unat_add1) (auto simp: bmp_inv_def)
qed

lemma owbmp_alloc_some:
  assumes "bmp_inv bm" and "find (\<lambda>k. k \<notin> bmp_set bm) [0..<unat (bit_count bm)] = Some k"
  shows "\<exists>bm'. owbmp_alloc (Ref bm) = Some (int k, Ref bm') \<and> bmp_inv bm' \<and>
     bmp_set bm' = insert k (bmp_set bm) \<and> bit_count bm' = bit_count bm"
proof -
  note inv = bmp_invD [OF assms(1)]
  have k: "k < unat (bit_count bm)" "k \<notin> bmp_set bm"
    using assms(2) by (auto simp: find_Some_iff)
  define b where "b = (of_nat k :: u32)"
  have b: "unat b = k"
    using k(1) inv(2) by (simp add: b_def unat_of_nat)
  have idx: "unat b div 64 < length (words bm)" using inv(5) [OF k(1)] b by simp
  let ?ws = "(words bm)[unat b div 64 := words bm ! (unat b div 64) OR bmp_mask b]"
  let ?bm = "bm\<lparr>words := ?ws, used := used bm + 1\<rparr>"
  have "owbmp_alloc (Ref bm) = Some (int k, Ref ?bm)"
    unfolding owbmp_alloc_def find_first_free_eq [OF assms(1)] assms(2) Let_def
    using idx by (simp add: b_def [symmetric] unat_idx)
  moreover have set: "bmp_set ?bm = insert k (bmp_set bm)"
    using k(1) by (auto simp: bmp_set_def bit_at_set [OF idx, unfolded b] b)
  moreover have "bmp_inv ?bm"
    using assms(1) bmp_used_bound [OF assms(1) k] k(2) set by (simp add: bmp_inv_def)
  ultimately show ?thesis by auto
qed

lemma owbmp_alloc_none:
  assumes "bmp_inv bm" and "find (\<lambda>k. k \<notin> bmp_set bm) [0..<unat (bit_count bm)] = None"
  shows "owbmp_alloc (Ref bm) = Some (-1, Ref bm)"
  unfolding owbmp_alloc_def find_first_free_eq [OF assms(1)] assms(2) by simp

lemma owbmp_test_eq:
  assumes "bmp_inv bm"
  shows "owbmp_test (Ref bm) b = Some (unat b \<in> bmp_set bm)"
proof (cases "b < bit_count bm")
  case True
  then show ?thesis using bmp_invD(1) [OF assms] bmp_invD(5) [OF assms, of "unat b"]
    by (auto simp: owbmp_test_def unat_idx and_bmp_mask bmp_set_def bit_at_def word_le_nat_alt
        word_less_nat_alt)
next
  case False
  then show ?thesis by (auto simp: owbmp_test_def bmp_set_def word_le_nat_alt word_less_nat_alt not_less)
qed

lemma owbmp_free_step:
  assumes "bmp_inv bm"
  shows "\<exists>bm'. owbmp_free (Ref bm) b = Some (unat b \<in> bmp_set bm, Ref bm') \<and> bmp_inv bm' \<and>
     bmp_set bm' = bmp_set bm - {unat b} \<and> bit_count bm' = bit_count bm"
proof (cases "unat b \<in> bmp_set bm")
  case False
  moreover have "owbmp_free (Ref bm) b = Some (False, Ref bm)"
    using False bmp_invD(1) [OF assms] bmp_invD(5) [OF assms, of "unat b"]
    by (auto simp: owbmp_free_def Let_def unat_idx and_bmp_mask bmp_set_def bit_at_def
        word_le_nat_alt)
  ultimately show ?thesis using assms by auto
next
  case True
  then have lt: "unat b < unat (bit_count bm)" and set: "bit_at bm (unat b)"
    by (auto simp: bmp_set_def)
  have idx: "unat b div 64 < length (words bm)" using bmp_invD(5) [OF assms lt] .
  have pos: "0 < card (bmp_set bm)" using True by (auto simp: card_gt_0_iff)
  then have u: "used bm \<noteq> 0" using assms by (auto simp: bmp_inv_def)
  let ?ws = "(words bm)[unat b div 64 := words bm ! (unat b div 64) AND NOT (bmp_mask b)]"
  let ?bm = "bm\<lparr>words := ?ws, used := used bm - 1\<rparr>"
  have "owbmp_free (Ref bm) b = Some (True, Ref ?bm)"
    using lt set idx u bmp_invD(1) [OF assms]
    by (simp add: owbmp_free_def Let_def unat_idx and_bmp_mask bit_at_def word_less_nat_alt not_le)
  moreover have set': "bmp_set ?bm = bmp_set bm - {unat b}"
    by (auto simp: bmp_set_def bit_at_clear [OF idx])
  moreover have "bmp_inv ?bm"
    using assms u True by (auto simp: bmp_inv_def set' unat_minus1)
  ultimately show ?thesis using True by auto
qed

section \<open>Refinement\<close>

datatype bmp_op = BAlloc | BFree u32 | BTest u32

datatype bmp_res = Index int | Flag bool

fun bmp_run :: "owbitmap_t ptr \<Rightarrow> bmp_op list \<Rightarrow> (bmp_res list \<times> owbitmap_t ptr) comp" where
  "bmp_run bm [] = Some ([], bm)"
| "bmp_run bm (BAlloc # ops) =
     do { (r, bm) \<leftarrow> owbmp_alloc bm; (rs, bm) \<leftarrow> bmp_run bm ops; Some (Index r # rs, bm) }"
| "bmp_run bm (BFree b # ops) =
     do { (r, bm) \<leftarrow> owbmp_free bm b; (rs, bm) \<leftarrow> bmp_run bm ops; Some (Flag r # rs, bm) }"
| "bmp_run bm (BTest b # ops) =
     do { r \<leftarrow> owbmp_test bm b; (rs, bm) \<leftarrow> bmp_run bm ops; Some (Flag r # rs, bm) }"

text \<open>The specification: a set of indices below \<open>n\<close>, allocation of the least one missing.\<close>

fun set_step :: "nat \<Rightarrow> nat set \<Rightarrow> bmp_op \<Rightarrow> bmp_res \<times> nat set" where
  "set_step n S BAlloc = (case find (\<lambda>k. k \<notin> S) [0..<n] of
     None \<Rightarrow> (Index (-1), S) | Some k \<Rightarrow> (Index (int k), insert k S))"
| "set_step n S (BFree b) = (Flag (unat b \<in> S), S - {unat b})"
| "set_step n S (BTest b) = (Flag (unat b \<in> S), S)"

fun set_run :: "nat \<Rightarrow> nat set \<Rightarrow> bmp_op list \<Rightarrow> bmp_res list \<times> nat set" where
  "set_run n S [] = ([], S)"
| "set_run n S (p # ops) =
     (let (r, S1) = set_step n S p; (rs, S2) = set_run n S1 ops in (r # rs, S2))"

lemma bmp_run_Cons:
  assumes "bmp_inv bm"
  shows "\<exists>bm'. bmp_inv bm' \<and> bit_count bm' = bit_count bm \<and>
     bmp_set bm' = snd (set_step (unat (bit_count bm)) (bmp_set bm) p) \<and>
     bmp_run (Ref bm) (p # ops) =
       do { (rs, b) \<leftarrow> bmp_run (Ref bm') ops;
            Some (fst (set_step (unat (bit_count bm)) (bmp_set bm) p) # rs, b) }"
proof (cases p)
  case BAlloc
  show ?thesis
  proof (cases "find (\<lambda>k. k \<notin> bmp_set bm) [0..<unat (bit_count bm)]")
    case None
    from owbmp_alloc_none [OF assms None] show ?thesis using BAlloc None assms by auto
  next
    case (Some k)
    from owbmp_alloc_some [OF assms Some] obtain bm' where
      "owbmp_alloc (Ref bm) = Some (int k, Ref bm')" "bmp_inv bm'"
      "bmp_set bm' = insert k (bmp_set bm)" "bit_count bm' = bit_count bm" by blast
    then show ?thesis using BAlloc Some by (intro exI [of _ bm']) simp
  qed
next
  case (BFree b)
  from owbmp_free_step [OF assms, of b] obtain bm' where
    "owbmp_free (Ref bm) b = Some (unat b \<in> bmp_set bm, Ref bm')" "bmp_inv bm'"
    "bmp_set bm' = bmp_set bm - {unat b}" "bit_count bm' = bit_count bm" by blast
  then show ?thesis using BFree by (intro exI [of _ bm']) simp
next
  case (BTest b)
  then show ?thesis using assms owbmp_test_eq [OF assms, of b] by (intro exI [of _ bm]) simp
qed

lemma bmp_run_refines:
  assumes "bmp_inv bm"
  shows "\<exists>bm'. bmp_run (Ref bm) ops = Some (fst (set_run (unat (bit_count bm)) (bmp_set bm) ops), Ref bm') \<and>
     bmp_inv bm' \<and> bmp_set bm' = snd (set_run (unat (bit_count bm)) (bmp_set bm) ops)"
  using assms
proof (induction ops arbitrary: bm)
  case Nil
  then show ?case by simp
next
  case (Cons p ops)
  from bmp_run_Cons [OF Cons.prems, of p ops] obtain bm1 where
    bm1: "bmp_inv bm1" "bit_count bm1 = bit_count bm"
      "bmp_set bm1 = snd (set_step (unat (bit_count bm)) (bmp_set bm) p)"
      "bmp_run (Ref bm) (p # ops) =
       do { (rs, b) \<leftarrow> bmp_run (Ref bm1) ops;
            Some (fst (set_step (unat (bit_count bm)) (bmp_set bm) p) # rs, b) }" by blast
  from Cons.IH [OF bm1(1)] bm1(2,3) show ?case
    by (auto simp: bm1(4) Let_def case_prod_unfold)
qed

text \<open>C30: from \<open>owbmp_init\<close> over an array with enough words, every sequence of allocations,
  releases and tests runs without an access out of range and answers as the set of allocated
  indices does: an allocation returns the least index below the bit count that is not allocated,
  and -1 exactly when all are; \<open>used\<close> is the number of allocated indices at the end.\<close>

theorem owbmp_refines_set:
  assumes "n \<noteq> 0" and "unat n \<le> 2 ^ 32 - 64" and "(unat n + 63) div 64 \<le> length ws"
  shows "\<exists>bm bm'. owbmp_init (Ref b) (Ref ws) n = Some (True, Ref bm) \<and>
     bmp_run (Ref bm) ops = Some (fst (set_run (unat n) {} ops), Ref bm') \<and>
     bmp_set bm' = snd (set_run (unat n) {} ops) \<and> unat (used bm') = card (bmp_set bm')"
proof -
  from owbmp_init_ok [OF assms, of b] obtain bm where
    bm: "owbmp_init (Ref b) (Ref ws) n = Some (True, Ref bm)" "bmp_inv bm" "bmp_set bm = {}"
      "bit_count bm = n" by blast
  from bmp_run_refines [OF bm(2), of ops] bm show ?thesis
    by (auto simp: bmp_inv_def)
qed

theorem owbmp_refines_set_witness:
  "\<exists>bm bm'. owbmp_init (Ref \<lparr>words = [], word_count = 0, bit_count = 0, used = 0, initialized = False\<rparr>)
      (Ref [7]) 2 = Some (True, Ref bm) \<and>
     bmp_run (Ref bm) [BAlloc, BAlloc, BAlloc, BFree 0, BFree 0, BAlloc, BTest 1] =
       Some ([Index 0, Index 1, Index (-1), Flag True, Flag False, Index 0, Flag True], Ref bm') \<and>
     bmp_set bm' = {0, 1} \<and> unat (used bm') = card (bmp_set bm')"
proof -
  have "set_run 2 {} [BAlloc, BAlloc, BAlloc, BFree 0, BFree 0, BAlloc, BTest 1] =
     ([Index 0, Index 1, Index (-1), Flag True, Flag False, Index 0, Flag True], {0, 1})"
    by (auto simp: upt_rec)
  then show ?thesis
    using owbmp_refines_set [of 2 "[7]"
        "\<lparr>words = [], word_count = 0, bit_count = 0, used = 0, initialized = False\<rparr>"
        "[BAlloc, BAlloc, BAlloc, BFree 0, BFree 0, BAlloc, BTest 1]"]
    by (simp del: bmp_run.simps set_run.simps)
qed

end
