(* ===== verification/Pipe.thy ===== *)
theory Pipe
  imports Ring_Queue
begin

text \<open>
  The named pipe of \<open>src/Drivers/owpipe/owpipe.c\<close>: a ring of 512 bytes with partial writes
  and partial reads, and a disconnect that refuses further writes while the bytes already queued
  can still be read. The specification is a byte stream bounded by the capacity.
\<close>

section \<open>Model\<close>

type_synonym OW_STATUS = u32

abbreviation OW_SUCCESS :: OW_STATUS where "OW_SUCCESS \<equiv> 0"
abbreviation OW_ERR_NULL_POINTER :: OW_STATUS where "OW_ERR_NULL_POINTER \<equiv> 0x0011AEE1"
abbreviation OW_ERR_PIPE_BROKEN :: OW_STATUS where "OW_ERR_PIPE_BROKEN \<equiv> 0x0011AEEB"

datatype OW_PIPE_STATE =
  OW_PIPE_STATE_LISTENING | OW_PIPE_STATE_CONNECTED | OW_PIPE_STATE_DISCONNECTED

record OW_NAMED_PIPE =
  Name :: string
  State :: OW_PIPE_STATE
  Head :: u32
  Tail :: u32
  Count :: u32
  Buffer :: "u8 list"
  IsInitialized :: bool

definition OwPipeCreate ::
  "OW_NAMED_PIPE ptr \<Rightarrow> string ptr \<Rightarrow> OW_STATUS \<times> OW_NAMED_PIPE ptr" where
  "OwPipeCreate Pipe name =
     (case (Pipe, name) of
        (Ref p, Ref n) \<Rightarrow>
          (OW_SUCCESS, Ref \<lparr>Name = c_strcopy 48 name, State = OW_PIPE_STATE_CONNECTED, Head = 0,
             Tail = 0, Count = 0, Buffer = replicate 512 0, IsInitialized = True\<rparr>)
      | _ \<Rightarrow> (OW_ERR_NULL_POINTER, Pipe))"

text \<open>The copy loop of \<open>OwPipeWrite\<close>: the pipe and the number of bytes taken.\<close>

function pipe_write_loop :: "OW_NAMED_PIPE \<Rightarrow> u8 list \<Rightarrow> u32 \<Rightarrow> u32 \<Rightarrow> (OW_NAMED_PIPE \<times> u32) comp" where
  "pipe_write_loop p Data len written =
     (if written < len \<and> Count p < 512 then
        do { x \<leftarrow> c_rd Data (unat written);
             buf \<leftarrow> c_wr (Buffer p) (unat (Tail p)) x;
             pipe_write_loop (p\<lparr>Buffer := buf, Tail := (Tail p + 1) mod 512, Count := Count p + 1\<rparr>)
               Data len (written + 1) }
      else Some (p, written))"
  by pat_completeness auto
termination
  by (relation "measure (\<lambda>(p, d, l, w). unat l - unat w)")
     (auto simp: unat_add1_less word_less_nat_alt diff_less_mono2)

function pipe_read_loop ::
  "OW_NAMED_PIPE \<Rightarrow> u8 list \<Rightarrow> u32 \<Rightarrow> u32 \<Rightarrow> (OW_NAMED_PIPE \<times> u8 list \<times> u32) comp" where
  "pipe_read_loop p out len read_bytes =
     (if read_bytes < len \<and> Count p > 0 then
        do { x \<leftarrow> c_rd (Buffer p) (unat (Head p));
             out \<leftarrow> c_wr out (unat read_bytes) x;
             pipe_read_loop (p\<lparr>Head := (Head p + 1) mod 512, Count := Count p - 1\<rparr>)
               out len (read_bytes + 1) }
      else Some (p, out, read_bytes))"
  by pat_completeness auto
termination
  by (relation "measure (\<lambda>(p, d, l, w). unat l - unat w)")
     (auto simp: unat_add1_less word_less_nat_alt diff_less_mono2)

declare pipe_write_loop.simps [simp del] pipe_read_loop.simps [simp del]

definition OwPipeWrite ::
  "OW_NAMED_PIPE ptr \<Rightarrow> u8 list ptr \<Rightarrow> u32 \<Rightarrow> u32 ptr \<Rightarrow> (OW_STATUS \<times> OW_NAMED_PIPE ptr \<times> u32 ptr) comp" where
  "OwPipeWrite Pipe Data len BytesWritten =
     (case (Pipe, Data, BytesWritten) of
        (Ref p, Ref d, Ref _) \<Rightarrow>
          if \<not> IsInitialized p \<or> State p \<noteq> OW_PIPE_STATE_CONNECTED
          then Some (OW_ERR_PIPE_BROKEN, Pipe, BytesWritten)
          else do { (p', written) \<leftarrow> pipe_write_loop p d len 0;
                    Some (OW_SUCCESS, Ref p', Ref written) }
      | _ \<Rightarrow> Some (OW_ERR_NULL_POINTER, Pipe, BytesWritten))"

definition OwPipeRead ::
  "OW_NAMED_PIPE ptr \<Rightarrow> u8 list ptr \<Rightarrow> u32 \<Rightarrow> u32 ptr \<Rightarrow>
   (OW_STATUS \<times> OW_NAMED_PIPE ptr \<times> u8 list ptr \<times> u32 ptr) comp" where
  "OwPipeRead Pipe out MaxLength BytesRead =
     (case (Pipe, out, BytesRead) of
        (Ref p, Ref b, Ref _) \<Rightarrow>
          if \<not> IsInitialized p then Some (OW_ERR_PIPE_BROKEN, Pipe, out, BytesRead)
          else do { (p', b', n) \<leftarrow> pipe_read_loop p b MaxLength 0;
                    Some (OW_SUCCESS, Ref p', Ref b', Ref n) }
      | _ \<Rightarrow> Some (OW_ERR_NULL_POINTER, Pipe, out, BytesRead))"

definition OwPipeDisconnect :: "OW_NAMED_PIPE ptr \<Rightarrow> OW_STATUS \<times> OW_NAMED_PIPE ptr" where
  "OwPipeDisconnect Pipe =
     (case Pipe of NULL \<Rightarrow> (OW_ERR_NULL_POINTER, Pipe)
      | Ref p \<Rightarrow> (OW_SUCCESS, Ref (p\<lparr>State := OW_PIPE_STATE_DISCONNECTED\<rparr>)))"

section \<open>The bytes in the pipe\<close>

definition pipe_inv :: "OW_NAMED_PIPE \<Rightarrow> bool" where
  "pipe_inv p \<longleftrightarrow> IsInitialized p \<and> length (Buffer p) = 512 \<and> ring_ok 512 (Head p) (Tail p) (Count p)"

definition pipe_bytes :: "OW_NAMED_PIPE \<Rightarrow> u8 list" where
  "pipe_bytes p = ring_list (Buffer p) (unat (Head p)) (unat (Count p))"

lemma length_pipe_bytes: "length (pipe_bytes p) = unat (Count p)"
  by (simp add: pipe_bytes_def)

lemma pipe_count_le: "pipe_inv p \<Longrightarrow> unat (Count p) \<le> 512"
  unfolding pipe_inv_def using ring_okD(3) [of 512 "Head p" "Tail p" "Count p"] by auto

lemma pipe_put:
  assumes "pipe_inv p" and "Count p < 512"
    and "p' = p\<lparr>Buffer := (Buffer p)[unat (Tail p) := x], Tail := (Tail p + 1) mod 512, Count := Count p + 1\<rparr>"
  shows "pipe_inv p'" and "pipe_bytes p' = pipe_bytes p @ [x]" and "unat (Tail p) < length (Buffer p)"
    and "State p' = State p"
proof -
  have ring: "ring_ok 512 (Head p) (Tail p) (Count p)" and len: "length (Buffer p) = 512"
    using assms(1) by (auto simp: pipe_inv_def)
  show "pipe_inv p'"
    using assms(1) ring_ok_push(1) [OF ring assms(2)] by (simp add: assms(3) pipe_inv_def)
  show "pipe_bytes p' = pipe_bytes p @ [x]"
    using ring_list_push [OF ring assms(2), of "Buffer p" x] len by (simp add: assms(3) pipe_bytes_def)
  show "unat (Tail p) < length (Buffer p)" using ring_okD(2) [OF ring] len by simp
  show "State p' = State p" by (simp add: assms(3))
qed

lemma pipe_take:
  assumes "pipe_inv p" and "Count p \<noteq> 0"
    and "p' = p\<lparr>Head := (Head p + 1) mod 512, Count := Count p - 1\<rparr>"
  shows "pipe_inv p'" and "pipe_bytes p = Buffer p ! unat (Head p) # pipe_bytes p'"
    and "unat (Head p) < length (Buffer p)" and "State p' = State p"
proof -
  have ring: "ring_ok 512 (Head p) (Tail p) (Count p)" and len: "length (Buffer p) = 512"
    using assms(1) by (auto simp: pipe_inv_def)
  show "pipe_inv p'"
    using assms(1) ring_ok_pop(1) [OF ring assms(2)] by (simp add: assms(3) pipe_inv_def)
  show "pipe_bytes p = Buffer p ! unat (Head p) # pipe_bytes p'"
    using ring_list_pop [OF ring assms(2), of "Buffer p"] len by (simp add: assms(3) pipe_bytes_def)
  show "unat (Head p) < length (Buffer p)" using ring_okD(1) [OF ring] len by simp
  show "State p' = State p" by (simp add: assms(3))
qed

section \<open>The loops\<close>

text \<open>The write loop takes as many of the remaining bytes as fit.\<close>

lemma pipe_write_loop_ok:
  assumes "pipe_inv p" and "unat len \<le> length Data" and "unat w \<le> unat len"
  shows "\<exists>p'. pipe_write_loop p Data len w =
       Some (p', w + of_nat (min (unat len - unat w) (512 - unat (Count p)))) \<and>
     pipe_inv p' \<and> State p' = State p \<and>
     pipe_bytes p' = pipe_bytes p @ take (512 - unat (Count p)) (take (unat len - unat w) (drop (unat w) Data))"
  using assms
proof (induction p Data len w rule: pipe_write_loop.induct)
  case (1 p Data len w)
  show ?case
  proof (cases "w < len \<and> Count p < 512")
    case False
    then have "unat len - unat w = 0 \<or> 512 - unat (Count p) = 0"
      using pipe_count_le [OF "1.prems"(1)] by (auto simp: word_less_nat_alt)
    then show ?thesis using False "1.prems" by (subst pipe_write_loop.simps) auto
  next
    case True
    let ?x = "Data ! unat w"
    let ?p = "p\<lparr>Buffer := (Buffer p)[unat (Tail p) := ?x], Tail := (Tail p + 1) mod 512, Count := Count p + 1\<rparr>"
    note put = pipe_put [OF "1.prems"(1) conjunct2 [OF True] refl [of ?p]]
    have w1: "unat (w + 1) = Suc (unat w)" using True by (blast intro: unat_add1_less)
    have c1: "unat (Count p + 1) = Suc (unat (Count p))" using True by (blast intro: unat_add1_less)
    have lt: "unat w < unat len" "unat (Count p) < 512" using True by (auto simp: word_less_nat_alt)
    have rd: "c_rd Data (unat w) = Some ?x" using lt "1.prems"(2) by simp
    have wr: "c_wr (Buffer p) (unat (Tail p)) ?x = Some ((Buffer p)[unat (Tail p) := ?x])"
      using put(3) by simp
    from "1.IH" [OF True rd wr put(1) "1.prems"(2)] w1 lt obtain p' where
      p': "pipe_write_loop ?p Data len (w + 1) =
         Some (p', w + 1 + of_nat (min (unat len - Suc (unat w)) (512 - Suc (unat (Count p)))))"
        "pipe_inv p'" "State p' = State p"
        "pipe_bytes p' = (pipe_bytes p @ [?x]) @
         take (512 - Suc (unat (Count p))) (take (unat len - Suc (unat w)) (drop (Suc (unat w)) Data))"
      by (auto simp: c1 put(2))
    have "min (unat len - unat w) (512 - unat (Count p)) =
      Suc (min (unat len - Suc (unat w)) (512 - Suc (unat (Count p))))" using lt by simp
    moreover have "take (512 - unat (Count p)) (take (unat len - unat w) (drop (unat w) Data)) =
      ?x # take (512 - Suc (unat (Count p))) (take (unat len - Suc (unat w)) (drop (Suc (unat w)) Data))"
      using lt "1.prems"(2) by (simp add: Cons_nth_drop_Suc [symmetric] take_Cons' Suc_diff_Suc)
    ultimately show ?thesis
      using p' rd wr True by (subst pipe_write_loop.simps) (simp add: algebra_simps)
  qed
qed

text \<open>The read loop hands out as many bytes as asked for and present, oldest first.\<close>

lemma pipe_read_loop_ok:
  assumes "pipe_inv p" and "unat len \<le> length out" and "unat r \<le> unat len"
  shows "\<exists>p' out'. pipe_read_loop p out len r =
       Some (p', out', r + of_nat (min (unat len - unat r) (unat (Count p)))) \<and>
     pipe_inv p' \<and> State p' = State p \<and> length out' = length out \<and>
     take (unat r + min (unat len - unat r) (unat (Count p))) out' =
       take (unat r) out @ take (unat len - unat r) (pipe_bytes p) \<and>
     pipe_bytes p' = drop (unat len - unat r) (pipe_bytes p)"
  using assms
proof (induction p out len r rule: pipe_read_loop.induct)
  case (1 p out len r)
  show ?case
  proof (cases "r < len \<and> Count p > 0")
    case False
    then consider "unat len = unat r" | "pipe_bytes p = []" "Count p = 0"
      using "1.prems"(3) by (auto simp: word_less_nat_alt pipe_bytes_def)
    then show ?thesis using False "1.prems" by (subst pipe_read_loop.simps, cases) auto
  next
    case True
    let ?x = "Buffer p ! unat (Head p)" and ?out = "out[unat r := Buffer p ! unat (Head p)]"
    let ?p = "p\<lparr>Head := (Head p + 1) mod 512, Count := Count p - 1\<rparr>"
    have nz: "Count p \<noteq> 0" using True by auto
    note get = pipe_take [OF "1.prems"(1) nz refl [of ?p]]
    have r1: "unat (r + 1) = Suc (unat r)" using True by (blast intro: unat_add1_less)
    have c1: "unat (Count p) = Suc (unat (Count p - 1))" using nz by (simp add: unat_minus1)
    have lt: "unat r < unat len" using True by (auto simp: word_less_nat_alt)
    have rd: "c_rd (Buffer p) (unat (Head p)) = Some ?x" using get(3) by simp
    have wr: "c_wr out (unat r) ?x = Some ?out" using lt "1.prems"(2) by simp
    from "1.IH" [OF True rd wr get(1)] "1.prems"(2) r1 lt obtain p' out' where
      p': "pipe_read_loop ?p ?out len (r + 1) =
         Some (p', out', r + 1 + of_nat (min (unat len - Suc (unat r)) (unat (Count p - 1))))"
        "pipe_inv p'" "State p' = State p" "length out' = length out"
        "take (Suc (unat r) + min (unat len - Suc (unat r)) (unat (Count p - 1))) out' =
           take (Suc (unat r)) ?out @ take (unat len - Suc (unat r)) (pipe_bytes ?p)"
        "pipe_bytes p' = drop (unat len - Suc (unat r)) (pipe_bytes ?p)"
      by auto
    have m: "min (unat len - unat r) (unat (Count p)) =
      Suc (min (unat len - Suc (unat r)) (unat (Count p - 1)))" using lt c1 by simp
    have "take (Suc (unat r)) ?out = take (unat r) out @ [?x]"
      using lt "1.prems"(2) by (simp add: take_Suc_conv_app_nth)
    moreover have "unat len - unat r = Suc (unat len - Suc (unat r))" using lt by simp
    ultimately have "take (unat r + min (unat len - unat r) (unat (Count p))) out' =
       take (unat r) out @ take (unat len - unat r) (pipe_bytes p)"
      and "pipe_bytes p' = drop (unat len - unat r) (pipe_bytes p)"
      using p'(5,6) m get(2) by simp_all
    moreover have "pipe_read_loop p out len r =
       Some (p', out', r + of_nat (min (unat len - unat r) (unat (Count p))))"
      using p'(1) rd wr True m by (subst pipe_read_loop.simps) (simp add: algebra_simps)
    ultimately show ?thesis using p'(2-4) by blast
  qed
qed

section \<open>Refinement to a byte stream\<close>

datatype pipe_op = PWrite "u8 list" | PRead nat | PDisconnect

datatype pipe_res = Wrote OW_STATUS nat | Received OW_STATUS "u8 list" | Closed OW_STATUS

text \<open>
  A client that passes a buffer with its real length and reads into a fresh buffer; it looks at
  the first \<open>BytesRead\<close> bytes, and at \<open>BytesWritten\<close>, which it clears before the call.
\<close>

fun pipe_step :: "OW_NAMED_PIPE ptr \<Rightarrow> pipe_op \<Rightarrow> (pipe_res \<times> OW_NAMED_PIPE ptr) comp" where
  "pipe_step P (PWrite d) =
     do { (st, P', n) \<leftarrow> OwPipeWrite P (Ref d) (of_nat (length d)) (Ref 0);
          case n of NULL \<Rightarrow> None | Ref k \<Rightarrow> Some (Wrote st (unat k), P') }"
| "pipe_step P (PRead n) =
     do { (st, P', out, k) \<leftarrow> OwPipeRead P (Ref (replicate n 0)) (of_nat n) (Ref 0);
          case (out, k) of (Ref b, Ref k) \<Rightarrow> Some (Received st (take (unat k) b), P') | _ \<Rightarrow> None }"
| "pipe_step P PDisconnect = (let (st, P') = OwPipeDisconnect P in Some (Closed st, P'))"

fun pipe_run :: "OW_NAMED_PIPE ptr \<Rightarrow> pipe_op list \<Rightarrow> (pipe_res list \<times> OW_NAMED_PIPE ptr) comp" where
  "pipe_run P [] = Some ([], P)"
| "pipe_run P (x # xs) =
     do { (r, P) \<leftarrow> pipe_step P x; (rs, P) \<leftarrow> pipe_run P xs; Some (r # rs, P) }"

text \<open>The stream: is it open, and which bytes are in it.\<close>

fun stream_step :: "bool \<times> u8 list \<Rightarrow> pipe_op \<Rightarrow> pipe_res \<times> (bool \<times> u8 list)" where
  "stream_step (c, q) (PWrite d) =
     (if c then (Wrote OW_SUCCESS (min (length d) (512 - length q)), (c, q @ take (512 - length q) d))
      else (Wrote OW_ERR_PIPE_BROKEN 0, (c, q)))"
| "stream_step (c, q) (PRead n) = (Received OW_SUCCESS (take n q), (c, drop n q))"
| "stream_step (c, q) PDisconnect = (Closed OW_SUCCESS, (False, q))"

fun stream_run :: "bool \<times> u8 list \<Rightarrow> pipe_op list \<Rightarrow> pipe_res list \<times> (bool \<times> u8 list)" where
  "stream_run S [] = ([], S)"
| "stream_run S (x # xs) =
     (let (r, S1) = stream_step S x; (rs, S2) = stream_run S1 xs in (r # rs, S2))"

fun pipe_op_ok :: "pipe_op \<Rightarrow> bool" where
  "pipe_op_ok (PWrite d) = (length d < 2 ^ 32)"
| "pipe_op_ok (PRead n) = (n < 2 ^ 32)"
| "pipe_op_ok PDisconnect = True"

definition pipe_abs :: "OW_NAMED_PIPE \<Rightarrow> bool \<times> u8 list" where
  "pipe_abs p = (State p = OW_PIPE_STATE_CONNECTED, pipe_bytes p)"

lemma pipe_step_refines:
  assumes "pipe_inv p" and "pipe_op_ok x"
  shows "\<exists>p'. pipe_step (Ref p) x = Some (fst (stream_step (pipe_abs p) x), Ref p') \<and> pipe_inv p' \<and>
     pipe_abs p' = snd (stream_step (pipe_abs p) x)"
proof (cases x)
  case (PWrite d)
  have len: "unat (of_nat (length d) :: u32) = length d"
    using assms(2) PWrite by (simp add: unat_of_nat)
  have small: "unat (of_nat (min (length d) (512 - unat (Count p))) :: u32) =
      min (length d) (512 - unat (Count p))"
    by (rule unat_of_nat_u32) simp
  show ?thesis
  proof (cases "State p = OW_PIPE_STATE_CONNECTED")
    case True
    from pipe_write_loop_ok [OF assms(1), of "of_nat (length d)" d 0] len obtain p' where
      p': "pipe_write_loop p d (of_nat (length d)) 0 = Some (p', of_nat (min (length d) (512 - unat (Count p))))"
        "pipe_inv p'" "State p' = State p" "pipe_bytes p' = pipe_bytes p @ take (512 - unat (Count p)) d"
      by auto
    then show ?thesis
      using True PWrite assms(1) small
      by (auto simp: OwPipeWrite_def pipe_abs_def length_pipe_bytes pipe_inv_def simp del: of_nat_min)
  next
    case False
    then show ?thesis using PWrite assms(1) by (auto simp: OwPipeWrite_def pipe_abs_def)
  qed
next
  case (PRead n)
  have len: "unat (of_nat n :: u32) = n" using assms(2) PRead by (simp add: unat_of_nat)
  have small: "unat (of_nat (min n (unat (Count p))) :: u32) = min n (unat (Count p))"
    using pipe_count_le [OF assms(1)] by (intro unat_of_nat_u32) simp
  from pipe_read_loop_ok [OF assms(1), of "of_nat n" "replicate n 0" 0] len obtain p' out where
    p': "pipe_read_loop p (replicate n 0) (of_nat n) 0 = Some (p', out, of_nat (min n (unat (Count p))))"
      "pipe_inv p'" "State p' = State p" "take (min n (unat (Count p))) out = take n (pipe_bytes p)"
      "pipe_bytes p' = drop n (pipe_bytes p)"
    by auto
  then show ?thesis
    using PRead assms(1) small by (auto simp: OwPipeRead_def pipe_abs_def pipe_inv_def simp del: of_nat_min)
next
  case PDisconnect
  then show ?thesis
    using assms(1) by (auto simp: OwPipeDisconnect_def pipe_abs_def pipe_inv_def pipe_bytes_def)
qed

lemma pipe_run_refines:
  assumes "pipe_inv p" and "\<forall>x \<in> set ops. pipe_op_ok x"
  shows "\<exists>p'. pipe_run (Ref p) ops = Some (fst (stream_run (pipe_abs p) ops), Ref p') \<and> pipe_inv p' \<and>
     pipe_abs p' = snd (stream_run (pipe_abs p) ops)"
  using assms
proof (induction ops arbitrary: p)
  case Nil
  then show ?case by simp
next
  case (Cons x ops)
  from pipe_step_refines [OF Cons.prems(1), of x] Cons.prems(2) obtain p1 where
    p1: "pipe_step (Ref p) x = Some (fst (stream_step (pipe_abs p) x), Ref p1)" "pipe_inv p1"
      "pipe_abs p1 = snd (stream_step (pipe_abs p) x)" by auto
  from Cons.IH [OF p1(2)] Cons.prems(2) show ?case
    by (auto simp: p1(1) p1(3) [symmetric] Let_def case_prod_unfold)
qed

lemma pipe_created:
  "\<exists>p. OwPipeCreate (Ref p0) (Ref n) = (OW_SUCCESS, Ref p) \<and> pipe_inv p \<and> pipe_abs p = (True, []) \<and>
     Name p = take 47 n"
  by (auto simp: OwPipeCreate_def pipe_inv_def pipe_abs_def pipe_bytes_def ring_ok_start)

fun accepted :: "pipe_op list \<Rightarrow> pipe_res list \<Rightarrow> u8 list" where
  "accepted (PWrite d # ops) (Wrote st k # rs) = take k d @ accepted ops rs"
| "accepted (_ # ops) (_ # rs) = accepted ops rs"
| "accepted _ _ = []"

fun returned :: "pipe_res list \<Rightarrow> u8 list" where
  "returned (Received st d # rs) = d @ returned rs"
| "returned (_ # rs) = returned rs"
| "returned [] = []"

lemma stream_conserves:
  "stream_run (c, q) ops = (rs, (c', q')) \<Longrightarrow> q @ accepted ops rs = returned rs @ q'"
proof (induction ops arbitrary: c q rs)
  case (Cons x ops)
  obtain r c1 q1 where 1: "stream_step (c, q) x = (r, (c1, q1))" by (metis prod.exhaust_sel)
  obtain rs' c2 q2 where 2: "stream_run (c1, q1) ops = (rs', (c2, q2))" by (metis prod.exhaust_sel)
  have rs: "rs = r # rs'" "c' = c2" "q' = q2" using Cons.prems by (auto simp: 1 2)
  have IH: "q1 @ accepted ops rs' = returned rs' @ q'" using Cons.IH [of c1 q1 rs'] 2 rs by simp
  show ?case
  proof (cases x)
    case (PWrite d)
    then show ?thesis using 1 IH rs(1) by (auto simp: min_def split: if_splits)
  next
    case (PRead n)
    then have r: "q1 = drop n q" "r = Received OW_SUCCESS (take n q)" using 1 by auto
    have "q @ accepted ops rs' = take n q @ (q1 @ accepted ops rs')"
      unfolding r(1) append_assoc [symmetric] append_take_drop_id ..
    then show ?thesis unfolding IH using PRead rs(1) r(2) by simp
  next
    case PDisconnect
    then show ?thesis using 1 IH rs(1) by auto
  qed
qed simp

section \<open>Properties\<close>

text \<open>C31: a pipe made by \<open>OwPipeCreate\<close> answers every sequence of writes, reads and
  disconnects as a byte stream of at most 512 bytes does, with no access out of range: a write
  takes the bytes that fit and reports their number, a read returns the oldest bytes, and after
  a disconnect every write is refused while reads still drain the stream.\<close>

theorem OwPipe_refines_stream:
  assumes "\<forall>x \<in> set ops. pipe_op_ok x"
  shows "\<exists>p p'. OwPipeCreate (Ref p0) (Ref n) = (OW_SUCCESS, Ref p) \<and>
     pipe_run (Ref p) ops = Some (fst (stream_run (True, []) ops), Ref p') \<and>
     pipe_abs p' = snd (stream_run (True, []) ops)"
proof -
  obtain p where p: "OwPipeCreate (Ref p0) (Ref n) = (OW_SUCCESS, Ref p)" "pipe_inv p"
    "pipe_abs p = (True, [])" using pipe_created [of p0 n] by blast
  from pipe_run_refines [OF p(2) assms] p(1) show ?thesis unfolding p(3) by blast
qed

definition stale_pipe :: OW_NAMED_PIPE where
  "stale_pipe = \<lparr>Name = '''', State = OW_PIPE_STATE_LISTENING, Head = 9, Tail = 0, Count = 3,
     Buffer = [], IsInitialized = False\<rparr>"

theorem OwPipe_refines_stream_witness:
  "\<exists>p p'. OwPipeCreate (Ref stale_pipe) (Ref ''log'') = (OW_SUCCESS, Ref p) \<and>
     pipe_run (Ref p) [PWrite [1, 2, 3], PRead 2, PDisconnect, PWrite [4], PRead 9] =
       Some ([Wrote OW_SUCCESS 3, Received OW_SUCCESS [1, 2], Closed OW_SUCCESS,
              Wrote OW_ERR_PIPE_BROKEN 0, Received OW_SUCCESS [3]], Ref p') \<and>
     pipe_abs p' = (False, [])"
proof -
  let ?ops = "[PWrite [1, 2, 3], PRead 2, PDisconnect, PWrite [4], PRead 9]"
  have "stream_run (True, []) ?ops = ([Wrote OW_SUCCESS 3, Received OW_SUCCESS [1, 2],
      Closed OW_SUCCESS, Wrote OW_ERR_PIPE_BROKEN 0, Received OW_SUCCESS [3]], (False, []))"
    by (simp add: Let_def numeral_3_eq_3)
  then show ?thesis
    using OwPipe_refines_stream [of ?ops stale_pipe "''log''"]
    by (simp del: pipe_run.simps stream_run.simps)
qed

text \<open>no byte is lost, duplicated or reordered in a pipe: whatever the sequence of calls, the
  bytes that the writes accepted are the bytes that the reads returned followed by the bytes
  still in the pipe.\<close>

theorem OwPipe_conserves:
  assumes "\<forall>x \<in> set ops. pipe_op_ok x"
  shows "\<exists>p p' rs. OwPipeCreate (Ref p0) (Ref n) = (OW_SUCCESS, Ref p) \<and>
     pipe_run (Ref p) ops = Some (rs, Ref p') \<and> accepted ops rs = returned rs @ pipe_bytes p'"
proof -
  obtain p where p: "OwPipeCreate (Ref p0) (Ref n) = (OW_SUCCESS, Ref p)" "pipe_inv p"
    "pipe_abs p = (True, [])" using pipe_created [of p0 n] by blast
  obtain rs c q where run: "stream_run (True, []) ops = (rs, (c, q))" by (metis prod.exhaust_sel)
  from pipe_run_refines [OF p(2) assms] obtain p' where
    "pipe_run (Ref p) ops = Some (rs, Ref p')" "pipe_abs p' = (c, q)" unfolding p(3) run by auto
  then show ?thesis using p(1) stream_conserves [OF run] by (auto simp: pipe_abs_def)
qed

theorem OwPipe_conserves_witness:
  "\<exists>p p' rs. OwPipeCreate (Ref stale_pipe) (Ref ''log'') = (OW_SUCCESS, Ref p) \<and>
     pipe_run (Ref p) [PWrite [1, 2, 3], PRead 2] = Some (rs, Ref p') \<and>
     accepted [PWrite [1, 2, 3], PRead 2] rs = returned rs @ pipe_bytes p'"
  using OwPipe_conserves [of "[PWrite [1, 2, 3], PRead 2]" stale_pipe "''log''"]
  by (simp del: pipe_run.simps)

end
