(* ===== verification/Cache.thy ===== *)
theory Cache
  imports Prelude
begin

text \<open>
  The block cache \<open>src/DLL/owcache64/owcache64.c\<close>: a table of entries and a data buffer,
  both provided by the caller, with a clock that stamps every use and an eviction of the entry
  with the oldest stamp. The specification is the list of cached blocks from the most recently
  to the least recently used one; every operation of the code refines its operation on that list.
\<close>

section \<open>Model\<close>

text \<open>The pointer \<open>data\<close> of an entry points into the data buffer: it is an offset there.\<close>

record owcache_entry_t =
  block_index :: u32
  valid :: bool
  dirty :: bool
  last_used :: u64
  data :: nat

record owcache_t =
  entries :: "owcache_entry_t list"
  capacity :: u32
  buffer :: "u8 list"
  block_size :: u32
  clock :: u64
  hits :: u64
  misses :: u64
  evictions :: u64
  flushes :: u64
  initialized :: bool

definition slot_of :: "nat option \<Rightarrow> int" where
  "slot_of r = (case r of None \<Rightarrow> -1 | Some i \<Rightarrow> int i)"

definition cache_find :: "owcache_t \<Rightarrow> u32 \<Rightarrow> int comp" where
  "cache_find cache k =
     do { r \<leftarrow> c_find (\<lambda>e. valid e \<and> block_index e = k) (entries cache) (unat (capacity cache)) 0;
          Some (slot_of r) }"

definition cache_free_slot :: "owcache_t \<Rightarrow> int comp" where
  "cache_free_slot cache =
     do { r \<leftarrow> c_find (\<lambda>e. \<not> valid e) (entries cache) (unat (capacity cache)) 0; Some (slot_of r) }"

function lru_loop :: "owcache_entry_t list \<Rightarrow> nat \<Rightarrow> nat \<Rightarrow> int \<Rightarrow> u64 \<Rightarrow> int comp" where
  "lru_loop es n i victim oldest =
     (if i < n then
        do { e \<leftarrow> c_rd es i;
             if \<not> valid e then lru_loop es n (Suc i) victim oldest
             else if victim < 0 \<or> last_used e < oldest
                  then lru_loop es n (Suc i) (int i) (last_used e)
                  else lru_loop es n (Suc i) victim oldest }
      else Some victim)"
  by pat_completeness auto
termination by (relation "measure (\<lambda>(es, n, i, v, t). n - i)") auto

declare lru_loop.simps [simp del]

definition cache_lru_slot :: "owcache_t \<Rightarrow> int comp" where
  "cache_lru_slot cache = lru_loop (entries cache) (unat (capacity cache)) 0 (-1) 0"

definition cache_copy :: "u8 list \<Rightarrow> nat \<Rightarrow> u8 list \<Rightarrow> u32 \<Rightarrow> u8 list comp" where
  "cache_copy dst off src bytes = c_memcpy dst off src (unat bytes)"

text \<open>The initialisation loop over the entry table.\<close>

definition owcache_init ::
  "owcache_t ptr \<Rightarrow> owcache_entry_t list ptr \<Rightarrow> u32 \<Rightarrow> u8 list ptr \<Rightarrow> u32 \<Rightarrow> (bool \<times> owcache_t ptr) comp" where
  "owcache_init cache es cap buf bs =
     (case (cache, es, buf) of
        (Ref c, Ref es, Ref buf) \<Rightarrow>
          if cap = 0 \<or> bs = 0 then Some (False, cache)
          else do { es' \<leftarrow> c_memcpy es 0
                      (map (\<lambda>i. \<lparr>block_index = 0, valid = False, dirty = False, last_used = 0,
                                 data = i * unat bs\<rparr>) [0..<unat cap]) (unat cap);
                    Some (True, Ref \<lparr>entries = es', capacity = cap, buffer = buf, block_size = bs,
                      clock = 0, hits = 0, misses = 0, evictions = 0, flushes = 0,
                      initialized = True\<rparr>) }
      | _ \<Rightarrow> Some (False, cache))"

definition owcache_lookup :: "owcache_t ptr \<Rightarrow> u32 \<Rightarrow> (int \<times> owcache_t ptr) comp" where
  "owcache_lookup cache k =
     (case cache of NULL \<Rightarrow> Some (-1, cache)
      | Ref c \<Rightarrow>
         if \<not> initialized c then Some (-1, cache)
         else do { slot \<leftarrow> cache_find c k;
                   if slot < 0 then Some (-1, Ref (c\<lparr>misses := misses c + 1\<rparr>))
                   else let c1 = c\<lparr>clock := clock c + 1\<rparr> in
                     do { e \<leftarrow> c_rd (entries c1) (nat slot);
                          es \<leftarrow> c_wr (entries c1) (nat slot) (e\<lparr>last_used := clock c1\<rparr>);
                          Some (slot, Ref (c1\<lparr>entries := es, hits := hits c1 + 1\<rparr>)) } })"

definition owcache_evict :: "owcache_t ptr \<Rightarrow> (int \<times> owcache_t ptr) comp" where
  "owcache_evict cache =
     (case cache of NULL \<Rightarrow> Some (-1, cache)
      | Ref c \<Rightarrow>
         if \<not> initialized c then Some (-1, cache)
         else do { slot \<leftarrow> cache_lru_slot c;
                   if slot < 0 then Some (-1, cache)
                   else do { e \<leftarrow> c_rd (entries c) (nat slot);
                             es \<leftarrow> c_wr (entries c) (nat slot)
                                     (e\<lparr>valid := False, dirty := False, last_used := 0\<rparr>);
                             Some (slot, Ref (c\<lparr>entries := es, evictions := evictions c + 1\<rparr>)) } })"

text \<open>The slot that an insertion uses: the block's own, a free one, or an evicted one.\<close>

definition insert_slot :: "owcache_t \<Rightarrow> u32 \<Rightarrow> (int \<times> owcache_t ptr) comp" where
  "insert_slot c k =
     do { slot \<leftarrow> cache_find c k;
          if slot < 0 then
            do { slot \<leftarrow> cache_free_slot c;
                 if slot < 0 then owcache_evict (Ref c) else Some (slot, Ref c) }
          else Some (slot, Ref c) }"

definition owcache_insert ::
  "owcache_t ptr \<Rightarrow> u32 \<Rightarrow> u8 list ptr \<Rightarrow> bool \<Rightarrow> (int \<times> owcache_t ptr) comp" where
  "owcache_insert cache k src dirt =
     (case (cache, src) of
        (Ref c, Ref d) \<Rightarrow>
          if \<not> initialized c then Some (-1, cache)
          else do { (slot, cache1) \<leftarrow> insert_slot c k;
                    case cache1 of NULL \<Rightarrow> None
                    | Ref c1 \<Rightarrow>
                       if slot < 0 then Some (-1, cache1)
                       else do { e \<leftarrow> c_rd (entries c1) (nat slot);
                                 buf \<leftarrow> cache_copy (buffer c1) (data e) d (block_size c1);
                                 let c2 = c1\<lparr>buffer := buf, clock := clock c1 + 1\<rparr> in
                                 do { es \<leftarrow> c_wr (entries c2) (nat slot)
                                        (e\<lparr>block_index := k, valid := True, dirty := dirt,
                                           last_used := clock c2\<rparr>);
                                      Some (slot, Ref (c2\<lparr>entries := es\<rparr>)) } } }
      | _ \<Rightarrow> Some (-1, cache))"

function cache_flush_loop :: "owcache_t \<Rightarrow> nat \<Rightarrow> u32 \<Rightarrow> (u32 \<times> owcache_t) comp" where
  "cache_flush_loop c i flushed =
     (if i < unat (capacity c) then
        do { e \<leftarrow> c_rd (entries c) i;
             if valid e \<and> dirty e then
               do { es \<leftarrow> c_wr (entries c) i (e\<lparr>dirty := False\<rparr>);
                    cache_flush_loop (c\<lparr>entries := es, flushes := flushes c + 1\<rparr>) (Suc i) (flushed + 1) }
             else cache_flush_loop c (Suc i) flushed }
      else Some (flushed, c))"
  by pat_completeness auto
termination by (relation "measure (\<lambda>(c, i, f). unat (capacity c) - i)") auto

declare cache_flush_loop.simps [simp del]

definition owcache_flush :: "owcache_t ptr \<Rightarrow> (u32 \<times> owcache_t ptr) comp" where
  "owcache_flush cache =
     (case cache of NULL \<Rightarrow> Some (0, cache)
      | Ref c \<Rightarrow> if \<not> initialized c then Some (0, cache)
                 else do { (n, c') \<leftarrow> cache_flush_loop c 0 0; Some (n, Ref c') })"

section \<open>Slots in order of use\<close>

text \<open>
  \<open>sl\<close> lists the slots in use from the most recently used one. The stamps strictly decrease
  along it, each slot has its own block of the buffer, and no block is cached twice.
\<close>

definition cache_shape :: "owcache_t \<Rightarrow> bool" where
  "cache_shape c \<longleftrightarrow>
     initialized c \<and> capacity c \<noteq> 0 \<and> block_size c \<noteq> 0 \<and> unat (capacity c) \<le> length (entries c) \<and>
     unat (capacity c) * unat (block_size c) \<le> length (buffer c) \<and>
     (\<forall>i < unat (capacity c). data (entries c ! i) = i * unat (block_size c))"

definition cache_order :: "owcache_t \<Rightarrow> nat list \<Rightarrow> bool" where
  "cache_order c sl \<longleftrightarrow>
     distinct sl \<and> set sl = {i. i < unat (capacity c) \<and> valid (entries c ! i)} \<and>
     sorted_wrt (\<lambda>i j. last_used (entries c ! j) < last_used (entries c ! i)) sl \<and>
     distinct (map (\<lambda>i. block_index (entries c ! i)) sl) \<and>
     (\<forall>i \<in> set sl. last_used (entries c ! i) \<le> clock c)"

definition slot_data :: "owcache_t \<Rightarrow> nat \<Rightarrow> u8 list" where
  "slot_data c i = take (unat (block_size c)) (drop (i * unat (block_size c)) (buffer c))"

definition slot_abs :: "owcache_t \<Rightarrow> nat \<Rightarrow> u32 \<times> u8 list \<times> bool" where
  "slot_abs c i = (block_index (entries c ! i), slot_data c i, dirty (entries c ! i))"

definition cache_abs :: "owcache_t \<Rightarrow> nat list \<Rightarrow> (u32 \<times> u8 list \<times> bool) list" where
  "cache_abs c sl = map (slot_abs c) sl"

lemma cache_shapeD:
  assumes "cache_shape c"
  shows "initialized c" and "capacity c \<noteq> 0" and "unat (capacity c) \<le> length (entries c)"
    and "i < unat (capacity c) \<Longrightarrow> i < length (entries c)"
    and "i < unat (capacity c) \<Longrightarrow> data (entries c ! i) = i * unat (block_size c)"
    and "i < unat (capacity c) \<Longrightarrow> i * unat (block_size c) + unat (block_size c) \<le> length (buffer c)"
proof -
  show "initialized c" "capacity c \<noteq> 0" "unat (capacity c) \<le> length (entries c)"
    "i < unat (capacity c) \<Longrightarrow> i < length (entries c)"
    "i < unat (capacity c) \<Longrightarrow> data (entries c ! i) = i * unat (block_size c)"
    using assms by (auto simp: cache_shape_def)
  assume "i < unat (capacity c)"
  then have "Suc i * unat (block_size c) \<le> unat (capacity c) * unat (block_size c)"
    by (intro mult_le_mono1) simp
  also have "\<dots> \<le> length (buffer c)" using assms by (auto simp: cache_shape_def)
  finally show "i * unat (block_size c) + unat (block_size c) \<le> length (buffer c)" by simp
qed

lemma cache_orderD:
  assumes "cache_order c sl"
  shows "distinct sl" and "i \<in> set sl \<longleftrightarrow> i < unat (capacity c) \<and> valid (entries c ! i)"
    and "i \<in> set sl \<Longrightarrow> j \<in> set sl \<Longrightarrow> block_index (entries c ! i) = block_index (entries c ! j) \<Longrightarrow> i = j"
  using assms by (auto simp: cache_order_def distinct_map inj_on_def)

text \<open>Using slot \<open>i\<close>: it moves to the front, the others keep their order and contents.\<close>

lemma cache_promote:
  assumes shape: "cache_shape c" and order: "cache_order c sl" and i: "i < unat (capacity c)"
    and clk: "Suc (unat (clock c)) < 2 ^ 64"
    and e: "valid e" "last_used e = clock c + 1" "data e = data (entries c ! i)"
    and keys: "\<And>j. j \<in> set sl \<Longrightarrow> j \<noteq> i \<Longrightarrow> block_index (entries c ! j) \<noteq> block_index e"
    and buf: "length buf = length (buffer c)"
      "\<And>j. j < unat (capacity c) \<Longrightarrow> j \<noteq> i \<Longrightarrow>
         take (unat (block_size c)) (drop (j * unat (block_size c)) buf) = slot_data c j"
    and c': "c' = c\<lparr>buffer := buf, clock := clock c + 1, entries := (entries c)[i := e], hits := h\<rparr>"
  shows "cache_shape c' \<and> cache_order c' (i # removeAll i sl) \<and>
     cache_abs c' (i # removeAll i sl) =
       (block_index e, take (unat (block_size c)) (drop (i * unat (block_size c)) buf), dirty e) #
       cache_abs c (removeAll i sl)"
proof (intro conjI)
  have len: "i < length (entries c)" using cache_shapeD(4) [OF shape i] .
  have clk1: "unat (clock c + 1) = Suc (unat (clock c))" using clk by (intro unat_add1) simp
  have same: "entries c' ! j = entries c ! j" if "j \<noteq> i" for j using that by (simp add: c')
  have this_one: "entries c' ! i = e" using len by (simp add: c')
  show "cache_shape c'"
    using shape e buf(1) len by (auto simp: cache_shape_def c' nth_list_update)
  have ord: "distinct sl" "set sl = {i. i < unat (capacity c) \<and> valid (entries c ! i)}"
    "sorted_wrt (\<lambda>i j. last_used (entries c ! j) < last_used (entries c ! i)) sl"
    "distinct (map (\<lambda>i. block_index (entries c ! i)) sl)"
    "\<forall>i \<in> set sl. last_used (entries c ! i) \<le> clock c"
    using order by (simp_all add: cache_order_def)
  have old: "last_used (entries c ! j) < clock c + 1" if "j \<in> set sl" for j
    using ord(5) that clk1 by (auto simp: word_less_nat_alt word_le_nat_alt)
  have tl: "sorted_wrt (\<lambda>i j. last_used (entries c' ! j) < last_used (entries c' ! i)) (removeAll i sl)"
  proof -
    have "sorted_wrt (\<lambda>i j. last_used (entries c ! j) < last_used (entries c ! i)) (removeAll i sl)"
      using ord(3) by (simp add: removeAll_filter_not_eq sorted_wrt_filter)
    then show ?thesis by (rule sorted_wrt_mono_rel [rotated]) (auto simp: same)
  qed
  show "cache_order c' (i # removeAll i sl)"
    unfolding cache_order_def
  proof (intro conjI)
    show "distinct (i # removeAll i sl)" using ord(1) by (simp add: distinct_removeAll)
    show "set (i # removeAll i sl) = {i. i < unat (capacity c') \<and> valid (entries c' ! i)}"
    proof (rule set_eqI)
      fix j
      have "capacity c' = capacity c" by (simp add: c')
      then show "j \<in> set (i # removeAll i sl) \<longleftrightarrow> j \<in> {i. i < unat (capacity c') \<and> valid (entries c' ! i)}"
        using i e(1) by (cases "j = i") (simp_all add: this_one same ord(2))
    qed
    show "sorted_wrt (\<lambda>i j. last_used (entries c' ! j) < last_used (entries c' ! i)) (i # removeAll i sl)"
      using tl old e(2) this_one by (auto simp: same)
    have "distinct (map (\<lambda>i. block_index (entries c' ! i)) (removeAll i sl))"
      using ord(1,4) unfolding distinct_map inj_on_def
      by (simp add: same distinct_removeAll)
    then show "distinct (map (\<lambda>i. block_index (entries c' ! i)) (i # removeAll i sl))"
    proof -
      assume d: "distinct (map (\<lambda>i. block_index (entries c' ! i)) (removeAll i sl))"
      have "block_index (entries c' ! j) \<noteq> block_index e" if "j \<in> set (removeAll i sl)" for j
        using keys [of j] that same [of j] by simp
      then have "block_index e \<notin> set (map (\<lambda>i. block_index (entries c' ! i)) (removeAll i sl))" by force
      then show ?thesis using d this_one by simp
    qed
    show "\<forall>j \<in> set (i # removeAll i sl). last_used (entries c' ! j) \<le> clock c'"
    proof
      fix j assume "j \<in> set (i # removeAll i sl)"
      then have "last_used (entries c' ! j) \<le> clock c + 1"
        using old [of j] same [of j] e(2) this_one by (cases "j = i") simp_all
      then show "last_used (entries c' ! j) \<le> clock c'" by (simp add: c')
    qed
  qed
  have flds: "block_size c' = block_size c" "buffer c' = buf" by (simp_all add: c')
  have "slot_abs c' j = slot_abs c j" if "j \<in> set (removeAll i sl)" for j
    using that ord(2) buf(2) [of j] same [of j] by (simp add: slot_abs_def slot_data_def flds)
  then have "map (slot_abs c') (removeAll i sl) = map (slot_abs c) (removeAll i sl)" by simp
  then show "cache_abs c' (i # removeAll i sl) =
       (block_index e, take (unat (block_size c)) (drop (i * unat (block_size c)) buf), dirty e) #
       cache_abs c (removeAll i sl)"
    by (simp add: cache_abs_def) (simp add: slot_abs_def slot_data_def flds this_one)
qed

section \<open>The searches\<close>

lemma cache_find_eq:
  assumes "cache_shape c"
  shows "cache_find c k = Some (slot_of (first_index (\<lambda>e. valid e \<and> block_index e = k)
     (take (unat (capacity c)) (entries c))))"
  using cache_shapeD(3) [OF assms] by (simp add: cache_find_def c_find_eq)

lemma cache_find_hit:
  assumes "cache_shape c" and "cache_order c sl" and "i \<in> set sl" and "block_index (entries c ! i) = k"
  shows "cache_find c k = Some (int i)"
proof -
  note ord = cache_orderD [OF assms(2)]
  have "first_index (\<lambda>e. valid e \<and> block_index e = k) (take (unat (capacity c)) (entries c)) = Some i"
    using assms ord(2) [of i] cache_shapeD(3) [OF assms(1)]
    by (intro first_index_unique) (auto simp: ord(2) intro!: ord(3))
  then show ?thesis unfolding cache_find_eq [OF assms(1)] by (simp add: slot_of_def)
qed

lemma cache_find_miss:
  assumes "cache_shape c" and "cache_order c sl" and "\<forall>i \<in> set sl. block_index (entries c ! i) \<noteq> k"
  shows "cache_find c k = Some (-1)"
proof -
  have "first_index (\<lambda>e. valid e \<and> block_index e = k) (take (unat (capacity c)) (entries c)) = None"
    using assms(3) cache_orderD(2) [OF assms(2)]
    unfolding first_index_take_None [OF cache_shapeD(3) [OF assms(1)]] by blast
  then show ?thesis unfolding cache_find_eq [OF assms(1)] by (simp add: slot_of_def)
qed

lemma cache_order_length:
  assumes "cache_order c sl"
  shows "length sl \<le> unat (capacity c)"
proof -
  have "length sl = card (set sl)" using cache_orderD(1) [OF assms] by (simp add: distinct_card)
  also have "\<dots> \<le> card {..< unat (capacity c)}"
    using assms by (intro card_mono) (auto simp: cache_order_def)
  finally show ?thesis by simp
qed

text \<open>There is a free slot exactly when fewer blocks than the capacity are cached.\<close>

lemma cache_free_slot_some:
  assumes "cache_shape c" and "cache_order c sl" and "length sl < unat (capacity c)"
  shows "\<exists>i. cache_free_slot c = Some (int i) \<and> i < unat (capacity c) \<and> i \<notin> set sl"
proof -
  have "card (set sl) < card {..< unat (capacity c)}"
    using assms cache_orderD(1) [OF assms(2)] by (simp add: distinct_card)
  then have "\<not> {..< unat (capacity c)} \<subseteq> set sl" by (meson List.finite_set card_mono not_le)
  then obtain j where j: "j < unat (capacity c)" "j \<notin> set sl" by auto
  let ?es = "take (unat (capacity c)) (entries c)"
  have "j < length ?es" "\<not> valid (?es ! j)"
    using j cache_orderD(2) [OF assms(2), of j] cache_shapeD(4) [OF assms(1) j(1)] by auto
  then obtain i where i: "first_index (\<lambda>e. \<not> valid e) ?es = Some i"
    using first_index_exists [of j ?es "\<lambda>e. \<not> valid e"] by blast
  from first_index_SomeD [OF i] have "i < unat (capacity c)" "i \<notin> set sl"
    using cache_orderD(2) [OF assms(2), of i] by auto
  moreover have "cache_free_slot c = Some (int i)"
    using i cache_shapeD(3) [OF assms(1)] by (simp add: cache_free_slot_def c_find_eq slot_of_def)
  ultimately show ?thesis by blast
qed

lemma cache_free_slot_none:
  assumes "cache_shape c" and "cache_order c sl" and "\<not> length sl < unat (capacity c)"
  shows "cache_free_slot c = Some (-1)"
proof -
  have "set sl = {..< unat (capacity c)}"
  proof (rule card_subset_eq)
    show "set sl \<subseteq> {..< unat (capacity c)}" using cache_orderD(2) [OF assms(2)] by auto
    show "card (set sl) = card {..< unat (capacity c)}"
      using assms(3) cache_orderD(1) [OF assms(2)] cache_order_length [OF assms(2)]
      by (simp add: distinct_card)
  qed simp
  then have "first_index (\<lambda>e. \<not> valid e) (take (unat (capacity c)) (entries c)) = None"
    using cache_orderD(2) [OF assms(2)]
    unfolding first_index_take_None [OF cache_shapeD(3) [OF assms(1)]] by blast
  then show ?thesis
    using cache_shapeD(3) [OF assms(1)] by (simp add: cache_free_slot_def c_find_eq slot_of_def)
qed

text \<open>The victim loop keeps the valid entry with the oldest stamp seen so far.\<close>

definition oldest_upto :: "owcache_entry_t list \<Rightarrow> nat \<Rightarrow> int \<Rightarrow> u64 \<Rightarrow> bool" where
  "oldest_upto es n v t \<longleftrightarrow>
     (if v < 0 then v = -1 \<and> (\<forall>i < n. \<not> valid (es ! i))
      else nat v < n \<and> valid (es ! nat v) \<and> t = last_used (es ! nat v) \<and>
           (\<forall>i < n. valid (es ! i) \<longrightarrow> t \<le> last_used (es ! i)))"

lemma oldest_upto_skip: "oldest_upto es i v t \<Longrightarrow> \<not> valid (es ! i) \<Longrightarrow> oldest_upto es (Suc i) v t"
  by (auto simp: oldest_upto_def less_Suc_eq split: if_splits)

lemma oldest_upto_keep:
  "oldest_upto es i v t \<Longrightarrow> \<not> (v < 0 \<or> last_used (es ! i) < t) \<Longrightarrow> oldest_upto es (Suc i) v t"
  by (auto simp: oldest_upto_def less_Suc_eq not_less)

lemma oldest_upto_new:
  "oldest_upto es i v t \<Longrightarrow> valid (es ! i) \<Longrightarrow> v < 0 \<or> last_used (es ! i) < t \<Longrightarrow>
     oldest_upto es (Suc i) (int i) (last_used (es ! i))"
  by (auto simp: oldest_upto_def less_Suc_eq split: if_splits)

lemma lru_loop_oldest:
  assumes "n \<le> length es" and "i \<le> n" and "oldest_upto es i v t"
  shows "\<exists>v' t'. lru_loop es n i v t = Some v' \<and> oldest_upto es n v' t'"
  using assms
proof (induction es n i v t rule: lru_loop.induct)
  case (1 es n i v t)
  show ?case
  proof (cases "i < n")
    case False
    then show ?thesis using "1.prems" by (subst lru_loop.simps) auto
  next
    case True
    have rd: "c_rd es i = Some (es ! i)" using True "1.prems"(1) by simp
    have Suc: "Suc i \<le> n" using True by simp
    show ?thesis
      using "1.IH"(1) [OF True rd _ "1.prems"(1) Suc] "1.IH"(2) [OF True rd _ _ "1.prems"(1) Suc]
        "1.IH"(3) [OF True rd _ _ "1.prems"(1) Suc] oldest_upto_skip [OF "1.prems"(3)]
        oldest_upto_keep [OF "1.prems"(3)] oldest_upto_new [OF "1.prems"(3)] rd True
      by (subst lru_loop.simps) auto
  qed
qed

lemma cache_lru_slot_last:
  assumes "cache_shape c" and "cache_order c sl" and "sl \<noteq> []"
  shows "cache_lru_slot c = Some (int (last sl))"
proof -
  let ?n = "unat (capacity c)" and ?es = "entries c"
  from lru_loop_oldest [OF cache_shapeD(3) [OF assms(1)], of 0 "-1" 0] obtain v t where
    v: "lru_loop ?es ?n 0 (-1) 0 = Some v" "oldest_upto ?es ?n v t"
    by (auto simp: oldest_upto_def)
  note ord = cache_orderD(2) [OF assms(2)]
  have lst: "last sl \<in> set sl" using assms(3) by simp
  have "\<not> v < 0" using v(2) lst ord [of "last sl"] by (auto simp: oldest_upto_def)
  then have nv: "nat v \<in> set sl" and le: "last_used (?es ! nat v) \<le> last_used (?es ! last sl)"
    using v(2) lst ord [of "last sl"] ord [of "nat v"] unfolding oldest_upto_def by (simp_all, blast)
  have "nat v = last sl"
  proof (rule ccontr)
    assume neq: "nat v \<noteq> last sl"
    have sl: "sl = butlast sl @ [last sl]" using assms(3) by simp
    moreover have "set sl = insert (last sl) (set (butlast sl))" by (subst sl) simp
    ultimately have "nat v \<in> set (butlast sl)" using nv neq by blast
    moreover have "sorted_wrt (\<lambda>i j. last_used (?es ! j) < last_used (?es ! i)) (butlast sl @ [last sl])"
      using assms(2) sl by (simp add: cache_order_def)
    ultimately have "last_used (?es ! last sl) < last_used (?es ! nat v)"
      by (simp add: sorted_wrt_append)
    then show False using le by simp
  qed
  then show ?thesis using v(1) \<open>\<not> v < 0\<close> by (simp add: cache_lru_slot_def)
qed

section \<open>The specification: a list in order of use\<close>

type_synonym block = "u32 \<times> u8 list \<times> bool"

definition lru_get :: "u32 \<Rightarrow> block list \<Rightarrow> u8 list option \<times> block list" where
  "lru_get k L = (case find (\<lambda>x. fst x = k) L of
     None \<Rightarrow> (None, L) | Some x \<Rightarrow> (Some (fst (snd x)), x # filter (\<lambda>y. fst y \<noteq> k) L))"

definition lru_put :: "nat \<Rightarrow> block \<Rightarrow> block list \<Rightarrow> block list" where
  "lru_put n x L = x # (if fst x \<in> fst ` set L then filter (\<lambda>y. fst y \<noteq> fst x) L
                        else if length L < n then L else butlast L)"

definition lru_evict :: "block list \<Rightarrow> u32 option \<times> block list" where
  "lru_evict L = (if L = [] then None else Some (fst (last L)), butlast L)"

definition lru_flush :: "block list \<Rightarrow> nat \<times> block list" where
  "lru_flush L = (length (filter (\<lambda>x. snd (snd x)) L), map (\<lambda>x. (fst x, fst (snd x), False)) L)"

section \<open>Operations\<close>

lemma cache_abs_remove:
  assumes "cache_order c sl" and "i \<in> set sl" and "block_index (entries c ! i) = k"
  shows "cache_abs c (removeAll i sl) = filter (\<lambda>y. fst y \<noteq> k) (cache_abs c sl)"
proof -
  have "(j \<noteq> i) = (block_index (entries c ! j) \<noteq> k)" if "j \<in> set sl" for j
    using cache_orderD(3) [OF assms(1) that assms(2)] assms(3) by auto
  then have "filter (\<lambda>j. i \<noteq> j) sl = filter (\<lambda>j. block_index (entries c ! j) \<noteq> k) sl"
    by (intro filter_cong) auto
  then show ?thesis
    by (simp add: removeAll_filter_not_eq cache_abs_def filter_map comp_def slot_abs_def)
qed

lemma cache_abs_find:
  assumes "cache_order c sl" and "i \<in> set sl" and "block_index (entries c ! i) = k"
  shows "find (\<lambda>x. fst x = k) (cache_abs c sl) = Some (slot_abs c i)"
proof -
  have "\<exists>x. find (\<lambda>x. fst x = k) (cache_abs c sl) = Some x"
    using assms(2,3) by (cases "find (\<lambda>x. fst x = k) (cache_abs c sl)")
      (auto simp: find_None_iff cache_abs_def slot_abs_def)
  then obtain x where x: "find (\<lambda>x. fst x = k) (cache_abs c sl) = Some x" by blast
  then have "x \<in> set (cache_abs c sl)" "fst x = k" by (auto simp: find_Some_iff)
  then obtain j where j: "j \<in> set sl" "x = slot_abs c j" "block_index (entries c ! j) = k"
    by (auto simp: cache_abs_def slot_abs_def)
  have "j = i" using cache_orderD(3) [OF assms(1) j(1) assms(2)] j(3) assms(3) by simp
  then show ?thesis using x j(2) by simp
qed

lemma lookup_miss:
  assumes "cache_shape c" and "cache_order c sl" and "\<forall>i \<in> set sl. block_index (entries c ! i) \<noteq> k"
  shows "\<exists>c'. owcache_lookup (Ref c) k = Some (-1, Ref c') \<and> cache_shape c' \<and> cache_order c' sl \<and>
     cache_abs c' sl = cache_abs c sl \<and> clock c' = clock c \<and> capacity c' = capacity c \<and>
     block_size c' = block_size c"
  using cache_find_miss [OF assms] assms(1,2)
  by (auto simp: owcache_lookup_def cache_shape_def cache_order_def cache_abs_def slot_abs_def slot_data_def)

lemma lookup_hit:
  assumes "cache_shape c" and "cache_order c sl" and "i \<in> set sl" and "block_index (entries c ! i) = k"
    and "Suc (unat (clock c)) < 2 ^ 64"
  shows "\<exists>c'. owcache_lookup (Ref c) k = Some (int i, Ref c') \<and> cache_shape c' \<and>
     cache_order c' (i # removeAll i sl) \<and>
     cache_abs c' (i # removeAll i sl) = slot_abs c i # filter (\<lambda>y. fst y \<noteq> k) (cache_abs c sl) \<and>
     clock c' = clock c + 1 \<and> capacity c' = capacity c \<and> block_size c' = block_size c"
proof -
  note ord = cache_orderD [OF assms(2)]
  have i: "i < unat (capacity c)" "valid (entries c ! i)" using ord(2) [of i] assms(3) by auto
  note len = cache_shapeD(4) [OF assms(1) i(1)]
  let ?e = "(entries c ! i)\<lparr>last_used := clock c + 1\<rparr>"
  let ?c = "c\<lparr>clock := clock c + 1, entries := (entries c)[i := ?e], hits := hits c + 1\<rparr>"
  have "owcache_lookup (Ref c) k = Some (int i, Ref ?c)"
    using cache_find_hit [OF assms(1-4)] cache_shapeD(1) [OF assms(1)] len
    by (simp add: owcache_lookup_def)
  moreover have "cache_shape ?c \<and> cache_order ?c (i # removeAll i sl) \<and>
     cache_abs ?c (i # removeAll i sl) =
       (block_index ?e, take (unat (block_size c)) (drop (i * unat (block_size c)) (buffer c)), dirty ?e) #
       cache_abs c (removeAll i sl)"
  proof (rule cache_promote [OF assms(1,2) i(1) assms(5)])
    show "block_index (entries c ! j) \<noteq> block_index ?e" if "j \<in> set sl" "j \<noteq> i" for j
      using ord(3) [OF that(1) assms(3)] that(2) by auto
    show "?c = c\<lparr>buffer := buffer c, clock := clock c + 1, entries := (entries c)[i := ?e], hits := hits c + 1\<rparr>"
      by simp
  qed (use i in \<open>simp_all add: slot_data_def\<close>)
  ultimately show ?thesis
    using cache_abs_remove [OF assms(2-4)] by (simp add: slot_abs_def slot_data_def)
qed

lemma evict_empty:
  assumes "cache_shape c" and "cache_order c []"
  shows "owcache_evict (Ref c) = Some (-1, Ref c)"
proof -
  from lru_loop_oldest [OF cache_shapeD(3) [OF assms(1)], of 0 "-1" 0] obtain v t where
    v: "lru_loop (entries c) (unat (capacity c)) 0 (-1) 0 = Some v"
      "oldest_upto (entries c) (unat (capacity c)) v t"
    by (auto simp: oldest_upto_def)
  have "v < 0" using v(2) cache_orderD(2) [OF assms(2), of "nat v"] by (auto simp: oldest_upto_def split: if_splits)
  then show ?thesis using v cache_shapeD(1) [OF assms(1)] by (simp add: owcache_evict_def cache_lru_slot_def)
qed

lemma evict_last:
  assumes "cache_shape c" and "cache_order c sl" and "sl \<noteq> []"
  shows "\<exists>c'. owcache_evict (Ref c) = Some (int (last sl), Ref c') \<and> cache_shape c' \<and>
     cache_order c' (butlast sl) \<and> cache_abs c' (butlast sl) = butlast (cache_abs c sl) \<and>
     block_index (entries c' ! last sl) = block_index (entries c ! last sl) \<and>
     clock c' = clock c \<and> capacity c' = capacity c \<and> block_size c' = block_size c"
proof -
  let ?i = "last sl"
  have sl: "sl = butlast sl @ [?i]" using assms(3) by simp
  have mem: "?i \<in> set sl" using assms(3) by simp
  note ord = cache_orderD [OF assms(2)]
  have i: "?i < unat (capacity c)" using ord(2) [of ?i] mem by simp
  note len = cache_shapeD(4) [OF assms(1) i]
  let ?e = "(entries c ! ?i)\<lparr>valid := False, dirty := False, last_used := 0\<rparr>"
  let ?c = "c\<lparr>entries := (entries c)[?i := ?e], evictions := evictions c + 1\<rparr>"
  have run: "owcache_evict (Ref c) = Some (int ?i, Ref ?c)"
    using cache_lru_slot_last [OF assms] cache_shapeD(1) [OF assms(1)] len
    by (simp add: owcache_evict_def)
  have notin: "?i \<notin> set (butlast sl)" using ord(1) assms(3) by (rule last_not_butlast)
  have sub: "set sl = insert ?i (set (butlast sl))" by (subst sl) simp
  have same: "entries ?c ! j = entries c ! j" if "j \<noteq> ?i" for j using that by simp
  have same': "entries ?c ! j = entries c ! j" if "j \<in> set (butlast sl)" for j
    using that notin by (intro same) auto
  have shape: "cache_shape ?c" using assms(1) len by (auto simp: cache_shape_def nth_list_update)
  have full: "sorted_wrt (\<lambda>i j. last_used (entries c ! j) < last_used (entries c ! i)) (butlast sl @ [?i])"
    "distinct (map (\<lambda>i. block_index (entries c ! i)) (butlast sl @ [?i]))"
    "\<forall>i \<in> set sl. last_used (entries c ! i) \<le> clock c"
    using assms(2) sl by (simp_all add: cache_order_def)
  have "cache_order ?c (butlast sl)"
    unfolding cache_order_def
  proof (intro conjI)
    show "distinct (butlast sl)" using ord(1) by (rule distinct_butlast)
    show "set (butlast sl) = {i. i < unat (capacity ?c) \<and> valid (entries ?c ! i)}"
    proof (rule set_eqI)
      fix j
      have "j \<in> set (butlast sl) \<longleftrightarrow> j \<in> set sl \<and> j \<noteq> ?i" using sub notin by auto
      then show "j \<in> set (butlast sl) \<longleftrightarrow> j \<in> {i. i < unat (capacity ?c) \<and> valid (entries ?c ! i)}"
        using ord(2) [of j] len by (cases "j = ?i") simp_all
    qed
    have "sorted_wrt (\<lambda>i j. last_used (entries c ! j) < last_used (entries c ! i)) (butlast sl)"
      using full(1) by (simp add: sorted_wrt_append)
    then show "sorted_wrt (\<lambda>i j. last_used (entries ?c ! j) < last_used (entries ?c ! i)) (butlast sl)"
      by (rule sorted_wrt_mono_rel [rotated]) (simp only: same')
    have "map (\<lambda>i. block_index (entries ?c ! i)) (butlast sl) = map (\<lambda>i. block_index (entries c ! i)) (butlast sl)"
      by (rule map_cong [OF refl]) (simp only: same')
    then show "distinct (map (\<lambda>i. block_index (entries ?c ! i)) (butlast sl))"
      using full(2) by (simp only: map_append distinct_append)
    show "\<forall>i \<in> set (butlast sl). last_used (entries ?c ! i) \<le> clock ?c"
    proof
      fix j assume j: "j \<in> set (butlast sl)"
      then have "last_used (entries c ! j) \<le> clock c" using full(3) sub by blast
      then show "last_used (entries ?c ! j) \<le> clock ?c" unfolding same' [OF j] by simp
    qed
  qed
  moreover have "cache_abs ?c (butlast sl) = butlast (cache_abs c sl)"
  proof -
    have "slot_abs ?c j = slot_abs c j" if "j \<in> set (butlast sl)" for j
      unfolding slot_abs_def same' [OF that] by (simp add: slot_data_def)
    then show ?thesis by (simp add: cache_abs_def map_butlast [symmetric])
  qed
  moreover have "block_index (entries ?c ! ?i) = block_index (entries c ! ?i)" using len by simp
  ultimately show ?thesis using run shape by (intro exI [of _ ?c]) simp
qed

text \<open>The copy fills block \<open>i\<close> of the buffer and no other.\<close>

lemma block_copy:
  assumes "i * b + b \<le> length buf" and "length d = b"
  shows "c_memcpy buf (i * b) d b = Some (take (i * b) buf @ d @ drop (i * b + b) buf)"
    and "take b (drop (i * b) (take (i * b) buf @ d @ drop (i * b + b) buf)) = d"
    and "j \<noteq> i \<Longrightarrow> take b (drop (j * b) (take (i * b) buf @ d @ drop (i * b + b) buf)) = take b (drop (j * b) buf)"
proof -
  show "c_memcpy buf (i * b) d b = Some (take (i * b) buf @ d @ drop (i * b + b) buf)"
    using assms by (simp add: c_memcpy_def)
  show "take b (drop (i * b) (take (i * b) buf @ d @ drop (i * b + b) buf)) = d"
    using assms by simp
  assume "j \<noteq> i"
  then consider "Suc j * b \<le> i * b" | "Suc i * b \<le> j * b"
    by (metis Suc_leI linorder_neqE_nat mult_le_mono1)
  then show "take b (drop (j * b) (take (i * b) buf @ d @ drop (i * b + b) buf)) = take b (drop (j * b) buf)"
  proof cases
    case 1
    have "take b (drop (j * b) (take (i * b) buf @ d @ drop (i * b + b) buf)) =
      take b (drop (j * b) (take (i * b) buf))" using 1 assms by simp
    also have "\<dots> = take b (take (i * b - j * b) (drop (j * b) buf))" by (simp add: drop_take)
    also have "\<dots> = take b (drop (j * b) buf)" using 1 by (simp add: min_def)
    finally show ?thesis .
  next
    case 2
    then have "i * b \<le> j * b" unfolding mult_Suc by linarith
    then show ?thesis using 2 assms by (simp add: add.commute)
  qed
qed

lemma insert_at:
  assumes "insert_slot c0 k = Some (int i, Ref c)" and "initialized c0"
    and "cache_shape c" and "cache_order c sl" and "i < unat (capacity c)"
    and "\<And>j. j \<in> set sl \<Longrightarrow> j \<noteq> i \<Longrightarrow> block_index (entries c ! j) \<noteq> k"
    and "Suc (unat (clock c)) < 2 ^ 64" and "length d = unat (block_size c)"
  shows "\<exists>c'. owcache_insert (Ref c0) k (Ref d) dirt = Some (int i, Ref c') \<and> cache_shape c' \<and>
     cache_order c' (i # removeAll i sl) \<and>
     cache_abs c' (i # removeAll i sl) = (k, d, dirt) # cache_abs c (removeAll i sl) \<and>
     clock c' = clock c + 1 \<and> capacity c' = capacity c \<and> block_size c' = block_size c"
proof -
  let ?b = "unat (block_size c)"
  note shp = cache_shapeD [OF assms(3)]
  note blk = block_copy [OF shp(6) [OF assms(5)] assms(8)]
  let ?buf = "take (i * ?b) (buffer c) @ d @ drop (i * ?b + ?b) (buffer c)"
  let ?e = "(entries c ! i)\<lparr>block_index := k, valid := True, dirty := dirt, last_used := clock c + 1\<rparr>"
  let ?c = "c\<lparr>buffer := ?buf, clock := clock c + 1, entries := (entries c)[i := ?e]\<rparr>"
  have "owcache_insert (Ref c0) k (Ref d) dirt = Some (int i, Ref ?c)"
    using assms(1,2) shp(4) [OF assms(5)] shp(5) [OF assms(5)] blk(1)
    by (simp add: owcache_insert_def cache_copy_def Let_def)
  moreover have "cache_shape ?c \<and> cache_order ?c (i # removeAll i sl) \<and>
     cache_abs ?c (i # removeAll i sl) =
       (block_index ?e, take ?b (drop (i * ?b) ?buf), dirty ?e) # cache_abs c (removeAll i sl)"
  proof (rule cache_promote [OF assms(3,4,5,7)])
    show "?c = c\<lparr>buffer := ?buf, clock := clock c + 1, entries := (entries c)[i := ?e], hits := hits c\<rparr>"
      by simp
    show "length ?buf = length (buffer c)" using shp(6) [OF assms(5)] assms(8) by simp
    show "take ?b (drop (j * ?b) ?buf) = slot_data c j" if "j < unat (capacity c)" "j \<noteq> i" for j
      using blk(3) [OF that(2)] by (simp add: slot_data_def)
    show "block_index (entries c ! j) \<noteq> block_index ?e" if "j \<in> set sl" "j \<noteq> i" for j
      using assms(6) [OF that] by simp
  qed simp_all
  ultimately show ?thesis using blk(2) by simp
qed

lemma insert_refines:
  assumes "cache_shape c" and "cache_order c sl" and "Suc (unat (clock c)) < 2 ^ 64"
    and "length d = unat (block_size c)"
  shows "\<exists>c' sl' i. owcache_insert (Ref c) k (Ref d) dirt = Some (int i, Ref c') \<and> cache_shape c' \<and>
     cache_order c' sl' \<and> cache_abs c' sl' = lru_put (unat (capacity c)) (k, d, dirt) (cache_abs c sl) \<and>
     clock c' = clock c + 1 \<and> capacity c' = capacity c \<and> block_size c' = block_size c"
proof -
  have keys: "k \<in> fst ` set (cache_abs c sl) \<longleftrightarrow> (\<exists>i \<in> set sl. block_index (entries c ! i) = k)"
    by (auto simp: cache_abs_def slot_abs_def image_iff)
  have len: "length (cache_abs c sl) = length sl" by (simp add: cache_abs_def)
  show ?thesis
  proof (cases "\<exists>i \<in> set sl. block_index (entries c ! i) = k")
    case True
    then obtain i where i: "i \<in> set sl" "block_index (entries c ! i) = k" by blast
    have "insert_slot c k = Some (int i, Ref c)"
      using cache_find_hit [OF assms(1,2) i] by (simp add: insert_slot_def)
    moreover have "i < unat (capacity c)" using i cache_orderD(2) [OF assms(2), of i] by simp
    moreover have "block_index (entries c ! j) \<noteq> k" if "j \<in> set sl" "j \<noteq> i" for j
      using cache_orderD(3) [OF assms(2) that(1) i(1)] that(2) i(2) by auto
    ultimately obtain c' where
      "owcache_insert (Ref c) k (Ref d) dirt = Some (int i, Ref c')" "cache_shape c'"
      "cache_order c' (i # removeAll i sl)"
      "cache_abs c' (i # removeAll i sl) = (k, d, dirt) # cache_abs c (removeAll i sl)"
      "clock c' = clock c + 1" "capacity c' = capacity c" "block_size c' = block_size c"
      using insert_at [OF _ cache_shapeD(1) [OF assms(1)] assms(1,2) _ _ assms(3,4)] by blast
    moreover have "lru_put (unat (capacity c)) (k, d, dirt) (cache_abs c sl) =
      (k, d, dirt) # cache_abs c (removeAll i sl)"
      using True keys cache_abs_remove [OF assms(2) i] by (simp add: lru_put_def)
    ultimately show ?thesis by metis
  next
    case False
    note miss = cache_find_miss [OF assms(1,2), of k]
    show ?thesis
    proof (cases "length sl < unat (capacity c)")
      case room: True
      from cache_free_slot_some [OF assms(1,2) room] obtain i where
        i: "cache_free_slot c = Some (int i)" "i < unat (capacity c)" "i \<notin> set sl" by blast
      have "insert_slot c k = Some (int i, Ref c)" using miss False i(1) by (simp add: insert_slot_def)
      then obtain c' where
        "owcache_insert (Ref c) k (Ref d) dirt = Some (int i, Ref c')" "cache_shape c'"
        "cache_order c' (i # removeAll i sl)"
        "cache_abs c' (i # removeAll i sl) = (k, d, dirt) # cache_abs c (removeAll i sl)"
        "clock c' = clock c + 1" "capacity c' = capacity c" "block_size c' = block_size c"
        using insert_at [OF _ cache_shapeD(1) [OF assms(1)] assms(1,2) i(2) _ assms(3,4)] False by blast
      moreover have "lru_put (unat (capacity c)) (k, d, dirt) (cache_abs c sl) =
        (k, d, dirt) # cache_abs c (removeAll i sl)"
        using False keys room len i(3) by (simp add: lru_put_def removeAll_id)
      ultimately show ?thesis by metis
    next
      case full: False
      then have ne: "sl \<noteq> []" using cache_shapeD(2) [OF assms(1)] by auto
      from evict_last [OF assms(1,2) ne] obtain c1 where
        c1: "owcache_evict (Ref c) = Some (int (last sl), Ref c1)" "cache_shape c1"
          "cache_order c1 (butlast sl)" "cache_abs c1 (butlast sl) = butlast (cache_abs c sl)"
          "clock c1 = clock c" "capacity c1 = capacity c" "block_size c1 = block_size c" by blast
      have slot: "insert_slot c k = Some (int (last sl), Ref c1)"
        using miss False cache_free_slot_none [OF assms(1,2) full] c1(1) by (simp add: insert_slot_def)
      have lst: "last sl < unat (capacity c1)" "last sl \<notin> set (butlast sl)"
        using cache_orderD(2) [OF assms(2), of "last sl"] ne c1(6)
          last_not_butlast [OF cache_orderD(1) [OF assms(2)]] by simp_all
      have "block_index (entries c1 ! j) \<noteq> k" if "j \<in> set (butlast sl)" for j
      proof -
        have "slot_abs c1 j \<in> set (cache_abs c sl)"
          using in_set_butlastD [of "slot_abs c1 j" "cache_abs c sl"] that
          unfolding c1(4) [symmetric] by (simp add: cache_abs_def)
        then have "fst (slot_abs c1 j) \<noteq> k" using False keys by (metis image_eqI)
        then show ?thesis by (simp add: slot_abs_def)
      qed
      then obtain c' where
        "owcache_insert (Ref c) k (Ref d) dirt = Some (int (last sl), Ref c')" "cache_shape c'"
        "cache_order c' (last sl # removeAll (last sl) (butlast sl))"
        "cache_abs c' (last sl # removeAll (last sl) (butlast sl)) =
           (k, d, dirt) # cache_abs c1 (removeAll (last sl) (butlast sl))"
        "clock c' = clock c1 + 1" "capacity c' = capacity c1" "block_size c' = block_size c1"
        using insert_at [OF slot cache_shapeD(1) [OF assms(1)] c1(2,3) lst(1), of d dirt]
          assms(3,4) c1(5,7) by auto
      moreover have "lru_put (unat (capacity c)) (k, d, dirt) (cache_abs c sl) =
        (k, d, dirt) # cache_abs c1 (removeAll (last sl) (butlast sl))"
        using False keys full len lst(2) c1(4) by (simp add: lru_put_def removeAll_id)
      ultimately show ?thesis unfolding c1(5-7) by metis
    qed
  qed
qed

text \<open>Flushing clears the dirty flags and counts them.\<close>

definition clean :: "owcache_entry_t \<Rightarrow> owcache_entry_t" where
  "clean e = (if valid e then e\<lparr>dirty := False\<rparr> else e)"

lemma flush_loop_ok:
  assumes "unat (capacity c) \<le> length (entries c)" and "i \<le> unat (capacity c)"
  shows "\<exists>fl. cache_flush_loop c i f =
     Some (f + of_nat (count_if (\<lambda>e. valid e \<and> dirty e) (drop i (take (unat (capacity c)) (entries c)))),
       c\<lparr>entries := take i (entries c) @ map clean (drop i (take (unat (capacity c)) (entries c))) @
           drop (unat (capacity c)) (entries c), flushes := fl\<rparr>)"
  using assms
proof (induction c i f rule: cache_flush_loop.induct)
  case (1 c i f)
  let ?n = "unat (capacity c)"
  show ?case
  proof (cases "i < ?n")
    case False
    then have "take i (entries c) @ drop ?n (entries c) = entries c" using "1.prems" by simp
    then show ?thesis using False "1.prems"
      by (subst cache_flush_loop.simps) (auto intro!: exI [of _ "flushes c"])
  next
    case True
    let ?e = "entries c ! i"
    have len: "i < length (entries c)" using True "1.prems"(1) by simp
    have rd: "c_rd (entries c) i = Some ?e" using len by simp
    have cons: "drop i (take ?n (entries c)) = ?e # drop (Suc i) (take ?n (entries c))"
      using True len by (simp add: Cons_nth_drop_Suc [symmetric])
    show ?thesis
    proof (cases "valid ?e \<and> dirty ?e")
      case dirty: True
      let ?es = "(entries c)[i := ?e\<lparr>dirty := False\<rparr>]"
      have wr: "c_wr (entries c) i (?e\<lparr>dirty := False\<rparr>) = Some ?es" using len by simp
      have parts: "drop (Suc i) (take ?n ?es) = drop (Suc i) (take ?n (entries c))"
        "drop ?n ?es = drop ?n (entries c)" "take (Suc i) ?es = take i (entries c) @ [clean ?e]"
        using True len dirty by (simp_all add: take_update_swap take_Suc_conv_app_nth clean_def list_update_append)
      from "1.IH"(1) [OF True rd dirty wr] "1.prems" True show ?thesis
        by (subst cache_flush_loop.simps) (auto simp: rd wr dirty cons parts algebra_simps)
    next
      case False
      then have "clean ?e = ?e" by (cases ?e) (auto simp: clean_def)
      then have parts: "take (Suc i) (entries c) = take i (entries c) @ [clean ?e]"
        using len by (simp add: take_Suc_conv_app_nth)
      from "1.IH"(2) [OF True rd False] "1.prems" True False show ?thesis
        by (subst cache_flush_loop.simps) (auto simp: rd cons parts)
    qed
  qed
qed

lemma count_slots:
  assumes "cache_order c sl" and "unat (capacity c) \<le> length (entries c)"
  shows "count_if (\<lambda>e. valid e \<and> P e) (take (unat (capacity c)) (entries c)) =
     length (filter (\<lambda>i. P (entries c ! i)) sl)"
proof -
  let ?n = "unat (capacity c)"
  have "count_if (\<lambda>e. valid e \<and> P e) (take ?n (entries c)) =
     card {i. i < ?n \<and> valid (entries c ! i) \<and> P (entries c ! i)}"
    using assms(2) unfolding count_if_def length_filter_conv_card
    by (intro arg_cong [where f = card]) auto
  also have "{i. i < ?n \<and> valid (entries c ! i) \<and> P (entries c ! i)} = set (filter (\<lambda>i. P (entries c ! i)) sl)"
    using cache_orderD(2) [OF assms(1)] by auto
  also have "card \<dots> = length (filter (\<lambda>i. P (entries c ! i)) sl)"
    using cache_orderD(1) [OF assms(1)] by (intro distinct_card) simp
  finally show ?thesis .
qed

lemma flush_refines:
  assumes "cache_shape c" and "cache_order c sl"
  shows "\<exists>c' n. owcache_flush (Ref c) = Some (n, Ref c') \<and> cache_shape c' \<and> cache_order c' sl \<and>
     (unat n, cache_abs c' sl) = lru_flush (cache_abs c sl) \<and>
     clock c' = clock c \<and> capacity c' = capacity c \<and> block_size c' = block_size c"
proof -
  let ?n = "unat (capacity c)"
  note len = cache_shapeD(3) [OF assms(1)]
  from flush_loop_ok [OF len, of 0 0] obtain fl where
    run: "cache_flush_loop c 0 0 = Some (of_nat (count_if (\<lambda>e. valid e \<and> dirty e) (take ?n (entries c))),
       c\<lparr>entries := map clean (take ?n (entries c)) @ drop ?n (entries c), flushes := fl\<rparr>)"
    by auto
  let ?c = "c\<lparr>entries := map clean (take ?n (entries c)) @ drop ?n (entries c), flushes := fl\<rparr>"
  let ?k = "count_if (\<lambda>e. valid e \<and> dirty e) (take ?n (entries c))"
  have "?k \<le> ?n" using count_if_le [of "\<lambda>e. valid e \<and> dirty e" "take ?n (entries c)"] by simp
  moreover have "?n < 2 ^ 32" using unsigned_less [of "capacity c", where ?'a = nat] by simp
  ultimately have k: "unat (of_nat ?k :: u32) = ?k" by (intro unat_of_nat_u32) linarith
  have nth: "entries ?c ! i = clean (entries c ! i)" if "i < ?n" for i
    using that len by (simp add: nth_append)
  have fields: "valid (clean e) = valid e" "last_used (clean e) = last_used e"
    "block_index (clean e) = block_index e" "data (clean e) = data e" "valid e \<Longrightarrow> \<not> dirty (clean e)" for e
    by (simp_all add: clean_def)
  have shape: "cache_shape ?c"
    using assms(1) len nth by (simp add: cache_shape_def fields del: nth_append)
  have mem: "i < ?n \<and> valid (entries c ! i)" if "i \<in> set sl" for i
    using cache_orderD(2) [OF assms(2)] that by blast
  have ord: "cache_order ?c sl"
    unfolding cache_order_def
  proof (intro conjI)
    have old: "distinct sl" "set sl = {i. i < ?n \<and> valid (entries c ! i)}"
      "sorted_wrt (\<lambda>i j. last_used (entries c ! j) < last_used (entries c ! i)) sl"
      "distinct (map (\<lambda>i. block_index (entries c ! i)) sl)"
      "\<forall>i \<in> set sl. last_used (entries c ! i) \<le> clock c"
      using assms(2) by (simp_all add: cache_order_def)
    show "distinct sl" by (fact old(1))
    have cap: "capacity ?c = capacity c" "clock ?c = clock c" by simp_all
    show "set sl = {i. i < unat (capacity ?c) \<and> valid (entries ?c ! i)}"
      unfolding old(2) cap using nth fields(1) by (intro Collect_cong) (auto simp only:)
    show "sorted_wrt (\<lambda>i j. last_used (entries ?c ! j) < last_used (entries ?c ! i)) sl"
      using old(3) by (rule sorted_wrt_mono_rel [rotated]) (simp only: nth mem fields)
    have "map (\<lambda>i. block_index (entries ?c ! i)) sl = map (\<lambda>i. block_index (entries c ! i)) sl"
      by (rule map_cong [OF refl]) (simp only: nth mem fields)
    then show "distinct (map (\<lambda>i. block_index (entries ?c ! i)) sl)" using old(4) by (simp only:)
    show "\<forall>i \<in> set sl. last_used (entries ?c ! i) \<le> clock ?c"
    proof
      fix i assume i: "i \<in> set sl"
      then have "last_used (entries c ! i) \<le> clock c" using old(5) by blast
      then show "last_used (entries ?c ! i) \<le> clock ?c"
        unfolding nth [OF conjunct1 [OF mem [OF i]]] fields cap .
    qed
  qed
  have "slot_abs ?c i = (fst (slot_abs c i), fst (snd (slot_abs c i)), False)" if "i \<in> set sl" for i
    unfolding slot_abs_def nth [OF conjunct1 [OF mem [OF that]]]
    using fields(3,5) mem [OF that] by (simp add: slot_data_def)
  then have "cache_abs ?c sl = map (\<lambda>x. (fst x, fst (snd x), False)) (cache_abs c sl)"
    unfolding cache_abs_def map_map comp_def by (intro map_cong refl)
  moreover have "?k = length (filter (\<lambda>x. snd (snd x)) (cache_abs c sl))"
    using count_slots [OF assms(2) len] by (simp add: cache_abs_def filter_map comp_def slot_abs_def)
  ultimately have "(unat (of_nat ?k :: u32), cache_abs ?c sl) = lru_flush (cache_abs c sl)"
    unfolding k lru_flush_def by (simp only:)
  moreover have "owcache_flush (Ref c) = Some (of_nat ?k, Ref ?c)"
    using run cache_shapeD(1) [OF assms(1)] by (simp add: owcache_flush_def)
  ultimately show ?thesis using shape ord by (intro exI [of _ ?c] exI [of _ "of_nat ?k"]) simp
qed

section \<open>Refinement of client runs\<close>

datatype cache_op = CGet u32 | CPut u32 "u8 list" bool | CEvict | CFlush

datatype cache_res = Block "u8 list option" | Stored bool | Evicted "u32 option" | Cleaned nat

text \<open>A client that reads a block through the slot that \<open>owcache_lookup\<close> returns.\<close>

fun cache_step :: "owcache_t ptr \<Rightarrow> cache_op \<Rightarrow> (cache_res \<times> owcache_t ptr) comp" where
  "cache_step P (CGet k) =
     do { (slot, P1) \<leftarrow> owcache_lookup P k;
          if slot < 0 then Some (Block None, P1)
          else case P1 of NULL \<Rightarrow> None
            | Ref c \<Rightarrow> do { e \<leftarrow> c_rd (entries c) (nat slot);
                           Some (Block (Some (take (unat (block_size c)) (drop (data e) (buffer c)))), P1) } }"
| "cache_step P (CPut k d b) =
     do { (slot, P1) \<leftarrow> owcache_insert P k (Ref d) b; Some (Stored (\<not> slot < 0), P1) }"
| "cache_step P CEvict =
     do { (slot, P1) \<leftarrow> owcache_evict P;
          if slot < 0 then Some (Evicted None, P1)
          else case P1 of NULL \<Rightarrow> None
            | Ref c \<Rightarrow> do { e \<leftarrow> c_rd (entries c) (nat slot); Some (Evicted (Some (block_index e)), P1) } }"
| "cache_step P CFlush = do { (n, P1) \<leftarrow> owcache_flush P; Some (Cleaned (unat n), P1) }"

fun cache_run :: "owcache_t ptr \<Rightarrow> cache_op list \<Rightarrow> (cache_res list \<times> owcache_t ptr) comp" where
  "cache_run P [] = Some ([], P)"
| "cache_run P (x # xs) =
     do { (r, P) \<leftarrow> cache_step P x; (rs, P) \<leftarrow> cache_run P xs; Some (r # rs, P) }"

fun lru_step :: "nat \<Rightarrow> block list \<Rightarrow> cache_op \<Rightarrow> cache_res \<times> block list" where
  "lru_step n L (CGet k) = (Block (fst (lru_get k L)), snd (lru_get k L))"
| "lru_step n L (CPut k d b) = (Stored True, lru_put n (k, d, b) L)"
| "lru_step n L CEvict = (Evicted (fst (lru_evict L)), snd (lru_evict L))"
| "lru_step n L CFlush = (Cleaned (fst (lru_flush L)), snd (lru_flush L))"

fun lru_run :: "nat \<Rightarrow> block list \<Rightarrow> cache_op list \<Rightarrow> cache_res list \<times> block list" where
  "lru_run n L [] = ([], L)"
| "lru_run n L (x # xs) = (let (r, L1) = lru_step n L x; (rs, L2) = lru_run n L1 xs in (r # rs, L2))"

fun put_size :: "nat \<Rightarrow> cache_op \<Rightarrow> bool" where
  "put_size b (CPut k d dirt) = (length d = b)"
| "put_size b _ = True"

text \<open>A cache that represents the list \<open>L\<close>, after at most \<open>t\<close> uses.\<close>

definition represents :: "nat \<Rightarrow> nat \<Rightarrow> nat \<Rightarrow> owcache_t \<Rightarrow> block list \<Rightarrow> bool" where
  "represents n b t c L \<longleftrightarrow>
     (\<exists>sl. cache_shape c \<and> cache_order c sl \<and> L = cache_abs c sl) \<and>
     unat (capacity c) = n \<and> unat (block_size c) = b \<and> unat (clock c) \<le> t"

lemma representsI:
  "cache_shape c' \<Longrightarrow> cache_order c' sl \<Longrightarrow> cache_abs c' sl = L \<Longrightarrow> unat (capacity c') = n \<Longrightarrow>
     unat (block_size c') = b \<Longrightarrow> unat (clock c') \<le> t \<Longrightarrow> represents n b t c' L"
  by (auto simp: represents_def)

lemma cache_step_refines:
  assumes "represents n b t c L" and "put_size b x" and "Suc t < 2 ^ 64"
  shows "\<exists>c'. cache_step (Ref c) x = Some (fst (lru_step n L x), Ref c') \<and>
     represents n b (Suc t) c' (snd (lru_step n L x))"
proof -
  from assms(1) obtain sl where c: "cache_shape c" "cache_order c sl" "L = cache_abs c sl"
    "unat (capacity c) = n" "unat (block_size c) = b" "unat (clock c) \<le> t"
    by (auto simp: represents_def)
  have clk: "Suc (unat (clock c)) < 2 ^ 64" using c(6) assms(3) by simp
  then have clk1: "unat (clock c + 1) \<le> Suc t" using c(6) by (subst unat_add1) auto
  show ?thesis
  proof (cases x)
    case (CGet k)
    show ?thesis
    proof (cases "\<exists>i \<in> set sl. block_index (entries c ! i) = k")
      case True
      then obtain i where i: "i \<in> set sl" "block_index (entries c ! i) = k" by blast
      from lookup_hit [OF c(1,2) i clk] obtain c' where
        c': "owcache_lookup (Ref c) k = Some (int i, Ref c')" "cache_shape c'"
          "cache_order c' (i # removeAll i sl)"
          "cache_abs c' (i # removeAll i sl) = slot_abs c i # filter (\<lambda>y. fst y \<noteq> k) L"
          "clock c' = clock c + 1" "capacity c' = capacity c" "block_size c' = block_size c"
        unfolding c(3) by blast
      have cap: "i < unat (capacity c')" using i(1) cache_orderD(2) [OF c(2), of i] c'(6) by simp
      have "slot_abs c' i = slot_abs c i" using c'(4) by (simp add: cache_abs_def)
      then have "take (unat (block_size c')) (drop (data (entries c' ! i)) (buffer c')) = fst (snd (slot_abs c i))"
        using cache_shapeD(5) [OF c'(2) cap] by (simp add: slot_abs_def slot_data_def)
      moreover have "lru_get k L = (Some (fst (snd (slot_abs c i))), slot_abs c i # filter (\<lambda>y. fst y \<noteq> k) L)"
        using cache_abs_find [OF c(2) i] unfolding c(3) lru_get_def by simp
      ultimately show ?thesis
        using CGet c'(1) cache_shapeD(4) [OF c'(2) cap] representsI [OF c'(2-4), of n b "Suc t"] c'(5-7)
          c(4,5) clk1 by simp
    next
      case False
      from lookup_miss [OF c(1,2)] False obtain c' where
        c': "owcache_lookup (Ref c) k = Some (-1, Ref c')" "cache_shape c'" "cache_order c' sl"
          "cache_abs c' sl = L" "clock c' = clock c" "capacity c' = capacity c" "block_size c' = block_size c"
        unfolding c(3) by blast
      have "find (\<lambda>x. fst x = k) L = None"
        using False unfolding c(3) find_None_iff by (auto simp: cache_abs_def slot_abs_def)
      then have "lru_get k L = (None, L)" by (simp add: lru_get_def)
      then show ?thesis
        using CGet c'(1) representsI [OF c'(2-4), of n b "Suc t"] c'(5-7) c(4-6) by simp
    qed
  next
    case (CPut k d dirt)
    from insert_refines [OF c(1,2) clk, of d k dirt] CPut assms(2) c(5) obtain c' sl' i where
      c': "owcache_insert (Ref c) k (Ref d) dirt = Some (int i, Ref c')" "cache_shape c'" "cache_order c' sl'"
        "cache_abs c' sl' = lru_put n (k, d, dirt) L"
        "clock c' = clock c + 1" "capacity c' = capacity c" "block_size c' = block_size c"
      unfolding c(3,4) by auto
    then show ?thesis
      using CPut representsI [OF c'(2-4), of n b "Suc t"] c(4,5) clk1 by simp
  next
    case CEvict
    show ?thesis
    proof (cases "sl = []")
      case True
      then show ?thesis
        using CEvict evict_empty [OF c(1)] c representsI [OF c(1,2) refl, of n b "Suc t"]
        by (simp add: lru_evict_def cache_abs_def)
    next
      case False
      from evict_last [OF c(1,2) False] obtain c' where
        c': "owcache_evict (Ref c) = Some (int (last sl), Ref c')" "cache_shape c'" "cache_order c' (butlast sl)"
          "cache_abs c' (butlast sl) = butlast L" "block_index (entries c' ! last sl) = block_index (entries c ! last sl)"
          "clock c' = clock c" "capacity c' = capacity c" "block_size c' = block_size c"
        unfolding c(3) by blast
      have "last sl < length (entries c')"
        using cache_orderD(2) [OF c(2), of "last sl"] False c'(7) by (intro cache_shapeD(4) [OF c'(2)]) simp
      moreover have "lru_evict L = (Some (block_index (entries c ! last sl)), butlast L)"
        using False unfolding c(3) lru_evict_def by (simp add: cache_abs_def last_map slot_abs_def)
      ultimately show ?thesis
        using CEvict c'(1,5) representsI [OF c'(2-4), of n b "Suc t"] c'(6-8) c(4-6) by simp
    qed
  next
    case CFlush
    from flush_refines [OF c(1,2)] obtain c' m where
      c': "owcache_flush (Ref c) = Some (m, Ref c')" "cache_shape c'" "cache_order c' sl"
        "(unat m, cache_abs c' sl) = lru_flush L"
        "clock c' = clock c" "capacity c' = capacity c" "block_size c' = block_size c"
      unfolding c(3) by blast
    have "fst (lru_flush L) = unat m" "snd (lru_flush L) = cache_abs c' sl"
      unfolding c'(4) [symmetric] by simp_all
    then show ?thesis
      using CFlush c'(1) representsI [OF c'(2,3) refl, of n b "Suc t"] c'(5-7) c(4-6) by simp
  qed
qed

lemma cache_run_refines:
  assumes "represents n b t c L" and "\<forall>x \<in> set ops. put_size b x" and "t + length ops < 2 ^ 64"
  shows "\<exists>c' t'. cache_run (Ref c) ops = Some (fst (lru_run n L ops), Ref c') \<and>
     represents n b t' c' (snd (lru_run n L ops))"
  using assms
proof (induction ops arbitrary: c L t)
  case Nil
  then show ?case by auto
next
  case (Cons x ops)
  from cache_step_refines [OF Cons.prems(1), of x] Cons.prems(2,3) obtain c1 where
    c1: "cache_step (Ref c) x = Some (fst (lru_step n L x), Ref c1)"
      "represents n b (Suc t) c1 (snd (lru_step n L x))" by auto
  from Cons.IH [OF c1(2)] Cons.prems(2,3) show ?case
    by (auto simp: c1(1) Let_def case_prod_unfold)
qed

lemma cache_init_represents:
  assumes "cap \<noteq> 0" and "bs \<noteq> 0" and "unat cap \<le> length es" and "unat cap * unat bs \<le> length buf"
  shows "\<exists>c. owcache_init (Ref c0) (Ref es) cap (Ref buf) bs = Some (True, Ref c) \<and>
     represents (unat cap) (unat bs) 0 c []"
proof -
  let ?fresh = "map (\<lambda>i. \<lparr>block_index = 0, valid = False, dirty = False, last_used = 0,
     data = i * unat bs\<rparr>) [0..<unat cap]"
  let ?c = "\<lparr>entries = ?fresh @ drop (unat cap) es, capacity = cap, buffer = buf, block_size = bs,
     clock = 0, hits = 0, misses = 0, evictions = 0, flushes = 0, initialized = True\<rparr>"
  have "owcache_init (Ref c0) (Ref es) cap (Ref buf) bs = Some (True, Ref ?c)"
    using assms by (simp add: owcache_init_def c_memcpy_def)
  moreover have "cache_shape ?c" using assms by (simp add: cache_shape_def nth_append)
  moreover have "cache_order ?c []" by (auto simp: cache_order_def nth_append)
  ultimately show ?thesis
    using representsI [of ?c "[]" "[]" "unat cap" "unat bs" 0] by (auto simp: cache_abs_def)
qed

text \<open>C22: from \<open>owcache_init\<close>, every sequence of fewer than 2^64 lookups, insertions,
  evictions and flushes runs without an access out of range and answers as the list of at most
  \<open>capacity\<close> blocks in order of use does: a lookup returns the data last inserted for the
  block unless it was evicted since, an insertion into a full cache evicts the least recently
  used block and no other, and a flush counts the dirty blocks.\<close>

theorem owcache_refines_lru:
  assumes "cap \<noteq> 0" and "bs \<noteq> 0" and "unat cap \<le> length es" and "unat cap * unat bs \<le> length buf"
    and "\<forall>x \<in> set ops. put_size (unat bs) x" and "length ops < 2 ^ 64"
  shows "\<exists>c c'. owcache_init (Ref c0) (Ref es) cap (Ref buf) bs = Some (True, Ref c) \<and>
     cache_run (Ref c) ops = Some (fst (lru_run (unat cap) [] ops), Ref c')"
  using cache_init_represents [OF assms(1-4), of c0] cache_run_refines [of _ _ 0 _ "[]" ops] assms(5,6)
  by (metis add_0)

definition stale_cache :: owcache_t where
  "stale_cache = \<lparr>entries = [], capacity = 0, buffer = [], block_size = 0, clock = 5, hits = 0,
     misses = 0, evictions = 0, flushes = 0, initialized = False\<rparr>"

definition stale_entry :: owcache_entry_t where
  "stale_entry = \<lparr>block_index = 9, valid = True, dirty = True, last_used = 3, data = 77\<rparr>"

theorem owcache_refines_lru_witness:
  "\<exists>c c'. owcache_init (Ref stale_cache) (Ref [stale_entry, stale_entry]) 2 (Ref [0, 0]) 1 = Some (True, Ref c) \<and>
     cache_run (Ref c) [CPut 5 [1] True, CPut 6 [2] False, CGet 5, CPut 7 [3] True, CGet 6, CGet 5, CFlush, CEvict] =
       Some ([Stored True, Stored True, Block (Some [1]), Stored True, Block None, Block (Some [1]),
              Cleaned 2, Evicted (Some 7)], Ref c')"
proof -
  let ?ops = "[CPut 5 [1] True, CPut 6 [2] False, CGet 5, CPut 7 [3] True, CGet 6, CGet 5, CFlush, CEvict]"
  have "lru_run 2 [] ?ops = ([Stored True, Stored True, Block (Some [1]), Stored True, Block None,
      Block (Some [1]), Cleaned 2, Evicted (Some 7)], [(5, [1], False)])"
    by code_simp
  moreover have "unat (2 :: u32) = 2" "unat (1 :: u32) = 1" by simp_all
  ultimately show ?thesis
    using owcache_refines_lru [of 2 1 "[stale_entry, stale_entry]" "[0, 0]" ?ops stale_cache]
    by (simp del: cache_run.simps lru_run.simps)
qed

end
