(* ===== verification/Sync.thy ===== *)
theory Sync
  imports Prelude
begin

text \<open>
  The synchronization primitives of \<open>src/DLL/owsync64/owsync64.c\<close> under interleaving.
  Any number of contexts run at once; one step of the system is one access of one context to
  shared memory (an atomic builtin, or a plain access to a field that the guard protects). The
  spinlock is a test-and-set lock, the recursive mutex keeps its owner and depth under a
  spinlock, the barrier counts arrivals under a spinlock and releases a round by moving the
  generation. The properties are safety properties of all reachable states.
\<close>

section \<open>Objects\<close>

record owspinlock_t =
  locked :: u32
  lock_owner :: u32
  acquisitions :: u64

record owmutex_t =
  guard :: owspinlock_t
  owner :: u32
  depth :: u32
  initialized :: bool

record owbarrier_t =
  bguard :: owspinlock_t
  generation :: u32
  expected :: u32
  arrived :: u32
  binitialized :: bool

definition owsync_spinlock_init :: "owspinlock_t ptr \<Rightarrow> bool \<times> owspinlock_t ptr" where
  "owsync_spinlock_init lock =
     (case lock of NULL \<Rightarrow> (False, NULL)
      | Ref l \<Rightarrow> (True, Ref \<lparr>locked = 0, lock_owner = 0, acquisitions = 0\<rparr>))"

definition owsync_mutex_init :: "owmutex_t ptr \<Rightarrow> bool \<times> owmutex_t ptr" where
  "owsync_mutex_init mutex =
     (case mutex of NULL \<Rightarrow> (False, NULL)
      | Ref m \<Rightarrow> (True, Ref \<lparr>guard = \<lparr>locked = 0, lock_owner = 0, acquisitions = 0\<rparr>, owner = 0,
                            depth = 0, initialized = True\<rparr>))"

definition owsync_barrier_init :: "owbarrier_t ptr \<Rightarrow> u32 \<Rightarrow> bool \<times> owbarrier_t ptr" where
  "owsync_barrier_init barrier participants =
     (case barrier of NULL \<Rightarrow> (False, NULL)
      | Ref b \<Rightarrow>
         if participants = 0 then (False, barrier)
         else (True, Ref \<lparr>bguard = \<lparr>locked = 0, lock_owner = 0, acquisitions = 0\<rparr>, generation = 0,
                expected = participants, arrived = 0, binitialized = True\<rparr>))"

section \<open>The accesses of the spinlock\<close>

text \<open>
  \<open>owsync_spinlock_acquire\<close> exchanges 1 into \<open>locked\<close> until the old value is 0, counts
  the acquisition and records the owner; \<open>owsync_spinlock_release\<close> clears the owner and then
  stores 0. Each is one access.
\<close>

definition spin_exchange :: "owspinlock_t \<Rightarrow> u32 \<times> owspinlock_t" where
  "spin_exchange l = (locked l, l\<lparr>locked := 1\<rparr>)"

definition spin_count :: "owspinlock_t \<Rightarrow> owspinlock_t" where
  "spin_count l = l\<lparr>acquisitions := acquisitions l + 1\<rparr>"

definition spin_own :: "u32 \<Rightarrow> owspinlock_t \<Rightarrow> owspinlock_t" where
  "spin_own cpu l = l\<lparr>lock_owner := cpu\<rparr>"

definition spin_disown :: "owspinlock_t \<Rightarrow> owspinlock_t" where
  "spin_disown l = l\<lparr>lock_owner := 0\<rparr>"

definition spin_store :: "owspinlock_t \<Rightarrow> owspinlock_t" where
  "spin_store l = l\<lparr>locked := 0\<rparr>"

lemma fst_spin_exchange [simp]: "fst (spin_exchange l) = locked l"
  by (simp add: spin_exchange_def)

lemmas spin_defs = spin_exchange_def spin_count_def spin_own_def spin_disown_def spin_store_def

section \<open>The mutex\<close>

datatype call = CLock | CUnlock

datatype outcome = Locked | Retry | Unlocked bool

text \<open>
  Program points of \<open>owsync_mutex_lock\<close> and \<open>owsync_mutex_unlock\<close>; the word is the
  local variable \<open>me\<close>. \<open>Acq\<close>, \<open>Cnt\<close>, \<open>Own\<close> are the accesses of the inlined
  \<open>owsync_spinlock_acquire\<close>, \<open>Dis\<close> and \<open>Rel\<close> those of
  \<open>owsync_spinlock_release\<close>, the others the accesses of the body in between.
\<close>

datatype mpc = Idle
  | Acq call u32 | Cnt call u32 | Own call u32 | Test call u32
  | LTake u32 | LDepth u32 | LInc u32
  | UDepth u32 | UDec u32 | UClearD u32 | UClearO u32
  | Dis outcome u32 | Rel outcome u32

text \<open>
  The system: the mutex, the static variable \<open>owsync64_cpu_id\<close>, and for every context its
  program point and the number of acquisitions it has not given back. A context counts an
  acquisition when \<open>owsync_mutex_lock\<close> returns, and gives it back when
  \<open>owsync_mutex_unlock\<close> finds it to be the owner.
\<close>

record msys =
  mtx :: owmutex_t
  cpu_id :: u32
  mpcs :: "nat \<Rightarrow> mpc"
  held :: "nat \<Rightarrow> nat"

definition go :: "nat \<Rightarrow> mpc \<Rightarrow> msys \<Rightarrow> msys" where
  "go t p s = s\<lparr>mpcs := (mpcs s)(t := p)\<rparr>"

definition on_guard :: "(owspinlock_t \<Rightarrow> owspinlock_t) \<Rightarrow> msys \<Rightarrow> msys" where
  "on_guard f s = s\<lparr>mtx := (mtx s)\<lparr>guard := f (guard (mtx s))\<rparr>\<rparr>"

definition on_mutex :: "(owmutex_t \<Rightarrow> owmutex_t) \<Rightarrow> msys \<Rightarrow> msys" where
  "on_mutex f s = s\<lparr>mtx := f (mtx s)\<rparr>"

definition hold :: "nat \<Rightarrow> (nat \<Rightarrow> nat) \<Rightarrow> msys \<Rightarrow> msys" where
  "hold t f s = s\<lparr>held := (held s)(t := f (held s t))\<rparr>"

inductive mutex_step :: "nat \<Rightarrow> msys \<Rightarrow> msys \<Rightarrow> bool" for t :: nat where
  set_cpu: "mutex_step t s (s\<lparr>cpu_id := c\<rparr>)"
| enter: "mpcs s t = Idle \<Longrightarrow> mutex_step t s (go t (Acq c (cpu_id s + 1)) s)"
| spin: "mpcs s t = Acq c me \<Longrightarrow> fst (spin_exchange (guard (mtx s))) \<noteq> 0 \<Longrightarrow>
    mutex_step t s (on_guard (\<lambda>l. snd (spin_exchange l)) s)"
| acquire: "mpcs s t = Acq c me \<Longrightarrow> fst (spin_exchange (guard (mtx s))) = 0 \<Longrightarrow>
    mutex_step t s (go t (Cnt c me) (on_guard (\<lambda>l. snd (spin_exchange l)) s))"
| count: "mpcs s t = Cnt c me \<Longrightarrow> mutex_step t s (go t (Own c me) (on_guard spin_count s))"
| own: "mpcs s t = Own c me \<Longrightarrow> mutex_step t s (go t (Test c me) (on_guard (spin_own (cpu_id s)) s))"
| lock_free: "mpcs s t = Test CLock me \<Longrightarrow> owner (mtx s) = 0 \<Longrightarrow> mutex_step t s (go t (LTake me) s)"
| lock_mine: "mpcs s t = Test CLock me \<Longrightarrow> owner (mtx s) \<noteq> 0 \<Longrightarrow> owner (mtx s) = me \<Longrightarrow>
    mutex_step t s (go t (LInc me) s)"
| lock_busy: "mpcs s t = Test CLock me \<Longrightarrow> owner (mtx s) \<noteq> 0 \<Longrightarrow> owner (mtx s) \<noteq> me \<Longrightarrow>
    mutex_step t s (go t (Dis Retry me) s)"
| take: "mpcs s t = LTake me \<Longrightarrow> mutex_step t s (go t (LDepth me) (on_mutex (owner_update (\<lambda>_. me)) s))"
| depth1: "mpcs s t = LDepth me \<Longrightarrow>
    mutex_step t s (go t (Dis Locked me) (on_mutex (depth_update (\<lambda>_. 1)) s))"
| inc: "mpcs s t = LInc me \<Longrightarrow>
    mutex_step t s (go t (Dis Locked me) (on_mutex (depth_update (\<lambda>d. d + 1)) s))"
| unlock_other: "mpcs s t = Test CUnlock me \<Longrightarrow> owner (mtx s) \<noteq> me \<Longrightarrow>
    mutex_step t s (go t (Dis (Unlocked False) me) s)"
| unlock_mine: "mpcs s t = Test CUnlock me \<Longrightarrow> owner (mtx s) = me \<Longrightarrow>
    mutex_step t s (go t (UDepth me) (hold t (\<lambda>n. n - 1) s))"
| deep: "mpcs s t = UDepth me \<Longrightarrow> depth (mtx s) > 1 \<Longrightarrow> mutex_step t s (go t (UDec me) s)"
| outer: "mpcs s t = UDepth me \<Longrightarrow> \<not> depth (mtx s) > 1 \<Longrightarrow> mutex_step t s (go t (UClearD me) s)"
| dec: "mpcs s t = UDec me \<Longrightarrow>
    mutex_step t s (go t (Dis (Unlocked True) me) (on_mutex (depth_update (\<lambda>d. d - 1)) s))"
| clear_depth: "mpcs s t = UClearD me \<Longrightarrow>
    mutex_step t s (go t (UClearO me) (on_mutex (depth_update (\<lambda>_. 0)) s))"
| clear_owner: "mpcs s t = UClearO me \<Longrightarrow>
    mutex_step t s (go t (Dis (Unlocked True) me) (on_mutex (owner_update (\<lambda>_. 0)) s))"
| disown: "mpcs s t = Dis r me \<Longrightarrow> mutex_step t s (go t (Rel r me) (on_guard spin_disown s))"
| retry: "mpcs s t = Rel Retry me \<Longrightarrow> mutex_step t s (go t (Acq CLock me) (on_guard spin_store s))"
| locked: "mpcs s t = Rel Locked me \<Longrightarrow>
    mutex_step t s (hold t Suc (go t Idle (on_guard spin_store s)))"
| unlocked: "mpcs s t = Rel (Unlocked b) me \<Longrightarrow> mutex_step t s (go t Idle (on_guard spin_store s))"

text \<open>The initial state: a mutex from \<open>owsync_mutex_init\<close>, no context in a call.\<close>

definition mutex_start :: "msys \<Rightarrow> bool" where
  "mutex_start s \<longleftrightarrow> (\<exists>m. owsync_mutex_init (Ref m) = (True, Ref (mtx s))) \<and>
     (\<forall>t. mpcs s t = Idle \<and> held s t = 0)"

inductive mutex_reach :: "msys \<Rightarrow> bool" where
  start: "mutex_start s \<Longrightarrow> mutex_reach s"
| step: "mutex_reach s \<Longrightarrow> mutex_step t s s' \<Longrightarrow> mutex_reach s'"

section \<open>Exclusion of the guard\<close>

fun in_guard :: "mpc \<Rightarrow> bool" where
  "in_guard Idle = False"
| "in_guard (Acq _ _) = False"
| "in_guard _ = True"

text \<open>A lock word and the set of contexts inside: at most one, and only while the word is set.\<close>

definition guard_excl :: "(nat \<Rightarrow> bool) \<Rightarrow> u32 \<Rightarrow> bool" where
  "guard_excl ins l \<longleftrightarrow> (\<exists>h. (\<forall>t. ins t \<longleftrightarrow> h = Some t) \<and> (l \<noteq> 0 \<longleftrightarrow> h \<noteq> None))"

lemma guard_excl_unique: "guard_excl ins l \<Longrightarrow> ins t \<Longrightarrow> ins u \<Longrightarrow> u = t"
  by (auto simp: guard_excl_def)

lemma guard_excl_keep:
  "guard_excl ins l \<Longrightarrow> ins t = b \<Longrightarrow> guard_excl (ins(t := b)) l"
  using fun_upd_triv [of ins t] by simp

lemma guard_excl_leave:
  "guard_excl ins l \<Longrightarrow> ins t \<Longrightarrow> guard_excl (ins(t := False)) 0"
  unfolding guard_excl_def by (intro exI [of _ None]) auto

lemma guard_excl_enter:
  "guard_excl ins 0 \<Longrightarrow> l \<noteq> 0 \<Longrightarrow> guard_excl (ins(t := True)) l"
  unfolding guard_excl_def by (intro exI [of _ "Some t"]) auto

lemma upd_point: "(\<lambda>u. f ((g(t := p)) u)) = (\<lambda>u. f (g u))(t := f p)"
  by auto

definition guard_inv :: "msys \<Rightarrow> bool" where
  "guard_inv s \<longleftrightarrow> guard_excl (\<lambda>t. in_guard (mpcs s t)) (locked (guard (mtx s)))"

lemma guard_inv_keep:
  assumes "guard_inv s" and "in_guard (mpcs s t) = in_guard p" and "mpcs s' = (mpcs s)(t := p)"
    and "locked (guard (mtx s')) = locked (guard (mtx s))"
  shows "guard_inv s'"
  using assms unfolding guard_inv_def assms(3,4) upd_point by (blast intro: guard_excl_keep)

lemma guard_inv_leave:
  assumes "guard_inv s" and "in_guard (mpcs s t)" and "\<not> in_guard p" and "mpcs s' = (mpcs s)(t := p)"
    and "locked (guard (mtx s')) = 0"
  shows "guard_inv s'"
  using guard_excl_leave [OF assms(1) [unfolded guard_inv_def] assms(2)] assms(3)
  unfolding guard_inv_def assms(4,5) upd_point by simp

lemma guard_inv_enter:
  assumes "guard_inv s" and "locked (guard (mtx s)) = 0" and "in_guard p"
    and "mpcs s' = (mpcs s)(t := p)" and "locked (guard (mtx s')) \<noteq> 0"
  shows "guard_inv s'"
  using guard_excl_enter [OF assms(1) [unfolded guard_inv_def assms(2)] assms(5), of t] assms(3)
  unfolding guard_inv_def assms(4) upd_point by simp

lemmas sys_defs = go_def on_guard_def on_mutex_def hold_def

lemma guard_inv_step:
  assumes "guard_inv s" and "mutex_step t s s'"
  shows "guard_inv s'"
  using assms(2)
proof cases
  case (set_cpu c)
  then show ?thesis using assms(1) by (simp add: guard_inv_def)
next
  case (enter c)
  then show ?thesis by (intro guard_inv_keep [OF assms(1)]) (simp_all add: sys_defs)
next
  case (spin c me)
  then show ?thesis using assms(1) by (simp add: guard_inv_def guard_excl_def sys_defs spin_defs)
next
  case (acquire c me)
  then show ?thesis by (intro guard_inv_enter [OF assms(1)]) (simp_all add: sys_defs spin_defs)
next
  case (retry me)
  then show ?thesis by (intro guard_inv_leave [OF assms(1)]) (simp_all add: sys_defs spin_defs)
next
  case (locked me)
  then show ?thesis by (intro guard_inv_leave [OF assms(1)]) (simp_all add: sys_defs spin_defs)
next
  case (unlocked b me)
  then show ?thesis by (intro guard_inv_leave [OF assms(1)]) (simp_all add: sys_defs spin_defs)
qed (rule guard_inv_keep [OF assms(1), of t], simp_all add: sys_defs spin_defs)+

lemma mutex_startD:
  assumes "mutex_start s"
  shows "locked (guard (mtx s)) = 0" and "owner (mtx s) = 0" and "mpcs s t = Idle" and "held s t = 0"
proof -
  have "mtx s = \<lparr>guard = \<lparr>locked = 0, lock_owner = 0, acquisitions = 0\<rparr>, owner = 0, depth = 0,
    initialized = True\<rparr>"
    using assms by (auto simp: mutex_start_def owsync_mutex_init_def)
  then show "locked (guard (mtx s)) = 0" "owner (mtx s) = 0" by simp_all
  show "mpcs s t = Idle" "held s t = 0" using assms by (auto simp: mutex_start_def)
qed

lemma mutex_start_guard: "mutex_start s \<Longrightarrow> guard_inv s"
  by (simp add: guard_inv_def guard_excl_def mutex_startD)

lemma mutex_reach_guard: "mutex_reach s \<Longrightarrow> guard_inv s"
  by (induction rule: mutex_reach.induct) (auto intro: mutex_start_guard guard_inv_step)

section \<open>Ownership of the mutex\<close>

text \<open>
  The ownership token of a call is the value that \<open>owsync64_cpu_id\<close> has at the step at which the
  call reads it. This variable is shared by all contexts, so what a context wrote there before the
  call may have been overwritten by another one. An execution of the contexts in \<open>A\<close> is tagged
  by \<open>ident\<close> when, at every step at which a call of a context \<open>t\<close> reads the variable, it
  holds \<open>ident t\<close>, and a context nests fewer than 2^32 acquisitions. It is not enough that each
  context sets the variable before each of its calls: \<open>owsync_mutex_shared_identity\<close> below.
\<close>

definition tagged_call :: "nat set \<Rightarrow> (nat \<Rightarrow> u32) \<Rightarrow> nat \<Rightarrow> msys \<Rightarrow> msys \<Rightarrow> bool" where
  "tagged_call A ident t s s' \<longleftrightarrow>
     t \<in> A \<and> (mpcs s t = Idle \<and> mpcs s' t \<noteq> Idle \<longrightarrow> cpu_id s = ident t \<and> held s t + 1 < 2 ^ 32)"

inductive tagged_reach :: "nat set \<Rightarrow> (nat \<Rightarrow> u32) \<Rightarrow> msys \<Rightarrow> bool"
  for A :: "nat set" and ident :: "nat \<Rightarrow> u32" where
  start: "mutex_start s \<Longrightarrow> tagged_reach A ident s"
| step: "tagged_reach A ident s \<Longrightarrow> mutex_step t s s' \<Longrightarrow> tagged_call A ident t s s' \<Longrightarrow>
    tagged_reach A ident s'"

text \<open>Acquisitions that are already, or still, entered in \<open>depth\<close>.\<close>

fun pend :: "mpc \<Rightarrow> nat" where
  "pend (Dis Locked _) = 1"
| "pend (Rel Locked _) = 1"
| "pend (UDepth _) = 1"
| "pend (UDec _) = 1"
| "pend (UClearD _) = 1"
| "pend _ = 0"

fun pc_me :: "mpc \<Rightarrow> u32 option" where
  "pc_me Idle = None"
| "pc_me (Acq _ me) = Some me"
| "pc_me (Cnt _ me) = Some me"
| "pc_me (Own _ me) = Some me"
| "pc_me (Test _ me) = Some me"
| "pc_me (LTake me) = Some me"
| "pc_me (LDepth me) = Some me"
| "pc_me (LInc me) = Some me"
| "pc_me (UDepth me) = Some me"
| "pc_me (UDec me) = Some me"
| "pc_me (UClearD me) = Some me"
| "pc_me (UClearO me) = Some me"
| "pc_me (Dis _ me) = Some me"
| "pc_me (Rel _ me) = Some me"

fun at_point :: "u32 \<Rightarrow> u32 \<Rightarrow> u32 \<Rightarrow> mpc \<Rightarrow> nat \<Rightarrow> bool" where
  "at_point me w d (LTake _) n = (w = 0)"
| "at_point me w d (LDepth _) n = (w = me \<and> n = 0)"
| "at_point me w d (LInc _) n = (n > 0)"
| "at_point me w d (UDec _) n = (d > 1)"
| "at_point me w d (UClearD _) n = (\<not> d > 1)"
| "at_point me w d (UClearO _) n = (w = me \<and> n = 0)"
| "at_point me w d _ n = True"

text \<open>What holds of a context with token \<open>me\<close>, program point \<open>p\<close> and \<open>n\<close> acquisitions.\<close>

definition ctx_inv :: "u32 \<Rightarrow> u32 \<Rightarrow> u32 \<Rightarrow> mpc \<Rightarrow> nat \<Rightarrow> bool" where
  "ctx_inv me w d p n \<longleftrightarrow>
     (\<forall>x. pc_me p = Some x \<longrightarrow> x = me) \<and> n < 2 ^ 32 \<and> (p \<noteq> Idle \<longrightarrow> n + 1 < 2 ^ 32) \<and>
     (n + pend p > 0 \<longrightarrow> w = me \<and> unat d = n + pend p) \<and> at_point me w d p n"

fun owning :: "mpc \<Rightarrow> nat \<Rightarrow> bool" where
  "owning (LDepth _) n = True"
| "owning (UClearO _) n = True"
| "owning p n = (n + pend p > 0)"

definition book_inv :: "nat set \<Rightarrow> (nat \<Rightarrow> u32) \<Rightarrow> msys \<Rightarrow> bool" where
  "book_inv A ident s \<longleftrightarrow>
     (\<forall>t. t \<notin> A \<longrightarrow> mpcs s t = Idle \<and> held s t = 0) \<and>
     (\<forall>t. ctx_inv (ident t + 1) (owner (mtx s)) (depth (mtx s)) (mpcs s t) (held s t)) \<and>
     (owner (mtx s) \<noteq> 0 \<longrightarrow> (\<exists>t. owner (mtx s) = ident t + 1 \<and> owning (mpcs s t) (held s t)))"

lemma owning_owner: "ctx_inv me w d p n \<Longrightarrow> owning p n \<Longrightarrow> w = me"
  by (cases p) (auto simp: ctx_inv_def)

lemma ctx_inv_frame:
  "ctx_inv me w d p n \<Longrightarrow> \<not> in_guard p \<Longrightarrow> n = 0 \<Longrightarrow> ctx_inv me w' d' p n"
  by (cases p) (auto simp: ctx_inv_def)

text \<open>A step of context \<open>t\<close> that leaves \<open>owner\<close> and \<open>depth\<close> alone.\<close>

lemma book_quiet:
  assumes "book_inv A ident s" and "t \<in> A"
    and "\<And>u. u \<noteq> t \<Longrightarrow> mpcs s' u = mpcs s u" and "\<And>u. u \<noteq> t \<Longrightarrow> held s' u = held s u"
    and "owner (mtx s') = owner (mtx s)" and "depth (mtx s') = depth (mtx s)"
    and "ctx_inv (ident t + 1) (owner (mtx s)) (depth (mtx s)) (mpcs s' t) (held s' t)"
    and "owning (mpcs s t) (held s t) \<Longrightarrow> owning (mpcs s' t) (held s' t)"
  shows "book_inv A ident s'"
proof -
  have "ctx_inv (ident u + 1) (owner (mtx s')) (depth (mtx s')) (mpcs s' u) (held s' u)" for u
    using assms(1-7) by (cases "u = t") (simp_all add: book_inv_def)
  moreover have "\<exists>u. owner (mtx s') = ident u + 1 \<and> owning (mpcs s' u) (held s' u)"
    if "owner (mtx s') \<noteq> 0"
  proof -
    obtain u where "owner (mtx s) = ident u + 1" "owning (mpcs s u) (held s u)"
      using assms(1,5) \<open>owner (mtx s') \<noteq> 0\<close> by (auto simp: book_inv_def)
    then show ?thesis
      using assms(3,4) [of u] assms(5,8) by (intro exI [of _ u]) (cases "u = t"; simp)
  qed
  moreover have "mpcs s' u = Idle \<and> held s' u = 0" if "u \<notin> A" for u
  proof -
    have "u \<noteq> t" using that assms(2) by blast
    then show ?thesis using that assms(1,3,4) by (simp add: book_inv_def)
  qed
  ultimately show ?thesis by (simp add: book_inv_def)
qed

text \<open>A step inside the guard, by the owner or while there is no owner, that changes them.\<close>

lemma book_change:
  assumes "book_inv A ident s" and "guard_inv s" and "inj_on ident A" and "\<And>u. u \<in> A \<Longrightarrow> ident u + 1 \<noteq> 0"
    and "t \<in> A" and "in_guard (mpcs s t)" and "owner (mtx s) = 0 \<or> owner (mtx s) = ident t + 1"
    and "\<And>u. u \<noteq> t \<Longrightarrow> mpcs s' u = mpcs s u" and "held s' = held s"
    and "ctx_inv (ident t + 1) (owner (mtx s')) (depth (mtx s')) (mpcs s' t) (held s t)"
    and "owner (mtx s') \<noteq> 0 \<Longrightarrow> owner (mtx s') = ident t + 1 \<and> owning (mpcs s' t) (held s t)"
  shows "book_inv A ident s'"
proof -
  have inv: "ctx_inv (ident u + 1) (owner (mtx s)) (depth (mtx s)) (mpcs s u) (held s u)" for u
    using assms(1) by (simp add: book_inv_def)
  have "ctx_inv (ident u + 1) (owner (mtx s')) (depth (mtx s')) (mpcs s' u) (held s' u)" for u
  proof (cases "u = t")
    case True
    then show ?thesis using assms(9,10) by simp
  next
    case False
    have out: "\<not> in_guard (mpcs s u)"
      using guard_excl_unique [OF assms(2) [unfolded guard_inv_def], of t u] assms(6) False by auto
    have "held s u = 0"
    proof (rule ccontr)
      assume "held s u \<noteq> 0"
      then have "owner (mtx s) = ident u + 1" using inv [of u] by (simp add: ctx_inv_def)
      moreover have "u \<in> A" using \<open>held s u \<noteq> 0\<close> assms(1) by (auto simp: book_inv_def)
      ultimately have "ident u = ident t" using assms(4) [of u] assms(7) by auto
      then show False using assms(3,5) \<open>u \<in> A\<close> False by (auto dest: inj_onD)
    qed
    then show ?thesis using ctx_inv_frame [OF inv [of u] out] assms(8) [OF False] assms(9) by simp
  qed
  moreover have "owner (mtx s') \<noteq> 0 \<longrightarrow> (\<exists>u. owner (mtx s') = ident u + 1 \<and> owning (mpcs s' u) (held s' u))"
    using assms(9,11) by (auto intro!: exI [of _ t])
  moreover have "mpcs s' u = Idle \<and> held s' u = 0" if "u \<notin> A" for u
  proof -
    have "u \<noteq> t" using that assms(5) by blast
    then show ?thesis using that assms(1,8,9) by (simp add: book_inv_def)
  qed
  ultimately show ?thesis by (simp add: book_inv_def)
qed

lemma book_owner_me:
  assumes "book_inv A ident s" and "inj_on ident A" and "t \<in> A" and "owner (mtx s) \<noteq> 0"
    and "owner (mtx s) = ident t + 1"
  shows "owning (mpcs s t) (held s t)"
proof -
  from assms(1,4) obtain u where u: "owner (mtx s) = ident u + 1" "owning (mpcs s u) (held s u)"
    by (auto simp: book_inv_def)
  then have "u \<in> A" using assms(1) by (auto simp: book_inv_def)
  moreover have "ident u = ident t" using u(1) assms(5) by simp
  ultimately have "u = t" using assms(2,3) by (auto dest: inj_onD)
  then show ?thesis using u(2) by simp
qed

lemma book_step:
  assumes inv: "book_inv A ident s" and grd: "guard_inv s" and inj: "inj_on ident A"
    and nz: "\<And>u. u \<in> A \<Longrightarrow> ident u + 1 \<noteq> 0"
    and step: "mutex_step t s s'" and call: "tagged_call A ident t s s'"
  shows "book_inv A ident s'"
proof -
  have ctx: "ctx_inv (ident t + 1) (owner (mtx s)) (depth (mtx s)) (mpcs s t) (held s t)"
    using inv by (simp add: book_inv_def)
  have t: "t \<in> A" using call by (simp add: tagged_call_def)
  note quiet = book_quiet [OF inv t]
  note change = book_change [OF inv grd inj nz t]
  show ?thesis using step
  proof cases
    case (set_cpu c)
    then show ?thesis using inv by (simp add: book_inv_def)
  next
    case (enter c)
    then show ?thesis using ctx call
      by (intro quiet) (auto simp: sys_defs ctx_inv_def tagged_call_def)
  next
    case (spin c me)
    then show ?thesis using inv by (simp add: book_inv_def sys_defs spin_defs)
  next
    case (acquire c me)
    then show ?thesis using ctx by (intro quiet) (simp_all add: sys_defs spin_defs ctx_inv_def)
  next
    case (count c me)
    then show ?thesis using ctx by (intro quiet) (simp_all add: sys_defs spin_defs ctx_inv_def)
  next
    case (own c me)
    then show ?thesis using ctx by (intro quiet) (simp_all add: sys_defs spin_defs ctx_inv_def)
  next
    case (lock_free me)
    then show ?thesis using ctx by (intro quiet) (simp_all add: sys_defs ctx_inv_def)
  next
    case (lock_mine me)
    then have "owning (mpcs s t) (held s t)"
      using ctx by (intro book_owner_me [OF inv inj t]) (simp_all add: ctx_inv_def)
    then show ?thesis using lock_mine ctx by (intro quiet) (simp_all add: sys_defs ctx_inv_def)
  next
    case (lock_busy me)
    then show ?thesis using ctx by (intro quiet) (simp_all add: sys_defs ctx_inv_def)
  next
    case (take me)
    then have me: "me = ident t + 1" "held s t = 0" using ctx nz [OF t] by (auto simp: ctx_inv_def)
    show ?thesis using take ctx me by (intro change) (auto simp: sys_defs ctx_inv_def)
  next
    case (depth1 me)
    then show ?thesis using ctx by (intro change) (auto simp: sys_defs ctx_inv_def)
  next
    case (inc me)
    then have own: "owner (mtx s) = ident t + 1" "unat (depth (mtx s)) = held s t" "held s t + 1 < 2 ^ 32"
      using ctx by (auto simp: ctx_inv_def)
    then have "unat (depth (mtx s) + 1) = held s t + 1" by (subst unat_add1) simp_all
    then show ?thesis using inc ctx own by (intro change) (auto simp: sys_defs ctx_inv_def)
  next
    case (unlock_other me)
    then show ?thesis using ctx by (intro quiet) (simp_all add: sys_defs ctx_inv_def)
  next
    case (unlock_mine me)
    then have me: "owner (mtx s) = ident t + 1" using ctx by (simp add: ctx_inv_def)
    then have "owning (mpcs s t) (held s t)"
      using nz [OF t] by (intro book_owner_me [OF inv inj t]) simp_all
    then have "held s t > 0" using unlock_mine by simp
    then show ?thesis using unlock_mine ctx by (intro quiet) (auto simp: sys_defs ctx_inv_def)
  next
    case (deep me)
    then show ?thesis using ctx by (intro quiet) (simp_all add: sys_defs ctx_inv_def)
  next
    case (outer me)
    then show ?thesis using ctx by (intro quiet) (simp_all add: sys_defs ctx_inv_def)
  next
    case (dec me)
    then have own: "owner (mtx s) = ident t + 1" "unat (depth (mtx s)) = held s t + 1" "depth (mtx s) > 1"
      using ctx by (auto simp: ctx_inv_def)
    have "depth (mtx s) \<noteq> 0" using own(2) by auto
    then have "unat (depth (mtx s) - 1) = held s t" "held s t > 0"
      using own(2,3) by (simp_all add: word_less_nat_alt unat_minus1)
    then show ?thesis using dec ctx own by (intro change) (auto simp: sys_defs ctx_inv_def)
  next
    case (clear_depth me)
    then have own: "owner (mtx s) = ident t + 1" "unat (depth (mtx s)) = held s t + 1" "\<not> depth (mtx s) > 1"
      using ctx by (auto simp: ctx_inv_def)
    then have "held s t = 0" by (simp add: word_less_nat_alt)
    then show ?thesis using clear_depth ctx own by (intro change) (auto simp: sys_defs ctx_inv_def)
  next
    case (clear_owner me)
    then show ?thesis using ctx by (intro change) (auto simp: sys_defs ctx_inv_def)
  next
    case (disown r me)
    then show ?thesis using ctx by (cases r) (intro quiet; simp add: sys_defs spin_defs ctx_inv_def)+
  next
    case (retry me)
    then show ?thesis using ctx by (intro quiet) (simp_all add: sys_defs spin_defs ctx_inv_def)
  next
    case (locked me)
    then show ?thesis using ctx by (intro quiet) (simp_all add: sys_defs spin_defs ctx_inv_def)
  next
    case (unlocked b me)
    then show ?thesis using ctx by (intro quiet) (simp_all add: sys_defs spin_defs ctx_inv_def)
  qed
qed

lemma tagged_reach_inv:
  assumes "tagged_reach A ident s" and "inj_on ident A" and "\<And>u. u \<in> A \<Longrightarrow> ident u + 1 \<noteq> 0"
  shows "guard_inv s \<and> book_inv A ident s"
  using assms(1)
proof (induction rule: tagged_reach.induct)
  case (start s)
  then have "book_inv A ident s" by (simp add: book_inv_def ctx_inv_def mutex_startD)
  then show ?case using mutex_start_guard [OF start] by blast
next
  case (step s t s')
  then show ?case using book_step [OF _ _ assms(2,3)] guard_inv_step by blast
qed

section \<open>Running a context\<close>

text \<open>The next access of context \<open>t\<close>, which starts the call \<open>c\<close> when it is idle.\<close>

fun mutex_point :: "call \<Rightarrow> nat \<Rightarrow> msys \<Rightarrow> mpc \<Rightarrow> msys" where
  "mutex_point c t s Idle = go t (Acq c (cpu_id s + 1)) s"
| "mutex_point c t s (Acq k me) =
     (if locked (guard (mtx s)) = 0 then go t (Cnt k me) (on_guard (\<lambda>l. snd (spin_exchange l)) s)
      else on_guard (\<lambda>l. snd (spin_exchange l)) s)"
| "mutex_point c t s (Cnt k me) = go t (Own k me) (on_guard spin_count s)"
| "mutex_point c t s (Own k me) = go t (Test k me) (on_guard (spin_own (cpu_id s)) s)"
| "mutex_point c t s (Test CLock me) =
     (if owner (mtx s) = 0 then go t (LTake me) s
      else if owner (mtx s) = me then go t (LInc me) s else go t (Dis Retry me) s)"
| "mutex_point c t s (LTake me) = go t (LDepth me) (on_mutex (owner_update (\<lambda>_. me)) s)"
| "mutex_point c t s (LDepth me) = go t (Dis Locked me) (on_mutex (depth_update (\<lambda>_. 1)) s)"
| "mutex_point c t s (LInc me) = go t (Dis Locked me) (on_mutex (depth_update (\<lambda>d. d + 1)) s)"
| "mutex_point c t s (Test CUnlock me) =
     (if owner (mtx s) \<noteq> me then go t (Dis (Unlocked False) me) s
      else go t (UDepth me) (hold t (\<lambda>n. n - 1) s))"
| "mutex_point c t s (UDepth me) = (if depth (mtx s) > 1 then go t (UDec me) s else go t (UClearD me) s)"
| "mutex_point c t s (UDec me) = go t (Dis (Unlocked True) me) (on_mutex (depth_update (\<lambda>d. d - 1)) s)"
| "mutex_point c t s (UClearD me) = go t (UClearO me) (on_mutex (depth_update (\<lambda>_. 0)) s)"
| "mutex_point c t s (UClearO me) = go t (Dis (Unlocked True) me) (on_mutex (owner_update (\<lambda>_. 0)) s)"
| "mutex_point c t s (Dis r me) = go t (Rel r me) (on_guard spin_disown s)"
| "mutex_point c t s (Rel Retry me) = go t (Acq CLock me) (on_guard spin_store s)"
| "mutex_point c t s (Rel Locked me) = hold t Suc (go t Idle (on_guard spin_store s))"
| "mutex_point c t s (Rel (Unlocked b) me) = go t Idle (on_guard spin_store s)"

definition mutex_next :: "call \<Rightarrow> nat \<Rightarrow> msys \<Rightarrow> msys" where
  "mutex_next c t s = mutex_point c t s (mpcs s t)"

lemma mutex_next_step: "mutex_step t s (mutex_next c t s)"
proof -
  have "mpcs s t = p \<Longrightarrow> mutex_step t s (mutex_point c t s p)" for p
    by (induction c t s p rule: mutex_point.induct)
       (auto intro: mutex_step.intros simp del: One_nat_def)
  then show ?thesis by (simp add: mutex_next_def)
qed

text \<open>No context is ever stuck: it can always take a step of its own.\<close>

datatype event = SetCpu u32 | Run call nat

fun play :: "event list \<Rightarrow> msys \<Rightarrow> msys" where
  "play [] s = s"
| "play (SetCpu c # es) s = play es (s\<lparr>cpu_id := c\<rparr>)"
| "play (Run k t # es) s = play es (mutex_next k t s)"

lemma play_reach: "mutex_reach s \<Longrightarrow> mutex_reach (play es s)"
  by (induction es s rule: play.induct)
     (auto intro: mutex_reach.step mutex_next_step mutex_step.set_cpu)

fun tagged_play :: "nat set \<Rightarrow> (nat \<Rightarrow> u32) \<Rightarrow> event list \<Rightarrow> msys \<Rightarrow> bool" where
  "tagged_play A ident [] s = (A \<noteq> {})"
| "tagged_play A ident (SetCpu c # es) s = tagged_play A ident es (s\<lparr>cpu_id := c\<rparr>)"
| "tagged_play A ident (Run k t # es) s =
     (t \<in> A \<and> (mpcs s t = Idle \<longrightarrow> cpu_id s = ident t \<and> held s t + 1 < 2 ^ 32) \<and>
      tagged_play A ident es (mutex_next k t s))"

lemma play_tagged: "tagged_reach A ident s \<Longrightarrow> tagged_play A ident es s \<Longrightarrow> tagged_reach A ident (play es s)"
proof (induction A ident es s rule: tagged_play.induct)
  case (2 A ident c es s)
  have "tagged_play A ident es x \<Longrightarrow> A \<noteq> {}" for x by (induction A ident es x rule: tagged_play.induct) auto
  then obtain t where "t \<in> A" using 2(3) by fastforce
  then have "tagged_reach A ident (s\<lparr>cpu_id := c\<rparr>)"
    by (intro tagged_reach.step [OF 2(2) mutex_step.set_cpu [of t]]) (simp add: tagged_call_def)
  then show ?case using 2 by simp
next
  case (3 A ident k t es s)
  have "tagged_reach A ident (mutex_next k t s)"
    using 3(3) by (intro tagged_reach.step [OF 3(2) mutex_next_step]) (simp add: tagged_call_def)
  then show ?case using 3 by simp
qed simp

definition mutex_boot :: msys where
  "mutex_boot = \<lparr>mtx = \<lparr>guard = \<lparr>locked = 0, lock_owner = 0, acquisitions = 0\<rparr>, owner = 0, depth = 0,
     initialized = True\<rparr>, cpu_id = 0, mpcs = (\<lambda>_. Idle), held = (\<lambda>_. 0)\<rparr>"

lemma mutex_boot_start: "mutex_start mutex_boot"
  by (simp add: mutex_start_def mutex_boot_def owsync_mutex_init_def)

section \<open>Properties of the mutex\<close>

text \<open>In every reachable state of any interleaving of any number of contexts that lock and
  unlock one mutex, whatever they set \<open>owsync64_cpu_id\<close> to, at most one context is between the
  acquisition and the release of the mutex's spinlock.\<close>

theorem owsync_spinlock_exclusive:
  assumes "mutex_reach s" and "in_guard (mpcs s t)" and "u \<noteq> t"
  shows "\<not> in_guard (mpcs s u)"
  using guard_excl_unique [OF mutex_reach_guard [OF assms(1), unfolded guard_inv_def] assms(2), of u] assms(3)
  by blast

theorem owsync_spinlock_exclusive_witness:
  "mutex_reach (play [Run CLock 0, Run CLock 1, Run CLock 0, Run CLock 1] mutex_boot) \<and>
   \<not> in_guard (mpcs (play [Run CLock 0, Run CLock 1, Run CLock 0, Run CLock 1] mutex_boot) 1)"
proof -
  let ?s = "play [Run CLock 0, Run CLock 1, Run CLock 0, Run CLock 1] mutex_boot"
  have r: "mutex_reach ?s" by (rule play_reach [OF mutex_reach.start [OF mutex_boot_start]])
  have "in_guard (mpcs ?s 0)" by (simp add: mutex_boot_def mutex_next_def sys_defs spin_defs)
  from owsync_spinlock_exclusive [OF r this, of 1] r show ?thesis by simp
qed

text \<open>C25: Conditional mutual exclusion. Consider an execution in which, at every step at which a
  lock or unlock call reads the shared variable \<open>owsync64_cpu_id\<close>, the variable holds the identity
  of the calling context: no other context has changed it between the setting and the read. When the
  identities are distinct and none of them is 2^32 - 1, and no context nests 2^32 acquisitions, at
  most one context holds the mutex in every reachable state; while one does, \<open>owner\<close> is its
  identity plus one. Without the condition on the read the mutex does not exclude.\<close>

theorem owsync_mutex_exclusive:
  assumes "tagged_reach A ident s" and "inj_on ident A" and "\<forall>t \<in> A. ident t + 1 \<noteq> 0" and "held s t > 0"
  shows "owner (mtx s) = ident t + 1 \<and> (\<forall>u. u \<noteq> t \<longrightarrow> held s u = 0)"
proof -
  have inv: "book_inv A ident s" using tagged_reach_inv [OF assms(1,2)] assms(3) by blast
  have own: "owner (mtx s) = ident u + 1 \<and> u \<in> A" if "held s u > 0" for u
    using inv that by (auto simp: book_inv_def ctx_inv_def)
  then have "ident u = ident t \<and> u \<in> A \<and> t \<in> A" if "held s u > 0" for u
    using own [OF that] own [OF assms(4)] by simp
  then have "u = t" if "held s u > 0" for u using that assms(2) by (auto dest: inj_onD)
  then show ?thesis using own [OF assms(4)] by (metis gr0I)
qed

definition two_locks :: "event list" where
  "two_locks = SetCpu 0 # replicate 9 (Run CLock 0) @ SetCpu 1 # replicate 9 (Run CLock 1)"

lemma replicate_9: "replicate 9 x = [x, x, x, x, x, x, x, x, x]"
  by (simp add: eval_nat_numeral)

theorem owsync_mutex_exclusive_witness:
  "tagged_reach {0, 1} of_nat (play two_locks mutex_boot) \<and> held (play two_locks mutex_boot) 0 = 1 \<and>
   owner (mtx (play two_locks mutex_boot)) = 1 \<and> held (play two_locks mutex_boot) 1 = 0"
proof -
  let ?s = "play two_locks mutex_boot"
  have inj: "inj_on (of_nat :: nat \<Rightarrow> u32) {0, 1}" by (simp add: inj_on_def)
  have "tagged_play {0, 1} of_nat two_locks mutex_boot"
    by (simp add: two_locks_def replicate_9 mutex_boot_def mutex_next_def sys_defs spin_defs)
  then have r: "tagged_reach {0, 1} of_nat ?s"
    by (rule play_tagged [OF tagged_reach.start [OF mutex_boot_start]])
  have h: "held ?s 0 = 1"
    by (simp add: two_locks_def replicate_9 mutex_boot_def mutex_next_def sys_defs spin_defs)
  show ?thesis using owsync_mutex_exclusive [OF r inj, of 0] r h by simp
qed

text \<open>\<open>owsync64_cpu_id\<close> is one variable for all contexts. Two contexts that set distinct
  identities, one after the other, and then lock the same mutex both hold it: the second call
  finds the token of the first and takes it for a recursive acquisition.\<close>

theorem owsync_mutex_shared_identity:
  "\<exists>s. mutex_reach s \<and> s = play (SetCpu 1 # SetCpu 2 # replicate 9 (Run CLock 0) @ replicate 8 (Run CLock 1)) mutex_boot
     \<and> held s 0 = 1 \<and> held s 1 = 1"
proof -
  have 8: "replicate 8 x = [x, x, x, x, x, x, x, x]" for x :: event by (simp add: eval_nat_numeral)
  let ?s = "play (SetCpu 1 # SetCpu 2 # replicate 9 (Run CLock 0) @ replicate 8 (Run CLock 1)) mutex_boot"
  have "held ?s 0 = 1 \<and> held ?s 1 = 1"
    by (simp add: replicate_9 8 mutex_boot_def mutex_next_def sys_defs spin_defs)
  then show ?thesis using play_reach [OF mutex_reach.start [OF mutex_boot_start]] by blast
qed

section \<open>The barrier\<close>

text \<open>
  Program points of \<open>owsync_barrier\<close>; the word is the local variable \<open>generation\<close>. The
  system also records how many arrivals and completed rounds there were, and for a context the
  round that it joined when it read the generation.
\<close>

datatype bpc = BIdle | BAcq | BCnt | BOwn | BGen | BArr u32 | BTest u32 | BReset u32 | BBump u32
  | BDis u32 | BRel u32 | BSpin u32

record bsys =
  bar :: owbarrier_t
  bcpu :: u32
  bpcs :: "nat \<Rightarrow> bpc"
  arrivals :: nat
  rounds :: nat
  joined :: "nat \<Rightarrow> nat"

definition bgo :: "nat \<Rightarrow> bpc \<Rightarrow> bsys \<Rightarrow> bsys" where
  "bgo t p s = s\<lparr>bpcs := (bpcs s)(t := p)\<rparr>"

definition on_bguard :: "(owspinlock_t \<Rightarrow> owspinlock_t) \<Rightarrow> bsys \<Rightarrow> bsys" where
  "on_bguard f s = s\<lparr>bar := (bar s)\<lparr>bguard := f (bguard (bar s))\<rparr>\<rparr>"

definition on_bar :: "(owbarrier_t \<Rightarrow> owbarrier_t) \<Rightarrow> bsys \<Rightarrow> bsys" where
  "on_bar f s = s\<lparr>bar := f (bar s)\<rparr>"

lemmas bsys_defs = bgo_def on_bguard_def on_bar_def

inductive barrier_step :: "nat \<Rightarrow> bsys \<Rightarrow> bsys \<Rightarrow> bool" for t :: nat where
  bset_cpu: "barrier_step t s (s\<lparr>bcpu := c\<rparr>)"
| benter: "bpcs s t = BIdle \<Longrightarrow> binitialized (bar s) \<Longrightarrow> expected (bar s) \<noteq> 0 \<Longrightarrow>
    barrier_step t s (bgo t BAcq s)"
| bspin: "bpcs s t = BAcq \<Longrightarrow> fst (spin_exchange (bguard (bar s))) \<noteq> 0 \<Longrightarrow>
    barrier_step t s (on_bguard (\<lambda>l. snd (spin_exchange l)) s)"
| bacquire: "bpcs s t = BAcq \<Longrightarrow> fst (spin_exchange (bguard (bar s))) = 0 \<Longrightarrow>
    barrier_step t s (bgo t BCnt (on_bguard (\<lambda>l. snd (spin_exchange l)) s))"
| bcount: "bpcs s t = BCnt \<Longrightarrow> barrier_step t s (bgo t BOwn (on_bguard spin_count s))"
| bown: "bpcs s t = BOwn \<Longrightarrow> barrier_step t s (bgo t BGen (on_bguard (spin_own (bcpu s)) s))"
| bgen: "bpcs s t = BGen \<Longrightarrow>
    barrier_step t s ((bgo t (BArr (generation (bar s))) s)\<lparr>joined := (joined s)(t := rounds s)\<rparr>)"
| barrive: "bpcs s t = BArr g \<Longrightarrow>
    barrier_step t s ((bgo t (BTest g) (on_bar (arrived_update (\<lambda>a. a + 1)) s))\<lparr>arrivals := arrivals s + 1\<rparr>)"
| blast_one: "bpcs s t = BTest g \<Longrightarrow> arrived (bar s) \<ge> expected (bar s) \<Longrightarrow> barrier_step t s (bgo t (BReset g) s)"
| bnot_last: "bpcs s t = BTest g \<Longrightarrow> \<not> arrived (bar s) \<ge> expected (bar s) \<Longrightarrow> barrier_step t s (bgo t (BDis g) s)"
| breset: "bpcs s t = BReset g \<Longrightarrow> barrier_step t s (bgo t (BBump g) (on_bar (arrived_update (\<lambda>_. 0)) s))"
| bbump: "bpcs s t = BBump g \<Longrightarrow>
    barrier_step t s ((bgo t (BDis g) (on_bar (generation_update (\<lambda>x. x + 1)) s))\<lparr>rounds := rounds s + 1\<rparr>)"
| bdisown: "bpcs s t = BDis g \<Longrightarrow> barrier_step t s (bgo t (BRel g) (on_bguard spin_disown s))"
| brelease: "bpcs s t = BRel g \<Longrightarrow> barrier_step t s (bgo t (BSpin g) (on_bguard spin_store s))"
| bwait: "bpcs s t = BSpin g \<Longrightarrow> generation (bar s) = g \<Longrightarrow> barrier_step t s s"
| bleave: "bpcs s t = BSpin g \<Longrightarrow> generation (bar s) \<noteq> g \<Longrightarrow> barrier_step t s (bgo t BIdle s)"

definition barrier_start :: "u32 \<Rightarrow> bsys \<Rightarrow> bool" where
  "barrier_start n s \<longleftrightarrow> (\<exists>b. owsync_barrier_init (Ref b) n = (True, Ref (bar s))) \<and>
     (\<forall>t. bpcs s t = BIdle) \<and> arrivals s = 0 \<and> rounds s = 0"

inductive barrier_reach :: "u32 \<Rightarrow> bsys \<Rightarrow> bool" for n :: u32 where
  start: "barrier_start n s \<Longrightarrow> barrier_reach n s"
| step: "barrier_reach n s \<Longrightarrow> barrier_step t s s' \<Longrightarrow> barrier_reach n s'"

fun in_bguard :: "bpc \<Rightarrow> bool" where
  "in_bguard BIdle = False"
| "in_bguard BAcq = False"
| "in_bguard (BSpin _) = False"
| "in_bguard _ = True"

text \<open>The tally of the round in progress, by the program point of the context in the guard.\<close>

fun bar_tally :: "nat \<Rightarrow> nat \<Rightarrow> nat \<Rightarrow> nat \<Rightarrow> bpc \<Rightarrow> bool" where
  "bar_tally n a r k (BTest _) = (a = r * n + k \<and> k \<le> n)"
| "bar_tally n a r k (BReset _) = (a = r * n + k \<and> k = n)"
| "bar_tally n a r k (BBump _) = (a = r * n + n \<and> k = 0)"
| "bar_tally n a r k _ = (a = r * n + k \<and> k < n)"

fun bpc_gen :: "bpc \<Rightarrow> u32 option" where
  "bpc_gen (BArr g) = Some g"
| "bpc_gen (BTest g) = Some g"
| "bpc_gen (BReset g) = Some g"
| "bpc_gen (BBump g) = Some g"
| "bpc_gen (BDis g) = Some g"
| "bpc_gen (BRel g) = Some g"
| "bpc_gen (BSpin g) = Some g"
| "bpc_gen _ = None"

definition bar_inv :: "nat \<Rightarrow> bsys \<Rightarrow> bool" where
  "bar_inv n s \<longleftrightarrow>
     guard_excl (\<lambda>t. in_bguard (bpcs s t)) (locked (bguard (bar s))) \<and>
     unat (expected (bar s)) = n \<and> 0 < n \<and> generation (bar s) = of_nat (rounds s) \<and>
     (\<forall>t g. bpc_gen (bpcs s t) = Some g \<longrightarrow> g = of_nat (joined s t) \<and> joined s t \<le> rounds s) \<and>
     (\<forall>t. in_bguard (bpcs s t) \<longrightarrow> bar_tally n (arrivals s) (rounds s) (unat (arrived (bar s))) (bpcs s t)) \<and>
     ((\<forall>t. \<not> in_bguard (bpcs s t)) \<longrightarrow> bar_tally n (arrivals s) (rounds s) (unat (arrived (bar s))) BIdle)"

lemma bar_inv_inside:
  assumes inv: "bar_inv n s" and "in_bguard (bpcs s t)"
    and "\<And>u. u \<noteq> t \<Longrightarrow> bpcs s' u = bpcs s u" and "\<And>u. u \<noteq> t \<Longrightarrow> joined s' u = joined s u"
    and "expected (bar s') = expected (bar s)" and "generation (bar s') = of_nat (rounds s')"
    and "rounds s \<le> rounds s'"
    and "\<And>g. bpc_gen (bpcs s' t) = Some g \<Longrightarrow> g = of_nat (joined s' t) \<and> joined s' t \<le> rounds s'"
    and "if in_bguard (bpcs s' t)
         then locked (bguard (bar s')) = locked (bguard (bar s)) \<and>
              bar_tally n (arrivals s') (rounds s') (unat (arrived (bar s'))) (bpcs s' t)
         else locked (bguard (bar s')) = 0 \<and>
              bar_tally n (arrivals s') (rounds s') (unat (arrived (bar s'))) BIdle"
  shows "bar_inv n s'"
proof -
  let ?ins = "\<lambda>t. in_bguard (bpcs s t)" and ?ins' = "\<lambda>t. in_bguard (bpcs s' t)"
  have ex: "guard_excl ?ins (locked (bguard (bar s)))" using inv by (simp add: bar_inv_def)
  have out: "\<not> ?ins u" if "u \<noteq> t" for u using guard_excl_unique [OF ex assms(2), of u] that by auto
  have ins': "?ins' = ?ins(t := ?ins' t)" by (rule ext) (simp add: assms(3))
  have ex': "guard_excl ?ins' (locked (bguard (bar s')))"
  proof (cases "?ins' t")
    case True
    then show ?thesis using guard_excl_keep [OF ex, of t True] assms(2,9) ins' by simp
  next
    case False
    then show ?thesis using guard_excl_leave [OF ex assms(2)] assms(9) ins' by simp
  qed
  have join: "g = of_nat (joined s' u) \<and> joined s' u \<le> rounds s'" if "bpc_gen (bpcs s' u) = Some g" for u g
  proof (cases "u = t")
    case False
    then have "g = of_nat (joined s u) \<and> joined s u \<le> rounds s"
      using inv that assms(3) by (simp add: bar_inv_def)
    then show ?thesis using assms(4) [OF False] assms(7) by simp
  qed (use that assms(8) in simp)
  have tally: "bar_tally n (arrivals s') (rounds s') (unat (arrived (bar s'))) (bpcs s' u)" if "?ins' u" for u
    using that out [of u] assms(3) [of u] assms(9) by (cases "u = t") simp_all
  have "bar_tally n (arrivals s') (rounds s') (unat (arrived (bar s'))) BIdle" if "\<forall>u. \<not> ?ins' u"
    using that assms(9) by simp
  then show ?thesis
    using ex' join tally inv assms(5,6) unfolding bar_inv_def by simp
qed

lemma bar_inv_outside:
  assumes inv: "bar_inv n s" and "\<not> in_bguard (bpcs s t)" and "\<not> in_bguard (bpcs s' t)"
    and "\<And>u. u \<noteq> t \<Longrightarrow> bpcs s' u = bpcs s u" and "joined s' = joined s" and "rounds s' = rounds s"
    and "arrivals s' = arrivals s" and "expected (bar s') = expected (bar s)"
    and "generation (bar s') = generation (bar s)" and "arrived (bar s') = arrived (bar s)"
    and "locked (bguard (bar s')) = 0 \<longleftrightarrow> locked (bguard (bar s)) = 0"
    and "bpc_gen (bpcs s' t) = None \<or> bpcs s' t = bpcs s t"
  shows "bar_inv n s'"
proof -
  have same: "in_bguard (bpcs s' u) = in_bguard (bpcs s u)" for u
    using assms(2-4) by (cases "u = t") simp_all
  have "guard_excl (\<lambda>t. in_bguard (bpcs s' t)) (locked (bguard (bar s')))"
    using inv assms(11) unfolding same by (simp add: bar_inv_def guard_excl_def)
  moreover have "bpc_gen (bpcs s' u) = Some g \<Longrightarrow> g = of_nat (joined s u) \<and> joined s u \<le> rounds s" for u g
    using inv assms(4) [of u] assms(12) unfolding bar_inv_def by (cases "u = t") auto
  moreover have "bar_tally n (arrivals s) (rounds s) (unat (arrived (bar s))) (bpcs s' u)"
    if "in_bguard (bpcs s' u)" for u
  proof -
    have "u \<noteq> t" using that assms(3) by auto
    then show ?thesis using inv that assms(4) by (simp add: bar_inv_def)
  qed
  ultimately show ?thesis
    using inv assms(5-10) unfolding bar_inv_def same by simp
qed

lemma bar_inv_acquire:
  assumes inv: "bar_inv n s" and "bpcs s t = BAcq" and "locked (bguard (bar s)) = 0"
    and "s' = bgo t BCnt (on_bguard (\<lambda>l. snd (spin_exchange l)) s)"
  shows "bar_inv n s'"
proof -
  have ex: "guard_excl (\<lambda>t. in_bguard (bpcs s t)) 0" using inv assms(3) by (simp add: bar_inv_def)
  then have out: "\<not> in_bguard (bpcs s u)" for u by (auto simp: guard_excl_def)
  have pcs: "bpcs s' = (bpcs s)(t := BCnt)" by (simp add: assms(4) bsys_defs)
  have "guard_excl (\<lambda>t. in_bguard (bpcs s' t)) (locked (bguard (bar s')))"
    using guard_excl_enter [OF ex, of "locked (bguard (bar s'))" t]
    unfolding pcs upd_point by (simp add: assms(4) bsys_defs spin_defs)
  moreover have "bpc_gen (bpcs s' u) = Some g \<Longrightarrow> g = of_nat (joined s u) \<and> joined s u \<le> rounds s" for u g
    using inv unfolding pcs bar_inv_def by (cases "u = t") auto
  moreover have "bar_tally n (arrivals s) (rounds s) (unat (arrived (bar s))) BIdle"
    using inv out by (simp add: bar_inv_def)
  moreover have "in_bguard (bpcs s' u) \<longleftrightarrow> u = t" for u using out by (simp add: pcs)
  moreover have "joined s' = joined s" "rounds s' = rounds s" "arrivals s' = arrivals s"
    "expected (bar s') = expected (bar s)" "generation (bar s') = generation (bar s)"
    "arrived (bar s') = arrived (bar s)" "bpcs s' t = BCnt"
    by (simp_all add: assms(4) bsys_defs)
  ultimately show ?thesis
    using inv unfolding bar_inv_def by simp
qed

lemma bar_inv_step:
  assumes inv: "bar_inv n s" and step: "barrier_step t s s'"
  shows "bar_inv n s'"
proof -
  have gen: "generation (bar s) = of_nat (rounds s)" and exp: "unat (expected (bar s)) = n"
    and join: "bpc_gen (bpcs s t) = Some g \<Longrightarrow> g = of_nat (joined s t) \<and> joined s t \<le> rounds s"
    and tally: "in_bguard (bpcs s t) \<Longrightarrow>
      bar_tally n (arrivals s) (rounds s) (unat (arrived (bar s))) (bpcs s t)" for g
    using inv by (auto simp: bar_inv_def)
  note inside = bar_inv_inside [OF inv, of t] and outside = bar_inv_outside [OF inv, of t]
  show ?thesis using step
  proof cases
    case (bset_cpu c)
    then show ?thesis using inv by (simp add: bar_inv_def)
  next
    case benter
    then show ?thesis by (intro outside) (simp_all add: bsys_defs)
  next
    case bspin
    then show ?thesis by (intro outside) (simp_all add: bsys_defs spin_defs)
  next
    case bacquire
    then show ?thesis by (intro bar_inv_acquire [OF inv]) simp_all
  next
    case (barrive g)
    have "unat (arrived (bar s)) < n" using tally barrive by simp
    moreover have "n < 2 ^ 32" using exp unsigned_less [of "expected (bar s)", where ?'a = nat] by auto
    ultimately have "unat (arrived (bar s) + 1) = Suc (unat (arrived (bar s)))" by (intro unat_add1) simp
    then show ?thesis using barrive gen join tally by (intro inside) (simp_all add: bsys_defs)
  next
    case (blast_one g)
    then show ?thesis using gen join tally exp
      by (intro inside) (simp_all add: bsys_defs word_le_nat_alt)
  next
    case (bnot_last g)
    then show ?thesis using gen join tally exp
      by (intro inside) (simp_all add: bsys_defs word_le_nat_alt)
  next
    case (breset g)
    then show ?thesis using gen join tally by (intro inside) (simp_all add: bsys_defs)
  next
    case (bbump g)
    have "0 < n" using inv by (simp add: bar_inv_def)
    then show ?thesis using bbump gen join tally by (intro inside) (simp_all add: bsys_defs)
  next
    case (bwait g)
    then show ?thesis using inv by simp
  next
    case (bleave g)
    then show ?thesis by (intro outside) (simp_all add: bsys_defs)
  qed (use gen join tally in \<open>intro inside; simp add: bsys_defs spin_defs\<close>)+
qed

lemma barrier_start_inv: "barrier_start n s \<Longrightarrow> bar_inv (unat n) s"
proof -
  assume start: "barrier_start n s"
  then have "n \<noteq> 0" "bar s = \<lparr>bguard = \<lparr>locked = 0, lock_owner = 0, acquisitions = 0\<rparr>, generation = 0,
      expected = n, arrived = 0, binitialized = True\<rparr>"
    by (auto simp: barrier_start_def owsync_barrier_init_def split: if_splits)
  then show ?thesis using start by (simp add: barrier_start_def bar_inv_def guard_excl_def)
qed

lemma barrier_reach_inv: "barrier_reach n s \<Longrightarrow> bar_inv (unat n) s"
  by (induction rule: barrier_reach.induct) (auto intro: barrier_start_inv bar_inv_step)

text \<open>The state of a call: a context at the final loop leaves when the generation has moved.\<close>

definition may_leave :: "bsys \<Rightarrow> nat \<Rightarrow> bool" where
  "may_leave s t = (case bpcs s t of BSpin g \<Rightarrow> generation (bar s) \<noteq> g | _ \<Rightarrow> False)"

lemma bar_rounds_arrivals:
  assumes "bar_inv n s"
  shows "rounds s * n \<le> arrivals s"
proof (cases "\<exists>t. in_bguard (bpcs s t)")
  case True
  then obtain t where "in_bguard (bpcs s t)" by blast
  then have "bar_tally n (arrivals s) (rounds s) (unat (arrived (bar s))) (bpcs s t)"
    using assms by (simp add: bar_inv_def)
  then show ?thesis by (cases "bpcs s t") auto
qed (use assms in \<open>simp add: bar_inv_def\<close>)

section \<open>Property of the barrier\<close>

text \<open>C32: in every interleaving, a context that joined round \<open>r\<close> of a barrier for \<open>n\<close>
  participants can return from \<open>owsync_barrier\<close> only after all \<open>n\<close> arrivals of that round
  (and of all earlier rounds) have happened.\<close>

theorem owsync_barrier_waits:
  assumes "barrier_reach n s" and "may_leave s t"
  shows "Suc (joined s t) * unat n \<le> arrivals s"
proof -
  have inv: "bar_inv (unat n) s" using assms(1) by (rule barrier_reach_inv)
  obtain g where g: "bpcs s t = BSpin g" "generation (bar s) \<noteq> g"
    using assms(2) by (auto simp: may_leave_def split: bpc.splits)
  then have "g = of_nat (joined s t)" "joined s t \<le> rounds s" "generation (bar s) = of_nat (rounds s)"
    using inv by (auto simp: bar_inv_def)
  then have "joined s t \<noteq> rounds s" using g(2) by auto
  then have "Suc (joined s t) * unat n \<le> rounds s * unat n"
    using \<open>joined s t \<le> rounds s\<close> by (intro mult_le_mono1) simp
  also have "\<dots> \<le> arrivals s" by (rule bar_rounds_arrivals [OF inv])
  finally show ?thesis .
qed

text \<open>The next access of a context at the barrier.\<close>

fun barrier_point :: "nat \<Rightarrow> bsys \<Rightarrow> bpc \<Rightarrow> bsys" where
  "barrier_point t s BIdle = bgo t BAcq s"
| "barrier_point t s BAcq =
     (if locked (bguard (bar s)) = 0 then bgo t BCnt (on_bguard (\<lambda>l. snd (spin_exchange l)) s)
      else on_bguard (\<lambda>l. snd (spin_exchange l)) s)"
| "barrier_point t s BCnt = bgo t BOwn (on_bguard spin_count s)"
| "barrier_point t s BOwn = bgo t BGen (on_bguard (spin_own (bcpu s)) s)"
| "barrier_point t s BGen = (bgo t (BArr (generation (bar s))) s)\<lparr>joined := (joined s)(t := rounds s)\<rparr>"
| "barrier_point t s (BArr g) =
     (bgo t (BTest g) (on_bar (arrived_update (\<lambda>a. a + 1)) s))\<lparr>arrivals := arrivals s + 1\<rparr>"
| "barrier_point t s (BTest g) =
     (if arrived (bar s) \<ge> expected (bar s) then bgo t (BReset g) s else bgo t (BDis g) s)"
| "barrier_point t s (BReset g) = bgo t (BBump g) (on_bar (arrived_update (\<lambda>_. 0)) s)"
| "barrier_point t s (BBump g) =
     (bgo t (BDis g) (on_bar (generation_update (\<lambda>x. x + 1)) s))\<lparr>rounds := rounds s + 1\<rparr>"
| "barrier_point t s (BDis g) = bgo t (BRel g) (on_bguard spin_disown s)"
| "barrier_point t s (BRel g) = bgo t (BSpin g) (on_bguard spin_store s)"
| "barrier_point t s (BSpin g) = (if generation (bar s) = g then s else bgo t BIdle s)"

definition barrier_next :: "bsys \<Rightarrow> nat \<Rightarrow> bsys" where
  "barrier_next s t = (if binitialized (bar s) \<and> expected (bar s) \<noteq> 0 then barrier_point t s (bpcs s t) else s)"

lemma barrier_next_reach:
  assumes "barrier_reach n s"
  shows "barrier_reach n (barrier_next s t)"
proof -
  have "bpcs s t = p \<Longrightarrow> binitialized (bar s) \<Longrightarrow> expected (bar s) \<noteq> 0 \<Longrightarrow>
      barrier_step t s (barrier_point t s p)" for p
    by (induction t s p rule: barrier_point.induct) (auto intro: barrier_step.intros simp del: One_nat_def)
  then show ?thesis using assms by (auto simp: barrier_next_def intro: barrier_reach.step)
qed

lemma barrier_play_reach: "barrier_reach n s \<Longrightarrow> barrier_reach n (foldl barrier_next s ts)"
  by (induction ts arbitrary: s) (auto intro: barrier_next_reach)

definition barrier_boot :: bsys where
  "barrier_boot = \<lparr>bar = \<lparr>bguard = \<lparr>locked = 0, lock_owner = 0, acquisitions = 0\<rparr>, generation = 0,
     expected = 2, arrived = 0, binitialized = True\<rparr>, bcpu = 0, bpcs = (\<lambda>_. BIdle), arrivals = 0,
     rounds = 0, joined = (\<lambda>_. 0)\<rparr>"

theorem owsync_barrier_waits_witness:
  "\<exists>s. barrier_reach 2 s \<and> may_leave s 0 \<and> joined s 0 = 0 \<and> 2 \<le> arrivals s"
proof -
  let ?s = "foldl barrier_next barrier_boot (replicate 9 0 @ replicate 9 (1 :: nat))"
  have "barrier_start 2 barrier_boot"
    by (simp add: barrier_start_def barrier_boot_def owsync_barrier_init_def)
  then have r: "barrier_reach 2 ?s" by (intro barrier_play_reach barrier_reach.start)
  have l: "may_leave ?s 0" "joined ?s 0 = 0" by code_simp+
  obtain s where s: "barrier_reach 2 s" "may_leave s 0" "joined s 0 = 0" using r l by blast
  have "2 \<le> arrivals s" using owsync_barrier_waits [OF s(1,2)] s(3) by simp
  then show ?thesis using s by blast
qed

end
