(* ===== verification/Acl.thy ===== *)
theory Acl
  imports Prelude
begin

text \<open>
  Access control, \<open>src/DLL/owacl64/owacl64.c\<close>: a static table of security descriptors, each
  with an owner and a list of at most sixteen access control entries, and the access check. The
  check is shown to decide exactly the declarative policy: a denied entry that applies wins
  whatever the order of the entries, and everything requested has to be granted by an entry or
  by ownership.
\<close>

unbundle bit_operations_syntax

section \<open>Model\<close>

type_synonym OW_STATUS = u32

abbreviation OW_SUCCESS :: OW_STATUS where "OW_SUCCESS \<equiv> 0"
abbreviation OW_ERR_NULL_POINTER :: OW_STATUS where "OW_ERR_NULL_POINTER \<equiv> 0x0011AEE1"
abbreviation OW_ERR_NOT_FOUND :: OW_STATUS where "OW_ERR_NOT_FOUND \<equiv> 0x0011AEE2"
abbreviation OW_ERR_ALREADY_EXISTS :: OW_STATUS where "OW_ERR_ALREADY_EXISTS \<equiv> 0x0011AEE3"
abbreviation OW_ERR_INSUFFICIENT :: OW_STATUS where "OW_ERR_INSUFFICIENT \<equiv> 0x0011AEE4"
abbreviation OW_ERR_ACCESS_DENIED :: OW_STATUS where "OW_ERR_ACCESS_DENIED \<equiv> 0x0011AEE5"

abbreviation OW_SID_SYSTEM :: u32 where "OW_SID_SYSTEM \<equiv> 1"
abbreviation OW_SID_ADMINISTRATOR :: u32 where "OW_SID_ADMINISTRATOR \<equiv> 2"
abbreviation OW_SID_EVERYONE :: u32 where "OW_SID_EVERYONE \<equiv> 0xFFFF"

abbreviation OW_ACCESS_READ_CONTROL :: u32 where "OW_ACCESS_READ_CONTROL \<equiv> 0x00020000"
abbreviation OW_ACCESS_WRITE_DAC :: u32 where "OW_ACCESS_WRITE_DAC \<equiv> 0x00040000"

abbreviation OW_ACE_TYPE_ACCESS_ALLOWED :: u8 where "OW_ACE_TYPE_ACCESS_ALLOWED \<equiv> 0"
abbreviation OW_ACE_TYPE_ACCESS_DENIED :: u8 where "OW_ACE_TYPE_ACCESS_DENIED \<equiv> 1"

record OW_ACE =
  Type :: u8
  Flags :: u8
  Reserved :: u16
  Sid :: u32
  AccessMask :: u32

record OW_ACL =
  AceCount :: u16
  AclSize :: u16
  Aces :: "OW_ACE list"

record OW_SECURITY_DESCRIPTOR =
  InUse :: bool
  ObjectName :: string
  OwnerSid :: u32
  GroupSid :: u32
  Dacl :: OW_ACL

record acl_state =
  g_SecurityTable :: "OW_SECURITY_DESCRIPTOR list"
  g_AclInitialized :: bool

definition zero_ace :: OW_ACE where
  "zero_ace = \<lparr>Type = 0, Flags = 0, Reserved = 0, Sid = 0, AccessMask = 0\<rparr>"

definition zero_descriptor :: OW_SECURITY_DESCRIPTOR where
  "zero_descriptor = \<lparr>InUse = False, ObjectName = [], OwnerSid = 0, GroupSid = 0,
     Dacl = \<lparr>AceCount = 0, AclSize = 0, Aces = replicate 16 zero_ace\<rparr>\<rparr>"

definition OwAclInitialize :: "acl_state \<Rightarrow> OW_STATUS \<times> acl_state" where
  "OwAclInitialize st =
     (OW_SUCCESS, \<lparr>g_SecurityTable = replicate 64 zero_descriptor, g_AclInitialized = True\<rparr>)"

text \<open>
  A pointer to a descriptor of the table is its index. \<open>sizeof(OW_ACL)\<close> is 196: two 16-bit
  counters and sixteen entries of twelve bytes.
\<close>

definition OwAclCreateSecurityDescriptor ::
  "acl_state \<Rightarrow> string ptr \<Rightarrow> u32 \<Rightarrow> u32 \<Rightarrow> nat ptr ptr \<Rightarrow> OW_STATUS \<times> nat ptr ptr \<times> acl_state" where
  "OwAclCreateSecurityDescriptor st name owner grp OutDesc =
     (case (name, OutDesc) of
        (Ref n, Ref _) \<Rightarrow>
          let st1 = (if \<not> g_AclInitialized st then snd (OwAclInitialize st) else st);
              tab = g_SecurityTable st1 in
          (case first_index (\<lambda>d. InUse d \<and> c_streq (ObjectName d) n) tab of
             Some _ \<Rightarrow> (OW_ERR_ALREADY_EXISTS, OutDesc, st1)
           | None \<Rightarrow>
              (case first_index (\<lambda>d. \<not> InUse d) tab of
                 Some i \<Rightarrow>
                   (OW_SUCCESS, Ref (Ref i), st1\<lparr>g_SecurityTable := tab[i := (tab ! i)\<lparr>InUse := True,
                      ObjectName := c_strcopy 48 name, OwnerSid := owner, GroupSid := grp,
                      Dacl := (Dacl (tab ! i))\<lparr>AceCount := 0, AclSize := 196\<rparr>\<rparr>]\<rparr>)
               | None \<Rightarrow> (OW_ERR_INSUFFICIENT, OutDesc, st1)))
      | _ \<Rightarrow> (OW_ERR_NULL_POINTER, OutDesc, st))"

definition add_ace ::
  "u8 \<Rightarrow> OW_SECURITY_DESCRIPTOR ptr \<Rightarrow> u32 \<Rightarrow> u32 \<Rightarrow> (OW_STATUS \<times> OW_SECURITY_DESCRIPTOR ptr) comp" where
  "add_ace ty Desc sid rights =
     (case Desc of NULL \<Rightarrow> Some (OW_ERR_NULL_POINTER, Desc)
      | Ref d \<Rightarrow>
         if AceCount (Dacl d) \<ge> 16 then Some (OW_ERR_INSUFFICIENT, Desc)
         else do { aces \<leftarrow> c_wr (Aces (Dacl d)) (unat (AceCount (Dacl d)))
                     \<lparr>Type = ty, Flags = 0, Reserved = 0, Sid = sid, AccessMask = rights\<rparr>;
                   Some (OW_SUCCESS, Ref (d\<lparr>Dacl := (Dacl d)\<lparr>AceCount := AceCount (Dacl d) + 1,
                                                             Aces := aces\<rparr>\<rparr>)) })"

definition OwAclAddAccessAllowedAce ::
  "OW_SECURITY_DESCRIPTOR ptr \<Rightarrow> u32 \<Rightarrow> u32 \<Rightarrow> (OW_STATUS \<times> OW_SECURITY_DESCRIPTOR ptr) comp" where
  "OwAclAddAccessAllowedAce = add_ace OW_ACE_TYPE_ACCESS_ALLOWED"

definition OwAclAddAccessDeniedAce ::
  "OW_SECURITY_DESCRIPTOR ptr \<Rightarrow> u32 \<Rightarrow> u32 \<Rightarrow> (OW_STATUS \<times> OW_SECURITY_DESCRIPTOR ptr) comp" where
  "OwAclAddAccessDeniedAce = add_ace OW_ACE_TYPE_ACCESS_DENIED"

text \<open>The loop over the entries: \<open>Inl\<close> when a denied entry ends it, else the granted rights.\<close>

function acl_loop :: "OW_ACE list \<Rightarrow> nat \<Rightarrow> nat \<Rightarrow> u32 \<Rightarrow> u32 \<Rightarrow> u32 \<Rightarrow> (unit + u32) comp" where
  "acl_loop aces n i caller desired granted =
     (if i < n then
        do { a \<leftarrow> c_rd aces i;
             if Sid a = caller \<or> Sid a = OW_SID_EVERYONE then
               if Type a = OW_ACE_TYPE_ACCESS_DENIED then
                 if AccessMask a AND desired \<noteq> 0 then Some (Inl ())
                 else acl_loop aces n (Suc i) caller desired granted
               else if Type a = OW_ACE_TYPE_ACCESS_ALLOWED
               then acl_loop aces n (Suc i) caller desired (granted OR (AccessMask a AND desired))
               else acl_loop aces n (Suc i) caller desired granted
             else acl_loop aces n (Suc i) caller desired granted }
      else Some (Inr granted))"
  by pat_completeness auto
termination by (relation "measure (\<lambda>(as, n, i, c, d, g). n - i)") auto

declare acl_loop.simps [simp del]

definition OwAclAccessCheck ::
  "OW_SECURITY_DESCRIPTOR ptr \<Rightarrow> u32 \<Rightarrow> u32 \<Rightarrow> u32 ptr \<Rightarrow> (OW_STATUS \<times> u32 ptr) comp" where
  "OwAclAccessCheck Desc caller desired Granted =
     (case (Desc, Granted) of
        (Ref d, Ref _) \<Rightarrow>
          if caller = OW_SID_SYSTEM \<or> caller = OW_SID_ADMINISTRATOR then Some (OW_SUCCESS, Ref desired)
          else let g0 = (if caller = OwnerSid d then OW_ACCESS_READ_CONTROL OR OW_ACCESS_WRITE_DAC else 0) in
            do { r \<leftarrow> acl_loop (Aces (Dacl d)) (unat (AceCount (Dacl d))) 0 caller desired g0;
                 case r of Inl _ \<Rightarrow> Some (OW_ERR_ACCESS_DENIED, Ref 0)
                 | Inr g \<Rightarrow> Some (if g AND desired = desired then OW_SUCCESS else OW_ERR_ACCESS_DENIED, Ref g) }
      | _ \<Rightarrow> Some (OW_ERR_NULL_POINTER, Granted))"

definition OwAclFindSecurityDescriptor ::
  "acl_state \<Rightarrow> string ptr \<Rightarrow> nat ptr ptr \<Rightarrow> OW_STATUS \<times> nat ptr ptr" where
  "OwAclFindSecurityDescriptor st name OutDesc =
     (case (name, OutDesc) of
        (Ref n, Ref _) \<Rightarrow>
          if \<not> g_AclInitialized st then (OW_ERR_NOT_FOUND, OutDesc)
          else (case first_index (\<lambda>d. InUse d \<and> c_streq (ObjectName d) n) (g_SecurityTable st) of
                  Some i \<Rightarrow> (OW_SUCCESS, Ref (Ref i))
                | None \<Rightarrow> (OW_ERR_NOT_FOUND, OutDesc))
      | _ \<Rightarrow> (OW_ERR_NULL_POINTER, OutDesc))"

section \<open>The access check\<close>

definition applies :: "u32 \<Rightarrow> OW_ACE \<Rightarrow> bool" where
  "applies caller a \<longleftrightarrow> Sid a = caller \<or> Sid a = OW_SID_EVERYONE"

definition refused :: "u32 \<Rightarrow> u32 \<Rightarrow> OW_ACE list \<Rightarrow> bool" where
  "refused caller desired as \<longleftrightarrow>
     (\<exists>a \<in> set as. applies caller a \<and> Type a = OW_ACE_TYPE_ACCESS_DENIED \<and> AccessMask a AND desired \<noteq> 0)"

definition allowed_mask :: "u32 \<Rightarrow> u32 \<Rightarrow> OW_ACE list \<Rightarrow> u32" where
  "allowed_mask caller desired as =
     foldr (OR) (map (\<lambda>a. AccessMask a AND desired)
       (filter (\<lambda>a. applies caller a \<and> Type a = OW_ACE_TYPE_ACCESS_ALLOWED) as)) 0"

lemma refused_Cons:
  "refused caller desired (a # as) \<longleftrightarrow>
     applies caller a \<and> Type a = OW_ACE_TYPE_ACCESS_DENIED \<and> AccessMask a AND desired \<noteq> 0 \<or>
     refused caller desired as"
  by (auto simp: refused_def)

lemma allowed_mask_Cons:
  "allowed_mask caller desired (a # as) =
     (if applies caller a \<and> Type a = OW_ACE_TYPE_ACCESS_ALLOWED
      then (AccessMask a AND desired) OR allowed_mask caller desired as
      else allowed_mask caller desired as)"
  by (simp add: allowed_mask_def)

lemma acl_loop_from:
  assumes "n \<le> length aces" and "i \<le> n"
  shows "acl_loop aces n i caller desired g =
     Some (if refused caller desired (drop i (take n aces)) then Inl ()
           else Inr (g OR allowed_mask caller desired (drop i (take n aces))))"
  using assms
proof (induction aces n i caller desired g rule: acl_loop.induct)
  case (1 aces n i caller desired g)
  show ?case
  proof (cases "i < n")
    case False
    then show ?thesis using "1.prems"
      by (subst acl_loop.simps) (simp add: refused_def allowed_mask_def)
  next
    case True
    have rd: "c_rd aces i = Some (aces ! i)" using True "1.prems"(1) by simp
    have cons: "drop i (take n aces) = aces ! i # drop (Suc i) (take n aces)"
      using True "1.prems"(1) by (simp add: Cons_nth_drop_Suc [symmetric])
    have S: "Suc i \<le> n" using True by simp
    let ?a = "aces ! i"
    have step: "acl_loop aces n i caller desired g =
       (if applies caller ?a \<and> Type ?a = OW_ACE_TYPE_ACCESS_DENIED \<and> AccessMask ?a AND desired \<noteq> 0
        then Some (Inl ())
        else acl_loop aces n (Suc i) caller desired
          (if applies caller ?a \<and> Type ?a = OW_ACE_TYPE_ACCESS_ALLOWED
           then g OR (AccessMask ?a AND desired) else g))"
      using True rd by (subst acl_loop.simps) (simp add: applies_def)

    show ?thesis
    proof (cases "applies caller ?a")
      case False
      with "1.IH"(4) [OF True rd _ "1.prems"(1) S] show ?thesis
        unfolding step cons refused_Cons allowed_mask_Cons by (simp add: applies_def)
    next
      case app: True
      consider "Type ?a = OW_ACE_TYPE_ACCESS_DENIED" "AccessMask ?a AND desired \<noteq> 0"
        | "Type ?a = OW_ACE_TYPE_ACCESS_DENIED" "AccessMask ?a AND desired = 0"
        | "Type ?a = OW_ACE_TYPE_ACCESS_ALLOWED"
        | "Type ?a \<noteq> OW_ACE_TYPE_ACCESS_DENIED" "Type ?a \<noteq> OW_ACE_TYPE_ACCESS_ALLOWED" by blast
      then show ?thesis
      proof cases
        case 1
        then show ?thesis using app unfolding step cons refused_Cons by simp
      next
        case 2
        with "1.IH"(1) [OF True rd app [unfolded applies_def] _ _ "1.prems"(1) S] app show ?thesis
          unfolding step cons refused_Cons allowed_mask_Cons by simp
      next
        case 3
        with "1.IH"(2) [OF True rd app [unfolded applies_def] _ _ "1.prems"(1) S] app show ?thesis
          unfolding step cons refused_Cons allowed_mask_Cons by (simp add: or.assoc)
      next
        case 4
        with "1.IH"(3) [OF True rd app [unfolded applies_def] _ _ "1.prems"(1) S] app show ?thesis
          unfolding step cons refused_Cons allowed_mask_Cons by simp
      qed
    qed
  qed
qed

lemma bit_foldr_or: "bit (foldr (OR) ws (0 :: u32)) b \<longleftrightarrow> (\<exists>w \<in> set ws. bit w b)"
  by (induction ws) (auto simp: bit_or_iff)

lemma bit_allowed_mask:
  "bit (allowed_mask caller desired as) b \<longleftrightarrow>
     bit desired b \<and> (\<exists>a \<in> set as. applies caller a \<and> Type a = OW_ACE_TYPE_ACCESS_ALLOWED \<and> bit (AccessMask a) b)"
  by (auto simp: allowed_mask_def bit_foldr_or bit_and_iff)

lemma covers_iff: "(g :: u32) AND d = d \<longleftrightarrow> (\<forall>b. bit d b \<longrightarrow> bit g b)"
proof -
  have "bit (g AND d) b \<longleftrightarrow> bit g b \<and> bit d b" for b by (simp add: bit_and_iff)
  then show ?thesis unfolding bit_eq_iff [of "g AND d" d] using bit_imp_possible_bit by blast
qed

lemma bit_owner_rights:
  "bit (OW_ACCESS_READ_CONTROL OR OW_ACCESS_WRITE_DAC) b \<longleftrightarrow> b = 17 \<or> b = 18"
proof -
  have "(OW_ACCESS_READ_CONTROL OR OW_ACCESS_WRITE_DAC) = (2 ^ 17 OR 2 ^ 18 :: u32)" by simp
  then show ?thesis by (simp only: bit_or_iff bit_exp_iff) auto
qed

section \<open>The policy\<close>

text \<open>
  An entry of the policy: refuse or grant, to whom, and which rights. What a caller may do with
  an object whose descriptor holds the entries \<open>es\<close>, whatever their order.
\<close>

type_synonym entry = "bool \<times> u32 \<times> u32"

definition entry_for :: "u32 \<Rightarrow> entry \<Rightarrow> bool" where
  "entry_for caller e \<longleftrightarrow> fst (snd e) = caller \<or> fst (snd e) = OW_SID_EVERYONE"

definition entitled :: "u32 \<Rightarrow> entry set \<Rightarrow> u32 \<Rightarrow> nat \<Rightarrow> bool" where
  "entitled owner es caller b \<longleftrightarrow>
     (caller = owner \<and> (b = 17 \<or> b = 18)) \<or>
     (\<exists>e \<in> es. \<not> fst e \<and> entry_for caller e \<and> bit (snd (snd e)) b)"

definition permitted :: "u32 \<Rightarrow> entry set \<Rightarrow> u32 \<Rightarrow> u32 \<Rightarrow> bool" where
  "permitted owner es caller desired \<longleftrightarrow>
     caller = OW_SID_SYSTEM \<or> caller = OW_SID_ADMINISTRATOR \<or>
     (\<forall>e \<in> es. fst e \<and> entry_for caller e \<longrightarrow> snd (snd e) AND desired = 0) \<and>
     (\<forall>b. bit desired b \<longrightarrow> entitled owner es caller b)"

text \<open>
  The rights reported to the caller. System and administrator get the request back; a caller who is
  refused by a denied entry gets none. Anybody else gets the requested rights that an allowed entry
  gives, whether the check succeeds or not, and an owner in addition the two rights of ownership,
  reading and changing the descriptor, even those not requested, and even when a denied entry names
  them.
\<close>

definition reported :: "u32 \<Rightarrow> entry set \<Rightarrow> u32 \<Rightarrow> u32 \<Rightarrow> nat \<Rightarrow> bool" where
  "reported owner es caller desired b \<longleftrightarrow>
     (if caller = OW_SID_SYSTEM \<or> caller = OW_SID_ADMINISTRATOR then bit desired b
      else (\<forall>e \<in> es. fst e \<and> entry_for caller e \<longrightarrow> snd (snd e) AND desired = 0) \<and>
        (caller = owner \<and> (b = 17 \<or> b = 18) \<or>
         bit desired b \<and> (\<exists>e \<in> es. \<not> fst e \<and> entry_for caller e \<and> bit (snd (snd e)) b)))"

fun add_entries :: "OW_SECURITY_DESCRIPTOR ptr \<Rightarrow> entry list \<Rightarrow> OW_SECURITY_DESCRIPTOR ptr comp" where
  "add_entries D [] = Some D"
| "add_entries D ((deny, sid, rights) # es) =
     do { (st, D1) \<leftarrow> (if deny then OwAclAddAccessDeniedAce D sid rights else OwAclAddAccessAllowedAce D sid rights);
          if st = OW_SUCCESS then add_entries D1 es else None }"

definition ace_of :: "entry \<Rightarrow> OW_ACE" where
  "ace_of e = \<lparr>Type = (if fst e then OW_ACE_TYPE_ACCESS_DENIED else OW_ACE_TYPE_ACCESS_ALLOWED),
     Flags = 0, Reserved = 0, Sid = fst (snd e), AccessMask = snd (snd e)\<rparr>"

definition holds_entries :: "OW_SECURITY_DESCRIPTOR \<Rightarrow> entry list \<Rightarrow> bool" where
  "holds_entries d es \<longleftrightarrow> length (Aces (Dacl d)) = 16 \<and> unat (AceCount (Dacl d)) = length es \<and>
     length es \<le> 16 \<and> take (length es) (Aces (Dacl d)) = map ace_of es"

lemma add_ace_ok:
  assumes "holds_entries d es" and "length es < 16"
  shows "\<exists>d'. (if deny then OwAclAddAccessDeniedAce (Ref d) sid rights
               else OwAclAddAccessAllowedAce (Ref d) sid rights) = Some (OW_SUCCESS, Ref d') \<and>
     holds_entries d' (es @ [(deny, sid, rights)]) \<and> OwnerSid d' = OwnerSid d"
proof -
  let ?n = "AceCount (Dacl d)"
  have n: "unat ?n = length es" "length (Aces (Dacl d)) = 16" "take (length es) (Aces (Dacl d)) = map ace_of es"
    using assms(1) by (auto simp: holds_entries_def)
  have lt: "\<not> ?n \<ge> 16" using n(1) assms(2) by (simp add: word_le_nat_alt)
  have n1: "unat (?n + 1) = Suc (length es)" using n(1) assms(2) by (subst unat_add1) simp_all
  have "take (Suc (length es)) ((Aces (Dacl d))[length es := ace_of (deny, sid, rights)]) =
    map ace_of (es @ [(deny, sid, rights)])"
    using n assms(2) by (simp add: take_Suc_conv_app_nth)
  then show ?thesis
    using n lt n1 assms(2)
    by (auto simp: OwAclAddAccessDeniedAce_def OwAclAddAccessAllowedAce_def add_ace_def holds_entries_def ace_of_def)
qed

lemma add_entries_ok:
  assumes "holds_entries d es0" and "length es0 + length es \<le> 16"
  shows "\<exists>d'. add_entries (Ref d) es = Some (Ref d') \<and> holds_entries d' (es0 @ es) \<and> OwnerSid d' = OwnerSid d"
  using assms
proof (induction es arbitrary: d es0)
  case Nil
  then show ?case by simp
next
  case (Cons e es)
  obtain deny sid rights where e: "e = (deny, sid, rights)" by (cases e) auto
  from add_ace_ok [OF Cons.prems(1), of deny sid rights] Cons.prems(2) obtain d1 where
    d1: "(if deny then OwAclAddAccessDeniedAce (Ref d) sid rights
          else OwAclAddAccessAllowedAce (Ref d) sid rights) = Some (OW_SUCCESS, Ref d1)"
      "holds_entries d1 (es0 @ [e])" "OwnerSid d1 = OwnerSid d" by (auto simp: e)
  from Cons.IH [OF d1(2)] Cons.prems(2) d1(3) show ?case unfolding e add_entries.simps d1(1) by (simp add: e)
qed

lemma check_permitted:
  assumes "holds_entries d es"
  shows "\<exists>g. OwAclAccessCheck (Ref d) caller desired (Ref x) =
     Some (if permitted (OwnerSid d) (set es) caller desired then OW_SUCCESS else OW_ERR_ACCESS_DENIED, Ref g) \<and>
     (\<forall>b. bit g b \<longleftrightarrow> reported (OwnerSid d) (set es) caller desired b)"
proof (cases "caller = OW_SID_SYSTEM \<or> caller = OW_SID_ADMINISTRATOR")
  case True
  then show ?thesis by (auto simp: OwAclAccessCheck_def permitted_def reported_def)
next
  case False
  let ?g0 = "if caller = OwnerSid d then OW_ACCESS_READ_CONTROL OR OW_ACCESS_WRITE_DAC else 0"
  let ?as = "map ace_of es"
  have loop: "acl_loop (Aces (Dacl d)) (unat (AceCount (Dacl d))) 0 caller desired ?g0 =
     Some (if refused caller desired ?as then Inl () else Inr (?g0 OR allowed_mask caller desired ?as))"
    using assms acl_loop_from [of "unat (AceCount (Dacl d))" "Aces (Dacl d)" 0 caller desired ?g0]
    by (simp add: holds_entries_def)
  have ref: "refused caller desired ?as \<longleftrightarrow>
      \<not> (\<forall>e \<in> set es. fst e \<and> entry_for caller e \<longrightarrow> snd (snd e) AND desired = 0)"
    by (auto simp: refused_def applies_def ace_of_def entry_for_def)
  have own: "bit ?g0 b \<longleftrightarrow> caller = OwnerSid d \<and> (b = 17 \<or> b = 18)" for b
    using bit_owner_rights [of b] by (cases "caller = OwnerSid d") simp_all
  have cov: "(?g0 OR allowed_mask caller desired ?as) AND desired = desired \<longleftrightarrow>
      (\<forall>b. bit desired b \<longrightarrow> entitled (OwnerSid d) (set es) caller b)"
    unfolding covers_iff bit_or_iff bit_allowed_mask own
    by (auto simp: entitled_def entry_for_def applies_def ace_of_def)
  have rep: "\<not> refused caller desired ?as \<Longrightarrow>
      bit (?g0 OR allowed_mask caller desired ?as) b \<longleftrightarrow> reported (OwnerSid d) (set es) caller desired b"
    "refused caller desired ?as \<Longrightarrow> \<not> reported (OwnerSid d) (set es) caller desired b" for b
    using False unfolding ref bit_or_iff bit_allowed_mask own
    by (auto simp: reported_def entry_for_def applies_def ace_of_def)
  show ?thesis
  proof (cases "refused caller desired ?as")
    case True
    then show ?thesis using False ref rep(2) by (auto simp: OwAclAccessCheck_def permitted_def loop)
  next
    case nr: False
    have "OwAclAccessCheck (Ref d) caller desired (Ref x) =
        Some (if permitted (OwnerSid d) (set es) caller desired then OW_SUCCESS else OW_ERR_ACCESS_DENIED,
          Ref (?g0 OR allowed_mask caller desired ?as))"
      using False nr ref cov unfolding OwAclAccessCheck_def Let_def permitted_def by (auto simp: loop)
    then show ?thesis using rep(1) [OF nr] by blast
  qed
qed

section \<open>The table\<close>

definition acl_inv :: "acl_state \<Rightarrow> bool" where
  "acl_inv st \<longleftrightarrow> g_AclInitialized st \<longrightarrow>
     length (g_SecurityTable st) = 64 \<and>
     (\<forall>d \<in> set (g_SecurityTable st). length (ObjectName d) \<le> 47 \<and> length (Aces (Dacl d)) = 16)"

lemma create_inv:
  "acl_inv st \<Longrightarrow> acl_inv (snd (snd (OwAclCreateSecurityDescriptor st name owner grp out)))"
  by (auto simp: OwAclCreateSecurityDescriptor_def acl_inv_def OwAclInitialize_def zero_descriptor_def Let_def
      split: ptr.splits option.splits dest!: set_update_subset_insert [THEN subsetD] first_index_SomeD(1))

lemma create_find:
  assumes "acl_inv st" and "OwAclCreateSecurityDescriptor st (Ref n) owner grp (Ref o1) = (OW_SUCCESS, Ref (Ref i), st')"
  shows "i < 64 \<and> holds_entries (g_SecurityTable st' ! i) [] \<and> OwnerSid (g_SecurityTable st' ! i) = owner \<and>
     OwAclFindSecurityDescriptor st' (Ref n) (Ref o2) =
       (if length n < 48 then (OW_SUCCESS, Ref (Ref i)) else (OW_ERR_NOT_FOUND, Ref o2))"
proof -
  define tab where "tab = (if g_AclInitialized st then g_SecurityTable st else replicate 64 zero_descriptor)"
  have tab: "length tab = 64" "\<And>d. d \<in> set tab \<Longrightarrow> length (ObjectName d) \<le> 47 \<and> length (Aces (Dacl d)) = 16"
    using assms(1) by (auto simp: tab_def acl_inv_def zero_descriptor_def split: if_splits)
  let ?d = "(tab ! i)\<lparr>InUse := True, ObjectName := c_strcopy 48 (Ref n), OwnerSid := owner, GroupSid := grp,
    Dacl := (Dacl (tab ! i))\<lparr>AceCount := 0, AclSize := 196\<rparr>\<rparr>"
  have facts: "first_index (\<lambda>d. InUse d \<and> c_streq (ObjectName d) n) tab = None"
      "first_index (\<lambda>d. \<not> InUse d) tab = Some i" "g_SecurityTable st' = tab[i := ?d]" "g_AclInitialized st'"
    using assms(2) unfolding OwAclCreateSecurityDescriptor_def Let_def tab_def OwAclInitialize_def
    by (auto split: option.splits if_splits)
  have i: "i < 64" using first_index_SomeD(1) [OF facts(2)] tab(1) by simp
  have new: "tab[i := ?d] ! i = ?d" using i tab(1) by simp
  have old: "\<not> (InUse (tab ! j) \<and> ObjectName (tab ! j) = n)" if "j < 64" for j
    using facts(1) that tab(1) by (auto simp: first_index_None_iff)
  have other: "\<not> (InUse (tab[i := ?d] ! j) \<and> c_streq (ObjectName (tab[i := ?d] ! j)) n)"
    if "j < 64" "j \<noteq> i" for j using old [OF that(1)] that(2) by simp
  have "length (Aces (Dacl (tab ! i))) = 16" using tab i by simp
  then have "holds_entries ?d []" by (simp add: holds_entries_def)
  moreover have "OwAclFindSecurityDescriptor st' (Ref n) (Ref o2) =
       (if length n < 48 then (OW_SUCCESS, Ref (Ref i)) else (OW_ERR_NOT_FOUND, Ref o2))"
  proof (cases "length n < 48")
    case True
    then have "first_index (\<lambda>d. InUse d \<and> c_streq (ObjectName d) n) (tab[i := ?d]) = Some i"
    proof (intro first_index_unique)
      show "j = i" if "j < length (tab[i := ?d])"
        "InUse (tab[i := ?d] ! j) \<and> c_streq (ObjectName (tab[i := ?d] ! j)) n" for j
        using other [of j] that tab(1) by (metis length_list_update)
    qed (use True i tab(1) new in simp_all)
    then show ?thesis using True facts(3,4) by (simp add: OwAclFindSecurityDescriptor_def)
  next
    case False
    then have "length (take 47 n) \<noteq> length n" by simp
    then have "take 47 n \<noteq> n" by metis
    then have "\<not> (InUse ?d \<and> c_streq (ObjectName ?d) n)" by simp
    then have "\<not> (InUse (tab[i := ?d] ! j) \<and> c_streq (ObjectName (tab[i := ?d] ! j)) n)" if "j < 64" for j
      using other [OF that] new by (cases "j = i") (simp_all only: not_False_eq_True)
    then have "first_index (\<lambda>d. InUse d \<and> c_streq (ObjectName d) n) (tab[i := ?d]) = None"
      using first_index_take_None [of 64 "tab[i := ?d]"] tab(1) by simp
    then show ?thesis using False facts(3,4) by (simp add: OwAclFindSecurityDescriptor_def)
  qed
  ultimately show ?thesis using i facts(3) new by simp
qed

section \<open>Properties\<close>

text \<open>C26: for a descriptor from \<open>OwAclCreateSecurityDescriptor\<close> to which at most sixteen
  entries were added, \<open>OwAclAccessCheck\<close> grants a request exactly when the policy permits it:
  the caller is system or administrator, or no denied entry for the caller or for everyone meets
  the request and every requested right comes from ownership or from an allowed entry. The
  verdict depends on the set of the entries only, not on their order. The rights written to
  \<open>*GrantedAccess\<close> are exactly those of \<open>reported\<close>: the request itself for system and
  administrator, none after a denial by an entry, and else the requested rights that allowed entries give
  together with, for the owner, \<open>READ_CONTROL\<close> and \<open>WRITE_DAC\<close>, which the owner gets
  unasked and also against a denied entry that does not meet the request.\<close>

theorem OwAclAccessCheck_decides_policy:
  assumes "acl_inv st" and "length es \<le> 16"
    and "OwAclCreateSecurityDescriptor st (Ref n) owner grp (Ref out) = (OW_SUCCESS, Ref (Ref i), st')"
  shows "\<exists>d g. add_entries (Ref (g_SecurityTable st' ! i)) es = Some (Ref d) \<and>
     OwAclAccessCheck (Ref d) caller desired (Ref x) =
       Some (if permitted owner (set es) caller desired then OW_SUCCESS else OW_ERR_ACCESS_DENIED, Ref g) \<and>
     (\<forall>b. bit g b \<longleftrightarrow> reported owner (set es) caller desired b)"
proof -
  have d0: "holds_entries (g_SecurityTable st' ! i) []" "OwnerSid (g_SecurityTable st' ! i) = owner"
    using create_find [OF assms(1,3)] by auto
  from add_entries_ok [OF d0(1), of es] assms(2) d0(2) obtain d where
    "add_entries (Ref (g_SecurityTable st' ! i)) es = Some (Ref d)" "holds_entries d es" "OwnerSid d = owner"
    by auto
  then show ?thesis using check_permitted [of d es caller desired x] by auto
qed

definition acl_boot :: acl_state where
  "acl_boot = \<lparr>g_SecurityTable = [], g_AclInitialized = False\<rparr>"

lemma acl_boot_inv: "acl_inv acl_boot"
  by (simp add: acl_inv_def acl_boot_def)

definition acl_one :: acl_state where
  "acl_one = snd (snd (OwAclCreateSecurityDescriptor acl_boot (Ref ''disk'') 7 0 (Ref NULL)))"

lemma acl_one_create:
  "OwAclCreateSecurityDescriptor acl_boot (Ref ''disk'') 7 0 (Ref NULL) = (OW_SUCCESS, Ref (Ref 0), acl_one)"
proof -
  have "replicate 64 zero_descriptor = zero_descriptor # replicate 63 zero_descriptor"
    by (simp add: replicate_Suc [symmetric] del: replicate_Suc)
  moreover have "\<not> InUse zero_descriptor" by (simp add: zero_descriptor_def)
  moreover have "first_index (\<lambda>d. InUse d \<and> c_streq (ObjectName d) ''disk'') (replicate 64 zero_descriptor) = None"
    by (auto simp: first_index_None_iff zero_descriptor_def)
  ultimately have
    "fst (OwAclCreateSecurityDescriptor acl_boot (Ref ''disk'') 7 0 (Ref NULL)) = OW_SUCCESS"
    "fst (snd (OwAclCreateSecurityDescriptor acl_boot (Ref ''disk'') 7 0 (Ref NULL))) = Ref (Ref 0)"
    by (simp_all add: OwAclCreateSecurityDescriptor_def acl_boot_def OwAclInitialize_def Let_def)
  then show ?thesis by (simp add: acl_one_def prod_eq_iff)
qed

text \<open>
  Rights 0 and 1 are allowed to everyone, and \<open>WRITE_DAC\<close> is denied to the owner 7. The owner who
  asks for right 0 is granted it, and the rights reported are 0, \<open>READ_CONTROL\<close> and \<open>WRITE_DAC\<close>.
\<close>

theorem OwAclAccessCheck_decides_policy_witness:
  "\<exists>d. add_entries (Ref (g_SecurityTable acl_one ! 0)) [(False, OW_SID_EVERYONE, 3), (True, 7, OW_ACCESS_WRITE_DAC)] = Some (Ref d) \<and>
     OwAclAccessCheck (Ref d) 7 1 (Ref 0) = Some (OW_SUCCESS, Ref ((OW_ACCESS_READ_CONTROL OR OW_ACCESS_WRITE_DAC) OR 1))"
proof -
  let ?es = "[(False, OW_SID_EVERYONE, 3), (True, 7, OW_ACCESS_WRITE_DAC)] :: entry list"
  have one: "bit (1 :: u32) b \<longleftrightarrow> b = 0" "bit (3 :: u32) 0" for b by (simp_all add: bit_1_iff)
  have p: "permitted 7 (set ?es) 7 1" by (simp add: permitted_def entry_for_def entitled_def one)
  have r: "reported 7 (set ?es) 7 1 b \<longleftrightarrow> b = 17 \<or> b = 18 \<or> b = 0" for b
    by (auto simp: reported_def entry_for_def one)
  have g: "bit ((OW_ACCESS_READ_CONTROL OR OW_ACCESS_WRITE_DAC) OR 1) b \<longleftrightarrow> b = 17 \<or> b = 18 \<or> b = 0" for b
    unfolding bit_or_iff [of _ 1] bit_owner_rights one by blast
  obtain d g where d: "add_entries (Ref (g_SecurityTable acl_one ! 0)) ?es = Some (Ref d)"
    "OwAclAccessCheck (Ref d) 7 1 (Ref 0) = Some (OW_SUCCESS, Ref g)" "\<forall>b. bit g b \<longleftrightarrow> reported 7 (set ?es) 7 1 b"
    using OwAclAccessCheck_decides_policy [OF acl_boot_inv _ acl_one_create, of ?es 7 1 0] p by auto
  have "g = (OW_ACCESS_READ_CONTROL OR OW_ACCESS_WRITE_DAC) OR 1"
    by (rule bit_word_eqI) (use d(3) r g in blast)
  then show ?thesis using d(1,2) by blast
qed

text \<open>a descriptor created under a name is found again under that name exactly when the name
  has fewer than 48 characters: a longer name is stored truncated, so the lookup by the full
  name fails.\<close>

theorem OwAcl_create_find:
  assumes "acl_inv st"
    and "OwAclCreateSecurityDescriptor st (Ref n) owner grp (Ref out) = (OW_SUCCESS, Ref (Ref i), st')"
  shows "OwAclFindSecurityDescriptor st' (Ref n) (Ref out') =
     (if length n < 48 then (OW_SUCCESS, Ref (Ref i)) else (OW_ERR_NOT_FOUND, Ref out'))"
  using create_find [OF assms] by blast

theorem OwAcl_create_find_witness:
  "acl_inv acl_boot \<and>
   OwAclCreateSecurityDescriptor acl_boot (Ref ''disk'') 7 0 (Ref NULL) = (OW_SUCCESS, Ref (Ref 0), acl_one) \<and>
   OwAclFindSecurityDescriptor acl_one (Ref ''disk'') (Ref NULL) = (OW_SUCCESS, Ref (Ref 0))"
  using OwAcl_create_find [OF acl_boot_inv acl_one_create, of NULL] acl_boot_inv acl_one_create by simp

end
