(* ===== verification/Reg.thy ===== *)
theory Reg
  imports Prelude
begin

text \<open>
  The registry \<open>src/DLL/owreg64/owreg64.c\<close>: keys and values in an entry table provided by the
  caller, used through handles. The abstract registry is a finite map of at most \<open>capacity\<close>
  keys; setting, getting, deleting and testing keys through the handle interface refines the
  map operations, and enumeration lists the matching keys in table order.
\<close>

unbundle bit_operations_syntax

section \<open>Model\<close>

text \<open>Strings here hold no NUL: \<open>c_str\<close> says so of an argument.\<close>

definition c_str :: "string \<Rightarrow> bool" where
  "c_str s \<longleftrightarrow> CHR 0x00 \<notin> set s"

definition byte :: "char \<Rightarrow> int" where
  "byte c = of_char c"

abbreviation OWREG_OK :: int where "OWREG_OK \<equiv> 0"
abbreviation OWREG_ERR_PARAM :: int where "OWREG_ERR_PARAM \<equiv> -1"
abbreviation OWREG_ERR_ACCESS :: int where "OWREG_ERR_ACCESS \<equiv> -5"
abbreviation OWREG_ERR_TOOBIG :: int where "OWREG_ERR_TOOBIG \<equiv> -6"

abbreviation OWREG_OPEN_READ :: u32 where "OWREG_OPEN_READ \<equiv> 1"
abbreviation OWREG_OPEN_WRITE :: u32 where "OWREG_OPEN_WRITE \<equiv> 2"
abbreviation OWREG_OPEN_CREATE :: u32 where "OWREG_OPEN_CREATE \<equiv> 4"

record owreg_entry_t =
  in_use :: bool
  key :: string
  val :: string

text \<open>\<open>entries\<close> is \<open>NULL\<close> or the caller's array.\<close>

record owreg_store_t =
  entries :: "owreg_entry_t list ptr"
  capacity :: u32
  cnt :: u32

text \<open>The pointer of a handle is \<open>NULL\<close> or points to the one store of the model.\<close>

record owreg_handle_t =
  store :: "unit ptr"
  index :: u32
  writable :: bool
  valid :: bool

fun ow_strcmp :: "string \<Rightarrow> string \<Rightarrow> int" where
  "ow_strcmp (a # as) (b # bs) = (if a = b then ow_strcmp as bs else byte a - byte b)"
| "ow_strcmp (a # as) [] = byte a"
| "ow_strcmp [] (b # bs) = - byte b"
| "ow_strcmp [] [] = 0"

fun ow_strncmp :: "string \<Rightarrow> string \<Rightarrow> nat \<Rightarrow> int" where
  "ow_strncmp as bs 0 = 0"
| "ow_strncmp (a # as) (b # bs) (Suc n) = (if a \<noteq> b then byte a - byte b else ow_strncmp as bs n)"
| "ow_strncmp (a # as) [] (Suc n) = byte a"
| "ow_strncmp [] (b # bs) (Suc n) = - byte b"
| "ow_strncmp [] [] (Suc n) = 0"

definition ow_key_char_ok :: "char \<Rightarrow> bool" where
  "ow_key_char_ok c =
     (if byte c \<ge> byte (CHR ''a'') \<and> byte c \<le> byte (CHR ''z'') then True
      else if byte c \<ge> byte (CHR ''A'') \<and> byte c \<le> byte (CHR ''Z'') then True
      else if byte c \<ge> byte (CHR ''0'') \<and> byte c \<le> byte (CHR ''9'') then True
      else c = CHR ''.'' \<or> c = CHR ''_'' \<or> c = CHR ''-'')"

fun key_scan :: "string \<Rightarrow> bool" where
  "key_scan [] = True"
| "key_scan (c # cs) =
     (if \<not> ow_key_char_ok c then False
      else if c = CHR ''.'' \<and> (case cs of [] \<Rightarrow> False | d # _ \<Rightarrow> d = CHR ''.'') then False
      else key_scan cs)"

definition ow_key_valid :: "string ptr \<Rightarrow> bool" where
  "ow_key_valid k =
     (case k of NULL \<Rightarrow> False
      | Ref [] \<Rightarrow> False
      | Ref (c # cs) \<Rightarrow>
         if length (c # cs) \<ge> 96 then False
         else if c = CHR ''.'' \<or> last (c # cs) = CHR ''.'' then False
         else key_scan (c # cs))"

text \<open>The searches return the index as a signed 32-bit integer.\<close>

definition idx32 :: "nat option \<Rightarrow> i32" where
  "idx32 r = (case r of None \<Rightarrow> -1 | Some i \<Rightarrow> of_nat i)"

definition owreg_find_index :: "owreg_store_t ptr \<Rightarrow> string ptr \<Rightarrow> i32 comp" where
  "owreg_find_index s k =
     (case (s, k) of
        (Ref st, Ref name) \<Rightarrow>
          (case entries st of NULL \<Rightarrow> Some (-1)
           | Ref es \<Rightarrow>
              do { r \<leftarrow> c_find (\<lambda>e. in_use e \<and> ow_strcmp (key e) name = 0) es (unat (capacity st)) 0;
                   Some (idx32 r) })
      | _ \<Rightarrow> Some (-1))"

definition owreg_free_index :: "owreg_entry_t list \<Rightarrow> u32 \<Rightarrow> i32 comp" where
  "owreg_free_index es cap = do { r \<leftarrow> c_find (\<lambda>e. \<not> in_use e) es (unat cap) 0; Some (idx32 r) }"

definition owreg_bad_handle :: owreg_handle_t where
  "owreg_bad_handle = \<lparr>store = NULL, index = 0, writable = False, valid = False\<rparr>"

text \<open>The entry of a handle: \<open>NULL\<close>, or the slot in the table. An entry table is there when the
  store has a capacity; a slot outside the table is undefined behaviour where it is accessed.\<close>

definition owreg_handle_entry :: "owreg_store_t \<Rightarrow> owreg_handle_t ptr \<Rightarrow> nat ptr" where
  "owreg_handle_entry st h =
     (case h of NULL \<Rightarrow> NULL
      | Ref hd' \<Rightarrow> if \<not> valid hd' \<or> store hd' = NULL then NULL
                  else if index hd' \<ge> capacity st then NULL else Ref (unat (index hd')))"

definition owreg_store_init ::
  "owreg_store_t ptr \<Rightarrow> owreg_entry_t list ptr \<Rightarrow> u32 \<Rightarrow> owreg_store_t ptr comp" where
  "owreg_store_init s es cap =
     (case s of NULL \<Rightarrow> Some NULL
      | Ref st \<Rightarrow>
         (case es of NULL \<Rightarrow> Some (Ref (st\<lparr>entries := NULL, capacity := 0, cnt := 0\<rparr>))
          | Ref xs \<Rightarrow>
             do { ys \<leftarrow> c_memcpy xs 0 (map (\<lambda>e. e\<lparr>in_use := False, key := [], val := []\<rparr>) (take (unat cap) xs))
                          (unat cap);
                  Some (Ref (st\<lparr>entries := Ref ys, capacity := cap, cnt := 0\<rparr>)) }))"

definition owreg_open :: "owreg_store_t ptr \<Rightarrow> string ptr \<Rightarrow> u32 \<Rightarrow> (owreg_handle_t \<times> owreg_store_t ptr) comp" where
  "owreg_open s k flags =
     (case (s, k) of
        (Ref st, Ref name) \<Rightarrow>
          (case entries st of NULL \<Rightarrow> Some (owreg_bad_handle, s)
           | Ref es \<Rightarrow>
              if \<not> ow_key_valid k then Some (owreg_bad_handle, s)
              else do {
                idx \<leftarrow> owreg_find_index s k;
                if sint idx < 0 then
                  if flags AND OWREG_OPEN_CREATE = 0 then Some (owreg_bad_handle, s)
                  else do {
                    fidx \<leftarrow> owreg_free_index es (capacity st);
                    if sint fidx < 0 then Some (owreg_bad_handle, s)
                    else do {
                      e \<leftarrow> c_rd es (unat fidx);
                      es' \<leftarrow> c_wr es (unat fidx) (e\<lparr>in_use := True, val := [], key := c_strcopy 96 k\<rparr>);
                      Some (\<lparr>store = Ref (), index = fidx, writable = flags AND OWREG_OPEN_WRITE \<noteq> 0, valid = True\<rparr>,
                            Ref (st\<lparr>entries := Ref es', cnt := cnt st + 1\<rparr>)) } }
                else Some (\<lparr>store = Ref (), index = idx, writable = flags AND OWREG_OPEN_WRITE \<noteq> 0, valid = True\<rparr>, s) })
      | _ \<Rightarrow> Some (owreg_bad_handle, s))"

definition owreg_close :: "owreg_handle_t ptr \<Rightarrow> bool \<times> owreg_handle_t ptr" where
  "owreg_close h =
     (case h of NULL \<Rightarrow> (False, h)
      | Ref x \<Rightarrow> if \<not> valid x then (False, h)
                 else (True, Ref (x\<lparr>valid := False, writable := False, store := NULL, index := 0\<rparr>)))"

text \<open>\<open>out\<close> is the destination buffer as a string; its capacity is \<open>out_cap\<close>.\<close>

definition entry_at :: "owreg_store_t \<Rightarrow> nat \<Rightarrow> owreg_entry_t comp" where
  "entry_at st i = (case entries st of NULL \<Rightarrow> None | Ref es \<Rightarrow> c_rd es i)"

definition owreg_read :: "owreg_store_t \<Rightarrow> owreg_handle_t ptr \<Rightarrow> string ptr \<Rightarrow> nat \<Rightarrow> (int \<times> string ptr) comp" where
  "owreg_read st h out out_cap =
     (case (owreg_handle_entry st h, out) of
        (Ref i, Ref _) \<Rightarrow>
          if out_cap = 0 then Some (OWREG_ERR_PARAM, out)
          else do { e \<leftarrow> entry_at st i;
                    if length (val e) + 1 > out_cap then Some (OWREG_ERR_TOOBIG, out)
                    else Some (int (length (val e)), Ref (c_strcopy out_cap (Ref (val e)))) }
      | _ \<Rightarrow> Some (OWREG_ERR_PARAM, out))"

definition owreg_write :: "owreg_store_t \<Rightarrow> owreg_handle_t ptr \<Rightarrow> string ptr \<Rightarrow> (int \<times> owreg_store_t) comp" where
  "owreg_write st h value =
     (case (owreg_handle_entry st h, value, h) of
        (Ref i, Ref v, Ref hd') \<Rightarrow>
          if \<not> writable hd' then Some (OWREG_ERR_ACCESS, st)
          else if length v \<ge> 128 then Some (OWREG_ERR_TOOBIG, st)
          else (case entries st of NULL \<Rightarrow> None
                | Ref es \<Rightarrow> do { e \<leftarrow> c_rd es i;
                                 es' \<leftarrow> c_wr es i (e\<lparr>val := c_strcopy 128 value\<rparr>);
                                 Some (OWREG_OK, st\<lparr>entries := Ref es'\<rparr>) })
      | _ \<Rightarrow> Some (OWREG_ERR_PARAM, st))"

definition owreg_delete :: "owreg_store_t ptr \<Rightarrow> string ptr \<Rightarrow> (bool \<times> owreg_store_t ptr) comp" where
  "owreg_delete s k =
     do { idx \<leftarrow> owreg_find_index s k;
          if sint idx < 0 then Some (False, s)
          else case s of NULL \<Rightarrow> None
            | Ref st \<Rightarrow>
               (case entries st of NULL \<Rightarrow> None
                | Ref es \<Rightarrow>
                   do { e \<leftarrow> c_rd es (unat idx);
                        es' \<leftarrow> c_wr es (unat idx) (e\<lparr>in_use := False, key := [], val := []\<rparr>);
                        Some (True, Ref (st\<lparr>entries := Ref es',
                          cnt := (if cnt st > 0 then cnt st - 1 else cnt st)\<rparr>)) }) }"

definition owreg_exists :: "owreg_store_t ptr \<Rightarrow> string ptr \<Rightarrow> bool comp" where
  "owreg_exists s k = do { idx \<leftarrow> owreg_find_index s k; Some (\<not> sint idx < 0) }"

text \<open>The loop of \<open>owreg_enum_keys\<close>; \<open>names\<close> is the caller's array of string pointers.\<close>

function enum_loop ::
  "owreg_entry_t list \<Rightarrow> u32 \<Rightarrow> nat \<Rightarrow> string ptr \<Rightarrow> u32 \<Rightarrow> string list ptr \<Rightarrow> u32 \<Rightarrow> u32 \<Rightarrow> u32 \<Rightarrow>
   (u32 \<times> string list ptr) comp" where
  "enum_loop es cap i prefix start names max_names matches stored =
     (if i < unat cap then
        do { e \<leftarrow> c_rd es i;
             if \<not> in_use e then enum_loop es cap (Suc i) prefix start names max_names matches stored
             else if (case prefix of NULL \<Rightarrow> False | Ref p \<Rightarrow> ow_strncmp (key e) p (length p) \<noteq> 0)
             then enum_loop es cap (Suc i) prefix start names max_names matches stored
             else (case names of
                     Ref ns \<Rightarrow>
                       if matches \<ge> start \<and> stored < max_names then
                         do { ns' \<leftarrow> c_wr ns (unat stored) (key e);
                              enum_loop es cap (Suc i) prefix start (Ref ns') max_names (matches + 1) (stored + 1) }
                       else enum_loop es cap (Suc i) prefix start names max_names (matches + 1) stored
                   | NULL \<Rightarrow> enum_loop es cap (Suc i) prefix start names max_names (matches + 1) stored) }
      else Some (matches, names))"
  by pat_completeness auto
termination by (relation "measure (\<lambda>(es, cap, i, r). unat cap - i)") auto

declare enum_loop.simps [simp del]

definition owreg_enum_keys ::
  "owreg_store_t ptr \<Rightarrow> string ptr \<Rightarrow> u32 \<Rightarrow> string list ptr \<Rightarrow> u32 \<Rightarrow> (u32 \<times> string list ptr) comp" where
  "owreg_enum_keys s prefix start names max_names =
     (case s of NULL \<Rightarrow> Some (0, names)
      | Ref st \<Rightarrow>
         (case entries st of NULL \<Rightarrow> Some (0, names)
          | Ref es \<Rightarrow> enum_loop es (capacity st) 0 prefix start names max_names 0 0))"

section \<open>Strings\<close>

lemma byte_inj: "byte a = byte b \<longleftrightarrow> a = b"
proof
  assume "byte a = byte b"
  then have "char_of (byte a) = (char_of (byte b) :: char)" by simp
  then show "a = b" by (simp add: byte_def)
qed simp

lemma byte_0: "byte c = 0 \<longleftrightarrow> c = CHR 0x00"
proof -
  have "byte (CHR 0x00) = 0" by (simp add: byte_def)
  then show ?thesis using byte_inj [of c "CHR 0x00"] by simp
qed

lemma ow_strcmp_0: "c_str a \<Longrightarrow> c_str b \<Longrightarrow> ow_strcmp a b = 0 \<longleftrightarrow> a = b"
  by (induction a b rule: ow_strcmp.induct) (auto simp: c_str_def byte_0 byte_inj)

lemma ow_strncmp_prefix:
  "c_str a \<Longrightarrow> c_str b \<Longrightarrow> ow_strncmp a b (length b) = 0 \<longleftrightarrow> take (length b) a = b"
proof (induction b arbitrary: a)
  case (Cons x b)
  then show ?case by (cases a) (auto simp: c_str_def byte_0 byte_inj)
qed simp

lemma key_scan_c_str: "key_scan s \<Longrightarrow> c_str s"
proof (induction s)
  case (Cons c cs)
  have "\<not> ow_key_char_ok (CHR 0x00)" by (simp add: ow_key_char_ok_def byte_def)
  then show ?case using Cons by (auto simp: c_str_def split: if_splits)
qed (simp add: c_str_def)

lemma ow_key_valid_props: "ow_key_valid (Ref k) \<Longrightarrow> c_str k \<and> length k < 96"
  by (auto simp: ow_key_valid_def key_scan_c_str split: list.splits if_splits simp del: key_scan.simps)

section \<open>The table as a map\<close>

definition entry_ok :: "owreg_entry_t \<Rightarrow> bool" where
  "entry_ok e \<longleftrightarrow> c_str (key e) \<and> length (key e) < 96 \<and> length (val e) < 128"

definition entries_ok :: "owreg_entry_t list \<Rightarrow> nat \<Rightarrow> bool" where
  "entries_ok es n \<longleftrightarrow> n \<le> length es \<and> n \<le> 2 ^ 31 \<and>
     (\<forall>i < n. in_use (es ! i) \<longrightarrow> entry_ok (es ! i)) \<and>
     (\<forall>i < n. \<forall>j < n. in_use (es ! i) \<longrightarrow> in_use (es ! j) \<longrightarrow> key (es ! i) = key (es ! j) \<longrightarrow> i = j)"

definition slot :: "owreg_entry_t list \<Rightarrow> nat \<Rightarrow> string \<Rightarrow> nat option" where
  "slot es n k = first_index (\<lambda>e. in_use e \<and> key e = k) (take n es)"

definition reg_map :: "owreg_entry_t list \<Rightarrow> nat \<Rightarrow> string \<Rightarrow> string option" where
  "reg_map es n k = map_option (\<lambda>i. val (es ! i)) (slot es n k)"

lemma slot_Some_iff:
  assumes "entries_ok es n"
  shows "slot es n k = Some i \<longleftrightarrow> i < n \<and> in_use (es ! i) \<and> key (es ! i) = k"
proof
  assume "slot es n k = Some i"
  then show "i < n \<and> in_use (es ! i) \<and> key (es ! i) = k"
    using first_index_SomeD [of "\<lambda>e. in_use e \<and> key e = k" "take n es" i]
    by (simp add: slot_def)
next
  assume i: "i < n \<and> in_use (es ! i) \<and> key (es ! i) = k"
  then show "slot es n k = Some i" unfolding slot_def
  proof (intro first_index_unique)
    fix j assume j: "j < length (take n es)" "in_use (take n es ! j) \<and> key (take n es ! j) = k"
    then have "j < n" "in_use (es ! j)" "key (es ! j) = k" by simp_all
    then show "j = i" using i assms unfolding entries_ok_def by blast
  qed (use assms in \<open>simp_all add: entries_ok_def\<close>)
qed

lemma reg_map_Some_iff:
  assumes "entries_ok es n"
  shows "reg_map es n k = Some v \<longleftrightarrow> (\<exists>i < n. in_use (es ! i) \<and> key (es ! i) = k \<and> val (es ! i) = v)"
  by (auto simp: reg_map_def slot_Some_iff [OF assms])

lemma reg_map_None_iff:
  assumes "entries_ok es n"
  shows "reg_map es n k = None \<longleftrightarrow> slot es n k = None"
  by (simp add: reg_map_def)

lemma option_eq_by_Some: "(\<And>x. a = Some x \<longleftrightarrow> b = Some x) \<Longrightarrow> a = b"
  by (cases a; cases b) auto

lemma entries_ok_update:
  assumes "entries_ok es n" and "i < n" and "in_use e \<Longrightarrow> entry_ok e"
    and "\<And>j. in_use e \<Longrightarrow> j < n \<Longrightarrow> j \<noteq> i \<Longrightarrow> in_use (es ! j) \<Longrightarrow> key (es ! j) \<noteq> key e"
  shows "entries_ok (es[i := e]) n"
proof -
  have len: "n \<le> length es" "n \<le> 2 ^ 31" "i < length es" using assms(1,2) by (auto simp: entries_ok_def)
  have "in_use (es[i := e] ! j) \<longrightarrow> entry_ok (es[i := e] ! j)" if "j < n" for j
    using that assms(1,3) len(3) by (cases "j = i") (simp_all add: entries_ok_def)
  moreover have "j = k" if "j < n" "k < n" "in_use (es[i := e] ! j)" "in_use (es[i := e] ! k)"
    "key (es[i := e] ! j) = key (es[i := e] ! k)" for j k
  proof -
    consider "j = i" "k = i" | "j = i" "k \<noteq> i" | "j \<noteq> i" "k = i" | "j \<noteq> i" "k \<noteq> i" by blast
    then show ?thesis
    proof cases
      case 2
      then show ?thesis using that assms(4) [of k] len(3) by simp
    next
      case 3
      then show ?thesis using that assms(4) [of j] len(3) by simp
    next
      case 4
      then have "in_use (es ! j)" "in_use (es ! k)" "key (es ! j) = key (es ! k)" using that by simp_all
      then show ?thesis using assms(1) that(1,2) unfolding entries_ok_def by blast
    qed simp
  qed
  ultimately show ?thesis using len unfolding entries_ok_def by simp
qed

text \<open>What an update of slot \<open>i\<close> does to the map: the old key goes, the new one comes.\<close>

lemma reg_map_update:
  assumes "entries_ok es n" and "i < n" and "entries_ok (es[i := e]) n"
  shows "reg_map (es[i := e]) n =
     (let m = (if in_use (es ! i) then (reg_map es n)(key (es ! i) := None) else reg_map es n)
      in if in_use e then m(key e \<mapsto> val e) else m)"
proof (rule ext, rule option_eq_by_Some)
  fix k v
  have len: "i < length es" using assms(1,2) by (simp add: entries_ok_def)
  have old: "reg_map es n k = Some v \<longleftrightarrow> (\<exists>j < n. in_use (es ! j) \<and> key (es ! j) = k \<and> val (es ! j) = v)"
    by (rule reg_map_Some_iff [OF assms(1)])
  have uniq: "j = i" if "j < n" "in_use (es ! j)" "in_use (es ! i)" "key (es ! j) = key (es ! i)" for j
    using that assms(1,2) unfolding entries_ok_def by blast
  have new: "reg_map (es[i := e]) n k = Some v \<longleftrightarrow>
     in_use e \<and> key e = k \<and> val e = v \<or> (\<exists>j < n. j \<noteq> i \<and> in_use (es ! j) \<and> key (es ! j) = k \<and> val (es ! j) = v)"
    unfolding reg_map_Some_iff [OF assms(3)]
    using ex_nth_update [OF assms(2) len, of "\<lambda>x. in_use x \<and> key x = k \<and> val x = v" e] by simp
  have fresh: "key (es ! j) \<noteq> key e" if "in_use e" "j < n" "j \<noteq> i" "in_use (es ! j)" for j
  proof
    assume "key (es ! j) = key e"
    then have "in_use (es[i := e] ! i)" "in_use (es[i := e] ! j)" "key (es[i := e] ! i) = key (es[i := e] ! j)"
      using that len by simp_all
    then show False using assms(2,3) that(2,3) unfolding entries_ok_def by blast
  qed
  have rest: "(\<exists>j < n. j \<noteq> i \<and> in_use (es ! j) \<and> key (es ! j) = k \<and> val (es ! j) = v) \<longleftrightarrow>
     (if in_use (es ! i) \<and> key (es ! i) = k then False else reg_map es n k = Some v)"
  proof (cases "in_use (es ! i) \<and> key (es ! i) = k")
    case True
    then have "j = i" if "j < n" "in_use (es ! j)" "key (es ! j) = k" for j using uniq [of j] that by simp
    then show ?thesis unfolding if_P [OF True] by blast
  next
    case False
    then show ?thesis unfolding old if_not_P [OF False] by blast
  qed
  show "reg_map (es[i := e]) n k = Some v \<longleftrightarrow>
     (let m = (if in_use (es ! i) then (reg_map es n)(key (es ! i) := None) else reg_map es n)
      in if in_use e then m(key e \<mapsto> val e) else m) k = Some v"
  proof (cases "in_use e \<and> key e = k")
    case True
    have none: "\<not> (\<exists>j < n. j \<noteq> i \<and> in_use (es ! j) \<and> key (es ! j) = k \<and> val (es ! j) = v)"
    proof (rule notI, elim exE conjE)
      fix j assume "j < n" "j \<noteq> i" "in_use (es ! j)" "key (es ! j) = k"
      then show False using fresh [of j] True by simp
    qed
    show ?thesis unfolding new Eq_FalseI [OF none] using True by (simp add: Let_def)
  next
    case False
    then have "k \<noteq> key e" if "in_use e" using that by blast
    then show ?thesis unfolding new rest using False by (simp add: Let_def)
  qed
qed

lemma card_dom_reg_map:
  assumes "entries_ok es n"
  shows "card (dom (reg_map es n)) = count_if in_use (take n es)"
proof -
  let ?I = "{i. i < n \<and> in_use (es ! i)}"
  have dom: "dom (reg_map es n) = (\<lambda>i. key (es ! i)) ` ?I"
    using reg_map_Some_iff [OF assms] by (auto simp: dom_def)
  have "inj_on (\<lambda>i. key (es ! i)) ?I" using assms unfolding entries_ok_def inj_on_def by blast
  then have "card (dom (reg_map es n)) = card ?I" unfolding dom by (rule card_image)
  also have "?I = {i. i < length (take n es) \<and> in_use (take n es ! i)}"
    using assms by (auto simp: entries_ok_def)
  finally show ?thesis by (simp add: count_if_def length_filter_conv_card)
qed

section \<open>Operations\<close>

definition reg_ok :: "nat \<Rightarrow> owreg_store_t \<Rightarrow> owreg_entry_t list \<Rightarrow> bool" where
  "reg_ok n st es \<longleftrightarrow> entries st = Ref es \<and> unat (capacity st) = n \<and> entries_ok es n \<and>
     unat (cnt st) = count_if in_use (take n es)"

lemma idx32_Some:
  assumes "i < 2 ^ 31"
  shows "\<not> sint (idx32 (Some i)) < 0" and "unat (idx32 (Some i)) = i"
proof -
  show i: "unat (idx32 (Some i)) = i" using assms by (simp add: idx32_def unat_of_nat_u32)
  then show "\<not> sint (idx32 (Some i)) < 0" using assms by (simp only: sint_neg_iff not_not)
qed

lemma idx32_None: "sint (idx32 None) < 0"
  by (simp add: idx32_def)

lemma reg_find:
  assumes "reg_ok n st es" and "c_str k"
  shows "owreg_find_index (Ref st) (Ref k) = Some (idx32 (slot es n k))"
proof -
  have es: "entries st = Ref es" "unat (capacity st) = n" "n \<le> length es" "entries_ok es n"
    using assms(1) by (auto simp: reg_ok_def entries_ok_def)
  have "first_index (\<lambda>e. in_use e \<and> ow_strcmp (key e) k = 0) (take n es) = slot es n k"
    unfolding slot_def
  proof (rule first_index_cong_update)
    fix j assume j: "j < length (take n es)"
    then have "in_use (es ! j) \<longrightarrow> c_str (key (es ! j))" using es(4) by (simp add: entries_ok_def entry_ok_def)
    then show "(in_use (take n es ! j) \<and> ow_strcmp (key (take n es ! j)) k = 0) =
        (in_use (take n es ! j) \<and> key (take n es ! j) = k)"
      using j ow_strcmp_0 [OF _ assms(2)] by auto
  qed simp
  then show ?thesis using es by (simp add: owreg_find_index_def c_find_eq)
qed

lemma slot_bound: "entries_ok es n \<Longrightarrow> slot es n k = Some i \<Longrightarrow> i < n \<and> i < length es \<and> i < 2 ^ 31"
  unfolding slot_Some_iff by (auto simp: entries_ok_def)

definition open_handle :: "nat \<Rightarrow> u32 \<Rightarrow> owreg_handle_t" where
  "open_handle i flags = \<lparr>store = Ref (), index = idx32 (Some i), writable = flags AND OWREG_OPEN_WRITE \<noteq> 0,
     valid = True\<rparr>"

lemma open_found:
  assumes "reg_ok n st es" and "ow_key_valid (Ref k)" and "slot es n k = Some i"
  shows "owreg_open (Ref st) (Ref k) flags = Some (open_handle i flags, Ref st)"
proof -
  have es: "entries st = Ref es" "entries_ok es n" using assms(1) by (auto simp: reg_ok_def)
  have i: "i < 2 ^ 31" using slot_bound [OF es(2) assms(3)] by simp
  have find: "owreg_find_index (Ref st) (Ref k) = Some (idx32 (Some i))"
    using reg_find [OF assms(1)] ow_key_valid_props [OF assms(2)] assms(3) by simp
  show ?thesis
    unfolding owreg_open_def using find es(1) assms(2) idx32_Some(1) [OF i]
    by (simp add: open_handle_def)
qed

lemma open_absent:
  assumes "reg_ok n st es" and "ow_key_valid (Ref k)" and "slot es n k = None" and "flags AND OWREG_OPEN_CREATE = 0"
  shows "owreg_open (Ref st) (Ref k) flags = Some (owreg_bad_handle, Ref st)"
  unfolding owreg_open_def
  using reg_find [OF assms(1)] ow_key_valid_props [OF assms(2)] assms idx32_None by (simp add: reg_ok_def)

lemma reg_free:
  assumes "reg_ok n st es"
  shows "owreg_free_index es (capacity st) = Some (idx32 (first_index (\<lambda>e. \<not> in_use e) (take n es)))"
  using assms by (auto simp: reg_ok_def entries_ok_def owreg_free_index_def c_find_eq)

lemma open_full:
  assumes "reg_ok n st es" and "ow_key_valid (Ref k)" and "slot es n k = None"
    and "\<not> count_if in_use (take n es) < n"
  shows "owreg_open (Ref st) (Ref k) flags = Some (owreg_bad_handle, Ref st)"
proof -
  have len: "n \<le> length es" using assms(1) by (simp add: reg_ok_def entries_ok_def)
  have "in_use x" if "x \<in> set (take n es)" for x
  proof (rule ccontr)
    assume "\<not> in_use x"
    then have "count_if in_use (take n es) < length (take n es)"
      using that by (metis count_if_less in_set_conv_nth)
    then show False using assms(4) len by simp
  qed
  then have "first_index (\<lambda>e. \<not> in_use e) (take n es) = None" by (simp add: first_index_None_iff)
  then show ?thesis
    unfolding owreg_open_def
    using reg_find [OF assms(1)] ow_key_valid_props [OF assms(2)] assms(1-3) reg_free [OF assms(1)] idx32_None
    by (simp add: reg_ok_def)
qed

lemma reg_ok_set:
  assumes "reg_ok n st es" and "i < n" and "entries_ok (es[i := e]) n"
    and "unat c + (if in_use (es ! i) then 1 else 0) = unat (cnt st) + (if in_use e then 1 else 0)"
  shows "reg_ok n (st\<lparr>entries := Ref (es[i := e]), cnt := c\<rparr>) (es[i := e])"
proof -
  have len: "i < length (take n es)" "take n es ! i = es ! i"
    using assms(1,2) by (auto simp: reg_ok_def entries_ok_def)
  have "count_if in_use ((take n es)[i := e]) + (if in_use (es ! i) then 1 else 0) =
     count_if in_use (take n es) + (if in_use e then 1 else 0)"
    using count_if_update [OF len(1), of in_use e] len(2) by simp
  then have "unat c = count_if in_use (take n (es[i := e]))"
    using assms(1,4) unfolding reg_ok_def take_update_swap by (auto split: if_splits)
  then show ?thesis using assms(1,3) by (simp add: reg_ok_def)
qed

lemma open_create:
  assumes "reg_ok n st es" and "ow_key_valid (Ref k)" and "slot es n k = None"
    and "count_if in_use (take n es) < n" and "flags AND OWREG_OPEN_CREATE \<noteq> 0"
  shows "\<exists>i st' es'. owreg_open (Ref st) (Ref k) flags = Some (open_handle i flags, Ref st') \<and>
     reg_ok n st' es' \<and> reg_map es' n = (reg_map es n)(k \<mapsto> []) \<and> slot es' n k = Some i"
proof -
  have es: "entries st = Ref es" "unat (capacity st) = n" "entries_ok es n" "n \<le> length es" "n \<le> 2 ^ 31"
    "unat (cnt st) = count_if in_use (take n es)"
    using assms(1) by (auto simp: reg_ok_def entries_ok_def)
  have k: "c_str k" "length k < 96" using ow_key_valid_props [OF assms(2)] by auto
  have "\<exists>x \<in> set (take n es). \<not> in_use x"
  proof (rule ccontr)
    assume "\<not> ?thesis"
    then have "count_if in_use (take n es) = length (take n es)" unfolding count_if_def by (simp add: filter_True)
    then show False using assms(4) es(4) by simp
  qed
  then obtain i where i: "first_index (\<lambda>e. \<not> in_use e) (take n es) = Some i"
    by (cases "first_index (\<lambda>e. \<not> in_use e) (take n es)") (auto simp: first_index_None_iff)
  have il: "i < n" "\<not> in_use (es ! i)" "i < length es" "i < 2 ^ 31"
    using first_index_SomeD [OF i] es(4,5) by simp_all
  let ?e = "(es ! i)\<lparr>in_use := True, val := [], key := k\<rparr>"
  let ?st = "st\<lparr>entries := Ref (es[i := ?e]), cnt := cnt st + 1\<rparr>"
  have "c_strcopy 96 (Ref k) = k" using k(2) by simp
  then have run: "owreg_open (Ref st) (Ref k) flags = Some (open_handle i flags, Ref ?st)"
    unfolding owreg_open_def
    using reg_find [OF assms(1) k(1)] assms(2,3,5) es(1) reg_free [OF assms(1)] i idx32_None idx32_Some [OF il(4)] il(3)
    by (simp add: open_handle_def)
  have ok: "entries_ok (es[i := ?e]) n"
  proof (rule entries_ok_update [OF es(3) il(1)])
    show "entry_ok ?e" using k by (simp add: entry_ok_def)
    show "key (es ! j) \<noteq> key ?e" if "j < n" "in_use (es ! j)" for j
      using assms(3) slot_Some_iff [OF es(3), of k j] that by auto
  qed
  have "unat (cnt st + 1) = Suc (unat (cnt st))"
    using es(6) assms(4) es(5) by (intro unat_add1) simp
  then have "reg_ok n ?st (es[i := ?e])" using il(2) by (intro reg_ok_set [OF assms(1) il(1) ok]) simp
  moreover have "reg_map (es[i := ?e]) n = (reg_map es n)(k \<mapsto> [])"
    using reg_map_update [OF es(3) il(1) ok] il(2) by (simp add: Let_def)
  moreover have "slot (es[i := ?e]) n k = Some i"
    using slot_Some_iff [OF ok, of k i] il(1,3) by simp
  ultimately show ?thesis using run by blast
qed

lemma handle_entry:
  assumes "reg_ok n st es" and "i < n"
  shows "owreg_handle_entry st (Ref (open_handle i flags)) = Ref i"
proof -
  have "i < 2 ^ 31" using assms by (auto simp: reg_ok_def entries_ok_def)
  then have "unat (idx32 (Some i)) = i" by (rule idx32_Some(2))
  then show ?thesis
    using assms by (simp add: owreg_handle_entry_def open_handle_def reg_ok_def word_le_nat_alt)
qed

lemma writable_open: "writable (open_handle i flags) \<longleftrightarrow> flags AND OWREG_OPEN_WRITE \<noteq> 0"
  by (simp add: open_handle_def)

lemma write_ok:
  assumes "reg_ok n st es" and "slot es n k = Some i" and "flags AND OWREG_OPEN_WRITE \<noteq> 0" and "length v < 128"
  shows "\<exists>st' es'. owreg_write st (Ref (open_handle i flags)) (Ref v) = Some (OWREG_OK, st') \<and>
     reg_ok n st' es' \<and> reg_map es' n = (reg_map es n)(k \<mapsto> v)"
proof -
  have es: "entries st = Ref es" "entries_ok es n" using assms(1) by (auto simp: reg_ok_def)
  have i: "i < n" "in_use (es ! i)" "key (es ! i) = k" "i < length es"
    using assms(2) slot_Some_iff [OF es(2)] slot_bound [OF es(2) assms(2)] by auto
  let ?e = "(es ! i)\<lparr>val := v\<rparr>"
  have "c_strcopy 128 (Ref v) = v" using assms(4) by simp
  then have run: "owreg_write st (Ref (open_handle i flags)) (Ref v) =
      Some (OWREG_OK, st\<lparr>entries := Ref (es[i := ?e])\<rparr>)"
    using handle_entry [OF assms(1) i(1), of flags] assms(3,4) es(1) i(4) writable_open [of i flags]
    by (simp add: owreg_write_def)
  have ok: "entries_ok (es[i := ?e]) n"
  proof (rule entries_ok_update [OF es(2) i(1)])
    show "entry_ok ?e" using es(2) i(1,2) assms(4) by (simp add: entries_ok_def entry_ok_def)
    show "key (es ! j) \<noteq> key ?e" if "j < n" "j \<noteq> i" "in_use (es ! j)" for j
      using es(2) i(1,2) that unfolding entries_ok_def by auto
  qed
  have "reg_ok n (st\<lparr>entries := Ref (es[i := ?e]), cnt := cnt st\<rparr>) (es[i := ?e])"
    by (intro reg_ok_set [OF assms(1) i(1) ok]) simp
  moreover have "reg_map (es[i := ?e]) n = (reg_map es n)(k \<mapsto> v)"
    using reg_map_update [OF es(2) i(1) ok] i(2,3) by (simp add: Let_def)
  ultimately show ?thesis using run by (intro exI [of _ "st\<lparr>entries := Ref (es[i := ?e])\<rparr>"] exI [of _ "es[i := ?e]"]) simp
qed

lemma delete_ok:
  assumes "reg_ok n st es" and "slot es n k = Some i" and "c_str k"
  shows "\<exists>st' es'. owreg_delete (Ref st) (Ref k) = Some (True, Ref st') \<and>
     reg_ok n st' es' \<and> reg_map es' n = (reg_map es n)(k := None)"
proof -
  have es: "entries st = Ref es" "entries_ok es n" "unat (cnt st) = count_if in_use (take n es)"
    using assms(1) by (auto simp: reg_ok_def)
  have i: "i < n" "in_use (es ! i)" "key (es ! i) = k" "i < length es" "i < 2 ^ 31"
    using assms(2) slot_Some_iff [OF es(2)] slot_bound [OF es(2) assms(2)] by auto
  have pos: "cnt st > 0"
    using es(3) count_if_pos [of i "take n es" in_use] i(1,2,4) by (auto simp: word_gt_0)
  let ?e = "(es ! i)\<lparr>in_use := False, key := [], val := []\<rparr>"
  let ?st = "st\<lparr>entries := Ref (es[i := ?e]), cnt := cnt st - 1\<rparr>"
  have run: "owreg_delete (Ref st) (Ref k) = Some (True, Ref ?st)"
    using reg_find [OF assms(1,3)] assms(2) idx32_Some [OF i(5)] es(1) i(4) pos
    by (simp add: owreg_delete_def)
  have ok: "entries_ok (es[i := ?e]) n" by (rule entries_ok_update [OF es(2) i(1)]) simp_all
  have "unat (cnt st) = Suc (unat (cnt st - 1))" using pos by (simp add: unat_minus1 word_gt_0)
  then have "reg_ok n ?st (es[i := ?e])" using i(2) by (intro reg_ok_set [OF assms(1) i(1) ok]) simp
  moreover have "reg_map (es[i := ?e]) n = (reg_map es n)(k := None)"
    using reg_map_update [OF es(2) i(1) ok] i(2,3) by (simp add: Let_def)
  ultimately show ?thesis using run by blast
qed

lemma write_too_big:
  assumes "reg_ok n st es" and "slot es n k = Some i" and "flags AND OWREG_OPEN_WRITE \<noteq> 0" and "\<not> length v < 128"
  shows "owreg_write st (Ref (open_handle i flags)) (Ref v) = Some (OWREG_ERR_TOOBIG, st)"
proof -
  have "entries_ok es n" using assms(1) by (simp add: reg_ok_def)
  then have "i < n" using slot_bound [OF _ assms(2)] by blast
  then show ?thesis
    using handle_entry [OF assms(1), of i flags] assms(3,4) writable_open [of i flags] by (simp add: owreg_write_def)
qed

lemma read_ok:
  assumes "reg_ok n st es" and "slot es n k = Some i" and "reg_map es n k = Some v"
  shows "owreg_read st (Ref (open_handle i flags)) (Ref out) 128 = Some (int (length v), Ref v)"
proof -
  have es: "entries st = Ref es" "entries_ok es n" using assms(1) by (auto simp: reg_ok_def)
  have i: "i < n" "i < length es" "in_use (es ! i)"
    using slot_bound [OF es(2) assms(2)] slot_Some_iff [OF es(2)] assms(2) by auto
  have v: "val (es ! i) = v" using assms(2,3) by (simp add: reg_map_def)
  then have "length v < 128" using es(2) i(1,3) by (auto simp: entries_ok_def entry_ok_def)
  then show ?thesis
    using handle_entry [OF assms(1) i(1), of flags] es(1) i(2) v
    by (simp add: owreg_read_def entry_at_def)
qed

section \<open>Refinement to a bounded map\<close>

datatype reg_op = RSet string string | RGet string | RDel string | RHas string

datatype reg_res = NoHandle | Status int | Value string | Answer bool

text \<open>The client: every access opens a handle, uses it and closes it.\<close>

fun reg_step :: "owreg_store_t \<Rightarrow> reg_op \<Rightarrow> (reg_res \<times> owreg_store_t) comp" where
  "reg_step st (RSet k v) =
     do { (h, s1) \<leftarrow> owreg_open (Ref st) (Ref k) (OWREG_OPEN_READ OR OWREG_OPEN_WRITE OR OWREG_OPEN_CREATE);
          case s1 of NULL \<Rightarrow> None
          | Ref st1 \<Rightarrow>
             if \<not> valid h then Some (NoHandle, st1)
             else do { (r, st2) \<leftarrow> owreg_write st1 (Ref h) (Ref v);
                       if fst (owreg_close (Ref h)) then Some (Status r, st2) else None } }"
| "reg_step st (RGet k) =
     do { (h, s1) \<leftarrow> owreg_open (Ref st) (Ref k) OWREG_OPEN_READ;
          case s1 of NULL \<Rightarrow> None
          | Ref st1 \<Rightarrow>
             if \<not> valid h then Some (NoHandle, st1)
             else do { (r, out) \<leftarrow> owreg_read st1 (Ref h) (Ref []) 128;
                       case out of NULL \<Rightarrow> None
                       | Ref v \<Rightarrow> if fst (owreg_close (Ref h)) then Some (if r < 0 then Status r else Value v, st1)
                                  else None } }"
| "reg_step st (RDel k) =
     do { (b, s1) \<leftarrow> owreg_delete (Ref st) (Ref k);
          case s1 of NULL \<Rightarrow> None | Ref st1 \<Rightarrow> Some (Answer b, st1) }"
| "reg_step st (RHas k) = do { b \<leftarrow> owreg_exists (Ref st) (Ref k); Some (Answer b, st) }"

fun reg_run :: "owreg_store_t \<Rightarrow> reg_op list \<Rightarrow> (reg_res list \<times> owreg_store_t) comp" where
  "reg_run st [] = Some ([], st)"
| "reg_run st (x # xs) = do { (r, st) \<leftarrow> reg_step st x; (rs, st) \<leftarrow> reg_run st xs; Some (r # rs, st) }"

text \<open>
  The map. A valid new key needs room; a value of 128 characters or more is refused, but the key
  that was created for it stays, with the empty value.
\<close>

fun map_step :: "nat \<Rightarrow> (string \<Rightarrow> string option) \<Rightarrow> reg_op \<Rightarrow> reg_res \<times> (string \<Rightarrow> string option)" where
  "map_step n m (RSet k v) =
     (if \<not> ow_key_valid (Ref k) \<or> m k = None \<and> \<not> card (dom m) < n then (NoHandle, m)
      else let m1 = (if m k = None then m(k \<mapsto> []) else m) in
           if length v < 128 then (Status OWREG_OK, m1(k \<mapsto> v)) else (Status OWREG_ERR_TOOBIG, m1))"
| "map_step n m (RGet k) =
     ((case m k of None \<Rightarrow> NoHandle | Some v \<Rightarrow> if ow_key_valid (Ref k) then Value v else NoHandle), m)"
| "map_step n m (RDel k) = (Answer (m k \<noteq> None), m(k := None))"
| "map_step n m (RHas k) = (Answer (m k \<noteq> None), m)"

fun map_run :: "nat \<Rightarrow> (string \<Rightarrow> string option) \<Rightarrow> reg_op list \<Rightarrow> reg_res list \<times> (string \<Rightarrow> string option)" where
  "map_run n m [] = ([], m)"
| "map_run n m (x # xs) = (let (r, m1) = map_step n m x; (rs, m2) = map_run n m1 xs in (r # rs, m2))"

fun op_c_str :: "reg_op \<Rightarrow> bool" where
  "op_c_str (RSet k v) = (c_str k \<and> c_str v)"
| "op_c_str (RGet k) = c_str k"
| "op_c_str (RDel k) = c_str k"
| "op_c_str (RHas k) = c_str k"

lemma open_invalid:
  assumes "reg_ok n st es" and "\<not> ow_key_valid (Ref k)"
  shows "owreg_open (Ref st) (Ref k) flags = Some (owreg_bad_handle, Ref st)"
  using assms by (simp add: owreg_open_def reg_ok_def)

lemma open_valid_close: "valid (open_handle i flags)" "fst (owreg_close (Ref (open_handle i flags)))"
  "\<not> valid owreg_bad_handle"
  by (simp_all add: open_handle_def owreg_close_def owreg_bad_handle_def)

lemma set_flags: "(OWREG_OPEN_READ OR OWREG_OPEN_WRITE OR OWREG_OPEN_CREATE) AND OWREG_OPEN_WRITE \<noteq> 0"
  "(OWREG_OPEN_READ OR OWREG_OPEN_WRITE OR OWREG_OPEN_CREATE) AND OWREG_OPEN_CREATE \<noteq> 0"
  "OWREG_OPEN_READ AND OWREG_OPEN_CREATE = 0"
  by simp_all

text \<open>Writing through a handle that was just opened.\<close>

lemma set_through:
  assumes "reg_ok n st1 es1" and "slot es1 n k = Some i"
    and "owreg_open (Ref st) (Ref k) (OWREG_OPEN_READ OR OWREG_OPEN_WRITE OR OWREG_OPEN_CREATE) =
      Some (open_handle i (OWREG_OPEN_READ OR OWREG_OPEN_WRITE OR OWREG_OPEN_CREATE), Ref st1)"
  shows "\<exists>st' es'. reg_step st (RSet k v) =
      Some (Status (if length v < 128 then OWREG_OK else OWREG_ERR_TOOBIG), st') \<and> reg_ok n st' es' \<and>
     reg_map es' n = (if length v < 128 then (reg_map es1 n)(k \<mapsto> v) else reg_map es1 n)"
proof (cases "length v < 128")
  case True
  from write_ok [OF assms(1,2) set_flags(1) True] obtain st' es' where
    "owreg_write st1 (Ref (open_handle i (OWREG_OPEN_READ OR OWREG_OPEN_WRITE OR OWREG_OPEN_CREATE))) (Ref v) =
       Some (OWREG_OK, st')" "reg_ok n st' es'" "reg_map es' n = (reg_map es1 n)(k \<mapsto> v)" by blast
  then show ?thesis using True by (simp only: reg_step.simps assms(3)) (auto simp: open_valid_close)
next
  case False
  from write_too_big [OF assms(1,2) set_flags(1) False] show ?thesis
    using False assms(1) by (simp only: reg_step.simps assms(3)) (auto simp: open_valid_close)
qed

lemma reg_step_refines:
  assumes "reg_ok n st es" and "op_c_str x"
  shows "\<exists>st' es'. reg_step st x = Some (fst (map_step n (reg_map es n) x), st') \<and> reg_ok n st' es' \<and>
     reg_map es' n = snd (map_step n (reg_map es n) x)"
proof (cases x)
  case (RSet k v)
  have eok: "entries_ok es n" using assms(1) by (simp add: reg_ok_def)
  have card: "card (dom (reg_map es n)) = count_if in_use (take n es)" by (rule card_dom_reg_map [OF eok])
  show ?thesis
  proof (cases "ow_key_valid (Ref k)")
    case False
    then show ?thesis
      using RSet assms(1) open_invalid [OF assms(1) False] by (auto simp: open_valid_close)
  next
    case valid: True
    show ?thesis
    proof (cases "slot es n k")
      case (Some i)
      then have "reg_map es n k \<noteq> None" by (simp add: reg_map_def)
      then show ?thesis
        using set_through [OF assms(1) Some open_found [OF assms(1) valid Some], of v] RSet valid
        by (auto simp: Let_def simp del: reg_step.simps)
    next
      case None
      then have m: "reg_map es n k = None" by (simp add: reg_map_def)
      show ?thesis
      proof (cases "count_if in_use (take n es) < n")
        case room: True
        from open_create [OF assms(1) valid None room set_flags(2)] obtain i st1 es1 where
          "owreg_open (Ref st) (Ref k) (OWREG_OPEN_READ OR OWREG_OPEN_WRITE OR OWREG_OPEN_CREATE) =
            Some (open_handle i (OWREG_OPEN_READ OR OWREG_OPEN_WRITE OR OWREG_OPEN_CREATE), Ref st1)"
          "reg_ok n st1 es1" "reg_map es1 n = (reg_map es n)(k \<mapsto> [])" "slot es1 n k = Some i" by blast
        then show ?thesis
          using set_through [of n st1 es1 k i st v] RSet valid m room card
          by (auto simp: Let_def simp del: reg_step.simps)
      next
        case False
        then show ?thesis
          using open_full [OF assms(1) valid None False] RSet m card assms(1) by (auto simp: open_valid_close)
      qed
    qed
  qed
next
  case (RGet k)
  show ?thesis
  proof (cases "ow_key_valid (Ref k)")
    case False
    then show ?thesis
      using RGet assms(1) open_invalid [OF assms(1) False] by (auto simp: open_valid_close split: option.splits)
  next
    case valid: True
    show ?thesis
    proof (cases "slot es n k")
      case (Some i)
      then have m: "reg_map es n k = Some (val (es ! i))" by (simp add: reg_map_def)
      show ?thesis
        using RGet assms(1) valid m open_found [OF assms(1) valid Some] read_ok [OF assms(1) Some m]
        by (auto simp: open_valid_close)
    next
      case None
      then show ?thesis
        using RGet assms(1) open_absent [OF assms(1) valid None set_flags(3)]
        by (auto simp: open_valid_close reg_map_def)
    qed
  qed
next
  case (RDel k)
  show ?thesis
  proof (cases "slot es n k")
    case (Some i)
    then show ?thesis
      using RDel delete_ok [OF assms(1) Some] assms(2) by (auto simp: reg_map_def)
  next
    case None
    then have "owreg_delete (Ref st) (Ref k) = Some (False, Ref st)"
      using reg_find [OF assms(1), of k] assms(2) RDel idx32_None by (simp add: owreg_delete_def)
    moreover have "(reg_map es n)(k := None) = reg_map es n"
      using None by (intro fun_upd_idem) (simp add: reg_map_def)
    ultimately show ?thesis using RDel None assms(1) by (auto simp: reg_map_def)
  qed
next
  case (RHas k)
  have "\<not> sint (idx32 (slot es n k)) < 0 \<longleftrightarrow> slot es n k \<noteq> None"
  proof (cases "slot es n k")
    case (Some i)
    then have "i < 2 ^ 31" using assms(1) slot_bound by (auto simp: reg_ok_def)
    then show ?thesis using Some idx32_Some(1) by simp
  qed (simp add: idx32_None)
  then have "owreg_exists (Ref st) (Ref k) = Some (slot es n k \<noteq> None)"
    using reg_find [OF assms(1), of k] assms(2) RHas by (simp add: owreg_exists_def)
  then show ?thesis using RHas assms(1) by (auto simp: reg_map_def)
qed

lemma reg_run_refines:
  assumes "reg_ok n st es" and "\<forall>x \<in> set ops. op_c_str x"
  shows "\<exists>st' es'. reg_run st ops = Some (fst (map_run n (reg_map es n) ops), st') \<and> reg_ok n st' es' \<and>
     reg_map es' n = snd (map_run n (reg_map es n) ops)"
  using assms
proof (induction ops arbitrary: st es)
  case Nil
  then show ?case by auto
next
  case (Cons x ops)
  from reg_step_refines [OF Cons.prems(1), of x] Cons.prems(2) obtain st1 es1 where
    1: "reg_step st x = Some (fst (map_step n (reg_map es n) x), st1)" "reg_ok n st1 es1"
      "reg_map es1 n = snd (map_step n (reg_map es n) x)" by auto
  from Cons.IH [OF 1(2)] Cons.prems(2) obtain st2 es2 where
    2: "reg_run st1 ops = Some (fst (map_run n (reg_map es1 n) ops), st2)" "reg_ok n st2 es2"
      "reg_map es2 n = snd (map_run n (reg_map es1 n) ops)" by auto
  show ?case using 2 by (auto simp: 1(1) 1(3) Let_def case_prod_unfold)
qed

lemma reg_init_ok:
  assumes "unat cap \<le> length es" and "unat cap \<le> 2 ^ 31"
  shows "\<exists>st' es'. owreg_store_init (Ref st) (Ref es) cap = Some (Ref st') \<and> reg_ok (unat cap) st' es' \<and>
     reg_map es' (unat cap) = Map.empty"
proof -
  let ?f = "map (\<lambda>e. e\<lparr>in_use := False, key := [], val := []\<rparr>) (take (unat cap) es)"
  let ?es = "?f @ drop (unat cap) es"
  have init: "owreg_store_init (Ref st) (Ref es) cap =
      Some (Ref (st\<lparr>entries := Ref ?es, capacity := cap, cnt := 0\<rparr>))"
    using assms(1) by (simp add: owreg_store_init_def c_memcpy_def)
  have free: "\<not> in_use (?es ! i)" if "i < unat cap" for i using that assms(1) by (simp add: nth_append)
  have ok: "entries_ok ?es (unat cap)" using assms free by (simp add: entries_ok_def)
  have none: "slot ?es (unat cap) k = None" for k
    using slot_Some_iff [OF ok, of k] free by (metis option.exhaust)
  have "count_if in_use (take (unat cap) ?es) = 0"
    using assms(1) by (simp add: count_if_0_iff)
  then have "reg_ok (unat cap) (st\<lparr>entries := Ref ?es, capacity := cap, cnt := 0\<rparr>) ?es"
    using ok by (simp add: reg_ok_def)
  moreover have "reg_map ?es (unat cap) = Map.empty" by (rule ext) (simp add: reg_map_def none)
  ultimately show ?thesis using init by blast
qed

section \<open>Enumeration\<close>

definition prefix_match :: "string ptr \<Rightarrow> owreg_entry_t \<Rightarrow> bool" where
  "prefix_match p e \<longleftrightarrow> in_use e \<and> (case p of NULL \<Rightarrow> True | Ref q \<Rightarrow> take (length q) (key e) = q)"

definition matching :: "string ptr \<Rightarrow> owreg_entry_t list \<Rightarrow> string list" where
  "matching p es = map key (filter (prefix_match p) es)"

lemma enum_loop_ok:
  assumes "entries_ok es (unat cap)" and "case prefix of NULL \<Rightarrow> True | Ref q \<Rightarrow> c_str q"
    and "names = Ref ns" and "unat max_names \<le> length ns" and "unat sd \<le> unat max_names"
    and "unat mt \<le> i" and "i \<le> unat cap"
    and "rest = matching prefix (drop i (take (unat cap) es))"
    and "chosen = take (unat max_names - unat sd) (drop (unat start - unat mt) rest)"
  shows "enum_loop es cap i prefix start names max_names mt sd =
     Some (mt + of_nat (length rest), Ref (take (unat sd) ns @ chosen @ drop (unat sd + length chosen) ns))"
  using assms
proof (induction es cap i prefix start names max_names mt sd arbitrary: ns rest chosen rule: enum_loop.induct)
  case (1 es cap i prefix start names max_names mt sd)
  note prems = "1.prems"
  show ?case
  proof (cases "i < unat cap")
    case False
    then have "rest = []" using prems(7,8) by (simp add: matching_def)
    then show ?thesis using False prems by (subst enum_loop.simps) simp
  next
    case True
    have len: "i < length es" using True prems(1) by (simp add: entries_ok_def)
    have rd: "c_rd es i = Some (es ! i)" using len by simp
    have cons: "drop i (take (unat cap) es) = es ! i # drop (Suc i) (take (unat cap) es)"
      using True len by (simp add: Cons_nth_drop_Suc [symmetric])
    have S: "Suc i \<le> unat cap" using True by simp
    define rest1 where "rest1 = matching prefix (drop (Suc i) (take (unat cap) es))"
    have ck: "c_str (key (es ! i))" if "in_use (es ! i)"
      using that prems(1) True by (simp add: entries_ok_def entry_ok_def)
    have miss: "(case prefix of NULL \<Rightarrow> False | Ref p \<Rightarrow> ow_strncmp (key (es ! i)) p (length p) \<noteq> 0) \<longleftrightarrow>
        \<not> prefix_match prefix (es ! i)" if "in_use (es ! i)"
      using that ck [OF that] prems(2) by (auto simp: prefix_match_def ow_strncmp_prefix split: ptr.splits)
    show ?thesis
    proof (cases "prefix_match prefix (es ! i)")
      case False
      then have same: "rest = rest1" using prems(8) cons by (simp add: rest1_def matching_def)
      have next_eq: "enum_loop es cap i prefix start names max_names mt sd =
          enum_loop es cap (Suc i) prefix start names max_names mt sd"
        using rd True False miss by (subst enum_loop.simps) auto
      show ?thesis
      proof (cases "in_use (es ! i)")
        case False
        show ?thesis unfolding next_eq
          using prems S same by (intro "1.IH"(1) [OF True rd False]) (simp_all add: rest1_def)
      next
        case use: True
        have m: "case prefix of NULL \<Rightarrow> False | Ref p \<Rightarrow> ow_strncmp (key (es ! i)) p (length p) \<noteq> 0"
          using miss [OF use] False by blast
        have nu: "\<not> \<not> in_use (es ! i)" using use by simp
        show ?thesis unfolding next_eq
          using prems S same by (intro "1.IH"(2) [OF True rd nu m]) (simp_all add: rest1_def)
      qed
    next
      case hit: True
      then have use: "\<not> \<not> in_use (es ! i)" by (simp add: prefix_match_def)
      have m: "\<not> (case prefix of NULL \<Rightarrow> False | Ref p \<Rightarrow> ow_strncmp (key (es ! i)) p (length p) \<noteq> 0)"
        using miss hit use by blast
      have rest: "rest = key (es ! i) # rest1" using prems(8) cons hit by (simp add: rest1_def matching_def)
      have "unat mt < 2 ^ 32 - 1"
        using prems(6) True unsigned_less [of cap, where ?'a = nat] by simp
      then have mt1: "unat (mt + 1) = Suc (unat mt)" by (intro unat_add1) simp
      show ?thesis
      proof (cases "mt \<ge> start \<and> sd < max_names")
        case store: True
        have lt: "unat sd < unat max_names" "unat start - unat mt = 0"
          using store by (simp_all add: word_less_nat_alt word_le_nat_alt)
        have sd1: "unat (sd + 1) = Suc (unat sd)" using store by (blast intro: unat_add1_less)
        have wr: "c_wr ns (unat sd) (key (es ! i)) = Some (ns[unat sd := key (es ! i)])"
          using lt prems(4) by simp
        let ?ns = "ns[unat sd := key (es ! i)]"
        let ?ch = "take (unat max_names - Suc (unat sd)) rest1"
        have eq: "enum_loop es cap i prefix start names max_names mt sd =
            enum_loop es cap (Suc i) prefix start (Ref ?ns) max_names (mt + 1) (sd + 1)"
          using rd True use m store prems(3) wr by (subst enum_loop.simps) simp
        have "enum_loop es cap (Suc i) prefix start (Ref ?ns) max_names (mt + 1) (sd + 1) =
          Some (mt + 1 + of_nat (length rest1),
            Ref (take (unat (sd + 1)) ?ns @ ?ch @ drop (unat (sd + 1) + length ?ch) ?ns))"
        proof (rule "1.IH"(4) [OF True rd use m prems(3) store wr])
          show "rest1 = matching prefix (drop (Suc i) (take (unat cap) es))" by (rule rest1_def)
        qed (use prems(1,2,4,6) S lt sd1 mt1 in simp_all)
        moreover have "take (unat (sd + 1)) ?ns = take (unat sd) ns @ [key (es ! i)]"
          using lt prems(4) by (simp add: sd1 take_Suc_conv_app_nth list_update_append)
        moreover have "chosen = key (es ! i) # ?ch"
          unfolding prems(9) rest lt(2) using lt(1) by (simp add: take_Cons' )
        moreover have "drop (unat (sd + 1) + length ?ch) ?ns = drop (unat sd + Suc (length ?ch)) ns"
          by (simp add: sd1)
        ultimately show ?thesis unfolding eq rest by (simp add: algebra_simps)
      next
        case skip: False
        have eq: "enum_loop es cap i prefix start names max_names mt sd =
            enum_loop es cap (Suc i) prefix start names max_names (mt + 1) sd"
          using rd True use m skip prems(3) by (subst enum_loop.simps) auto
        have ch: "chosen = take (unat max_names - unat sd) (drop (unat start - unat (mt + 1)) rest1)"
        proof (cases "sd < max_names")
          case True
          then have "unat start - unat mt = Suc (unat start - unat (mt + 1))"
            using skip mt1 by (auto simp: word_le_nat_alt)
          then show ?thesis unfolding prems(9) rest by simp
        next
          case False
          then have "unat max_names - unat sd = 0" by (simp add: word_less_nat_alt)
          then show ?thesis unfolding prems(9) by simp
        qed
        have "enum_loop es cap (Suc i) prefix start names max_names (mt + 1) sd =
          Some (mt + 1 + of_nat (length rest1), Ref (take (unat sd) ns @ chosen @ drop (unat sd + length chosen) ns))"
        proof (rule "1.IH"(5) [OF True rd use m prems(3) skip])
          show "rest1 = matching prefix (drop (Suc i) (take (unat cap) es))" by (rule rest1_def)
          show "chosen = take (unat max_names - unat sd) (drop (unat start - unat (mt + 1)) rest1)" by (rule ch)
        qed (use prems(1-6) S mt1 in simp_all)
        then show ?thesis unfolding eq rest by (simp add: algebra_simps)
      qed
    qed
  qed
qed

section \<open>Properties\<close>

text \<open>C23: a store from \<open>owreg_store_init\<close> over a table of at most 2^31 entries answers every
  sequence of set, get, delete and test requests made through its handles as a map of at most
  \<open>capacity\<close> keys does, without an access out of range; at the end the table holds exactly
  the bindings of the map and \<open>count\<close> is their number.\<close>

theorem owreg_refines_map:
  assumes "unat cap \<le> length es" and "unat cap \<le> 2 ^ 31" and "\<forall>x \<in> set ops. op_c_str x"
  shows "\<exists>st1 st2 es2. owreg_store_init (Ref st) (Ref es) cap = Some (Ref st1) \<and>
     reg_run st1 ops = Some (fst (map_run (unat cap) Map.empty ops), st2) \<and> entries st2 = Ref es2 \<and>
     reg_map es2 (unat cap) = snd (map_run (unat cap) Map.empty ops) \<and>
     unat (cnt st2) = card (dom (snd (map_run (unat cap) Map.empty ops)))"
proof -
  from reg_init_ok [OF assms(1,2), of st] obtain st1 es1 where
    1: "owreg_store_init (Ref st) (Ref es) cap = Some (Ref st1)" "reg_ok (unat cap) st1 es1"
      "reg_map es1 (unat cap) = Map.empty" by blast
  from reg_run_refines [OF 1(2) assms(3)] obtain st2 es2 where
    2: "reg_run st1 ops = Some (fst (map_run (unat cap) Map.empty ops), st2)" "reg_ok (unat cap) st2 es2"
      "reg_map es2 (unat cap) = snd (map_run (unat cap) Map.empty ops)" unfolding 1(3) by blast
  have "entries st2 = Ref es2" "unat (cnt st2) = card (dom (reg_map es2 (unat cap)))"
    using 2(2) card_dom_reg_map [of es2 "unat cap"] by (auto simp: reg_ok_def)
  then show ?thesis using 1(1) 2 by auto
qed

definition stale_store :: owreg_store_t where
  "stale_store = \<lparr>entries = NULL, capacity = 0, cnt = 9\<rparr>"

definition stale_reg_entry :: owreg_entry_t where
  "stale_reg_entry = \<lparr>in_use = True, key = ''x'', val = ''y''\<rparr>"

theorem owreg_refines_map_witness:
  "\<exists>st1 st2 es2. owreg_store_init (Ref stale_store) (Ref [stale_reg_entry]) 1 = Some (Ref st1) \<and>
     reg_run st1 [RSet ''net.ip'' ''10'', RSet ''b'' ''1'', RGet ''net.ip'', RDel ''net.ip'', RHas ''net.ip''] =
       Some ([Status OWREG_OK, NoHandle, Value ''10'', Answer True, Answer False], st2) \<and>
     entries st2 = Ref es2 \<and> unat (cnt st2) = 0"
proof -
  let ?ops = "[RSet ''net.ip'' ''10'', RSet ''b'' ''1'', RGet ''net.ip'', RDel ''net.ip'', RHas ''net.ip'']"
  have v: "ow_key_valid (Ref ''net.ip'')" "ow_key_valid (Ref ''b'')" by code_simp+
  have "map_run 1 Map.empty ?ops =
     ([Status OWREG_OK, NoHandle, Value ''10'', Answer True, Answer False], Map.empty)"
    using v by (simp add: Let_def)
  moreover have "\<forall>x \<in> set ?ops. op_c_str x" by (simp add: c_str_def)
  moreover have "unat (1 :: u32) = 1" by simp
  ultimately show ?thesis
    using owreg_refines_map [of 1 "[stale_reg_entry]" ?ops stale_store]
    by (simp del: reg_run.simps map_run.simps) blast
qed

text \<open>\<open>owreg_enum_keys\<close> counts the keys with the given prefix (all keys when the prefix is
  NULL), and stores into the caller's array the names after the first \<open>start\<close> of them, in
  table order, up to \<open>max_names\<close>; the rest of the array is unchanged.\<close>

theorem owreg_enum_keys_exact:
  assumes "reg_ok n st es" and "case prefix of NULL \<Rightarrow> True | Ref q \<Rightarrow> c_str q"
    and "unat max_names \<le> length ns"
    and "chosen = take (unat max_names) (drop (unat start) (matching prefix (take n es)))"
  shows "owreg_enum_keys (Ref st) prefix start (Ref ns) max_names =
     Some (of_nat (length (matching prefix (take n es))), Ref (chosen @ drop (length chosen) ns))"
  using enum_loop_ok [of es "capacity st" prefix "Ref ns" ns max_names 0 0 0 _ chosen start] assms
  by (auto simp: owreg_enum_keys_def reg_ok_def)

definition demo_store :: owreg_store_t where
  "demo_store = \<lparr>entries = Ref [\<lparr>in_use = True, key = ''a.x'', val = []\<rparr>, \<lparr>in_use = True, key = ''b'', val = []\<rparr>,
     \<lparr>in_use = True, key = ''a.y'', val = []\<rparr>], capacity = 3, cnt = 3\<rparr>"

theorem owreg_enum_keys_exact_witness:
  "owreg_enum_keys (Ref demo_store) (Ref ''a.'') 1 (Ref [[], []]) 2 = Some (2, Ref [''a.y'', []])"
proof -
  let ?es = "[\<lparr>in_use = True, key = ''a.x'', val = []\<rparr>, \<lparr>in_use = True, key = ''b'', val = []\<rparr>,
     \<lparr>in_use = True, key = ''a.y'', val = []\<rparr>] :: owreg_entry_t list"
  have "entries_ok ?es 3"
    by (simp add: entries_ok_def entry_ok_def c_str_def numeral_3_eq_3 All_less_Suc)
  then have "reg_ok 3 demo_store ?es" by (simp add: reg_ok_def demo_store_def)
  moreover have "matching (Ref ''a.'') (take 3 ?es) = [''a.x'', ''a.y'']"
    by (simp add: matching_def prefix_match_def)
  ultimately show ?thesis
    using owreg_enum_keys_exact [of 3 demo_store ?es "Ref ''a.''" 2 "[[], []]" "[''a.y'']" 1]
    by (simp add: c_str_def)
qed

text \<open>Deleting a key does not invalidate its open handles. In a store of one entry, a
  writable handle opened on key \<open>a\<close> writes to key \<open>b\<close> after \<open>a\<close> is deleted and \<open>b\<close>
  takes its slot.\<close>

theorem owreg_stale_handle_writes:
  "\<exists>st0 h st1 st2 h2 st3 st4 h3 st5.
     owreg_store_init (Ref stale_store) (Ref [stale_reg_entry]) 1 = Some (Ref st0) \<and>
     owreg_open (Ref st0) (Ref ''a'') (OWREG_OPEN_WRITE OR OWREG_OPEN_CREATE) = Some (h, Ref st1) \<and>
     owreg_delete (Ref st1) (Ref ''a'') = Some (True, Ref st2) \<and>
     owreg_open (Ref st2) (Ref ''b'') OWREG_OPEN_CREATE = Some (h2, Ref st3) \<and>
     owreg_write st3 (Ref h) (Ref ''evil'') = Some (OWREG_OK, st4) \<and>
     owreg_open (Ref st4) (Ref ''b'') OWREG_OPEN_READ = Some (h3, Ref st5) \<and>
     owreg_read st5 (Ref h3) (Ref []) 128 = Some (4, Ref ''evil'')"
proof -
  have v: "ow_key_valid (Ref ''a'')" "ow_key_valid (Ref ''b'')" by code_simp+
  have i: "sint (- 1 :: i32) < 0" "\<not> sint (0 :: i32) < 0" by simp_all
  have neq: "ow_strcmp ''a'' ''a'' = 0" "ow_strcmp ''b'' ''b'' = 0" by simp_all
  show ?thesis
    by (simp add: owreg_store_init_def stale_store_def stale_reg_entry_def c_memcpy_def owreg_open_def
        owreg_find_index_def owreg_free_index_def c_find.simps idx32_def v i neq owreg_delete_def owreg_write_def
        owreg_handle_entry_def owreg_read_def entry_at_def)
qed

end
