(* ===== verification/Pfwall.thy ===== *)
theory Pfwall
  imports Prelude
begin

text \<open>
  The packet filter \<open>src/Drivers/pfwall/pfwall.c\<close>: an ordered table of at most 32 rules,
  scanned in order, the first match wins. The specification is a list of rules; adding appends,
  removing deletes the rule in place, filtering takes the first rule that covers the packet. The
  code's bit tests are shown to be the intended address and port tests.
\<close>

unbundle bit_operations_syntax

section \<open>Model\<close>

type_synonym pfw_status_t = u32

abbreviation PFW_OK :: pfw_status_t where "PFW_OK \<equiv> 0"
abbreviation PFW_ERR_PARAM :: pfw_status_t where "PFW_ERR_PARAM \<equiv> 1"
abbreviation PFW_ERR_NOT_READY :: pfw_status_t where "PFW_ERR_NOT_READY \<equiv> 2"
abbreviation PFW_ERR_NOT_FOUND :: pfw_status_t where "PFW_ERR_NOT_FOUND \<equiv> 4"

text \<open>The enumeration is kept as its integer, since the code checks its range.\<close>

type_synonym pfw_action_t = u32

abbreviation PFW_ACTION_DENY :: pfw_action_t where "PFW_ACTION_DENY \<equiv> 0"
abbreviation PFW_ACTION_ALLOW :: pfw_action_t where "PFW_ACTION_ALLOW \<equiv> 1"

record pfw_rule_t =
  rule_id :: u32
  action :: pfw_action_t
  proto :: u8
  direction :: u8
  enabled :: u8
  reserved :: u8
  src_ip :: u32
  src_mask :: u32
  dst_ip :: u32
  dst_mask :: u32
  src_port_min :: u16
  src_port_max :: u16
  dst_port_min :: u16
  dst_port_max :: u16
  packets :: u32

record pfw_packet_t =
  p_proto :: u8
  p_direction :: u8
  p_reserved :: u16
  p_src_ip :: u32
  p_dst_ip :: u32
  p_src_port :: u16
  p_dst_port :: u16

record pfw_table_t =
  initialized :: bool
  default_action :: pfw_action_t
  next_id :: u32
  rule_count :: u32
  rules :: "pfw_rule_t list"

definition zero_rule :: pfw_rule_t where
  "zero_rule = \<lparr>rule_id = 0, action = 0, proto = 0, direction = 0, enabled = 0, reserved = 0, src_ip = 0,
     src_mask = 0, dst_ip = 0, dst_mask = 0, src_port_min = 0, src_port_max = 0, dst_port_min = 0,
     dst_port_max = 0, packets = 0\<rparr>"

definition pfw_ip_match :: "u32 \<Rightarrow> u32 \<Rightarrow> u32 \<Rightarrow> bool" where
  "pfw_ip_match addr ip m = (if m = 0 then True else addr AND m = ip AND m)"

definition pfw_port_match :: "u16 \<Rightarrow> u16 \<Rightarrow> u16 \<Rightarrow> bool" where
  "pfw_port_match port lo hi =
     (if lo = 0 \<and> hi = 0 then True
      else let hi = (if hi = 0 then lo else hi) in port \<ge> lo \<and> port \<le> hi)"

definition pfw_rule_matches :: "pfw_rule_t \<Rightarrow> pfw_packet_t \<Rightarrow> bool" where
  "pfw_rule_matches r p =
     (if enabled r = 0 then False
      else if proto r \<noteq> 0 \<and> proto r \<noteq> p_proto p then False
      else if direction r \<noteq> 2 \<and> direction r \<noteq> p_direction p then False
      else if \<not> pfw_ip_match (p_src_ip p) (src_ip r) (src_mask r) then False
      else if \<not> pfw_ip_match (p_dst_ip p) (dst_ip r) (dst_mask r) then False
      else if \<not> pfw_port_match (p_src_port p) (src_port_min r) (src_port_max r) then False
      else if \<not> pfw_port_match (p_dst_port p) (dst_port_min r) (dst_port_max r) then False
      else True)"

definition pfw_action_valid :: "pfw_action_t \<Rightarrow> bool" where
  "pfw_action_valid a \<longleftrightarrow> a = PFW_ACTION_ALLOW \<or> a = PFW_ACTION_DENY"

definition pfw_proto_valid :: "u8 \<Rightarrow> bool" where
  "pfw_proto_valid p \<longleftrightarrow> p = 0 \<or> p = 1 \<or> p = 6 \<or> p = 17"

definition pfw_direction_valid :: "u8 \<Rightarrow> bool" where
  "pfw_direction_valid d \<longleftrightarrow> d = 0 \<or> d = 1 \<or> d = 2"

definition pfw_init :: "pfw_table_t ptr \<Rightarrow> pfw_action_t \<Rightarrow> pfw_status_t \<times> pfw_table_t ptr" where
  "pfw_init fw a =
     (case fw of NULL \<Rightarrow> (PFW_ERR_PARAM, fw)
      | Ref _ \<Rightarrow>
         if \<not> pfw_action_valid a then (PFW_ERR_PARAM, fw)
         else (PFW_OK, Ref \<lparr>initialized = True, default_action = a, next_id = 1, rule_count = 0,
                            rules = replicate 32 zero_rule\<rparr>))"

definition pfw_rule_init :: "pfw_rule_t ptr \<Rightarrow> pfw_action_t \<Rightarrow> pfw_status_t \<times> pfw_rule_t ptr" where
  "pfw_rule_init r a =
     (case r of NULL \<Rightarrow> (PFW_ERR_PARAM, r)
      | Ref _ \<Rightarrow>
         if \<not> pfw_action_valid a then (PFW_ERR_PARAM, r)
         else (PFW_OK, Ref (zero_rule\<lparr>action := a, proto := 0, direction := 2, enabled := 1\<rparr>)))"

definition pfw_add_rule :: "pfw_table_t ptr \<Rightarrow> pfw_rule_t ptr \<Rightarrow> (i32 \<times> pfw_table_t ptr) comp" where
  "pfw_add_rule fw rule =
     (case (fw, rule) of
        (Ref t, Ref r) \<Rightarrow>
          if \<not> initialized t then Some (-1, fw)
          else if \<not> pfw_action_valid (action r) \<or> \<not> pfw_proto_valid (proto r) \<or>
                  \<not> pfw_direction_valid (direction r) then Some (-1, fw)
          else if src_port_min r > src_port_max r \<and> src_port_max r \<noteq> 0 then Some (-1, fw)
          else if dst_port_min r > dst_port_max r \<and> dst_port_max r \<noteq> 0 then Some (-1, fw)
          else if rule_count t \<ge> 32 then Some (-1, fw)
          else let r' = r\<lparr>rule_id := next_id t, enabled := (if enabled r \<noteq> 0 then 1 else 0), packets := 0\<rparr> in
            do { rs \<leftarrow> c_wr (rules t) (unat (rule_count t)) r';
                 Some (rule_id r', Ref (t\<lparr>rules := rs, next_id := next_id t + 1, rule_count := rule_count t + 1\<rparr>)) }
      | _ \<Rightarrow> Some (-1, fw))"

text \<open>The compaction loop, from index \<open>j\<close> on.\<close>

function shift_loop :: "pfw_rule_t list \<Rightarrow> nat \<Rightarrow> nat \<Rightarrow> pfw_rule_t list comp" where
  "shift_loop rs j n =
     (if j < n then do { r \<leftarrow> c_rd rs j; rs' \<leftarrow> c_wr rs (j - 1) r; shift_loop rs' (Suc j) n } else Some rs)"
  by pat_completeness auto
termination by (relation "measure (\<lambda>(rs, j, n). n - j)") auto

declare shift_loop.simps [simp del]

definition pfw_remove_rule :: "pfw_table_t ptr \<Rightarrow> u32 \<Rightarrow> (pfw_status_t \<times> pfw_table_t ptr) comp" where
  "pfw_remove_rule fw k =
     (case fw of NULL \<Rightarrow> Some (PFW_ERR_PARAM, fw)
      | Ref t \<Rightarrow>
         if \<not> initialized t then Some (PFW_ERR_NOT_READY, fw)
         else do {
           r \<leftarrow> c_find (\<lambda>r. rule_id r = k) (rules t) (unat (rule_count t)) 0;
           case r of None \<Rightarrow> Some (PFW_ERR_NOT_FOUND, fw)
           | Some i \<Rightarrow>
              do { rs \<leftarrow> shift_loop (rules t) (i + 1) (unat (rule_count t));
                   let n = rule_count t - 1 in
                   do { rs' \<leftarrow> c_wr rs (unat n) zero_rule;
                        Some (PFW_OK, Ref (t\<lparr>rules := rs', rule_count := n\<rparr>)) } } })"

definition pfw_flush_rules :: "pfw_table_t ptr \<Rightarrow> pfw_status_t \<times> pfw_table_t ptr" where
  "pfw_flush_rules fw =
     (case fw of NULL \<Rightarrow> (PFW_ERR_PARAM, fw)
      | Ref t \<Rightarrow>
         if \<not> initialized t then (PFW_ERR_NOT_READY, fw)
         else (PFW_OK, Ref (t\<lparr>rules := replicate 32 zero_rule, rule_count := 0, next_id := 1\<rparr>)))"

definition pfw_filter_packet :: "pfw_table_t ptr \<Rightarrow> pfw_packet_t ptr \<Rightarrow> (pfw_action_t \<times> pfw_table_t ptr) comp" where
  "pfw_filter_packet fw pkt =
     (case (fw, pkt) of
        (Ref t, Ref p) \<Rightarrow>
          if \<not> initialized t then Some (PFW_ACTION_DENY, fw)
          else do {
            r \<leftarrow> c_find (\<lambda>r. pfw_rule_matches r p) (rules t) (unat (rule_count t)) 0;
            case r of None \<Rightarrow> Some (default_action t, fw)
            | Some i \<Rightarrow>
               do { x \<leftarrow> c_rd (rules t) i;
                    rs \<leftarrow> c_wr (rules t) i (x\<lparr>packets := packets x + 1\<rparr>);
                    Some (action x, Ref (t\<lparr>rules := rs\<rparr>)) } }
      | _ \<Rightarrow> Some (PFW_ACTION_DENY, fw))"

section \<open>The table as a list\<close>

definition fw_inv :: "pfw_table_t \<Rightarrow> bool" where
  "fw_inv t \<longleftrightarrow> initialized t \<and> length (rules t) = 32 \<and> unat (rule_count t) \<le> 32"

definition fw_list :: "pfw_table_t \<Rightarrow> pfw_rule_t list" where
  "fw_list t = take (unat (rule_count t)) (rules t)"

lemma fw_invD:
  assumes "fw_inv t"
  shows "initialized t" and "unat (rule_count t) \<le> length (rules t)" and "length (rules t) = 32"
    and "length (fw_list t) = unat (rule_count t)"
  using assms by (auto simp: fw_inv_def fw_list_def)

lemma shift_loop_eq:
  assumes "n \<le> length rs" and "0 < j" and "j \<le> n"
  shows "shift_loop rs j n = Some (take (j - 1) rs @ drop j (take n rs) @ drop (n - 1) rs)"
  using assms
proof (induction rs j n rule: shift_loop.induct)
  case (1 rs j n)
  show ?case
  proof (cases "j < n")
    case False
    then show ?thesis using "1.prems" by (subst shift_loop.simps) simp
  next
    case True
    let ?rs = "rs[j - 1 := rs ! j]"
    have rd: "c_rd rs j = Some (rs ! j)" and wr: "c_wr rs (j - 1) (rs ! j) = Some ?rs"
      using True "1.prems"(1) by simp_all
    have IH: "shift_loop ?rs (Suc j) n = Some (take j ?rs @ drop (Suc j) (take n ?rs) @ drop (n - 1) ?rs)"
      using "1.IH" [OF True rd wr] "1.prems"(1) True by simp
    obtain m where m: "j = Suc m" using "1.prems"(2) by (cases j) auto
    have "take j ?rs = take (j - 1) rs @ [rs ! j]"
      using True "1.prems"(1) by (simp add: m take_Suc_conv_app_nth)
    moreover have "drop (Suc j) (take n ?rs) = drop (Suc j) (take n rs)" "drop (n - 1) ?rs = drop (n - 1) rs"
      using True by (simp_all add: m take_update_swap)
    moreover have "drop j (take n rs) = rs ! j # drop (Suc j) (take n rs)"
      using True "1.prems"(1) by (simp add: Cons_nth_drop_Suc [symmetric])
    ultimately show ?thesis using IH rd wr True by (subst shift_loop.simps) simp
  qed
qed

section \<open>The specification\<close>

datatype fw_op = FAdd pfw_rule_t | FRemove u32 | FFlush | FFilter pfw_packet_t

datatype fw_res = Added i32 | Removed pfw_status_t | Flushed pfw_status_t | Verdict pfw_action_t

fun fw_step :: "pfw_table_t ptr \<Rightarrow> fw_op \<Rightarrow> (fw_res \<times> pfw_table_t ptr) comp" where
  "fw_step fw (FAdd r) = do { (x, fw) \<leftarrow> pfw_add_rule fw (Ref r); Some (Added x, fw) }"
| "fw_step fw (FRemove k) = do { (x, fw) \<leftarrow> pfw_remove_rule fw k; Some (Removed x, fw) }"
| "fw_step fw FFlush = (let (x, fw) = pfw_flush_rules fw in Some (Flushed x, fw))"
| "fw_step fw (FFilter p) = do { (x, fw) \<leftarrow> pfw_filter_packet fw (Ref p); Some (Verdict x, fw) }"

fun fw_run :: "pfw_table_t ptr \<Rightarrow> fw_op list \<Rightarrow> (fw_res list \<times> pfw_table_t ptr) comp" where
  "fw_run fw [] = Some ([], fw)"
| "fw_run fw (x # xs) = do { (r, fw) \<leftarrow> fw_step fw x; (rs, fw) \<leftarrow> fw_run fw xs; Some (r # rs, fw) }"

text \<open>When does a rule cover a packet, said without bit tricks.\<close>

definition same_net :: "u32 \<Rightarrow> u32 \<Rightarrow> u32 \<Rightarrow> bool" where
  "same_net m a b \<longleftrightarrow> (\<forall>i < 32. bit m i \<longrightarrow> (bit a i \<longleftrightarrow> bit b i))"

definition port_in :: "u16 \<Rightarrow> u16 \<Rightarrow> u16 \<Rightarrow> bool" where
  "port_in port lo hi \<longleftrightarrow> (lo = 0 \<and> hi = 0) \<or> (hi = 0 \<and> port = lo) \<or> (hi \<noteq> 0 \<and> port \<in> {lo..hi})"

definition covers :: "pfw_rule_t \<Rightarrow> pfw_packet_t \<Rightarrow> bool" where
  "covers r p \<longleftrightarrow> enabled r \<noteq> 0 \<and> (proto r = 0 \<or> proto r = p_proto p) \<and>
     (direction r = 2 \<or> direction r = p_direction p) \<and>
     same_net (src_mask r) (p_src_ip p) (src_ip r) \<and> same_net (dst_mask r) (p_dst_ip p) (dst_ip r) \<and>
     port_in (p_src_port p) (src_port_min r) (src_port_max r) \<and>
     port_in (p_dst_port p) (dst_port_min r) (dst_port_max r)"

definition rule_acceptable :: "pfw_rule_t \<Rightarrow> bool" where
  "rule_acceptable r \<longleftrightarrow> action r \<in> {0, 1} \<and> proto r \<in> {0, 1, 6, 17} \<and> direction r \<in> {0, 1, 2} \<and>
     (src_port_max r = 0 \<or> src_port_min r \<le> src_port_max r) \<and>
     (dst_port_max r = 0 \<or> dst_port_min r \<le> dst_port_max r)"

type_synonym fw_spec = "pfw_action_t \<times> u32 \<times> pfw_rule_t list"

fun spec_step :: "fw_spec \<Rightarrow> fw_op \<Rightarrow> fw_res \<times> fw_spec" where
  "spec_step (d, k, L) (FAdd r) =
     (if rule_acceptable r \<and> length L < 32
      then (Added k, (d, k + 1, L @ [r\<lparr>rule_id := k, enabled := (if enabled r \<noteq> 0 then 1 else 0), packets := 0\<rparr>]))
      else (Added (-1), (d, k, L)))"
| "spec_step (d, k, L) (FRemove i) =
     (case first_index (\<lambda>r. rule_id r = i) L of
        None \<Rightarrow> (Removed PFW_ERR_NOT_FOUND, (d, k, L))
      | Some j \<Rightarrow> (Removed PFW_OK, (d, k, take j L @ drop (Suc j) L)))"
| "spec_step (d, k, L) FFlush = (Flushed PFW_OK, (d, 1, []))"
| "spec_step (d, k, L) (FFilter p) =
     (case first_index (\<lambda>r. covers r p) L of
        None \<Rightarrow> (Verdict d, (d, k, L))
      | Some j \<Rightarrow> (Verdict (action (L ! j)), (d, k, L[j := (L ! j)\<lparr>packets := packets (L ! j) + 1\<rparr>])))"

fun fw_spec_run :: "fw_spec \<Rightarrow> fw_op list \<Rightarrow> fw_res list \<times> fw_spec" where
  "fw_spec_run S [] = ([], S)"
| "fw_spec_run S (x # xs) = (let (r, S1) = spec_step S x; (rs, S2) = fw_spec_run S1 xs in (r # rs, S2))"

definition fw_abs :: "pfw_table_t \<Rightarrow> fw_spec" where
  "fw_abs t = (default_action t, next_id t, fw_list t)"

section \<open>Refinement\<close>

lemma pfw_ip_match_net: "pfw_ip_match a ip m \<longleftrightarrow> same_net m a ip"
proof -
  have "a AND m = ip AND m \<longleftrightarrow> same_net m a ip"
  proof -
    have "bit (a AND m) i = bit (ip AND m) i \<longleftrightarrow> (bit m i \<longrightarrow> bit a i = bit ip i)" for i
      by (auto simp: bit_and_iff)
    then show ?thesis unfolding same_net_def bit_eq_iff [of "a AND m"] by simp
  qed
  then show ?thesis by (auto simp: pfw_ip_match_def same_net_def)
qed

lemma pfw_port_match_in: "pfw_port_match port lo hi \<longleftrightarrow> port_in port lo hi"
  by (auto simp: pfw_port_match_def port_in_def Let_def)

lemma pfw_rule_matches_covers: "pfw_rule_matches r p \<longleftrightarrow> covers r p"
  by (simp add: pfw_rule_matches_def covers_def pfw_ip_match_net pfw_port_match_in)

lemma if_chain:
  "(if A then x else if B then x else if C then x else if D then x else y) =
     (if (\<not> A \<and> \<not> B \<and> \<not> C) \<and> \<not> D then y else x)"
  by auto

lemma rule_acceptable_guards:
  "\<not> (\<not> pfw_action_valid (action r) \<or> \<not> pfw_proto_valid (proto r) \<or> \<not> pfw_direction_valid (direction r)) \<and>
   \<not> (src_port_min r > src_port_max r \<and> src_port_max r \<noteq> 0) \<and>
   \<not> (dst_port_min r > dst_port_max r \<and> dst_port_max r \<noteq> 0) \<longleftrightarrow> rule_acceptable r"
  unfolding rule_acceptable_def pfw_action_valid_def pfw_proto_valid_def pfw_direction_valid_def not_less [symmetric]
  by blast

lemma pfw_add_rule_eq:
  assumes "initialized t"
  shows "pfw_add_rule (Ref t) (Ref r) =
     (if rule_acceptable r \<and> \<not> rule_count t \<ge> 32 then
        let r' = r\<lparr>rule_id := next_id t, enabled := (if enabled r \<noteq> 0 then 1 else 0), packets := 0\<rparr> in
        do { rs \<leftarrow> c_wr (rules t) (unat (rule_count t)) r';
             Some (rule_id r', Ref (t\<lparr>rules := rs, next_id := next_id t + 1, rule_count := rule_count t + 1\<rparr>)) }
      else Some (-1, Ref t))"
  unfolding pfw_add_rule_def prod.case ptr.case if_chain rule_acceptable_guards using assms by simp

lemma fw_add_refines:
  assumes "fw_inv t"
  shows "\<exists>t'. fw_step (Ref t) (FAdd r) = Some (fst (spec_step (fw_abs t) (FAdd r)), Ref t') \<and> fw_inv t' \<and>
     fw_abs t' = snd (spec_step (fw_abs t) (FAdd r))"
proof (cases "rule_acceptable r \<and> length (fw_list t) < 32")
  case False
  then have "pfw_add_rule (Ref t) (Ref r) = Some (-1, Ref t)"
  proof -
    have "\<not> (rule_acceptable r \<and> \<not> rule_count t \<ge> 32)"
      using False fw_invD(4) [OF assms] by (auto simp: word_le_nat_alt)
    then show ?thesis unfolding pfw_add_rule_eq [OF fw_invD(1) [OF assms]] by (simp only: if_False)
  qed
  then show ?thesis using False assms by (auto simp: fw_abs_def)
next
  case True
  note inv = fw_invD [OF assms]
  have lt: "unat (rule_count t) < 32" using True inv(4) by simp
  let ?r = "r\<lparr>rule_id := next_id t, enabled := (if enabled r \<noteq> 0 then 1 else 0), packets := 0\<rparr>"
  let ?t = "t\<lparr>rules := (rules t)[unat (rule_count t) := ?r], next_id := next_id t + 1, rule_count := rule_count t + 1\<rparr>"
  have n1: "unat (rule_count t + 1) = Suc (unat (rule_count t))" using lt by (intro unat_add1) simp
  have "pfw_add_rule (Ref t) (Ref r) = Some (next_id t, Ref ?t)"
    unfolding pfw_add_rule_eq [OF inv(1)] using True inv(3) lt by (simp add: word_le_nat_alt Let_def)
  moreover have "fw_list ?t = fw_list t @ [?r]"
    using lt inv(3) by (simp add: fw_list_def n1 take_Suc_conv_app_nth)
  moreover have "fw_inv ?t" using assms lt n1 by (simp add: fw_inv_def)
  ultimately show ?thesis using True by (auto simp: fw_abs_def simp del: if_not_P)
qed

lemma fw_remove_refines:
  assumes "fw_inv t"
  shows "\<exists>t'. fw_step (Ref t) (FRemove k) = Some (fst (spec_step (fw_abs t) (FRemove k)), Ref t') \<and> fw_inv t' \<and>
     fw_abs t' = snd (spec_step (fw_abs t) (FRemove k))"
proof -
  note inv = fw_invD [OF assms]
  let ?n = "unat (rule_count t)"
  have find: "c_find (\<lambda>r. rule_id r = k) (rules t) ?n 0 = Some (first_index (\<lambda>r. rule_id r = k) (fw_list t))"
    using inv(2) by (simp add: c_find_eq fw_list_def)
  show ?thesis
  proof (cases "first_index (\<lambda>r. rule_id r = k) (fw_list t)")
    case None
    then have "pfw_remove_rule (Ref t) k = Some (PFW_ERR_NOT_FOUND, Ref t)"
      using find inv(1) by (simp add: pfw_remove_rule_def)
    then show ?thesis using None assms by (auto simp: fw_abs_def)
  next
    case (Some i)
    have i: "i < ?n" using first_index_SomeD(1) [OF Some] inv(4) by simp
    let ?rs = "take i (rules t) @ drop (Suc i) (take ?n (rules t)) @ drop (?n - 1) (rules t)"
    have shift: "shift_loop (rules t) (i + 1) ?n = Some ?rs"
      using shift_loop_eq [OF inv(2), of "i + 1"] i by simp
    have nz: "rule_count t \<noteq> 0" using i by auto
    have n1: "unat (rule_count t - 1) = ?n - 1" using nz by (rule unat_minus1)
    have len: "length ?rs = 32" using i inv(2,3) by simp
    let ?t = "t\<lparr>rules := ?rs[?n - 1 := zero_rule], rule_count := rule_count t - 1\<rparr>"
    have "c_wr ?rs (?n - 1) zero_rule = Some (?rs[?n - 1 := zero_rule])" using len inv(2,3) i by (intro c_wr_in) simp
    then have run: "pfw_remove_rule (Ref t) k = Some (PFW_OK, Ref ?t)"
      using find Some inv(1) shift by (simp add: pfw_remove_rule_def Let_def n1)
    have "fw_list ?t = take (?n - 1) ?rs" by (simp add: fw_list_def n1)
    also have "\<dots> = take (?n - 1) ((take i (fw_list t) @ drop (Suc i) (fw_list t)) @ drop (?n - 1) (rules t))"
      using i by (simp add: fw_list_def)
    also have "\<dots> = take i (fw_list t) @ drop (Suc i) (fw_list t)"
    proof -
      have "length (take i (fw_list t) @ drop (Suc i) (fw_list t)) = ?n - 1" using i inv(4) by simp
      moreover have "length xs = n \<Longrightarrow> take n (xs @ ys) = xs" for n and xs ys :: "pfw_rule_t list" by simp
      ultimately show ?thesis by blast
    qed
    finally have "fw_list ?t = take i (fw_list t) @ drop (Suc i) (fw_list t)" .
    moreover have "fw_inv ?t" using assms len n1 by (simp add: fw_inv_def le_diff_conv)
    ultimately show ?thesis using run Some by (auto simp: fw_abs_def)
  qed
qed

lemma fw_filter_refines:
  assumes "fw_inv t"
  shows "\<exists>t'. fw_step (Ref t) (FFilter p) = Some (fst (spec_step (fw_abs t) (FFilter p)), Ref t') \<and> fw_inv t' \<and>
     fw_abs t' = snd (spec_step (fw_abs t) (FFilter p))"
proof -
  note inv = fw_invD [OF assms]
  let ?n = "unat (rule_count t)"
  have find: "c_find (\<lambda>r. pfw_rule_matches r p) (rules t) ?n 0 = Some (first_index (\<lambda>r. covers r p) (fw_list t))"
    using inv(2) by (simp add: c_find_eq fw_list_def pfw_rule_matches_covers)
  show ?thesis
  proof (cases "first_index (\<lambda>r. covers r p) (fw_list t)")
    case None
    then have "pfw_filter_packet (Ref t) (Ref p) = Some (default_action t, Ref t)"
      using find inv(1) by (simp add: pfw_filter_packet_def)
    then show ?thesis using None assms by (auto simp: fw_abs_def)
  next
    case (Some i)
    have i: "i < ?n" "i < length (rules t)" using first_index_SomeD(1) [OF Some] inv(2,4) by simp_all
    have nth: "fw_list t ! i = rules t ! i" using i by (simp add: fw_list_def)
    let ?x = "(rules t ! i)\<lparr>packets := packets (rules t ! i) + 1\<rparr>"
    have run: "pfw_filter_packet (Ref t) (Ref p) = Some (action (rules t ! i), Ref (t\<lparr>rules := (rules t)[i := ?x]\<rparr>))"
      using find Some inv(1) i by (simp add: pfw_filter_packet_def)
    have "fw_list (t\<lparr>rules := (rules t)[i := ?x]\<rparr>) = (fw_list t)[i := ?x]"
      by (simp add: fw_list_def take_update_swap)
    moreover have "fw_inv (t\<lparr>rules := (rules t)[i := ?x]\<rparr>)" using assms by (simp add: fw_inv_def)
    ultimately show ?thesis using run Some nth by (auto simp: fw_abs_def)
  qed
qed

lemma fw_flush_refines:
  assumes "fw_inv t"
  shows "\<exists>t'. fw_step (Ref t) FFlush = Some (fst (spec_step (fw_abs t) FFlush), Ref t') \<and> fw_inv t' \<and>
     fw_abs t' = snd (spec_step (fw_abs t) FFlush)"
  using assms by (auto simp: pfw_flush_rules_def fw_inv_def fw_abs_def fw_list_def)

lemma fw_step_refines:
  assumes "fw_inv t"
  shows "\<exists>t'. fw_step (Ref t) x = Some (fst (spec_step (fw_abs t) x), Ref t') \<and> fw_inv t' \<and>
     fw_abs t' = snd (spec_step (fw_abs t) x)"
  using fw_add_refines [OF assms] fw_remove_refines [OF assms] fw_filter_refines [OF assms] fw_flush_refines [OF assms]
  by (cases x) blast+

lemma fw_run_refines:
  assumes "fw_inv t"
  shows "\<exists>t'. fw_run (Ref t) ops = Some (fst (fw_spec_run (fw_abs t) ops), Ref t') \<and> fw_inv t' \<and>
     fw_abs t' = snd (fw_spec_run (fw_abs t) ops)"
  using assms
proof (induction ops arbitrary: t)
  case Nil
  then show ?case by simp
next
  case (Cons x ops)
  from fw_step_refines [OF Cons.prems, of x] obtain t1 where
    t1: "fw_step (Ref t) x = Some (fst (spec_step (fw_abs t) x), Ref t1)" "fw_inv t1"
      "fw_abs t1 = snd (spec_step (fw_abs t) x)" by blast
  from Cons.IH [OF t1(2)] show ?case
    by (auto simp: t1(1) t1(3) [symmetric] Let_def case_prod_unfold simp del: fw_step.simps)
qed

section \<open>Properties\<close>

text \<open>C27: a filter from \<open>pfw_init\<close> with a valid default action answers every sequence of
  rule additions, removals, flushes and packets as an ordered list of at most 32 rules does, with
  no access out of range: the verdict on a packet is the action of the first rule that covers it
  and the default action when none does; invalid rules and a full table are refused; a removal
  keeps the order of the other rules.\<close>

theorem pfw_refines_first_match:
  assumes "a = PFW_ACTION_ALLOW \<or> a = PFW_ACTION_DENY"
  shows "\<exists>t t'. pfw_init (Ref t0) a = (PFW_OK, Ref t) \<and>
     fw_run (Ref t) ops = Some (fst (fw_spec_run (a, 1, []) ops), Ref t') \<and>
     fw_abs t' = snd (fw_spec_run (a, 1, []) ops)"
proof -
  let ?t = "\<lparr>initialized = True, default_action = a, next_id = 1, rule_count = 0, rules = replicate 32 zero_rule\<rparr>"
  have "pfw_init (Ref t0) a = (PFW_OK, Ref ?t)" using assms by (simp add: pfw_init_def pfw_action_valid_def)
  moreover have "fw_inv ?t" "fw_abs ?t = (a, 1, [])" by (simp_all add: fw_inv_def fw_abs_def fw_list_def)
  ultimately show ?thesis using fw_run_refines [of ?t ops] by auto
qed

definition web_rule :: pfw_rule_t where
  "web_rule = zero_rule\<lparr>action := 1, proto := 6, direction := 2, enabled := 1, dst_port_min := 80\<rparr>"

definition web_packet :: pfw_packet_t where
  "web_packet = \<lparr>p_proto = 6, p_direction = 0, p_reserved = 0, p_src_ip = 5, p_dst_ip = 9, p_src_port = 4000, p_dst_port = 80\<rparr>"

theorem pfw_refines_first_match_witness:
  "\<exists>t t'. pfw_init (Ref \<lparr>initialized = False, default_action = 3, next_id = 0, rule_count = 7, rules = []\<rparr>)
       PFW_ACTION_DENY = (PFW_OK, Ref t) \<and>
     fw_run (Ref t) [FFilter web_packet, FAdd web_rule, FFilter web_packet, FRemove 1, FFilter web_packet] =
       Some ([Verdict PFW_ACTION_DENY, Added 1, Verdict PFW_ACTION_ALLOW, Removed PFW_OK, Verdict PFW_ACTION_DENY], Ref t')"
proof -
  let ?ops = "[FFilter web_packet, FAdd web_rule, FFilter web_packet, FRemove 1, FFilter web_packet]"
  have "fst (fw_spec_run (PFW_ACTION_DENY, 1, []) ?ops) =
      [Verdict PFW_ACTION_DENY, Added 1, Verdict PFW_ACTION_ALLOW, Removed PFW_OK, Verdict PFW_ACTION_DENY]"
    by (simp add: Let_def rule_acceptable_def covers_def same_net_def port_in_def web_rule_def web_packet_def zero_rule_def)
  then show ?thesis
    using pfw_refines_first_match [of PFW_ACTION_DENY
        "\<lparr>initialized = False, default_action = 3, next_id = 0, rule_count = 7, rules = []\<rparr>" ?ops]
    by (simp del: fw_run.simps fw_spec_run.simps) blast
qed

end
