(* ===== verification/Inet.thy ===== *)
theory Inet
  imports C_Loops
begin

text \<open>
  What the transport cores share: byte order, header fields in a byte buffer, and the Internet
  checksum over a pseudo-header and a segment. The code has a copy of these functions in
  \<open>src/Drivers/udpcore/udpcore.c\<close> and in \<open>src/Drivers/tcpcore/tcpcore.c\<close>; they differ in
  the protocol number only. The main result is that a segment whose checksum field was filled
  with the computed checksum passes the check of the receiver.
\<close>

unbundle bit_operations_syntax

section \<open>Byte order\<close>

definition ow_bswap16 :: "u16 \<Rightarrow> u16" where
  "ow_bswap16 v = push_bit 8 v OR drop_bit 8 v"

definition ow_bswap32 :: "u32 \<Rightarrow> u32" where
  "ow_bswap32 v = push_bit 24 (v AND 0xFF) OR push_bit 8 (v AND 0xFF00) OR
     drop_bit 8 (v AND 0xFF0000) OR drop_bit 24 (v AND 0xFF000000)"

text \<open>Fields of a packed header in memory; the machine is little-endian.\<close>

definition st16 :: "u8 list \<Rightarrow> nat \<Rightarrow> u16 \<Rightarrow> u8 list comp" where
  "st16 buf off v = do { b \<leftarrow> c_wr buf off (ucast v); c_wr b (off + 1) (ucast (drop_bit 8 v)) }"

definition ld16 :: "u8 list \<Rightarrow> nat \<Rightarrow> u16 comp" where
  "ld16 buf off = do { a \<leftarrow> c_rd buf off; b \<leftarrow> c_rd buf (off + 1); Some (ucast a OR push_bit 8 (ucast b)) }"

definition st32 :: "u8 list \<Rightarrow> nat \<Rightarrow> u32 \<Rightarrow> u8 list comp" where
  "st32 buf off v =
     do { b0 \<leftarrow> c_wr buf off (ucast v);
          b1 \<leftarrow> c_wr b0 (off + 1) (ucast (drop_bit 8 v));
          b2 \<leftarrow> c_wr b1 (off + 2) (ucast (drop_bit 16 v));
          c_wr b2 (off + 3) (ucast (drop_bit 24 v)) }"

definition ld32 :: "u8 list \<Rightarrow> nat \<Rightarrow> u32 comp" where
  "ld32 buf off =
     do { a \<leftarrow> c_rd buf off; b \<leftarrow> c_rd buf (off + 1); c \<leftarrow> c_rd buf (off + 2); d \<leftarrow> c_rd buf (off + 3);
          Some (ucast a OR push_bit 8 (ucast b) OR push_bit 16 (ucast c) OR push_bit 24 (ucast d)) }"

text \<open>The bytes of a number in network order.\<close>

definition be16 :: "u16 \<Rightarrow> u8 list" where
  "be16 v = [ucast (drop_bit 8 v), ucast v]"

definition be32 :: "u32 \<Rightarrow> u8 list" where
  "be32 v = [ucast (drop_bit 24 v), ucast (drop_bit 16 v), ucast (drop_bit 8 v), ucast v]"

lemma length_be [simp]: "length (be16 v) = 2" "length (be32 w) = 4"
  by (simp_all add: be16_def be32_def)

lemma bswap16_bytes:
  "(ucast (ow_bswap16 v) :: u8) = ucast (drop_bit 8 v)"
  "(ucast (drop_bit 8 (ow_bswap16 v)) :: u8) = ucast v"
  by (rule bit_word_eqI, auto simp: ow_bswap16_def bit_simps)+

lemma bswap32_bytes:
  "(ucast (ow_bswap32 v) :: u8) = ucast (drop_bit 24 v)"
  "(ucast (drop_bit 8 (ow_bswap32 v)) :: u8) = ucast (drop_bit 16 v)"
  "(ucast (drop_bit 16 (ow_bswap32 v)) :: u8) = ucast (drop_bit 8 v)"
  "(ucast (drop_bit 24 (ow_bswap32 v)) :: u8) = ucast v"
proof -
  have m: "(0xFF :: u32) = mask 8" "(0xFF00 :: u32) = push_bit 8 (mask 8)"
    "(0xFF0000 :: u32) = push_bit 16 (mask 8)" "(0xFF000000 :: u32) = push_bit 24 (mask 8)"
    by (simp_all add: mask_eq_exp_minus_1)
  show "(ucast (ow_bswap32 v) :: u8) = ucast (drop_bit 24 v)"
    "(ucast (drop_bit 8 (ow_bswap32 v)) :: u8) = ucast (drop_bit 16 v)"
    "(ucast (drop_bit 16 (ow_bswap32 v)) :: u8) = ucast (drop_bit 8 v)"
    "(ucast (drop_bit 24 (ow_bswap32 v)) :: u8) = ucast v"
    unfolding ow_bswap32_def m by (rule bit_word_eqI, auto simp: bit_simps)+
qed

text \<open>Storing a byte-swapped field writes its bytes in network order.\<close>

abbreviation put :: "u8 list \<Rightarrow> nat \<Rightarrow> u8 list \<Rightarrow> u8 list" where
  "put \<equiv> patch"

lemma upd2: "length p = off \<Longrightarrow> (p @ a # b # rest)[off := x, Suc off := y] = p @ x # y # rest"
  by (auto simp: list_update_append)

lemma upd4:
  "length p = off \<Longrightarrow> (p @ a # b # c # d # rest)[off := w, off + 1 := x, off + 2 := y, off + 3 := z] =
     p @ w # x # y # z # rest"
  by (auto simp: list_update_append numeral_2_eq_2 numeral_3_eq_3)

lemma st16_bswap:
  assumes "off + 2 \<le> length buf"
  shows "st16 buf off (ow_bswap16 v) = Some (put buf off (be16 v))"
proof -
  have "Suc (Suc 0) \<le> length (drop off buf)" using assms by simp
  then obtain a b rest where buf: "drop off buf = a # b # rest"
    unfolding Suc_le_length_iff by blast
  then have split: "buf = take off buf @ a # b # rest" by (metis append_take_drop_id)
  have len: "length (take off buf) = off" using assms by simp
  have "drop (off + 2) buf = drop 2 (drop off buf)" by (simp add: add.commute)
  then have "put buf off (be16 v) = take off buf @ be16 v @ rest"
    unfolding buf by (simp add: patch_def)
  moreover have "buf[off := x, Suc off := y] = take off buf @ x # y # rest" for x y
    using upd2 [OF len] split by metis
  ultimately show ?thesis
    using assms by (simp add: st16_def bswap16_bytes be16_def)
qed

lemma st32_bswap:
  assumes "off + 4 \<le> length buf"
  shows "st32 buf off (ow_bswap32 v) = Some (put buf off (be32 v))"
proof -
  have "Suc (Suc (Suc (Suc 0))) \<le> length (drop off buf)" using assms by simp
  then obtain a b c d rest where buf: "drop off buf = a # b # c # d # rest"
    unfolding Suc_le_length_iff by blast
  then have split: "buf = take off buf @ a # b # c # d # rest" by (metis append_take_drop_id)
  have len: "length (take off buf) = off" using assms by simp
  have "drop (off + 4) buf = drop 4 (drop off buf)" by (simp add: add.commute)
  then have "put buf off (be32 v) = take off buf @ be32 v @ rest"
    unfolding buf by (simp add: patch_def)
  moreover have "buf[off := w, off + 1 := x, off + 2 := y, off + 3 := z] = take off buf @ w # x # y # z # rest"
    for w x y z using upd4 [OF len] split by metis
  ultimately show ?thesis
    using assms by (simp add: st32_def bswap32_bytes be32_def)
qed

lemma bswap16_id: "ow_bswap16 (ow_bswap16 v) = v"
  by (rule bit_word_eqI) (auto simp: ow_bswap16_def bit_simps)

lemma ld16_be:
  assumes "off + 2 \<le> length buf" and "take 2 (drop off buf) = be16 v"
  shows "ld16 buf off = Some (ow_bswap16 v)"
proof -
  have "take 2 (drop off buf) ! 0 = be16 v ! 0" "take 2 (drop off buf) ! 1 = be16 v ! 1" using assms(2) by simp_all
  then have "buf ! off = ucast (drop_bit 8 v)" "buf ! (off + 1) = ucast v"
    using assms(1) by (simp_all add: be16_def)
  moreover have "ucast (ucast (drop_bit 8 v) :: u8) OR push_bit 8 (ucast (ucast v :: u8)) = ow_bswap16 v"
    by (rule bit_word_eqI) (auto simp: ow_bswap16_def bit_simps dest: bit_imp_le_length)
  ultimately show ?thesis using assms(1) by (simp add: ld16_def)
qed

lemma ow_bswap32_bits:
  "bit (ow_bswap32 v) n \<longleftrightarrow>
     (if n < 8 then bit v (n + 24) else if n < 16 then bit v (n + 8)
      else if n < 24 then bit v (n - 8) else n < 32 \<and> bit v (n - 24))"
proof -
  have m: "(0xFF :: u32) = mask 8" "(0xFF00 :: u32) = push_bit 8 (mask 8)"
    "(0xFF0000 :: u32) = push_bit 16 (mask 8)" "(0xFF000000 :: u32) = push_bit 24 (mask 8)"
    by (simp_all add: mask_eq_exp_minus_1)
  show ?thesis unfolding ow_bswap32_def m by (auto simp: bit_simps add.commute)
qed

lemma bswap32_id: "ow_bswap32 (ow_bswap32 v) = v"
  by (rule bit_word_eqI) (auto simp: ow_bswap32_bits)

lemma ld32_be:
  assumes "off + 4 \<le> length buf" and "take 4 (drop off buf) = be32 v"
  shows "ld32 buf off = Some (ow_bswap32 v)"
proof -
  have "take 4 (drop off buf) ! i = be32 v ! i" for i using assms(2) by simp
  from this [of 0] this [of 1] this [of 2] this [of 3]
  have b: "buf ! off = ucast (drop_bit 24 v)" "buf ! (off + 1) = ucast (drop_bit 16 v)"
    "buf ! (off + 2) = ucast (drop_bit 8 v)" "buf ! (off + 3) = ucast v"
    using assms(1) by (simp_all add: be32_def)
  moreover have "ucast (ucast (drop_bit 24 v) :: u8) OR push_bit 8 (ucast (ucast (drop_bit 16 v) :: u8)) OR
      push_bit 16 (ucast (ucast (drop_bit 8 v) :: u8)) OR push_bit 24 (ucast (ucast v :: u8)) = ow_bswap32 v"
    by (rule bit_word_eqI) (auto simp: ow_bswap32_bits bit_simps add.commute)
  ultimately show ?thesis using assms(1) by (simp add: ld32_def)
qed

section \<open>The checksum\<close>

definition be_pair :: "u8 \<Rightarrow> u8 \<Rightarrow> u32" where
  "be_pair a b = push_bit 8 (ucast a) OR ucast b"

text \<open>The bytes of a stored address, in memory order.\<close>

definition sum_addr :: "u32 \<Rightarrow> u32 \<Rightarrow> u32" where
  "sum_addr s addr =
     (let s1 = s + be_pair (ucast addr) (ucast (drop_bit 8 addr))
      in s1 + be_pair (ucast (drop_bit 16 addr)) (ucast (drop_bit 24 addr)))"

function sum_loop :: "u8 list \<Rightarrow> nat \<Rightarrow> nat \<Rightarrow> u32 \<Rightarrow> u32 comp" where
  "sum_loop seg len i s =
     (if i + 1 < len then
        do { a \<leftarrow> c_rd seg i; b \<leftarrow> c_rd seg (i + 1); sum_loop seg len (i + 2) (s + be_pair a b) }
      else if i < len then do { a \<leftarrow> c_rd seg i; Some (s + be_pair a 0) }
      else Some s)"
  by pat_completeness auto
termination by (relation "measure (\<lambda>(seg, len, i, s). len - i)") auto

declare sum_loop.simps [simp del]

lemma unat_low16: "unat (s AND 0xFFFF :: u32) = unat s mod 65536"
proof -
  have "(0xFFFF :: u32) = mask 16" by (simp add: mask_eq_exp_minus_1)
  then have "s AND 0xFFFF = take_bit 16 s" by (simp only: take_bit_eq_mask)
  then show ?thesis by (simp add: take_bit_eq_mod unat_mod)
qed

lemma unat_high16: "unat (drop_bit 16 s :: u32) = unat s div 65536"
  by (simp add: drop_bit_eq_div unat_div)

lemma unat_fold_step:
  "unat ((s AND 0xFFFF) + drop_bit 16 s :: u32) = unat s mod 65536 + unat s div 65536"
proof -
  have "unat s div 65536 < 65536" using unsigned_less [of s, where ?'a = nat] by simp
  moreover have "unat s mod 65536 < 65536" by simp
  ultimately have "unat s mod 65536 + unat s div 65536 < 65536 + 65536" by (rule add_less_mono [rotated])
  then have "unat s mod 65536 + unat s div 65536 < 2 ^ 32" by simp
  then show ?thesis by (simp add: unat_word_ariths unat_low16 unat_high16)
qed

lemma fold_decreases: "(65536 :: nat) \<le> s \<Longrightarrow> s mod 65536 + s div 65536 < s"
proof -
  assume "65536 \<le> s"
  then have "0 < s div 65536" by (simp add: div_greater_zero_iff)
  moreover have "s = 65536 * (s div 65536) + s mod 65536" by simp
  ultimately show ?thesis by linarith
qed

lemma high_nonzero: "drop_bit 16 (s :: u32) \<noteq> 0 \<longleftrightarrow> 65536 \<le> unat s"
proof -
  have "drop_bit 16 s \<noteq> 0 \<longleftrightarrow> unat (drop_bit 16 s) \<noteq> 0" by (simp add: unat_eq_0)
  then show ?thesis by (simp add: unat_high16 div_eq_0_iff not_less)
qed

function fold_loop :: "u32 \<Rightarrow> u32" where
  "fold_loop s = (if drop_bit 16 s \<noteq> 0 then fold_loop ((s AND 0xFFFF) + drop_bit 16 s) else s)"
  by pat_completeness auto
termination
  by (relation "measure unat") (auto simp: unat_fold_step high_nonzero fold_decreases)

declare fold_loop.simps [simp del]

definition inet_checksum :: "u32 \<Rightarrow> u32 \<Rightarrow> u32 \<Rightarrow> u8 list \<Rightarrow> u32 \<Rightarrow> u16 comp" where
  "inet_checksum proto src dst seg len =
     do { s \<leftarrow> sum_loop seg (unat len) 0 (sum_addr (sum_addr 0 src) dst + proto + len);
          Some (ucast (NOT (fold_loop s))) }"

section \<open>What the checksum computes\<close>

lemma fold_loop_props:
  "unat (fold_loop s) < 65536 \<and> unat (fold_loop s) mod 65535 = unat s mod 65535 \<and> (fold_loop s = 0 \<longleftrightarrow> s = 0)"
proof (induction s rule: fold_loop.induct)
  case (1 s)
  show ?case
  proof (cases "drop_bit 16 s = 0")
    case True
    then have "\<not> 65536 \<le> unat s" using high_nonzero [of s] by blast
    then show ?thesis using True by (subst (1 2 3) fold_loop.simps) simp
  next
    case False
    let ?t = "(s AND 0xFFFF) + drop_bit 16 s"
    have t: "unat ?t = unat s mod 65536 + unat s div 65536" by (rule unat_fold_step)
    have s: "unat s = 65536 * (unat s div 65536) + unat s mod 65536" by simp
    have "unat s = (unat s mod 65536 + unat s div 65536) + 65535 * (unat s div 65536)" by (subst s) simp
    then have "unat s mod 65535 = unat ?t mod 65535" unfolding t by (metis mod_mult_self2)
    moreover have "?t = 0 \<longleftrightarrow> s = 0"
    proof -
      have "?t = 0 \<longleftrightarrow> unat ?t = 0" by (simp only: unat_eq_0)
      also have "\<dots> \<longleftrightarrow> unat s = 0" unfolding t using s by auto
      finally show ?thesis by (simp only: unat_eq_0)
    qed
    moreover have "fold_loop s = fold_loop ?t" using False by (subst fold_loop.simps) simp
    ultimately show ?thesis using "1.IH" [OF False] by simp
  qed
qed

text \<open>Sum of the 16-bit words of a byte string, in network order, an odd end padded with 0.\<close>

fun bsum :: "u8 list \<Rightarrow> nat" where
  "bsum (a # b # bs) = 256 * unat a + unat b + bsum bs"
| "bsum [a] = 256 * unat a"
| "bsum [] = 0"

lemma bsum_append: "even (length xs) \<Longrightarrow> bsum (xs @ ys) = bsum xs + bsum ys"
  by (induction xs rule: bsum.induct) auto

lemma bsum_bound: "bsum xs \<le> 65535 * ((length xs + 1) div 2)"
proof (induction xs rule: bsum.induct)
  case (1 a b bs)
  have "unat a < 256" "unat b < 256" using unsigned_less [of a, where ?'a = nat] unsigned_less [of b, where ?'a = nat] by simp_all
  then show ?case using 1 by simp
next
  case (2 a)
  have "unat a < 256" using unsigned_less [of a, where ?'a = nat] by simp
  then show ?case by simp
qed simp

lemma unat_add_less: "unat a + unat b < 2 ^ LENGTH('a) \<Longrightarrow> unat (a + b :: 'a::len word) = unat a + unat b"
  by (simp add: unat_word_ariths)

lemma unat_be_pair: "unat (be_pair a b) = 256 * unat a + unat b"
proof -
  have ab: "unat a < 256" "unat b < 256"
    using unsigned_less [of a, where ?'a = nat] unsigned_less [of b, where ?'a = nat] by simp_all
  have "be_pair a b = push_bit 8 (ucast a) + ucast b"
    unfolding be_pair_def by (rule disjunctive_add [symmetric]) (auto simp: bit_simps dest: bit_imp_le_length)
  also have "unat \<dots> = 256 * unat a + unat b"
  proof -
    have "unat (push_bit 8 (ucast a) :: u32) = 256 * unat a"
      using ab(1) by (simp add: push_bit_eq_mult unat_word_ariths unat_ucast_up)
    then show ?thesis using ab by (subst unat_add_less) (simp_all add: unat_ucast_up)
  qed
  finally show ?thesis .
qed

lemma sum_loop_eq:
  assumes "len \<le> length seg" and "i \<le> len" and "unat s + bsum (drop i (take len seg)) < 2 ^ 32"
  shows "\<exists>t. sum_loop seg len i s = Some t \<and> unat t = unat s + bsum (drop i (take len seg))"
  using assms
proof (induction seg len i s rule: sum_loop.induct)
  case (1 seg len i s)
  show ?case
  proof (cases "i + 1 < len")
    case True
    have rd: "c_rd seg i = Some (seg ! i)" "c_rd seg (i + 1) = Some (seg ! (i + 1))" using True "1.prems"(1) by simp_all
    have d: "drop i (take len seg) = seg ! i # seg ! (i + 1) # drop (i + 2) (take len seg)"
      using True "1.prems"(1) by (simp add: Cons_nth_drop_Suc [symmetric])
    have sum: "unat (s + be_pair (seg ! i) (seg ! (i + 1))) = unat s + (256 * unat (seg ! i) + unat (seg ! (i + 1)))"
      using "1.prems"(3) unat_add_less [of s "be_pair (seg ! i) (seg ! (i + 1))"] by (simp add: d unat_be_pair)
    have "\<exists>t. sum_loop seg len (i + 2) (s + be_pair (seg ! i) (seg ! (i + 1))) = Some t \<and>
        unat t = unat (s + be_pair (seg ! i) (seg ! (i + 1))) + bsum (drop (i + 2) (take len seg))"
      using "1.prems" True by (intro "1.IH" [OF True rd]) (simp_all add: sum [simplified] d)
    then show ?thesis using True rd by (subst sum_loop.simps) (auto simp: sum [simplified] d)
  next
    case F: False
    show ?thesis
    proof (cases "i < len")
      case True
      have rd: "c_rd seg i = Some (seg ! i)" using True "1.prems"(1) by simp
      have "len = Suc i" using F True by simp
      then have d: "drop i (take len seg) = [seg ! i]"
        using "1.prems"(1) by (simp add: take_Suc_conv_app_nth)
      have "unat (s + be_pair (seg ! i) 0) = unat s + 256 * unat (seg ! i)"
        using "1.prems"(3) unat_add_less [of s "be_pair (seg ! i) 0"] by (simp add: d unat_be_pair)
      then show ?thesis using F True rd by (subst sum_loop.simps) (simp add: d)
    next
      case False
      then show ?thesis using F "1.prems"(2) by (subst sum_loop.simps) simp
    qed
  qed
qed

definition addr_sum :: "u32 \<Rightarrow> nat" where
  "addr_sum a = 256 * unat (ucast a :: u8) + unat (ucast (drop_bit 8 a) :: u8) +
     (256 * unat (ucast (drop_bit 16 a) :: u8) + unat (ucast (drop_bit 24 a) :: u8))"

lemma addr_sum_bound: "addr_sum a \<le> 2 * 65535"
proof -
  have "unat (x :: u8) \<le> 255" for x using unsigned_less [of x, where ?'a = nat] by simp
  from this [of "ucast a"] this [of "ucast (drop_bit 8 a)"] this [of "ucast (drop_bit 16 a)"]
    this [of "ucast (drop_bit 24 a)"] show ?thesis unfolding addr_sum_def by linarith
qed

lemma unat_sum_addr:
  assumes "unat s + addr_sum a < 2 ^ 32"
  shows "unat (sum_addr s a) = unat s + addr_sum a"
proof -
  let ?p = "be_pair (ucast a) (ucast (drop_bit 8 a))" and ?q = "be_pair (ucast (drop_bit 16 a)) (ucast (drop_bit 24 a))"
  have sum: "addr_sum a = unat ?p + unat ?q" by (simp add: addr_sum_def unat_be_pair)
  have "unat (s + ?p) = unat s + unat ?p" using assms sum by (intro unat_add_less) simp
  moreover have "unat (s + ?p + ?q) = unat (s + ?p) + unat ?q" using assms sum calculation by (intro unat_add_less) simp
  ultimately show ?thesis by (simp add: sum_addr_def Let_def sum)
qed

definition pseudo_sum :: "u32 \<Rightarrow> u32 \<Rightarrow> u32 \<Rightarrow> u8 list \<Rightarrow> nat" where
  "pseudo_sum proto src dst seg = addr_sum src + addr_sum dst + unat proto + length seg + bsum seg"

lemma inet_checksum_eq:
  assumes "unat len \<le> length seg" and "unat len \<le> 65535" and "unat proto \<le> 255"
  shows "\<exists>s. inet_checksum proto src dst seg len = Some (ucast (NOT (fold_loop s))) \<and>
     unat s = pseudo_sum proto src dst (take (unat len) seg)"
proof -
  let ?seg = "take (unat len) seg"
  have len: "length ?seg = unat len" using assms(1) by simp
  have "bsum ?seg \<le> 65535 * ((unat len + 1) div 2)" using bsum_bound [of ?seg] len by simp
  also have "\<dots> \<le> 65535 * 32768" using assms(2) by (intro mult_le_mono2) simp
  finally have b: "bsum ?seg \<le> 2147450880" by simp
  have a: "addr_sum src \<le> 131070" "addr_sum dst \<le> 131070" using addr_sum_bound [of src] addr_sum_bound [of dst] by simp_all
  have 1: "unat (sum_addr 0 src) = addr_sum src" using a(1) unat_sum_addr [of 0 src] by simp
  have 2: "unat (sum_addr (sum_addr 0 src) dst) = addr_sum src + addr_sum dst"
    using a unat_sum_addr [of "sum_addr 0 src" dst] 1 by simp
  let ?s = "sum_addr (sum_addr 0 src) dst + proto + len"
  have 3: "unat (sum_addr (sum_addr 0 src) dst + proto) = addr_sum src + addr_sum dst + unat proto"
    using a assms(3) 2 unat_add_less [of "sum_addr (sum_addr 0 src) dst" proto] by simp
  have 4: "unat ?s = addr_sum src + addr_sum dst + unat proto + unat len"
    using a assms(2,3) 3 unat_add_less [of "sum_addr (sum_addr 0 src) dst + proto" len] by simp
  have "\<exists>t. sum_loop seg (unat len) 0 ?s = Some t \<and> unat t = unat ?s + bsum (drop 0 (take (unat len) seg))"
    by (rule sum_loop_eq) (use assms a b 4 in simp_all)
  then obtain t where "sum_loop seg (unat len) 0 ?s = Some t" "unat t = unat ?s + bsum ?seg" by auto
  then show ?thesis using 4 len by (auto simp: inet_checksum_def pseudo_sum_def)
qed

lemma unat_complement:
  assumes "unat r < 65536"
  shows "unat (ucast (NOT r :: u32) :: u16) = 65535 - unat r"
proof -
  have "NOT r = - 1 - r" by (simp add: not_eq_complement)
  moreover have "unat (- 1 :: u32) = 4294967295"
  proof -
    have "(0xFFFFFFFF :: u32) = - 1" by simp
    moreover have "unat (0xFFFFFFFF :: u32) = 4294967295" by simp
    ultimately show ?thesis by metis
  qed
  ultimately have "unat (NOT r) = 4294967295 - unat r" by (simp only: unat_sub_le [OF word_order.extremum])
  also have "\<dots> = 65536 * 65535 + (65535 - unat r)" using assms by simp
  finally have "unat (NOT r) = 65536 * 65535 + (65535 - unat r)" .
  moreover have "(65536 * 65535 + (65535 - unat r)) mod 65536 = 65535 - unat r"
    unfolding mod_mult_self4 by (rule mod_less) simp
  ultimately show ?thesis by (simp add: unat_ucast_down)
qed

text \<open>The folded sum and its complement.\<close>

lemma complement_fold: "unat (fold_loop s) + unat (ucast (NOT (fold_loop s)) :: u16) = 65535"
  using unat_complement [of "fold_loop s"] fold_loop_props [of s] by simp

lemma complement_completes: "(unat s + unat (ucast (NOT (fold_loop s)) :: u16)) mod 65535 = 0"
proof -
  have "unat (fold_loop s) mod 65535 = unat s mod 65535" using fold_loop_props [of s] by simp
  then have "(unat s + unat (ucast (NOT (fold_loop s)) :: u16)) mod 65535 =
      (unat (fold_loop s) + unat (ucast (NOT (fold_loop s)) :: u16)) mod 65535"
    by (metis mod_add_cong)
  then show ?thesis unfolding complement_fold by simp
qed

lemma complement_zero:
  assumes "0 < n" and "n mod 65535 = 0" and "unat s = n"
  shows "ucast (NOT (fold_loop s)) = (0 :: u16)"
proof -
  have f: "unat (fold_loop s) < 65536" "unat (fold_loop s) mod 65535 = 0" "fold_loop s \<noteq> 0"
    using fold_loop_props [of s] assms by auto
  have "65535 dvd unat (fold_loop s)" using f(2) by (simp only: dvd_eq_mod_eq_0)
  then obtain k where k: "unat (fold_loop s) = 65535 * k" by (elim dvdE)
  moreover have "k \<noteq> 0" using f(3) k by (metis mult_0_right unat_eq_0)
  ultimately have "unat (fold_loop s) = 65535" using f(1) by (cases k) auto
  then show ?thesis using complement_fold [of s] by (simp only: unat_eq_0 [symmetric])
qed

text \<open>A checksum is zero exactly when the sum is a positive multiple of 65535.\<close>

lemma inet_checksum_zero:
  assumes "unat len \<le> length seg" and "unat len \<le> 65535" and "unat proto \<le> 255"
    and "pseudo_sum proto src dst (take (unat len) seg) > 0"
    and "pseudo_sum proto src dst (take (unat len) seg) mod 65535 = 0"
  shows "inet_checksum proto src dst seg len = Some 0"
  using inet_checksum_eq [OF assms(1-3), of src dst] complement_zero [OF assms(4,5)] by auto

text \<open>The checksum that a sender stores, with 0 replaced by 65535.\<close>

definition encode_checksum :: "u16 \<Rightarrow> u16" where
  "encode_checksum c = (if c = 0 then 0xFFFF else c)"

lemma encode_completes:
  assumes "unat len \<le> length seg" and "unat len \<le> 65535" and "unat proto \<le> 255"
    and "inet_checksum proto src dst seg len = Some c"
  shows "(pseudo_sum proto src dst (take (unat len) seg) + unat (encode_checksum c)) mod 65535 = 0"
    and "unat (encode_checksum c) > 0"
proof -
  from inet_checksum_eq [OF assms(1-3), of src dst] assms(4) obtain s where
    s: "c = ucast (NOT (fold_loop s))" "unat s = pseudo_sum proto src dst (take (unat len) seg)" by auto
  have "unat (encode_checksum c) mod 65535 = unat c mod 65535" by (simp add: encode_checksum_def)
  then show "(pseudo_sum proto src dst (take (unat len) seg) + unat (encode_checksum c)) mod 65535 = 0"
    using complement_completes [of s] s by (metis mod_add_cong)
  show "unat (encode_checksum c) > 0" by (simp add: encode_checksum_def)
qed

lemma bsum_put_be16:
  assumes "even off" and "off + 2 \<le> length seg" and "take 2 (drop off seg) = [0, 0]"
  shows "bsum (put seg off (be16 c)) = bsum seg + unat c"
proof -
  have "seg = take off seg @ drop off seg" by simp
  also have "drop off seg = take 2 (drop off seg) @ drop 2 (drop off seg)" by (rule append_take_drop_id [symmetric])
  finally have seg: "seg = take off seg @ [0, 0] @ drop (off + 2) seg" using assms(3) by (simp add: add.commute)
  have ev: "even (length (take off seg))" using assms(1,2) by simp
  have "bsum seg = bsum (take off seg) + bsum (drop (off + 2) seg)"
    by (subst seg) (simp add: bsum_append [OF ev])
  moreover have "bsum (put seg off (be16 c)) =
      bsum (take off seg) + (bsum (be16 c) + bsum (drop (off + 2) seg))"
    by (simp add: patch_def bsum_append [OF ev] bsum_append)
  moreover have "bsum (be16 c) = unat c"
  proof -
    have "unat c div 256 < 256" using unsigned_less [of c, where ?'a = nat] by simp
    moreover have "unat (drop_bit 8 c) = unat c div 256" by (simp add: drop_bit_eq_div unat_div)
    ultimately show ?thesis by (simp add: be16_def unat_ucast_down)
  qed
  ultimately show ?thesis by simp
qed

text \<open>The sender and the receiver agree: the filled segment passes the check.\<close>

lemma filled_segment_checks:
  assumes "unat len = length seg" and "unat len \<le> 65535" and "unat proto \<le> 255"
    and "inet_checksum proto src dst seg len = Some c"
    and "even off" and "off + 2 \<le> length seg" and "take 2 (drop off seg) = [0, 0]"
  shows "inet_checksum proto src dst (put seg off (be16 (encode_checksum c))) len = Some 0"
proof -
  let ?seg = "put seg off (be16 (encode_checksum c))"
  have len: "length ?seg = length seg" using assms(6) by simp
  have "pseudo_sum proto src dst ?seg = pseudo_sum proto src dst seg + unat (encode_checksum c)"
    using bsum_put_be16 [OF assms(5-7)] len by (simp add: pseudo_sum_def)
  moreover have "(pseudo_sum proto src dst seg + unat (encode_checksum c)) mod 65535 = 0"
    "unat (encode_checksum c) > 0"
    using encode_completes [OF _ assms(2,3,4)] assms(1) by simp_all
  ultimately show ?thesis
    using assms(1,2,3) len by (intro inet_checksum_zero) simp_all
qed

section \<open>Building a segment in a buffer\<close>

text \<open>Only the first \<open>len\<close> bytes of the buffer matter.\<close>

lemma sum_loop_take:
  assumes "len \<le> length seg"
  shows "sum_loop (take len seg) len i s = sum_loop seg len i s"
proof (induction seg len i s rule: sum_loop.induct)
  case (1 seg len i s)
  have rd: "c_rd (take len seg) j = c_rd seg j" if "j < len" for j using that by (simp add: c_rd_def)
  show ?case
  proof (cases "i + 1 < len")
    case True
    show ?thesis
    proof (cases "c_rd seg i")
      case a: (Some a)
      show ?thesis
      proof (cases "c_rd seg (i + 1)")
        case b: (Some b)
        show ?thesis
          using "1.IH" [OF True a b] True a b rd [of i] rd [of "i + 1"]
          by (subst (1 2) sum_loop.simps) simp
      qed (use True a rd [of i] rd [of "i + 1"] in \<open>subst (1 2) sum_loop.simps, simp\<close>)
    qed (use True rd [of i] in \<open>subst (1 2) sum_loop.simps, simp\<close>)
  next
    case False
    then show ?thesis using rd [of i] by (subst (1 2) sum_loop.simps) simp
  qed
qed

lemma inet_checksum_take:
  "unat len \<le> length seg \<Longrightarrow> inet_checksum proto src dst (take (unat len) seg) len = inet_checksum proto src dst seg len"
  by (simp add: inet_checksum_def sum_loop_take)

lemma put_next: "length p = off \<Longrightarrow> put (p @ rest) off bs = p @ bs @ drop (length bs) rest"
  by (simp add: patch_def)

lemma memcpy_next:
  "length p = off \<Longrightarrow> length d \<le> length rest \<Longrightarrow> c_memcpy (p @ rest) off d (length d) = Some (p @ d @ drop (length d) rest)"
  by (simp add: c_memcpy_def)

lemma be16_0: "be16 0 = [0, 0]"
  by (simp add: be16_def)

lemma bswap16_0: "ow_bswap16 0 = 0"
  by (simp add: ow_bswap16_def)

lemma st16_0: "off + 2 \<le> length buf \<Longrightarrow> st16 buf off 0 = Some (put buf off [0, 0])"
  using st16_bswap [of off buf 0] by (simp add: be16_0 bswap16_0)

lemma ld16_total: "off + 2 \<le> length buf \<Longrightarrow> \<exists>v. ld16 buf off = Some v"
  by (simp add: ld16_def)

lemma ld32_total: "off + 4 \<le> length buf \<Longrightarrow> \<exists>v. ld32 buf off = Some v"
  by (simp add: ld32_def)

text \<open>Writing the next field of a header that is built from its start.\<close>

lemma st16_next: "length p = off \<Longrightarrow> 2 \<le> length rest \<Longrightarrow> st16 (p @ rest) off (ow_bswap16 v) = Some ((p @ be16 v) @ drop 2 rest)"
  using st16_bswap [of off "p @ rest" v] put_next [of p off rest "be16 v"] by simp

lemma st32_next: "length p = off \<Longrightarrow> 4 \<le> length rest \<Longrightarrow> st32 (p @ rest) off (ow_bswap32 v) = Some ((p @ be32 v) @ drop 4 rest)"
  using st32_bswap [of off "p @ rest" v] put_next [of p off rest "be32 v"] by simp

lemma st16_next0: "length p = off \<Longrightarrow> 2 \<le> length rest \<Longrightarrow> st16 (p @ rest) off 0 = Some ((p @ be16 0) @ drop 2 rest)"
  using st16_next [of p off rest 0] by (simp add: bswap16_0)

lemma c_wr_next: "length p = off \<Longrightarrow> rest \<noteq> [] \<Longrightarrow> c_wr (p @ rest) off v = Some ((p @ [v]) @ drop 1 rest)"
  by (cases rest) (auto simp: c_wr_def list_update_append)

section \<open>Reading fields\<close>

text \<open>The byte pairs of a header that the code reads with shifts.\<close>

definition rd_be16 :: "u8 list \<Rightarrow> nat \<Rightarrow> u16 comp" where
  "rd_be16 buf off = do { a \<leftarrow> c_rd buf off; b \<leftarrow> c_rd buf (off + 1); Some (push_bit 8 (ucast a) OR ucast b) }"

text \<open>The bytes of an address in memory order.\<close>

definition addr_bytes :: "u32 \<Rightarrow> u8 list" where
  "addr_bytes v = be32 (ow_bswap32 v)"

lemma length_addr_bytes [simp]: "length (addr_bytes v) = 4"
  by (simp add: addr_bytes_def)

lemma st32_addr: "length p = off \<Longrightarrow> 4 \<le> length rest \<Longrightarrow> st32 (p @ rest) off v = Some ((p @ addr_bytes v) @ drop 4 rest)"
  using st32_next [of p off rest "ow_bswap32 v"] by (simp add: bswap32_id addr_bytes_def)

lemma ld32_addr: "length p = off \<Longrightarrow> ld32 (p @ addr_bytes v @ rest) off = Some v"
  using ld32_be [of off "p @ addr_bytes v @ rest" "ow_bswap32 v"] by (simp add: addr_bytes_def bswap32_id)

lemma ld16_at: "length p = off \<Longrightarrow> ld16 (p @ be16 v @ rest) off = Some (ow_bswap16 v)"
  using ld16_be [of off "p @ be16 v @ rest" v] by simp

lemma rd_be16_at: "length p = off \<Longrightarrow> rd_be16 (p @ a # b # rest) off = Some (push_bit 8 (ucast a) OR ucast b)"
  by (simp add: rd_be16_def nth_append)

lemma be16_join: "push_bit 8 (ucast (ucast (drop_bit 8 v) :: u8)) OR ucast (ucast v :: u8) = (v :: u16)"
  by (rule bit_word_eqI) (auto simp: bit_simps)

lemma rd_be16_be: "length p = off \<Longrightarrow> rd_be16 (p @ be16 v @ rest) off = Some v"
  using rd_be16_at [of p off "ucast (drop_bit 8 v)" "ucast v" rest] be16_join [of v] by (simp add: be16_def)

lemma c_rd_at: "length p = off \<Longrightarrow> c_rd (p @ v # rest) off = Some v"
  by (simp add: c_rd_def nth_append)

end
