(* ===== verification/Ipstack.thy ===== *)
theory Ipstack
  imports Inet
begin

text \<open>
  The IP stack \<open>src/Drivers/ipstack/ipstack.c\<close>: Ethernet framing, ARP with a cache of sixteen
  entries, a table of eight static routes, and the dispatch of received datagrams to the ICMP,
  TCP and UDP callbacks. The link driver (\<open>link_tx\<close>) and the callbacks are function pointers
  that act on an arbitrary state of the outside world, of type \<open>'w\<close>, in which the two context
  pointers are absorbed; they do not call the stack again. Addresses are opaque 32-bit values in
  network order, as in the code. The machine is little-endian.
\<close>

unbundle bit_operations_syntax

section \<open>Model\<close>

type_synonym ipstack_status_t = u32

abbreviation (input) IP_OK :: ipstack_status_t where "IP_OK \<equiv> 0"
abbreviation (input) IP_ERR_PARAM :: ipstack_status_t where "IP_ERR_PARAM \<equiv> 1"
abbreviation (input) IP_ERR_NOT_READY :: ipstack_status_t where "IP_ERR_NOT_READY \<equiv> 2"
abbreviation (input) IP_ERR_NO_ROUTE :: ipstack_status_t where "IP_ERR_NO_ROUTE \<equiv> 3"
abbreviation (input) IP_ERR_PENDING :: ipstack_status_t where "IP_ERR_PENDING \<equiv> 4"
abbreviation (input) IP_ERR_FULL :: ipstack_status_t where "IP_ERR_FULL \<equiv> 5"
abbreviation (input) IP_ERR_DROP :: ipstack_status_t where "IP_ERR_DROP \<equiv> 6"
abbreviation (input) IP_ERR_BAD_PACKET :: ipstack_status_t where "IP_ERR_BAD_PACKET \<equiv> 7"

type_synonym ipv4_addr_t = u32

abbreviation (input) IP_BROADCAST :: ipv4_addr_t where "IP_BROADCAST \<equiv> 0xFFFFFFFF"
abbreviation (input) ETH_TYPE_IP :: u16 where "ETH_TYPE_IP \<equiv> 0x0800"
abbreviation (input) ETH_TYPE_ARP :: u16 where "ETH_TYPE_ARP \<equiv> 0x0806"
abbreviation (input) IP_PROTO_ICMP :: u8 where "IP_PROTO_ICMP \<equiv> 1"
abbreviation (input) IP_PROTO_TCP :: u8 where "IP_PROTO_TCP \<equiv> 6"
abbreviation (input) IP_PROTO_UDP :: u8 where "IP_PROTO_UDP \<equiv> 17"
abbreviation (input) ARP_OP_REQUEST :: u16 where "ARP_OP_REQUEST \<equiv> 1"
abbreviation (input) ARP_OP_REPLY :: u16 where "ARP_OP_REPLY \<equiv> 2"

type_synonym 'w ipstack_link_tx_fn = "'w \<Rightarrow> u8 list \<Rightarrow> u32 \<Rightarrow> ipstack_status_t \<times> 'w"
type_synonym 'w ipstack_arp_fn = "'w \<Rightarrow> ipv4_addr_t \<Rightarrow> u8 list \<Rightarrow> 'w"
type_synonym 'w ipstack_icmp_fn = "'w \<Rightarrow> ipv4_addr_t \<Rightarrow> u8 \<Rightarrow> u8 \<Rightarrow> u8 list \<Rightarrow> u32 \<Rightarrow> 'w"
type_synonym 'w ipstack_port_fn = "'w \<Rightarrow> ipv4_addr_t \<Rightarrow> u16 \<Rightarrow> ipv4_addr_t \<Rightarrow> u16 \<Rightarrow> u8 list \<Rightarrow> u32 \<Rightarrow> 'w"

record ip_config_t =
  cfg_ip :: ipv4_addr_t
  cfg_netmask :: ipv4_addr_t
  cfg_gateway :: ipv4_addr_t
  cfg_mac :: "u8 list"

record ip_route_entry_t =
  r_dest :: ipv4_addr_t
  r_mask :: ipv4_addr_t
  r_gateway :: ipv4_addr_t
  r_iface :: u16
  r_used :: bool

record ip_arp_entry_t =
  a_ip :: ipv4_addr_t
  a_mac :: "u8 list"
  a_age :: u16
  a_valid :: bool

record 'w ipstack_t =
  local_ip :: ipv4_addr_t
  netmask :: ipv4_addr_t
  gateway :: ipv4_addr_t
  local_mac :: "u8 list"
  next_id :: u16
  initialized :: bool
  link_tx :: "'w ipstack_link_tx_fn ptr"
  icmp_cb :: "'w ipstack_icmp_fn ptr"
  tcp_cb :: "'w ipstack_port_fn ptr"
  udp_cb :: "'w ipstack_port_fn ptr"
  arp_cb :: "'w ipstack_arp_fn ptr"
  routes :: "ip_route_entry_t list"
  arp_cache :: "ip_arp_entry_t list"
  tx_scratch :: "u8 list"

definition ip_checksum :: "u8 list \<Rightarrow> u32 \<Rightarrow> u16 comp" where
  "ip_checksum data len = do { s \<leftarrow> sum_loop data (unat len) 0 0; Some (ucast (NOT (fold_loop s))) }"

definition ip_prefix_len :: "ipv4_addr_t \<Rightarrow> u32" where
  "ip_prefix_len m = foldl (\<lambda>count i. if m AND push_bit i 1 \<noteq> 0 then count + 1 else count) 0 [0..<32]"

subsection \<open>The ARP cache\<close>

text \<open>A pointer to an entry is its index.\<close>

definition ip_arp_lookup :: "'w ipstack_t \<Rightarrow> ipv4_addr_t \<Rightarrow> nat ptr comp" where
  "ip_arp_lookup st ip =
     do { r \<leftarrow> c_find (\<lambda>e. a_valid e \<and> a_ip e = ip) (arp_cache st) 16 0;
          Some (case r of None \<Rightarrow> NULL | Some i \<Rightarrow> Ref i) }"

definition arp_victim :: "ip_arp_entry_t list \<Rightarrow> nat \<Rightarrow> nat \<times> u16 \<Rightarrow> (nat \<times> u16) comp" where
  "arp_victim es i vo =
     do { e \<leftarrow> c_rd es i; Some (if a_age e \<ge> snd vo then (i, a_age e) else vo) }"

definition ip_arp_store :: "'w ipstack_t \<Rightarrow> ipv4_addr_t \<Rightarrow> u8 list \<Rightarrow> 'w ipstack_t comp" where
  "ip_arp_store st ip m =
     do { r \<leftarrow> c_find (\<lambda>e. a_valid e \<and> a_ip e = ip) (arp_cache st) 16 0;
          case r of
            Some i \<Rightarrow>
              do { e \<leftarrow> c_rd (arp_cache st) i; m' \<leftarrow> c_memcpy (a_mac e) 0 m 6;
                   es \<leftarrow> c_wr (arp_cache st) i (e\<lparr>a_mac := m', a_age := 0\<rparr>);
                   Some (st\<lparr>arp_cache := es\<rparr>) }
          | None \<Rightarrow>
              do { f \<leftarrow> c_find (\<lambda>e. \<not> a_valid e) (arp_cache st) 16 0;
                   case f of
                     Some i \<Rightarrow>
                       do { e \<leftarrow> c_rd (arp_cache st) i; m' \<leftarrow> c_memcpy (a_mac e) 0 m 6;
                            es \<leftarrow> c_wr (arp_cache st) i (e\<lparr>a_ip := ip, a_mac := m', a_age := 0, a_valid := True\<rparr>);
                            Some (st\<lparr>arp_cache := es\<rparr>) }
                   | None \<Rightarrow>
                       do { (victim, _) \<leftarrow> c_for 0 16 (arp_victim (arp_cache st)) (0, 0);
                            e \<leftarrow> c_rd (arp_cache st) victim; m' \<leftarrow> c_memcpy (a_mac e) 0 m 6;
                            es \<leftarrow> c_wr (arp_cache st) victim (e\<lparr>a_ip := ip, a_mac := m', a_age := 0\<rparr>);
                            Some (st\<lparr>arp_cache := es\<rparr>) } } }"

subsection \<open>Routing\<close>

definition route_step ::
  "ip_route_entry_t list \<Rightarrow> ipv4_addr_t \<Rightarrow> nat \<Rightarrow> ip_route_entry_t ptr \<times> u32 \<Rightarrow> (ip_route_entry_t ptr \<times> u32) comp" where
  "route_step rs dst i bp =
     do { e \<leftarrow> c_rd rs i;
          Some (if \<not> r_used e then bp
                else if dst AND r_mask e \<noteq> r_dest e AND r_mask e then bp
                else if fst bp = NULL \<or> ip_prefix_len (r_mask e) > snd bp then (Ref e, ip_prefix_len (r_mask e))
                else bp) }"

definition ip_route_lookup :: "'w ipstack_t \<Rightarrow> ipv4_addr_t \<Rightarrow> ipv4_addr_t \<Rightarrow> (ipstack_status_t \<times> ipv4_addr_t) comp" where
  "ip_route_lookup st dst next_hop =
     do { (best, _) \<leftarrow> c_for 0 8 (route_step (routes st) dst) (NULL, 0);
          Some (case best of
            Ref e \<Rightarrow> (IP_OK, if r_gateway e \<noteq> 0 then r_gateway e else dst)
          | NULL \<Rightarrow>
              if netmask st \<noteq> 0 \<and> dst AND netmask st = local_ip st AND netmask st then (IP_OK, dst)
              else if gateway st \<noteq> 0 then (IP_OK, gateway st)
              else (IP_ERR_NO_ROUTE, next_hop)) }"

subsection \<open>ARP\<close>

definition eth_header :: "u8 list \<Rightarrow> u8 list \<Rightarrow> u8 list \<Rightarrow> u16 \<Rightarrow> u8 list comp" where
  "eth_header frame dmac smac ethertype =
     do { frame \<leftarrow> c_for 0 6 (\<lambda>i f. do { d \<leftarrow> c_rd dmac i; f \<leftarrow> c_wr f i d; s \<leftarrow> c_rd smac i; c_wr f (6 + i) s }) frame;
          frame \<leftarrow> c_wr frame 12 (ucast (drop_bit 8 ethertype));
          c_wr frame 13 (ucast (ethertype AND 0xFF)) }"

definition ip_arp_transmit ::
  "'w \<Rightarrow> 'w ipstack_t \<Rightarrow> u16 \<Rightarrow> u8 list \<Rightarrow> ipv4_addr_t \<Rightarrow> (ipstack_status_t \<times> 'w ipstack_t \<times> 'w) comp" where
  "ip_arp_transmit w st oper dmac target_ip =
     do { f \<leftarrow> eth_header (tx_scratch st) dmac (local_mac st) ETH_TYPE_ARP;
          f \<leftarrow> st16 f (14 + 0) (ow_bswap16 1);
          f \<leftarrow> st16 f (14 + 2) (ow_bswap16 ETH_TYPE_IP);
          f \<leftarrow> c_wr f (14 + 4) 6;
          f \<leftarrow> c_wr f (14 + 5) 4;
          f \<leftarrow> st16 f (14 + 6) (ow_bswap16 oper);
          f \<leftarrow> c_for 0 6 (\<lambda>i f. do { s \<leftarrow> c_rd (local_mac st) i; f \<leftarrow> c_wr f (14 + 8 + i) s;
                                     d \<leftarrow> c_rd dmac i; c_wr f (14 + 18 + i) d }) f;
          f \<leftarrow> st32 f (14 + 14) (local_ip st);
          f \<leftarrow> st32 f (14 + 24) target_ip;
          case link_tx st of NULL \<Rightarrow> None
          | Ref tx \<Rightarrow> (let (rc, w') = tx w f (14 + 28) in Some (rc, st\<lparr>tx_scratch := f\<rparr>, w')) }"

definition ip_arp_send_request ::
  "'w \<Rightarrow> 'w ipstack_t \<Rightarrow> ipv4_addr_t \<Rightarrow> (ipstack_status_t \<times> 'w ipstack_t \<times> 'w) comp" where
  "ip_arp_send_request w st target =
     ip_arp_transmit w st ARP_OP_REQUEST [0xFF, 0xFF, 0xFF, 0xFF, 0xFF, 0xFF] target"

definition ip_arp_send_reply ::
  "'w \<Rightarrow> 'w ipstack_t \<Rightarrow> ipv4_addr_t \<Rightarrow> u8 list \<Rightarrow> (ipstack_status_t \<times> 'w ipstack_t \<times> 'w) comp" where
  "ip_arp_send_reply w st target target_mac = ip_arp_transmit w st ARP_OP_REPLY target_mac target"

text \<open>\<open>sizeof(ip_arp_packet_t)\<close> is 28.\<close>

definition ip_handle_arp ::
  "'w \<Rightarrow> 'w ipstack_t \<Rightarrow> u8 list \<Rightarrow> u32 \<Rightarrow> (ipstack_status_t \<times> 'w ipstack_t \<times> 'w) comp" where
  "ip_handle_arp w st buf len =
     (if len < 28 then Some (IP_ERR_BAD_PACKET, st, w)
      else do {
        htype \<leftarrow> ld16 buf 0;
        if ow_bswap16 htype \<noteq> 1 then Some (IP_ERR_DROP, st, w)
        else do {
        ptype \<leftarrow> ld16 buf 2;
        if ow_bswap16 ptype \<noteq> ETH_TYPE_IP then Some (IP_ERR_DROP, st, w)
        else do {
        hlen \<leftarrow> c_rd buf 4;
        plen \<leftarrow> c_rd buf 5;
        if hlen \<noteq> 6 \<or> plen \<noteq> 4 then Some (IP_ERR_DROP, st, w)
        else do {
          sha \<leftarrow> c_for 0 6 (\<lambda>i s. do { v \<leftarrow> c_rd buf (8 + i); c_wr s i v }) (replicate 6 0);
          spa \<leftarrow> ld32 buf 14;
          tpa \<leftarrow> ld32 buf 24;
          oper \<leftarrow> ld16 buf 6;
          st \<leftarrow> ip_arp_store st spa sha;
          if ow_bswap16 oper = ARP_OP_REQUEST then
            (if tpa \<noteq> local_ip st then Some (IP_ERR_DROP, st, w) else ip_arp_send_reply w st spa sha)
          else if ow_bswap16 oper = ARP_OP_REPLY then
            Some (IP_OK, st, case arp_cb st of NULL \<Rightarrow> w | Ref cb \<Rightarrow> cb w spa sha)
          else Some (IP_ERR_DROP, st, w) } } } })"

subsection \<open>Receiving a datagram\<close>

text \<open>The ports of a datagram, for the callbacks of TCP and UDP.\<close>

definition ip_dispatch_ports ::
  "'w \<Rightarrow> 'w ipstack_port_fn ptr \<Rightarrow> ipv4_addr_t \<Rightarrow> ipv4_addr_t \<Rightarrow> u8 list \<Rightarrow> nat \<Rightarrow> nat \<Rightarrow> u32 \<Rightarrow> 'w comp" where
  "ip_dispatch_ports w cb src dst buf hdr_len skip len =
     (case cb of NULL \<Rightarrow> Some w
      | Ref f \<Rightarrow> do { sp \<leftarrow> rd_be16 buf hdr_len; dp \<leftarrow> rd_be16 buf (hdr_len + 2);
                     Some (f w src sp dst dp (drop (hdr_len + skip) buf) len) })"

definition ip_dispatch ::
  "'w \<Rightarrow> 'w ipstack_t \<Rightarrow> ipv4_addr_t \<Rightarrow> ipv4_addr_t \<Rightarrow> u8 \<Rightarrow> u8 list \<Rightarrow> u32 \<Rightarrow> u32 \<Rightarrow> (ipstack_status_t \<times> 'w) comp" where
  "ip_dispatch w st src dst protocol buf hdr_len payload_len =
     (if protocol = IP_PROTO_ICMP then
        if payload_len < 8 then Some (IP_ERR_BAD_PACKET, w)
        else (case icmp_cb st of NULL \<Rightarrow> Some (IP_OK, w)
              | Ref f \<Rightarrow> do { ty \<leftarrow> c_rd buf (unat hdr_len); code \<leftarrow> c_rd buf (unat hdr_len + 1);
                             Some (IP_OK, f w src ty code (drop (unat hdr_len + 8) buf) (payload_len - 8)) })
      else if protocol = IP_PROTO_TCP then
        if payload_len < 20 then Some (IP_ERR_BAD_PACKET, w)
        else do { w' \<leftarrow> ip_dispatch_ports w (tcp_cb st) src dst buf (unat hdr_len) 0 payload_len; Some (IP_OK, w') }
      else if protocol = IP_PROTO_UDP then
        if payload_len < 8 then Some (IP_ERR_BAD_PACKET, w)
        else do { w' \<leftarrow> ip_dispatch_ports w (udp_cb st) src dst buf (unat hdr_len) 8 (payload_len - 8); Some (IP_OK, w') }
      else Some (IP_ERR_DROP, w))"

definition ip_handle_ip ::
  "'w \<Rightarrow> 'w ipstack_t \<Rightarrow> u8 list \<Rightarrow> u32 \<Rightarrow> (ipstack_status_t \<times> 'w) comp" where
  "ip_handle_ip w st buf len =
     (if len < 20 then Some (IP_ERR_BAD_PACKET, w)
      else do {
        version_ihl \<leftarrow> c_rd buf 0;
        if drop_bit 4 version_ihl \<noteq> 4 then Some (IP_ERR_DROP, w)
        else let ihl = (ucast (version_ihl AND 0x0F) :: u32) in
        if ihl < 5 then Some (IP_ERR_BAD_PACKET, w)
        else let hdr_len = ihl * 4 in
        if hdr_len > len then Some (IP_ERR_BAD_PACKET, w)
        else do {
          total_len \<leftarrow> ld16 buf 2;
          let tot = (ucast (ow_bswap16 total_len) :: u32) in
          if tot < hdr_len \<or> tot > len then Some (IP_ERR_BAD_PACKET, w)
          else do {
            flags_frag \<leftarrow> ld16 buf 6;
            if ow_bswap16 flags_frag AND 0x1FFF \<noteq> 0 then Some (IP_ERR_DROP, w)
            else do {
              csum \<leftarrow> ip_checksum buf hdr_len;
              if csum \<noteq> 0 then Some (IP_ERR_BAD_PACKET, w)
              else do {
                src \<leftarrow> ld32 buf 12;
                dst \<leftarrow> ld32 buf 16;
                if dst \<noteq> local_ip st \<and> dst \<noteq> IP_BROADCAST then Some (IP_ERR_DROP, w)
                else do {
                  protocol \<leftarrow> c_rd buf 9;
                  ip_dispatch w st src dst protocol buf hdr_len (tot - hdr_len) } } } } } })"

subsection \<open>The interface\<close>

definition ip_init ::
  "'w ipstack_t ptr \<Rightarrow> ip_config_t ptr \<Rightarrow> 'w ipstack_link_tx_fn ptr \<Rightarrow> (ipstack_status_t \<times> 'w ipstack_t ptr) comp" where
  "ip_init st cfg tx =
     (case (st, cfg, tx) of
        (Ref _, Ref c, Ref _) \<Rightarrow>
          do { m \<leftarrow> c_for 0 6 (\<lambda>i m. do { v \<leftarrow> c_rd (cfg_mac c) i; c_wr m i v }) (replicate 6 0);
               Some (IP_OK, Ref \<lparr>local_ip = cfg_ip c, netmask = cfg_netmask c, gateway = cfg_gateway c,
                 local_mac = m, next_id = 1, initialized = True, link_tx = tx,
                 icmp_cb = NULL, tcp_cb = NULL, udp_cb = NULL, arp_cb = NULL,
                 routes = replicate 8 \<lparr>r_dest = 0, r_mask = 0, r_gateway = 0, r_iface = 0, r_used = False\<rparr>,
                 arp_cache = replicate 16 \<lparr>a_ip = 0, a_mac = replicate 6 0, a_age = 0, a_valid = False\<rparr>,
                 tx_scratch = replicate 1536 0\<rparr>) }
      | _ \<Rightarrow> Some (IP_ERR_PARAM, st))"

definition ip_set_address ::
  "'w ipstack_t ptr \<Rightarrow> ipv4_addr_t \<Rightarrow> ipv4_addr_t \<Rightarrow> ipv4_addr_t \<Rightarrow> ipstack_status_t \<times> 'w ipstack_t ptr" where
  "ip_set_address st ip nm gw =
     (case st of NULL \<Rightarrow> (IP_ERR_PARAM, st)
      | Ref s \<Rightarrow> (IP_OK, Ref (s\<lparr>local_ip := ip, netmask := nm, gateway := gw\<rparr>)))"

definition ip_add_route ::
  "'w ipstack_t ptr \<Rightarrow> ipv4_addr_t \<Rightarrow> ipv4_addr_t \<Rightarrow> ipv4_addr_t \<Rightarrow> (ipstack_status_t \<times> 'w ipstack_t ptr) comp" where
  "ip_add_route st dest m gw =
     (case st of NULL \<Rightarrow> Some (IP_ERR_PARAM, st)
      | Ref s \<Rightarrow>
         do { r \<leftarrow> c_find (\<lambda>e. r_used e \<and> r_dest e = dest AND m \<and> r_mask e = m) (routes s) 8 0;
              case r of
                Some i \<Rightarrow> do { e \<leftarrow> c_rd (routes s) i; rs \<leftarrow> c_wr (routes s) i (e\<lparr>r_gateway := gw\<rparr>);
                              Some (IP_OK, Ref (s\<lparr>routes := rs\<rparr>)) }
              | None \<Rightarrow>
                  do { f \<leftarrow> c_find (\<lambda>e. \<not> r_used e) (routes s) 8 0;
                       case f of
                         Some i \<Rightarrow>
                           do { rs \<leftarrow> c_wr (routes s) i
                                  \<lparr>r_dest = dest AND m, r_mask = m, r_gateway = gw, r_iface = 0, r_used = True\<rparr>;
                                Some (IP_OK, Ref (s\<lparr>routes := rs\<rparr>)) }
                       | None \<Rightarrow> Some (IP_ERR_FULL, st) } })"

definition ip_set_callbacks ::
  "'w ipstack_t ptr \<Rightarrow> 'w ipstack_icmp_fn ptr \<Rightarrow> 'w ipstack_port_fn ptr \<Rightarrow> 'w ipstack_port_fn ptr \<Rightarrow>
   'w ipstack_arp_fn ptr \<Rightarrow> 'w ipstack_t ptr" where
  "ip_set_callbacks st icmp tcp udp arp =
     (case st of NULL \<Rightarrow> NULL
      | Ref s \<Rightarrow> Ref (s\<lparr>icmp_cb := icmp, tcp_cb := tcp, udp_cb := udp, arp_cb := arp\<rparr>))"

definition ip_route ::
  "'w ipstack_t ptr \<Rightarrow> ipv4_addr_t \<Rightarrow> ipv4_addr_t ptr \<Rightarrow> (ipstack_status_t \<times> ipv4_addr_t ptr) comp" where
  "ip_route st dst_ip next_hop =
     (case (st, next_hop) of
        (Ref s, Ref h) \<Rightarrow>
          if \<not> initialized s then Some (IP_ERR_NOT_READY, next_hop)
          else do { (rc, h') \<leftarrow> ip_route_lookup s dst_ip h; Some (rc, Ref h') }
      | _ \<Rightarrow> Some (IP_ERR_PARAM, next_hop))"

definition copy_mac :: "u8 list \<Rightarrow> u8 list \<Rightarrow> u8 list comp" where
  "copy_mac out m = c_for 0 6 (\<lambda>i out. do { v \<leftarrow> c_rd m i; c_wr out i v }) out"

definition ip_arp_resolve ::
  "'w \<Rightarrow> 'w ipstack_t ptr \<Rightarrow> ipv4_addr_t \<Rightarrow> u8 list ptr \<Rightarrow> (ipstack_status_t \<times> 'w ipstack_t ptr \<times> u8 list ptr \<times> 'w) comp" where
  "ip_arp_resolve w st ip out_mac =
     (case (st, out_mac) of
        (Ref s, Ref out) \<Rightarrow>
          if \<not> initialized s then Some (IP_ERR_NOT_READY, st, out_mac, w)
          else if ip = local_ip s then do { out \<leftarrow> copy_mac out (local_mac s); Some (IP_OK, st, Ref out, w) }
          else do {
            entry \<leftarrow> ip_arp_lookup s ip;
            case entry of
              Ref i \<Rightarrow> do { e \<leftarrow> c_rd (arp_cache s) i; out \<leftarrow> copy_mac out (a_mac e); Some (IP_OK, st, Ref out, w) }
            | NULL \<Rightarrow>
                do { (rc, s', w') \<leftarrow> ip_arp_send_request w s ip;
                     Some (if rc \<noteq> IP_OK then IP_ERR_NO_ROUTE else IP_ERR_PENDING, Ref s', out_mac, w') } }
      | _ \<Rightarrow> Some (IP_ERR_PARAM, st, out_mac, w))"

text \<open>The MAC address of the next hop, or the status that ends \<open>ip_send\<close>.\<close>

definition ip_next_mac ::
  "'w \<Rightarrow> 'w ipstack_t \<Rightarrow> ipv4_addr_t \<Rightarrow> ((ipstack_status_t + u8 list) \<times> 'w ipstack_t \<times> 'w) comp" where
  "ip_next_mac w st dst_ip =
     (if dst_ip = IP_BROADCAST
      then do { m \<leftarrow> c_for 0 6 (\<lambda>i m. c_wr m i 0xFF) (replicate 6 0); Some (Inr m, st, w) }
      else do {
        (rc, next_hop) \<leftarrow> ip_route_lookup st dst_ip 0;
        if rc \<noteq> IP_OK then Some (Inl rc, st, w)
        else do {
          (rc, p, m, w') \<leftarrow> ip_arp_resolve w (Ref st) next_hop (Ref (replicate 6 0));
          case (p, m) of
            (Ref st', Ref m) \<Rightarrow>
              Some (if rc = IP_ERR_PENDING then Inl IP_ERR_PENDING
                    else if rc \<noteq> IP_OK then Inl IP_ERR_NO_ROUTE else Inr m, st', w')
          | _ \<Rightarrow> None } })"

definition ip_header :: "u8 list \<Rightarrow> u32 \<Rightarrow> u16 \<Rightarrow> u8 \<Rightarrow> ipv4_addr_t \<Rightarrow> ipv4_addr_t \<Rightarrow> u8 list comp" where
  "ip_header f tot ident proto src dst =
     do { f \<leftarrow> c_wr f (14 + 0) 0x45;
          f \<leftarrow> c_wr f (14 + 1) 0;
          f \<leftarrow> st16 f (14 + 2) (ow_bswap16 (ucast tot));
          f \<leftarrow> st16 f (14 + 4) (ow_bswap16 ident);
          f \<leftarrow> st16 f (14 + 6) 0;
          f \<leftarrow> c_wr f (14 + 8) 64;
          f \<leftarrow> c_wr f (14 + 9) proto;
          f \<leftarrow> st16 f (14 + 10) 0;
          f \<leftarrow> st32 f (14 + 12) src;
          st32 f (14 + 16) dst }"

definition ip_send ::
  "'w \<Rightarrow> 'w ipstack_t ptr \<Rightarrow> ipv4_addr_t \<Rightarrow> u8 \<Rightarrow> u8 list ptr \<Rightarrow> u32 \<Rightarrow> (ipstack_status_t \<times> 'w ipstack_t ptr \<times> 'w) comp" where
  "ip_send w st dst_ip proto payload len =
     (case st of NULL \<Rightarrow> Some (IP_ERR_PARAM, st, w)
      | Ref s \<Rightarrow>
         if payload = NULL \<and> len \<noteq> 0 then Some (IP_ERR_PARAM, st, w)
         else if \<not> initialized s then Some (IP_ERR_NOT_READY, st, w)
         else if len > 1536 - 14 - 20 then Some (IP_ERR_PARAM, st, w)
         else do {
           (hop, s, w) \<leftarrow> ip_next_mac w s dst_ip;
           case hop of Inl rc \<Rightarrow> Some (rc, Ref s, w)
           | Inr next_mac \<Rightarrow>
              do { f \<leftarrow> eth_header (tx_scratch s) next_mac (local_mac s) ETH_TYPE_IP;
                   let tot = 20 + len;
                   f \<leftarrow> ip_header f tot (next_id s) proto (local_ip s) dst_ip;
                   f \<leftarrow> (if len \<noteq> 0 then (case payload of NULL \<Rightarrow> None | Ref p \<Rightarrow> c_memcpy f 34 p (unat len)) else Some f);
                   csum \<leftarrow> ip_checksum (drop 14 f) 20;
                   f \<leftarrow> st16 f (14 + 10) (ow_bswap16 csum);
                   case link_tx s of NULL \<Rightarrow> None
                   | Ref tx \<Rightarrow>
                      (let (rc, w') = tx w f (14 + tot)
                       in Some (rc, Ref (s\<lparr>tx_scratch := f, next_id := next_id s + 1\<rparr>), w')) } })"

definition ip_recv ::
  "'w \<Rightarrow> 'w ipstack_t ptr \<Rightarrow> u8 list ptr \<Rightarrow> u32 \<Rightarrow> (ipstack_status_t \<times> 'w ipstack_t ptr \<times> 'w) comp" where
  "ip_recv w st frame len =
     (case (st, frame) of
        (Ref s, Ref f) \<Rightarrow>
          if \<not> initialized s then Some (IP_ERR_NOT_READY, st, w)
          else if len < 14 then Some (IP_ERR_BAD_PACKET, st, w)
          else do {
            ethertype \<leftarrow> rd_be16 f 12;
            if ethertype = ETH_TYPE_ARP then
              do { (rc, s', w') \<leftarrow> ip_handle_arp w s (drop 14 f) (len - 14); Some (rc, Ref s', w') }
            else if ethertype = ETH_TYPE_IP then
              do { (rc, w') \<leftarrow> ip_handle_ip w s (drop 14 f) (len - 14); Some (rc, st, w') }
            else Some (IP_ERR_DROP, st, w) }
      | _ \<Rightarrow> Some (IP_ERR_PARAM, st, w))"

section \<open>Frames\<close>

lemma ucast_and_255: "(ucast ((v :: u16) AND 0xFF) :: u8) = ucast v"
  by (rule bit_word_eqI) (simp add: and_255 bit_simps)

lemma patch_pair:
  "length xs = a \<Longrightarrow> a + length ys \<le> length f \<Longrightarrow> patch (patch f 0 xs) a ys = xs @ ys @ drop (a + length ys) f"
  by (simp add: patch_def add.commute)

lemma eth_header_eq:
  assumes "length dmac = 6" and "length smac = 6" and "14 \<le> length frame"
  shows "eth_header frame dmac smac t = Some ((dmac @ smac @ be16 t) @ drop 14 frame)"
proof -
  have 1: "c_for 0 6 (\<lambda>i f. do { d \<leftarrow> c_rd dmac i; f \<leftarrow> c_wr f i d; s \<leftarrow> c_rd smac i; c_wr f (6 + i) s }) frame =
      Some ((dmac @ smac) @ drop 12 frame)"
    using c_for_copy2 [of 6 dmac smac 0 6 frame] patch_pair [of dmac 6 smac frame] assms by simp
  have 2: "c_wr ((dmac @ smac) @ drop 12 frame) 12 x = Some ((dmac @ smac @ [x]) @ drop 13 frame)" for x
    using c_wr_next [of "dmac @ smac" 12 "drop 12 frame" x] assms by simp
  have 3: "c_wr ((dmac @ smac @ [x]) @ drop 13 frame) 13 y = Some ((dmac @ smac @ [x, y]) @ drop 14 frame)" for x y
    using c_wr_next [of "dmac @ smac @ [x]" 13 "drop 13 frame" y] assms by simp
  show ?thesis unfolding eth_header_def 1 bind.bind_lunit 2 3 by (simp add: be16_def ucast_and_255)
qed

text \<open>The IP header that the stack writes.\<close>

definition ip_hdr :: "u16 \<Rightarrow> u16 \<Rightarrow> u8 \<Rightarrow> u16 \<Rightarrow> ipv4_addr_t \<Rightarrow> ipv4_addr_t \<Rightarrow> u8 list" where
  "ip_hdr tot ident proto csum src dst =
     [0x45, 0] @ be16 tot @ be16 ident @ be16 0 @ [64, proto] @ be16 csum @ addr_bytes src @ addr_bytes dst"

lemma length_ip_hdr [simp]: "length (ip_hdr tot ident proto csum src dst) = 20"
  by (simp add: ip_hdr_def)

lemma ip_header_eq:
  assumes "length p = 14" and "20 \<le> length rest"
  shows "ip_header (p @ rest) tot ident proto src dst =
     Some ((p @ ip_hdr (ucast tot) ident proto 0 src dst) @ drop 20 rest)"
proof -
  have "rest \<noteq> []" using assms(2) by auto
  then show ?thesis unfolding ip_header_def
    using assms by (simp add: c_wr_next st16_next st16_next0 st32_addr del: c_wr_in append_assoc) (simp add: ip_hdr_def)
qed

lemma ip_hdr_put:
  assumes "length p = 14"
  shows "st16 ((p @ ip_hdr tot ident proto 0 src dst) @ rest) 24 (ow_bswap16 c) =
     Some ((p @ ip_hdr tot ident proto c src dst) @ rest)"
proof -
  let ?h = "p @ [0x45, 0] @ be16 tot @ be16 ident @ be16 0 @ [64, proto]"
  have "st16 (?h @ be16 0 @ addr_bytes src @ addr_bytes dst @ rest) 24 (ow_bswap16 c) =
      Some ((?h @ be16 c) @ addr_bytes src @ addr_bytes dst @ rest)"
    using st16_next [of ?h 24 "be16 0 @ addr_bytes src @ addr_bytes dst @ rest" c] assms by simp
  then show ?thesis by (simp add: ip_hdr_def)
qed

section \<open>The checksum of the header\<close>

lemma ip_checksum_eq:
  assumes "unat len \<le> length seg" and "unat len \<le> 65535"
  obtains s where "ip_checksum seg len = Some (ucast (NOT (fold_loop s)))" and "unat s = bsum (take (unat len) seg)"
proof -
  have "bsum (take (unat len) seg) \<le> 65535 * ((unat len + 1) div 2)" using bsum_bound [of "take (unat len) seg"] assms(1) by simp
  also have "\<dots> \<le> 65535 * 32768" using assms(2) by (intro mult_le_mono2) simp
  finally have "\<exists>t. sum_loop seg (unat len) 0 0 = Some t \<and> unat t = unat (0 :: u32) + bsum (drop 0 (take (unat len) seg))"
    using assms(1) by (intro sum_loop_eq) simp_all
  then show ?thesis using that by (auto simp: ip_checksum_def)
qed

text \<open>The header checksum: computed over the header with a zero checksum field.\<close>

definition ip_csum :: "u16 \<Rightarrow> u16 \<Rightarrow> u8 \<Rightarrow> ipv4_addr_t \<Rightarrow> ipv4_addr_t \<Rightarrow> u16" where
  "ip_csum tot ident proto src dst = the (ip_checksum (ip_hdr tot ident proto 0 src dst) 20)"

lemma ip_checksum_take:
  "unat len \<le> length seg \<Longrightarrow> ip_checksum (take (unat len) seg) len = ip_checksum seg len"
  by (simp add: ip_checksum_def sum_loop_take)

lemma ip_checksum_hdr:
  "ip_checksum (ip_hdr tot ident proto 0 src dst @ rest) 20 = Some (ip_csum tot ident proto src dst)"
  "ip_checksum (ip_hdr tot ident proto (ip_csum tot ident proto src dst) src dst @ rest) 20 = Some 0"
proof -
  let ?h = "\<lambda>c. ip_hdr tot ident proto c src dst" and ?c = "ip_csum tot ident proto src dst"
  obtain s where s: "ip_checksum (?h 0) 20 = Some (ucast (NOT (fold_loop s)))" "unat s = bsum (?h 0)"
    by (rule ip_checksum_eq [of 20 "?h 0"]) simp_all
  have "ip_checksum (?h 0 @ rest) 20 = ip_checksum (?h 0) 20"
    using ip_checksum_take [of 20 "?h 0 @ rest"] by simp
  then show "ip_checksum (?h 0 @ rest) 20 = Some ?c" using s(1) by (simp add: ip_csum_def)
  have c: "?c = ucast (NOT (fold_loop s))" using s(1) by (simp add: ip_csum_def)
  let ?pre = "[0x45, 0] @ be16 tot @ be16 ident @ be16 0 @ [64, proto]"
  have "put (?h 0) 10 (be16 x) = ?h x" for x
    using put_next [of ?pre 10 "be16 0 @ addr_bytes src @ addr_bytes dst" "be16 x"] by (simp add: ip_hdr_def)
  moreover have "take 2 (drop 10 (?h 0)) = [0, 0]" by (simp add: ip_hdr_def be16_0)
  ultimately have sum: "bsum (?h x) = bsum (?h 0) + unat x" for x
    using bsum_put_be16 [of 10 "?h 0" x] by simp
  have "0 < bsum (?h ?c)" by (simp add: ip_hdr_def)
  moreover have "bsum (?h ?c) mod 65535 = 0"
    using complement_completes [of s] unfolding sum [of ?c] unfolding s(2) c .
  moreover obtain t where "ip_checksum (?h ?c @ rest) 20 = Some (ucast (NOT (fold_loop t)))" "unat t = bsum (?h ?c)"
    by (rule ip_checksum_eq [of 20 "?h ?c @ rest"]) simp_all
  ultimately show "ip_checksum (?h ?c @ rest) 20 = Some 0" using complement_zero by simp
qed

section \<open>Invariant\<close>

definition arp_ok :: "ip_arp_entry_t list \<Rightarrow> bool" where
  "arp_ok es \<longleftrightarrow> length es = 16 \<and> (\<forall>e \<in> set es. length (a_mac e) = 6 \<and> a_age e = 0) \<and>
     (\<forall>i < 16. \<forall>j < 16. a_valid (es ! i) \<longrightarrow> a_valid (es ! j) \<longrightarrow> a_ip (es ! i) = a_ip (es ! j) \<longrightarrow> i = j)"

definition routes_ok :: "ip_route_entry_t list \<Rightarrow> bool" where
  "routes_ok rs \<longleftrightarrow> length rs = 8 \<and> (\<forall>e \<in> set rs. r_dest e AND r_mask e = r_dest e) \<and>
     (\<forall>i < 8. \<forall>j < 8. r_used (rs ! i) \<longrightarrow> r_used (rs ! j) \<longrightarrow>
        r_dest (rs ! i) = r_dest (rs ! j) \<longrightarrow> r_mask (rs ! i) = r_mask (rs ! j) \<longrightarrow> i = j)"

definition ip_ok :: "'w ipstack_t \<Rightarrow> bool" where
  "ip_ok st \<longleftrightarrow> initialized st \<and> link_tx st \<noteq> NULL \<and> length (local_mac st) = 6 \<and>
     length (tx_scratch st) = 1536 \<and> routes_ok (routes st) \<and> arp_ok (arp_cache st)"

lemma ip_okD:
  assumes "ip_ok st"
  shows "initialized st" and "link_tx st \<noteq> NULL" and "length (local_mac st) = 6" and "length (tx_scratch st) = 1536"
    and "routes_ok (routes st)" and "arp_ok (arp_cache st)"
    and "length (routes st) = 8" and "length (arp_cache st) = 16"
    and "i < 16 \<Longrightarrow> length (a_mac (arp_cache st ! i)) = 6"
  using assms nth_mem [of i "arp_cache st"] by (auto simp: ip_ok_def routes_ok_def arp_ok_def)

section \<open>Sending\<close>

definition ip_frame :: "u8 list \<Rightarrow> u8 list \<Rightarrow> u16 \<Rightarrow> u8 \<Rightarrow> ipv4_addr_t \<Rightarrow> ipv4_addr_t \<Rightarrow> u8 list \<Rightarrow> u8 list" where
  "ip_frame dmac smac ident proto src dst p =
     (let tot = of_nat (20 + length p)
      in (dmac @ smac @ be16 ETH_TYPE_IP) @ ip_hdr tot ident proto (ip_csum tot ident proto src dst) src dst @ p)"

lemma length_ip_frame:
  "length dmac = 6 \<Longrightarrow> length smac = 6 \<Longrightarrow> length (ip_frame dmac smac ident proto src dst p) = 34 + length p"
  by (simp add: ip_frame_def Let_def)

lemma ip_copy_payload:
  assumes "length p \<le> 1502" and "34 + length p \<le> length f"
  shows "(if (of_nat (length p) :: u32) \<noteq> 0
           then (case Ref p of NULL \<Rightarrow> None | Ref q \<Rightarrow> c_memcpy f 34 q (unat (of_nat (length p) :: u32))) else Some f) =
     c_memcpy f 34 p (length p)"
proof -
  have u: "unat (of_nat (length p) :: u32) = length p" using assms(1) by (intro unat_of_nat_u32) simp
  show ?thesis
  proof (cases "p = []")
    case False
    then have "(of_nat (length p) :: u32) \<noteq> 0" using u by (metis length_0_conv unat_0)
    then show ?thesis by (simp add: u)
  qed (use assms(2) in \<open>simp add: c_memcpy_def\<close>)
qed

lemma ip_send_frame:
  assumes "ip_ok st" and "link_tx st = Ref tx" and "length p \<le> 1502"
    and "ip_next_mac w st dst = Some (Inr m, st', w')" and "ip_ok st'" and "link_tx st' = Ref tx" and "length m = 6"
  obtains junk where
    "ip_send w (Ref st) dst proto (Ref p) (of_nat (length p)) =
       (let f = ip_frame m (local_mac st') (next_id st') proto (local_ip st') dst p @ junk;
            r = tx w' f (of_nat (34 + length p))
        in Some (fst r, Ref (st'\<lparr>tx_scratch := f, next_id := next_id st' + 1\<rparr>), snd r))"
    and "length junk = 1502 - length p"
proof -
  let ?n = "of_nat (length p) :: u32"
  have n: "unat ?n = length p" using assms(3) by (intro unat_of_nat_u32) simp
  have le: "\<not> ?n > 1536 - 14 - 20" using n assms(3) by (simp add: word_less_nat_alt)
  have tot: "(ucast (20 + ?n) :: u16) = of_nat (20 + length p)"
  proof -
    have "20 + ?n = of_nat (20 + length p)" by simp
    then show ?thesis using assms(3) by (simp only: unsigned_of_nat) (simp add: take_bit_nat_eq_self)
  qed
  let ?e = "m @ local_mac st' @ be16 ETH_TYPE_IP" and ?s = "tx_scratch st'"
  have e: "eth_header ?s m (local_mac st') ETH_TYPE_IP = Some (?e @ drop 14 ?s)"
    using assms(5,7) by (intro eth_header_eq) (simp_all add: ip_okD)
  have le14: "length ?e = 14" using assms(5,7) by (simp add: ip_okD)
  let ?h = "\<lambda>c. ip_hdr (of_nat (20 + length p)) (next_id st') proto c (local_ip st') dst"
  have h: "ip_header (?e @ drop 14 ?s) (20 + ?n) (next_id st') proto (local_ip st') dst = Some ((?e @ ?h 0) @ drop 34 ?s)"
    using ip_header_eq [OF le14, of "drop 14 ?s" "20 + ?n" "next_id st'" proto "local_ip st'" dst] assms(5)
    unfolding tot by (simp add: ip_okD)
  let ?junk = "drop (34 + length p) ?s"
  have len: "length ?s = 1536" using assms(5) by (rule ip_okD)
  have c: "c_memcpy ((?e @ ?h 0) @ drop 34 ?s) 34 p (length p) = Some ((?e @ ?h 0) @ p @ ?junk)"
    using memcpy_next [of "?e @ ?h 0" 34 p "drop 34 ?s"] le14 assms(3) len by (simp add: add.commute)
  have k: "ip_checksum (drop 14 ((?e @ ?h 0) @ p @ ?junk)) 20 = Some (ip_csum (of_nat (20 + length p)) (next_id st') proto (local_ip st') dst)"
    using ip_checksum_hdr(1) le14 by simp
  have copy: "(if ?n \<noteq> 0 then (case Ref p of NULL \<Rightarrow> None | Ref p \<Rightarrow> c_memcpy ((?e @ ?h 0) @ drop 34 ?s) 34 p (unat ?n))
       else Some ((?e @ ?h 0) @ drop 34 ?s)) = Some ((?e @ ?h 0) @ p @ ?junk)"
    unfolding c [symmetric] by (rule ip_copy_payload) (use assms(3) le14 len in simp_all)
  have put: "st16 ((?e @ ?h 0) @ p @ ?junk) (14 + 10) (ow_bswap16 x) = Some ((?e @ ?h x) @ p @ ?junk)" for x
    using ip_hdr_put [OF le14] by simp
  have fr: "(?e @ ?h (ip_csum (of_nat (20 + length p)) (next_id st') proto (local_ip st') dst)) @ p @ ?junk =
      ip_frame m (local_mac st') (next_id st') proto (local_ip st') dst p @ ?junk"
    by (simp add: ip_frame_def Let_def)
  have n34: "14 + (20 + ?n) = of_nat (34 + length p)" by simp
  have ini: "(\<not> initialized st) = False" using assms(1) by (simp add: ip_okD)
  show ?thesis
  proof (rule that)
    show "ip_send w (Ref st) dst proto (Ref p) ?n =
       (let f = ip_frame m (local_mac st') (next_id st') proto (local_ip st') dst p @ ?junk;
            r = tx w' f (of_nat (34 + length p))
        in Some (fst r, Ref (st'\<lparr>tx_scratch := f, next_id := next_id st' + 1\<rparr>), snd r))"
      unfolding ip_send_def ptr.case
      by (simp only: ptr.distinct simp_thms ini le if_False assms(4,6) bind.bind_lunit prod.case sum.case e h
          copy [unfolded ptr.case] k put fr n34 Let_def ptr.case case_prod_beta fst_conv snd_conv)
    show "length ?junk = 1502 - length p" using len by simp
  qed
qed

section \<open>Receiving\<close>

text \<open>
  What the protocols above are told of a datagram with \<open>n\<close> bytes of payload at the start of
  \<open>buf\<close>.
\<close>

definition port_at :: "u8 list \<Rightarrow> nat \<Rightarrow> u16" where
  "port_at buf i = push_bit 8 (ucast (buf ! i)) OR ucast (buf ! (i + 1))"

definition ip_upcall ::
  "'w ipstack_t \<Rightarrow> ipv4_addr_t \<Rightarrow> ipv4_addr_t \<Rightarrow> u8 \<Rightarrow> u8 list \<Rightarrow> nat \<Rightarrow> 'w \<Rightarrow> ipstack_status_t \<times> 'w" where
  "ip_upcall st src dst proto buf n w =
     (if proto = IP_PROTO_ICMP then
        if n < 8 then (IP_ERR_BAD_PACKET, w)
        else (IP_OK, case icmp_cb st of NULL \<Rightarrow> w | Ref f \<Rightarrow> f w src (buf ! 0) (buf ! 1) (drop 8 buf) (of_nat (n - 8)))
      else if proto = IP_PROTO_TCP then
        if n < 20 then (IP_ERR_BAD_PACKET, w)
        else (IP_OK, case tcp_cb st of NULL \<Rightarrow> w | Ref f \<Rightarrow> f w src (port_at buf 0) dst (port_at buf 2) buf (of_nat n))
      else if proto = IP_PROTO_UDP then
        if n < 8 then (IP_ERR_BAD_PACKET, w)
        else (IP_OK, case udp_cb st of NULL \<Rightarrow> w | Ref f \<Rightarrow> f w src (port_at buf 0) dst (port_at buf 2) (drop 8 buf) (of_nat (n - 8)))
      else (IP_ERR_DROP, w))"

lemma rd_be16_port: "off + 1 < length buf \<Longrightarrow> rd_be16 buf off = Some (port_at buf off)"
  by (simp add: rd_be16_def port_at_def)

lemma rd_be16_port_shift:
  "length h = k \<Longrightarrow> off + 1 < length buf \<Longrightarrow> rd_be16 (h @ buf) (k + off) = Some (port_at buf off)"
  using rd_be16_port [of "k + off" "h @ buf"] by (simp add: port_at_def nth_append)

lemma ip_dispatch_eq:
  assumes "length h = unat hl" and "n \<le> length buf" and "n < 2 ^ 16" and "unat len = n"
  shows "ip_dispatch w st src dst proto (h @ buf) hl len = Some (ip_upcall st src dst proto buf n w)"
proof -
  have lt: "len < 8 \<longleftrightarrow> n < 8" "len < 20 \<longleftrightarrow> n < 20" using assms(4) by (simp_all add: word_less_nat_alt)
  have len: "len = of_nat n" by (simp add: assms(4) [symmetric])
  have sub: "of_nat n - 8 = (of_nat (n - 8) :: u32)" if "8 \<le> n" using that by (simp add: of_nat_diff)
  have rd: "c_rd (h @ buf) (unat hl) = Some (buf ! 0)" "c_rd (h @ buf) (unat hl + 1) = Some (buf ! 1)" if "8 \<le> n"
  proof -
    have "length buf > 1" "buf \<noteq> []" using that assms(2) by auto
    then show "c_rd (h @ buf) (unat hl) = Some (buf ! 0)" "c_rd (h @ buf) (unat hl + 1) = Some (buf ! 1)"
      using assms(1) by (simp_all add: c_rd_def nth_append)
  qed
  have ports: "rd_be16 (h @ buf) (unat hl) = Some (port_at buf 0)" "rd_be16 (h @ buf) (unat hl + 2) = Some (port_at buf 2)"
    if "8 \<le> n"
    using that assms(1,2) rd_be16_port_shift [of h "unat hl" 0 buf] rd_be16_port_shift [of h "unat hl" 2 buf] by simp_all
  have dr: "drop (unat hl + 8) (h @ buf) = drop 8 buf" "drop (unat hl) (h @ buf) = buf" using assms(1) by simp_all
  show ?thesis
  proof (cases "n < 8")
    case True
    then show ?thesis by (simp add: ip_dispatch_def ip_upcall_def lt)
  next
    case False
    then have "8 \<le> n" by simp
    note facts = rd [OF this] ports [OF this] sub [OF this] dr
    show ?thesis
      using False unfolding ip_dispatch_def ip_upcall_def ip_dispatch_ports_def lt unfolding len
      by (cases "icmp_cb st"; cases "tcp_cb st"; cases "udp_cb st") (simp_all only: facts if_False ptr.case bind.bind_lunit add_0_right split: if_split, auto)
  qed
qed

lemma low_nibble: "(ucast ((v :: u8) AND 0x0F) :: u32) = ucast (take_bit 4 v)"
proof -
  have "(0x0F :: u8) = mask 4" by (simp add: mask_eq_exp_minus_1)
  then show ?thesis by (simp only: take_bit_eq_mask)
qed

lemma ip_handle_ip_hdr:
  assumes "length p \<le> 1502" and "unat len = 20 + length p + length pad"
    and "dst = local_ip st \<or> dst = IP_BROADCAST" and "tot = of_nat (20 + length p)"
  shows "ip_handle_ip w st (ip_hdr tot ident proto (ip_csum tot ident proto src dst) src dst @ p @ pad) len =
     Some (ip_upcall st src dst proto (p @ pad) (length p) w)"
proof -
  let ?c = "ip_csum tot ident proto src dst" and ?rest = "p @ pad"
  let ?b = "ip_hdr tot ident proto ?c src dst @ ?rest"
  let ?h0 = "[0x45, 0] :: u8 list"
  have b: "?b = ?h0 @ be16 tot @ be16 ident @ be16 0 @ [64, proto] @ be16 ?c @ addr_bytes src @ addr_bytes dst @ ?rest"
    by (simp add: ip_hdr_def)
  have 0: "c_rd ?b 0 = Some 0x45" unfolding b by (simp add: c_rd_def)
  have 2: "ld16 ?b 2 = Some (ow_bswap16 tot)" unfolding b by (rule ld16_at) simp
  have 6: "ld16 ?b 6 = Some (ow_bswap16 0)"
    unfolding b using ld16_at [of "?h0 @ be16 tot @ be16 ident" 6 0] by simp
  have 9: "c_rd ?b 9 = Some proto"
    unfolding b using c_rd_at [of "?h0 @ be16 tot @ be16 ident @ be16 0 @ [64]" 9 proto] by simp
  have 12: "ld32 ?b 12 = Some src"
    unfolding b using ld32_addr [of "?h0 @ be16 tot @ be16 ident @ be16 0 @ [64, proto] @ be16 ?c" 12 src] by simp
  have 16: "ld32 ?b 16 = Some dst"
    unfolding b using ld32_addr [of "?h0 @ be16 tot @ be16 ident @ be16 0 @ [64, proto] @ be16 ?c @ addr_bytes src" 16 dst] by simp
  have tot: "unat (ucast tot :: u32) = 20 + length p"
    using assms(1,4) by (subst unat_ucast_up) (simp_all add: unat_of_nat del: of_nat_add)
  have rng: "\<not> len < 20" "\<not> (ucast tot :: u32) < 20" "\<not> (ucast tot :: u32) > len" "\<not> (20 :: u32) > len"
    using tot assms(2) by (simp_all add: word_less_nat_alt)
  have pl: "unat ((ucast tot :: u32) - 20) = length p"
    using rng(2) tot unat_sub_le [of 20 "ucast tot :: u32"] by (simp add: not_less)
  have d: "ip_dispatch w st src dst proto ?b 20 (ucast tot - 20) = Some (ip_upcall st src dst proto (p @ pad) (length p) w)"
    using assms(1) pl by (intro ip_dispatch_eq) simp_all
  have ihl: "(ucast (0x45 AND 0x0F :: u8) :: u32) = 5" "drop_bit 4 (0x45 :: u8) = 4" by simp_all
  show ?thesis
    unfolding ip_handle_ip_def 0 bind.bind_lunit ihl Let_def
    using rng assms(3) by (auto simp: 2 6 9 12 16 bswap16_id bswap16_0 ip_checksum_hdr(2) d)
qed

lemma ip_recv_frame:
  assumes "ip_ok st" and "length dmac = 6" and "length smac = 6" and "length p \<le> 1502"
    and "unat len = 34 + length p + length pad" and "dst = local_ip st \<or> dst = IP_BROADCAST"
  shows "ip_recv w (Ref st) (Ref (ip_frame dmac smac ident proto src dst p @ pad)) len =
     (let r = ip_upcall st src dst proto (p @ pad) (length p) w in Some (fst r, Ref st, snd r))"
proof -
  let ?e = "dmac @ smac" and ?tot = "of_nat (20 + length p) :: u16"
  let ?f = "ip_frame dmac smac ident proto src dst p @ pad"
  have f: "?f = ?e @ be16 ETH_TYPE_IP @ ip_hdr ?tot ident proto (ip_csum ?tot ident proto src dst) src dst @ p @ pad"
    by (simp add: ip_frame_def Let_def)
  have t: "rd_be16 ?f 12 = Some ETH_TYPE_IP" unfolding f using assms(2,3) by (intro rd_be16_be) simp
  have l: "\<not> len < 14" using assms(5) by (simp add: word_less_nat_alt)
  have sub: "unat (len - 14) = 20 + length p + length pad"
    using unat_sub_le [of 14 len] l assms(5) by (simp add: not_less)
  have "drop 14 ?f = ip_hdr ?tot ident proto (ip_csum ?tot ident proto src dst) src dst @ p @ pad"
    unfolding f using assms(2,3) by simp
  then have h: "ip_handle_ip w st (drop 14 ?f) (len - 14) = Some (ip_upcall st src dst proto (p @ pad) (length p) w)"
    using ip_handle_ip_hdr [OF assms(4) sub assms(6) refl] by simp
  show ?thesis
    unfolding ip_recv_def ptr.case prod.case t using assms(1) l h
    by (simp add: ip_okD Let_def case_prod_beta)
qed

section \<open>ARP\<close>

definition arp_packet :: "u16 \<Rightarrow> u8 list \<Rightarrow> ipv4_addr_t \<Rightarrow> u8 list \<Rightarrow> ipv4_addr_t \<Rightarrow> u8 list" where
  "arp_packet oper sha spa tha tpa =
     be16 1 @ be16 ETH_TYPE_IP @ [6, 4] @ be16 oper @ sha @ addr_bytes spa @ tha @ addr_bytes tpa"

definition arp_frame :: "u16 \<Rightarrow> u8 list \<Rightarrow> ipv4_addr_t \<Rightarrow> u8 list \<Rightarrow> ipv4_addr_t \<Rightarrow> u8 list" where
  "arp_frame oper sha spa tha tpa = (tha @ sha @ be16 ETH_TYPE_ARP) @ arp_packet oper sha spa tha tpa"

lemma length_arp_frame [simp]: "length sha = 6 \<Longrightarrow> length tha = 6 \<Longrightarrow> length (arp_frame oper sha spa tha tpa) = 42"
  by (simp add: arp_frame_def arp_packet_def)

lemma patch_two_macs:
  assumes "length P = 22" and "length xs = 6" and "length ys = 6" and "16 \<le> length R"
  shows "patch (patch (P @ R) 22 xs) 32 ys = (P @ xs) @ (take 4 (drop 6 R) @ ys @ drop 16 R)"
  using assms by (simp add: patch_def)

lemma ip_arp_transmit_eq:
  assumes "ip_ok st" and "link_tx st = Ref tx" and "length dmac = 6"
  obtains junk where
    "ip_arp_transmit w st oper dmac target =
       (let f = arp_frame oper (local_mac st) (local_ip st) dmac target @ junk; r = tx w f 42
        in Some (fst r, st\<lparr>tx_scratch := f\<rparr>, snd r))"
    and "length junk = 1494"
proof -
  let ?s = "tx_scratch st" and ?m = "local_mac st"
  let ?e = "dmac @ ?m @ be16 ETH_TYPE_ARP" and ?fix = "be16 1 @ be16 ETH_TYPE_IP @ [6, 4] @ be16 oper"
  have len: "length ?s = 1536" "length ?m = 6" using assms(1) by (simp_all add: ip_okD)
  have le14: "length ?e = 14" using assms(3) len by simp
  have e: "eth_header ?s dmac ?m ETH_TYPE_ARP = Some (?e @ drop 14 ?s)"
    using assms(3) len by (intro eth_header_eq) simp_all
  have h: "do { f \<leftarrow> st16 (?e @ drop 14 ?s) (14 + 0) (ow_bswap16 1); f \<leftarrow> st16 f (14 + 2) (ow_bswap16 ETH_TYPE_IP);
        f \<leftarrow> c_wr f (14 + 4) 6; f \<leftarrow> c_wr f (14 + 5) 4; st16 f (14 + 6) (ow_bswap16 oper) } = Some ((?e @ ?fix) @ drop 22 ?s)"
    using le14 len by (simp add: c_wr_next st16_next del: c_wr_in append_assoc)
  have loop: "c_for 0 6 (\<lambda>i f. do { s \<leftarrow> c_rd ?m i; f \<leftarrow> c_wr f (14 + 8 + i) s; d \<leftarrow> c_rd dmac i; c_wr f (14 + 18 + i) d })
       ((?e @ ?fix) @ drop 22 ?s) = Some (((?e @ ?fix) @ ?m) @ (take 4 (drop 28 ?s) @ dmac @ drop 38 ?s))"
    using c_for_copy2 [of 6 ?m dmac 22 32 "(?e @ ?fix) @ drop 22 ?s"]
      patch_two_macs [of "?e @ ?fix" ?m dmac "drop 22 ?s"] le14 len assms(3) by simp
  have a1: "st32 (((?e @ ?fix) @ ?m) @ (take 4 (drop 28 ?s) @ dmac @ drop 38 ?s)) (14 + 14) (local_ip st) =
      Some (((?e @ ?fix) @ ?m @ addr_bytes (local_ip st) @ dmac) @ drop 38 ?s)"
    using st32_addr [of "(?e @ ?fix) @ ?m" 28 "take 4 (drop 28 ?s) @ dmac @ drop 38 ?s" "local_ip st"] le14 len by simp
  have a2: "st32 (((?e @ ?fix) @ ?m @ addr_bytes (local_ip st) @ dmac) @ drop 38 ?s) (14 + 24) target =
      Some (arp_frame oper ?m (local_ip st) dmac target @ drop 42 ?s)"
    using st32_addr [of "(?e @ ?fix) @ ?m @ addr_bytes (local_ip st) @ dmac" 38 "drop 38 ?s" target] le14 len assms(3)
    by (simp add: arp_frame_def arp_packet_def)
  show ?thesis
  proof (rule that)
    show "ip_arp_transmit w st oper dmac target =
       (let f = arp_frame oper ?m (local_ip st) dmac target @ drop 42 ?s; r = tx w f 42
        in Some (fst r, st\<lparr>tx_scratch := f\<rparr>, snd r))"
      unfolding ip_arp_transmit_def e bind.bind_lunit
      using h [unfolded bind_assoc] loop a1 a2 assms(2)
      by (auto simp: Let_def case_prod_beta bind_eq_Some_conv)
    show "length (drop 42 ?s) = 1494" using len by simp
  qed
qed

subsection \<open>The cache as a map\<close>

definition arp_map :: "ip_arp_entry_t list \<Rightarrow> ipv4_addr_t \<rightharpoonup> u8 list" where
  "arp_map es ip = map_option (\<lambda>i. a_mac (es ! i)) (first_index (\<lambda>e. a_valid e \<and> a_ip e = ip) es)"

lemma arp_okD:
  assumes "arp_ok es"
  shows "length es = 16" and "i < 16 \<Longrightarrow> length (a_mac (es ! i)) = 6" and "i < 16 \<Longrightarrow> a_age (es ! i) = 0"
    and "i < 16 \<Longrightarrow> j < 16 \<Longrightarrow> a_valid (es ! i) \<Longrightarrow> a_valid (es ! j) \<Longrightarrow> a_ip (es ! i) = a_ip (es ! j) \<Longrightarrow> i = j"
  using assms nth_mem [of i es] unfolding arp_ok_def by (blast, simp, simp, blast)

lemma arp_map_Some:
  assumes "arp_ok es"
  shows "arp_map es ip = Some m \<longleftrightarrow> (\<exists>i < 16. a_valid (es ! i) \<and> a_ip (es ! i) = ip \<and> a_mac (es ! i) = m)"
proof
  show "\<exists>i < 16. a_valid (es ! i) \<and> a_ip (es ! i) = ip \<and> a_mac (es ! i) = m" if "arp_map es ip = Some m"
  proof -
    from that obtain i where i: "first_index (\<lambda>e. a_valid e \<and> a_ip e = ip) es = Some i" "m = a_mac (es ! i)"
      by (auto simp: arp_map_def)
    then show ?thesis using arp_okD(1) [OF assms] first_index_SomeD(1,2) [OF i(1)] by (intro exI [of _ i]) simp
  qed
next
  assume "\<exists>i < 16. a_valid (es ! i) \<and> a_ip (es ! i) = ip \<and> a_mac (es ! i) = m"
  then obtain i where i: "i < 16" "a_valid (es ! i)" "a_ip (es ! i) = ip" "a_mac (es ! i) = m" by blast
  then have "first_index (\<lambda>e. a_valid e \<and> a_ip e = ip) es = Some i"
    using arp_okD(1,4) [OF assms] by (intro first_index_unique) auto
  then show "arp_map es ip = Some m" using i(4) by (simp add: arp_map_def)
qed

text \<open>The slot that a new binding is written to.\<close>

definition arp_slot :: "ip_arp_entry_t list \<Rightarrow> ipv4_addr_t \<Rightarrow> nat" where
  "arp_slot es ip =
     (case first_index (\<lambda>e. a_valid e \<and> a_ip e = ip) es of Some i \<Rightarrow> i
      | None \<Rightarrow> case first_index (\<lambda>e. \<not> a_valid e) es of Some i \<Rightarrow> i | None \<Rightarrow> 15)"

definition arp_binding :: "ipv4_addr_t \<Rightarrow> u8 list \<Rightarrow> ip_arp_entry_t" where
  "arp_binding ip m = \<lparr>a_ip = ip, a_mac = m, a_age = 0, a_valid = True\<rparr>"

lemma arp_binding_simps [simp]:
  "a_ip (arp_binding ip m) = ip" "a_mac (arp_binding ip m) = m" "a_age (arp_binding ip m) = 0" "a_valid (arp_binding ip m)"
  by (simp_all add: arp_binding_def)

lemma arp_slot_less: "arp_ok es \<Longrightarrow> arp_slot es ip < 16"
  using arp_okD(1) [of es] by (auto simp: arp_slot_def split: option.split dest: first_index_SomeD(1))

text \<open>Every age is zero, so the search for the oldest entry ends with the last one.\<close>

lemma arp_victim_last:
  assumes "arp_ok es"
  shows "c_for 0 16 (arp_victim es) (0, 0) = Some (15, 0)"
proof -
  have "c_for 0 16 (arp_victim es) (0 - 1, 0) = Some (16 - 1, 0)"
    by (rule c_for_det [where g = "\<lambda>i. (i - 1, 0)"]) (simp_all add: arp_victim_def arp_okD [OF assms])
  then show ?thesis by simp
qed

lemma arp_entry_eq: "a_ip e = ip \<Longrightarrow> a_mac e = m \<Longrightarrow> a_age e = 0 \<Longrightarrow> a_valid e \<Longrightarrow> e = arp_binding ip m"
  by (simp add: arp_binding_def)

lemma ip_arp_store_eq:
  assumes "ip_ok st" and "length m = 6"
  shows "ip_arp_store st ip m = Some (st\<lparr>arp_cache := (arp_cache st)[arp_slot (arp_cache st) ip := arp_binding ip m]\<rparr>)"
proof -
  let ?es = "arp_cache st"
  have ok: "arp_ok ?es" using assms(1) by (rule ip_okD)
  note len = arp_okD(1) [OF ok] and macs = arp_okD(2) [OF ok] and ages = arp_okD(3) [OF ok]
  have find: "c_find P ?es 16 0 = Some (first_index P ?es)" for P using c_find_eq [of 16 ?es P] len by simp
  have copy: "c_memcpy (a_mac (?es ! i)) 0 m 6 = Some m" if "i < 16" for i
    using macs [OF that] assms(2) by (simp add: c_memcpy_def)
  show ?thesis
  proof (cases "first_index (\<lambda>e. a_valid e \<and> a_ip e = ip) ?es")
    case (Some i)
    then have i: "i < 16" "a_valid (?es ! i)" "a_ip (?es ! i) = ip" using len by (auto dest: first_index_SomeD)
    have "(?es ! i)\<lparr>a_mac := m, a_age := 0\<rparr> = arp_binding ip m" using i by (intro arp_entry_eq) simp_all
    then show ?thesis using Some i(1) len copy by (simp add: ip_arp_store_def find arp_slot_def)
  next
    case None
    show ?thesis
    proof (cases "first_index (\<lambda>e. \<not> a_valid e) ?es")
      case (Some i)
      then have i: "i < 16" using len by (auto dest: first_index_SomeD)
      have new: "(?es ! i)\<lparr>a_ip := ip, a_mac := m, a_age := 0, a_valid := True\<rparr> = arp_binding ip m"
        by (intro arp_entry_eq) simp_all
      have acc: "c_rd ?es i = Some (?es ! i)" "c_wr ?es i e = Some (?es[i := e])" for e using i len by simp_all
      show ?thesis
        unfolding ip_arp_store_def find bind.bind_lunit None Some option.case acc copy [OF i] new arp_slot_def ..
    next
      case full: None
      then have "a_valid (?es ! 15)" using len by (simp add: first_index_None_iff)
      then have "(?es ! 15)\<lparr>a_ip := ip, a_mac := m, a_age := 0\<rparr> = arp_binding ip m"
        by (intro arp_entry_eq) simp_all
      then show ?thesis
        using None full len copy arp_victim_last [OF ok] by (simp add: ip_arp_store_def find arp_slot_def)
    qed
  qed
qed

text \<open>The slot never duplicates an address.\<close>

lemma arp_slot_unique:
  assumes "arp_ok es" and "i < 16" and "a_valid (es ! i)" and "a_ip (es ! i) = ip"
  shows "i = arp_slot es ip"
proof -
  have "first_index (\<lambda>e. a_valid e \<and> a_ip e = ip) es = Some i"
    using arp_okD(1,4) [OF assms(1)] assms(2-) by (intro first_index_unique) auto
  then show ?thesis by (simp add: arp_slot_def)
qed

lemma arp_ok_store:
  assumes "arp_ok es" and "length m = 6"
  shows "arp_ok (es[arp_slot es ip := arp_binding ip m])" (is "arp_ok ?fs")
proof -
  note len = arp_okD(1) [OF assms(1)] and u = arp_okD(4) [OF assms(1)] and s = arp_slot_unique [OF assms(1)]
  have nth: "?fs ! i = (if i = arp_slot es ip then arp_binding ip m else es ! i)" if "i < 16" for i
    using that len by (simp add: nth_list_update)
  have "\<forall>e \<in> set ?fs. length (a_mac e) = 6 \<and> a_age e = 0"
  proof
    fix e assume "e \<in> set ?fs"
    then have "e = arp_binding ip m \<or> e \<in> set es" using set_update_subset_insert [of es] by blast
    then show "length (a_mac e) = 6 \<and> a_age e = 0" using assms by (auto simp: arp_ok_def)
  qed
  moreover have "i = j" if "i < 16" "j < 16" "a_valid (?fs ! i)" "a_valid (?fs ! j)" "a_ip (?fs ! i) = a_ip (?fs ! j)" for i j
  proof (cases "i = arp_slot es ip \<or> j = arp_slot es ip")
    case True
    have s': "\<not> (a_valid (es ! i) \<and> a_ip (es ! i) = ip)" if "i < 16" "i \<noteq> arp_slot es ip" for i
      using s that by blast
    show ?thesis using True that(3-) s' [OF that(1)] s' [OF that(2)] unfolding nth [OF that(1)] nth [OF that(2)]
      by (cases "i = arp_slot es ip"; cases "j = arp_slot es ip") simp_all
  next
    case False
    then show ?thesis using that(3-) unfolding nth [OF that(1)] nth [OF that(2)] by (intro u that(1,2)) simp_all
  qed
  ultimately show ?thesis using len unfolding arp_ok_def by simp
qed

lemma arp_map_store:
  assumes "arp_ok es" and "length m = 6"
  shows "arp_map (es[arp_slot es ip := arp_binding ip m]) =
     (if (\<exists>e \<in> set es. a_valid e \<and> a_ip e = ip) \<or> (\<exists>e \<in> set es. \<not> a_valid e) then arp_map es
      else (arp_map es)(a_ip (es ! 15) := None))(ip \<mapsto> m)" (is "arp_map ?fs = ?g(ip \<mapsto> m)")
proof
  fix q
  note len = arp_okD(1) [OF assms(1)]
  have slot: "arp_slot es ip < 16" by (rule arp_slot_less [OF assms(1)])
  have nth: "?fs ! i = (if i = arp_slot es ip then arp_binding ip m else es ! i)" if "i < 16" for i
    using that len by (simp add: nth_list_update)
  note fs = arp_map_Some [OF arp_ok_store [OF assms], of ip] and es = arp_map_Some [OF assms(1)]
  show "arp_map ?fs q = (?g(ip \<mapsto> m)) q"
  proof (cases "q = ip")
    case True
    then have "arp_map ?fs q = Some m" unfolding True fs using slot nth [OF slot] by (intro exI [of _ "arp_slot es ip"]) simp
    then show ?thesis using True by simp
  next
    case False
    have "arp_map ?fs q = Some x \<longleftrightarrow> ?g q = Some x" for x
    proof -
      have "arp_map ?fs q = Some x \<longleftrightarrow>
          (\<exists>i < 16. i \<noteq> arp_slot es ip \<and> a_valid (es ! i) \<and> a_ip (es ! i) = q \<and> a_mac (es ! i) = x)"
        unfolding fs by (rule ex_cong) (use False nth in \<open>auto split: if_splits\<close>)
      also have "\<dots> \<longleftrightarrow> ?g q = Some x"
      proof (cases "(\<exists>e \<in> set es. a_valid e \<and> a_ip e = ip) \<or> (\<exists>e \<in> set es. \<not> a_valid e)")
        case True
        have "\<not> (a_valid (es ! arp_slot es ip) \<and> a_ip (es ! arp_slot es ip) = q)"
        proof (cases "first_index (\<lambda>e. a_valid e \<and> a_ip e = ip) es")
          case None
          then obtain i where i: "first_index (\<lambda>e. \<not> a_valid e) es = Some i"
            using True by (cases "first_index (\<lambda>e. \<not> a_valid e) es") (auto simp: first_index_None_iff)
          then show ?thesis using None first_index_SomeD(2) [OF i] by (simp add: arp_slot_def)
        qed (use False in \<open>auto simp: arp_slot_def dest: first_index_SomeD\<close>)
        then have "(\<exists>i < 16. i \<noteq> arp_slot es ip \<and> a_valid (es ! i) \<and> a_ip (es ! i) = q \<and> a_mac (es ! i) = x) \<longleftrightarrow> arp_map es q = Some x"
          unfolding es by auto
        with True show ?thesis by simp
      next
        case full: False
        then have "first_index (\<lambda>e. a_valid e \<and> a_ip e = ip) es = None" "first_index (\<lambda>e. \<not> a_valid e) es = None"
          by (auto simp: first_index_None_iff)
        then have slot15: "arp_slot es ip = 15" by (simp add: arp_slot_def)
        have v: "a_valid (es ! i)" if "i < 16" for i using full that len nth_mem [of i es] by auto
        have u: "i = 15" if "i < 16" "a_ip (es ! i) = a_ip (es ! 15)" for i
          using that arp_okD(4) [OF assms(1), of i 15] v by simp
        have "(\<exists>i < 16. i \<noteq> 15 \<and> a_valid (es ! i) \<and> a_ip (es ! i) = q \<and> a_mac (es ! i) = x) \<longleftrightarrow>
            q \<noteq> a_ip (es ! 15) \<and> arp_map es q = Some x"
          unfolding es using u by auto
        with full show ?thesis by (simp add: slot15)
      qed
      finally show ?thesis .
    qed
    then have "arp_map ?fs q = ?g q" by (rule option_eqI)
    then show ?thesis by (simp only: fun_upd_apply if_False False)
  qed
qed

section \<open>Routing\<close>

text \<open>The prefix length of a mask is the number of its one bits.\<close>

lemma prefix_fold:
  "unat c + length is < 2 ^ 32 \<Longrightarrow>
     unat (foldl (\<lambda>count i. if m AND push_bit i 1 \<noteq> 0 then count + 1 else count) c is) =
     unat c + count_if (bit (m :: u32)) is" for c :: u32
proof (induction "is" arbitrary: c)
  case (Cons i "is")
  have b: "m AND 2 ^ i = 0 \<longleftrightarrow> \<not> bit m i" by (simp add: and_exp_eq_0_iff_not_bit)
  show ?case
  proof (cases "bit m i")
    case True
    have "unat (c + 1) = Suc (unat c)" using Cons.prems by (intro unat_add1) simp
    then show ?thesis using Cons True by (simp add: b count_if_def)
  qed (use Cons b in \<open>simp add: count_if_def\<close>)
qed simp

lemma ip_prefix_len_eq: "unat (ip_prefix_len m) = count_if (bit m) [0..<32]"
  using prefix_fold [of 0 "[0..<32]" m] by (simp add: ip_prefix_len_def)

definition route_matches :: "ip_route_entry_t \<Rightarrow> ipv4_addr_t \<Rightarrow> bool" where
  "route_matches e dst \<longleftrightarrow> r_used e \<and> dst AND r_mask e = r_dest e AND r_mask e"

definition route_bits :: "ip_route_entry_t \<Rightarrow> nat" where
  "route_bits e = count_if (bit (r_mask e)) [0..<32]"

text \<open>
  The choice the loop makes: none when no route in use matches, else a matching route whose mask
  has the most one bits.
\<close>

definition route_choice :: "ip_route_entry_t list \<Rightarrow> ipv4_addr_t \<Rightarrow> ip_route_entry_t option \<Rightarrow> bool" where
  "route_choice rs dst r \<longleftrightarrow>
     (case r of None \<Rightarrow> \<forall>e \<in> set rs. \<not> route_matches e dst
      | Some e \<Rightarrow> e \<in> set rs \<and> route_matches e dst \<and> (\<forall>e' \<in> set rs. route_matches e' dst \<longrightarrow> route_bits e' \<le> route_bits e))"

definition next_hop_of :: "'w ipstack_t \<Rightarrow> ipv4_addr_t \<Rightarrow> ip_route_entry_t option \<Rightarrow> ipv4_addr_t option" where
  "next_hop_of st dst r =
     (case r of
        Some e \<Rightarrow> Some (if r_gateway e \<noteq> 0 then r_gateway e else dst)
      | None \<Rightarrow>
          if netmask st \<noteq> 0 \<and> dst AND netmask st = local_ip st AND netmask st then Some dst
          else if gateway st \<noteq> 0 then Some (gateway st) else None)"

definition route_best :: "ip_route_entry_t list \<Rightarrow> ipv4_addr_t \<Rightarrow> ip_route_entry_t ptr \<times> u32 \<Rightarrow> bool" where
  "route_best rs dst bp \<longleftrightarrow>
     (case fst bp of NULL \<Rightarrow> route_choice rs dst None
      | Ref e \<Rightarrow> route_choice rs dst (Some e) \<and> unat (snd bp) = route_bits e)"

lemma route_step_best:
  assumes "i < length rs" and "route_best (take i rs) dst bp"
  shows "\<exists>u. route_step rs dst i bp = Some u \<and> route_best (take (Suc i) rs) dst u"
proof -
  let ?e = "rs ! i"
  have rd: "c_rd rs i = Some ?e" using assms(1) by simp
  have set: "set (take (Suc i) rs) = insert ?e (set (take i rs))" using assms(1) by (simp add: take_Suc_conv_app_nth)
  show ?thesis
  proof (cases "route_matches ?e dst")
    case False
    then have "route_step rs dst i bp = Some bp" by (auto simp: route_step_def rd route_matches_def)
    moreover have "route_best (take (Suc i) rs) dst bp"
      using assms(2) False by (auto simp: route_best_def route_choice_def set split: ptr.splits)
    ultimately show ?thesis by blast
  next
    case True
    have gt: "ip_prefix_len (r_mask ?e) > snd bp \<longleftrightarrow> unat (snd bp) < route_bits ?e"
      by (simp add: word_less_nat_alt ip_prefix_len_eq route_bits_def)
    have st: "route_step rs dst i bp = Some (if fst bp = NULL \<or> ip_prefix_len (r_mask ?e) > snd bp then (Ref ?e, ip_prefix_len (r_mask ?e)) else bp)"
      using True by (auto simp: route_step_def rd route_matches_def)
    show ?thesis
    proof (cases "fst bp = NULL \<or> ip_prefix_len (r_mask ?e) > snd bp")
      case new: True
      have "route_best (take (Suc i) rs) dst (Ref ?e, ip_prefix_len (r_mask ?e))"
        using new True assms(2) unfolding gt
        by (auto simp: route_best_def route_choice_def set ip_prefix_len_eq route_bits_def split: ptr.splits)
      then show ?thesis using st new by simp
    next
      case False
      then obtain e where e: "fst bp = Ref e" by (cases "fst bp") auto
      have "route_best (take (Suc i) rs) dst bp"
        using False True assms(2) unfolding gt by (auto simp: route_best_def route_choice_def set e)
      then show ?thesis using st False by simp
    qed
  qed
qed

lemma ip_route_lookup_eq:
  assumes "length (routes st) = 8"
  obtains r where "route_choice (routes st) dst r"
    and "ip_route_lookup st dst h =
      Some (case next_hop_of st dst r of Some hop \<Rightarrow> (IP_OK, hop) | None \<Rightarrow> (IP_ERR_NO_ROUTE, h))"
proof -
  let ?rs = "routes st"
  have "\<exists>t. c_for 0 8 (route_step ?rs dst) (NULL, 0) = Some t \<and> route_best (take 8 ?rs) dst t"
  proof (rule c_for_rule [where P = "\<lambda>i t. route_best (take i ?rs) dst t"])
    show "route_best (take 0 ?rs) dst (NULL, 0)" by (simp add: route_best_def route_choice_def)
    show "\<exists>u. route_step ?rs dst i t = Some u \<and> route_best (take (Suc i) ?rs) dst u"
      if "i < 8" "route_best (take i ?rs) dst t" for i t
      using that assms by (intro route_step_best) simp_all
  qed simp
  then obtain best bp where t: "c_for 0 8 (route_step ?rs dst) (NULL, 0) = Some (best, bp)" "route_best ?rs dst (best, bp)"
    using assms by auto
  show ?thesis
    by (cases best) (use t that [of None] that [of "Some _"] in
      \<open>auto simp: ip_route_lookup_def route_best_def next_hop_of_def\<close>)
qed

section \<open>Resolving the next hop\<close>

text \<open>The hardware address that the stack knows for an address.\<close>

definition ip_mac_of :: "'w ipstack_t \<Rightarrow> ipv4_addr_t \<Rightarrow> u8 list option" where
  "ip_mac_of st ip = (if ip = local_ip st then Some (local_mac st) else arp_map (arp_cache st) ip)"

lemma ip_mac_of_length:
  assumes "ip_ok st" and "ip_mac_of st ip = Some m"
  shows "length m = 6"
proof (cases "ip = local_ip st")
  case False
  then have "arp_map (arp_cache st) ip = Some m" using assms(2) by (simp add: ip_mac_of_def)
  then show ?thesis using arp_map_Some [OF ip_okD(6) [OF assms(1)]] ip_okD(9) [OF assms(1)] by auto
qed (use assms ip_okD(3) [OF assms(1)] in \<open>simp add: ip_mac_of_def\<close>)

lemma copy_mac_eq: "length out = 6 \<Longrightarrow> length m = 6 \<Longrightarrow> copy_mac out m = Some m"
  using c_for_copy [of 6 m 0 out] by (simp add: copy_mac_def patch_0)

lemma ip_arp_resolve_known:
  assumes "ip_ok st" and "length out = 6" and "ip_mac_of st ip = Some m"
  shows "ip_arp_resolve w (Ref st) ip (Ref out) = Some (IP_OK, Ref st, Ref m, w)"
proof (cases "ip = local_ip st")
  case True
  then have m: "m = local_mac st" using assms(3) by (simp add: ip_mac_of_def)
  then have "copy_mac out (local_mac st) = Some m" using assms(1,2) by (simp add: copy_mac_eq ip_okD)
  then show ?thesis using True assms(1) m by (simp add: ip_arp_resolve_def ip_okD)
next
  case False
  then have "arp_map (arp_cache st) ip = Some m" using assms(3) by (simp add: ip_mac_of_def)
  then obtain i where i: "first_index (\<lambda>e. a_valid e \<and> a_ip e = ip) (arp_cache st) = Some i" "a_mac (arp_cache st ! i) = m"
    by (auto simp: arp_map_def)
  have l: "i < 16" using first_index_SomeD(1) [OF i(1)] assms(1) by (simp add: ip_okD)
  have "copy_mac out (a_mac (arp_cache st ! i)) = Some m"
    using assms(1,2) i(2) l ip_okD(9) by (intro copy_mac_eq [THEN trans]) auto
  moreover have "ip_arp_lookup st ip = Some (Ref i)"
    using c_find_eq [of 16 "arp_cache st"] assms(1) i(1) by (simp add: ip_arp_lookup_def ip_okD)
  ultimately show ?thesis using False assms(1) l by (simp add: ip_arp_resolve_def ip_okD)
qed

lemma ip_arp_resolve_unknown:
  assumes "ip_ok st" and "link_tx st = Ref tx" and "ip_mac_of st ip = None"
  obtains junk where
    "ip_arp_resolve w (Ref st) ip (Ref out) =
       (let f = arp_frame ARP_OP_REQUEST (local_mac st) (local_ip st) (replicate 6 0xFF) ip @ junk; r = tx w f 42
        in Some (if fst r \<noteq> IP_OK then IP_ERR_NO_ROUTE else IP_ERR_PENDING, Ref (st\<lparr>tx_scratch := f\<rparr>), Ref out, snd r))"
    and "length junk = 1494"
proof -
  have bc: "[0xFF, 0xFF, 0xFF, 0xFF, 0xFF, 0xFF] = replicate 6 (0xFF :: u8)" by (simp add: numeral_eq_Suc)
  obtain junk where junk: "ip_arp_transmit w st ARP_OP_REQUEST (replicate 6 0xFF) ip =
       (let f = arp_frame ARP_OP_REQUEST (local_mac st) (local_ip st) (replicate 6 0xFF) ip @ junk; r = tx w f 42
        in Some (fst r, st\<lparr>tx_scratch := f\<rparr>, snd r))" "length junk = 1494"
    by (rule ip_arp_transmit_eq [OF assms(1,2), of "replicate 6 0xFF"]) simp
  have ne: "ip \<noteq> local_ip st" "arp_map (arp_cache st) ip = None" using assms(3) by (auto simp: ip_mac_of_def split: if_splits)
  then have "ip_arp_lookup st ip = Some NULL"
    using c_find_eq [of 16 "arp_cache st"] assms(1) by (simp add: ip_arp_lookup_def arp_map_def ip_okD)
  then show ?thesis
    using that [OF _ junk(2)] junk(1) ne(1) assms(1)
    by (simp add: ip_arp_resolve_def ip_okD ip_arp_send_request_def bc Let_def)
qed

text \<open>The hardware address for a destination: broadcast, or that of the next hop.\<close>

definition ip_dst_mac :: "'w ipstack_t \<Rightarrow> ipv4_addr_t \<Rightarrow> u8 list \<Rightarrow> bool" where
  "ip_dst_mac st dst m \<longleftrightarrow>
     (if dst = IP_BROADCAST then m = replicate 6 0xFF
      else \<exists>hop. ip_route (Ref st) dst (Ref 0) = Some (IP_OK, Ref hop) \<and> ip_mac_of st hop = Some m)"

lemma broadcast_mac: "c_for 0 6 (\<lambda>i m. c_wr m i 0xFF) (replicate 6 0) = Some (replicate 6 (0xFF :: u8))"
  using c_for_fill [of 0 6 "\<lambda>i. Some (0xFF :: u8)" "\<lambda>i. 0xFF" 0 "replicate 6 0"]
  by (simp add: patch_0 map_replicate_const)

lemma ip_next_mac_known:
  assumes "ip_ok st" and "ip_dst_mac st dst m"
  shows "ip_next_mac w st dst = Some (Inr m, st, w)" and "length m = 6"
proof -
  show "length m = 6" using assms ip_mac_of_length [OF assms(1)] by (auto simp: ip_dst_mac_def split: if_splits)
  show "ip_next_mac w st dst = Some (Inr m, st, w)"
  proof (cases "dst = IP_BROADCAST")
    case True
    then show ?thesis using assms(2) by (simp add: ip_next_mac_def ip_dst_mac_def broadcast_mac)
  next
    case False
    then obtain hop where hop: "ip_route (Ref st) dst (Ref 0) = Some (IP_OK, Ref hop)" "ip_mac_of st hop = Some m"
      using assms(2) by (auto simp: ip_dst_mac_def)
    have "ip_route_lookup st dst 0 = Some (IP_OK, hop)"
      using hop(1) assms(1) by (auto simp: ip_route_def ip_okD bind_eq_Some_conv)
    then show ?thesis
      using False ip_arp_resolve_known [OF assms(1) _ hop(2), of "replicate 6 0"] by (simp add: ip_next_mac_def)
  qed
qed

section \<open>Every operation keeps the invariant\<close>

lemma arp_sender_mac:
  assumes "14 \<le> length buf"
  shows "c_for 0 6 (\<lambda>i s. do { v \<leftarrow> c_rd buf (8 + i); c_wr s i v }) (replicate 6 0) = Some (take 6 (drop 8 buf))"
proof -
  have "map (\<lambda>i. buf ! (8 + i)) [0..<6] = take 6 (drop 8 buf)" using assms by (intro map_nth_take_drop) simp
  then show ?thesis
    using c_for_fill [of 0 6 "\<lambda>i. c_rd buf (8 + i)" "\<lambda>i. buf ! (8 + i)" 0 "replicate 6 0"] assms by (simp add: patch_0)
qed

lemma ip_ok_scratch: "ip_ok st \<Longrightarrow> length f = 1536 \<Longrightarrow> ip_ok (st\<lparr>tx_scratch := f\<rparr>)"
  by (simp add: ip_ok_def)

lemma ip_ok_next_id: "ip_ok st \<Longrightarrow> ip_ok (st\<lparr>next_id := n\<rparr>)"
  by (simp add: ip_ok_def)

lemma ip_ok_arp: "ip_ok st \<Longrightarrow> length m = 6 \<Longrightarrow> ip_ok (st\<lparr>arp_cache := (arp_cache st)[arp_slot (arp_cache st) ip := arp_binding ip m]\<rparr>)"
  by (simp add: ip_ok_def arp_ok_store)

text \<open>The outcome of a call: a result, and a stack that satisfies the invariant.\<close>

definition safe_result :: "(ipstack_status_t \<times> 'w ipstack_t \<times> 'w) comp \<Rightarrow> bool" where
  "safe_result r \<longleftrightarrow> (\<exists>rc st w. r = Some (rc, st, w) \<and> ip_ok st)"

lemma safe_resultI: "ip_ok st \<Longrightarrow> safe_result (Some (rc, st, w))"
  by (simp add: safe_result_def)

lemma ip_arp_transmit_safe:
  assumes "ip_ok st" and "length dmac = 6"
  shows "safe_result (ip_arp_transmit w st oper dmac target)"
proof -
  obtain tx where tx: "link_tx st = Ref tx" using assms(1) by (cases "link_tx st") (auto simp: ip_ok_def)
  obtain junk where "ip_arp_transmit w st oper dmac target =
       (let f = arp_frame oper (local_mac st) (local_ip st) dmac target @ junk; r = tx w f 42
        in Some (fst r, st\<lparr>tx_scratch := f\<rparr>, snd r))" "length junk = 1494"
    by (rule ip_arp_transmit_eq [OF assms(1) tx assms(2)])
  then show ?thesis using assms by (simp add: Let_def safe_resultI ip_ok_scratch ip_okD)
qed

lemma ip_handle_arp_safe:
  assumes "ip_ok st" and "length buf = unat len"
  shows "safe_result (ip_handle_arp w st buf len)"
proof (cases "len < 28")
  case False
  then have len: "28 \<le> length buf" using assms(2) by (simp add: word_less_nat_alt)
  let ?sha = "take 6 (drop 8 buf)"
  have sha: "length ?sha = 6" using len by simp
  obtain ht pt spa tpa oper where ld: "ld16 buf 0 = Some ht" "ld16 buf 2 = Some pt" "ld32 buf 14 = Some spa"
    "ld32 buf 24 = Some tpa" "ld16 buf 6 = Some oper"
    using len ld16_total [of 0 buf] ld16_total [of 2 buf] ld32_total [of 14 buf] ld32_total [of 24 buf] ld16_total [of 6 buf]
    by auto
  have rd: "c_rd buf 4 = Some (buf ! 4)" "c_rd buf 5 = Some (buf ! 5)" using len by simp_all
  have loop: "c_for 0 6 (\<lambda>i s. do { v \<leftarrow> c_rd buf (8 + i); c_wr s i v }) (replicate 6 0) = Some ?sha"
    using len by (intro arp_sender_mac) simp
  let ?st = "st\<lparr>arp_cache := (arp_cache st)[arp_slot (arp_cache st) spa := arp_binding spa ?sha]\<rparr>"
  have ok: "ip_ok ?st" by (rule ip_ok_arp [OF assms(1) sha])
  have "safe_result (if ow_bswap16 oper = ARP_OP_REQUEST
      then if tpa \<noteq> local_ip ?st then Some (IP_ERR_DROP, ?st, w) else ip_arp_send_reply w ?st spa ?sha
      else if ow_bswap16 oper = ARP_OP_REPLY
      then Some (IP_OK, ?st, case arp_cb ?st of NULL \<Rightarrow> w | Ref cb \<Rightarrow> cb w spa ?sha) else Some (IP_ERR_DROP, ?st, w))"
    using ok ip_arp_transmit_safe [OF ok sha] by (simp only: ip_arp_send_reply_def safe_resultI split: if_split) simp
  then show ?thesis
    unfolding ip_handle_arp_def ld rd bind.bind_lunit loop ip_arp_store_eq [OF assms(1) sha] using assms(1) False
    by (auto simp: safe_resultI)
qed (use assms(1) in \<open>simp add: ip_handle_arp_def safe_resultI\<close>)

lemma unat_ihl: "unat (ucast ((v :: u8) AND 0x0F) * 4 :: u32) = 4 * unat (take_bit 4 v)"
  "unat (ucast ((v :: u8) AND 0x0F) :: u32) = unat (take_bit 4 v)" "unat (take_bit 4 (v :: u8)) < 16"
proof -
  show b: "unat (take_bit 4 v) < 16" by (simp add: unsigned_take_bit_eq take_bit_nat_def)
  show u: "unat (ucast (v AND 0x0F) :: u32) = unat (take_bit 4 v)" unfolding low_nibble by (rule unat_ucast_up) simp
  show "unat (ucast (v AND 0x0F) * 4 :: u32) = 4 * unat (take_bit 4 v)"
    using b by (simp add: unat_word_ariths u)
qed

lemma ip_handle_ip_total:
  assumes "length buf = unat len"
  shows "\<exists>rc w'. ip_handle_ip w st buf len = Some (rc, w')"
proof (cases "len < 20")
  case False
  then have len: "20 \<le> length buf" using assms by (simp add: word_less_nat_alt)
  let ?v = "buf ! 0" and ?hl = "ucast (buf ! 0 AND 0x0F) * 4 :: u32"
  obtain tl ff src dst where ld: "ld16 buf 2 = Some tl" "ld16 buf 6 = Some ff" "ld32 buf 12 = Some src" "ld32 buf 16 = Some dst"
    using len ld16_total [of 2 buf] ld16_total [of 6 buf] ld32_total [of 12 buf] ld32_total [of 16 buf] by auto
  let ?t = "ucast (ow_bswap16 tl) :: u32"
  have "buf \<noteq> []" using len by auto
  then have rd: "c_rd buf 0 = Some ?v" "c_rd buf 9 = Some (buf ! 9)" using len by (simp_all add: c_rd_def)
  have dispatch: "\<exists>rc w'. ip_dispatch w st src dst (buf ! 9) buf ?hl (?t - ?hl) = Some (rc, w')"
    if r: "\<not> ?t < ?hl" "\<not> len < ?t" "\<not> len < ?hl"
  proof -
    let ?n = "unat (?t - ?hl)"
    have n: "?n = unat ?t - unat ?hl" using r(1) by (intro unat_sub_le) simp
    have le: "unat ?hl \<le> unat ?t" "unat ?t \<le> length buf" using r assms by (simp_all add: word_less_nat_alt)
    have t16: "unat ?t < 2 ^ 16" using unsigned_less [of "ow_bswap16 tl", where ?'a = nat] by (subst unat_ucast_up) simp_all
    have "ip_dispatch w st src dst (buf ! 9) (take (unat ?hl) buf @ drop (unat ?hl) buf) ?hl (?t - ?hl) =
        Some (ip_upcall st src dst (buf ! 9) (drop (unat ?hl) buf) ?n w)"
      using n le t16 by (intro ip_dispatch_eq) simp_all
    then show ?thesis by (cases "ip_upcall st src dst (buf ! 9) (drop (unat ?hl) buf) ?n w") simp
  qed
  have csum: "\<exists>c. ip_checksum buf ?hl = Some c" if "\<not> len < ?hl"
  proof -
    have "unat ?hl \<le> length buf" using that assms by (simp add: word_less_nat_alt)
    moreover have "unat ?hl \<le> 65535" using unat_ihl [of ?v] by simp
    ultimately show ?thesis using ip_checksum_eq [of ?hl buf] by metis
  qed
  show ?thesis
    unfolding ip_handle_ip_def rd ld bind.bind_lunit Let_def using dispatch csum by auto
qed (simp add: ip_handle_ip_def)

lemma ip_recv_safe:
  assumes "ip_ok st" and "length f = unat len"
  shows "\<exists>rc st' w'. ip_recv w (Ref st) (Ref f) len = Some (rc, Ref st', w') \<and> ip_ok st'"
proof (cases "len < 14")
  case False
  then have len: "14 \<le> length f" using assms(2) by (simp add: word_less_nat_alt)
  have l: "length (drop 14 f) = unat (len - 14)" using False assms(2) unat_sub_le [of 14 len] by (simp add: not_less)
  have t: "rd_be16 f 12 = Some (port_at f 12)" using len by (intro rd_be16_port) simp
  obtain rc s' w' where a: "ip_handle_arp w st (drop 14 f) (len - 14) = Some (rc, s', w')" "ip_ok s'"
    using ip_handle_arp_safe [OF assms(1) l, of w] by (auto simp: safe_result_def)
  obtain rc2 w2 where i: "ip_handle_ip w st (drop 14 f) (len - 14) = Some (rc2, w2)"
    using ip_handle_ip_total [OF l, of w st] by blast
  show ?thesis
    unfolding ip_recv_def ptr.case prod.case t using assms(1) False a i by (auto simp: ip_okD)
qed (use assms(1) in \<open>simp add: ip_recv_def ip_okD\<close>)

lemma ip_arp_resolve_safe:
  assumes "ip_ok st" and "length out = 6"
  obtains rc st' m w' where "ip_arp_resolve w (Ref st) ip (Ref out) = Some (rc, Ref st', Ref m, w')"
    and "ip_ok st'" and "link_tx st' = link_tx st" and "length m = 6"
proof -
  obtain tx where tx: "link_tx st = Ref tx" using assms(1) by (cases "link_tx st") (auto simp: ip_ok_def)
  show ?thesis
  proof (cases "ip_mac_of st ip")
    case (Some m)
    then show ?thesis
      using that [OF ip_arp_resolve_known [OF assms Some]] assms(1) ip_mac_of_length [OF assms(1) Some] by simp
  next
    case None
    obtain junk where j: "ip_arp_resolve w (Ref st) ip (Ref out) =
       (let f = arp_frame ARP_OP_REQUEST (local_mac st) (local_ip st) (replicate 6 0xFF) ip @ junk; r = tx w f 42
        in Some (if fst r \<noteq> IP_OK then IP_ERR_NO_ROUTE else IP_ERR_PENDING, Ref (st\<lparr>tx_scratch := f\<rparr>), Ref out, snd r))"
      "length junk = 1494" by (rule ip_arp_resolve_unknown [OF assms(1) tx None])
    show ?thesis
      by (rule that [OF j(1) [unfolded Let_def]]) (use assms j(2) in \<open>simp_all add: ip_ok_scratch ip_okD\<close>)
  qed
qed

lemma ip_next_mac_safe:
  assumes "ip_ok st"
  obtains hop st' w' where "ip_next_mac w st dst = Some (hop, st', w')" and "ip_ok st'" and "link_tx st' = link_tx st"
    and "\<And>m. hop = Inr m \<Longrightarrow> length m = 6"
proof (cases "dst = IP_BROADCAST")
  case True
  then show ?thesis using that [of "Inr (replicate 6 0xFF)" st w] assms by (simp add: ip_next_mac_def broadcast_mac)
next
  case False
  obtain rc hop where lk: "ip_route_lookup st dst 0 = Some (rc, hop)"
    by (rule ip_route_lookup_eq [OF ip_okD(7) [OF assms], of dst 0]) (auto split: option.splits)
  obtain rc2 st' m w' where r: "ip_arp_resolve w (Ref st) hop (Ref (replicate 6 0)) = Some (rc2, Ref st', Ref m, w')"
    "ip_ok st'" "link_tx st' = link_tx st" "length m = 6"
    by (rule ip_arp_resolve_safe [OF assms, of "replicate 6 0" w hop]) simp_all
  show ?thesis
  proof (cases "rc = IP_OK")
    case rc: True
    show ?thesis
      by (rule that [of "if rc2 = IP_ERR_PENDING then Inl IP_ERR_PENDING else if rc2 \<noteq> IP_OK then Inl IP_ERR_NO_ROUTE else Inr m" st' w'])
        (use False lk r rc in \<open>auto simp: ip_next_mac_def split: if_splits\<close>)
  qed (use that [of "Inl rc" st w] False lk assms in \<open>simp add: ip_next_mac_def\<close>)
qed

lemma ip_send_safe:
  assumes "ip_ok st" and "length p < 2 ^ 32"
  shows "\<exists>rc st' w'. ip_send w (Ref st) dst proto (Ref p) (of_nat (length p)) = Some (rc, Ref st', w') \<and> ip_ok st'"
proof (cases "length p \<le> 1502")
  case False
  have "unat (of_nat (length p) :: u32) = length p" using assms(2) by (intro unat_of_nat_u32)
  then have "(of_nat (length p) :: u32) > 1502" using False by (simp add: word_less_nat_alt)
  then show ?thesis using assms(1) by (simp add: ip_send_def ip_okD)
next
  case True
  obtain tx where tx: "link_tx st = Ref tx" using assms(1) by (cases "link_tx st") (auto simp: ip_ok_def)
  obtain hop st' w' where n: "ip_next_mac w st dst = Some (hop, st', w')" "ip_ok st'" "link_tx st' = link_tx st"
    "\<And>m. hop = Inr m \<Longrightarrow> length m = 6" using ip_next_mac_safe [OF assms(1), of w dst] by blast
  show ?thesis
  proof (cases hop)
    case (Inl rc)
    have "unat (of_nat (length p) :: u32) = length p" using assms(2) by (intro unat_of_nat_u32)
    then have "\<not> (of_nat (length p) :: u32) > 1502" using True by (simp add: word_less_nat_alt)
    then show ?thesis using n(1,2) Inl assms(1) by (simp add: ip_send_def ip_okD)
  next
    case (Inr m)
    have m: "length m = 6" by (rule n(4) [OF Inr])
    obtain junk where j: "ip_send w (Ref st) dst proto (Ref p) (of_nat (length p)) =
       (let f = ip_frame m (local_mac st') (next_id st') proto (local_ip st') dst p @ junk;
            r = tx w' f (of_nat (34 + length p))
        in Some (fst r, Ref (st'\<lparr>tx_scratch := f, next_id := next_id st' + 1\<rparr>), snd r))" "length junk = 1502 - length p"
      by (rule ip_send_frame [OF assms(1) tx True n(1) [unfolded Inr] n(2) n(3) [unfolded tx] m])
    have "length (ip_frame m (local_mac st') (next_id st') proto (local_ip st') dst p @ junk) = 1536"
      using j(2) True m n(2) by (simp add: length_ip_frame ip_okD)
    then show ?thesis using n(2) unfolding j(1) Let_def by (simp add: ip_ok_next_id ip_ok_scratch)
  qed
qed

lemma routes_ok_update:
  assumes "routes_ok rs" and "i < 8" and "r_dest e AND r_mask e = r_dest e"
    and "\<And>j. j < 8 \<Longrightarrow> j \<noteq> i \<Longrightarrow> r_used (rs ! j) \<Longrightarrow> \<not> (r_dest (rs ! j) = r_dest e \<and> r_mask (rs ! j) = r_mask e)"
  shows "routes_ok (rs[i := e])"
proof -
  have len: "length rs = 8" using assms(1) by (simp add: routes_ok_def)
  have nth: "rs[i := e] ! j = (if j = i then e else rs ! j)" if "j < 8" for j using that len by (simp add: nth_list_update)
  have "\<forall>e' \<in> set (rs[i := e]). r_dest e' AND r_mask e' = r_dest e'"
    using assms(1,3) set_update_subset_insert [of rs i e] by (auto simp: routes_ok_def)
  moreover have "j = k" if "j < 8" "k < 8" "r_used (rs[i := e] ! j)" "r_used (rs[i := e] ! k)"
    "r_dest (rs[i := e] ! j) = r_dest (rs[i := e] ! k)" "r_mask (rs[i := e] ! j) = r_mask (rs[i := e] ! k)" for j k
  proof (cases "j = i \<or> k = i")
    case True
    then show ?thesis using that(3-) assms(4) [OF that(1)] assms(4) [OF that(2)] unfolding nth [OF that(1)] nth [OF that(2)]
      by (cases "j = i"; cases "k = i") auto
  next
    case False
    then show ?thesis using that(3-) assms(1) that(1,2) unfolding nth [OF that(1)] nth [OF that(2)] routes_ok_def by simp
  qed
  ultimately show ?thesis using len unfolding routes_ok_def by simp
qed

lemma ip_add_route_safe:
  assumes "ip_ok st"
  shows "\<exists>rc st'. ip_add_route (Ref st) dest m gw = Some (rc, Ref st') \<and> ip_ok st'"
proof -
  let ?rs = "routes st" and ?P = "\<lambda>e. r_used e \<and> r_dest e = dest AND m \<and> r_mask e = m"
  have rs: "routes_ok ?rs" "length ?rs = 8" using assms by (simp_all add: ip_okD)
  have find: "c_find P ?rs 8 0 = Some (first_index P ?rs)" for P using c_find_eq [of 8 ?rs P] rs(2) by simp
  have upd: "ip_ok (st\<lparr>routes := rs'\<rparr>)" if "routes_ok rs'" for rs' using assms that by (simp add: ip_ok_def)
  show ?thesis
  proof (cases "first_index ?P ?rs")
    case (Some i)
    then have i: "i < 8" "?P (?rs ! i)" using rs(2) by (auto dest: first_index_SomeD)
    have "routes_ok (?rs[i := (?rs ! i)\<lparr>r_gateway := gw\<rparr>])"
    proof (rule routes_ok_update [OF rs(1) i(1)])
      show "\<not> (r_dest (?rs ! j) = r_dest ((?rs ! i)\<lparr>r_gateway := gw\<rparr>) \<and> r_mask (?rs ! j) = r_mask ((?rs ! i)\<lparr>r_gateway := gw\<rparr>))"
        if "j < 8" "j \<noteq> i" "r_used (?rs ! j)" for j
        using rs(1) that i unfolding routes_ok_def by auto
    qed (use rs(1) i(1) nth_mem [of i ?rs] in \<open>simp add: routes_ok_def\<close>)
    then show ?thesis using Some i rs(2) upd by (simp add: ip_add_route_def find)
  next
    case none: None
    show ?thesis
    proof (cases "first_index (\<lambda>e. \<not> r_used e) ?rs")
      case (Some i)
      then have i: "i < 8" using rs(2) by (auto dest: first_index_SomeD)
      let ?e = "\<lparr>r_dest = dest AND m, r_mask = m, r_gateway = gw, r_iface = 0, r_used = True\<rparr>"
      have "routes_ok (?rs[i := ?e])"
      proof (rule routes_ok_update [OF rs(1) i])
        show "\<not> (r_dest (?rs ! j) = r_dest ?e \<and> r_mask (?rs ! j) = r_mask ?e)" if "j < 8" "r_used (?rs ! j)" for j
          using none that rs(2) nth_mem [of j ?rs] by (auto simp: first_index_None_iff)
      qed (simp add: and.assoc)
      then show ?thesis using none Some i rs(2) upd by (simp add: ip_add_route_def find)
    qed (use none assms in \<open>simp add: ip_add_route_def find\<close>)
  qed
qed

lemma ip_init_ok:
  assumes "ip_init (Ref s0) (Ref cfg) (Ref tx) = Some (rc, p)" and "length (cfg_mac cfg) = 6"
  obtains st where "p = Ref st" and "rc = IP_OK" and "ip_ok st" and "link_tx st = Ref tx" and "local_mac st = cfg_mac cfg"
    and "local_ip st = cfg_ip cfg"
proof -
  have "c_for 0 6 (\<lambda>i m. do { v \<leftarrow> c_rd (cfg_mac cfg) i; c_wr m i v }) (replicate 6 0) = Some (cfg_mac cfg)"
    using copy_mac_eq [of "replicate 6 0" "cfg_mac cfg"] assms(2) by (simp add: copy_mac_def)
  then show ?thesis
    using assms that by (auto simp: ip_init_def ip_ok_def routes_ok_def arp_ok_def)
qed

section \<open>The exchange of an ARP request and its reply\<close>

definition learn :: "'w ipstack_t \<Rightarrow> ipv4_addr_t \<Rightarrow> u8 list \<Rightarrow> 'w ipstack_t" where
  "learn st ip m = st\<lparr>arp_cache := (arp_cache st)[arp_slot (arp_cache st) ip := arp_binding ip m]\<rparr>"

lemma learn_ok:
  assumes "ip_ok st" and "length m = 6"
  shows "ip_ok (learn st ip m)" and "ip \<noteq> local_ip st \<Longrightarrow> ip_mac_of (learn st ip m) ip = Some m"
    and "local_ip (learn st ip m) = local_ip st" and "local_mac (learn st ip m) = local_mac st"
    and "link_tx (learn st ip m) = link_tx st" and "arp_cb (learn st ip m) = arp_cb st"
  using ip_ok_arp [OF assms] arp_map_store [OF ip_okD(6) [OF assms(1)] assms(2), of ip]
  by (simp_all add: learn_def ip_mac_of_def)

lemma ip_handle_arp_packet:
  assumes "ip_ok st" and "length sha = 6" and "length tha = 6" and "unat len = 28 + length pad"
  shows "ip_handle_arp w st (arp_packet oper sha spa tha tpa @ pad) len =
     (if oper = ARP_OP_REQUEST then
        if tpa \<noteq> local_ip st then Some (IP_ERR_DROP, learn st spa sha, w) else ip_arp_send_reply w (learn st spa sha) spa sha
      else if oper = ARP_OP_REPLY then
        Some (IP_OK, learn st spa sha, case arp_cb st of NULL \<Rightarrow> w | Ref cb \<Rightarrow> cb w spa sha)
      else Some (IP_ERR_DROP, learn st spa sha, w))"
proof -
  let ?fix = "be16 1 @ be16 ETH_TYPE_IP @ [6, 4 :: u8]"
  let ?b = "arp_packet oper sha spa tha tpa @ pad"
  have b: "?b = ?fix @ be16 oper @ sha @ addr_bytes spa @ tha @ addr_bytes tpa @ pad" by (simp add: arp_packet_def)
  have 0: "ld16 ?b 0 = Some (ow_bswap16 1)" unfolding b using ld16_at [of "[]" 0 1] by simp
  have 2: "ld16 ?b 2 = Some (ow_bswap16 ETH_TYPE_IP)" unfolding b using ld16_at [of "be16 1" 2 ETH_TYPE_IP] by simp
  have 4: "c_rd ?b 4 = Some 6" unfolding b using c_rd_at [of "be16 1 @ be16 ETH_TYPE_IP" 4 6] by simp
  have 5: "c_rd ?b 5 = Some 4" unfolding b using c_rd_at [of "be16 1 @ be16 ETH_TYPE_IP @ [6]" 5 4] by simp
  have 6: "ld16 ?b 6 = Some (ow_bswap16 oper)" unfolding b by (rule ld16_at) simp
  have 14: "ld32 ?b 14 = Some spa" unfolding b using ld32_addr [of "?fix @ be16 oper @ sha" 14 spa] assms(2) by simp
  have 24: "ld32 ?b 24 = Some tpa"
    unfolding b using ld32_addr [of "?fix @ be16 oper @ sha @ addr_bytes spa @ tha" 24 tpa] assms(2,3) by simp
  have sha: "c_for 0 6 (\<lambda>i s. do { v \<leftarrow> c_rd ?b (8 + i); c_wr s i v }) (replicate 6 0) = Some sha"
    using arp_sender_mac [of ?b] assms(2) unfolding b by simp
  have len: "\<not> len < 28" using assms(4) by (simp add: word_less_nat_alt)
  show ?thesis
    unfolding ip_handle_arp_def 0 2 4 5 6 14 24 sha bind.bind_lunit bswap16_id ip_arp_store_eq [OF assms(1,2)] learn_def [symmetric]
    using len learn_ok(3,6) [OF assms(1,2)] by simp
qed

lemma ip_recv_arp:
  assumes "ip_ok st" and "length sha = 6" and "length tha = 6"
  shows "ip_recv w (Ref st) (Ref (arp_frame oper sha spa tha tpa)) 42 =
     do { (rc, s', w') \<leftarrow> ip_handle_arp w st (arp_packet oper sha spa tha tpa) 28; Some (rc, Ref s', w') }"
proof -
  have "rd_be16 (arp_frame oper sha spa tha tpa) 12 = Some ETH_TYPE_ARP"
    using rd_be16_be [of "tha @ sha" 12 ETH_TYPE_ARP "arp_packet oper sha spa tha tpa"] assms(2,3) by (simp add: arp_frame_def)
  moreover have "drop 14 (arp_frame oper sha spa tha tpa) = arp_packet oper sha spa tha tpa"
    using assms(2,3) by (simp add: arp_frame_def)
  ultimately show ?thesis using assms(1) by (simp add: ip_recv_def ip_okD)
qed

text \<open>A link that records the frames, the latest first.\<close>

definition wire :: "u8 list list ipstack_link_tx_fn" where
  "wire w f n = (IP_OK, take (unat n) f # w)"

lemma wire_frame: "length f = unat n \<Longrightarrow> wire w (f @ junk) n = (IP_OK, f # w)"
  by (simp add: wire_def)

section \<open>Longest prefix match\<close>

lemma ip_route_eq:
  assumes "ip_ok st"
  obtains r where "route_choice (routes st) dst r"
    and "ip_route (Ref st) dst (Ref h) =
       Some (case next_hop_of st dst r of Some hop \<Rightarrow> (IP_OK, Ref hop) | None \<Rightarrow> (IP_ERR_NO_ROUTE, Ref h))"
proof -
  obtain r where r: "route_choice (routes st) dst r"
    "ip_route_lookup st dst h = Some (case next_hop_of st dst r of Some hop \<Rightarrow> (IP_OK, hop) | None \<Rightarrow> (IP_ERR_NO_ROUTE, h))"
    by (rule ip_route_lookup_eq [OF ip_okD(7) [OF assms], of dst h])
  then have "ip_route (Ref st) dst (Ref h) =
      Some (case next_hop_of st dst r of Some hop \<Rightarrow> (IP_OK, Ref hop) | None \<Rightarrow> (IP_ERR_NO_ROUTE, Ref h))"
    using assms by (simp add: ip_route_def ip_okD split: option.split)
  with r(1) show ?thesis by (rule that)
qed

text \<open>
  The bits of an address in the order in which the network transmits them. An address is stored in
  network byte order on a little-endian machine, so the first byte is the least significant one, and
  the first bit of each byte is its most significant one. A mask is a prefix mask of length \<open>n\<close> when
  its first \<open>n\<close> bits are ones and the others zeros; a route then covers the destinations that agree
  with its network in the first \<open>n\<close> bits.
\<close>

definition bit_place :: "nat \<Rightarrow> nat" where
  "bit_place k = 8 * (k div 8) + (7 - k mod 8)"

definition net_bits :: "ipv4_addr_t \<Rightarrow> bool list" where
  "net_bits a = map (\<lambda>k. bit a (bit_place k)) [0..<32]"

definition prefix_len :: "ipv4_addr_t \<Rightarrow> nat" where
  "prefix_len m = length (takeWhile (\<lambda>b. b) (net_bits m))"

definition is_prefix_mask :: "ipv4_addr_t \<Rightarrow> bool" where
  "is_prefix_mask m \<longleftrightarrow> net_bits m = replicate (prefix_len m) True @ replicate (32 - prefix_len m) False"

definition route_covers :: "ip_route_entry_t \<Rightarrow> ipv4_addr_t \<Rightarrow> bool" where
  "route_covers e dst \<longleftrightarrow> r_used e \<and>
     take (prefix_len (r_mask e)) (net_bits dst) = take (prefix_len (r_mask e)) (net_bits (r_dest e))"

definition longest_prefix :: "ip_route_entry_t list \<Rightarrow> ipv4_addr_t \<Rightarrow> ip_route_entry_t option \<Rightarrow> bool" where
  "longest_prefix rs dst r \<longleftrightarrow>
     (case r of None \<Rightarrow> \<forall>e \<in> set rs. \<not> route_covers e dst
      | Some e \<Rightarrow> e \<in> set rs \<and> route_covers e dst \<and>
          (\<forall>e' \<in> set rs. route_covers e' dst \<longrightarrow> prefix_len (r_mask e') \<le> prefix_len (r_mask e)))"

lemma bit_place_div_mod: "bit_place k div 8 = k div 8" "bit_place k mod 8 = 7 - k mod 8"
proof -
  have "7 - k mod 8 < 8" by simp
  then have "(8 * (k div 8) + (7 - k mod 8)) div 8 = k div 8" "(8 * (k div 8) + (7 - k mod 8)) mod 8 = 7 - k mod 8"
    unfolding div_mult_self4 mod_mult_self4 by simp_all
  then show "bit_place k div 8 = k div 8" "bit_place k mod 8 = 7 - k mod 8" by (simp_all only: bit_place_def)
qed

lemma bit_place_less: "k < 32 \<Longrightarrow> bit_place k < 32"
proof -
  assume "k < 32"
  then have "k div 8 \<le> 3" by linarith
  then show "bit_place k < 32" by (simp add: bit_place_def)
qed

lemma bit_place_surj: "bit_place (bit_place i) = i"
proof -
  have "bit_place (bit_place i) = 8 * (i div 8) + (7 - (7 - i mod 8))"
    by (simp add: bit_place_def [of "bit_place i"] bit_place_div_mod)
  also have "7 - (7 - i mod 8) = i mod 8" using mod_less_divisor [of 8 i] by linarith
  finally show ?thesis by simp
qed

lemma bit_place_image: "bit_place ` {..<32} = {..<32}"
proof
  show "{..<32} \<subseteq> bit_place ` {..<32}"
    by (auto intro!: image_eqI [where x = "bit_place i" for i] simp: bit_place_less bit_place_surj)
qed (auto simp: bit_place_less)

lemma length_net_bits [simp]: "length (net_bits a) = 32"
  by (simp add: net_bits_def)

lemma nth_net_bits [simp]: "k < 32 \<Longrightarrow> net_bits a ! k = bit a (bit_place k)"
  by (simp add: net_bits_def)

lemma prefix_len_le: "prefix_len m \<le> 32"
  using length_takeWhile_le [of "\<lambda>b. b" "net_bits m"] by (simp add: prefix_len_def)

lemma is_prefix_mask_bit:
  assumes "is_prefix_mask m" and "k < 32"
  shows "bit m (bit_place k) \<longleftrightarrow> k < prefix_len m"
proof -
  have "net_bits m ! k = (replicate (prefix_len m) True @ replicate (32 - prefix_len m) False) ! k"
    using assms(1) unfolding is_prefix_mask_def by (rule arg_cong)
  moreover have "(replicate (prefix_len m) True @ replicate (32 - prefix_len m) False) ! k \<longleftrightarrow> k < prefix_len m"
    using assms(2) by (simp add: nth_append)
  ultimately show ?thesis using assms(2) by simp
qed

lemma route_bits_prefix:
  assumes "is_prefix_mask (r_mask e)"
  shows "route_bits e = prefix_len (r_mask e)"
proof -
  have inj: "inj_on bit_place A" for A by (rule inj_on_inverseI [where g = bit_place]) (simp add: bit_place_surj)
  have "route_bits e = card {i \<in> {..<32}. bit (r_mask e) i}"
    unfolding route_bits_def count_if_def
    by (subst distinct_card [symmetric]) (auto intro: arg_cong [where f = card])
  also have "{i \<in> {..<32}. bit (r_mask e) i} = bit_place ` {..<prefix_len (r_mask e)}"
  proof (intro set_eqI iffI)
    fix i assume "i \<in> {i \<in> {..<32}. bit (r_mask e) i}"
    then have i: "i < 32" "bit (r_mask e) i" by simp_all
    then have "bit_place i < prefix_len (r_mask e)"
      using is_prefix_mask_bit [OF assms bit_place_less [OF i(1)]] by (simp add: bit_place_surj)
    then show "i \<in> bit_place ` {..<prefix_len (r_mask e)}" using bit_place_surj [of i] by (metis image_eqI lessThan_iff)
  next
    fix i assume "i \<in> bit_place ` {..<prefix_len (r_mask e)}"
    then obtain k where k: "i = bit_place k" "k < prefix_len (r_mask e)" by auto
    then have "k < 32" using prefix_len_le [of "r_mask e"] by simp
    then show "i \<in> {i \<in> {..<32}. bit (r_mask e) i}"
      using is_prefix_mask_bit [OF assms, of k] k bit_place_less by simp
  qed
  also have "card (bit_place ` {..<prefix_len (r_mask e)}) = prefix_len (r_mask e)"
    by (simp add: card_image inj)
  finally show ?thesis .
qed

lemma route_matches_prefix:
  assumes "is_prefix_mask (r_mask e)"
  shows "route_matches e dst \<longleftrightarrow> route_covers e dst"
proof -
  let ?m = "r_mask e" and ?n = "prefix_len (r_mask e)"
  have "dst AND ?m = r_dest e AND ?m \<longleftrightarrow> (\<forall>i \<in> {..<32}. bit ?m i \<longrightarrow> bit dst i = bit (r_dest e) i)"
    by (auto simp: bit_eq_iff bit_simps)
  also have "\<dots> \<longleftrightarrow> (\<forall>k \<in> {..<32}. bit ?m (bit_place k) \<longrightarrow> bit dst (bit_place k) = bit (r_dest e) (bit_place k))"
    by (subst bit_place_image [symmetric]) blast
  also have "\<dots> \<longleftrightarrow> (\<forall>k < ?n. net_bits dst ! k = net_bits (r_dest e) ! k)"
    using is_prefix_mask_bit [OF assms] prefix_len_le [of ?m] by auto
  also have "\<dots> \<longleftrightarrow> take ?n (net_bits dst) = take ?n (net_bits (r_dest e))"
    using prefix_len_le [of ?m] by (auto simp: list_eq_iff_nth_eq)
  finally show ?thesis by (simp add: route_matches_def route_covers_def)
qed

lemma longest_prefix_choice:
  assumes "\<forall>e \<in> set rs. r_used e \<longrightarrow> is_prefix_mask (r_mask e)" and "route_choice rs dst r"
  shows "longest_prefix rs dst r"
proof -
  have m: "route_matches e dst \<longleftrightarrow> route_covers e dst" if "e \<in> set rs" for e
    using that assms(1) route_matches_prefix [of e dst] by (cases "r_used e") (auto simp: route_matches_def route_covers_def)
  have b: "route_bits e = prefix_len (r_mask e)" if "e \<in> set rs" "route_covers e dst" for e
    using that assms(1) route_bits_prefix by (auto simp: route_covers_def)
  show ?thesis
    using assms(2) unfolding route_choice_def longest_prefix_def
    by (cases r) (use m b in fastforce)+
qed

section \<open>Runs\<close>

text \<open>A client that works on an initialised stack. The buffers it passes are as long as it says.\<close>

datatype 'w ip_op =
    Set_address ipv4_addr_t ipv4_addr_t ipv4_addr_t
  | Add_route ipv4_addr_t ipv4_addr_t ipv4_addr_t
  | Set_callbacks "'w ipstack_icmp_fn ptr" "'w ipstack_port_fn ptr" "'w ipstack_port_fn ptr" "'w ipstack_arp_fn ptr"
  | Route ipv4_addr_t
  | Resolve ipv4_addr_t
  | Send ipv4_addr_t u8 "u8 list"
  | Recv "u8 list"

definition ip_do :: "'w ip_op \<Rightarrow> 'w ipstack_t ptr \<times> 'w \<Rightarrow> ('w ipstack_t ptr \<times> 'w) comp" where
  "ip_do a sw =
     (case a of
        Set_address ip nm gw \<Rightarrow> Some (snd (ip_set_address (fst sw) ip nm gw), snd sw)
      | Add_route d m g \<Rightarrow> do { (_, s) \<leftarrow> ip_add_route (fst sw) d m g; Some (s, snd sw) }
      | Set_callbacks i t u r \<Rightarrow> Some (ip_set_callbacks (fst sw) i t u r, snd sw)
      | Route dst \<Rightarrow> do { _ \<leftarrow> ip_route (fst sw) dst (Ref 0); Some sw }
      | Resolve ip \<Rightarrow> do { (_, s, _, w) \<leftarrow> ip_arp_resolve (snd sw) (fst sw) ip (Ref (replicate 6 0)); Some (s, w) }
      | Send dst proto p \<Rightarrow> do { (_, s, w) \<leftarrow> ip_send (snd sw) (fst sw) dst proto (Ref p) (of_nat (length p)); Some (s, w) }
      | Recv f \<Rightarrow> do { (_, s, w) \<leftarrow> ip_recv (snd sw) (fst sw) (Ref f) (of_nat (length f)); Some (s, w) })"

fun ip_run :: "'w ip_op list \<Rightarrow> 'w ipstack_t ptr \<times> 'w \<Rightarrow> ('w ipstack_t ptr \<times> 'w) comp" where
  "ip_run [] sw = Some sw"
| "ip_run (a # as) sw = do { sw' \<leftarrow> ip_do a sw; ip_run as sw' }"

definition ip_buffer :: "'w ip_op \<Rightarrow> u8 list" where
  "ip_buffer a = (case a of Send _ _ p \<Rightarrow> p | Recv f \<Rightarrow> f | _ \<Rightarrow> [])"

lemma ip_do_ok:
  assumes "ip_ok st" and "length (ip_buffer a) < 2 ^ 32"
  shows "\<exists>st' w'. ip_do a (Ref st, w) = Some (Ref st', w') \<and> ip_ok st'"
proof (cases a)
  case (Add_route d m g)
  then show ?thesis using ip_add_route_safe [OF assms(1), of d m g] by (auto simp: ip_do_def)
next
  case (Route dst)
  obtain x where "ip_route (Ref st) dst (Ref 0) = Some x" by (rule ip_route_eq [OF assms(1), of dst 0])
  then show ?thesis using assms(1) by (simp add: Route ip_do_def)
next
  case (Resolve ip)
  show ?thesis
    by (rule ip_arp_resolve_safe [OF assms(1), of "replicate 6 0" w ip]) (auto simp: Resolve ip_do_def)
next
  case (Send dst proto p)
  then show ?thesis using ip_send_safe [OF assms(1), of p w dst proto] assms(2) by (auto simp: ip_do_def ip_buffer_def)
next
  case (Recv f)
  then have "length f = unat (of_nat (length f) :: u32)" using assms(2) by (simp add: ip_buffer_def unat_of_nat_u32)
  then show ?thesis using ip_recv_safe [OF assms(1), of f "of_nat (length f)" w] Recv by (auto simp: ip_do_def)
qed (use assms(1) in \<open>simp_all add: ip_do_def ip_set_address_def ip_set_callbacks_def ip_ok_def\<close>)

lemma ip_run_ok:
  "ip_ok st \<Longrightarrow> \<forall>a \<in> set as. length (ip_buffer a) < 2 ^ 32 \<Longrightarrow>
     \<exists>st' w'. ip_run as (Ref st, w) = Some (Ref st', w') \<and> ip_ok st'"
proof (induction as arbitrary: st w)
  case (Cons a as)
  obtain s1 w1 where "ip_do a (Ref st, w) = Some (Ref s1, w1)" "ip_ok s1"
    using ip_do_ok [OF Cons.prems(1), of a w] Cons.prems(2) by auto
  then show ?case using Cons.IH [of s1 w1] Cons.prems(2) by simp
qed simp

section \<open>Properties\<close>

text \<open>C6: Round trip of a datagram through the stack. Let the sender know the hardware address of the next hop
  to the destination. Then \<open>ip_send\<close> of at most 1502 bytes passes one Ethernet frame to the link driver and
  returns its status. Any stack whose address is the destination, or any stack at all for a broadcast, accepts
  this frame, with or without padding behind it: \<open>ip_recv\<close> passes the payload to the callback of its protocol
  with the address of the sender, the destination, the ports and the exact length, and refuses the payloads
  that are too short for their protocol. There is no undefined behaviour.
\<close>

theorem ip_round_trip:
  assumes "ip_ok a" and "link_tx a = Ref tx" and "ip_dst_mac a dst m" and "length p \<le> 1502"
    and "ip_ok b" and "dst = local_ip b \<or> dst = IP_BROADCAST" and "34 + length p + length pad < 2 ^ 32"
  shows "\<exists>f junk a'. length f = 34 + length p \<and>
     ip_send w (Ref a) dst proto (Ref p) (of_nat (length p)) =
       Some (fst (tx w (f @ junk) (of_nat (length f))), Ref a', snd (tx w (f @ junk) (of_nat (length f)))) \<and>
     ip_ok a' \<and>
     ip_recv v (Ref b) (Ref (f @ pad)) (of_nat (length (f @ pad))) =
       Some (fst (ip_upcall b (local_ip a) dst proto (p @ pad) (length p) v), Ref b,
             snd (ip_upcall b (local_ip a) dst proto (p @ pad) (length p) v))"
proof -
  note n = ip_next_mac_known [OF assms(1,3)]
  let ?f = "ip_frame m (local_mac a) (next_id a) proto (local_ip a) dst p"
  have mac: "length (local_mac a) = 6" by (rule ip_okD(3) [OF assms(1)])
  have len: "length ?f = 34 + length p" using n(2) mac by (rule length_ip_frame)
  obtain junk where j: "ip_send w (Ref a) dst proto (Ref p) (of_nat (length p)) =
       (let f = ?f @ junk; r = tx w f (of_nat (34 + length p))
        in Some (fst r, Ref (a\<lparr>tx_scratch := f, next_id := next_id a + 1\<rparr>), snd r))" "length junk = 1502 - length p"
    by (rule ip_send_frame [OF assms(1,2,4) n(1) assms(1,2) n(2)])
  have ok: "ip_ok (a\<lparr>tx_scratch := ?f @ junk, next_id := next_id a + 1\<rparr>)"
    using j(2) len assms(1,4) by (simp add: ip_ok_next_id ip_ok_scratch)
  have u: "unat (of_nat (length (?f @ pad)) :: u32) = 34 + length p + length pad"
    using assms(7) len by (subst unat_of_nat_u32) simp_all
  have "ip_recv v (Ref b) (Ref (?f @ pad)) (of_nat (length (?f @ pad))) =
      (let r = ip_upcall b (local_ip a) dst proto (p @ pad) (length p) v in Some (fst r, Ref b, snd r))"
    by (rule ip_recv_frame [OF assms(5) n(2) mac assms(4) u assms(6)])
  moreover have "ip_send w (Ref a) dst proto (Ref p) (of_nat (length p)) =
      Some (fst (tx w (?f @ junk) (of_nat (length ?f))), Ref (a\<lparr>tx_scratch := ?f @ junk, next_id := next_id a + 1\<rparr>),
        snd (tx w (?f @ junk) (of_nat (length ?f))))"
    unfolding j(1) len Let_def ..
  ultimately show ?thesis using len ok unfolding Let_def by blast
qed

definition sample_stack :: "ipv4_addr_t \<Rightarrow> u8 list \<Rightarrow> u8 list list ipstack_t" where
  "sample_stack ip m =
     \<lparr>local_ip = ip, netmask = 0xFF, gateway = 0, local_mac = m, next_id = 1, initialized = True, link_tx = Ref wire,
      icmp_cb = NULL, tcp_cb = Ref (\<lambda>w _ _ _ _ seg n. take (unat n) seg # w), udp_cb = NULL, arp_cb = NULL,
      routes = replicate 8 \<lparr>r_dest = 0, r_mask = 0, r_gateway = 0, r_iface = 0, r_used = False\<rparr>,
      arp_cache = replicate 16 \<lparr>a_ip = 0, a_mac = replicate 6 0, a_age = 0, a_valid = False\<rparr>,
      tx_scratch = replicate 1536 0\<rparr>"

lemma sample_stack_ok:
  "length m = 6 \<Longrightarrow> ip_ok (sample_stack ip m)" "link_tx (sample_stack ip m) = Ref wire"
  "local_ip (sample_stack ip m) = ip" "local_mac (sample_stack ip m) = m"
  "tcp_cb (sample_stack ip m) = Ref (\<lambda>w _ _ _ _ seg n. take (unat n) seg # w)"
  "q \<noteq> ip \<Longrightarrow> ip_mac_of (sample_stack ip m) q = None"
  by (auto simp: sample_stack_def ip_ok_def routes_ok_def arp_ok_def ip_mac_of_def arp_map_def first_index_None_iff)

theorem ip_round_trip_witness:
  "\<exists>f junk a'.
     ip_send [] (Ref (sample_stack 0x0101 (replicate 6 1))) IP_BROADCAST 6 (Ref (replicate 20 9)) 20 =
       Some (IP_OK, Ref a', [f]) \<and> ip_ok a' \<and>
     ip_recv [] (Ref (sample_stack 0x0201 (replicate 6 2))) (Ref (f @ [0, 0])) (of_nat (length f + 2)) =
       Some (IP_OK, Ref (sample_stack 0x0201 (replicate 6 2)), [replicate 20 9])"
proof -
  let ?a = "sample_stack 0x0101 (replicate 6 1)" and ?b = "sample_stack 0x0201 (replicate 6 2)" and ?p = "replicate 20 (9 :: u8)"
  have m: "ip_dst_mac ?a IP_BROADCAST (replicate 6 0xFF)" by (simp add: ip_dst_mac_def)
  have ok: "ip_ok ?a" "ip_ok ?b" by (simp_all add: sample_stack_ok)
  have "length ?p \<le> 1502" "34 + length ?p + length [0, 0 :: u8] < 2 ^ 32" by simp_all
  from ip_round_trip [OF ok(1) sample_stack_ok(2) m this(1) ok(2) disjI2 [OF refl] this(2), of "[]" 6 "[]"]
  obtain f junk a' where r: "length f = 34 + length ?p"
    "ip_send [] (Ref ?a) IP_BROADCAST 6 (Ref ?p) (of_nat (length ?p)) =
       Some (fst (wire [] (f @ junk) (of_nat (length f))), Ref a', snd (wire [] (f @ junk) (of_nat (length f))))" "ip_ok a'"
    "ip_recv [] (Ref ?b) (Ref (f @ [0, 0])) (of_nat (length (f @ [0, 0]))) =
       Some (fst (ip_upcall ?b (local_ip ?a) IP_BROADCAST 6 (?p @ [0, 0]) (length ?p) []), Ref ?b,
             snd (ip_upcall ?b (local_ip ?a) IP_BROADCAST 6 (?p @ [0, 0]) (length ?p) []))" by blast
  have "wire [] (f @ junk) (of_nat (length f)) = (IP_OK, [f])" using r(1) by (intro wire_frame) simp
  moreover have "ip_upcall ?b (local_ip ?a) IP_BROADCAST 6 (?p @ [0, 0]) (length ?p) [] = (IP_OK, [?p])"
    by (simp add: ip_upcall_def sample_stack_ok)
  ultimately show ?thesis using r by auto
qed

text \<open>C7: Every run of a client from \<open>ip_init\<close>, any sequence of address changes, new routes, route lookups, new callbacks, ARP
  resolutions, sends and incoming frames with arbitrary contents, has no undefined behaviour. It ends in a
  stack whose ARP cache binds no address twice and whose routing table has no two routes in use with the same
  network and mask.
\<close>

theorem ip_run_safe:
  assumes "ip_init (Ref s0) (Ref cfg) (Ref tx) = Some (rc, p)" and "length (cfg_mac cfg) = 6"
    and "\<forall>a \<in> set as. length (ip_buffer a) < 2 ^ 32"
  shows "\<exists>st w'. ip_run as (p, w) = Some (Ref st, w') \<and> length (tx_scratch st) = 1536 \<and>
     routes_ok (routes st) \<and> arp_ok (arp_cache st)"
proof -
  obtain st where st: "p = Ref st" "ip_ok st" using ip_init_ok [OF assms(1,2)] by metis
  then show ?thesis using ip_run_ok [OF st(2) assms(3), of w] unfolding st(1) ip_ok_def by blast
qed

theorem ip_run_safe_witness:
  "\<exists>st w'. ip_run [Add_route 1 0xFF 7, Route 0x0201, Send 0x0201 6 [1, 2], Recv (replicate 60 8), Resolve 9, Recv [1]]
       (snd (the (ip_init (Ref (sample_stack 0 [])) (Ref \<lparr>cfg_ip = 1, cfg_netmask = 0xFF, cfg_gateway = 0, cfg_mac = [1, 2, 3, 4, 5, 6]\<rparr>)
          (Ref wire))), []) = Some (Ref st, w') \<and> arp_ok (arp_cache st)"
proof -
  let ?cfg = "\<lparr>cfg_ip = 1, cfg_netmask = 0xFF, cfg_gateway = 0, cfg_mac = [1, 2, 3, 4, 5, 6]\<rparr>"
  let ?ops = "[Add_route 1 0xFF 7, Route 0x0201, Send 0x0201 6 [1, 2], Recv (replicate 60 8), Resolve 9, Recv [1]] :: u8 list list ip_op list"
  have "copy_mac (replicate 6 0) [1, 2, 3, 4, 5, 6] = Some [1, 2, 3, 4, 5, 6]" by (intro copy_mac_eq) simp_all
  then obtain rc p where i: "ip_init (Ref (sample_stack 0 [])) (Ref ?cfg) (Ref wire) = Some (rc, p)"
    by (simp add: ip_init_def copy_mac_def)
  have "\<forall>a \<in> set ?ops. length (ip_buffer a) < 2 ^ 32" by (simp add: ip_buffer_def)
  from ip_run_safe [OF i _ this, of "[]"] show ?thesis unfolding i by auto
qed

text \<open>C9: \<open>ip_route\<close> chooses the next hop by longest prefix match. Let every route in use have a contiguous
  mask, ones followed by zeros in network order. Among the routes in use that cover the destination, those
  whose network has the same first bits, as many as the prefix is long, it takes one with the longest prefix;
  the next hop is the gateway of that route, or the destination itself when the route has none. When no
  route covers the destination, the next hop is the destination itself on the local subnet, else the default
  gateway, and with neither \<open>ip_route\<close> reports that there is no route and leaves the output alone.
\<close>

theorem ip_route_longest_prefix:
  assumes "ip_ok st" and "\<forall>e \<in> set (routes st). r_used e \<longrightarrow> is_prefix_mask (r_mask e)"
  shows "\<exists>r. longest_prefix (routes st) dst r \<and>
     ip_route (Ref st) dst (Ref h) =
       Some (case next_hop_of st dst r of Some hop \<Rightarrow> (IP_OK, Ref hop) | None \<Rightarrow> (IP_ERR_NO_ROUTE, Ref h))"
  using ip_route_eq [OF assms(1), of dst h] longest_prefix_choice [OF assms(2)] by metis

text \<open>
  Three overlapping networks: 10.0.0.0/8 through 10.0.0.1, 10.1.0.0/16 through 10.0.0.2, and the
  default route through 10.0.0.3. A packet for 10.1.2.3 takes the second.
\<close>

definition sample_routes :: "ip_route_entry_t list" where
  "sample_routes =
     [\<lparr>r_dest = 0x0A, r_mask = 0xFF, r_gateway = 0x0100000A, r_iface = 0, r_used = True\<rparr>,
      \<lparr>r_dest = 0x010A, r_mask = 0xFFFF, r_gateway = 0x0200000A, r_iface = 0, r_used = True\<rparr>,
      \<lparr>r_dest = 0, r_mask = 0, r_gateway = 0x0300000A, r_iface = 0, r_used = True\<rparr>] @
     replicate 5 \<lparr>r_dest = 0, r_mask = 0, r_gateway = 0, r_iface = 0, r_used = False\<rparr>"

theorem ip_route_longest_prefix_witness:
  "ip_route (Ref (sample_stack 0x0101 (replicate 6 1)\<lparr>routes := sample_routes\<rparr>)) 0x0302010A (Ref 0) =
     Some (IP_OK, Ref 0x0200000A)"
proof -
  let ?st = "sample_stack 0x0101 (replicate 6 1)\<lparr>routes := sample_routes\<rparr>"
  have ok: "ip_ok ?st"
    by (auto simp: sample_routes_def sample_stack_def ip_ok_def routes_ok_def arp_ok_def nth_Cons' less_Suc_eq split: if_splits)
  have len: "prefix_len 0xFF = 8" "prefix_len 0xFFFF = 16" "prefix_len 0 = 0"
    by code_simp+
  have m: "is_prefix_mask 0xFF" "is_prefix_mask 0xFFFF" "is_prefix_mask 0"
    by code_simp+
  have masks: "\<forall>e \<in> set (routes ?st). r_used e \<longrightarrow> is_prefix_mask (r_mask e)" by (simp add: sample_routes_def m)
  obtain r where r: "longest_prefix (routes ?st) 0x0302010A r"
    "ip_route (Ref ?st) 0x0302010A (Ref 0) =
       Some (case next_hop_of ?st 0x0302010A r of Some hop \<Rightarrow> (IP_OK, Ref hop) | None \<Rightarrow> (IP_ERR_NO_ROUTE, Ref 0))"
    using ip_route_longest_prefix [OF ok masks, of "0x0302010A" 0] by blast
  have cov: "route_covers (sample_routes ! 1) 0x0302010A"
    by code_simp
  have "r = Some (sample_routes ! 1)"
    using r(1) cov by (cases r) (auto simp: longest_prefix_def sample_routes_def route_covers_def len)
  then show ?thesis unfolding r(2) by (simp add: next_hop_of_def sample_routes_def)
qed

text \<open>C8: Address resolution works: when host \<open>a\<close> does not know the hardware address of host \<open>b\<close>,
  \<open>ip_arp_resolve\<close> answers that the request is pending and sends a request frame; \<open>b\<close> learns the address of
  \<open>a\<close> from it and answers with a reply frame; and when \<open>a\<close> has received the reply, \<open>ip_arp_resolve\<close>
  returns the hardware address of \<open>b\<close>.
\<close>

theorem ip_arp_exchange:
  assumes "ip_ok a" and "ip_ok b" and "link_tx a = Ref wire" and "link_tx b = Ref wire"
    and "local_ip a \<noteq> local_ip b" and "ip_mac_of a (local_ip b) = None" and "length out = 6"
  shows "\<exists>q r a1 a2 b1 w'.
     ip_arp_resolve w (Ref a) (local_ip b) (Ref out) = Some (IP_ERR_PENDING, Ref a1, Ref out, q # w) \<and>
     ip_recv v (Ref b) (Ref q) (of_nat (length q)) = Some (IP_OK, Ref b1, r # v) \<and>
     ip_mac_of b1 (local_ip a) = Some (local_mac a) \<and>
     ip_recv (q # w) (Ref a1) (Ref r) (of_nat (length r)) = Some (IP_OK, Ref a2, w') \<and>
     ip_arp_resolve w' (Ref a2) (local_ip b) (Ref out) = Some (IP_OK, Ref a2, Ref (local_mac b), w')"
proof -
  have mac: "length (local_mac a) = 6" "length (local_mac b) = 6" using assms(1,2) by (simp_all add: ip_okD)
  let ?bc = "replicate 6 (0xFF :: u8)"
  let ?q = "arp_frame ARP_OP_REQUEST (local_mac a) (local_ip a) ?bc (local_ip b)"
  let ?r = "arp_frame ARP_OP_REPLY (local_mac b) (local_ip b) (local_mac a) (local_ip a)"
  obtain junk where j: "ip_arp_resolve w (Ref a) (local_ip b) (Ref out) =
       (let f = ?q @ junk; x = wire w f 42
        in Some (if fst x \<noteq> IP_OK then IP_ERR_NO_ROUTE else IP_ERR_PENDING, Ref (a\<lparr>tx_scratch := f\<rparr>), Ref out, snd x))"
      "length junk = 1494" by (rule ip_arp_resolve_unknown [OF assms(1,3,6)])
  let ?a1 = "a\<lparr>tx_scratch := ?q @ junk\<rparr>" and ?b0 = "learn b (local_ip a) (local_mac a)"
  have q42: "length ?q = 42" "length ?r = 42" using mac by simp_all
  have req: "ip_arp_resolve w (Ref a) (local_ip b) (Ref out) = Some (IP_ERR_PENDING, Ref ?a1, Ref out, ?q # w)"
    unfolding j(1) Let_def using q42 by (simp add: wire_frame)
  have a1: "ip_ok ?a1" using assms(1) j(2) q42 by (simp add: ip_ok_scratch)
  note b0 = learn_ok [OF assms(2) mac(1), of "local_ip a"]
  obtain junk2 where k: "ip_arp_transmit v ?b0 ARP_OP_REPLY (local_mac a) (local_ip a) =
       (let f = arp_frame ARP_OP_REPLY (local_mac ?b0) (local_ip ?b0) (local_mac a) (local_ip a) @ junk2; x = wire v f 42
        in Some (fst x, ?b0\<lparr>tx_scratch := f\<rparr>, snd x))" "length junk2 = 1494"
    by (rule ip_arp_transmit_eq [OF b0(1) _ mac(1)]) (use b0(5) assms(4) in simp)
  let ?b1 = "?b0\<lparr>tx_scratch := ?r @ junk2\<rparr>"
  have ans: "ip_recv v (Ref b) (Ref ?q) 42 = Some (IP_OK, Ref ?b1, ?r # v)"
    unfolding ip_recv_arp [OF assms(2) mac(1), of ?bc, simplified]
    using ip_handle_arp_packet [OF assms(2) mac(1), of ?bc 28 "[]" v ARP_OP_REQUEST "local_ip a" "local_ip b"] k(1) b0(3,4) q42
    by (simp add: ip_arp_send_reply_def Let_def wire_frame)
  let ?a2 = "learn ?a1 (local_ip b) (local_mac b)"
  obtain w' where rcv: "ip_recv (?q # w) (Ref ?a1) (Ref ?r) 42 = Some (IP_OK, Ref ?a2, w')"
    unfolding ip_recv_arp [OF a1 mac(2,1)]
    using ip_handle_arp_packet [OF a1 mac(2,1), of 28 "[]" "?q # w" ARP_OP_REPLY "local_ip b" "local_ip a"] by simp
  have a2: "ip_ok ?a2" "ip_mac_of ?a2 (local_ip b) = Some (local_mac b)"
    using learn_ok(1,2) [OF a1 mac(2), of "local_ip b"] assms(5) by auto
  have "ip_mac_of ?b1 (local_ip a) = Some (local_mac a)" using b0(2) assms(5) by (auto simp: ip_mac_of_def split: if_splits)
  moreover have "ip_arp_resolve w' (Ref ?a2) (local_ip b) (Ref out) = Some (IP_OK, Ref ?a2, Ref (local_mac b), w')"
    by (rule ip_arp_resolve_known [OF a2(1) assms(7) a2(2)])
  moreover have "of_nat (length ?q) = (42 :: u32)" "of_nat (length ?r) = (42 :: u32)" unfolding q42 by simp_all
  ultimately show ?thesis using req ans rcv by metis
qed

theorem ip_arp_exchange_witness:
  "\<exists>q r a1 a2 b1 w'.
     ip_arp_resolve [] (Ref (sample_stack 0x0101 (replicate 6 1))) 0x0201 (Ref (replicate 6 0)) =
       Some (IP_ERR_PENDING, Ref a1, Ref (replicate 6 0), [q]) \<and>
     ip_recv [] (Ref (sample_stack 0x0201 (replicate 6 2))) (Ref q) (of_nat (length q)) = Some (IP_OK, Ref b1, [r]) \<and>
     ip_mac_of b1 0x0101 = Some (replicate 6 1) \<and>
     ip_recv [q] (Ref a1) (Ref r) (of_nat (length r)) = Some (IP_OK, Ref a2, w') \<and>
     ip_arp_resolve w' (Ref a2) 0x0201 (Ref (replicate 6 0)) = Some (IP_OK, Ref a2, Ref (replicate 6 2), w')"
proof -
  let ?a = "sample_stack 0x0101 (replicate 6 1)" and ?b = "sample_stack 0x0201 (replicate 6 2)"
  have "ip_ok ?a" "ip_ok ?b" "local_ip ?a \<noteq> local_ip ?b" "ip_mac_of ?a (local_ip ?b) = None"
    by (simp_all add: sample_stack_ok)
  from ip_arp_exchange [OF this(1,2) sample_stack_ok(2) sample_stack_ok(2) this(3,4), of "replicate 6 0" "[]" "[]"]
  show ?thesis by (simp add: sample_stack_ok(3,4))
qed

text \<open>A full ARP cache forgets the binding that was learned last, not the oldest one: no code advances the age
  of an entry, so the search for the oldest entry always ends at the last slot. When all slots are in use,
  two bindings for new addresses are stored in turn and the second overwrites the first, while the fifteen
  older entries stay.
\<close>

theorem ip_arp_store_forgets_newest:
  assumes "ip_ok st" and "\<forall>e \<in> set (arp_cache st). a_valid e" and "length m1 = 6" and "length m2 = 6" and "ip1 \<noteq> ip2"
    and "arp_map (arp_cache st) ip1 = None" and "arp_map (arp_cache st) ip2 = None"
  shows "\<exists>st1 st2. ip_arp_store st ip1 m1 = Some st1 \<and> ip_arp_store st1 ip2 m2 = Some st2 \<and>
     arp_map (arp_cache st1) ip1 = Some m1 \<and> arp_map (arp_cache st2) ip1 = None \<and>
     (\<forall>i < 15. arp_cache st2 ! i = arp_cache st ! i)"
proof -
  let ?es = "arp_cache st" and ?fs = "(arp_cache st)[15 := arp_binding ip1 m1]"
  have ok: "arp_ok ?es" and len: "length ?es = 16" using assms(1) by (simp_all add: ip_okD)
  have all: "a_valid (?es ! i)" if "i < 16" for i using assms(2) len that nth_mem [of i ?es] by simp
  have none: "first_index (\<lambda>e. a_valid e \<and> a_ip e = ip) xs = None" if "arp_map xs ip = None" for ip xs
    using that by (simp add: arp_map_def)
  have "first_index (\<lambda>e. \<not> a_valid e) ?es = None" using assms(2) by (simp add: first_index_None_iff)
  then have s1: "arp_slot ?es ip1 = 15" using none [OF assms(6)] by (simp add: arp_slot_def)
  let ?st1 = "st\<lparr>arp_cache := ?fs\<rparr>"
  have st1: "ip_ok ?st1" using ip_ok_arp [OF assms(1,3), of ip1] by (simp add: s1)
  have e1: "ip_arp_store st ip1 m1 = Some ?st1" using ip_arp_store_eq [OF assms(1,3), of ip1] by (simp add: s1)
  have map1: "arp_map ?fs = (if (\<exists>e \<in> set ?es. a_valid e \<and> a_ip e = ip1) \<or> (\<exists>e \<in> set ?es. \<not> a_valid e) then arp_map ?es
      else (arp_map ?es)(a_ip (?es ! 15) := None))(ip1 \<mapsto> m1)" using arp_map_store [OF ok assms(3), of ip1] by (simp only: s1)
  have n2: "arp_map ?fs ip2 = None" unfolding map1 using assms(5,7) by auto
  have v2: "\<forall>e \<in> set ?fs. a_valid e" using assms(2) set_update_subset_insert [of ?es 15 "arp_binding ip1 m1"] by auto
  then have "first_index (\<lambda>e. \<not> a_valid e) ?fs = None" by (simp add: first_index_None_iff)
  then have s2: "arp_slot ?fs ip2 = 15" using none [OF n2] by (simp add: arp_slot_def)
  have no2: "\<not> ((\<exists>e \<in> set ?fs. a_valid e \<and> a_ip e = ip2) \<or> (\<exists>e \<in> set ?fs. \<not> a_valid e))"
    using v2 none [OF n2] by (auto simp: first_index_None_iff)
  have f15: "a_ip (?fs ! 15) = ip1" using len by simp
  have "arp_map (?fs[15 := arp_binding ip2 m2]) = ((arp_map ?fs)(ip1 := None))(ip2 \<mapsto> m2)"
    using arp_map_store [OF ip_okD(6) [OF st1] assms(4), of ip2] no2 f15 s2 by simp
  then have "arp_map (?fs[15 := arp_binding ip2 m2]) ip1 = None" using assms(5) by simp
  moreover have "ip_arp_store ?st1 ip2 m2 = Some (?st1\<lparr>arp_cache := ?fs[15 := arp_binding ip2 m2]\<rparr>)"
    using ip_arp_store_eq [OF st1 assms(4), of ip2] s2 by simp
  moreover have "arp_map ?fs ip1 = Some m1" unfolding map1 by simp
  ultimately show ?thesis using e1 by (intro exI [of _ ?st1] exI [of _ "?st1\<lparr>arp_cache := ?fs[15 := arp_binding ip2 m2]\<rparr>"]) simp
qed

definition full_stack :: "u8 list list ipstack_t" where
  "full_stack = (sample_stack 0 (replicate 6 1))\<lparr>arp_cache := map (\<lambda>i. arp_binding (of_nat i + 1) (replicate 6 2)) [0..<16]\<rparr>"

theorem ip_arp_store_forgets_newest_witness:
  "\<exists>st1 st2. ip_arp_store full_stack 100 (replicate 6 3) = Some st1 \<and> ip_arp_store st1 200 (replicate 6 4) = Some st2 \<and>
     arp_map (arp_cache st1) 100 = Some (replicate 6 3) \<and> arp_map (arp_cache st2) 100 = None \<and>
     (\<forall>i < 15. arp_cache st2 ! i = arp_cache full_stack ! i)"
proof -
  have nth: "arp_cache full_stack ! i = arp_binding (of_nat i + 1) (replicate 6 2)" if "i < 16" for i
    using that by (simp add: full_stack_def)
  have ip: "unat (a_ip (arp_cache full_stack ! i)) = i + 1" if "i < 16" for i
    using that unat_of_nat_u32 [of "i + 1"] by (simp add: nth add.commute)
  have "arp_ok (arp_cache full_stack)"
    unfolding arp_ok_def using ip by (auto simp: full_stack_def) (metis Suc_inject)
  then have ok: "ip_ok full_stack" using sample_stack_ok(1) [of "replicate 6 1" 0] by (simp add: ip_ok_def full_stack_def)
  have len: "length (arp_cache full_stack) = 16" by (simp add: full_stack_def)
  have none: "arp_map (arp_cache full_stack) q = None" if "unat q > 16" for q
  proof -
    have "a_ip e \<noteq> q" if "e \<in> set (arp_cache full_stack)" for e
      using that ip \<open>unat q > 16\<close> unfolding in_set_conv_nth len by fastforce
    then show ?thesis by (simp add: arp_map_def first_index_None_iff)
  qed
  have v: "\<forall>e \<in> set (arp_cache full_stack). a_valid e" by (simp add: full_stack_def)
  show ?thesis
    by (rule ip_arp_store_forgets_newest [OF ok v]) (simp_all add: none)
qed

end
