(* ===== verification/Udp.thy ===== *)
theory Udp
  imports Inet
begin

text \<open>
  The UDP core \<open>src/Drivers/udpcore/udpcore.c\<close>: a table of eight sockets with a mailbox of
  one datagram each. The IP layer below (\<open>ip_tx\<close>) and the receive callback are function
  pointers; they act on an arbitrary state of the outside world, of type \<open>'w\<close>, in which the
  context pointers are absorbed. The main property is the round trip: what \<open>udp_send\<close> hands
  to the IP layer is accepted by \<open>udp_input\<close> of the destination and returned unchanged by
  \<open>udp_recv\<close> there.
\<close>

section \<open>Model\<close>

type_synonym udp_status_t = u32

abbreviation UDP_OK :: udp_status_t where "UDP_OK \<equiv> 0"
abbreviation UDP_ERR_PARAM :: udp_status_t where "UDP_ERR_PARAM \<equiv> 1"
abbreviation UDP_ERR_NOT_READY :: udp_status_t where "UDP_ERR_NOT_READY \<equiv> 2"
abbreviation UDP_ERR_NO_PORT :: udp_status_t where "UDP_ERR_NO_PORT \<equiv> 3"
abbreviation UDP_ERR_FULL :: udp_status_t where "UDP_ERR_FULL \<equiv> 4"
abbreviation UDP_ERR_NO_SPACE :: udp_status_t where "UDP_ERR_NO_SPACE \<equiv> 5"
abbreviation UDP_ERR_BAD_PACKET :: udp_status_t where "UDP_ERR_BAD_PACKET \<equiv> 6"
abbreviation UDP_ERR_AGAIN :: udp_status_t where "UDP_ERR_AGAIN \<equiv> 7"

type_synonym 'w udp_ip_tx_fn = "'w \<Rightarrow> u32 \<Rightarrow> u8 \<Rightarrow> u8 list \<Rightarrow> u32 \<Rightarrow> udp_status_t \<times> 'w"
type_synonym 'w udp_recv_cb_fn = "'w \<Rightarrow> i32 \<Rightarrow> u32 \<Rightarrow> u16 \<Rightarrow> u8 list \<Rightarrow> u32 \<Rightarrow> 'w"

record udp_socket_t =
  used :: bool
  has_packet :: bool
  local_port :: u16
  s_local_ip :: u32
  s_src_ip :: u32
  s_src_port :: u16
  s_len :: u32
  buf :: "u8 list"

record 'w udpcore_t =
  local_ip :: u32
  initialized :: bool
  ip_tx :: "'w udp_ip_tx_fn ptr"
  recv_cb :: "'w udp_recv_cb_fn ptr"
  socks :: "udp_socket_t list"
  scratch :: "u8 list"

definition zero_socket :: udp_socket_t where
  "zero_socket = \<lparr>used = False, has_packet = False, local_port = 0, s_local_ip = 0, s_src_ip = 0,
     s_src_port = 0, s_len = 0, buf = replicate 1472 0\<rparr>"

definition udp_checksum :: "u32 \<Rightarrow> u32 \<Rightarrow> u8 list \<Rightarrow> u32 \<Rightarrow> u16 comp" where
  "udp_checksum src dst seg len = inet_checksum 17 src dst seg len"

definition udp_checksum_encode :: "u32 \<Rightarrow> u32 \<Rightarrow> u8 list \<Rightarrow> u32 \<Rightarrow> u16 comp" where
  "udp_checksum_encode src dst seg len = do { c \<leftarrow> udp_checksum src dst seg len; Some (encode_checksum c) }"

text \<open>A pointer to a socket is its index in the table.\<close>

definition udp_socket_at :: "'w udpcore_t \<Rightarrow> i32 \<Rightarrow> nat ptr comp" where
  "udp_socket_at core sock =
     (if sint sock \<le> 0 \<or> sock > 8 then Some NULL
      else do { s \<leftarrow> c_rd (socks core) (unat (sock - 1));
                Some (if \<not> used s then NULL else Ref (unat (sock - 1))) })"

definition udp_find_port :: "'w udpcore_t \<Rightarrow> u16 \<Rightarrow> i32 comp" where
  "udp_find_port core port =
     do { r \<leftarrow> c_find (\<lambda>s. used s \<and> local_port s = port) (socks core) 8 0;
          Some (case r of None \<Rightarrow> -1 | Some i \<Rightarrow> of_nat (i + 1)) }"

definition udp_init :: "'w udpcore_t ptr \<Rightarrow> u32 \<Rightarrow> 'w udp_ip_tx_fn ptr \<Rightarrow> udp_status_t \<times> 'w udpcore_t ptr" where
  "udp_init core ip tx =
     (case (core, tx) of
        (Ref c, Ref _) \<Rightarrow>
          (UDP_OK, Ref \<lparr>local_ip = ip, initialized = True, ip_tx = tx, recv_cb = NULL,
                       socks = replicate 8 zero_socket, scratch = replicate 1480 0\<rparr>)
      | _ \<Rightarrow> (UDP_ERR_PARAM, core))"

definition udp_bind :: "'w udpcore_t ptr \<Rightarrow> u32 \<Rightarrow> u16 \<Rightarrow> (i32 \<times> 'w udpcore_t ptr) comp" where
  "udp_bind core ip port =
     (case core of NULL \<Rightarrow> Some (-1, core)
      | Ref c \<Rightarrow>
         if \<not> initialized c \<or> port = 0 then Some (-1, core)
         else do {
           r \<leftarrow> udp_find_port c port;
           if sint r \<ge> 0 then Some (-1, core)
           else do {
             i \<leftarrow> c_find (\<lambda>s. \<not> used s) (socks c) 8 0;
             case i of None \<Rightarrow> Some (-1, core)
             | Some i \<Rightarrow>
                do { ss \<leftarrow> c_wr (socks c) i (zero_socket\<lparr>used := True, s_local_ip := ip, local_port := port\<rparr>);
                     Some (of_nat (i + 1), Ref (c\<lparr>socks := ss\<rparr>)) } } })"

definition udp_close :: "'w udpcore_t ptr \<Rightarrow> i32 \<Rightarrow> (udp_status_t \<times> 'w udpcore_t ptr) comp" where
  "udp_close core sock =
     (case core of NULL \<Rightarrow> Some (UDP_ERR_PARAM, core)
      | Ref c \<Rightarrow>
         do { s \<leftarrow> udp_socket_at c sock;
              case s of NULL \<Rightarrow> Some (UDP_ERR_NO_PORT, core)
              | Ref i \<Rightarrow> do { ss \<leftarrow> c_wr (socks c) i zero_socket; Some (UDP_OK, Ref (c\<lparr>socks := ss\<rparr>)) } })"

definition udp_send ::
  "'w \<Rightarrow> 'w udpcore_t ptr \<Rightarrow> i32 \<Rightarrow> u32 \<Rightarrow> u16 \<Rightarrow> u8 list ptr \<Rightarrow> u32 \<Rightarrow>
   (udp_status_t \<times> 'w udpcore_t ptr \<times> 'w) comp" where
  "udp_send w core sock dst_ip dst_port data len =
     (case core of NULL \<Rightarrow> Some (UDP_ERR_PARAM, core, w)
      | Ref c \<Rightarrow>
         if data = NULL \<and> len \<noteq> 0 then Some (UDP_ERR_PARAM, core, w)
         else if \<not> initialized c then Some (UDP_ERR_NOT_READY, core, w)
         else do {
           s \<leftarrow> udp_socket_at c sock;
           case s of NULL \<Rightarrow> Some (UDP_ERR_NO_PORT, core, w)
           | Ref i \<Rightarrow>
              if len > 1472 then Some (UDP_ERR_PARAM, core, w)
              else do {
                so \<leftarrow> c_rd (socks c) i;
                let udp_len = 8 + len in
                do { b \<leftarrow> st16 (scratch c) 0 (ow_bswap16 (local_port so));
                     b \<leftarrow> st16 b 2 (ow_bswap16 dst_port);
                     b \<leftarrow> st16 b 4 (ow_bswap16 (ucast udp_len));
                     b \<leftarrow> st16 b 6 0;
                     b \<leftarrow> (if len \<noteq> 0 then (case data of NULL \<Rightarrow> None | Ref d \<Rightarrow> c_memcpy b 8 d (unat len)) else Some b);
                     csum \<leftarrow> udp_checksum_encode (local_ip c) dst_ip b udp_len;
                     b \<leftarrow> st16 b 6 (ow_bswap16 csum);
                     case ip_tx c of NULL \<Rightarrow> None
                     | Ref tx \<Rightarrow>
                        (let (st, w') = tx w dst_ip 17 b udp_len
                         in Some (st, Ref (c\<lparr>scratch := b\<rparr>), w')) } } })"

definition udp_recv ::
  "'w udpcore_t ptr \<Rightarrow> i32 \<Rightarrow> u32 ptr \<Rightarrow> u16 ptr \<Rightarrow> u8 list ptr \<Rightarrow> u32 \<Rightarrow> u32 ptr \<Rightarrow>
   (udp_status_t \<times> 'w udpcore_t ptr \<times> u32 ptr \<times> u16 ptr \<times> u8 list ptr \<times> u32 ptr) comp" where
  "udp_recv core sock out_ip out_port out cap out_len =
     (case (core, out, out_len) of
        (Ref c, Ref o1, Ref _) \<Rightarrow>
          do { s \<leftarrow> udp_socket_at c sock;
               case s of NULL \<Rightarrow> Some (UDP_ERR_NO_PORT, core, out_ip, out_port, out, out_len)
               | Ref i \<Rightarrow>
                  do { so \<leftarrow> c_rd (socks c) i;
                       if \<not> has_packet so then Some (UDP_ERR_AGAIN, core, out_ip, out_port, out, out_len)
                       else if s_len so > cap then Some (UDP_ERR_NO_SPACE, core, out_ip, out_port, out, out_len)
                       else do {
                         o2 \<leftarrow> c_memcpy o1 0 (buf so) (unat (s_len so));
                         ss \<leftarrow> c_wr (socks c) i (so\<lparr>has_packet := False, s_len := 0\<rparr>);
                         Some (UDP_OK, Ref (c\<lparr>socks := ss\<rparr>),
                           (case out_ip of NULL \<Rightarrow> NULL | Ref _ \<Rightarrow> Ref (s_src_ip so)),
                           (case out_port of NULL \<Rightarrow> NULL | Ref _ \<Rightarrow> Ref (s_src_port so)),
                           Ref o2, Ref (s_len so)) } } }
      | _ \<Rightarrow> Some (UDP_ERR_PARAM, core, out_ip, out_port, out, out_len))"

definition udp_input ::
  "'w \<Rightarrow> 'w udpcore_t ptr \<Rightarrow> u32 \<Rightarrow> u32 \<Rightarrow> u8 list ptr \<Rightarrow> u32 \<Rightarrow> (udp_status_t \<times> 'w udpcore_t ptr \<times> 'w) comp" where
  "udp_input w core src_ip dst_ip datagram len =
     (case (core, datagram) of
        (Ref c, Ref d) \<Rightarrow>
          if \<not> initialized c then Some (UDP_ERR_NOT_READY, core, w)
          else if len < 8 then Some (UDP_ERR_BAD_PACKET, core, w)
          else do {
            h0 \<leftarrow> ld16 d 0; h2 \<leftarrow> ld16 d 2; h4 \<leftarrow> ld16 d 4; h6 \<leftarrow> ld16 d 6;
            let dst_port = ow_bswap16 h2; udp_len = ow_bswap16 h4; recv_csum = ow_bswap16 h6 in
            if udp_len < 8 \<or> ucast udp_len > len then Some (UDP_ERR_BAD_PACKET, core, w)
            else do {
              good \<leftarrow> (if recv_csum \<noteq> 0
                       then do { c0 \<leftarrow> udp_checksum src_ip dst_ip d (ucast udp_len); Some (c0 = 0) }
                       else Some True);
              if \<not> good then Some (UDP_ERR_BAD_PACKET, core, w)
              else do {
                r \<leftarrow> c_find (\<lambda>s. used s \<and> local_port s = dst_port \<and> (s_local_ip s = 0 \<or> s_local_ip s = dst_ip)) (socks c) 8 0;
                case r of None \<Rightarrow> Some (UDP_ERR_NO_PORT, core, w)
                | Some i \<Rightarrow>
                   (case recv_cb c of
                      Ref cb \<Rightarrow> Some (UDP_OK, core, cb w (of_nat (i + 1)) src_ip (ow_bswap16 h0) (drop 8 d) (ucast udp_len - 8))
                    | NULL \<Rightarrow>
                       do { so \<leftarrow> c_rd (socks c) i;
                            if has_packet so then Some (UDP_ERR_FULL, core, w)
                            else if (ucast udp_len :: u32) - 8 > 1472 then Some (UDP_ERR_BAD_PACKET, core, w)
                            else do {
                              b \<leftarrow> c_memcpy (buf so) 0 (drop 8 d) (unat ((ucast udp_len :: u32) - 8));
                              ss \<leftarrow> c_wr (socks c) i (so\<lparr>buf := b, s_len := ucast udp_len - 8, s_src_ip := src_ip,
                                      s_src_port := ow_bswap16 h0, has_packet := True\<rparr>);
                              Some (UDP_OK, Ref (c\<lparr>socks := ss\<rparr>), w) } }) } } }
      | _ \<Rightarrow> Some (UDP_ERR_PARAM, core, w))"

definition udp_set_receive_cb :: "'w udpcore_t ptr \<Rightarrow> 'w udp_recv_cb_fn ptr \<Rightarrow> 'w udpcore_t ptr" where
  "udp_set_receive_cb core cb = (case core of NULL \<Rightarrow> NULL | Ref c \<Rightarrow> Ref (c\<lparr>recv_cb := cb\<rparr>))"

section \<open>Invariant\<close>

definition udp_ok :: "'w udpcore_t \<Rightarrow> bool" where
  "udp_ok c \<longleftrightarrow> initialized c \<and> ip_tx c \<noteq> NULL \<and> length (socks c) = 8 \<and> length (scratch c) = 1480 \<and>
     (\<forall>s \<in> set (socks c). length (buf s) = 1472 \<and> s_len s \<le> 1472) \<and>
     (\<forall>i < 8. \<forall>j < 8. used (socks c ! i) \<longrightarrow> used (socks c ! j) \<longrightarrow>
        local_port (socks c ! i) = local_port (socks c ! j) \<longrightarrow> i = j)"

lemma udp_okD:
  assumes "udp_ok c"
  shows "initialized c" and "length (socks c) = 8" and "length (scratch c) = 1480"
    and "i < 8 \<Longrightarrow> length (buf (socks c ! i)) = 1472" and "i < 8 \<Longrightarrow> s_len (socks c ! i) \<le> 1472"
    and "i < 8 \<Longrightarrow> j < 8 \<Longrightarrow> used (socks c ! i) \<Longrightarrow> used (socks c ! j) \<Longrightarrow>
      local_port (socks c ! i) = local_port (socks c ! j) \<Longrightarrow> i = j"
proof -
  show "initialized c" "length (socks c) = 8" "length (scratch c) = 1480" using assms by (auto simp: udp_ok_def)
  show "i < 8 \<Longrightarrow> length (buf (socks c ! i)) = 1472" "i < 8 \<Longrightarrow> s_len (socks c ! i) \<le> 1472"
    using assms nth_mem [of i "socks c"] by (auto simp: udp_ok_def)
  show "i < 8 \<Longrightarrow> j < 8 \<Longrightarrow> used (socks c ! i) \<Longrightarrow> used (socks c ! j) \<Longrightarrow>
      local_port (socks c ! i) = local_port (socks c ! j) \<Longrightarrow> i = j"
    using assms unfolding udp_ok_def by blast
qed

text \<open>The handle of socket \<open>i\<close>.\<close>

lemma socket_at:
  assumes "udp_ok c" and "i < 8"
  shows "udp_socket_at c (of_nat (i + 1)) = Some (if used (socks c ! i) then Ref i else NULL)"
proof -
  have u: "unat (of_nat (i + 1) :: i32) = i + 1" using assms(2) by (intro unat_of_nat_u32) simp
  have "unat (of_nat i :: u32) = i" using assms(2) by (intro unat_of_nat_u32) simp
  then have m: "unat (of_nat (i + 1) - 1 :: i32) = i" by simp
  have nz: "(of_nat (i + 1) :: i32) \<noteq> 0"
  proof
    assume "(of_nat (i + 1) :: i32) = 0"
    then show False using u by (metis add_is_0 one_neq_zero unat_0)
  qed
  have "0 < sint (of_nat (i + 1) :: i32)" unfolding sint_pos_iff u using nz assms(2) by simp
  then have pos: "\<not> sint (of_nat (i + 1) :: i32) \<le> 0" by linarith
  have le: "\<not> (of_nat (i + 1) :: i32) > 8" using assms(2) u by (simp add: word_less_nat_alt del: of_nat_Suc of_nat_add)
  show ?thesis
    unfolding udp_socket_at_def m using pos le assms udp_okD(2) [OF assms(1)]
    by (simp del: of_nat_add of_nat_Suc)
qed

section \<open>Sending\<close>

definition udp_segment :: "u16 \<Rightarrow> u16 \<Rightarrow> u16 \<Rightarrow> u8 list \<Rightarrow> u8 list" where
  "udp_segment p q csum data = be16 p @ be16 q @ be16 (of_nat (8 + length data)) @ be16 csum @ data"

lemma length_udp_segment [simp]: "length (udp_segment p q c d) = 8 + length d"
  by (simp add: udp_segment_def)

text \<open>The scratch buffer after the header and the payload are written.\<close>

lemma udp_len_words:
  assumes "length d \<le> 1472"
  shows "unat (of_nat (8 + length d) :: u32) = 8 + length d"
    and "unat (of_nat (8 + length d) :: u16) = 8 + length d"
    and "ucast (of_nat (8 + length d) :: u32) = (of_nat (8 + length d) :: u16)"
    and "ucast (of_nat (8 + length d) :: u16) = (of_nat (8 + length d) :: u32)"
    and "unat (of_nat (length d) :: u32) = length d"
proof -
  show u: "unat (of_nat (8 + length d) :: u32) = 8 + length d" "unat (of_nat (8 + length d) :: u16) = 8 + length d"
    "unat (of_nat (length d) :: u32) = length d"
    using assms by (simp_all add: unat_of_nat del: of_nat_add)
  have "unat (ucast (of_nat (8 + length d) :: u32) :: u16) = unat (of_nat (8 + length d) :: u16)"
    using assms by (simp only: unat_ucast_down u) simp
  then show "ucast (of_nat (8 + length d) :: u32) = (of_nat (8 + length d) :: u16)" by (simp only: word_unat_eq_iff)
  have "unat (ucast (of_nat (8 + length d) :: u16) :: u32) = unat (of_nat (8 + length d) :: u32)"
    by (subst unat_ucast_up) (simp_all only: u, simp)
  then show "ucast (of_nat (8 + length d) :: u16) = (of_nat (8 + length d) :: u32)" by (simp only: word_unat_eq_iff)
qed

lemma copy_payload:
  assumes "length d \<le> 1472" and "8 \<le> length b"
  shows "(if (of_nat (length d) :: u32) \<noteq> 0
           then (case Ref d of NULL \<Rightarrow> None | Ref d \<Rightarrow> c_memcpy b 8 d (unat (of_nat (length d) :: u32))) else Some b) =
     c_memcpy b 8 d (length d)"
proof (cases "d = []")
  case True
  then show ?thesis using assms(2) by (simp add: c_memcpy_def)
next
  case False
  have u: "unat (of_nat (length d) :: u32) = length d" by (rule udp_len_words(5) [OF assms(1)])
  have "(of_nat (length d) :: u32) \<noteq> 0"
  proof
    assume "(of_nat (length d) :: u32) = 0"
    then show False using u False by simp
  qed
  then show ?thesis by (simp add: u)
qed

lemma udp_build:
  assumes "length s = 1480" and "length d \<le> 1472"
  shows "do { b \<leftarrow> st16 s 0 (ow_bswap16 p); b \<leftarrow> st16 b 2 (ow_bswap16 q);
              b \<leftarrow> st16 b 4 (ow_bswap16 n); b \<leftarrow> st16 b 6 0;
              b \<leftarrow> (if (of_nat (length d) :: u32) \<noteq> 0
                then (case Ref d of NULL \<Rightarrow> None | Ref d \<Rightarrow> c_memcpy b 8 d (unat (of_nat (length d) :: u32))) else Some b);
              f b } =
     f ((be16 p @ be16 q @ be16 n @ be16 0 @ d) @ drop (8 + length d) s)"
proof -
  have 1: "st16 s 0 (ow_bswap16 p) = Some (be16 p @ drop 2 s)"
    using assms(1) st16_bswap [of 0 s p] put_next [of "[]" 0 s "be16 p"] by simp
  have 2: "st16 (be16 p @ drop 2 s) 2 (ow_bswap16 q) = Some ((be16 p @ be16 q) @ drop 4 s)"
    using assms(1) st16_bswap [of 2 "be16 p @ drop 2 s" q] put_next [of "be16 p" 2 "drop 2 s" "be16 q"] by simp
  have 3: "st16 ((be16 p @ be16 q) @ drop 4 s) 4 (ow_bswap16 n) = Some ((be16 p @ be16 q @ be16 n) @ drop 6 s)"
    using assms(1) st16_bswap [of 4 "(be16 p @ be16 q) @ drop 4 s" n]
      put_next [of "be16 p @ be16 q" 4 "drop 4 s" "be16 n"] by simp
  have 4: "st16 ((be16 p @ be16 q @ be16 n) @ drop 6 s) 6 0 = Some ((be16 p @ be16 q @ be16 n @ be16 0) @ drop 8 s)"
    using assms(1) st16_0 [of 6 "(be16 p @ be16 q @ be16 n) @ drop 6 s"]
      put_next [of "be16 p @ be16 q @ be16 n" 6 "drop 6 s" "[0, 0]"] by (simp add: be16_0)
  have 5: "c_memcpy ((be16 p @ be16 q @ be16 n @ be16 0) @ drop 8 s) 8 d (length d) =
      Some ((be16 p @ be16 q @ be16 n @ be16 0 @ d) @ drop (8 + length d) s)"
    using assms memcpy_next [of "be16 p @ be16 q @ be16 n @ be16 0" 8 d "drop 8 s"] by (simp add: add.commute)
  have 6: "8 \<le> length ((be16 p @ be16 q @ be16 n @ be16 0) @ drop 8 s)" by simp
  show ?thesis unfolding 1 bind.bind_lunit 2 3 4 copy_payload [OF assms(2) 6] 5 ..
qed

lemma st16_csum:
  assumes "length s = 1480" and "length d \<le> 1472"
  shows "st16 (udp_segment p q 0 d @ drop (8 + length d) s) 6 (ow_bswap16 c) =
     Some (udp_segment p q c d @ drop (8 + length d) s)"
proof -
  let ?n = "of_nat (8 + length d) :: u16"
  have "put (udp_segment p q 0 d @ drop (8 + length d) s) 6 (be16 c) = udp_segment p q c d @ drop (8 + length d) s"
    using put_next [of "be16 p @ be16 q @ be16 ?n" 6 "be16 0 @ d @ drop (8 + length d) s" "be16 c"]
    by (simp add: udp_segment_def)
  then show ?thesis using assms st16_bswap [of 6 "udp_segment p q 0 d @ drop (8 + length d) s" c] by simp
qed

lemma udp_segment_put: "put (udp_segment p q 0 d) 6 (be16 c) = udp_segment p q c d"
  using put_next [of "be16 p @ be16 q @ be16 (of_nat (8 + length d))" 6 "be16 0 @ d" "be16 c"]
  by (simp add: udp_segment_def)

text \<open>The checksum field of the segment that \<open>udp_send\<close> hands down.\<close>

definition udp_csum :: "u32 \<Rightarrow> u32 \<Rightarrow> u16 \<Rightarrow> u16 \<Rightarrow> u8 list \<Rightarrow> u16" where
  "udp_csum a b p q d = (case udp_checksum_encode a b (udp_segment p q 0 d) (of_nat (8 + length d)) of Some c \<Rightarrow> c)"

lemma udp_csum_props:
  assumes "length d \<le> 1472"
  shows "udp_checksum_encode a b (udp_segment p q 0 d @ rest) (of_nat (8 + length d)) = Some (udp_csum a b p q d)"
    and "udp_csum a b p q d \<noteq> 0"
    and "udp_checksum a b (udp_segment p q (udp_csum a b p q d) d @ rest) (of_nat (8 + length d)) = Some 0"
proof -
  note len = udp_len_words [OF assms]
  let ?n = "of_nat (8 + length d) :: u32" and ?s = "udp_segment p q 0 d"
  have cut: "inet_checksum 17 a b (x @ rest) ?n = inet_checksum 17 a b x ?n" if "length x = 8 + length d" for x
    using inet_checksum_take [of ?n "x @ rest" 17 a b] that len(1) by simp
  have small: "unat ?n \<le> length ?s" "unat ?n \<le> 65535" "unat (17 :: u32) \<le> 255" "unat ?n = length ?s"
    using assms len(1) by simp_all
  obtain c where c: "inet_checksum 17 a b ?s ?n = Some c"
    using inet_checksum_eq [OF small(1-3), of a b] by blast
  have e: "udp_csum a b p q d = encode_checksum c" 
    by (simp add: udp_csum_def udp_checksum_encode_def udp_checksum_def c del: of_nat_add)
  show "udp_checksum_encode a b (?s @ rest) ?n = Some (udp_csum a b p q d)"
    using cut [of ?s] c e by (simp add: udp_checksum_encode_def udp_checksum_def del: of_nat_add)
  show "udp_csum a b p q d \<noteq> 0" unfolding e by (simp add: encode_checksum_def)
  have "take 2 (drop 6 ?s) = [0, 0]" by (simp add: udp_segment_def be16_0)
  then have "inet_checksum 17 a b (put ?s 6 (be16 (encode_checksum c))) ?n = Some 0"
    using small by (intro filled_segment_checks [OF small(4,2,3) c]) simp_all
  then show "udp_checksum a b (udp_segment p q (udp_csum a b p q d) d @ rest) ?n = Some 0"
    using cut [of "udp_segment p q (udp_csum a b p q d) d"]
    by (simp add: udp_checksum_def e udp_segment_put del: of_nat_add)
qed

lemma udp_send_ok:
  assumes "udp_ok c" and "i < 8" and "used (socks c ! i)" and "length d \<le> 1472" and "ip_tx c = Ref tx"
  shows "\<exists>rest. udp_send w (Ref c) (of_nat (i + 1)) dst q (Ref d) (of_nat (length d)) =
     (let b = udp_segment (local_port (socks c ! i)) q (udp_csum (local_ip c) dst (local_port (socks c ! i)) q d) d @ rest;
          (st, w') = tx w dst 17 b (of_nat (8 + length d)) in Some (st, Ref (c\<lparr>scratch := b\<rparr>), w')) \<and>
     8 + length d + length rest = 1480"
proof -
  note ok = udp_okD [OF assms(1)] and len = udp_len_words [OF assms(4)]
  let ?p = "local_port (socks c ! i)" and ?rest = "drop (8 + length d) (scratch c)"
  have small: "\<not> (of_nat (length d) :: u32) > 1472" using len(5) assms(4) by (simp add: word_less_nat_alt)
  have n: "8 + (of_nat (length d) :: u32) = of_nat (8 + length d)" by simp
  have so: "c_rd (socks c) i = Some (socks c ! i)" using ok(2) assms(2) by simp
  note cs = udp_csum_props(1) [OF assms(4), of "local_ip c" dst ?p q ?rest, unfolded udp_segment_def [of _ _ 0]]
  note st = st16_csum [OF ok(3) assms(4), of ?p q, unfolded udp_segment_def [of _ _ 0]]
  have "udp_send w (Ref c) (of_nat (i + 1)) dst q (Ref d) (of_nat (length d)) =
     (let b = udp_segment ?p q (udp_csum (local_ip c) dst ?p q d) d @ ?rest;
          (st, w') = tx w dst 17 b (of_nat (8 + length d)) in Some (st, Ref (c\<lparr>scratch := b\<rparr>), w'))"
    unfolding udp_send_def ptr.case socket_at [OF assms(1,2)] n Let_def len(3)
    using assms(3) small ok(1)
    by (simp only: bind.bind_lunit so if_True if_False ptr.case simp_thms ptr.distinct 
      udp_build [OF ok(3) assms(4), unfolded ptr.case append_assoc] cs [unfolded append_assoc] st [unfolded append_assoc] assms(5))
  moreover have "8 + length d + length ?rest = 1480" using ok(3) assms(4) by simp
  ultimately show ?thesis by blast
qed

section \<open>Receiving\<close>

lemma port_index:
  assumes "udp_ok c" and "j < 8" and "used (socks c ! j)"
  shows "udp_find_port c (local_port (socks c ! j)) = Some (of_nat (j + 1))"
proof -
  note ok = udp_okD [OF assms(1)]
  have "first_index (\<lambda>s. used s \<and> local_port s = local_port (socks c ! j)) (socks c) = Some j"
    using assms ok(2) by (intro first_index_unique) (auto intro: ok(6))
  then show ?thesis using ok(2) by (simp add: udp_find_port_def c_find_eq)
qed

lemma udp_input_accepts:
  assumes "udp_ok c" and "recv_cb c = NULL" and "j < 8"
    and "used (socks c ! j)" and "\<not> has_packet (socks c ! j)" and "local_port (socks c ! j) = q"
    and "s_local_ip (socks c ! j) = 0 \<or> s_local_ip (socks c ! j) = dst"
    and "length d \<le> 1472" and "cs = udp_csum src dst p q d"
  shows "udp_input w (Ref c) src dst (Ref (udp_segment p q cs d @ rest)) (of_nat (8 + length d)) =
     Some (UDP_OK, Ref (c\<lparr>socks := (socks c)[j := (socks c ! j)\<lparr>buf := d @ drop (length d) (buf (socks c ! j)),
       s_len := of_nat (length d), s_src_ip := src, s_src_port := p, has_packet := True\<rparr>]\<rparr>), w)"
proof -
  note ok = udp_okD [OF assms(1)] and len = udp_len_words [OF assms(8)]
  let ?n = "of_nat (8 + length d) :: u16" and ?b = "udp_segment p q cs d @ rest"
  have f: "ld16 ?b 0 = Some (ow_bswap16 p)" "ld16 ?b 2 = Some (ow_bswap16 q)"
    "ld16 ?b 4 = Some (ow_bswap16 ?n)" "ld16 ?b 6 = Some (ow_bswap16 cs)"
    by (rule ld16_be, simp, simp add: udp_segment_def del: of_nat_add)+
  have long: "\<not> (of_nat (8 + length d) :: u32) < 8" "\<not> ?n < 8"
    using len(1,2) by (simp_all add: word_less_nat_alt del: of_nat_add)
  have dl: "(of_nat (8 + length d) :: u32) - 8 = of_nat (length d)" by simp
  have small: "\<not> (of_nat (length d) :: u32) > 1472" using len(5) assms(8) by (simp add: word_less_nat_alt)
  have cs: "(cs \<noteq> 0) = True" "udp_checksum src dst ?b (of_nat (8 + length d)) = Some 0"
    unfolding assms(9) using udp_csum_props(2,3) [OF assms(8), of src dst p q] by simp_all
  have "first_index (\<lambda>s. used s \<and> local_port s = q \<and> (s_local_ip s = 0 \<or> s_local_ip s = dst)) (socks c) = Some j"
    using assms ok(2) by (intro first_index_unique) (auto intro: ok(6))
  then have find: "c_find (\<lambda>s. used s \<and> local_port s = q \<and> (s_local_ip s = 0 \<or> s_local_ip s = dst)) (socks c) 8 0 = Some (Some j)"
    using ok(2) by (simp add: c_find_eq)
  have rd: "c_rd (socks c) j = Some (socks c ! j)" using ok(2) assms(3) by simp
  have pl: "drop 8 ?b = d @ rest" by (simp add: udp_segment_def)
  have cp: "c_memcpy (buf (socks c ! j)) 0 (d @ rest) (length d) = Some (d @ drop (length d) (buf (socks c ! j)))"
    using ok(4) [OF assms(3)] assms(8) by (simp add: c_memcpy_def)
  have wr: "c_wr (socks c) j x = Some ((socks c)[j := x])" for x using ok(2) assms(3) by simp
  have one: "\<not> (?n < 8 \<or> (of_nat (8 + length d) :: u32) < of_nat (8 + length d))" using long(2) by blast
  show ?thesis
    unfolding udp_input_def prod.case ptr.case f bind.bind_lunit bswap16_id Let_def len(4) cs find option.case assms(2) rd dl pl len(5) cp wr
    using ok(1) long(1) one assms(5) small by (simp only: if_True if_False simp_thms bind.bind_lunit)
qed

lemma udp_recv_returns:
  assumes "udp_ok c" and "j < 8" and "used (socks c ! j)" and "has_packet (socks c ! j)"
    and "s_len (socks c ! j) \<le> cap" and "unat cap \<le> length out"
  shows "udp_recv (Ref c) (of_nat (j + 1)) (Ref x) (Ref y) (Ref out) cap (Ref z) =
    (let s = socks c ! j; n = unat (s_len s) in
     Some (UDP_OK, Ref (c\<lparr>socks := (socks c)[j := s\<lparr>has_packet := False, s_len := 0\<rparr>]\<rparr>),
       Ref (s_src_ip s), Ref (s_src_port s), Ref (take n (buf s) @ drop n out), Ref (s_len s)))"
proof -
  note ok = udp_okD [OF assms(1)]
  let ?s = "socks c ! j"
  have rd: "c_rd (socks c) j = Some ?s" using ok(2) assms(2) by simp
  have wr: "c_wr (socks c) j v = Some ((socks c)[j := v])" for v using ok(2) assms(2) by simp
  have n: "unat (s_len ?s) \<le> 1472" "unat (s_len ?s) \<le> unat cap"
    using ok(5) [OF assms(2)] assms(5) by (simp_all add: word_le_nat_alt)
  then have cp: "c_memcpy out 0 (buf ?s) (unat (s_len ?s)) = Some (take (unat (s_len ?s)) (buf ?s) @ drop (unat (s_len ?s)) out)"
    using ok(4) [OF assms(2)] assms(6) by (simp add: c_memcpy_def)
  have cap: "\<not> cap < s_len ?s" using assms(5) by simp
  show ?thesis
    unfolding udp_recv_def prod.case ptr.case socket_at [OF assms(1,2)] bind.bind_lunit rd cp wr Let_def
    using assms(3,4) cap by (simp only: if_True if_False simp_thms ptr.case bind.bind_lunit rd cp wr)
qed

section \<open>The invariant is kept\<close>

definition socket_ok :: "udp_socket_t \<Rightarrow> bool" where
  "socket_ok s \<longleftrightarrow> length (buf s) = 1472 \<and> s_len s \<le> 1472"

lemma zero_socket_ok: "socket_ok zero_socket" "socket_ok (zero_socket\<lparr>used := u, s_local_ip := a, local_port := p\<rparr>)"
  by (simp_all add: socket_ok_def zero_socket_def)

text \<open>Changing one socket keeps the invariant when its port stays its own.\<close>

lemma udp_ok_update:
  assumes ok: "udp_ok c" and i: "i < 8" and "socket_ok s"
    and new: "\<And>j. j < 8 \<Longrightarrow> j \<noteq> i \<Longrightarrow> used s \<Longrightarrow> used (socks c ! j) \<Longrightarrow> local_port (socks c ! j) \<noteq> local_port s"
  shows "udp_ok (c\<lparr>socks := (socks c)[i := s]\<rparr>)"
proof -
  note k = udp_okD [OF ok]
  have "\<forall>t \<in> set ((socks c)[i := s]). length (buf t) = 1472 \<and> s_len t \<le> 1472"
  proof
    fix t assume "t \<in> set ((socks c)[i := s])"
    then have "t = s \<or> t \<in> set (socks c)" using set_update_subset_insert [of "socks c" i s] by blast
    then show "length (buf t) = 1472 \<and> s_len t \<le> 1472" using assms(3) ok unfolding socket_ok_def udp_ok_def by blast
  qed
  moreover have "a = b" if "a < 8" "b < 8" "used ((socks c)[i := s] ! a)" "used ((socks c)[i := s] ! b)"
      "local_port ((socks c)[i := s] ! a) = local_port ((socks c)[i := s] ! b)" for a b
  proof (cases "a = i")
    case True
    show ?thesis
    proof (rule ccontr)
      assume "a \<noteq> b"
      then show False using that True new [of b] i k(2) by simp
    qed
  next
    case False
    show ?thesis
    proof (cases "b = i")
      case True
      then show ?thesis using that False new [of a] i k(2) by simp
    next
      case F: False
      then show ?thesis using that False k(6) [of a b] by simp
    qed
  qed
  ultimately show ?thesis using ok k(2) unfolding udp_ok_def by simp
qed

lemma udp_ok_scratch: "udp_ok c \<Longrightarrow> length b = 1480 \<Longrightarrow> udp_ok (c\<lparr>scratch := b\<rparr>)"
  by (simp add: udp_ok_def)

lemma udp_init_ok: "udp_init (Ref c) ip (Ref tx) = (UDP_OK, Ref c') \<Longrightarrow> udp_ok c'"
  by (auto simp: udp_init_def udp_ok_def zero_socket_def)

lemma udp_find_port_total:
  assumes "udp_ok c"
  shows "\<exists>r. udp_find_port c p = Some r \<and>
    (sint r < 0 \<longrightarrow> (\<forall>j < 8. used (socks c ! j) \<longrightarrow> local_port (socks c ! j) \<noteq> p))"
proof (cases "first_index (\<lambda>s. used s \<and> local_port s = p) (socks c)")
  case None
  then show ?thesis using udp_okD(2) [OF assms] by (auto simp: udp_find_port_def c_find_eq first_index_None_iff)
next
  case (Some i)
  then have i: "i < 8" "used (socks c ! i)" "local_port (socks c ! i) = p"
    using first_index_SomeD [OF Some] udp_okD(2) [OF assms] by simp_all
  have "unat (of_nat (i + 1) :: i32) = i + 1" using i(1) by (intro unat_of_nat_u32) simp
  then have "0 \<le> sint (of_nat (i + 1) :: i32)" using i(1) by (simp only: sint_nonneg_iff) simp
  then show ?thesis using port_index [OF assms i(1,2)] i(3) by auto
qed

lemma udp_bind_ok:
  assumes "udp_ok c"
  shows "\<exists>r c'. udp_bind (Ref c) ip p = Some (r, Ref c') \<and> udp_ok c'"
proof -
  note ok = udp_okD [OF assms]
  obtain r where r: "udp_find_port c p = Some r"
      "sint r < 0 \<longrightarrow> (\<forall>j < 8. used (socks c ! j) \<longrightarrow> local_port (socks c ! j) \<noteq> p)"
    using udp_find_port_total [OF assms] by blast
  show ?thesis
  proof (cases "p = 0 \<or> 0 \<le> sint r")
    case True
    then show ?thesis using assms ok(1) r(1) by (auto simp: udp_bind_def)
  next
    case False
    show ?thesis
    proof (cases "first_index (\<lambda>s. \<not> used s) (socks c)")
      case None
      then show ?thesis using False assms ok(1,2) r(1) by (simp add: udp_bind_def c_find_eq)
    next
      case (Some i)
      then have i: "i < 8" using first_index_SomeD(1) [OF Some] ok(2) by simp
      let ?s = "zero_socket\<lparr>used := True, s_local_ip := ip, local_port := p\<rparr>"
      have "udp_ok (c\<lparr>socks := (socks c)[i := ?s]\<rparr>)"
        using False r(2) by (intro udp_ok_update assms i zero_socket_ok) (auto simp: not_le)
      then show ?thesis using Some False i ok(1,2) r(1) by (simp add: udp_bind_def c_find_eq)
    qed
  qed
qed

lemma udp_socket_at_total:
  assumes "udp_ok c"
  shows "udp_socket_at c s = Some NULL \<or>
    (\<exists>i. i < 8 \<and> used (socks c ! i) \<and> s = of_nat (i + 1) \<and> udp_socket_at c s = Some (Ref i))"
proof (cases "sint s \<le> 0 \<or> s > 8")
  case True
  then show ?thesis by (simp add: udp_socket_at_def)
next
  case False
  then have "s \<noteq> 0" "unat s \<le> 8" using signed_0 by (auto simp: word_less_nat_alt not_less)
  then have i: "unat (s - 1) < 8" by (simp add: unat_minus1)
  moreover have "s = of_nat (unat (s - 1) + 1)" by simp
  ultimately show ?thesis using False udp_okD(2) [OF assms]
    by (cases "used (socks c ! unat (s - 1))") (simp_all add: udp_socket_at_def)
qed

lemma udp_close_ok:
  assumes "udp_ok c"
  shows "\<exists>r c'. udp_close (Ref c) s = Some (r, Ref c') \<and> udp_ok c'"
  using udp_socket_at_total [OF assms, of s]
proof (elim disjE exE conjE)
  assume "udp_socket_at c s = Some NULL"
  then show ?thesis using assms by (simp add: udp_close_def)
next
  fix i assume i: "i < 8" and at: "udp_socket_at c s = Some (Ref i)"
  have "udp_ok (c\<lparr>socks := (socks c)[i := zero_socket]\<rparr>)"
    by (intro udp_ok_update assms i zero_socket_ok(1)) (simp add: zero_socket_def)
  then show ?thesis using i at udp_okD(2) [OF assms] by (simp add: udp_close_def)
qed

lemma udp_send_total:
  assumes "udp_ok c" and "length d < 2 ^ 32"
  shows "\<exists>r c' w'. udp_send w (Ref c) s dst q (Ref d) (of_nat (length d)) = Some (r, Ref c', w') \<and> udp_ok c' \<and> socks c' = socks c"
  using udp_socket_at_total [OF assms(1), of s]
proof (elim disjE exE conjE)
  assume "udp_socket_at c s = Some NULL"
  then show ?thesis using assms udp_okD(1) [OF assms(1)] by (simp add: udp_send_def)
next
  fix i assume i: "i < 8" "used (socks c ! i)" "s = of_nat (i + 1)" and at: "udp_socket_at c s = Some (Ref i)"
  obtain tx where tx: "ip_tx c = Ref tx" using assms(1) unfolding udp_ok_def by (cases "ip_tx c") auto
  show ?thesis
  proof (cases "length d \<le> 1472")
    case True
    obtain b rest where "8 + length d + length rest = 1480"
      "udp_send w (Ref c) s dst q (Ref d) (of_nat (length d)) =
        (let b = udp_segment (local_port (socks c ! i)) q (udp_csum (local_ip c) dst (local_port (socks c ! i)) q d) d @ rest;
          (st, w') = tx w dst 17 b (of_nat (8 + length d)) in Some (st, Ref (c\<lparr>scratch := b\<rparr>), w'))"
      using udp_send_ok [OF assms(1) i(1,2) True tx, of w dst q] unfolding i(3) by blast
    then show ?thesis using assms(1) by (auto simp: Let_def udp_ok_scratch split: prod.split)
  next
    case False
    then have "(of_nat (length d) :: u32) > 1472" using assms(2) by (simp add: word_less_nat_alt unat_of_nat)
    then show ?thesis using assms(1) at udp_okD(1) [OF assms(1)] by (simp add: udp_send_def)
  qed
qed

lemma udp_input_total:
  assumes "udp_ok c" and "unat len \<le> length d"
  shows "\<exists>r c' w'. udp_input w (Ref c) src dst (Ref d) len = Some (r, Ref c', w') \<and> udp_ok c'"
proof (cases "len < 8")
  case True
  then show ?thesis using assms udp_okD(1) [OF assms(1)] by (simp add: udp_input_def Let_def)
next
  case False
  note ok = udp_okD [OF assms(1)]
  have "8 \<le> length d" using False assms(2) by (simp add: word_less_nat_alt)
  then obtain h0 h2 h4 h6 where h: "ld16 d 0 = Some h0" "ld16 d 2 = Some h2" "ld16 d 4 = Some h4" "ld16 d 6 = Some h6"
    using ld16_total [of 0 d] ld16_total [of 2 d] ld16_total [of 4 d] ld16_total [of 6 d] by auto
  let ?n = "ow_bswap16 h4" and ?m = "\<lambda>s. used s \<and> local_port s = ow_bswap16 h2 \<and> (s_local_ip s = 0 \<or> s_local_ip s = dst)"
  have cs: "\<exists>k. udp_checksum src dst d (ucast ?n) = Some k" if "\<not> len < ucast ?n"
  proof -
    have "unat (ucast ?n :: u32) \<le> unat len" using that by (simp add: word_le_nat_alt not_less)
    moreover have "unat (ucast ?n :: u32) \<le> 65535"
      using unsigned_less [of ?n, where ?'a = nat] by (simp add: unat_ucast_up)
    ultimately show ?thesis
      using inet_checksum_eq [of "ucast ?n" d 17 src dst] assms(2) unfolding udp_checksum_def by auto
  qed
  show ?thesis
  proof (cases "?n < 8 \<or> len < ucast ?n")
    case True
    then show ?thesis using False h assms ok(1) by (simp add: udp_input_def Let_def)
  next
    case n: False
    then obtain k where k: "udp_checksum src dst d (ucast ?n) = Some k" using cs by blast
    consider "ow_bswap16 h6 \<noteq> 0 \<and> k \<noteq> 0" | "\<not> (ow_bswap16 h6 \<noteq> 0 \<and> k \<noteq> 0)" "first_index ?m (socks c) = None"
      | i where "\<not> (ow_bswap16 h6 \<noteq> 0 \<and> k \<noteq> 0)" "first_index ?m (socks c) = Some i" by blast
    then show ?thesis
    proof cases
      case 1
      then show ?thesis using False h n k assms ok(1) by (simp add: udp_input_def Let_def)
    next
      case 2
      then show ?thesis using False h n k assms ok(1,2) by (simp add: udp_input_def Let_def c_find_eq)
    next
      case 3
      then have i: "i < 8" "used (socks c ! i)" using first_index_SomeD [OF 3(2)] ok(2) by simp_all
      let ?k = "(ucast ?n :: u32) - 8" and ?s = "socks c ! i"
      show ?thesis
      proof (cases "recv_cb c = NULL \<and> \<not> has_packet ?s \<and> \<not> ?k > 1472")
        case True
        have "unat ?k = unat (ucast ?n :: u32) - 8"
          using n by (subst unat_sub_le) (simp_all add: word_le_nat_alt word_less_nat_alt unat_ucast_up)
        moreover have "unat (ucast ?n :: u32) \<le> unat len" using n by (simp add: word_le_nat_alt not_less)
        ultimately have k8: "unat ?k + 8 \<le> length d \<or> unat ?k = 0" using assms(2) by linarith
        moreover have k1: "unat ?k \<le> 1472" using True by (simp add: word_less_nat_alt not_less)
        ultimately have cp: "c_memcpy (buf ?s) 0 (drop 8 d) (unat ?k) = Some (take (unat ?k) (drop 8 d) @ drop (unat ?k) (buf ?s))"
          using ok(4) [OF i(1)] by (auto simp: c_memcpy_def)
        let ?t = "?s\<lparr>buf := take (unat ?k) (drop 8 d) @ drop (unat ?k) (buf ?s), s_len := ?k, s_src_ip := src,
            s_src_port := ow_bswap16 h0, has_packet := True\<rparr>"
        have "socket_ok ?t" using True k8 k1 ok(4) [OF i(1)] by (auto simp: socket_ok_def)
        then have "udp_ok (c\<lparr>socks := (socks c)[i := ?t]\<rparr>)"
          using i by (intro udp_ok_update assms(1)) (auto dest: ok(6) [of i])
        then show ?thesis using False h n k assms ok(1,2) 3 True i cp by (simp add: udp_input_def Let_def c_find_eq)
      next
        case F: False
        then show ?thesis using False h n k assms ok(1,2) 3 i
          by (cases "recv_cb c") (auto simp: udp_input_def Let_def c_find_eq)
      qed
    qed
  qed
qed

lemma udp_recv_total:
  assumes "udp_ok c" and "unat cap \<le> length out"
  shows "\<exists>r c' v. udp_recv (Ref c) s a b (Ref out) cap (Ref z) = Some (r, Ref c', v) \<and> udp_ok c'"
  using udp_socket_at_total [OF assms(1), of s]
proof (elim disjE exE conjE)
  assume "udp_socket_at c s = Some NULL"
  then show ?thesis using assms by (simp add: udp_recv_def)
next
  fix i assume i: "i < 8" "used (socks c ! i)" and at: "udp_socket_at c s = Some (Ref i)"
  note ok = udp_okD [OF assms(1)]
  let ?s = "socks c ! i"
  show ?thesis
  proof (cases "has_packet ?s \<and> \<not> s_len ?s > cap")
    case True
    then have n: "unat (s_len ?s) \<le> length out" "unat (s_len ?s) \<le> length (buf ?s)"
      using assms(2) ok(4,5) [OF i(1)] by (simp_all add: word_less_nat_alt word_le_nat_alt)
    have "udp_ok (c\<lparr>socks := (socks c)[i := ?s\<lparr>has_packet := False, s_len := 0\<rparr>]\<rparr>)"
      using i ok(4) [OF i(1)] by (intro udp_ok_update assms(1)) (auto simp: socket_ok_def dest: ok(6) [of i])
    then show ?thesis using True i at ok(2) n by (simp add: udp_recv_def c_memcpy_def)
  next
    case False
    then show ?thesis using assms i at ok(2) by (auto simp: udp_recv_def)
  qed
qed

section \<open>Runs\<close>

text \<open>A client that works on an initialised core. The buffers it passes are as long as it says.\<close>

datatype udp_op =
    Bind u32 u16
  | Close i32
  | Send i32 u32 u16 "u8 list"
  | Recv i32 "u8 list"
  | Input u32 u32 "u8 list"

definition buffer_of :: "udp_op \<Rightarrow> u8 list" where
  "buffer_of a = (case a of Send _ _ _ d \<Rightarrow> d | Recv _ b \<Rightarrow> b | Input _ _ d \<Rightarrow> d | _ \<Rightarrow> [])"

definition udp_do :: "udp_op \<Rightarrow> 'w udpcore_t ptr \<times> 'w \<Rightarrow> ('w udpcore_t ptr \<times> 'w) comp" where
  "udp_do a cw =
     (case a of
        Bind ip p \<Rightarrow> do { (_, c) \<leftarrow> udp_bind (fst cw) ip p; Some (c, snd cw) }
      | Close s \<Rightarrow> do { (_, c) \<leftarrow> udp_close (fst cw) s; Some (c, snd cw) }
      | Send s ip p d \<Rightarrow> do { (_, c, w) \<leftarrow> udp_send (snd cw) (fst cw) s ip p (Ref d) (of_nat (length d)); Some (c, w) }
      | Recv s b \<Rightarrow> do { (_, c, _) \<leftarrow> udp_recv (fst cw) s (Ref 0) (Ref 0) (Ref b) (of_nat (length b)) (Ref 0); Some (c, snd cw) }
      | Input src dst d \<Rightarrow> do { (_, c, w) \<leftarrow> udp_input (snd cw) (fst cw) src dst (Ref d) (of_nat (length d)); Some (c, w) })"

fun udp_run :: "udp_op list \<Rightarrow> 'w udpcore_t ptr \<times> 'w \<Rightarrow> ('w udpcore_t ptr \<times> 'w) comp" where
  "udp_run [] cw = Some cw"
| "udp_run (a # as) cw = do { cw' \<leftarrow> udp_do a cw; udp_run as cw' }"

lemma udp_do_ok:
  assumes "udp_ok c" and "length (buffer_of a) < 2 ^ 32"
  shows "\<exists>c' w'. udp_do a (Ref c, w) = Some (Ref c', w') \<and> udp_ok c'"
proof (cases a)
  case (Bind ip p)
  then show ?thesis using udp_bind_ok [OF assms(1), of ip p] by (auto simp: udp_do_def)
next
  case (Close s)
  then show ?thesis using udp_close_ok [OF assms(1), of s] by (auto simp: udp_do_def)
next
  case (Send s ip p d)
  then show ?thesis using udp_send_total [OF assms(1), of d w s ip p] assms(2) by (auto simp: udp_do_def buffer_of_def)
next
  case (Recv s b)
  then have "unat (of_nat (length b) :: u32) \<le> length b" using assms(2) by (simp add: unat_of_nat)
  then show ?thesis using udp_recv_total [OF assms(1), of "of_nat (length b)" b s "Ref 0" "Ref 0" 0] Recv
    by (auto simp: udp_do_def)
next
  case (Input src dst d)
  then have "unat (of_nat (length d) :: u32) \<le> length d" using assms(2) by (simp add: unat_of_nat)
  then show ?thesis using udp_input_total [OF assms(1), of "of_nat (length d)" d w src dst] Input
    by (auto simp: udp_do_def)
qed

lemma udp_run_ok:
  "udp_ok c \<Longrightarrow> \<forall>a \<in> set as. length (buffer_of a) < 2 ^ 32 \<Longrightarrow>
     \<exists>c' w'. udp_run as (Ref c, w) = Some (Ref c', w') \<and> udp_ok c'"
proof (induction as arbitrary: c w)
  case (Cons a as)
  obtain c1 w1 where "udp_do a (Ref c, w) = Some (Ref c1, w1)" "udp_ok c1"
    using udp_do_ok [OF Cons.prems(1), of a w] Cons.prems(2) by auto
  then show ?case using Cons.IH [of c1 w1] Cons.prems(2) by simp
qed simp

section \<open>Properties\<close>

text \<open>C4: Round trip of a datagram. Let the sender's socket be open, and let the receiver have an empty
  socket bound to the destination port, for the destination address or for any address, with no receive
  callback. Then \<open>udp_send\<close> of at most 1472 bytes passes exactly one segment to the IP layer and returns its
  status; \<open>udp_input\<close> of this segment at the receiver is accepted, checksum included; and \<open>udp_recv\<close> into a
  buffer that is large enough returns exactly the bytes sent, their number, and the address and port of the
  sender. All of it without undefined behaviour.\<close>

theorem udp_round_trip:
  assumes "udp_ok c" and "i < 8" and "used (socks c ! i)" and "ip_tx c = Ref tx"
    and "udp_ok r" and "recv_cb r = NULL" and "j < 8" and "used (socks r ! j)" and "\<not> has_packet (socks r ! j)"
    and "s_local_ip (socks r ! j) \<in> {0, dst}"
    and "length d \<le> 1472" and "length d \<le> unat cap" and "unat cap \<le> length out"
  shows "\<exists>seg n st w' c1 c3 c4.
     udp_send w (Ref c) (of_nat (i + 1)) dst (local_port (socks r ! j)) (Ref d) (of_nat (length d)) = Some (st, Ref c1, w') \<and>
     tx w dst 17 seg n = (st, w') \<and> udp_ok c1 \<and>
     udp_input v (Ref r) (local_ip c) dst (Ref seg) n = Some (UDP_OK, Ref c3, v) \<and> udp_ok c3 \<and>
     udp_recv (Ref c3) (of_nat (j + 1)) (Ref 0) (Ref 0) (Ref out) cap (Ref 0) =
       Some (UDP_OK, Ref c4, Ref (local_ip c), Ref (local_port (socks c ! i)), Ref (d @ drop (length d) out), Ref (of_nat (length d))) \<and>
     udp_recv (Ref c4) (of_nat (j + 1)) (Ref 0) (Ref 0) (Ref out) cap (Ref 0) =
       Some (UDP_ERR_AGAIN, Ref c4, Ref 0, Ref 0, Ref out, Ref 0)"
proof -
  let ?p = "local_port (socks c ! i)" and ?q = "local_port (socks r ! j)" and ?n = "of_nat (8 + length d) :: u32"
  note ok2 = udp_okD [OF assms(5)]
  obtain rest where snd: "udp_send w (Ref c) (of_nat (i + 1)) dst ?q (Ref d) (of_nat (length d)) =
     (let b = udp_segment ?p ?q (udp_csum (local_ip c) dst ?p ?q d) d @ rest;
          (st, w') = tx w dst 17 b ?n in Some (st, Ref (c\<lparr>scratch := b\<rparr>), w'))"
      and len: "8 + length d + length rest = 1480"
    using udp_send_ok [OF assms(1-3,11,4), of w dst ?q] by blast
  let ?seg = "udp_segment ?p ?q (udp_csum (local_ip c) dst ?p ?q d) d @ rest"
  obtain st w' where tx: "tx w dst 17 ?seg ?n = (st, w')" by (cases "tx w dst 17 ?seg ?n") 
  let ?s = "(socks r ! j)\<lparr>buf := d @ drop (length d) (buf (socks r ! j)),
       s_len := of_nat (length d), s_src_ip := local_ip c, s_src_port := ?p, has_packet := True\<rparr>"
  let ?c3 = "r\<lparr>socks := (socks r)[j := ?s]\<rparr>" 
  let ?c4 = "?c3\<lparr>socks := (socks ?c3)[j := ?s\<lparr>has_packet := False, s_len := 0\<rparr>]\<rparr>"
  have l: "unat (of_nat (length d) :: u32) = length d" by (rule udp_len_words(5) [OF assms(11)])
  have send: "udp_send w (Ref c) (of_nat (i + 1)) dst ?q (Ref d) (of_nat (length d)) = Some (st, Ref (c\<lparr>scratch := ?seg\<rparr>), w')"
    unfolding snd Let_def tx by simp
  have c1: "udp_ok (c\<lparr>scratch := ?seg\<rparr>)" using len by (intro udp_ok_scratch assms(1)) simp
  have inp: "udp_input v (Ref r) (local_ip c) dst (Ref ?seg) ?n = Some (UDP_OK, Ref ?c3, v)"
    using assms(10) by (intro udp_input_accepts [OF assms(5-9) refl _ assms(11) refl]) auto
  have "socket_ok ?s" using ok2(4) [OF assms(7)] assms(11) l by (simp add: socket_ok_def word_le_nat_alt)
  then have c3: "udp_ok ?c3" using assms(7,8) by (intro udp_ok_update assms(5)) (auto dest: ok2(6) [of j])
  have sj: "socks ?c3 ! j = ?s" using ok2(2) assms(7) by simp
  have "s_len (socks ?c3 ! j) \<le> cap" unfolding sj using l assms(12) by (simp add: word_le_nat_alt)
  then have rcv: "udp_recv (Ref ?c3) (of_nat (j + 1)) (Ref 0) (Ref 0) (Ref out) cap (Ref 0) =
      Some (UDP_OK, Ref ?c4, Ref (local_ip c), Ref ?p, Ref (d @ drop (length d) out), Ref (of_nat (length d)))"
    using udp_recv_returns [OF c3 assms(7) _ _ _ assms(13), of 0 0 0] assms(8) unfolding sj Let_def by (simp add: l)
  have "socket_ok (?s\<lparr>has_packet := False, s_len := 0\<rparr>)" using ok2(4) [OF assms(7)] assms(11) by (simp add: socket_ok_def)
  then have c4: "udp_ok ?c4" using assms(7,8) ok2(2) by (intro udp_ok_update c3) (auto simp: nth_list_update dest: ok2(6) [of j])
  have s4: "socks ?c4 ! j = ?s\<lparr>has_packet := False, s_len := 0\<rparr>" "length (socks ?c4) = 8" using ok2(2) assms(7) by simp_all
  have "udp_recv (Ref ?c4) (of_nat (j + 1)) (Ref 0) (Ref 0) (Ref out) cap (Ref 0) = Some (UDP_ERR_AGAIN, Ref ?c4, Ref 0, Ref 0, Ref out, Ref 0)"
    unfolding udp_recv_def prod.case ptr.case socket_at [OF c4 assms(7)] s4 using s4 assms(7,8) by simp
  then show ?thesis using send tx c1 inp c3 rcv by blast
qed

definition bound_core :: "u32 \<Rightarrow> u16 \<Rightarrow> (u8 list list) udpcore_t" where
  "bound_core ip p = \<lparr>local_ip = ip, initialized = True, ip_tx = Ref (\<lambda>w _ _ seg _. (UDP_OK, seg # w)), recv_cb = NULL,
     socks = (replicate 8 zero_socket)[0 := zero_socket\<lparr>used := True, local_port := p\<rparr>], scratch = replicate 1480 0\<rparr>"

lemma bound_core_ok:
  "udp_ok (bound_core ip p)" "used (socks (bound_core ip p) ! 0)" "recv_cb (bound_core ip p) = NULL"
  "\<not> has_packet (socks (bound_core ip p) ! 0)" "s_local_ip (socks (bound_core ip p) ! 0) = 0"
  "local_port (socks (bound_core ip p) ! 0) = p" "local_ip (bound_core ip p) = ip"
  "ip_tx (bound_core ip p) = Ref (\<lambda>w _ _ seg _. (UDP_OK, seg # w))"
  by (auto simp: bound_core_def udp_ok_def zero_socket_def nth_list_update dest: set_update_subset_insert [THEN subsetD])

theorem udp_round_trip_witness:
  "\<exists>seg n st w' c1 c3 c4.
     udp_send [] (Ref (bound_core 5 1000)) 1 9 53 (Ref [1, 2, 3]) 3 = Some (st, Ref c1, w') \<and>
     (UDP_OK, [seg]) = (st, w') \<and> udp_ok c1 \<and>
     udp_input [] (Ref (bound_core 9 53)) 5 9 (Ref seg) n = Some (UDP_OK, Ref c3, []) \<and> udp_ok c3 \<and>
     udp_recv (Ref c3) 1 (Ref 0) (Ref 0) (Ref [0, 0, 0, 0]) 4 (Ref 0) =
       Some (UDP_OK, Ref c4, Ref 5, Ref 1000, Ref [1, 2, 3, 0], Ref 3) \<and>
     udp_recv (Ref c4) 1 (Ref 0) (Ref 0) (Ref [0, 0, 0, 0]) 4 (Ref 0) =
       Some (UDP_ERR_AGAIN, Ref c4, Ref 0, Ref 0, Ref [0, 0, 0, 0], Ref 0)"
  using udp_round_trip [where ?c = "bound_core 5 1000" and ?i = 0 and ?r = "bound_core 9 53" and ?j = 0 and ?dst = 9
      and ?d = "[1, 2, 3]" and ?cap = 4 and ?out = "[0, 0, 0, 0]" and ?w = "[]" and ?v = "[]",
      OF bound_core_ok(1) _ bound_core_ok(2) bound_core_ok(8) bound_core_ok(1) bound_core_ok(3) _ bound_core_ok(2) bound_core_ok(4)]
  by (simp add: bound_core_ok(5-7))

text \<open>C34: Every run of a client from \<open>udp_init\<close>, any sequence of binds, closes, sends, receives and incoming
  datagrams with arbitrary contents, has no undefined behaviour and ends in a core where each mailbox
  fits its buffer and no two open sockets have the same port.\<close>

theorem udp_run_safe:
  assumes "udp_init (Ref c0) ip (Ref tx) = (UDP_OK, Ref c)" and "\<forall>a \<in> set as. length (buffer_of a) < 2 ^ 32"
  shows "\<exists>c' w'. udp_run as (Ref c, w) = Some (Ref c', w') \<and> length (socks c') = 8 \<and>
     (\<forall>s \<in> set (socks c'). length (buf s) = 1472 \<and> s_len s \<le> 1472) \<and>
     (\<forall>k < 8. \<forall>l < 8. used (socks c' ! k) \<longrightarrow> used (socks c' ! l) \<longrightarrow>
        local_port (socks c' ! k) = local_port (socks c' ! l) \<longrightarrow> k = l)"
proof -
  obtain c' w' where "udp_run as (Ref c, w) = Some (Ref c', w')" "udp_ok c'"
    using udp_run_ok [OF udp_init_ok [OF assms(1)] assms(2), of w] by blast
  then show ?thesis unfolding udp_ok_def by blast
qed

theorem udp_run_safe_witness:
  "\<exists>c' w'. udp_run [Bind 0 53, Send 1 9 7 [1, 2], Bind 0 53, Input 3 4 [5, 6, 7], Recv 1 [0, 0], Close 1]
       (snd (udp_init (Ref (bound_core 0 0)) 9 (Ref (\<lambda>w _ _ seg _. (UDP_OK, seg # w)))), []) = Some (Ref c', w') \<and>
     length (socks c') = 8"
proof -
  let ?tx = "\<lambda>w (_ :: u32) (_ :: u8) seg (_ :: u32). (UDP_OK, seg # w)"
  have "\<exists>c. udp_init (Ref (bound_core 0 0)) 9 (Ref ?tx) = (UDP_OK, Ref c)" by (simp add: udp_init_def)
  then obtain c where c: "udp_init (Ref (bound_core 0 0)) 9 (Ref ?tx) = (UDP_OK, Ref c)" by blast
  show ?thesis
    using udp_run_safe [OF c, of "[Bind 0 53, Send 1 9 7 [1, 2], Bind 0 53, Input 3 4 [5, 6, 7], Recv 1 [0, 0], Close 1]" "[]"]
    unfolding c snd_conv by (auto simp: buffer_of_def simp del: udp_run.simps)
qed

end
