(* ===== verification/Tcp.thy ===== *)
theory Tcp
  imports Inet
begin

text \<open>
  The TCP core \<open>src/Drivers/tcpcore/tcpcore.c\<close>: eight connections, four listeners, in-order
  receive buffers and stop-and-wait retransmission. This theory holds the model of every operation,
  the shape of the segments that \<open>tcp_emit\<close> builds and what \<open>tcp_input\<close> reads back from them,
  and the invariant of the tables (buffers within bounds, the \<open>pending\<close> counter of a listener equal to the
  number of its connections that wait for \<open>tcp_accept\<close>).

  The IP layer below (\<open>ip_tx\<close>) is a function pointer; it acts on an arbitrary state of the outside
  world, of type \<open>'w\<close>, and does not call back into the core.
\<close>

section \<open>Model\<close>

type_synonym tcp_status_t = u32

abbreviation TCP_OK :: tcp_status_t where "TCP_OK \<equiv> 0"
abbreviation TCP_ERR_PARAM :: tcp_status_t where "TCP_ERR_PARAM \<equiv> 1"
abbreviation TCP_ERR_NOT_READY :: tcp_status_t where "TCP_ERR_NOT_READY \<equiv> 2"
abbreviation TCP_ERR_NO_CONN :: tcp_status_t where "TCP_ERR_NO_CONN \<equiv> 3"
abbreviation TCP_ERR_NO_SPACE :: tcp_status_t where "TCP_ERR_NO_SPACE \<equiv> 4"
abbreviation TCP_ERR_AGAIN :: tcp_status_t where "TCP_ERR_AGAIN \<equiv> 5"
abbreviation TCP_ERR_FULL :: tcp_status_t where "TCP_ERR_FULL \<equiv> 6"
abbreviation TCP_ERR_BAD_PACKET :: tcp_status_t where "TCP_ERR_BAD_PACKET \<equiv> 7"
abbreviation TCP_ERR_CLOSED :: tcp_status_t where "TCP_ERR_CLOSED \<equiv> 8"

abbreviation TCP_FIN :: u8 where "TCP_FIN \<equiv> 1"
abbreviation TCP_SYN :: u8 where "TCP_SYN \<equiv> 2"
abbreviation TCP_RST :: u8 where "TCP_RST \<equiv> 4"
abbreviation TCP_PSH :: u8 where "TCP_PSH \<equiv> 8"
abbreviation TCP_ACK :: u8 where "TCP_ACK \<equiv> 0x10"

abbreviation TCP_INITIAL_RTO :: u32 where "TCP_INITIAL_RTO \<equiv> 60"
abbreviation TCP_MAX_RTO :: u32 where "TCP_MAX_RTO \<equiv> 1000"
abbreviation TCP_TIME_WAIT_TICKS :: u32 where "TCP_TIME_WAIT_TICKS \<equiv> 500"

datatype tcp_state_t = CLOSED | LISTEN | SYN_SENT | SYN_RCVD | ESTABLISHED | FIN_WAIT_1 | FIN_WAIT_2
  | CLOSE_WAIT | CLOSING | LAST_ACK | TIME_WAIT

type_synonym 'w tcp_ip_tx_fn = "'w \<Rightarrow> u32 \<Rightarrow> u32 \<Rightarrow> u8 list \<Rightarrow> u32 \<Rightarrow> tcp_status_t \<times> 'w"

record tcp_conn_t =
  cstate :: tcp_state_t
  used :: bool
  is_passive :: bool
  accepted :: bool
  tx_pending :: bool
  c_local_ip :: u32
  remote_ip :: u32
  c_local_port :: u16
  remote_port :: u16
  snd_una :: u32
  snd_nxt :: u32
  snd_wnd :: u32
  rcv_nxt :: u32
  rcv_wnd :: u32
  iss :: u32
  irs :: u32
  rto :: u32
  rto_timer :: u32
  time_wait_timer :: u32
  tx_seq :: u32
  tx_end_seq :: u32
  tx_len :: u32
  mss :: u16
  rx_len :: u32
  rx_buf :: "u8 list"
  tx_buf :: "u8 list"

record tcp_listener_t =
  l_used :: bool
  l_local_ip :: u32
  l_local_port :: u16
  backlog :: u16
  pending :: u16

record 'w tcpcore_t =
  initialized :: bool
  local_ip :: u32
  iss_seed :: u16
  ip_tx :: "'w tcp_ip_tx_fn ptr"
  conns :: "tcp_conn_t list"
  listeners :: "tcp_listener_t list"
  scratch :: "u8 list"

definition zero_conn :: tcp_conn_t where
  "zero_conn = \<lparr>cstate = CLOSED, used = False, is_passive = False, accepted = False, tx_pending = False,
     c_local_ip = 0, remote_ip = 0, c_local_port = 0, remote_port = 0, snd_una = 0, snd_nxt = 0, snd_wnd = 0,
     rcv_nxt = 0, rcv_wnd = 0, iss = 0, irs = 0, rto = 0, rto_timer = 0, time_wait_timer = 0, tx_seq = 0,
     tx_end_seq = 0, tx_len = 0, mss = 0, rx_len = 0, rx_buf = replicate 4096 0, tx_buf = replicate 1480 0\<rparr>"

definition zero_listener :: tcp_listener_t where
  "zero_listener = \<lparr>l_used = False, l_local_ip = 0, l_local_port = 0, backlog = 0, pending = 0\<rparr>"

text \<open>Sequence numbers are compared by the sign of their 32-bit difference.\<close>

definition tcp_seq_lt :: "u32 \<Rightarrow> u32 \<Rightarrow> bool" where "tcp_seq_lt a b \<longleftrightarrow> sint (a - b) < 0"
definition tcp_seq_le :: "u32 \<Rightarrow> u32 \<Rightarrow> bool" where "tcp_seq_le a b \<longleftrightarrow> sint (a - b) \<le> 0"
definition tcp_seq_gt :: "u32 \<Rightarrow> u32 \<Rightarrow> bool" where "tcp_seq_gt a b \<longleftrightarrow> sint (a - b) > 0"
definition tcp_seq_ge :: "u32 \<Rightarrow> u32 \<Rightarrow> bool" where "tcp_seq_ge a b \<longleftrightarrow> sint (a - b) \<ge> 0"

definition tcp_checksum :: "u32 \<Rightarrow> u32 \<Rightarrow> u8 list \<Rightarrow> u32 \<Rightarrow> u16 comp" where
  "tcp_checksum src dst seg len = inet_checksum 6 src dst seg len"

text \<open>A pointer into one of the tables is the index.\<close>

definition tcp_conn_at :: "'w tcpcore_t \<Rightarrow> i32 \<Rightarrow> nat ptr comp" where
  "tcp_conn_at core id1 =
     (if sint id1 \<le> 0 \<or> id1 > 8 then Some NULL
      else do { c \<leftarrow> c_rd (conns core) (unat (id1 - 1));
                Some (if \<not> used c then NULL else Ref (unat (id1 - 1))) })"

definition tcp_conn_id :: "nat \<Rightarrow> i32" where
  "tcp_conn_id i = of_nat (i + 1)"

definition to_ptr :: "nat option \<Rightarrow> nat ptr" where
  "to_ptr r = (case r of None \<Rightarrow> NULL | Some i \<Rightarrow> Ref i)"

definition tcp_alloc_conn :: "'w tcpcore_t \<Rightarrow> nat ptr comp" where
  "tcp_alloc_conn core = do { r \<leftarrow> c_find (\<lambda>c. \<not> used c) (conns core) 8 0; Some (to_ptr r) }"

definition conn_matches :: "u32 \<Rightarrow> u16 \<Rightarrow> u32 \<Rightarrow> u16 \<Rightarrow> tcp_conn_t \<Rightarrow> bool" where
  "conn_matches rip rport lip lport c \<longleftrightarrow>
     used c \<and> \<not> (remote_ip c \<noteq> rip \<or> remote_port c \<noteq> rport \<or> c_local_port c \<noteq> lport) \<and>
     \<not> (c_local_ip c \<noteq> 0 \<and> c_local_ip c \<noteq> lip)"

definition tcp_find :: "'w tcpcore_t \<Rightarrow> u32 \<Rightarrow> u16 \<Rightarrow> u32 \<Rightarrow> u16 \<Rightarrow> nat ptr comp" where
  "tcp_find core rip rport lip lport =
     do { r \<leftarrow> c_find (conn_matches rip rport lip lport) (conns core) 8 0; Some (to_ptr r) }"

definition tcp_find_listener :: "'w tcpcore_t \<Rightarrow> u16 \<Rightarrow> nat ptr comp" where
  "tcp_find_listener core port =
     do { r \<leftarrow> c_find (\<lambda>l. l_used l \<and> l_local_port l = port) (listeners core) 4 0; Some (to_ptr r) }"

text \<open>One connection less waits on the listener of a port.\<close>

definition drop_pending :: "'w tcpcore_t \<Rightarrow> u16 \<Rightarrow> 'w tcpcore_t comp" where
  "drop_pending core port =
     do { l \<leftarrow> tcp_find_listener core port;
          case l of NULL \<Rightarrow> Some core
          | Ref k \<Rightarrow>
             do { x \<leftarrow> c_rd (listeners core) k;
                  if pending x > 0
                  then do { ls \<leftarrow> c_wr (listeners core) k (x\<lparr>pending := pending x - 1\<rparr>); Some (core\<lparr>listeners := ls\<rparr>) }
                  else Some core } }"

definition tcp_release :: "'w tcpcore_t \<Rightarrow> nat \<Rightarrow> 'w tcpcore_t comp" where
  "tcp_release core i =
     do { c \<leftarrow> c_rd (conns core) i;
          core1 \<leftarrow> (if is_passive c \<and> \<not> accepted c then drop_pending core (c_local_port c) else Some core);
          cs \<leftarrow> c_wr (conns core1) i zero_conn;
          Some (core1\<lparr>conns := cs\<rparr>) }"

definition tcp_next_isn :: "'w tcpcore_t \<Rightarrow> u32 \<times> 'w tcpcore_t" where
  "tcp_next_isn core =
     (let s = (ucast ((ucast (iss_seed core) :: u32) * 25173 + 13849) :: u16)
      in (push_bit 16 (ucast s :: u32) XOR ((ucast s :: u32) * 40503), core\<lparr>iss_seed := s\<rparr>))"

definition tcp_write_header ::
  "u8 list \<Rightarrow> u16 \<Rightarrow> u16 \<Rightarrow> u32 \<Rightarrow> u32 \<Rightarrow> u8 \<Rightarrow> u16 \<Rightarrow> u8 list comp" where
  "tcp_write_header b sport dport seq ackn flags window =
     do { b \<leftarrow> st16 b 0 (ow_bswap16 sport);
          b \<leftarrow> st16 b 2 (ow_bswap16 dport);
          b \<leftarrow> st32 b 4 (ow_bswap32 seq);
          b \<leftarrow> st32 b 8 (ow_bswap32 ackn);
          b \<leftarrow> c_wr b 12 (push_bit 4 (20 div 4));
          b \<leftarrow> c_wr b 13 flags;
          b \<leftarrow> st16 b 14 (ow_bswap16 window);
          b \<leftarrow> st16 b 16 0;
          st16 b 18 0 }"

text \<open>The send sequence advances by the payload, \<open>SYN\<close> and \<open>FIN\<close>.\<close>

definition tcp_advance :: "u32 \<Rightarrow> u32 \<Rightarrow> u8 \<Rightarrow> u32" where
  "tcp_advance nxt len flags =
     (let nxt = nxt + len;
          nxt = (if flags AND TCP_SYN \<noteq> 0 then nxt + 1 else nxt)
      in if flags AND TCP_FIN \<noteq> 0 then nxt + 1 else nxt)"

definition tcp_emit ::
  "'w \<Rightarrow> 'w tcpcore_t \<Rightarrow> nat \<Rightarrow> u8 \<Rightarrow> u8 list ptr \<Rightarrow> u32 \<Rightarrow> bool \<Rightarrow> (tcp_status_t \<times> 'w tcpcore_t \<times> 'w) comp" where
  "tcp_emit w core i flags payload len save =
     (if len > 1460 then Some (TCP_ERR_NO_SPACE, core, w)
      else do {
        c \<leftarrow> c_rd (conns core) i;
        let seg_len = 20 + len; seq_start = snd_nxt c in do {
        b \<leftarrow> tcp_write_header (scratch core) (c_local_port c) (remote_port c) seq_start (rcv_nxt c) flags (ucast (rcv_wnd c));
        b \<leftarrow> (if len \<noteq> 0 then (case payload of NULL \<Rightarrow> None | Ref p \<Rightarrow> c_memcpy b 20 p (unat len)) else Some b);
        csum \<leftarrow> tcp_checksum (c_local_ip c) (remote_ip c) b seg_len;
        b \<leftarrow> st16 b 16 (ow_bswap16 (encode_checksum csum));
        let nxt = tcp_advance (snd_nxt c) len flags; c1 = c\<lparr>snd_nxt := nxt\<rparr> in do {
        c2 \<leftarrow> (if save then do { t \<leftarrow> c_memcpy (tx_buf c) 0 b (unat seg_len);
                 Some (c1\<lparr>tx_buf := t, tx_len := seg_len, tx_seq := seq_start, tx_end_seq := nxt, tx_pending := True,
                          rto := TCP_INITIAL_RTO, rto_timer := TCP_INITIAL_RTO\<rparr>) }
               else Some c1);
        cs \<leftarrow> c_wr (conns core) i c2;
        case ip_tx core of NULL \<Rightarrow> None
        | Ref tx \<Rightarrow> (let (st, w') = tx w (c_local_ip c) (remote_ip c) b seg_len
                    in Some (st, core\<lparr>conns := cs, scratch := b\<rparr>, w')) } } })"

definition tcp_send_rst ::
  "'w \<Rightarrow> 'w tcpcore_t \<Rightarrow> u32 \<Rightarrow> u16 \<Rightarrow> u32 \<Rightarrow> u16 \<Rightarrow> u32 \<Rightarrow> bool \<Rightarrow> u32 \<Rightarrow> ('w tcpcore_t \<times> 'w) comp" where
  "tcp_send_rst w core src_ip src_port dst_ip dst_port seq with_ack ackn =
     do { b \<leftarrow> tcp_write_header (scratch core) src_port dst_port seq ackn (TCP_RST OR (if with_ack then TCP_ACK else 0)) 0;
          csum \<leftarrow> tcp_checksum src_ip dst_ip b 20;
          b \<leftarrow> st16 b 16 (ow_bswap16 (encode_checksum csum));
          case ip_tx core of NULL \<Rightarrow> None
          | Ref tx \<Rightarrow> (let (_, w') = tx w src_ip dst_ip b 20 in Some (core\<lparr>scratch := b\<rparr>, w')) }"

definition tcp_passive_open ::
  "'w \<Rightarrow> 'w tcpcore_t \<Rightarrow> u32 \<Rightarrow> u16 \<Rightarrow> u32 \<Rightarrow> u16 \<Rightarrow> u32 \<Rightarrow> u16 \<Rightarrow> (tcp_status_t \<times> 'w tcpcore_t \<times> 'w) comp" where
  "tcp_passive_open w core lip lport rip rport seq window =
     do { l \<leftarrow> tcp_find_listener core lport;
          case l of NULL \<Rightarrow> Some (TCP_ERR_NO_CONN, core, w)
          | Ref k \<Rightarrow>
             do { x \<leftarrow> c_rd (listeners core) k;
                  if pending x \<ge> backlog x then Some (TCP_ERR_FULL, core, w)
                  else do {
                    a \<leftarrow> tcp_alloc_conn core;
                    case a of NULL \<Rightarrow> Some (TCP_ERR_FULL, core, w)
                    | Ref i \<Rightarrow>
                       let (isn, core1) = tcp_next_isn core in
                       do { cs \<leftarrow> c_wr (conns core1) i (zero_conn\<lparr>used := True, is_passive := True, accepted := False,
                              cstate := SYN_RCVD, c_local_ip := lip, remote_ip := rip, c_local_port := lport,
                              remote_port := rport, iss := isn, irs := seq, snd_una := isn, snd_nxt := isn,
                              rcv_nxt := seq + 1, rcv_wnd := 4096, snd_wnd := ucast window, mss := 1460,
                              rto := TCP_INITIAL_RTO\<rparr>);
                            ls \<leftarrow> c_wr (listeners core1) k (x\<lparr>pending := pending x + 1\<rparr>);
                            tcp_emit w (core1\<lparr>conns := cs, listeners := ls\<rparr>) i (TCP_SYN OR TCP_ACK) NULL 0 True } } } }"

definition tcp_init :: "'w tcpcore_t ptr \<Rightarrow> u32 \<Rightarrow> 'w tcp_ip_tx_fn ptr \<Rightarrow> tcp_status_t \<times> 'w tcpcore_t ptr" where
  "tcp_init core ip tx =
     (case (core, tx) of
        (Ref c, Ref _) \<Rightarrow>
          (TCP_OK, Ref \<lparr>initialized = True, local_ip = ip, iss_seed = 0x1D2B, ip_tx = tx,
             conns = replicate 8 zero_conn, listeners = replicate 4 zero_listener, scratch = replicate 1480 0\<rparr>)
      | _ \<Rightarrow> (TCP_ERR_PARAM, core))"

definition tcp_connect ::
  "'w \<Rightarrow> 'w tcpcore_t ptr \<Rightarrow> u32 \<Rightarrow> u16 \<Rightarrow> u32 \<Rightarrow> u16 \<Rightarrow> (i32 \<times> 'w tcpcore_t ptr \<times> 'w) comp" where
  "tcp_connect w core lip lport rip rport =
     (case core of NULL \<Rightarrow> Some (0, core, w)
      | Ref k \<Rightarrow>
         if \<not> initialized k \<or> lport = 0 \<or> rport = 0 \<or> rip = 0 then Some (0, core, w)
         else do {
           f \<leftarrow> tcp_find k rip rport lip lport;
           if f \<noteq> NULL then Some (0, core, w)
           else do {
             a \<leftarrow> tcp_alloc_conn k;
             case a of NULL \<Rightarrow> Some (0, core, w)
             | Ref i \<Rightarrow>
                let (isn, k1) = tcp_next_isn k in
                do { cs \<leftarrow> c_wr (conns k1) i (zero_conn\<lparr>used := True, is_passive := False, cstate := SYN_SENT,
                       c_local_ip := lip, remote_ip := rip, c_local_port := lport, remote_port := rport,
                       iss := isn, snd_una := isn, snd_nxt := isn, rcv_nxt := 0, rcv_wnd := 4096, snd_wnd := 4096,
                       mss := 1460, rto := TCP_INITIAL_RTO, rto_timer := TCP_INITIAL_RTO\<rparr>);
                     (st, k2, w1) \<leftarrow> tcp_emit w (k1\<lparr>conns := cs\<rparr>) i TCP_SYN NULL 0 True;
                     if st \<noteq> TCP_OK
                     then do { cs2 \<leftarrow> c_wr (conns k2) i zero_conn; Some (0, Ref (k2\<lparr>conns := cs2\<rparr>), w1) }
                     else Some (tcp_conn_id i, Ref k2, w1) } } })"

definition tcp_listen :: "'w tcpcore_t ptr \<Rightarrow> u32 \<Rightarrow> u16 \<Rightarrow> u16 \<Rightarrow> (tcp_status_t \<times> 'w tcpcore_t ptr) comp" where
  "tcp_listen core lip lport bl =
     (case core of NULL \<Rightarrow> Some (TCP_ERR_PARAM, core)
      | Ref k \<Rightarrow>
         if \<not> initialized k \<or> lport = 0 then Some (TCP_ERR_PARAM, core)
         else let bl = (if bl = 0 then 1 else bl) in do {
           r \<leftarrow> c_find (\<lambda>l. l_used l \<and> l_local_port l = lport) (listeners k) 4 0;
           case r of
             Some j \<Rightarrow> do { l \<leftarrow> c_rd (listeners k) j;
                           ls \<leftarrow> c_wr (listeners k) j (l\<lparr>backlog := bl\<rparr>);
                           Some (TCP_OK, Ref (k\<lparr>listeners := ls\<rparr>)) }
           | None \<Rightarrow> do {
               e \<leftarrow> c_find (\<lambda>l. \<not> l_used l) (listeners k) 4 0;
               case e of None \<Rightarrow> Some (TCP_ERR_FULL, core)
               | Some j \<Rightarrow> do { ls \<leftarrow> c_wr (listeners k) j \<lparr>l_used = True, l_local_ip = lip, l_local_port = lport,
                                     backlog = bl, pending = 0\<rparr>;
                               Some (TCP_OK, Ref (k\<lparr>listeners := ls\<rparr>)) } } })"

definition acceptable :: "u32 \<Rightarrow> u16 \<Rightarrow> tcp_conn_t \<Rightarrow> bool" where
  "acceptable lip lport c \<longleftrightarrow>
     \<not> (\<not> used c \<or> \<not> is_passive c \<or> accepted c) \<and> cstate c = ESTABLISHED \<and> c_local_port c = lport \<and>
     \<not> (c_local_ip c \<noteq> 0 \<and> c_local_ip c \<noteq> lip)"

definition tcp_accept :: "'w tcpcore_t ptr \<Rightarrow> u32 \<Rightarrow> u16 \<Rightarrow> i32 ptr \<Rightarrow> (tcp_status_t \<times> 'w tcpcore_t ptr \<times> i32 ptr) comp" where
  "tcp_accept core lip lport out =
     (case (core, out) of
        (Ref k, Ref _) \<Rightarrow>
          do { r \<leftarrow> c_find (acceptable lip lport) (conns k) 8 0;
               case r of None \<Rightarrow> Some (TCP_ERR_AGAIN, core, out)
               | Some i \<Rightarrow> do { c \<leftarrow> c_rd (conns k) i;
                               cs \<leftarrow> c_wr (conns k) i (c\<lparr>accepted := True\<rparr>);
                               k1 \<leftarrow> drop_pending (k\<lparr>conns := cs\<rparr>) lport;
                               Some (TCP_OK, Ref k1, Ref (of_nat (i + 1))) } }
      | _ \<Rightarrow> Some (TCP_ERR_PARAM, core, out))"

definition tcp_send ::
  "'w \<Rightarrow> 'w tcpcore_t ptr \<Rightarrow> i32 \<Rightarrow> u8 list ptr \<Rightarrow> u32 \<Rightarrow> (tcp_status_t \<times> 'w tcpcore_t ptr \<times> 'w) comp" where
  "tcp_send w core conn data len =
     (case core of NULL \<Rightarrow> Some (TCP_ERR_PARAM, core, w)
      | Ref k \<Rightarrow>
         if data = NULL \<and> len \<noteq> 0 then Some (TCP_ERR_PARAM, core, w)
         else do {
           a \<leftarrow> tcp_conn_at k conn;
           case a of NULL \<Rightarrow> Some (TCP_ERR_NO_CONN, core, w)
           | Ref i \<Rightarrow>
              do { c \<leftarrow> c_rd (conns k) i;
                   if cstate c \<noteq> ESTABLISHED \<and> cstate c \<noteq> CLOSE_WAIT then Some (TCP_ERR_CLOSED, core, w)
                   else if len = 0 then Some (TCP_OK, core, w)
                   else if len > 1460 then Some (TCP_ERR_NO_SPACE, core, w)
                   else if tx_pending c then Some (TCP_ERR_AGAIN, core, w)
                   else do { (st, k1, w1) \<leftarrow> tcp_emit w k i (TCP_ACK OR TCP_PSH) data len True; Some (st, Ref k1, w1) } } })"

text \<open>The loop that moves the unread bytes to the front.\<close>

function shift_down :: "u8 list \<Rightarrow> nat \<Rightarrow> nat \<Rightarrow> nat \<Rightarrow> u8 list comp" where
  "shift_down b n len i =
     (if i < len then do { x \<leftarrow> c_rd b i; b' \<leftarrow> c_wr b (i - n) x; shift_down b' n len (Suc i) } else Some b)"
  by pat_completeness auto
termination by (relation "measure (\<lambda>(b, n, len, i). len - i)") auto

declare shift_down.simps [simp del]

definition tcp_recv ::
  "'w tcpcore_t ptr \<Rightarrow> i32 \<Rightarrow> u8 list ptr \<Rightarrow> u32 \<Rightarrow> u32 ptr \<Rightarrow>
   (tcp_status_t \<times> 'w tcpcore_t ptr \<times> u8 list ptr \<times> u32 ptr) comp" where
  "tcp_recv core conn buf cap out_len =
     (case (core, buf, out_len) of
        (Ref k, Ref b, Ref _) \<Rightarrow>
          do { a \<leftarrow> tcp_conn_at k conn;
               case a of NULL \<Rightarrow> Some (TCP_ERR_NO_CONN, core, buf, out_len)
               | Ref i \<Rightarrow>
                  do { c \<leftarrow> c_rd (conns k) i;
                       if rx_len c = 0
                       then Some (if cstate c = CLOSED then TCP_ERR_CLOSED else TCP_ERR_AGAIN, core, buf, out_len)
                       else let n = (if rx_len c < cap then rx_len c else cap) in
                         do { b1 \<leftarrow> c_memcpy b 0 (rx_buf c) (unat n);
                              rb \<leftarrow> shift_down (rx_buf c) (unat n) (unat (rx_len c)) (unat n);
                              cs \<leftarrow> c_wr (conns k) i (c\<lparr>rx_buf := rb, rx_len := rx_len c - n\<rparr>);
                              Some (TCP_OK, Ref (k\<lparr>conns := cs\<rparr>), Ref b1, Ref n) } } }
      | _ \<Rightarrow> Some (TCP_ERR_PARAM, core, buf, out_len))"

definition set_conn :: "'w tcpcore_t \<Rightarrow> nat \<Rightarrow> tcp_conn_t \<Rightarrow> 'w tcpcore_t comp" where
  "set_conn k i c = do { cs \<leftarrow> c_wr (conns k) i c; Some (k\<lparr>conns := cs\<rparr>) }"

definition tcp_close :: "'w \<Rightarrow> 'w tcpcore_t ptr \<Rightarrow> i32 \<Rightarrow> (tcp_status_t \<times> 'w tcpcore_t ptr \<times> 'w) comp" where
  "tcp_close w core conn =
     (case core of NULL \<Rightarrow> Some (TCP_ERR_PARAM, core, w)
      | Ref k \<Rightarrow>
         do { a \<leftarrow> tcp_conn_at k conn;
              case a of NULL \<Rightarrow> Some (TCP_ERR_NO_CONN, core, w)
              | Ref i \<Rightarrow>
                 do { c \<leftarrow> c_rd (conns k) i;
                      let finish = (\<lambda>s. do { k1 \<leftarrow> set_conn k i (c\<lparr>cstate := s\<rparr>);
                                             (st, k2, w1) \<leftarrow> tcp_emit w k1 i (TCP_FIN OR TCP_ACK) NULL 0 True;
                                             Some (st, Ref k2, w1) }) in
                      case cstate c of
                        ESTABLISHED \<Rightarrow> finish FIN_WAIT_1
                      | CLOSE_WAIT \<Rightarrow> finish LAST_ACK
                      | SYN_SENT \<Rightarrow> do { k1 \<leftarrow> tcp_release k i; Some (TCP_OK, Ref k1, w) }
                      | SYN_RCVD \<Rightarrow> do { k1 \<leftarrow> tcp_release k i; Some (TCP_OK, Ref k1, w) }
                      | CLOSED \<Rightarrow> Some (TCP_ERR_CLOSED, core, w)
                      | _ \<Rightarrow> Some (TCP_ERR_AGAIN, core, w) } })"

section \<open>Incoming segments\<close>

text \<open>The acknowledgement of a connection that is past its handshake, or of the last step of the handshake.\<close>

definition tcp_acked :: "tcp_conn_t \<Rightarrow> u32 \<Rightarrow> u16 \<Rightarrow> tcp_conn_t" where
  "tcp_acked c ackn window =
     (if cstate c = SYN_RCVD then c\<lparr>snd_una := ackn, cstate := ESTABLISHED, tx_pending := False\<rparr>
      else if tcp_seq_gt ackn (snd_una c) \<and> tcp_seq_le ackn (snd_nxt c)
      then c\<lparr>snd_una := ackn, snd_wnd := ucast window,
             tx_pending := (if tx_pending c \<and> tcp_seq_ge ackn (tx_end_seq c) then False else tx_pending c)\<rparr>
      else c)"

definition receiving :: "tcp_conn_t \<Rightarrow> bool" where
  "receiving c \<longleftrightarrow> cstate c = ESTABLISHED \<or> cstate c = FIN_WAIT_1 \<or> cstate c = FIN_WAIT_2"

text \<open>In-order delivery and the acknowledgement of data; the status is set when the function returns here.\<close>

definition tcp_deliver ::
  "'w \<Rightarrow> 'w tcpcore_t \<Rightarrow> nat \<Rightarrow> u32 \<Rightarrow> u8 list \<Rightarrow> u32 \<Rightarrow> (tcp_status_t option \<times> 'w tcpcore_t \<times> 'w) comp" where
  "tcp_deliver w k i seq payload plen =
     (if plen = 0 then Some (None, k, w)
      else do {
        c \<leftarrow> c_rd (conns k) i;
        k1 \<leftarrow> (if seq = rcv_nxt c \<and> rx_len c + plen \<le> 4096
               then do { b \<leftarrow> c_memcpy (rx_buf c) (unat (rx_len c)) payload (unat plen);
                         set_conn k i (c\<lparr>rx_buf := b, rx_len := rx_len c + plen, rcv_nxt := rcv_nxt c + plen\<rparr>) }
               else Some k);
        (st, k2, w1) \<leftarrow> tcp_emit w k1 i TCP_ACK NULL 0 False;
        Some (if st \<noteq> TCP_OK then Some TCP_ERR_AGAIN else None, k2, w1) })"

definition tcp_fin ::
  "'w \<Rightarrow> 'w tcpcore_t \<Rightarrow> nat \<Rightarrow> u32 \<Rightarrow> u32 \<Rightarrow> ('w tcpcore_t \<times> 'w) comp" where
  "tcp_fin w k i seq plen =
     do { c \<leftarrow> c_rd (conns k) i;
          k1 \<leftarrow> set_conn k i (c\<lparr>rcv_nxt := seq + plen + 1\<rparr>);
          (_, k2, w1) \<leftarrow> tcp_emit w k1 i TCP_ACK NULL 0 False;
          c2 \<leftarrow> c_rd (conns k2) i;
          k3 \<leftarrow> set_conn k2 i
             (if cstate c2 = ESTABLISHED then c2\<lparr>cstate := CLOSE_WAIT\<rparr>
              else if cstate c2 = FIN_WAIT_1 then c2\<lparr>cstate := CLOSING\<rparr>
              else c2\<lparr>cstate := TIME_WAIT, time_wait_timer := TCP_TIME_WAIT_TICKS\<rparr>);
          Some (k3, w1) }"

definition tcp_finish :: "'w tcpcore_t \<Rightarrow> nat \<Rightarrow> 'w tcpcore_t comp" where
  "tcp_finish k i =
     do { c \<leftarrow> c_rd (conns k) i;
          let c1 = (if cstate c = FIN_WAIT_1 \<and> tcp_seq_ge (snd_una c) (snd_nxt c) then c\<lparr>cstate := FIN_WAIT_2\<rparr> else c);
              c2 = (if cstate c1 = CLOSING \<and> tcp_seq_ge (snd_una c1) (snd_nxt c1)
                    then c1\<lparr>cstate := TIME_WAIT, time_wait_timer := TCP_TIME_WAIT_TICKS\<rparr> else c1) in
          do { k1 \<leftarrow> set_conn k i c2;
               if cstate c2 = LAST_ACK \<and> tcp_seq_ge (snd_una c2) (snd_nxt c2) then tcp_release k1 i else Some k1 } }"

text \<open>What \<open>tcp_input\<close> does with a segment of a known connection, once the acknowledgement is processed.\<close>

definition tcp_receive ::
  "'w \<Rightarrow> 'w tcpcore_t \<Rightarrow> nat \<Rightarrow> u32 \<Rightarrow> u8 \<Rightarrow> u8 list \<Rightarrow> u32 \<Rightarrow> (tcp_status_t \<times> 'w tcpcore_t \<times> 'w) comp" where
  "tcp_receive w k i seq flags payload plen =
     do { c \<leftarrow> c_rd (conns k) i;
          if receiving c
          then do {
            (r, k1, w1) \<leftarrow> tcp_deliver w k i seq payload plen;
            case r of Some st \<Rightarrow> Some (st, k1, w1)
            | None \<Rightarrow>
               do { (k2, w2) \<leftarrow> (if flags AND TCP_FIN \<noteq> 0 then tcp_fin w1 k1 i seq plen else Some (k1, w1));
                    k3 \<leftarrow> tcp_finish k2 i;
                    Some (TCP_OK, k3, w2) } }
          else do { k1 \<leftarrow> tcp_finish k i; Some (TCP_OK, k1, w) } }"

text \<open>A segment that belongs to no connection.\<close>

definition tcp_unknown ::
  "'w \<Rightarrow> 'w tcpcore_t \<Rightarrow> u32 \<Rightarrow> u32 \<Rightarrow> u16 \<Rightarrow> u16 \<Rightarrow> u32 \<Rightarrow> u32 \<Rightarrow> u8 \<Rightarrow> u16 \<Rightarrow> u32 \<Rightarrow>
   (tcp_status_t \<times> 'w tcpcore_t \<times> 'w) comp" where
  "tcp_unknown w k src_ip dst_ip sport dport seq ackn flags window plen =
     (if flags AND TCP_SYN \<noteq> 0 \<and> flags AND TCP_ACK = 0
      then tcp_passive_open w k dst_ip dport src_ip sport seq window
      else if flags AND TCP_RST = 0
      then (let rseq = seq + plen;
                rseq = (if flags AND TCP_SYN \<noteq> 0 then rseq + 1 else rseq);
                rseq = (if flags AND TCP_FIN \<noteq> 0 then rseq + 1 else rseq) in
            do { (k1, w1) \<leftarrow> tcp_send_rst w k dst_ip dport src_ip sport rseq (flags AND TCP_ACK \<noteq> 0) ackn;
                 Some (TCP_ERR_NO_CONN, k1, w1) })
      else Some (TCP_ERR_NO_CONN, k, w))"

definition tcp_known ::
  "'w \<Rightarrow> 'w tcpcore_t \<Rightarrow> nat \<Rightarrow> u32 \<Rightarrow> u32 \<Rightarrow> u8 \<Rightarrow> u16 \<Rightarrow> u8 list \<Rightarrow> u32 \<Rightarrow>
   (tcp_status_t \<times> 'w tcpcore_t \<times> 'w) comp" where
  "tcp_known w k i seq ackn flags window payload plen =
     do { c \<leftarrow> c_rd (conns k) i;
          if flags AND TCP_RST \<noteq> 0 then do { k1 \<leftarrow> tcp_release k i; Some (TCP_OK, k1, w) }
          else if flags AND TCP_ACK \<noteq> 0 \<and> cstate c = SYN_SENT
          then (if ackn \<noteq> iss c + 1 then Some (TCP_ERR_BAD_PACKET, k, w)
                else do { k1 \<leftarrow> set_conn k i (c\<lparr>snd_una := ackn, snd_wnd := ucast window, irs := seq, rcv_nxt := seq + 1,
                             cstate := ESTABLISHED, tx_pending := False\<rparr>);
                          tcp_emit w k1 i TCP_ACK NULL 0 False })
          else if flags AND TCP_ACK \<noteq> 0 \<and> cstate c = SYN_RCVD \<and> ackn \<noteq> snd_nxt c
          then Some (TCP_ERR_BAD_PACKET, k, w)
          else do { k1 \<leftarrow> (if flags AND TCP_ACK \<noteq> 0 then set_conn k i (tcp_acked c ackn window) else Some k);
                    tcp_receive w k1 i seq flags payload plen } }"

definition tcp_input ::
  "'w \<Rightarrow> 'w tcpcore_t ptr \<Rightarrow> u32 \<Rightarrow> u32 \<Rightarrow> u8 list ptr \<Rightarrow> u32 \<Rightarrow> (tcp_status_t \<times> 'w tcpcore_t ptr \<times> 'w) comp" where
  "tcp_input w core src_ip dst_ip segment len =
     (case (core, segment) of
        (Ref k, Ref s) \<Rightarrow>
          if \<not> initialized k then Some (TCP_ERR_NOT_READY, core, w)
          else if len < 20 then Some (TCP_ERR_BAD_PACKET, core, w)
          else do {
            h0 \<leftarrow> ld16 s 0; h2 \<leftarrow> ld16 s 2; h4 \<leftarrow> ld32 s 4; h8 \<leftarrow> ld32 s 8;
            off \<leftarrow> c_rd s 12; flags \<leftarrow> c_rd s 13; h14 \<leftarrow> ld16 s 14;
            let sport = ow_bswap16 h0; dport = ow_bswap16 h2; seq = ow_bswap32 h4; ackn = ow_bswap32 h8;
                window = ow_bswap16 h14; doff = (ucast (drop_bit 4 off) :: u32) * 4 in
            if doff < 20 \<or> doff > len then Some (TCP_ERR_BAD_PACKET, core, w)
            else do {
              cs \<leftarrow> tcp_checksum src_ip dst_ip s len;
              if cs \<noteq> 0 then Some (TCP_ERR_BAD_PACKET, core, w)
              else do {
                f \<leftarrow> tcp_find k src_ip sport dst_ip dport;
                (st, k1, w1) \<leftarrow> (case f of
                    NULL \<Rightarrow> tcp_unknown w k src_ip dst_ip sport dport seq ackn flags window (len - doff)
                  | Ref i \<Rightarrow> tcp_known w k i seq ackn flags window (drop (unat doff) s) (len - doff));
                Some (st, Ref k1, w1) } } }
      | _ \<Rightarrow> Some (TCP_ERR_PARAM, core, w))"

section \<open>Timers\<close>

definition tcp_tick_conn :: "'w \<Rightarrow> 'w tcpcore_t \<Rightarrow> u32 \<Rightarrow> nat \<Rightarrow> ('w tcpcore_t \<times> 'w) comp" where
  "tcp_tick_conn w k elapsed i =
     do { c \<leftarrow> c_rd (conns k) i;
          if \<not> used c then Some (k, w)
          else if cstate c = TIME_WAIT
          then (if time_wait_timer c \<le> elapsed then do { k1 \<leftarrow> tcp_release k i; Some (k1, w) }
                else do { k1 \<leftarrow> set_conn k i (c\<lparr>time_wait_timer := time_wait_timer c - elapsed\<rparr>); Some (k1, w) })
          else if \<not> tx_pending c then Some (k, w)
          else if rto_timer c \<le> elapsed
          then (case ip_tx k of NULL \<Rightarrow> None
                | Ref tx \<Rightarrow>
                   (let (_, w1) = tx w (c_local_ip c) (remote_ip c) (tx_buf c) (tx_len c);
                        r = rto c * 2; r = (if r > TCP_MAX_RTO then TCP_MAX_RTO else r) in
                    do { k1 \<leftarrow> set_conn k i (c\<lparr>rto := r, rto_timer := r\<rparr>); Some (k1, w1) }))
          else do { k1 \<leftarrow> set_conn k i (c\<lparr>rto_timer := rto_timer c - elapsed\<rparr>); Some (k1, w) } }"

function tick_loop :: "'w \<Rightarrow> 'w tcpcore_t \<Rightarrow> u32 \<Rightarrow> nat \<Rightarrow> ('w tcpcore_t \<times> 'w) comp" where
  "tick_loop w k elapsed i =
     (if i < 8 then do { (k1, w1) \<leftarrow> tcp_tick_conn w k elapsed i; tick_loop w1 k1 elapsed (Suc i) } else Some (k, w))"
  by pat_completeness auto
termination by (relation "measure (\<lambda>(w, k, e, i). 8 - i)") auto

declare tick_loop.simps [simp del]

definition tcp_tick :: "'w \<Rightarrow> 'w tcpcore_t ptr \<Rightarrow> u32 \<Rightarrow> (tcp_status_t \<times> 'w tcpcore_t ptr \<times> 'w) comp" where
  "tcp_tick w core elapsed =
     (case core of NULL \<Rightarrow> Some (TCP_ERR_PARAM, core, w)
      | Ref k \<Rightarrow>
         if \<not> initialized k then Some (TCP_ERR_NOT_READY, core, w)
         else do { (k1, w1) \<leftarrow> tick_loop w k elapsed 0; Some (TCP_OK, Ref k1, w1) })"

definition tcp_conn_state :: "'w tcpcore_t ptr \<Rightarrow> i32 \<Rightarrow> tcp_state_t comp" where
  "tcp_conn_state core conn =
     (case core of NULL \<Rightarrow> Some CLOSED
      | Ref k \<Rightarrow>
         if sint conn \<le> 0 \<or> conn > 8 then Some CLOSED
         else do { c \<leftarrow> c_rd (conns k) (unat (conn - 1)); Some (if \<not> used c then CLOSED else cstate c) })"

section \<open>Segments\<close>

definition tcp_hdr :: "u16 \<Rightarrow> u16 \<Rightarrow> u32 \<Rightarrow> u32 \<Rightarrow> u8 \<Rightarrow> u16 \<Rightarrow> u16 \<Rightarrow> u8 list" where
  "tcp_hdr sp dp seq ackn flags win cs =
     be16 sp @ be16 dp @ be32 seq @ be32 ackn @ [0x50] @ [flags] @ be16 win @ be16 cs @ be16 0"

lemma length_tcp_hdr [simp]: "length (tcp_hdr sp dp seq ackn flags win cs) = 20"
  by (simp add: tcp_hdr_def)

lemma tcp_write_header_eq:
  assumes "20 \<le> length b"
  shows "tcp_write_header b sp dp seq ackn flags win = Some (tcp_hdr sp dp seq ackn flags win 0 @ drop 20 b)"
proof -
  have 1: "st16 b 0 (ow_bswap16 sp) = Some (be16 sp @ drop 2 b)" using st16_next [of "[]" 0 b sp] assms by simp
  have 2: "st16 (be16 sp @ drop 2 b) 2 (ow_bswap16 dp) = Some ((be16 sp @ be16 dp) @ drop 4 b)"
    using assms by (subst st16_next) simp_all
  let ?p4 = "be16 sp @ be16 dp"
  have 3: "st32 (?p4 @ drop 4 b) 4 (ow_bswap32 seq) = Some ((?p4 @ be32 seq) @ drop 8 b)"
    using assms by (subst st32_next) simp_all
  let ?p8 = "?p4 @ be32 seq"
  have 4: "st32 (?p8 @ drop 8 b) 8 (ow_bswap32 ackn) = Some ((?p8 @ be32 ackn) @ drop 12 b)"
    using assms by (subst st32_next) simp_all
  let ?p12 = "?p8 @ be32 ackn"
  have "push_bit 4 (20 div 4 :: u8) = 0x50" by simp
  then have 5: "c_wr (?p12 @ drop 12 b) 12 (push_bit 4 (20 div 4)) = Some ((?p12 @ [0x50]) @ drop 13 b)"
    using assms by (subst c_wr_next) simp_all
  let ?p13 = "?p12 @ [0x50 :: u8]"
  have 6: "c_wr (?p13 @ drop 13 b) 13 flags = Some ((?p13 @ [flags]) @ drop 14 b)"
    using assms by (subst c_wr_next) simp_all
  let ?p14 = "?p13 @ [flags]"
  have 7: "st16 (?p14 @ drop 14 b) 14 (ow_bswap16 win) = Some ((?p14 @ be16 win) @ drop 16 b)"
    using assms by (subst st16_next) simp_all
  let ?p16 = "?p14 @ be16 win"
  have 8: "st16 (?p16 @ drop 16 b) 16 0 = Some ((?p16 @ be16 0) @ drop 18 b)"
    using assms by (subst st16_next0) simp_all
  let ?p18 = "?p16 @ be16 0"
  have 9: "st16 (?p18 @ drop 18 b) 18 0 = Some ((?p18 @ be16 0) @ drop 20 b)"
    using assms by (subst st16_next0) simp_all
  show ?thesis
    unfolding tcp_write_header_def 1 bind.bind_lunit 2 3 4 5 6 7 8 9 by (simp add: tcp_hdr_def)
qed

definition tcp_segment :: "u16 \<Rightarrow> u16 \<Rightarrow> u32 \<Rightarrow> u32 \<Rightarrow> u8 \<Rightarrow> u16 \<Rightarrow> u16 \<Rightarrow> u8 list \<Rightarrow> u8 list" where
  "tcp_segment sp dp seq ackn flags win cs d = tcp_hdr sp dp seq ackn flags win cs @ d"

lemma length_tcp_segment [simp]: "length (tcp_segment sp dp seq ackn flags win cs d) = 20 + length d"
  by (simp add: tcp_segment_def)

lemma tcp_segment_put: "put (tcp_segment sp dp seq ackn flags win 0 d @ rest) 16 (be16 cs) = tcp_segment sp dp seq ackn flags win cs d @ rest"
  using put_next [of "be16 sp @ be16 dp @ be32 seq @ be32 ackn @ [0x50] @ [flags] @ be16 win" 16 "be16 0 @ be16 0 @ d @ rest" "be16 cs"]
  by (simp add: tcp_segment_def tcp_hdr_def)

lemma tcp_segment_st16:
  "st16 (tcp_segment sp dp seq ackn flags win 0 d @ rest) 16 (ow_bswap16 cs) = Some (tcp_segment sp dp seq ackn flags win cs d @ rest)"
  using st16_bswap [of 16 "tcp_segment sp dp seq ackn flags win 0 d @ rest" cs] by (simp add: tcp_segment_put)

text \<open>The checksum field of an emitted segment.\<close>

definition tcp_csum :: "u32 \<Rightarrow> u32 \<Rightarrow> u16 \<Rightarrow> u16 \<Rightarrow> u32 \<Rightarrow> u32 \<Rightarrow> u8 \<Rightarrow> u16 \<Rightarrow> u8 list \<Rightarrow> u16" where
  "tcp_csum a b sp dp seq ackn flags win d =
     (case tcp_checksum a b (tcp_segment sp dp seq ackn flags win 0 d) (of_nat (20 + length d)) of Some c \<Rightarrow> encode_checksum c)"

lemma tcp_len_words:
  assumes "length d \<le> 1460"
  shows "unat (of_nat (20 + length d) :: u32) = 20 + length d" and "unat (of_nat (length d) :: u32) = length d"
  using assms by (simp_all add: unat_of_nat del: of_nat_add)

lemma tcp_csum_props:
  assumes "length d \<le> 1460"
  shows "\<exists>c. tcp_checksum a b (tcp_segment sp dp seq ackn flags win 0 d @ rest) (of_nat (20 + length d)) = Some c \<and>
      encode_checksum c = tcp_csum a b sp dp seq ackn flags win d"
    and "tcp_checksum a b (tcp_segment sp dp seq ackn flags win (tcp_csum a b sp dp seq ackn flags win d) d @ rest)
      (of_nat (20 + length d)) = Some 0"
proof -
  note len = tcp_len_words [OF assms]
  let ?n = "of_nat (20 + length d) :: u32" and ?s = "tcp_segment sp dp seq ackn flags win 0 d"
  have cut: "inet_checksum 6 a b (x @ rest) ?n = inet_checksum 6 a b x ?n" if "length x = 20 + length d" for x
    using inet_checksum_take [of ?n "x @ rest" 6 a b] that len(1) by simp
  have small: "unat ?n \<le> length ?s" "unat ?n \<le> 65535" "unat (6 :: u32) \<le> 255" "unat ?n = length ?s"
    using assms len(1) by simp_all
  obtain c where c: "inet_checksum 6 a b ?s ?n = Some c"
    using inet_checksum_eq [OF small(1-3), of a b] by blast
  have e: "tcp_csum a b sp dp seq ackn flags win d = encode_checksum c"
    by (simp add: tcp_csum_def tcp_checksum_def c del: of_nat_add)
  show "\<exists>c. tcp_checksum a b (?s @ rest) ?n = Some c \<and> encode_checksum c = tcp_csum a b sp dp seq ackn flags win d"
    using cut [of ?s] c e by (simp add: tcp_checksum_def del: of_nat_add)
  have "take 2 (drop 16 ?s) = [0, 0]" by (simp add: tcp_segment_def tcp_hdr_def be16_0)
  then have "inet_checksum 6 a b (put ?s 16 (be16 (encode_checksum c))) ?n = Some 0"
    using small by (intro filled_segment_checks [OF small(4,2,3) c]) simp_all
  then show "tcp_checksum a b (tcp_segment sp dp seq ackn flags win (tcp_csum a b sp dp seq ackn flags win d) d @ rest) ?n = Some 0"
    using cut [of "tcp_segment sp dp seq ackn flags win (tcp_csum a b sp dp seq ackn flags win d) d"]
      tcp_segment_put [of sp dp seq ackn flags win d "[]" "encode_checksum c"]
    by (simp add: tcp_checksum_def e del: of_nat_add)
qed

section \<open>Emitting\<close>

definition conn_segment :: "tcp_conn_t \<Rightarrow> u8 \<Rightarrow> u8 list \<Rightarrow> u8 list" where
  "conn_segment c flags d =
     tcp_segment (c_local_port c) (remote_port c) (snd_nxt c) (rcv_nxt c) flags (ucast (rcv_wnd c))
       (tcp_csum (c_local_ip c) (remote_ip c) (c_local_port c) (remote_port c) (snd_nxt c) (rcv_nxt c) flags
          (ucast (rcv_wnd c)) d) d"

lemma length_conn_segment [simp]: "length (conn_segment c flags d) = 20 + length d"
  by (simp add: conn_segment_def)

text \<open>The connection after it emitted a segment.\<close>

definition tcp_sent :: "tcp_conn_t \<Rightarrow> u8 \<Rightarrow> u8 list \<Rightarrow> bool \<Rightarrow> tcp_conn_t" where
  "tcp_sent c flags d save =
     (let nxt = tcp_advance (snd_nxt c) (of_nat (length d)) flags; n = 20 + length d in
      if save
      then c\<lparr>snd_nxt := nxt, tx_buf := conn_segment c flags d @ drop n (tx_buf c), tx_len := of_nat n,
             tx_seq := snd_nxt c, tx_end_seq := nxt, tx_pending := True, rto := TCP_INITIAL_RTO, rto_timer := TCP_INITIAL_RTO\<rparr>
      else c\<lparr>snd_nxt := nxt\<rparr>)"

definition conn_ok :: "tcp_conn_t \<Rightarrow> bool" where
  "conn_ok c \<longleftrightarrow> length (rx_buf c) = 4096 \<and> length (tx_buf c) = 1480 \<and> rx_len c \<le> 4096 \<and> tx_len c \<le> 1480"

definition tables_ok :: "'w tcpcore_t \<Rightarrow> bool" where
  "tables_ok k \<longleftrightarrow> initialized k \<and> ip_tx k \<noteq> NULL \<and> length (conns k) = 8 \<and> length (listeners k) = 4 \<and>
     length (scratch k) = 1480 \<and> list_all conn_ok (conns k)"

lemma tables_okD:
  assumes "tables_ok k"
  shows "initialized k" and "length (conns k) = 8" and "length (listeners k) = 4" and "length (scratch k) = 1480"
    and "i < 8 \<Longrightarrow> conn_ok (conns k ! i)" and "\<exists>tx. ip_tx k = Ref tx"
  using assms unfolding tables_ok_def by (auto simp: list_all_length) (cases "ip_tx k", auto)

lemma tcp_emit_eq:
  assumes "tables_ok k" and "ip_tx k = Ref tx" and "i < 8" and "length d \<le> 1460" and "payload = Ref d \<or> d = []"
  shows "\<exists>rest. length rest + 20 + length d = 1480 \<and>
    tcp_emit w k i flags payload (of_nat (length d)) save =
     (let c = conns k ! i; b = conn_segment c flags d @ rest;
          (st, w') = tx w (c_local_ip c) (remote_ip c) b (of_nat (20 + length d))
      in Some (st, k\<lparr>conns := (conns k)[i := tcp_sent c flags d save], scratch := b\<rparr>, w'))"
proof -
  note ok = tables_okD [OF assms(1)] and len = tcp_len_words [OF assms(4)]
  let ?c = "conns k ! i" and ?rest = "drop (20 + length d) (scratch k)" and ?n = "of_nat (20 + length d) :: u32"
  let ?s = "\<lambda>cs. tcp_segment (c_local_port ?c) (remote_port ?c) (snd_nxt ?c) (rcv_nxt ?c) flags (ucast (rcv_wnd ?c)) cs d"
  have small: "\<not> (of_nat (length d) :: u32) > 1460" using len(2) assms(4) by (simp add: word_less_nat_alt)
  have n: "20 + (of_nat (length d) :: u32) = ?n" by simp
  have rd: "c_rd (conns k) i = Some ?c" and wr: "\<And>x. c_wr (conns k) i x = Some ((conns k)[i := x])"
    using ok(2) assms(3) by simp_all
  have hdr: "tcp_write_header (scratch k) (c_local_port ?c) (remote_port ?c) (snd_nxt ?c) (rcv_nxt ?c) flags (ucast (rcv_wnd ?c)) =
      Some (tcp_hdr (c_local_port ?c) (remote_port ?c) (snd_nxt ?c) (rcv_nxt ?c) flags (ucast (rcv_wnd ?c)) 0 @ drop 20 (scratch k))"
    using ok(4) by (simp add: tcp_write_header_eq)
  have cp: "(if (of_nat (length d) :: u32) \<noteq> 0
        then (case payload of NULL \<Rightarrow> None | Ref p \<Rightarrow> c_memcpy (h @ drop 20 (scratch k)) 20 p (unat (of_nat (length d) :: u32)))
        else Some (h @ drop 20 (scratch k))) = Some (h @ d @ ?rest)" if "length h = 20" for h
  proof (cases "d = []")
    case True
    then show ?thesis by simp
  next
    case False
    then have "(of_nat (length d) :: u32) \<noteq> 0" using len(2) by (metis length_0_conv unat_0)
    moreover have "payload = Ref d" using assms(5) False by blast
    moreover have "c_memcpy (h @ drop 20 (scratch k)) 20 d (length d) = Some (h @ d @ ?rest)"
      using memcpy_next [OF that, of d "drop 20 (scratch k)"] ok(4) assms(4) by (simp add: add.commute)
    ultimately show ?thesis by (simp add: len(2))
  qed
  obtain x where cs: "tcp_checksum (c_local_ip ?c) (remote_ip ?c) (?s 0 @ ?rest) ?n = Some x"
      "encode_checksum x = tcp_csum (c_local_ip ?c) (remote_ip ?c) (c_local_port ?c) (remote_port ?c) (snd_nxt ?c)
        (rcv_nxt ?c) flags (ucast (rcv_wnd ?c)) d"
    using tcp_csum_props(1) [OF assms(4)] by blast
  note cs1 = cs(1) [unfolded tcp_segment_def append_assoc]
  note st = tcp_segment_st16 [of "c_local_port ?c" "remote_port ?c" "snd_nxt ?c" "rcv_nxt ?c" flags "ucast (rcv_wnd ?c)" d ?rest,
      unfolded tcp_segment_def append_assoc]
  let ?b = "conn_segment ?c flags d @ ?rest"
  have tb: "length (tx_buf ?c) = 1480" using ok(5) [OF assms(3)] by (simp add: conn_ok_def)
  have sv: "c_memcpy (tx_buf ?c) 0 ?b (unat ?n) = Some (conn_segment ?c flags d @ drop (20 + length d) (tx_buf ?c))"
    using tb assms(4) ok(4) by (simp add: c_memcpy_def len(1) del: of_nat_add)
  have "tcp_emit w k i flags payload (of_nat (length d)) save =
     (let c = ?c; b = conn_segment c flags d @ ?rest;
          (st, w') = tx w (c_local_ip c) (remote_ip c) b ?n
      in Some (st, k\<lparr>conns := (conns k)[i := tcp_sent c flags d save], scratch := b\<rparr>, w'))"
  proof -
    have seg: "tcp_hdr (c_local_port ?c) (remote_port ?c) (snd_nxt ?c) (rcv_nxt ?c) flags (ucast (rcv_wnd ?c))
        (tcp_csum (c_local_ip ?c) (remote_ip ?c) (c_local_port ?c) (remote_port ?c) (snd_nxt ?c) (rcv_nxt ?c) flags (ucast (rcv_wnd ?c)) d) @
        d @ ?rest = ?b"
      by (simp add: conn_segment_def tcp_segment_def)
    have save: "(if save then do { t \<leftarrow> c_memcpy (tx_buf ?c) 0 ?b (unat ?n);
          Some (?c\<lparr>snd_nxt := nx, tx_buf := t, tx_len := ?n, tx_seq := snd_nxt ?c, tx_end_seq := nx, tx_pending := True,
            rto := TCP_INITIAL_RTO, rto_timer := TCP_INITIAL_RTO\<rparr>) } else Some (?c\<lparr>snd_nxt := nx\<rparr>)) =
        Some (tcp_sent ?c flags d save)" if "nx = tcp_advance (snd_nxt ?c) (of_nat (length d)) flags" for nx
      unfolding sv tcp_sent_def Let_def that by (cases save) simp_all
    show ?thesis
      unfolding tcp_emit_def Let_def n rd bind.bind_lunit hdr cp [OF length_tcp_hdr] cs1 cs(2) st seg save [OF refl] wr assms(2) ptr.case
      using small by (simp only: if_False)
  qed
  moreover have "length ?rest + 20 + length d = 1480" using ok(4) assms(4) by simp
  ultimately show ?thesis by blast
qed

section \<open>Reading a segment back\<close>

lemma tcp_segment_fields:
  "ld16 (tcp_segment sp dp seq ackn flags win cs d @ rest) 0 = Some (ow_bswap16 sp)"
  "ld16 (tcp_segment sp dp seq ackn flags win cs d @ rest) 2 = Some (ow_bswap16 dp)"
  "ld32 (tcp_segment sp dp seq ackn flags win cs d @ rest) 4 = Some (ow_bswap32 seq)"
  "ld32 (tcp_segment sp dp seq ackn flags win cs d @ rest) 8 = Some (ow_bswap32 ackn)"
  "c_rd (tcp_segment sp dp seq ackn flags win cs d @ rest) 12 = Some 0x50"
  "c_rd (tcp_segment sp dp seq ackn flags win cs d @ rest) 13 = Some flags"
  "ld16 (tcp_segment sp dp seq ackn flags win cs d @ rest) 14 = Some (ow_bswap16 win)"
proof -
  let ?s = "tcp_segment sp dp seq ackn flags win cs d @ rest"
  show "ld16 ?s 0 = Some (ow_bswap16 sp)" "ld16 ?s 2 = Some (ow_bswap16 dp)" "ld16 ?s 14 = Some (ow_bswap16 win)"
    by (rule ld16_be, simp, simp add: tcp_segment_def tcp_hdr_def)+
  show "ld32 ?s 4 = Some (ow_bswap32 seq)" "ld32 ?s 8 = Some (ow_bswap32 ackn)"
    by (rule ld32_be, simp, simp add: tcp_segment_def tcp_hdr_def)+
  show "c_rd ?s 12 = Some 0x50" "c_rd ?s 13 = Some flags"
    by (simp_all add: tcp_segment_def tcp_hdr_def be16_def be32_def)
qed

lemma tcp_input_segment:
  assumes "initialized k" and "length d \<le> 1460" and "cs = tcp_csum src dst sp dp seq ackn flags win d"
  shows "tcp_input w (Ref k) src dst (Ref (tcp_segment sp dp seq ackn flags win cs d @ rest)) (of_nat (20 + length d)) =
    do { f \<leftarrow> tcp_find k src sp dst dp;
         (st, k1, w1) \<leftarrow> (case f of
             NULL \<Rightarrow> tcp_unknown w k src dst sp dp seq ackn flags win (of_nat (length d))
           | Ref i \<Rightarrow> tcp_known w k i seq ackn flags win (d @ rest) (of_nat (length d)));
         Some (st, Ref k1, w1) }"
proof -
  note len = tcp_len_words [OF assms(2)]
  have doff: "(ucast (drop_bit 4 (0x50 :: u8)) :: u32) * 4 = 20" by simp
  have long: "\<not> (of_nat (20 + length d) :: u32) < 20" using len(1) by (simp add: word_less_nat_alt del: of_nat_add)
  have chk: "(20 :: u32) < 20 = False" by simp
  have pl: "drop (unat (20 :: u32)) (tcp_segment sp dp seq ackn flags win cs d @ rest) = d @ rest" by (simp add: tcp_segment_def)
  have dl: "(of_nat (20 + length d) :: u32) - 20 = of_nat (length d)" by simp
  have c0: "tcp_checksum src dst (tcp_segment sp dp seq ackn flags win cs d @ rest) (of_nat (20 + length d)) = Some 0"
    unfolding assms(3) by (rule tcp_csum_props(2) [OF assms(2)])
  show ?thesis
    unfolding tcp_input_def prod.case ptr.case tcp_segment_fields bind.bind_lunit Let_def doff bswap16_id bswap32_id c0 pl dl
    using assms(1) long by (simp only: if_True if_False simp_thms chk refl)
qed

text \<open>The same for a segment that a connection emitted.\<close>

lemma tcp_input_emitted:
  assumes "initialized k" and "length d \<le> 1460"
  shows "tcp_input w (Ref k) (c_local_ip c) (remote_ip c) (Ref (conn_segment c flags d @ rest)) (of_nat (20 + length d)) =
    do { f \<leftarrow> tcp_find k (c_local_ip c) (c_local_port c) (remote_ip c) (remote_port c);
         (st, k1, w1) \<leftarrow> (case f of
             NULL \<Rightarrow> tcp_unknown w k (c_local_ip c) (remote_ip c) (c_local_port c) (remote_port c) (snd_nxt c) (rcv_nxt c)
                flags (ucast (rcv_wnd c)) (of_nat (length d))
           | Ref i \<Rightarrow> tcp_known w k i (snd_nxt c) (rcv_nxt c) flags (ucast (rcv_wnd c)) (d @ rest) (of_nat (length d)));
         Some (st, Ref k1, w1) }"
  unfolding conn_segment_def by (rule tcp_input_segment [OF assms refl])

section \<open>The invariant\<close>

text \<open>Connections of a port that wait for \<open>tcp_accept\<close>, and the counter the listener keeps of them.\<close>

definition waiting :: "u16 \<Rightarrow> tcp_conn_t \<Rightarrow> bool" where
  "waiting p c \<longleftrightarrow> used c \<and> is_passive c \<and> \<not> accepted c \<and> c_local_port c = p"

definition listener_for :: "u16 \<Rightarrow> tcp_listener_t \<Rightarrow> bool" where
  "listener_for p l \<longleftrightarrow> l_used l \<and> l_local_port l = p"

definition pend :: "tcp_listener_t list \<Rightarrow> u16 \<Rightarrow> nat" where
  "pend ls p = (case first_index (listener_for p) ls of None \<Rightarrow> 0 | Some j \<Rightarrow> unat (pending (ls ! j)))"

definition tcp_inv :: "'w tcpcore_t \<Rightarrow> bool" where
  "tcp_inv k \<longleftrightarrow> tables_ok k \<and> (\<forall>p. pend (listeners k) p = count_if (waiting p) (conns k))"

lemma tcp_invD:
  assumes "tcp_inv k"
  shows "tables_ok k" and "pend (listeners k) p = count_if (waiting p) (conns k)"
  using assms by (simp_all add: tcp_inv_def)

lemma conn_ok_zero: "conn_ok zero_conn"
  by (simp add: conn_ok_def zero_conn_def)

lemma not_waiting_zero: "\<not> waiting p zero_conn"
  by (simp add: waiting_def zero_conn_def)

lemma tables_ok_upd: "tables_ok k \<Longrightarrow> conn_ok c \<Longrightarrow> tables_ok (k\<lparr>conns := (conns k)[i := c]\<rparr>)"
  by (simp add: tables_ok_def list_all_update)

lemma tcp_inv_upd:
  assumes "tcp_inv k" and "i < 8" and "conn_ok c" and "\<And>p. waiting p c = waiting p (conns k ! i)"
  shows "tcp_inv (k\<lparr>conns := (conns k)[i := c]\<rparr>)"
  using assms tcp_invD [OF assms(1)] tables_ok_upd [of k c i] tables_okD(2) [of k]
  by (simp add: tcp_inv_def count_if_update_same)

lemma tcp_inv_scratch: "tcp_inv k \<Longrightarrow> length b = 1480 \<Longrightarrow> tcp_inv (k\<lparr>scratch := b\<rparr>)"
  by (simp add: tcp_inv_def tables_ok_def)

lemma tcp_inv_seed: "tcp_inv k \<Longrightarrow> tcp_inv (k\<lparr>iss_seed := s\<rparr>)"
  by (simp add: tcp_inv_def tables_ok_def)

lemma conn_ok_sent: "conn_ok c \<Longrightarrow> length d \<le> 1460 \<Longrightarrow> conn_ok (tcp_sent c flags d save)"
  using tcp_len_words(1) [of d] by (simp add: conn_ok_def tcp_sent_def Let_def word_le_nat_alt del: of_nat_add)

lemma waiting_sent [simp]: "waiting p (tcp_sent c flags d save) = waiting p c"
  by (simp add: waiting_def tcp_sent_def Let_def)

lemma tcp_emit_inv:
  assumes "tcp_inv k" and "i < 8" and "length d \<le> 1460" and "payload = Ref d \<or> d = []"
  shows "\<exists>st k' w'. tcp_emit w k i flags payload (of_nat (length d)) save = Some (st, k', w') \<and> tcp_inv k' \<and>
    conns k' = (conns k)[i := tcp_sent (conns k ! i) flags d save] \<and> listeners k' = listeners k"
proof -
  note ok = tables_okD [OF tcp_invD(1) [OF assms(1)]]
  obtain tx where tx: "ip_tx k = Ref tx" using ok(6) by blast
  let ?c = "conns k ! i"
  obtain rest where r: "length rest + 20 + length d = 1480"
    "tcp_emit w k i flags payload (of_nat (length d)) save =
     (let c = ?c; b = conn_segment c flags d @ rest;
          (st, w') = tx w (c_local_ip c) (remote_ip c) b (of_nat (20 + length d))
      in Some (st, k\<lparr>conns := (conns k)[i := tcp_sent c flags d save], scratch := b\<rparr>, w'))"
    using tcp_emit_eq [OF tcp_invD(1) [OF assms(1)] tx assms(2-4), of w flags save] by blast
  have "conn_ok (tcp_sent ?c flags d save)" using ok(5) [OF assms(2)] assms(3) by (rule conn_ok_sent)
  then have "tcp_inv (k\<lparr>conns := (conns k)[i := tcp_sent ?c flags d save]\<rparr>)"
    using assms(1,2) by (intro tcp_inv_upd) simp_all
  then have "tcp_inv (k\<lparr>conns := (conns k)[i := tcp_sent ?c flags d save], scratch := conn_segment ?c flags d @ rest\<rparr>)"
    using r(1) tcp_inv_scratch [of "k\<lparr>conns := (conns k)[i := tcp_sent ?c flags d save]\<rparr>"] by simp
  then show ?thesis unfolding r(2) by (auto simp: Let_def split: prod.split)
qed

lemma find_listener_eq:
  "length (listeners k) = 4 \<Longrightarrow> tcp_find_listener k p = Some (to_ptr (first_index (listener_for p) (listeners k)))"
  by (simp add: tcp_find_listener_def c_find_eq listener_for_def [abs_def])

lemma pend_update:
  assumes "first_index (listener_for p) ls = Some j"
  shows "pend (ls[j := (ls ! j)\<lparr>pending := v\<rparr>]) q = (if q = p then unat v else pend ls q)"
proof -
  have j: "j < length ls" "listener_for p (ls ! j)" using first_index_SomeD [OF assms] by simp_all
  let ?ls = "ls[j := (ls ! j)\<lparr>pending := v\<rparr>]"
  have same: "first_index (listener_for r) ?ls = first_index (listener_for r) ls" for r
    by (rule first_index_cong_update [symmetric]) (use j in \<open>auto simp: nth_list_update listener_for_def\<close>)
  show ?thesis
  proof (cases "q = p")
    case True
    then show ?thesis using same [of p] assms j(1) by (simp add: pend_def)
  next
    case False
    have "i \<noteq> j" if "first_index (listener_for q) ls = Some i" for i
      using first_index_SomeD(2) [OF that] j(2) False by (auto simp: listener_for_def)
    then show ?thesis using False same [of q] by (auto simp: pend_def split: option.split)
  qed
qed

lemma drop_pending_eq:
  assumes "length (listeners k) = 4" and "0 < pend (listeners k) p"
  shows "\<exists>ls. drop_pending k p = Some (k\<lparr>listeners := ls\<rparr>) \<and> length ls = 4 \<and>
    (\<forall>q. pend ls q = (if q = p then pend (listeners k) p - 1 else pend (listeners k) q))"
proof -
  obtain j where j: "first_index (listener_for p) (listeners k) = Some j"
    using assms(2) by (cases "first_index (listener_for p) (listeners k)") (simp_all add: pend_def)
  then have l: "j < 4" using first_index_SomeD(1) [OF j] assms(1) by simp
  have pos: "pending (listeners k ! j) > 0" and pe: "pend (listeners k) p = unat (pending (listeners k ! j))"
    using assms(2) j by (simp_all add: pend_def word_gt_0)
  let ?ls = "(listeners k)[j := (listeners k ! j)\<lparr>pending := pending (listeners k ! j) - 1\<rparr>]"
  have "drop_pending k p = Some (k\<lparr>listeners := ?ls\<rparr>)"
    using assms(1) j l pos by (simp add: drop_pending_def find_listener_eq to_ptr_def)
  moreover have "pend ?ls q = (if q = p then pend (listeners k) p - 1 else pend (listeners k) q)" for q
    using pend_update [OF j, of "pending (listeners k ! j) - 1" q] pos pe by (simp add: unat_minus1 word_gt_0)
  ultimately show ?thesis using assms(1) by (metis length_list_update)
qed

text \<open>A connection leaves the waiting ones, because it is released or accepted.\<close>

lemma leave_waiting:
  fixes k' :: "'b tcpcore_t"
  assumes "tcp_inv k" and "i < 8" and "waiting p (conns k ! i)" and "conn_ok c" and "\<And>q. \<not> waiting q c"
    and same: "listeners k' = listeners k"
  shows "\<exists>ls. drop_pending k' p = Some (k'\<lparr>listeners := ls\<rparr>) \<and> tcp_inv (k\<lparr>listeners := ls, conns := (conns k)[i := c]\<rparr>)"
proof -
  note ok = tables_okD [OF tcp_invD(1) [OF assms(1)]] and cnt = tcp_invD(2) [OF assms(1)]
  have "0 < count_if (waiting p) (conns k)" using assms(2,3) ok(2) by (intro count_if_pos [of i]) simp_all
  then obtain ls where ls: "drop_pending k' p = Some (k'\<lparr>listeners := ls\<rparr>)" "length ls = 4"
      "\<And>q. pend ls q = (if q = p then pend (listeners k) p - 1 else pend (listeners k) q)"
    using drop_pending_eq [of k' p] unfolding same cnt [of p, symmetric] using ok(3) by auto
  have "pend ls q = count_if (waiting q) ((conns k)[i := c])" for q
  proof (cases "q = p")
    case True
    then show ?thesis using ls(3) [of q] cnt [of p] count_if_update_del [of i "conns k" "waiting p" c] assms(2,3,5) ok(2) by simp
  next
    case False
    then have "\<not> waiting q (conns k ! i)" using assms(3) by (auto simp: waiting_def)
    then show ?thesis using False ls(3) [of q] cnt [of q] assms(2,5) ok(2) by (simp add: count_if_update_same)
  qed
  moreover have "tables_ok (k\<lparr>listeners := ls, conns := (conns k)[i := c]\<rparr>)"
    using tcp_invD(1) [OF assms(1)] ls(2) assms(4) by (simp add: tables_ok_def list_all_update)
  ultimately show ?thesis using ls(1) by (auto simp: tcp_inv_def)
qed

lemma tcp_release_inv:
  assumes "tcp_inv k" and "i < 8" and "used (conns k ! i)"
  shows "\<exists>k'. tcp_release k i = Some k' \<and> tcp_inv k' \<and> conns k' = (conns k)[i := zero_conn] \<and> initialized k' \<and> ip_tx k' = ip_tx k"
proof -
  note ok = tables_okD [OF tcp_invD(1) [OF assms(1)]]
  let ?c = "conns k ! i"
  show ?thesis
  proof (cases "is_passive ?c \<and> \<not> accepted ?c")
    case True
    then have "waiting (c_local_port ?c) ?c" using assms(3) by (simp add: waiting_def)
    then obtain ls where "drop_pending k (c_local_port ?c) = Some (k\<lparr>listeners := ls\<rparr>)"
        "tcp_inv (k\<lparr>listeners := ls, conns := (conns k)[i := zero_conn]\<rparr>)"
      using leave_waiting [OF assms(1,2) _ conn_ok_zero not_waiting_zero, of "c_local_port ?c" k] by blast
    then show ?thesis using True ok(1,2) assms(2) by (simp add: tcp_release_def)
  next
    case False
    then have "\<not> waiting p ?c" for p by (simp add: waiting_def)
    then have "tcp_inv (k\<lparr>conns := (conns k)[i := zero_conn]\<rparr>)"
      by (intro tcp_inv_upd assms(1,2) conn_ok_zero) (simp add: not_waiting_zero)
    then show ?thesis using False ok(1,2) assms(2) by (auto simp: tcp_release_def)
  qed
qed

section \<open>Every operation keeps the invariant\<close>

lemma shift_down_from:
  "n \<le> i \<Longrightarrow> i \<le> len \<Longrightarrow> len \<le> length b \<Longrightarrow>
     \<exists>b'. shift_down b n len i = Some b' \<and> length b' = length b \<and>
       (\<forall>j. j < i - n \<longrightarrow> b' ! j = b ! j) \<and> (\<forall>j. i - n \<le> j \<and> j < len - n \<longrightarrow> b' ! j = b ! (j + n))"
proof (induction b n len i rule: shift_down.induct)
  case (1 b n len i)
  show ?case
  proof (cases "i < len")
    case True
    then have rd: "c_rd b i = Some (b ! i)" and wr: "c_wr b (i - n) (b ! i) = Some (b[i - n := b ! i])"
      using "1.prems" by simp_all
    let ?b = "b[i - n := b ! i]"
    obtain b' where b': "shift_down ?b n len (Suc i) = Some b'" "length b' = length b"
        "\<And>j. j < Suc i - n \<Longrightarrow> b' ! j = ?b ! j" "\<And>j. Suc i - n \<le> j \<Longrightarrow> j < len - n \<Longrightarrow> b' ! j = ?b ! (j + n)"
      using "1.IH" [OF True rd wr] "1.prems" True by auto
    have "b' ! j = b ! j" if "j < i - n" for j using b'(3) [of j] that by simp
    moreover have "b' ! j = b ! (j + n)" if j: "i - n \<le> j" "j < len - n" for j
    proof (cases "j = i - n")
      case True
      then show ?thesis using b'(3) [of j] j "1.prems" by simp
    next
      case False
      then have "Suc i - n \<le> j" "j + n \<noteq> i - n" using j "1.prems" by auto
      then show ?thesis using b'(4) [of j] j(2) by simp
    qed
    moreover have "shift_down b n len i = Some b'" using True b'(1) rd wr by (subst shift_down.simps) simp
    ultimately show ?thesis using b'(2) by blast
  next
    case False
    then show ?thesis using "1.prems" by (subst shift_down.simps) auto
  qed
qed

lemma shift_down_eq:
  assumes "n \<le> len" and "len \<le> length b"
  shows "\<exists>b'. shift_down b n len n = Some b' \<and> length b' = length b \<and> take (len - n) b' = take (len - n) (drop n b)"
proof -
  obtain b' where b': "shift_down b n len n = Some b'" "length b' = length b" "\<And>j. j < len - n \<Longrightarrow> b' ! j = b ! (j + n)"
    using shift_down_from [of n n len b] assms by auto
  have "take (len - n) b' = take (len - n) (drop n b)"
    using assms b'(2,3) by (intro nth_equalityI) (simp_all add: add.commute)
  then show ?thesis using b'(1,2) by blast
qed

lemma conn_at_total:
  assumes "tables_ok k"
  shows "tcp_conn_at k s = Some NULL \<or>
    (\<exists>i. i < 8 \<and> used (conns k ! i) \<and> s = of_nat (i + 1) \<and> tcp_conn_at k s = Some (Ref i))"
proof (cases "sint s \<le> 0 \<or> s > 8")
  case True
  then show ?thesis by (simp add: tcp_conn_at_def)
next
  case False
  then have "s \<noteq> 0" "unat s \<le> 8" using signed_0 by (auto simp: word_less_nat_alt not_less)
  then have i: "unat (s - 1) < 8" by (simp add: unat_minus1)
  moreover have "s = of_nat (unat (s - 1) + 1)" by simp
  ultimately show ?thesis using False tables_okD(2) [OF assms]
    by (cases "used (conns k ! unat (s - 1))") (simp_all add: tcp_conn_at_def)
qed

lemma find_eq: "length (conns k) = 8 \<Longrightarrow> tcp_find k a b c d = Some (to_ptr (first_index (conn_matches a b c d) (conns k)))"
  by (simp add: tcp_find_def c_find_eq)

lemma alloc_eq: "length (conns k) = 8 \<Longrightarrow> tcp_alloc_conn k = Some (to_ptr (first_index (\<lambda>c. \<not> used c) (conns k)))"
  by (simp add: tcp_alloc_conn_def c_find_eq)

lemma set_conn_eq: "length (conns k) = 8 \<Longrightarrow> i < 8 \<Longrightarrow> set_conn k i c = Some (k\<lparr>conns := (conns k)[i := c]\<rparr>)"
  by (simp add: set_conn_def)

lemma next_isn_eq: "\<exists>isn s. tcp_next_isn k = (isn, k\<lparr>iss_seed := s\<rparr>)"
  unfolding tcp_next_isn_def Let_def by blast

definition good_step :: "(tcp_status_t \<times> 'w tcpcore_t \<times> 'w) comp \<Rightarrow> bool" where
  "good_step r \<longleftrightarrow> (\<exists>st k w. r = Some (st, k, w) \<and> tcp_inv k)"

lemma good_stepI: "tcp_inv k \<Longrightarrow> good_step (Some (st, k, w))"
  by (simp add: good_step_def)

lemma good_emit:
  assumes "tcp_inv k" and "i < 8"
  shows "good_step (tcp_emit w k i flags NULL 0 save)"
  using tcp_emit_inv [OF assms, of "[]" NULL w flags save] by (auto simp: good_step_def)

lemma waiting_key:
  "waiting p (c\<lparr>cstate := a\<rparr>) = waiting p c" "waiting p (c\<lparr>snd_una := b\<rparr>) = waiting p c"
  "waiting p (c\<lparr>snd_wnd := b\<rparr>) = waiting p c" "waiting p (c\<lparr>irs := b\<rparr>) = waiting p c"
  "waiting p (c\<lparr>rcv_nxt := b\<rparr>) = waiting p c" "waiting p (c\<lparr>tx_pending := e\<rparr>) = waiting p c"
  "waiting p (c\<lparr>rx_buf := f\<rparr>) = waiting p c" "waiting p (c\<lparr>rx_len := b\<rparr>) = waiting p c"
  "waiting p (c\<lparr>time_wait_timer := b\<rparr>) = waiting p c" "waiting p (c\<lparr>rto := b\<rparr>) = waiting p c"
  "waiting p (c\<lparr>rto_timer := b\<rparr>) = waiting p c"
  by (simp_all add: waiting_def)

lemma conn_ok_key:
  "conn_ok (c\<lparr>cstate := a\<rparr>) = conn_ok c" "conn_ok (c\<lparr>snd_una := b\<rparr>) = conn_ok c"
  "conn_ok (c\<lparr>snd_wnd := b\<rparr>) = conn_ok c" "conn_ok (c\<lparr>irs := b\<rparr>) = conn_ok c"
  "conn_ok (c\<lparr>rcv_nxt := b\<rparr>) = conn_ok c" "conn_ok (c\<lparr>tx_pending := e\<rparr>) = conn_ok c"
  "conn_ok (c\<lparr>time_wait_timer := b\<rparr>) = conn_ok c" "conn_ok (c\<lparr>rto := b\<rparr>) = conn_ok c"
  "conn_ok (c\<lparr>rto_timer := b\<rparr>) = conn_ok c" "conn_ok (c\<lparr>accepted := e\<rparr>) = conn_ok c"
  by (simp_all add: conn_ok_def)

text \<open>Joining the waiting connections.\<close>

lemma tcp_passive_open_good:
  assumes inv: "tcp_inv k"
  shows "good_step (tcp_passive_open w k lip lport rip rport seq win)"
proof (cases "first_index (listener_for lport) (listeners k)")
  case None
  then show ?thesis using tables_okD(3) [OF tcp_invD(1) [OF inv]] inv
    by (simp add: tcp_passive_open_def find_listener_eq to_ptr_def good_stepI)
next
  case (Some j)
  note ok = tables_okD [OF tcp_invD(1) [OF inv]] and cnt = tcp_invD(2) [OF inv]
  have j: "j < 4" using first_index_SomeD(1) [OF Some] ok(3) by simp
  let ?x = "listeners k ! j"
  show ?thesis
  proof (cases "pending ?x \<ge> backlog ?x \<or> first_index (\<lambda>c. \<not> used c) (conns k) = None")
    case True
    then show ?thesis using Some j ok(2,3) inv
      by (auto simp: tcp_passive_open_def find_listener_eq to_ptr_def good_stepI alloc_eq)
  next
    case False
    then obtain i where i: "first_index (\<lambda>c. \<not> used c) (conns k) = Some i" and lt: "pending ?x < backlog ?x" by auto
    have i8: "i < 8" and free: "\<not> used (conns k ! i)" using first_index_SomeD [OF i] ok(2) by simp_all
    obtain isn s where isn: "tcp_next_isn k = (isn, k\<lparr>iss_seed := s\<rparr>)" using next_isn_eq by blast
    define c where "c = zero_conn\<lparr>used := True, is_passive := True, accepted := False,
        cstate := SYN_RCVD, c_local_ip := lip, remote_ip := rip, c_local_port := lport,
        remote_port := rport, iss := isn, irs := seq, snd_una := isn, snd_nxt := isn,
        rcv_nxt := seq + 1, rcv_wnd := 4096, snd_wnd := ucast win, mss := 1460, rto := TCP_INITIAL_RTO\<rparr>"
    let ?ls = "(listeners k)[j := ?x\<lparr>pending := pending ?x + 1\<rparr>]"
    let ?k = "k\<lparr>iss_seed := s, conns := (conns k)[i := c], listeners := ?ls\<rparr>"
    have "unat (pending ?x + 1) = Suc (unat (pending ?x))" using lt by (rule unat_add1_less)
    then have pe: "pend ?ls q = (if q = lport then Suc (pend (listeners k) lport) else pend (listeners k) q)" for q
      using pend_update [OF Some, of "pending ?x + 1" q] Some by (simp add: pend_def)
    have wc: "waiting q c \<longleftrightarrow> q = lport" for q by (auto simp: c_def waiting_def)
    have nw: "\<not> waiting q (conns k ! i)" for q using free by (simp add: waiting_def)
    have "pend ?ls q = count_if (waiting q) ((conns k)[i := c])" for q
      using pe [of q] cnt [of q] i8 ok(2) wc nw by (cases "q = lport") (simp_all add: count_if_update_add count_if_update_same)
    moreover have "conn_ok c" by (simp add: c_def conn_ok_def zero_conn_def)
    then have "tables_ok ?k" using tcp_invD(1) [OF inv] by (simp add: tables_ok_def list_all_update)
    ultimately have "tcp_inv ?k" by (simp add: tcp_inv_def)
    then have "good_step (tcp_emit w ?k i (TCP_SYN OR TCP_ACK) NULL 0 True)" using i8 by (rule good_emit)
    then show ?thesis using Some j i i8 lt ok(2,3) isn
      by (auto simp: tcp_passive_open_def find_listener_eq alloc_eq to_ptr_def c_def)
  qed
qed

lemma tcp_send_rst_good:
  assumes "tcp_inv k"
  shows "\<exists>k' w'. tcp_send_rst w k a sp b dp seq wa ackn = Some (k', w') \<and> tcp_inv k'"
proof -
  note ok = tables_okD [OF tcp_invD(1) [OF assms]]
  obtain tx where tx: "ip_tx k = Ref tx" using ok(6) by blast
  let ?fl = "TCP_RST OR (if wa then TCP_ACK else 0)" and ?r = "drop 20 (scratch k)"
  have h: "tcp_write_header (scratch k) sp dp seq ackn ?fl 0 = Some (tcp_segment sp dp seq ackn ?fl 0 0 [] @ ?r)"
    using ok(4) by (simp add: tcp_write_header_eq tcp_segment_def)
  obtain c where c: "tcp_checksum a b (tcp_segment sp dp seq ackn ?fl 0 0 [] @ ?r) 20 = Some c"
    using tcp_csum_props(1) [of "[]" a b sp dp seq ackn ?fl 0 ?r] by auto
  have "tcp_inv (k\<lparr>scratch := tcp_segment sp dp seq ackn ?fl 0 (encode_checksum c) [] @ ?r\<rparr>)"
    using ok(4) by (intro tcp_inv_scratch assms) simp
  then show ?thesis unfolding tcp_send_rst_def h bind.bind_lunit c tcp_segment_st16 tx by (auto split: prod.split)
qed

lemma tcp_unknown_good:
  assumes "tcp_inv k"
  shows "good_step (tcp_unknown w k a b sp dp seq ackn flags win plen)"
proof -
  have rst: "good_step (do { (k1, w1) \<leftarrow> tcp_send_rst w k b dp a sp r wa ackn; Some (TCP_ERR_NO_CONN, k1, w1) })" for r wa
    using tcp_send_rst_good [OF assms, of w b dp a sp r wa ackn] by (auto simp: good_step_def)
  show ?thesis unfolding tcp_unknown_def Let_def
    using rst tcp_passive_open_good [OF assms] good_stepI [OF assms] by (simp only: if_split_asm if_split) simp
qed

text \<open>A connection in use whose core is in order.\<close>

definition live :: "'w tcpcore_t \<Rightarrow> nat \<Rightarrow> bool" where
  "live k i \<longleftrightarrow> tcp_inv k \<and> i < 8 \<and> used (conns k ! i)"

lemma liveD:
  assumes "live k i"
  shows "tcp_inv k" and "i < 8" and "length (conns k) = 8" and "conn_ok (conns k ! i)" and "used (conns k ! i)"
    and "c_rd (conns k) i = Some (conns k ! i)" and "set_conn k i c = Some (k\<lparr>conns := (conns k)[i := c]\<rparr>)"
  using assms tables_okD(2,5) [OF tcp_invD(1), of k] by (auto simp: live_def set_conn_eq)

lemma live_upd:
  assumes "live k i" and "conn_ok c" and "\<And>p. waiting p c = waiting p (conns k ! i)" and "used c"
  shows "live (k\<lparr>conns := (conns k)[i := c]\<rparr>) i"
  using assms tcp_inv_upd [OF liveD(1,2) [OF assms(1)] assms(2,3)] liveD(3) [OF assms(1)] by (simp add: live_def)

lemma used_sent [simp]: "used (tcp_sent c flags d save) = used c"
  by (simp add: tcp_sent_def Let_def)

lemma live_emit:
  assumes "live k i" and "length d \<le> 1460" and "payload = Ref d \<or> d = []"
  shows "\<exists>st k' w'. tcp_emit w k i flags payload (of_nat (length d)) save = Some (st, k', w') \<and> live k' i \<and>
     conns k' = (conns k)[i := tcp_sent (conns k ! i) flags d save] \<and> listeners k' = listeners k"
proof -
  obtain st k' w' where e: "tcp_emit w k i flags payload (of_nat (length d)) save = Some (st, k', w')" "tcp_inv k'"
      "conns k' = (conns k)[i := tcp_sent (conns k ! i) flags d save]" "listeners k' = listeners k"
    using tcp_emit_inv [OF liveD(1,2) [OF assms(1)] assms(2,3), of w flags save] by blast
  then have "live k' i" using liveD(2,3,5) [OF assms(1)] by (simp add: live_def)
  then show ?thesis using e by blast
qed

lemma live_emit0:
  assumes "live k i"
  obtains st k' w' where "tcp_emit w k i flags NULL 0 save = Some (st, k', w')" and "live k' i"
    and "conns k' = (conns k)[i := tcp_sent (conns k ! i) flags [] save]" and "listeners k' = listeners k"
  using live_emit [OF assms, of "[]" NULL w flags save] by auto

lemma tcp_finish_good:
  assumes "live k i"
  shows "\<exists>k'. tcp_finish k i = Some k' \<and> tcp_inv k'"
proof -
  note l = liveD [OF assms]
  let ?c = "conns k ! i"
  define c1 where "c1 = (if cstate ?c = FIN_WAIT_1 \<and> tcp_seq_ge (snd_una ?c) (snd_nxt ?c) then ?c\<lparr>cstate := FIN_WAIT_2\<rparr> else ?c)"
  define c2 where "c2 = (if cstate c1 = CLOSING \<and> tcp_seq_ge (snd_una c1) (snd_nxt c1)
      then c1\<lparr>cstate := TIME_WAIT, time_wait_timer := TCP_TIME_WAIT_TICKS\<rparr> else c1)"
  let ?k = "k\<lparr>conns := (conns k)[i := c2]\<rparr>"
  have "live ?k i" using l(4,5) by (intro live_upd assms) (simp_all add: c2_def c1_def conn_ok_key waiting_key)
  moreover have "tcp_finish k i = (if cstate c2 = LAST_ACK \<and> tcp_seq_ge (snd_una c2) (snd_nxt c2) then tcp_release ?k i else Some ?k)"
    unfolding tcp_finish_def l(6) bind.bind_lunit Let_def c1_def [symmetric] c2_def [symmetric] l(7) ..
  ultimately show ?thesis using tcp_release_inv [of ?k i] by (auto simp: live_def)
qed

lemma tcp_fin_good:
  assumes "live k i"
  shows "\<exists>k' w'. tcp_fin w k i seq plen = Some (k', w') \<and> live k' i"
proof -
  note l = liveD [OF assms]
  let ?k = "k\<lparr>conns := (conns k)[i := (conns k ! i)\<lparr>rcv_nxt := seq + plen + 1\<rparr>]\<rparr>"
  have "live ?k i" using l(4,5) by (intro live_upd assms) (simp_all add: conn_ok_key waiting_key)
  then obtain st k2 w2 where e: "tcp_emit w ?k i TCP_ACK NULL 0 False = Some (st, k2, w2)" "live k2 i"
    by (rule live_emit0)
  note l2 = liveD [OF e(2)]
  let ?c = "conns k2 ! i"
  let ?c3 = "if cstate ?c = ESTABLISHED then ?c\<lparr>cstate := CLOSE_WAIT\<rparr>
     else if cstate ?c = FIN_WAIT_1 then ?c\<lparr>cstate := CLOSING\<rparr>
     else ?c\<lparr>cstate := TIME_WAIT, time_wait_timer := TCP_TIME_WAIT_TICKS\<rparr>"
  have "live (k2\<lparr>conns := (conns k2)[i := ?c3]\<rparr>) i"
    using l2(4,5) by (intro live_upd e(2)) (simp_all add: conn_ok_key waiting_key)
  then show ?thesis unfolding tcp_fin_def l(6,7) bind.bind_lunit e(1) prod.case l2(6,7) by blast
qed

lemma tcp_deliver_good:
  assumes "live k i" and "unat plen \<le> length payload" and "unat plen \<le> 65535"
  shows "\<exists>r k' w'. tcp_deliver w k i seq payload plen = Some (r, k', w') \<and> live k' i"
proof (cases "plen = 0")
  case True
  then show ?thesis using assms(1) by (simp add: tcp_deliver_def)
next
  case False
  note l = liveD [OF assms(1)]
  let ?c = "conns k ! i"
  have "\<exists>k1. (if seq = rcv_nxt ?c \<and> rx_len ?c + plen \<le> 4096
         then do { b \<leftarrow> c_memcpy (rx_buf ?c) (unat (rx_len ?c)) payload (unat plen);
                   set_conn k i (?c\<lparr>rx_buf := b, rx_len := rx_len ?c + plen, rcv_nxt := rcv_nxt ?c + plen\<rparr>) }
         else Some k) = Some k1 \<and> live k1 i"
  proof (cases "seq = rcv_nxt ?c \<and> rx_len ?c + plen \<le> 4096")
    case True
    have rx: "length (rx_buf ?c) = 4096" "unat (rx_len ?c) \<le> 4096" using l(4) by (simp_all add: conn_ok_def word_le_nat_alt)
    have "unat (rx_len ?c + plen) = unat (rx_len ?c) + unat plen" using rx(2) assms(3) by (intro unat_add_less) simp
    then have fit: "unat (rx_len ?c) + unat plen \<le> 4096" using True by (simp add: word_le_nat_alt)
    let ?b = "take (unat (rx_len ?c)) (rx_buf ?c) @ take (unat plen) payload @ drop (unat (rx_len ?c) + unat plen) (rx_buf ?c)"
    have cp: "c_memcpy (rx_buf ?c) (unat (rx_len ?c)) payload (unat plen) = Some ?b"
      using fit rx(1) assms(2) by (simp add: c_memcpy_def)
    have "conn_ok (?c\<lparr>rx_buf := ?b, rx_len := rx_len ?c + plen, rcv_nxt := rcv_nxt ?c + plen\<rparr>)"
      using l(4) True fit rx(1) assms(2) by (simp add: conn_ok_def)
    then have "live (k\<lparr>conns := (conns k)[i := ?c\<lparr>rx_buf := ?b, rx_len := rx_len ?c + plen, rcv_nxt := rcv_nxt ?c + plen\<rparr>]\<rparr>) i"
      using l(5) by (intro live_upd assms(1)) (simp_all add: waiting_key)
    then show ?thesis using True cp by (simp add: l(7))
  next
    case False
    then show ?thesis unfolding if_not_P [OF False] using assms(1) by blast
  qed
  then obtain k1 where k1: "(if seq = rcv_nxt ?c \<and> rx_len ?c + plen \<le> 4096
         then do { b \<leftarrow> c_memcpy (rx_buf ?c) (unat (rx_len ?c)) payload (unat plen);
                   set_conn k i (?c\<lparr>rx_buf := b, rx_len := rx_len ?c + plen, rcv_nxt := rcv_nxt ?c + plen\<rparr>) }
         else Some k) = Some k1" "live k1 i" by blast
  obtain st k2 w2 where e: "tcp_emit w k1 i TCP_ACK NULL 0 False = Some (st, k2, w2)" "live k2 i"
    using k1(2) by (rule live_emit0)
  show ?thesis unfolding tcp_deliver_def if_not_P [OF False] l(6) bind.bind_lunit k1(1) e(1) prod.case using e(2) by blast
qed

lemma tcp_receive_good:
  assumes "live k i" and "unat plen \<le> length payload" and "unat plen \<le> 65535"
  shows "good_step (tcp_receive w k i seq flags payload plen)"
proof (cases "receiving (conns k ! i)")
  case True
  obtain r k1 w1 where d: "tcp_deliver w k i seq payload plen = Some (r, k1, w1)" "live k1 i"
    using tcp_deliver_good [OF assms] by blast
  show ?thesis
  proof (cases r)
    case None
    obtain k2 w2 where f: "(if flags AND TCP_FIN \<noteq> 0 then tcp_fin w1 k1 i seq plen else Some (k1, w1)) = Some (k2, w2)" "live k2 i"
      using tcp_fin_good [OF d(2), of w1 seq plen] d(2) by (cases "flags AND TCP_FIN \<noteq> 0") auto
    obtain k3 where "tcp_finish k2 i = Some k3" "tcp_inv k3" using tcp_finish_good [OF f(2)] by blast
    then show ?thesis unfolding tcp_receive_def liveD(6) [OF assms(1)] bind.bind_lunit if_P [OF True] d(1) prod.case None option.case f(1)
      by (simp add: good_stepI)
  next
    case (Some st)
    then show ?thesis unfolding tcp_receive_def liveD(6) [OF assms(1)] bind.bind_lunit if_P [OF True] d(1) prod.case
      using d(2) by (simp add: good_stepI live_def)
  qed
next
  case False
  then show ?thesis unfolding tcp_receive_def liveD(6) [OF assms(1)] bind.bind_lunit if_not_P [OF False]
    using tcp_finish_good [OF assms(1)] by (auto simp: good_step_def)
qed

lemma tcp_known_good:
  assumes "live k i" and "unat plen \<le> length payload" and "unat plen \<le> 65535"
  shows "good_step (tcp_known w k i seq ackn flags win payload plen)"
proof -
  note l = liveD [OF assms(1)]
  let ?c = "conns k ! i"
  obtain k0 where rel: "tcp_release k i = Some k0" "tcp_inv k0" using tcp_release_inv [OF l(1,2,5)] by blast
  have acked: "live (k\<lparr>conns := (conns k)[i := tcp_acked ?c ackn win]\<rparr>) i"
    using l(4,5) by (intro live_upd assms(1)) (simp_all add: tcp_acked_def conn_ok_key waiting_key)
  let ?e = "?c\<lparr>snd_una := ackn, snd_wnd := ucast win, irs := seq, rcv_nxt := seq + 1, cstate := ESTABLISHED, tx_pending := False\<rparr>"
  have est: "live (k\<lparr>conns := (conns k)[i := ?e]\<rparr>) i"
    using l(4,5) by (intro live_upd assms(1)) (simp_all add: conn_ok_key waiting_key)
  have emit: "good_step (tcp_emit w (k\<lparr>conns := (conns k)[i := ?e]\<rparr>) i TCP_ACK NULL 0 False)"
    using est l(2) by (intro good_emit) (simp_all add: live_def)
  have "good_step (do { k1 \<leftarrow> (if flags AND TCP_ACK \<noteq> 0 then set_conn k i (tcp_acked ?c ackn win) else Some k);
                    tcp_receive w k1 i seq flags payload plen })"
    using tcp_receive_good [OF acked assms(2,3), of w seq flags] tcp_receive_good [OF assms, of w seq flags]
    unfolding l(7) by (cases "flags AND TCP_ACK \<noteq> 0") simp_all
  then show ?thesis unfolding tcp_known_def l(6,7) bind.bind_lunit rel(1) using emit rel(2) l(1)
    by (simp only: if_split) (simp add: good_stepI)
qed

text \<open>The results of the operations that take a pointer to the core.\<close>

definition safe :: "('r \<times> 'w tcpcore_t ptr \<times> 'v) comp \<Rightarrow> bool" where
  "safe r \<longleftrightarrow> (\<exists>st k v. r = Some (st, Ref k, v) \<and> tcp_inv k)"

lemma safeI: "tcp_inv k \<Longrightarrow> safe (Some (st, Ref k, v))"
  by (simp add: safe_def)

lemma safe_good: "good_step r \<Longrightarrow> safe (do { (st, k, w) \<leftarrow> r; Some (st, Ref k, w) })"
  by (auto simp: good_step_def safe_def)

lemma tcp_input_safe:
  assumes inv: "tcp_inv k" and "unat len \<le> length s" and "unat len \<le> 65535"
  shows "safe (tcp_input w (Ref k) a b (Ref s) len)"
proof (cases "len < 20")
  case True
  then show ?thesis using tables_okD(1) [OF tcp_invD(1) [OF inv]] inv by (simp add: tcp_input_def safeI)
next
  case False
  note ok = tables_okD [OF tcp_invD(1) [OF inv]]
  have l: "20 \<le> length s" using False assms(2) by (simp add: word_less_nat_alt)
  obtain h0 where 0: "ld16 s 0 = Some h0" using ld16_total [of 0 s] l by auto
  obtain h2 where 2: "ld16 s 2 = Some h2" using ld16_total [of 2 s] l by auto
  obtain h4 where 4: "ld32 s 4 = Some h4" using ld32_total [of 4 s] l by auto
  obtain h8 where 8: "ld32 s 8 = Some h8" using ld32_total [of 8 s] l by auto
  obtain h14 where 14: "ld16 s 14 = Some h14" using ld16_total [of 14 s] l by auto
  have b: "c_rd s 12 = Some (s ! 12)" "c_rd s 13 = Some (s ! 13)" using l by simp_all
  obtain cs where cs: "tcp_checksum a b s len = Some cs"
    using inet_checksum_eq [of len s 6 a b] assms(2,3) by (auto simp: tcp_checksum_def)
  let ?doff = "(ucast (drop_bit 4 (s ! 12)) :: u32) * 4"
  show ?thesis
  proof (cases "?doff < 20 \<or> ?doff > len \<or> cs \<noteq> 0")
    case True
    then show ?thesis using ok(1) False inv unfolding tcp_input_def prod.case ptr.case 0 2 4 8 14 b cs bind.bind_lunit Let_def
      by (auto simp: safeI)
  next
    case d: False
    then have le: "?doff \<le> len" by (simp only: not_less de_Morgan_disj)
    have pl: "unat (len - ?doff) = unat len - unat ?doff" using le by (rule unat_sub_le)
    have lens: "unat (len - ?doff) \<le> length (drop (unat ?doff) s)" "unat (len - ?doff) \<le> 65535"
      using pl assms(2,3) by simp_all
    let ?f = "first_index (conn_matches a (ow_bswap16 h0) b (ow_bswap16 h2)) (conns k)"
    have "good_step (case to_ptr ?f of
        NULL \<Rightarrow> tcp_unknown w k a b (ow_bswap16 h0) (ow_bswap16 h2) (ow_bswap32 h4) (ow_bswap32 h8) (s ! 13) (ow_bswap16 h14) (len - ?doff)
      | Ref i \<Rightarrow> tcp_known w k i (ow_bswap32 h4) (ow_bswap32 h8) (s ! 13) (ow_bswap16 h14) (drop (unat ?doff) s) (len - ?doff))"
    proof (cases ?f)
      case None
      then show ?thesis using tcp_unknown_good [OF inv] by (simp add: to_ptr_def)
    next
      case (Some i)
      then have "live k i" using first_index_SomeD [OF Some] ok(2) inv by (simp add: live_def conn_matches_def)
      then show ?thesis using tcp_known_good [OF _ lens] Some by (simp add: to_ptr_def)
    qed
    then have "safe (do { (st, k1, w1) \<leftarrow> (case to_ptr ?f of
        NULL \<Rightarrow> tcp_unknown w k a b (ow_bswap16 h0) (ow_bswap16 h2) (ow_bswap32 h4) (ow_bswap32 h8) (s ! 13) (ow_bswap16 h14) (len - ?doff)
      | Ref i \<Rightarrow> tcp_known w k i (ow_bswap32 h4) (ow_bswap32 h8) (s ! 13) (ow_bswap16 h14) (drop (unat ?doff) s) (len - ?doff));
        Some (st, Ref k1, w1) })" by (rule safe_good)
    then show ?thesis using ok(1) False d unfolding tcp_input_def prod.case ptr.case 0 2 4 8 14 b cs bind.bind_lunit Let_def find_eq [OF ok(2)]
      by (simp only: if_False if_True simp_thms de_Morgan_disj)
  qed
qed

lemma tcp_connect_safe:
  assumes inv: "tcp_inv k"
  shows "safe (tcp_connect w (Ref k) lip lport rip rport)"
proof -
  note ok = tables_okD [OF tcp_invD(1) [OF inv]]
  let ?f = "first_index (conn_matches rip rport lip lport) (conns k)" and ?a = "first_index (\<lambda>c. \<not> used c) (conns k)"
  show ?thesis
  proof (cases "lport = 0 \<or> rport = 0 \<or> rip = 0 \<or> ?f \<noteq> None \<or> ?a = None")
    case True
    then show ?thesis using ok(1,2) inv by (auto simp: tcp_connect_def find_eq alloc_eq to_ptr_def safeI split: option.splits)
  next
    case False
    then obtain i where i: "?a = Some i" by auto
    have i8: "i < 8" and free: "\<not> used (conns k ! i)" using first_index_SomeD [OF i] ok(2) by simp_all
    obtain isn s where isn: "tcp_next_isn k = (isn, k\<lparr>iss_seed := s\<rparr>)" using next_isn_eq by blast
    define c where "c = zero_conn\<lparr>used := True, is_passive := False, cstate := SYN_SENT,
       c_local_ip := lip, remote_ip := rip, c_local_port := lport, remote_port := rport,
       iss := isn, snd_una := isn, snd_nxt := isn, rcv_nxt := 0, rcv_wnd := 4096, snd_wnd := 4096,
       mss := 1460, rto := TCP_INITIAL_RTO, rto_timer := TCP_INITIAL_RTO\<rparr>"
    have nw: "\<not> waiting p c" "\<not> waiting p (conns k ! i)" for p using free by (simp_all add: waiting_def c_def)
    let ?k = "k\<lparr>iss_seed := s, conns := (conns k)[i := c]\<rparr>"
    have "conn_ok c" by (simp add: c_def conn_ok_def zero_conn_def)
    then have "live ?k i"
      using live_upd [of "k\<lparr>iss_seed := s\<rparr>" i c] tcp_inv_upd [OF tcp_inv_seed [OF inv, of s] i8, of c] nw i8 ok(2)
      by (simp add: live_def c_def)
    then obtain st k2 w2 where e: "tcp_emit w ?k i TCP_SYN NULL 0 True = Some (st, k2, w2)" "live k2 i"
        "conns k2 = (conns ?k)[i := tcp_sent (conns ?k ! i) TCP_SYN [] True]"
      by (rule live_emit0)
    have "\<not> waiting p (conns k2 ! i)" for p using e(3) nw(1) i8 ok(2) by simp
    then have "tcp_inv (k2\<lparr>conns := (conns k2)[i := zero_conn]\<rparr>)"
      by (intro tcp_inv_upd liveD(1,2) [OF e(2)] conn_ok_zero) (simp add: not_waiting_zero)
    moreover have "tcp_connect w (Ref k) lip lport rip rport =
        (if st \<noteq> TCP_OK then Some (0, Ref (k2\<lparr>conns := (conns k2)[i := zero_conn]\<rparr>), w2) else Some (tcp_conn_id i, Ref k2, w2))"
      using False i i8 ok(1,2) isn e(1) liveD(3) [OF e(2)]
      by (simp add: tcp_connect_def find_eq alloc_eq to_ptr_def c_def)
    ultimately show ?thesis using liveD(1) [OF e(2)] by (simp add: safeI)
  qed
qed

lemma tcp_accept_safe:
  assumes inv: "tcp_inv k"
  shows "safe (tcp_accept (Ref k) lip lport (Ref x))"
proof -
  note ok = tables_okD [OF tcp_invD(1) [OF inv]]
  show ?thesis
  proof (cases "first_index (acceptable lip lport) (conns k)")
    case None
    then show ?thesis using ok(2) inv by (simp add: tcp_accept_def c_find_eq safeI)
  next
    case (Some i)
    have i: "i < 8" "acceptable lip lport (conns k ! i)" using first_index_SomeD [OF Some] ok(2) by simp_all
    let ?c = "(conns k ! i)\<lparr>accepted := True\<rparr>"
    have w: "waiting lport (conns k ! i)" using i(2) by (simp add: waiting_def acceptable_def)
    obtain ls where "drop_pending (k\<lparr>conns := (conns k)[i := ?c]\<rparr>) lport = Some (k\<lparr>conns := (conns k)[i := ?c], listeners := ls\<rparr>)"
        "tcp_inv (k\<lparr>listeners := ls, conns := (conns k)[i := ?c]\<rparr>)"
      using leave_waiting [OF inv i(1) w, of ?c "k\<lparr>conns := (conns k)[i := ?c]\<rparr>"] ok(5) [OF i(1)]
      by (auto simp: conn_ok_key waiting_def)
    moreover have "k\<lparr>listeners := ls, conns := (conns k)[i := ?c]\<rparr> = k\<lparr>conns := (conns k)[i := ?c], listeners := ls\<rparr>" by simp
    ultimately have "safe (Some (TCP_OK, Ref (k\<lparr>conns := (conns k)[i := ?c], listeners := ls\<rparr>), Ref (of_nat (i + 1) :: i32)))"
        "drop_pending (k\<lparr>conns := (conns k)[i := ?c]\<rparr>) lport = Some (k\<lparr>conns := (conns k)[i := ?c], listeners := ls\<rparr>)"
      unfolding safe_def by metis+
    then show ?thesis using Some i(1) ok(2) by (simp add: tcp_accept_def c_find_eq)
  qed
qed

lemma pend_same:
  assumes "j < length ls" and "listener_for q l = listener_for q (ls ! j)" and "listener_for q l \<Longrightarrow> pending l = pending (ls ! j)"
  shows "pend (ls[j := l]) q = pend ls q"
proof -
  have "first_index (listener_for q) (ls[j := l]) = first_index (listener_for q) ls"
    by (rule first_index_cong_update [symmetric]) (use assms in \<open>auto simp: nth_list_update\<close>)
  then show ?thesis using assms by (auto simp: pend_def nth_list_update split: option.split dest: first_index_SomeD(2))
qed

lemma tcp_inv_listeners:
  "tcp_inv k \<Longrightarrow> length ls = 4 \<Longrightarrow> (\<And>q. pend ls q = pend (listeners k) q) \<Longrightarrow> tcp_inv (k\<lparr>listeners := ls\<rparr>)"
  by (simp add: tcp_inv_def tables_ok_def)

lemma tcp_listen_safe:
  assumes inv: "tcp_inv k"
  shows "\<exists>st k'. tcp_listen (Ref k) lip lport bl = Some (st, Ref k') \<and> tcp_inv k'"
proof (cases "lport = 0")
  case True
  then show ?thesis using inv by (simp add: tcp_listen_def)
next
  case p: False
  note ok = tables_okD [OF tcp_invD(1) [OF inv]]
  let ?bl = "if bl = 0 then 1 else bl"
  have find: "c_find (\<lambda>l. l_used l \<and> l_local_port l = lport) (listeners k) 4 0 = Some (first_index (listener_for lport) (listeners k))"
    "c_find (\<lambda>l. \<not> l_used l) (listeners k) 4 0 = Some (first_index (\<lambda>l. \<not> l_used l) (listeners k))"
    using ok(3) by (simp_all add: c_find_eq listener_for_def [abs_def])
  show ?thesis
  proof (cases "first_index (listener_for lport) (listeners k)")
    case (Some j)
    then have j: "j < 4" using first_index_SomeD(1) [OF Some] ok(3) by simp
    let ?ls = "(listeners k)[j := (listeners k ! j)\<lparr>backlog := ?bl\<rparr>]"
    have "tcp_inv (k\<lparr>listeners := ?ls\<rparr>)"
      using j ok(3) by (intro tcp_inv_listeners inv pend_same) (simp_all add: listener_for_def)
    then show ?thesis using Some j p ok(1,3) by (simp add: tcp_listen_def find)
  next
    case none: None
    show ?thesis
    proof (cases "first_index (\<lambda>l. \<not> l_used l) (listeners k)")
      case None
      then show ?thesis using none p ok(1) inv by (simp add: tcp_listen_def find)
    next
      case (Some j)
      then have j: "j < 4" "\<not> l_used (listeners k ! j)" using first_index_SomeD [OF Some] ok(3) by simp_all
      let ?l = "\<lparr>l_used = True, l_local_ip = lip, l_local_port = lport, backlog = ?bl, pending = 0\<rparr>"
      have "pend ((listeners k)[j := ?l]) q = pend (listeners k) q" for q
      proof (cases "q = lport")
        case True
        have "first_index (listener_for lport) ((listeners k)[j := ?l]) = Some j"
          using none j ok(3)
          by (intro first_index_unique) (auto simp: listener_for_def nth_list_update first_index_None_iff split: if_splits)
        then show ?thesis using True none j ok(3) by (simp add: pend_def)
      next
        case False
        then show ?thesis using j ok(3) by (intro pend_same) (simp_all add: listener_for_def)
      qed
      then have "tcp_inv (k\<lparr>listeners := (listeners k)[j := ?l]\<rparr>)" using ok(3) by (intro tcp_inv_listeners inv) simp_all
      then show ?thesis using Some none j p ok(1,3) by (simp add: tcp_listen_def find)
    qed
  qed
qed

lemma tcp_send_safe:
  assumes inv: "tcp_inv k" and "length d < 2 ^ 32"
  shows "safe (tcp_send w (Ref k) s (Ref d) (of_nat (length d)))"
  using conn_at_total [OF tcp_invD(1) [OF inv], of s]
proof (elim disjE exE conjE)
  assume "tcp_conn_at k s = Some NULL"
  then show ?thesis using inv by (simp add: tcp_send_def safeI)
next
  fix i assume i: "i < 8" "used (conns k ! i)" and at: "tcp_conn_at k s = Some (Ref i)"
  then have l: "live k i" using inv by (simp add: live_def)
  let ?c = "conns k ! i" and ?n = "of_nat (length d) :: u32"
  show ?thesis
  proof (cases "?n > 1460")
    case True
    then show ?thesis using at inv liveD(6) [OF l] by (simp add: tcp_send_def safeI)
  next
    case False
    then have "length d \<le> 1460" using assms(2) by (simp add: word_less_nat_alt unat_of_nat)
    then obtain st k' w' where e: "tcp_emit w k i (TCP_ACK OR TCP_PSH) (Ref d) ?n True = Some (st, k', w')" "live k' i"
      using live_emit [OF l, of d "Ref d" w "TCP_ACK OR TCP_PSH" True] by blast
    have b: "do { (st, k1, w1) \<leftarrow> tcp_emit w k i (TCP_ACK OR TCP_PSH) (Ref d) ?n True; Some (st, Ref k1, w1) } = Some (st, Ref k', w')"
      unfolding e(1) by simp
    show ?thesis unfolding tcp_send_def ptr.case at bind.bind_lunit liveD(6) [OF l] b
      by (simp add: safeI inv liveD(1) [OF e(2)])
  qed
qed

lemma tcp_recv_safe:
  assumes inv: "tcp_inv k" and "unat cap \<le> length b"
  shows "safe (tcp_recv (Ref k) s (Ref b) cap (Ref x))"
  using conn_at_total [OF tcp_invD(1) [OF inv], of s]
proof (elim disjE exE conjE)
  assume "tcp_conn_at k s = Some NULL"
  then show ?thesis using inv by (simp add: tcp_recv_def safeI)
next
  fix i assume i: "i < 8" "used (conns k ! i)" and at: "tcp_conn_at k s = Some (Ref i)"
  then have l: "live k i" using inv by (simp add: live_def)
  let ?c = "conns k ! i" and ?n = "if rx_len (conns k ! i) < cap then rx_len (conns k ! i) else cap"
  have rx: "length (rx_buf ?c) = 4096" "unat (rx_len ?c) \<le> 4096" using liveD(4) [OF l] by (simp_all add: conn_ok_def word_le_nat_alt)
  have n: "?n \<le> rx_len ?c" "?n \<le> cap" by auto
  then have un: "unat ?n \<le> unat (rx_len ?c)" "unat ?n \<le> unat cap" unfolding word_le_nat_alt by blast+
  have cp: "c_memcpy b 0 (rx_buf ?c) (unat ?n) = Some (take (unat ?n) (rx_buf ?c) @ drop (unat ?n) b)"
    using un rx assms(2) by (simp add: c_memcpy_def)
  obtain rb where rb: "shift_down (rx_buf ?c) (unat ?n) (unat (rx_len ?c)) (unat ?n) = Some rb" "length rb = 4096"
    using shift_down_eq [of "unat ?n" "unat (rx_len ?c)" "rx_buf ?c"] un(1) rx by auto
  have "unat (rx_len ?c - ?n) \<le> 4096" using unat_sub_le [OF n(1)] rx(2) by simp
  then have "conn_ok (?c\<lparr>rx_buf := rb, rx_len := rx_len ?c - ?n\<rparr>)"
    using liveD(4) [OF l] rb(2) by (simp only: conn_ok_def word_le_nat_alt) simp
  then have "tcp_inv (k\<lparr>conns := (conns k)[i := ?c\<lparr>rx_buf := rb, rx_len := rx_len ?c - ?n\<rparr>]\<rparr>)"
    by (intro tcp_inv_upd inv i(1)) (simp_all add: waiting_key)
  then show ?thesis
    unfolding tcp_recv_def prod.case ptr.case at bind.bind_lunit liveD(6) [OF l] Let_def cp rb(1)
    using inv i(1) liveD(3) [OF l] by (simp add: safeI)
qed

lemma tcp_close_safe:
  assumes inv: "tcp_inv k"
  shows "safe (tcp_close w (Ref k) s)"
  using conn_at_total [OF tcp_invD(1) [OF inv], of s]
proof (elim disjE exE conjE)
  assume "tcp_conn_at k s = Some NULL"
  then show ?thesis using inv by (simp add: tcp_close_def safeI)
next
  fix i assume i: "i < 8" "used (conns k ! i)" and at: "tcp_conn_at k s = Some (Ref i)"
  then have l: "live k i" using inv by (simp add: live_def)
  let ?c = "conns k ! i"
  obtain k0 where rel: "tcp_release k i = Some k0" "tcp_inv k0" using tcp_release_inv [OF inv i] by blast
  have fin: "safe (do { k1 \<leftarrow> set_conn k i (?c\<lparr>cstate := x\<rparr>);
      (st, k2, w1) \<leftarrow> tcp_emit w k1 i (TCP_FIN OR TCP_ACK) NULL 0 True; Some (st, Ref k2, w1) })" for x
  proof -
    have "tcp_inv (k\<lparr>conns := (conns k)[i := ?c\<lparr>cstate := x\<rparr>]\<rparr>)"
      using liveD(4) [OF l] by (intro tcp_inv_upd inv i(1)) (simp_all add: conn_ok_key waiting_key)
    from safe_good [OF good_emit [OF this i(1)]] show ?thesis by (simp add: liveD(7) [OF l])
  qed
  show ?thesis unfolding tcp_close_def ptr.case at bind.bind_lunit liveD(6) [OF l] Let_def rel(1)
    by (cases "cstate ?c") (simp_all only: tcp_state_t.case safeI [OF inv] safeI [OF rel(2)] bind.bind_lunit fin)
qed

lemma tick_conn_good:
  assumes inv: "tcp_inv k" and i: "i < 8"
  shows "\<exists>k' w'. tcp_tick_conn w k e i = Some (k', w') \<and> tcp_inv k'"
proof (cases "used (conns k ! i)")
  case False
  then show ?thesis using inv i tables_okD(2) [OF tcp_invD(1) [OF inv]] by (simp add: tcp_tick_conn_def)
next
  case True
  then have l: "live k i" using inv i by (simp add: live_def)
  let ?c = "conns k ! i"
  obtain k0 where rel: "tcp_release k i = Some k0" "tcp_inv k0" using tcp_release_inv [OF inv i True] by blast
  obtain tx where tx: "ip_tx k = Ref tx" using tables_okD(6) [OF tcp_invD(1) [OF inv]] by blast
  have upd: "tcp_inv (k\<lparr>conns := (conns k)[i := ?c\<lparr>time_wait_timer := a\<rparr>]\<rparr>)"
    "tcp_inv (k\<lparr>conns := (conns k)[i := ?c\<lparr>rto_timer := a\<rparr>]\<rparr>)"
    "tcp_inv (k\<lparr>conns := (conns k)[i := ?c\<lparr>rto := a, rto_timer := a\<rparr>]\<rparr>)" for a
    using liveD(4) [OF l] by (intro tcp_inv_upd inv i; simp add: conn_ok_key waiting_key)+
  show ?thesis unfolding tcp_tick_conn_def liveD(6,7) [OF l] bind.bind_lunit rel(1) tx ptr.case Let_def
    using rel(2) upd inv by (auto split: prod.split)
qed

lemma tick_loop_good: "tcp_inv k \<Longrightarrow> \<exists>k' w'. tick_loop w k e i = Some (k', w') \<and> tcp_inv k'"
proof (induction w k e i rule: tick_loop.induct)
  case (1 w k e i)
  show ?case
  proof (cases "i < 8")
    case True
    obtain k1 w1 where s: "tcp_tick_conn w k e i = Some (k1, w1)" "tcp_inv k1"
      using tick_conn_good [OF "1.prems" True] by blast
    show ?thesis using "1.IH" [OF True s(1) refl s(2)] True s(1) by (subst tick_loop.simps) simp
  next
    case False
    then show ?thesis using "1.prems" by (subst tick_loop.simps) simp
  qed
qed

lemma tcp_tick_safe: "tcp_inv k \<Longrightarrow> safe (tcp_tick w (Ref k) e)"
  using tick_loop_good [of k w e 0] tables_okD(1) [OF tcp_invD(1), of k] by (auto simp: tcp_tick_def safe_def)

section \<open>Runs\<close>

datatype tcp_op =
    Connect u32 u16 u32 u16
  | Listen u32 u16 u16
  | Accept u32 u16
  | Send i32 "u8 list"
  | Recv i32 "u8 list"
  | Close i32
  | Segment u32 u32 "u8 list"
  | Tick u32

definition op_fits :: "tcp_op \<Rightarrow> bool" where
  "op_fits a = (case a of Send _ d \<Rightarrow> length d < 2 ^ 32 | Recv _ b \<Rightarrow> length b < 2 ^ 32 | Segment _ _ s \<Rightarrow> length s \<le> 65535 | _ \<Rightarrow> True)"

definition tcp_do :: "tcp_op \<Rightarrow> 'w tcpcore_t ptr \<times> 'w \<Rightarrow> ('w tcpcore_t ptr \<times> 'w) comp" where
  "tcp_do a kw =
     (case a of
        Connect lip lp rip rp \<Rightarrow> do { (_, k, w) \<leftarrow> tcp_connect (snd kw) (fst kw) lip lp rip rp; Some (k, w) }
      | Listen lip lp bl \<Rightarrow> do { (_, k) \<leftarrow> tcp_listen (fst kw) lip lp bl; Some (k, snd kw) }
      | Accept lip lp \<Rightarrow> do { (_, k, _) \<leftarrow> tcp_accept (fst kw) lip lp (Ref 0); Some (k, snd kw) }
      | Send s d \<Rightarrow> do { (_, k, w) \<leftarrow> tcp_send (snd kw) (fst kw) s (Ref d) (of_nat (length d)); Some (k, w) }
      | Recv s b \<Rightarrow> do { (_, k, _) \<leftarrow> tcp_recv (fst kw) s (Ref b) (of_nat (length b)) (Ref 0); Some (k, snd kw) }
      | Close s \<Rightarrow> do { (_, k, w) \<leftarrow> tcp_close (snd kw) (fst kw) s; Some (k, w) }
      | Segment src dst s \<Rightarrow> do { (_, k, w) \<leftarrow> tcp_input (snd kw) (fst kw) src dst (Ref s) (of_nat (length s)); Some (k, w) }
      | Tick e \<Rightarrow> do { (_, k, w) \<leftarrow> tcp_tick (snd kw) (fst kw) e; Some (k, w) })"

fun tcp_run :: "tcp_op list \<Rightarrow> 'w tcpcore_t ptr \<times> 'w \<Rightarrow> ('w tcpcore_t ptr \<times> 'w) comp" where
  "tcp_run [] kw = Some kw"
| "tcp_run (a # as) kw = do { kw' \<leftarrow> tcp_do a kw; tcp_run as kw' }"

lemma tcp_do_inv:
  assumes inv: "tcp_inv k" and fits: "op_fits a"
  shows "\<exists>k' w'. tcp_do a (Ref k, w) = Some (Ref k', w') \<and> tcp_inv k'"
proof (cases a)
  case (Connect lip lp rip rp)
  then show ?thesis using tcp_connect_safe [OF inv, of w lip lp rip rp] by (auto simp: tcp_do_def safe_def)
next
  case (Listen lip lp bl)
  then show ?thesis using tcp_listen_safe [OF inv, of lip lp bl] by (auto simp: tcp_do_def)
next
  case (Accept lip lp)
  then show ?thesis using tcp_accept_safe [OF inv, of lip lp 0] by (auto simp: tcp_do_def safe_def)
next
  case (Send s d)
  then show ?thesis using tcp_send_safe [OF inv, of d w s] fits by (auto simp: tcp_do_def safe_def op_fits_def)
next
  case (Recv s b)
  then have "unat (of_nat (length b) :: u32) \<le> length b" using fits by (simp add: unat_of_nat op_fits_def)
  then show ?thesis using tcp_recv_safe [OF inv, of "of_nat (length b)" b s 0] Recv by (auto simp: tcp_do_def safe_def)
next
  case (Close s)
  then show ?thesis using tcp_close_safe [OF inv, of w s] by (auto simp: tcp_do_def safe_def)
next
  case (Segment src dst s)
  then have "unat (of_nat (length s) :: u32) = length s" using fits by (simp add: unat_of_nat op_fits_def)
  then show ?thesis using tcp_input_safe [OF inv, of "of_nat (length s)" s w src dst] Segment fits
    by (auto simp: tcp_do_def safe_def op_fits_def)
next
  case (Tick e)
  then show ?thesis using tcp_tick_safe [OF inv, of w e] by (auto simp: tcp_do_def safe_def)
qed

lemma tcp_run_inv:
  "tcp_inv k \<Longrightarrow> list_all op_fits as \<Longrightarrow> \<exists>k' w'. tcp_run as (Ref k, w) = Some (Ref k', w') \<and> tcp_inv k'"
proof (induction as arbitrary: k w)
  case (Cons a as)
  obtain k1 w1 where "tcp_do a (Ref k, w) = Some (Ref k1, w1)" "tcp_inv k1"
    using tcp_do_inv [OF Cons.prems(1), of a w] Cons.prems(2) by auto
  then show ?case using Cons.IH [of k1 w1] Cons.prems(2) by simp
qed simp

lemma count_if_replicate0: "\<not> P x \<Longrightarrow> count_if P (replicate n x) = 0"
  by (simp add: count_if_0_iff)

lemma tcp_init_inv: "tcp_init (Ref k0) ip (Ref tx) = (TCP_OK, Ref k) \<Longrightarrow> tcp_inv k"
proof -
  assume "tcp_init (Ref k0) ip (Ref tx) = (TCP_OK, Ref k)"
  then have k: "k = \<lparr>initialized = True, local_ip = ip, iss_seed = 0x1D2B, ip_tx = Ref tx,
      conns = replicate 8 zero_conn, listeners = replicate 4 zero_listener, scratch = replicate 1480 0\<rparr>"
    by (simp add: tcp_init_def)
  have "first_index (listener_for p) (replicate 4 zero_listener) = None" for p
    by (simp add: first_index_None_iff listener_for_def zero_listener_def)
  then have "pend (replicate 4 zero_listener) p = 0" for p by (simp add: pend_def)
  then show ?thesis unfolding k by (simp add: tcp_inv_def tables_ok_def list_all_length conn_ok_zero count_if_replicate0 not_waiting_zero)
qed

section \<open>Properties of the tables\<close>

text \<open>C3: Every run from \<open>tcp_init\<close>, any sequence of connects, listens, accepts, sends, receives, closes, timer
  ticks and incoming segments with arbitrary contents of at most 65535 bytes, has no undefined behaviour. In
  the state it reaches, no receive or retransmission length exceeds its buffer, and the backlog counter of the
  listener of each port is exactly the number of connections of that port that wait for \<open>tcp_accept\<close>.\<close>

theorem tcp_run_safe:
  assumes "tcp_init (Ref k0) ip (Ref tx) = (TCP_OK, Ref k)" and "list_all op_fits as"
  shows "\<exists>k' w'. tcp_run as (Ref k, w) = Some (Ref k', w') \<and>
     length (conns k') = 8 \<and> list_all (\<lambda>c. rx_len c \<le> 4096 \<and> tx_len c \<le> 1480 \<and> length (rx_buf c) = 4096 \<and> length (tx_buf c) = 1480) (conns k') \<and>
     (\<forall>p. pend (listeners k') p = count_if (waiting p) (conns k'))"
proof -
  obtain k' w' where r: "tcp_run as (Ref k, w) = Some (Ref k', w')" "tcp_inv k'"
    using tcp_run_inv [OF tcp_init_inv [OF assms(1)] assms(2), of w] by blast
  then have "list_all (\<lambda>c. rx_len c \<le> 4096 \<and> tx_len c \<le> 1480 \<and> length (rx_buf c) = 4096 \<and> length (tx_buf c) = 1480) (conns k')"
    unfolding tcp_inv_def tables_ok_def conn_ok_def by (auto elim: list.pred_mono_strong)
  then show ?thesis using r unfolding tcp_inv_def tables_ok_def by blast
qed

definition fresh_core :: "u32 \<Rightarrow> u8 list list tcpcore_t" where
  "fresh_core ip = \<lparr>initialized = True, local_ip = ip, iss_seed = 0x1D2B, ip_tx = Ref (\<lambda>w _ _ s _. (TCP_OK, s # w)),
     conns = replicate 8 zero_conn, listeners = replicate 4 zero_listener, scratch = replicate 1480 0\<rparr>"

lemma fresh_core_init: "tcp_init (Ref (fresh_core 0)) ip (Ref (\<lambda>w _ _ s _. (TCP_OK, s # w))) = (TCP_OK, Ref (fresh_core ip))"
  by (simp add: tcp_init_def fresh_core_def)

theorem tcp_run_safe_witness:
  "\<exists>k' w'. tcp_run [Listen 5 80 3, Connect 5 1000 9 443, Segment 9 5 [1, 2, 3], Send 1 [7, 7], Tick 60, Close 1, Recv 1 [0], Accept 5 80]
       (Ref (fresh_core 5), []) = Some (Ref k', w') \<and> length (conns k') = 8"
  using tcp_run_safe [OF fresh_core_init, of
      "[Listen 5 80 3, Connect 5 1000 9 443, Segment 9 5 [1, 2, 3], Send 1 [7, 7], Tick 60, Close 1, Recv 1 [0], Accept 5 80]" 5 "[]"]
  by (auto simp: op_fits_def simp del: tcp_run.simps)

lemma sint_seq_diff:
  assumes "a < b + 2 ^ 31" and "b < a + 2 ^ 31"
  shows "sint ((x + of_nat a) - (x + of_nat b) :: u32) = int a - int b"
proof -
  have "(x + of_nat a) - (x + of_nat b) = (word_of_int (int a - int b) :: u32)" by simp
  then have "sint ((x + of_nat a) - (x + of_nat b) :: u32) = signed_take_bit 31 (int a - int b)"
    by (simp only: sint_sbintrunc') simp
  also have "\<dots> = int a - int b" using assms by (intro signed_take_bit_int_eq_self) simp_all
  finally show ?thesis .
qed

text \<open>C37: Sequence numbers around any base compare like the offsets, across the 32-bit wrap-around, as long as
  the offsets differ by less than \<open>2 ^ 31\<close>.\<close>

theorem tcp_seq_order:
  assumes "a < b + 2 ^ 31" and "b < a + 2 ^ 31"
  shows "(tcp_seq_lt (x + of_nat a) (x + of_nat b) \<longleftrightarrow> a < b) \<and> (tcp_seq_le (x + of_nat a) (x + of_nat b) \<longleftrightarrow> a \<le> b) \<and>
    (tcp_seq_gt (x + of_nat a) (x + of_nat b) \<longleftrightarrow> b < a) \<and> (tcp_seq_ge (x + of_nat a) (x + of_nat b) \<longleftrightarrow> b \<le> a)"
  unfolding tcp_seq_lt_def tcp_seq_le_def tcp_seq_gt_def tcp_seq_ge_def sint_seq_diff [OF assms] by auto

theorem tcp_seq_order_witness:
  "tcp_seq_lt 0xFFFFFFFA 5 \<and> tcp_seq_gt 5 0xFFFFFFFA"
proof -
  have e: "(0xFFFFFFFA :: u32) + of_nat 11 = 5" "(0xFFFFFFFA :: u32) + of_nat 0 = 0xFFFFFFFA" by simp_all
  show ?thesis
    using tcp_seq_order [of 0 11 "0xFFFFFFFA"] tcp_seq_order [of 11 0 "0xFFFFFFFA"] unfolding e
    by (simp only: power_numeral) simp
qed

end
