(* ===== verification/Tcp_Link.thy ===== *)
theory Tcp_Link
  imports Tcp
begin

text \<open>
  Two TCP cores of \<open>src/Drivers/tcpcore/tcpcore.c\<close> that talk to each other. The IP layer of each core
  is \<open>wire\<close>, which accepts every segment and remembers it. The three-way handshake connects the two cores;
  after it, a network that loses, repeats and reorders segments is a transition system over the operations of the
  cores, and the bytes that one side receives are always a prefix of the bytes the other side sent.
\<close>

section \<open>The wire\<close>

type_synonym packet = "u32 \<times> u32 \<times> u8 list"

definition wire :: "packet list tcp_ip_tx_fn" where
  "wire w src dst seg n = (TCP_OK, (src, dst, take (unat n) seg) # w)"

text \<open>Handing a packet to the core of the destination.\<close>

definition arrive :: "packet list \<Rightarrow> packet list tcpcore_t \<Rightarrow> packet \<Rightarrow> (tcp_status_t \<times> packet list tcpcore_t ptr \<times> packet list) comp" where
  "arrive w k p = (case p of (src, dst, seg) \<Rightarrow> tcp_input w (Ref k) src dst (Ref seg) (of_nat (length seg)))"

definition conn_packet :: "tcp_conn_t \<Rightarrow> u8 \<Rightarrow> u8 list \<Rightarrow> packet" where
  "conn_packet c flags d = (c_local_ip c, remote_ip c, conn_segment c flags d)"

lemma emit_wire:
  assumes "live k i" and "ip_tx k = Ref wire" and "length d \<le> 1460" and "payload = Ref d \<or> d = []"
  obtains k' where "tcp_emit w k i flags payload (of_nat (length d)) save = Some (TCP_OK, k', conn_packet (conns k ! i) flags d # w)"
    and "live k' i" and "conns k' = (conns k)[i := tcp_sent (conns k ! i) flags d save]" and "listeners k' = listeners k"
    and "ip_tx k' = Ref wire"
proof -
  note len = tcp_len_words [OF assms(3)]
  obtain rest where e: "tcp_emit w k i flags payload (of_nat (length d)) save =
     (let c = conns k ! i; b = conn_segment c flags d @ rest;
          (st, w') = wire w (c_local_ip c) (remote_ip c) b (of_nat (20 + length d))
      in Some (st, k\<lparr>conns := (conns k)[i := tcp_sent c flags d save], scratch := b\<rparr>, w'))"
    using tcp_emit_eq [OF tcp_invD(1) [OF liveD(1) [OF assms(1)]] assms(2) liveD(2) [OF assms(1)] assms(3,4), of w flags save] by blast
  let ?k = "k\<lparr>conns := (conns k)[i := tcp_sent (conns k ! i) flags d save], scratch := conn_segment (conns k ! i) flags d @ rest\<rparr>"
  have t: "take (unat (of_nat (20 + length d) :: u32)) (conn_segment c flags d @ rest) = conn_segment c flags d" for c
    using len(1) by simp
  have eq: "tcp_emit w k i flags payload (of_nat (length d)) save = Some (TCP_OK, ?k, conn_packet (conns k ! i) flags d # w)"
    unfolding e Let_def wire_def t conn_packet_def by simp
  obtain st k' w' where l: "tcp_emit w k i flags payload (of_nat (length d)) save = Some (st, k', w')" "live k' i"
    using live_emit [OF assms(1,3,4), of w flags save] by blast
  then have "live ?k i" using eq by simp
  then show ?thesis using that [OF eq] assms(2) by simp
qed

lemma emit_wire0:
  assumes "live k i" and "ip_tx k = Ref wire"
  obtains k' where "tcp_emit w k i flags NULL 0 save = Some (TCP_OK, k', conn_packet (conns k ! i) flags [] # w)"
    and "live k' i" and "conns k' = (conns k)[i := tcp_sent (conns k ! i) flags [] save]" and "listeners k' = listeners k"
    and "ip_tx k' = Ref wire"
  using emit_wire [OF assms, of "[]" NULL w flags save] by auto

text \<open>A packet that a connection emitted reaches the code that handles its segment.\<close>

lemma arrive_emitted:
  assumes "initialized k" and "length d \<le> 1460"
  shows "arrive w k (conn_packet c flags d) =
    do { f \<leftarrow> tcp_find k (c_local_ip c) (c_local_port c) (remote_ip c) (remote_port c);
         (st, k1, w1) \<leftarrow> (case f of
             NULL \<Rightarrow> tcp_unknown w k (c_local_ip c) (remote_ip c) (c_local_port c) (remote_port c) (snd_nxt c) (rcv_nxt c)
                flags (ucast (rcv_wnd c)) (of_nat (length d))
           | Ref i \<Rightarrow> tcp_known w k i (snd_nxt c) (rcv_nxt c) flags (ucast (rcv_wnd c)) d (of_nat (length d)));
         Some (st, Ref k1, w1) }"
  unfolding arrive_def conn_packet_def prod.case length_conn_segment
  using tcp_input_emitted [OF assms, of w c flags "[]"] by (simp only: append_Nil2)

section \<open>An established connection\<close>

text \<open>The connection after a segment without \<open>SYN\<close>, \<open>FIN\<close> and \<open>RST\<close>.\<close>

definition took :: "tcp_conn_t \<Rightarrow> u32 \<Rightarrow> u8 list \<Rightarrow> bool" where
  "took c seq d \<longleftrightarrow> d \<noteq> [] \<and> seq = rcv_nxt c \<and> unat (rx_len c) + length d \<le> 4096"

definition took_in :: "tcp_conn_t \<Rightarrow> u32 \<Rightarrow> u8 list \<Rightarrow> tcp_conn_t" where
  "took_in c seq d =
     (if took c seq d
      then c\<lparr>rx_buf := take (unat (rx_len c)) (rx_buf c) @ d @ drop (unat (rx_len c) + length d) (rx_buf c),
             rx_len := rx_len c + of_nat (length d), rcv_nxt := rcv_nxt c + of_nat (length d)\<rparr>
      else c)"

lemma tcp_acked_keeps:
  "rx_len (tcp_acked c a v) = rx_len c" "rx_buf (tcp_acked c a v) = rx_buf c" "rcv_nxt (tcp_acked c a v) = rcv_nxt c"
  "snd_nxt (tcp_acked c a v) = snd_nxt c" "used (tcp_acked c a v) = used c" "waiting p (tcp_acked c a v) = waiting p c"
  "conn_ok (tcp_acked c a v) = conn_ok c" "tx_buf (tcp_acked c a v) = tx_buf c" "tx_len (tcp_acked c a v) = tx_len c"
  "c_local_ip (tcp_acked c a v) = c_local_ip c" "remote_ip (tcp_acked c a v) = remote_ip c"
  "c_local_port (tcp_acked c a v) = c_local_port c" "remote_port (tcp_acked c a v) = remote_port c"
  "rcv_wnd (tcp_acked c a v) = rcv_wnd c" "tx_end_seq (tcp_acked c a v) = tx_end_seq c"
  "cstate (tcp_acked c a v) = (if cstate c = SYN_RCVD then ESTABLISHED else cstate c)"
  by (simp_all add: tcp_acked_def waiting_key conn_ok_key)

lemma sent_ack: "tcp_sent c TCP_ACK [] False = c"
  by (simp add: tcp_sent_def tcp_advance_def)

lemma finish_established: "live k i \<Longrightarrow> cstate (conns k ! i) = ESTABLISHED \<Longrightarrow> tcp_finish k i = Some k"
  unfolding tcp_finish_def liveD(6) bind.bind_lunit Let_def by (simp add: liveD(7))

lemma deliver_eq:
  assumes l: "live k i" and wi: "ip_tx k = Ref wire" and d: "length d \<le> 1460" and n: "d \<noteq> []"
  obtains k' where "tcp_deliver w k i seq d (of_nat (length d)) = Some (None, k', conn_packet (took_in (conns k ! i) seq d) TCP_ACK [] # w)"
    and "live k' i" and "conns k' = (conns k)[i := took_in (conns k ! i) seq d]" and "listeners k' = listeners k" and "ip_tx k' = Ref wire"
proof -
  note ld = liveD [OF l]
  let ?c = "conns k ! i" and ?p = "of_nat (length d) :: u32"
  have u: "unat ?p = length d" by (rule tcp_len_words(2) [OF d])
  have nz: "?p \<noteq> 0" using u n by (metis length_0_conv unat_0)
  have rx: "length (rx_buf ?c) = 4096" "unat (rx_len ?c) \<le> 4096" using ld(4) by (simp_all add: conn_ok_def word_le_nat_alt)
  have sum: "unat (rx_len ?c + ?p) = unat (rx_len ?c) + length d" using rx(2) d u by (subst unat_add_less) simp_all
  have t: "seq = rcv_nxt ?c \<and> rx_len ?c + ?p \<le> 4096 \<longleftrightarrow> took ?c seq d" using sum n by (simp add: took_def word_le_nat_alt)
  define c2 where "c2 = took_in ?c seq d"
  define k1 where "k1 = k\<lparr>conns := (conns k)[i := c2]\<rparr>"
  have same: "k\<lparr>conns := (conns k)[i := ?c]\<rparr> = k" by simp
  have ok2: "conn_ok c2"
    using ld(4) sum rx by (auto simp: c2_def took_in_def conn_ok_def took_def word_le_nat_alt)
  have l1: "live k1 i" unfolding k1_def
    by (rule live_upd [OF l ok2]) (use ld(5) in \<open>simp_all add: c2_def took_in_def waiting_key\<close>)
  have step: "(if seq = rcv_nxt ?c \<and> rx_len ?c + ?p \<le> 4096
      then do { b \<leftarrow> c_memcpy (rx_buf ?c) (unat (rx_len ?c)) d (unat ?p);
                set_conn k i (?c\<lparr>rx_buf := b, rx_len := rx_len ?c + ?p, rcv_nxt := rcv_nxt ?c + ?p\<rparr>) }
      else Some k) = Some k1"
  proof (cases "took ?c seq d")
    case True
    then have "c_memcpy (rx_buf ?c) (unat (rx_len ?c)) d (unat ?p) =
        Some (take (unat (rx_len ?c)) (rx_buf ?c) @ d @ drop (unat (rx_len ?c) + length d) (rx_buf ?c))"
      using rx u by (simp add: c_memcpy_def took_def)
    then show ?thesis unfolding t if_P [OF True] using True by (simp add: ld(7) k1_def c2_def took_in_def)
  next
    case False
    then show ?thesis unfolding t if_not_P [OF False] using same by (simp add: k1_def c2_def took_in_def)
  qed
  have c1: "conns k1 ! i = c2" using ld(2,3) by (simp add: k1_def)
  obtain k' where e: "tcp_emit w k1 i TCP_ACK NULL 0 False = Some (TCP_OK, k', conn_packet (conns k1 ! i) TCP_ACK [] # w)"
      "live k' i" "conns k' = (conns k1)[i := tcp_sent (conns k1 ! i) TCP_ACK [] False]" "listeners k' = listeners k1" "ip_tx k' = Ref wire"
    by (rule emit_wire0 [OF l1]) (use wi in \<open>simp add: k1_def\<close>)
  show ?thesis
  proof (rule that [folded c2_def])
    show "tcp_deliver w k i seq d ?p = Some (None, k', conn_packet c2 TCP_ACK [] # w)"
      unfolding tcp_deliver_def if_not_P [OF nz] ld(6) bind.bind_lunit step e(1) c1 by simp
    show "conns k' = (conns k)[i := c2]" using e(3) c1 by (simp add: sent_ack k1_def)
    show "listeners k' = listeners k" using e(4) by (simp add: k1_def)
  qed (fact e(2), fact e(5))
qed

text \<open>A core with a single connection.\<close>

definition solo :: "packet list tcpcore_t \<Rightarrow> nat \<Rightarrow> bool" where
  "solo k i \<longleftrightarrow> live k i \<and> ip_tx k = Ref wire \<and> (\<forall>j < 8. j \<noteq> i \<longrightarrow> \<not> used (conns k ! j))"

lemma solo_update:
  assumes "solo k i" and "live k' i" and "conns k' = (conns k)[i := c]" and "ip_tx k' = Ref wire"
  shows "solo k' i" and "conns k' ! i = c"
  using assms liveD(2,3) [of k i] by (auto simp: solo_def)

text \<open>\<open>e\<close> is the other end of connection \<open>c\<close>.\<close>

definition peer :: "tcp_conn_t \<Rightarrow> tcp_conn_t \<Rightarrow> bool" where
  "peer c e \<longleftrightarrow> remote_ip c = c_local_ip e \<and> remote_port c = c_local_port e \<and> c_local_port c = remote_port e \<and>
     c_local_ip c = remote_ip e"

lemma find_solo:
  assumes "solo k i" and "peer (conns k ! i) e"
  shows "tcp_find k (c_local_ip e) (c_local_port e) (remote_ip e) (remote_port e) = Some (Ref i)"
proof -
  have l: "live k i" using assms(1) by (simp add: solo_def)
  have m: "conn_matches (c_local_ip e) (c_local_port e) (remote_ip e) (remote_port e) (conns k ! i)"
    using assms(2) liveD(5) [OF l] by (simp add: conn_matches_def peer_def)
  have "first_index (conn_matches (c_local_ip e) (c_local_port e) (remote_ip e) (remote_port e)) (conns k) = Some i"
    using assms(1) liveD(2,3) [OF l] m
    by (intro first_index_unique) (auto simp: solo_def conn_matches_def)
  then show ?thesis by (simp add: find_eq [OF liveD(3) [OF l]] to_ptr_def)
qed

lemma took_in_keeps:
  "cstate (took_in c s d) = cstate c" "used (took_in c s d) = used c" "c_local_ip (took_in c s d) = c_local_ip c"
  "remote_ip (took_in c s d) = remote_ip c" "c_local_port (took_in c s d) = c_local_port c"
  "remote_port (took_in c s d) = remote_port c" "snd_nxt (took_in c s d) = snd_nxt c" "snd_una (took_in c s d) = snd_una c"
  "tx_pending (took_in c s d) = tx_pending c" "tx_buf (took_in c s d) = tx_buf c" "tx_len (took_in c s d) = tx_len c"
  "tx_end_seq (took_in c s d) = tx_end_seq c" "rcv_wnd (took_in c s d) = rcv_wnd c" "took_in c s [] = c"
  by (simp_all add: took_in_def took_def)

lemma receive_est:
  assumes l: "live k i" and wi: "ip_tx k = Ref wire" and est: "cstate (conns k ! i) = ESTABLISHED"
    and fin: "flags AND TCP_FIN = 0" and d: "length d \<le> 1460"
  obtains k' where "tcp_receive w k i seq flags d (of_nat (length d)) =
      Some (TCP_OK, k', if d = [] then w else conn_packet (took_in (conns k ! i) seq d) TCP_ACK [] # w)"
    and "live k' i" and "conns k' = (conns k)[i := took_in (conns k ! i) seq d]" and "listeners k' = listeners k" and "ip_tx k' = Ref wire"
proof (cases "d = []")
  case True
  have "tcp_receive w k i seq flags d (of_nat (length d)) = Some (TCP_OK, k, w)"
    unfolding tcp_receive_def liveD(6) [OF l] bind.bind_lunit
    using True est fin finish_established [OF l est] by (simp add: receiving_def tcp_deliver_def)
  then show ?thesis using that [of k] True l wi by (simp add: took_in_keeps)
next
  case False
  obtain k' where e: "tcp_deliver w k i seq d (of_nat (length d)) = Some (None, k', conn_packet (took_in (conns k ! i) seq d) TCP_ACK [] # w)"
      "live k' i" "conns k' = (conns k)[i := took_in (conns k ! i) seq d]" "listeners k' = listeners k" "ip_tx k' = Ref wire"
    by (rule deliver_eq [OF l wi d False])
  have est': "cstate (conns k' ! i) = ESTABLISHED" using e(3) est liveD(2,3) [OF l] by (simp add: took_in_keeps)
  have r: "receiving (conns k ! i)" using est by (simp add: receiving_def)
  have nf: "\<not> flags AND TCP_FIN \<noteq> 0" using fin by simp
  have "tcp_receive w k i seq flags d (of_nat (length d)) = Some (TCP_OK, k', conn_packet (took_in (conns k ! i) seq d) TCP_ACK [] # w)"
    unfolding tcp_receive_def liveD(6) [OF l] bind.bind_lunit if_P [OF r] e(1) prod.case option.case if_not_P [OF nf]
      finish_established [OF e(2) est'] ..
  then show ?thesis using that [of k'] False e by simp
qed

lemma arrive_est:
  assumes s: "solo k i" and est: "cstate (conns k ! i) = ESTABLISHED" and p: "peer (conns k ! i) e"
    and fl: "flags = TCP_ACK \<or> flags = TCP_ACK OR TCP_PSH" and d: "length d \<le> 1460"
  obtains k' c where "c = took_in (tcp_acked (conns k ! i) (rcv_nxt e) (ucast (rcv_wnd e))) (snd_nxt e) d"
    and "arrive w k (conn_packet e flags d) = Some (TCP_OK, Ref k', if d = [] then w else conn_packet c TCP_ACK [] # w)"
    and "solo k' i" and "conns k' = (conns k)[i := c]" and "listeners k' = listeners k"
proof -
  have l: "live k i" and wi: "ip_tx k = Ref wire" using s by (simp_all add: solo_def)
  note ld = liveD [OF l]
  let ?c = "conns k ! i" and ?v = "ucast (rcv_wnd e) :: u16"
  let ?k = "k\<lparr>conns := (conns k)[i := tcp_acked ?c (rcv_nxt e) ?v]\<rparr>"
  have l1: "live ?k i" using ld(4,5) by (intro live_upd l) (simp_all add: tcp_acked_keeps)
  have c1: "conns ?k ! i = tcp_acked ?c (rcv_nxt e) ?v" using ld(2,3) by simp
  have est1: "cstate (conns ?k ! i) = ESTABLISHED" unfolding c1 using est by (simp add: tcp_acked_keeps)
  have fin: "flags AND TCP_FIN = 0" "flags AND TCP_RST = 0" "flags AND TCP_ACK \<noteq> 0" using fl by auto
  have wi1: "ip_tx ?k = Ref wire" using wi by simp
  obtain k' where r: "tcp_receive w ?k i (snd_nxt e) flags d (of_nat (length d)) =
      Some (TCP_OK, k', if d = [] then w else conn_packet (took_in (conns ?k ! i) (snd_nxt e) d) TCP_ACK [] # w)"
    "live k' i" "conns k' = (conns ?k)[i := took_in (conns ?k ! i) (snd_nxt e) d]" "listeners k' = listeners ?k" "ip_tx k' = Ref wire"
    by (rule receive_est [OF l1 wi1 est1 fin(1) d])
  have known: "tcp_known w k i (snd_nxt e) (rcv_nxt e) flags ?v d (of_nat (length d)) =
      tcp_receive w ?k i (snd_nxt e) flags d (of_nat (length d))"
    unfolding tcp_known_def ld(6,7) bind.bind_lunit using est fin by simp
  have ini: "initialized k" using tables_okD(1) [OF tcp_invD(1) [OF ld(1)]] .
  show ?thesis
  proof (rule that [OF refl])
    show "arrive w k (conn_packet e flags d) = Some (TCP_OK, Ref k', if d = [] then w else
        conn_packet (took_in (tcp_acked ?c (rcv_nxt e) ?v) (snd_nxt e) d) TCP_ACK [] # w)"
      unfolding arrive_emitted [OF ini d] find_solo [OF s p] bind.bind_lunit ptr.case known r(1) c1 by simp
    show cs: "conns k' = (conns k)[i := took_in (tcp_acked ?c (rcv_nxt e) ?v) (snd_nxt e) d]" using r(3) c1 by simp
    show "solo k' i" by (rule solo_update(1) [OF s r(2) cs r(5)])
    show "listeners k' = listeners k" using r(4) by simp
  qed
qed

section \<open>The three-way handshake\<close>

lemma first_index_set:
  assumes "first_index P xs = None" and "i < length xs" and "P y"
  shows "first_index P (xs[i := y]) = Some i"
  using assms by (intro first_index_unique) (auto simp: first_index_None_iff nth_list_update split: if_splits)

lemma find_none: "length (conns k) = 8 \<Longrightarrow> tcp_find k a b c d = Some NULL \<longleftrightarrow> first_index (conn_matches a b c d) (conns k) = None"
  by (simp add: find_eq to_ptr_def split: option.split)

lemma find_new:
  assumes "tcp_find k a p b q = Some NULL" and "length (conns k) = 8" and "conns k' = (conns k)[i := c]" and "i < 8"
    and "conn_matches a p b q c"
  shows "tcp_find k' a p b q = Some (Ref i)"
proof -
  have "first_index (conn_matches a p b q) (conns k) = None" using assms(1) find_none [OF assms(2)] by blast
  then have "first_index (conn_matches a p b q) (conns k') = Some i" using assms by (simp add: first_index_set)
  then show ?thesis using assms(2,3) by (simp add: find_eq to_ptr_def)
qed

lemma alloc_slot: "length (conns k) = 8 \<Longrightarrow> tcp_alloc_conn k = Some (Ref i) \<Longrightarrow> i < 8 \<and> \<not> used (conns k ! i)"
  by (auto simp: alloc_eq to_ptr_def dest: first_index_SomeD split: option.splits)

text \<open>The connection that \<open>tcp_connect\<close> opens.\<close>

definition syn_conn :: "u32 \<Rightarrow> u16 \<Rightarrow> u32 \<Rightarrow> u16 \<Rightarrow> u32 \<Rightarrow> tcp_conn_t" where
  "syn_conn lip lport rip rport isn = zero_conn\<lparr>used := True, is_passive := False, cstate := SYN_SENT,
     c_local_ip := lip, remote_ip := rip, c_local_port := lport, remote_port := rport,
     iss := isn, snd_una := isn, snd_nxt := isn, rcv_nxt := 0, rcv_wnd := 4096, snd_wnd := 4096,
     mss := 1460, rto := TCP_INITIAL_RTO, rto_timer := TCP_INITIAL_RTO\<rparr>"

lemma connect_sends_syn:
  assumes inv: "tcp_inv k" and wi: "ip_tx k = Ref wire" and ports: "lport \<noteq> 0" "rport \<noteq> 0" "rip \<noteq> 0"
    and f: "tcp_find k rip rport lip lport = Some NULL" and a: "tcp_alloc_conn k = Some (Ref i)"
  obtains k' isn where "tcp_connect w (Ref k) lip lport rip rport =
      Some (tcp_conn_id i, Ref k', conn_packet (syn_conn lip lport rip rport isn) TCP_SYN [] # w)"
    and "live k' i" and "conns k' = (conns k)[i := tcp_sent (syn_conn lip lport rip rport isn) TCP_SYN [] True]"
    and "ip_tx k' = Ref wire" and "listeners k' = listeners k"
proof -
  note ok = tables_okD [OF tcp_invD(1) [OF inv]]
  have i: "i < 8" "\<not> used (conns k ! i)" using alloc_slot [OF ok(2) a] by simp_all
  obtain isn s where isn: "tcp_next_isn k = (isn, k\<lparr>iss_seed := s\<rparr>)" using next_isn_eq by blast
  let ?c = "syn_conn lip lport rip rport isn"
  let ?k = "k\<lparr>iss_seed := s, conns := (conns k)[i := ?c]\<rparr>"
  have "conn_ok ?c" "\<And>p. \<not> waiting p ?c" "\<And>p. \<not> waiting p (conns k ! i)" "used ?c"
    using i(2) by (simp_all add: syn_conn_def conn_ok_def zero_conn_def waiting_def)
  then have l: "live ?k i"
    using tcp_inv_upd [OF tcp_inv_seed [OF inv, of s] i(1), of ?c] i(1) ok(2) by (simp add: live_def)
  have wi1: "ip_tx ?k = Ref wire" using wi by simp
  obtain k' where e: "tcp_emit w ?k i TCP_SYN NULL 0 True = Some (TCP_OK, k', conn_packet (conns ?k ! i) TCP_SYN [] # w)"
      "live k' i" "conns k' = (conns ?k)[i := tcp_sent (conns ?k ! i) TCP_SYN [] True]" "listeners k' = listeners ?k" "ip_tx k' = Ref wire"
    by (rule emit_wire0 [OF l wi1])
  have ci: "conns ?k ! i = ?c" using i(1) ok(2) by simp
  show ?thesis
  proof (rule that)
    show "tcp_connect w (Ref k) lip lport rip rport = Some (tcp_conn_id i, Ref k', conn_packet ?c TCP_SYN [] # w)"
      using ports ok(1,2) i(1) e(1) unfolding tcp_connect_def ptr.case f a isn bind.bind_lunit prod.case Let_def syn_conn_def [symmetric]
      by (simp add: ci)
    show "conns k' = (conns k)[i := tcp_sent ?c TCP_SYN [] True]" using e(3) ci by simp
  qed (use e in simp_all)
qed

text \<open>The connection that a listener opens for a \<open>SYN\<close>.\<close>

definition synack_conn :: "u32 \<Rightarrow> u16 \<Rightarrow> u32 \<Rightarrow> u16 \<Rightarrow> u32 \<Rightarrow> u16 \<Rightarrow> u32 \<Rightarrow> tcp_conn_t" where
  "synack_conn lip lport rip rport seq win isn = zero_conn\<lparr>used := True, is_passive := True, accepted := False,
     cstate := SYN_RCVD, c_local_ip := lip, remote_ip := rip, c_local_port := lport,
     remote_port := rport, iss := isn, irs := seq, snd_una := isn, snd_nxt := isn,
     rcv_nxt := seq + 1, rcv_wnd := 4096, snd_wnd := ucast win, mss := 1460, rto := TCP_INITIAL_RTO\<rparr>"

lemma passive_open_sends_synack:
  assumes inv: "tcp_inv k" and wi: "ip_tx k = Ref wire"
    and f: "tcp_find_listener k lport = Some (Ref m)" and room: "pending (listeners k ! m) < backlog (listeners k ! m)"
    and a: "tcp_alloc_conn k = Some (Ref j)"
  obtains k' isn where "tcp_passive_open w k lip lport rip rport seq win =
      Some (TCP_OK, k', conn_packet (synack_conn lip lport rip rport seq win isn) (TCP_SYN OR TCP_ACK) [] # w)"
    and "live k' j" and "conns k' = (conns k)[j := tcp_sent (synack_conn lip lport rip rport seq win isn) (TCP_SYN OR TCP_ACK) [] True]"
    and "ip_tx k' = Ref wire"
proof -
  note ok = tables_okD [OF tcp_invD(1) [OF inv]]
  have j: "j < 8" "\<not> used (conns k ! j)" using alloc_slot [OF ok(2) a] by simp_all
  have fm: "first_index (listener_for lport) (listeners k) = Some m"
    using f ok(3) by (auto simp: find_listener_eq to_ptr_def split: option.splits)
  have m: "m < 4" using first_index_SomeD(1) [OF fm] ok(3) by simp
  obtain isn s where isn: "tcp_next_isn k = (isn, k\<lparr>iss_seed := s\<rparr>)" using next_isn_eq by blast
  let ?c = "synack_conn lip lport rip rport seq win isn" and ?x = "listeners k ! m"
  let ?ls = "(listeners k)[m := ?x\<lparr>pending := pending ?x + 1\<rparr>]"
  let ?k = "k\<lparr>iss_seed := s, conns := (conns k)[j := ?c], listeners := ?ls\<rparr>"
  have eq: "tcp_passive_open w k lip lport rip rport seq win = tcp_emit w ?k j (TCP_SYN OR TCP_ACK) NULL 0 True"
    unfolding tcp_passive_open_def f a isn bind.bind_lunit ptr.case prod.case Let_def synack_conn_def [symmetric]
    using m j(1) ok(2,3) room leD [OF _, of "pending ?x"] by (auto simp: not_le)
  obtain st k0 w0 where g: "tcp_emit w ?k j (TCP_SYN OR TCP_ACK) NULL 0 True = Some (st, k0, w0)" "tcp_inv k0"
    using tcp_passive_open_good [OF inv, of w lip lport rip rport seq win] unfolding eq good_step_def by blast
  have "conn_ok ?c" by (simp add: synack_conn_def conn_ok_def zero_conn_def)
  then have t: "tables_ok ?k" using tcp_invD(1) [OF inv] by (simp add: tables_ok_def list_all_update)
  have ci: "conns ?k ! j = ?c" using j(1) ok(2) by simp
  have wi1: "ip_tx ?k = Ref wire" using wi by simp
  obtain rest where e: "tcp_emit w ?k j (TCP_SYN OR TCP_ACK) NULL 0 True =
     (let c = conns ?k ! j; b = conn_segment c (TCP_SYN OR TCP_ACK) [] @ rest;
          (st, w') = wire w (c_local_ip c) (remote_ip c) b 20
      in Some (st, ?k\<lparr>conns := (conns ?k)[j := tcp_sent c (TCP_SYN OR TCP_ACK) [] True], scratch := b\<rparr>, w'))"
    using tcp_emit_eq [OF t wi1 j(1), of "[]" NULL w "TCP_SYN OR TCP_ACK" True] by auto
  let ?k' = "?k\<lparr>conns := (conns ?k)[j := tcp_sent ?c (TCP_SYN OR TCP_ACK) [] True], scratch := conn_segment ?c (TCP_SYN OR TCP_ACK) [] @ rest\<rparr>"
  have e': "tcp_emit w ?k j (TCP_SYN OR TCP_ACK) NULL 0 True = Some (TCP_OK, ?k', conn_packet ?c (TCP_SYN OR TCP_ACK) [] # w)"
    unfolding e Let_def wire_def ci conn_packet_def by simp
  then have "tcp_inv ?k'" using g by simp
  then have "live ?k' j" using j(1) ok(2) by (simp add: live_def synack_conn_def)
  then show ?thesis using that [OF eq [unfolded e']] wi by simp
qed

definition in_step :: "tcp_conn_t \<Rightarrow> tcp_conn_t \<Rightarrow> bool" where
  "in_step c e \<longleftrightarrow> cstate c = ESTABLISHED \<and> cstate e = ESTABLISHED \<and> peer c e \<and> snd_nxt c = rcv_nxt e \<and> snd_nxt e = rcv_nxt c \<and>
     snd_una c = snd_nxt c \<and> snd_una e = snd_nxt e \<and> \<not> tx_pending c \<and> \<not> tx_pending e \<and> rx_len c = 0 \<and> rx_len e = 0"

lemma sent_keeps [simp]:
  "cstate (tcp_sent c f d s) = cstate c" "iss (tcp_sent c f d s) = iss c" "c_local_ip (tcp_sent c f d s) = c_local_ip c"
  "remote_ip (tcp_sent c f d s) = remote_ip c" "c_local_port (tcp_sent c f d s) = c_local_port c"
  "remote_port (tcp_sent c f d s) = remote_port c" "rcv_nxt (tcp_sent c f d s) = rcv_nxt c"
  "snd_una (tcp_sent c f d s) = snd_una c" "rx_len (tcp_sent c f d s) = rx_len c" "rx_buf (tcp_sent c f d s) = rx_buf c"
  "rcv_wnd (tcp_sent c f d s) = rcv_wnd c" "is_passive (tcp_sent c f d s) = is_passive c" "accepted (tcp_sent c f d s) = accepted c"
  "snd_nxt (tcp_sent c f d s) = tcp_advance (snd_nxt c) (of_nat (length d)) f"
  by (simp_all add: tcp_sent_def Let_def)

lemma answer_synack:
  assumes l: "live k i" and wi: "ip_tx k = Ref wire" and c: "conns k ! i = tcp_sent (syn_conn lip lport rip rport isn) TCP_SYN [] True"
    and f: "tcp_find k rip rport lip lport = Some (Ref i)" and e: "e = synack_conn rip rport lip lport isn win isn2"
  obtains k' c' where "arrive w k (conn_packet e (TCP_SYN OR TCP_ACK) []) = Some (TCP_OK, Ref k', conn_packet c' TCP_ACK [] # w)"
    and "live k' i" and "conns k' = (conns k)[i := c']" and "ip_tx k' = Ref wire"
    and "c' = (conns k ! i)\<lparr>snd_una := isn + 1, snd_wnd := 4096, irs := isn2, rcv_nxt := isn2 + 1, cstate := ESTABLISHED, tx_pending := False\<rparr>"
proof -
  note ld = liveD [OF l]
  let ?c = "conns k ! i"
  define c1 where "c1 = ?c\<lparr>snd_una := isn + 1, snd_wnd := 4096, irs := isn2, rcv_nxt := isn2 + 1, cstate := ESTABLISHED, tx_pending := False\<rparr>"
  have l1: "live (k\<lparr>conns := (conns k)[i := c1]\<rparr>) i"
    using ld(4,5) by (intro live_upd l) (simp_all add: c1_def conn_ok_key waiting_key)
  have wi1: "ip_tx (k\<lparr>conns := (conns k)[i := c1]\<rparr>) = Ref wire" using wi by simp
  have c1i: "conns (k\<lparr>conns := (conns k)[i := c1]\<rparr>) ! i = c1" using ld(2,3) by simp
  obtain k' where em: "tcp_emit w (k\<lparr>conns := (conns k)[i := c1]\<rparr>) i TCP_ACK NULL 0 False = Some (TCP_OK, k', conn_packet c1 TCP_ACK [] # w)"
      "live k' i" "conns k' = (conns (k\<lparr>conns := (conns k)[i := c1]\<rparr>))[i := tcp_sent c1 TCP_ACK [] False]" "ip_tx k' = Ref wire"
    using emit_wire0 [OF l1 wi1, of w TCP_ACK False] unfolding c1i by metis
  have f': "tcp_find k (c_local_ip e) (c_local_port e) (remote_ip e) (remote_port e) = Some (Ref i)"
    using f by (simp add: e synack_conn_def)
  have st: "cstate ?c = SYN_SENT" "iss ?c = isn" unfolding c by (simp_all add: syn_conn_def)
  have ee: "rcv_nxt e = isn + 1" "snd_nxt e = isn2" "ucast (ucast (rcv_wnd e) :: u16) = (4096 :: u32)"
    by (simp_all add: e synack_conn_def)
  have kn: "tcp_known w k i (snd_nxt e) (rcv_nxt e) (TCP_SYN OR TCP_ACK) (ucast (rcv_wnd e)) [] 0 = Some (TCP_OK, k', conn_packet c1 TCP_ACK [] # w)"
    unfolding tcp_known_def ld(6,7) bind.bind_lunit ee st using em(1) by (simp add: st c1_def)
  have ini: "initialized k" using tables_okD(1) [OF tcp_invD(1) [OF ld(1)]] .
  have "arrive w k (conn_packet e (TCP_SYN OR TCP_ACK) []) = Some (TCP_OK, Ref k', conn_packet c1 TCP_ACK [] # w)"
    using arrive_emitted [OF ini, of "[]" w e "TCP_SYN OR TCP_ACK"] f' kn by simp
  then show ?thesis using that em(2-4) by (simp add: c1_def sent_ack)
qed

lemma answer_ack:
  assumes l: "live k j" and wi: "ip_tx k = Ref wire" and st: "cstate (conns k ! j) = SYN_RCVD"
    and ack: "rcv_nxt e = snd_nxt (conns k ! j)"
    and f: "tcp_find k (c_local_ip e) (c_local_port e) (remote_ip e) (remote_port e) = Some (Ref j)"
  obtains k' where "arrive w k (conn_packet e TCP_ACK []) = Some (TCP_OK, Ref k', w)" and "live k' j"
    and "conns k' = (conns k)[j := (conns k ! j)\<lparr>snd_una := rcv_nxt e, cstate := ESTABLISHED, tx_pending := False\<rparr>]"
    and "ip_tx k' = Ref wire"
proof -
  note ld = liveD [OF l]
  let ?c = "conns k ! j" and ?v = "ucast (rcv_wnd e) :: u16"
  define c1 where "c1 = tcp_acked ?c (rcv_nxt e) ?v"
  let ?k = "k\<lparr>conns := (conns k)[j := c1]\<rparr>"
  have l1: "live ?k j" using ld(4,5) by (intro live_upd l) (simp_all add: c1_def tcp_acked_keeps)
  have c1i: "conns ?k ! j = c1" using ld(2,3) by simp
  have est: "cstate (conns ?k ! j) = ESTABLISHED" unfolding c1i by (simp add: c1_def tcp_acked_keeps st)
  have wi1: "ip_tx ?k = Ref wire" using wi by simp
  have r: "tcp_receive w ?k j (snd_nxt e) TCP_ACK [] 0 = Some (TCP_OK, ?k, w)"
    unfolding tcp_receive_def liveD(6) [OF l1] bind.bind_lunit using est finish_established [OF l1 est] by (simp add: receiving_def tcp_deliver_def)
  have kn: "tcp_known w k j (snd_nxt e) (rcv_nxt e) TCP_ACK ?v [] 0 = Some (TCP_OK, ?k, w)"
    unfolding tcp_known_def ld(6,7) bind.bind_lunit using st ack r by (simp add: c1_def)
  have ini: "initialized k" using tables_okD(1) [OF tcp_invD(1) [OF ld(1)]] .
  have "arrive w k (conn_packet e TCP_ACK []) = Some (TCP_OK, Ref ?k, w)"
    using arrive_emitted [OF ini, of "[]" w e TCP_ACK] f kn by simp
  then show ?thesis using that [of ?k] l1 wi1 by (simp add: c1_def tcp_acked_def st)
qed

text \<open>C2: The three-way handshake. A client core that has a free slot and no connection with the same addresses and
  ports connects to a server core that has a listener with room in its backlog and a free slot. Then \<open>tcp_connect\<close>
  sends a \<open>SYN\<close>; the server answers it with a \<open>SYN\<close>/\<open>ACK\<close>, the client answers that with an \<open>ACK\<close>, and
  when the server has received it, both ends are \<open>ESTABLISHED\<close>, know each other's next sequence number, have nothing
  left to retransmit and nothing received, and the server's connection can be accepted.\<close>

theorem tcp_handshake:
  assumes "tcp_inv k" and "ip_tx k = Ref wire" and "lport \<noteq> 0" and "rport \<noteq> 0" and "rip \<noteq> 0"
    and "tcp_find k rip rport lip lport = Some NULL" and "tcp_alloc_conn k = Some (Ref i)"
    and "tcp_inv s" and "ip_tx s = Ref wire"
    and "tcp_find_listener s rport = Some (Ref m)" and "pending (listeners s ! m) < backlog (listeners s ! m)"
    and "tcp_find s lip lport rip rport = Some NULL" and "tcp_alloc_conn s = Some (Ref j)"
  shows "\<exists>k1 k2 s1 s2 syn synack ack.
     tcp_connect [] (Ref k) lip lport rip rport = Some (tcp_conn_id i, Ref k1, [syn]) \<and>
     arrive [] s syn = Some (TCP_OK, Ref s1, [synack]) \<and>
     arrive [] k1 synack = Some (TCP_OK, Ref k2, [ack]) \<and>
     arrive [] s1 ack = Some (TCP_OK, Ref s2, []) \<and>
     live k2 i \<and> live s2 j \<and> in_step (conns k2 ! i) (conns s2 ! j) \<and> acceptable rip rport (conns s2 ! j)"
proof -
  note okk = tables_okD [OF tcp_invD(1) [OF assms(1)]] and oks = tables_okD [OF tcp_invD(1) [OF assms(8)]]
  have i: "i < 8" and j: "j < 8" using alloc_slot [OF okk(2) assms(7)] alloc_slot [OF oks(2) assms(13)] by simp_all
  obtain k1 isn where c: "tcp_connect [] (Ref k) lip lport rip rport =
      Some (tcp_conn_id i, Ref k1, conn_packet (syn_conn lip lport rip rport isn) TCP_SYN [] # [])"
      "live k1 i" "conns k1 = (conns k)[i := tcp_sent (syn_conn lip lport rip rport isn) TCP_SYN [] True]" "ip_tx k1 = Ref wire"
    by (rule connect_sends_syn [OF assms(1-7)])
  let ?a = "syn_conn lip lport rip rport isn"
  obtain s1 isn2 where p: "tcp_passive_open [] s rip rport lip lport isn (ucast (4096 :: u32)) =
      Some (TCP_OK, s1, conn_packet (synack_conn rip rport lip lport isn (ucast (4096 :: u32)) isn2) (TCP_SYN OR TCP_ACK) [] # [])"
      "live s1 j" "conns s1 = (conns s)[j := tcp_sent (synack_conn rip rport lip lport isn (ucast (4096 :: u32)) isn2) (TCP_SYN OR TCP_ACK) [] True]"
      "ip_tx s1 = Ref wire"
    by (rule passive_open_sends_synack [OF assms(8-11,13)])
  let ?b = "synack_conn rip rport lip lport isn (ucast (4096 :: u32)) isn2"
  have syn: "arrive [] s (conn_packet ?a TCP_SYN []) = Some (TCP_OK, Ref s1, [conn_packet ?b (TCP_SYN OR TCP_ACK) []])"
    using arrive_emitted [OF oks(1), of "[]" "[]" ?a TCP_SYN] assms(12) p(1)
    by (simp add: syn_conn_def tcp_unknown_def)
  have fk: "tcp_find k1 rip rport lip lport = Some (Ref i)"
    by (rule find_new [OF assms(6) okk(2) c(3) i]) (simp add: conn_matches_def syn_conn_def)
  have ck: "conns k1 ! i = tcp_sent ?a TCP_SYN [] True" using c(3) i okk(2) by simp
  obtain k2 a2 where q: "arrive [] k1 (conn_packet ?b (TCP_SYN OR TCP_ACK) []) = Some (TCP_OK, Ref k2, [conn_packet a2 TCP_ACK []])"
      "live k2 i" "conns k2 = (conns k1)[i := a2]"
      "a2 = (conns k1 ! i)\<lparr>snd_una := isn + 1, snd_wnd := 4096, irs := isn2, rcv_nxt := isn2 + 1, cstate := ESTABLISHED, tx_pending := False\<rparr>"
    by (rule answer_synack [OF c(2,4) ck fk refl])
  have cs: "conns s1 ! j = tcp_sent ?b (TCP_SYN OR TCP_ACK) [] True" using p(3) j oks(2) by simp
  have a2: "c_local_ip a2 = lip" "c_local_port a2 = lport" "remote_ip a2 = rip" "remote_port a2 = rport" "rcv_nxt a2 = isn2 + 1"
      "snd_nxt a2 = isn + 1" "snd_una a2 = isn + 1" "cstate a2 = ESTABLISHED" "\<not> tx_pending a2" "rx_len a2 = 0"
    unfolding q(4) ck by (simp_all add: syn_conn_def zero_conn_def tcp_advance_def)
  have fs: "tcp_find s1 (c_local_ip a2) (c_local_port a2) (remote_ip a2) (remote_port a2) = Some (Ref j)"
    unfolding a2 by (rule find_new [OF assms(12) oks(2) p(3) j]) (simp add: conn_matches_def synack_conn_def)
  have bs: "cstate (conns s1 ! j) = SYN_RCVD" "rcv_nxt a2 = snd_nxt (conns s1 ! j)"
    unfolding cs a2 by (simp_all add: synack_conn_def tcp_advance_def)
  obtain s2 where r: "arrive [] s1 (conn_packet a2 TCP_ACK []) = Some (TCP_OK, Ref s2, [])" "live s2 j"
      "conns s2 = (conns s1)[j := (conns s1 ! j)\<lparr>snd_una := rcv_nxt a2, cstate := ESTABLISHED, tx_pending := False\<rparr>]"
    by (rule answer_ack [OF p(2,4) bs fs])
  let ?s = "(conns s1 ! j)\<lparr>snd_una := rcv_nxt a2, cstate := ESTABLISHED, tx_pending := False\<rparr>"
  have fin: "conns k2 ! i = a2" "conns s2 ! j = ?s"
    using q(3) r(3) i j liveD(3) [OF c(2)] liveD(3) [OF p(2)] by simp_all
  have "in_step a2 ?s" "acceptable rip rport ?s"
    unfolding in_step_def peer_def acceptable_def using a2 bs(2) by (simp_all add: cs) (simp_all add: synack_conn_def zero_conn_def tcp_advance_def)
  then have "in_step (conns k2 ! i) (conns s2 ! j)" "acceptable rip rport (conns s2 ! j)" unfolding fin .
  then show ?thesis using c(1) syn q(1,2) r(1,2) by blast
qed

definition wired_core :: "packet list tcpcore_t" where
  "wired_core = \<lparr>initialized = True, local_ip = 0, iss_seed = 0x1D2B, ip_tx = Ref wire,
     conns = replicate 8 zero_conn, listeners = replicate 4 zero_listener, scratch = replicate 1480 0\<rparr>"

definition listening_core :: "packet list tcpcore_t" where
  "listening_core = wired_core\<lparr>listeners := (replicate 4 zero_listener)[0 :=
     \<lparr>l_used = True, l_local_ip = 9, l_local_port = 80, backlog = 2, pending = 0\<rparr>]\<rparr>"

lemma wired_core_inv: "tcp_inv wired_core"
  by (rule tcp_init_inv [of wired_core 0 wire]) (simp add: tcp_init_def wired_core_def)

lemma listening_core_inv: "tcp_inv listening_core"
proof -
  have "first_index (\<lambda>l. \<not> l_used l) (replicate 4 zero_listener) = Some 0"
    by (simp add: first_index_Some_iff zero_listener_def)
  moreover have "first_index (\<lambda>l. l_used l \<and> l_local_port l = 80) (replicate 4 zero_listener) = None"
    by (simp add: first_index_None_iff zero_listener_def)
  ultimately have "tcp_listen (Ref wired_core) 9 80 2 = Some (TCP_OK, Ref listening_core)"
    by (simp add: tcp_listen_def wired_core_def listening_core_def c_find_eq)
  then show ?thesis using tcp_listen_safe [OF wired_core_inv, of 9 80 2] by simp
qed

lemma wired_core_free:
  "tcp_find wired_core a p b q = Some NULL" "tcp_alloc_conn wired_core = Some (Ref 0)"
  "tcp_find listening_core a p b q = Some NULL" "tcp_alloc_conn listening_core = Some (Ref 0)"
  "tcp_find_listener listening_core 80 = Some (Ref 0)"
proof -
  have f: "first_index (conn_matches a p b q) (replicate 8 zero_conn) = None" "first_index (\<lambda>c. \<not> used c) (replicate 8 zero_conn) = Some 0"
    by (simp_all add: first_index_None_iff first_index_Some_iff conn_matches_def zero_conn_def)
  then show "tcp_find wired_core a p b q = Some NULL" "tcp_alloc_conn wired_core = Some (Ref 0)"
    "tcp_find listening_core a p b q = Some NULL" "tcp_alloc_conn listening_core = Some (Ref 0)"
    by (simp_all add: find_eq alloc_eq to_ptr_def wired_core_def listening_core_def)
  have "first_index (listener_for 80) ((replicate 4 zero_listener)[0 :=
      \<lparr>l_used = True, l_local_ip = 9, l_local_port = 80, backlog = 2, pending = 0\<rparr>]) = Some 0"
    by (simp add: first_index_Some_iff listener_for_def)
  then show "tcp_find_listener listening_core 80 = Some (Ref 0)"
    by (simp add: find_listener_eq to_ptr_def wired_core_def listening_core_def)
qed

theorem tcp_handshake_witness:
  "\<exists>k1 k2 s1 s2 syn synack ack.
     tcp_connect [] (Ref wired_core) 5 1000 9 80 = Some (tcp_conn_id 0, Ref k1, [syn]) \<and>
     arrive [] listening_core syn = Some (TCP_OK, Ref s1, [synack]) \<and>
     arrive [] k1 synack = Some (TCP_OK, Ref k2, [ack]) \<and>
     arrive [] s1 ack = Some (TCP_OK, Ref s2, []) \<and>
     live k2 0 \<and> live s2 0 \<and> in_step (conns k2 ! 0) (conns s2 ! 0) \<and> acceptable 9 80 (conns s2 ! 0)"
  by (rule tcp_handshake [OF wired_core_inv _ _ _ _ wired_core_free(1,2) listening_core_inv _ wired_core_free(5) _ wired_core_free(3,4)])
    (simp_all add: wired_core_def listening_core_def)

section \<open>A lossy network\<close>

text \<open>
  One direction of the conversation: the sending end \<open>c\<close>, the receiving end \<open>r\<close>, the bytes handed to
  \<open>tcp_send\<close> and the bytes returned by \<open>tcp_recv\<close> so far, and the sequence number \<open>b\<close> of the first byte.
\<close>

definition arrived :: "tcp_conn_t \<Rightarrow> u8 list \<Rightarrow> nat" where
  "arrived r got = length got + unat (rx_len r)"

definition dir_inv :: "u32 \<Rightarrow> tcp_conn_t \<Rightarrow> tcp_conn_t \<Rightarrow> u8 list \<Rightarrow> u8 list \<Rightarrow> bool" where
  "dir_inv b c r sent got \<longleftrightarrow>
     length sent < 2 ^ 31 \<and> arrived r got \<le> length sent \<and>
     snd_nxt c = b + of_nat (length sent) \<and> rcv_nxt r = b + of_nat (arrived r got) \<and>
     got @ take (unat (rx_len r)) (rx_buf r) = take (arrived r got) sent \<and>
     (\<exists>u. snd_una c = b + of_nat u \<and> u \<le> arrived r got) \<and>
     (if tx_pending c then tx_end_seq c = snd_nxt c else arrived r got = length sent)"

lemma dir_invD:
  assumes "dir_inv b c r sent got"
  shows "length sent < 2 ^ 31" and "arrived r got \<le> length sent" and "snd_nxt c = b + of_nat (length sent)"
    and "rcv_nxt r = b + of_nat (arrived r got)" and "got @ take (unat (rx_len r)) (rx_buf r) = take (arrived r got) sent"
    and "\<exists>u. snd_una c = b + of_nat u \<and> u \<le> arrived r got" and "tx_pending c \<Longrightarrow> tx_end_seq c = snd_nxt c"
    and "\<not> tx_pending c \<Longrightarrow> arrived r got = length sent"
  using assms unfolding dir_inv_def by (simp_all split: if_splits)

lemma of_nat_small_eq: "a < 2 ^ 31 \<Longrightarrow> n < 2 ^ 31 \<Longrightarrow> (b + of_nat a :: u32) = b + of_nat n \<longleftrightarrow> a = n"
proof -
  assume "a < 2 ^ 31" "n < 2 ^ 31"
  then have "unat (of_nat a :: u32) = a" "unat (of_nat n :: u32) = n" by (simp_all add: unat_of_nat)
  then show ?thesis by (metis add_left_cancel)
qed

text \<open>An acknowledgement of data that has arrived.\<close>

lemma dir_inv_acked:
  assumes d: "dir_inv b c r sent got" and est: "cstate c = ESTABLISHED" and a: "a \<le> arrived r got"
  shows "dir_inv b (tcp_acked c (b + of_nat a) win) r sent got"
proof -
  note di = dir_invD [OF d]
  obtain u where u: "snd_una c = b + of_nat u" "u \<le> arrived r got" using di(6) by blast
  have lt: "a < 2 ^ 31" "u < 2 ^ 31" using a u(2) di(1,2) by linarith+
  have gt: "tcp_seq_gt (b + of_nat a) (snd_una c) \<longleftrightarrow> u < a" and le: "tcp_seq_le (b + of_nat a) (snd_nxt c) \<longleftrightarrow> a \<le> length sent"
    and ge: "tx_pending c \<Longrightarrow> tcp_seq_ge (b + of_nat a) (tx_end_seq c) \<longleftrightarrow> length sent \<le> a"
    using sint_seq_diff [of a u b] sint_seq_diff [of a "length sent" b] lt di(1)
    by (auto simp: tcp_seq_gt_def tcp_seq_le_def tcp_seq_ge_def u(1) di(3,7))
  have "arrived r got = length sent" if "length sent \<le> a" using that a di(2) by linarith
  then show ?thesis using d a ge unfolding dir_inv_def tcp_acked_def est gt le by auto
qed

text \<open>A segment whose payload is a part of the stream.\<close>

definition part_of :: "u32 \<Rightarrow> u8 list \<Rightarrow> u32 \<Rightarrow> u8 list \<Rightarrow> bool" where
  "part_of b sent seq d \<longleftrightarrow> (\<exists>i. seq = b + of_nat i \<and> i + length d \<le> length sent \<and> d = take (length d) (drop i sent))"

lemma part_of_append:
  assumes "part_of b sent seq d"
  shows "part_of b (sent @ x) seq d"
proof -
  obtain i where i: "seq = b + of_nat i" "i + length d \<le> length sent" "d = take (length d) (drop i sent)"
    using assms unfolding part_of_def by blast
  have "take (length d) (drop i (sent @ x)) = take (length d) (drop i sent)" using i(2) by simp
  then show ?thesis unfolding part_of_def using i by (intro exI [of _ i]) simp
qed

lemma part_of_next: "part_of b (sent @ d) (b + of_nat (length sent)) d"
  unfolding part_of_def by (intro exI [of _ "length sent"]) simp

lemma part_of_empty: "part_of b sent (b + of_nat (length sent)) []"
  using part_of_next [of b sent "[]"] by simp

lemma dir_inv_took:
  assumes d: "dir_inv b c r sent got" and ok: "conn_ok r" and p: "part_of b sent seq x"
  shows "dir_inv b c (took_in r seq x) sent got" and "arrived r got \<le> arrived (took_in r seq x) got"
proof -
  note di = dir_invD [OF d]
  have "dir_inv b c (took_in r seq x) sent got \<and> arrived r got \<le> arrived (took_in r seq x) got"
  proof (cases "took r seq x")
    case False
    then show ?thesis using d by (simp add: took_in_def)
  next
    case True
    obtain i where i: "seq = b + of_nat i" "i + length x \<le> length sent" "x = take (length x) (drop i sent)"
      using p unfolding part_of_def by blast
    have "b + of_nat i = b + of_nat (arrived r got)" using True i(1) di(4) by (simp add: took_def)
    then have eq: "i = arrived r got" using of_nat_small_eq [of i "arrived r got" b] i(2) di(1,2) by simp
    have rx: "length (rx_buf r) = 4096" "unat (rx_len r) + length x \<le> 4096" using ok True by (simp_all add: conn_ok_def took_def)
    have "unat (of_nat (length x) :: u32) = length x" using rx(2) by (simp add: unat_of_nat)
    then have len: "unat (rx_len r + of_nat (length x)) = unat (rx_len r) + length x"
      using rx(2) by (subst unat_add_less) simp_all
    have arr: "arrived (took_in r seq x) got = arrived r got + length x" using True len by (simp add: arrived_def took_in_def)
    have pend: "tx_pending c" using di(8) True i(2) eq by (cases "tx_pending c") (auto simp: took_def)
    have buf: "take (unat (rx_len (took_in r seq x))) (rx_buf (took_in r seq x)) = take (unat (rx_len r)) (rx_buf r) @ x"
      using True len rx by (simp add: took_in_def)
    have "got @ take (unat (rx_len (took_in r seq x))) (rx_buf (took_in r seq x)) = take (arrived r got) sent @ x"
      unfolding buf using di(5) by simp
    also have "\<dots> = take (arrived r got + length x) sent" using i(3) eq by (metis take_add)
    finally have strm: "got @ take (unat (rx_len (took_in r seq x))) (rx_buf (took_in r seq x)) = take (arrived (took_in r seq x) got) sent"
      unfolding arr .
    have "rcv_nxt (took_in r seq x) = b + of_nat (arrived (took_in r seq x) got)"
      unfolding arr using True di(4) by (simp add: took_in_def)
    moreover obtain u where "snd_una c = b + of_nat u" "u \<le> arrived (took_in r seq x) got" using di(6) arr by auto
    moreover have "arrived (took_in r seq x) got \<le> length sent" unfolding arr using i(2) eq by simp
    ultimately have "dir_inv b c (took_in r seq x) sent got"
      unfolding dir_inv_def using di(1,3) di(7) [OF pend] pend strm by auto
    then show ?thesis unfolding arr by simp
  qed
  then show "dir_inv b c (took_in r seq x) sent got" "arrived r got \<le> arrived (took_in r seq x) got" by simp_all
qed

lemma dir_inv_cong:
  assumes "dir_inv b c r sent got" and "snd_nxt c' = snd_nxt c" and "snd_una c' = snd_una c" and "tx_pending c' = tx_pending c"
    and "tx_end_seq c' = tx_end_seq c" and "rx_len r' = rx_len r" and "rx_buf r' = rx_buf r" and "rcv_nxt r' = rcv_nxt r"
  shows "dir_inv b c' r' sent got" and "arrived r' got = arrived r got"
proof -
  show a: "arrived r' got = arrived r got" using assms(6) by (simp add: arrived_def)
  show "dir_inv b c' r' sent got" using assms(1) unfolding dir_inv_def a assms(2-8) .
qed

lemma dir_inv_sent:
  assumes d: "dir_inv b c r sent got" and "\<not> tx_pending c" and "length sent + length x < 2 ^ 31"
    and fl: "flags AND TCP_SYN = 0" "flags AND TCP_FIN = 0"
  shows "dir_inv b (tcp_sent c flags x True) r (sent @ x) got"
proof -
  note di = dir_invD [OF d]
  have "snd_nxt (tcp_sent c flags x True) = b + of_nat (length (sent @ x))" using di(3) fl by (simp add: tcp_advance_def)
  moreover have "tx_end_seq (tcp_sent c flags x True) = snd_nxt (tcp_sent c flags x True)" "tx_pending (tcp_sent c flags x True)"
    by (simp_all add: tcp_sent_def Let_def)
  ultimately show ?thesis using di(2,4,5,6) assms(3) unfolding dir_inv_def by auto
qed

lemma dir_inv_recv:
  assumes d: "dir_inv b c r sent got" and n: "n \<le> rx_len r" and ok: "conn_ok r"
    and rb: "take (unat (rx_len r) - unat n) rb = take (unat (rx_len r) - unat n) (drop (unat n) (rx_buf r))"
  shows "dir_inv b c (r\<lparr>rx_buf := rb, rx_len := rx_len r - n\<rparr>) sent (got @ take (unat n) (rx_buf r))"
    and "arrived (r\<lparr>rx_buf := rb, rx_len := rx_len r - n\<rparr>) (got @ take (unat n) (rx_buf r)) = arrived r got"
proof -
  have u: "unat n \<le> unat (rx_len r)" "unat (rx_len r - n) = unat (rx_len r) - unat n"
    using n by (simp_all add: word_le_nat_alt unat_sub_le [OF n])
  have len: "unat (rx_len r) \<le> length (rx_buf r)" using ok by (simp add: conn_ok_def word_le_nat_alt)
  show a: "arrived (r\<lparr>rx_buf := rb, rx_len := rx_len r - n\<rparr>) (got @ take (unat n) (rx_buf r)) = arrived r got"
    using u len by (simp add: arrived_def)
  have "take (unat n) (rx_buf r) @ take (unat (rx_len r - n)) rb = take (unat (rx_len r)) (rx_buf r)"
    unfolding u(2) rb using u(1) by (metis le_add_diff_inverse take_add)
  then show "dir_inv b c (r\<lparr>rx_buf := rb, rx_len := rx_len r - n\<rparr>) sent (got @ take (unat n) (rx_buf r))"
    using d unfolding dir_inv_def a by simp
qed

text \<open>The system: a core at each end, what each end has put on the wire, and the bytes sent and received.\<close>

record link =
  core :: "bool \<Rightarrow> packet list tcpcore_t"
  net :: "bool \<Rightarrow> packet list"
  sent :: "bool \<Rightarrow> u8 list"
  got :: "bool \<Rightarrow> u8 list"

definition change :: "link \<Rightarrow> bool \<Rightarrow> packet list tcpcore_t \<Rightarrow> packet list \<Rightarrow> u8 list \<Rightarrow> u8 list \<Rightarrow> link" where
  "change L s k w x g = \<lparr>core = (core L)(s := k), net = (net L)(s := w), sent = (sent L)(s := x), got = (got L)(s := g)\<rparr>"

inductive link_step :: "(bool \<Rightarrow> nat) \<Rightarrow> link \<Rightarrow> link \<Rightarrow> bool" for slot :: "bool \<Rightarrow> nat" where
  step_send: "tcp_send (net L s) (Ref (core L s)) (tcp_conn_id (slot s)) (Ref d) (of_nat (length d)) = Some (st, Ref k, w) \<Longrightarrow>
    length (sent L s) + length d < 2 ^ 31 \<Longrightarrow>
    link_step slot L (change L s k w (sent L s @ (if st = TCP_OK then d else [])) (got L s))"
| step_recv: "tcp_recv (Ref (core L s)) (tcp_conn_id (slot s)) (Ref b) (of_nat (length b)) (Ref 0) = Some (st, Ref k, Ref b', Ref n) \<Longrightarrow>
    length b < 2 ^ 32 \<Longrightarrow>
    link_step slot L (change L s k (net L s) (sent L s) (got L s @ (if st = TCP_OK then take (unat n) b' else [])))"
| step_tick: "tcp_tick (net L s) (Ref (core L s)) e = Some (st, Ref k, w) \<Longrightarrow>
    link_step slot L (change L s k w (sent L s) (got L s))"
| step_arrive: "p \<in> set (net L (\<not> s)) \<Longrightarrow> arrive (net L s) (core L s) p = Some (st, Ref k, w) \<Longrightarrow>
    link_step slot L (change L s k w (sent L s) (got L s))"

text \<open>
  Right after the handshake. The network starts empty: late duplicates of the three handshake segments are not
  among the segments that can arrive, and neither end calls \<open>tcp_close\<close>.
\<close>

definition link_start :: "(bool \<Rightarrow> nat) \<Rightarrow> link \<Rightarrow> bool" where
  "link_start slot L \<longleftrightarrow> (\<forall>s. solo (core L s) (slot s) \<and> net L s = [] \<and> sent L s = [] \<and> got L s = []) \<and>
     in_step (conns (core L True) ! slot True) (conns (core L False) ! slot False)"

inductive link_reach :: "(bool \<Rightarrow> nat) \<Rightarrow> link \<Rightarrow> link \<Rightarrow> bool" for slot :: "bool \<Rightarrow> nat" and L0 :: link where
  reach_start: "link_start slot L0 \<Longrightarrow> link_reach slot L0 L0"
| reach_step: "link_reach slot L0 L \<Longrightarrow> link_step slot L L' \<Longrightarrow> link_reach slot L0 L'"

definition end_of :: "(bool \<Rightarrow> nat) \<Rightarrow> link \<Rightarrow> bool \<Rightarrow> tcp_conn_t" where
  "end_of slot L s = conns (core L s) ! slot s"

definition packet_ok :: "u32 \<Rightarrow> u32 \<Rightarrow> tcp_conn_t \<Rightarrow> u8 list \<Rightarrow> nat \<Rightarrow> packet \<Rightarrow> bool" where
  "packet_ok b b' r xs n p \<longleftrightarrow>
     (\<exists>e flags d. p = conn_packet e flags d \<and> peer r e \<and> (flags = TCP_ACK \<or> flags = TCP_ACK OR TCP_PSH) \<and> length d \<le> 1460 \<and>
        part_of b xs (snd_nxt e) d \<and> (\<exists>a. rcv_nxt e = b' + of_nat a \<and> a \<le> n))"

lemma packet_ok_mono: "packet_ok b b' r xs n p \<Longrightarrow> n \<le> n' \<Longrightarrow> packet_ok b b' r (xs @ ys) n' p"
proof -
  assume "packet_ok b b' r xs n p" and le: "n \<le> n'"
  then obtain e flags d a where "p = conn_packet e flags d" "peer r e" "flags = TCP_ACK \<or> flags = TCP_ACK OR TCP_PSH" "length d \<le> 1460"
      "part_of b xs (snd_nxt e) d" "rcv_nxt e = b' + of_nat a" "a \<le> n"
    unfolding packet_ok_def by blast
  then show ?thesis unfolding packet_ok_def using le part_of_append [of b xs "snd_nxt e" d ys] le_trans [of a n n'] by blast
qed

lemma packet_ok_peer: "packet_ok b b' r xs n p \<Longrightarrow> (\<And>e. peer r' e = peer r e) \<Longrightarrow> packet_ok b b' r' xs n p"
  unfolding packet_ok_def by simp

definition saved_packet :: "tcp_conn_t \<Rightarrow> packet" where
  "saved_packet c = (c_local_ip c, remote_ip c, take (unat (tx_len c)) (tx_buf c))"

definition link_inv :: "(bool \<Rightarrow> nat) \<Rightarrow> (bool \<Rightarrow> u32) \<Rightarrow> link \<Rightarrow> bool" where
  "link_inv slot b L \<longleftrightarrow> (\<forall>s.
     solo (core L s) (slot s) \<and> cstate (end_of slot L s) = ESTABLISHED \<and> peer (end_of slot L s) (end_of slot L (\<not> s)) \<and>
     dir_inv (b s) (end_of slot L s) (end_of slot L (\<not> s)) (sent L s) (got L (\<not> s)) \<and>
     (tx_pending (end_of slot L s) \<longrightarrow> saved_packet (end_of slot L s) \<in> set (net L s)) \<and>
     (\<forall>p \<in> set (net L s). packet_ok (b s) (b (\<not> s)) (end_of slot L (\<not> s)) (sent L s) (arrived (end_of slot L s) (got L s)) p))"

lemma link_invD:
  assumes "link_inv slot b L"
  shows "solo (core L s) (slot s)" and "cstate (end_of slot L s) = ESTABLISHED" and "peer (end_of slot L s) (end_of slot L (\<not> s))"
    and "dir_inv (b s) (end_of slot L s) (end_of slot L (\<not> s)) (sent L s) (got L (\<not> s))"
    and "tx_pending (end_of slot L s) \<Longrightarrow> saved_packet (end_of slot L s) \<in> set (net L s)"
    and "p \<in> set (net L s) \<Longrightarrow> packet_ok (b s) (b (\<not> s)) (end_of slot L (\<not> s)) (sent L s) (arrived (end_of slot L s) (got L s)) p"
    and "live (core L s) (slot s)" and "conn_ok (end_of slot L s)"
    and "dir_inv (b (\<not> s)) (end_of slot L (\<not> s)) (end_of slot L s) (sent L (\<not> s)) (got L s)"
proof -
  show so: "solo (core L s) (slot s)" using assms unfolding link_inv_def by blast
  then show "live (core L s) (slot s)" by (simp add: solo_def)
  then show "conn_ok (end_of slot L s)" by (simp add: liveD(4) end_of_def)
  show "cstate (end_of slot L s) = ESTABLISHED" "peer (end_of slot L s) (end_of slot L (\<not> s))"
    "dir_inv (b s) (end_of slot L s) (end_of slot L (\<not> s)) (sent L s) (got L (\<not> s))"
    "tx_pending (end_of slot L s) \<Longrightarrow> saved_packet (end_of slot L s) \<in> set (net L s)"
    "p \<in> set (net L s) \<Longrightarrow> packet_ok (b s) (b (\<not> s)) (end_of slot L (\<not> s)) (sent L s) (arrived (end_of slot L s) (got L s)) p"
    using assms unfolding link_inv_def by blast+
  show "dir_inv (b (\<not> s)) (end_of slot L (\<not> s)) (end_of slot L s) (sent L (\<not> s)) (got L s)"
    using assms unfolding link_inv_def by (elim allE [of _ "\<not> s"]) simp
qed

text \<open>A step at side \<open>s\<close> keeps the invariant when the new end of \<open>s\<close> fits both directions.\<close>

lemma link_inv_change:
  assumes inv: "link_inv slot b L" and so: "solo k (slot s)" and c: "c = conns k ! slot s"
    and est: "cstate c = ESTABLISHED" and addr: "\<And>e. peer c e = peer (end_of slot L s) e" "\<And>e. peer e c = peer e (end_of slot L s)"
    and out: "dir_inv (b s) c (end_of slot L (\<not> s)) x (got L (\<not> s))"
    and into: "dir_inv (b (\<not> s)) (end_of slot L (\<not> s)) c (sent L (\<not> s)) g"
    and pend: "tx_pending c \<Longrightarrow> saved_packet c \<in> set w"
    and pkts: "\<And>p. p \<in> set w \<Longrightarrow> packet_ok (b s) (b (\<not> s)) (end_of slot L (\<not> s)) x (arrived c g) p"
  shows "link_inv slot b (change L s k w x g)"
proof -
  let ?L = "change L s k w x g"
  have this_end: "end_of slot ?L s = c" "core ?L s = k" "net ?L s = w" "sent ?L s = x" "got ?L s = g"
    by (simp_all add: end_of_def change_def c)
  have other: "end_of slot ?L (\<not> s) = end_of slot L (\<not> s)" "core ?L (\<not> s) = core L (\<not> s)" "net ?L (\<not> s) = net L (\<not> s)"
      "sent ?L (\<not> s) = sent L (\<not> s)" "got ?L (\<not> s) = got L (\<not> s)"
    by (simp_all add: end_of_def change_def)
  have nn: "(\<not> \<not> s) = s" by simp
  note i = link_invD [OF inv, where s = "\<not> s", unfolded nn]
  define good where "good t \<longleftrightarrow> solo (core ?L t) (slot t) \<and> cstate (end_of slot ?L t) = ESTABLISHED \<and> peer (end_of slot ?L t) (end_of slot ?L (\<not> t)) \<and>
     dir_inv (b t) (end_of slot ?L t) (end_of slot ?L (\<not> t)) (sent ?L t) (got ?L (\<not> t)) \<and>
     (tx_pending (end_of slot ?L t) \<longrightarrow> saved_packet (end_of slot ?L t) \<in> set (net ?L t)) \<and>
     (\<forall>p \<in> set (net ?L t). packet_ok (b t) (b (\<not> t)) (end_of slot ?L (\<not> t)) (sent ?L t) (arrived (end_of slot ?L t) (got ?L t)) p)" for t
  have "good s" unfolding good_def this_end other
    using so est addr(1) link_invD(3) [OF inv, where s = s] out pend pkts by blast
  moreover have "good (\<not> s)" unfolding good_def nn this_end other
    using i(1-5) into addr(2) packet_ok_peer [OF i(6) addr(1)] by blast
  ultimately have "good t" for t by (cases "t = s") simp_all
  then show ?thesis unfolding link_inv_def good_def by blast
qed

lemma conn_at_slot: "live k i \<Longrightarrow> tcp_conn_at k (tcp_conn_id i) = Some (Ref i)"
proof -
  assume l: "live k i"
  note i = liveD(2) [OF l]
  have u: "unat (of_nat (i + 1) :: i32) = i + 1" using i by (intro unat_of_nat_u32) simp
  have "unat (of_nat i :: u32) = i" using i by (intro unat_of_nat_u32) simp
  then have m: "unat (of_nat (i + 1) - 1 :: i32) = i" by simp
  have nz: "(of_nat (i + 1) :: i32) \<noteq> 0" using u by (metis add_is_0 one_neq_zero unat_0)
  have "0 < sint (of_nat (i + 1) :: i32)" unfolding sint_pos_iff u using nz i by simp
  moreover have "\<not> (of_nat (i + 1) :: i32) > 8" using i u by (simp add: word_less_nat_alt del: of_nat_Suc of_nat_add)
  ultimately show ?thesis
    unfolding tcp_conn_at_def tcp_conn_id_def m using liveD(5,6) [OF l] by (simp del: of_nat_add of_nat_Suc)
qed

lemma send_cases:
  assumes so: "solo k i" and d: "length d < 2 ^ 31"
    and e: "tcp_send w (Ref k) (tcp_conn_id i) (Ref d) (of_nat (length d)) = Some (st, Ref k', w')"
  shows "k' = k \<and> w' = w \<and> (st = TCP_OK \<longrightarrow> d = []) \<or>
    st = TCP_OK \<and> \<not> tx_pending (conns k ! i) \<and> length d \<le> 1460 \<and> solo k' i \<and>
    conns k' = (conns k)[i := tcp_sent (conns k ! i) (TCP_ACK OR TCP_PSH) d True] \<and> w' = conn_packet (conns k ! i) (TCP_ACK OR TCP_PSH) d # w"
proof -
  have l: "live k i" and wi: "ip_tx k = Ref wire" using so by (simp_all add: solo_def)
  let ?c = "conns k ! i" and ?n = "of_nat (length d) :: u32"
  have u: "unat ?n = length d" using d by (simp add: unat_of_nat)
  have "unat ?n = 0 \<longleftrightarrow> d = []" unfolding u by simp
  then have z: "?n = 0 \<longleftrightarrow> d = []" by (simp only: unat_eq_0)
  have ev: "tcp_send w (Ref k) (tcp_conn_id i) (Ref d) ?n =
     (if cstate ?c \<noteq> ESTABLISHED \<and> cstate ?c \<noteq> CLOSE_WAIT then Some (TCP_ERR_CLOSED, Ref k, w)
      else if ?n = 0 then Some (TCP_OK, Ref k, w)
      else if ?n > 1460 then Some (TCP_ERR_NO_SPACE, Ref k, w)
      else if tx_pending ?c then Some (TCP_ERR_AGAIN, Ref k, w)
      else do { (st, k1, w1) \<leftarrow> tcp_emit w k i (TCP_ACK OR TCP_PSH) (Ref d) ?n True; Some (st, Ref k1, w1) })"
    unfolding tcp_send_def ptr.case conn_at_slot [OF l] bind.bind_lunit liveD(6) [OF l] by simp
  show ?thesis
  proof (cases "(cstate ?c \<noteq> ESTABLISHED \<and> cstate ?c \<noteq> CLOSE_WAIT) \<or> ?n = 0 \<or> ?n > 1460 \<or> tx_pending ?c")
    case True
    then show ?thesis using e z unfolding ev by (auto split: if_splits)
  next
    case False
    then have small: "length d \<le> 1460" using u by (simp add: word_less_nat_alt)
    obtain k1 where k1: "tcp_emit w k i (TCP_ACK OR TCP_PSH) (Ref d) ?n True = Some (TCP_OK, k1, conn_packet ?c (TCP_ACK OR TCP_PSH) d # w)"
        "live k1 i" "conns k1 = (conns k)[i := tcp_sent ?c (TCP_ACK OR TCP_PSH) d True]" "ip_tx k1 = Ref wire"
      using emit_wire [OF l wi small, of "Ref d" w "TCP_ACK OR TCP_PSH" True] by metis
    have "st = TCP_OK" "k' = k1" "w' = conn_packet ?c (TCP_ACK OR TCP_PSH) d # w"
      using e False unfolding ev k1(1) by auto
    then show ?thesis using False small k1(3) solo_update(1) [OF so k1(2-4)] by blast
  qed
qed

lemma recv_cases:
  assumes so: "solo k i" and b: "length b < 2 ^ 32"
    and e: "tcp_recv (Ref k) (tcp_conn_id i) (Ref b) (of_nat (length b)) (Ref 0) = Some (st, Ref k', Ref b', Ref n)"
  shows "k' = k \<and> st \<noteq> TCP_OK \<or>
    st = TCP_OK \<and> n \<le> rx_len (conns k ! i) \<and> take (unat n) b' = take (unat n) (rx_buf (conns k ! i)) \<and> solo k' i \<and>
    (\<exists>rb. take (unat (rx_len (conns k ! i)) - unat n) rb = take (unat (rx_len (conns k ! i)) - unat n) (drop (unat n) (rx_buf (conns k ! i))) \<and>
      conns k' = (conns k)[i := (conns k ! i)\<lparr>rx_buf := rb, rx_len := rx_len (conns k ! i) - n\<rparr>])"
proof -
  have l: "live k i" and wi: "ip_tx k = Ref wire" using so by (simp_all add: solo_def)
  note ld = liveD [OF l]
  let ?c = "conns k ! i" and ?cap = "of_nat (length b) :: u32"
  let ?n = "if rx_len ?c < ?cap then rx_len ?c else ?cap"
  have ub: "unat ?cap = length b" using b by (simp add: unat_of_nat)
  have rx: "length (rx_buf ?c) = 4096" "unat (rx_len ?c) \<le> 4096" using ld(4) by (simp_all add: conn_ok_def word_le_nat_alt)
  have n: "?n \<le> rx_len ?c" "?n \<le> ?cap" by auto
  then have un: "unat ?n \<le> unat (rx_len ?c)" "unat ?n \<le> length b" unfolding word_le_nat_alt ub by blast+
  have cp: "c_memcpy b 0 (rx_buf ?c) (unat ?n) = Some (take (unat ?n) (rx_buf ?c) @ drop (unat ?n) b)"
    using un rx by (simp add: c_memcpy_def)
  obtain rb where rb: "shift_down (rx_buf ?c) (unat ?n) (unat (rx_len ?c)) (unat ?n) = Some rb" "length rb = 4096"
      "take (unat (rx_len ?c) - unat ?n) rb = take (unat (rx_len ?c) - unat ?n) (drop (unat ?n) (rx_buf ?c))"
    using shift_down_eq [of "unat ?n" "unat (rx_len ?c)" "rx_buf ?c"] un(1) rx by auto
  let ?c1 = "?c\<lparr>rx_buf := rb, rx_len := rx_len ?c - ?n\<rparr>"
  let ?k = "k\<lparr>conns := (conns k)[i := ?c1]\<rparr>"
  have wr: "c_wr (conns k) i x = Some ((conns k)[i := x])" for x using ld(2,3) by simp
  have ev: "tcp_recv (Ref k) (tcp_conn_id i) (Ref b) ?cap (Ref 0) =
     (if rx_len ?c = 0 then Some (if cstate ?c = CLOSED then TCP_ERR_CLOSED else TCP_ERR_AGAIN, Ref k, Ref b, Ref 0)
      else Some (TCP_OK, Ref ?k, Ref (take (unat ?n) (rx_buf ?c) @ drop (unat ?n) b), Ref ?n))"
    unfolding tcp_recv_def prod.case ptr.case conn_at_slot [OF l] bind.bind_lunit ld(6) Let_def cp rb(1) wr ..
  show ?thesis
  proof (cases "rx_len ?c = 0")
    case True
    then show ?thesis using e unfolding ev by (auto split: if_splits)
  next
    case False
    have eqs: "st = TCP_OK" "k' = ?k" "b' = take (unat ?n) (rx_buf ?c) @ drop (unat ?n) b" "n = ?n"
      using e unfolding ev if_not_P [OF False] option.inject prod.inject ptr.inject by blast+
    have "unat (rx_len ?c - ?n) \<le> 4096" using unat_sub_le [OF n(1)] rx(2) by simp
    then have "conn_ok ?c1" using ld(4) rb(2) by (simp only: conn_ok_def word_le_nat_alt) simp
    then have "live ?k i" using ld(5) by (intro live_upd l) (simp_all add: waiting_key)
    then have "solo ?k i" using solo_update(1) [OF so, of ?k ?c1] wi by simp
    moreover have "take (unat ?n) b' = take (unat ?n) (rx_buf ?c)" unfolding eqs(3) using un(1) rx by simp
    moreover have "conns ?k = (conns k)[i := ?c1]" by simp
    ultimately show ?thesis using rb(3) n(1) unfolding eqs(1,2,4) by blast
  qed
qed

lemma tick_idle:
  assumes "length (conns k) = 8" and "\<And>j. m \<le> j \<Longrightarrow> j < 8 \<Longrightarrow> \<not> used (conns k ! j)"
  shows "tick_loop w k e m = Some (k, w)"
  using assms(2)
proof (induction "8 - m" arbitrary: m)
  case 0
  then show ?case by (subst tick_loop.simps) simp
next
  case (Suc x)
  then have m: "m < 8" "\<not> used (conns k ! m)" by auto
  then have "tcp_tick_conn w k e m = Some (k, w)" using assms(1) by (simp add: tcp_tick_conn_def)
  then show ?case using Suc m by (subst tick_loop.simps) simp
qed

lemma tick_solo:
  assumes l: "live k i" and idle: "\<And>j. j < 8 \<Longrightarrow> j \<noteq> i \<Longrightarrow> \<not> used (conns k ! j)"
    and t: "tcp_tick_conn w k e i = Some (k1, w1)" and c: "conns k1 = (conns k)[i := c]"
  shows "tcp_tick w (Ref k) e = Some (TCP_OK, Ref k1, w1)"
proof -
  note ld = liveD [OF l]
  have last: "tick_loop w k e i = Some (k1, w1)"
    using t ld(2) tick_idle [of k1 "Suc i" w1 e] c ld(3) idle by (subst tick_loop.simps) simp
  have "tick_loop w k e m = Some (k1, w1)" if "m \<le> i" for m
    using that
  proof (induction "i - m" arbitrary: m)
    case 0
    then show ?case using last by simp
  next
    case (Suc x)
    then have m: "m < 8" "m \<noteq> i" using ld(2) by auto
    then have "tcp_tick_conn w k e m = Some (k, w)" using ld(3) idle [of m] by (simp add: tcp_tick_conn_def)
    then show ?case using Suc m by (subst tick_loop.simps) simp
  qed
  then show ?thesis using tables_okD(1) [OF tcp_invD(1) [OF ld(1)]] by (simp add: tcp_tick_def)
qed

text \<open>What a tick does to an established connection.\<close>

lemma tick_cases:
  assumes so: "solo k i" and est: "cstate (conns k ! i) = ESTABLISHED"
  obtains k1 w1 r t where "tcp_tick w (Ref k) e = Some (TCP_OK, Ref k1, w1)" and "solo k1 i"
    and "conns k1 = (conns k)[i := (conns k ! i)\<lparr>rto := r, rto_timer := t\<rparr>]"
    and "w1 = (if tx_pending (conns k ! i) \<and> rto_timer (conns k ! i) \<le> e then saved_packet (conns k ! i) # w else w)"
proof -
  have l: "live k i" and wi: "ip_tx k = Ref wire" and idle: "\<And>j. j < 8 \<Longrightarrow> j \<noteq> i \<Longrightarrow> \<not> used (conns k ! j)"
    using so by (simp_all add: solo_def)
  note ld = liveD [OF l]
  let ?c = "conns k ! i"
  define fire where "fire \<longleftrightarrow> tx_pending ?c \<and> rto_timer ?c \<le> e"
  define r where "r = (if fire then (if rto ?c * 2 > TCP_MAX_RTO then TCP_MAX_RTO else rto ?c * 2) else rto ?c)"
  define t where "t = (if fire then r else if tx_pending ?c then rto_timer ?c - e else rto_timer ?c)"
  let ?k = "k\<lparr>conns := (conns k)[i := ?c\<lparr>rto := r, rto_timer := t\<rparr>]\<rparr>"
  have same: "?c\<lparr>rto := rto ?c, rto_timer := rto_timer ?c\<rparr> = ?c" "?c\<lparr>rto := rto ?c, rto_timer := x\<rparr> = ?c\<lparr>rto_timer := x\<rparr>" for x by simp_all
  have t: "tcp_tick_conn w k e i = Some (?k, if fire then saved_packet ?c # w else w)"
    unfolding tcp_tick_conn_def ld(6,7) bind.bind_lunit wi ptr.case wire_def prod.case Let_def
    using ld(5) est by (auto simp: fire_def r_def t_def saved_packet_def same)
  have lk: "live ?k i" using ld(4,5) by (intro live_upd l) (simp_all add: conn_ok_key waiting_key)
  have "solo ?k i" using solo_update(1) [OF so lk] wi by simp
  moreover have "tcp_tick w (Ref k) e = Some (TCP_OK, Ref ?k, if fire then saved_packet ?c # w else w)"
    by (rule tick_solo [OF l idle t]) simp_all
  ultimately show ?thesis using that [of ?k "if fire then saved_packet ?c # w else w" t r] by (simp add: fire_def)
qed

lemma peer_sym: "peer a c = peer c a"
  by (auto simp: peer_def)

lemma peer_cong:
  assumes "c_local_ip c' = c_local_ip c" and "remote_ip c' = remote_ip c" and "c_local_port c' = c_local_port c" and "remote_port c' = remote_port c"
  shows "peer c' e = peer c e" and "peer e c' = peer e c"
  using assms by (simp_all add: peer_def)

text \<open>A packet that an end with the right counters puts on the wire.\<close>

lemma packet_ok_emitted:
  assumes "peer r c" and "flags = TCP_ACK \<or> flags = TCP_ACK OR TCP_PSH" and "length d \<le> 1460"
    and "snd_nxt c = b + of_nat (length xs)" and "rcv_nxt c = b' + of_nat n"
  shows "packet_ok b b' r (xs @ d) n (conn_packet c flags d)"
  unfolding packet_ok_def using assms part_of_next [of b xs d] by (intro exI [of _ c] exI [of _ flags] exI [of _ d]) auto

lemma step_send_inv:
  assumes inv: "link_inv slot b L"
    and e: "tcp_send (net L s) (Ref (core L s)) (tcp_conn_id (slot s)) (Ref d) (of_nat (length d)) = Some (st, Ref k, w)"
    and len: "length (sent L s) + length d < 2 ^ 31"
  shows "link_inv slot b (change L s k w (sent L s @ (if st = TCP_OK then d else [])) (got L s))"
proof -
  note i = link_invD [OF inv, where s = s]
  let ?c = "end_of slot L s" and ?r = "end_of slot L (\<not> s)"
  have c: "conns (core L s) ! slot s = ?c" by (simp add: end_of_def)
  have "length d < 2 ^ 31" using len by simp
  from send_cases [OF i(1) this e] show ?thesis unfolding c
  proof (elim disjE conjE)
    assume k: "k = core L s" "w = net L s" "st = TCP_OK \<longrightarrow> d = []"
    have x: "sent L s @ (if st = TCP_OK then d else []) = sent L s" using k(3) by simp
    show ?thesis unfolding x k(1,2) by (rule link_inv_change [OF inv i(1) c [symmetric] i(2) refl refl i(4,9) i(5) i(6)])
  next
    assume k: "st = TCP_OK" "\<not> tx_pending ?c" "length d \<le> 1460" "solo k (slot s)"
      "conns k = (conns (core L s))[slot s := tcp_sent ?c (TCP_ACK OR TCP_PSH) d True]"
      "w = conn_packet ?c (TCP_ACK OR TCP_PSH) d # net L s"
    let ?t = "tcp_sent ?c (TCP_ACK OR TCP_PSH) d True"
    have ck: "?t = conns k ! slot s" using k(5) liveD(2,3) [OF i(7)] by simp
    have saved: "saved_packet ?t = conn_packet ?c (TCP_ACK OR TCP_PSH) d"
      using tcp_len_words(1) [OF k(3)] by (simp add: saved_packet_def conn_packet_def tcp_sent_def Let_def del: of_nat_add)
    have new: "packet_ok (b s) (b (\<not> s)) ?r (sent L s @ d) (arrived ?c (got L s)) (conn_packet ?c (TCP_ACK OR TCP_PSH) d)"
      using i(3) dir_invD(3) [OF i(4)] dir_invD(4) [OF i(9)] k(3) by (intro packet_ok_emitted) (auto simp: peer_sym)
    have into: "dir_inv (b (\<not> s)) ?r ?t (sent L (\<not> s)) (got L s)" "arrived ?t (got L s) = arrived ?c (got L s)"
      by (rule dir_inv_cong [OF i(9)]; simp)+
    have "link_inv slot b (change L s k w (sent L s @ d) (got L s))"
    proof (rule link_inv_change [OF inv k(4) ck])
      show "cstate ?t = ESTABLISHED" using i(2) by simp
      show "dir_inv (b s) ?t ?r (sent L s @ d) (got L (\<not> s))" by (rule dir_inv_sent [OF i(4) k(2) len]) simp_all
      show "saved_packet ?t \<in> set w" unfolding saved k(6) by simp
      show "packet_ok (b s) (b (\<not> s)) ?r (sent L s @ d) (arrived ?t (got L s)) p" if "p \<in> set w" for p
        unfolding into(2) using that new packet_ok_mono [OF i(6) order_refl] unfolding k(6) set_simps by blast
    qed (fact into(1) | rule peer_cong; simp)+
    then show ?thesis using k(1) by simp
  qed
qed

lemma step_recv_inv:
  assumes inv: "link_inv slot b L"
    and e: "tcp_recv (Ref (core L s)) (tcp_conn_id (slot s)) (Ref x) (of_nat (length x)) (Ref 0) = Some (st, Ref k, Ref x', Ref n)"
    and len: "length x < 2 ^ 32"
  shows "link_inv slot b (change L s k (net L s) (sent L s) (got L s @ (if st = TCP_OK then take (unat n) x' else [])))"
proof -
  note i = link_invD [OF inv, where s = s]
  let ?c = "end_of slot L s" and ?r = "end_of slot L (\<not> s)"
  have c: "conns (core L s) ! slot s = ?c" by (simp add: end_of_def)
  from recv_cases [OF i(1) len e] show ?thesis unfolding c
  proof (elim disjE conjE exE)
    assume k: "k = core L s" "st \<noteq> TCP_OK"
    have x: "got L s @ (if st = TCP_OK then take (unat n) x' else []) = got L s" using k(2) by simp
    show ?thesis unfolding x k(1) by (rule link_inv_change [OF inv i(1) c [symmetric] i(2) refl refl i(4,9) i(5) i(6)])
  next
    fix rb assume k: "st = TCP_OK" "n \<le> rx_len ?c" "take (unat n) x' = take (unat n) (rx_buf ?c)" "solo k (slot s)"
      "take (unat (rx_len ?c) - unat n) rb = take (unat (rx_len ?c) - unat n) (drop (unat n) (rx_buf ?c))"
      "conns k = (conns (core L s))[slot s := ?c\<lparr>rx_buf := rb, rx_len := rx_len ?c - n\<rparr>]"
    let ?t = "?c\<lparr>rx_buf := rb, rx_len := rx_len ?c - n\<rparr>"
    have ck: "?t = conns k ! slot s" using k(6) liveD(2,3) [OF i(7)] by simp
    note r = dir_inv_recv [OF i(9) k(2) i(8) k(5)]
    have "link_inv slot b (change L s k (net L s) (sent L s) (got L s @ take (unat n) (rx_buf ?c)))"
    proof (rule link_inv_change [OF inv k(4) ck])
      show "cstate ?t = ESTABLISHED" using i(2) by simp
      show "dir_inv (b s) ?t ?r (sent L s) (got L (\<not> s))" by (rule dir_inv_cong(1) [OF i(4)]) simp_all
      show "saved_packet ?t \<in> set (net L s)" if "tx_pending ?t" using that i(5) by (simp add: saved_packet_def)
      show "packet_ok (b s) (b (\<not> s)) ?r (sent L s) (arrived ?t (got L s @ take (unat n) (rx_buf ?c))) p" if "p \<in> set (net L s)" for p
        unfolding r(2) by (rule i(6) [OF that])
    qed (fact r(1) | rule peer_cong; simp)+
    then show ?thesis using k(1,3) by simp
  qed
qed

lemma step_tick_inv:
  assumes inv: "link_inv slot b L" and e: "tcp_tick (net L s) (Ref (core L s)) d = Some (st, Ref k, w)"
  shows "link_inv slot b (change L s k w (sent L s) (got L s))"
proof -
  note i = link_invD [OF inv, where s = s]
  let ?c = "end_of slot L s" and ?r = "end_of slot L (\<not> s)"
  have c: "conns (core L s) ! slot s = ?c" by (simp add: end_of_def)
  obtain k1 w1 a t where k1: "tcp_tick (net L s) (Ref (core L s)) d = Some (TCP_OK, Ref k1, w1)" "solo k1 (slot s)"
      "conns k1 = (conns (core L s))[slot s := ?c\<lparr>rto := a, rto_timer := t\<rparr>]"
      "w1 = (if tx_pending ?c \<and> rto_timer ?c \<le> d then saved_packet ?c # net L s else net L s)"
    using tick_cases [OF i(1), of "net L s" d] i(2) unfolding c by metis
  have k: "k = k1" "w = w1" using e k1(1) by simp_all
  let ?t = "?c\<lparr>rto := a, rto_timer := t\<rparr>"
  have ck: "?t = conns k1 ! slot s" using k1(3) liveD(2,3) [OF i(7)] by simp
  have w: "set w1 = set (net L s)" using i(5) k1(4) by auto
  have into: "dir_inv (b (\<not> s)) ?r ?t (sent L (\<not> s)) (got L s)" "arrived ?t (got L s) = arrived ?c (got L s)"
    by (rule dir_inv_cong [OF i(9)]; simp)+
  show ?thesis unfolding k
  proof (rule link_inv_change [OF inv k1(2) ck])
    show "cstate ?t = ESTABLISHED" using i(2) by simp
    show "dir_inv (b s) ?t ?r (sent L s) (got L (\<not> s))" by (rule dir_inv_cong(1) [OF i(4)]) simp_all
    show "saved_packet ?t \<in> set w1" if "tx_pending ?t" unfolding w using that i(5) by (simp add: saved_packet_def)
    show "packet_ok (b s) (b (\<not> s)) ?r (sent L s) (arrived ?t (got L s)) p" if "p \<in> set w1" for p
      unfolding into(2) using that i(6) unfolding w by blast
  qed (fact into(1) | rule peer_cong; simp)+
qed

lemma step_arrive_inv:
  assumes inv: "link_inv slot b L" and p: "p \<in> set (net L (\<not> s))" and e: "arrive (net L s) (core L s) p = Some (st, Ref k, w)"
  shows "link_inv slot b (change L s k w (sent L s) (got L s))"
proof -
  note i = link_invD [OF inv, where s = s] and j = link_invD [OF inv, where s = "\<not> s"]
  have nn: "(\<not> \<not> s) = s" by simp
  let ?c = "end_of slot L s" and ?r = "end_of slot L (\<not> s)"
  have c: "conns (core L s) ! slot s = ?c" by (simp add: end_of_def)
  obtain f flags d a where q: "p = conn_packet f flags d" "peer ?c f" "flags = TCP_ACK \<or> flags = TCP_ACK OR TCP_PSH" "length d \<le> 1460"
      "part_of (b (\<not> s)) (sent L (\<not> s)) (snd_nxt f) d" "rcv_nxt f = b s + of_nat a" "a \<le> arrived ?r (got L (\<not> s))"
    using j(6) [OF p] unfolding packet_ok_def nn by blast
  let ?a = "tcp_acked ?c (rcv_nxt f) (ucast (rcv_wnd f))"
  obtain k1 t where k1: "t = took_in ?a (snd_nxt f) d"
      "arrive (net L s) (core L s) p = Some (TCP_OK, Ref k1, if d = [] then net L s else conn_packet t TCP_ACK [] # net L s)"
      "solo k1 (slot s)" "conns k1 = (conns (core L s))[slot s := t]"
    using arrive_est [OF i(1) _ _ q(3,4), of f "net L s"] i(2) q(1,2) unfolding c by metis
  have k: "k = k1" "w = (if d = [] then net L s else conn_packet t TCP_ACK [] # net L s)" using e k1(2) by simp_all
  have ck: "t = conns k1 ! slot s" using k1(4) liveD(2,3) [OF i(7)] by simp
  have out: "dir_inv (b s) t ?r (sent L s) (got L (\<not> s))"
    using dir_inv_acked [OF i(4) i(2) q(7)] unfolding q(6) [symmetric] k1(1)
    by (rule dir_inv_cong(1)) (simp_all add: took_in_keeps)
  have mid: "dir_inv (b (\<not> s)) ?r ?a (sent L (\<not> s)) (got L s)" "arrived ?a (got L s) = arrived ?c (got L s)"
    by (rule dir_inv_cong [OF i(9)]; simp add: tcp_acked_keeps)+
  have "conn_ok ?a" using i(8) by (simp add: tcp_acked_keeps)
  from dir_inv_took [OF mid(1) this q(5)]
  have into: "dir_inv (b (\<not> s)) ?r t (sent L (\<not> s)) (got L s)" and grow: "arrived ?c (got L s) \<le> arrived t (got L s)"
    unfolding k1(1) mid(2) by simp_all
  have addr: "c_local_ip t = c_local_ip ?c" "remote_ip t = remote_ip ?c" "c_local_port t = c_local_port ?c" "remote_port t = remote_port ?c"
    by (simp_all add: k1(1) took_in_keeps tcp_acked_keeps)
  have "peer ?r t" using i(3) peer_cong(2) [OF addr, of ?r] by (simp add: peer_sym)
  then have ack: "packet_ok (b s) (b (\<not> s)) ?r (sent L s @ []) (arrived t (got L s)) (conn_packet t TCP_ACK [])"
    using dir_invD(3) [OF out] dir_invD(4) [OF into] by (intro packet_ok_emitted) auto
  have old: "packet_ok (b s) (b (\<not> s)) ?r (sent L s) (arrived t (got L s)) x" if "x \<in> set (net L s)" for x
    using packet_ok_mono [OF i(6) [OF that] grow, of "[]"] by simp
  show ?thesis unfolding k(1)
  proof (rule link_inv_change [OF inv k1(3) ck _ _ _ out into])
    show "cstate t = ESTABLISHED" using i(2) by (simp add: k1(1) took_in_keeps tcp_acked_keeps)
    show "saved_packet t \<in> set w" if "tx_pending t"
    proof -
      have "tx_pending ?a" using that by (simp add: k1(1) took_in_keeps)
      then have "tx_pending ?c" using i(2) by (auto simp: tcp_acked_def split: if_splits)
      then have "saved_packet ?c \<in> set (net L s)" by (rule i(5))
      moreover have "saved_packet t = saved_packet ?c" by (simp add: saved_packet_def k1(1) took_in_keeps tcp_acked_keeps)
      ultimately show ?thesis by (simp add: k(2))
    qed
    show "packet_ok (b s) (b (\<not> s)) ?r (sent L s) (arrived t (got L s)) x" if "x \<in> set w" for x
    proof (cases "x \<in> set (net L s)")
      case True
      then show ?thesis by (rule old)
    next
      case False
      then have "x = conn_packet t TCP_ACK []" using that by (simp add: k(2) split: if_splits)
      then show ?thesis using ack by simp
    qed
  qed (rule peer_cong [OF addr])+
qed

lemma link_start_inv:
  assumes "link_start slot L"
  shows "link_inv slot (\<lambda>s. snd_nxt (end_of slot L s)) L"
proof -
  have st: "in_step (end_of slot L True) (end_of slot L False)" using assms by (simp add: link_start_def end_of_def)
  then have "in_step (end_of slot L s) (end_of slot L (\<not> s))" for s
    by (cases s) (simp_all add: in_step_def peer_sym)
  then have "dir_inv (snd_nxt (end_of slot L s)) (end_of slot L s) (end_of slot L (\<not> s)) [] []" "cstate (end_of slot L s) = ESTABLISHED"
      "peer (end_of slot L s) (end_of slot L (\<not> s))" "\<not> tx_pending (end_of slot L s)" for s
    unfolding in_step_def by (simp_all add: dir_inv_def arrived_def)
  then show ?thesis using assms unfolding link_inv_def link_start_def by simp
qed

lemma link_step_inv: "link_inv slot b L \<Longrightarrow> link_step slot L L' \<Longrightarrow> link_inv slot b L'"
  by (erule link_step.cases) (blast intro: step_send_inv step_recv_inv step_tick_inv step_arrive_inv)+

lemma link_reach_inv: "link_reach slot L0 L \<Longrightarrow> \<exists>b. link_inv slot b L"
  by (induction rule: link_reach.induct) (blast intro: link_start_inv link_step_inv)+

text \<open>C1: Reliable delivery over a lossy network. Take two cores that have just completed the handshake. Let both
  ends call \<open>tcp_send\<close>, \<open>tcp_recv\<close> and \<open>tcp_tick\<close> in any order, and let the network hand any segment that
  was transmitted since then to its destination, any number of times and in any order, or never; late duplicates of the
  handshake segments are not delivered, neither end calls \<open>tcp_close\<close>, and each core has this one connection. As long as fewer
  than \<open>2 ^ 31\<close> bytes are sent in a direction, the bytes that \<open>tcp_recv\<close> returned at one end are at every
  moment a prefix of the bytes that \<open>tcp_send\<close> accepted at the other end; and when the sender has nothing left to
  retransmit, everything it accepted has been returned or is in the receive buffer of the peer, in order.\<close>

theorem tcp_reliable:
  assumes "link_reach slot L0 L"
  shows "(\<exists>rest. sent L s = got L (\<not> s) @ rest) \<and>
     (\<not> tx_pending (end_of slot L s) \<longrightarrow>
        sent L s = got L (\<not> s) @ take (unat (rx_len (end_of slot L (\<not> s)))) (rx_buf (end_of slot L (\<not> s))))"
proof -
  obtain b where "link_inv slot b L" using link_reach_inv [OF assms] by blast
  note d = dir_invD [OF link_invD(4) [OF this, where s = s]]
  let ?r = "end_of slot L (\<not> s)"
  have "sent L s = take (arrived ?r (got L (\<not> s))) (sent L s) @ drop (arrived ?r (got L (\<not> s))) (sent L s)" by simp
  then have "sent L s = got L (\<not> s) @ (take (unat (rx_len ?r)) (rx_buf ?r) @ drop (arrived ?r (got L (\<not> s))) (sent L s))"
    using d(5) by (metis append_assoc)
  then show ?thesis using d(5,8) by (metis order_refl take_all)
qed

definition open_conn :: "u32 \<Rightarrow> u16 \<Rightarrow> u32 \<Rightarrow> u16 \<Rightarrow> u32 \<Rightarrow> u32 \<Rightarrow> tcp_conn_t" where
  "open_conn lip lport rip rport nx rcv = zero_conn\<lparr>used := True, cstate := ESTABLISHED, c_local_ip := lip, c_local_port := lport,
     remote_ip := rip, remote_port := rport, snd_una := nx, snd_nxt := nx, rcv_nxt := rcv, rcv_wnd := 4096\<rparr>"

definition demo_link :: link where
  "demo_link = \<lparr>core = (\<lambda>s. wired_core\<lparr>conns := (replicate 8 zero_conn)[0 :=
       if s then open_conn 5 1000 9 80 100 700 else open_conn 9 80 5 1000 700 100]\<rparr>),
     net = (\<lambda>_. []), sent = (\<lambda>_. []), got = (\<lambda>_. [])\<rparr>"

lemma demo_link_start: "link_start (\<lambda>_. 0) demo_link"
proof -
  have "live (core demo_link s) 0" for s
  proof -
    let ?c = "if s then open_conn 5 1000 9 80 100 700 else open_conn 9 80 5 1000 700 100"
    have "conn_ok ?c" "\<And>p. \<not> waiting p ?c" "used ?c" by (simp_all add: open_conn_def conn_ok_def zero_conn_def waiting_def)
    moreover have "conns wired_core = replicate 8 zero_conn" by (simp add: wired_core_def)
    ultimately show ?thesis using tcp_inv_upd [OF wired_core_inv, of 0 ?c] not_waiting_zero by (simp add: demo_link_def live_def)
  qed
  then have "solo (core demo_link s) 0" for s by (simp add: solo_def) (simp add: demo_link_def wired_core_def zero_conn_def nth_list_update)
  moreover have "in_step (conns (core demo_link True) ! 0) (conns (core demo_link False) ! 0)"
    by (simp add: demo_link_def wired_core_def in_step_def peer_def open_conn_def zero_conn_def)
  ultimately show ?thesis by (simp add: link_start_def) (simp add: demo_link_def)
qed

theorem tcp_reliable_witness:
  "\<exists>L. link_reach (\<lambda>_. 0) demo_link L \<and> sent L True = [1, 2, 3] \<and> (\<exists>rest. sent L True = got L False @ rest)"
proof -
  have so: "solo (core demo_link True) 0" and ne: "net demo_link True = []" "sent demo_link True = []"
    using demo_link_start by (simp_all add: link_start_def)
  have l: "live (core demo_link True) 0" and wi: "ip_tx (core demo_link True) = Ref wire" using so by (simp_all add: solo_def)
  have c: "conns (core demo_link True) ! 0 = open_conn 5 1000 9 80 100 700" by (simp add: demo_link_def wired_core_def)
  obtain k w where "tcp_emit [] (core demo_link True) 0 (TCP_ACK OR TCP_PSH) (Ref [1, 2, 3]) (of_nat (length [1, 2, 3 :: u8])) True = Some (TCP_OK, k, w)"
    by (rule emit_wire [OF l wi, of "[1, 2, 3]" "Ref [1, 2, 3]" "[]" "TCP_ACK OR TCP_PSH" True]) simp_all
  then have "tcp_send [] (Ref (core demo_link True)) (tcp_conn_id 0) (Ref [1, 2, 3]) (of_nat (length [1, 2, 3 :: u8])) = Some (TCP_OK, Ref k, w)"
    unfolding tcp_send_def ptr.case conn_at_slot [OF l] bind.bind_lunit liveD(6) [OF l] c by (simp add: open_conn_def zero_conn_def)
  then have "link_step (\<lambda>_. 0) demo_link (change demo_link True k w ([] @ [1, 2, 3]) (got demo_link True))"
    using step_send [of demo_link True "\<lambda>_. 0" "[1, 2, 3]" TCP_OK k w] ne by simp
  then have r: "link_reach (\<lambda>_. 0) demo_link (change demo_link True k w ([] @ [1, 2, 3]) (got demo_link True))"
    by (rule reach_step [OF reach_start [OF demo_link_start]])
  show ?thesis using r tcp_reliable [OF r, of True] by (intro exI [of _ "change demo_link True k w ([] @ [1, 2, 3]) (got demo_link True)"]) (simp add: change_def)
qed

section \<open>The end of a stream\<close>

lemma finish_close_wait: "live k i \<Longrightarrow> cstate (conns k ! i) = CLOSE_WAIT \<Longrightarrow> tcp_finish k i = Some k"
  unfolding tcp_finish_def liveD(6) bind.bind_lunit Let_def by (simp add: liveD(7))

text \<open>C38: An established connection accepts a \<open>FIN\<close> whatever its sequence number is. If the peer's \<open>FIN\<close> is
  \<open>n\<close> bytes ahead of what has arrived, because the segments in between were lost, the connection goes to
  \<open>CLOSE_WAIT\<close> and acknowledges those \<open>n\<close> bytes, although none of them was delivered.\<close>

theorem tcp_fin_acknowledges_lost_data:
  assumes so: "solo k i" and est: "cstate (conns k ! i) = ESTABLISHED" and p: "peer (conns k ! i) e"
    and n: "snd_nxt e = rcv_nxt (conns k ! i) + of_nat n"
  shows "\<exists>k' c. arrive [] k (conn_packet e (TCP_FIN OR TCP_ACK) []) = Some (TCP_OK, Ref k', [conn_packet c TCP_ACK []]) \<and>
     rcv_nxt c = rcv_nxt (conns k ! i) + of_nat n + 1 \<and> cstate (conns k' ! i) = CLOSE_WAIT \<and>
     rx_len (conns k' ! i) = rx_len (conns k ! i) \<and> rx_buf (conns k' ! i) = rx_buf (conns k ! i)"
proof -
  have l: "live k i" and wi: "ip_tx k = Ref wire" using so by (simp_all add: solo_def)
  note ld = liveD [OF l]
  let ?c = "conns k ! i" and ?v = "ucast (rcv_wnd e) :: u16"
  define c1 where "c1 = tcp_acked ?c (rcv_nxt e) ?v"
  define c2 where "c2 = c1\<lparr>rcv_nxt := snd_nxt e + 0 + 1\<rparr>"
  let ?k1 = "k\<lparr>conns := (conns k)[i := c1]\<rparr>"
  have l1: "live ?k1 i" using ld(4,5) by (intro live_upd l) (simp_all add: c1_def tcp_acked_keeps)
  have i1: "conns ?k1 ! i = c1" using ld(2,3) by simp
  let ?k2 = "?k1\<lparr>conns := (conns ?k1)[i := c2]\<rparr>"
  have l2: "live ?k2 i" using ld(4,5) i1 by (intro live_upd l1) (simp_all add: c2_def c1_def tcp_acked_keeps conn_ok_key waiting_key)
  have i2: "conns ?k2 ! i = c2" using ld(2,3) by simp
  have wi2: "ip_tx ?k2 = Ref wire" using wi by simp
  obtain k3 where e3: "tcp_emit [] ?k2 i TCP_ACK NULL 0 False = Some (TCP_OK, k3, [conn_packet c2 TCP_ACK []])" "live k3 i"
      "conns k3 = (conns ?k2)[i := tcp_sent c2 TCP_ACK [] False]"
    using emit_wire0 [OF l2 wi2, of "[]" TCP_ACK False] unfolding i2 by metis
  have i3: "conns k3 ! i = c2" using e3(3) ld(2,3) by (simp add: sent_ack)
  have est2: "cstate c2 = ESTABLISHED" "cstate c1 = ESTABLISHED" using est by (simp_all add: c2_def c1_def tcp_acked_keeps)
  let ?k4 = "k3\<lparr>conns := (conns k3)[i := c2\<lparr>cstate := CLOSE_WAIT\<rparr>]\<rparr>"
  have l4: "live ?k4 i" using liveD(4,5) [OF e3(2)] i3 by (intro live_upd e3(2)) (simp_all add: conn_ok_key waiting_key)
  have i4: "conns ?k4 ! i = c2\<lparr>cstate := CLOSE_WAIT\<rparr>" using liveD(2,3) [OF e3(2)] by simp
  have fin: "tcp_fin [] ?k1 i (snd_nxt e) 0 = Some (?k4, [conn_packet c2 TCP_ACK []])"
    unfolding tcp_fin_def liveD(6,7) [OF l1] bind.bind_lunit i1 c2_def [symmetric] e3(1) prod.case liveD(6,7) [OF e3(2)] i3
    using est2 by simp
  have rec: "tcp_receive [] ?k1 i (snd_nxt e) (TCP_FIN OR TCP_ACK) [] 0 = Some (TCP_OK, ?k4, [conn_packet c2 TCP_ACK []])"
    unfolding tcp_receive_def liveD(6) [OF l1] bind.bind_lunit i1
    using est2 fin finish_close_wait [OF l4] i4 by (simp add: receiving_def tcp_deliver_def)
  have kn: "tcp_known [] k i (snd_nxt e) (rcv_nxt e) (TCP_FIN OR TCP_ACK) ?v [] 0 = Some (TCP_OK, ?k4, [conn_packet c2 TCP_ACK []])"
    unfolding tcp_known_def ld(6,7) bind.bind_lunit using est rec by (simp add: c1_def)
  have ini: "initialized k" using tables_okD(1) [OF tcp_invD(1) [OF ld(1)]] .
  have "arrive [] k (conn_packet e (TCP_FIN OR TCP_ACK) []) = Some (TCP_OK, Ref ?k4, [conn_packet c2 TCP_ACK []])"
    using arrive_emitted [OF ini, of "[]" "[]" e "TCP_FIN OR TCP_ACK"] find_solo [OF so p] kn by simp
  moreover have "rcv_nxt c2 = rcv_nxt ?c + of_nat n + 1" "rx_len c2 = rx_len ?c" "rx_buf c2 = rx_buf ?c"
    by (simp_all add: c2_def n c1_def tcp_acked_keeps)
  ultimately show ?thesis using i4 by (intro exI [of _ ?k4] exI [of _ c2]) simp
qed

theorem tcp_fin_acknowledges_lost_data_witness:
  "\<exists>k' c. arrive [] (core demo_link True) (conn_packet (open_conn 9 80 5 1000 750 100) (TCP_FIN OR TCP_ACK) []) =
       Some (TCP_OK, Ref k', [conn_packet c TCP_ACK []]) \<and>
     rcv_nxt c = 751 \<and> cstate (conns k' ! 0) = CLOSE_WAIT \<and> rx_len (conns k' ! 0) = 0"
proof -
  have so: "solo (core demo_link True) 0" using demo_link_start by (simp add: link_start_def)
  have c: "conns (core demo_link True) ! 0 = open_conn 5 1000 9 80 100 700" by (simp add: demo_link_def wired_core_def)
  show ?thesis
    using tcp_fin_acknowledges_lost_data [OF so, of "open_conn 9 80 5 1000 750 100" 50] unfolding c
    by (simp add: open_conn_def peer_def zero_conn_def) metis
qed

end
