(* ===== verification/Crypt_Bytes.thy ===== *)
theory Crypt_Bytes
  imports C_Loops
begin

text \<open>
  The byte order helpers at the top of \<open>src/DLL/owcrypt/owcrypt.c\<close>: what they read and write
  in terms of \<open>le_word\<close>, \<open>be_word\<close>, \<open>le_bytes\<close> and \<open>be_bytes\<close>.
\<close>

unbundle bit_operations_syntax

section \<open>The byte helpers\<close>

definition owc_put32 :: "u8 list \<Rightarrow> nat \<Rightarrow> u32 \<Rightarrow> u8 list comp" where
  "owc_put32 p off v =
     do { p \<leftarrow> c_wr p off (ucast (drop_bit 24 v)); p \<leftarrow> c_wr p (off + 1) (ucast (drop_bit 16 v));
          p \<leftarrow> c_wr p (off + 2) (ucast (drop_bit 8 v)); c_wr p (off + 3) (ucast v) }"

definition owc_put32le :: "u8 list \<Rightarrow> nat \<Rightarrow> u32 \<Rightarrow> u8 list comp" where
  "owc_put32le p off v =
     do { p \<leftarrow> c_wr p off (ucast v); p \<leftarrow> c_wr p (off + 1) (ucast (drop_bit 8 v));
          p \<leftarrow> c_wr p (off + 2) (ucast (drop_bit 16 v)); c_wr p (off + 3) (ucast (drop_bit 24 v)) }"

definition owc_get32 :: "u8 list \<Rightarrow> nat \<Rightarrow> u32 comp" where
  "owc_get32 p off =
     do { a \<leftarrow> c_rd p off; b \<leftarrow> c_rd p (off + 1); c \<leftarrow> c_rd p (off + 2); d \<leftarrow> c_rd p (off + 3);
          Some (push_bit 24 (ucast a) OR push_bit 16 (ucast b) OR push_bit 8 (ucast c) OR ucast d) }"

definition owc_get32le :: "u8 list \<Rightarrow> nat \<Rightarrow> u32 comp" where
  "owc_get32le p off =
     do { a \<leftarrow> c_rd p off; b \<leftarrow> c_rd p (off + 1); c \<leftarrow> c_rd p (off + 2); d \<leftarrow> c_rd p (off + 3);
          Some (ucast a OR push_bit 8 (ucast b) OR push_bit 16 (ucast c) OR push_bit 24 (ucast d)) }"

definition owc_put64 :: "u8 list \<Rightarrow> nat \<Rightarrow> u64 \<Rightarrow> u8 list comp" where
  "owc_put64 p off v =
     do { p \<leftarrow> c_wr p off (ucast (drop_bit 56 v)); p \<leftarrow> c_wr p (off + 1) (ucast (drop_bit 48 v));
          p \<leftarrow> c_wr p (off + 2) (ucast (drop_bit 40 v)); p \<leftarrow> c_wr p (off + 3) (ucast (drop_bit 32 v));
          p \<leftarrow> c_wr p (off + 4) (ucast (drop_bit 24 v)); p \<leftarrow> c_wr p (off + 5) (ucast (drop_bit 16 v));
          p \<leftarrow> c_wr p (off + 6) (ucast (drop_bit 8 v)); c_wr p (off + 7) (ucast v) }"

definition owc_get64 :: "u8 list \<Rightarrow> nat \<Rightarrow> u64 comp" where
  "owc_get64 p off =
     do { a \<leftarrow> c_rd p off; b \<leftarrow> c_rd p (off + 1); c \<leftarrow> c_rd p (off + 2); d \<leftarrow> c_rd p (off + 3);
          e \<leftarrow> c_rd p (off + 4); f \<leftarrow> c_rd p (off + 5); g \<leftarrow> c_rd p (off + 6); h \<leftarrow> c_rd p (off + 7);
          Some (push_bit 56 (ucast a) OR push_bit 48 (ucast b) OR push_bit 40 (ucast c) OR
                push_bit 32 (ucast d) OR push_bit 24 (ucast e) OR push_bit 16 (ucast f) OR
                push_bit 8 (ucast g) OR ucast h) }"

definition owc_put64le :: "u8 list \<Rightarrow> nat \<Rightarrow> u64 \<Rightarrow> u8 list comp" where
  "owc_put64le p off v =
     do { p \<leftarrow> c_wr p off (ucast v); p \<leftarrow> c_wr p (off + 1) (ucast (drop_bit 8 v));
          p \<leftarrow> c_wr p (off + 2) (ucast (drop_bit 16 v)); p \<leftarrow> c_wr p (off + 3) (ucast (drop_bit 24 v));
          p \<leftarrow> c_wr p (off + 4) (ucast (drop_bit 32 v)); p \<leftarrow> c_wr p (off + 5) (ucast (drop_bit 40 v));
          p \<leftarrow> c_wr p (off + 6) (ucast (drop_bit 48 v)); c_wr p (off + 7) (ucast (drop_bit 56 v)) }"

definition owc_get64le :: "u8 list \<Rightarrow> nat \<Rightarrow> u64 comp" where
  "owc_get64le p off =
     do { a \<leftarrow> c_rd p off; b \<leftarrow> c_rd p (off + 1); c \<leftarrow> c_rd p (off + 2); d \<leftarrow> c_rd p (off + 3);
          e \<leftarrow> c_rd p (off + 4); f \<leftarrow> c_rd p (off + 5); g \<leftarrow> c_rd p (off + 6); h \<leftarrow> c_rd p (off + 7);
          Some (ucast a OR push_bit 8 (ucast b) OR push_bit 16 (ucast c) OR push_bit 24 (ucast d) OR
                push_bit 32 (ucast e) OR push_bit 40 (ucast f) OR push_bit 48 (ucast g) OR
                push_bit 56 (ucast h)) }"

definition owc_rotl32 :: "u32 \<Rightarrow> nat \<Rightarrow> u32" where
  "owc_rotl32 x n = push_bit n x OR drop_bit (32 - n) x"

definition owc_rotr32 :: "u32 \<Rightarrow> nat \<Rightarrow> u32" where
  "owc_rotr32 x n = drop_bit n x OR push_bit (32 - n) x"

definition owc_rotr64 :: "u64 \<Rightarrow> nat \<Rightarrow> u64" where
  "owc_rotr64 x n = drop_bit n x OR push_bit (64 - n) x"

lemma rotr_bits:
  fixes x :: "'a::len word"
  assumes "n < LENGTH('a)"
  shows "drop_bit n x OR push_bit (LENGTH('a) - n) x = word_rotr n x"
proof (rule bit_word_eqI)
  fix i assume "i < LENGTH('a)"
  with assms have "i + n < LENGTH('a) \<or> LENGTH('a) \<le> i + n \<and> (i + n) mod LENGTH('a) = i + n - LENGTH('a)"
    by (auto simp: mod_if)
  with assms \<open>i < LENGTH('a)\<close> show "bit (drop_bit n x OR push_bit (LENGTH('a) - n) x) i = bit (word_rotr n x) i"
    by (auto simp: bit_simps add.commute [of n] dest: bit_imp_le_length)
qed

lemma owc_rotr32_eq: "n < 32 \<Longrightarrow> owc_rotr32 x n = word_rotr n x"
  using rotr_bits [of n x] by (simp add: owc_rotr32_def)

lemma owc_rotr64_eq: "n < 64 \<Longrightarrow> owc_rotr64 x n = word_rotr n x"
  using rotr_bits [of n x] by (simp add: owc_rotr64_def)

lemma owc_rotl32_eq: "0 < n \<Longrightarrow> n < 32 \<Longrightarrow> owc_rotl32 x n = word_rotl n x"
  using rotr_bits [of "32 - n" x] by (simp add: owc_rotl32_def word_rotl_eq_word_rotr or.commute)

lemma owc_put_eq:
  "off + 4 \<le> length p \<Longrightarrow> owc_put32 p off v = Some (patch p off (be_bytes 4 v))"
  "off + 4 \<le> length p \<Longrightarrow> owc_put32le p off v = Some (patch p off (le_bytes 4 v))"
  "off + 8 \<le> length p \<Longrightarrow> owc_put64 p off w = Some (patch p off (be_bytes 8 w))"
  "off + 8 \<le> length p \<Longrightarrow> owc_put64le p off w = Some (patch p off (le_bytes 8 w))"
  by (simp_all add: owc_put32_def owc_put32le_def owc_put64_def owc_put64le_def be_bytes_def
      numeral_eq_Suc patch_Cons)

lemma take_Suc_drop: "off < length p \<Longrightarrow> take (Suc n) (drop off p) = p ! off # take n (drop (Suc off) p)"
  by (simp add: Cons_nth_drop_Suc [symmetric])

lemma owc_get_eq:
  "off + 4 \<le> length p \<Longrightarrow> owc_get32 p off = Some (be_word (take 4 (drop off p)))"
  "off + 4 \<le> length p \<Longrightarrow> owc_get32le p off = Some (le_word (take 4 (drop off p)))"
  "off + 8 \<le> length p \<Longrightarrow> owc_get64 p off = Some (be_word (take 8 (drop off p)))"
  "off + 8 \<le> length p \<Longrightarrow> owc_get64le p off = Some (le_word (take 8 (drop off p)))"
  by (simp_all add: owc_get32_def owc_get32le_def owc_get64_def owc_get64le_def be_word_def
      numeral_eq_Suc take_Suc_drop push_bit_or or.assoc or.commute or.left_commute)

lemma le_bytes_add: "le_bytes (m + n) v = le_bytes m v @ le_bytes n (drop_bit (8 * m) v)"
proof (induction m arbitrary: v)
  case (Suc m)
  show ?case using Suc.IH [of "drop_bit 8 v"] by (simp add: ac_simps)
qed simp

lemma le_bytes_ucast:
  "8 * n \<le> LENGTH('a) \<Longrightarrow> 8 * n \<le> LENGTH('b) \<Longrightarrow> le_bytes n (ucast (v :: 'a::len word) :: 'b::len word) = le_bytes n v"
proof -
  have "le_bytes n (drop_bit (8 * k) (ucast v :: 'b word)) = le_bytes n (drop_bit (8 * k) v)"
    if "8 * (n + k) \<le> LENGTH('a)" "8 * (n + k) \<le> LENGTH('b)" for k
    using that
  proof (induction n arbitrary: k)
    case (Suc n)
    have "(ucast (drop_bit (8 * k) (ucast v :: 'b word)) :: u8) = ucast (drop_bit (8 * k) v)"
      by (rule bit_word_eqI) (use Suc.prems in \<open>auto simp: bit_simps\<close>)
    then show ?case using Suc.IH [of "Suc k"] Suc.prems by simp
  qed simp
  from this [of 0] show "8 * n \<le> LENGTH('a) \<Longrightarrow> 8 * n \<le> LENGTH('b) \<Longrightarrow> ?thesis" by simp
qed

text \<open>Storing eight numbers one after the other.\<close>

lemma c_for_store:
  assumes "\<And>i xs. i < n \<Longrightarrow> length xs = length out \<Longrightarrow> f i xs = Some (patch xs (w * i) (bytes i))"
    and "\<And>i. i < n \<Longrightarrow> length (bytes i) = w" and "w * n \<le> length out"
  shows "c_for 0 n f out = Some (patch out 0 (concat (map bytes [0..<n])))"
proof -
  define s where "s i = patch out 0 (concat (map bytes [0..<i]))" for i
  have len: "length (concat (map bytes [0..<i])) = w * i" if "i \<le> n" for i
    using that assms(2) by (induction i) auto
  have "c_for 0 n f (s 0) = Some (s n)"
  proof (rule c_for_det)
    fix i assume i: "i < n"
    then have "w * Suc i \<le> w * n" by (intro mult_le_mono) auto
    then have le: "w * i + w \<le> length out" using assms(3) by simp
    have "patch (s i) (w * i) (bytes i) = s (Suc i)"
      using patch_append [of 0 "concat (map bytes [0..<i])" "bytes i" out] le i len [of i] assms(2)
      by (simp add: s_def)
    moreover have "length (s i) = length out" using le len [of i] i by (simp add: s_def)
    ultimately show "f i (s i) = Some (s (Suc i))" using assms(1) [OF i] by simp
  qed simp
  then show ?thesis by (simp add: s_def)
qed

section \<open>Division into blocks\<close>

function chunks :: "nat \<Rightarrow> 'a list \<Rightarrow> 'a list list" where
  "chunks b xs = (if b = 0 \<or> xs = [] then [] else take b xs # chunks b (drop b xs))"
  by pat_completeness auto
termination by (relation "measure (\<lambda>(b, xs). length xs)") auto

declare chunks.simps [simp del]

definition all_len :: "nat \<Rightarrow> 'a list list \<Rightarrow> bool" where
  "all_len b bs = list_all (\<lambda>x. length x = b) bs"

lemma all_len_simps [simp]:
  "all_len b []" "all_len b (x # bs) \<longleftrightarrow> length x = b \<and> all_len b bs"
  "all_len b (bs @ cs) \<longleftrightarrow> all_len b bs \<and> all_len b cs"
  by (simp_all add: all_len_def)

lemma length_concat_all_len: "all_len b bs \<Longrightarrow> length (concat bs) = b * length bs"
  by (induction bs) simp_all

lemma chunks_concat: "all_len b bs \<Longrightarrow> 0 < b \<Longrightarrow> chunks b (concat bs) = bs"
proof (induction bs)
  case Nil
  then show ?case by (simp add: chunks.simps)
next
  case (Cons x bs)
  then have "x \<noteq> []" by auto
  with Cons show ?case by (subst chunks.simps) simp
qed

section \<open>Byte strings as natural numbers\<close>

fun le_nat :: "u8 list \<Rightarrow> nat" where
  "le_nat [] = 0"
| "le_nat (b # bs) = unat b + 256 * le_nat bs"

lemma le_nat_append: "le_nat (xs @ ys) = le_nat xs + 256 ^ length xs * le_nat ys"
  by (induction xs) (simp_all add: algebra_simps)

lemma le_nat_zeros [simp]: "le_nat (replicate n 0) = 0"
  by (induction n) simp_all

lemma le_nat_less: "le_nat bs < 256 ^ length bs"
proof (induction bs)
  case (Cons b bs)
  have "unat b < 256" using unsigned_less [of b] by simp
  with Cons show ?case by simp
qed simp

lemma unat_le_word:
  "8 * length bs \<le> LENGTH('a) \<Longrightarrow> unat (le_word bs :: 'a::len word) = le_nat bs"
proof (induction bs)
  case (Cons b bs)
  let ?w = "le_word bs :: 'a word"
  have w: "unat ?w = le_nat bs" using Cons by simp
  have "(256 :: nat) ^ length (b # bs) = 2 ^ (8 * length (b # bs))" by (simp only: power_mult) simp
  also have "\<dots> \<le> 2 ^ LENGTH('a)" using Cons.prems by (intro power_increasing) simp_all
  finally have lt: "le_nat (b # bs) < 2 ^ LENGTH('a)" using le_nat_less [of "b # bs"] by simp
  have "(ucast b :: 'a word) AND push_bit 8 ?w = 0"
    by (rule bit_word_eqI) (auto simp: bit_simps dest: bit_imp_le_length)
  then have "ucast b OR push_bit 8 ?w = ucast b + push_bit 8 ?w" by (rule disjunctive_add_eq_or [symmetric])
  moreover have "unat (push_bit 8 ?w) = 256 * le_nat bs"
    using lt w unfolding unsigned_push_bit_eq by (simp add: push_bit_eq_mult take_bit_nat_eq_self)
  moreover have "unat (ucast b :: 'a word) = unat b" using Cons.prems by (intro unat_ucast_up) simp
  ultimately show ?case using lt by (simp add: unat_word_ariths)
qed simp

lemma unat64_less: "unat (x :: u64) < 2 ^ 64"
  using unsigned_less [of x, where 'a = nat] by simp

lemma unat_or_bit:
  assumes "unat (w :: 'a::len word) < 2 ^ k" and "k < LENGTH('a)"
  shows "unat (w OR push_bit k 1) = unat w + 2 ^ k"
proof -
  have "w = take_bit k w" using assms(1) unfolding word_unat_eq_iff unsigned_take_bit_eq
    by (simp add: take_bit_nat_eq_self)
  then have "\<not> bit w k" by (metis bit_take_bit_iff less_irrefl)
  then have "w AND push_bit k 1 = 0" by (intro bit_word_eqI) (auto simp: bit_simps)
  then have "w OR push_bit k 1 = w + push_bit k 1" by (rule disjunctive_add_eq_or [symmetric])
  moreover have "unat (push_bit k 1 :: 'a word) = 2 ^ k"
    using assms(2) unfolding unsigned_push_bit_eq by (simp add: take_bit_nat_eq_self)
  moreover have "unat w + 2 ^ k < 2 ^ LENGTH('a)"
  proof -
    have "unat w + 2 ^ k < 2 ^ Suc k" using assms(1) by simp
    also have "(2 :: nat) ^ Suc k \<le> 2 ^ LENGTH('a)" using assms(2) by (intro power_increasing) simp_all
    finally show ?thesis .
  qed
  ultimately show ?thesis by (simp add: unat_word_ariths)
qed

lemma le_bytes_word: "8 * length bs \<le> LENGTH('a) \<Longrightarrow> le_bytes (length bs) (le_word bs :: 'a::len word) = bs"
proof (induction bs)
  case (Cons b bs)
  let ?w = "le_word bs :: 'a word"
  have "drop_bit 8 (ucast b OR push_bit 8 ?w) = take_bit (LENGTH('a) - 8) ?w"
    by (rule bit_word_eqI) (auto simp: bit_simps add.commute dest: bit_imp_le_length)
  also have "\<dots> = ?w"
  proof -
    have "unat ?w = le_nat bs" using Cons.prems by (intro unat_le_word) simp
    also have "\<dots> < 256 ^ length bs" by (rule le_nat_less)
    also have "(256 :: nat) ^ length bs = 2 ^ (8 * length bs)" by (simp add: power_mult)
    also have "\<dots> \<le> 2 ^ (LENGTH('a) - 8)" using Cons.prems by (intro power_increasing) simp_all
    finally have "take_bit (LENGTH('a) - 8) (unat ?w) = unat ?w" by (simp add: take_bit_nat_eq_self)
    then show ?thesis by (simp only: word_unat_eq_iff unsigned_take_bit_eq)
  qed
  finally have "drop_bit 8 (ucast b OR push_bit 8 ?w) = ?w" .
  moreover have "(ucast (ucast b OR push_bit 8 ?w :: 'a word) :: u8) = b"
    using Cons.prems by (intro bit_word_eqI) (auto simp: bit_simps dest: bit_imp_le_length)
  ultimately show ?case using Cons by simp
qed simp

end
