(* ===== verification/Sha.thy ===== *)
theory Sha
  imports Crypt_Bytes
begin

text \<open>
  SHA-256, SHA-512 and the two HMACs of \<open>src/DLL/owcrypt/owcrypt.c\<close> (lines 182-421 and
  510-580). The two hash functions of the source differ in the compression function, the block
  size and the length field only; the parts they share are definitions with the compression
  function and the block size as arguments. The result is that any division of a message into
  updates gives the digest of FIPS 180-4 of the whole message.
\<close>

unbundle bit_operations_syntax

section \<open>The context\<close>

record owcrypt_sha_ctx_t =
  ctx_h :: "u64 list"
  ctx_total :: "u64 list"
  ctx_buf :: "u8 list"
  ctx_buflen :: u64

text \<open>The arrays of the C type: eight words of state, two counters, a buffer of 128 bytes.\<close>

definition sha_ctx_ok :: "owcrypt_sha_ctx_t \<Rightarrow> bool" where
  "sha_ctx_ok c \<longleftrightarrow> length (ctx_h c) = 8 \<and> length (ctx_total c) = 2 \<and> length (ctx_buf c) = 128"

section \<open>SHA-256: the compression function\<close>

definition owc_sha256_k :: "u32 list" where
  "owc_sha256_k = concat
    [[0x428a2f98, 0x71374491, 0xb5c0fbcf, 0xe9b5dba5, 0x3956c25b, 0x59f111f1],
     [0x923f82a4, 0xab1c5ed5, 0xd807aa98, 0x12835b01, 0x243185be, 0x550c7dc3],
     [0x72be5d74, 0x80deb1fe, 0x9bdc06a7, 0xc19bf174, 0xe49b69c1, 0xefbe4786],
     [0x0fc19dc6, 0x240ca1cc, 0x2de92c6f, 0x4a7484aa, 0x5cb0a9dc, 0x76f988da],
     [0x983e5152, 0xa831c66d, 0xb00327c8, 0xbf597fc7, 0xc6e00bf3, 0xd5a79147],
     [0x06ca6351, 0x14292967, 0x27b70a85, 0x2e1b2138, 0x4d2c6dfc, 0x53380d13],
     [0x650a7354, 0x766a0abb, 0x81c2c92e, 0x92722c85, 0xa2bfe8a1, 0xa81a664b],
     [0xc24b8b70, 0xc76c51a3, 0xd192e819, 0xd6990624, 0xf40e3585, 0x106aa070],
     [0x19a4c116, 0x1e376c08, 0x2748774c, 0x34b0bcb5, 0x391c0cb3, 0x4ed8aa4a],
     [0x5b9cca4f, 0x682e6ff3, 0x748f82ee, 0x78a5636f, 0x84c87814, 0x8cc70208],
     [0x90befffa, 0xa4506ceb, 0xbef9a3f7, 0xc67178f2]]"

definition sha256_expand :: "nat \<Rightarrow> u32 list \<Rightarrow> u32 list comp" where
  "sha256_expand i w =
     do { w15 \<leftarrow> c_rd w (i - 15); w2 \<leftarrow> c_rd w (i - 2); w16 \<leftarrow> c_rd w (i - 16); w7 \<leftarrow> c_rd w (i - 7);
          let s0 = owc_rotr32 w15 7 XOR owc_rotr32 w15 18 XOR drop_bit 3 w15;
              s1 = owc_rotr32 w2 17 XOR owc_rotr32 w2 19 XOR drop_bit 10 w2
          in c_wr w i (w16 + s0 + w7 + s1) }"

type_synonym 'w regs = "'w \<times> 'w \<times> 'w \<times> 'w \<times> 'w \<times> 'w \<times> 'w \<times> 'w"

definition sha256_round :: "u32 list \<Rightarrow> nat \<Rightarrow> u32 regs \<Rightarrow> u32 regs comp" where
  "sha256_round w i =
     (\<lambda>(a, b, cc, d, e, f, g, h).
        do { ki \<leftarrow> c_rd owc_sha256_k i; wi \<leftarrow> c_rd w i;
             let s1 = owc_rotr32 e 6 XOR owc_rotr32 e 11 XOR owc_rotr32 e 25;
                 ch = (e AND f) XOR (NOT e AND g);
                 t1 = h + s1 + ch + ki + wi;
                 s0 = owc_rotr32 a 2 XOR owc_rotr32 a 13 XOR owc_rotr32 a 22;
                 maj = (a AND b) XOR (a AND cc) XOR (b AND cc);
                 t2 = s0 + maj
             in Some (t1 + t2, a, b, cc, d + t1, e, f, g) })"

text \<open>
  The local array \<open>w\<close> is not initialised; every cell is written before it is read, the model
  starts it with zeros. The registers are read from, and added to, the eight state words.
\<close>

definition h_regs :: "'w list \<Rightarrow> 'w regs comp" where
  "h_regs h =
     do { a \<leftarrow> c_rd h 0; b \<leftarrow> c_rd h 1; cc \<leftarrow> c_rd h 2; d \<leftarrow> c_rd h 3;
          e \<leftarrow> c_rd h 4; f \<leftarrow> c_rd h 5; g \<leftarrow> c_rd h 6; hh \<leftarrow> c_rd h 7; Some (a, b, cc, d, e, f, g, hh) }"

definition h_add :: "nat \<Rightarrow> u64 \<Rightarrow> u64 list \<Rightarrow> u64 list comp" where
  "h_add i v h = do { x \<leftarrow> c_rd h i; c_wr h i (x + v) }"

definition h_add_regs :: "u64 regs \<Rightarrow> u64 list \<Rightarrow> u64 list comp" where
  "h_add_regs =
     (\<lambda>(a, b, cc, d, e, f, g, hh) h.
        do { h \<leftarrow> h_add 0 a h; h \<leftarrow> h_add 1 b h; h \<leftarrow> h_add 2 cc h; h \<leftarrow> h_add 3 d h;
             h \<leftarrow> h_add 4 e h; h \<leftarrow> h_add 5 f h; h \<leftarrow> h_add 6 g h; h_add 7 hh h })"

definition map_regs :: "('v \<Rightarrow> 'w) \<Rightarrow> 'v regs \<Rightarrow> 'w regs" where
  "map_regs r = (\<lambda>(a, b, cc, d, e, f, g, hh). (r a, r b, r cc, r d, r e, r f, r g, r hh))"

definition owc_sha256_compress :: "owcrypt_sha_ctx_t \<Rightarrow> u8 list \<Rightarrow> owcrypt_sha_ctx_t comp" where
  "owc_sha256_compress c blk =
     do { w \<leftarrow> c_for 0 16 (\<lambda>i w. do { v \<leftarrow> owc_get32 blk (4 * i); c_wr w i v }) (replicate 64 0);
          w \<leftarrow> c_for 16 64 sha256_expand w;
          r \<leftarrow> h_regs (ctx_h c);
          r \<leftarrow> c_for 0 64 (sha256_round w) (map_regs ucast r);
          h \<leftarrow> h_add_regs (map_regs ucast r) (ctx_h c);
          Some (c\<lparr>ctx_h := h\<rparr>) }"

definition sha256_iv :: "u64 list" where
  "sha256_iv = [0x6a09e667, 0xbb67ae85, 0x3c6ef372, 0xa54ff53a, 0x510e527f, 0x9b05688c, 0x1f83d9ab, 0x5be0cd19]"

text \<open>The buffer keeps its contents: the initialisation writes everything else.\<close>

definition sha_init :: "u64 list \<Rightarrow> owcrypt_sha_ctx_t \<Rightarrow> owcrypt_sha_ctx_t" where
  "sha_init iv c = c\<lparr>ctx_h := iv, ctx_total := [0, 0], ctx_buflen := 0\<rparr>"

definition owcrypt_sha256_init :: "owcrypt_sha_ctx_t \<Rightarrow> owcrypt_sha_ctx_t" where
  "owcrypt_sha256_init c = sha_init sha256_iv c"

section \<open>Streaming, shared by the two functions\<close>

text \<open>
  \<open>p\<close> is the memory readable at the data pointer, \<open>n\<close> the length argument; \<open>B\<close>, the
  block size, is 64 or 128. \<open>sha_fill\<close> is the part under \<open>if (c->buflen != 0u)\<close>.
\<close>

type_synonym compressor = "owcrypt_sha_ctx_t \<Rightarrow> u8 list \<Rightarrow> owcrypt_sha_ctx_t comp"

definition sha_store :: "owcrypt_sha_ctx_t \<Rightarrow> u8 list \<Rightarrow> u64 \<Rightarrow> owcrypt_sha_ctx_t comp" where
  "sha_store c p n =
     do { b \<leftarrow> c_for 0 (unat n)
            (\<lambda>i b. do { v \<leftarrow> c_rd p i; c_wr b (unat (ctx_buflen c) + i) v }) (ctx_buf c);
          Some (c\<lparr>ctx_buf := b, ctx_buflen := ctx_buflen c + n\<rparr>) }"

definition sha_fill ::
  "compressor \<Rightarrow> u64 \<Rightarrow> owcrypt_sha_ctx_t \<Rightarrow> u8 list \<Rightarrow> u64 \<Rightarrow> (owcrypt_sha_ctx_t \<times> u8 list \<times> u64) comp" where
  "sha_fill compress B c p n =
     (let need = B - ctx_buflen c; tk = (if n < need then n else need) in
      do { c \<leftarrow> sha_store c p tk;
           c \<leftarrow> (if ctx_buflen c = B
                 then do { c \<leftarrow> compress c (ctx_buf c); Some (c\<lparr>ctx_buflen := 0\<rparr>) }
                 else Some c);
           Some (c, drop (unat tk) p, n - tk) })"

function sha_blocks ::
  "compressor \<Rightarrow> u64 \<Rightarrow> owcrypt_sha_ctx_t \<Rightarrow> u8 list \<Rightarrow> u64 \<Rightarrow> (owcrypt_sha_ctx_t \<times> u8 list \<times> u64) comp" where
  "sha_blocks compress B c p n =
     (if B \<noteq> 0 \<and> B \<le> n
      then do { c \<leftarrow> compress c p; sha_blocks compress B c (drop (unat B) p) (n - B) }
      else Some (c, p, n))"
  by pat_completeness auto
termination
  by (relation "measure (\<lambda>(compress, B, c, p, n). unat n)")
    (auto simp: unat_sub_le word_le_nat_alt unat_eq_0 intro!: diff_less)

definition sha_update ::
  "compressor \<Rightarrow> u64 \<Rightarrow> owcrypt_sha_ctx_t \<Rightarrow> u8 list \<Rightarrow> u64 \<Rightarrow> owcrypt_sha_ctx_t comp" where
  "sha_update compress B c p n =
     do { t \<leftarrow> c_rd (ctx_total c) 0;
          total \<leftarrow> c_wr (ctx_total c) 0 (t + n);
          let c = c\<lparr>ctx_total := total\<rparr>;
          (c, p, n) \<leftarrow> (if ctx_buflen c \<noteq> 0 then sha_fill compress B c p n else Some (c, p, n));
          (c, p, n) \<leftarrow> sha_blocks compress B c p n;
          sha_store c p n }"

text \<open>
  The end of a message: one byte \<open>0x80\<close>, then zeros up to the length field at offset
  \<open>L\<close> of the last block, with a block in between when the field no longer fits.
\<close>

definition sha_push :: "owcrypt_sha_ctx_t \<Rightarrow> u8 \<Rightarrow> owcrypt_sha_ctx_t comp" where
  "sha_push c v =
     do { b \<leftarrow> c_wr (ctx_buf c) (unat (ctx_buflen c)) v;
          Some (c\<lparr>ctx_buf := b, ctx_buflen := ctx_buflen c + 1\<rparr>) }"

function sha_zeros :: "u64 \<Rightarrow> owcrypt_sha_ctx_t \<Rightarrow> owcrypt_sha_ctx_t comp" where
  "sha_zeros lim c = (if ctx_buflen c < lim then do { c \<leftarrow> sha_push c 0; sha_zeros lim c } else Some c)"
  by pat_completeness auto
termination
proof (relation "measure (\<lambda>(lim, c). unat lim - unat (ctx_buflen c))")
  fix lim c d assume "ctx_buflen c < lim" and "sha_push c 0 = Some d"
  then show "((lim, d), lim, c) \<in> measure (\<lambda>(lim, c). unat lim - unat (ctx_buflen c))"
    by (auto simp: sha_push_def unat_add1_less word_less_nat_alt split: bind_splits)
qed simp

definition sha_pad :: "compressor \<Rightarrow> u64 \<Rightarrow> u64 \<Rightarrow> owcrypt_sha_ctx_t \<Rightarrow> owcrypt_sha_ctx_t comp" where
  "sha_pad compress B L c =
     do { c \<leftarrow> sha_push c 0x80;
          c \<leftarrow> (if L < ctx_buflen c
                then do { c \<leftarrow> sha_zeros B c; c \<leftarrow> compress c (ctx_buf c); Some (c\<lparr>ctx_buflen := 0\<rparr>) }
                else Some c);
          sha_zeros L c }"

section \<open>SHA-256: the interface\<close>

definition owcrypt_sha256_update :: "owcrypt_sha_ctx_t \<Rightarrow> u8 list \<Rightarrow> u64 \<Rightarrow> owcrypt_sha_ctx_t comp" where
  "owcrypt_sha256_update c p n = sha_update owc_sha256_compress 64 c p n"

definition owcrypt_sha256_final :: "owcrypt_sha_ctx_t \<Rightarrow> u8 list \<Rightarrow> (owcrypt_sha_ctx_t \<times> u8 list) comp" where
  "owcrypt_sha256_final c out =
     do { t \<leftarrow> c_rd (ctx_total c) 0;
          let bits = t * 8;
          c \<leftarrow> sha_pad owc_sha256_compress 64 56 c;
          b \<leftarrow> owc_put64 (ctx_buf c) 56 bits;
          c \<leftarrow> owc_sha256_compress (c\<lparr>ctx_buf := b\<rparr>) b;
          out \<leftarrow> c_for 0 8 (\<lambda>i out. do { v \<leftarrow> c_rd (ctx_h c) i; owc_put32 out (4 * i) (ucast v) }) out;
          Some (c, out) }"

text \<open>A context on the stack: its contents before the initialisation are not determined; zeros here.\<close>

definition sha_stack_ctx :: owcrypt_sha_ctx_t where
  "sha_stack_ctx = \<lparr>ctx_h = replicate 8 0, ctx_total = replicate 2 0, ctx_buf = replicate 128 0, ctx_buflen = 0\<rparr>"

definition owcrypt_sha256 :: "u8 list \<Rightarrow> u64 \<Rightarrow> u8 list \<Rightarrow> u8 list comp" where
  "owcrypt_sha256 data n out =
     do { let c = owcrypt_sha256_init sha_stack_ctx;
          c \<leftarrow> owcrypt_sha256_update c data n;
          (c, out) \<leftarrow> owcrypt_sha256_final c out;
          Some out }"

section \<open>SHA-512\<close>

definition owc_sha512_k :: "u64 list" where
  "owc_sha512_k = concat
    [[0x428a2f98d728ae22, 0x7137449123ef65cd, 0xb5c0fbcfec4d3b2f, 0xe9b5dba58189dbbc],
     [0x3956c25bf348b538, 0x59f111f1b605d019, 0x923f82a4af194f9b, 0xab1c5ed5da6d8118],
     [0xd807aa98a3030242, 0x12835b0145706fbe, 0x243185be4ee4b28c, 0x550c7dc3d5ffb4e2],
     [0x72be5d74f27b896f, 0x80deb1fe3b1696b1, 0x9bdc06a725c71235, 0xc19bf174cf692694],
     [0xe49b69c19ef14ad2, 0xefbe4786384f25e3, 0x0fc19dc68b8cd5b5, 0x240ca1cc77ac9c65],
     [0x2de92c6f592b0275, 0x4a7484aa6ea6e483, 0x5cb0a9dcbd41fbd4, 0x76f988da831153b5],
     [0x983e5152ee66dfab, 0xa831c66d2db43210, 0xb00327c898fb213f, 0xbf597fc7beef0ee4],
     [0xc6e00bf33da88fc2, 0xd5a79147930aa725, 0x06ca6351e003826f, 0x142929670a0e6e70],
     [0x27b70a8546d22ffc, 0x2e1b21385c26c926, 0x4d2c6dfc5ac42aed, 0x53380d139d95b3df],
     [0x650a73548baf63de, 0x766a0abb3c77b2a8, 0x81c2c92e47edaee6, 0x92722c851482353b],
     [0xa2bfe8a14cf10364, 0xa81a664bbc423001, 0xc24b8b70d0f89791, 0xc76c51a30654be30],
     [0xd192e819d6ef5218, 0xd69906245565a910, 0xf40e35855771202a, 0x106aa07032bbd1b8],
     [0x19a4c116b8d2d0c8, 0x1e376c085141ab53, 0x2748774cdf8eeb99, 0x34b0bcb5e19b48a8],
     [0x391c0cb3c5c95a63, 0x4ed8aa4ae3418acb, 0x5b9cca4f7763e373, 0x682e6ff3d6b2b8a3],
     [0x748f82ee5defb2fc, 0x78a5636f43172f60, 0x84c87814a1f0ab72, 0x8cc702081a6439ec],
     [0x90befffa23631e28, 0xa4506cebde82bde9, 0xbef9a3f7b2c67915, 0xc67178f2e372532b],
     [0xca273eceea26619c, 0xd186b8c721c0c207, 0xeada7dd6cde0eb1e, 0xf57d4f7fee6ed178],
     [0x06f067aa72176fba, 0x0a637dc5a2c898a6, 0x113f9804bef90dae, 0x1b710b35131c471b],
     [0x28db77f523047d84, 0x32caab7b40c72493, 0x3c9ebe0a15c9bebc, 0x431d67c49c100d4c],
     [0x4cc5d4becb3e42b6, 0x597f299cfc657e2a, 0x5fcb6fab3ad6faec, 0x6c44198c4a475817]]"

definition sha512_expand :: "nat \<Rightarrow> u64 list \<Rightarrow> u64 list comp" where
  "sha512_expand i w =
     do { w15 \<leftarrow> c_rd w (i - 15); w2 \<leftarrow> c_rd w (i - 2); w16 \<leftarrow> c_rd w (i - 16); w7 \<leftarrow> c_rd w (i - 7);
          let s0 = owc_rotr64 w15 1 XOR owc_rotr64 w15 8 XOR drop_bit 7 w15;
              s1 = owc_rotr64 w2 19 XOR owc_rotr64 w2 61 XOR drop_bit 6 w2
          in c_wr w i (w16 + s0 + w7 + s1) }"

definition sha512_round :: "u64 list \<Rightarrow> nat \<Rightarrow> u64 regs \<Rightarrow> u64 regs comp" where
  "sha512_round w i =
     (\<lambda>(a, b, cc, d, e, f, g, h).
        do { ki \<leftarrow> c_rd owc_sha512_k i; wi \<leftarrow> c_rd w i;
             let s1 = owc_rotr64 e 14 XOR owc_rotr64 e 18 XOR owc_rotr64 e 41;
                 ch = (e AND f) XOR (NOT e AND g);
                 t1 = h + s1 + ch + ki + wi;
                 s0 = owc_rotr64 a 28 XOR owc_rotr64 a 34 XOR owc_rotr64 a 39;
                 maj = (a AND b) XOR (a AND cc) XOR (b AND cc);
                 t2 = s0 + maj
             in Some (t1 + t2, a, b, cc, d + t1, e, f, g) })"

definition owc_sha512_compress :: "owcrypt_sha_ctx_t \<Rightarrow> u8 list \<Rightarrow> owcrypt_sha_ctx_t comp" where
  "owc_sha512_compress c blk =
     do { w \<leftarrow> c_for 0 16 (\<lambda>i w. do { v \<leftarrow> owc_get64 blk (8 * i); c_wr w i v }) (replicate 80 0);
          w \<leftarrow> c_for 16 80 sha512_expand w;
          r \<leftarrow> h_regs (ctx_h c);
          r \<leftarrow> c_for 0 80 (sha512_round w) r;
          h \<leftarrow> h_add_regs r (ctx_h c);
          Some (c\<lparr>ctx_h := h\<rparr>) }"

definition sha512_iv :: "u64 list" where
  "sha512_iv = [0x6a09e667f3bcc908, 0xbb67ae8584caa73b, 0x3c6ef372fe94f82b, 0xa54ff53a5f1d36f1,
     0x510e527fade682d1, 0x9b05688c2b3e6c1f, 0x1f83d9abfb41bd6b, 0x5be0cd19137e2179]"

definition owcrypt_sha512_init :: "owcrypt_sha_ctx_t \<Rightarrow> owcrypt_sha_ctx_t" where
  "owcrypt_sha512_init c = sha_init sha512_iv c"

definition owcrypt_sha512_update :: "owcrypt_sha_ctx_t \<Rightarrow> u8 list \<Rightarrow> u64 \<Rightarrow> owcrypt_sha_ctx_t comp" where
  "owcrypt_sha512_update c p n = sha_update owc_sha512_compress 128 c p n"

definition owcrypt_sha512_final :: "owcrypt_sha_ctx_t \<Rightarrow> u8 list \<Rightarrow> (owcrypt_sha_ctx_t \<times> u8 list) comp" where
  "owcrypt_sha512_final c out =
     do { t \<leftarrow> c_rd (ctx_total c) 0;
          let bits = t * 8;
          c \<leftarrow> sha_pad owc_sha512_compress 128 112 c;
          b \<leftarrow> owc_put64 (ctx_buf c) 112 0;
          b \<leftarrow> owc_put64 b 120 bits;
          c \<leftarrow> owc_sha512_compress (c\<lparr>ctx_buf := b\<rparr>) b;
          out \<leftarrow> c_for 0 8 (\<lambda>i out. do { v \<leftarrow> c_rd (ctx_h c) i; owc_put64 out (8 * i) v }) out;
          Some (c, out) }"

definition owcrypt_sha512 :: "u8 list \<Rightarrow> u64 \<Rightarrow> u8 list \<Rightarrow> u8 list comp" where
  "owcrypt_sha512 data n out =
     do { let c = owcrypt_sha512_init sha_stack_ctx;
          c \<leftarrow> owcrypt_sha512_update c data n;
          (c, out) \<leftarrow> owcrypt_sha512_final c out;
          Some out }"

declare sha_blocks.simps [simp del] sha_zeros.simps [simp del]

section \<open>HMAC\<close>

text \<open>
  The key block: the digest of a key longer than a block, the key itself otherwise, followed by
  zeros. \<open>H\<close> hashes into the first \<open>D\<close> bytes of the array it is given.
\<close>

definition hmac_key :: "(u8 list \<Rightarrow> u64 \<Rightarrow> u8 list \<Rightarrow> u8 list comp) \<Rightarrow> nat \<Rightarrow> nat \<Rightarrow> u8 list \<Rightarrow> u64 \<Rightarrow> u8 list comp" where
  "hmac_key H B D key keylen =
     (let k = replicate B 0 in
      if of_nat B < keylen
      then do { k \<leftarrow> H key keylen k; c_for D B (\<lambda>i k. c_wr k i 0) k }
      else do { k \<leftarrow> c_for 0 (unat keylen) (\<lambda>i k. do { v \<leftarrow> c_rd key i; c_wr k i v }) k;
                c_for (unat keylen) B (\<lambda>i k. c_wr k i 0) k })"

definition hmac_pad :: "nat \<Rightarrow> u8 \<Rightarrow> u8 list \<Rightarrow> u8 list comp" where
  "hmac_pad B x k = c_for 0 B (\<lambda>i pad. do { v \<leftarrow> c_rd k i; c_wr pad i (v XOR x) }) (replicate B 0)"

definition owcrypt_hmac_sha256 :: "u8 list \<Rightarrow> u64 \<Rightarrow> u8 list \<Rightarrow> u64 \<Rightarrow> u8 list \<Rightarrow> u8 list comp" where
  "owcrypt_hmac_sha256 key keylen msg msglen out =
     do { k \<leftarrow> hmac_key owcrypt_sha256 64 32 key keylen;
          ipad \<leftarrow> hmac_pad 64 0x36 k;
          opad \<leftarrow> hmac_pad 64 0x5C k;
          let c = owcrypt_sha256_init sha_stack_ctx;
          c \<leftarrow> owcrypt_sha256_update c ipad 64;
          c \<leftarrow> owcrypt_sha256_update c msg msglen;
          (c, inner) \<leftarrow> owcrypt_sha256_final c (replicate 32 0);
          let c = owcrypt_sha256_init c;
          c \<leftarrow> owcrypt_sha256_update c opad 64;
          c \<leftarrow> owcrypt_sha256_update c inner 32;
          (c, out) \<leftarrow> owcrypt_sha256_final c out;
          Some out }"

definition owcrypt_hmac_sha512 :: "u8 list \<Rightarrow> u64 \<Rightarrow> u8 list \<Rightarrow> u64 \<Rightarrow> u8 list \<Rightarrow> u8 list comp" where
  "owcrypt_hmac_sha512 key keylen msg msglen out =
     do { k \<leftarrow> hmac_key owcrypt_sha512 128 64 key keylen;
          ipad \<leftarrow> hmac_pad 128 0x36 k;
          opad \<leftarrow> hmac_pad 128 0x5C k;
          let c = owcrypt_sha512_init sha_stack_ctx;
          c \<leftarrow> owcrypt_sha512_update c ipad 128;
          c \<leftarrow> owcrypt_sha512_update c msg msglen;
          (c, inner) \<leftarrow> owcrypt_sha512_final c (replicate 64 0);
          let c = owcrypt_sha512_init c;
          c \<leftarrow> owcrypt_sha512_update c opad 128;
          c \<leftarrow> owcrypt_sha512_update c inner 64;
          (c, out) \<leftarrow> owcrypt_sha512_final c out;
          Some out }"

section \<open>The standard\<close>

text \<open>
  FIPS 180-4, sections 4.1, 6.2 and 6.4: message schedule, rounds, one block. The round constants and
  initial values are taken from the tables of the code; \<open>owc_sha_constants\<close> in \<open>Sha_Stream\<close> shows
  that these are the ones of sections 4.2 and 5.3, computed from the square and cube roots of the primes.
\<close>

definition add_regs :: "'w::plus regs \<Rightarrow> 'w regs \<Rightarrow> 'w regs" where
  "add_regs = (\<lambda>(a, b, c, d, e, f, g, h) (a', b', c', d', e', f', g', h').
     (a + a', b + b', c + c', d + d', e + e', f + f', g + g', h + h'))"

fun fips256_W :: "u8 list \<Rightarrow> nat \<Rightarrow> u32" where
  "fips256_W blk t =
     (if t < 16 then be_word (take 4 (drop (4 * t) blk))
      else let x = fips256_W blk (t - 2); y = fips256_W blk (t - 15) in
        (word_rotr 17 x XOR word_rotr 19 x XOR drop_bit 10 x) + fips256_W blk (t - 7) +
        (word_rotr 7 y XOR word_rotr 18 y XOR drop_bit 3 y) + fips256_W blk (t - 16))"

definition fips256_round :: "u8 list \<Rightarrow> u32 regs \<Rightarrow> nat \<Rightarrow> u32 regs" where
  "fips256_round blk = (\<lambda>(a, b, c, d, e, f, g, h) t.
     let T1 = h + (word_rotr 6 e XOR word_rotr 11 e XOR word_rotr 25 e) + ((e AND f) XOR (NOT e AND g)) +
              owc_sha256_k ! t + fips256_W blk t;
         T2 = (word_rotr 2 a XOR word_rotr 13 a XOR word_rotr 22 a) + ((a AND b) XOR (a AND c) XOR (b AND c))
     in (T1 + T2, a, b, c, d + T1, e, f, g))"

definition fips256_block :: "u32 regs \<Rightarrow> u8 list \<Rightarrow> u32 regs" where
  "fips256_block H blk = add_regs H (foldl (fips256_round blk) H [0..<64])"

fun fips512_W :: "u8 list \<Rightarrow> nat \<Rightarrow> u64" where
  "fips512_W blk t =
     (if t < 16 then be_word (take 8 (drop (8 * t) blk))
      else let x = fips512_W blk (t - 2); y = fips512_W blk (t - 15) in
        (word_rotr 19 x XOR word_rotr 61 x XOR drop_bit 6 x) + fips512_W blk (t - 7) +
        (word_rotr 1 y XOR word_rotr 8 y XOR drop_bit 7 y) + fips512_W blk (t - 16))"

definition fips512_round :: "u8 list \<Rightarrow> u64 regs \<Rightarrow> nat \<Rightarrow> u64 regs" where
  "fips512_round blk = (\<lambda>(a, b, c, d, e, f, g, h) t.
     let T1 = h + (word_rotr 14 e XOR word_rotr 18 e XOR word_rotr 41 e) + ((e AND f) XOR (NOT e AND g)) +
              owc_sha512_k ! t + fips512_W blk t;
         T2 = (word_rotr 28 a XOR word_rotr 34 a XOR word_rotr 39 a) + ((a AND b) XOR (a AND c) XOR (b AND c))
     in (T1 + T2, a, b, c, d + T1, e, f, g))"

definition fips512_block :: "u64 regs \<Rightarrow> u8 list \<Rightarrow> u64 regs" where
  "fips512_block H blk = add_regs H (foldl (fips512_round blk) H [0..<80])"

text \<open>Sections 5.1 and 5.2: padding to a multiple of the block size, and division into blocks.\<close>

definition pad_zeros :: "nat \<Rightarrow> nat \<Rightarrow> nat \<Rightarrow> nat" where
  "pad_zeros b L n = (b + L - 1 - n mod b) mod b"

definition fips_pad :: "nat \<Rightarrow> nat \<Rightarrow> u8 list \<Rightarrow> u8 list \<Rightarrow> u8 list" where
  "fips_pad b L len m = m @ [0x80] @ replicate (pad_zeros b L (length m)) 0 @ len"

declare fips256_W.simps [simp del] fips512_W.simps [simp del]

definition list_regs :: "'w regs \<Rightarrow> 'w list" where
  "list_regs = (\<lambda>(a, b, c, d, e, f, g, h). [a, b, c, d, e, f, g, h])"

definition regs_of :: "'w list \<Rightarrow> 'w regs" where
  "regs_of h = (h ! 0, h ! 1, h ! 2, h ! 3, h ! 4, h ! 5, h ! 6, h ! 7)"

definition fips256 :: "u8 list \<Rightarrow> u8 list" where
  "fips256 m =
     concat (map (be_bytes 4) (list_regs
       (foldl fips256_block (regs_of (map ucast sha256_iv))
         (chunks 64 (fips_pad 64 56 (be_bytes 8 (of_nat (8 * length m) :: u64)) m)))))"

definition fips512 :: "u8 list \<Rightarrow> u8 list" where
  "fips512 m =
     concat (map (be_bytes 8) (list_regs
       (foldl fips512_block (regs_of sha512_iv)
         (chunks 128 (fips_pad 128 112 (be_bytes 16 (of_nat (8 * length m) :: 128 word)) m)))))"

section \<open>The compression functions are those of the standard\<close>

text \<open>An array that is being filled from the front.\<close>

definition filled :: "(nat \<Rightarrow> 'a) \<Rightarrow> nat \<Rightarrow> 'a \<Rightarrow> nat \<Rightarrow> 'a list" where
  "filled f N z i = map f [0..<i] @ replicate (N - i) z"

lemma filled_0: "filled f N z 0 = replicate N z"
  by (simp add: filled_def)

lemma length_filled [simp]: "i \<le> N \<Longrightarrow> length (filled f N z i) = N"
  by (simp add: filled_def)

lemma filled_nth [simp]: "j < i \<Longrightarrow> i \<le> N \<Longrightarrow> filled f N z i ! j = f j"
  by (simp add: filled_def nth_append)

lemma filled_wr: "i < N \<Longrightarrow> v = f i \<Longrightarrow> c_wr (filled f N z i) i v = Some (filled f N z (Suc i))"
proof -
  assume "i < N"
  then have "N - i = Suc (N - Suc i)" by simp
  then show "v = f i \<Longrightarrow> c_wr (filled f N z i) i v = Some (filled f N z (Suc i))"
    using \<open>i < N\<close> by (simp add: c_wr_def filled_def list_update_append)
qed

lemma length_sha_k [simp]: "length owc_sha256_k = 64" "length owc_sha512_k = 80"
  by (simp_all add: owc_sha256_k_def owc_sha512_k_def)

lemma fips256_W_load: "t < 16 \<Longrightarrow> fips256_W blk t = be_word (take 4 (drop (4 * t) blk))"
  by (subst fips256_W.simps) simp

lemma fips256_W_next:
  "16 \<le> t \<Longrightarrow> fips256_W blk t =
     (let x = fips256_W blk (t - 2); y = fips256_W blk (t - 15) in
        (word_rotr 17 x XOR word_rotr 19 x XOR drop_bit 10 x) + fips256_W blk (t - 7) +
        (word_rotr 7 y XOR word_rotr 18 y XOR drop_bit 3 y) + fips256_W blk (t - 16))"
  by (subst fips256_W.simps) simp

lemma fips512_W_load: "t < 16 \<Longrightarrow> fips512_W blk t = be_word (take 8 (drop (8 * t) blk))"
  by (subst fips512_W.simps) simp

lemma fips512_W_next:
  "16 \<le> t \<Longrightarrow> fips512_W blk t =
     (let x = fips512_W blk (t - 2); y = fips512_W blk (t - 15) in
        (word_rotr 19 x XOR word_rotr 61 x XOR drop_bit 6 x) + fips512_W blk (t - 7) +
        (word_rotr 1 y XOR word_rotr 8 y XOR drop_bit 7 y) + fips512_W blk (t - 16))"
  by (subst fips512_W.simps) simp

lemma sha256_schedule:
  assumes "64 \<le> length blk"
  shows "do { w \<leftarrow> c_for 0 16 (\<lambda>i w. do { v \<leftarrow> owc_get32 blk (4 * i); c_wr w i v }) (replicate 64 0);
              c_for 16 64 sha256_expand w } = Some (filled (fips256_W (take 64 blk)) 64 0 64)"
proof -
  let ?g = "filled (fips256_W (take 64 blk)) 64 0"
  have "c_for 0 16 (\<lambda>i w. do { v \<leftarrow> owc_get32 blk (4 * i); c_wr w i v }) (?g 0) = Some (?g 16)"
    using assms by (intro c_for_det) (simp_all add: owc_get_eq filled_wr fips256_W_load take_drop_in del: c_wr_in)
  moreover have "c_for 16 64 sha256_expand (?g 16) = Some (?g 64)"
  proof (rule c_for_det)
    fix i :: nat assume "16 \<le> i" and "i < 64"
    then show "sha256_expand i (?g i) = Some (?g (Suc i))"
      by (simp add: sha256_expand_def Let_def filled_wr owc_rotr32_eq fips256_W_next [of i] ac_simps del: c_wr_in)
  qed simp
  ultimately show ?thesis by (simp add: filled_0)
qed

lemma sha256_rounds:
  "c_for 0 64 (sha256_round (filled (fips256_W blk) 64 0 64)) r = Some (foldl (fips256_round blk) r [0..<64])"
proof -
  define s where "s i = foldl (fips256_round blk) r [0..<i]" for i
  have "c_for 0 64 (sha256_round (filled (fips256_W blk) 64 0 64)) (s 0) = Some (s 64)"
  proof (rule c_for_det)
    fix i :: nat assume "i < 64"
    moreover obtain a b c d e f g h where "s i = (a, b, c, d, e, f, g, h)" by (cases "s i") auto
    moreover have "s (Suc i) = fips256_round blk (s i) i" by (simp add: s_def)
    ultimately show "sha256_round (filled (fips256_W blk) 64 0 64) i (s i) = Some (s (Suc i))"
      by (simp add: sha256_round_def fips256_round_def owc_rotr32_eq Let_def)
  qed simp
  then show ?thesis by (simp add: s_def)
qed

lemma sha512_schedule:
  assumes "128 \<le> length blk"
  shows "do { w \<leftarrow> c_for 0 16 (\<lambda>i w. do { v \<leftarrow> owc_get64 blk (8 * i); c_wr w i v }) (replicate 80 0);
              c_for 16 80 sha512_expand w } = Some (filled (fips512_W (take 128 blk)) 80 0 80)"
proof -
  let ?g = "filled (fips512_W (take 128 blk)) 80 0"
  have "c_for 0 16 (\<lambda>i w. do { v \<leftarrow> owc_get64 blk (8 * i); c_wr w i v }) (?g 0) = Some (?g 16)"
    using assms by (intro c_for_det) (simp_all add: owc_get_eq filled_wr fips512_W_load take_drop_in del: c_wr_in)
  moreover have "c_for 16 80 sha512_expand (?g 16) = Some (?g 80)"
  proof (rule c_for_det)
    fix i :: nat assume "16 \<le> i" and "i < 80"
    then show "sha512_expand i (?g i) = Some (?g (Suc i))"
      by (simp add: sha512_expand_def Let_def filled_wr owc_rotr64_eq fips512_W_next [of i] ac_simps del: c_wr_in)
  qed simp
  ultimately show ?thesis by (simp add: filled_0)
qed

lemma sha512_rounds:
  "c_for 0 80 (sha512_round (filled (fips512_W blk) 80 0 80)) r = Some (foldl (fips512_round blk) r [0..<80])"
proof -
  define s where "s i = foldl (fips512_round blk) r [0..<i]" for i
  have "c_for 0 80 (sha512_round (filled (fips512_W blk) 80 0 80)) (s 0) = Some (s 80)"
  proof (rule c_for_det)
    fix i :: nat assume "i < 80"
    moreover obtain a b c d e f g h where "s i = (a, b, c, d, e, f, g, h)" by (cases "s i") auto
    moreover have "s (Suc i) = fips512_round blk (s i) i" by (simp add: s_def)
    ultimately show "sha512_round (filled (fips512_W blk) 80 0 80) i (s i) = Some (s (Suc i))"
      by (simp add: sha512_round_def fips512_round_def owc_rotr64_eq Let_def)
  qed simp
  then show ?thesis by (simp add: s_def)
qed

lemma h_regs_eq: "length h = 8 \<Longrightarrow> h_regs h = Some (regs_of h)"
  by (simp add: h_regs_def regs_of_def)

lemma h_add_regs_eq:
  assumes "length h = 8"
  shows "\<exists>h'. h_add_regs r h = Some h' \<and> length h' = 8 \<and> regs_of h' = add_regs (regs_of h) r"
proof -
  obtain a b c d e f g i where "r = (a, b, c, d, e, f, g, i)" by (cases r) auto
  then show ?thesis using assms
    by (simp add: h_add_regs_def h_add_def add_regs_def regs_of_def nth_list_update)
qed

lemma ucast_add_regs: "map_regs ucast (add_regs r (map_regs ucast s)) = (add_regs (map_regs ucast r) s :: u32 regs)"
  for r :: "u64 regs"
proof -
  have "(ucast (x + ucast (y :: u32) :: u64) :: u32) = ucast x + y" for x y
  proof (rule word_unat_eq_iff [THEN iffD2])
    have "(unat x + unat y) mod 2 ^ 64 mod 2 ^ 32 = (unat x + unat y) mod (2 ^ 32 :: nat)"
      by (rule mod_mod_cancel) (simp add: le_imp_power_dvd)
    then show "unat (ucast (x + ucast y :: u64) :: u32) = unat (ucast x + y)"
      by (simp add: unat_ucast_down unat_ucast_up unat_word_ariths mod_simps)
  qed
  then show ?thesis by (cases r, cases s) (simp add: map_regs_def add_regs_def split: prod.splits)
qed

lemma owc_sha256_compress_block:
  assumes "length (ctx_h c) = 8" and "64 \<le> length blk"
  shows "\<exists>h. owc_sha256_compress c blk = Some (c\<lparr>ctx_h := h\<rparr>) \<and> length h = 8 \<and>
     map_regs ucast (regs_of h) = fips256_block (map_regs ucast (regs_of (ctx_h c))) (take 64 blk)"
proof -
  let ?H = "map_regs ucast (regs_of (ctx_h c)) :: u32 regs"
  let ?r = "foldl (fips256_round (take 64 blk)) ?H [0..<64]"
  obtain h where h: "h_add_regs (map_regs ucast ?r) (ctx_h c) = Some h" "length h = 8"
      "regs_of h = add_regs (regs_of (ctx_h c)) (map_regs ucast ?r)"
    using h_add_regs_eq [OF assms(1)] by blast
  then have "owc_sha256_compress c blk = Some (c\<lparr>ctx_h := h\<rparr>)"
    unfolding owc_sha256_compress_def bind_assoc [symmetric] sha256_schedule [OF assms(2)]
    by (simp add: h_regs_eq assms(1) sha256_rounds)
  with h show ?thesis by (intro exI [of _ h]) (simp add: ucast_add_regs fips256_block_def)
qed

lemma owc_sha512_compress_block:
  assumes "length (ctx_h c) = 8" and "128 \<le> length blk"
  shows "\<exists>h. owc_sha512_compress c blk = Some (c\<lparr>ctx_h := h\<rparr>) \<and> length h = 8 \<and>
     regs_of h = fips512_block (regs_of (ctx_h c)) (take 128 blk)"
proof -
  let ?r = "foldl (fips512_round (take 128 blk)) (regs_of (ctx_h c)) [0..<80]"
  obtain h where h: "h_add_regs ?r (ctx_h c) = Some h" "length h = 8"
      "regs_of h = add_regs (regs_of (ctx_h c)) ?r"
    using h_add_regs_eq [OF assms(1)] by blast
  then have "owc_sha512_compress c blk = Some (c\<lparr>ctx_h := h\<rparr>)"
    unfolding owc_sha512_compress_def bind_assoc [symmetric] sha512_schedule [OF assms(2)]
    by (simp add: h_regs_eq assms(1) sha512_rounds)
  with h show ?thesis by (intro exI [of _ h]) (simp add: fips512_block_def)
qed

end
