(* ===== verification/Sha_Stream.thy ===== *)
theory Sha_Stream
  imports Sha
begin

text \<open>
  The streaming interface of the hash functions: an interface \<open>md_hash\<close> that states what a
  compression function promises, the lemmas on filling the buffer, on whole blocks and on padding
  proved once for it, its interpretations by the compression functions of SHA-256 and SHA-512, and
  the results for the public functions and for HMAC.
\<close>

unbundle bit_operations_syntax

section \<open>Padding and the buffer\<close>

lemma pad_zeros_eq:
  assumes "r + 1 + z = L \<or> r + 1 + z = b + L" and "z < b" and "r < b" and "n mod b = r"
  shows "pad_zeros b L n = z"
proof -
  have "b + L - 1 - r = z + b \<or> b + L - 1 - r = z" using assms(1) by linarith
  then show ?thesis using assms(2,4) by (auto simp: pad_zeros_def)
qed

lemma owc_sha_store:
  assumes "unat n \<le> length p" and "unat (ctx_buflen c) + unat n \<le> length (ctx_buf c)"
  shows "sha_store c p n =
     Some (c\<lparr>ctx_buf := patch (ctx_buf c) (unat (ctx_buflen c)) (take (unat n) p), ctx_buflen := ctx_buflen c + n\<rparr>)"
  using assms by (simp add: sha_store_def c_for_copy)

lemma sha_zeros_eq:
  assumes "ctx_buflen c \<le> lim" and "unat lim \<le> length (ctx_buf c)"
  shows "sha_zeros lim c =
     Some (c\<lparr>ctx_buf := patch (ctx_buf c) (unat (ctx_buflen c)) (replicate (unat lim - unat (ctx_buflen c)) 0),
             ctx_buflen := lim\<rparr>)"
  using assms
proof (induction lim c rule: sha_zeros.induct)
  case (1 lim c)
  show ?case
  proof (cases "ctx_buflen c < lim")
    case True
    let ?c = "c\<lparr>ctx_buf := (ctx_buf c)[unat (ctx_buflen c) := 0], ctx_buflen := ctx_buflen c + 1\<rparr>"
    have in_buf: "unat (ctx_buflen c) < length (ctx_buf c)" and lt: "unat (ctx_buflen c) < unat lim"
      using True "1.prems"(2) by (simp_all add: word_less_nat_alt)
    then have push: "sha_push c 0 = Some ?c" by (simp add: sha_push_def)
    have n: "unat (ctx_buflen c + 1) = Suc (unat (ctx_buflen c))" using True by (rule unat_add1_less)
    have "sha_zeros lim ?c = Some (?c\<lparr>ctx_buf := patch (ctx_buf ?c) (unat (ctx_buflen ?c))
        (replicate (unat lim - unat (ctx_buflen ?c)) 0), ctx_buflen := lim\<rparr>)"
      by (rule "1.IH" [OF True push]) (use n lt "1.prems"(2) in \<open>simp_all add: word_le_nat_alt\<close>)
    moreover have "unat lim - unat (ctx_buflen c) = Suc (unat lim - Suc (unat (ctx_buflen c)))" using lt by simp
    ultimately show ?thesis
      using True push n in_buf by (subst sha_zeros.simps) (simp add: patch_Cons)
  next
    case False
    then have "ctx_buflen c = lim" using "1.prems"(1) by simp
    then show ?thesis by (subst sha_zeros.simps) simp
  qed
qed

section \<open>The interface of a compression function\<close>

locale md_hash =
  fixes compress :: compressor and B :: u64 and rep :: "u64 list \<Rightarrow> 's" and blk_step :: "'s \<Rightarrow> u8 list \<Rightarrow> 's"
  assumes B_pos: "B \<noteq> 0"
    and B_buf: "unat B \<le> 128"
    and compress: "length (ctx_h c) = 8 \<Longrightarrow> unat B \<le> length blk \<Longrightarrow>
      \<exists>h. compress c blk = Some (c\<lparr>ctx_h := h\<rparr>) \<and> length h = 8 \<and> rep h = blk_step (rep (ctx_h c)) (take (unat B) blk)"
begin

text \<open>The context has absorbed \<open>m\<close>: whole blocks in the state, the rest in the buffer.\<close>

definition absorbed :: "'s \<Rightarrow> owcrypt_sha_ctx_t \<Rightarrow> u8 list \<Rightarrow> bool" where
  "absorbed iv c m \<longleftrightarrow> sha_ctx_ok c \<and> unat (ctx_buflen c) < unat B \<and>
     (\<exists>bs. all_len (unat B) bs \<and> m = concat bs @ take (unat (ctx_buflen c)) (ctx_buf c) \<and>
           rep (ctx_h c) = foldl blk_step iv bs)"

lemma absorbedI:
  assumes "sha_ctx_ok c" and "unat (ctx_buflen c) < unat B" and "all_len (unat B) bs"
    and "m = concat bs @ take (unat (ctx_buflen c)) (ctx_buf c)" and "rep (ctx_h c) = foldl blk_step iv bs"
  shows "absorbed iv c m"
  using assms unfolding absorbed_def by blast

lemma absorbedE:
  assumes "absorbed iv c m"
  obtains bs where "sha_ctx_ok c" and "unat (ctx_buflen c) < unat B" and "all_len (unat B) bs"
    and "m = concat bs @ take (unat (ctx_buflen c)) (ctx_buf c)" and "rep (ctx_h c) = foldl blk_step iv bs"
  using assms unfolding absorbed_def by blast

lemma absorbed_lt: "absorbed iv c m \<Longrightarrow> unat (ctx_buflen c) < unat B"
  by (simp add: absorbed_def)

lemma compress_buf:
  assumes "sha_ctx_ok c" and "rep (ctx_h c) = foldl blk_step iv bs" and "all_len (unat B) bs"
  obtains h where "compress c (ctx_buf c) = Some (c\<lparr>ctx_h := h\<rparr>)" and "length h = 8"
    and "rep h = foldl blk_step iv (bs @ [take (unat B) (ctx_buf c)])"
    and "all_len (unat B) (bs @ [take (unat B) (ctx_buf c)])"
proof -
  have "length (ctx_h c) = 8" "unat B \<le> length (ctx_buf c)"
    using assms(1) B_buf by (simp_all add: sha_ctx_ok_def)
  from compress [OF this] assms B_buf that show ?thesis
    by (auto simp: sha_ctx_ok_def)
qed

lemma blocks:
  assumes "unat n \<le> length p" and "length (ctx_h c) = 8"
  shows "\<exists>h bs q k. sha_blocks compress B c p n = Some (c\<lparr>ctx_h := h\<rparr>, q, k) \<and> length h = 8 \<and>
     all_len (unat B) bs \<and> rep h = foldl blk_step (rep (ctx_h c)) bs \<and>
     unat k < unat B \<and> unat k \<le> length q \<and> take (unat n) p = concat bs @ take (unat k) q"
  using assms
proof (induction "unat n" arbitrary: c p n rule: less_induct)
  case less
  show ?case
  proof (cases "B \<le> n")
    case True
    then have le: "unat B \<le> unat n" by (simp add: word_le_nat_alt)
    obtain h where h: "compress c p = Some (c\<lparr>ctx_h := h\<rparr>)" "length h = 8"
        "rep h = blk_step (rep (ctx_h c)) (take (unat B) p)"
      using compress [of c p] less.prems le by auto
    have m: "unat (n - B) = unat n - unat B" using True by (rule unat_sub_le)
    then have dec: "unat (n - B) < unat n" using le B_pos unat_gt_0 [of B] by linarith
    have rest: "unat (n - B) \<le> length (drop (unat B) p)" using m less.prems(1) by simp
    obtain h' bs q k where r:
        "sha_blocks compress B (c\<lparr>ctx_h := h\<rparr>) (drop (unat B) p) (n - B) = Some (c\<lparr>ctx_h := h'\<rparr>, q, k)"
        "length h' = 8" "all_len (unat B) bs" "rep h' = foldl blk_step (rep h) bs"
        "unat k < unat B" "unat k \<le> length q" "take (unat (n - B)) (drop (unat B) p) = concat bs @ take (unat k) q"
      using less.hyps [OF dec rest, of "c\<lparr>ctx_h := h\<rparr>"] h(2) by auto
    have "take (unat n) p = take (unat B) p @ take (unat n - unat B) (drop (unat B) p)"
      using le by (metis le_add_diff_inverse take_add)
    then have "take (unat n) p = concat (take (unat B) p # bs) @ take (unat k) q"
      using r(7) m by simp
    moreover have "all_len (unat B) (take (unat B) p # bs)"
      using r(3) le less.prems(1) by simp
    moreover have "rep h' = foldl blk_step (rep (ctx_h c)) (take (unat B) p # bs)"
      using r(4) h(3) by simp
    moreover have "sha_blocks compress B c p n = Some (c\<lparr>ctx_h := h'\<rparr>, q, k)"
      using True B_pos h(1) r(1) by (subst sha_blocks.simps) simp
    ultimately show ?thesis using r(2,5,6) by blast
  next
    case False
    then have "sha_blocks compress B c p n = Some (c, p, n)" by (subst sha_blocks.simps) simp
    then show ?thesis using False less.prems
      by (intro exI [of _ "ctx_h c"] exI [of _ "[]"] exI [of _ p] exI [of _ n])
        (simp add: not_le word_less_nat_alt)
  qed
qed

lemma store_absorbs:
  assumes "absorbed iv c m" and "unat n \<le> length p" and "unat (ctx_buflen c) + unat n < unat B"
  shows "\<exists>d. sha_store c p n = Some d \<and> ctx_total d = ctx_total c \<and> absorbed iv d (m @ take (unat n) p)"
proof -
  let ?l = "unat (ctx_buflen c)"
  let ?d = "c\<lparr>ctx_buf := patch (ctx_buf c) ?l (take (unat n) p), ctx_buflen := ctx_buflen c + n\<rparr>"
  obtain bs where c: "sha_ctx_ok c" "?l < unat B" "all_len (unat B) bs"
      "m = concat bs @ take ?l (ctx_buf c)" "rep (ctx_h c) = foldl blk_step iv bs"
    by (rule absorbedE [OF assms(1)])
  have room: "?l + unat n \<le> length (ctx_buf c)" and small: "?l + unat n < 2 ^ 64"
    using assms(3) B_buf c(1) by (simp_all add: sha_ctx_ok_def)
  have len: "unat (ctx_buflen c + n) = ?l + unat n" using small by (simp add: unat_word_ariths)
  have "take (?l + unat n) (patch (ctx_buf c) ?l (take (unat n) p)) = take ?l (ctx_buf c) @ take (unat n) p"
    using take_patch [of ?l "take (unat n) p" "ctx_buf c"] room assms(2) by (simp add: min.absorb2)
  then have "absorbed iv ?d (m @ take (unat n) p)"
    using c(1,3,4,5) len assms(3) room assms(2) by (intro absorbedI [where bs = bs]) (simp_all add: sha_ctx_ok_def)
  then show ?thesis using owc_sha_store [OF assms(2) room] by auto
qed

lemma fill_absorbs:
  assumes "absorbed iv c m" and "unat n \<le> length p"
  shows "\<exists>d q k. sha_fill compress B c p n = Some (d, q, k) \<and> ctx_total d = ctx_total c \<and>
     unat k \<le> length q \<and> absorbed iv d (m @ take (unat n - unat k) p) \<and> unat k \<le> unat n \<and>
     take (unat k) q = drop (unat n - unat k) (take (unat n) p) \<and> (ctx_buflen d = 0 \<or> k = 0)"
proof -
  let ?l = "unat (ctx_buflen c)"
  obtain bs where c: "sha_ctx_ok c" "?l < unat B" "all_len (unat B) bs"
      "m = concat bs @ take ?l (ctx_buf c)" "rep (ctx_h c) = foldl blk_step iv bs"
    by (rule absorbedE [OF assms(1)])
  have need: "unat (B - ctx_buflen c) = unat B - ?l"
    using c(2) by (intro unat_sub_le) (simp add: word_le_nat_alt)
  show ?thesis
  proof (cases "n < B - ctx_buflen c")
    case True
    then have "unat n < unat B - ?l" using need by (simp add: word_less_nat_alt)
    then have lt: "?l + unat n < unat B" by simp
    obtain d where d: "sha_store c p n = Some d" "ctx_total d = ctx_total c" "absorbed iv d (m @ take (unat n) p)"
      using store_absorbs [OF assms lt] by blast
    have "ctx_buflen d \<noteq> B" using absorbed_lt [OF d(3)] by auto
    then have "sha_fill compress B c p n = Some (d, drop (unat n) p, 0)"
      using True d(1) by (simp add: sha_fill_def)
    then show ?thesis using d by (intro exI [of _ d] exI [of _ "drop (unat n) p"] exI [of _ 0]) simp
  next
    case False
    let ?n = "B - ctx_buflen c"
    let ?b = "patch (ctx_buf c) ?l (take (unat ?n) p)"
    let ?c = "c\<lparr>ctx_buf := ?b, ctx_buflen := B\<rparr>"
    have le: "unat ?n \<le> unat n" using False by (simp add: word_le_nat_alt not_less)
    have p: "unat ?n \<le> length p" using le assms(2) by simp
    have room: "?l + unat ?n \<le> length (ctx_buf c)" using need c(1,2) B_buf by (simp add: sha_ctx_ok_def)
    have store: "sha_store c p ?n = Some ?c" using owc_sha_store [OF p room] by simp
    have full: "?l + unat ?n = unat B" using need c(2) by simp
    then have "take (unat B) ?b = take ?l (ctx_buf c) @ take (unat ?n) p"
      using take_patch [of ?l "take (unat ?n) p" "ctx_buf c"] room p by (simp add: min.absorb2)
    moreover have ok: "sha_ctx_ok ?c" using c(1) room p by (simp add: sha_ctx_ok_def)
    ultimately obtain h where h: "compress ?c ?b = Some (?c\<lparr>ctx_h := h\<rparr>)" "length h = 8"
        "rep h = foldl blk_step iv (bs @ [take ?l (ctx_buf c) @ take (unat ?n) p])"
        "all_len (unat B) (bs @ [take ?l (ctx_buf c) @ take (unat ?n) p])"
      using compress_buf [of ?c iv bs] c(3,5) by auto
    let ?d = "?c\<lparr>ctx_h := h, ctx_buflen := 0\<rparr>"
    have "sha_fill compress B c p n = Some (?d, drop (unat ?n) p, n - ?n)"
      using False store h(1) by (simp add: sha_fill_def Let_def)
    moreover have "unat (n - ?n) = unat n - unat ?n" using False by (intro unat_sub_le) simp
    moreover have "absorbed iv ?d (m @ take (unat ?n) p)"
      using h c(4) ok B_pos by (intro absorbedI [where bs = "bs @ [take ?l (ctx_buf c) @ take (unat ?n) p]"])
        (simp_all add: sha_ctx_ok_def unat_gt_0)
    ultimately show ?thesis using le assms(2)
      by (intro exI [of _ ?d] exI [of _ "drop (unat ?n) p"] exI [of _ "n - ?n"]) (simp add: drop_take)
  qed
qed

lemma blocks_absorb:
  assumes "absorbed iv c m" and "ctx_buflen c = 0" and "unat n \<le> length p"
  shows "\<exists>d. do { (c, p, n) \<leftarrow> sha_blocks compress B c p n; sha_store c p n } = Some d \<and>
     ctx_total d = ctx_total c \<and> absorbed iv d (m @ take (unat n) p)"
proof -
  obtain bs where c: "sha_ctx_ok c" "all_len (unat B) bs" "m = concat bs" "rep (ctx_h c) = foldl blk_step iv bs"
    using absorbedE [OF assms(1)] assms(2) by (metis append_Nil2 take_0 unsigned_0)
  then obtain h cs q k where b: "sha_blocks compress B c p n = Some (c\<lparr>ctx_h := h\<rparr>, q, k)" "length h = 8"
      "all_len (unat B) cs" "rep h = foldl blk_step (rep (ctx_h c)) cs" "unat k < unat B" "unat k \<le> length q"
      "take (unat n) p = concat cs @ take (unat k) q"
    using blocks [of n p c] assms(3) unfolding sha_ctx_ok_def by blast
  have "absorbed iv (c\<lparr>ctx_h := h\<rparr>) (concat (bs @ cs))"
    using c b(2,3,4,5) assms(2) by (intro absorbedI [where bs = "bs @ cs"]) (auto simp: sha_ctx_ok_def)
  from store_absorbs [OF this b(6)] b(1,5,7) assms(2) c(3) show ?thesis by auto
qed

lemma update_absorbs:
  assumes "absorbed iv c m" and "unat n \<le> length p"
  shows "\<exists>d. sha_update compress B c p n = Some d \<and> absorbed iv d (m @ take (unat n) p) \<and>
     ctx_total d ! 0 = ctx_total c ! 0 + n"
proof -
  let ?c = "c\<lparr>ctx_total := (ctx_total c)[0 := ctx_total c ! 0 + n]\<rparr>"
  have ok: "sha_ctx_ok c" using assms(1) by (rule absorbedE)
  then have a: "absorbed iv ?c m" using assms(1) by (auto simp: absorbed_def sha_ctx_ok_def)
  have t: "0 < length (ctx_total c)" using ok by (simp add: sha_ctx_ok_def)
  define rest where "rest = (\<lambda>(c, p, n). do { (c, p, n) \<leftarrow> sha_blocks compress B c p n; sha_store c p n })"
  have upd: "sha_update compress B c p n =
      (if ctx_buflen c \<noteq> 0 then sha_fill compress B ?c p n else Some (?c, p, n)) \<bind> rest"
    using t by (simp add: sha_update_def rest_def)
  show ?thesis
  proof (cases "ctx_buflen c = 0")
    case True
    then show ?thesis using blocks_absorb [OF a _ assms(2)] upd t by (auto simp: rest_def)
  next
    case False
    obtain d q k where d: "sha_fill compress B ?c p n = Some (d, q, k)" "ctx_total d = ctx_total ?c"
        "unat k \<le> length q" "absorbed iv d (m @ take (unat n - unat k) p)" "unat k \<le> unat n"
        "take (unat k) q = drop (unat n - unat k) (take (unat n) p)" "ctx_buflen d = 0 \<or> k = 0"
      using fill_absorbs [OF a assms(2)] by blast
    have m: "(m @ take (unat n - unat k) p) @ take (unat k) q = m @ take (unat n) p"
      using d(5,6) by (metis append.assoc append_take_drop_id diff_le_self min.absorb1 take_take)
    have "\<exists>e. rest (d, q, k) = Some e \<and> ctx_total e = ctx_total d \<and> absorbed iv e (m @ take (unat n) p)"
      using d(7)
    proof
      assume "ctx_buflen d = 0"
      from blocks_absorb [OF d(4) this d(3)] show ?thesis unfolding m by (simp add: rest_def)
    next
      assume k: "k = 0"
      have "sha_blocks compress B d q 0 = Some (d, q, 0)" using B_pos by (subst sha_blocks.simps) simp
      moreover have "unat (ctx_buflen d) + unat (0 :: u64) < unat B" using absorbed_lt [OF d(4)] by simp
      from store_absorbs [OF d(4) _ this] have "\<exists>e. sha_store d q 0 = Some e \<and> ctx_total e = ctx_total d \<and>
          absorbed iv e (m @ take (unat n) p)" using k by simp
      ultimately show ?thesis using k by (simp add: rest_def)
    qed
    then show ?thesis using upd False d(1,2) t by auto
  qed
qed

lemma pad:
  assumes "absorbed iv c m" and "unat L < unat B"
  shows "\<exists>d bs. sha_pad compress B L c = Some d \<and> sha_ctx_ok d \<and> all_len (unat B) bs \<and>
     rep (ctx_h d) = foldl blk_step iv bs \<and>
     concat bs @ take (unat L) (ctx_buf d) = m @ 0x80 # replicate (pad_zeros (unat B) (unat L) (length m)) 0"
proof -
  let ?l = "unat (ctx_buflen c)"
  obtain bs where c: "sha_ctx_ok c" "?l < unat B" "all_len (unat B) bs"
      "m = concat bs @ take ?l (ctx_buf c)" "rep (ctx_h c) = foldl blk_step iv bs"
    by (rule absorbedE [OF assms(1)])
  have buf: "length (ctx_buf c) = 128" and lB: "Suc ?l \<le> unat B" using c(1,2) by (simp_all add: sha_ctx_ok_def)
  have n1: "unat (ctx_buflen c + 1) = Suc ?l"
    using c(2) B_buf by (intro unat_add1) simp
  let ?c = "c\<lparr>ctx_buf := (ctx_buf c)[?l := 0x80], ctx_buflen := ctx_buflen c + 1\<rparr>"
  have push: "sha_push c 0x80 = Some ?c" using lB B_buf buf by (simp add: sha_push_def)
  have zeros: "sha_zeros lim ?c =
      Some (?c\<lparr>ctx_buf := patch (ctx_buf c) ?l (0x80 # replicate (unat lim - Suc ?l) 0), ctx_buflen := lim\<rparr>)"
    and tk: "take (unat lim) (patch (ctx_buf c) ?l (0x80 # replicate (unat lim - Suc ?l) 0)) =
      take ?l (ctx_buf c) @ 0x80 # replicate (unat lim - Suc ?l) 0"
    if "Suc ?l \<le> unat lim" "unat lim \<le> 128" for lim
    using that n1 buf
    by (simp add: sha_zeros_eq word_le_nat_alt patch_Cons, intro take_patch_eq) simp_all
  have mod: "length m mod unat B = ?l"
    using c(2,3,4) buf B_buf by (simp add: length_concat_all_len min_def)
  show ?thesis
  proof (cases "L < ctx_buflen c + 1")
    case False
    then have l: "Suc ?l \<le> unat L" by (simp add: not_less word_le_nat_alt n1)
    have L: "unat L \<le> 128" using assms(2) B_buf by simp
    have z: "pad_zeros (unat B) (unat L) (length m) = unat L - Suc ?l"
      using l mod assms(2) c(2) by (intro pad_zeros_eq [where r = ?l]) auto
    let ?d = "?c\<lparr>ctx_buf := patch (ctx_buf c) ?l (0x80 # replicate (unat L - Suc ?l) 0), ctx_buflen := L\<rparr>"
    have "sha_pad compress B L c = Some ?d"
      using False push zeros [OF l L] by (simp add: sha_pad_def)
    moreover have "sha_ctx_ok ?d" using c(1) l L by (simp add: sha_ctx_ok_def)
    ultimately show ?thesis using c(3,4,5) tk [OF l L] z
      by (intro exI [of _ ?d] exI [of _ bs]) simp
  next
    case True
    then have l: "unat L < Suc ?l" by (simp add: word_less_nat_alt n1)
    let ?b = "patch (ctx_buf c) ?l (0x80 # replicate (unat B - Suc ?l) 0)"
    let ?e = "?c\<lparr>ctx_buf := ?b, ctx_buflen := B\<rparr>"
    let ?last = "take ?l (ctx_buf c) @ 0x80 # replicate (unat B - Suc ?l) 0"
    have z: "pad_zeros (unat B) (unat L) (length m) = unat B - Suc ?l + unat L"
      using l lB mod c(2) by (intro pad_zeros_eq [where r = ?l]) auto
    have ok: "sha_ctx_ok ?e" using c(1) lB B_buf by (simp add: sha_ctx_ok_def)
    obtain h where h: "compress ?e ?b = Some (?e\<lparr>ctx_h := h\<rparr>)" "length h = 8"
        "rep h = foldl blk_step iv (bs @ [?last])" "all_len (unat B) (bs @ [?last])"
      using compress_buf [OF ok, of iv bs] c(3,5) tk [OF lB B_buf] by auto
    let ?d = "?e\<lparr>ctx_h := h, ctx_buf := patch ?b 0 (replicate (unat L) 0), ctx_buflen := L\<rparr>"
    have lb: "unat L \<le> length ?b" using ok assms(2) B_buf by (simp add: sha_ctx_ok_def)
    have "sha_zeros L (?e\<lparr>ctx_h := h, ctx_buflen := 0\<rparr>) = Some ?d"
      using sha_zeros_eq [of "?e\<lparr>ctx_h := h, ctx_buflen := 0\<rparr>" L] lb by simp
    then have "sha_pad compress B L c = Some ?d"
      using True push zeros [OF lB B_buf] h(1) by (simp add: sha_pad_def)
    moreover have "sha_ctx_ok ?d" using ok h(2) lb by (simp add: sha_ctx_ok_def)
    moreover have "take (unat L) (patch ?b 0 (replicate (unat L) 0)) = replicate (unat L) 0"
      by (simp add: patch_def)
    ultimately show ?thesis using h(3,4) c(4) z
      by (intro exI [of _ ?d] exI [of _ "bs @ [?last]"]) (simp add: replicate_add)
  qed
qed

text \<open>The last block: the length field \<open>len\<close> fills the rest of the block.\<close>

lemma finish:
  assumes "absorbed iv c m" and "unat L < unat B" and "unat L + length len = unat B"
  shows "\<exists>d h. sha_pad compress B L c = Some d \<and> length (ctx_buf d) = 128 \<and>
     compress (d\<lparr>ctx_buf := patch (ctx_buf d) (unat L) len\<rparr>) (patch (ctx_buf d) (unat L) len) =
       Some (d\<lparr>ctx_buf := patch (ctx_buf d) (unat L) len, ctx_h := h\<rparr>) \<and> sha_ctx_ok d \<and>
     length h = 8 \<and> rep h = foldl blk_step iv (chunks (unat B) (fips_pad (unat B) (unat L) len m))"
proof -
  obtain d bs where d: "sha_pad compress B L c = Some d" "sha_ctx_ok d" "all_len (unat B) bs"
      "rep (ctx_h d) = foldl blk_step iv bs"
      "concat bs @ take (unat L) (ctx_buf d) = m @ 0x80 # replicate (pad_zeros (unat B) (unat L) (length m)) 0"
    using pad [OF assms(1,2)] by blast
  let ?b = "patch (ctx_buf d) (unat L) len"
  let ?last = "take (unat L) (ctx_buf d) @ len"
  have buf: "length (ctx_buf d) = 128" using d(2) by (simp add: sha_ctx_ok_def)
  have ok: "sha_ctx_ok (d\<lparr>ctx_buf := ?b\<rparr>)" using d(2) assms(3) B_buf by (simp add: sha_ctx_ok_def)
  have tk: "take (unat B) ?b = ?last"
    using take_patch [of "unat L" len "ctx_buf d"] assms(3) B_buf buf by simp
  obtain h where h: "compress (d\<lparr>ctx_buf := ?b\<rparr>) ?b = Some (d\<lparr>ctx_buf := ?b, ctx_h := h\<rparr>)" "length h = 8"
      "rep h = foldl blk_step iv (bs @ [?last])" "all_len (unat B) (bs @ [?last])"
    using compress_buf [OF ok, of iv bs] d(3,4) tk by auto
  have "fips_pad (unat B) (unat L) len m = concat (bs @ [?last])"
    using d(5) by (simp add: fips_pad_def)
  then have "chunks (unat B) (fips_pad (unat B) (unat L) len m) = bs @ [?last]"
    using chunks_concat [OF h(4)] B_pos by (simp add: unat_gt_0)
  then show ?thesis using d(1,2) buf h(1,2,3) by (intro exI [of _ d] exI [of _ h]) simp
qed

end

section \<open>SHA-256 and SHA-512 provide it\<close>

interpretation sha256: md_hash owc_sha256_compress 64 "\<lambda>h. map_regs ucast (regs_of h)" fips256_block
  using owc_sha256_compress_block by unfold_locales simp_all

interpretation sha512: md_hash owc_sha512_compress 128 regs_of fips512_block
  using owc_sha512_compress_block by unfold_locales simp_all

lemma list_regs_of: "list_regs (map_regs f (regs_of h)) = map (\<lambda>i. f (h ! i)) [0..<8]"
  "list_regs (regs_of h) = map (\<lambda>i. h ! i) [0..<8]"
  by (simp_all add: list_regs_def map_regs_def regs_of_def upt_rec numeral_eq_Suc)

definition sha256_holds :: "owcrypt_sha_ctx_t \<Rightarrow> u8 list \<Rightarrow> bool" where
  "sha256_holds c m \<longleftrightarrow>
     sha256.absorbed (regs_of (map ucast sha256_iv)) c m \<and> ctx_total c ! 0 = of_nat (length m)"

definition sha512_holds :: "owcrypt_sha_ctx_t \<Rightarrow> u8 list \<Rightarrow> bool" where
  "sha512_holds c m \<longleftrightarrow> sha512.absorbed (regs_of sha512_iv) c m \<and> ctx_total c ! 0 = of_nat (length m)"

lemma sha256_init_holds: "sha_ctx_ok c \<Longrightarrow> sha256_holds (owcrypt_sha256_init c) []"
  unfolding sha256_holds_def
  by (intro conjI sha256.absorbedI [where bs = "[]"])
    (simp_all add: owcrypt_sha256_init_def sha_init_def sha_ctx_ok_def sha256_iv_def map_regs_def regs_of_def)

lemma sha512_init_holds: "sha_ctx_ok c \<Longrightarrow> sha512_holds (owcrypt_sha512_init c) []"
  unfolding sha512_holds_def
  by (intro conjI sha512.absorbedI [where bs = "[]"])
    (simp_all add: owcrypt_sha512_init_def sha_init_def sha_ctx_ok_def sha512_iv_def)

lemma sha256_update_holds:
  assumes "sha256_holds c m" and "unat n \<le> length p"
  shows "\<exists>d. owcrypt_sha256_update c p n = Some d \<and> sha256_holds d (m @ take (unat n) p)"
proof -
  have a: "sha256.absorbed (regs_of (map ucast sha256_iv)) c m" and t: "ctx_total c ! 0 = of_nat (length m)"
    using assms(1) by (simp_all add: sha256_holds_def)
  from sha256.update_absorbs [OF a assms(2)] t assms(2) show ?thesis
    by (auto simp: sha256_holds_def owcrypt_sha256_update_def min_def)
qed

lemma sha512_update_holds:
  assumes "sha512_holds c m" and "unat n \<le> length p"
  shows "\<exists>d. owcrypt_sha512_update c p n = Some d \<and> sha512_holds d (m @ take (unat n) p)"
proof -
  have a: "sha512.absorbed (regs_of sha512_iv) c m" and t: "ctx_total c ! 0 = of_nat (length m)"
    using assms(1) by (simp_all add: sha512_holds_def)
  from sha512.update_absorbs [OF a assms(2)] t assms(2) show ?thesis
    by (auto simp: sha512_holds_def owcrypt_sha512_update_def min_def)
qed

lemma sha256_final_holds:
  assumes "sha256_holds c m" and "32 \<le> length out"
  shows "\<exists>d. owcrypt_sha256_final c out = Some (d, patch out 0 (fips256 m)) \<and> sha_ctx_ok d"
proof -
  let ?iv = "regs_of (map ucast sha256_iv) :: u32 regs"
  let ?len = "be_bytes 8 (of_nat (8 * length m) :: u64)"
  have bits: "ctx_total c ! 0 * 8 = of_nat (8 * length m)" and ok: "sha_ctx_ok c"
    using assms(1) by (auto simp: sha256_holds_def sha256.absorbed_def)
  obtain d h where d: "sha_pad owc_sha256_compress 64 56 c = Some d" "length (ctx_buf d) = 128"
      "owc_sha256_compress (d\<lparr>ctx_buf := patch (ctx_buf d) 56 ?len\<rparr>) (patch (ctx_buf d) 56 ?len) =
         Some (d\<lparr>ctx_buf := patch (ctx_buf d) 56 ?len, ctx_h := h\<rparr>)" "sha_ctx_ok d" "length h = 8"
      "map_regs ucast (regs_of h) = foldl fips256_block ?iv (chunks 64 (fips_pad 64 56 ?len m))"
    using sha256.finish [of ?iv c m 56 ?len] assms(1) by (auto simp: sha256_holds_def)
  have "c_for 0 8 (\<lambda>i out. do { v \<leftarrow> c_rd h i; owc_put32 out (4 * i) (ucast v) }) out =
      Some (patch out 0 (concat (map (\<lambda>i. be_bytes 4 (ucast (h ! i) :: u32)) [0..<8])))"
    using assms(2) d(5) by (intro c_for_store [where w = 4]) (simp_all add: owc_put_eq)
  moreover have "concat (map (\<lambda>i. be_bytes 4 (ucast (h ! i) :: u32)) [0..<8]) = fips256 m"
    unfolding fips256_def d(6) [symmetric] list_regs_of by (simp add: comp_def)
  ultimately show ?thesis
    using d(1,2,3,4,5) bits ok
    by (simp add: owcrypt_sha256_final_def sha_ctx_ok_def owc_put_eq)
qed

lemma be_bytes_16: "n < 2 ^ 64 \<Longrightarrow>
  be_bytes 16 (of_nat n :: 128 word) = be_bytes 8 (0 :: u64) @ be_bytes 8 (of_nat n :: u64)"
proof -
  assume n: "n < 2 ^ 64"
  let ?w = "of_nat n :: u64"
  have w: "(of_nat n :: 128 word) = ucast ?w"
    using n by (intro word_unat_eq_iff [THEN iffD2]) (simp add: unat_ucast_up unat_of_nat)
  have "drop_bit 64 (ucast ?w :: 128 word) = 0" by (rule bit_word_eqI) (auto simp: bit_simps dest: bit_imp_le_length)
  moreover have "le_bytes 8 (0 :: 128 word) = le_bytes 8 (0 :: u64)" by (simp add: numeral_eq_Suc)
  ultimately show ?thesis
    using le_bytes_add [of 8 8 "ucast ?w :: 128 word"] unfolding w be_bytes_def
    by (simp add: le_bytes_ucast)
qed

lemma sha512_final_holds:
  assumes "sha512_holds c m" and "64 \<le> length out" and "length m < 2 ^ 61"
  shows "\<exists>d. owcrypt_sha512_final c out = Some (d, patch out 0 (fips512 m)) \<and> sha_ctx_ok d"
proof -
  let ?iv = "regs_of sha512_iv"
  let ?lo = "be_bytes 8 (of_nat (8 * length m) :: u64)"
  let ?len = "be_bytes 16 (of_nat (8 * length m) :: 128 word)"
  have len: "?len = be_bytes 8 (0 :: u64) @ ?lo" using assms(3) by (intro be_bytes_16) simp
  have bits: "ctx_total c ! 0 * 8 = of_nat (8 * length m)" and ok: "sha_ctx_ok c"
    using assms(1) by (auto simp: sha512_holds_def sha512.absorbed_def)
  obtain d h where d: "sha_pad owc_sha512_compress 128 112 c = Some d" "length (ctx_buf d) = 128"
      "owc_sha512_compress (d\<lparr>ctx_buf := patch (ctx_buf d) 112 ?len\<rparr>) (patch (ctx_buf d) 112 ?len) =
         Some (d\<lparr>ctx_buf := patch (ctx_buf d) 112 ?len, ctx_h := h\<rparr>)" "sha_ctx_ok d" "length h = 8"
      "regs_of h = foldl fips512_block ?iv (chunks 128 (fips_pad 128 112 ?len m))"
    using sha512.finish [of ?iv c m 112 ?len] assms(1) by (auto simp: sha512_holds_def)
  have "c_for 0 8 (\<lambda>i out. do { v \<leftarrow> c_rd h i; owc_put64 out (8 * i) v }) out =
      Some (patch out 0 (concat (map (\<lambda>i. be_bytes 8 (h ! i)) [0..<8])))"
    using assms(2) d(5) by (intro c_for_store [where w = 8]) (simp_all add: owc_put_eq)
  moreover have "concat (map (\<lambda>i. be_bytes 8 (h ! i)) [0..<8]) = fips512 m"
    unfolding fips512_def d(6) [symmetric] list_regs_of by (simp add: comp_def)
  moreover have "do { b \<leftarrow> owc_put64 (ctx_buf d) 112 0; owc_put64 b 120 (of_nat (8 * length m)) } =
      Some (patch (ctx_buf d) 112 ?len)"
    using d(2) patch_append [of 112 "be_bytes 8 (0 :: u64)" ?lo "ctx_buf d"]
    unfolding len by (simp add: owc_put_eq)
  ultimately show ?thesis
    using d(1,3,4,5) bits ok
    unfolding owcrypt_sha512_final_def by (simp add: sha_ctx_ok_def bind_assoc [symmetric] del: bind_assoc)
qed

section \<open>Any division of a message into updates\<close>

fun sha256_updates :: "owcrypt_sha_ctx_t \<Rightarrow> u8 list list \<Rightarrow> owcrypt_sha_ctx_t comp" where
  "sha256_updates c [] = Some c"
| "sha256_updates c (m # ms) = do { c \<leftarrow> owcrypt_sha256_update c m (of_nat (length m)); sha256_updates c ms }"

fun sha512_updates :: "owcrypt_sha_ctx_t \<Rightarrow> u8 list list \<Rightarrow> owcrypt_sha_ctx_t comp" where
  "sha512_updates c [] = Some c"
| "sha512_updates c (m # ms) = do { c \<leftarrow> owcrypt_sha512_update c m (of_nat (length m)); sha512_updates c ms }"

definition sha256_stream :: "owcrypt_sha_ctx_t \<Rightarrow> u8 list list \<Rightarrow> u8 list \<Rightarrow> u8 list comp" where
  "sha256_stream c ms out =
     do { c \<leftarrow> sha256_updates (owcrypt_sha256_init c) ms; (c, out) \<leftarrow> owcrypt_sha256_final c out; Some out }"

definition sha512_stream :: "owcrypt_sha_ctx_t \<Rightarrow> u8 list list \<Rightarrow> u8 list \<Rightarrow> u8 list comp" where
  "sha512_stream c ms out =
     do { c \<leftarrow> sha512_updates (owcrypt_sha512_init c) ms; (c, out) \<leftarrow> owcrypt_sha512_final c out; Some out }"

lemma sha256_updates_hold:
  "sha256_holds c m \<Longrightarrow> list_all (\<lambda>x. length x < 2 ^ 64) ms \<Longrightarrow>
     \<exists>d. sha256_updates c ms = Some d \<and> sha256_holds d (m @ concat ms)"
proof (induction ms arbitrary: c m)
  case (Cons x ms)
  have n: "unat (of_nat (length x) :: u64) = length x" using Cons.prems(2) by (simp add: unat_of_nat)
  then obtain d where "owcrypt_sha256_update c x (of_nat (length x)) = Some d" "sha256_holds d (m @ x)"
    using sha256_update_holds [OF Cons.prems(1), of "of_nat (length x)" x] by auto
  then show ?case using Cons.IH [of d "m @ x"] Cons.prems(2) by simp
qed simp

lemma sha512_updates_hold:
  "sha512_holds c m \<Longrightarrow> list_all (\<lambda>x. length x < 2 ^ 64) ms \<Longrightarrow>
     \<exists>d. sha512_updates c ms = Some d \<and> sha512_holds d (m @ concat ms)"
proof (induction ms arbitrary: c m)
  case (Cons x ms)
  have n: "unat (of_nat (length x) :: u64) = length x" using Cons.prems(2) by (simp add: unat_of_nat)
  then obtain d where "owcrypt_sha512_update c x (of_nat (length x)) = Some d" "sha512_holds d (m @ x)"
    using sha512_update_holds [OF Cons.prems(1), of "of_nat (length x)" x] by auto
  then show ?case using Cons.IH [of d "m @ x"] Cons.prems(2) by simp
qed simp

lemma parts_small: "length (concat ms) < N \<Longrightarrow> list_all (\<lambda>x. length x < N) ms"
  by (induction ms) auto

lemma sha_stack_ctx_ok [simp]: "sha_ctx_ok sha_stack_ctx"
  by (simp add: sha_ctx_ok_def sha_stack_ctx_def)

lemma owcrypt_sha256_eq:
  assumes "unat n \<le> length data" and "32 \<le> length out"
  shows "owcrypt_sha256 data n out = Some (patch out 0 (fips256 (take (unat n) data)))"
proof -
  obtain d where "owcrypt_sha256_update (owcrypt_sha256_init sha_stack_ctx) data n = Some d"
      "sha256_holds d (take (unat n) data)"
    using sha256_update_holds [OF sha256_init_holds [OF sha_stack_ctx_ok] assms(1)] by auto
  with sha256_final_holds [OF _ assms(2)] show ?thesis by (fastforce simp: owcrypt_sha256_def)
qed

lemma owcrypt_sha512_eq:
  assumes "unat n \<le> length data" and "64 \<le> length out" and "unat n < 2 ^ 61"
  shows "owcrypt_sha512 data n out = Some (patch out 0 (fips512 (take (unat n) data)))"
proof -
  obtain d where "owcrypt_sha512_update (owcrypt_sha512_init sha_stack_ctx) data n = Some d"
      "sha512_holds d (take (unat n) data)"
    using sha512_update_holds [OF sha512_init_holds [OF sha_stack_ctx_ok] assms(1)] by auto
  moreover have "length (take (unat n) data) < 2 ^ 61" using assms(1,3) by simp
  ultimately show ?thesis
    using sha512_final_holds [of d "take (unat n) data" out] assms(2) by (auto simp: owcrypt_sha512_def)
qed

text \<open>C19: However a message is cut into updates, of any lengths, zero included: initialisation, the
  updates and the final call return in the first 32 bytes of the output the SHA-256 digest of the
  whole message as FIPS 180-4 defines it (for messages below 2^64 bits, the domain of the
  standard), leave the rest of the output alone and never access memory outside the context.
\<close>

theorem owcrypt_sha256_stream:
  assumes "sha_ctx_ok c" and "length (concat ms) < 2 ^ 61" and "32 \<le> length out"
  shows "sha256_stream c ms out = Some (fips256 (concat ms) @ drop 32 out)"
proof -
  have "list_all (\<lambda>x. length x < 2 ^ 64) ms" using assms(2) by (intro parts_small) simp
  then obtain d where d: "sha256_updates (owcrypt_sha256_init c) ms = Some d" "sha256_holds d (concat ms)"
    using sha256_updates_hold [OF sha256_init_holds [OF assms(1)]] by fastforce
  moreover obtain e where "owcrypt_sha256_final d out = Some (e, patch out 0 (fips256 (concat ms)))"
    using sha256_final_holds [OF d(2) assms(3)] by blast
  moreover have "length (fips256 (concat ms)) = 32"
    by (simp add: fips256_def list_regs_def split: prod.split)
  ultimately show ?thesis by (simp add: sha256_stream_def patch_0_drop)
qed

text \<open>The same for SHA-512 and its 128-bit length field, for messages below 2^61 bytes; the code
  counts the bits in 64 bits.
\<close>

theorem owcrypt_sha512_stream:
  assumes "sha_ctx_ok c" and "length (concat ms) < 2 ^ 61" and "64 \<le> length out"
  shows "sha512_stream c ms out = Some (fips512 (concat ms) @ drop 64 out)"
proof -
  have "list_all (\<lambda>x. length x < 2 ^ 64) ms" using assms(2) by (intro parts_small) simp
  then obtain d where d: "sha512_updates (owcrypt_sha512_init c) ms = Some d" "sha512_holds d (concat ms)"
    using sha512_updates_hold [OF sha512_init_holds [OF assms(1)]] by fastforce
  moreover obtain e where "owcrypt_sha512_final d out = Some (e, patch out 0 (fips512 (concat ms)))"
    using sha512_final_holds [OF d(2) assms(3,2)] by blast
  moreover have "length (fips512 (concat ms)) = 64"
    by (simp add: fips512_def list_regs_def split: prod.split)
  ultimately show ?thesis by (simp add: sha512_stream_def patch_0_drop)
qed

theorem owcrypt_sha256_stream_witness:
  "sha256_stream sha_stack_ctx [replicate 60 7, [], replicate 10 8] (replicate 33 1) =
     Some (fips256 (replicate 60 7 @ replicate 10 8) @ [1])"
  using owcrypt_sha256_stream [of sha_stack_ctx "[replicate 60 7, [], replicate 10 8]" "replicate 33 1"] by simp

theorem owcrypt_sha512_stream_witness:
  "sha512_stream sha_stack_ctx [replicate 120 7, [], replicate 10 8] (replicate 65 1) =
     Some (fips512 (replicate 120 7 @ replicate 10 8) @ [1])"
  using owcrypt_sha512_stream [of sha_stack_ctx "[replicate 120 7, [], replicate 10 8]" "replicate 65 1"] by simp

section \<open>HMAC\<close>

text \<open>RFC 2104 for a hash function \<open>H\<close> with blocks of \<open>b\<close> bytes.\<close>

definition rfc_hmac_key :: "(u8 list \<Rightarrow> u8 list) \<Rightarrow> nat \<Rightarrow> u8 list \<Rightarrow> u8 list" where
  "rfc_hmac_key H b key = (let k = (if b < length key then H key else key) in k @ replicate (b - length k) 0)"

definition rfc_hmac :: "(u8 list \<Rightarrow> u8 list) \<Rightarrow> nat \<Rightarrow> u8 list \<Rightarrow> u8 list \<Rightarrow> u8 list" where
  "rfc_hmac H b key m =
     (let k = rfc_hmac_key H b key in
      H (map (\<lambda>x. x XOR 0x5C) k @ H (map (\<lambda>x. x XOR 0x36) k @ m)))"

lemma c_for_zero:
  "a \<le> n \<Longrightarrow> n \<le> length xs \<Longrightarrow> c_for a n (\<lambda>i k. c_wr k i 0) xs = Some (patch xs a (replicate (n - a) 0))"
  using c_for_fill [of a n "\<lambda>_. Some 0" "\<lambda>_. 0" 0 xs] by (simp add: map_replicate_const)

lemma hmac_pad_eq: "length k = b \<Longrightarrow> hmac_pad b x k = Some (map (\<lambda>v. v XOR x) k)"
proof -
  assume "length k = b"
  moreover have "map (\<lambda>i. k ! i XOR x) [0..<length k] = map (\<lambda>v. v XOR x) k"
    by (rule nth_equalityI) simp_all
  ultimately show ?thesis
    using c_for_fill [of 0 b "\<lambda>i. do { v \<leftarrow> c_rd k i; Some (v XOR x) }" "\<lambda>i. k ! i XOR x" 0 "replicate b 0"]
    by (simp add: hmac_pad_def patch_0)
qed

lemma hmac_key_eq:
  assumes "unat keylen \<le> length key" and "b < 2 ^ 64" and "D \<le> b"
    and "b < unat keylen \<Longrightarrow> H key keylen (replicate b 0) = Some (patch (replicate b 0) 0 (S (take (unat keylen) key)))"
    and "length (S (take (unat keylen) key)) = D"
  shows "hmac_key H b D key keylen = Some (rfc_hmac_key S b (take (unat keylen) key))"
proof (cases "b < unat keylen")
  case True
  then have "of_nat b < keylen" using assms(2) by (simp add: word_less_nat_alt unat_of_nat)
  moreover have "patch (patch (replicate b 0) 0 (S (take (unat keylen) key))) D (replicate (b - D) 0) =
      S (take (unat keylen) key) @ replicate (b - D) 0"
    using assms(3,5) by (simp add: patch_def)
  ultimately show ?thesis
    using True assms by (simp add: hmac_key_def rfc_hmac_key_def c_for_zero min_def)
next
  case False
  then have "\<not> of_nat b < keylen" using assms(2) by (simp add: word_less_nat_alt unat_of_nat)
  moreover have "c_for 0 (unat keylen) (\<lambda>i k. do { v \<leftarrow> c_rd key i; c_wr k i v }) (replicate b 0) =
      Some (patch (replicate b 0) 0 (take (unat keylen) key))"
    using False assms(1) c_for_copy [of "unat keylen" key 0 "replicate b 0"] by simp
  moreover have "patch (patch (replicate b 0) 0 (take (unat keylen) key)) (unat keylen)
      (replicate (b - unat keylen) 0) = take (unat keylen) key @ replicate (b - unat keylen) 0"
    using False assms(1) by (simp add: patch_def)
  ultimately show ?thesis
    using False assms(1) by (simp add: hmac_key_def rfc_hmac_key_def c_for_zero min_def)
qed

lemma length_fips256 [simp]: "length (fips256 m) = 32"
  by (simp add: fips256_def list_regs_def split: prod.split)

lemma length_fips512 [simp]: "length (fips512 m) = 64"
  by (simp add: fips512_def list_regs_def split: prod.split)

lemma length_rfc_hmac_key: "length (S key) \<le> b \<Longrightarrow> length (rfc_hmac_key S b key) = b"
  by (simp add: rfc_hmac_key_def Let_def)

text \<open>Two updates and the final call, the shape of both passes.\<close>

lemma sha256_two:
  assumes "sha_ctx_ok c" and "unat j \<le> length p" and "unat k \<le> length q" and "32 \<le> length out"
  obtains d e f where "owcrypt_sha256_update (owcrypt_sha256_init c) p j = Some d"
    and "owcrypt_sha256_update d q k = Some e"
    and "owcrypt_sha256_final e out = Some (f, patch out 0 (fips256 (take (unat j) p @ take (unat k) q)))"
    and "sha_ctx_ok f"
proof -
  obtain d where d: "owcrypt_sha256_update (owcrypt_sha256_init c) p j = Some d" "sha256_holds d (take (unat j) p)"
    using sha256_update_holds [OF sha256_init_holds [OF assms(1)] assms(2)] by auto
  obtain e where e: "owcrypt_sha256_update d q k = Some e" "sha256_holds e (take (unat j) p @ take (unat k) q)"
    using sha256_update_holds [OF d(2) assms(3)] by auto
  from sha256_final_holds [OF e(2) assms(4)] d(1) e(1) that show thesis by blast
qed

lemma sha512_two:
  assumes "sha_ctx_ok c" and "unat j \<le> length p" and "unat k \<le> length q" and "64 \<le> length out"
    and "unat j + unat k < 2 ^ 61"
  obtains d e f where "owcrypt_sha512_update (owcrypt_sha512_init c) p j = Some d"
    and "owcrypt_sha512_update d q k = Some e"
    and "owcrypt_sha512_final e out = Some (f, patch out 0 (fips512 (take (unat j) p @ take (unat k) q)))"
    and "sha_ctx_ok f"
proof -
  obtain d where d: "owcrypt_sha512_update (owcrypt_sha512_init c) p j = Some d" "sha512_holds d (take (unat j) p)"
    using sha512_update_holds [OF sha512_init_holds [OF assms(1)] assms(2)] by auto
  obtain e where e: "owcrypt_sha512_update d q k = Some e" "sha512_holds e (take (unat j) p @ take (unat k) q)"
    using sha512_update_holds [OF d(2) assms(3)] by auto
  have "length (take (unat j) p @ take (unat k) q) < 2 ^ 61" using assms(2,3,5) by simp
  from sha512_final_holds [OF e(2) assms(4) this] d(1) e(1) that show thesis by blast
qed

text \<open>C33: HMAC-SHA256 returns the code of RFC 2104 over the SHA-256 of the standard, for keys of any
  length (a key longer than a block is hashed first).
\<close>

theorem owcrypt_hmac_sha256_rfc2104:
  assumes "length key < 2 ^ 61" and "length msg < 2 ^ 60" and "32 \<le> length out"
  shows "owcrypt_hmac_sha256 key (of_nat (length key)) msg (of_nat (length msg)) out =
     Some (rfc_hmac fips256 64 key msg @ drop 32 out)"
proof -
  let ?k = "rfc_hmac_key fips256 64 key"
  have n: "unat (of_nat (length key) :: u64) = length key" "unat (of_nat (length msg) :: u64) = length msg"
    using assms by (simp_all add: unat_of_nat)
  have "hmac_key owcrypt_sha256 64 32 key (of_nat (length key)) =
      Some (rfc_hmac_key fips256 64 (take (unat (of_nat (length key) :: u64)) key))"
    by (rule hmac_key_eq) (simp_all add: n owcrypt_sha256_eq)
  then have key: "hmac_key owcrypt_sha256 64 32 key (of_nat (length key)) = Some ?k" by (simp add: n)
  have k: "length ?k = 64" by (rule length_rfc_hmac_key) simp
  let ?i = "map (\<lambda>x. x XOR 0x36) ?k" and ?o = "map (\<lambda>x. x XOR 0x5C) ?k"
  obtain c d e where 1: "owcrypt_sha256_update (owcrypt_sha256_init sha_stack_ctx) ?i 64 = Some c"
      "owcrypt_sha256_update c msg (of_nat (length msg)) = Some d"
      "owcrypt_sha256_final d (replicate 32 0) =
         Some (e, patch (replicate 32 0) 0 (fips256 (take (unat (64 :: u64)) ?i @ take (unat (of_nat (length msg) :: u64)) msg)))"
      "sha_ctx_ok e"
    by (rule sha256_two [of sha_stack_ctx 64 ?i "of_nat (length msg)" msg "replicate 32 0"])
      (simp_all add: k n)
  let ?m = "fips256 (?i @ msg)"
  obtain f g h where 2: "owcrypt_sha256_update (owcrypt_sha256_init e) ?o 64 = Some f"
      "owcrypt_sha256_update f ?m 32 = Some g"
      "owcrypt_sha256_final g out =
         Some (h, patch out 0 (fips256 (take (unat (64 :: u64)) ?o @ take (unat (32 :: u64)) ?m)))"
    by (rule sha256_two [of e 64 ?o 32 ?m out]) (use 1(4) assms(3) k in simp_all)
  show ?thesis
    using 1 2 by (simp add: owcrypt_hmac_sha256_def key hmac_pad_eq k n patch_0 patch_0_drop rfc_hmac_def Let_def)
qed

theorem owcrypt_hmac_sha256_rfc2104_witness:
  "owcrypt_hmac_sha256 (replicate 100 5) 100 [1, 2, 3] 3 (replicate 32 0) =
     Some (rfc_hmac fips256 64 (replicate 100 5) [1, 2, 3])"
  using owcrypt_hmac_sha256_rfc2104 [of "replicate 100 5" "[1, 2, 3]" "replicate 32 0"] by simp

text \<open>The same for HMAC-SHA512.\<close>

theorem owcrypt_hmac_sha512_rfc2104:
  assumes "length key < 2 ^ 61" and "length msg < 2 ^ 60" and "64 \<le> length out"
  shows "owcrypt_hmac_sha512 key (of_nat (length key)) msg (of_nat (length msg)) out =
     Some (rfc_hmac fips512 128 key msg @ drop 64 out)"
proof -
  let ?k = "rfc_hmac_key fips512 128 key"
  have n: "unat (of_nat (length key) :: u64) = length key" "unat (of_nat (length msg) :: u64) = length msg"
    using assms by (simp_all add: unat_of_nat)
  have "hmac_key owcrypt_sha512 128 64 key (of_nat (length key)) =
      Some (rfc_hmac_key fips512 128 (take (unat (of_nat (length key) :: u64)) key))"
    by (rule hmac_key_eq) (use assms(1) in \<open>simp_all add: n owcrypt_sha512_eq\<close>)
  then have key: "hmac_key owcrypt_sha512 128 64 key (of_nat (length key)) = Some ?k" by (simp add: n)
  have k: "length ?k = 128" by (rule length_rfc_hmac_key) simp
  let ?i = "map (\<lambda>x. x XOR 0x36) ?k" and ?o = "map (\<lambda>x. x XOR 0x5C) ?k"
  obtain c d e where 1: "owcrypt_sha512_update (owcrypt_sha512_init sha_stack_ctx) ?i 128 = Some c"
      "owcrypt_sha512_update c msg (of_nat (length msg)) = Some d"
      "owcrypt_sha512_final d (replicate 64 0) =
         Some (e, patch (replicate 64 0) 0 (fips512 (take (unat (128 :: u64)) ?i @ take (unat (of_nat (length msg) :: u64)) msg)))"
      "sha_ctx_ok e"
    by (rule sha512_two [of sha_stack_ctx 128 ?i "of_nat (length msg)" msg "replicate 64 0"])
      (use assms(2) in \<open>simp_all add: k n\<close>)
  let ?m = "fips512 (?i @ msg)"
  obtain f g h where 2: "owcrypt_sha512_update (owcrypt_sha512_init e) ?o 128 = Some f"
      "owcrypt_sha512_update f ?m 64 = Some g"
      "owcrypt_sha512_final g out =
         Some (h, patch out 0 (fips512 (take (unat (128 :: u64)) ?o @ take (unat (64 :: u64)) ?m)))"
    by (rule sha512_two [of e 128 ?o 64 ?m out]) (use 1(4) assms(3) k in simp_all)
  show ?thesis
    using 1 2 by (simp add: owcrypt_hmac_sha512_def key hmac_pad_eq k n patch_0 patch_0_drop rfc_hmac_def Let_def)
qed

theorem owcrypt_hmac_sha512_rfc2104_witness:
  "owcrypt_hmac_sha512 (replicate 200 5) 200 [1, 2, 3] 3 (replicate 64 0) =
     Some (rfc_hmac fips512 128 (replicate 200 5) [1, 2, 3])"
  using owcrypt_hmac_sha512_rfc2104 [of "replicate 200 5" "[1, 2, 3]" "replicate 64 0"] by simp

section \<open>The constants\<close>

text \<open>
  FIPS 180-4, section 4.2 and 5.3: the round constants are the first bits of the fractional parts
  of the cube roots of the first primes, the initial values those of the square roots of the first
  eight primes. \<open>root_frac k w p v\<close> states that \<open>v\<close> is the first \<open>w\<close> bits of the
  fractional part of the \<open>k\<close>-th root of \<open>p\<close>, for roots below eight.
\<close>

definition root_frac :: "nat \<Rightarrow> nat \<Rightarrow> int \<Rightarrow> int \<Rightarrow> bool" where
  "root_frac k w p v \<longleftrightarrow>
     (let one = 2 ^ w; x = p * one ^ k in 0 \<le> v \<and> v < one \<and>
        list_ex (\<lambda>q. (q * one + v) ^ k \<le> x \<and> x < (q * one + v + 1) ^ k) [0, 1, 2, 3, 4, 5, 6, 7])"

definition primes80 :: "int list" where
  "primes80 =
    [2, 3, 5, 7, 11, 13, 17, 19, 23, 29, 31, 37, 41, 43, 47, 53, 59, 61, 67, 71,
     73, 79, 83, 89, 97, 101, 103, 107, 109, 113, 127, 131, 137, 139, 149, 151, 157, 163, 167, 173,
     179, 181, 191, 193, 197, 199, 211, 223, 227, 229, 233, 239, 241, 251, 257, 263, 269, 271, 277, 281,
     283, 293, 307, 311, 313, 317, 331, 337, 347, 349, 353, 359, 367, 373, 379, 383, 389, 397, 401, 409]"

text \<open>They are the numbers up to 409 = primes80 ! 79 with no proper divisor up to its square root.\<close>

lemma primes80_prime: "primes80 = filter (\<lambda>n. list_all (\<lambda>d. n \<le> d \<or> n mod d \<noteq> 0) [2..20]) [2..409]"
  by code_simp

text \<open>The tables of the source are the constants of the standard: every round constant and every
  initial value is the fractional part of the root that FIPS 180-4 names.
\<close>

theorem owc_sha_constants:
  "list_all2 (root_frac 3 32) (take 64 primes80) (map uint owc_sha256_k) \<and>
   list_all2 (root_frac 3 64) primes80 (map uint owc_sha512_k) \<and>
   list_all2 (root_frac 2 32) (take 8 primes80) (map uint sha256_iv) \<and>
   list_all2 (root_frac 2 64) (take 8 primes80) (map uint sha512_iv)"
  by code_simp

end
