(* ===== verification/Chacha.thy ===== *)
theory Chacha
  imports Crypt_Bytes
begin

text \<open>
  The ChaCha20 stream cipher of \<open>src/DLL/owcrypt/owcrypt.c\<close> (lines 582-650). The block
  function is shown equal to RFC 8439 stated on the rows of the state, and the stream function to
  the bytewise exclusive or with the key stream.
\<close>

unbundle bit_operations_syntax

section \<open>The code\<close>

definition owc_qr :: "u32 \<times> u32 \<times> u32 \<times> u32 \<Rightarrow> u32 \<times> u32 \<times> u32 \<times> u32" where
  "owc_qr = (\<lambda>(a, b, c, d).
     let a = a + b; d = owc_rotl32 (d XOR a) 16;
         c = c + d; b = owc_rotl32 (b XOR c) 12;
         a = a + b; d = owc_rotl32 (d XOR a) 8;
         c = c + d; b = owc_rotl32 (b XOR c) 7
     in (a, b, c, d))"

text \<open>\<open>owc_qr(&x[i], &x[j], &x[k], &x[l])\<close> for four different cells.\<close>

definition qr_at :: "nat \<Rightarrow> nat \<Rightarrow> nat \<Rightarrow> nat \<Rightarrow> u32 list \<Rightarrow> u32 list comp" where
  "qr_at i j k l x =
     do { a \<leftarrow> c_rd x i; b \<leftarrow> c_rd x j; c \<leftarrow> c_rd x k; d \<leftarrow> c_rd x l;
          let (a, b, c, d) = owc_qr (a, b, c, d);
          x \<leftarrow> c_wr x i a; x \<leftarrow> c_wr x j b; x \<leftarrow> c_wr x k c; c_wr x l d }"

definition chacha_round :: "nat \<Rightarrow> u32 list \<Rightarrow> u32 list comp" where
  "chacha_round r x =
     do { x \<leftarrow> qr_at 0 4 8 12 x; x \<leftarrow> qr_at 1 5 9 13 x; x \<leftarrow> qr_at 2 6 10 14 x; x \<leftarrow> qr_at 3 7 11 15 x;
          x \<leftarrow> qr_at 0 5 10 15 x; x \<leftarrow> qr_at 1 6 11 12 x; x \<leftarrow> qr_at 2 7 8 13 x; qr_at 3 4 9 14 x }"

text \<open>The local arrays are written before they are read; the model starts them with zeros.\<close>

definition chacha_state :: "u8 list \<Rightarrow> u8 list \<Rightarrow> u32 \<Rightarrow> u32 list comp" where
  "chacha_state key nonce counter =
     do { s \<leftarrow> c_wr (replicate 16 0) 0 0x61707865; s \<leftarrow> c_wr s 1 0x3320646e;
          s \<leftarrow> c_wr s 2 0x79622d32; s \<leftarrow> c_wr s 3 0x6b206574;
          s \<leftarrow> c_for 0 8 (\<lambda>i s. do { v \<leftarrow> owc_get32le key (4 * i); c_wr s (4 + i) v }) s;
          s \<leftarrow> c_wr s 12 counter;
          c_for 0 3 (\<lambda>i s. do { v \<leftarrow> owc_get32le nonce (4 * i); c_wr s (13 + i) v }) s }"

definition owc_chacha_block :: "u8 list \<Rightarrow> u8 list \<Rightarrow> u32 \<Rightarrow> u8 list \<Rightarrow> u8 list comp" where
  "owc_chacha_block key nonce counter out =
     do { s \<leftarrow> chacha_state key nonce counter;
          x \<leftarrow> c_for 0 16 (\<lambda>i x. do { v \<leftarrow> c_rd s i; c_wr x i v }) (replicate 16 0);
          x \<leftarrow> c_for 0 10 chacha_round x;
          c_for 0 16 (\<lambda>i out. do { v \<leftarrow> c_rd x i; w \<leftarrow> c_rd s i; owc_put32le out (4 * i) (v + w) }) out }"

text \<open>
  The input of the stream function: no input (the key stream is written), a buffer that does not
  overlap the output, or the output buffer itself.
\<close>

datatype chacha_in = In_null | In_buf "u8 list" | In_place

definition chacha_byte :: "chacha_in \<Rightarrow> u8 list \<Rightarrow> nat \<Rightarrow> u8 list \<Rightarrow> nat \<Rightarrow> u8 comp" where
  "chacha_byte src ks off out i =
     (case src of
        In_null \<Rightarrow> c_rd ks i
      | In_buf inp \<Rightarrow> do { v \<leftarrow> c_rd inp (off + i); k \<leftarrow> c_rd ks i; Some (v XOR k) }
      | In_place \<Rightarrow> do { v \<leftarrow> c_rd out (off + i); k \<leftarrow> c_rd ks i; Some (v XOR k) })"

lemma chacha_off_step:
  assumes "(off :: u64) < len" and "n = (if 64 < len - off then 64 else len - off)"
  shows "unat (off + n) = unat off + unat n" and "unat off + unat n \<le> unat len" and "0 < unat n"
    and "unat n = min 64 (unat len - unat off)"
proof -
  have d: "unat (len - off) = unat len - unat off" using assms(1) by (intro unat_sub_le) simp
  have lt: "unat off < unat len" using assms(1) by (simp add: word_less_nat_alt)
  show n: "unat n = min 64 (unat len - unat off)"
    unfolding assms(2) using d by (auto simp: word_less_nat_alt min_def)
  then show le: "unat off + unat n \<le> unat len" and "0 < unat n" using lt by simp_all
  have "unat off + unat n < 2 ^ LENGTH(64)" using le unsigned_less [of len] by (rule le_less_trans)
  then show "unat (off + n) = unat off + unat n" by (simp add: unat_word_ariths)
qed

function chacha_loop ::
  "u8 list \<Rightarrow> u8 list \<Rightarrow> chacha_in \<Rightarrow> u64 \<Rightarrow> u64 \<Rightarrow> u32 \<Rightarrow> u8 list \<Rightarrow> u8 list \<Rightarrow> u8 list comp" where
  "chacha_loop key nonce src len off counter ks out =
     (if off < len
      then do { ks \<leftarrow> owc_chacha_block key nonce counter ks;
                let n = (if 64 < len - off then 64 else len - off);
                out \<leftarrow> c_for 0 (unat n)
                  (\<lambda>i out. do { v \<leftarrow> chacha_byte src ks (unat off) out i; c_wr out (unat off + i) v }) out;
                chacha_loop key nonce src len (off + n) (counter + 1) ks out }
      else Some out)"
  by pat_completeness auto

termination
proof (relation "measure (\<lambda>(key, nonce, src, len, off, counter, ks, out). unat len - unat off)")
  fix key nonce src len off counter counter' ks out ks' n out'
  assume "(off :: u64) < len" and "n = (if 64 < len - off then 64 else len - off)"
  from chacha_off_step(1,3) [OF this] this(1)
  show "((key, nonce, src, len, off + n, counter', ks', out'), key, nonce, src, len, off, counter, ks, out) \<in>
      measure (\<lambda>(key, nonce, src, len, off, counter, ks, out). unat len - unat off)"
    by (simp add: word_less_nat_alt del: unat_eq_0_word)
qed simp

declare chacha_loop.simps [simp del]

definition owcrypt_chacha20_xor ::
  "u8 list \<Rightarrow> u8 list \<Rightarrow> u32 \<Rightarrow> chacha_in \<Rightarrow> u64 \<Rightarrow> u8 list \<Rightarrow> u8 list comp" where
  "owcrypt_chacha20_xor key nonce counter src len out =
     chacha_loop key nonce src len 0 counter (replicate 64 0) out"

section \<open>RFC 8439\<close>

text \<open>
  Section 2.1 to 2.3 on the four rows of the state: a quarter round on every column, then on every
  diagonal, which are the columns after rotating row \<open>i\<close> by \<open>i\<close>.
\<close>

definition rfc_qr :: "u32 \<times> u32 \<times> u32 \<times> u32 \<Rightarrow> u32 \<times> u32 \<times> u32 \<times> u32" where
  "rfc_qr = (\<lambda>(a, b, c, d).
     let half = (\<lambda>(r :: nat) (s :: nat) (a, b, c, d).
           let a' = a + b; d' = word_rotl r (d XOR a'); c' = c + d' in (a', word_rotl s (b XOR c'), c', d'))
     in half 8 7 (half 16 12 (a, b, c, d)))"

type_synonym rows = "u32 list \<times> u32 list \<times> u32 list \<times> u32 list"

definition on_columns :: "rows \<Rightarrow> rows" where
  "on_columns = (\<lambda>(p, q, r, s).
     let cols = map rfc_qr (zip p (zip q (zip r s)))
     in (map fst cols, map (fst \<circ> snd) cols, map (fst \<circ> snd \<circ> snd) cols, map (snd \<circ> snd \<circ> snd) cols))"

definition skew :: "nat \<Rightarrow> rows \<Rightarrow> rows" where
  "skew k = (\<lambda>(p, q, r, s). (p, rotate k q, rotate (2 * k) r, rotate (3 * k) s))"

definition double_round :: "rows \<Rightarrow> rows" where
  "double_round x = skew 3 (on_columns (skew 1 (on_columns x)))"

definition rows_of :: "u32 list \<Rightarrow> rows" where
  "rows_of x = (take 4 x, take 4 (drop 4 x), take 4 (drop 8 x), drop 12 x)"

definition of_rows :: "rows \<Rightarrow> u32 list" where
  "of_rows = (\<lambda>(p, q, r, s). p @ q @ r @ s)"

definition rfc_chacha_state :: "u8 list \<Rightarrow> u8 list \<Rightarrow> u32 \<Rightarrow> u32 list" where
  "rfc_chacha_state key nonce counter =
     [0x61707865, 0x3320646e, 0x79622d32, 0x6b206574] @
     map (\<lambda>i. le_word (take 4 (drop (4 * i) key))) [0..<8] @ [counter] @
     map (\<lambda>i. le_word (take 4 (drop (4 * i) nonce))) [0..<3]"

definition rfc_chacha_block :: "u8 list \<Rightarrow> u8 list \<Rightarrow> u32 \<Rightarrow> u8 list" where
  "rfc_chacha_block key nonce counter =
     (let s = rfc_chacha_state key nonce counter;
          x = of_rows ((double_round ^^ 10) (rows_of s))
      in concat (map (le_bytes 4) (map2 (+) x s)))"

text \<open>Section 2.4: the key stream, one block per counter value, cut to the length of the message.\<close>

definition rfc_keystream :: "u8 list \<Rightarrow> u8 list \<Rightarrow> u32 \<Rightarrow> nat \<Rightarrow> u8 list" where
  "rfc_keystream key nonce counter n =
     take n (concat (map (\<lambda>i. rfc_chacha_block key nonce (counter + of_nat i)) [0..<(n + 63) div 64]))"

definition rfc_chacha20 :: "u8 list \<Rightarrow> u8 list \<Rightarrow> u32 \<Rightarrow> u8 list \<Rightarrow> u8 list" where
  "rfc_chacha20 key nonce counter m = map2 (XOR) m (rfc_keystream key nonce counter (length m))"

section \<open>The block function\<close>

lemma owc_qr_eq: "owc_qr x = rfc_qr x"
  by (cases x) (simp add: owc_qr_def rfc_qr_def owc_rotl32_eq Let_def)

lemma list16:
  assumes "length x = 16"
  obtains a b c d e f g h i j k l m n o' p where "x = [a, b, c, d, e, f, g, h, i, j, k, l, m, n, o', p]"
  using assms by (auto simp: length_Suc_conv numeral_eq_Suc)

lemma qr_at_eq:
  assumes "length x = 16" and "i < 16" "j < 16" "k < 16" "l < 16"
  shows "qr_at i j k l x =
     (case rfc_qr (x ! i, x ! j, x ! k, x ! l) of (a, b, c, d) \<Rightarrow> Some (x[i := a, j := b, k := c, l := d]))"
  using assms by (simp add: qr_at_def owc_qr_eq split: prod.split)

lemma chacha_round_eq:
  assumes "length x = 16"
  shows "chacha_round r x = Some (of_rows (double_round (rows_of x)))"
proof -
  obtain a b c d e f g h i j k l m n o' p where x: "x = [a, b, c, d, e, f, g, h, i, j, k, l, m, n, o', p]"
    using assms by (rule list16)
  obtain a1 e1 i1 m1 where 1: "rfc_qr (a, e, i, m) = (a1, e1, i1, m1)" by (cases "rfc_qr (a, e, i, m)") auto
  obtain b1 f1 j1 n1 where 2: "rfc_qr (b, f, j, n) = (b1, f1, j1, n1)" by (cases "rfc_qr (b, f, j, n)") auto
  obtain c1 g1 k1 o1 where 3: "rfc_qr (c, g, k, o') = (c1, g1, k1, o1)" by (cases "rfc_qr (c, g, k, o')") auto
  obtain d1 h1 l1 p1 where 4: "rfc_qr (d, h, l, p) = (d1, h1, l1, p1)" by (cases "rfc_qr (d, h, l, p)") auto
  obtain a2 f2 k2 p2 where 5: "rfc_qr (a1, f1, k1, p1) = (a2, f2, k2, p2)" by (cases "rfc_qr (a1, f1, k1, p1)") auto
  obtain b2 g2 l2 m2 where 6: "rfc_qr (b1, g1, l1, m1) = (b2, g2, l2, m2)" by (cases "rfc_qr (b1, g1, l1, m1)") auto
  obtain c2 h2 i2 n2 where 7: "rfc_qr (c1, h1, i1, n1) = (c2, h2, i2, n2)" by (cases "rfc_qr (c1, h1, i1, n1)") auto
  obtain d2 e2 j2 o2 where 8: "rfc_qr (d1, e1, j1, o1) = (d2, e2, j2, o2)" by (cases "rfc_qr (d1, e1, j1, o1)") auto
  have "chacha_round r x = Some [a2, b2, c2, d2, e2, f2, g2, h2, i2, j2, k2, l2, m2, n2, o2, p2]"
    unfolding x chacha_round_def by (simp add: qr_at_eq 1 2 3 4 5 6 7 8)
  moreover have "of_rows (double_round (rows_of x)) = [a2, b2, c2, d2, e2, f2, g2, h2, i2, j2, k2, l2, m2, n2, o2, p2]"
    unfolding x double_round_def on_columns_def skew_def rows_of_def of_rows_def
    by (simp add: 1 2 3 4 5 6 7 8 numeral_eq_Suc)
  ultimately show ?thesis by simp
qed

definition rows4 :: "rows \<Rightarrow> bool" where
  "rows4 = (\<lambda>(p, q, r, s). length p = 4 \<and> length q = 4 \<and> length r = 4 \<and> length s = 4)"

lemma rows4_double_round: "rows4 x \<Longrightarrow> rows4 (double_round x)"
  by (auto simp: rows4_def double_round_def on_columns_def skew_def Let_def split: prod.splits)

lemma rows4_iterate: "rows4 x \<Longrightarrow> rows4 ((double_round ^^ n) x)"
  by (induction n) (simp_all add: rows4_double_round)

lemma rows_of_of_rows: "rows4 x \<Longrightarrow> rows_of (of_rows x) = x"
  by (auto simp: rows4_def rows_of_def of_rows_def split: prod.splits)

lemma length_of_rows: "rows4 x \<Longrightarrow> length (of_rows x) = 16"
  by (auto simp: rows4_def of_rows_def split: prod.splits)

lemma rows4_rows_of: "length x = 16 \<Longrightarrow> rows4 (rows_of x)"
  by (simp add: rows4_def rows_of_def)

lemma of_rows_rows_of: "length x = 16 \<Longrightarrow> of_rows (rows_of x) = x"
  by (erule list16) (simp add: of_rows_def rows_of_def)

lemma chacha_rounds_eq:
  assumes "length x = 16"
  shows "c_for 0 10 chacha_round x = Some (of_rows ((double_round ^^ 10) (rows_of x)))"
proof -
  define s where "s i = of_rows ((double_round ^^ i) (rows_of x))" for i
  have "c_for 0 10 chacha_round (s 0) = Some (s 10)"
  proof (rule c_for_det)
    fix i :: nat
    have r: "rows4 ((double_round ^^ i) (rows_of x))" using assms by (intro rows4_iterate rows4_rows_of)
    then show "chacha_round i (s i) = Some (s (Suc i))"
      by (simp add: s_def chacha_round_eq length_of_rows rows_of_of_rows)
  qed simp
  then show ?thesis using assms by (simp add: s_def of_rows_rows_of)
qed

lemma length_rfc_chacha_state [simp]: "length (rfc_chacha_state key nonce counter) = 16"
  by (simp add: rfc_chacha_state_def)

lemma chacha_state_eq:
  assumes "32 \<le> length key" and "12 \<le> length nonce"
  shows "chacha_state key nonce counter = Some (rfc_chacha_state key nonce counter)"
proof -
  let ?k = "\<lambda>i. le_word (take 4 (drop (4 * i) key)) :: u32"
  let ?n = "\<lambda>i. le_word (take 4 (drop (4 * i) nonce)) :: u32"
  let ?s = "[0x61707865, 0x3320646e, 0x79622d32, 0x6b206574] @ replicate 12 0 :: u32 list"
  have "c_for 0 8 (\<lambda>i s. do { v \<leftarrow> owc_get32le key (4 * i); c_wr s (4 + i) v }) ?s =
      Some (patch ?s (4 + 0) (map ?k [0..<8]))"
    using assms(1) by (intro c_for_fill) (simp_all add: owc_get_eq)
  moreover have "c_for 0 3 (\<lambda>i s. do { v \<leftarrow> owc_get32le nonce (4 * i); c_wr s (13 + i) v })
        ((patch ?s 4 (map ?k [0..<8]))[12 := counter]) =
      Some (patch ((patch ?s 4 (map ?k [0..<8]))[12 := counter]) (13 + 0) (map ?n [0..<3]))"
    using assms(2) by (intro c_for_fill) (simp_all add: owc_get_eq)
  moreover have "(replicate 16 0)[0 := 0x61707865, 1 := 0x3320646e, 2 := 0x79622d32, 3 := 0x6b206574] = ?s"
    by (simp add: numeral_eq_Suc)
  moreover have "patch ((patch ?s 4 (map ?k [0..<8]))[12 := counter]) 13 (map ?n [0..<3]) =
      rfc_chacha_state key nonce counter"
    by (simp add: patch_def rfc_chacha_state_def list_update_append numeral_eq_Suc)
  ultimately show ?thesis by (simp add: chacha_state_def)
qed

lemma length_rfc_chacha_block [simp]: "length (rfc_chacha_block key nonce counter) = 64"
proof -
  let ?s = "rfc_chacha_state key nonce counter"
  have "length (of_rows ((double_round ^^ 10) (rows_of ?s))) = 16"
    by (intro length_of_rows rows4_iterate rows4_rows_of) simp
  moreover have "length (concat (map (le_bytes 4) ys)) = 4 * length ys" for ys :: "u32 list"
    by (induction ys) simp_all
  ultimately show ?thesis by (simp add: rfc_chacha_block_def Let_def del: map_map)
qed

lemma owc_chacha_block_eq:
  assumes "32 \<le> length key" and "12 \<le> length nonce" and "64 \<le> length out"
  shows "owc_chacha_block key nonce counter out = Some (patch out 0 (rfc_chacha_block key nonce counter))"
proof -
  let ?s = "rfc_chacha_state key nonce counter"
  let ?x = "of_rows ((double_round ^^ 10) (rows_of ?s))"
  have x: "length ?x = 16" by (intro length_of_rows rows4_iterate rows4_rows_of) simp
  have "c_for 0 16 (\<lambda>i out. do { v \<leftarrow> c_rd ?x i; w \<leftarrow> c_rd ?s i; owc_put32le out (4 * i) (v + w) }) out =
      Some (patch out 0 (concat (map (\<lambda>i. le_bytes 4 (?x ! i + ?s ! i)) [0..<16])))"
    using assms(3) x by (intro c_for_store [where w = 4]) (simp_all add: owc_put_eq)
  moreover have "map (\<lambda>i. le_bytes 4 (?x ! i + ?s ! i)) [0..<16] = map (le_bytes 4) (map2 (+) ?x ?s)"
    using x by (intro nth_equalityI) simp_all
  moreover have "c_for 0 16 (\<lambda>i x. do { v \<leftarrow> c_rd ?s i; c_wr x i v }) (replicate 16 0) = Some ?s"
    using c_for_copy [of 16 ?s 0 "replicate 16 0"] by (simp add: patch_0)
  ultimately show ?thesis
    using assms by (simp add: owc_chacha_block_def chacha_state_eq chacha_rounds_eq rfc_chacha_block_def Let_def)
qed

section \<open>The stream\<close>

text \<open>The bytes that the stream function combines with the key stream.\<close>

definition chacha_input :: "chacha_in \<Rightarrow> nat \<Rightarrow> u8 list \<Rightarrow> u8 list" where
  "chacha_input src n out =
     (case src of In_null \<Rightarrow> replicate n 0 | In_buf inp \<Rightarrow> take n inp | In_place \<Rightarrow> take n out)"

definition chacha_readable :: "chacha_in \<Rightarrow> nat \<Rightarrow> bool" where
  "chacha_readable src n = (case src of In_buf inp \<Rightarrow> n \<le> length inp | _ \<Rightarrow> True)"

lemma chacha_inner:
  assumes "off + n \<le> length out" and "n \<le> 64" and "length ks = 64" and "chacha_readable src (off + n)"
    and "\<And>i. off \<le> i \<Longrightarrow> i < length out \<Longrightarrow> out ! i = org ! i" and "length org = length out"
  shows "c_for 0 n (\<lambda>i out. do { v \<leftarrow> chacha_byte src ks off out i; c_wr out (off + i) v }) out =
     Some (patch out off (map2 (XOR) (drop off (chacha_input src (off + n) org)) (take n ks)))"
proof -
  let ?b = "\<lambda>i. drop off (chacha_input src (off + n) org) ! i XOR ks ! i"
  define s where "s i = patch out off (map ?b [0..<i])" for i
  have len: "length (drop off (chacha_input src (off + n) org)) = n"
    using assms(1,4,6) by (auto simp: chacha_input_def chacha_readable_def split: chacha_in.splits)
  have "c_for 0 n (\<lambda>i out. do { v \<leftarrow> chacha_byte src ks off out i; c_wr out (off + i) v }) (s 0) = Some (s n)"
  proof (rule c_for_det)
    fix i assume i: "i < n"
    have ls: "length (s i) = length out" using i assms(1) by (simp add: s_def)
    have "s i ! (off + i) = org ! (off + i)"
      using i assms(1,5) by (simp add: s_def patch_def nth_append)
    then have "chacha_byte src ks off (s i) i = Some (?b i)"
      using i assms(1,2,3,4,6) ls
      by (auto simp: chacha_byte_def chacha_input_def chacha_readable_def split: chacha_in.splits)
    moreover have "(s i)[off + i := ?b i] = s (Suc i)"
      using patch_snoc [of off "map ?b [0..<i]" out "?b i"] i assms(1) by (simp add: s_def)
    ultimately show "do { v \<leftarrow> chacha_byte src ks off (s i) i; c_wr (s i) (off + i) v } = Some (s (Suc i))"
      using i assms(1) ls by simp
  qed simp
  moreover have "map ?b [0..<n] = map2 (XOR) (drop off (chacha_input src (off + n) org)) (take n ks)"
    using assms(2,3) len by (intro nth_equalityI) simp_all
  ultimately show ?thesis by (simp add: s_def)
qed

lemma drop_concat_map:
  assumes "\<And>i. length (f i) = b" and "k \<le> K"
  shows "drop (b * k) (concat (map f [0..<K])) = concat (map f [k..<K])"
proof -
  have "[0..<K] = [0..<k] @ [k..<K]" using assms(2) by (metis le_add_diff_inverse upt_add_eq_append zero_le)
  moreover have "length (concat (map f [0..<k])) = b * k" using assms(1) by (induction k) simp_all
  ultimately show ?thesis by simp
qed

lemma length_rfc_keystream [simp]: "length (rfc_keystream key nonce counter n) = n"
proof -
  have "length (concat (map (\<lambda>i. rfc_chacha_block key nonce (counter + of_nat i)) [0..<k])) = 64 * k" for k
    by (induction k) simp_all
  then show ?thesis by (simp add: rfc_keystream_def)
qed

lemma rfc_keystream_block:
  assumes "64 * k < N" and "n \<le> 64" and "64 * k + n \<le> N"
  shows "take n (drop (64 * k) (rfc_keystream key nonce counter N)) =
     take n (rfc_chacha_block key nonce (counter + of_nat k))"
proof -
  let ?f = "\<lambda>i. rfc_chacha_block key nonce (counter + of_nat i)"
  let ?K = "(N + 63) div 64"
  have k: "k < ?K" using assms(1) by linarith
  then have "drop (64 * k) (concat (map ?f [0..<?K])) = ?f k @ concat (map ?f [Suc k..<?K])"
    using drop_concat_map [of ?f 64 k ?K] by (simp add: upt_conv_Cons)
  then have "take n (drop (64 * k) (concat (map ?f [0..<?K]))) = take n (?f k)"
    using assms(2) by simp
  moreover have "n \<le> N - 64 * k" using assms(3) by simp
  ultimately show ?thesis
    unfolding rfc_keystream_def by (simp add: drop_take min_absorb1)
qed

lemma chacha_loop_eq:
  assumes "32 \<le> length key" and "12 \<le> length nonce" and "unat len \<le> length org"
    and "chacha_readable src (unat len)"
    and "whole = map2 (XOR) (chacha_input src (unat len) org) (rfc_keystream key nonce counter (unat len))"
    and "unat off = min (64 * k) (unat len)" and "length ks = 64"
  shows "chacha_loop key nonce src len off (counter + of_nat k) ks (patch org 0 (take (unat off) whole)) =
     Some (patch org 0 whole)"
  using assms(6,7)
proof (induction "unat len - unat off" arbitrary: off k ks rule: less_induct)
  case less
  have inp: "length (chacha_input src (unat len) org) = unat len"
    using assms(3,4) by (auto simp: chacha_input_def chacha_readable_def split: chacha_in.splits)
  then have whole: "length whole = unat len" by (simp add: assms(5))
  show ?case
  proof (cases "off < len")
    case False
    then have "unat len \<le> unat off" by (simp add: not_less word_le_nat_alt)
    then show ?thesis using False whole by (subst chacha_loop.simps) simp
  next
    case True
    define n where "n = (if 64 < len - off then 64 else len - off)"
    note n = chacha_off_step [OF True n_def]
    have lt: "unat off < unat len" using True by (simp add: word_less_nat_alt)
    then have off: "unat off = 64 * k" using less.prems(1) by simp
    let ?b = "rfc_chacha_block key nonce (counter + of_nat k)"
    let ?out = "patch org 0 (take (unat off) whole)"
    have lout: "length ?out = length org" using whole assms(3) lt by simp
    have blk: "owc_chacha_block key nonce (counter + of_nat k) ks = Some ?b"
      using owc_chacha_block_eq [OF assms(1,2), of ks] less.prems(2) by (simp add: patch_0)
    have seg: "map2 (XOR) (drop (unat off) (chacha_input src (unat off + unat n) org)) (take (unat n) ?b) =
        take (unat n) (drop (unat off) whole)"
    proof -
      have "drop (unat off) (chacha_input src (unat off + unat n) org) =
          take (unat n) (drop (unat off) (chacha_input src (unat len) org))"
        using n(2) by (auto simp: chacha_input_def drop_take min_def split: chacha_in.splits)
      moreover have "take (unat n) ?b = take (unat n) (drop (unat off) (rfc_keystream key nonce counter (unat len)))"
        using rfc_keystream_block [of k "unat len" "unat n" key nonce counter] lt n(2,4) off by simp
      ultimately show ?thesis
        by (simp add: assms(5) take_map drop_map take_zip drop_zip)
    qed
    have "c_for 0 (unat n)
        (\<lambda>i out. do { v \<leftarrow> chacha_byte src ?b (unat off) out i; c_wr out (unat off + i) v }) ?out =
        Some (patch ?out (unat off) (take (unat n) (drop (unat off) whole)))"
      unfolding seg [symmetric]
    proof (rule chacha_inner)
      show "chacha_readable src (unat off + unat n)"
        using assms(4) n(2) by (auto simp: chacha_readable_def split: chacha_in.splits)
      show "?out ! i = org ! i" if "unat off \<le> i" "i < length ?out" for i
        using that whole lt by (simp add: patch_def nth_append)
    qed (use n(2,4) lout assms(3) in simp_all)
    moreover have "patch ?out (unat off) (take (unat n) (drop (unat off) whole)) =
        patch org 0 (take (unat (off + n)) whole)"
      using patch_append [of 0 "take (unat off) whole" "take (unat n) (drop (unat off) whole)" org]
        n(1,2) whole lt assms(3) by (simp add: take_add)
    moreover have "chacha_loop key nonce src len (off + n) (counter + of_nat (Suc k)) ?b
        (patch org 0 (take (unat (off + n)) whole)) = Some (patch org 0 whole)"
    proof (rule less.hyps)
      show "unat len - unat (off + n) < unat len - unat off" using n(1,3) lt by linarith
      show "unat (off + n) = min (64 * Suc k) (unat len)" using n(1,4) off lt by simp
    qed simp
    ultimately show ?thesis
      using True blk by (subst chacha_loop.simps) (simp add: n_def [symmetric] Let_def ac_simps)
  qed
qed

text \<open>
  The stream function writes the input combined with the key stream into the output buffer,
  whether the input is another buffer, absent, or the output buffer itself.
\<close>

lemma owcrypt_chacha20_xor_eq:
  assumes "32 \<le> length key" and "12 \<le> length nonce" and "unat len \<le> length out"
    and "chacha_readable src (unat len)"
  shows "owcrypt_chacha20_xor key nonce counter src len out =
     Some (patch out 0 (map2 (XOR) (chacha_input src (unat len) out) (rfc_keystream key nonce counter (unat len))))"
  using chacha_loop_eq [OF assms refl, of 0 0 "replicate 64 0" counter]
  by (simp add: owcrypt_chacha20_xor_def)

lemma map2_xor_twice: "length ks = length m \<Longrightarrow> map2 (XOR) (map2 (XOR) m ks) ks = (m :: u8 list)"
  by (rule nth_equalityI) (simp_all add: xor.assoc)

lemma length_rfc_chacha20 [simp]: "length (rfc_chacha20 key nonce counter m) = length m"
  by (simp add: rfc_chacha20_def)

lemma rfc_chacha20_twice: "rfc_chacha20 key nonce counter (rfc_chacha20 key nonce counter m) = m"
  by (simp add: rfc_chacha20_def map2_xor_twice)

text \<open>C21: ChaCha20 encryption is that of RFC 8439 for every length, the last partial block included:
  the output is the message combined with the key stream of the successive counter values, the rest
  of the output buffer is untouched, also when the message is encrypted in place.
\<close>

theorem owcrypt_chacha20_rfc8439:
  assumes "32 \<le> length key" and "12 \<le> length nonce" and "unat len \<le> length out"
    and "src = In_buf m \<and> unat len = length m \<or> src = In_place \<and> take (unat len) out = m"
  shows "owcrypt_chacha20_xor key nonce counter src len out =
     Some (rfc_chacha20 key nonce counter m @ drop (unat len) out)"
proof -
  have m: "chacha_input src (unat len) out = m" "length m = unat len" "chacha_readable src (unat len)"
    using assms(3,4) by (auto simp: chacha_input_def chacha_readable_def)
  show ?thesis
    using owcrypt_chacha20_xor_eq [OF assms(1,2,3) m(3)] m(1,2)
    by (simp add: rfc_chacha20_def patch_0_drop)
qed

theorem owcrypt_chacha20_rfc8439_witness:
  "owcrypt_chacha20_xor (replicate 32 3) (replicate 12 4) 1 In_place 70 (replicate 80 9) =
     Some (rfc_chacha20 (replicate 32 3) (replicate 12 4) 1 (replicate 70 9) @ replicate 10 9)"
  using owcrypt_chacha20_rfc8439 [of "replicate 32 3" "replicate 12 4" 70 "replicate 80 9" In_place "replicate 70 9" 1]
  by simp

end
