(* ===== verification/Poly1305.thy ===== *)
theory Poly1305
  imports Crypt_Bytes
begin

text \<open>
  The Poly1305 one-time authenticator of \<open>src/DLL/owcrypt/owcrypt.c\<close> (lines 652-835): the
  accumulator and the key as five limbs of 26 bits in 64-bit words. The limb arithmetic is shown
  equal to arithmetic on natural numbers; the tag is that of RFC 8439 unless an intermediate value
  falls into the small range where the code omits a reduction.
\<close>

unbundle bit_operations_syntax

section \<open>The code\<close>

record owc_p1305_t =
  p_h :: "u64 list"
  p_r :: "u64 list"
  p_s :: "u64 list"
  p_pad0 :: u64
  p_pad1 :: u64
  p_block :: "u8 list"
  p_blocklen :: u64

type_synonym limbs = "u64 \<times> u64 \<times> u64 \<times> u64 \<times> u64"

definition OWC_P26M :: u64 where
  "OWC_P26M = 0x3FFFFFF"

text \<open>Reading a whole array of the context.\<close>

definition rd5 :: "'a list \<Rightarrow> ('a \<times> 'a \<times> 'a \<times> 'a \<times> 'a) comp" where
  "rd5 xs = do { a \<leftarrow> c_rd xs 0; b \<leftarrow> c_rd xs 1; c \<leftarrow> c_rd xs 2; d \<leftarrow> c_rd xs 3; e \<leftarrow> c_rd xs 4; Some (a, b, c, d, e) }"

definition rd4 :: "'a list \<Rightarrow> ('a \<times> 'a \<times> 'a \<times> 'a) comp" where
  "rd4 xs = do { a \<leftarrow> c_rd xs 0; b \<leftarrow> c_rd xs 1; c \<leftarrow> c_rd xs 2; d \<leftarrow> c_rd xs 3; Some (a, b, c, d) }"

text \<open>The split of two 64-bit words into limbs, which the code has for the key and for a block.\<close>

definition p1305_split :: "u64 \<Rightarrow> u64 \<Rightarrow> limbs" where
  "p1305_split m0 m1 =
     (m0 AND OWC_P26M, drop_bit 26 m0 AND OWC_P26M, drop_bit 52 m0 OR push_bit 12 (m1 AND 0x3FFF),
      drop_bit 14 m1 AND OWC_P26M, drop_bit 40 m1 AND OWC_P26M)"

definition owc_p1305_init :: "owc_p1305_t \<Rightarrow> u8 list \<Rightarrow> owc_p1305_t comp" where
  "owc_p1305_init c key =
     do { r0 \<leftarrow> owc_get64le key 0; r1 \<leftarrow> owc_get64le key 8;
          let (a, b, d, e, f) = p1305_split (r0 AND 0x0FFFFFFC0FFFFFFF) (r1 AND 0x0FFFFFFC0FFFFFFC);
          pad0 \<leftarrow> owc_get64le key 16; pad1 \<leftarrow> owc_get64le key 24;
          Some (c\<lparr>p_r := [a, b, d, e, f], p_s := [b * 5, d * 5, e * 5, f * 5], p_h := [0, 0, 0, 0, 0],
                  p_pad0 := pad0, p_pad1 := pad1, p_blocklen := 0\<rparr>) }"

definition p1305_product :: "limbs \<Rightarrow> limbs \<Rightarrow> u64 \<times> u64 \<times> u64 \<times> u64 \<Rightarrow> limbs" where
  "p1305_product = (\<lambda>(h0, h1, h2, h3, h4) (r0, r1, r2, r3, r4) (s0, s1, s2, s3).
     (h0 * r0 + h1 * s3 + h2 * s2 + h3 * s1 + h4 * s0,
      h0 * r1 + h1 * r0 + h2 * s3 + h3 * s2 + h4 * s1,
      h0 * r2 + h1 * r1 + h2 * r0 + h3 * s3 + h4 * s2,
      h0 * r3 + h1 * r2 + h2 * r1 + h3 * r0 + h4 * s3,
      h0 * r4 + h1 * r3 + h2 * r2 + h3 * r1 + h4 * r0))"

definition p1305_carry :: "limbs \<Rightarrow> limbs" where
  "p1305_carry = (\<lambda>(d0, d1, d2, d3, d4).
     let h0 = d0 AND OWC_P26M; d1 = d1 + drop_bit 26 d0;
         h1 = d1 AND OWC_P26M; d2 = d2 + drop_bit 26 d1;
         h2 = d2 AND OWC_P26M; d3 = d3 + drop_bit 26 d2;
         h3 = d3 AND OWC_P26M; d4 = d4 + drop_bit 26 d3;
         h4 = d4 AND OWC_P26M; c1 = drop_bit 26 d4;
         h0 = h0 + c1 * 5; c1 = drop_bit 26 h0; h0 = h0 AND OWC_P26M; h1 = h1 + c1;
         c1 = drop_bit 26 h1; h1 = h1 AND OWC_P26M; h2 = h2 + c1;
         c1 = drop_bit 26 h2; h2 = h2 AND OWC_P26M; h3 = h3 + c1;
         c1 = drop_bit 26 h3; h3 = h3 AND OWC_P26M; h4 = h4 + c1;
         h4 = h4 AND OWC_P26M
     in (h0, h1, h2, h3, h4))"

definition owc_p1305_mul :: "owc_p1305_t \<Rightarrow> owc_p1305_t comp" where
  "owc_p1305_mul c =
     do { h \<leftarrow> rd5 (p_h c); r \<leftarrow> rd5 (p_r c); s \<leftarrow> rd4 (p_s c);
          let (h0, h1, h2, h3, h4) = p1305_carry (p1305_product h r s);
          Some (c\<lparr>p_h := [h0, h1, h2, h3, h4]\<rparr>) }"

definition p1305_add_limb :: "u64 list \<Rightarrow> nat \<Rightarrow> u64 list \<times> u64 \<Rightarrow> (u64 list \<times> u64) comp" where
  "p1305_add_limb md i = (\<lambda>(h, carry).
     do { x \<leftarrow> c_rd h i; m \<leftarrow> c_rd md i;
          let v = x + (m + carry);
          h \<leftarrow> c_wr h i (v AND OWC_P26M); Some (h, drop_bit 26 v) })"

function p1305_ripple :: "nat \<Rightarrow> u64 list \<Rightarrow> u64 \<Rightarrow> u64 list comp" where
  "p1305_ripple i h carry =
     (if i < 5 \<and> carry \<noteq> 0
      then do { x \<leftarrow> c_rd h i;
                let v = x + carry;
                h \<leftarrow> c_wr h i (v AND OWC_P26M);
                p1305_ripple (Suc i) h (drop_bit 26 v) }
      else Some h)"
  by pat_completeness auto
termination by (relation "measure (\<lambda>(i, h, carry). 5 - i)") auto

declare p1305_ripple.simps [simp del]

definition p1305_mark :: "u64 \<Rightarrow> u64 \<Rightarrow> u32 \<Rightarrow> u64 \<times> u64" where
  "p1305_mark m0 m1 tlen =
     (if tlen < 16
      then if tlen < 8 then (m0 OR push_bit (unat (8 * tlen)) 1, m1)
           else (m0, m1 OR push_bit (unat (8 * (tlen - 8))) 1)
      else (m0, m1))"

definition owc_p1305_block :: "owc_p1305_t \<Rightarrow> u8 list \<Rightarrow> u32 \<Rightarrow> owc_p1305_t comp" where
  "owc_p1305_block c blk tlen =
     do { m0 \<leftarrow> owc_get64le blk 0; m1 \<leftarrow> owc_get64le blk 8;
          let (m0, m1) = p1305_mark m0 m1 tlen;
          let (a, b, d, e, f) = p1305_split m0 m1;
          let f = (if tlen = 16 then f OR push_bit 24 1 else f);
          (h, carry) \<leftarrow> c_for 0 5 (p1305_add_limb [a, b, d, e, f]) (p_h c, 0);
          h \<leftarrow> (if carry \<noteq> 0
                then do { x \<leftarrow> c_rd h 0;
                          let v = x + carry * 5;
                          h \<leftarrow> c_wr h 0 (v AND OWC_P26M);
                          p1305_ripple 1 h (drop_bit 26 v) }
                else Some h);
          owc_p1305_mul (c\<lparr>p_h := h\<rparr>) }"

text \<open>
  The loop of the update does not progress when the block buffer is full; then it does not end,
  which the model renders as \<open>None\<close>.
\<close>

partial_function (option) owc_p1305_update :: "owc_p1305_t \<Rightarrow> u8 list \<Rightarrow> u64 \<Rightarrow> owc_p1305_t option" where
  "owc_p1305_update c data n =
     (if 0 < n
      then do { let tk = (if 16 - p_blocklen c < n then 16 - p_blocklen c else n);
                b \<leftarrow> c_for 0 (unat tk)
                  (\<lambda>i b. do { v \<leftarrow> c_rd data i; c_wr b (unat (p_blocklen c) + i) v }) (p_block c);
                let c = c\<lparr>p_block := b, p_blocklen := p_blocklen c + tk\<rparr>;
                c \<leftarrow> (if p_blocklen c = 16
                      then do { c \<leftarrow> owc_p1305_block c (p_block c) 16; Some (c\<lparr>p_blocklen := 0\<rparr>) }
                      else Some c);
                owc_p1305_update c (drop (unat tk) data) (n - tk) }
      else Some c)"

definition p1305_flush :: "owc_p1305_t \<Rightarrow> owc_p1305_t comp" where
  "p1305_flush c =
     (if p_blocklen c \<noteq> 0
      then do { b \<leftarrow> c_for (unat (p_blocklen c)) 16 (\<lambda>i b. c_wr b i 0) (p_block c);
                c \<leftarrow> owc_p1305_block (c\<lparr>p_block := b\<rparr>) b (ucast (p_blocklen c));
                Some (c\<lparr>p_blocklen := 0\<rparr>) }
      else Some c)"

definition p1305_select :: "limbs \<Rightarrow> limbs" where
  "p1305_select = (\<lambda>(h0, h1, h2, h3, h4).
     let g0 = h0 + 5; borrow = (if g0 < h0 then 1 else 0);
         g1 = h1 + borrow; borrow = (if g1 < borrow then 1 else 0);
         g2 = h2 + borrow; borrow = (if g2 < borrow then 1 else 0);
         g3 = h3 + borrow; borrow = (if g3 < borrow then 1 else 0);
         g4 = h4 + borrow; borrow = (if g4 < borrow then 1 else (0 :: u64))
     in if borrow \<noteq> 0 then (g0, g1, g2, g3, g4) else (h0, h1, h2, h3, h4))"

definition p1305_pack :: "limbs \<Rightarrow> u64 \<times> u64" where
  "p1305_pack = (\<lambda>(h0, h1, h2, h3, h4).
     (h0 OR push_bit 26 h1 OR push_bit 52 (h2 AND 0xFFF),
      drop_bit 12 h2 OR push_bit 14 h3 OR push_bit 40 (h4 AND 0xFFFF) OR push_bit 56 (drop_bit 16 h4)))"

definition owc_p1305_final :: "owc_p1305_t \<Rightarrow> u8 list \<Rightarrow> (owc_p1305_t \<times> u8 list) comp" where
  "owc_p1305_final c tag =
     do { c \<leftarrow> p1305_flush c;
          h \<leftarrow> rd5 (p_h c);
          let (e0, e1) = p1305_pack (p1305_select h);
          let s = e0 + p_pad0 c;
          let hi = e1 + p_pad1 c + (if s < e0 then 1 else 0);
          tag \<leftarrow> owc_put64le tag 0 s;
          tag \<leftarrow> owc_put64le tag 8 hi;
          Some (c, tag) }"

definition p1305_stack :: owc_p1305_t where
  "p1305_stack = \<lparr>p_h = replicate 5 0, p_r = replicate 5 0, p_s = replicate 4 0, p_pad0 = 0, p_pad1 = 0,
     p_block = replicate 16 0, p_blocklen = 0\<rparr>"

definition owcrypt_poly1305 :: "u8 list \<Rightarrow> u8 list \<Rightarrow> u64 \<Rightarrow> u8 list \<Rightarrow> u8 list comp" where
  "owcrypt_poly1305 key msg len tag =
     do { c \<leftarrow> owc_p1305_init p1305_stack key;
          c \<leftarrow> owc_p1305_update c msg len;
          (c, tag) \<leftarrow> owc_p1305_final c tag;
          Some tag }"

section \<open>The arithmetic, on natural numbers\<close>

text \<open>A number below \<open>2 ^ 130\<close> and its limbs.\<close>

type_synonym nat5 = "nat \<times> nat \<times> nat \<times> nat \<times> nat"

definition val5 :: "nat5 \<Rightarrow> nat" where
  "val5 = (\<lambda>(a, b, c, d, e). a + 2 ^ 26 * (b + 2 ^ 26 * (c + 2 ^ 26 * (d + 2 ^ 26 * e))))"

definition small5 :: "nat5 \<Rightarrow> bool" where
  "small5 = (\<lambda>(a, b, c, d, e). a < 2 ^ 26 \<and> b < 2 ^ 26 \<and> c < 2 ^ 26 \<and> d < 2 ^ 26 \<and> e < 2 ^ 26)"

definition unat5 :: "limbs \<Rightarrow> nat5" where
  "unat5 = (\<lambda>(a, b, c, d, e). (unat a, unat b, unat c, unat d, unat e))"

definition limbs5 :: "nat \<Rightarrow> nat5" where
  "limbs5 a =
     (let b = a div 2 ^ 26; c = b div 2 ^ 26; d = c div 2 ^ 26; e = d div 2 ^ 26
      in (a mod 2 ^ 26, b mod 2 ^ 26, c mod 2 ^ 26, d mod 2 ^ 26, e mod 2 ^ 26))"

lemma digit: "a < B \<Longrightarrow> (a + B * x) mod B = a" "a < B \<Longrightarrow> (a + B * x) div B = x" for a B x :: nat
  by simp_all

lemma limbs5_val5: "small5 x \<Longrightarrow> limbs5 (val5 x) = x"
proof -
  define B :: nat where "B = 2 ^ 26"
  show "small5 x \<Longrightarrow> limbs5 (val5 x) = x"
    unfolding limbs5_def val5_def small5_def B_def [symmetric]
    by (cases x) (simp add: Let_def digit)
qed

text \<open>
  The product of the code: the limbs of the two factors multiplied, with \<open>2 ^ 130\<close> replaced by
  five. It is the product of the numbers modulo \<open>2 ^ 130 - 5\<close>, not reduced.
\<close>

definition nat_product :: "nat5 \<Rightarrow> nat5 \<Rightarrow> nat5" where
  "nat_product = (\<lambda>(h0, h1, h2, h3, h4) (r0, r1, r2, r3, r4).
     (h0 * r0 + h1 * (r4 * 5) + h2 * (r3 * 5) + h3 * (r2 * 5) + h4 * (r1 * 5),
      h0 * r1 + h1 * r0 + h2 * (r4 * 5) + h3 * (r3 * 5) + h4 * (r2 * 5),
      h0 * r2 + h1 * r1 + h2 * r0 + h3 * (r4 * 5) + h4 * (r3 * 5),
      h0 * r3 + h1 * r2 + h2 * r1 + h3 * r0 + h4 * (r4 * 5),
      h0 * r4 + h1 * r3 + h2 * r2 + h3 * r1 + h4 * r0))"

lemma nat_product_mod: "\<exists>k. val5 h * val5 r = val5 (nat_product h r) + k * (2 ^ 130 - 5)"
proof -
  obtain h0 h1 h2 h3 h4 where h: "h = (h0, h1, h2, h3, h4)" by (cases h) auto
  obtain r0 r1 r2 r3 r4 where r: "r = (r0, r1, r2, r3, r4)" by (cases r) auto
  define B :: nat where "B = 2 ^ 26"
  let ?k = "(h1 * r4 + h2 * r3 + h3 * r2 + h4 * r1) + B * (h2 * r4 + h3 * r3 + h4 * r2) +
    B * B * (h3 * r4 + h4 * r3) + B * B * B * (h4 * r4)"
  have "val5 h * val5 r + 5 * ?k = val5 (nat_product h r) + ?k * (B * B * B * B * B)"
    unfolding h r val5_def nat_product_def B_def [symmetric] prod.case by algebra
  moreover have "B * B * B * B * B = 2 ^ 130" by (simp add: B_def)
  ultimately have "val5 h * val5 r = val5 (nat_product h r) + ?k * (2 ^ 130 - 5)"
    by (simp add: diff_mult_distrib2)
  then show ?thesis by blast
qed

text \<open>Carrying through the limbs, on numbers and on words.\<close>

definition nat_ripple :: "nat5 \<Rightarrow> nat5 \<times> nat" where
  "nat_ripple = (\<lambda>(x0, x1, x2, x3, x4).
     let y1 = x1 + x0 div 2 ^ 26; y2 = x2 + y1 div 2 ^ 26; y3 = x3 + y2 div 2 ^ 26; y4 = x4 + y3 div 2 ^ 26
     in ((x0 mod 2 ^ 26, y1 mod 2 ^ 26, y2 mod 2 ^ 26, y3 mod 2 ^ 26, y4 mod 2 ^ 26), y4 div 2 ^ 26))"

definition word_ripple :: "limbs \<Rightarrow> limbs \<times> u64" where
  "word_ripple = (\<lambda>(x0, x1, x2, x3, x4).
     let y1 = x1 + drop_bit 26 x0; y2 = x2 + drop_bit 26 y1; y3 = x3 + drop_bit 26 y2; y4 = x4 + drop_bit 26 y3
     in ((x0 AND OWC_P26M, y1 AND OWC_P26M, y2 AND OWC_P26M, y3 AND OWC_P26M, y4 AND OWC_P26M), drop_bit 26 y4))"

definition below5 :: "nat \<Rightarrow> nat5 \<Rightarrow> bool" where
  "below5 n = (\<lambda>(a, b, c, d, e). a < n \<and> b < n \<and> c < n \<and> d < n \<and> e < n)"

lemma small5_below: "small5 = below5 (2 ^ 26)"
  by (simp add: fun_eq_iff small5_def below5_def)

lemma val5_less: "small5 x \<Longrightarrow> val5 x < 2 ^ 130"
  by (cases x) (simp add: small5_def val5_def)

lemma nat_ripple_eq: "nat_ripple x = (limbs5 (val5 x), val5 x div 2 ^ 130)"
proof -
  obtain x0 x1 x2 x3 x4 where x: "x = (x0, x1, x2, x3, x4)" by (cases x) auto
  define B :: nat where "B = 2 ^ 26"
  have pos: "0 < B" by (simp add: B_def)
  have dm: "(a + B * b) mod B = a mod B" "(a + B * b) div B = b + a div B"
    "(a + B * b + c) mod B = (a + c) mod B" "(a + B * b + c) div B = b + (a + c) div B" for a b c
    using pos by (simp_all add: add.commute [of _ c] add.left_commute [of c] add.assoc [symmetric])
  have P: "(2 :: nat) ^ 130 = B * (B * (B * (B * B)))" by (simp add: B_def)
  show ?thesis
    unfolding x nat_ripple_def limbs5_def val5_def P B_def [symmetric] prod.case Let_def div_mult2_eq
    by (simp only: dm)
qed

lemma small5_limbs5: "small5 (limbs5 a)"
  by (simp add: small5_def limbs5_def Let_def)

lemma val5_limbs5: "val5 (limbs5 a) = a mod 2 ^ 130"
proof -
  define B :: nat where "B = 2 ^ 26"
  have P: "(2 :: nat) ^ 130 = B * (B * (B * (B * B)))" by (simp add: B_def)
  show ?thesis
    unfolding val5_def limbs5_def P B_def [symmetric] Let_def prod.case mod_mult2_eq by (simp only: ac_simps)
qed

lemma P26M_mask: "OWC_P26M = mask 26"
  by (simp add: OWC_P26M_def mask_eq_exp_minus_1)

lemma unat_P26M: "unat (x AND OWC_P26M) = unat x mod 2 ^ 26"
  unfolding P26M_mask take_bit_eq_mask [symmetric] unsigned_take_bit_eq by (rule take_bit_eq_mod)

lemma unat_shr: "unat (drop_bit n x) = unat (x :: 'a::len word) div 2 ^ n"
  unfolding unat_drop_bit_eq by (rule drop_bit_eq_div)

lemma unat_add_shr:
  assumes "unat (x :: u64) < 2 ^ 60" and "unat (d :: u64) < 2 ^ 61"
  shows "unat (x + drop_bit 26 d) = unat x + unat d div 2 ^ 26" and "unat (x + drop_bit 26 d) < 2 ^ 61"
proof -
  have "unat d div 2 ^ 26 < 2 ^ 35" using assms(2) by (simp add: div_less_iff_less_mult)
  then have "unat x + unat d div 2 ^ 26 < 2 ^ 61" using assms(1) by simp
  then show "unat (x + drop_bit 26 d) = unat x + unat d div 2 ^ 26" and "unat (x + drop_bit 26 d) < 2 ^ 61"
    by (simp_all add: unat_word_ariths unat_shr)
qed

lemma word_ripple_unat:
  assumes "below5 (2 ^ 60) (unat5 x)"
  shows "unat5 (fst (word_ripple x)) = fst (nat_ripple (unat5 x))"
    and "unat (snd (word_ripple x)) = snd (nat_ripple (unat5 x))"
proof -
  obtain x0 x1 x2 x3 x4 where x: "x = (x0, x1, x2, x3, x4)" by (cases x) auto
  have b: "unat x0 < 2 ^ 60" "unat x1 < 2 ^ 60" "unat x2 < 2 ^ 60" "unat x3 < 2 ^ 60" "unat x4 < 2 ^ 60"
    using assms by (simp_all add: x below5_def unat5_def)
  then have "unat x0 < 2 ^ 61" by simp
  note y1 = unat_add_shr [OF b(2) this]
  note y2 = unat_add_shr [OF b(3) y1(2)]
  note y3 = unat_add_shr [OF b(4) y2(2)]
  note y4 = unat_add_shr [OF b(5) y3(2)]
  show "unat5 (fst (word_ripple x)) = fst (nat_ripple (unat5 x))"
    and "unat (snd (word_ripple x)) = snd (nat_ripple (unat5 x))"
    unfolding x word_ripple_def nat_ripple_def unat5_def prod.case Let_def fst_conv snd_conv
    by (simp_all only: unat_P26M unat_shr y1(1) y2(1) y3(1) y4(1))
qed

definition fold130 :: "nat \<Rightarrow> nat" where
  "fold130 y = (y mod 2 ^ 130 + 5 * (y div 2 ^ 130)) mod 2 ^ 130"

lemma p1305_carry_ripple:
  "p1305_carry d = (case word_ripple d of ((h0, h1, h2, h3, h4), c) \<Rightarrow> fst (word_ripple (h0 + c * 5, h1, h2, h3, h4)))"
  by (cases d) (simp add: p1305_carry_def word_ripple_def Let_def)

lemma p1305_carry_fold:
  assumes "below5 (2 ^ 60) (unat5 d)"
  shows "unat5 (p1305_carry d) = limbs5 (fold130 (val5 (unat5 d)))"
proof -
  let ?D = "val5 (unat5 d)"
  obtain h0 h1 h2 h3 h4 c where r: "word_ripple d = ((h0, h1, h2, h3, h4), c)" by (cases "word_ripple d") auto
  have h: "unat5 (h0, h1, h2, h3, h4) = limbs5 ?D" and c: "unat c = ?D div 2 ^ 130"
    using word_ripple_unat [OF assms] by (simp_all add: r nat_ripple_eq)
  have s: "small5 (unat5 (h0, h1, h2, h3, h4))" unfolding h by (rule small5_limbs5)
  have "?D < 2 ^ 36 * 2 ^ 130"
    using assms by (cases d) (simp add: below5_def unat5_def val5_def)
  then have c36: "unat c < 2 ^ 36" unfolding c by (simp add: div_less_iff_less_mult)
  then have c5: "unat (h0 + c * 5) = unat h0 + 5 * unat c"
    using s by (simp add: unat_word_ariths small5_def unat5_def)
  let ?x = "(h0 + c * 5, h1, h2, h3, h4)"
  have "val5 (unat5 ?x) = val5 (unat5 (h0, h1, h2, h3, h4)) + 5 * unat c"
    unfolding unat5_def val5_def prod.case c5 by simp
  then have v: "val5 (unat5 ?x) = ?D mod 2 ^ 130 + 5 * (?D div 2 ^ 130)"
    unfolding h c val5_limbs5 .
  have "below5 (2 ^ 60) (unat5 ?x)"
    using s c36 unfolding below5_def unat5_def small5_def prod.case c5 by simp
  from word_ripple_unat(1) [OF this]
  have "unat5 (p1305_carry d) = limbs5 (val5 (unat5 ?x))"
    unfolding p1305_carry_ripple r prod.case nat_ripple_eq by simp
  moreover have "limbs5 (n mod 2 ^ 130) = limbs5 n" for n
    unfolding val5_limbs5 [symmetric] by (rule limbs5_val5 [OF small5_limbs5])
  ultimately show ?thesis unfolding v fold130_def by simp
qed

section \<open>The code computes these numbers\<close>

lemma unat_mul_small:
  assumes "unat (a :: u64) < 2 ^ 26" and "unat (b :: u64) < 2 ^ 29"
  shows "unat (a * b) = unat a * unat b" and "unat a * unat b < 2 ^ 55"
proof -
  have "unat a * unat b < 2 ^ 26 * 2 ^ 29" using assms by (intro mult_strict_mono) simp_all
  then show l: "unat a * unat b < 2 ^ 55" by simp
  then show "unat (a * b) = unat a * unat b" by (simp add: unat_word_ariths)
qed

lemma unat_dot5:
  assumes "below5 (2 ^ 26) (unat5 (a0, a1, a2, a3, a4))" and "below5 (2 ^ 29) (unat5 (b0, b1, b2, b3, b4))"
  shows "unat (a0 * b0 + a1 * b1 + a2 * b2 + a3 * b3 + a4 * b4) =
      unat a0 * unat b0 + unat a1 * unat b1 + unat a2 * unat b2 + unat a3 * unat b3 + unat a4 * unat b4"
    and "unat a0 * unat b0 + unat a1 * unat b1 + unat a2 * unat b2 + unat a3 * unat b3 + unat a4 * unat b4 < 2 ^ 60"
proof -
  note m = unat_mul_small
  have "unat a0 * unat b0 < 2 ^ 55" "unat a1 * unat b1 < 2 ^ 55" "unat a2 * unat b2 < 2 ^ 55"
      "unat a3 * unat b3 < 2 ^ 55" "unat a4 * unat b4 < 2 ^ 55"
    using assms by (auto simp: below5_def unat5_def intro!: m(2) [simplified])
  then show l: "unat a0 * unat b0 + unat a1 * unat b1 + unat a2 * unat b2 + unat a3 * unat b3 + unat a4 * unat b4 < 2 ^ 60"
    by simp
  show "unat (a0 * b0 + a1 * b1 + a2 * b2 + a3 * b3 + a4 * b4) =
      unat a0 * unat b0 + unat a1 * unat b1 + unat a2 * unat b2 + unat a3 * unat b3 + unat a4 * unat b4"
    using l by (simp add: unat_word_ariths mod_simps)
qed

definition five_times :: "limbs \<Rightarrow> u64 \<times> u64 \<times> u64 \<times> u64" where
  "five_times = (\<lambda>(r0, r1, r2, r3, r4). (r1 * 5, r2 * 5, r3 * 5, r4 * 5))"

lemma unat_times5: "unat (x :: u64) < 2 ^ 26 \<Longrightarrow> unat (x * 5) = unat x * 5"
  by (simp add: unat_word_ariths)

lemma p1305_product_unat:
  assumes "small5 (unat5 h)" and "small5 (unat5 r)"
  shows "unat5 (p1305_product h r (five_times r)) = nat_product (unat5 h) (unat5 r)"
    and "below5 (2 ^ 60) (unat5 (p1305_product h r (five_times r)))"
proof -
  obtain h0 h1 h2 h3 h4 where h: "h = (h0, h1, h2, h3, h4)" by (cases h) auto
  obtain r0 r1 r2 r3 r4 where r: "r = (r0, r1, r2, r3, r4)" by (cases r) auto
  have hs: "below5 (2 ^ 26) (unat5 (h0, h1, h2, h3, h4))" using assms(1) by (simp add: h small5_below)
  have t: "unat (r1 * 5) = unat r1 * 5" "unat (r2 * 5) = unat r2 * 5" "unat (r3 * 5) = unat r3 * 5"
      "unat (r4 * 5) = unat r4 * 5"
    using assms(2) by (auto simp: r small5_def unat5_def intro!: unat_times5 [simplified])
  note d0 = unat_dot5 [OF hs, of r0 "r4 * 5" "r3 * 5" "r2 * 5" "r1 * 5", unfolded t]
  note d1 = unat_dot5 [OF hs, of r1 r0 "r4 * 5" "r3 * 5" "r2 * 5", unfolded t]
  note d2 = unat_dot5 [OF hs, of r2 r1 r0 "r4 * 5" "r3 * 5", unfolded t]
  note d3 = unat_dot5 [OF hs, of r3 r2 r1 r0 "r4 * 5", unfolded t]
  note d4 = unat_dot5 [OF hs, of r4 r3 r2 r1 r0, unfolded t]
  have b: "unat r0 < 2 ^ 26" "unat r1 < 2 ^ 26" "unat r2 < 2 ^ 26" "unat r3 < 2 ^ 26" "unat r4 < 2 ^ 26"
    using assms(2) by (simp_all add: r small5_def unat5_def)
  then have bb: "below5 (2 ^ 29) (unat5 (r0, r4 * 5, r3 * 5, r2 * 5, r1 * 5))"
      "below5 (2 ^ 29) (unat5 (r1, r0, r4 * 5, r3 * 5, r2 * 5))" "below5 (2 ^ 29) (unat5 (r2, r1, r0, r4 * 5, r3 * 5))"
      "below5 (2 ^ 29) (unat5 (r3, r2, r1, r0, r4 * 5))" "below5 (2 ^ 29) (unat5 (r4, r3, r2, r1, r0))"
    by (simp_all add: below5_def unat5_def t)
  show "unat5 (p1305_product h r (five_times r)) = nat_product (unat5 h) (unat5 r)"
    unfolding h r p1305_product_def nat_product_def five_times_def unat5_def prod.case
    by (simp only: d0(1) [OF bb(1)] d1(1) [OF bb(2)] d2(1) [OF bb(3)] d3(1) [OF bb(4)] d4(1) [OF bb(5)])
  show "below5 (2 ^ 60) (unat5 (p1305_product h r (five_times r)))"
    unfolding h r p1305_product_def five_times_def below5_def unat5_def prod.case
    using d0 [OF bb(1)] d1 [OF bb(2)] d2 [OF bb(3)] d3 [OF bb(4)] d4 [OF bb(5)] by simp
qed

text \<open>A context that holds the key number \<open>r\<close> and the accumulator \<open>a\<close>.\<close>

definition list5 :: "limbs \<Rightarrow> u64 list" where
  "list5 = (\<lambda>(a, b, c, d, e). [a, b, c, d, e])"

definition p1305_holds :: "nat \<Rightarrow> nat \<Rightarrow> owc_p1305_t \<Rightarrow> bool" where
  "p1305_holds r a c \<longleftrightarrow>
     (\<exists>h k. p_h c = list5 h \<and> unat5 h = limbs5 a \<and> p_r c = list5 k \<and> unat5 k = limbs5 r \<and>
            p_s c = (case five_times k of (s0, s1, s2, s3) \<Rightarrow> [s0, s1, s2, s3]))"

lemma p1305_holdsI:
  "p_h c = list5 h \<Longrightarrow> unat5 h = limbs5 a \<Longrightarrow> p_r c = list5 k \<Longrightarrow> unat5 k = limbs5 r \<Longrightarrow>
     p_s c = (case five_times k of (s0, s1, s2, s3) \<Rightarrow> [s0, s1, s2, s3]) \<Longrightarrow> p1305_holds r a c"
  unfolding p1305_holds_def by blast

lemma rd5_list5 [simp]: "rd5 (list5 x) = Some x"
  by (cases x) (simp add: rd5_def list5_def)

definition poly_mul :: "nat \<Rightarrow> nat \<Rightarrow> nat" where
  "poly_mul r a = fold130 (val5 (nat_product (limbs5 a) (limbs5 r)))"

lemma owc_p1305_mul_eq:
  assumes "p1305_holds r a c"
  shows "\<exists>h. owc_p1305_mul c = Some (c\<lparr>p_h := h\<rparr>) \<and> p1305_holds r (poly_mul r a) (c\<lparr>p_h := h\<rparr>)"
proof -
  obtain h k where c: "p_h c = list5 h" "unat5 h = limbs5 a" "p_r c = list5 k" "unat5 k = limbs5 r"
      "p_s c = (case five_times k of (s0, s1, s2, s3) \<Rightarrow> [s0, s1, s2, s3])"
    using assms by (auto simp: p1305_holds_def)
  let ?h = "p1305_carry (p1305_product h k (five_times k))"
  have s: "small5 (unat5 h)" "small5 (unat5 k)" using c(2,4) small5_limbs5 by simp_all
  have "unat5 ?h = limbs5 (poly_mul r a)"
    using p1305_product_unat [OF s] by (simp add: p1305_carry_fold poly_mul_def c(2,4))
  moreover have "rd4 (p_s c) = Some (five_times k)"
    by (simp add: c(5) rd4_def split: prod.split)
  moreover have "(case ?h of (h0, h1, h2, h3, h4) \<Rightarrow> Some (c\<lparr>p_h := [h0, h1, h2, h3, h4]\<rparr>)) = Some (c\<lparr>p_h := list5 ?h\<rparr>)"
    by (simp add: list5_def split: prod.split)
  ultimately show ?thesis using c
    by (intro exI [of _ "list5 ?h"] conjI p1305_holdsI [where h = ?h and k = k]) (simp_all add: owc_p1305_mul_def)
qed

definition add5 :: "limbs \<Rightarrow> limbs \<Rightarrow> limbs" where
  "add5 = (\<lambda>(a, b, c, d, e) (a', b', c', d', e'). (a + a', b + b', c + c', d + d', e + e'))"

lemma p1305_add_eq:
  "c_for 0 5 (p1305_add_limb (list5 m)) (list5 h, 0) =
     Some (list5 (fst (word_ripple (add5 h m))), snd (word_ripple (add5 h m)))"
proof -
  obtain h0 h1 h2 h3 h4 where h: "h = (h0, h1, h2, h3, h4)" by (cases h) auto
  obtain m0 m1 m2 m3 m4 where m: "m = (m0, m1, m2, m3, m4)" by (cases m) auto
  show ?thesis unfolding h m
    by (simp add: c_for_step p1305_add_limb_def list5_def word_ripple_def add5_def Let_def add.assoc)
qed

lemma small_limb:
  assumes "unat x < 2 ^ 26"
  shows "x AND OWC_P26M = x" and "drop_bit 26 x = 0"
  using assms by (simp_all add: word_unat_eq_iff unat_P26M unat_shr)

lemma p1305_fold_eq:
  assumes "small5 (unat5 (h0, h1, h2, h3, h4))"
  shows "(if c \<noteq> 0
          then do { x \<leftarrow> c_rd (list5 (h0, h1, h2, h3, h4)) 0;
                    let v = x + c * 5;
                    h \<leftarrow> c_wr (list5 (h0, h1, h2, h3, h4)) 0 (v AND OWC_P26M);
                    p1305_ripple 1 h (drop_bit 26 v) }
          else Some (list5 (h0, h1, h2, h3, h4))) =
     Some (list5 (fst (word_ripple (h0 + c * 5, h1, h2, h3, h4))))"
proof -
  have s: "unat h0 < 2 ^ 26" "unat h1 < 2 ^ 26" "unat h2 < 2 ^ 26" "unat h3 < 2 ^ 26" "unat h4 < 2 ^ 26"
    using assms by (simp_all add: small5_def unat5_def)
  have stop: "p1305_ripple i xs 0 = Some xs" "p1305_ripple 5 xs k = Some xs" for i xs k
    by (simp_all add: p1305_ripple.simps)
  show ?thesis
    using small_limb [OF s(1)] small_limb [OF s(2)] small_limb [OF s(3)] small_limb [OF s(4)] small_limb [OF s(5)]
    by (simp add: list5_def word_ripple_def Let_def p1305_ripple.simps [of "Suc 0"] p1305_ripple.simps [of "Suc (Suc 0)"]
        p1305_ripple.simps [of "Suc (Suc (Suc 0))"] p1305_ripple.simps [of "Suc (Suc (Suc (Suc 0)))"] stop
        p1305_ripple.simps [of "Suc (Suc (Suc (Suc (Suc 0))))"])
qed

lemma unat_and_3FFF: "unat (x AND 0x3FFF :: u64) = unat x mod 2 ^ 14"
proof -
  have "(0x3FFF :: u64) = mask 14" by (simp add: mask_eq_exp_minus_1)
  then have "x AND 0x3FFF = take_bit 14 x" by (simp only: take_bit_eq_mask)
  then have "unat (x AND 0x3FFF) = take_bit 14 (unat x)" by (simp only: unsigned_take_bit_eq)
  then show ?thesis by (simp only: take_bit_eq_mod)
qed

lemma split_arith:
  "m = a + 2 ^ 26 * (b + 2 ^ 26 * q) \<Longrightarrow> n = c + 2 ^ 14 * (d + 2 ^ 26 * e) \<Longrightarrow>
     a + 2 ^ 26 * (b + 2 ^ 26 * (q + 2 ^ 12 * c + 2 ^ 26 * (d + 2 ^ 26 * e))) = m + 2 ^ 64 * n"
  for m n a b c d e q :: nat
  by simp

lemma p1305_split_val:
  shows "small5 (unat5 (p1305_split m0 m1))"
    and "val5 (unat5 (p1305_split m0 m1)) = unat m0 + 2 ^ 64 * unat m1"
    and "unat (snd (snd (snd (snd (p1305_split m0 m1))))) < 2 ^ 24"
proof -
  let ?m = "unat m0" and ?n = "unat m1"
  have b: "?m < 2 ^ 64" "?n < 2 ^ 64" using unsigned_less [of m0] unsigned_less [of m1] by simp_all
  have lo: "?m div 2 ^ 52 < 2 ^ 12" using b(1) by (simp add: div_less_iff_less_mult)
  have "drop_bit 52 m0 AND push_bit 12 (m1 AND 0x3FFF) = 0"
    by (rule bit_word_eqI) (auto simp: bit_simps dest: bit_imp_le_length)
  then have "drop_bit 52 m0 OR push_bit 12 (m1 AND 0x3FFF) = drop_bit 52 m0 + push_bit 12 (m1 AND 0x3FFF)"
    by (rule disjunctive_add_eq_or [symmetric])
  moreover have "unat (push_bit 12 (m1 AND 0x3FFF)) = 2 ^ 12 * (?n mod 2 ^ 14)"
    unfolding unsigned_push_bit_eq unat_and_3FFF
    by (simp add: push_bit_eq_mult take_bit_nat_eq_self)
  ultimately have mid: "unat (drop_bit 52 m0 OR push_bit 12 (m1 AND 0x3FFF)) = ?m div 2 ^ 52 + 2 ^ 12 * (?n mod 2 ^ 14)"
    using lo by (simp add: unat_word_ariths unat_shr)
  have hi: "?n div 2 ^ 40 < 2 ^ 24" using b(2) by (simp add: div_less_iff_less_mult)
  then have hi': "?n div 2 ^ 40 mod 2 ^ 26 = ?n div 2 ^ 40" by simp
  have u: "unat5 (p1305_split m0 m1) = (?m mod 2 ^ 26, ?m div 2 ^ 26 mod 2 ^ 26,
      ?m div 2 ^ 52 + 2 ^ 12 * (?n mod 2 ^ 14), ?n div 2 ^ 14 mod 2 ^ 26, ?n div 2 ^ 40)"
    unfolding p1305_split_def unat5_def prod.case unat_P26M unat_shr mid hi' ..
  show "small5 (unat5 (p1305_split m0 m1))" unfolding u small5_def using lo hi by simp
  show "unat (snd (snd (snd (snd (p1305_split m0 m1))))) < 2 ^ 24"
    using hi by (simp add: p1305_split_def unat_P26M [simplified] unat_shr [simplified])
  have "?m div 2 ^ 52 = ?m div 2 ^ 26 div 2 ^ 26" "?n div 2 ^ 40 = ?n div 2 ^ 14 div 2 ^ 26"
    by (simp_all add: div_mult2_eq [symmetric])
  then have "?m = ?m mod 2 ^ 26 + 2 ^ 26 * (?m div 2 ^ 26 mod 2 ^ 26 + 2 ^ 26 * (?m div 2 ^ 52))"
    "?n = ?n mod 2 ^ 14 + 2 ^ 14 * (?n div 2 ^ 14 mod 2 ^ 26 + 2 ^ 26 * (?n div 2 ^ 40))"
    by (simp_all only: mod_mult_div_eq)
  then show "val5 (unat5 (p1305_split m0 m1)) = ?m + 2 ^ 64 * ?n"
    unfolding u val5_def prod.case by (rule split_arith)
qed

text \<open>The number of a block of \<open>t\<close> bytes: its bytes, and a one behind them.\<close>

definition block_num :: "u8 list \<Rightarrow> nat" where
  "block_num bs = le_nat (bs @ [1])"

lemma block_num_eq: "block_num bs = le_nat bs + 2 ^ (8 * length bs)"
proof -
  have "(256 :: nat) ^ n = 2 ^ (8 * n)" for n by (simp add: power_mult)
  then show ?thesis by (simp add: block_num_def le_nat_append)
qed

definition p1305_message :: "u64 \<Rightarrow> u64 \<Rightarrow> u32 \<Rightarrow> limbs" where
  "p1305_message m0 m1 tlen =
     (let (m0, m1) = p1305_mark m0 m1 tlen; (a, b, d, e, f) = p1305_split m0 m1
      in (a, b, d, e, if tlen = 16 then f OR push_bit 24 1 else f))"

lemma p1305_message_full:
  "unat5 (p1305_message m0 m1 16) = limbs5 (unat m0 + 2 ^ 64 * unat m1 + 2 ^ 128)"
proof -
  obtain a b d e f where s: "p1305_split m0 m1 = (a, b, d, e, f)" by (cases "p1305_split m0 m1") auto
  note v = p1305_split_val [of m0 m1, unfolded s]
  have f: "unat (f OR push_bit 24 1) = unat f + 2 ^ 24" using v(3) by (intro unat_or_bit) simp_all
  have m: "p1305_message m0 m1 16 = (a, b, d, e, f OR push_bit 24 1)"
    by (simp add: p1305_message_def p1305_mark_def s)
  have "val5 (unat5 (p1305_message m0 m1 16)) = unat m0 + 2 ^ 64 * unat m1 + 2 ^ 128"
    using v(2) unfolding m unat5_def val5_def prod.case f by simp
  moreover have "small5 (unat5 (p1305_message m0 m1 16))"
    using v(1,3) unfolding m unat5_def small5_def prod.case f by simp
  ultimately show ?thesis using limbs5_val5 by metis
qed

lemma p1305_message_part:
  assumes "unat tlen < 16" and "unat m0 + 2 ^ 64 * unat m1 < 2 ^ (8 * unat tlen)"
  shows "unat5 (p1305_message m0 m1 tlen) = limbs5 (unat m0 + 2 ^ 64 * unat m1 + 2 ^ (8 * unat tlen))"
proof -
  let ?t = "unat tlen"
  have lt: "tlen < 16" "tlen \<noteq> 16" using assms(1) by (auto simp: word_less_nat_alt)
  obtain x y where xy: "p1305_mark m0 m1 tlen = (x, y)" by (cases "p1305_mark m0 m1 tlen") auto
  have sum: "unat x + 2 ^ 64 * unat y = unat m0 + 2 ^ 64 * unat m1 + 2 ^ (8 * ?t)"
  proof (cases "?t < 8")
    case True
    have "(2 :: nat) ^ (8 * ?t) < 2 ^ 64" using True by (intro power_strict_increasing) simp_all
    then have "unat m1 = 0" "unat m0 < 2 ^ (8 * ?t)" using assms(2) by simp_all
    moreover from this(2) have "unat (m0 OR push_bit (8 * ?t) 1) = unat m0 + 2 ^ (8 * ?t)"
      using True by (intro unat_or_bit) simp_all
    moreover have "unat (8 * tlen) = 8 * ?t" using True by (simp add: unat_word_ariths)
    moreover have "x = m0 OR push_bit (unat (8 * tlen)) 1" "y = m1"
      using xy lt True by (simp_all add: p1305_mark_def word_less_nat_alt del: push_bit_of_1)
    ultimately show ?thesis by (simp only:)
  next
    case False
    then have "8 * ?t = 64 + 8 * (?t - 8)" by simp
    then have p: "(2 :: nat) ^ (8 * ?t) = 2 ^ 64 * 2 ^ (8 * (?t - 8))" by (simp only: power_add)
    have "2 ^ 64 * unat m1 < 2 ^ 64 * 2 ^ (8 * (?t - 8))"
      using assms(2) unfolding p by linarith
    then have "unat m1 < 2 ^ (8 * (?t - 8))" by simp
    moreover have t8: "unat (tlen - 8) = ?t - 8" using False by (simp add: unat_sub_le word_le_nat_alt)
    have "unat (8 * (tlen - 8)) = unat (8 :: u32) * unat (tlen - 8) mod 2 ^ LENGTH(32)"
      by (rule unat_word_ariths)
    then have "unat (8 * (tlen - 8)) = 8 * (?t - 8)" unfolding t8 using assms(1) by simp
    moreover have "8 * (?t - 8) < 64" using assms(1) by simp
    ultimately have "unat (m1 OR push_bit (unat (8 * (tlen - 8))) 1) = unat m1 + 2 ^ (8 * (?t - 8))"
      by (simp only:) (rule unat_or_bit, simp_all)
    moreover have "y = m1 OR push_bit (unat (8 * (tlen - 8))) 1" "x = m0"
      using xy lt False by (simp_all add: p1305_mark_def word_less_nat_alt del: push_bit_of_1)
    ultimately show ?thesis unfolding p by (simp only:) simp
  qed
  have m: "p1305_message m0 m1 tlen = p1305_split x y"
    using lt(2) by (simp add: p1305_message_def xy split: prod.split)
  show ?thesis
    unfolding m using p1305_split_val(1,2) [of x y] limbs5_val5 sum by metis
qed

definition poly_step :: "nat \<Rightarrow> nat \<Rightarrow> nat \<Rightarrow> nat" where
  "poly_step r a x = poly_mul r (fold130 (a + x))"

lemma limbs5_mod: "limbs5 (n mod 2 ^ 130) = limbs5 n"
  unfolding val5_limbs5 [symmetric] by (rule limbs5_val5 [OF small5_limbs5])

lemma owc_p1305_block_eq:
  assumes "p1305_holds r a c" and "16 \<le> length blk"
    and "unat5 (p1305_message (le_word (take 8 blk)) (le_word (take 8 (drop 8 blk))) tlen) = limbs5 x"
    and "a < 2 ^ 130" and "x < 2 ^ 130"
  shows "\<exists>h. owc_p1305_block c blk tlen = Some (c\<lparr>p_h := h\<rparr>) \<and> p1305_holds r (poly_step r a x) (c\<lparr>p_h := h\<rparr>)"
proof -
  obtain h k where c: "p_h c = list5 h" "unat5 h = limbs5 a" "p_r c = list5 k" "unat5 k = limbs5 r"
      "p_s c = (case five_times k of (s0, s1, s2, s3) \<Rightarrow> [s0, s1, s2, s3])"
    using assms(1) by (auto simp: p1305_holds_def)
  define m where "m = p1305_message (le_word (take 8 blk)) (le_word (take 8 (drop 8 blk))) tlen"
  obtain m0 m1 m2 m3 m4 where mm: "m = (m0, m1, m2, m3, m4)" by (cases m) auto
  obtain h0 h1 h2 h3 h4 where hh: "h = (h0, h1, h2, h3, h4)" by (cases h) auto
  have sm: "small5 (unat5 h)" "small5 (unat5 m)" using c(2) assms(3) small5_limbs5 by (simp_all add: m_def)
  have add: "unat (h0 + m0) = unat h0 + unat m0" "unat (h1 + m1) = unat h1 + unat m1"
      "unat (h2 + m2) = unat h2 + unat m2" "unat (h3 + m3) = unat h3 + unat m3" "unat (h4 + m4) = unat h4 + unat m4"
    using sm by (simp_all add: hh mm small5_def unat5_def unat_word_ariths)
  have b: "below5 (2 ^ 60) (unat5 (add5 h m))"
    using sm unfolding hh mm add5_def small5_def below5_def unat5_def prod.case add by simp
  have "val5 (unat5 (add5 h m)) = val5 (unat5 h) + val5 (unat5 m)"
    unfolding hh mm add5_def unat5_def val5_def prod.case add by simp
  then have v: "val5 (unat5 (add5 h m)) = a + x"
    using c(2) assms(3,4,5) by (simp add: m_def [symmetric] val5_limbs5)
  obtain g0 g1 g2 g3 g4 u where g: "word_ripple (add5 h m) = ((g0, g1, g2, g3, g4), u)"
    by (cases "word_ripple (add5 h m)") auto
  have "unat5 (g0, g1, g2, g3, g4) = limbs5 (a + x)"
    using word_ripple_unat(1) [OF b] by (simp add: g nat_ripple_eq v)
  then have sg: "small5 (unat5 (g0, g1, g2, g3, g4))" using small5_limbs5 by simp
  let ?g = "p1305_carry (add5 h m)"
  have "?g = fst (word_ripple (g0 + u * 5, g1, g2, g3, g4))"
    by (simp add: p1305_carry_ripple g)
  then have fold: "(if u \<noteq> 0
        then do { x \<leftarrow> c_rd (list5 (g0, g1, g2, g3, g4)) 0;
                  let v = x + u * 5;
                  h \<leftarrow> c_wr (list5 (g0, g1, g2, g3, g4)) 0 (v AND OWC_P26M);
                  p1305_ripple 1 h (drop_bit 26 v) }
        else Some (list5 (g0, g1, g2, g3, g4))) = Some (list5 ?g)"
    using p1305_fold_eq [OF sg, of u] by simp
  have ug: "unat5 ?g = limbs5 (fold130 (a + x))" using p1305_carry_fold [OF b] by (simp add: v)
  have "owc_p1305_block c blk tlen =
      do { (h, carry) \<leftarrow> c_for 0 5 (p1305_add_limb (list5 m)) (p_h c, 0);
           h \<leftarrow> (if carry \<noteq> 0
                 then do { x \<leftarrow> c_rd h 0;
                           let v = x + carry * 5;
                           h \<leftarrow> c_wr h 0 (v AND OWC_P26M);
                           p1305_ripple 1 h (drop_bit 26 v) }
                 else Some h);
           owc_p1305_mul (c\<lparr>p_h := h\<rparr>) }"
    using assms(2) unfolding m_def p1305_message_def list5_def
    by (simp add: owc_p1305_block_def owc_get_eq Let_def split: prod.split)
  also have "\<dots> = owc_p1305_mul (c\<lparr>p_h := list5 ?g\<rparr>)"
    unfolding c(1) p1305_add_eq g bind.bind_lunit prod.case fst_conv snd_conv fold ..
  finally have blk: "owc_p1305_block c blk tlen = owc_p1305_mul (c\<lparr>p_h := list5 ?g\<rparr>)" .
  have "p1305_holds r (fold130 (a + x)) (c\<lparr>p_h := list5 ?g\<rparr>)"
    using c ug by (intro p1305_holdsI [where h = ?g and k = k]) simp_all
  from owc_p1305_mul_eq [OF this] show ?thesis unfolding blk poly_step_def by auto
qed

section \<open>Streaming\<close>

lemma fold130_less: "fold130 y < 2 ^ 130"
  by (simp add: fold130_def)

definition poly_acc :: "nat \<Rightarrow> u8 list list \<Rightarrow> nat" where
  "poly_acc r bs = foldl (poly_step r) 0 (map block_num bs)"

lemma poly_acc_less: "poly_acc r bs < 2 ^ 130"
proof (induction bs rule: rev_induct)
  case (snoc b bs)
  then show ?case unfolding poly_acc_def poly_step_def poly_mul_def by (simp add: fold130_less [simplified])
qed (simp add: poly_acc_def)

lemma le_nat_halves:
  assumes "length blk = 16"
  shows "unat (le_word (take 8 blk) :: u64) + 2 ^ 64 * unat (le_word (take 8 (drop 8 blk)) :: u64) = le_nat blk"
proof -
  have "le_nat (take 8 blk @ drop 8 blk) = le_nat (take 8 blk) + 256 ^ 8 * le_nat (drop 8 blk)"
    unfolding le_nat_append using assms by simp
  then show ?thesis using assms by (simp add: unat_le_word)
qed

lemma block_num_less: "length b \<le> 16 \<Longrightarrow> block_num b < 2 ^ 130"
proof -
  assume l: "length b \<le> 16"
  have "le_nat (b @ [1]) < 256 ^ length (b @ [1])" by (rule le_nat_less)
  also have "(256 :: nat) ^ length (b @ [1]) \<le> 256 ^ 17" using l by (intro power_increasing) simp_all
  finally have "le_nat (b @ [1]) < 256 ^ 17" .
  moreover have "le_nat b < 256 ^ 16"
    using le_nat_less [of b] l power_increasing [of "length b" 16 "256 :: nat"] by (meson less_le_trans one_le_numeral)
  moreover have "(2 :: nat) ^ (8 * length b) \<le> 2 ^ 128" using l by (intro power_increasing) simp_all
  ultimately show "block_num b < 2 ^ 130" unfolding block_num_eq by simp
qed

lemma block_full:
  assumes "p1305_holds r (poly_acc r bs) c" and "length blk = 16"
  shows "\<exists>h. owc_p1305_block c blk 16 = Some (c\<lparr>p_h := h\<rparr>) \<and> p1305_holds r (poly_acc r (bs @ [blk])) (c\<lparr>p_h := h\<rparr>)"
proof -
  have "unat5 (p1305_message (le_word (take 8 blk)) (le_word (take 8 (drop 8 blk))) 16) = limbs5 (block_num blk)"
    unfolding p1305_message_full le_nat_halves [OF assms(2)] by (simp add: block_num_eq assms(2))
  from owc_p1305_block_eq [OF assms(1) _ this poly_acc_less block_num_less] assms(2) show ?thesis
    by (simp add: poly_acc_def)
qed

lemma block_part:
  assumes "p1305_holds r (poly_acc r bs) c" and "length b = unat tlen" and "unat tlen < 16"
    and "blk = b @ replicate (16 - unat tlen) 0"
  shows "\<exists>h. owc_p1305_block c blk tlen = Some (c\<lparr>p_h := h\<rparr>) \<and> p1305_holds r (poly_acc r (bs @ [b])) (c\<lparr>p_h := h\<rparr>)"
proof -
  have l: "length blk = 16" using assms(2,3,4) by simp
  have n: "le_nat blk = le_nat b" by (simp add: assms(4) le_nat_append)
  have p: "(256 :: nat) ^ length b = 2 ^ (8 * unat tlen)" by (simp add: power_mult assms(2))
  have lt: "le_nat blk < 2 ^ (8 * unat tlen)" using le_nat_less [of b] by (simp add: n p)
  have "unat5 (p1305_message (le_word (take 8 blk)) (le_word (take 8 (drop 8 blk))) tlen) = limbs5 (block_num b)"
    using p1305_message_part [OF assms(3), of "le_word (take 8 blk)" "le_word (take 8 (drop 8 blk))"] lt
    unfolding le_nat_halves [OF l] by (simp add: block_num_eq n assms(2))
  from owc_p1305_block_eq [OF assms(1) _ this poly_acc_less block_num_less] l assms(2,3) show ?thesis
    by (simp add: poly_acc_def)
qed

definition p1305_absorbed :: "nat \<Rightarrow> u64 \<Rightarrow> u64 \<Rightarrow> owc_p1305_t \<Rightarrow> u8 list \<Rightarrow> bool" where
  "p1305_absorbed r s0 s1 c m \<longleftrightarrow> length (p_block c) = 16 \<and> unat (p_blocklen c) < 16 \<and> p_pad0 c = s0 \<and> p_pad1 c = s1 \<and>
     (\<exists>bs. all_len 16 bs \<and> m = concat bs @ take (unat (p_blocklen c)) (p_block c) \<and> p1305_holds r (poly_acc r bs) c)"

lemma p1305_holds_cong:
  "p_h d = p_h c \<Longrightarrow> p_r d = p_r c \<Longrightarrow> p_s d = p_s c \<Longrightarrow> p1305_holds r a d = p1305_holds r a c"
  by (simp add: p1305_holds_def)

lemma owc_p1305_update_absorbs:
  assumes "p1305_absorbed r s0 s1 c m" and "unat n \<le> length data"
  shows "\<exists>d. owc_p1305_update c data n = Some d \<and> p1305_absorbed r s0 s1 d (m @ take (unat n) data)"
  using assms
proof (induction "unat n" arbitrary: c m data n rule: less_induct)
  case less
  show ?case
  proof (cases "n = 0")
    case True
    then show ?thesis using less.prems(1) by (subst owc_p1305_update.simps) simp
  next
    case False
    let ?l = "unat (p_blocklen c)"
    obtain bs where c: "length (p_block c) = 16" "?l < 16" "p_pad0 c = s0" "p_pad1 c = s1" "all_len 16 bs"
        "m = concat bs @ take ?l (p_block c)" "p1305_holds r (poly_acc r bs) c"
      using less.prems(1) by (auto simp: p1305_absorbed_def)
    define tk where "tk = (if 16 - p_blocklen c < n then 16 - p_blocklen c else n)"
    have room: "unat (16 - p_blocklen c) = 16 - ?l" using c(2) by (simp add: unat_sub_le word_le_nat_alt)
    then have tk: "unat tk = min (16 - ?l) (unat n)" by (simp add: tk_def word_less_nat_alt min_def)
    then have tk': "unat tk \<le> length data" "?l + unat tk \<le> 16" "0 < unat tk" "unat tk \<le> unat n"
      using less.prems(2) c(2) False by (auto simp: unat_gt_0)
    let ?b = "patch (p_block c) ?l (take (unat tk) data)"
    let ?c = "c\<lparr>p_block := ?b, p_blocklen := p_blocklen c + tk\<rparr>"
    have copy: "c_for 0 (unat tk) (\<lambda>i b. do { v \<leftarrow> c_rd data i; c_wr b (?l + i) v }) (p_block c) = Some ?b"
      using tk' c(1) by (intro c_for_copy) simp_all
    have len: "unat (p_blocklen c + tk) = ?l + unat tk" using tk'(2) by (simp add: unat_word_ariths)
    have tb: "take (?l + unat tk) ?b = take ?l (p_block c) @ take (unat tk) data"
      using tk' c(1) by (intro take_patch_eq) simp_all
    have lb: "length ?b = 16" using tk' c(1) by simp
    have sub: "unat (n - tk) = unat n - unat tk" using tk'(4) by (simp add: unat_sub_le word_le_nat_alt)
    define d where "d = (if ?l + unat tk = 16
        then do { e \<leftarrow> owc_p1305_block ?c ?b 16; Some (e\<lparr>p_blocklen := 0\<rparr>) } else Some ?c)"
    have "\<exists>e. d = Some e \<and> p1305_absorbed r s0 s1 e (m @ take (unat tk) data)"
    proof (cases "?l + unat tk = 16")
      case True
      have "?b = take ?l (p_block c) @ take (unat tk) data" using tb True lb by simp
      moreover have "p1305_holds r (poly_acc r bs) ?c" using c(7) by (simp add: p1305_holds_cong [of ?c c])
      then obtain h where h: "owc_p1305_block ?c ?b 16 = Some (?c\<lparr>p_h := h\<rparr>)"
          "p1305_holds r (poly_acc r (bs @ [?b])) (?c\<lparr>p_h := h\<rparr>)"
        using block_full [OF _ lb] by blast
      let ?e = "?c\<lparr>p_h := h, p_blocklen := 0\<rparr>"
      have "p1305_holds r (poly_acc r (bs @ [?b])) ?e" using h(2) by (simp add: p1305_holds_def)
      ultimately show ?thesis using True h(1) c lb
        by (intro exI [of _ ?e]) (auto simp: d_def p1305_absorbed_def intro!: exI [of _ "bs @ [?b]"])
    next
      case False
      have "p1305_holds r (poly_acc r bs) ?c" using c(7) by (simp add: p1305_holds_cong [of ?c c])
      then show ?thesis using False tk'(2) c lb len tb
        by (intro exI [of _ ?c]) (auto simp: d_def p1305_absorbed_def intro!: exI [of _ bs])
    qed
    then obtain e where e: "d = Some e" "p1305_absorbed r s0 s1 e (m @ take (unat tk) data)" by blast
    have dec: "unat (n - tk) < unat n" using sub tk'(3,4) by linarith
    have rest: "unat (n - tk) \<le> length (drop (unat tk) data)" using sub less.prems(2) tk'(4) by simp
    have full: "p_blocklen c + tk = 16 \<longleftrightarrow> ?l + unat tk = 16" using len by (simp add: word_unat_eq_iff)
    have "owc_p1305_update c data n = owc_p1305_update e (drop (unat tk) data) (n - tk)"
      using False e(1) full copy
      by (subst owc_p1305_update.simps) (auto simp: tk_def [symmetric] Let_def d_def word_gt_0 split: if_splits bind_splits)
    moreover have "take (unat tk) data @ take (unat (n - tk)) (drop (unat tk) data) = take (unat n) data"
      using sub tk'(4) by (metis le_add_diff_inverse take_add)
    ultimately show ?thesis using less.hyps [OF dec e(2) rest] by simp
  qed
qed

section \<open>The tag\<close>

lemma p1305_select_small: "small5 (unat5 h) \<Longrightarrow> p1305_select h = h"
proof -
  assume s: "small5 (unat5 h)"
  obtain h0 h1 h2 h3 h4 where h: "h = (h0, h1, h2, h3, h4)" by (cases h) auto
  have "unat (h0 + 5) = unat h0 + 5" using s by (simp add: h small5_def unat5_def unat_word_ariths)
  then have "\<not> h0 + 5 < h0" by (simp add: word_less_nat_alt)
  then show ?thesis by (simp add: h p1305_select_def)
qed

lemma unat_and_low: "unat (x AND 0xFFF :: u64) = unat x mod 2 ^ 12" "unat (x AND 0xFFFF :: u64) = unat x mod 2 ^ 16"
proof -
  have m: "(0xFFF :: u64) = mask 12" "(0xFFFF :: u64) = mask 16" by (simp_all add: mask_eq_exp_minus_1)
  show "unat (x AND 0xFFF) = unat x mod 2 ^ 12"
    unfolding m take_bit_eq_mask [symmetric] unsigned_take_bit_eq by (rule take_bit_eq_mod)
  show "unat (x AND 0xFFFF) = unat x mod 2 ^ 16"
    unfolding m take_bit_eq_mask [symmetric] unsigned_take_bit_eq by (rule take_bit_eq_mod)
qed

lemma unat_shl: "unat (x :: u64) * 2 ^ k < 2 ^ 64 \<Longrightarrow> unat (push_bit k x) = unat x * 2 ^ k"
  unfolding unsigned_push_bit_eq by (simp add: push_bit_eq_mult take_bit_nat_eq_self)

lemma unat_or_above:
  assumes "unat (x :: u64) < 2 ^ k" and "unat y * 2 ^ k < 2 ^ 64"
  shows "unat (x OR push_bit k y) = unat x + unat y * 2 ^ k"
proof -
  have "x OR push_bit k y = x + push_bit k y" by (rule or_push_bit_add [OF assms(1)])
  moreover have "unat x + unat y * 2 ^ k < 2 ^ 64"
  proof (cases "k < 64")
    case True
    then have e: "(2 :: nat) ^ 64 = 2 ^ k * 2 ^ (64 - k)" by (simp flip: power_add)
    have "2 ^ k * unat y < 2 ^ k * 2 ^ (64 - k)" using assms(2) unfolding e by (simp only: mult.commute)
    then have "unat y < 2 ^ (64 - k)" by simp
    then have "unat y + 1 \<le> 2 ^ (64 - k)" by simp
    then have "2 ^ k * (unat y + 1) \<le> 2 ^ 64" unfolding e by (intro mult_le_mono2)
    then show ?thesis using assms(1) by (simp add: add_mult_distrib2 mult.commute)
  next
    case False
    then have "(2 :: nat) ^ 64 \<le> 2 ^ k" by (intro power_increasing) simp_all
    then have "unat y = 0" using assms(2) by (cases "unat y") auto
    then show ?thesis using unsigned_less [of x] by simp
  qed
  ultimately show ?thesis using assms(2) by (simp add: unat_word_ariths unat_shl)
qed

lemma pack_arith:
  "h4 = x + 2 ^ 16 * (y + 2 ^ 8 * z) \<Longrightarrow> h2 = u + 2 ^ 12 * v \<Longrightarrow>
     h0 + 2 ^ 26 * (h1 + 2 ^ 26 * (h2 + 2 ^ 26 * (h3 + 2 ^ 26 * h4))) =
     h0 + h1 * 2 ^ 26 + u * 2 ^ 52 + 2 ^ 64 * (v + h3 * 2 ^ 14 + x * 2 ^ 40 + y * 2 ^ 56) + 2 ^ 128 * z"
  for h0 h1 h2 h3 h4 x y z u v :: nat
  by simp

lemma p1305_pack_eq:
  assumes "unat5 h = limbs5 a" and "a < 2 ^ 130" and "p1305_pack h = (e0, e1)"
  shows "(unat e0 + 2 ^ 64 * unat e1) mod 2 ^ 128 = a mod 2 ^ 128"
proof -
  obtain h0 h1 h2 h3 h4 where h: "h = (h0, h1, h2, h3, h4)" by (cases h) auto
  have s: "unat h0 < 2 ^ 26" "unat h1 < 2 ^ 26" "unat h2 < 2 ^ 26" "unat h3 < 2 ^ 26" "unat h4 < 2 ^ 26"
    using small5_limbs5 [of a] by (simp_all add: assms(1) [symmetric] h small5_def unat5_def)
  have "val5 (unat5 h) = a" using assms(1,2) by (simp add: val5_limbs5)
  then have a: "a = unat h0 + 2 ^ 26 * (unat h1 + 2 ^ 26 * (unat h2 + 2 ^ 26 * (unat h3 + 2 ^ 26 * unat h4)))"
    by (simp add: h val5_def unat5_def)
  have 1: "unat (h0 OR push_bit 26 h1) = unat h0 + unat h1 * 2 ^ 26" using s by (intro unat_or_above) simp_all
  have 2: "unat ((h0 OR push_bit 26 h1) OR push_bit 52 (h2 AND 0xFFF)) =
      unat (h0 OR push_bit 26 h1) + unat (h2 AND 0xFFF) * 2 ^ 52"
    using s by (intro unat_or_above) (simp_all add: 1 [simplified] unat_and_low [simplified])
  have e0: "unat e0 = unat h0 + unat h1 * 2 ^ 26 + (unat h2 mod 2 ^ 12) * 2 ^ 52"
    using assms(3) 1 2 unfolding h p1305_pack_def prod.case or.assoc [symmetric] unat_and_low by simp
  let ?t = "take_bit 8 (drop_bit 16 h4)"
  have top: "push_bit 56 (drop_bit 16 h4) = push_bit 56 ?t"
    by (rule bit_word_eqI) (auto simp: bit_simps)
  have t: "unat ?t = unat h4 div 2 ^ 16 mod 2 ^ 8"
    unfolding unsigned_take_bit_eq unat_shr by (rule take_bit_eq_mod)
  have lo: "unat (drop_bit 12 h2) = unat h2 div 2 ^ 12" by (rule unat_shr)
  have lt: "unat h2 div 2 ^ 12 < 2 ^ 14" using s(3) by (simp add: div_less_iff_less_mult)
  have 3: "unat (drop_bit 12 h2 OR push_bit 14 h3) = unat (drop_bit 12 h2) + unat h3 * 2 ^ 14"
    using s(4) lt unfolding lo [symmetric] by (intro unat_or_above) simp_all
  then have b3: "unat (drop_bit 12 h2 OR push_bit 14 h3) < 2 ^ 40"
    using s(4) lt unfolding lo by simp
  have 4: "unat ((drop_bit 12 h2 OR push_bit 14 h3) OR push_bit 40 (h4 AND 0xFFFF)) =
      unat (drop_bit 12 h2 OR push_bit 14 h3) + unat (h4 AND 0xFFFF) * 2 ^ 40"
    using b3 by (intro unat_or_above) (simp_all add: unat_and_low [simplified])
  then have b4: "unat ((drop_bit 12 h2 OR push_bit 14 h3) OR push_bit 40 (h4 AND 0xFFFF)) < 2 ^ 56"
    using b3 unfolding unat_and_low by simp
  have 5: "unat (((drop_bit 12 h2 OR push_bit 14 h3) OR push_bit 40 (h4 AND 0xFFFF)) OR push_bit 56 ?t) =
      unat ((drop_bit 12 h2 OR push_bit 14 h3) OR push_bit 40 (h4 AND 0xFFFF)) + unat ?t * 2 ^ 56"
    using b4 by (intro unat_or_above) (simp_all add: t [simplified])
  have e1: "unat e1 = unat h2 div 2 ^ 12 + unat h3 * 2 ^ 14 + (unat h4 mod 2 ^ 16) * 2 ^ 40 +
      (unat h4 div 2 ^ 16 mod 2 ^ 8) * 2 ^ 56"
    using assms(3) 3 4 5 unfolding h p1305_pack_def prod.case or.assoc [symmetric] top t lo unat_and_low by simp
  have "unat h4 = unat h4 mod 2 ^ 16 + 2 ^ 16 * (unat h4 div 2 ^ 16 mod 2 ^ 8 + 2 ^ 8 * (unat h4 div 2 ^ 16 div 2 ^ 8))"
    "unat h2 = unat h2 mod 2 ^ 12 + 2 ^ 12 * (unat h2 div 2 ^ 12)"
    by (simp_all only: mod_mult_div_eq)
  then have "a = unat e0 + 2 ^ 64 * unat e1 + 2 ^ 128 * (unat h4 div 2 ^ 16 div 2 ^ 8)"
    unfolding a e0 e1 by (rule pack_arith)
  then show ?thesis by simp
qed

text \<open>RFC 8439, section 2.5.\<close>

definition rfc_clamp :: "u8 list \<Rightarrow> nat" where
  "rfc_clamp key = unat (le_word (take 16 key) AND 0x0FFFFFFC0FFFFFFC0FFFFFFC0FFFFFFF :: 128 word)"

definition rfc_poly_acc :: "nat \<Rightarrow> u8 list list \<Rightarrow> nat" where
  "rfc_poly_acc r bs = foldl (\<lambda>a b. (a + block_num b) * r mod (2 ^ 130 - 5)) 0 bs"

definition poly_tag :: "u8 list \<Rightarrow> nat \<Rightarrow> u8 list" where
  "poly_tag key a = le_bytes 16 (of_nat (a + le_nat (take 16 (drop 16 key))) :: 128 word)"

definition rfc_poly1305 :: "u8 list \<Rightarrow> u8 list \<Rightarrow> u8 list" where
  "rfc_poly1305 key m = poly_tag key (rfc_poly_acc (rfc_clamp key) (chunks 16 m))"

lemma le_word_append: "le_word (xs @ ys) = le_word xs OR push_bit (8 * length xs) (le_word ys)"
  by (induction xs) (simp_all add: push_bit_or or.assoc add.commute)

lemma le_word_ucast:
  "8 * length bs \<le> LENGTH('a) \<Longrightarrow> LENGTH('a) \<le> LENGTH('b) \<Longrightarrow>
     (le_word bs :: 'b::len word) = ucast (le_word bs :: 'a::len word)"
  by (rule word_unat_eq_iff [THEN iffD2]) (simp add: unat_le_word unat_ucast_up)

lemma take_16_split: "take 16 xs = take 8 xs @ take 8 (drop 8 xs)"
  by (metis add_self_div_2 mult_2 numeral_Bit0 take_add)

lemma rfc_clamp_eq:
  assumes "16 \<le> length key"
  shows "rfc_clamp key = unat (le_word (take 8 key) AND 0x0FFFFFFC0FFFFFFF :: u64) +
     2 ^ 64 * unat (le_word (take 8 (drop 8 key)) AND 0x0FFFFFFC0FFFFFFC :: u64)"
proof -
  let ?l = "le_word (take 8 key) :: u64" and ?h = "le_word (take 8 (drop 8 key)) :: u64"
  let ?L = "?l AND 0x0FFFFFFC0FFFFFFF" and ?H = "?h AND 0x0FFFFFFC0FFFFFFC"
  have w: "(le_word (take 16 key) :: 128 word) = ucast ?l OR push_bit 64 (ucast ?h)"
    using assms unfolding take_16_split le_word_append by (simp add: le_word_ucast [where 'a = 64 and 'b = 128])
  have c: "(0x0FFFFFFC0FFFFFFC0FFFFFFC0FFFFFFF :: 128 word) =
      ucast (0x0FFFFFFC0FFFFFFF :: u64) OR push_bit 64 (ucast (0x0FFFFFFC0FFFFFFC :: u64))" by simp
  have and2: "(ucast a OR push_bit 64 (ucast b)) AND (ucast c OR push_bit 64 (ucast d)) =
      (ucast (a AND c) OR push_bit 64 (ucast (b AND d)) :: 128 word)" for a b c d :: u64
    by (rule bit_word_eqI) (auto simp: bit_simps dest: bit_imp_le_length)
  have "ucast a AND push_bit 64 (ucast b) = (0 :: 128 word)" for a b :: u64
    by (rule bit_word_eqI) (auto simp: bit_simps dest: bit_imp_le_length)
  then have "ucast ?L OR push_bit 64 (ucast ?H) = (ucast ?L + push_bit 64 (ucast ?H) :: 128 word)"
    by (rule disjunctive_add_eq_or [symmetric])
  moreover have "unat (push_bit 64 (ucast ?H) :: 128 word) = 2 ^ 64 * unat ?H"
    unfolding unsigned_push_bit_eq using unat64_less [of ?H]
    by (simp add: unat_ucast_up push_bit_eq_mult take_bit_nat_eq_self)
  ultimately show ?thesis
    unfolding rfc_clamp_def w c and2 using unat64_less [of ?L] unat64_less [of ?H]
    by (simp add: unat_word_ariths unat_ucast_up)
qed

lemma owc_p1305_init_eq:
  assumes "32 \<le> length key" and "length (p_block c) = 16"
  shows "\<exists>d. owc_p1305_init c key = Some d \<and>
     p1305_absorbed (rfc_clamp key) (le_word (take 8 (drop 16 key))) (le_word (take 8 (drop 24 key))) d []"
proof -
  let ?m0 = "le_word (take 8 key) AND 0x0FFFFFFC0FFFFFFF :: u64"
  let ?m1 = "le_word (take 8 (drop 8 key)) AND 0x0FFFFFFC0FFFFFFC :: u64"
  obtain a b d e f where s: "p1305_split ?m0 ?m1 = (a, b, d, e, f)" by (cases "p1305_split ?m0 ?m1") auto
  let ?c = "c\<lparr>p_r := [a, b, d, e, f], p_s := [b * 5, d * 5, e * 5, f * 5], p_h := [0, 0, 0, 0, 0],
      p_pad0 := le_word (take 8 (drop 16 key)), p_pad1 := le_word (take 8 (drop 24 key)), p_blocklen := 0\<rparr>"
  have "unat5 (p1305_split ?m0 ?m1) = limbs5 (rfc_clamp key)"
    using limbs5_val5 [OF p1305_split_val(1) [of ?m0 ?m1]] assms(1)
    by (simp only: p1305_split_val(2) rfc_clamp_eq [symmetric])
  then have "p1305_holds (rfc_clamp key) 0 ?c"
    by (intro p1305_holdsI [where h = "(0, 0, 0, 0, 0)" and k = "(a, b, d, e, f)"])
      (simp_all add: s list5_def unat5_def limbs5_def five_times_def)
  then have "p1305_absorbed (rfc_clamp key) (le_word (take 8 (drop 16 key))) (le_word (take 8 (drop 24 key))) ?c []"
    using assms(2) by (auto simp: p1305_absorbed_def poly_acc_def intro!: exI [of _ "[]"])
  moreover have "owc_p1305_init c key = Some ?c"
    using assms(1) s by (simp add: owc_p1305_init_def owc_get_eq)
  ultimately show ?thesis by blast
qed

lemma chunks_append_part:
  assumes "all_len b bs" and "length x < b"
  shows "chunks b (concat bs @ x) = bs @ (if x = [] then [] else [x])"
  using assms
proof (induction bs)
  case Nil
  then show ?case by (cases "x = []") (simp_all add: chunks.simps)
next
  case (Cons y bs)
  then have "y \<noteq> []" "b \<noteq> 0" by auto
  with Cons show ?case by (subst chunks.simps) simp
qed

lemma p1305_flush_eq:
  assumes "p1305_absorbed r s0 s1 c m"
  shows "\<exists>d. p1305_flush c = Some d \<and> p_pad0 d = s0 \<and> p_pad1 d = s1 \<and> p1305_holds r (poly_acc r (chunks 16 m)) d"
proof -
  let ?l = "unat (p_blocklen c)"
  obtain bs where c: "length (p_block c) = 16" "?l < 16" "p_pad0 c = s0" "p_pad1 c = s1" "all_len 16 bs"
      "m = concat bs @ take ?l (p_block c)" "p1305_holds r (poly_acc r bs) c"
    using assms by (auto simp: p1305_absorbed_def)
  let ?b = "take ?l (p_block c)"
  have ch: "chunks 16 m = bs @ (if ?b = [] then [] else [?b])"
    unfolding c(6) using c(1,2,5) by (intro chunks_append_part) simp_all
  show ?thesis
  proof (cases "p_blocklen c = 0")
    case True
    then show ?thesis using c ch by (simp add: p1305_flush_def)
  next
    case False
    then have "unat (p_blocklen c) \<noteq> 0" by (simp add: unat_eq_0)
    then have ch': "chunks 16 m = bs @ [?b]" unfolding ch using c(1) by auto
    let ?p = "?b @ replicate (16 - ?l) 0"
    let ?c = "c\<lparr>p_block := ?p\<rparr>"
    have "c_for ?l 16 (\<lambda>i b. c_wr b i 0) (p_block c) = Some (patch (p_block c) ?l (replicate (16 - ?l) 0))"
      using c(1,2) c_for_fill [of ?l 16 "\<lambda>_. Some 0" "\<lambda>_. 0" 0 "p_block c"] by (simp add: map_replicate_const)
    moreover have "patch (p_block c) ?l (replicate (16 - ?l) 0) = ?p" using c(1,2) by (simp add: patch_def)
    moreover have t: "unat (ucast (p_blocklen c) :: u32) = ?l" using c(2) by (simp add: unat_ucast_down)
    have h: "p1305_holds r (poly_acc r bs) ?c" using c(7) by (simp add: p1305_holds_def)
    have "length ?b = unat (ucast (p_blocklen c) :: u32)" "unat (ucast (p_blocklen c) :: u32) < 16"
        "?p = ?b @ replicate (16 - unat (ucast (p_blocklen c) :: u32)) 0"
      unfolding t using c(1,2) by simp_all
    from block_part [OF h this]
    obtain g where "owc_p1305_block ?c ?p (ucast (p_blocklen c)) = Some (?c\<lparr>p_h := g\<rparr>)"
        "p1305_holds r (poly_acc r (bs @ [?b])) (?c\<lparr>p_h := g\<rparr>)" by blast
    ultimately show ?thesis using False c(3,4) unfolding ch'
      by (simp add: p1305_flush_def p1305_holds_def)
  qed
qed

text \<open>The 128-bit sum of the accumulator and the second half of the key.\<close>

lemma add128:
  fixes e0 e1 s0 s1 :: u64
  assumes "(unat e0 + 2 ^ 64 * unat e1) mod 2 ^ 128 = a mod 2 ^ 128"
  shows "le_bytes 8 (e0 + s0) @ le_bytes 8 (e1 + s1 + (if e0 + s0 < e0 then 1 else 0)) =
     le_bytes 16 (of_nat (a + (unat s0 + 2 ^ 64 * unat s1)) :: 128 word)"
proof -
  define N where "N = unat e0 + unat s0 + 2 ^ 64 * (unat e1 + unat s1)"
  have "(a + (unat s0 + 2 ^ 64 * unat s1)) mod 2 ^ 128 = N mod 2 ^ 128"
  proof -
    let ?S = "unat s0 + 2 ^ 64 * unat s1" and ?E = "unat e0 + 2 ^ 64 * unat e1"
    have "(a + ?S) mod 2 ^ 128 = (a mod 2 ^ 128 + ?S) mod 2 ^ 128" by (rule mod_add_left_eq [symmetric])
    also have "\<dots> = (?E + ?S) mod 2 ^ 128" unfolding assms [symmetric] by (rule mod_add_left_eq)
    also have "?E + ?S = N" by (simp add: N_def)
    finally show ?thesis .
  qed
  then have N: "(of_nat (a + (unat s0 + 2 ^ 64 * unat s1)) :: 128 word) = of_nat N"
    by (simp only: word_of_nat_eq_iff take_bit_eq_mod) simp
  have lo: "ucast (of_nat N :: 128 word) = e0 + s0"
  proof (rule word_unat_eq_iff [THEN iffD2])
    have "N mod 2 ^ 128 mod 2 ^ 64 = N mod 2 ^ 64" by (rule mod_mod_cancel) (simp add: le_imp_power_dvd)
    moreover have "N mod 2 ^ 64 = (unat e0 + unat s0) mod 2 ^ 64"
      unfolding N_def by (rule mod_mult_self2)
    ultimately show "unat (ucast (of_nat N :: 128 word) :: u64) = unat (e0 + s0)"
      by (simp add: unat_ucast_down unat_of_nat unat_word_ariths)
  qed
  define q where "q = (unat e0 + unat s0) div 2 ^ 64"
  have b: "unat e0 < 2 ^ 64" "unat s0 < 2 ^ 64" by (rule unat64_less)+
  have q: "(if e0 + s0 < e0 then 1 else 0 :: u64) = of_nat q"
  proof (cases "2 ^ 64 \<le> unat e0 + unat s0")
    case True
    then have "q = 1" unfolding q_def using b by (intro div_nat_eqI) simp_all
    moreover have "unat (e0 + s0) = unat e0 + unat s0 - 2 ^ 64"
      using True b by (simp add: unat_word_ariths mod_if)
    ultimately show ?thesis using True b by (simp add: word_less_nat_alt)
  next
    case False
    then have "q = 0" "unat (e0 + s0) = unat e0 + unat s0" by (simp_all add: q_def unat_word_ariths)
    then show ?thesis by (simp add: word_less_nat_alt)
  qed
  have "N div 2 ^ 64 = unat e1 + unat s1 + q"
    unfolding N_def q_def using div_mult_self2 [of "2 ^ 64" "unat e0 + unat s0" "unat e1 + unat s1"] by simp
  moreover have "unat (drop_bit 64 (of_nat N :: 128 word)) = N mod 2 ^ 128 div 2 ^ 64"
    unfolding unat_shr by (simp add: unat_of_nat)
  moreover have "N mod 2 ^ 128 div 2 ^ 64 mod 2 ^ 64 = N div 2 ^ 64 mod 2 ^ 64"
    using mod_mult2_eq [of N "2 ^ 64" "2 ^ 64"] by simp
  ultimately have hi: "ucast (drop_bit 64 (of_nat N :: 128 word)) = e1 + s1 + of_nat q"
    by (intro word_unat_eq_iff [THEN iffD2]) (simp add: unat_ucast_down unat_word_ariths unat_of_nat mod_simps)
  have "le_bytes (8 + 8) (of_nat N :: 128 word) =
      le_bytes 8 (ucast (of_nat N :: 128 word) :: u64) @ le_bytes 8 (ucast (drop_bit 64 (of_nat N :: 128 word)) :: u64)"
    unfolding le_bytes_add by (simp add: le_bytes_ucast)
  then show ?thesis unfolding N lo hi q by simp
qed

lemma owc_p1305_final_eq:
  assumes "p1305_absorbed r (le_word (take 8 (drop 16 key))) (le_word (take 8 (drop 24 key))) c m"
    and "32 \<le> length key" and "16 \<le> length tag"
  shows "\<exists>d. owc_p1305_final c tag = Some (d, patch tag 0 (poly_tag key (poly_acc r (chunks 16 m))))"
proof -
  let ?a = "poly_acc r (chunks 16 m)"
  let ?s0 = "le_word (take 8 (drop 16 key)) :: u64" and ?s1 = "le_word (take 8 (drop 24 key)) :: u64"
  obtain d where d: "p1305_flush c = Some d" "p_pad0 d = ?s0" "p_pad1 d = ?s1" "p1305_holds r ?a d"
    using p1305_flush_eq [OF assms(1)] by blast
  then obtain h where h: "p_h d = list5 h" "unat5 h = limbs5 ?a" by (auto simp: p1305_holds_def)
  then have sel: "p1305_select h = h" using small5_limbs5 by (simp add: p1305_select_small)
  obtain e0 e1 where e: "p1305_pack h = (e0, e1)" by (cases "p1305_pack h")
  let ?lo = "le_bytes 8 (e0 + ?s0)" and ?hi = "le_bytes 8 (e1 + ?s1 + (if e0 + ?s0 < e0 then 1 else 0))"
  have "unat ?s0 + 2 ^ 64 * unat ?s1 = le_nat (take 16 (drop 16 key))"
    using le_nat_halves [of "take 16 (drop 16 key)"] assms(2) by (simp add: drop_take)
  then have tag: "?lo @ ?hi = poly_tag key ?a"
    unfolding poly_tag_def using add128 [OF p1305_pack_eq [OF h(2) poly_acc_less e], of ?s0 ?s1] by simp
  have "do { tag \<leftarrow> owc_put64le tag 0 (e0 + ?s0);
      owc_put64le tag 8 (e1 + ?s1 + (if e0 + ?s0 < e0 then 1 else 0)) } = Some (patch tag 0 (?lo @ ?hi))"
    using assms(3) patch_append [of 0 ?lo ?hi tag] by (simp add: owc_put_eq)
  note put = this
  show ?thesis
    unfolding owc_p1305_final_def d h bind.bind_lunit rd5_list5 sel e Let_def prod.case tag [symmetric]
      bind_assoc [symmetric] put by blast
qed

lemma owcrypt_poly1305_eq:
  assumes "32 \<le> length key" and "unat len \<le> length msg" and "16 \<le> length tag"
  shows "owcrypt_poly1305 key msg len tag =
     Some (patch tag 0 (poly_tag key (poly_acc (rfc_clamp key) (chunks 16 (take (unat len) msg)))))"
proof -
  have "length (p_block p1305_stack) = 16" by (simp add: p1305_stack_def)
  then obtain c where c: "owc_p1305_init p1305_stack key = Some c"
      "p1305_absorbed (rfc_clamp key) (le_word (take 8 (drop 16 key))) (le_word (take 8 (drop 24 key))) c []"
    using owc_p1305_init_eq [OF assms(1)] by blast
  from owc_p1305_update_absorbs [OF c(2) assms(2)]
  obtain d where d: "owc_p1305_update c msg len = Some d"
      "p1305_absorbed (rfc_clamp key) (le_word (take 8 (drop 16 key))) (le_word (take 8 (drop 24 key))) d
        (take (unat len) msg)" by auto
  from owc_p1305_final_eq [OF d(2) assms(1,3)] c(1) d(1) show ?thesis
    by (auto simp: owcrypt_poly1305_def)
qed

section \<open>Agreement with the standard\<close>

text \<open>
  The code keeps the accumulator below \<open>2 ^ 130\<close>, not below the prime \<open>2 ^ 130 - 5\<close>. It
  omits two reductions: the carry out of the last limb at the end of the multiplication, and the
  subtraction of the prime at the end. \<open>poly_exact\<close> says that neither is needed.
\<close>

definition fold_exact :: "nat \<Rightarrow> bool" where
  "fold_exact y \<longleftrightarrow> y mod 2 ^ 130 + 5 * (y div 2 ^ 130) < 2 ^ 130"

fun poly_exact :: "nat \<Rightarrow> nat \<Rightarrow> u8 list list \<Rightarrow> bool" where
  "poly_exact r a [] \<longleftrightarrow> a < 2 ^ 130 - 5"
| "poly_exact r a (b # bs) \<longleftrightarrow>
     fold_exact (val5 (nat_product (limbs5 (fold130 (a + block_num b))) (limbs5 r))) \<and>
     poly_exact r (poly_step r a (block_num b)) bs"

lemma fold130_mod:
  assumes "fold_exact y"
  shows "fold130 y mod (2 ^ 130 - 5) = y mod (2 ^ 130 - 5)"
proof -
  let ?q = "y div 2 ^ 130" and ?t = "y mod 2 ^ 130"
  have "y = ?t + 2 ^ 130 * ?q" by (rule mod_mult_div_eq [symmetric])
  also have "\<dots> = (?t + 5 * ?q) + ?q * (2 ^ 130 - 5)" by (simp add: diff_mult_distrib2)
  finally have "y mod (2 ^ 130 - 5) = (?t + 5 * ?q) mod (2 ^ 130 - 5)" by (metis mod_mult_self1)
  moreover have "fold130 y = ?t + 5 * ?q" using assms by (simp add: fold130_def fold_exact_def)
  ultimately show ?thesis by simp
qed

lemma fold_exact_add: "a < 2 ^ 130 \<Longrightarrow> x \<le> 2 ^ 129 \<Longrightarrow> fold_exact (a + x)"
proof (cases "a + x < 2 ^ 130")
  case False
  assume "a < 2 ^ 130" "x \<le> 2 ^ 129"
  with False have "(a + x) div 2 ^ 130 = 1" by (intro div_nat_eqI) simp_all
  moreover have "(a + x) mod 2 ^ 130 = a + x - 2 ^ 130"
    using False \<open>a < 2 ^ 130\<close> \<open>x \<le> 2 ^ 129\<close> by (simp add: mod_if)
  ultimately show ?thesis using \<open>a < 2 ^ 130\<close> \<open>x \<le> 2 ^ 129\<close> unfolding fold_exact_def by simp
qed (simp add: fold_exact_def)

lemma block_num_le: "length b \<le> 16 \<Longrightarrow> block_num b \<le> 2 ^ 129"
proof -
  assume l: "length b \<le> 16"
  have "le_nat b < 256 ^ 16"
    using le_nat_less [of b] l power_increasing [of "length b" 16 "256 :: nat"] by (meson less_le_trans one_le_numeral)
  moreover have "(2 :: nat) ^ (8 * length b) \<le> 2 ^ 128" using l by (intro power_increasing) simp_all
  ultimately show ?thesis unfolding block_num_eq by simp
qed

lemma poly_step_mod:
  assumes "a < 2 ^ 130" and "x \<le> 2 ^ 129"
    and "fold_exact (val5 (nat_product (limbs5 (fold130 (a + x))) (limbs5 r)))" and "r < 2 ^ 130"
  shows "poly_step r a x mod (2 ^ 130 - 5) = (a + x) * r mod (2 ^ 130 - 5)"
proof -
  let ?y = "fold130 (a + x)" and ?p = "2 ^ 130 - 5 :: nat"
  have "val5 (limbs5 ?y) * val5 (limbs5 r) = ?y * r"
    using assms(4) fold130_less [of "a + x"] by (simp add: val5_limbs5)
  then obtain k where "?y * r = val5 (nat_product (limbs5 ?y) (limbs5 r)) + k * ?p"
    using nat_product_mod [of "limbs5 ?y" "limbs5 r"] by auto
  then have "val5 (nat_product (limbs5 ?y) (limbs5 r)) mod ?p = ?y * r mod ?p" by (metis mod_mult_self1)
  moreover have "?y mod ?p = (a + x) mod ?p" by (intro fold130_mod fold_exact_add assms)
  then have "?y * r mod ?p = (a + x) * r mod ?p" by (metis mod_mult_left_eq)
  ultimately show ?thesis
    unfolding poly_step_def poly_mul_def using fold130_mod [OF assms(3)] by simp
qed

lemma poly_acc_rfc:
  assumes "poly_exact r a bs" and "list_all (\<lambda>b. length b \<le> 16) bs" and "a < 2 ^ 130" and "r < 2 ^ 130"
  shows "foldl (poly_step r) a (map block_num bs) =
     foldl (\<lambda>a b. (a + block_num b) * r mod (2 ^ 130 - 5)) (a mod (2 ^ 130 - 5)) bs"
  using assms
proof (induction bs arbitrary: a)
  case Nil
  then show ?case by simp
next
  case (Cons b bs)
  let ?a = "poly_step r a (block_num b)" and ?p = "2 ^ 130 - 5 :: nat"
  have "?a mod ?p = (a + block_num b) * r mod ?p"
    using Cons.prems by (intro poly_step_mod block_num_le) simp_all
  also have "\<dots> = (a mod ?p + block_num b) * r mod ?p"
    by (metis mod_add_left_eq mod_mult_left_eq)
  finally have "?a mod ?p = (a mod ?p + block_num b) * r mod ?p" .
  moreover have "?a < 2 ^ 130" unfolding poly_step_def poly_mul_def by (rule fold130_less)
  ultimately show ?case using Cons.IH [of ?a] Cons.prems by simp
qed

lemma chunks_length: "list_all (\<lambda>b. length b \<le> n) (chunks n xs)"
proof (induction n xs rule: chunks.induct)
  case (1 n xs)
  then show ?case by (subst chunks.simps) simp
qed

lemma rfc_clamp_less: "rfc_clamp key < 2 ^ 130"
proof -
  have "unat (w :: 128 word) < 2 ^ 130" for w using unsigned_less [of w, where 'a = nat] by simp
  then show ?thesis unfolding rfc_clamp_def .
qed

text \<open>C20: Whenever no intermediate value falls into the range where the code omits a reduction, the
  tag of a message is that of RFC 8439, for every length, the partial last block included.
\<close>

theorem owcrypt_poly1305_rfc8439:
  assumes "32 \<le> length key" and "unat len = length msg" and "16 \<le> length tag"
    and "poly_exact (rfc_clamp key) 0 (chunks 16 msg)"
  shows "owcrypt_poly1305 key msg len tag = Some (rfc_poly1305 key msg @ drop 16 tag)"
proof -
  have "poly_acc (rfc_clamp key) (chunks 16 msg) = rfc_poly_acc (rfc_clamp key) (chunks 16 msg)"
    unfolding poly_acc_def rfc_poly_acc_def
    using poly_acc_rfc [OF assms(4) chunks_length _ rfc_clamp_less] by simp
  moreover have "length (rfc_poly1305 key msg) = 16" by (simp add: rfc_poly1305_def poly_tag_def)
  ultimately show ?thesis
    using owcrypt_poly1305_eq [of key len msg tag] assms(1,2,3) by (simp add: rfc_poly1305_def patch_0_drop)
qed

lemma le_word_zeros: "le_word (replicate n 0) = 0"
  by (induction n) simp_all

lemma le_nat_ones: "Suc (le_nat (replicate n 0xFF)) = 256 ^ n"
  by (induction n) simp_all

lemma rfc_clamp_2: "rfc_clamp (2 # replicate 31 0) = 2"
proof -
  have "take 16 (2 # replicate 31 0) = 2 # replicate 15 (0 :: u8)" by simp
  then show ?thesis by (simp add: rfc_clamp_def le_word_zeros)
qed

lemmas poly_eval = poly_step_def poly_mul_def fold_exact_def fold130_def limbs5_def nat_product_def val5_def Let_def

theorem owcrypt_poly1305_rfc8439_witness:
  "owcrypt_poly1305 (2 # replicate 31 0) [7, 8, 9] 3 (replicate 16 0) = Some (rfc_poly1305 (2 # replicate 31 0) [7, 8, 9])"
proof -
  have "chunks 16 [7, 8, 9] = [[7, 8, 9 :: u8]]" by (simp add: chunks.simps)
  then have "poly_exact (rfc_clamp (2 # replicate 31 0)) 0 (chunks 16 [7, 8, 9])"
    by (simp add: rfc_clamp_2 block_num_def poly_eval)
  then show ?thesis
    using owcrypt_poly1305_rfc8439 [of "2 # replicate 31 0" 3 "[7, 8, 9]" "replicate 16 0"] by simp
qed

text \<open>The multiplications fold exactly; nothing is said about where the accumulator ends.\<close>

fun poly_folds :: "nat \<Rightarrow> nat \<Rightarrow> u8 list list \<Rightarrow> bool" where
  "poly_folds r a [] \<longleftrightarrow> True"
| "poly_folds r a (b # bs) \<longleftrightarrow>
     fold_exact (val5 (nat_product (limbs5 (fold130 (a + block_num b))) (limbs5 r))) \<and>
     poly_folds r (poly_step r a (block_num b)) bs"

lemma poly_acc_mod:
  assumes "poly_folds r a bs" and "list_all (\<lambda>b. length b \<le> 16) bs" and "a < 2 ^ 130" and "r < 2 ^ 130"
  shows "foldl (poly_step r) a (map block_num bs) mod (2 ^ 130 - 5) =
     foldl (\<lambda>a b. (a + block_num b) * r mod (2 ^ 130 - 5)) (a mod (2 ^ 130 - 5)) bs"
  using assms
proof (induction bs arbitrary: a)
  case (Cons b bs)
  let ?a = "poly_step r a (block_num b)" and ?p = "2 ^ 130 - 5 :: nat"
  have "?a mod ?p = (a + block_num b) * r mod ?p"
    using Cons.prems by (intro poly_step_mod block_num_le) simp_all
  also have "\<dots> = (a mod ?p + block_num b) * r mod ?p"
    by (metis mod_add_left_eq mod_mult_left_eq)
  finally have "?a mod ?p = (a mod ?p + block_num b) * r mod ?p" .
  moreover have "?a < 2 ^ 130" unfolding poly_step_def poly_mul_def by (rule fold130_less)
  ultimately show ?case using Cons.IH [of ?a] Cons.prems by simp
qed simp

lemma le_word_bytes_128: "le_word (le_bytes 16 v) = (v :: 128 word)"
  by (simp add: le_word_bytes take_bit_word_eq_self)

lemma poly_tag_unreduced: "poly_tag key (a + (2 ^ 130 - 5)) = le_bytes 16 (le_word (poly_tag key a) - 5 :: 128 word)"
proof -
  let ?s = "le_nat (take 16 (drop 16 key))"
  have "(of_nat (2 ^ 130 - 5) :: 128 word) = - 5" by (simp add: word_eq_iff_unsigned)
  then have "(of_nat (a + (2 ^ 130 - 5) + ?s) :: 128 word) = of_nat (a + ?s) - 5" by (simp only: of_nat_add) simp
  moreover have "(le_word (poly_tag key a) :: 128 word) = of_nat (a + ?s)" unfolding poly_tag_def by (rule le_word_bytes_128)
  ultimately show ?thesis unfolding poly_tag_def by (simp only:)
qed

text \<open>C40: The final reduction never happens. Whenever the multiplications fold exactly and the accumulator
  ends at the prime \<open>2 ^ 130 - 5\<close> or above, for any key and any message, the code does not subtract the
  prime: its tag is that of RFC 8439 minus five, modulo \<open>2 ^ 128\<close>, and so is never the right one. The
  comparisons that should detect this case compare 64-bit words and never see a carry out of a 26-bit limb.
  Test vector 7 of appendix A.3 of RFC 8439 is such a case.
\<close>

theorem owcrypt_poly1305_missing_reduction:
  assumes "32 \<le> length key" and "unat len = length msg" and "16 \<le> length tag"
    and "poly_folds (rfc_clamp key) 0 (chunks 16 msg)" and "2 ^ 130 - 5 \<le> poly_acc (rfc_clamp key) (chunks 16 msg)"
  shows "owcrypt_poly1305 key msg len tag =
       Some (le_bytes 16 (le_word (rfc_poly1305 key msg) - 5 :: 128 word) @ drop 16 tag) \<and>
     le_bytes 16 (le_word (rfc_poly1305 key msg) - 5 :: 128 word) \<noteq> rfc_poly1305 key msg"
proof -
  let ?a = "poly_acc (rfc_clamp key) (chunks 16 msg)" and ?R = "rfc_poly_acc (rfc_clamp key) (chunks 16 msg)" and ?p = "2 ^ 130 - 5 :: nat"
  have "?a mod ?p = ?R"
    unfolding poly_acc_def rfc_poly_acc_def using poly_acc_mod [OF assms(4) chunks_length _ rfc_clamp_less] by simp
  moreover have "?a mod ?p = ?a - ?p" using assms(5) poly_acc_less [of "rfc_clamp key" "chunks 16 msg"] by (simp add: mod_if)
  ultimately have a: "?a = ?R + ?p" using assms(5) by simp
  have t: "poly_tag key ?a = le_bytes 16 (le_word (rfc_poly1305 key msg) - 5 :: 128 word)"
    unfolding a poly_tag_unreduced rfc_poly1305_def ..
  have len: "length (rfc_poly1305 key msg) = 16" by (simp add: rfc_poly1305_def poly_tag_def)
  have "(le_word (rfc_poly1305 key msg) - 5 :: 128 word) \<noteq> le_word (rfc_poly1305 key msg)" by simp
  then have "le_bytes 16 (le_word (rfc_poly1305 key msg) - 5 :: 128 word) \<noteq> rfc_poly1305 key msg"
    by (metis le_word_bytes_128)
  then show ?thesis
    using owcrypt_poly1305_eq [of key len msg tag] assms(1-3) t by (simp add: patch_0_drop)
qed

theorem owcrypt_poly1305_missing_reduction_witness:
  "owcrypt_poly1305 (2 # replicate 31 0) (replicate 16 0xFF) 16 (replicate 16 0) = Some (0xFE # replicate 15 0xFF) \<and>
   rfc_poly1305 (2 # replicate 31 0) (replicate 16 0xFF) = 3 # replicate 15 0"
proof -
  let ?k = "2 # replicate 31 (0 :: u8)" and ?m = "replicate 16 (0xFF :: u8)"
  have m: "chunks 16 ?m = [?m]" using chunks_concat [of 16 "[?m]"] by simp
  have n: "block_num ?m = 2 ^ 129 - 1" using le_nat_ones [of 16] by (simp add: block_num_eq)
  have s: "le_nat (take 16 (drop 16 ?k)) = 0" by (simp add: drop_Cons')
  have acc: "poly_acc 2 [?m] = 2 ^ 130 - 2" unfolding poly_acc_def by (simp add: n poly_eval)
  have folds: "poly_folds 2 0 [?m]" by (simp add: n poly_eval)
  have "rfc_poly_acc 2 [?m] = 3" unfolding rfc_poly_acc_def by (simp add: n)
  moreover have "le_bytes 16 (3 :: 128 word) = 3 # replicate 15 0" by code_simp
  ultimately have rfc: "rfc_poly1305 ?k ?m = 3 # replicate 15 0"
    unfolding rfc_poly1305_def poly_tag_def rfc_clamp_2 m s by simp
  have "le_bytes 16 (le_word (3 # replicate 15 0) - 5 :: 128 word) = 0xFE # replicate 15 0xFF" by code_simp
  then show ?thesis
    using owcrypt_poly1305_missing_reduction [of ?k 16 ?m "replicate 16 0"] folds acc unfolding rfc rfc_clamp_2 m by simp
qed

end
