(* ===== verification/Aead.thy ===== *)
theory Aead
  imports Chacha Poly1305
begin

text \<open>
  Authenticated encryption and the security frames of \<open>src/DLL/owcrypt/owcrypt.c\<close>: the
  ChaCha20-Poly1305 construction (lines 837-911), the constant time comparison (2328-2341), the
  scan for BAN codes (2509-2523) and the frames (2529-2641). A frame carries the additional data
  in the clear, the encrypted message and the tag.
\<close>

unbundle bit_operations_syntax

section \<open>Status codes\<close>

definition OWCRYPT_OK :: u32 where "OWCRYPT_OK = 0"
definition OWCRYPT_BAN_AUTH_FAIL :: u32 where "OWCRYPT_BAN_AUTH_FAIL = 0x0011A322"
definition OWCRYPT_BAN_BANCODE :: u32 where "OWCRYPT_BAN_BANCODE = 0x0011A324"
definition OWCRYPT_ERR_UNINITIALIZED :: u32 where "OWCRYPT_ERR_UNINITIALIZED = 0x0011AEC0"
definition OWCRYPT_ERR_BAD_ARG :: u32 where "OWCRYPT_ERR_BAD_ARG = 0x0011AEC1"
definition OWCRYPT_ERR_SHORT_OUT :: u32 where "OWCRYPT_ERR_SHORT_OUT = 0x0011AEC2"

lemmas status_defs = OWCRYPT_OK_def OWCRYPT_BAN_AUTH_FAIL_def OWCRYPT_BAN_BANCODE_def
  OWCRYPT_ERR_UNINITIALIZED_def OWCRYPT_ERR_BAD_ARG_def OWCRYPT_ERR_SHORT_OUT_def

section \<open>Constant time comparison\<close>

definition owcrypt_ct_memcmp :: "u8 list ptr \<Rightarrow> u8 list ptr \<Rightarrow> u64 \<Rightarrow> bool comp" where
  "owcrypt_ct_memcmp a b n =
     (case (a, b) of
        (Ref x, Ref y) \<Rightarrow>
          do { diff \<leftarrow> c_for 0 (unat n)
                 (\<lambda>i diff. do { u \<leftarrow> c_rd x i; v \<leftarrow> c_rd y i; Some (diff OR (u XOR v)) }) (0 :: u8);
               Some (diff = 0) }
      | _ \<Rightarrow> Some False)"

section \<open>ChaCha20-Poly1305\<close>

text \<open>An update from a pointer that may be null; with length zero it is not read.\<close>

definition p1305_feed :: "owc_p1305_t \<Rightarrow> u8 list ptr \<Rightarrow> u64 \<Rightarrow> owc_p1305_t comp" where
  "p1305_feed c p n =
     (case p of NULL \<Rightarrow> if 0 < n then None else Some c | Ref data \<Rightarrow> owc_p1305_update c data n)"

definition owc_aead_mac ::
  "u8 list \<Rightarrow> u8 list \<Rightarrow> u8 list ptr \<Rightarrow> u64 \<Rightarrow> u8 list ptr \<Rightarrow> u64 \<Rightarrow> u8 list \<Rightarrow> u8 list comp" where
  "owc_aead_mac key nonce aad aadlen ct clen mac =
     (let pa = (16 - aadlen mod 16) mod 16; pc = (16 - clen mod 16) mod 16 in
      do { zeros \<leftarrow> c_for 0 16 (\<lambda>i z. c_wr z i 0) (replicate 16 0);
           polykey \<leftarrow> owc_chacha_block key nonce 0 (replicate 64 0);
           m \<leftarrow> owc_p1305_init p1305_stack polykey;
           m \<leftarrow> p1305_feed m aad aadlen;
           m \<leftarrow> owc_p1305_update m zeros pa;
           m \<leftarrow> p1305_feed m ct clen;
           m \<leftarrow> owc_p1305_update m zeros pc;
           lenblk \<leftarrow> owc_put64le (replicate 16 0) 0 aadlen;
           lenblk \<leftarrow> owc_put64le lenblk 8 clen;
           m \<leftarrow> owc_p1305_update m lenblk 16;
           (m, mac) \<leftarrow> owc_p1305_final m mac;
           Some mac })"

definition chacha_src :: "u8 list ptr \<Rightarrow> chacha_in" where
  "chacha_src p = (case p of NULL \<Rightarrow> In_null | Ref d \<Rightarrow> In_buf d)"

text \<open>\<open>ini\<close> is the flag \<open>owcrypt_initialized\<close>; the result is the status, the output and the tag.\<close>

definition owcrypt_chacha_poly_seal ::
  "bool \<Rightarrow> u8 list ptr \<Rightarrow> u8 list ptr \<Rightarrow> u8 list ptr \<Rightarrow> u64 \<Rightarrow> u8 list ptr \<Rightarrow> u64 \<Rightarrow> u8 list ptr \<Rightarrow> u8 list ptr \<Rightarrow>
   (u32 \<times> u8 list ptr \<times> u8 list ptr) comp" where
  "owcrypt_chacha_poly_seal ini key nonce aad aadlen plain plen out tag =
     (if \<not> ini then Some (OWCRYPT_ERR_UNINITIALIZED, out, tag)
      else case (key, nonce, out, tag) of
        (Ref k, Ref n, Ref ob, Ref tb) \<Rightarrow>
          if 0 < plen \<and> plain = NULL then Some (OWCRYPT_ERR_BAD_ARG, out, tag)
          else do { ob \<leftarrow> owcrypt_chacha20_xor k n 1 (chacha_src plain) plen ob;
                    tb \<leftarrow> owc_aead_mac k n aad aadlen (Ref ob) plen tb;
                    Some (OWCRYPT_OK, Ref ob, Ref tb) }
      | _ \<Rightarrow> Some (OWCRYPT_ERR_BAD_ARG, out, tag))"

text \<open>
  Where the opened message goes: nowhere (a null pointer), another buffer, or the buffer of the
  encrypted message. The result is the status and the contents of that buffer.
\<close>

datatype open_dst = Dst_null | Dst_buf "u8 list" | Dst_in_place

definition dst_contents :: "open_dst \<Rightarrow> u8 list ptr \<Rightarrow> u8 list ptr" where
  "dst_contents dst cipher = (case dst of Dst_null \<Rightarrow> NULL | Dst_buf b \<Rightarrow> Ref b | Dst_in_place \<Rightarrow> cipher)"

definition open_decrypt ::
  "u8 list \<Rightarrow> u8 list \<Rightarrow> u8 list ptr \<Rightarrow> u64 \<Rightarrow> open_dst \<Rightarrow> u8 list ptr comp" where
  "open_decrypt k n cipher clen dst =
     (case dst of
        Dst_null \<Rightarrow> None
      | Dst_buf b \<Rightarrow> do { b \<leftarrow> owcrypt_chacha20_xor k n 1 (chacha_src cipher) clen b; Some (Ref b) }
      | Dst_in_place \<Rightarrow>
          (case cipher of
             NULL \<Rightarrow> None
           | Ref cb \<Rightarrow> do { b \<leftarrow> owcrypt_chacha20_xor k n 1 In_place clen cb; Some (Ref b) }))"

definition owcrypt_chacha_poly_open ::
  "bool \<Rightarrow> u8 list ptr \<Rightarrow> u8 list ptr \<Rightarrow> u8 list ptr \<Rightarrow> u64 \<Rightarrow> u8 list ptr \<Rightarrow> u64 \<Rightarrow> u8 list ptr \<Rightarrow> open_dst \<Rightarrow>
   (u32 \<times> u8 list ptr) comp" where
  "owcrypt_chacha_poly_open ini key nonce aad aadlen cipher clen tag dst =
     (if \<not> ini then Some (OWCRYPT_ERR_UNINITIALIZED, dst_contents dst cipher)
      else case (key, nonce, tag) of
        (Ref k, Ref n, Ref _) \<Rightarrow>
          if 0 < clen \<and> cipher = NULL then Some (OWCRYPT_ERR_BAD_ARG, dst_contents dst cipher)
          else do { expect \<leftarrow> owc_aead_mac k n aad aadlen cipher clen (replicate 16 0);
                    same \<leftarrow> owcrypt_ct_memcmp (Ref expect) tag 16;
                    if \<not> same then Some (OWCRYPT_BAN_AUTH_FAIL, dst_contents dst cipher)
                    else if 0 < clen
                    then do { out \<leftarrow> open_decrypt k n cipher clen dst; Some (OWCRYPT_OK, out) }
                    else Some (OWCRYPT_OK, dst_contents dst cipher) }
      | _ \<Rightarrow> Some (OWCRYPT_ERR_BAD_ARG, dst_contents dst cipher))"

section \<open>The scan for BAN codes\<close>

function scan_loop :: "u8 list \<Rightarrow> u64 \<Rightarrow> nat \<Rightarrow> u32 comp" where
  "scan_loop data n i =
     (if i + 4 \<le> unat n
      then do { v \<leftarrow> owc_get32le data i;
                if 0x0011A000 \<le> v \<and> v \<le> 0x0011AEFF then Some v else scan_loop data n (Suc i) }
      else Some 0)"
  by pat_completeness auto
termination by (relation "measure (\<lambda>(data, n, i). unat n - i)") auto

declare scan_loop.simps [simp del]

definition owcrypt_scan_ban_stream :: "u8 list ptr \<Rightarrow> u64 \<Rightarrow> u32 comp" where
  "owcrypt_scan_ban_stream data n =
     (case data of NULL \<Rightarrow> Some 0 | Ref d \<Rightarrow> if n < 4 then Some 0 else scan_loop d n 0)"

section \<open>Frames\<close>

definition OWCRYPT_FRAME_MAGIC :: u32 where "OWCRYPT_FRAME_MAGIC = 0x4653574F"
definition OWCRYPT_FRAME_OVERHEAD :: u64 where "OWCRYPT_FRAME_OVERHEAD = 12"

definition owc_copy_bytes :: "u8 list \<Rightarrow> nat \<Rightarrow> u8 list \<Rightarrow> u64 \<Rightarrow> u8 list comp" where
  "owc_copy_bytes dst off src n =
     c_for 0 (unat n) (\<lambda>i dst. do { v \<leftarrow> c_rd src i; c_wr dst (off + i) v }) dst"

definition copy_aad :: "u8 list \<Rightarrow> u8 list ptr \<Rightarrow> u64 \<Rightarrow> u8 list comp" where
  "copy_aad frame aad aadlen =
     (if 0 < aadlen
      then case aad of NULL \<Rightarrow> None | Ref a \<Rightarrow> owc_copy_bytes frame 12 a aadlen
      else Some frame)"

text \<open>
  Sealing. The cipher writes into the frame itself, at the pointer \<open>p\<close> behind the additional
  data. The result is the status, the frame and \<open>*frame_len\<close>.
\<close>

definition owcrypt_seal_frame ::
  "bool \<Rightarrow> u8 list ptr \<Rightarrow> u8 list ptr \<Rightarrow> u8 list ptr \<Rightarrow> u64 \<Rightarrow> u8 list ptr \<Rightarrow> u64 \<Rightarrow> u8 list ptr \<Rightarrow> u64 ptr \<Rightarrow>
   (u32 \<times> u8 list ptr \<times> u64 ptr) comp" where
  "owcrypt_seal_frame ini key nonce aad aadlen plain plen frame frame_len =
     (if \<not> ini then Some (OWCRYPT_ERR_UNINITIALIZED, frame, frame_len)
      else case (key, nonce, frame, frame_len) of
        (Ref k, Ref n, Ref f, Ref fl) \<Rightarrow>
          if 0 < plen \<and> plain = NULL \<or> 0 < aadlen \<and> aad = NULL then Some (OWCRYPT_ERR_BAD_ARG, frame, frame_len)
          else let need = OWCRYPT_FRAME_OVERHEAD + aadlen + plen + 16 in
            if fl < need then Some (OWCRYPT_ERR_SHORT_OUT, frame, frame_len)
            else do { f \<leftarrow> owc_put32le f 0 OWCRYPT_FRAME_MAGIC;
                      f \<leftarrow> owc_put32le f 4 (ucast aadlen);
                      f \<leftarrow> owc_put32le f 8 (ucast plen);
                      f \<leftarrow> copy_aad f aad aadlen;
                      let p = 12 + unat aadlen;
                      (st, out, tag) \<leftarrow> owcrypt_chacha_poly_seal ini key nonce aad aadlen plain plen
                         (Ref (drop p f)) (Ref (replicate 16 0));
                      f \<leftarrow> (case out of NULL \<Rightarrow> None | Ref ob \<Rightarrow> Some (take p f @ ob));
                      if st \<noteq> OWCRYPT_OK then Some (st, Ref f, Ref need)
                      else (case tag of
                        NULL \<Rightarrow> None
                      | Ref tb \<Rightarrow> do { f \<leftarrow> owc_copy_bytes f (p + unat plen) tb 16; Some (OWCRYPT_OK, Ref f, Ref need) }) }
      | _ \<Rightarrow> Some (OWCRYPT_ERR_BAD_ARG, frame, frame_len))"

text \<open>
  What opening a frame changes: the status, the output buffer, the frame (when it is decrypted in
  place), \<open>*plain_len\<close>, \<open>*aad_out\<close> as an offset into the frame, \<open>*aad_len_out\<close>, and the
  outside state that the hook acts on.
\<close>

record 'x opened =
  op_status :: u32
  op_plain :: "u8 list ptr"
  op_frame :: "u8 list ptr"
  op_plain_len :: "u64 ptr"
  op_aad :: "nat ptr ptr"
  op_aad_len :: "u64 ptr"
  op_world :: 'x

type_synonym 'x ban_hook = "(u32 \<Rightarrow> 'x \<Rightarrow> 'x) ptr"

definition call_hook :: "'x ban_hook \<Rightarrow> u32 \<Rightarrow> 'x \<Rightarrow> 'x" where
  "call_hook hook code w = (case hook of NULL \<Rightarrow> w | Ref f \<Rightarrow> f code w)"

definition open_scan :: "bool \<Rightarrow> 'x ban_hook \<Rightarrow> u8 list ptr \<Rightarrow> u64 \<Rightarrow> 'x opened \<Rightarrow> 'x opened comp" where
  "open_scan scan_ban hook out clen r =
     (if scan_ban \<and> 0 < clen
      then do { code \<leftarrow> owcrypt_scan_ban_stream out clen;
                Some (if code \<noteq> 0
                      then r\<lparr>op_status := OWCRYPT_BAN_BANCODE, op_world := call_hook hook code (op_world r)\<rparr>
                      else r) }
      else Some r)"

definition open_body ::
  "bool \<Rightarrow> u8 list ptr \<Rightarrow> u8 list ptr \<Rightarrow> u8 list \<Rightarrow> u64 \<Rightarrow> bool \<Rightarrow> 'x ban_hook \<Rightarrow> 'x opened \<Rightarrow> 'x opened comp" where
  "open_body ini key nonce f frame_len scan_ban hook r =
     do { aadlen32 \<leftarrow> owc_get32le f 4;
          clen32 \<leftarrow> owc_get32le f 8;
          let aadlen = (ucast aadlen32 :: u64);
          let clen = (ucast clen32 :: u64);
          if frame_len < OWCRYPT_FRAME_OVERHEAD + aadlen + clen + 16
          then Some (r\<lparr>op_status := OWCRYPT_ERR_BAD_ARG\<rparr>)
          else do {
            let q = 12 + unat aadlen;
            let dst = (case op_plain r of NULL \<Rightarrow> Dst_in_place | Ref b \<Rightarrow> Dst_buf b);
            (st, out) \<leftarrow> owcrypt_chacha_poly_open ini key nonce (Ref (drop 12 f)) aadlen (Ref (drop q f)) clen
              (Ref (drop (q + unat clen) f)) dst;
            r \<leftarrow> (case (dst, out) of
                    (Dst_in_place, Ref b) \<Rightarrow> Some (r\<lparr>op_status := st, op_frame := Ref (take q f @ b)\<rparr>)
                  | (_, Ref b) \<Rightarrow> Some (r\<lparr>op_status := st, op_plain := Ref b\<rparr>)
                  | (_, NULL) \<Rightarrow> None);
            if st \<noteq> OWCRYPT_OK then Some r
            else open_scan scan_ban hook out clen
              (r\<lparr>op_plain_len := Ref clen, op_aad := Ref (if 0 < aadlen then Ref 12 else NULL),
                 op_aad_len := Ref aadlen\<rparr>) } }"

definition owcrypt_open_frame ::
  "bool \<Rightarrow> u8 list ptr \<Rightarrow> u8 list ptr \<Rightarrow> u64 \<Rightarrow> bool \<Rightarrow> 'x ban_hook \<Rightarrow> 'x opened \<Rightarrow> 'x opened comp" where
  "owcrypt_open_frame ini key nonce frame_len scan_ban hook r =
     (if \<not> ini then Some (r\<lparr>op_status := OWCRYPT_ERR_UNINITIALIZED\<rparr>)
      else case op_frame r of
        NULL \<Rightarrow> Some (r\<lparr>op_status := OWCRYPT_ERR_BAD_ARG\<rparr>)
      | Ref f \<Rightarrow>
          if key = NULL \<or> nonce = NULL \<or> op_plain_len r = NULL \<or> op_aad r = NULL \<or> op_aad_len r = NULL
          then Some (r\<lparr>op_status := OWCRYPT_ERR_BAD_ARG\<rparr>)
          else if frame_len < OWCRYPT_FRAME_OVERHEAD + 16 then Some (r\<lparr>op_status := OWCRYPT_ERR_BAD_ARG\<rparr>)
          else do { magic \<leftarrow> owc_get32le f 0;
                    if magic \<noteq> OWCRYPT_FRAME_MAGIC then Some (r\<lparr>op_status := OWCRYPT_ERR_BAD_ARG\<rparr>)
                    else open_body ini key nonce f frame_len scan_ban hook r })"

section \<open>The tag\<close>

definition pad16 :: "nat \<Rightarrow> nat" where
  "pad16 n = (16 - n mod 16) mod 16"

text \<open>RFC 8439, section 2.8: what is authenticated.\<close>

definition aead_data :: "u8 list \<Rightarrow> u8 list \<Rightarrow> u8 list" where
  "aead_data aad ct =
     aad @ replicate (pad16 (length aad)) 0 @ ct @ replicate (pad16 (length ct)) 0 @
     le_bytes 8 (of_nat (length aad) :: u64) @ le_bytes 8 (of_nat (length ct) :: u64)"

definition aead_tag :: "u8 list \<Rightarrow> u8 list \<Rightarrow> u8 list \<Rightarrow> u8 list \<Rightarrow> u8 list" where
  "aead_tag key nonce aad ct =
     (let otk = rfc_chacha_block key nonce 0
      in poly_tag otk (poly_acc (rfc_clamp otk) (chunks 16 (aead_data aad ct))))"

definition readable :: "u8 list ptr \<Rightarrow> u64 \<Rightarrow> bool" where
  "readable p n = (case p of NULL \<Rightarrow> n = 0 | Ref d \<Rightarrow> unat n \<le> length d)"

definition bytes_at :: "u8 list ptr \<Rightarrow> u64 \<Rightarrow> u8 list" where
  "bytes_at p n = (case p of NULL \<Rightarrow> [] | Ref d \<Rightarrow> take (unat n) d)"

lemma length_bytes_at: "readable p n \<Longrightarrow> length (bytes_at p n) = unat n"
  by (auto simp: readable_def bytes_at_def split: ptr.splits)

lemma p1305_feed_absorbs:
  assumes "p1305_absorbed r s0 s1 c m" and "readable p n"
  shows "\<exists>d. p1305_feed c p n = Some d \<and> p1305_absorbed r s0 s1 d (m @ bytes_at p n)"
  using owc_p1305_update_absorbs [OF assms(1)] assms
  by (auto simp: p1305_feed_def readable_def bytes_at_def split: ptr.splits)

lemma unat_pad16: "unat ((16 - n mod 16) mod 16 :: u64) = pad16 (unat n)"
proof -
  have m: "unat (n mod 16) = unat n mod 16" by (simp add: unat_mod)
  then have "unat (n mod 16) \<le> unat (16 :: u64)" by simp
  then have "unat (16 - n mod 16) = 16 - unat n mod 16" by (subst unat_sub_le) (simp_all add: word_le_nat_alt m)
  then show ?thesis by (simp add: unat_mod pad16_def)
qed

lemma pad16_le: "pad16 n \<le> 16"
  by (simp add: pad16_def less_imp_le)

lemma owc_aead_mac_eq:
  assumes "32 \<le> length key" and "12 \<le> length nonce" and "16 \<le> length mac"
    and "readable aad aadlen" and "readable ct clen"
  shows "owc_aead_mac key nonce aad aadlen ct clen mac =
     Some (patch mac 0 (aead_tag key nonce (bytes_at aad aadlen) (bytes_at ct clen)))"
proof -
  let ?k = "rfc_chacha_block key nonce 0"
  let ?abs = "p1305_absorbed (rfc_clamp ?k) (le_word (take 8 (drop 16 ?k))) (le_word (take 8 (drop 24 ?k)))"
  let ?pa = "(16 - aadlen mod 16) mod 16" and ?pc = "(16 - clen mod 16) mod 16"
  let ?z = "replicate 16 (0 :: u8)"
  have zeros: "c_for 0 16 (\<lambda>i z. c_wr z i 0) ?z = Some ?z"
    using c_for_fill [of 0 16 "\<lambda>_. Some 0" "\<lambda>_. 0" 0 ?z] by (simp add: patch_0 map_replicate_const)
  have blk: "owc_chacha_block key nonce 0 (replicate 64 0) = Some ?k"
    using owc_chacha_block_eq [OF assms(1,2), of "replicate 64 0"] by (simp add: patch_0)
  have "length (p_block p1305_stack) = 16" by (simp add: p1305_stack_def)
  then obtain c0 where 0: "owc_p1305_init p1305_stack ?k = Some c0" "?abs c0 []"
    using owc_p1305_init_eq [of ?k p1305_stack] by auto
  obtain c1 where 1: "p1305_feed c0 aad aadlen = Some c1" "?abs c1 (bytes_at aad aadlen)"
    using p1305_feed_absorbs [OF 0(2) assms(4)] by auto
  have pz: "unat ?pa \<le> length ?z" "unat ?pc \<le> length ?z" by (simp_all add: unat_pad16 pad16_le)
  obtain c2 where 2: "owc_p1305_update c1 ?z ?pa = Some c2"
      "?abs c2 (bytes_at aad aadlen @ take (unat ?pa) ?z)"
    using owc_p1305_update_absorbs [OF 1(2) pz(1)] by auto
  obtain c3 where 3: "p1305_feed c2 ct clen = Some c3"
      "?abs c3 ((bytes_at aad aadlen @ take (unat ?pa) ?z) @ bytes_at ct clen)"
    using p1305_feed_absorbs [OF 2(2) assms(5)] by blast
  obtain c4 where 4: "owc_p1305_update c3 ?z ?pc = Some c4"
      "?abs c4 (((bytes_at aad aadlen @ take (unat ?pa) ?z) @ bytes_at ct clen) @ take (unat ?pc) ?z)"
    using owc_p1305_update_absorbs [OF 3(2) pz(2)] by blast
  let ?lb = "le_bytes 8 aadlen @ le_bytes 8 clen"
  have lb: "do { b \<leftarrow> owc_put64le ?z 0 aadlen; owc_put64le b 8 clen } = Some ?lb"
    using patch_append [of 0 "le_bytes 8 aadlen" "le_bytes 8 clen" ?z] by (simp add: owc_put_eq patch_0)
  have l16: "unat (16 :: u64) \<le> length ?lb" by simp
  obtain c5 where 5: "owc_p1305_update c4 ?lb 16 = Some c5"
      "?abs c5 ((((bytes_at aad aadlen @ take (unat ?pa) ?z) @ bytes_at ct clen) @ take (unat ?pc) ?z) @
        take (unat (16 :: u64)) ?lb)"
    using owc_p1305_update_absorbs [OF 4(2) l16] by blast
  have data: "(((bytes_at aad aadlen @ take (unat ?pa) ?z) @ bytes_at ct clen) @ take (unat ?pc) ?z) @
        take (unat (16 :: u64)) ?lb = aead_data (bytes_at aad aadlen) (bytes_at ct clen)"
    using assms(4,5) pad16_le by (simp add: aead_data_def length_bytes_at unat_pad16 min_absorb1)
  obtain d where 6: "owc_p1305_final c5 mac =
      Some (d, patch mac 0 (aead_tag key nonce (bytes_at aad aadlen) (bytes_at ct clen)))"
    using owc_p1305_final_eq [OF 5(2) _ assms(3)] unfolding data aead_tag_def Let_def by auto
  show ?thesis
    unfolding owc_aead_mac_def Let_def zeros blk 0(1) 1(1) bind.bind_lunit 2(1) 3(1) 4(1)
      bind_assoc [symmetric] lb 5(1) 6 by simp
qed

section \<open>Comparison and scan\<close>

lemma owcrypt_ct_memcmp_eq:
  assumes "unat n \<le> length x" and "unat n \<le> length y"
  shows "owcrypt_ct_memcmp (Ref x) (Ref y) n = Some (take (unat n) x = take (unat n) y)"
proof -
  let ?f = "\<lambda>i diff. do { u \<leftarrow> c_rd x i; v \<leftarrow> c_rd y i; Some (diff OR (u XOR v)) }"
  have "\<exists>d. c_for 0 (unat n) ?f (0 :: u8) = Some d \<and> (d = 0 \<longleftrightarrow> take (unat n) x = take (unat n) y)"
  proof (rule c_for_rule)
    fix i and d :: u8 assume i: "i < unat n" and "d = 0 \<longleftrightarrow> take i x = take i y"
    moreover have "x ! i XOR y ! i = 0 \<longleftrightarrow> x ! i = y ! i" by (rule xor_zero_iff)
    ultimately show "\<exists>e. ?f i d = Some e \<and> (e = 0 \<longleftrightarrow> take (Suc i) x = take (Suc i) y)"
      using assms by (simp add: or_eq_0_iff take_Suc_conv_app_nth)
  qed simp_all
  then show ?thesis by (auto simp: owcrypt_ct_memcmp_def)
qed

definition is_ban :: "u32 \<Rightarrow> bool" where
  "is_ban v \<longleftrightarrow> 0x0011A000 \<le> v \<and> v \<le> 0x0011AEFF"

text \<open>The first window of four bytes of the text that reads as a code of the registry.\<close>

definition first_ban :: "u8 list \<Rightarrow> u32 option" where
  "first_ban bs = List.find is_ban (map (\<lambda>i. le_word (take 4 (drop i bs))) [0..<length bs - 3])"

lemma scan_loop_eq:
  assumes "unat n \<le> length d" and "i \<le> unat n - 3"
  shows "scan_loop d n i = Some (case List.find is_ban (map (\<lambda>i. le_word (take 4 (drop i d))) [i..<unat n - 3]) of
     None \<Rightarrow> 0 | Some v \<Rightarrow> v)"
  using assms
proof (induction d n i rule: scan_loop.induct)
  case (1 d n i)
  show ?case
  proof (cases "i + 4 \<le> unat n")
    case True
    then have "owc_get32le d i = Some (le_word (take 4 (drop i d)))" using "1.prems" by (simp add: owc_get_eq)
    moreover have "[i..<unat n - 3] = i # [Suc i..<unat n - 3]" using True by (simp add: upt_conv_Cons)
    moreover have "Suc i \<le> unat n - 3" using True by simp
    moreover note "1.IH" [OF True, of "le_word (take 4 (drop i d))", folded is_ban_def] "1.prems"(1)
    ultimately show ?thesis using True
      by (cases "is_ban (le_word (take 4 (drop i d)))"; subst scan_loop.simps) (simp_all add: is_ban_def [symmetric])
  next
    case False
    then show ?thesis using "1.prems" by (subst scan_loop.simps) simp
  qed
qed

lemma owcrypt_scan_ban_stream_eq:
  assumes "unat n \<le> length d"
  shows "owcrypt_scan_ban_stream (Ref d) n =
     Some (case first_ban (take (unat n) d) of None \<Rightarrow> 0 | Some v \<Rightarrow> v)"
proof -
  have len: "length (take (unat n) d) = unat n" using assms by simp
  have eq: "map (\<lambda>i. le_word (take 4 (drop i (take (unat n) d))) :: u32) [0..<unat n - 3] =
      map (\<lambda>i. le_word (take 4 (drop i d))) [0..<unat n - 3]"
    by (rule map_cong) (auto simp: drop_take min_def)
  have b: "first_ban (take (unat n) d) = List.find is_ban (map (\<lambda>i. le_word (take 4 (drop i d))) [0..<unat n - 3])"
    unfolding first_ban_def len eq ..
  show ?thesis
  proof (cases "n < 4")
    case True
    then have "unat n - 3 = 0" by (simp add: word_less_nat_alt)
    with True show ?thesis by (simp add: owcrypt_scan_ban_stream_def b)
  next
    case False
    then show ?thesis using assms by (simp add: owcrypt_scan_ban_stream_def b scan_loop_eq)
  qed
qed

lemma first_ban_nonzero: "first_ban bs = Some v \<Longrightarrow> v \<noteq> 0"
  by (auto simp: first_ban_def find_Some_iff is_ban_def)

section \<open>Sealing\<close>

text \<open>The layout of a frame.\<close>

definition frame_header :: "nat \<Rightarrow> nat \<Rightarrow> u8 list" where
  "frame_header a p = le_bytes 4 OWCRYPT_FRAME_MAGIC @ le_bytes 4 (of_nat a :: u32) @ le_bytes 4 (of_nat p :: u32)"

definition frame_of :: "u8 list \<Rightarrow> u8 list \<Rightarrow> u8 list \<Rightarrow> u8 list \<Rightarrow> u8 list" where
  "frame_of key nonce aad plain =
     (let ct = rfc_chacha20 key nonce 1 plain
      in frame_header (length aad) (length plain) @ aad @ ct @ aead_tag key nonce aad ct)"

lemma length_frame_header [simp]: "length (frame_header a p) = 12"
  by (simp add: frame_header_def)

lemma length_aead_tag [simp]: "length (aead_tag key nonce aad ct) = 16"
  by (simp add: aead_tag_def poly_tag_def Let_def)

lemma length_frame_of: "length (frame_of key nonce aad plain) = 28 + length aad + length plain"
  by (simp add: frame_of_def Let_def)

lemma chacha_src_readable:
  assumes "readable p n"
  shows "chacha_readable (chacha_src p) (unat n)" and "chacha_input (chacha_src p) (unat n) out = bytes_at p n"
  using assms
  by (auto simp: readable_def chacha_src_def chacha_readable_def chacha_input_def bytes_at_def split: ptr.splits)

lemma seal_eq:
  assumes "32 \<le> length k" and "12 \<le> length n" and "readable aad aadlen" and "readable plain plen"
    and "unat plen \<le> length ob" and "16 \<le> length tb"
  shows "owcrypt_chacha_poly_seal True (Ref k) (Ref n) aad aadlen plain plen (Ref ob) (Ref tb) =
     Some (OWCRYPT_OK, Ref (patch ob 0 (rfc_chacha20 k n 1 (bytes_at plain plen))),
           Ref (patch tb 0 (aead_tag k n (bytes_at aad aadlen) (rfc_chacha20 k n 1 (bytes_at plain plen)))))"
proof -
  let ?ct = "rfc_chacha20 k n 1 (bytes_at plain plen)"
  have lc: "length ?ct = unat plen" using length_bytes_at [OF assms(4)] by simp
  have "owcrypt_chacha20_xor k n 1 (chacha_src plain) plen ob = Some (patch ob 0 ?ct)"
    using owcrypt_chacha20_xor_eq [OF assms(1,2,5) chacha_src_readable(1) [OF assms(4)], of 1]
      chacha_src_readable(2) [OF assms(4)] length_bytes_at [OF assms(4)]
    by (simp add: rfc_chacha20_def)
  moreover have "readable (Ref (patch ob 0 ?ct)) plen" "bytes_at (Ref (patch ob 0 ?ct)) plen = ?ct"
    using lc assms(5) by (simp_all add: readable_def bytes_at_def patch_0_drop)
  moreover have "\<not> (0 < plen \<and> plain = NULL)" using assms(4) by (auto simp: readable_def)
  ultimately show ?thesis
    using owc_aead_mac_eq [OF assms(1,2,6,3), of "Ref (patch ob 0 ?ct)" plen]
    by (auto simp: owcrypt_chacha_poly_seal_def)
qed

lemma owc_copy_bytes_eq:
  "unat n \<le> length src \<Longrightarrow> off + unat n \<le> length dst \<Longrightarrow>
     owc_copy_bytes dst off src n = Some (patch dst off (take (unat n) src))"
  by (simp add: owc_copy_bytes_def c_for_copy)

lemma copy_aad_eq:
  assumes "readable aad aadlen" and "12 + unat aadlen \<le> length f"
  shows "copy_aad f aad aadlen = Some (patch f 12 (bytes_at aad aadlen))"
proof (cases "aadlen = 0")
  case True
  then show ?thesis by (simp add: copy_aad_def bytes_at_def split: ptr.split)
next
  case False
  then obtain d where "aad = Ref d" "unat aadlen \<le> length d"
    using assms(1) by (auto simp: readable_def split: ptr.splits)
  with False assms(2) show ?thesis by (simp add: copy_aad_def bytes_at_def owc_copy_bytes_eq word_gt_0)
qed

lemma patch_at_end: "length xs = off \<Longrightarrow> patch (xs @ ys) off zs = xs @ zs @ drop (length zs) ys"
  by (auto simp: patch_def)

lemma owcrypt_seal_frame_eq:
  assumes "32 \<le> length k" and "12 \<le> length n" and "readable aad aadlen" and "readable plain plen"
    and "28 + unat aadlen + unat plen \<le> unat fl" and "unat fl \<le> length f"
  shows "owcrypt_seal_frame True (Ref k) (Ref n) aad aadlen plain plen (Ref f) (Ref fl) =
     Some (OWCRYPT_OK,
       Ref (frame_of k n (bytes_at aad aadlen) (bytes_at plain plen) @ drop (28 + unat aadlen + unat plen) f),
       Ref (of_nat (28 + unat aadlen + unat plen)))"
proof -
  let ?a = "bytes_at aad aadlen" and ?p = "bytes_at plain plen"
  let ?ct = "rfc_chacha20 k n 1 ?p" and ?q = "12 + unat aadlen"
  have la: "length ?a = unat aadlen" and lp: "length ?p = unat plen"
    using assms(3,4) by (simp_all add: length_bytes_at)
  have room: "28 + unat aadlen + unat plen \<le> length f" using assms(5,6) by simp
  have small: "28 + unat aadlen + unat plen < 2 ^ 64" using assms(5) unat64_less [of fl] by simp
  have need: "OWCRYPT_FRAME_OVERHEAD + aadlen + plen + 16 = of_nat (28 + unat aadlen + unat plen)"
    by (simp add: OWCRYPT_FRAME_OVERHEAD_def)
  then have nb: "\<not> fl < OWCRYPT_FRAME_OVERHEAD + aadlen + plen + 16"
    unfolding need using assms(5) small by (simp add: word_less_nat_alt unat_of_nat del: of_nat_add)
  let ?h = "frame_header (unat aadlen) (unat plen)"
  define g where "g = patch f 0 (?h @ ?a)"
  have g: "do { f \<leftarrow> owc_put32le f 0 OWCRYPT_FRAME_MAGIC; f \<leftarrow> owc_put32le f 4 (ucast aadlen);
      f \<leftarrow> owc_put32le f 8 (ucast plen); copy_aad f aad aadlen } = Some g"
  proof -
    have "(ucast aadlen :: u32) = of_nat (unat aadlen)" "(ucast plen :: u32) = of_nat (unat plen)"
      by simp_all
    then have "patch (patch (patch f 0 (le_bytes 4 OWCRYPT_FRAME_MAGIC)) 4 (le_bytes 4 (ucast aadlen :: u32))) 8
        (le_bytes 4 (ucast plen :: u32)) = patch f 0 ?h"
      using room patch_append [of 0 "le_bytes 4 OWCRYPT_FRAME_MAGIC" "le_bytes 4 (ucast aadlen :: u32)" f]
        patch_append [of 0 "le_bytes 4 OWCRYPT_FRAME_MAGIC @ le_bytes 4 (ucast aadlen :: u32)" "le_bytes 4 (ucast plen :: u32)" f]
      by (simp add: frame_header_def)
    moreover have "patch (patch f 0 ?h) 12 ?a = g"
      unfolding g_def using room la patch_append [of 0 ?h ?a f] by simp
    moreover have "copy_aad (patch f 0 ?h) aad aadlen = Some (patch (patch f 0 ?h) 12 ?a)"
      using room assms(3) by (intro copy_aad_eq) simp_all
    ultimately show ?thesis using room by (simp add: owc_put_eq)
  qed
  have lg: "length g = length f" using room la by (simp add: g_def)
  have tg: "take ?q g = ?h @ ?a" "drop ?q g = drop ?q f"
    using room la by (simp_all add: g_def patch_def)
  have seal: "owcrypt_chacha_poly_seal True (Ref k) (Ref n) aad aadlen plain plen (Ref (drop ?q g)) (Ref (replicate 16 0)) =
      Some (OWCRYPT_OK, Ref (patch (drop ?q g) 0 ?ct), Ref (aead_tag k n ?a ?ct))"
    using seal_eq [OF assms(1,2,3,4), of "drop ?q g" "replicate 16 0"] room lg by (simp add: patch_0)
  have out: "take ?q g @ patch (drop ?q g) 0 ?ct = ?h @ ?a @ ?ct @ drop (?q + unat plen) f"
    unfolding tg using lp room by (simp add: patch_0_drop add.commute)
  have "owc_copy_bytes (?h @ ?a @ ?ct @ drop (?q + unat plen) f) (?q + unat plen) (aead_tag k n ?a ?ct) 16 =
      Some (frame_of k n ?a ?p @ drop (28 + unat aadlen + unat plen) f)"
  proof -
    let ?x = "?h @ ?a @ ?ct" and ?t = "aead_tag k n ?a ?ct"
    have lx: "length ?x = ?q + unat plen" using la lp by simp
    have "owc_copy_bytes (?x @ drop (?q + unat plen) f) (?q + unat plen) ?t 16 =
        Some (patch (?x @ drop (?q + unat plen) f) (?q + unat plen) (take (unat (16 :: u64)) ?t))"
      using lx room by (intro owc_copy_bytes_eq) simp_all
    also have "patch (?x @ drop (?q + unat plen) f) (?q + unat plen) (take (unat (16 :: u64)) ?t) =
        ?x @ ?t @ drop (28 + unat aadlen + unat plen) f"
      unfolding patch_at_end [OF lx] by (simp add: add.assoc)
    finally show ?thesis using la lp by (simp add: frame_of_def Let_def)
  qed
  then show ?thesis
    using nb assms(3,4) g seal out
    unfolding owcrypt_seal_frame_def need
    by (simp add: Let_def bind_assoc [symmetric] readable_def del: bind_assoc of_nat_add split: ptr.splits)
qed

section \<open>Opening\<close>

definition dst_buffer :: "open_dst \<Rightarrow> u8 list \<Rightarrow> u8 list" where
  "dst_buffer dst cb = (case dst of Dst_null \<Rightarrow> [] | Dst_buf b \<Rightarrow> b | Dst_in_place \<Rightarrow> cb)"

lemma open_eq:
  assumes "32 \<le> length k" and "12 \<le> length n" and "unat aadlen \<le> length a" and "unat clen \<le> length cb"
    and "16 \<le> length tg" and "dst \<noteq> Dst_null" and "unat clen \<le> length (dst_buffer dst cb)"
  shows "owcrypt_chacha_poly_open True (Ref k) (Ref n) (Ref a) aadlen (Ref cb) clen (Ref tg) dst =
     Some (if take 16 tg = aead_tag k n (take (unat aadlen) a) (take (unat clen) cb)
           then (OWCRYPT_OK, Ref (patch (dst_buffer dst cb) 0 (rfc_chacha20 k n 1 (take (unat clen) cb))))
           else (OWCRYPT_BAN_AUTH_FAIL, Ref (dst_buffer dst cb)))"
proof -
  let ?t = "aead_tag k n (take (unat aadlen) a) (take (unat clen) cb)"
  let ?p = "rfc_chacha20 k n 1 (take (unat clen) cb)"
  have mac: "owc_aead_mac k n (Ref a) aadlen (Ref cb) clen (replicate 16 0) = Some ?t"
    using owc_aead_mac_eq [OF assms(1,2), of "replicate 16 0" "Ref a" aadlen "Ref cb" clen] assms(3,4)
    by (simp add: readable_def bytes_at_def patch_0)
  have cmp: "owcrypt_ct_memcmp (Ref ?t) (Ref tg) 16 = Some (?t = take 16 tg)"
    using owcrypt_ct_memcmp_eq [of 16 ?t tg] assms(5) by simp
  have cont: "dst_contents dst (Ref cb) = Ref (dst_buffer dst cb)"
    using assms(6) by (simp add: dst_contents_def dst_buffer_def split: open_dst.split)
  have dec: "open_decrypt k n (Ref cb) clen dst = Some (Ref (patch (dst_buffer dst cb) 0 ?p))"
  proof (cases dst)
    case (Dst_buf b)
    then show ?thesis
      using owcrypt_chacha20_xor_eq [OF assms(1,2), of clen b "In_buf cb" 1] assms(4,7)
      by (simp add: open_decrypt_def dst_buffer_def chacha_src_def chacha_readable_def chacha_input_def rfc_chacha20_def)
  next
    case Dst_in_place
    then show ?thesis
      using owcrypt_chacha20_xor_eq [OF assms(1,2), of clen cb In_place 1] assms(4)
      by (simp add: open_decrypt_def dst_buffer_def chacha_readable_def chacha_input_def rfc_chacha20_def)
  qed (use assms(6) in simp)
  have zero: "?p = []" if "clen = 0" using that by (simp add: rfc_chacha20_def)
  show ?thesis
    using mac cmp dec zero cont
    by (cases "clen = 0") (auto simp: owcrypt_chacha_poly_open_def word_gt_0)
qed

text \<open>The parts of a frame: additional data, encrypted message, tag.\<close>

definition frame_parse :: "u8 list \<Rightarrow> (u8 list \<times> u8 list \<times> u8 list) option" where
  "frame_parse fr =
     (if length fr < 28 \<or> take 4 fr \<noteq> le_bytes 4 OWCRYPT_FRAME_MAGIC then None
      else let a = le_nat (take 4 (drop 4 fr)); c = le_nat (take 4 (drop 8 fr)) in
        if length fr < 28 + a + c then None
        else Some (take a (drop 12 fr), take c (drop (12 + a) fr), take 16 (drop (12 + a + c) fr)))"

definition frame_deliver ::
  "u8 list \<Rightarrow> bool \<Rightarrow> 'x ban_hook \<Rightarrow> u8 list \<Rightarrow> u8 list \<Rightarrow> 'x opened \<Rightarrow> 'x opened" where
  "frame_deliver f scan_ban hook aad p r =
     (let r = r\<lparr>op_status := OWCRYPT_OK,
                op_plain := (case op_plain r of NULL \<Rightarrow> NULL | Ref b \<Rightarrow> Ref (patch b 0 p)),
                op_frame := (case op_plain r of NULL \<Rightarrow> Ref (patch f (12 + length aad) p) | Ref _ \<Rightarrow> Ref f),
                op_plain_len := Ref (of_nat (length p)),
                op_aad := Ref (if aad = [] then NULL else Ref 12),
                op_aad_len := Ref (of_nat (length aad))\<rparr>
      in case (if scan_ban then first_ban p else None) of
           None \<Rightarrow> r
         | Some v \<Rightarrow> r\<lparr>op_status := OWCRYPT_BAN_BANCODE, op_world := call_hook hook v (op_world r)\<rparr>)"

definition frame_open_spec ::
  "u8 list \<Rightarrow> u8 list \<Rightarrow> u64 \<Rightarrow> u8 list \<Rightarrow> bool \<Rightarrow> 'x ban_hook \<Rightarrow> 'x opened \<Rightarrow> 'x opened" where
  "frame_open_spec k n frame_len f scan_ban hook r =
     (case frame_parse (take (unat frame_len) f) of
        None \<Rightarrow> r\<lparr>op_status := OWCRYPT_ERR_BAD_ARG\<rparr>
      | Some (aad, ct, tag) \<Rightarrow>
          if tag = aead_tag k n aad ct then frame_deliver f scan_ban hook aad (rfc_chacha20 k n 1 ct) r
          else r\<lparr>op_status := OWCRYPT_BAN_AUTH_FAIL\<rparr>)"

lemma open_scan_eq:
  assumes "unat clen \<le> length b" and "p = take (unat clen) b"
  shows "open_scan scan_ban hook (Ref b) clen r =
     Some (case (if scan_ban then first_ban p else None) of
             None \<Rightarrow> r
           | Some v \<Rightarrow> r\<lparr>op_status := OWCRYPT_BAN_BANCODE, op_world := call_hook hook v (op_world r)\<rparr>)"
proof (cases "clen = 0")
  case True
  then have "first_ban p = None" using assms(2) by (simp add: first_ban_def)
  then show ?thesis using True by (simp add: open_scan_def)
next
  case False
  then show ?thesis
    using owcrypt_scan_ban_stream_eq [OF assms(1)] first_ban_nonzero [of p]
    by (auto simp: open_scan_def assms(2) word_gt_0 split: option.splits)
qed

lemma header_field:
  assumes "off + 4 \<le> length f"
  shows "unat (le_word (take 4 (drop off f)) :: u32) = le_nat (take 4 (drop off f))"
    and "le_nat (take 4 (drop off f)) < 2 ^ 32"
proof -
  have l: "length (take 4 (drop off f)) = 4" using assms by simp
  then show "unat (le_word (take 4 (drop off f)) :: u32) = le_nat (take 4 (drop off f))" by (simp add: unat_le_word)
  show "le_nat (take 4 (drop off f)) < 2 ^ 32" using le_nat_less [of "take 4 (drop off f)"] l by simp
qed

lemma open_body_eq:
  assumes "32 \<le> length k" and "12 \<le> length n" and "op_frame r = Ref f" and "unat frame_len \<le> length f"
    and "28 \<le> unat frame_len" and "take 4 f = le_bytes 4 OWCRYPT_FRAME_MAGIC"
    and "\<And>b. op_plain r = Ref b \<Longrightarrow> le_nat (take 4 (drop 8 f)) \<le> length b \<or> unat frame_len \<le> length b + 28"
  shows "open_body True (Ref k) (Ref n) f frame_len scan_ban hook r =
     Some (frame_open_spec k n frame_len f scan_ban hook r)"
proof -
  define a where "a = le_nat (take 4 (drop 4 f))"
  define c where "c = le_nat (take 4 (drop 8 f))"
  let ?aad = "ucast (le_word (take 4 (drop 4 f)) :: u32) :: u64" and ?cl = "ucast (le_word (take 4 (drop 8 f)) :: u32) :: u64"
  have l12: "12 \<le> length f" using assms(4,5) by simp
  have ua: "unat ?aad = a" "a < 2 ^ 32" and uc: "unat ?cl = c" "c < 2 ^ 32"
    using header_field [of 4 f] header_field [of 8 f] l12 by (simp_all add: a_def c_def unat_ucast_up)
  let ?fr = "take (unat frame_len) f"
  have hd: "take 4 (drop 4 ?fr) = take 4 (drop 4 f)" "take 4 (drop 8 ?fr) = take 4 (drop 8 f)" "take 4 ?fr = take 4 f"
    using assms(5) by (simp_all add: drop_take min_def)
  have parse: "frame_parse ?fr = (if unat frame_len < 28 + a + c then None
      else Some (take a (drop 12 ?fr), take c (drop (12 + a) ?fr), take 16 (drop (12 + a + c) ?fr)))"
    using assms(4,5,6) by (simp add: frame_parse_def hd a_def [symmetric] c_def [symmetric] Let_def)
  have need: "unat (OWCRYPT_FRAME_OVERHEAD + ?aad + ?cl + 16) = 28 + a + c"
    using ua uc by (simp add: OWCRYPT_FRAME_OVERHEAD_def unat_word_ariths)
  have get: "owc_get32le f 4 = Some (le_word (take 4 (drop 4 f)))" "owc_get32le f 8 = Some (le_word (take 4 (drop 8 f)))"
    using l12 by (simp_all add: owc_get_eq)
  show ?thesis
  proof (cases "unat frame_len < 28 + a + c")
    case True
    then show ?thesis
      by (simp add: open_body_def get need word_less_nat_alt frame_open_spec_def parse Let_def del: of_nat_add)
  next
    case False
    let ?q = "12 + a"
    let ?A = "take a (drop 12 f)" and ?C = "take c (drop ?q f)" and ?T = "take 16 (drop (?q + c) f)"
    let ?p = "rfc_chacha20 k n 1 ?C"
    let ?dst = "case op_plain r of NULL \<Rightarrow> Dst_in_place | Ref b \<Rightarrow> Dst_buf b"
    have le: "28 + a + c \<le> length f" using False assms(4) by simp
    have parts: "take a (drop 12 ?fr) = ?A" "take c (drop ?q ?fr) = ?C" "take 16 (drop (?q + c) ?fr) = ?T"
      using False by (intro take_drop_in; simp)+
    have lens: "length ?A = a" "length ?p = c" using le by simp_all
    have spec: "frame_open_spec k n frame_len f scan_ban hook r =
        (if ?T = aead_tag k n ?A ?C then frame_deliver f scan_ban hook ?A ?p r else r\<lparr>op_status := OWCRYPT_BAN_AUTH_FAIL\<rparr>)"
      using False by (simp add: frame_open_spec_def parse parts)
    have nl: "\<not> frame_len < OWCRYPT_FRAME_OVERHEAD + ?aad + ?cl + 16"
      unfolding word_less_nat_alt need using False .
    have room: "unat ?cl \<le> length (dst_buffer ?dst (drop ?q f))"
    proof (cases "op_plain r")
      case NULL
      then show ?thesis using le by (simp add: uc dst_buffer_def)
    next
      case (Ref b)
      then show ?thesis using False assms(7) [OF Ref] by (auto simp: uc dst_buffer_def c_def [symmetric])
    qed
    have op: "owcrypt_chacha_poly_open True (Ref k) (Ref n) (Ref (drop 12 f)) ?aad (Ref (drop ?q f)) ?cl
        (Ref (drop (?q + c) f)) ?dst =
        Some (if ?T = aead_tag k n ?A ?C then (OWCRYPT_OK, Ref (patch (dst_buffer ?dst (drop ?q f)) 0 ?p))
              else (OWCRYPT_BAN_AUTH_FAIL, Ref (dst_buffer ?dst (drop ?q f))))"
      using open_eq [where a = "drop 12 f" and aadlen = ?aad and tg = "drop (?q + c) f", OF assms(1,2) _ _ _ _ room] le
      by (simp add: ua uc split: ptr.split)
    let ?b = "dst_buffer ?dst (drop ?q f)"
    have nz: "0 < ?aad \<longleftrightarrow> ?A \<noteq> []" using lens(1) ua(1) by (auto simp: word_gt_0 unat_gt_0 [symmetric] simp del: unat_eq_0_word)
    have out: "unat ?cl \<le> length (patch ?b 0 ?p)" "?p = take (unat ?cl) (patch ?b 0 ?p)"
      using room lens(2) by (simp_all add: uc patch_0_drop)
    have "?cl = of_nat c" "?aad = of_nat a" unfolding ua(1) [symmetric] uc(1) [symmetric] by simp_all
    then have fields: "?cl = of_nat (length ?p)" "?aad = of_nat (length ?A)" unfolding lens .
    have scan: "open_scan scan_ban hook (Ref (patch ?b 0 ?p)) ?cl x =
        Some (case (if scan_ban then first_ban ?p else None) of
                None \<Rightarrow> x
              | Some v \<Rightarrow> x\<lparr>op_status := OWCRYPT_BAN_BANCODE, op_world := call_hook hook v (op_world x)\<rparr>)" for x :: "'a opened"
      by (rule open_scan_eq [OF out])
    have body: "open_body True (Ref k) (Ref n) f frame_len scan_ban hook r =
        do { (st, out) \<leftarrow> owcrypt_chacha_poly_open True (Ref k) (Ref n) (Ref (drop 12 f)) ?aad (Ref (drop ?q f)) ?cl
               (Ref (drop (?q + c) f)) ?dst;
             r \<leftarrow> (case (?dst, out) of
                     (Dst_in_place, Ref b) \<Rightarrow> Some (r\<lparr>op_status := st, op_frame := Ref (take ?q f @ b)\<rparr>)
                   | (_, Ref b) \<Rightarrow> Some (r\<lparr>op_status := st, op_plain := Ref b\<rparr>)
                   | (_, NULL) \<Rightarrow> None);
             if st \<noteq> OWCRYPT_OK then Some r
             else open_scan scan_ban hook out ?cl
               (r\<lparr>op_plain_len := Ref ?cl, op_aad := Ref (if 0 < ?aad then Ref 12 else NULL), op_aad_len := Ref ?aad\<rparr>) }"
      unfolding open_body_def get bind.bind_lunit Let_def ua(1) uc(1) if_not_P [OF nl] ..
    have codes: "OWCRYPT_BAN_AUTH_FAIL \<noteq> OWCRYPT_OK" by (simp add: status_defs)
    have place: "take ?q f @ patch (drop ?q f) 0 ?p = patch f ?q ?p"
      using le by (simp add: patch_def add.commute)
    show ?thesis
    proof (cases "?T = aead_tag k n ?A ?C")
      case True
      then have spec: "frame_open_spec k n frame_len f scan_ban hook r = frame_deliver f scan_ban hook ?A ?p r"
        using spec by simp
      let ?R = "r\<lparr>op_status := OWCRYPT_OK,
          op_plain := (case op_plain r of NULL \<Rightarrow> NULL | Ref b \<Rightarrow> Ref (patch b 0 ?p)),
          op_frame := (case op_plain r of NULL \<Rightarrow> Ref (patch f ?q ?p) | Ref _ \<Rightarrow> Ref f)\<rparr>"
      have mid: "(case (?dst, Ref (patch ?b 0 ?p)) of
          (Dst_in_place, Ref b) \<Rightarrow> Some (r\<lparr>op_status := OWCRYPT_OK, op_frame := Ref (take ?q f @ b)\<rparr>)
        | (_, Ref b) \<Rightarrow> Some (r\<lparr>op_status := OWCRYPT_OK, op_plain := Ref b\<rparr>)
        | (_, NULL) \<Rightarrow> None) = Some ?R"
        using assms(3) place by (cases r, cases "op_plain r") (simp_all add: dst_buffer_def)
      have "open_body True (Ref k) (Ref n) f frame_len scan_ban hook r =
          open_scan scan_ban hook (Ref (patch ?b 0 ?p)) ?cl
            (?R\<lparr>op_plain_len := Ref ?cl, op_aad := Ref (if 0 < ?aad then Ref 12 else NULL), op_aad_len := Ref ?aad\<rparr>)"
        unfolding body op if_P [OF True] bind.bind_lunit prod.case mid [unfolded prod.case] by simp
      also have "\<dots> = Some (frame_deliver f scan_ban hook ?A ?p r)"
        unfolding scan unfolding nz unfolding frame_deliver_def Let_def lens(1) fields by (simp split: option.split)
      finally show ?thesis unfolding spec .
    next
      case F: False
      have mid: "(case (?dst, Ref ?b) of
          (Dst_in_place, Ref b) \<Rightarrow> Some (r\<lparr>op_status := OWCRYPT_BAN_AUTH_FAIL, op_frame := Ref (take ?q f @ b)\<rparr>)
        | (_, Ref b) \<Rightarrow> Some (r\<lparr>op_status := OWCRYPT_BAN_AUTH_FAIL, op_plain := Ref b\<rparr>)
        | (_, NULL) \<Rightarrow> None) = Some (r\<lparr>op_status := OWCRYPT_BAN_AUTH_FAIL\<rparr>)"
        using assms(3) by (cases r, cases "op_plain r") (simp_all add: dst_buffer_def)
      show ?thesis
        unfolding body op spec if_not_P [OF F] bind.bind_lunit prod.case mid [unfolded prod.case]
        using codes by simp
    qed
  qed
qed

lemma magic_iff:
  assumes "4 \<le> length f"
  shows "le_word (take 4 f) = OWCRYPT_FRAME_MAGIC \<longleftrightarrow> take 4 f = le_bytes 4 OWCRYPT_FRAME_MAGIC"
proof
  assume "le_word (take 4 f) = OWCRYPT_FRAME_MAGIC"
  then show "take 4 f = le_bytes 4 OWCRYPT_FRAME_MAGIC"
    using le_bytes_word [of "take 4 f", where 'a = 32] assms by simp
qed (simp add: le_word_bytes take_bit_word_eq_self)

lemma owcrypt_open_frame_eq:
  assumes "32 \<le> length k" and "12 \<le> length n" and "op_frame r = Ref f" and "unat frame_len \<le> length f"
    and "\<And>b. op_plain r = Ref b \<Longrightarrow> le_nat (take 4 (drop 8 f)) \<le> length b \<or> unat frame_len \<le> length b + 28"
    and "op_plain_len r \<noteq> NULL" and "op_aad r \<noteq> NULL" and "op_aad_len r \<noteq> NULL"
  shows "owcrypt_open_frame True (Ref k) (Ref n) frame_len scan_ban hook r =
     Some (frame_open_spec k n frame_len f scan_ban hook r)"
proof (cases "unat frame_len < 28")
  case True
  then have "frame_parse (take (unat frame_len) f) = None"
    using assms(4) by (simp add: frame_parse_def min_absorb2)
  with True assms show ?thesis
    by (simp add: owcrypt_open_frame_def frame_open_spec_def OWCRYPT_FRAME_OVERHEAD_def word_less_nat_alt)
next
  case False
  then have l: "4 \<le> length f" and nl: "\<not> frame_len < OWCRYPT_FRAME_OVERHEAD + 16"
    using assms(4) by (simp_all add: OWCRYPT_FRAME_OVERHEAD_def word_less_nat_alt)
  have get: "owc_get32le f 0 = Some (le_word (take 4 f))" using l by (simp add: owc_get_eq)
  show ?thesis
  proof (cases "take 4 f = le_bytes 4 OWCRYPT_FRAME_MAGIC")
    case True
    then have "open_body True (Ref k) (Ref n) f frame_len scan_ban hook r =
        Some (frame_open_spec k n frame_len f scan_ban hook r)"
      using False by (intro open_body_eq assms) simp_all
    with True show ?thesis using assms(3,6,7,8) nl get magic_iff [OF l] by (simp add: owcrypt_open_frame_def)
  next
    case F: False
    moreover have "take 4 (take (unat frame_len) f) = take 4 f" using False by (simp add: min_absorb1)
    ultimately have "frame_parse (take (unat frame_len) f) = None" by (simp add: frame_parse_def)
    with F show ?thesis using assms(3,6,7,8) nl get magic_iff [OF l]
      by (simp add: owcrypt_open_frame_def frame_open_spec_def)
  qed
qed

text \<open>C17: Opening a frame with arbitrary contents never accesses memory outside the frame and the
  buffers, and does exactly this: a frame that is too short, lacks the magic number or announces
  more than it holds is refused; with a wrong tag the call fails and nothing but the status
  changes, no byte is decrypted; otherwise the message is decrypted (in place when there is no output
  buffer), the lengths are reported, and with scanning on the first BAN code in the message
  is passed to the hook and turns the status into an error.
\<close>

theorem owcrypt_open_frame_exact:
  assumes "32 \<le> length k" and "12 \<le> length n" and "op_frame r = Ref f" and "unat frame_len \<le> length f"
    and "op_plain r = NULL \<or> (\<exists>b. op_plain r = Ref b \<and> unat frame_len \<le> length b + 28)"
    and "op_plain_len r \<noteq> NULL" and "op_aad r \<noteq> NULL" and "op_aad_len r \<noteq> NULL"
  shows "owcrypt_open_frame True (Ref k) (Ref n) frame_len scan_ban hook r =
     Some (frame_open_spec k n frame_len f scan_ban hook r)"
  using assms by (intro owcrypt_open_frame_eq) auto

theorem owcrypt_open_frame_exact_witness:
  "owcrypt_open_frame True (Ref (replicate 32 1)) (Ref (replicate 12 2)) 28 True NULL
     \<lparr>op_status = 0, op_plain = NULL, op_frame = Ref (replicate 30 9), op_plain_len = Ref 5, op_aad = Ref NULL,
      op_aad_len = Ref 6, op_world = ()\<rparr> =
   Some \<lparr>op_status = OWCRYPT_ERR_BAD_ARG, op_plain = NULL, op_frame = Ref (replicate 30 9), op_plain_len = Ref 5,
      op_aad = Ref NULL, op_aad_len = Ref 6, op_world = ()\<rparr>"
proof -
  have "take 4 (take 28 (replicate 30 9)) \<noteq> le_bytes 4 OWCRYPT_FRAME_MAGIC"
    by code_simp
  then have "frame_parse (take 28 (replicate 30 9)) = None" by (simp add: frame_parse_def)
  then show ?thesis
    using owcrypt_open_frame_exact [of "replicate 32 1" "replicate 12 2"
        "\<lparr>op_status = 0, op_plain = NULL, op_frame = Ref (replicate 30 9), op_plain_len = Ref 5, op_aad = Ref NULL,
          op_aad_len = Ref 6, op_world = ()\<rparr>" "replicate 30 9" 28 True NULL]
    by (simp add: frame_open_spec_def)
qed

lemma frame_len_field:
  assumes "length aad < 2 ^ 32" and "length plain < 2 ^ 32"
  shows "le_nat (take 4 (drop 4 (frame_of key nonce aad plain))) = length aad"
    and "le_nat (take 4 (drop 8 (frame_of key nonce aad plain))) = length plain"
proof -
  have num: "le_nat (le_bytes 4 (of_nat n :: u32)) = n" if "n < 2 ^ 32" for n
  proof -
    have "unat (le_word (le_bytes 4 (of_nat n :: u32)) :: u32) = le_nat (le_bytes 4 (of_nat n :: u32))"
      by (intro unat_le_word) simp
    then show ?thesis using that by (simp add: le_word_bytes take_bit_word_eq_self unat_of_nat)
  qed
  show "le_nat (take 4 (drop 4 (frame_of key nonce aad plain))) = length aad"
    "le_nat (take 4 (drop 8 (frame_of key nonce aad plain))) = length plain"
    using assms num by (simp_all add: frame_of_def frame_header_def Let_def)
qed

lemma frame_parse_frame_of:
  assumes "length aad < 2 ^ 32" and "length plain < 2 ^ 32"
  shows "frame_parse (frame_of key nonce aad plain) =
     Some (aad, rfc_chacha20 key nonce 1 plain, aead_tag key nonce aad (rfc_chacha20 key nonce 1 plain))"
proof -
  let ?ct = "rfc_chacha20 key nonce 1 plain"
  let ?fr = "frame_of key nonce aad plain"
  have fr: "?fr = le_bytes 4 OWCRYPT_FRAME_MAGIC @ le_bytes 4 (of_nat (length aad) :: u32) @
      le_bytes 4 (of_nat (length plain) :: u32) @ aad @ ?ct @ aead_tag key nonce aad ?ct"
    by (simp add: frame_of_def frame_header_def Let_def)
  have "take 4 ?fr = le_bytes 4 OWCRYPT_FRAME_MAGIC" unfolding fr by simp
  moreover note frame_len_field [OF assms, of key nonce]
  moreover have "take (length aad) (drop 12 ?fr) = aad" "take (length plain) (drop (12 + length aad) ?fr) = ?ct"
      "take 16 (drop (12 + length aad + length plain) ?fr) = aead_tag key nonce aad ?ct"
    unfolding fr by simp_all
  ultimately show ?thesis by (simp add: frame_parse_def length_frame_of Let_def)
qed

text \<open>C18: Round trip: a frame sealed by \<open>owcrypt_seal_frame\<close> is opened by
  \<open>owcrypt_open_frame\<close> with the same key and nonce; the output buffer then starts with the message,
  the additional data is found behind the header, and both lengths are reported, for additional data
  and messages below 2^32 bytes (the size of the length fields), the empty ones included.
\<close>

theorem owcrypt_frame_round_trip:
  assumes "32 \<le> length k" and "12 \<le> length n" and "length aad < 2 ^ 32" and "length plain < 2 ^ 32"
    and "28 + length aad + length plain \<le> unat fl" and "unat fl \<le> length f"
    and "op_plain r = Ref b" and "length plain \<le> length b"
    and "op_plain_len r \<noteq> NULL" and "op_aad r \<noteq> NULL" and "op_aad_len r \<noteq> NULL"
    and "scan_ban \<Longrightarrow> first_ban plain = None"
  shows "do { (st, frame, len) \<leftarrow> owcrypt_seal_frame True (Ref k) (Ref n) (Ref aad) (of_nat (length aad))
                (Ref plain) (of_nat (length plain)) (Ref f) (Ref fl);
              case len of NULL \<Rightarrow> None
              | Ref l \<Rightarrow> owcrypt_open_frame True (Ref k) (Ref n) l scan_ban hook (r\<lparr>op_frame := frame\<rparr>) } =
     Some (r\<lparr>op_frame := Ref (frame_of k n aad plain @ drop (28 + length aad + length plain) f),
             op_status := OWCRYPT_OK, op_plain := Ref (plain @ drop (length plain) b),
             op_plain_len := Ref (of_nat (length plain)), op_aad := Ref (if aad = [] then NULL else Ref 12),
             op_aad_len := Ref (of_nat (length aad))\<rparr>)"
proof -
  let ?L = "28 + length aad + length plain" and ?fr = "frame_of k n aad plain"
  have ua: "unat (of_nat (length aad) :: u64) = length aad" "unat (of_nat (length plain) :: u64) = length plain"
    using assms(3,4) by (simp_all add: unat_of_nat)
  have uL: "unat (of_nat ?L :: u64) = ?L"
    using assms(3,4) by (simp add: unat_of_nat del: of_nat_add)
  have rd: "readable (Ref aad) (of_nat (length aad))" "readable (Ref plain) (of_nat (length plain))"
    "bytes_at (Ref aad) (of_nat (length aad)) = aad" "bytes_at (Ref plain) (of_nat (length plain)) = plain"
    using ua by (simp_all add: readable_def bytes_at_def)
  let ?f = "?fr @ drop ?L f"
  have seal: "owcrypt_seal_frame True (Ref k) (Ref n) (Ref aad) (of_nat (length aad)) (Ref plain)
      (of_nat (length plain)) (Ref f) (Ref fl) = Some (OWCRYPT_OK, Ref ?f, Ref (of_nat ?L))"
    using owcrypt_seal_frame_eq [OF assms(1,2) rd(1,2), of fl f] assms(5,6) unfolding ua rd(3,4) by simp
  let ?r = "r\<lparr>op_frame := Ref ?f\<rparr>"
  have lf: "length ?fr = ?L" by (rule length_frame_of)
  have "owcrypt_open_frame True (Ref k) (Ref n) (of_nat ?L) scan_ban hook ?r =
      Some (frame_open_spec k n (of_nat ?L) ?f scan_ban hook ?r)"
  proof (rule owcrypt_open_frame_eq)
    show "le_nat (take 4 (drop 8 ?f)) \<le> length c \<or> unat (of_nat ?L :: u64) \<le> length c + 28"
      if "op_plain ?r = Ref c" for c
      using that assms(7,8) frame_len_field [OF assms(3,4), of k n] lf by simp
  qed (use assms uL lf in \<open>simp_all del: of_nat_add\<close>)
  moreover have "take (unat (of_nat ?L :: u64)) ?f = ?fr" unfolding uL using lf by simp
  then have "frame_open_spec k n (of_nat ?L) ?f scan_ban hook ?r = frame_deliver ?f scan_ban hook aad plain ?r"
    unfolding frame_open_spec_def by (simp add: frame_parse_frame_of [OF assms(3,4)] rfc_chacha20_twice)
  moreover have "frame_deliver ?f scan_ban hook aad plain ?r =
      r\<lparr>op_frame := Ref ?f, op_status := OWCRYPT_OK, op_plain := Ref (plain @ drop (length plain) b),
        op_plain_len := Ref (of_nat (length plain)), op_aad := Ref (if aad = [] then NULL else Ref 12),
        op_aad_len := Ref (of_nat (length aad))\<rparr>"
    using assms(7,12) by (cases scan_ban) (simp_all add: frame_deliver_def patch_0_drop)
  ultimately show ?thesis unfolding seal by (simp del: of_nat_add)
qed

theorem owcrypt_frame_round_trip_witness:
  "do { (st, frame, len) \<leftarrow> owcrypt_seal_frame True (Ref (replicate 32 1)) (Ref (replicate 12 2)) (Ref [7, 8]) 2
          (Ref [3, 4, 5]) 3 (Ref (replicate 40 0)) (Ref 40);
        case len of NULL \<Rightarrow> None
        | Ref l \<Rightarrow> owcrypt_open_frame True (Ref (replicate 32 1)) (Ref (replicate 12 2)) l False NULL
            \<lparr>op_status = 9, op_plain = Ref [0, 0, 0, 6], op_frame = frame, op_plain_len = Ref 0, op_aad = Ref NULL,
             op_aad_len = Ref 0, op_world = ()\<rparr> } =
   Some \<lparr>op_status = OWCRYPT_OK, op_plain = Ref [3, 4, 5, 6],
     op_frame = Ref (frame_of (replicate 32 1) (replicate 12 2) [7, 8] [3, 4, 5] @ replicate 7 0),
     op_plain_len = Ref 3, op_aad = Ref (Ref 12), op_aad_len = Ref 2, op_world = ()\<rparr>"
  using owcrypt_frame_round_trip [of "replicate 32 1" "replicate 12 2" "[7, 8]" "[3, 4, 5]" 40 "replicate 40 0"
      "\<lparr>op_status = 9, op_plain = Ref [0, 0, 0, 6], op_frame = NULL, op_plain_len = Ref 0, op_aad = Ref NULL,
        op_aad_len = Ref 0, op_world = ()\<rparr>" "[0, 0, 0, 6]" False NULL]
  by simp

end
