(* ===== verification/Zip.thy ===== *)
theory Zip
  imports C_Loops
begin

text \<open>
  \<open>src/DLL/owzip64/owzip64.c\<close>: the LZSS encoder with its output writer and match search, the
  decoder, and the running checksums CRC-32 and Adler-32. Every access to a buffer is checked, so
  that a result \<open>Some\<close> includes memory safety. The specification is the stream grammar of the
  header comment of the source: a list of tokens, its expansion to bytes and its division into
  groups of a control byte and up to eight tokens.
\<close>

unbundle bit_operations_syntax

abbreviation (input) OWZIP_WINDOW_SIZE :: u64 where "OWZIP_WINDOW_SIZE \<equiv> 4096"
abbreviation (input) OWZIP_MIN_MATCH :: u64 where "OWZIP_MIN_MATCH \<equiv> 3"
abbreviation (input) OWZIP_MAX_MATCH :: u64 where "OWZIP_MAX_MATCH \<equiv> 18"

section \<open>The writer\<close>

record ow_zip_writer_t =
  w_out :: "u8 list"
  w_cap :: u64
  w_len :: u64
  w_flag_index :: u64
  w_nflags :: u32
  w_overflow :: bool

definition ow_zip_writer_init :: "u8 list \<Rightarrow> u64 \<Rightarrow> ow_zip_writer_t" where
  "ow_zip_writer_init out cap =
     \<lparr>w_out = out, w_cap = cap, w_len = 0, w_flag_index = 0, w_nflags = 0, w_overflow = False\<rparr>"

text \<open>\<open>w->out[w->len++] = b;\<close>\<close>

definition zip_put :: "ow_zip_writer_t \<Rightarrow> u8 \<Rightarrow> ow_zip_writer_t comp" where
  "zip_put w b = do { out \<leftarrow> c_wr (w_out w) (unat (w_len w)) b; Some (w\<lparr>w_out := out, w_len := w_len w + 1\<rparr>) }"

text \<open>The start of a group; without room for the control byte the writer overflows.\<close>

definition zip_control :: "ow_zip_writer_t \<Rightarrow> ow_zip_writer_t comp" where
  "zip_control w =
     (if w_nflags w = 0 then
        if w_len w \<ge> w_cap w then Some (w\<lparr>w_overflow := True\<rparr>)
        else zip_put (w\<lparr>w_flag_index := w_len w\<rparr>) 0
      else Some w)"

definition ow_zip_writer_token :: "ow_zip_writer_t \<Rightarrow> bool \<Rightarrow> u16 \<Rightarrow> ow_zip_writer_t comp" where
  "ow_zip_writer_token w literal word =
     (if w_overflow w then Some w
      else do {
        w \<leftarrow> zip_control w;
        if w_overflow w then Some w
        else if literal then
          if w_len w \<ge> w_cap w then Some (w\<lparr>w_overflow := True\<rparr>)
          else do {
            f \<leftarrow> c_rd (w_out w) (unat (w_flag_index w));
            out \<leftarrow> c_wr (w_out w) (unat (w_flag_index w)) (f OR ucast (push_bit (unat (w_nflags w)) (1 :: u32)));
            w \<leftarrow> zip_put (w\<lparr>w_out := out\<rparr>) (ucast word);
            Some (w\<lparr>w_nflags := (w_nflags w + 1) AND 7\<rparr>) }
        else
          if w_len w + 2 > w_cap w then Some (w\<lparr>w_overflow := True\<rparr>)
          else do {
            w \<leftarrow> zip_put w (ucast (word AND 0xFF));
            w \<leftarrow> zip_put w (ucast (drop_bit 8 word AND 0xFF));
            Some (w\<lparr>w_nflags := (w_nflags w + 1) AND 7\<rparr>) } })"

section \<open>The match search\<close>

text \<open>\<open>while (l < max_len && src[j + l] == src[pos + l]) l++;\<close>\<close>

function zip_match_len :: "u8 list \<Rightarrow> u64 \<Rightarrow> u64 \<Rightarrow> u64 \<Rightarrow> u64 \<Rightarrow> u64 comp" where
  "zip_match_len src max_len j pos l =
     (if l < max_len then
        do { a \<leftarrow> c_rd src (unat (j + l));
             b \<leftarrow> c_rd src (unat (pos + l));
             if a = b then zip_match_len src max_len j pos (l + 1) else Some l }
      else Some l)"
  by pat_completeness auto
termination
  by (relation "measure (\<lambda>(src, max_len, j, pos, l). unat max_len - unat l)")
     (auto simp: unat_add1_less word_less_nat_alt diff_less_mono2)

declare zip_match_len.simps [simp del]

function zip_search :: "u8 list \<Rightarrow> u64 \<Rightarrow> u64 \<Rightarrow> u64 \<Rightarrow> u64 \<Rightarrow> u64 \<Rightarrow> (u64 \<times> u64) comp" where
  "zip_search src max_len pos j best_len best_dist =
     (if j < pos then
        do { l \<leftarrow> zip_match_len src max_len j pos 0;
             if l > best_len then
               if l = max_len then Some (l, pos - j)
               else zip_search src max_len pos (j + 1) l (pos - j)
             else zip_search src max_len pos (j + 1) best_len best_dist }
      else Some (best_len, best_dist))"
  by pat_completeness auto
termination
  by (relation "measure (\<lambda>(src, max_len, pos, j, best_len, best_dist). unat pos - unat j)")
     (auto simp: unat_add1_less word_less_nat_alt diff_less_mono2)

declare zip_search.simps [simp del]

text \<open>The length of the match and \<open>*out_dist\<close>.\<close>

definition ow_zip_find_match :: "u8 list \<Rightarrow> u64 \<Rightarrow> u64 \<Rightarrow> (u32 \<times> u64) comp" where
  "ow_zip_find_match src src_len pos =
     (if pos < 1 \<or> pos \<ge> src_len then Some (0, 0)
      else let max_len = src_len - pos;
               max_len = (if max_len > OWZIP_MAX_MATCH then OWZIP_MAX_MATCH else max_len) in
        if max_len < OWZIP_MIN_MATCH then Some (0, 0)
        else let window_start = (if pos > OWZIP_WINDOW_SIZE then pos - OWZIP_WINDOW_SIZE else 0) in
          do { (best_len, best_dist) \<leftarrow> zip_search src max_len pos window_start 0 0;
               if best_len < OWZIP_MIN_MATCH then Some (0, 0) else Some (ucast best_len, best_dist) })"

section \<open>Compression\<close>

partial_function (option) zip_encode :: "u8 list \<Rightarrow> u64 \<Rightarrow> u64 \<Rightarrow> ow_zip_writer_t \<Rightarrow> ow_zip_writer_t comp" where
  "zip_encode src src_len pos w =
     (if pos < src_len then
        do { (mlen, dist) \<leftarrow> ow_zip_find_match src src_len pos;
             (w, pos) \<leftarrow>
               (if mlen \<ge> 3 \<and> dist \<ge> 1
                then do { w \<leftarrow> ow_zip_writer_token w False
                              (ucast (((dist - 1) AND 0x0FFF) OR push_bit 12 (ucast (mlen - 3))));
                          Some (w, pos + ucast mlen) }
                else do { c \<leftarrow> c_rd src (unat pos);
                          w \<leftarrow> ow_zip_writer_token w True (ucast c);
                          Some (w, pos + 1) });
             if w_overflow w then Some w else zip_encode src src_len pos w }
      else Some w)"

declare zip_encode.simps [code]

text \<open>The bytes behind a pointer that may be null, and the pointer after the bytes have changed.\<close>

definition bytes_of :: "u8 list ptr \<Rightarrow> u8 list" where
  "bytes_of p = (case p of NULL \<Rightarrow> [] | Ref b \<Rightarrow> b)"

definition with_bytes :: "u8 list ptr \<Rightarrow> u8 list \<Rightarrow> u8 list ptr" where
  "with_bytes p b = (case p of NULL \<Rightarrow> NULL | Ref _ \<Rightarrow> Ref b)"

definition owzip_compress ::
  "u8 list ptr \<Rightarrow> u64 \<Rightarrow> u8 list ptr \<Rightarrow> u64 \<Rightarrow> u64 ptr \<Rightarrow> (bool \<times> u8 list ptr \<times> u64 ptr) comp" where
  "owzip_compress src src_len dst dst_cap out_len =
     (case out_len of NULL \<Rightarrow> Some (False, dst, NULL)
      | Ref _ \<Rightarrow>
         if (src = NULL \<and> src_len \<noteq> 0) \<or> (dst = NULL \<and> dst_cap \<noteq> 0) then Some (False, dst, Ref 0)
         else do { w \<leftarrow> zip_encode (bytes_of src) src_len 0 (ow_zip_writer_init (bytes_of dst) dst_cap);
                   Some (if w_overflow w then (False, with_bytes dst (w_out w), Ref 0)
                         else (True, with_bytes dst (w_out w), Ref (w_len w))) })"

section \<open>Decompression\<close>

text \<open>\<open>for (k = 0; k < len; ++k) { dst[op] = dst[op - off]; op++; }\<close>\<close>

definition zip_copy :: "u64 \<Rightarrow> u64 \<Rightarrow> u64 \<Rightarrow> u8 list \<Rightarrow> (u64 \<times> u8 list) comp" where
  "zip_copy off len op dst =
     c_for 0 (unat len) (\<lambda>k (op, dst). do { v \<leftarrow> c_rd dst (unat (op - off)); dst \<leftarrow> c_wr dst (unat op) v; Some (op + 1, dst) }) (op, dst)"

text \<open>One token; the result says whether decoding goes on, and has \<open>ip\<close>, \<open>op\<close> and the output.\<close>

definition zip_token ::
  "u8 list \<Rightarrow> u64 \<Rightarrow> u64 \<Rightarrow> bool \<Rightarrow> u64 \<Rightarrow> u64 \<Rightarrow> u8 list \<Rightarrow> (bool \<times> u64 \<times> u64 \<times> u8 list) comp" where
  "zip_token src src_len dst_cap literal ip op dst =
     (if literal then
        if op \<ge> dst_cap then Some (False, ip, op, dst)
        else do { b \<leftarrow> c_rd src (unat ip); dst \<leftarrow> c_wr dst (unat op) b; Some (True, ip + 1, op + 1, dst) }
      else
        if ip + 2 > src_len then Some (False, ip, op, dst)
        else do { lo \<leftarrow> c_rd src (unat ip);
                  hi \<leftarrow> c_rd src (unat (ip + 1));
                  let v = ((ucast lo :: u16) OR push_bit 8 (ucast hi));
                  let off = (ucast (v AND 0x0FFF) :: u64) + 1;
                  let len = (ucast (drop_bit 12 v AND 0x0F) :: u64) + OWZIP_MIN_MATCH;
                  if off > op then Some (False, ip + 2, op, dst)
                  else if op + len > dst_cap then Some (False, ip + 2, op, dst)
                  else do { (op, dst) \<leftarrow> zip_copy off len op dst; Some (True, ip + 2, op, dst) } })"

text \<open>The tokens of one group, from token \<open>bit\<close> on.\<close>

function zip_group ::
  "u8 list \<Rightarrow> u64 \<Rightarrow> u64 \<Rightarrow> u8 \<Rightarrow> nat \<Rightarrow> u64 \<Rightarrow> u64 \<Rightarrow> u8 list \<Rightarrow> (bool \<times> u64 \<times> u64 \<times> u8 list) comp" where
  "zip_group src src_len dst_cap flags k ip op dst =
     (if k < 8 \<and> ip < src_len then
        do { (ok, ip, op, dst) \<leftarrow> zip_token src src_len dst_cap (drop_bit k flags AND 1 \<noteq> 0) ip op dst;
             if ok then zip_group src src_len dst_cap flags (Suc k) ip op dst else Some (False, ip, op, dst) }
      else Some (True, ip, op, dst))"
  by pat_completeness auto
termination by (relation "measure (\<lambda>(src, src_len, dst_cap, flags, k, ip, op, dst). 8 - k)") auto

declare zip_group.simps [simp del]

partial_function (option) zip_decode ::
  "u8 list \<Rightarrow> u64 \<Rightarrow> u64 \<Rightarrow> u64 \<Rightarrow> u64 \<Rightarrow> u8 list \<Rightarrow> (bool \<times> u64 \<times> u8 list) comp" where
  "zip_decode src src_len dst_cap ip op dst =
     (if ip < src_len then
        do { flags \<leftarrow> c_rd src (unat ip);
             (ok, ip, op, dst) \<leftarrow> zip_group src src_len dst_cap flags 0 (ip + 1) op dst;
             if ok then zip_decode src src_len dst_cap ip op dst else Some (False, op, dst) }
      else Some (True, op, dst))"

declare zip_decode.simps [code]

definition owzip_decompress ::
  "u8 list ptr \<Rightarrow> u64 \<Rightarrow> u8 list ptr \<Rightarrow> u64 \<Rightarrow> u64 ptr \<Rightarrow> (bool \<times> u8 list ptr \<times> u64 ptr) comp" where
  "owzip_decompress src src_len dst dst_cap out_len =
     (case out_len of NULL \<Rightarrow> Some (False, dst, NULL)
      | Ref _ \<Rightarrow>
         if (src = NULL \<and> src_len \<noteq> 0) \<or> (dst = NULL \<and> dst_cap \<noteq> 0) then Some (False, dst, Ref 0)
         else do { (ok, op, d) \<leftarrow> zip_decode (bytes_of src) src_len dst_cap 0 0 (bytes_of dst);
                   Some (ok, with_bytes dst d, Ref (if ok then op else 0)) })"

section \<open>Checksums\<close>

definition crc_bit :: "u32 \<Rightarrow> u32" where
  "crc_bit c = (if c AND 1 \<noteq> 0 then drop_bit 1 c XOR 0xEDB88320 else drop_bit 1 c)"

definition crc_byte :: "u32 \<Rightarrow> u8 \<Rightarrow> u32" where
  "crc_byte c b = (crc_bit ^^ 8) (c XOR ucast b)"

definition owzip_crc32 :: "u32 \<Rightarrow> u8 list ptr \<Rightarrow> u64 \<Rightarrow> u32 comp" where
  "owzip_crc32 crc data len =
     (let c = crc XOR 0xFFFFFFFF in
      case data of
        NULL \<Rightarrow> Some (if len \<noteq> 0 then crc else c XOR 0xFFFFFFFF)
      | Ref p \<Rightarrow> do { c \<leftarrow> c_for 0 (unat len) (\<lambda>i c. do { b \<leftarrow> c_rd p i; Some (crc_byte c b) }) c;
                       Some (c XOR 0xFFFFFFFF) })"

definition owzip_adler32 :: "u32 \<Rightarrow> u8 list ptr \<Rightarrow> u64 \<Rightarrow> u32 comp" where
  "owzip_adler32 adler data len =
     (let a = adler AND 0xFFFF; b = drop_bit 16 adler AND 0xFFFF in
      case data of
        NULL \<Rightarrow> Some (if len \<noteq> 0 then adler else push_bit 16 b OR a)
      | Ref p \<Rightarrow>
          do { (a, b) \<leftarrow> c_for 0 (unat len)
                 (\<lambda>i (a, b). do { x \<leftarrow> c_rd p i; let a = (a + ucast x) mod 65521; Some (a, (b + a) mod 65521) }) (a, b);
               Some (push_bit 16 b OR a) })"

section \<open>The stream grammar\<close>

datatype token = Lit u8 | Back nat nat

fun is_lit :: "token \<Rightarrow> bool" where
  "is_lit (Lit b) = True"
| "is_lit (Back d l) = False"

text \<open>A back reference appends \<open>l\<close> bytes, each a copy of the one \<open>d\<close> places before it.\<close>

primrec lz_copy :: "nat \<Rightarrow> nat \<Rightarrow> u8 list \<Rightarrow> u8 list" where
  "lz_copy d 0 out = out"
| "lz_copy d (Suc l) out = (let ys = lz_copy d l out in ys @ [ys ! (length ys - d)])"

fun lz_step :: "u8 list \<Rightarrow> token \<Rightarrow> u8 list" where
  "lz_step out (Lit b) = out @ [b]"
| "lz_step out (Back d l) = lz_copy d l out"

definition lz_expand :: "u8 list \<Rightarrow> token list \<Rightarrow> u8 list" where
  "lz_expand out ts = foldl lz_step out ts"

fun tok_ok :: "u8 list \<Rightarrow> token \<Rightarrow> bool" where
  "tok_ok out (Lit b) = True"
| "tok_ok out (Back d l) = (1 \<le> d \<and> d \<le> 4096 \<and> d \<le> length out \<and> 3 \<le> l \<and> l \<le> 18)"

fun lz_valid :: "u8 list \<Rightarrow> token list \<Rightarrow> bool" where
  "lz_valid out [] = True"
| "lz_valid out (t # ts) = (tok_ok out t \<and> lz_valid (lz_step out t) ts)"

text \<open>A back reference as a word: the distance less one in the low twelve bits, the length less three above.\<close>

definition back_word :: "nat \<Rightarrow> nat \<Rightarrow> u16" where
  "back_word d l = of_nat (d - 1 + 4096 * (l - 3))"

fun tok_bytes :: "token \<Rightarrow> u8 list" where
  "tok_bytes (Lit b) = [b]"
| "tok_bytes (Back d l) = le_bytes 2 (back_word d l)"

definition toks_bytes :: "token list \<Rightarrow> u8 list" where
  "toks_bytes ts = concat (map tok_bytes ts)"

fun ctl_byte :: "token list \<Rightarrow> u8" where
  "ctl_byte [] = 0"
| "ctl_byte (t # ts) = (if is_lit t then 1 else 0) OR push_bit 1 (ctl_byte ts)"

definition zip_group_bytes :: "token list \<Rightarrow> u8 list" where
  "zip_group_bytes g = ctl_byte g # toks_bytes g"

function zip_stream :: "token list \<Rightarrow> u8 list" where
  "zip_stream ts = (if ts = [] then [] else zip_group_bytes (take 8 ts) @ zip_stream (drop 8 ts))"
  by pat_completeness auto
termination by (relation "measure length") auto

declare zip_stream.simps [simp del]

lemma zip_stream_Nil [simp]: "zip_stream [] = []"
  by (simp add: zip_stream.simps)

lemma toks_bytes_simps [simp]: "toks_bytes [] = []" "toks_bytes (t # ts) = tok_bytes t @ toks_bytes ts"
  "toks_bytes (ts @ us) = toks_bytes ts @ toks_bytes us"
  by (simp_all add: toks_bytes_def)

lemma lz_expand_simps [simp]: "lz_expand out [] = out" "lz_expand out (t # ts) = lz_expand (lz_step out t) ts"
  "lz_expand out (ts @ us) = lz_expand (lz_expand out ts) us"
  by (simp_all add: lz_expand_def)

lemma lz_valid_append: "lz_valid out (ts @ us) \<longleftrightarrow> lz_valid out ts \<and> lz_valid (lz_expand out ts) us"
  by (induction out ts rule: lz_valid.induct) auto

lemma length_lz_copy [simp]: "length (lz_copy d l out) = length out + l"
  by (induction l) (auto simp: Let_def)

lemma length_lz_step: "length out \<le> length (lz_step out t)"
  by (cases t) auto

lemma length_lz_expand: "length out \<le> length (lz_expand out ts)"
proof (induction ts arbitrary: out)
  case (Cons t ts)
  show ?case using length_lz_step [of out t] Cons.IH [of "lz_step out t"] by simp
qed simp

section \<open>The decoder follows the grammar\<close>

text \<open>The output buffer after some bytes have been written at its start.\<close>

definition onto :: "'a list \<Rightarrow> 'a list \<Rightarrow> 'a list" where
  "onto d out = out @ drop (length out) d"

lemma length_onto: "length out \<le> length d \<Longrightarrow> length (onto d out) = length d"
  by (simp add: onto_def)

lemma onto_snoc: "length out < length d \<Longrightarrow> (onto d out)[length out := b] = onto d (out @ [b])"
  by (simp add: onto_def list_update_append Cons_nth_drop_Suc [symmetric])

lemma onto_nth: "i < length out \<Longrightarrow> onto d out ! i = out ! i"
  by (simp add: onto_def nth_append)

lemma onto_Nil [simp]: "onto d [] = d"
  by (simp add: onto_def)

lemma unat_of_nat_u64: "n < 2 ^ 64 \<Longrightarrow> unat (of_nat n :: u64) = n"
  by (simp add: unat_of_nat take_bit_nat_eq_self)

lemma of_unat_u64: "unat (x :: u64) = n \<Longrightarrow> n < 2 ^ 64 \<Longrightarrow> x = of_nat n"
  by (simp only: word_unat_eq_iff unat_of_nat_u64)

lemma zip_copy_eq:
  assumes "1 \<le> d" and "d \<le> length out" and "length out + l \<le> length dst" and "length dst < 2 ^ 63"
  shows "zip_copy (of_nat d) (of_nat l) (of_nat (length out)) (onto dst out) =
     Some (of_nat (length out + l), onto dst (lz_copy d l out))"
proof -
  define g where "g i = (of_nat (length out + i) :: u64, onto dst (lz_copy d i out))" for i
  let ?f = "\<lambda>(k :: nat) (p, ys). do { v \<leftarrow> c_rd ys (unat (p - of_nat d :: u64)); ys \<leftarrow> c_wr ys (unat p) v; Some (p + 1, ys) }"
  have "c_for 0 l ?f (g 0) = Some (g l)"
  proof (rule c_for_det)
    fix i assume "i < l"
    then have i: "length out + i < length dst" "length out + i < 2 ^ 64" using assms by simp_all
    have p: "unat (of_nat (length out + i) :: u64) = length out + i" "unat (of_nat (length out + i) - of_nat d :: u64) = length out + i - d"
      using i assms(1,2) by (simp_all only: of_nat_diff [symmetric] trans_le_add1 unat_of_nat_u64)
    have "onto dst (lz_copy d (Suc i) out) =
        (onto dst (lz_copy d i out))[length out + i := lz_copy d i out ! (length out + i - d)]"
      using onto_snoc [of "lz_copy d i out" dst] i by (simp add: Let_def)
    moreover have "onto dst (lz_copy d i out) ! (length out + i - d) = lz_copy d i out ! (length out + i - d)"
      using assms(1,2) by (intro onto_nth) simp
    ultimately show "?f i (g i) = Some (g (Suc i))"
      unfolding g_def prod.case p using i assms(1) by (simp add: length_onto)
  qed simp
  moreover have "unat (of_nat l :: u64) = l" using assms by (simp add: unat_of_nat_u64)
  ultimately show ?thesis by (simp add: zip_copy_def g_def)
qed

lemma back_word_fields:
  assumes "1 \<le> d" and "d \<le> 4096" and "3 \<le> l" and "l \<le> 18"
  shows "(ucast (back_word d l AND 0x0FFF) :: u64) + 1 = of_nat d"
    and "(ucast (drop_bit 12 (back_word d l) AND 0x0F) :: u64) + 3 = of_nat l"
proof -
  have v: "unat (back_word d l) = d - 1 + 4096 * (l - 3)"
    unfolding back_word_def using assms by (subst unat_of_nat) (simp add: take_bit_nat_eq_self)
  have "back_word d l AND 0x0FFF = take_bit 12 (back_word d l)" by (simp add: take_bit_eq_mask mask_eq_exp_minus_1)
  then have "unat (back_word d l AND 0x0FFF) = (d - 1 + 4096 * (l - 3)) mod 2 ^ 12"
    by (simp only: unsigned_take_bit_eq v) (simp only: take_bit_eq_mod)
  also have "\<dots> = d - 1" using assms(1,2) mod_mult_self2 [of "d - 1" 4096 "l - 3"] by simp
  finally have "unat (ucast (back_word d l AND 0x0FFF) :: u64) = d - 1" by (simp add: unat_ucast_up)
  then have "ucast (back_word d l AND 0x0FFF) = (of_nat (d - 1) :: u64)"
    by (rule of_unat_u64) (use assms in simp)
  then show "(ucast (back_word d l AND 0x0FFF) :: u64) + 1 = of_nat d" using assms(1) by (simp add: of_nat_diff)
  have "drop_bit 12 (back_word d l) AND 0x0F = take_bit 4 (drop_bit 12 (back_word d l))"
    by (simp add: take_bit_eq_mask mask_eq_exp_minus_1)
  moreover have "unat (drop_bit 12 (back_word d l)) = l - 3"
    using assms by (simp only: drop_bit_eq_div unat_div v) simp
  ultimately have "unat (ucast (drop_bit 12 (back_word d l) AND 0x0F) :: u64) = l - 3"
    using assms by (simp add: unat_ucast_up unsigned_take_bit_eq take_bit_nat_eq_self)
  then have "ucast (drop_bit 12 (back_word d l) AND 0x0F) = (of_nat (l - 3) :: u64)"
    by (rule of_unat_u64) (use assms in simp)
  then show "(ucast (drop_bit 12 (back_word d l) AND 0x0F) :: u64) + 3 = of_nat l" using assms(3) by (simp add: of_nat_diff)
qed

lemma le_bytes_2_join: "(ucast (ucast v :: u8) :: u16) OR push_bit 8 (ucast (ucast (drop_bit 8 v) :: u8)) = v"
  by (rule bit_word_eqI) (auto simp: bit_simps)

lemma le_bytes_2: "le_bytes 2 v = [ucast v, ucast (drop_bit 8 v)]"
  by (simp add: numeral_2_eq_2)

lemma zip_token_eq:
  assumes "tok_ok out t" and "length (lz_step out t) \<le> length dst" and "length dst < 2 ^ 63"
    and "length (pre @ tok_bytes t @ rest) < 2 ^ 63"
  shows "zip_token (pre @ tok_bytes t @ rest) (of_nat (length (pre @ tok_bytes t @ rest))) (of_nat (length dst)) (is_lit t)
      (of_nat (length pre)) (of_nat (length out)) (onto dst out) =
    Some (True, of_nat (length (pre @ tok_bytes t)), of_nat (length (lz_step out t)), onto dst (lz_step out t))"
proof (cases t)
  case (Lit b)
  then have "length out < length dst" using assms(2) by simp
  then have "\<not> (of_nat (length out) \<ge> (of_nat (length dst) :: u64))" "unat (of_nat (length out) :: u64) = length out"
    using assms(3) by (simp_all add: word_le_nat_alt unat_of_nat_u64)
  moreover have "unat (of_nat (length pre) :: u64) = length pre" using assms(4) by (simp add: unat_of_nat_u64)
  ultimately show ?thesis using Lit \<open>length out < length dst\<close>
    by (simp add: zip_token_def length_onto onto_snoc add.commute)
next
  case (Back d l)
  then have ok: "1 \<le> d" "d \<le> 4096" "d \<le> length out" "3 \<le> l" "l \<le> 18" "length out + l \<le> length dst" using assms(1,2) by simp_all
  let ?v = "back_word d l" and ?src = "pre @ tok_bytes t @ rest"
  have ip: "unat (of_nat (length pre) :: u64) = length pre" "unat (of_nat (length pre) + 1 :: u64) = length pre + 1"
    using assms(4) Back unat_of_nat_u64 [of "Suc (length pre)"] by (simp_all add: unat_of_nat_u64 add.commute)
  have "\<not> (of_nat (length pre) + 2 > (of_nat (length ?src) :: u64))"
  proof -
    have "(of_nat (length pre) + 2 :: u64) = of_nat (length pre + 2)" by simp
    then show ?thesis using assms(4) Back by (simp only: word_less_nat_alt, subst (1 2) unat_of_nat_u64) simp_all
  qed
  moreover have "\<not> (of_nat d > (of_nat (length out) :: u64))" using ok assms(3) by (simp add: word_less_nat_alt unat_of_nat_u64)
  moreover have "\<not> (of_nat (length out) + of_nat l > (of_nat (length dst) :: u64))"
    using ok assms(3) by (simp only: of_nat_add [symmetric] word_less_nat_alt, subst (1 2) unat_of_nat_u64) simp_all
  moreover have "c_rd ?src (length pre) = Some (ucast ?v)" "c_rd ?src (length pre + 1) = Some (ucast (drop_bit 8 ?v))"
    using Back by (simp_all add: le_bytes_2 nth_append)
  moreover note zip_copy_eq [OF ok(1,3,6) assms(3)] back_word_fields [OF ok(1,2,4,5)]
  ultimately show ?thesis using Back
    by (simp add: zip_token_def ip le_bytes_2_join Let_def del: of_nat_add)
qed

lemma bit_ctl_byte: "k < 8 \<Longrightarrow> bit (ctl_byte g) k \<longleftrightarrow> k < length g \<and> is_lit (g ! k)"
proof (induction g arbitrary: k)
  case (Cons t g)
  have "bit (push_bit 1 (ctl_byte g)) k \<longleftrightarrow> 1 \<le> k \<and> bit (ctl_byte g) (k - 1)" using Cons.prems by (subst bit_push_bit_iff) auto
  then have "bit (ctl_byte (t # g)) k \<longleftrightarrow> (is_lit t \<and> k = 0) \<or> (1 \<le> k \<and> bit (ctl_byte g) (k - 1))"
    by (simp only: ctl_byte.simps bit_or_iff) (auto simp: bit_simps)
  then show ?case using Cons.prems Cons.IH [of "k - 1"] by (cases k) auto
qed simp

lemma drop_bit_and_1: "drop_bit k (x :: 'a::len word) AND 1 \<noteq> 0 \<longleftrightarrow> bit x k"
  by (simp add: bit_iff_odd_drop_bit and_one_eq odd_iff_mod_2_eq_one)

lemma length_tok_bytes: "0 < length (tok_bytes t)"
  by (cases t) auto

lemma zip_group_eq:
  assumes "lz_valid out h" and "g = f @ h" and "length g \<le> 8" and "rest = [] \<or> length g = 8"
    and "length (lz_expand out h) \<le> length dst" and "length dst < 2 ^ 63" and "length (pre @ toks_bytes h @ rest) < 2 ^ 63"
  shows "zip_group (pre @ toks_bytes h @ rest) (of_nat (length (pre @ toks_bytes h @ rest))) (of_nat (length dst)) (ctl_byte g)
      (length f) (of_nat (length pre)) (of_nat (length out)) (onto dst out) =
    Some (True, of_nat (length (pre @ toks_bytes h)), of_nat (length (lz_expand out h)), onto dst (lz_expand out h))"
  using assms
proof (induction h arbitrary: f pre out)
  case Nil
  then show ?case by (subst zip_group.simps) auto
next
  case (Cons t h)
  let ?src = "pre @ toks_bytes (t # h) @ rest"
  have k: "length f < 8" using Cons.prems(2,3) by simp
  have "of_nat (length pre) < (of_nat (length ?src) :: u64)"
    using Cons.prems(7) length_tok_bytes [of t] by (simp only: word_less_nat_alt, subst (1 2) unat_of_nat_u64) simp_all
  moreover have "(drop_bit (length f) (ctl_byte g) AND 1 \<noteq> 0) = is_lit t"
    using k Cons.prems(2) by (simp only: drop_bit_and_1 bit_ctl_byte) simp
  moreover have "zip_token ?src (of_nat (length ?src)) (of_nat (length dst)) (is_lit t) (of_nat (length pre)) (of_nat (length out)) (onto dst out) =
      Some (True, of_nat (length (pre @ tok_bytes t)), of_nat (length (lz_step out t)), onto dst (lz_step out t))"
    using zip_token_eq [of out t dst pre "toks_bytes h @ rest"] Cons.prems length_lz_expand [of "lz_step out t" h] by simp
  moreover have "zip_group ?src (of_nat (length ?src)) (of_nat (length dst)) (ctl_byte g) (Suc (length f))
      (of_nat (length (pre @ tok_bytes t))) (of_nat (length (lz_step out t))) (onto dst (lz_step out t)) =
      Some (True, of_nat (length (pre @ toks_bytes (t # h))), of_nat (length (lz_expand out (t # h))), onto dst (lz_expand out (t # h)))"
    using Cons.IH [of "lz_step out t" "f @ [t]" "pre @ tok_bytes t"] Cons.prems by simp
  ultimately show ?case using k by (subst zip_group.simps) (simp del: toks_bytes_simps)
qed

lemma zip_decode_eq:
  assumes "lz_valid out ts" and "length (lz_expand out ts) \<le> length dst" and "length dst < 2 ^ 63"
    and "length (pre @ zip_stream ts) < 2 ^ 63"
  shows "zip_decode (pre @ zip_stream ts) (of_nat (length (pre @ zip_stream ts))) (of_nat (length dst)) (of_nat (length pre)) (of_nat (length out)) (onto dst out) =
    Some (True, of_nat (length (lz_expand out ts)), onto dst (lz_expand out ts))"
  using assms
proof (induction ts arbitrary: pre out rule: zip_stream.induct)
  case (1 ts)
  show ?case
  proof (cases "ts = []")
    case True
    then show ?thesis by (simp add: zip_decode.simps)
  next
    case False
    define g h where "g = take 8 ts" and "h = drop 8 ts"
    have ts: "ts = g @ h" by (simp add: g_def h_def)
    have st: "zip_stream ts = ctl_byte g # toks_bytes g @ zip_stream h"
      using False by (subst zip_stream.simps) (simp add: zip_group_bytes_def g_def h_def)
    have v: "lz_valid out g" "lz_valid (lz_expand out g) h" using "1.prems"(1) by (simp_all add: ts lz_valid_append)
    have last: "zip_stream h = [] \<or> length g = 8" by (cases "length ts \<le> 8") (simp_all add: g_def h_def)
    have room: "length (lz_expand out g) \<le> length dst" using "1.prems"(2) length_lz_expand [of "lz_expand out g" h] by (simp add: ts)
    let ?src = "pre @ zip_stream ts" and ?n = "of_nat (length (pre @ zip_stream ts)) :: u64"
    have split: "?src = (pre @ [ctl_byte g]) @ toks_bytes g @ zip_stream h" by (simp add: st)
    have "zip_group ?src ?n (of_nat (length dst)) (ctl_byte g) 0 (of_nat (length (pre @ [ctl_byte g]))) (of_nat (length out)) (onto dst out) =
        Some (True, of_nat (length ((pre @ [ctl_byte g]) @ toks_bytes g)), of_nat (length (lz_expand out g)), onto dst (lz_expand out g))"
      unfolding split using zip_group_eq [OF v(1) _ _ last room "1.prems"(3), where f = "[]" and pre = "pre @ [ctl_byte g]"] "1.prems"(4)
      unfolding split by (simp add: g_def)
    moreover have "zip_decode ?src ?n (of_nat (length dst)) (of_nat (length ((pre @ [ctl_byte g]) @ toks_bytes g)))
        (of_nat (length (lz_expand out g))) (onto dst (lz_expand out g)) = Some (True, of_nat (length (lz_expand out ts)), onto dst (lz_expand out ts))"
      using "1.IH" [OF False, of "lz_expand out g" "(pre @ [ctl_byte g]) @ toks_bytes g"] v(2) "1.prems"
      unfolding h_def [symmetric] split by (simp add: ts)
    moreover have "of_nat (length pre) < ?n" "unat (of_nat (length pre) :: u64) = length pre"
      using "1.prems"(4) st by (simp_all only: word_less_nat_alt, subst (1 2) unat_of_nat_u64) (simp_all add: unat_of_nat_u64)
    moreover have "c_rd ?src (length pre) = Some (ctl_byte g)" by (simp add: st)
    ultimately show ?thesis by (subst zip_decode.simps) (simp add: add.commute)
  qed
qed

section \<open>The writer produces the stream\<close>

lemma zip_stream_append: "8 dvd length us \<Longrightarrow> zip_stream (us @ g) = zip_stream us @ zip_stream g"
proof (induction us rule: zip_stream.induct)
  case (1 us)
  show ?case
  proof (cases "us = []")
    case False
    then have 8: "8 \<le> length us" using "1.prems" by (intro dvd_imp_le) auto
    then have "zip_stream (us @ g) = zip_group_bytes (take 8 us) @ zip_stream (drop 8 us @ g)"
      using False by (subst zip_stream.simps) simp
    also have "\<dots> = zip_group_bytes (take 8 us) @ zip_stream (drop 8 us) @ zip_stream g"
      using "1.IH" [OF False] "1.prems" by (simp add: dvd_diff_nat)
    finally show ?thesis using False by (subst (2) zip_stream.simps) simp
  qed simp
qed

lemma zip_stream_one: "g \<noteq> [] \<Longrightarrow> length g \<le> 8 \<Longrightarrow> zip_stream g = zip_group_bytes g"
  by (subst zip_stream.simps) simp

lemma ctl_byte_snoc: "length g < 8 \<Longrightarrow> ctl_byte (g @ [t]) = ctl_byte g OR (if is_lit t then push_bit (length g) 1 else 0)"
  by (rule bit_word_eqI) (auto simp: bit_ctl_byte bit_simps nth_append less_Suc_eq)

lemma length_zip_group_bytes: "length (zip_group_bytes g) = Suc (length (toks_bytes g))"
  by (simp add: zip_group_bytes_def)

text \<open>The writer inside a group: \<open>us\<close> are the tokens of the complete groups, \<open>g\<close> those of the open one.\<close>

definition w_open :: "u8 list \<Rightarrow> ow_zip_writer_t \<Rightarrow> token list \<Rightarrow> token list \<Rightarrow> bool" where
  "w_open d w us g \<longleftrightarrow>
     (let s = zip_stream us @ zip_group_bytes g in
      8 dvd length us \<and> length g < 8 \<and> \<not> w_overflow w \<and> w_cap w = of_nat (length d) \<and> length s \<le> length d \<and>
      w_out w = onto d s \<and> w_len w = of_nat (length s) \<and> w_flag_index w = of_nat (length (zip_stream us)) \<and>
      w_nflags w = of_nat (length g))"

text \<open>The writer between two tokens.\<close>

definition w_holds :: "u8 list \<Rightarrow> ow_zip_writer_t \<Rightarrow> token list \<Rightarrow> bool" where
  "w_holds d w ts \<longleftrightarrow>
     (8 dvd length ts \<and> \<not> w_overflow w \<and> w_cap w = of_nat (length d) \<and> length (zip_stream ts) \<le> length d \<and>
      w_out w = onto d (zip_stream ts) \<and> w_len w = of_nat (length (zip_stream ts)) \<and> w_nflags w = 0) \<or>
     (\<exists>us g. ts = us @ g \<and> g \<noteq> [] \<and> w_open d w us g)"

lemma w_holds_stream:
  assumes "w_holds d w ts"
  shows "\<not> w_overflow w" and "length (zip_stream ts) \<le> length d" and "w_out w = onto d (zip_stream ts)"
    and "w_len w = of_nat (length (zip_stream ts))"
proof -
  have "\<not> w_overflow w \<and> length (zip_stream ts) \<le> length d \<and> w_out w = onto d (zip_stream ts) \<and> w_len w = of_nat (length (zip_stream ts))"
    using assms unfolding w_holds_def
  proof (elim disjE exE conjE)
    fix us g assume "ts = us @ g" "g \<noteq> []" and o: "w_open d w us g"
    then have "zip_stream ts = zip_stream us @ zip_group_bytes g" by (simp add: w_open_def zip_stream_append zip_stream_one Let_def)
    then show ?thesis using o by (simp add: w_open_def Let_def)
  qed simp
  then show "\<not> w_overflow w" "length (zip_stream ts) \<le> length d" "w_out w = onto d (zip_stream ts)" "w_len w = of_nat (length (zip_stream ts))"
    by blast+
qed

lemma zip_put_eq:
  assumes "w_out w = onto d s" and "w_len w = of_nat (length s)" and "length s < length d" and "length d < 2 ^ 63"
  shows "zip_put w b = Some (w\<lparr>w_out := onto d (s @ [b]), w_len := of_nat (length (s @ [b]))\<rparr>)"
  using assms by (simp add: zip_put_def unat_of_nat_u64 length_onto onto_snoc add.commute)

lemma zip_control_eq:
  assumes "w_holds d w ts" and "length d < 2 ^ 63"
  obtains (full) "zip_control w = Some (w\<lparr>w_overflow := True\<rparr>)" and "length (zip_stream ts) = length d" and "8 dvd length ts"
    | (opened) us g w' where "ts = us @ g" and "zip_control w = Some w'" and "w_open d w' us g"
proof (cases "8 dvd length ts \<and> w_nflags w = 0")
  case True
  have h: "\<not> w_overflow w" "w_cap w = of_nat (length d)" "length (zip_stream ts) \<le> length d" "w_out w = onto d (zip_stream ts)"
    "w_len w = of_nat (length (zip_stream ts))"
    using assms(1) w_holds_stream [OF assms(1)] by (auto simp: w_holds_def w_open_def Let_def)
  have cmp: "w_len w \<ge> w_cap w \<longleftrightarrow> length (zip_stream ts) = length d"
    unfolding h(2,5) using h(3) assms(2) by (auto simp: word_le_nat_alt unat_of_nat_u64)
  show ?thesis
  proof (cases "length (zip_stream ts) = length d")
    case False
    then have "zip_put (w\<lparr>w_flag_index := w_len w\<rparr>) 0 =
        Some (w\<lparr>w_flag_index := w_len w, w_out := onto d (zip_stream ts @ [0]), w_len := of_nat (length (zip_stream ts @ [0]))\<rparr>)"
      using zip_put_eq [of "w\<lparr>w_flag_index := w_len w\<rparr>" d "zip_stream ts" 0] h assms(2) by simp
    moreover have "w_open d (w\<lparr>w_flag_index := w_len w, w_out := onto d (zip_stream ts @ [0]), w_len := of_nat (length (zip_stream ts @ [0]))\<rparr>) ts []"
      using h False True by (simp add: w_open_def Let_def zip_group_bytes_def)
    ultimately show ?thesis using opened [of ts "[]"] cmp False True by (simp add: zip_control_def)
  qed (use full cmp True in \<open>simp add: zip_control_def\<close>)
next
  case False
  then obtain us g where g: "ts = us @ g" "g \<noteq> []" "w_open d w us g" using assms(1) by (auto simp: w_holds_def)
  have "w_nflags w = of_nat (length g)" "0 < length g" "length g < 8" using g(2,3) by (simp_all add: w_open_def Let_def)
  then have "w_nflags w \<noteq> 0" using unat_of_nat_u32 [of "length g"] by (auto simp: word_unat_eq_iff)
  then show ?thesis using opened [OF g(1) _ g(3)] by (simp add: zip_control_def)
qed

primrec tok_word :: "token \<Rightarrow> u16" where
  "tok_word (Lit b) = ucast b"
| "tok_word (Back d l) = back_word d l"

lemma nflags_step: "(of_nat k + 1) AND 7 = (of_nat (Suc k mod 8) :: u32)"
proof -
  have "(of_nat k + 1) AND 7 = take_bit 3 (of_nat (Suc k) :: u32)"
    by (simp add: take_bit_eq_mask mask_eq_exp_minus_1 add.commute)
  also have "\<dots> = of_nat (take_bit 3 (Suc k))" by (simp only: take_bit_of_nat)
  finally show ?thesis by (simp only: take_bit_eq_mod) simp
qed

text \<open>A token completes the group, or leaves it open.\<close>

lemma w_holds_next:
  assumes "8 dvd length us" and "length g < 8" and "w_cap w = of_nat (length d)" and "\<not> w_overflow w"
    and "w_flag_index w = of_nat (length (zip_stream us))" and "w_nflags w = (of_nat (length g) + 1) AND 7"
    and "w_out w = onto d (zip_stream (us @ g @ [t]))" and "w_len w = of_nat (length (zip_stream (us @ g @ [t])))"
    and "length (zip_stream (us @ g @ [t])) \<le> length d"
  shows "w_holds d w (us @ g @ [t])"
proof (cases "length g = 7")
  case True
  then have "w_nflags w = 0" "8 dvd length (us @ g @ [t])" using assms(1,6) by (simp_all add: nflags_step)
  then show ?thesis using assms unfolding w_holds_def by simp
next
  case False
  then have g: "Suc (length g) < 8" using assms(2) by simp
  have st: "zip_stream (us @ g @ [t]) = zip_stream us @ zip_group_bytes (g @ [t])"
    using assms(1,2) by (simp add: zip_stream_append zip_stream_one)
  have "w_nflags w = of_nat (Suc (length g))" using assms(6) g by (simp only: nflags_step) simp
  then have "w_open d w us (g @ [t])" using assms g unfolding w_open_def Let_def st [symmetric] by simp
  then show ?thesis unfolding w_holds_def by blast
qed

lemma push_bit_1_ucast: "(ucast (push_bit k (1 :: u32)) :: u8) = push_bit k 1"
  by (rule bit_word_eqI) (auto simp: bit_simps)

lemma w_openD:
  assumes "w_open d w us g"
  shows "8 dvd length us" "length g < 8" "\<not> w_overflow w" "w_cap w = of_nat (length d)"
    "length (zip_stream us @ zip_group_bytes g) \<le> length d" "w_out w = onto d (zip_stream us @ zip_group_bytes g)"
    "w_len w = of_nat (length (zip_stream us @ zip_group_bytes g))" "w_flag_index w = of_nat (length (zip_stream us))"
    "w_nflags w = of_nat (length g)"
  using assms by (simp_all add: w_open_def Let_def)

lemma zip_stream_open:
  assumes "w_open d w us g"
  shows "zip_stream (us @ g @ [t]) = zip_stream us @ ctl_byte (g @ [t]) # toks_bytes g @ tok_bytes t"
  using w_openD(1,2) [OF assms] by (simp add: zip_stream_append zip_stream_one zip_group_bytes_def)

lemma writer_lit_open:
  assumes "w_open d w us g" and "length d < 2 ^ 63" and "length (zip_stream us @ zip_group_bytes g) < length d"
  shows "\<exists>f out w'. c_rd (w_out w) (unat (w_flag_index w)) = Some f \<and>
     c_wr (w_out w) (unat (w_flag_index w)) (f OR ucast (push_bit (unat (w_nflags w)) (1 :: u32))) = Some out \<and>
     zip_put (w\<lparr>w_out := out\<rparr>) b = Some w' \<and> w_holds d (w'\<lparr>w_nflags := (w_nflags w' + 1) AND 7\<rparr>) (us @ g @ [Lit b])"
proof -
  note o = w_openD [OF assms(1)] zip_stream_open [OF assms(1), of "Lit b"]
  define s1 where "s1 = zip_stream us @ ctl_byte (g @ [Lit b]) # toks_bytes g"
  have s: "zip_stream us @ zip_group_bytes g = zip_stream us @ ctl_byte g # toks_bytes g" by (simp add: zip_group_bytes_def)
  have i: "unat (w_flag_index w) = length (zip_stream us)" "unat (w_nflags w) = length g"
    using assms(2,3) o(2,8,9) by (simp_all add: unat_of_nat_u64 unat_of_nat_u32)
  have "ctl_byte g OR ucast (push_bit (unat (w_nflags w)) (1 :: u32)) = ctl_byte (g @ [Lit b])"
    unfolding i push_bit_1_ucast using o(2) by (simp add: ctl_byte_snoc)
  then have wr: "c_wr (w_out w) (unat (w_flag_index w)) (ctl_byte g OR ucast (push_bit (unat (w_nflags w)) (1 :: u32))) = Some (onto d s1)"
    unfolding o(6) i(1) by (simp add: s s1_def onto_def)
  have rd: "c_rd (w_out w) (unat (w_flag_index w)) = Some (ctl_byte g)" unfolding o(6) i(1) by (simp add: s onto_def)
  let ?w = "w\<lparr>w_out := onto d s1\<rparr>"
  have put: "zip_put ?w b = Some (?w\<lparr>w_out := onto d (s1 @ [b]), w_len := of_nat (length (s1 @ [b]))\<rparr>)"
    using assms(2,3) o(7) by (intro zip_put_eq) (simp_all add: s1_def zip_group_bytes_def)
  have "zip_stream (us @ g @ [Lit b]) = s1 @ [b]" unfolding o(10) by (simp add: s1_def)
  then have "w_holds d (?w\<lparr>w_out := onto d (s1 @ [b]), w_len := of_nat (length (s1 @ [b])), w_nflags := (w_nflags w + 1) AND 7\<rparr>) (us @ g @ [Lit b])"
    using o(1-4,8,9) assms(3) by (intro w_holds_next) (simp_all add: s1_def zip_group_bytes_def)
  then show ?thesis using wr rd put by (intro exI [of _ "ctl_byte g"] exI [of _ "onto d s1"]) simp
qed

lemma writer_back_open:
  assumes "w_open d w us g" and "length d < 2 ^ 63" and "length (zip_stream us @ zip_group_bytes g) + 2 \<le> length d"
  shows "\<exists>w1 w2. zip_put w (ucast (back_word e l)) = Some w1 \<and> zip_put w1 (ucast (drop_bit 8 (back_word e l))) = Some w2 \<and>
     w_holds d (w2\<lparr>w_nflags := (w_nflags w2 + 1) AND 7\<rparr>) (us @ g @ [Back e l])"
proof -
  note o = w_openD [OF assms(1)] zip_stream_open [OF assms(1), of "Back e l"]
  define s x y where "s = zip_stream us @ zip_group_bytes g" and "x = (ucast (back_word e l) :: u8)"
    and "y = (ucast (drop_bit 8 (back_word e l)) :: u8)"
  let ?w1 = "w\<lparr>w_out := onto d (s @ [x]), w_len := of_nat (length (s @ [x]))\<rparr>"
  let ?w2 = "?w1\<lparr>w_out := onto d ((s @ [x]) @ [y]), w_len := of_nat (length ((s @ [x]) @ [y]))\<rparr>"
  have 1: "zip_put w x = Some ?w1" using assms(2,3) o(6,7) by (intro zip_put_eq) (simp_all add: s_def)
  have 2: "zip_put ?w1 y = Some ?w2" using assms(2,3) by (intro zip_put_eq) (simp_all add: s_def)
  have "ctl_byte (g @ [Back e l]) = ctl_byte g" using o(2) by (simp add: ctl_byte_snoc)
  then have "zip_stream (us @ g @ [Back e l]) = (s @ [x]) @ [y]"
    unfolding o(10) by (simp add: s_def x_def y_def le_bytes_2 zip_group_bytes_def)
  then have "w_holds d (?w2\<lparr>w_nflags := (w_nflags w + 1) AND 7\<rparr>) (us @ g @ [Back e l])"
    using o(1-4,8,9) assms(3) by (intro w_holds_next) (simp_all add: s_def)
  then show ?thesis using 1 2 unfolding x_def [symmetric] y_def [symmetric] by (intro exI [of _ ?w1] exI [of _ ?w2]) simp
qed

lemma byte_through_u16: "ucast (ucast b :: u16) = (b :: u8)" "ucast ((v :: u16) AND 0xFF) = (ucast v :: u8)"
  by (simp_all only: and_255) (rule bit_word_eqI, auto simp: bit_simps)+

lemma ow_zip_writer_token_eq:
  assumes "w_holds d w ts" and "length d < 2 ^ 63"
  shows "\<exists>w'. ow_zip_writer_token w (is_lit t) (tok_word t) = Some w' \<and> length (w_out w') = length d \<and>
     (if length (zip_stream (ts @ [t])) \<le> length d then w_holds d w' (ts @ [t]) else w_overflow w')"
proof (cases rule: zip_control_eq [OF assms])
  case 1
  have "zip_stream (ts @ [t]) = zip_stream ts @ zip_group_bytes [t]" using "1"(3) by (simp add: zip_stream_append zip_stream_one)
  then have "\<not> length (zip_stream (ts @ [t])) \<le> length d" using "1"(2) by (simp add: zip_group_bytes_def)
  then show ?thesis using "1" w_holds_stream [OF assms(1)] by (simp add: ow_zip_writer_token_def length_onto)
next
  case (2 us g w0)
  note o = w_openD [OF "2"(3)] zip_stream_open [OF "2"(3), of t]
  have no: "\<not> w_overflow w" using w_holds_stream(1) [OF assms(1)] .
  have len: "length (zip_stream (ts @ [t])) = length (zip_stream us @ zip_group_bytes g) + length (tok_bytes t)"
    using o(10) "2"(1) by (simp add: zip_group_bytes_def)
  have out: "length (w_out w0) = length d" using o(5,6) by (simp add: length_onto)
  show ?thesis
  proof (cases t)
    case (Lit b)
    have cmp: "w_cap w0 \<le> w_len w0 \<longleftrightarrow> \<not> length (zip_stream (ts @ [t])) \<le> length d"
      unfolding o(4,7) len using Lit o(5) assms(2) by (simp only: word_le_nat_alt, subst (1 2) unat_of_nat_u64) auto
    show ?thesis
    proof (cases "w_cap w0 \<le> w_len w0")
      case False
      then have "length (zip_stream us @ zip_group_bytes g) < length d" using cmp len Lit by simp
      from writer_lit_open [OF "2"(3) assms(2) this, of b] obtain f out w' where
        w: "c_rd (w_out w0) (unat (w_flag_index w0)) = Some f"
          "c_wr (w_out w0) (unat (w_flag_index w0)) (f OR ucast (push_bit (unat (w_nflags w0)) (1 :: u32))) = Some out"
          "zip_put (w0\<lparr>w_out := out\<rparr>) b = Some w'"
        and h: "w_holds d (w'\<lparr>w_nflags := (w_nflags w' + 1) AND 7\<rparr>) (us @ g @ [Lit b])" by blast
      have "ow_zip_writer_token w (is_lit t) (tok_word t) = Some (w'\<lparr>w_nflags := (w_nflags w' + 1) AND 7\<rparr>)"
        using "2"(2) no o(3) False w Lit by (simp add: ow_zip_writer_token_def byte_through_u16)
      then show ?thesis using h w_holds_stream(2,3) [OF h] False cmp Lit "2"(1) by (simp add: length_onto)
    qed (use "2" no o(3) cmp Lit out in \<open>simp add: ow_zip_writer_token_def\<close>)
  next
    case (Back e l)
    have "w_len w0 + 2 = of_nat (length (zip_stream us @ zip_group_bytes g) + 2)" unfolding o(7) by simp
    then have cmp: "w_cap w0 < w_len w0 + 2 \<longleftrightarrow> \<not> length (zip_stream (ts @ [t])) \<le> length d"
      unfolding o(4) len using Back o(5) assms(2) by (simp only: word_less_nat_alt, subst (1 2) unat_of_nat_u64) auto
    show ?thesis
    proof (cases "w_cap w0 < w_len w0 + 2")
      case False
      then have "length (zip_stream us @ zip_group_bytes g) + 2 \<le> length d" using cmp len Back by simp
      from writer_back_open [OF "2"(3) assms(2) this, of e l] obtain w1 w2 where
        w: "zip_put w0 (ucast (back_word e l)) = Some w1" "zip_put w1 (ucast (drop_bit 8 (back_word e l))) = Some w2"
        and h: "w_holds d (w2\<lparr>w_nflags := (w_nflags w2 + 1) AND 7\<rparr>) (us @ g @ [Back e l])" by blast
      have "ow_zip_writer_token w (is_lit t) (tok_word t) = Some (w2\<lparr>w_nflags := (w_nflags w2 + 1) AND 7\<rparr>)"
        using "2"(2) no o(3) False w Back by (simp add: ow_zip_writer_token_def byte_through_u16)
      then show ?thesis using h w_holds_stream(2,3) [OF h] False cmp Back "2"(1) by (simp add: length_onto)
    qed (use "2" no o(3) cmp Back out in \<open>simp add: ow_zip_writer_token_def\<close>)
  qed
qed

section \<open>The match search finds matches\<close>

definition same_run :: "u8 list \<Rightarrow> nat \<Rightarrow> nat \<Rightarrow> nat \<Rightarrow> bool" where
  "same_run src j pos l \<longleftrightarrow> (\<forall>i < l. src ! (j + i) = src ! (pos + i))"

lemma same_run_Suc: "same_run src j pos (Suc l) \<longleftrightarrow> same_run src j pos l \<and> src ! (j + l) = src ! (pos + l)"
  by (auto simp: same_run_def less_Suc_eq)

lemma unat_add_small: "unat (a :: u64) + unat b < 2 ^ 64 \<Longrightarrow> unat (a + b) = unat a + unat b"
  by (simp add: unat_word_ariths)

lemma zip_match_len_ok:
  assumes "j < pos" and "unat pos + unat n \<le> length src" and "length src < 2 ^ 63" and "l \<le> n" and "same_run src (unat j) (unat pos) (unat l)"
  shows "\<exists>r. zip_match_len src n j pos l = Some r \<and> r \<le> n \<and> same_run src (unat j) (unat pos) (unat r)"
  using assms
proof (induction src n j pos l rule: zip_match_len.induct)
  case (1 src n j pos l)
  show ?case
  proof (cases "l < n")
    case True
    then have l: "unat l < unat n" by (simp add: word_less_nat_alt)
    have j: "unat j < unat pos" using "1.prems"(1) by (simp add: word_less_nat_alt)
    have at: "unat (j + l) = unat j + unat l" "unat (pos + l) = unat pos + unat l"
      using j l "1.prems"(2,3) by (simp_all add: unat_add_small)
    then have rd: "c_rd src (unat (j + l)) = Some (src ! (unat j + unat l))" "c_rd src (unat (pos + l)) = Some (src ! (unat pos + unat l))"
      using j l "1.prems"(2) by simp_all
    have s: "unat (l + 1) = Suc (unat l)" "l + 1 \<le> n" using True l by (simp_all add: unat_add1_less word_le_nat_alt)
    show ?thesis
    proof (cases "src ! (unat j + unat l) = src ! (unat pos + unat l)")
      case eq: True
      have "same_run src (unat j) (unat pos) (unat (l + 1))" using "1.prems"(5) eq by (simp add: s(1) same_run_Suc)
      with "1.IH" [OF True rd(1) rd(2) eq "1.prems"(1-3) s(2)] show ?thesis
        using rd eq True by (subst zip_match_len.simps) simp
    next
      case False
      then show ?thesis using rd True "1.prems"(4,5) by (subst zip_match_len.simps) simp
    qed
  next
    case False
    then show ?thesis using "1.prems"(4,5) by (subst zip_match_len.simps) simp
  qed
qed

definition good_match :: "u8 list \<Rightarrow> nat \<Rightarrow> u64 \<Rightarrow> u64 \<Rightarrow> u64 \<Rightarrow> bool" where
  "good_match src pos n l d \<longleftrightarrow> l \<le> n \<and>
     (0 < unat l \<longrightarrow> 1 \<le> unat d \<and> unat d \<le> 4096 \<and> unat d \<le> pos \<and> same_run src (pos - unat d) pos (unat l))"

lemma zip_search_ok:
  assumes "unat pos - unat j \<le> 4096" and "unat pos + unat n \<le> length src" and "length src < 2 ^ 63" and "good_match src (unat pos) n l d"
  shows "\<exists>l' d'. zip_search src n pos j l d = Some (l', d') \<and> good_match src (unat pos) n l' d'"
  using assms
proof (induction src n pos j l d rule: zip_search.induct)
  case (1 src n pos j l d)
  show ?case
  proof (cases "j < pos")
    case True
    then have j: "unat j < unat pos" "unat (j + 1) = Suc (unat j)" by (simp_all add: word_less_nat_alt unat_add1_less)
    obtain r where r: "zip_match_len src n j pos 0 = Some r" "r \<le> n" "same_run src (unat j) (unat pos) (unat r)"
      using zip_match_len_ok [OF True "1.prems"(2,3), of 0] by (auto simp: same_run_def)
    have "unat (pos - j) = unat pos - unat j" using True by (simp add: unat_sub_le)
    then have g: "good_match src (unat pos) n r (pos - j)" using r(2,3) j "1.prems"(1) by (simp add: good_match_def) linarith
    have d: "unat pos - unat (j + 1) \<le> 4096" using "1.prems"(1) j(2) by simp
    note step = zip_search.simps [of src n pos j l d]
    consider "r = n" "l < r" | "r \<noteq> n" "l < r" | "\<not> l < r" by blast
    then show ?thesis
    proof cases
      case 1
      then show ?thesis using True r(1) g by (simp add: step)
    next
      case 2
      then show ?thesis using "1.IH"(1) [OF True r(1) 2(2,1) d "1.prems"(2,3) g] True r(1) by (simp add: step)
    next
      case 3
      then show ?thesis using "1.IH"(2) [OF True r(1) 3 d "1.prems"(2-4)] True r(1) by (simp add: step)
    qed
  next
    case False
    then show ?thesis using "1.prems"(4) by (subst zip_search.simps) simp
  qed
qed

lemma ow_zip_find_match_ok:
  assumes "unat pos < length src" and "length src < 2 ^ 63"
  shows "\<exists>m d. ow_zip_find_match src (of_nat (length src)) pos = Some (m, d) \<and>
     (m \<ge> 3 \<and> d \<ge> 1 \<longrightarrow> unat m \<le> 18 \<and> unat pos + unat m \<le> length src \<and> unat d \<le> 4096 \<and> unat d \<le> unat pos \<and>
        same_run src (unat pos - unat d) (unat pos) (unat m))"
proof -
  let ?N = "of_nat (length src) :: u64"
  define n where "n = (if ?N - pos > 18 then 18 else ?N - pos)"
  define st where "st = (if pos > 4096 then pos - 4096 else 0)"
  have N: "unat ?N = length src" using assms(2) by (simp add: unat_of_nat_u64)
  then have "unat (?N - pos) = length src - unat pos" using assms(1) by (subst unat_sub_le) (simp_all add: word_le_nat_alt)
  then have n: "unat n \<le> 18" "unat pos + unat n \<le> length src" using assms(1) by (auto simp: n_def word_less_nat_alt)
  have "unat pos - unat st \<le> 4096" by (auto simp: st_def word_less_nat_alt unat_sub_le word_le_nat_alt)
  from zip_search_ok [OF this n(2) assms(2), of 0 0] obtain l d where
    s: "zip_search src n pos st 0 0 = Some (l, d)" "good_match src (unat pos) n l d" by (auto simp: good_match_def)
  have l: "unat l \<le> unat n" using s(2) by (simp add: good_match_def word_le_nat_alt)
  then have ul: "unat (ucast l :: u32) = unat l" using n(1) by (simp add: unat_ucast_down)
  have f: "ow_zip_find_match src ?N pos = Some (if pos < 1 \<or> pos \<ge> ?N \<or> n < 3 \<or> l < 3 then (0, 0) else (ucast l, d))"
    unfolding ow_zip_find_match_def Let_def n_def [symmetric] st_def [symmetric] s(1) by auto
  show ?thesis unfolding f using s(2) l n ul by (auto simp: good_match_def word_le_nat_alt word_less_nat_alt)
qed

section \<open>The encoder\<close>

lemma lz_copy_same_run:
  assumes "1 \<le> d" and "d \<le> pos" and "pos + l \<le> length src" and "same_run src (pos - d) pos l"
  shows "lz_copy d l (take pos src) = take (pos + l) src"
  using assms(3,4)
proof (induction l)
  case (Suc l)
  have "pos + l - d = pos - d + l" using assms(2) by simp
  then have "take (pos + l) src ! (pos + l - d) = src ! (pos + l)"
    using Suc.prems assms(1,2) by (simp add: same_run_Suc)
  then show ?case using Suc by (simp add: same_run_Suc Let_def take_Suc_conv_app_nth)
qed simp

lemma match_word:
  assumes "1 \<le> unat (d :: u64)" and "unat d \<le> 4096" and "3 \<le> unat (m :: u32)" and "unat m \<le> 18"
  shows "ucast (((d - 1) AND 0x0FFF) OR push_bit 12 (ucast (m - 3))) = back_word (unat d) (unat m)"
proof -
  have d: "unat (d - 1) = unat d - 1" using assms(1) by (subst unat_sub_le) (simp_all add: word_le_nat_alt)
  have m: "unat (m - 3) = unat m - 3" using assms(3) by (subst unat_sub_le) (simp_all add: word_le_nat_alt)
  have "(d - 1) AND 0x0FFF = take_bit 12 (d - 1)" by (simp add: take_bit_eq_mask mask_eq_exp_minus_1)
  moreover have "take_bit 12 (d - 1) = d - 1" by (rule small_take_bit) (use assms(1,2) d in simp)
  moreover have "(d - 1) OR push_bit 12 (ucast (m - 3)) = (d - 1) + push_bit 12 (ucast (m - 3))"
    by (rule or_push_bit_add) (use assms(1,2) d in simp)
  ultimately have "((d - 1) AND 0x0FFF) OR push_bit 12 (ucast (m - 3)) = (d - 1) + push_bit 12 (ucast (m - 3))" by simp
  also have "\<dots> = of_nat (unat d - 1 + 4096 * (unat m - 3))"
  proof (rule of_unat_u64)
    have "unat (push_bit 12 (ucast (m - 3)) :: u64) = 4096 * (unat m - 3)"
      using m assms(4) by (simp add: push_bit_eq_mult unat_word_ariths unat_ucast_up)
    then show "unat (d - 1 + push_bit 12 (ucast (m - 3))) = unat d - 1 + 4096 * (unat m - 3)"
      using assms(2,4) d by (subst unat_add_small) simp_all
  qed (use assms(2,4) in simp)
  finally show ?thesis
    using assms(2,4) by (simp only: back_word_def unsigned_of_nat) (simp add: take_bit_nat_eq_self del: of_nat_add)
qed

text \<open>A stream is at most one eighth longer than its expansion.\<close>

definition zip_bound :: "nat \<Rightarrow> nat" where
  "zip_bound n = n + (n + 7) div 8"

lemma zip_bound_mono: "m \<le> n \<Longrightarrow> zip_bound m \<le> zip_bound n"
  by (simp add: zip_bound_def add_le_mono div_le_mono)

lemma length_zip_stream: "length (zip_stream ts) = length (toks_bytes ts) + (length ts + 7) div 8"
proof (induction ts rule: zip_stream.induct)
  case (1 ts)
  show ?case
  proof (cases "ts = []")
    case False
    have "toks_bytes ts = toks_bytes (take 8 ts) @ toks_bytes (drop 8 ts)"
      by (simp only: toks_bytes_simps(3) [symmetric] append_take_drop_id)
    moreover have "length (zip_stream ts) = Suc (length (toks_bytes (take 8 ts))) + length (zip_stream (drop 8 ts))"
      using False by (subst zip_stream.simps) (simp add: length_zip_group_bytes)
    moreover have "(n + 7) div 8 = Suc ((n - 8 + 7) div 8)" if "0 < n" for n :: nat
      using that by (cases "n \<le> 8") (auto simp: div_add_self2 [symmetric] intro: div_nat_eqI)
    ultimately show ?thesis using "1.IH" [OF False] False by simp
  qed simp
qed

lemma toks_short: "lz_valid out ts \<Longrightarrow> length out + length (toks_bytes ts) \<le> length (lz_expand out ts) \<and> length out + length ts \<le> length (lz_expand out ts)"
proof (induction out ts rule: lz_valid.induct)
  case (2 out t ts)
  then have "length out + length (tok_bytes t) \<le> length (lz_step out t) \<and> Suc (length out) \<le> length (lz_step out t)" by (cases t) auto
  then show ?case using 2 by auto
qed simp

lemma length_zip_stream_bound: "lz_valid [] ts \<Longrightarrow> length (zip_stream ts) \<le> zip_bound (length (lz_expand [] ts))"
  using toks_short [of "[]" ts] unfolding length_zip_stream zip_bound_def by (intro add_le_mono div_le_mono) auto

lemma zip_token_step:
  assumes "unat pos < length src" and "length src < 2 ^ 63"
  shows "\<exists>m dist t. ow_zip_find_match src (of_nat (length src)) pos = Some (m, dist) \<and>
     tok_ok (take (unat pos) src) t \<and> lz_step (take (unat pos) src) t = take (length (lz_step (take (unat pos) src) t)) src \<and>
     unat pos < length (lz_step (take (unat pos) src) t) \<and> length (lz_step (take (unat pos) src) t) \<le> length src \<and>
     (if m \<ge> 3 \<and> dist \<ge> 1
      then \<not> is_lit t \<and> tok_word t = ucast (((dist - 1) AND 0x0FFF) OR push_bit 12 (ucast (m - 3))) \<and>
        pos + ucast m = of_nat (length (lz_step (take (unat pos) src) t))
      else is_lit t \<and> tok_word t = ucast (src ! unat pos) \<and> pos + 1 = of_nat (length (lz_step (take (unat pos) src) t)))"
proof -
  obtain m d where f: "ow_zip_find_match src (of_nat (length src)) pos = Some (m, d)"
    and ok: "m \<ge> 3 \<and> d \<ge> 1 \<Longrightarrow> unat m \<le> 18 \<and> unat pos + unat m \<le> length src \<and> unat d \<le> 4096 \<and> unat d \<le> unat pos \<and>
        same_run src (unat pos - unat d) (unat pos) (unat m)"
    using ow_zip_find_match_ok [OF assms] by blast
  show ?thesis
  proof (cases "m \<ge> 3 \<and> d \<ge> 1")
    case True
    then have md: "3 \<le> unat m" "1 \<le> unat d" "m \<noteq> 0" by (auto simp: word_le_nat_alt)
    note ok = ok [OF True]
    let ?t = "Back (unat d) (unat m)"
    have st: "lz_step (take (unat pos) src) ?t = take (unat pos + unat m) src" using lz_copy_same_run [of "unat d" "unat pos" "unat m" src] ok md by simp
    have "unat (pos + ucast m) = unat pos + unat m" using ok assms(2) by (subst unat_add_small) (simp_all add: unat_ucast_up)
    then have "pos + ucast m = of_nat (unat pos + unat m)" using ok assms(2) by (intro of_unat_u64) simp_all
    then show ?thesis using f True ok md assms(1) match_word [of d m] st
      by (intro exI [of _ m] exI [of _ d] exI [of _ ?t]) (simp del: lz_step.simps of_nat_add)
  next
    case False
    let ?t = "Lit (src ! unat pos)"
    have st: "lz_step (take (unat pos) src) ?t = take (Suc (unat pos)) src" using assms(1) by (simp add: take_Suc_conv_app_nth)
    have "unat (pos + 1) = Suc (unat pos)" using assms by (intro unat_add1) simp
    then have "pos + 1 = of_nat (Suc (unat pos))" using assms by (intro of_unat_u64) simp_all
    then show ?thesis using f False assms(1) st
      by (intro exI [of _ m] exI [of _ d] exI [of _ ?t]) (simp del: lz_step.simps of_nat_Suc)
  qed
qed

lemma zip_encode_ok:
  assumes "w_holds d w ts" and "length d < 2 ^ 63" and "length src < 2 ^ 63" and "lz_valid [] ts" and "lz_expand [] ts = take (unat pos) src"
    and "unat pos \<le> length src"
  shows "\<exists>w'. zip_encode src (of_nat (length src)) pos w = Some w' \<and>
     (w_overflow w' \<and> length (w_out w') = length d \<and> length d < zip_bound (length src) \<or>
      (\<exists>us. w_holds d w' us \<and> lz_valid [] us \<and> lz_expand [] us = src))"
  using assms
proof (induction "length src - unat pos" arbitrary: pos w ts rule: less_induct)
  case less
  show ?case
  proof (cases "unat pos < length src")
    case True
    let ?N = "of_nat (length src) :: u64" and ?out = "take (unat pos) src"
    have lt: "pos < ?N" using True less.prems(3) by (simp add: word_less_nat_alt unat_of_nat_u64)
    obtain m dist t where t: "ow_zip_find_match src ?N pos = Some (m, dist)" "tok_ok ?out t"
      "lz_step ?out t = take (length (lz_step ?out t)) src" "unat pos < length (lz_step ?out t)" "length (lz_step ?out t) \<le> length src"
      and c: "if m \<ge> 3 \<and> dist \<ge> 1
        then \<not> is_lit t \<and> tok_word t = ucast (((dist - 1) AND 0x0FFF) OR push_bit 12 (ucast (m - 3))) \<and> pos + ucast m = of_nat (length (lz_step ?out t))
        else is_lit t \<and> tok_word t = ucast (src ! unat pos) \<and> pos + 1 = of_nat (length (lz_step ?out t))"
      using zip_token_step [OF True less.prems(3)] by blast
    define q where "q = (of_nat (length (lz_step ?out t)) :: u64)"
    have q: "unat q = length (lz_step ?out t)" using t(5) less.prems(3) by (simp add: q_def unat_of_nat_u64)
    obtain w1 where w1: "ow_zip_writer_token w (is_lit t) (tok_word t) = Some w1" "length (w_out w1) = length d"
      "if length (zip_stream (ts @ [t])) \<le> length d then w_holds d w1 (ts @ [t]) else w_overflow w1"
      using ow_zip_writer_token_eq [OF less.prems(1,2)] by blast
    have step: "zip_encode src ?N pos w = (if w_overflow w1 then Some w1 else zip_encode src ?N q w1)"
      using lt t(1) c w1(1) True by (subst zip_encode.simps) (auto simp: q_def split: if_splits)
    have v: "lz_valid [] (ts @ [t])" "lz_expand [] (ts @ [t]) = take (unat q) src"
      using less.prems(4,5) t(2,3) by (simp_all add: lz_valid_append q)
    show ?thesis
    proof (cases "length (zip_stream (ts @ [t])) \<le> length d")
      case fit: True
      then have h: "w_holds d w1 (ts @ [t])" using w1(3) by simp
      have "length src - unat q < length src - unat pos" using t(4) True by (simp add: q)
      from less.hyps [OF this h less.prems(2,3) v] t(5) show ?thesis
        using step w_holds_stream(1) [OF h] by (simp add: q)
    next
      case False
      have "length (zip_stream (ts @ [t])) \<le> zip_bound (length src)"
        using length_zip_stream_bound [OF v(1)] zip_bound_mono [of "unat q" "length src"] t(5) unfolding v(2) by (simp add: q)
      then show ?thesis using step False w1(2,3) by simp
    qed
  next
    case False
    then have "\<not> pos < of_nat (length src)" using less.prems(3) by (simp add: word_less_nat_alt unat_of_nat_u64)
    then show ?thesis using False less.prems by (subst zip_encode.simps) auto
  qed
qed

section \<open>Arbitrary input to the decoder\<close>

definition dec_ok :: "u8 list \<Rightarrow> u8 list \<Rightarrow> u64 \<Rightarrow> u8 list \<Rightarrow> bool" where
  "dec_ok src dst op d \<longleftrightarrow> length d = length dst \<and> unat op \<le> length dst \<and> length dst < 2 ^ 63 \<and> length src < 2 ^ 63"

lemma zip_copy_safe:
  assumes "dec_ok src dst op d" and "1 \<le> unat off" and "off \<le> op" and "unat op + unat len \<le> length dst"
  shows "\<exists>op' d'. zip_copy off len op d = Some (op', d') \<and> dec_ok src dst op' d'"
proof -
  let ?out = "take (unat op) d"
  have d: "length d = length dst" "length d < 2 ^ 63" using assms(1) by (simp_all add: dec_ok_def)
  have out: "length ?out = unat op" "onto d ?out = d" using assms(4) d(1) by (simp_all add: onto_def)
  have "zip_copy (of_nat (unat off)) (of_nat (unat len)) (of_nat (length ?out)) (onto d ?out) =
      Some (of_nat (length ?out + unat len), onto d (lz_copy (unat off) (unat len) ?out))"
    using assms(2-4) d by (intro zip_copy_eq) (simp_all add: out word_le_nat_alt)
  then have "zip_copy off len op d = Some (of_nat (unat op + unat len), onto d (lz_copy (unat off) (unat len) ?out))"
    unfolding out by simp
  moreover have "dec_ok src dst (of_nat (unat op + unat len)) (onto d (lz_copy (unat off) (unat len) ?out))"
    using assms(1,4) d out by (simp add: dec_ok_def length_onto unat_of_nat_u64 del: of_nat_add)
  ultimately show ?thesis by blast
qed

lemma zip_token_safe:
  assumes "dec_ok src dst op d" and "unat ip < length src"
  shows "\<exists>ok ip' op' d'. zip_token src (of_nat (length src)) (of_nat (length dst)) lit ip op d = Some (ok, ip', op', d') \<and>
     dec_ok src dst op' d' \<and> (ok \<longrightarrow> unat ip < unat ip' \<and> unat ip' \<le> length src)"
proof -
  have s: "length d = length dst" "unat op \<le> length dst" "length dst < 2 ^ 63" "length src < 2 ^ 63"
    using assms(1) by (simp_all add: dec_ok_def)
  have N: "unat (of_nat (length src) :: u64) = length src" "unat (of_nat (length dst) :: u64) = length dst"
    using s by (simp_all add: unat_of_nat_u64)
  have ip: "unat (ip + 1) = unat ip + 1" "unat (ip + 2) = unat ip + 2" using assms(2) s(4) by (simp_all add: unat_add_small)
  show ?thesis
  proof (cases lit)
    case True
    show ?thesis
    proof (cases "op \<ge> of_nat (length dst)")
      case False
      then have op: "unat op < length dst" by (simp add: word_le_nat_alt N)
      then have "unat (op + 1) = unat op + 1" using s(3) by (simp add: unat_add_small)
      then have "dec_ok src dst (op + 1) (d[unat op := src ! unat ip])" using s op by (simp add: dec_ok_def)
      then show ?thesis using True False op assms(2) s(1) ip by (intro exI [of _ True]) (simp add: zip_token_def)
    qed (use True assms(1) in \<open>auto simp: zip_token_def\<close>)
  next
    case False
    show ?thesis
    proof (cases "ip + 2 > of_nat (length src)")
      case nomore: False
      then have r: "unat ip + 2 \<le> length src" by (simp add: word_less_nat_alt N ip)
      define v where "v = ((ucast (src ! unat ip) :: u16) OR push_bit 8 (ucast (src ! (unat ip + 1))))"
      define off where "off = (ucast (v AND 0x0FFF) :: u64) + 1"
      define len where "len = (ucast (drop_bit 12 v AND 0x0F) :: u64) + 3"
      have "unat (v AND 0x0FFF) < 2 ^ LENGTH(16)" "unat (drop_bit 12 v AND 0x0F) < 2 ^ LENGTH(16)" by (rule unsigned_less)+
      then have b: "unat off = unat (v AND 0x0FFF) + 1" "unat len = unat (drop_bit 12 v AND 0x0F) + 3" "unat len < 2 ^ 17"
        unfolding off_def len_def by (simp_all add: unat_add_small unat_ucast_up)
      have step: "zip_token src (of_nat (length src)) (of_nat (length dst)) lit ip op d =
          (if off > op \<or> op + len > of_nat (length dst) then Some (False, ip + 2, op, d)
           else do { (op, d) \<leftarrow> zip_copy off len op d; Some (True, ip + 2, op, d) })"
        using False nomore r by (simp add: zip_token_def ip Let_def v_def off_def len_def)
      show ?thesis
      proof (cases "off > op \<or> op + len > of_nat (length dst)")
        case go: False
        have "unat (op + len) = unat op + unat len" using s(2,3) b(3) by (intro unat_add_small) simp
        then have "unat op + unat len \<le> length dst" "off \<le> op" "1 \<le> unat off"
          using go b(1) by (simp_all add: word_less_nat_alt word_le_nat_alt N)
        then obtain op' d' where "zip_copy off len op d = Some (op', d')" "dec_ok src dst op' d'"
          using zip_copy_safe [OF assms(1)] by blast
        then show ?thesis unfolding step using go r ip by (intro exI [of _ True]) simp
      qed (use assms(1) in \<open>auto simp: step\<close>)
    qed (use False assms(1) in \<open>auto simp: zip_token_def\<close>)
  qed
qed

lemma zip_group_safe:
  assumes "dec_ok src dst op d" and "unat ip \<le> length src"
  shows "\<exists>ok ip' op' d'. zip_group src (of_nat (length src)) (of_nat (length dst)) flags k ip op d = Some (ok, ip', op', d') \<and>
     dec_ok src dst op' d' \<and> (ok \<longrightarrow> unat ip \<le> unat ip' \<and> unat ip' \<le> length src)"
  using assms
proof (induction "8 - k" arbitrary: k ip op d)
  case 0
  then show ?case by (subst zip_group.simps) auto
next
  case (Suc n)
  show ?case
  proof (cases "ip < of_nat (length src)")
    case True
    then have ip: "unat ip < length src" using Suc.prems(1) by (simp add: word_less_nat_alt unat_of_nat_u64 dec_ok_def)
    obtain ok ip1 op1 d1 where t: "zip_token src (of_nat (length src)) (of_nat (length dst)) (drop_bit k flags AND 1 \<noteq> 0) ip op d = Some (ok, ip1, op1, d1)"
      "dec_ok src dst op1 d1" "ok \<longrightarrow> unat ip < unat ip1 \<and> unat ip1 \<le> length src"
      using zip_token_safe [OF Suc.prems(1) ip] by blast
    have k: "k < 8" "n = 8 - Suc k" using Suc.hyps(2) by simp_all
    show ?thesis
    proof (cases ok)
      case goes: True
      then obtain ok' ip2 op2 d2 where "zip_group src (of_nat (length src)) (of_nat (length dst)) flags (Suc k) ip1 op1 d1 = Some (ok', ip2, op2, d2)"
        "dec_ok src dst op2 d2" "ok' \<longrightarrow> unat ip1 \<le> unat ip2 \<and> unat ip2 \<le> length src"
        using Suc.hyps(1) [OF k(2) t(2)] t(3) by blast
      then show ?thesis using t k True goes by (subst zip_group.simps) auto
    qed (use t k True in \<open>subst zip_group.simps, auto\<close>)
  next
    case False
    then show ?thesis using Suc.prems by (subst zip_group.simps) auto
  qed
qed

lemma zip_decode_safe:
  assumes "dec_ok src dst op d" and "unat ip \<le> length src"
  shows "\<exists>ok op' d'. zip_decode src (of_nat (length src)) (of_nat (length dst)) ip op d = Some (ok, op', d') \<and> dec_ok src dst op' d'"
  using assms
proof (induction "length src - unat ip" arbitrary: ip op d rule: less_induct)
  case less
  show ?case
  proof (cases "ip < of_nat (length src)")
    case True
    then have ip: "unat ip < length src" "unat (ip + 1) = Suc (unat ip)"
      using less.prems(1) unat_add1_less [OF True] by (simp_all add: word_less_nat_alt unat_of_nat_u64 dec_ok_def)
    obtain ok ip1 op1 d1 where g: "zip_group src (of_nat (length src)) (of_nat (length dst)) (src ! unat ip) 0 (ip + 1) op d = Some (ok, ip1, op1, d1)"
      "dec_ok src dst op1 d1" "ok \<longrightarrow> unat (ip + 1) \<le> unat ip1 \<and> unat ip1 \<le> length src"
      using zip_group_safe [OF less.prems(1), of "ip + 1"] ip by (metis Suc_leI)
    show ?thesis
    proof (cases ok)
      case goes: True
      then have "length src - unat ip1 < length src - unat ip" "unat ip1 \<le> length src" using g(3) ip by auto
      from less.hyps [OF this(1) g(2) this(2)] show ?thesis using True ip(1) g(1) goes by (subst zip_decode.simps) simp
    qed (use True ip(1) g in \<open>subst zip_decode.simps, auto\<close>)
  next
    case False
    then show ?thesis using less.prems by (subst zip_decode.simps) auto
  qed
qed

section \<open>Checksums\<close>

text \<open>One step of the shift register is linear and invertible.\<close>

lemma crc_bit_xor: "crc_bit (x XOR y) = crc_bit x XOR crc_bit y"
proof -
  have "bit (x XOR y) 0 \<longleftrightarrow> bit x 0 \<noteq> bit y 0" by (simp add: bit_xor_iff)
  moreover have "(z AND 1 \<noteq> 0) = bit z 0" for z :: u32 using drop_bit_and_1 [of 0 z] by simp
  ultimately show ?thesis unfolding crc_bit_def
    by (cases "bit x 0"; cases "bit y 0")
      (simp_all add: drop_bit_xor xor.assoc xor.left_commute xor.commute [of _ "drop_bit 1 y"] xor.commute [of _ "drop_bit (Suc 0) y"] del: bit_0)
qed

lemma crc_bit_zero: "crc_bit x = 0 \<Longrightarrow> x = 0"
proof -
  assume z: "crc_bit x = 0"
  have odd: "(x AND 1 \<noteq> 0) = bit x 0" using drop_bit_and_1 [of 0 x] by simp
  have "bit (0xEDB88320 :: u32) 31" by simp
  moreover have "\<not> bit (drop_bit 1 x) 31" using bit_imp_le_length [of x 32] by (auto simp: bit_simps)
  ultimately have "bit (drop_bit 1 x XOR 0xEDB88320) 31" by (simp add: bit_xor_iff)
  then have "\<not> bit x 0" "drop_bit 1 x = 0" using z odd unfolding crc_bit_def by (auto split: if_splits)
  show "x = 0"
  proof (rule bit_word_eqI)
    fix i assume "i < LENGTH(32)"
    show "bit x i \<longleftrightarrow> bit (0 :: u32) i"
    proof (cases i)
      case (Suc j)
      have "bit (drop_bit 1 x) j \<longleftrightarrow> bit x i" by (simp add: bit_drop_bit_eq Suc)
      then show ?thesis using \<open>drop_bit 1 x = 0\<close> by simp
    qed (use \<open>\<not> bit x 0\<close> in simp)
  qed
qed

lemma crc_pow_xor: "(crc_bit ^^ n) (x XOR y) = (crc_bit ^^ n) x XOR (crc_bit ^^ n) y"
  by (induction n) (simp_all add: crc_bit_xor)

lemma crc_pow_inj: "(crc_bit ^^ n) x = (crc_bit ^^ n) y \<Longrightarrow> x = y"
proof (induction n)
  case (Suc n)
  have "crc_bit ((crc_bit ^^ n) x XOR (crc_bit ^^ n) y) = 0" using Suc.prems by (simp add: crc_bit_xor)
  then have "(crc_bit ^^ n) x XOR (crc_bit ^^ n) y = 0" by (rule crc_bit_zero)
  then have "(crc_bit ^^ n) x = (crc_bit ^^ n) y" by (simp only: xor_zero_iff)
  then show ?case by (rule Suc.IH)
qed simp

text \<open>While only zeros leave it, the register just shifts.\<close>

lemma crc_pow_shift: "n \<le> 32 \<Longrightarrow> take_bit n x = 0 \<Longrightarrow> (crc_bit ^^ n) x = drop_bit n x"
proof (induction n)
  case (Suc n)
  have none: "\<not> bit x i" if "i < Suc n" for i using Suc.prems(2) that bit_take_bit_iff [of "Suc n" x i] by simp
  then have "take_bit n x = 0" by (intro bit_word_eqI) (auto simp: bit_simps)
  moreover have "\<not> bit x n" by (simp add: none)
  then have "(drop_bit n x AND 1 \<noteq> 0) = False" by (simp only: drop_bit_and_1)
  ultimately show ?case using Suc by (simp add: crc_bit_def)
qed simp

lemma bit_le_word: "bit (le_word bs :: 'a::len word) i \<Longrightarrow> i < 8 * length bs"
proof (induction bs arbitrary: i)
  case (Cons b bs)
  show ?case
  proof (cases "i < 8")
    case False
    then have "bit (le_word bs :: 'a word) (i - 8)"
      using Cons.prems bit_imp_le_length [of b i] by (auto simp: bit_simps)
    then show ?thesis using Cons.IH [of "i - 8"] by simp
  qed simp
qed simp

text \<open>Up to four bytes enter the register as one word.\<close>

lemma crc_bytes_word: "length bs \<le> 4 \<Longrightarrow> foldl crc_byte c bs = (crc_bit ^^ (8 * length bs)) (c XOR le_word bs)"
proof (induction bs arbitrary: c)
  case (Cons b bs)
  let ?w = "le_word bs :: u32"
  have w: "drop_bit 8 (push_bit 8 ?w) = ?w"
  proof (rule bit_word_eqI)
    fix i
    have "i + 8 < 32" if "bit ?w i" using bit_le_word [OF that] Cons.prems by simp
    then show "bit (drop_bit 8 (push_bit 8 ?w)) i \<longleftrightarrow> bit ?w i" by (auto simp: bit_simps)
  qed
  have "le_word (b # bs) = (ucast b :: u32) XOR push_bit 8 ?w"
    by (rule bit_word_eqI) (auto simp: bit_simps dest: bit_imp_le_length)
  then have "(crc_bit ^^ 8) (c XOR le_word (b # bs)) = crc_byte c b XOR (crc_bit ^^ 8) (push_bit 8 ?w)"
    by (simp only: xor.assoc [symmetric] crc_pow_xor crc_byte_def)
  also have "(crc_bit ^^ 8) (push_bit 8 ?w) = ?w"
    using crc_pow_shift [of 8 "push_bit 8 ?w"] w by (simp add: take_bit_push_bit)
  finally show ?case using Cons.IH [of "crc_byte c b"] Cons.prems
    by (simp only: list.size foldl_Cons funpow_add [of "8 * length bs" 8, symmetric] mult_Suc_right) (simp add: funpow_add add.commute [of 8])
qed (simp add: crc_byte_def)

lemma crc_byte_inj: "crc_byte c b = crc_byte c' b \<Longrightarrow> c = c'"
proof -
  assume "crc_byte c b = crc_byte c' b"
  then have "c XOR ucast b = c' XOR ucast b" unfolding crc_byte_def by (rule crc_pow_inj)
  then show "c = c'" by (simp only: xor_cancel)
qed

lemma crc_bytes_inj: "foldl crc_byte c bs = foldl crc_byte c' bs \<Longrightarrow> c = c'"
  by (induction bs arbitrary: c c') (auto dest: crc_byte_inj)

lemma owzip_crc32_eq:
  assumes "unat n \<le> length p"
  shows "owzip_crc32 crc (Ref p) n = Some (foldl crc_byte (crc XOR 0xFFFFFFFF) (take (unat n) p) XOR 0xFFFFFFFF)"
proof -
  define g where "g i = foldl crc_byte (crc XOR 0xFFFFFFFF) (take i p)" for i
  have "c_for 0 (unat n) (\<lambda>i c. do { b \<leftarrow> c_rd p i; Some (crc_byte c b) }) (g 0) = Some (g (unat n))"
    using assms by (intro c_for_det) (simp_all add: g_def take_Suc_conv_app_nth)
  then show ?thesis by (simp add: owzip_crc32_def g_def)
qed

text \<open>
  CRC-32 as IEEE 802.3 defines it. A polynomial over the field of two elements is the list of its
  coefficients, the highest power first; adding is \<open>padd\<close>, aligned at the highest power, and
  \<open>poly_rem\<close> is long division. The bits of a message are its bytes in order, the least significant
  bit of each first. The checksum is the remainder that the message, its first 32 bits complemented,
  multiplied by \<open>x ^ 32\<close>, leaves when divided by the generator; it is complemented again, and the
  coefficient of \<open>x ^ 31\<close> becomes the least significant bit.
\<close>

fun padd :: "bool list \<Rightarrow> bool list \<Rightarrow> bool list" where
  "padd (a # as) (b # bs) = (a \<noteq> b) # padd as bs"
| "padd _ bs = bs"

lemma length_padd [simp]: "length (padd as bs) = length bs"
  by (induction as bs rule: padd.induct) simp_all

lemma nth_padd: "i < length bs \<Longrightarrow> padd as bs ! i \<longleftrightarrow> (i < length as \<and> as ! i) \<noteq> bs ! i"
proof (induction as bs arbitrary: i rule: padd.induct)
  case (1 a as b bs)
  then show ?case by (cases i) auto
qed auto

function poly_rem :: "bool list \<Rightarrow> bool list \<Rightarrow> bool list" where
  "poly_rem g cs =
     (if cs = [] \<or> length cs < length g then cs
      else poly_rem g (if hd cs then padd (tl g) (tl cs) else tl cs))"
  by pat_completeness auto
termination by (relation "measure (\<lambda>(g, cs). length cs)") auto

declare poly_rem.simps [simp del]

definition crc_generator :: "bool list" where
  "crc_generator = map (\<lambda>k. k \<in> set [32, 26, 23, 22, 16, 12, 11, 10, 8, 7, 5, 4, 2, 1, 0 :: nat]) (rev [0..<33])"

definition msg_bits :: "u8 list \<Rightarrow> bool list" where
  "msg_bits m = concat (map (\<lambda>b. map (bit b) [0..<8]) m)"

definition ieee_crc32 :: "u8 list \<Rightarrow> u32" where
  "ieee_crc32 m =
     horner_sum of_bool 2 (map Not (poly_rem crc_generator (padd (replicate 32 True) (msg_bits m @ replicate 32 False))))"

text \<open>The register holds the first 32 coefficients of the dividend that is left.\<close>

definition reg_bits :: "u32 \<Rightarrow> bool list" where
  "reg_bits c = map (bit c) [0..<32]"

lemma length_reg_bits [simp]: "length (reg_bits c) = 32"
  by (simp add: reg_bits_def)

lemma nth_reg_bits [simp]: "i < 32 \<Longrightarrow> reg_bits c ! i = bit c i"
  by (simp add: reg_bits_def)

lemma crc_generator_tl: "length crc_generator = 33" "i < 32 \<Longrightarrow> tl crc_generator ! i = bit (0xEDB88320 :: u32) i"
proof -
  show "length crc_generator = 33" by (simp add: crc_generator_def)
  have "tl crc_generator = reg_bits 0xEDB88320" by code_simp
  then show "i < 32 \<Longrightarrow> tl crc_generator ! i = bit (0xEDB88320 :: u32) i" by simp
qed

lemma bit_crc_bit:
  assumes "i < 32"
  shows "bit (crc_bit c) i \<longleftrightarrow> (i < 31 \<and> bit c (Suc i)) \<noteq> (bit c 0 \<and> tl crc_generator ! i)"
proof -
  have odd: "(c AND 1 \<noteq> 0) = bit c 0" using drop_bit_and_1 [of 0 c] by simp
  have "bit (drop_bit 1 c) i \<longleftrightarrow> i < 31 \<and> bit c (Suc i)" by (auto simp: bit_simps dest: bit_imp_le_length)
  then show ?thesis unfolding crc_bit_def odd crc_generator_tl(2) [OF assms] by (auto simp: bit_xor_iff)
qed

definition crc_step :: "u32 \<Rightarrow> bool \<Rightarrow> u32" where
  "crc_step c b = crc_bit (c XOR of_bool b)"

lemma poly_rem_step:
  assumes "32 \<le> length rest"
  shows "poly_rem crc_generator (padd (reg_bits c) (b # rest)) = poly_rem crc_generator (padd (reg_bits (crc_step c b)) rest)"
proof -
  let ?g = "tl crc_generator" and ?d = "bit c 0 \<noteq> b" and ?r = "tl (reg_bits c)"
  have "reg_bits c = bit c 0 # ?r" by (simp add: reg_bits_def upt_conv_Cons)
  then have hd: "padd (reg_bits c) (b # rest) = ?d # padd ?r rest" by (metis padd.simps(1))
  have c: "bit (c XOR of_bool b) i \<longleftrightarrow> bit c i \<noteq> (i = 0 \<and> b)" for i by (simp add: bit_xor_iff bit_of_bool_iff)
  have "(if ?d then padd ?g (padd ?r rest) else padd ?r rest) = padd (reg_bits (crc_step c b)) rest"
  proof (rule nth_equalityI)
    fix i assume "i < length (if ?d then padd ?g (padd ?r rest) else padd ?r rest)"
    then have i: "i < length rest" by (simp split: if_splits)
    have g: "length ?g = 32" by (simp add: crc_generator_tl)
    have r: "i < 31 \<Longrightarrow> ?r ! i = bit c (Suc i)" by (simp add: nth_tl)
    have s: "i < 32 \<Longrightarrow> bit (crc_step c b) i \<longleftrightarrow> (i < 31 \<and> bit c (Suc i)) \<noteq> (?d \<and> ?g ! i)"
      unfolding crc_step_def by (subst bit_crc_bit) (simp_all add: c)
    show "(if ?d then padd ?g (padd ?r rest) else padd ?r rest) ! i = padd (reg_bits (crc_step c b)) rest ! i"
      using i g r s by (cases "i < 32"; cases "i < 31") (auto simp: nth_padd)
  qed simp
  then show ?thesis
    using assms by (subst poly_rem.simps) (cases ?d, simp_all add: hd crc_generator_tl(1))
qed

lemma poly_rem_bits: "poly_rem crc_generator (padd (reg_bits c) (bs @ replicate 32 False)) = reg_bits (foldl crc_step c bs)"
proof (induction bs arbitrary: c)
  case Nil
  have "padd (reg_bits c) (replicate 32 False) = reg_bits c" by (rule nth_equalityI) (simp_all add: nth_padd)
  then show ?case by (subst poly_rem.simps) (simp add: crc_generator_tl(1))
next
  case (Cons b bs)
  then show ?case by (simp add: poly_rem_step)
qed

lemma crc_pow_steps:
  "n \<le> 32 \<Longrightarrow> \<forall>i. bit w i \<longrightarrow> i < n \<Longrightarrow> (crc_bit ^^ n) (c XOR w) = foldl crc_step c (map (bit w) [0..<n])"
proof (induction n arbitrary: c w)
  case 0
  then have "w = 0" by (intro bit_word_eqI) simp
  then show ?case by simp
next
  case (Suc n)
  let ?w = "drop_bit 1 w" and ?b = "bit w 0"
  have hi: "\<forall>i. bit ?w i \<longrightarrow> i < n" using Suc.prems(2) by (auto simp: bit_drop_bit_eq)
  have w: "w = of_bool ?b XOR push_bit 1 ?w"
  proof (rule bit_word_eqI)
    fix i assume "i < LENGTH(32)"
    then have "bit (push_bit 1 ?w) i \<longleftrightarrow> 0 < i \<and> bit w i"
      unfolding bit_push_bit_iff bit_drop_bit_eq by (cases i) (auto simp del: bit_0)
    then show "bit w i \<longleftrightarrow> bit (of_bool ?b XOR push_bit 1 ?w) i"
      unfolding bit_xor_iff bit_of_bool_iff by (cases i) (auto simp del: bit_0)
  qed
  have "(push_bit 1 ?w AND 1 \<noteq> 0) = False" using drop_bit_and_1 [of 0 "push_bit 1 ?w"] bit_push_bit_iff [of 1 ?w 0] by simp
  moreover have "drop_bit 1 (push_bit 1 ?w) = ?w"
  proof (rule bit_word_eqI)
    fix i
    have "bit (drop_bit 1 (push_bit 1 ?w)) i \<longleftrightarrow> 1 + i < 32 \<and> bit ?w i"
      unfolding bit_drop_bit_eq [of 1 "push_bit 1 ?w"] comp_apply bit_push_bit_iff by simp
    then show "bit (drop_bit 1 (push_bit 1 ?w)) i \<longleftrightarrow> bit ?w i" using hi Suc.prems(1) by fastforce
  qed
  ultimately have sh: "crc_bit (push_bit 1 ?w) = ?w" by (simp add: crc_bit_def)
  have "crc_bit (c XOR w) = crc_step c ?b XOR ?w"
    by (subst w) (simp only: xor.assoc [symmetric] crc_bit_xor sh crc_step_def)
  then have "(crc_bit ^^ Suc n) (c XOR w) = foldl crc_step (crc_step c ?b) (map (bit ?w) [0..<n])"
    using Suc.IH [OF _ hi] Suc.prems(1) by (simp only: funpow_Suc_right comp_apply)
  also have "map (bit ?w) [0..<n] = map (bit w) [Suc 0..<Suc n]" by (simp add: map_Suc_upt [symmetric] bit_drop_bit_eq del: upt_Suc)
  finally show ?case by (simp add: upt_conv_Cons del: upt_Suc bit_0)
qed

lemma crc_bytes_steps: "foldl crc_byte c m = foldl crc_step c (msg_bits m)"
proof (induction m arbitrary: c)
  case (Cons b m)
  have "crc_byte c b = foldl crc_step c (map (bit (ucast b :: u32)) [0..<8])"
    unfolding crc_byte_def by (rule crc_pow_steps) (auto simp: bit_simps dest: bit_imp_le_length)
  also have "map (bit (ucast b :: u32)) [0..<8] = map (bit b) [0..<8]" by (simp add: bit_simps)
  finally show ?case using Cons.IH by (simp add: msg_bits_def)
qed (simp add: msg_bits_def)

lemma ieee_crc32_eq: "ieee_crc32 m = foldl crc_byte 0xFFFFFFFF m XOR 0xFFFFFFFF"
proof -
  let ?c = "foldl crc_byte 0xFFFFFFFF m"
  have m1: "(0xFFFFFFFF :: u32) = mask 32" by (simp add: mask_eq_exp_minus_1)
  have "replicate 32 True = reg_bits 0xFFFFFFFF"
    by (rule nth_equalityI) (simp_all add: m1 bit_mask_iff)
  then have "poly_rem crc_generator (padd (replicate 32 True) (msg_bits m @ replicate 32 False)) = reg_bits ?c"
    by (simp only: poly_rem_bits crc_bytes_steps)
  then have "ieee_crc32 m = horner_sum of_bool 2 (map Not (reg_bits ?c))" by (simp add: ieee_crc32_def)
  also have "\<dots> = ?c XOR 0xFFFFFFFF"
    by (rule bit_word_eqI) (auto simp: bit_horner_sum_bit_word_iff m1 bit_xor_iff bit_mask_iff)
  finally show ?thesis .
qed

text \<open>Adler-32 as RFC 1950 states it: the sum of the bytes plus one, and the sum of these sums, modulo 65521.\<close>

definition adler_s1 :: "u8 list \<Rightarrow> nat \<Rightarrow> nat" where
  "adler_s1 p n = 1 + (\<Sum>k < n. unat (p ! k))"

definition adler_s2 :: "u8 list \<Rightarrow> nat \<Rightarrow> nat" where
  "adler_s2 p n = (\<Sum>j < n. adler_s1 p (Suc j))"

lemma adler_word_step:
  assumes "x < 65521" and "y < 2 ^ 31"
  shows "(of_nat x + of_nat y) mod 65521 = (of_nat ((x + y) mod 65521) :: u32)"
proof -
  have "unat (of_nat (x + y) :: u32) = x + y" using assms by (intro unat_of_nat_u32) simp
  then have "unat (of_nat x + of_nat y :: u32) = x + y" by simp
  then show ?thesis by (simp add: word_unat_eq_iff unat_mod unat_of_nat_u32 del: of_nat_add)
qed

lemma owzip_adler32_eq:
  assumes "length p < 2 ^ 64"
  shows "owzip_adler32 1 (Ref p) (of_nat (length p)) =
     Some (of_nat (adler_s2 p (length p) mod 65521 * 65536 + adler_s1 p (length p) mod 65521))"
proof -
  define g where "g i = (of_nat (adler_s1 p i mod 65521) :: u32, of_nat (adler_s2 p i mod 65521) :: u32)" for i
  let ?f = "\<lambda>i (a, b). do { x \<leftarrow> c_rd p i; let a = (a + ucast x) mod 65521; Some (a, (b + a) mod 65521) }"
  have "c_for 0 (length p) ?f (g 0) = Some (g (length p))"
  proof (rule c_for_det)
    fix i assume i: "i < length p"
    have x: "ucast (p ! i) = (of_nat (unat (p ! i)) :: u32)" by simp
    have "unat (p ! i) < 2 ^ LENGTH(8)" by (rule unsigned_less)
    then have 1: "(of_nat (adler_s1 p i mod 65521) + ucast (p ! i)) mod 65521 = (of_nat (adler_s1 p (Suc i) mod 65521) :: u32)"
      unfolding x by (subst adler_word_step) (simp_all add: adler_s1_def mod_simps add.assoc)
    have 2: "(of_nat (adler_s2 p i mod 65521) + of_nat (adler_s1 p (Suc i) mod 65521)) mod 65521 = (of_nat (adler_s2 p (Suc i) mod 65521) :: u32)"
      by (subst adler_word_step) (simp_all add: adler_s2_def mod_simps less_trans [OF mod_less_divisor])
    show "?f i (g i) = Some (g (Suc i))" using i by (simp add: g_def 1 2 del: of_nat_mod)
  qed simp
  moreover have "g 0 = (1 AND 0xFFFF, drop_bit 16 1 AND 0xFFFF)" by (simp add: g_def adler_s1_def adler_s2_def)
  moreover have "unat (of_nat (length p) :: u64) = length p" using assms by (rule unat_of_nat_u64)
  ultimately have "owzip_adler32 1 (Ref p) (of_nat (length p)) = Some (push_bit 16 (snd (g (length p))) OR fst (g (length p)))"
    by (simp add: owzip_adler32_def split: prod.splits)
  moreover have "push_bit 16 (of_nat y) OR of_nat x = (of_nat (y * 65536 + x) :: u32)" if "x < 65521" "y < 65521" for x y
  proof -
    have "of_nat x OR push_bit 16 (of_nat y) = (of_nat x + push_bit 16 (of_nat y) :: u32)"
      using that by (intro or_push_bit_add) (simp add: unat_of_nat_u32)
    then show ?thesis by (simp add: or.commute push_bit_eq_mult add.commute)
  qed
  ultimately show ?thesis by (simp add: g_def del: of_nat_mod of_nat_add)
qed

section \<open>Properties\<close>

lemma w_holds_init: "w_holds d (ow_zip_writer_init d (of_nat (length d))) []"
  by (simp add: w_holds_def ow_zip_writer_init_def)

lemma owzip_compress_stream:
  assumes "length src < 2 ^ 63" and "length dst < 2 ^ 63"
  shows "\<exists>d. length d = length dst \<and>
    (owzip_compress (Ref src) (of_nat (length src)) (Ref dst) (of_nat (length dst)) (Ref x) = Some (False, Ref d, Ref 0) \<and>
       length dst < zip_bound (length src) \<or>
     (\<exists>ts. owzip_compress (Ref src) (of_nat (length src)) (Ref dst) (of_nat (length dst)) (Ref x) =
         Some (True, Ref d, Ref (of_nat (length (zip_stream ts)))) \<and>
       d = onto dst (zip_stream ts) \<and> length (zip_stream ts) \<le> length dst \<and> lz_valid [] ts \<and> lz_expand [] ts = src))"
proof -
  obtain w where w: "zip_encode src (of_nat (length src)) 0 (ow_zip_writer_init dst (of_nat (length dst))) = Some w"
    and c: "w_overflow w \<and> length (w_out w) = length dst \<and> length dst < zip_bound (length src) \<or>
      (\<exists>ts. w_holds dst w ts \<and> lz_valid [] ts \<and> lz_expand [] ts = src)"
    using zip_encode_ok [OF w_holds_init assms(2,1), of 0] by auto
  from c show ?thesis
  proof (elim disjE exE conjE)
    fix ts assume "w_holds dst w ts" and v: "lz_valid [] ts" "lz_expand [] ts = src"
    note h = w_holds_stream [OF this(1)]
    show ?thesis
      using w h v by (intro exI [of _ "onto dst (zip_stream ts)"] conjI disjI2 exI [of _ ts])
        (simp_all add: owzip_compress_def bytes_of_def with_bytes_def length_onto)
  qed (use w in \<open>auto simp: owzip_compress_def bytes_of_def with_bytes_def\<close>)
qed

text \<open>C10: Compression is lossless. For every input and every output buffer \<open>owzip_compress\<close> returns without an
  access outside the buffers; it succeeds whenever the buffer has room for nine eighths of the input. When it
  succeeds, \<open>owzip_decompress\<close> of the bytes it reported, into any buffer that can hold the input, succeeds,
  reports the length of the input and writes exactly the input, leaving the rest of the buffer alone.
\<close>

theorem owzip_round_trip:
  assumes "length src < 2 ^ 63" and "length dst < 2 ^ 63" and "length buf < 2 ^ 63" and "length src \<le> length buf"
  shows "\<exists>ok d n. owzip_compress (Ref src) (of_nat (length src)) (Ref dst) (of_nat (length dst)) (Ref x) = Some (ok, Ref d, Ref n) \<and>
     (zip_bound (length src) \<le> length dst \<longrightarrow> ok) \<and>
     (ok \<longrightarrow> unat n \<le> length dst \<and>
       owzip_decompress (Ref (take (unat n) d)) n (Ref buf) (of_nat (length buf)) (Ref y) =
         Some (True, Ref (src @ drop (length src) buf), Ref (of_nat (length src))))"
proof -
  obtain d where d: "length d = length dst"
    "owzip_compress (Ref src) (of_nat (length src)) (Ref dst) (of_nat (length dst)) (Ref x) = Some (False, Ref d, Ref 0) \<and>
       length dst < zip_bound (length src) \<or>
     (\<exists>ts. owzip_compress (Ref src) (of_nat (length src)) (Ref dst) (of_nat (length dst)) (Ref x) =
         Some (True, Ref d, Ref (of_nat (length (zip_stream ts)))) \<and>
       d = onto dst (zip_stream ts) \<and> length (zip_stream ts) \<le> length dst \<and> lz_valid [] ts \<and> lz_expand [] ts = src)"
    using owzip_compress_stream [OF assms(1,2)] by blast
  from d(2) show ?thesis
  proof (elim disjE exE conjE)
    fix ts assume c: "owzip_compress (Ref src) (of_nat (length src)) (Ref dst) (of_nat (length dst)) (Ref x) =
         Some (True, Ref d, Ref (of_nat (length (zip_stream ts))))" "d = onto dst (zip_stream ts)" "length (zip_stream ts) \<le> length dst"
      and v: "lz_valid [] ts" "lz_expand [] ts = src"
    have n: "unat (of_nat (length (zip_stream ts)) :: u64) = length (zip_stream ts)" using c(3) assms(2) by (simp add: unat_of_nat_u64)
    have "zip_decode (zip_stream ts) (of_nat (length (zip_stream ts))) (of_nat (length buf)) 0 0 buf =
        Some (True, of_nat (length src), onto buf src)"
      using zip_decode_eq [of "[]" ts buf "[]"] v c(3) assms by simp
    then have "owzip_decompress (Ref (zip_stream ts)) (of_nat (length (zip_stream ts))) (Ref buf) (of_nat (length buf)) (Ref y) =
        Some (True, Ref (onto buf src), Ref (of_nat (length src)))"
      by (simp add: owzip_decompress_def bytes_of_def with_bytes_def)
    moreover have "take (length (zip_stream ts)) d = zip_stream ts" by (simp add: c(2) onto_def)
    ultimately show ?thesis using c n by (intro exI [of _ True] exI [of _ d] exI [of _ "of_nat (length (zip_stream ts))"]) (simp add: onto_def)
  qed auto
qed

theorem owzip_round_trip_witness:
  "\<exists>d n. owzip_compress (Ref [1, 2, 3, 1, 2, 3, 1, 2, 3]) 9 (Ref (replicate 11 0)) 11 (Ref 0) = Some (True, Ref d, Ref n) \<and>
     owzip_decompress (Ref (take (unat n) d)) n (Ref (replicate 10 7)) 10 (Ref 0) = Some (True, Ref [1, 2, 3, 1, 2, 3, 1, 2, 3, 7], Ref 9)"
proof -
  have "length [1, 2, 3, 1, 2, 3, 1, 2, 3 :: u8] < 2 ^ 63" "length (replicate 11 (0 :: u8)) < 2 ^ 63" "length (replicate 10 (7 :: u8)) < 2 ^ 63"
    "length [1, 2, 3, 1, 2, 3, 1, 2, 3 :: u8] \<le> length (replicate 10 (7 :: u8))" by simp_all
  from owzip_round_trip [OF this, of 0 0] show ?thesis by (auto simp: zip_bound_def)
qed

text \<open>C11: Decompression of arbitrary bytes is safe: for every input, malformed or hostile, and every output buffer,
  \<open>owzip_decompress\<close> returns, without an access outside the two buffers, and reports at most as many bytes
  as the output buffer has.
\<close>

theorem owzip_decompress_safe:
  assumes "length src < 2 ^ 63" and "length dst < 2 ^ 63"
  shows "\<exists>ok d n. owzip_decompress (Ref src) (of_nat (length src)) (Ref dst) (of_nat (length dst)) (Ref x) = Some (ok, Ref d, Ref n) \<and>
     length d = length dst \<and> unat n \<le> length dst"
proof -
  have "dec_ok src dst 0 dst" using assms by (simp add: dec_ok_def)
  from zip_decode_safe [OF this, of 0] obtain ok n d where
    r: "zip_decode src (of_nat (length src)) (of_nat (length dst)) 0 0 dst = Some (ok, n, d)" "dec_ok src dst n d" by auto
  have "owzip_decompress (Ref src) (of_nat (length src)) (Ref dst) (of_nat (length dst)) (Ref x) = Some (ok, Ref d, Ref (if ok then n else 0))"
    using r(1) by (simp add: owzip_decompress_def bytes_of_def with_bytes_def)
  moreover have "unat (if ok then n else 0) \<le> length dst" "length d = length dst" using r(2) by (simp_all add: dec_ok_def)
  ultimately show ?thesis by blast
qed

theorem owzip_decompress_safe_witness:
  "\<exists>ok d n. owzip_decompress (Ref [0, 255, 255, 1]) 4 (Ref [5, 5]) 2 (Ref 0) = Some (ok, Ref d, Ref n) \<and> length d = Suc 1 \<and> unat n \<le> Suc 1"
  using owzip_decompress_safe [of "[0, 255, 255, 1]" "[5, 5]" 0] by simp

text \<open>C36: \<open>owzip_crc32\<close> computes the CRC-32 of IEEE 802.3. From the running value 0 over the bytes of a
  message it returns the complemented remainder of the message polynomial, with its first 32 bits
  complemented and multiplied by \<open>x ^ 32\<close>, divided by the generator
  \<open>x^32 + x^26 + x^23 + x^22 + x^16 + x^12 + x^11 + x^10 + x^8 + x^7 + x^5 + x^4 + x^2 + x + 1\<close>. The checksum can be
  computed piece by piece: from the checksum of a first part over a second part it returns the checksum of both
  together. No byte beyond the given length is read.
\<close>

theorem owzip_crc32_ieee:
  assumes "unat n \<le> length p"
  shows "ieee_crc32 [] = 0 \<and> owzip_crc32 (ieee_crc32 m) (Ref p) n = Some (ieee_crc32 (m @ take (unat n) p))"
  using owzip_crc32_eq [OF assms, of "ieee_crc32 m"] by (simp add: ieee_crc32_eq xor.assoc)

text \<open>The check value of CRC-32, of the digits 1 to 9, in two pieces.\<close>

theorem owzip_crc32_ieee_witness:
  "do { c \<leftarrow> owzip_crc32 0 (Ref [49, 50, 51, 52, 53, 54]) 4; owzip_crc32 c (Ref [53, 54, 55, 56, 57]) 5 } = Some 0xCBF43926"
proof -
  have check: "ieee_crc32 [49, 50, 51, 52, 53, 54, 55, 56, 57] = 0xCBF43926" by code_simp
  have "owzip_crc32 0 (Ref [49, 50, 51, 52, 53, 54]) 4 = Some (ieee_crc32 [49, 50, 51, 52])"
    using owzip_crc32_ieee [of 4 "[49, 50, 51, 52, 53, 54]" "[]"] by auto
  moreover have "owzip_crc32 (ieee_crc32 [49, 50, 51, 52]) (Ref [53, 54, 55, 56, 57]) 5 = Some 0xCBF43926"
    using owzip_crc32_ieee [of 5 "[53, 54, 55, 56, 57]" "[49, 50, 51, 52]"] check by simp
  ultimately show ?thesis by simp
qed

text \<open>Two messages of the same length that differ in at most four neighbouring bytes have different checksums.\<close>

theorem owzip_crc32_detects_burst:
  assumes "length xs = length ys" and "length xs \<le> 4" and "xs \<noteq> ys" and "length (pre @ xs @ post) < 2 ^ 64"
  shows "owzip_crc32 crc (Ref (pre @ xs @ post)) (of_nat (length (pre @ xs @ post))) \<noteq>
     owzip_crc32 crc (Ref (pre @ ys @ post)) (of_nat (length (pre @ ys @ post)))"
proof
  let ?c = "foldl crc_byte (crc XOR 0xFFFFFFFF) pre"
  assume "owzip_crc32 crc (Ref (pre @ xs @ post)) (of_nat (length (pre @ xs @ post))) =
     owzip_crc32 crc (Ref (pre @ ys @ post)) (of_nat (length (pre @ ys @ post)))"
  then have "foldl crc_byte ?c (xs @ post) XOR 0xFFFFFFFF = foldl crc_byte ?c (ys @ post) XOR 0xFFFFFFFF"
    using assms(1,4) by (simp add: owzip_crc32_eq unat_of_nat_u64 del: of_nat_add)
  then have "foldl crc_byte (foldl crc_byte ?c xs) post = foldl crc_byte (foldl crc_byte ?c ys) post"
    by (simp only: xor_cancel foldl_append)
  then have "foldl crc_byte ?c xs = foldl crc_byte ?c ys" by (rule crc_bytes_inj)
  then have "?c XOR le_word xs = ?c XOR le_word ys" using assms(1,2) by (auto simp: crc_bytes_word dest: crc_pow_inj)
  then have "(le_word xs :: u32) = le_word ys" by (simp only: xor_cancel)
  then have "le_bytes (length xs) (le_word xs :: u32) = le_bytes (length xs) (le_word ys :: u32)" by simp
  then show False using assms(1-3) by (simp add: le_bytes_le_word)
qed

end
