(* ===== verification/Dns.thy ===== *)
theory Dns
  imports Inet
begin

text \<open>
  \<open>src/Drivers/dnscli/dnscli.c\<close>: the resolver, its cache, the encoding of a query and the parsing of a
  response. Names are lists of the bytes before the terminating NUL; a fixed \<open>char\<close> array holds a
  name shorter than itself, and storing a longer one is undefined. The transmit function is a
  parameter that acts on an arbitrary outside state and does not call back into the resolver.
\<close>

unbundle bit_operations_syntax

section \<open>The resolver\<close>

type_synonym dns_status_t = u32

abbreviation (input) DNS_OK :: dns_status_t where "DNS_OK \<equiv> 0"
abbreviation (input) DNS_ERR_PARAM :: dns_status_t where "DNS_ERR_PARAM \<equiv> 1"
abbreviation (input) DNS_ERR_NOT_READY :: dns_status_t where "DNS_ERR_NOT_READY \<equiv> 2"
abbreviation (input) DNS_ERR_NO_SERVER :: dns_status_t where "DNS_ERR_NO_SERVER \<equiv> 3"
abbreviation (input) DNS_ERR_NAME :: dns_status_t where "DNS_ERR_NAME \<equiv> 4"
abbreviation (input) DNS_ERR_PENDING :: dns_status_t where "DNS_ERR_PENDING \<equiv> 5"
abbreviation (input) DNS_ERR_TRUNCATED :: dns_status_t where "DNS_ERR_TRUNCATED \<equiv> 6"
abbreviation (input) DNS_ERR_RCODE :: dns_status_t where "DNS_ERR_RCODE \<equiv> 7"
abbreviation (input) DNS_ERR_NXDOMAIN :: dns_status_t where "DNS_ERR_NXDOMAIN \<equiv> 8"
abbreviation (input) DNS_ERR_NO_DATA :: dns_status_t where "DNS_ERR_NO_DATA \<equiv> 9"
abbreviation (input) DNS_ERR_BAD_PACKET :: dns_status_t where "DNS_ERR_BAD_PACKET \<equiv> 10"

type_synonym c_name = "u8 list"

type_synonym 'w dns_udp_tx_fn = "'w \<Rightarrow> u32 \<Rightarrow> u16 \<Rightarrow> u8 list \<Rightarrow> u32 \<Rightarrow> dns_status_t \<times> 'w"

record dns_cache_entry_t =
  dc_name :: c_name
  dc_ip :: u32
  dc_ttl :: u32
  dc_age :: u32
  dc_valid :: bool

record 'w dns_resolver_t =
  server_ip :: u32
  server_port :: u16
  dns_next_id :: u16
  id_seed :: u16
  dns_initialized :: bool
  udp_tx :: "'w dns_udp_tx_fn ptr"
  pending_id :: u16
  pending_name :: c_name
  dns_cache :: "dns_cache_entry_t list"
  dns_scratch :: "u8 list"

text \<open>The byte at the start of a string; the empty string starts with the terminator.\<close>

definition c_head :: "c_name \<Rightarrow> u8" where
  "c_head s = (case s of [] \<Rightarrow> 0 | c # _ \<Rightarrow> c)"

definition ascii_lower :: "u8 \<Rightarrow> u8" where
  "ascii_lower c = (if c \<ge> 65 \<and> c \<le> 90 then c - 65 + 97 else c)"

function ow_streq_ci :: "c_name \<Rightarrow> c_name \<Rightarrow> bool" where
  "ow_streq_ci a b =
     (let ca = ascii_lower (c_head a); cb = ascii_lower (c_head b) in
      if ca \<noteq> cb then False
      else if ca = 0 then True
      else ow_streq_ci (tl a) (tl b))"
  by pat_completeness auto
termination
  by (relation "measure (\<lambda>(a, b). length a)") (auto simp: c_head_def ascii_lower_def split: list.splits)

declare ow_streq_ci.simps [simp del]

text \<open>\<open>ow_memcpy(array, name, n); array[n] = 0;\<close> for an array of \<open>DNS_MAX_NAME\<close> characters.\<close>

definition name_store :: "c_name \<Rightarrow> nat \<Rightarrow> c_name comp" where
  "name_store name n = (if n < 128 \<and> n \<le> length name then Some (take n name) else None)"

definition dns_rd16 :: "u8 list \<Rightarrow> u32 \<Rightarrow> u16 comp" where
  "dns_rd16 m off = rd_be16 m (unat off)"

definition dns_rd32 :: "u8 list \<Rightarrow> u32 \<Rightarrow> u32 comp" where
  "dns_rd32 m off =
     do { a \<leftarrow> c_rd m (unat off); b \<leftarrow> c_rd m (unat off + 1); c \<leftarrow> c_rd m (unat off + 2); d \<leftarrow> c_rd m (unat off + 3);
          Some (push_bit 24 (ucast a) OR push_bit 16 (ucast b) OR push_bit 8 (ucast c) OR ucast d) }"

definition dns_wr16 :: "u8 list \<Rightarrow> u32 \<Rightarrow> u16 \<Rightarrow> u8 list comp" where
  "dns_wr16 b off v = do { b \<leftarrow> c_wr b (unat off) (ucast (drop_bit 8 v)); c_wr b (unat off + 1) (ucast v) }"

definition dns_get_ip :: "u8 list \<Rightarrow> u32 \<Rightarrow> u32 comp" where
  "dns_get_ip m off = ld32 m (unat off)"

section \<open>The name of a query\<close>

text \<open>
  The inner loop: one label, from its second byte of output on. The result is the output buffer and,
  unless the function returns 0, the rest of the name, \<open>out\<close> and \<open>label_len\<close>. \<open>base\<close> is the offset
  of \<open>dst\<close> in the buffer.
\<close>

fun enc_label :: "c_name \<Rightarrow> u8 list \<Rightarrow> nat \<Rightarrow> u32 \<Rightarrow> u32 \<Rightarrow> u32 \<Rightarrow> (u8 list \<times> (c_name \<times> u32 \<times> u32) option) comp" where
  "enc_label [] buf base cap out label_len = Some (buf, Some ([], out, label_len))"
| "enc_label (c # s) buf base cap out label_len =
     (if c = 46 then Some (buf, Some (c # s, out, label_len))
      else if label_len \<ge> 63 \<or> out \<ge> cap then Some (buf, None)
      else do { buf \<leftarrow> c_wr buf (base + unat out) c; enc_label s buf base cap (out + 1) (label_len + 1) })"

lemma enc_label_rest: "enc_label s buf base cap out n = Some (b, Some (r, out', n')) \<Longrightarrow> length r \<le> length s"
  by (induction s buf base cap out n rule: enc_label.induct) (fastforce split: if_splits bind_splits)+

text \<open>The outer loop, with the code after it.\<close>

function enc_labels :: "c_name \<Rightarrow> u8 list \<Rightarrow> nat \<Rightarrow> u32 \<Rightarrow> u32 \<Rightarrow> (u32 \<times> u8 list) comp" where
  "enc_labels s buf base cap out =
     (if out \<ge> cap then Some (0, buf)
      else do {
        r \<leftarrow> enc_label s buf base cap (out + 1) 0;
        case r of
          (buf, None) \<Rightarrow> Some (0, buf)
        | (buf, Some (r, out', n)) \<Rightarrow>
            if n = 0 then Some (0, buf)
            else do {
              buf \<leftarrow> c_wr buf (base + unat out) (ucast n);
              case r of
                [] \<Rightarrow>
                  if out' \<ge> cap then Some (0, buf)
                  else do { buf \<leftarrow> c_wr buf (base + unat out') 0;
                            Some (if out' + 1 > 255 then 0 else out' + 1, buf) }
              | _ # s' \<Rightarrow> if s' = [] then Some (0, buf) else enc_labels s' buf base cap out' } })"
  by pat_completeness auto
termination
  by (relation "measure (\<lambda>(s, buf, base, cap, out). length s)") (auto dest: enc_label_rest)

declare enc_labels.simps [simp del]

definition dns_encode_name :: "c_name ptr \<Rightarrow> u8 list \<Rightarrow> nat \<Rightarrow> u32 \<Rightarrow> (u32 \<times> u8 list) comp" where
  "dns_encode_name name buf base cap =
     (case name of NULL \<Rightarrow> Some (0, buf)
      | Ref s \<Rightarrow> if c_head s = 0 then Some (0, buf) else enc_labels s buf base cap 0)"

section \<open>Skipping a name\<close>

text \<open>The loop may run on for ever when \<open>p\<close> wraps around; \<open>None\<close> inside is the result \<open>false\<close>.\<close>

partial_function (option) skip_loop :: "u8 list \<Rightarrow> u32 \<Rightarrow> u32 \<Rightarrow> u32 option comp" where
  "skip_loop msg len p =
     (if p < len then
        do { c \<leftarrow> c_rd msg (unat p);
             if c AND 0xC0 = 0xC0 then Some (if p + 1 \<ge> len then None else Some (p + 2))
             else if c AND 0xC0 \<noteq> 0 then Some None
             else if c = 0 then Some (Some (p + 1))
             else skip_loop msg len (p + (ucast c + 1)) }
      else Some None)"

declare skip_loop.simps [code]

definition dns_skip_name :: "u8 list \<Rightarrow> u32 \<Rightarrow> u32 \<Rightarrow> u32 option comp" where
  "dns_skip_name msg len off = skip_loop msg len off"

section \<open>The cache\<close>

definition dns_victim :: "dns_cache_entry_t list \<Rightarrow> nat \<Rightarrow> nat \<times> u32 \<Rightarrow> (nat \<times> u32) comp" where
  "dns_victim es i vo = do { e \<leftarrow> c_rd es i; Some (if dc_age e \<ge> snd vo then (i, dc_age e) else vo) }"

definition dns_fill :: "'w dns_resolver_t \<Rightarrow> nat \<Rightarrow> c_name \<Rightarrow> u32 \<Rightarrow> u32 \<Rightarrow> 'w dns_resolver_t comp" where
  "dns_fill res victim name ip ttl =
     (let n = length name; n = (if n \<ge> 128 then 127 else n) in
      do { stored \<leftarrow> name_store name n;
           e \<leftarrow> c_rd (dns_cache res) victim;
           es \<leftarrow> c_wr (dns_cache res) victim (e\<lparr>dc_name := stored, dc_ip := ip, dc_ttl := ttl, dc_age := 0, dc_valid := True\<rparr>);
           Some (res\<lparr>dns_cache := es\<rparr>) })"

definition dns_cache_insert :: "'w dns_resolver_t \<Rightarrow> c_name \<Rightarrow> u32 \<Rightarrow> u32 \<Rightarrow> 'w dns_resolver_t comp" where
  "dns_cache_insert res name ip ttl =
     do { r \<leftarrow> c_find (\<lambda>e. dc_valid e \<and> ow_streq_ci (dc_name e) name) (dns_cache res) 16 0;
          case r of
            Some i \<Rightarrow>
              do { e \<leftarrow> c_rd (dns_cache res) i;
                   es \<leftarrow> c_wr (dns_cache res) i (e\<lparr>dc_ip := ip, dc_ttl := ttl, dc_age := 0\<rparr>);
                   Some (res\<lparr>dns_cache := es\<rparr>) }
          | None \<Rightarrow>
              do { f \<leftarrow> c_find (\<lambda>e. \<not> dc_valid e) (dns_cache res) 16 0;
                   case f of
                     Some i \<Rightarrow> dns_fill res i name ip ttl
                   | None \<Rightarrow> do { (victim, _) \<leftarrow> c_for 0 16 (dns_victim (dns_cache res)) (0, 0);
                                 dns_fill res victim name ip ttl } } }"

definition dns_cache_lookup :: "'w dns_resolver_t ptr \<Rightarrow> c_name ptr \<Rightarrow> u32 ptr \<Rightarrow> (dns_status_t \<times> u32 ptr) comp" where
  "dns_cache_lookup res name out_ip =
     (case (res, name, out_ip) of
        (Ref s, Ref n, Ref _) \<Rightarrow>
          do { r \<leftarrow> c_find (\<lambda>e. dc_valid e \<and> ow_streq_ci (dc_name e) n) (dns_cache s) 16 0;
               case r of
                 Some i \<Rightarrow> do { e \<leftarrow> c_rd (dns_cache s) i; Some (DNS_OK, Ref (dc_ip e)) }
               | None \<Rightarrow> Some (DNS_ERR_NO_DATA, out_ip) }
      | _ \<Rightarrow> Some (DNS_ERR_PARAM, out_ip))"

section \<open>The interface\<close>

definition zero_dns_entry :: dns_cache_entry_t where
  "zero_dns_entry = \<lparr>dc_name = [], dc_ip = 0, dc_ttl = 0, dc_age = 0, dc_valid = False\<rparr>"

definition dns_init :: "'w dns_resolver_t ptr \<Rightarrow> u32 \<Rightarrow> 'w dns_udp_tx_fn ptr \<Rightarrow> dns_status_t \<times> 'w dns_resolver_t ptr" where
  "dns_init res ip tx =
     (if res = NULL \<or> tx = NULL then (DNS_ERR_PARAM, res)
      else (DNS_OK, Ref \<lparr>server_ip = ip, server_port = 53, dns_next_id = 0x4E21, id_seed = 0x4E21, dns_initialized = True,
        udp_tx = tx, pending_id = 0, pending_name = [], dns_cache = replicate 16 zero_dns_entry, dns_scratch = replicate 512 0\<rparr>))"

definition dns_set_server :: "'w dns_resolver_t ptr \<Rightarrow> u32 \<Rightarrow> dns_status_t \<times> 'w dns_resolver_t ptr" where
  "dns_set_server res ip = (case res of NULL \<Rightarrow> (DNS_ERR_PARAM, res) | Ref s \<Rightarrow> (DNS_OK, Ref (s\<lparr>server_ip := ip\<rparr>)))"

definition dns_cache_flush :: "'w dns_resolver_t ptr \<Rightarrow> dns_status_t \<times> 'w dns_resolver_t ptr" where
  "dns_cache_flush res =
     (case res of NULL \<Rightarrow> (DNS_ERR_PARAM, res) | Ref s \<Rightarrow> (DNS_OK, Ref (s\<lparr>dns_cache := replicate 16 zero_dns_entry\<rparr>)))"

text \<open>The query in \<open>scratch\<close>: the header, and after the name the type and the class.\<close>

definition dns_header :: "'w dns_resolver_t \<Rightarrow> u8 list comp" where
  "dns_header s =
     do { b \<leftarrow> c_for 0 12 (\<lambda>i b. c_wr b i 0) (dns_scratch s);
          b \<leftarrow> dns_wr16 b 0 (dns_next_id s);
          b \<leftarrow> dns_wr16 b 2 0x0100;
          dns_wr16 b 4 1 }"

definition dns_resolve ::
  "'w \<Rightarrow> 'w dns_resolver_t ptr \<Rightarrow> c_name ptr \<Rightarrow> u32 ptr \<Rightarrow> (dns_status_t \<times> 'w dns_resolver_t ptr \<times> u32 ptr \<times> 'w) comp" where
  "dns_resolve w res name out_ip =
     (case (res, name, out_ip) of
        (Ref s, Ref n, Ref _) \<Rightarrow>
          if \<not> dns_initialized s then Some (DNS_ERR_NOT_READY, res, out_ip, w)
          else if server_ip s = 0 then Some (DNS_ERR_NO_SERVER, res, out_ip, w)
          else do {
            (rc, cached) \<leftarrow> dns_cache_lookup res name (Ref 0);
            if rc = DNS_OK then Some (DNS_OK, res, cached, w)
            else if length n \<ge> 128 then Some (DNS_ERR_NAME, res, out_ip, w)
            else do {
              b \<leftarrow> dns_header s;
              let s = s\<lparr>pending_id := dns_next_id s, dns_next_id := dns_next_id s + 1\<rparr>;
              (name_len, b) \<leftarrow> dns_encode_name name b 12 (512 - 12 - 4);
              if name_len = 0 then Some (DNS_ERR_NAME, Ref (s\<lparr>dns_scratch := b\<rparr>), out_ip, w)
              else do {
                let off = 12 + name_len;
                b \<leftarrow> dns_wr16 b off 1;
                let off = off + 2;
                b \<leftarrow> dns_wr16 b off 1;
                let off = off + 2;
                stored \<leftarrow> name_store n (length n);
                let s = s\<lparr>dns_scratch := b, pending_name := stored\<rparr>;
                case udp_tx s of NULL \<Rightarrow> None
                | Ref tx \<Rightarrow>
                   (let (rc, w') = tx w (server_ip s) (server_port s) b off
                    in Some (if rc \<noteq> DNS_OK then rc else DNS_ERR_PENDING, Ref s, out_ip, w')) } } }
      | _ \<Rightarrow> Some (DNS_ERR_PARAM, res, out_ip, w))"

text \<open>The questions of a response are skipped; \<open>None\<close> inside is a malformed message.\<close>

fun skip_questions :: "u8 list \<Rightarrow> u32 \<Rightarrow> nat \<Rightarrow> u32 \<Rightarrow> u32 option comp" where
  "skip_questions m len 0 off = Some (Some off)"
| "skip_questions m len (Suc n) off =
     do { r \<leftarrow> dns_skip_name m len off;
          case r of None \<Rightarrow> Some None
          | Some off \<Rightarrow> if off + 4 > len then Some None else skip_questions m len n (off + 4) }"

text \<open>The answers; the first address record is stored under the pending name.\<close>

fun read_answers :: "'w dns_resolver_t \<Rightarrow> u8 list \<Rightarrow> u32 \<Rightarrow> nat \<Rightarrow> u32 \<Rightarrow> (dns_status_t \<times> 'w dns_resolver_t) comp" where
  "read_answers s m len 0 off = Some (DNS_ERR_NO_DATA, s)"
| "read_answers s m len (Suc n) off =
     do { r \<leftarrow> dns_skip_name m len off;
          case r of None \<Rightarrow> Some (DNS_ERR_BAD_PACKET, s)
          | Some off \<Rightarrow>
              if off + 10 > len then Some (DNS_ERR_BAD_PACKET, s)
              else do {
                ty \<leftarrow> dns_rd16 m off;
                cls \<leftarrow> dns_rd16 m (off + 2);
                ttl \<leftarrow> dns_rd32 m (off + 4);
                rdlen \<leftarrow> dns_rd16 m (off + 8);
                let off = off + 10;
                if off + ucast rdlen > len then Some (DNS_ERR_BAD_PACKET, s)
                else if ty = 1 \<and> cls = 1 \<and> rdlen = 4 then
                  do { ip \<leftarrow> dns_get_ip m off;
                       s \<leftarrow> dns_cache_insert s (pending_name s) ip ttl;
                       Some (DNS_OK, s) }
                else read_answers s m len n (off + ucast rdlen) } }"

definition dns_input :: "'w dns_resolver_t ptr \<Rightarrow> u8 list ptr \<Rightarrow> u32 \<Rightarrow> (dns_status_t \<times> 'w dns_resolver_t ptr) comp" where
  "dns_input res msg len =
     (case (res, msg) of
        (Ref s, Ref m) \<Rightarrow>
          if \<not> dns_initialized s then Some (DNS_ERR_NOT_READY, res)
          else if len < 12 then Some (DNS_ERR_BAD_PACKET, res)
          else do {
            ident \<leftarrow> dns_rd16 m 0;
            flags \<leftarrow> dns_rd16 m 2;
            qdcount \<leftarrow> dns_rd16 m 4;
            ancount \<leftarrow> dns_rd16 m 6;
            if ident \<noteq> pending_id s then Some (DNS_ERR_BAD_PACKET, res)
            else if flags AND 0x8000 = 0 then Some (DNS_ERR_BAD_PACKET, res)
            else if flags AND 0x0200 \<noteq> 0 then Some (DNS_ERR_TRUNCATED, res)
            else let rcode = flags AND 0x000F in
              if rcode = 3 then Some (DNS_ERR_NXDOMAIN, res)
              else if rcode \<noteq> 0 then Some (DNS_ERR_RCODE, res)
              else do {
                q \<leftarrow> skip_questions m len (unat qdcount) 12;
                case q of None \<Rightarrow> Some (DNS_ERR_BAD_PACKET, res)
                | Some off \<Rightarrow> do { (rc, s) \<leftarrow> read_answers s m len (unat ancount) off; Some (rc, Ref s) } } }
      | _ \<Rightarrow> Some (DNS_ERR_PARAM, res))"

section \<open>Names\<close>

text \<open>Names are compared without regard to case.\<close>

lemma ascii_lower_0 [simp]: "ascii_lower c = 0 \<longleftrightarrow> c = 0"
proof -
  have "c - 65 + 97 \<noteq> 0" if "65 \<le> c" "c \<le> 90"
  proof -
    have "unat (c - 65) = unat c - 65" using that by (simp add: unat_sub_le)
    then have "unat (c - 65 + 97) = unat c - 65 + 97" using that by (simp add: unat_word_ariths word_le_nat_alt)
    then show ?thesis by (auto simp: word_unat_eq_iff)
  qed
  then show ?thesis by (auto simp: ascii_lower_def)
qed

lemma ow_streq_ci_simps:
  "ow_streq_ci [] [] = True" "c \<noteq> 0 \<Longrightarrow> ow_streq_ci [] (c # b) = False" "c \<noteq> 0 \<Longrightarrow> ow_streq_ci (c # a) [] = False"
  "c \<noteq> 0 \<Longrightarrow> ow_streq_ci (c # a) (d # b) \<longleftrightarrow> ascii_lower c = ascii_lower d \<and> ow_streq_ci a b"
proof -
  have z: "ascii_lower 0 = 0" by simp
  show "ow_streq_ci [] [] = True" by (subst ow_streq_ci.simps) (simp add: c_head_def)
  show "c \<noteq> 0 \<Longrightarrow> ow_streq_ci [] (c # b) = False" by (subst ow_streq_ci.simps) (metis c_head_def list.case z ascii_lower_0)
  show "c \<noteq> 0 \<Longrightarrow> ow_streq_ci (c # a) [] = False" by (subst ow_streq_ci.simps) (metis c_head_def list.case z ascii_lower_0)
  show "c \<noteq> 0 \<Longrightarrow> ow_streq_ci (c # a) (d # b) \<longleftrightarrow> ascii_lower c = ascii_lower d \<and> ow_streq_ci a b"
    by (subst ow_streq_ci.simps) (auto simp: c_head_def Let_def z)
qed

lemma ow_streq_ci_iff:
  "0 \<notin> set a \<Longrightarrow> 0 \<notin> set b \<Longrightarrow> ow_streq_ci a b \<longleftrightarrow> map ascii_lower a = map ascii_lower b"
proof (induction a arbitrary: b)
  case Nil
  then show ?case by (cases b) (auto simp: ow_streq_ci_simps)
next
  case (Cons c a)
  then show ?case by (cases b) (auto simp: ow_streq_ci_simps)
qed

text \<open>The labels of a name, and the name on the wire.\<close>

function split_labels :: "c_name \<Rightarrow> c_name list" where
  "split_labels s =
     takeWhile (\<lambda>c. c \<noteq> 46) s # (case dropWhile (\<lambda>c. c \<noteq> 46) s of [] \<Rightarrow> [] | _ # r \<Rightarrow> split_labels r)"
  by pat_completeness auto
termination
proof (relation "measure length")
  fix s :: c_name and x xs assume "dropWhile (\<lambda>c. c \<noteq> 46) s = x # xs"
  then show "(xs, s) \<in> measure length" using length_dropWhile_le [of "\<lambda>c. c \<noteq> 46" s] by simp
qed simp

declare split_labels.simps [simp del]

fun join_labels :: "c_name list \<Rightarrow> c_name" where
  "join_labels [] = []"
| "join_labels [l] = l"
| "join_labels (l # ls) = l @ 46 # join_labels ls"

definition wire_labels :: "c_name list \<Rightarrow> u8 list" where
  "wire_labels ls = concat (map (\<lambda>l. of_nat (length l) # l) ls)"

definition label_ok :: "c_name \<Rightarrow> bool" where
  "label_ok l \<longleftrightarrow> l \<noteq> [] \<and> length l \<le> 63"

lemma wire_labels_simps [simp]: "wire_labels [] = []" "wire_labels (l # ls) = of_nat (length l) # l @ wire_labels ls"
  by (simp_all add: wire_labels_def)

lemma split_labels_ne: "split_labels s \<noteq> []"
  by (simp add: split_labels.simps)

lemma split_labels_cases:
  obtains (last) "46 \<notin> set s" "split_labels s = [s]"
    | (dot) l r where "s = l @ 46 # r" "46 \<notin> set l" "split_labels s = l # split_labels r" "length r < length s"
proof (cases "46 \<in> set s")
  case True
  then obtain l r where s: "s = l @ 46 # r" "46 \<notin> set l" by (meson split_list_first)
  then have "takeWhile (\<lambda>c. c \<noteq> 46) s = l" "dropWhile (\<lambda>c. c \<noteq> 46) s = 46 # r" by (auto simp: takeWhile_append dropWhile_append)
  then show ?thesis using dot s split_labels.simps [of s] by simp
next
  case False
  then have "takeWhile (\<lambda>c. c \<noteq> 46) s = s" "dropWhile (\<lambda>c. c \<noteq> 46) s = []" by auto
  then have "split_labels s = [s]" by (subst split_labels.simps) (simp only: list.case)
  then show ?thesis using last False by blast
qed

text \<open>Splitting loses nothing: the name is its labels joined by dots.\<close>

lemma join_split_labels: "join_labels (split_labels s) = s"
proof (induction s rule: length_induct)
  case (1 s)
  show ?case
  proof (cases rule: split_labels_cases [of s])
    case (dot l r)
    have "join_labels (split_labels r) = r" using 1 dot(4) by blast
    then show ?thesis using dot(1,3) split_labels_ne [of r] by (cases "split_labels r") auto
  qed simp
qed

lemma length_wire_labels: "length (wire_labels (split_labels s)) = length s + 1"
proof (induction s rule: length_induct)
  case (1 s)
  show ?case by (cases rule: split_labels_cases [of s]) (use 1 in auto)
qed

section \<open>Encoding a name\<close>

text \<open>One label: it is copied if it and the buffer are large enough.\<close>

lemma enc_label_eq:
  assumes "base + unat cap \<le> length buf" and "unat cap < 2 ^ 31" and "unat out \<le> unat cap" and "n \<le> 63"
    and "l = takeWhile (\<lambda>c. c \<noteq> 46) s" and "r = dropWhile (\<lambda>c. c \<noteq> 46) s"
  shows "\<exists>b x. enc_label s buf base cap out (of_nat n) = Some (b, x) \<and> length b = length buf \<and>
     (if unat out + length l \<le> unat cap \<and> n + length l \<le> 63
      then b = patch buf (base + unat out) l \<and> x = Some (r, out + of_nat (length l), of_nat (n + length l))
      else x = None)"
  using assms
proof (induction s arbitrary: buf out n l r)
  case (Cons c s)
  show ?case
  proof (cases "c = 46")
    case False
    let ?l = "takeWhile (\<lambda>c. c \<noteq> 46) s" and ?r = "dropWhile (\<lambda>c. c \<noteq> 46) s"
    have l: "l = c # ?l" "r = ?r" using Cons.prems(5,6) False by simp_all
    have n: "(of_nat n :: u32) \<ge> 63 \<longleftrightarrow> 63 \<le> n" using Cons.prems(4) by (simp add: word_le_nat_alt unat_of_nat_u32)
    show ?thesis
    proof (cases "63 \<le> n \<or> cap \<le> out")
      case True
      then show ?thesis using False n l(1) Cons.prems(3) by (auto simp: word_le_nat_alt)
    next
      case go: False
      then have o: "unat out < unat cap" "n < 63" by (simp_all add: word_le_nat_alt)
      have o1: "unat (out + 1) = Suc (unat out)" using o(1) Cons.prems(2) by (intro unat_add1) simp
      have at: "base + unat out < length buf" using o(1) Cons.prems(1) by simp
      have "patch buf (base + unat out) l = patch (buf[base + unat out := c]) (base + unat (out + 1)) ?l"
        using at by (simp add: l(1) patch_Cons o1)
      moreover have "out + of_nat (length l) = out + 1 + of_nat (length ?l)" by (simp add: l(1))
      moreover have "enc_label (c # s) buf base cap out (of_nat n) = enc_label s (buf[base + unat out := c]) base cap (out + 1) (of_nat (Suc n))"
        using go False n at by (simp add: add.commute)
      moreover obtain b x where "enc_label s (buf[base + unat out := c]) base cap (out + 1) (of_nat (Suc n)) = Some (b, x)" "length b = length buf"
        "if unat (out + 1) + length ?l \<le> unat cap \<and> Suc n + length ?l \<le> 63
         then b = patch (buf[base + unat out := c]) (base + unat (out + 1)) ?l \<and> x = Some (?r, out + 1 + of_nat (length ?l), of_nat (Suc n + length ?l))
         else x = None"
        using Cons.IH [of "buf[base + unat out := c]" "out + 1" "Suc n", OF _ Cons.prems(2) _ _ refl refl] Cons.prems(1) o o1 by auto
      moreover have "unat out + length l = unat (out + 1) + length ?l" "n + length l = Suc n + length ?l" by (simp_all add: l(1) o1)
      ultimately show ?thesis unfolding l(2) by (intro exI [of _ b] exI [of _ x]) (simp del: enc_label.simps of_nat_Suc of_nat_add)
    qed
  qed (use Cons.prems in auto)
qed auto

text \<open>The whole name: it is encoded if every label is in range and the buffer is large enough, and refused otherwise.\<close>

definition enc_fits :: "c_name \<Rightarrow> u32 \<Rightarrow> u32 \<Rightarrow> bool" where
  "enc_fits s cap out \<longleftrightarrow> list_all label_ok (split_labels s) \<and>
     unat out + length (wire_labels (split_labels s)) + 1 \<le> min (unat cap) 255"

lemma ucast_label_len: "n \<le> 63 \<Longrightarrow> (ucast (of_nat n :: u32) :: u8) = of_nat n"
  by (simp add: unsigned_of_nat take_bit_nat_eq_self)

lemma enc_label_step:
  assumes "base + unat cap \<le> length buf" and "unat cap < 2 ^ 31" and "out < cap"
    and "l = takeWhile (\<lambda>c. c \<noteq> 46) s" and "r = dropWhile (\<lambda>c. c \<noteq> 46) s"
  shows "\<not> (label_ok l \<and> unat out + 1 + length l \<le> unat cap) \<Longrightarrow>
      \<exists>b. enc_labels s buf base cap out = Some (0, b) \<and> length b = length buf"
    and "label_ok l \<Longrightarrow> unat out + 1 + length l \<le> unat cap \<Longrightarrow> enc_labels s buf base cap out =
      (case r of [] \<Rightarrow> if out + of_nat (length l + 1) \<ge> cap then Some (0, patch buf (base + unat out) (of_nat (length l) # l))
                     else do { b \<leftarrow> c_wr (patch buf (base + unat out) (of_nat (length l) # l)) (base + unat (out + of_nat (length l + 1))) 0;
                               Some (if out + of_nat (length l + 1) + 1 > 255 then 0 else out + of_nat (length l + 1) + 1, b) }
       | _ # s' \<Rightarrow> if s' = [] then Some (0, patch buf (base + unat out) (of_nat (length l) # l))
                  else enc_labels s' (patch buf (base + unat out) (of_nat (length l) # l)) base cap (out + of_nat (length l + 1)))"
proof -
  have o1: "unat (out + 1) = Suc (unat out)" "unat out < unat cap" using assms(3) by (simp_all add: unat_add1_less word_less_nat_alt)
  obtain b x where e: "enc_label s buf base cap (out + 1) 0 = Some (b, x)" "length b = length buf"
    and c: "if unat (out + 1) + length l \<le> unat cap \<and> length l \<le> 63
      then b = patch buf (base + unat (out + 1)) l \<and> x = Some (r, out + 1 + of_nat (length l), of_nat (length l)) else x = None"
    using enc_label_eq [OF assms(1,2), of "out + 1" 0 l s r] assms(4,5) o1 by auto
  have at: "base + unat out < length buf" using o1(2) assms(1) by simp
  {
    assume bad: "\<not> (label_ok l \<and> unat out + 1 + length l \<le> unat cap)"
    show "\<exists>b. enc_labels s buf base cap out = Some (0, b) \<and> length b = length buf"
    proof (cases "l = []")
      case True
      then have "x = Some (r, out + 1, 0)" using c o1 by simp
      then show ?thesis using e assms(3) by (subst enc_labels.simps) simp
    next
      case False
      then have "x = None" using bad c o1 by (auto simp: label_ok_def split: if_splits)
      then show ?thesis using e assms(3) by (subst enc_labels.simps) simp
    qed
  }
  {
    assume l: "label_ok l" and fit: "unat out + 1 + length l \<le> unat cap"
    then have x: "b = patch buf (Suc (base + unat out)) l" "x = Some (r, out + 1 + of_nat (length l), of_nat (length l))"
      using c o1 by (simp_all add: label_ok_def)
    have "unat (of_nat (length l) :: u32) = length l" using l by (simp add: label_ok_def unat_of_nat_u32)
    then have n0: "(of_nat (length l) :: u32) \<noteq> 0" using l by (auto simp: label_ok_def word_unat_eq_iff)
    have "(patch buf (Suc (base + unat out)) l)[base + unat out := of_nat (length l)] = patch buf (base + unat out) (of_nat (length l) # l)"
      using at fit assms(1) by (simp add: patch_def list_update_append take_Suc_conv_app_nth)
    then have w: "c_wr b (base + unat out) (ucast (of_nat (length l) :: u32)) = Some (patch buf (base + unat out) (of_nat (length l) # l))"
      using at e(2) l by (simp add: x(1) label_ok_def ucast_label_len)
    have o: "out + 1 + of_nat (length l) = out + of_nat (length l + 1)" by simp
    show "enc_labels s buf base cap out =
      (case r of [] \<Rightarrow> if out + of_nat (length l + 1) \<ge> cap then Some (0, patch buf (base + unat out) (of_nat (length l) # l))
                     else do { b \<leftarrow> c_wr (patch buf (base + unat out) (of_nat (length l) # l)) (base + unat (out + of_nat (length l + 1))) 0;
                               Some (if out + of_nat (length l + 1) + 1 > 255 then 0 else out + of_nat (length l + 1) + 1, b) }
       | _ # s' \<Rightarrow> if s' = [] then Some (0, patch buf (base + unat out) (of_nat (length l) # l))
                  else enc_labels s' (patch buf (base + unat out) (of_nat (length l) # l)) base cap (out + of_nat (length l + 1)))"
    proof -
      have "(cap \<le> out) = False" "((of_nat (length l) :: u32) = 0) = False" using assms(3) n0 by auto
      then show ?thesis by (simp only: enc_labels.simps [of s] e(1) x(2) bind.bind_lunit prod.case option.case w o if_False)
    qed
  }
qed

lemma enc_labels_eq:
  assumes "base + unat cap \<le> length buf" and "unat cap < 2 ^ 31" and "unat out \<le> unat cap"
  shows "\<exists>b. length b = length buf \<and>
     (if enc_fits s cap out
      then enc_labels s buf base cap out = Some (out + of_nat (length (wire_labels (split_labels s)) + 1), b) \<and>
        b = patch buf (base + unat out) (wire_labels (split_labels s) @ [0])
      else enc_labels s buf base cap out = Some (0, b))"
  using assms
proof (induction s arbitrary: buf out rule: length_induct)
  case (1 s)
  note p = "1.prems"
  show ?case
  proof (cases "out < cap")
    case False
    then have "enc_labels s buf base cap out = Some (0, buf)" by (subst enc_labels.simps) (simp add: not_less)
    moreover have "\<not> enc_fits s cap out" using False by (simp add: enc_fits_def word_less_nat_alt)
    ultimately show ?thesis by simp
  next
    case True
    define l r where "l = takeWhile (\<lambda>c. c \<noteq> 46) s" and "r = dropWhile (\<lambda>c. c \<noteq> 46) s"
    note step = enc_label_step [OF p(1,2) True l_def r_def]
    have ls: "split_labels s = l # (case r of [] \<Rightarrow> [] | _ # s' \<Rightarrow> split_labels s')" by (simp add: split_labels.simps [of s] l_def r_def)
    show ?thesis
    proof (cases "label_ok l \<and> unat out + 1 + length l \<le> unat cap")
      case False
      then have "\<not> enc_fits s cap out" by (auto simp: enc_fits_def ls)
      then show ?thesis using step(1) [OF False] by auto
    next
      case ok: True
      define b1 o1 where "b1 = patch buf (base + unat out) (of_nat (length l) # l)" and "o1 = out + of_nat (length l + 1)"
      have u1: "unat o1 = unat out + length l + 1"
      proof -
        have "unat (of_nat (length l + 1) :: u32) = length l + 1" using ok p(2) by (intro unat_of_nat_u32) simp
        then show ?thesis using ok p(2) unfolding o1_def by (subst unat_word_ariths) simp
      qed
      have b1: "length b1 = length buf" using ok p(1) by (simp add: b1_def)
      note eq = step(2) [OF conjunct1 [OF ok] conjunct2 [OF ok], folded b1_def o1_def]
      show ?thesis
      proof (cases r)
        case Nil
        then have st: "split_labels s = [l]" by (simp add: ls)
        have fill: "patch buf (base + unat out) (wire_labels [l] @ [0]) = b1[base + unat o1 := 0]" if "unat o1 < unat cap"
          using patch_snoc [of "base + unat out" "of_nat (length l) # l" buf 0] that p(1) by (simp add: b1_def u1 add.assoc)
        have "unat (o1 + 1) = unat o1 + 1" using u1 ok p(2) unat_add1 [of o1] by simp
        then have big: "255 < o1 + 1 \<longleftrightarrow> 255 < unat o1 + 1" by (simp add: word_less_nat_alt)
        have f: "enc_fits s cap out \<longleftrightarrow> unat o1 + 1 \<le> unat cap \<and> unat o1 + 1 \<le> 255"
          using ok unfolding enc_fits_def st u1 by (auto simp: min_def)
        have v: "out + of_nat (length (wire_labels (split_labels s)) + 1) = o1 + 1" by (simp add: st o1_def)
        show ?thesis
        proof (cases "cap \<le> o1")
          case True
          then have "\<not> unat o1 + 1 \<le> unat cap" by (simp add: word_le_nat_alt)
          then show ?thesis using True eq Nil b1 f by simp
        next
          case False
          then have lt: "unat o1 < unat cap" by (simp add: word_le_nat_alt)
          then have "enc_labels s buf base cap out = Some (if 255 < o1 + 1 then 0 else o1 + 1, b1[base + unat o1 := 0])"
            using False eq Nil b1 p(1) by simp
          moreover have "patch buf (base + unat out) (wire_labels (split_labels s) @ [0]) = b1[base + unat o1 := 0]"
            using fill [OF lt] by (simp add: st)
          ultimately show ?thesis using f lt big v b1 by (intro exI [of _ "b1[base + unat o1 := 0]"]) (simp only: length_list_update, simp)
        qed
      next
        case (Cons d s')
        then have st: "split_labels s = l # split_labels s'" by (simp add: ls)
        have "length s' < length s" using length_dropWhile_le [of "\<lambda>c. c \<noteq> 46" s] Cons by (simp add: r_def)
        then obtain b where b: "length b = length b1"
          "if enc_fits s' cap o1 then enc_labels s' b1 base cap o1 = Some (o1 + of_nat (length (wire_labels (split_labels s')) + 1), b) \<and>
             b = patch b1 (base + unat o1) (wire_labels (split_labels s') @ [0]) else enc_labels s' b1 base cap o1 = Some (0, b)"
          using "1.IH" [rule_format, OF _ _ p(2), of s' b1 o1] p(1) b1 u1 ok by fastforce
        have f: "enc_fits s cap out \<longleftrightarrow> enc_fits s' cap o1" using ok by (simp add: enc_fits_def st u1 add.assoc)
        have "\<not> enc_fits s' cap o1" if "s' = []" using that by (simp add: enc_fits_def split_labels.simps label_ok_def)
        moreover have "patch b1 (base + unat o1) (wire_labels (split_labels s') @ [0]) = patch buf (base + unat out) (wire_labels (split_labels s) @ [0])"
          if "enc_fits s cap out"
          using patch_append [of "base + unat out" "of_nat (length l) # l" "wire_labels (split_labels s') @ [0]" buf] that p(1)
          by (simp add: enc_fits_def st b1_def u1 algebra_simps)
        moreover have "out + of_nat (length (wire_labels (split_labels s)) + 1) = o1 + of_nat (length (wire_labels (split_labels s')) + 1)"
          by (simp add: st o1_def algebra_simps)
        ultimately show ?thesis using eq Cons b b1 f by (cases "s' = []") (auto split: if_splits)
      qed
    qed
  qed
qed

section \<open>The well-formed resolver\<close>

text \<open>What a \<open>char\<close> array of \<open>DNS_MAX_NAME\<close> can hold.\<close>

definition name_fits :: "c_name \<Rightarrow> bool" where
  "name_fits name \<longleftrightarrow> length name < 128 \<and> 0 \<notin> set name"

definition dns_ok :: "'w dns_resolver_t \<Rightarrow> bool" where
  "dns_ok s \<longleftrightarrow> dns_initialized s \<and> udp_tx s \<noteq> NULL \<and> length (dns_cache s) = 16 \<and> length (dns_scratch s) = 512 \<and>
     name_fits (pending_name s) \<and> list_all (\<lambda>e. name_fits (dc_name e)) (dns_cache s)"

definition dns_find :: "'w dns_resolver_t \<Rightarrow> c_name \<Rightarrow> u32 option" where
  "dns_find s name = map_option (\<lambda>i. dc_ip (dns_cache s ! i)) (first_index (\<lambda>e. dc_valid e \<and> ow_streq_ci (dc_name e) name) (dns_cache s))"

lemma dns_cache_lookup_eq:
  assumes "dns_ok s"
  shows "dns_cache_lookup (Ref s) (Ref name) (Ref x) =
     Some (case dns_find s name of Some ip \<Rightarrow> (DNS_OK, Ref ip) | None \<Rightarrow> (DNS_ERR_NO_DATA, Ref x))"
proof -
  have len: "length (dns_cache s) = 16" using assms by (simp add: dns_ok_def)
  let ?P = "\<lambda>e. dc_valid e \<and> ow_streq_ci (dc_name e) name"
  have f: "c_find ?P (dns_cache s) 16 0 = Some (first_index ?P (dns_cache s))" using c_find_eq [of 16 "dns_cache s" ?P] len by simp
  show ?thesis
  proof (cases "first_index ?P (dns_cache s)")
    case (Some i)
    then show ?thesis using f first_index_SomeD(1) [OF Some] by (simp add: dns_cache_lookup_def dns_find_def)
  qed (use f in \<open>simp add: dns_cache_lookup_def dns_find_def\<close>)
qed

definition dns_query :: "u16 \<Rightarrow> c_name \<Rightarrow> u8 list" where
  "dns_query ident name =
     be16 ident @ be16 0x0100 @ be16 1 @ be16 0 @ be16 0 @ be16 0 @ wire_labels (split_labels name) @ [0] @ be16 1 @ be16 1"

lemma length_dns_query: "length (dns_query ident name) = length name + 18"
  by (simp add: dns_query_def length_wire_labels)

lemma dns_wr16_patch: "unat off + 1 < length b \<Longrightarrow> dns_wr16 b off v = Some (patch b (unat off) (be16 v))"
  by (simp add: dns_wr16_def be16_def patch_Cons)

lemma c_for_zero12: "12 \<le> length b \<Longrightarrow> c_for 0 12 (\<lambda>i b. c_wr b i 0) b = Some (patch b 0 (replicate 12 0))"
  using c_for_fill [of 0 12 "\<lambda>i. Some 0" "\<lambda>_. 0" 0 b] by (simp add: map_replicate_const)

lemma dns_header_eq:
  assumes "length (dns_scratch s) = 512"
  shows "dns_header s = Some (patch (dns_scratch s) 0 (be16 (dns_next_id s) @ be16 0x0100 @ be16 1 @ be16 0 @ be16 0 @ be16 0))"
proof -
  let ?b = "patch (dns_scratch s) 0 (replicate 12 0)"
  have "dns_header s = Some (patch (patch (patch ?b 0 (be16 (dns_next_id s))) 2 (be16 0x0100)) 4 (be16 1))"
    using assms by (simp add: dns_header_def c_for_zero12 dns_wr16_patch)
  also have "patch (patch (patch ?b 0 (be16 (dns_next_id s))) 2 (be16 0x0100)) 4 (be16 1) =
      patch (dns_scratch s) 0 (be16 (dns_next_id s) @ be16 0x0100 @ be16 1 @ be16 0 @ be16 0 @ be16 0)"
    using assms by (simp add: patch_def be16_def numeral_eq_Suc)
  finally show ?thesis .
qed

section \<open>Resolving a name\<close>

definition name_ok :: "c_name \<Rightarrow> bool" where
  "name_ok name \<longleftrightarrow> list_all label_ok (split_labels name)"

text \<open>The resolver after a query was sent.\<close>

definition dns_asked :: "'w dns_resolver_t \<Rightarrow> c_name \<Rightarrow> 'w dns_resolver_t" where
  "dns_asked s name = s\<lparr>pending_id := dns_next_id s, dns_next_id := dns_next_id s + 1,
     dns_scratch := patch (dns_scratch s) 0 (dns_query (dns_next_id s) name), pending_name := name\<rparr>"

lemma dns_encode_name_eq:
  assumes "length b = 512" and "0 \<notin> set name" and "length name < 128"
  shows "\<exists>b'. length b' = 512 \<and> (if name_ok name
     then dns_encode_name (Ref name) b 12 496 = Some (of_nat (length name + 2), b') \<and> b' = patch b 12 (wire_labels (split_labels name) @ [0])
     else dns_encode_name (Ref name) b 12 496 = Some (0, b'))"
proof (cases "name = []")
  case True
  then have "\<not> name_ok name" by (simp add: name_ok_def split_labels.simps label_ok_def)
  then show ?thesis using True assms(1) by (simp add: dns_encode_name_def c_head_def)
next
  case False
  then have "c_head name \<noteq> 0" using assms(2) by (cases name) (auto simp: c_head_def)
  then have e: "dns_encode_name (Ref name) b 12 496 = enc_labels name b 12 496 0" by (simp add: dns_encode_name_def)
  have "enc_fits name 496 0 = name_ok name" using assms(3) by (simp add: enc_fits_def name_ok_def length_wire_labels)
  then show ?thesis unfolding e using enc_labels_eq [of 12 496 b 0 name] assms(1) by (auto simp: length_wire_labels split: if_splits)
qed

lemma dns_resolve_cached:
  assumes "dns_ok s" and "server_ip s \<noteq> 0" and "dns_find s name = Some ip"
  shows "dns_resolve w (Ref s) (Ref name) (Ref x) = Some (DNS_OK, Ref s, Ref ip, w)"
  using assms dns_cache_lookup_eq [OF assms(1), of name 0] by (simp add: dns_resolve_def dns_ok_def)

lemma dns_resolve_long:
  assumes "dns_ok s" and "server_ip s \<noteq> 0" and "dns_find s name = None" and "128 \<le> length name"
  shows "dns_resolve w (Ref s) (Ref name) (Ref x) = Some (DNS_ERR_NAME, Ref s, Ref x, w)"
  using assms dns_cache_lookup_eq [OF assms(1), of name 0] by (simp add: dns_resolve_def dns_ok_def)

lemma dns_resolve_short:
  assumes "dns_ok s" and "server_ip s \<noteq> 0" and "dns_find s name = None" and "length name < 128" and "0 \<notin> set name"
    and "udp_tx s = Ref tx"
  shows "name_ok name \<Longrightarrow> dns_resolve w (Ref s) (Ref name) (Ref x) =
      (let (rc, w') = tx w (server_ip s) (server_port s) (patch (dns_scratch s) 0 (dns_query (dns_next_id s) name)) (of_nat (length name + 18))
       in Some (if rc \<noteq> DNS_OK then rc else DNS_ERR_PENDING, Ref (dns_asked s name), Ref x, w'))"
    and "\<not> name_ok name \<Longrightarrow> \<exists>b. length b = 512 \<and> dns_resolve w (Ref s) (Ref name) (Ref x) =
      Some (DNS_ERR_NAME, Ref (s\<lparr>pending_id := dns_next_id s, dns_next_id := dns_next_id s + 1, dns_scratch := b\<rparr>), Ref x, w)"
proof -
  have s: "dns_initialized s" "length (dns_scratch s) = 512" using assms(1) by (simp_all add: dns_ok_def)
  let ?h = "be16 (dns_next_id s) @ be16 0x0100 @ be16 1 @ be16 0 @ be16 0 @ be16 0" and ?n = "wire_labels (split_labels name) @ [0]"
  let ?b = "patch (dns_scratch s) 0 ?h"
  note start = dns_header_eq [OF s(2)] dns_cache_lookup_eq [OF assms(1), of name 0]
  have lb: "length ?b = 512" using s(2) by simp
  from dns_encode_name_eq [OF lb assms(5,4)] obtain b' where b': "length b' = 512"
    "if name_ok name then dns_encode_name (Ref name) ?b 12 496 = Some (of_nat (length name + 2), b') \<and> b' = patch ?b 12 ?n
     else dns_encode_name (Ref name) ?b 12 496 = Some (0, b')" by blast
  show "\<exists>b. length b = 512 \<and> dns_resolve w (Ref s) (Ref name) (Ref x) =
      Some (DNS_ERR_NAME, Ref (s\<lparr>pending_id := dns_next_id s, dns_next_id := dns_next_id s + 1, dns_scratch := b\<rparr>), Ref x, w)" if "\<not> name_ok name"
    using b' that assms s(1) start by (intro exI [of _ b']) (simp add: dns_resolve_def)
  {
    assume ok: "name_ok name"
    have n: "unat (of_nat (length name + 2) :: u32) = length name + 2" "unat (12 + of_nat (length name + 2) :: u32) = length name + 14"
      "unat (12 + of_nat (length name + 2) + 2 :: u32) = length name + 16"
      using assms(4) unat_of_nat_u32 [of "length name + 2"] unat_of_nat_u32 [of "length name + 14"] unat_of_nat_u32 [of "length name + 16"]
      by (simp_all add: add.commute)
    then have n0: "(of_nat (length name + 2) :: u32) \<noteq> 0" by (auto simp: word_unat_eq_iff)
    have q: "patch (patch b' (length name + 14) (be16 1)) (length name + 16) (be16 1) = patch (dns_scratch s) 0 (dns_query (dns_next_id s) name)"
    proof -
      have "b' = patch (dns_scratch s) 0 (?h @ ?n)"
        using b'(2) ok s(2) assms(4) patch_append_at [of 12 0 ?h ?n "dns_scratch s"] by (simp add: length_wire_labels)
      moreover have "patch (patch (dns_scratch s) 0 (?h @ ?n)) (length name + 14) (be16 1) = patch (dns_scratch s) 0 ((?h @ ?n) @ be16 1)"
        by (rule patch_append_at) (use s(2) assms(4) in \<open>simp_all add: length_wire_labels\<close>)
      moreover have "patch (patch (dns_scratch s) 0 ((?h @ ?n) @ be16 1)) (length name + 16) (be16 1) = patch (dns_scratch s) 0 (((?h @ ?n) @ be16 1) @ be16 1)"
        by (rule patch_append_at) (use s(2) assms(4) in \<open>simp_all add: length_wire_labels\<close>)
      ultimately show ?thesis by (simp add: dns_query_def)
    qed
    have wr: "dns_wr16 b' (12 + of_nat (length name + 2)) 1 = Some (patch b' (length name + 14) (be16 1))"
      "dns_wr16 (patch b' (length name + 14) (be16 1)) (12 + of_nat (length name + 2) + 2) 1 = Some (patch (dns_scratch s) 0 (dns_query (dns_next_id s) name))"
      using dns_wr16_patch [of "12 + of_nat (length name + 2)" b' 1]
        dns_wr16_patch [of "12 + of_nat (length name + 2) + 2" "patch b' (length name + 14) (be16 1)" 1] b'(1) assms(4)
      unfolding n q by simp_all
    have "12 + of_nat (length name + 2) + 2 + 2 = (of_nat (length name + 18) :: u32)" by simp
    then show "dns_resolve w (Ref s) (Ref name) (Ref x) =
      (let (rc, w') = tx w (server_ip s) (server_port s) (patch (dns_scratch s) 0 (dns_query (dns_next_id s) name)) (of_nat (length name + 18))
       in Some (if rc \<noteq> DNS_OK then rc else DNS_ERR_PENDING, Ref (dns_asked s name), Ref x, w'))"
      using b'(2) ok assms s(1) start n0 wr
      by (simp add: dns_resolve_def name_store_def dns_asked_def split_def del: of_nat_add)
  }
qed

section \<open>Skipping a name\<close>

lemma unat_u32_add: "unat (a :: u32) + unat b < 2 ^ 32 \<Longrightarrow> unat (a + b) = unat a + unat b"
  by (simp add: unat_word_ariths)

lemma skip_loop_safe:
  assumes "length m < 2 ^ 31"
  shows "\<exists>r. skip_loop m (of_nat (length m)) p = Some r \<and> (\<forall>q. r = Some q \<longrightarrow> unat p < unat q \<and> unat q \<le> length m)"
proof (induction "length m - unat p" arbitrary: p rule: less_induct)
  case less
  let ?N = "of_nat (length m) :: u32"
  have N: "unat ?N = length m" using assms by (simp add: unat_of_nat_u32)
  note step = skip_loop.simps [of m ?N p]
  show ?case
  proof (cases "p < ?N")
    case True
    then have p: "unat p < length m" by (simp add: word_less_nat_alt N)
    define c where "c = m ! unat p"
    have u: "unat (p + 1) = unat p + 1" "unat (p + 2) = unat p + 2" using p assms by (simp_all add: unat_u32_add)
    have "unat (ucast c :: u32) < 2 ^ 8" using unsigned_less [of c] by (simp add: unat_ucast_up)
    then have n: "unat (p + (ucast c + 1)) = unat p + unat (ucast c :: u32) + 1" using p assms by (simp add: unat_u32_add)
    then have less: "length m - unat (p + (ucast c + 1)) < length m - unat p" using p by simp
    obtain r where r: "skip_loop m ?N (p + (ucast c + 1)) = Some r"
      "\<forall>q. r = Some q \<longrightarrow> unat (p + (ucast c + 1)) < unat q \<and> unat q \<le> length m"
      using less.hyps [OF less] by blast
    have "c_rd m (unat p) = Some c" using p by (simp add: c_def)
    then show ?thesis using True p r n u unfolding step by (auto simp: word_le_nat_alt N)
  qed (simp add: step)
qed

text \<open>Encoded names, compressed or not.\<close>

definition name_enc :: "u8 list \<Rightarrow> bool" where
  "name_enc e \<longleftrightarrow> (\<exists>ls t. list_all label_ok ls \<and> e = wire_labels ls @ t \<and> (t = [0] \<or> (\<exists>a b. a AND 0xC0 = 0xC0 \<and> t = [a, b])))"

lemma label_len_byte:
  assumes "label_ok l"
  shows "(of_nat (length l) :: u8) AND 0xC0 = 0" and "(of_nat (length l) :: u8) \<noteq> 0" and "unat (of_nat (length l) :: u8) = length l"
proof -
  show u: "unat (of_nat (length l) :: u8) = length l" using assms by (simp add: label_ok_def unat_of_nat take_bit_nat_eq_self)
  then show "(of_nat (length l) :: u8) \<noteq> 0" using assms by (auto simp: label_ok_def word_unat_eq_iff)
  have "take_bit 6 (of_nat (length l) :: u8) = of_nat (length l)" by (rule small_take_bit) (use u assms in \<open>simp add: label_ok_def\<close>)
  moreover have "take_bit 6 x AND 0xC0 = 0" for x :: u8
  proof (rule bit_word_eqI)
    fix i assume i: "i < LENGTH(8)"
    have "(0xC0 :: u8) = push_bit 6 3" by simp
    then have "\<not> bit (0xC0 :: u8) i" if "i < 6" using that by (simp only: bit_push_bit_iff) simp
    then show "bit (take_bit 6 x AND 0xC0) i \<longleftrightarrow> bit (0 :: u8) i" by (auto simp: bit_and_iff bit_take_bit_iff)
  qed
  ultimately show "(of_nat (length l) :: u8) AND 0xC0 = 0" by metis
qed

lemma skip_loop_labels:
  assumes "list_all label_ok ls" and "length (pre @ wire_labels ls @ t) < 2 ^ 31" and "t = [0] @ r \<or> (\<exists>a b. a AND 0xC0 = 0xC0 \<and> t = [a, b] @ r)"
  shows "skip_loop (pre @ wire_labels ls @ t) (of_nat (length (pre @ wire_labels ls @ t))) (of_nat (length pre)) =
     Some (Some (of_nat (length (pre @ wire_labels ls @ t) - length r)))"
  using assms
proof (induction ls arbitrary: pre)
  case Nil
  have N: "unat (of_nat (length pre + length t) :: u32) = length pre + length t" "unat (of_nat (length pre) :: u32) = length pre"
    using Nil.prems(2) unat_of_nat_u32 [of "length pre + length t"] unat_of_nat_u32 [of "length pre"] by simp_all
  have "t \<noteq> []" using Nil.prems(3) by auto
  then have lt: "of_nat (length pre) < (of_nat (length pre + length t) :: u32)" unfolding word_less_nat_alt N by simp
  have rd: "c_rd (pre @ t) (length pre) = Some (hd t)" using \<open>t \<noteq> []\<close> by (cases t) simp_all
  from Nil.prems(3) show ?case
  proof (elim disjE exE conjE)
    assume "t = [0] @ r"
    moreover have "((0 :: u8) = 0xC0) = False" by simp
    ultimately show ?thesis using lt rd N by (subst skip_loop.simps) (simp add: add.commute)
  next
    fix a b :: u8 assume a: "a AND 0xC0 = 0xC0" "t = [a, b] @ r"
    have "unat (of_nat (length pre) + 1 :: u32) = length pre + 1" using Nil.prems(2) a(2) unat_of_nat_u32 [of "length pre + 1"] by (simp add: add.commute)
    then have "\<not> (of_nat (length pre) + 1 \<ge> (of_nat (length pre + length t) :: u32))" unfolding word_le_nat_alt N using a(2) by simp
    then show ?thesis using lt rd N a by (subst skip_loop.simps) (simp add: add.commute del: of_nat_add)
  qed
next
  case (Cons l ls)
  then have ok: "label_ok l" by simp
  note b = label_len_byte [OF ok]
  let ?m = "pre @ wire_labels (l # ls) @ t"
  have N: "unat (of_nat (length ?m) :: u32) = length ?m" "unat (of_nat (length pre) :: u32) = length pre"
    using Cons.prems(2) unat_of_nat_u32 [of "length ?m"] unat_of_nat_u32 [of "length pre"] by simp_all
  have "of_nat (length pre) < (of_nat (length ?m) :: u32)" unfolding word_less_nat_alt N by simp
  moreover have "c_rd ?m (length pre) = Some (of_nat (length l))" by simp
  moreover have "(ucast (of_nat (length l) :: u8) :: u32) = of_nat (length l)"
    using ok by (simp add: label_ok_def unsigned_of_nat take_bit_nat_eq_self)
  moreover have "((0 :: u8) = 0xC0) = False" by simp
  ultimately have "skip_loop ?m (of_nat (length ?m)) (of_nat (length pre)) = skip_loop ?m (of_nat (length ?m)) (of_nat (length (pre @ of_nat (length l) # l)))"
    using b N(2) by (subst skip_loop.simps) (simp add: add.commute add.left_commute)
  moreover have "?m = (pre @ of_nat (length l) # l) @ wire_labels ls @ t" by simp
  ultimately show ?case using Cons.IH [of "pre @ of_nat (length l) # l"] Cons.prems by (simp only: list.pred_inject) 
qed

lemma dns_skip_name_enc:
  assumes "name_enc e" and "length (pre @ e @ r) < 2 ^ 31"
  shows "dns_skip_name (pre @ e @ r) (of_nat (length (pre @ e @ r))) (of_nat (length pre)) = Some (Some (of_nat (length (pre @ e))))"
proof -
  obtain ls t where e: "list_all label_ok ls" "e = wire_labels ls @ t" "t = [0] \<or> (\<exists>a b. a AND 0xC0 = 0xC0 \<and> t = [a, b])"
    using assms(1) by (auto simp: name_enc_def)
  have "t @ r = [0] @ r \<or> (\<exists>a b. a AND 0xC0 = 0xC0 \<and> t @ r = [a, b] @ r)" using e(3) by auto
  from skip_loop_labels [OF e(1) _ this, of pre] show ?thesis using assms(2) by (simp add: dns_skip_name_def e(2))
qed

section \<open>Storing an answer\<close>

definition dns_match :: "c_name \<Rightarrow> dns_cache_entry_t \<Rightarrow> bool" where
  "dns_match name e \<longleftrightarrow> dc_valid e \<and> ow_streq_ci (dc_name e) name"

lemma dns_victim_less:
  assumes "length es = 16"
  shows "\<exists>v a. c_for 0 16 (dns_victim es) (0, 0) = Some (v, a) \<and> v < 16"
proof -
  have "\<exists>t. c_for 0 16 (dns_victim es) (0, 0) = Some t \<and> fst t < 16"
    by (rule c_for_rule [where P = "\<lambda>_ t. fst t < 16"]) (use assms in \<open>auto simp: dns_victim_def\<close>)
  then show ?thesis by auto
qed

lemma dns_fill_eq:
  assumes "name_fits name" and "i < length (dns_cache s)"
  shows "dns_fill s i name ip ttl = Some (s\<lparr>dns_cache := (dns_cache s)[i := (dns_cache s ! i)\<lparr>dc_name := name, dc_ip := ip, dc_ttl := ttl, dc_age := 0, dc_valid := True\<rparr>]\<rparr>)"
  using assms by (simp add: dns_fill_def name_store_def name_fits_def)

lemma dns_cache_insert_eq:
  assumes "dns_ok s" and "name_fits name"
  shows "\<exists>i e. i < 16 \<and> dns_cache_insert s name ip ttl = Some (s\<lparr>dns_cache := (dns_cache s)[i := e]\<rparr>) \<and>
     dns_match name e \<and> dc_ip e = ip \<and> name_fits (dc_name e) \<and> (\<forall>j < i. \<not> dns_match name (dns_cache s ! j))"
proof -
  have len: "length (dns_cache s) = 16" and ok: "list_all (\<lambda>e. name_fits (dc_name e)) (dns_cache s)" using assms(1) by (simp_all add: dns_ok_def)
  have find: "c_find P (dns_cache s) 16 0 = Some (first_index P (dns_cache s))" for P using c_find_eq [of 16 "dns_cache s" P] len by simp
  have refl: "ow_streq_ci name name" using assms(2) by (simp add: ow_streq_ci_iff name_fits_def)
  let ?fill = "\<lambda>i. (dns_cache s ! i)\<lparr>dc_name := name, dc_ip := ip, dc_ttl := ttl, dc_age := 0, dc_valid := True\<rparr>"
  show ?thesis
  proof (cases "first_index (dns_match name) (dns_cache s)")
    case (Some i)
    note at = first_index_SomeD [OF Some]
    have "dns_cache_insert s name ip ttl = Some (s\<lparr>dns_cache := (dns_cache s)[i := (dns_cache s ! i)\<lparr>dc_ip := ip, dc_ttl := ttl, dc_age := 0\<rparr>]\<rparr>)"
      using find Some at(1) by (simp add: dns_cache_insert_def dns_match_def [abs_def])
    moreover have "name_fits (dc_name (dns_cache s ! i))" using ok at(1) by (simp add: list_all_length)
    ultimately show ?thesis using at len
      by (intro exI [of _ i] exI [of _ "(dns_cache s ! i)\<lparr>dc_ip := ip, dc_ttl := ttl, dc_age := 0\<rparr>"]) (simp add: dns_match_def)
  next
    case None
    then have no: "\<forall>j < 16. \<not> dns_match name (dns_cache s ! j)" using len by (simp add: first_index_None_iff list_all_length)
    have "\<exists>i < 16. dns_cache_insert s name ip ttl = dns_fill s i name ip ttl"
    proof (cases "first_index (\<lambda>e. \<not> dc_valid e) (dns_cache s)")
      case (Some i)
      then show ?thesis using find None first_index_SomeD(1) [OF Some] len
        by (intro exI [of _ i]) (simp add: dns_cache_insert_def dns_match_def [abs_def])
    next
      case full: None
      obtain v a where "c_for 0 16 (dns_victim (dns_cache s)) (0, 0) = Some (v, a)" "v < 16" using dns_victim_less [OF len] by blast
      then show ?thesis using find None full by (intro exI [of _ v]) (simp add: dns_cache_insert_def dns_match_def [abs_def])
    qed
    then obtain i where "i < 16" "dns_cache_insert s name ip ttl = dns_fill s i name ip ttl" by blast
    then show ?thesis using dns_fill_eq [OF assms(2), of i s ip ttl] len no assms(2) refl
      by (intro exI [of _ i] exI [of _ "?fill i"]) (simp add: dns_match_def)
  qed
qed

text \<open>Afterwards the name is known, in any capitalisation.\<close>

lemma dns_cache_insert_finds:
  assumes "dns_ok s" and "name_fits name" and "dns_cache_insert s name ip ttl = Some s'"
  shows "dns_ok s'" and "pending_id s' = pending_id s" and "pending_name s' = pending_name s" and "server_ip s' = server_ip s" and "udp_tx s' = udp_tx s"
    and "0 \<notin> set nm \<Longrightarrow> map ascii_lower nm = map ascii_lower name \<Longrightarrow> dns_find s' nm = Some ip"
proof -
  obtain i e where i: "i < 16" "s' = s\<lparr>dns_cache := (dns_cache s)[i := e]\<rparr>" "dns_match name e" "dc_ip e = ip" "name_fits (dc_name e)"
    "\<forall>j < i. \<not> dns_match name (dns_cache s ! j)" using dns_cache_insert_eq [OF assms(1,2), of ip ttl] assms(3) by auto
  have len: "length (dns_cache s) = 16" and ok: "list_all (\<lambda>e. name_fits (dc_name e)) (dns_cache s)" using assms(1) by (simp_all add: dns_ok_def)
  show "dns_ok s'" using assms(1) i(2,5) by (simp add: dns_ok_def list_all_update)
  show "pending_id s' = pending_id s" "pending_name s' = pending_name s" "server_ip s' = server_ip s" "udp_tx s' = udp_tx s" by (simp_all add: i(2))
  assume nm: "0 \<notin> set nm" "map ascii_lower nm = map ascii_lower name"
  have same: "dns_match nm c = dns_match name c" if "name_fits (dc_name c)" for c
    using that nm assms(2) by (simp add: dns_match_def ow_streq_ci_iff name_fits_def)
  have "first_index (\<lambda>e. dc_valid e \<and> ow_streq_ci (dc_name e) nm) ((dns_cache s)[i := e]) = Some i"
    unfolding first_index_Some_iff dns_match_def [symmetric]
    using i len ok same [of e] same [of "dns_cache s ! _"] by (auto simp: list_all_length nth_list_update)
  then show "dns_find s' nm = Some ip" using i(1,2,4) len by (simp add: dns_find_def)
qed

section \<open>Reading a response\<close>

lemma dns_rd16_total: "unat off + 1 < length m \<Longrightarrow> \<exists>v. dns_rd16 m off = Some v"
  by (simp add: dns_rd16_def rd_be16_def)

lemma dns_rd32_total: "unat off + 3 < length m \<Longrightarrow> \<exists>v. dns_rd32 m off = Some v"
  by (simp add: dns_rd32_def)

lemma dns_get_ip_total: "unat off + 3 < length m \<Longrightarrow> \<exists>v. dns_get_ip m off = Some v"
  by (simp add: dns_get_ip_def ld32_def)

lemma skip_questions_safe:
  assumes "length m < 2 ^ 31" and "unat off \<le> length m"
  shows "\<exists>r. skip_questions m (of_nat (length m)) n off = Some r \<and> (\<forall>q. r = Some q \<longrightarrow> unat q \<le> length m)"
  using assms(2)
proof (induction n arbitrary: off)
  case (Suc n)
  have N: "unat (of_nat (length m) :: u32) = length m" using assms(1) by (simp add: unat_of_nat_u32)
  obtain r where r: "dns_skip_name m (of_nat (length m)) off = Some r" "\<forall>q. r = Some q \<longrightarrow> unat q \<le> length m"
    using skip_loop_safe [OF assms(1), of off] by (auto simp: dns_skip_name_def)
  show ?case
  proof (cases r)
    case (Some q)
    have "unat (q + 4) = unat q + 4" using r(2) Some assms(1) by (simp add: unat_u32_add)
    then show ?thesis using r Some Suc.IH [of "q + 4"] by (simp add: word_less_nat_alt N)
  qed (use r in simp)
qed simp

lemma read_answers_safe:
  assumes "length m < 2 ^ 31" and "dns_ok s"
  shows "\<exists>rc s'. read_answers s m (of_nat (length m)) n off = Some (rc, s') \<and> dns_ok s'"
proof (induction n arbitrary: off)
  case (Suc n)
  have N: "unat (of_nat (length m) :: u32) = length m" using assms(1) by (simp add: unat_of_nat_u32)
  obtain r where r: "dns_skip_name m (of_nat (length m)) off = Some r" "\<forall>q. r = Some q \<longrightarrow> unat q \<le> length m"
    using skip_loop_safe [OF assms(1), of off] by (auto simp: dns_skip_name_def)
  show ?case
  proof (cases r)
    case (Some q)
    have u: "unat (q + k) = unat q + unat k" if "unat k \<le> 10" for k using that r(2) Some assms(1) by (simp add: unat_u32_add)
    show ?thesis
    proof (cases "q + 10 > of_nat (length m)")
      case False
      then have q: "unat q + 10 \<le> length m" using u [of 10] by (simp add: word_less_nat_alt N)
      obtain ty cls ttl rdlen where f: "dns_rd16 m q = Some ty" "dns_rd16 m (q + 2) = Some cls" "dns_rd32 m (q + 4) = Some ttl" "dns_rd16 m (q + 8) = Some rdlen"
        using dns_rd16_total [of q m] dns_rd16_total [of "q + 2" m] dns_rd32_total [of "q + 4" m] dns_rd16_total [of "q + 8" m] q u [of 2] u [of 4] u [of 8] by auto
      have "unat (ucast rdlen :: u32) < 2 ^ 16" using unsigned_less [of rdlen] by (simp add: unat_ucast_up)
      then have stop: "unat (q + 10 + ucast rdlen) = unat q + 10 + unat (ucast rdlen :: u32)" using q u [of 10] assms(1) by (simp add: unat_u32_add)
      show ?thesis
      proof (cases "q + 10 + ucast rdlen > of_nat (length m)")
        case in_range: False
        show ?thesis
        proof (cases "ty = 1 \<and> cls = 1 \<and> rdlen = 4")
          case True
          then have "unat (q + 10) + 3 < length m" using in_range stop u [of 10] by (simp add: word_less_nat_alt N)
          then obtain ip where ip: "dns_get_ip m (q + 10) = Some ip" using dns_get_ip_total by blast
          have fit: "name_fits (pending_name s)" using assms(2) by (simp add: dns_ok_def)
          then obtain s' where s': "dns_cache_insert s (pending_name s) ip ttl = Some s'" using dns_cache_insert_eq [OF assms(2)] by blast
          show ?thesis using dns_cache_insert_finds(1) [OF assms(2) fit s'] r(1) Some False f in_range True ip s' by simp
        qed (use Suc.IH [of "q + 10 + ucast rdlen"] r(1) Some False f in_range in \<open>auto simp: Let_def\<close>)
      qed (use r(1) Some False f assms(2) in simp)
    qed (use r(1) Some assms(2) in simp)
  qed (use r assms(2) in simp)
qed (use assms(2) in simp)

lemma dns_input_safe:
  assumes "dns_ok s" and "length m < 2 ^ 31"
  shows "\<exists>rc s'. dns_input (Ref s) (Ref m) (of_nat (length m)) = Some (rc, Ref s') \<and> dns_ok s'"
proof (cases "of_nat (length m) < (12 :: u32)")
  case False
  then have len: "12 \<le> length m" using assms(2) by (simp add: word_less_nat_alt unat_of_nat_u32)
  obtain ident flags qd an where f: "dns_rd16 m 0 = Some ident" "dns_rd16 m 2 = Some flags" "dns_rd16 m 4 = Some qd" "dns_rd16 m 6 = Some an"
    using dns_rd16_total [of 0 m] dns_rd16_total [of 2 m] dns_rd16_total [of 4 m] dns_rd16_total [of 6 m] len by auto
  obtain r where r: "skip_questions m (of_nat (length m)) (unat qd) 12 = Some r"
    using skip_questions_safe [OF assms(2), of 12] len by auto
  have "dns_initialized s" using assms(1) by (simp add: dns_ok_def)
  moreover obtain rc s' where "\<forall>off. r = Some off \<longrightarrow> read_answers s m (of_nat (length m)) (unat an) off = Some (rc, s') \<and> dns_ok s'"
    using read_answers_safe [OF assms(2,1), of "unat an" "the r"] by (cases r) auto
  ultimately show ?thesis using False f r assms(1) by (cases r) (auto simp: dns_input_def Let_def)
qed (use assms in \<open>simp add: dns_input_def dns_ok_def\<close>)

text \<open>The messages of RFC 1035: questions, resource records and a response.\<close>

record dns_rr =
  rr_name :: "u8 list"
  rr_type :: u16
  rr_class :: u16
  rr_ttl :: u32
  rr_data :: "u8 list"

definition enc_question :: "u8 list \<times> u16 \<times> u16 \<Rightarrow> u8 list" where
  "enc_question q = (case q of (e, ty, cls) \<Rightarrow> e @ be16 ty @ be16 cls)"

definition enc_rr :: "dns_rr \<Rightarrow> u8 list" where
  "enc_rr r = rr_name r @ be16 (rr_type r) @ be16 (rr_class r) @ be32 (rr_ttl r) @ be16 (of_nat (length (rr_data r))) @ rr_data r"

definition rr_ok :: "dns_rr \<Rightarrow> bool" where
  "rr_ok r \<longleftrightarrow> name_enc (rr_name r) \<and> length (rr_data r) < 2 ^ 16"

definition is_address :: "dns_rr \<Rightarrow> bool" where
  "is_address r \<longleftrightarrow> rr_type r = 1 \<and> rr_class r = 1 \<and> length (rr_data r) = 4"

definition dns_response :: "u16 \<Rightarrow> u16 \<Rightarrow> (u8 list \<times> u16 \<times> u16) list \<Rightarrow> dns_rr list \<Rightarrow> u16 \<Rightarrow> u16 \<Rightarrow> u8 list \<Rightarrow> u8 list" where
  "dns_response ident flags qs rs ns ar rest =
     be16 ident @ be16 flags @ be16 (of_nat (length qs)) @ be16 (of_nat (length rs)) @ be16 ns @ be16 ar @
     concat (map enc_question qs) @ concat (map enc_rr rs) @ rest"

lemma be32_join:
  "push_bit 24 (ucast (ucast (drop_bit 24 v) :: u8)) OR push_bit 16 (ucast (ucast (drop_bit 16 v) :: u8)) OR
     push_bit 8 (ucast (ucast (drop_bit 8 v) :: u8)) OR ucast (ucast v :: u8) = (v :: u32)" (is "?l = v")
proof (rule bit_word_eqI)
  fix n assume "n < LENGTH(32)"
  then consider "n < 8" | "8 \<le> n" "n < 16" | "16 \<le> n" "n < 24" | "24 \<le> n" "n < 32" by fastforce
  then show "bit ?l n \<longleftrightarrow> bit v n" by cases (auto simp: bit_simps)
qed

lemma unat_at: "k \<le> length m \<Longrightarrow> length m < 2 ^ 31 \<Longrightarrow> unat (of_nat k :: u32) = k"
  by (intro unat_of_nat_u32) simp

lemma dns_rd16_at:
  assumes "m = p @ be16 v @ r" and "length m < 2 ^ 31" and "k = length p"
  shows "dns_rd16 m (of_nat k) = Some v"
  using assms unat_at [of "length p" m] by (simp add: dns_rd16_def rd_be16_be)

lemma dns_rd32_at:
  assumes "m = p @ be32 v @ r" and "length m < 2 ^ 31" and "k = length p"
  shows "dns_rd32 m (of_nat k) = Some v"
  using assms unat_at [of "length p" m] be32_join [of v] by (simp add: dns_rd32_def be32_def nth_append)

lemma skip_questions_eq:
  assumes "length (pre @ concat (map enc_question qs) @ r) < 2 ^ 31" and "list_all (\<lambda>q. name_enc (fst q)) qs"
  shows "skip_questions (pre @ concat (map enc_question qs) @ r) (of_nat (length (pre @ concat (map enc_question qs) @ r))) (length qs) (of_nat (length pre)) =
     Some (Some (of_nat (length (pre @ concat (map enc_question qs)))))"
  using assms
proof (induction qs arbitrary: pre)
  case (Cons q qs)
  obtain e ty cls where q: "q = (e, ty, cls)" by (cases q)
  let ?r = "be16 ty @ be16 cls @ concat (map enc_question qs) @ r" and ?m = "pre @ concat (map enc_question (q # qs)) @ r"
  have m: "?m = pre @ e @ ?r" "?m = (pre @ enc_question q) @ concat (map enc_question qs) @ r" by (simp_all add: q enc_question_def)
  have 1: "dns_skip_name ?m (of_nat (length ?m)) (of_nat (length pre)) = Some (Some (of_nat (length (pre @ e))))"
    unfolding m(1) using Cons.prems m(1) by (intro dns_skip_name_enc) (simp_all add: q)
  have 2: "of_nat (length (pre @ e)) + 4 = (of_nat (length (pre @ enc_question q)) :: u32)" by (simp add: q enc_question_def)
  have "unat (of_nat (length (pre @ enc_question q)) :: u32) = length (pre @ enc_question q)" "unat (of_nat (length ?m) :: u32) = length ?m"
    using Cons.prems(1) by (intro unat_at [where m = ?m], simp, simp)+
  then have 3: "\<not> of_nat (length (pre @ enc_question q)) > (of_nat (length ?m) :: u32)" by (simp only: word_less_nat_alt) simp
  have "skip_questions ?m (of_nat (length ?m)) (length qs) (of_nat (length (pre @ enc_question q))) =
      Some (Some (of_nat (length (pre @ concat (map enc_question (q # qs))))))"
    using Cons.IH [of "pre @ enc_question q"] Cons.prems unfolding m(2) [symmetric] by simp
  then show ?case using 1 2 3 by (simp only: list.size skip_questions.simps add_0_right One_nat_def add_Suc_right bind.bind_lunit option.case if_False)
qed simp

lemma read_answers_rr:
  assumes "m = pre @ enc_rr r @ rest" and "length m < 2 ^ 31" and "rr_ok r"
  shows "is_address r \<Longrightarrow> rr_data r = addr_bytes ip \<Longrightarrow>
      read_answers s m (of_nat (length m)) (Suc n) (of_nat (length pre)) =
        do { s \<leftarrow> dns_cache_insert s (pending_name s) ip (rr_ttl r); Some (DNS_OK, s) }"
    and "\<not> is_address r \<Longrightarrow> read_answers s m (of_nat (length m)) (Suc n) (of_nat (length pre)) =
        read_answers s m (of_nat (length m)) n (of_nat (length (pre @ enc_rr r)))"
proof -
  define e d where "e = pre @ rr_name r" and "d = rr_data r"
  have m: "m = pre @ rr_name r @ drop (length e) m" "m = e @ be16 (rr_type r) @ drop (length e + 2) m" "m = (e @ be16 (rr_type r)) @ be16 (rr_class r) @ drop (length e + 4) m"
    "m = (e @ be16 (rr_type r) @ be16 (rr_class r)) @ be32 (rr_ttl r) @ drop (length e + 8) m"
    "m = (e @ be16 (rr_type r) @ be16 (rr_class r) @ be32 (rr_ttl r)) @ be16 (of_nat (length d)) @ drop (length e + 10) m"
    "m = (e @ be16 (rr_type r) @ be16 (rr_class r) @ be32 (rr_ttl r) @ be16 (of_nat (length d))) @ d @ rest"
    using assms(1) by (simp_all add: enc_rr_def e_def d_def)
  have len: "length m = length e + 10 + length d + length rest" using arg_cong [OF m(6), of length] by simp
  have "dns_skip_name m (of_nat (length m)) (of_nat (length pre)) = Some (Some (of_nat (length e)))"
    using dns_skip_name_enc [of "rr_name r" pre "drop (length e) m", folded m(1)] assms(2,3) by (simp add: rr_ok_def e_def)
  moreover have f: "dns_rd16 m (of_nat (length e)) = Some (rr_type r)" "dns_rd16 m (of_nat (length e + 2)) = Some (rr_class r)"
    "dns_rd32 m (of_nat (length e + 4)) = Some (rr_ttl r)" "dns_rd16 m (of_nat (length e + 8)) = Some (of_nat (length d))"
    by (rule dns_rd16_at [OF m(2) assms(2)] dns_rd16_at [OF m(3) assms(2)] dns_rd32_at [OF m(4) assms(2)] dns_rd16_at [OF m(5) assms(2)], simp)+
  moreover have dl: "unat (of_nat (length d) :: u16) = length d" "(ucast (of_nat (length d) :: u16) :: u32) = of_nat (length d)"
    using assms(3) by (simp_all add: rr_ok_def d_def unat_of_nat unsigned_of_nat take_bit_nat_eq_self)
  moreover have "\<not> of_nat (length e + 10) > (of_nat (length m) :: u32)" "\<not> of_nat (length e + 10 + length d) > (of_nat (length m) :: u32)"
    using len assms(2) by (simp_all only: word_less_nat_alt unat_at [of _ m])
  moreover have "length (pre @ enc_rr r) = length e + 10 + length d" by (simp add: enc_rr_def e_def d_def)
  moreover have "of_nat (length d) = (4 :: u16) \<longleftrightarrow> length d = 4" using dl(1) by (auto simp: word_unat_eq_iff)
  moreover have add: "of_nat a + 2 = (of_nat (a + 2) :: u32)" "of_nat a + 4 = (of_nat (a + 4) :: u32)" "of_nat a + 8 = (of_nat (a + 8) :: u32)"
    "of_nat a + 10 = (of_nat (a + 10) :: u32)" "of_nat a + of_nat b = (of_nat (a + b) :: u32)" for a b by simp_all
  ultimately have step: "read_answers s m (of_nat (length m)) (Suc n) (of_nat (length pre)) =
      (if is_address r then do { ip \<leftarrow> dns_get_ip m (of_nat (length e + 10)); s \<leftarrow> dns_cache_insert s (pending_name s) ip (rr_ttl r); Some (DNS_OK, s) }
       else read_answers s m (of_nat (length m)) n (of_nat (length (pre @ enc_rr r))))"
    by (simp only: read_answers.simps bind.bind_lunit option.case if_False is_address_def Let_def d_def)
  show "read_answers s m (of_nat (length m)) (Suc n) (of_nat (length pre)) =
        do { s \<leftarrow> dns_cache_insert s (pending_name s) ip (rr_ttl r); Some (DNS_OK, s) }" if "is_address r" "rr_data r = addr_bytes ip"
  proof -
    have "ld32 m (length e + 10) = Some ip" using m(6) that(2) ld32_addr [of "e @ be16 (rr_type r) @ be16 (rr_class r) @ be32 (rr_ttl r) @ be16 (of_nat (length d))" "length e + 10" ip rest]
      by (simp add: d_def)
    then have "dns_get_ip m (of_nat (length e + 10)) = Some ip" using unat_at [of "length e + 10" m] len assms(2) by (simp add: dns_get_ip_def del: of_nat_add)
    then show ?thesis using step that(1) by simp
  qed
  show "read_answers s m (of_nat (length m)) (Suc n) (of_nat (length pre)) =
        read_answers s m (of_nat (length m)) n (of_nat (length (pre @ enc_rr r)))" if "\<not> is_address r" using step that by simp
qed

lemma read_answers_first:
  assumes "list_all rr_ok skip" and "\<not> list_ex is_address skip" and "rr_ok r" and "is_address r" and "rr_data r = addr_bytes ip"
    and "length (pre @ concat (map enc_rr skip) @ enc_rr r @ rest) < 2 ^ 31"
  shows "read_answers s (pre @ concat (map enc_rr skip) @ enc_rr r @ rest) (of_nat (length (pre @ concat (map enc_rr skip) @ enc_rr r @ rest)))
      (length skip + Suc n) (of_nat (length pre)) =
    do { s \<leftarrow> dns_cache_insert s (pending_name s) ip (rr_ttl r); Some (DNS_OK, s) }"
  using assms(1,2,6)
proof (induction skip arbitrary: pre)
  case Nil
  then show ?case using read_answers_rr(1) [OF _ _ assms(3,4,5), of _ pre rest s n] by simp
next
  case (Cons x skip)
  let ?m = "pre @ concat (map enc_rr (x # skip)) @ enc_rr r @ rest"
  have m: "?m = pre @ enc_rr x @ (concat (map enc_rr skip) @ enc_rr r @ rest)" "?m = (pre @ enc_rr x) @ concat (map enc_rr skip) @ enc_rr r @ rest" by simp_all
  have "read_answers s ?m (of_nat (length ?m)) (Suc (length skip + Suc n)) (of_nat (length pre)) =
      read_answers s ?m (of_nat (length ?m)) (length skip + Suc n) (of_nat (length (pre @ enc_rr x)))"
    using Cons.prems m(1) by (intro read_answers_rr(2)) simp_all
  also have "\<dots> = do { s \<leftarrow> dns_cache_insert s (pending_name s) ip (rr_ttl r); Some (DNS_OK, s) }"
    unfolding m(2) using Cons.prems by (intro Cons.IH) (simp_all add: m(2))
  finally show ?case by (simp only: list.size add_Suc One_nat_def add_0_right add_Suc_right)
qed

lemma dns_input_response:
  assumes "dns_ok s" and "flags AND 0x8000 \<noteq> 0" and "flags AND 0x0200 = 0" and "flags AND 0x000F = 0"
    and "list_all (\<lambda>q. name_enc (fst q)) qs" and "list_all rr_ok skip" and "\<not> list_ex is_address skip" and "rr_ok r" and "is_address r"
    and "rr_data r = addr_bytes ip" and "length qs < 2 ^ 16" and "length (skip @ r # others) < 2 ^ 16"
    and "m = dns_response (pending_id s) flags qs (skip @ r # others) ns ar rest" and "length m < 2 ^ 31"
  shows "dns_input (Ref s) (Ref m) (of_nat (length m)) =
     do { s \<leftarrow> dns_cache_insert s (pending_name s) ip (rr_ttl r); Some (DNS_OK, Ref s) }"
proof -
  let ?id = "be16 (pending_id s)" and ?fl = "be16 flags" and ?q = "be16 (of_nat (length qs))" and ?a = "be16 (of_nat (length (skip @ r # others)))"
  let ?h = "?id @ ?fl @ ?q @ ?a @ be16 ns @ be16 ar" and ?qs = "concat (map enc_question qs)"
  define tail where "tail = concat (map enc_rr others) @ rest"
  have m: "m = [] @ ?id @ drop 2 m" "m = ?id @ ?fl @ drop 4 m" "m = (?id @ ?fl) @ ?q @ drop 6 m" "m = (?id @ ?fl @ ?q) @ ?a @ drop 8 m"
    "m = ?h @ ?qs @ (concat (map enc_rr skip) @ enc_rr r @ tail)" "m = (?h @ ?qs) @ concat (map enc_rr skip) @ enc_rr r @ tail"
    using assms(13) by (simp_all add: dns_response_def tail_def)
  have f: "dns_rd16 m 0 = Some (pending_id s)" "dns_rd16 m 2 = Some flags" "dns_rd16 m 4 = Some (of_nat (length qs))" "dns_rd16 m 6 = Some (of_nat (length (skip @ r # others)))"
    using dns_rd16_at [OF m(1) assms(14), of 0] dns_rd16_at [OF m(2) assms(14), of 2] dns_rd16_at [OF m(3) assms(14), of 4] dns_rd16_at [OF m(4) assms(14), of 6] by simp_all
  have n: "unat (of_nat (length qs) :: u16) = length qs" "unat (of_nat (length (skip @ r # others)) :: u16) = length skip + Suc (length others)"
    using assms(11,12) by (simp_all add: unat_of_nat take_bit_nat_eq_self del: of_nat_Suc of_nat_add)
  have "12 \<le> length m" unfolding m(5) by simp
  then have "\<not> of_nat (length m) < (12 :: u32)" using assms(14) by (simp add: word_less_nat_alt unat_of_nat_u32)
  moreover have "skip_questions m (of_nat (length m)) (length qs) 12 = Some (Some (of_nat (length (?h @ ?qs))))"
    using skip_questions_eq [of ?h qs "concat (map enc_rr skip) @ enc_rr r @ tail", folded m(5)] assms(5,14) by simp
  moreover have "read_answers s m (of_nat (length m)) (length skip + Suc (length others)) (of_nat (length (?h @ ?qs))) =
      do { s \<leftarrow> dns_cache_insert s (pending_name s) ip (rr_ttl r); Some (DNS_OK, s) }"
    using read_answers_first [OF assms(6-10), of "?h @ ?qs" tail s, folded m(6)] assms(14) by blast
  moreover have "dns_initialized s" using assms(1) by (simp add: dns_ok_def)
  ultimately show ?thesis using f assms(2-4)
    by (simp only: dns_input_def ptr.case prod.case bind.bind_lunit n if_False if_True not_True_eq_False simp_thms Let_def option.case)
      (cases "dns_cache_insert s (pending_name s) ip (rr_ttl r)", simp_all)
qed

section \<open>Sequences of calls\<close>

datatype dns_op = D_resolve c_name | D_lookup c_name | D_input "u8 list" | D_flush | D_server u32

definition dns_do :: "dns_op \<Rightarrow> 'w dns_resolver_t ptr \<times> 'w \<Rightarrow> ('w dns_resolver_t ptr \<times> 'w) comp" where
  "dns_do a rw = (case rw of (res, w) \<Rightarrow>
     (case a of
        D_resolve name \<Rightarrow> do { (_, res, _, w) \<leftarrow> dns_resolve w res (Ref name) (Ref 0); Some (res, w) }
      | D_lookup name \<Rightarrow> do { _ \<leftarrow> dns_cache_lookup res (Ref name) (Ref 0); Some (res, w) }
      | D_input m \<Rightarrow> do { (_, res) \<leftarrow> dns_input res (Ref m) (of_nat (length m)); Some (res, w) }
      | D_flush \<Rightarrow> Some (snd (dns_cache_flush res), w)
      | D_server ip \<Rightarrow> Some (snd (dns_set_server res ip), w)))"

fun dns_run :: "dns_op list \<Rightarrow> 'w dns_resolver_t ptr \<times> 'w \<Rightarrow> ('w dns_resolver_t ptr \<times> 'w) comp" where
  "dns_run [] rw = Some rw"
| "dns_run (a # as) rw = do { rw' \<leftarrow> dns_do a rw; dns_run as rw' }"

text \<open>Names are C strings, and a datagram has less than two gigabytes.\<close>

fun dns_op_ok :: "dns_op \<Rightarrow> bool" where
  "dns_op_ok (D_resolve name) = (0 \<notin> set name)"
| "dns_op_ok (D_lookup name) = (0 \<notin> set name)"
| "dns_op_ok (D_input m) = (length m < 2 ^ 31)"
| "dns_op_ok _ = True"

lemma dns_resolve_safe:
  assumes "dns_ok s" and "0 \<notin> set name"
  shows "\<exists>rc s' y w'. dns_resolve w (Ref s) (Ref name) (Ref x) = Some (rc, Ref s', Ref y, w') \<and> dns_ok s'"
proof (cases "server_ip s = 0")
  case True
  then show ?thesis using assms(1) by (auto simp: dns_resolve_def dns_ok_def)
next
  case False
  obtain tx where tx: "udp_tx s = Ref tx" using assms(1) by (cases "udp_tx s") (auto simp: dns_ok_def)
  note c = assms(1) False
  consider (cached) ip where "dns_find s name = Some ip" | (long) "dns_find s name = None" "128 \<le> length name"
    | (sent) "dns_find s name = None" "length name < 128" "name_ok name" | (bad) "dns_find s name = None" "length name < 128" "\<not> name_ok name"
    by fastforce
  then show ?thesis
  proof cases
    case cached
    then show ?thesis using dns_resolve_cached [OF c] assms(1) by blast
  next
    case long
    then show ?thesis using dns_resolve_long [OF c] assms(1) by blast
  next
    case sent
    have "dns_ok (dns_asked s name)" using assms sent(2) by (simp add: dns_ok_def dns_asked_def name_fits_def length_dns_query)
    then show ?thesis using dns_resolve_short(1) [OF c sent(1,2) assms(2) tx sent(3), of w x] by (auto simp: split_def Let_def)
  next
    case bad
    from dns_resolve_short(2) [OF c bad(1,2) assms(2) tx bad(3), of w x] obtain b where "length b = 512"
      "dns_resolve w (Ref s) (Ref name) (Ref x) = Some (DNS_ERR_NAME, Ref (s\<lparr>pending_id := dns_next_id s, dns_next_id := dns_next_id s + 1, dns_scratch := b\<rparr>), Ref x, w)"
      by blast
    then show ?thesis using assms(1) by (auto simp: dns_ok_def)
  qed
qed

lemma zero_dns_entry_fits: "list_all (\<lambda>e. name_fits (dc_name e)) (replicate n zero_dns_entry)"
  by (simp add: list_all_length zero_dns_entry_def name_fits_def)

lemma dns_do_ok:
  assumes "dns_ok s" and "dns_op_ok a"
  shows "\<exists>s' w'. dns_do a (Ref s, w) = Some (Ref s', w') \<and> dns_ok s'"
proof (cases a)
  case (D_resolve name)
  then show ?thesis using dns_resolve_safe [OF assms(1), of name w 0] assms(2) by (auto simp: dns_do_def)
next
  case (D_lookup name)
  then show ?thesis using dns_cache_lookup_eq [OF assms(1), of name 0] assms(1) by (simp add: dns_do_def)
next
  case (D_input m)
  then show ?thesis using dns_input_safe [OF assms(1), of m] assms(2) by (auto simp: dns_do_def)
next
  case D_flush
  then show ?thesis using assms(1) zero_dns_entry_fits [of 16] by (simp add: dns_do_def dns_cache_flush_def dns_ok_def)
next
  case (D_server ip)
  then show ?thesis using assms(1) by (simp add: dns_do_def dns_set_server_def dns_ok_def)
qed

lemma dns_run_ok: "dns_ok s \<Longrightarrow> list_all dns_op_ok as \<Longrightarrow> \<exists>s' w'. dns_run as (Ref s, w) = Some (Ref s', w') \<and> dns_ok s'"
proof (induction as arbitrary: s w)
  case (Cons a as)
  then obtain s1 w1 where "dns_do a (Ref s, w) = Some (Ref s1, w1)" "dns_ok s1" using dns_do_ok [of s a w] by auto
  then show ?case using Cons.IH [of s1 w1] Cons.prems by simp
qed simp

lemma dns_init_ok: "dns_init (Ref r0) ip (Ref tx) = (rc, p) \<Longrightarrow> \<exists>s. p = Ref s \<and> dns_ok s \<and> server_ip s = ip \<and> udp_tx s = Ref tx \<and> dns_next_id s = 0x4E21"
proof -
  assume p: "dns_init (Ref r0) ip (Ref tx) = (rc, p)"
  let ?s = "\<lparr>server_ip = ip, server_port = 53, dns_next_id = 0x4E21, id_seed = 0x4E21, dns_initialized = True,
    udp_tx = Ref tx, pending_id = 0, pending_name = [], dns_cache = replicate 16 zero_dns_entry, dns_scratch = replicate 512 0\<rparr>"
  have "p = Ref ?s" using p unfolding dns_init_def by (simp only: ptr.simps simp_thms if_False prod.inject)
  moreover have "dns_ok ?s" unfolding dns_ok_def dns_resolver_t.simps length_replicate
    using zero_dns_entry_fits [of 16] by (simp only: ptr.simps simp_thms name_fits_def) (simp only: list.size set_simps empty_iff simp_thms zero_less_numeral)
  ultimately show ?thesis by (intro exI [of _ ?s]) (simp only: dns_resolver_t.simps simp_thms)
qed

section \<open>Properties\<close>

text \<open>C14: After \<open>dns_init\<close>, whatever names are resolved and whatever bytes arrive as responses, malformed, truncated,
  with forward or backward compression pointers, no call accesses memory outside the resolver and the message, and
  every call returns; the resolver stays well formed, with sixteen entries whose names fit their arrays.
\<close>

theorem dns_run_safe:
  assumes "dns_init (Ref r0) ip (Ref tx) = (rc, p)" and "list_all dns_op_ok as"
  shows "\<exists>s w'. dns_run as (p, w) = Some (Ref s, w') \<and> dns_ok s"
proof -
  obtain s where "p = Ref s" "dns_ok s" using dns_init_ok [OF assms(1)] by blast
  then show ?thesis using dns_run_ok [of s as w] assms(2) by simp
qed

text \<open>A transmit function that keeps what was sent, and the resolver it makes.\<close>

definition dns_wire :: "u8 list list dns_udp_tx_fn" where
  "dns_wire w ip port data len = (DNS_OK, w @ [take (unat len) data])"

definition sample_dns :: "u8 list list dns_resolver_t" where
  "sample_dns = \<lparr>server_ip = 7, server_port = 53, dns_next_id = 0x4E21, id_seed = 0x4E21, dns_initialized = True,
     udp_tx = Ref dns_wire, pending_id = 0, pending_name = [], dns_cache = replicate 16 zero_dns_entry, dns_scratch = replicate 512 0\<rparr>"

lemma sample_dns_init: "dns_init (Ref sample_dns) 7 (Ref dns_wire) = (DNS_OK, Ref sample_dns)"
  by (simp add: dns_init_def sample_dns_def)

theorem dns_run_safe_witness:
  "\<exists>s w'. dns_run [D_resolve [97, 46, 98], D_input [0x4E, 0x21, 0x80, 0, 0, 1, 0, 0, 0, 0, 0, 0, 0xC0, 0x0C], D_lookup [97], D_flush, D_input []]
     (Ref sample_dns, []) = Some (Ref s, w') \<and> dns_ok s"
  using dns_run_safe [OF sample_dns_init, of "[D_resolve [97, 46, 98], D_input [0x4E, 0x21, 0x80, 0, 0, 1, 0, 0, 0, 0, 0, 0, 0xC0, 0x0C], D_lookup [97], D_flush, D_input []]" "[]"]
  by simp

text \<open>C13: The query that \<open>dns_resolve\<close> sends is the one of RFC 1035: for a name that is not in the cache, shorter
  than 128 bytes and made of labels of one to 63 bytes, exactly one datagram goes to the server, with the next
  identifier, recursion desired, one question for an address record, and the labels of the name, each behind its
  length. Joined by dots these labels are the name again, so that the server is asked for the name the caller gave.
  The resolver then waits for an answer with this identifier, and its identifier counter is advanced by one modulo
  \<open>2 ^ 16\<close>, so that the next query carries another identifier. Nothing else of its state changes but the send buffer.
\<close>

theorem dns_resolve_sends_query:
  assumes "dns_ok s" and "server_ip s \<noteq> 0" and "dns_find s name = None" and "length name < 128" and "0 \<notin> set name" and "udp_tx s = Ref tx"
    and "list_all label_ok (split_labels name)"
  shows "\<exists>frame s' ls. take (length name + 18) frame =
       be16 (dns_next_id s) @ be16 0x0100 @ be16 1 @ be16 0 @ be16 0 @ be16 0 @ wire_labels ls @ [0] @ be16 1 @ be16 1 \<and>
     join_labels ls = name \<and>
     s' = s\<lparr>pending_id := dns_next_id s, dns_next_id := dns_next_id s + 1, dns_scratch := frame, pending_name := name\<rparr> \<and> dns_ok s' \<and>
     dns_resolve w (Ref s) (Ref name) (Ref x) =
       (let (rc, w') = tx w (server_ip s) (server_port s) frame (of_nat (length name + 18))
        in Some (if rc = DNS_OK then DNS_ERR_PENDING else rc, Ref s', Ref x, w'))"
proof -
  let ?q = "dns_query (dns_next_id s) name"
  have ok: "name_ok name" using assms(7) by (simp add: name_ok_def)
  have "length (dns_scratch s) = 512" using assms(1) by (simp add: dns_ok_def)
  then have "take (length name + 18) (patch (dns_scratch s) 0 ?q) = ?q"
    using take_patch_eq [of "length name + 18" 0 ?q "dns_scratch s"] assms(4) by (simp add: length_dns_query)
  moreover have "dns_ok (dns_asked s name)" using assms by (simp add: dns_ok_def dns_asked_def name_fits_def length_dns_query)
  ultimately show ?thesis
    using dns_resolve_short(1) [OF assms(1-6) ok, of w x] join_split_labels [of name]
    by (intro exI [of _ "patch (dns_scratch s) 0 ?q"] exI [of _ "dns_asked s name"] exI [of _ "split_labels name"])
      (simp add: dns_query_def dns_asked_def split_def Let_def)
qed

lemma sample_dns_ok: "dns_ok sample_dns" "server_ip sample_dns = 7" "udp_tx sample_dns = Ref dns_wire" "dns_next_id sample_dns = 0x4E21"
  "server_port sample_dns = 53" "dns_find sample_dns name = None"
  using dns_init_ok [OF sample_dns_init] by (simp_all add: sample_dns_def dns_find_def first_index_None_iff zero_dns_entry_def)

theorem dns_resolve_sends_query_witness:
  "\<exists>frame s' ls. take 22 frame = be16 0x4E21 @ be16 0x0100 @ be16 1 @ be16 0 @ be16 0 @ be16 0 @ wire_labels ls @ [0] @ be16 1 @ be16 1 \<and>
     join_labels ls = [97, 46, 98, 99] \<and> pending_id s' = 0x4E21 \<and> dns_next_id s' = 0x4E22 \<and>
     dns_resolve [] (Ref sample_dns) (Ref [97, 46, 98, 99]) (Ref 0) = Some (DNS_ERR_PENDING, Ref s', Ref 0, [take 22 frame])"
proof -
  have sp: "split_labels [97, 46, 98, 99] = [[97], [98, 99]]" by (simp add: split_labels.simps)
  have "length [97, 46, 98, 99 :: u8] < 128" "0 \<notin> set [97, 46, 98, 99 :: u8]" "list_all label_ok (split_labels [97, 46, 98, 99])" "server_ip sample_dns \<noteq> 0"
    by (simp_all add: sp label_ok_def sample_dns_ok)
  from dns_resolve_sends_query [OF sample_dns_ok(1) this(4) sample_dns_ok(6) this(1,2) sample_dns_ok(3) this(3), of "[]" 0]
  show ?thesis by (elim exE conjE) (auto simp: dns_wire_def sample_dns_ok intro!: exI)
qed

text \<open>C12: A response answers the question: when a message carries the pending identifier, is a complete response without
  an error code, and its answers hold an address record, possibly behind records of other kinds such as aliases, then
  \<open>dns_input\<close> accepts it, and from then on \<open>dns_resolve\<close> returns this address for the pending name, however it is
  capitalised, without sending anything.
\<close>

theorem dns_response_resolves:
  assumes "dns_ok s" and "server_ip s \<noteq> 0" and "flags AND 0x8000 \<noteq> 0" and "flags AND 0x0200 = 0" and "flags AND 0x000F = 0"
    and "list_all (\<lambda>q. name_enc (fst q)) qs" and "list_all rr_ok skip" and "\<not> list_ex is_address skip" and "rr_ok r" and "is_address r"
    and "rr_data r = addr_bytes ip" and "length qs < 2 ^ 16" and "length (skip @ r # others) < 2 ^ 16"
    and "m = dns_response (pending_id s) flags qs (skip @ r # others) ns ar rest" and "length m < 2 ^ 31"
    and "0 \<notin> set name" and "map ascii_lower name = map ascii_lower (pending_name s)"
  shows "\<exists>s'. dns_input (Ref s) (Ref m) (of_nat (length m)) = Some (DNS_OK, Ref s') \<and>
     dns_resolve w (Ref s') (Ref name) (Ref x) = Some (DNS_OK, Ref s', Ref ip, w)"
proof -
  have fits: "name_fits (pending_name s)" using assms(1) by (simp add: dns_ok_def)
  obtain s' where ins: "dns_cache_insert s (pending_name s) ip (rr_ttl r) = Some s'" using dns_cache_insert_eq [OF assms(1) fits, of ip "rr_ttl r"] by blast
  note found = dns_cache_insert_finds [OF assms(1) fits ins]
  have "dns_input (Ref s) (Ref m) (of_nat (length m)) = Some (DNS_OK, Ref s')"
    unfolding dns_input_response [OF assms(1,3-15)] ins by simp
  moreover have "dns_resolve w (Ref s') (Ref name) (Ref x) = Some (DNS_OK, Ref s', Ref ip, w)"
    using found assms(2) by (intro dns_resolve_cached) (simp_all add: found(6) [OF assms(16,17)])
  ultimately show ?thesis by blast
qed

text \<open>An alias and an address for the name \<open>a.b\<close>, both naming the question by a pointer, asked for as \<open>A.b\<close>.\<close>

definition sample_rr :: "u16 \<Rightarrow> u8 list \<Rightarrow> dns_rr" where
  "sample_rr ty d = \<lparr>rr_name = [0xC0, 12], rr_type = ty, rr_class = 1, rr_ttl = 60, rr_data = d\<rparr>"

definition sample_asked :: "u8 list list dns_resolver_t" where
  "sample_asked = sample_dns\<lparr>pending_id := 0x4E21, pending_name := [97, 46, 98]\<rparr>"

theorem dns_response_resolves_witness:
  "\<exists>s'. dns_input (Ref sample_asked)
       (Ref (dns_response 0x4E21 0x8180 [([1, 97, 1, 98, 0], 1, 1)] [sample_rr 5 [1, 99, 0], sample_rr 1 (addr_bytes 0x0A000001)] 0 0 []))
       (of_nat (length (dns_response 0x4E21 0x8180 [([1, 97, 1, 98, 0], 1, 1)] [sample_rr 5 [1, 99, 0], sample_rr 1 (addr_bytes 0x0A000001)] 0 0 []))) =
       Some (DNS_OK, Ref s') \<and>
     dns_resolve [] (Ref s') (Ref [65, 46, 98]) (Ref 0) = Some (DNS_OK, Ref s', Ref 0x0A000001, [])"
proof -
  have enc: "name_enc [1, 97, 1, 98, 0]" "name_enc [0xC0, 12]" unfolding name_enc_def
    by (rule exI [of _ "[[97], [98]]"], rule exI [of _ "[0]"], simp add: label_ok_def) (rule exI [of _ "[]"], rule exI [of _ "[0xC0, 12]"], simp)
  let ?r = "sample_rr 1 (addr_bytes 0x0A000001)" and ?a = "sample_rr 5 [1, 99, 0]" and ?q = "[([1, 97, 1, 98, 0], 1, 1)] :: (u8 list \<times> u16 \<times> u16) list"
  have "dns_ok sample_asked" "pending_id sample_asked = 0x4E21" "server_ip sample_asked \<noteq> 0"
    using sample_dns_ok(1,2) by (simp_all add: sample_asked_def dns_ok_def name_fits_def)
  moreover have "length (dns_response 0x4E21 0x8180 ?q [?a, ?r] 0 0 []) < 2 ^ 31"
    by (simp add: dns_response_def enc_question_def enc_rr_def sample_rr_def)
  moreover have "list_all (\<lambda>q. name_enc (fst q)) ?q" "list_all rr_ok [?a]" "\<not> list_ex is_address [?a]" "rr_ok ?r" "is_address ?r" "rr_data ?r = addr_bytes 0x0A000001"
    using enc by (simp_all add: rr_ok_def is_address_def sample_rr_def)
  ultimately show ?thesis
    using dns_response_resolves [of sample_asked "0x8180" ?q "[?a]" ?r "0x0A000001" "[]" _ 0 0 "[]" "[65, 46, 98]" "[]" 0]
    by (simp add: sample_asked_def ascii_lower_def)
qed

end
