(* ===== verification/Dhcp.thy ===== *)
theory Dhcp
  imports Inet
begin

text \<open>
  \<open>src/Drivers/dhcpcli/dhcpcli.c\<close>: the client side of the address exchange of RFC 2131, as a state machine driven by
  calls, incoming packets and the clock. A message is the list of its bytes, and a field of the packed structure
  \<open>dhcp_message_t\<close> is an access at its offset: \<open>xid\<close> at 4, \<open>flags\<close> at 10, \<open>ciaddr\<close> at 12, \<open>yiaddr\<close> at 16,
  \<open>siaddr\<close> at 20, \<open>giaddr\<close> at 24, \<open>chaddr\<close> at 28, \<open>magic\<close> at 236, \<open>options\<close> at 240, of 312 bytes. The transmit
  function is a parameter that acts on an arbitrary outside state and does not call back into the client.
\<close>

unbundle bit_operations_syntax

section \<open>Data\<close>

type_synonym dhcp_status_t = u32

abbreviation (input) DHCP_OK :: dhcp_status_t where "DHCP_OK \<equiv> 0"
abbreviation (input) DHCP_ERR_PARAM :: dhcp_status_t where "DHCP_ERR_PARAM \<equiv> 1"
abbreviation (input) DHCP_ERR_NOT_READY :: dhcp_status_t where "DHCP_ERR_NOT_READY \<equiv> 2"
abbreviation (input) DHCP_ERR_STATE :: dhcp_status_t where "DHCP_ERR_STATE \<equiv> 3"
abbreviation (input) DHCP_ERR_BAD_PACKET :: dhcp_status_t where "DHCP_ERR_BAD_PACKET \<equiv> 4"
abbreviation (input) DHCP_ERR_NAK :: dhcp_status_t where "DHCP_ERR_NAK \<equiv> 5"

datatype dhcp_state_t = DHCP_STATE_IDLE | DHCP_STATE_SELECTING | DHCP_STATE_REQUESTING | DHCP_STATE_BOUND
  | DHCP_STATE_RENEWING | DHCP_STATE_RELEASING

abbreviation (input) DHCPDISCOVER :: u8 where "DHCPDISCOVER \<equiv> 1"
abbreviation (input) DHCPOFFER :: u8 where "DHCPOFFER \<equiv> 2"
abbreviation (input) DHCPREQUEST :: u8 where "DHCPREQUEST \<equiv> 3"
abbreviation (input) DHCPACK :: u8 where "DHCPACK \<equiv> 5"
abbreviation (input) DHCPNAK :: u8 where "DHCPNAK \<equiv> 6"
abbreviation (input) DHCPRELEASE :: u8 where "DHCPRELEASE \<equiv> 7"

abbreviation (input) DHCP_MAGIC_COOKIE :: u32 where "DHCP_MAGIC_COOKIE \<equiv> 0x63825363"
abbreviation (input) DHCP_IP_BROADCAST :: u32 where "DHCP_IP_BROADCAST \<equiv> 0xFFFFFFFF"

type_synonym 'w dhcp_udp_tx_fn =
  "'w \<Rightarrow> u32 \<Rightarrow> u16 \<Rightarrow> u32 \<Rightarrow> u16 \<Rightarrow> u8 list \<Rightarrow> u32 \<Rightarrow> dhcp_status_t \<times> 'w"

record 'w dhcp_client_t =
  cli_state :: dhcp_state_t
  cli_initialized :: bool
  mac :: "u8 list"
  xid :: u32
  client_ip :: u32
  offered_ip :: u32
  server_id :: u32
  netmask :: u32
  router :: u32
  dns :: u32
  lease_seconds :: u32
  lease_remaining :: u32
  seed :: u32
  cli_udp_tx :: "'w dhcp_udp_tx_fn ptr"
  cli_scratch :: "u8 list"

section \<open>Messages\<close>

definition dhcp_put_ip :: "u8 list \<Rightarrow> nat \<Rightarrow> u32 \<Rightarrow> u8 list comp" where
  "dhcp_put_ip dst off ip = st32 dst off ip"

definition dhcp_get_ip :: "u8 list \<Rightarrow> nat \<Rightarrow> u32 comp" where
  "dhcp_get_ip src off = ld32 src off"

definition dhcp_next_xid :: "'w dhcp_client_t \<Rightarrow> (u32 \<times> 'w dhcp_client_t) comp" where
  "dhcp_next_xid cli =
     (let sd = seed cli * 1103515245 + 12345 in
      do { m5 \<leftarrow> c_rd (mac cli) 5; Some (drop_bit 8 sd XOR ucast m5, cli\<lparr>seed := sd\<rparr>) })"

text \<open>The fixed part, up to the magic number.\<close>

definition dhcp_fixed :: "'w dhcp_client_t \<Rightarrow> u8 \<Rightarrow> u8 list comp" where
  "dhcp_fixed cli msg_type =
     do { b \<leftarrow> c_for 0 576 (\<lambda>i b. c_wr b i 0) (cli_scratch cli);
          b \<leftarrow> c_wr b 0 1;
          b \<leftarrow> c_wr b 1 1;
          b \<leftarrow> c_wr b 2 6;
          b \<leftarrow> c_wr b 3 0;
          b \<leftarrow> st32 b 4 (ow_bswap32 (xid cli));
          b \<leftarrow> st16 b 8 0;
          b \<leftarrow> st16 b 10 (ow_bswap16 0x8000);
          b \<leftarrow> st32 b 12 (if msg_type = DHCPRELEASE then client_ip cli else 0);
          b \<leftarrow> st32 b 16 0;
          b \<leftarrow> st32 b 20 0;
          b \<leftarrow> st32 b 24 0;
          b \<leftarrow> c_for 0 6 (\<lambda>i b. do { v \<leftarrow> c_rd (mac cli) i; c_wr b (28 + i) v }) b;
          st32 b 236 (ow_bswap32 DHCP_MAGIC_COOKIE) }"

text \<open>\<open>m->options[opt++] = v\<close>, and an option that carries an address.\<close>

definition opt_put :: "u8 \<Rightarrow> u8 list \<times> nat \<Rightarrow> (u8 list \<times> nat) comp" where
  "opt_put v bo = (case bo of (b, opt) \<Rightarrow>
     if opt < 312 then do { b \<leftarrow> c_wr b (240 + opt) v; Some (b, Suc opt) } else None)"

definition opt_put_ip :: "u8 \<Rightarrow> u32 \<Rightarrow> u8 list \<times> nat \<Rightarrow> (u8 list \<times> nat) comp" where
  "opt_put_ip code ip bo =
     do { bo \<leftarrow> opt_put code bo;
          (b, opt) \<leftarrow> opt_put 4 bo;
          b \<leftarrow> dhcp_put_ip b (240 + opt) ip;
          Some (b, opt + 4) }"

definition dhcp_build :: "'w dhcp_client_t \<Rightarrow> u8 \<Rightarrow> u32 \<Rightarrow> u32 \<Rightarrow> (u32 \<times> 'w dhcp_client_t) comp" where
  "dhcp_build cli msg_type requested_ip server =
     do { b \<leftarrow> dhcp_fixed cli msg_type;
          bo \<leftarrow> opt_put 53 (b, 0);
          bo \<leftarrow> opt_put 1 bo;
          bo \<leftarrow> opt_put msg_type bo;
          bo \<leftarrow> (if requested_ip \<noteq> 0 then opt_put_ip 50 requested_ip bo else Some bo);
          bo \<leftarrow> (if server \<noteq> 0 then opt_put_ip 54 server bo else Some bo);
          bo \<leftarrow> (if msg_type \<noteq> DHCPRELEASE then
                 do { bo \<leftarrow> opt_put 55 bo; bo \<leftarrow> opt_put 3 bo; bo \<leftarrow> opt_put 1 bo; bo \<leftarrow> opt_put 3 bo; opt_put 6 bo }
               else Some bo);
          (b, opt) \<leftarrow> opt_put 255 bo;
          let len = 240 + of_nat opt;
          Some (if len < 300 then 300 else len, cli\<lparr>cli_scratch := b\<rparr>) }"

section \<open>Replies\<close>

text \<open>The \<open>switch\<close> over the option code; \<open>i\<close> is the index of the data of the option.\<close>

definition dhcp_option ::
  "u8 list \<Rightarrow> u8 \<Rightarrow> u8 \<Rightarrow> nat \<Rightarrow> u8 \<times> bool \<times> 'w dhcp_client_t \<Rightarrow> (u8 \<times> bool \<times> 'w dhcp_client_t) comp" where
  "dhcp_option m code olen i st = (case st of (type, has, cli) \<Rightarrow>
     if code = 53 then
       if olen \<ge> 1 then do { t \<leftarrow> c_rd m (240 + i); Some (t, has, cli) } else Some st
     else if code \<in> {1, 3, 6, 51, 54} \<and> olen \<ge> 4 then
       do { ip \<leftarrow> dhcp_get_ip m (240 + i);
            Some (if code = 1 then (type, has, cli\<lparr>netmask := ip\<rparr>)
                  else if code = 3 then (type, has, cli\<lparr>router := ip\<rparr>)
                  else if code = 6 then (type, has, cli\<lparr>dns := ip\<rparr>)
                  else if code = 51 then (type, has, cli\<lparr>lease_seconds := ow_bswap32 ip\<rparr>)
                  else (type, True, cli\<lparr>server_id := ip\<rparr>)) }
     else Some st)"

function dhcp_options ::
  "u8 list \<Rightarrow> nat \<Rightarrow> u8 \<times> bool \<times> 'w dhcp_client_t \<Rightarrow> (u8 \<times> bool \<times> 'w dhcp_client_t) comp" where
  "dhcp_options m i st =
     (if i < 312 then
        do { code \<leftarrow> c_rd m (240 + i);
             if code = 0 then dhcp_options m (i + 1) st
             else if code = 255 then Some st
             else if i + 1 \<ge> 312 then Some st
             else do { olen \<leftarrow> c_rd m (240 + (i + 1));
                       if i + 2 + unat olen > 312 then Some st
                       else do { st \<leftarrow> dhcp_option m code olen (i + 2) st;
                                 dhcp_options m (i + 2 + unat olen) st } } }
      else Some st)"
  by pat_completeness auto
termination by (relation "measure (\<lambda>(m, i, st). 312 - i)") auto

declare dhcp_options.simps [simp del]

definition dhcp_parse_options :: "'w dhcp_client_t \<Rightarrow> u8 list \<Rightarrow> (u8 \<times> bool \<times> 'w dhcp_client_t) comp" where
  "dhcp_parse_options cli m = dhcp_options m 0 (0, False, cli)"

section \<open>The interface\<close>

definition dhcp_init ::
  "'w dhcp_client_t ptr \<Rightarrow> u8 list ptr \<Rightarrow> 'w dhcp_udp_tx_fn ptr \<Rightarrow> (dhcp_status_t \<times> 'w dhcp_client_t ptr) comp" where
  "dhcp_init cli hw tx =
     (case (cli, hw, tx) of
        (Ref _, Ref hw, Ref _) \<Rightarrow>
          do { a \<leftarrow> c_for 0 6 (\<lambda>i a. do { v \<leftarrow> c_rd hw i; c_wr a i v }) (replicate 6 0);
               m3 \<leftarrow> c_rd hw 3;
               Some (DHCP_OK, Ref \<lparr>cli_state = DHCP_STATE_IDLE, cli_initialized = True, mac = a, xid = 0, client_ip = 0,
                 offered_ip = 0, server_id = 0, netmask = 0, router = 0, dns = 0, lease_seconds = 0, lease_remaining = 0,
                 seed = 0x2545F491 XOR ucast m3, cli_udp_tx = tx, cli_scratch = replicate 576 0\<rparr>) }
      | _ \<Rightarrow> Some (DHCP_ERR_PARAM, cli))"

text \<open>The call through \<open>cli->udp_tx\<close>.\<close>

definition dhcp_tx ::
  "'w \<Rightarrow> 'w dhcp_client_t \<Rightarrow> u32 \<Rightarrow> u32 \<Rightarrow> u32 \<Rightarrow> (dhcp_status_t \<times> 'w) comp" where
  "dhcp_tx w cli src dst len = (case cli_udp_tx cli of NULL \<Rightarrow> None | Ref tx \<Rightarrow> Some (tx w src 68 dst 67 (cli_scratch cli) len))"

definition dhcp_discover :: "'w \<Rightarrow> 'w dhcp_client_t ptr \<Rightarrow> (dhcp_status_t \<times> 'w dhcp_client_t ptr \<times> 'w) comp" where
  "dhcp_discover w p =
     (case p of NULL \<Rightarrow> Some (DHCP_ERR_PARAM, p, w)
      | Ref cli \<Rightarrow>
         if \<not> cli_initialized cli then Some (DHCP_ERR_NOT_READY, p, w)
         else do { (x, cli) \<leftarrow> dhcp_next_xid cli;
                   let cli = cli\<lparr>xid := x, offered_ip := 0, server_id := 0\<rparr>;
                   (len, cli) \<leftarrow> dhcp_build cli DHCPDISCOVER 0 0;
                   let cli = cli\<lparr>cli_state := DHCP_STATE_SELECTING\<rparr>;
                   (rc, w) \<leftarrow> dhcp_tx w cli 0 DHCP_IP_BROADCAST len;
                   Some (rc, Ref cli, w) })"

definition dhcp_request :: "'w \<Rightarrow> 'w dhcp_client_t ptr \<Rightarrow> (dhcp_status_t \<times> 'w dhcp_client_t ptr \<times> 'w) comp" where
  "dhcp_request w p =
     (case p of NULL \<Rightarrow> Some (DHCP_ERR_PARAM, p, w)
      | Ref cli \<Rightarrow>
         if \<not> cli_initialized cli then Some (DHCP_ERR_NOT_READY, p, w)
         else if cli_state cli \<noteq> DHCP_STATE_SELECTING \<or> offered_ip cli = 0 \<or> server_id cli = 0 then Some (DHCP_ERR_STATE, p, w)
         else do { (len, cli) \<leftarrow> dhcp_build cli DHCPREQUEST (offered_ip cli) (server_id cli);
                   let cli = cli\<lparr>cli_state := DHCP_STATE_REQUESTING\<rparr>;
                   (rc, w) \<leftarrow> dhcp_tx w cli 0 DHCP_IP_BROADCAST len;
                   Some (rc, Ref cli, w) })"

text \<open>The assignments that \<open>dhcp_release\<close> and the refusal by a server share.\<close>

definition dhcp_forget :: "'w dhcp_client_t \<Rightarrow> 'w dhcp_client_t" where
  "dhcp_forget cli = cli\<lparr>cli_state := DHCP_STATE_IDLE, client_ip := 0, offered_ip := 0, server_id := 0, netmask := 0,
     router := 0, dns := 0, lease_seconds := 0, lease_remaining := 0\<rparr>"

definition dhcp_release :: "'w \<Rightarrow> 'w dhcp_client_t ptr \<Rightarrow> (dhcp_status_t \<times> 'w dhcp_client_t ptr \<times> 'w) comp" where
  "dhcp_release w p =
     (case p of NULL \<Rightarrow> Some (DHCP_ERR_PARAM, p, w)
      | Ref cli \<Rightarrow>
         if \<not> cli_initialized cli then Some (DHCP_ERR_NOT_READY, p, w)
         else if cli_state cli \<noteq> DHCP_STATE_BOUND \<and> cli_state cli \<noteq> DHCP_STATE_RENEWING then Some (DHCP_ERR_STATE, p, w)
         else do { (len, cli) \<leftarrow> dhcp_build cli DHCPRELEASE 0 (server_id cli);
                   let cli = cli\<lparr>cli_state := DHCP_STATE_RELEASING\<rparr>;
                   (rc, w) \<leftarrow> dhcp_tx w cli (client_ip cli) (server_id cli) len;
                   Some (rc, Ref (dhcp_forget cli), w) })"

definition dhcp_input :: "'w dhcp_client_t ptr \<Rightarrow> u8 list ptr \<Rightarrow> u32 \<Rightarrow> (dhcp_status_t \<times> 'w dhcp_client_t ptr) comp" where
  "dhcp_input p packet len =
     (case (p, packet) of
        (Ref cli, Ref m) \<Rightarrow>
          if \<not> cli_initialized cli then Some (DHCP_ERR_NOT_READY, p)
          else if len < 300 then Some (DHCP_ERR_BAD_PACKET, p)
          else do {
            op \<leftarrow> c_rd m 0;
            if op \<noteq> 2 then Some (DHCP_ERR_BAD_PACKET, p)
            else do {
              magic \<leftarrow> ld32 m 236;
              if ow_bswap32 magic \<noteq> DHCP_MAGIC_COOKIE then Some (DHCP_ERR_BAD_PACKET, p)
              else do {
                x \<leftarrow> ld32 m 4;
                if ow_bswap32 x \<noteq> xid cli then Some (DHCP_ERR_BAD_PACKET, p)
                else do {
                  h0 \<leftarrow> c_rd m 28; a0 \<leftarrow> c_rd (mac cli) 0;
                  h1 \<leftarrow> c_rd m 29; a1 \<leftarrow> c_rd (mac cli) 1;
                  h2 \<leftarrow> c_rd m 30; a2 \<leftarrow> c_rd (mac cli) 2;
                  if h0 \<noteq> a0 \<or> h1 \<noteq> a1 \<or> h2 \<noteq> a2 then Some (DHCP_ERR_BAD_PACKET, p)
                  else do {
                    (type, has_server_id, cli) \<leftarrow> dhcp_parse_options cli m;
                    if type = DHCPOFFER then
                      if cli_state cli \<noteq> DHCP_STATE_SELECTING then Some (DHCP_ERR_STATE, Ref cli)
                      else do { yi \<leftarrow> ld32 m 16;
                                sid \<leftarrow> (if has_server_id then Some (server_id cli) else ld32 m 20);
                                Some (DHCP_OK, Ref (cli\<lparr>offered_ip := yi, server_id := sid\<rparr>)) }
                    else if type = DHCPACK then
                      if cli_state cli \<noteq> DHCP_STATE_REQUESTING \<and> cli_state cli \<noteq> DHCP_STATE_RENEWING then Some (DHCP_ERR_STATE, Ref cli)
                      else do { yi \<leftarrow> ld32 m 16;
                                let lease = (if lease_seconds cli = 0 then 3600 else lease_seconds cli);
                                Some (DHCP_OK, Ref (cli\<lparr>client_ip := yi, lease_seconds := lease, lease_remaining := lease,
                                  cli_state := DHCP_STATE_BOUND\<rparr>)) }
                    else if type = DHCPNAK then Some (DHCP_ERR_NAK, Ref (dhcp_forget cli))
                    else Some (DHCP_ERR_BAD_PACKET, Ref cli) } } } } }
      | _ \<Rightarrow> Some (DHCP_ERR_PARAM, p))"

definition dhcp_tick :: "'w dhcp_client_t ptr \<Rightarrow> u32 \<Rightarrow> dhcp_status_t \<times> 'w dhcp_client_t ptr" where
  "dhcp_tick p elapsed =
     (case p of NULL \<Rightarrow> (DHCP_ERR_PARAM, p)
      | Ref cli \<Rightarrow>
         if \<not> cli_initialized cli then (DHCP_ERR_NOT_READY, p)
         else if cli_state cli \<noteq> DHCP_STATE_BOUND \<and> cli_state cli \<noteq> DHCP_STATE_RENEWING then (DHCP_OK, p)
         else if lease_remaining cli \<le> elapsed then
           (DHCP_OK, Ref (cli\<lparr>lease_remaining := 0, client_ip := 0, netmask := 0, router := 0, dns := 0, cli_state := DHCP_STATE_IDLE\<rparr>))
         else (DHCP_OK, Ref (cli\<lparr>lease_remaining := lease_remaining cli - elapsed\<rparr>)))"

definition dhcp_state :: "'w dhcp_client_t ptr \<Rightarrow> dhcp_state_t" where
  "dhcp_state p = (case p of NULL \<Rightarrow> DHCP_STATE_IDLE | Ref cli \<Rightarrow> cli_state cli)"

section \<open>What is sent\<close>

definition dhcp_opts :: "u8 \<Rightarrow> u32 \<Rightarrow> u32 \<Rightarrow> u8 list" where
  "dhcp_opts ty req srv = [53, 1, ty] @ (if req \<noteq> 0 then [50, 4] @ addr_bytes req else []) @
     (if srv \<noteq> 0 then [54, 4] @ addr_bytes srv else []) @ (if ty \<noteq> DHCPRELEASE then [55, 3, 1, 3, 6] else []) @ [255]"

text \<open>A request of RFC 2131: a broadcast from an Ethernet host, padded to 300 bytes.\<close>

definition dhcp_head :: "u32 \<Rightarrow> u32 \<Rightarrow> u8 list \<Rightarrow> u8 list" where
  "dhcp_head x ci hw = [1, 1, 6, 0] @ be32 x @ [0, 0] @ be16 0x8000 @ addr_bytes ci @ replicate 12 0 @ hw @ replicate 202 0 @ be32 DHCP_MAGIC_COOKIE"

definition dhcp_packet :: "nat \<Rightarrow> u32 \<Rightarrow> u32 \<Rightarrow> u8 list \<Rightarrow> u8 list \<Rightarrow> u8 list" where
  "dhcp_packet n x ci hw os = dhcp_head x ci hw @ os @ replicate (n - 240 - length os) 0"

definition dhcp_ok :: "'w dhcp_client_t \<Rightarrow> bool" where
  "dhcp_ok c \<longleftrightarrow> cli_initialized c \<and> length (mac c) = 6 \<and> cli_udp_tx c \<noteq> NULL \<and> length (cli_scratch c) = 576"

lemma length_dhcp_opts: "length (dhcp_opts ty req srv) \<le> 21"
  by (simp add: dhcp_opts_def)

lemma length_dhcp_head: "length hw = 6 \<Longrightarrow> length (dhcp_head x ci hw) = 240"
  by (simp add: dhcp_head_def)

lemma addr_bytes_0: "addr_bytes 0 = [0, 0, 0, 0]"
  by (simp add: addr_bytes_def be32_def ow_bswap32_def)

text \<open>Writing behind what was written, into the zeros that are left.\<close>

lemma zeros_next:
  assumes "length p = off"
  shows "1 \<le> n \<Longrightarrow> c_wr (p @ replicate n 0) off v = Some ((p @ [v]) @ replicate (n - 1) 0)"
    and "2 \<le> n \<Longrightarrow> st16 (p @ replicate n 0) off 0 = Some ((p @ [0, 0]) @ replicate (n - 2) 0)"
    and "2 \<le> n \<Longrightarrow> st16 (p @ replicate n 0) off (ow_bswap16 h) = Some ((p @ be16 h) @ replicate (n - 2) 0)"
    and "4 \<le> n \<Longrightarrow> st32 (p @ replicate n 0) off (ow_bswap32 x) = Some ((p @ be32 x) @ replicate (n - 4) 0)"
    and "4 \<le> n \<Longrightarrow> st32 (p @ replicate n 0) off a = Some ((p @ addr_bytes a) @ replicate (n - 4) 0)"
  using assms c_wr_next [of p off "replicate n 0" v] st16_next0 [of p off "replicate n 0"] st16_next [of p off "replicate n 0" h]
    st32_next [of p off "replicate n 0" x] st32_addr [of p off "replicate n 0" a] by (auto simp: be16_0)

lemma dhcp_fixed_eq:
  assumes "dhcp_ok c"
  shows "dhcp_fixed c ty = Some (dhcp_head (xid c) (if ty = DHCPRELEASE then client_ip c else 0) (mac c) @ replicate 336 0)"
proof -
  have len: "length (cli_scratch c) = 576" "length (mac c) = 6" using assms by (simp_all add: dhcp_ok_def)
  define ci hw where "ci = (if ty = DHCPRELEASE then client_ip c else 0)" and "hw = mac c"
  have zero: "c_for 0 576 (\<lambda>i b. c_wr b i 0) (cli_scratch c) = Some ([] @ replicate 576 0)"
    using c_for_fill [of 0 576 "\<lambda>i. Some 0" "\<lambda>_. 0" 0 "cli_scratch c"] len by (simp add: map_replicate_const patch_0)
  let ?p4 = "((([] @ [1]) @ [1]) @ [6]) @ [0] :: u8 list" let ?p12 = "((?p4 @ be32 (xid c)) @ [0, 0]) @ be16 0x8000"
  let ?p28 = "(((?p12 @ addr_bytes ci) @ addr_bytes 0) @ addr_bytes 0) @ addr_bytes 0"
  have copy: "c_for 0 6 (\<lambda>i b. do { v \<leftarrow> c_rd hw i; c_wr b (28 + i) v }) (?p28 @ replicate 548 0) = Some ((?p28 @ hw) @ replicate 542 0)"
    using c_for_copy [of 6 hw 28 "?p28 @ replicate 548 0"] len by (simp add: hw_def patch_def)
  have gap: "(?p28 @ hw) @ replicate 542 0 = ((?p28 @ hw) @ replicate 202 0) @ replicate 340 0"
    using replicate_add [of 202 340 "0 :: u8"] by simp
  have magic: "st32 (((?p28 @ hw) @ replicate 202 0) @ replicate 340 0) 236 (ow_bswap32 DHCP_MAGIC_COOKIE) =
      Some ((((?p28 @ hw) @ replicate 202 0) @ be32 DHCP_MAGIC_COOKIE) @ replicate 336 0)"
    by (subst zeros_next) (simp_all add: hw_def len)
  have "c_wr ([] @ replicate 576 0) 0 1 = Some (([] @ [1 :: u8]) @ replicate 575 0)" "c_wr (([] @ [1 :: u8]) @ replicate 575 0) 1 1 = Some ((([] @ [1]) @ [1]) @ replicate 574 0)"
    "c_wr ((([] @ [1 :: u8]) @ [1]) @ replicate 574 0) 2 6 = Some (((([] @ [1]) @ [1]) @ [6]) @ replicate 573 0)" "c_wr (((([] @ [1 :: u8]) @ [1]) @ [6]) @ replicate 573 0) 3 0 = Some (?p4 @ replicate 572 0)"
    "st32 (?p4 @ replicate 572 0) 4 (ow_bswap32 (xid c)) = Some ((?p4 @ be32 (xid c)) @ replicate 568 0)"
    "st16 ((?p4 @ be32 (xid c)) @ replicate 568 0) 8 0 = Some (((?p4 @ be32 (xid c)) @ [0, 0]) @ replicate 566 0)"
    "st16 (((?p4 @ be32 (xid c)) @ [0, 0]) @ replicate 566 0) 10 (ow_bswap16 0x8000) = Some (?p12 @ replicate 564 0)"
    "st32 (?p12 @ replicate 564 0) 12 ci = Some ((?p12 @ addr_bytes ci) @ replicate 560 0)"
    "st32 ((?p12 @ addr_bytes ci) @ replicate 560 0) 16 0 = Some (((?p12 @ addr_bytes ci) @ addr_bytes 0) @ replicate 556 0)"
    "st32 (((?p12 @ addr_bytes ci) @ addr_bytes 0) @ replicate 556 0) 20 0 = Some ((((?p12 @ addr_bytes ci) @ addr_bytes 0) @ addr_bytes 0) @ replicate 552 0)"
    "st32 ((((?p12 @ addr_bytes ci) @ addr_bytes 0) @ addr_bytes 0) @ replicate 552 0) 24 0 = Some (?p28 @ replicate 548 0)"
    by ((subst zeros_next, simp_all)[1])+
  then have "dhcp_fixed c ty = Some ((((?p28 @ hw) @ replicate 202 0) @ be32 DHCP_MAGIC_COOKIE) @ replicate 336 0)"
    unfolding dhcp_fixed_def zero ci_def [symmetric] hw_def [symmetric] by (simp only: bind.bind_lunit copy gap magic)
  moreover have "addr_bytes 0 @ addr_bytes 0 @ addr_bytes 0 = replicate 12 0" by (simp add: addr_bytes_0 numeral_eq_Suc)
  ultimately show ?thesis by (simp add: dhcp_head_def hw_def ci_def)
qed

definition opt_at :: "u8 list \<Rightarrow> u8 list \<Rightarrow> u8 list \<times> nat" where
  "opt_at h os = (h @ os @ replicate (336 - length os) 0, length os)"

lemma opt_put_at:
  assumes "length h = 240" and "length os < 312"
  shows "opt_put v (opt_at h os) = Some (opt_at h (os @ [v]))"
  using zeros_next(1) [of "h @ os" "240 + length os" "336 - length os" v] assms by (simp add: opt_put_def opt_at_def)

lemma opt_put_ip_at:
  assumes "length h = 240" and "length os < 300"
  shows "opt_put_ip code ip (opt_at h os) = Some (opt_at h (os @ [code, 4] @ addr_bytes ip))"
proof -
  have "opt_put code (opt_at h os) = Some (opt_at h (os @ [code]))" "opt_put 4 (opt_at h (os @ [code])) = Some (opt_at h (os @ [code, 4]))"
    using opt_put_at [of h os code] opt_put_at [of h "os @ [code]" 4] assms by simp_all
  moreover have "st32 (h @ os @ code # 4 # replicate (334 - length os) 0) (242 + length os) ip =
      Some (h @ os @ code # 4 # addr_bytes ip @ replicate (330 - length os) 0)"
    using zeros_next(5) [of "h @ os @ [code, 4]" "242 + length os" "334 - length os" ip] assms by simp
  ultimately show ?thesis by (simp add: opt_put_ip_def dhcp_put_ip_def) (simp add: opt_at_def)
qed

lemma dhcp_build_eq:
  assumes "dhcp_ok c"
  shows "dhcp_build c ty req srv = Some (300, c\<lparr>cli_scratch :=
     dhcp_packet 576 (xid c) (if ty = DHCPRELEASE then client_ip c else 0) (mac c) (dhcp_opts ty req srv)\<rparr>)"
proof -
  let ?h = "dhcp_head (xid c) (if ty = DHCPRELEASE then client_ip c else 0) (mac c)"
  have h: "length (dhcp_head x ci (mac c)) = 240" for x ci using assms by (simp add: dhcp_ok_def length_dhcp_head)
  have start: "(?h @ replicate 336 0, 0) = opt_at ?h []" by (simp add: opt_at_def)
  have "dhcp_build c ty req srv = do { (b, opt) \<leftarrow> Some (opt_at ?h (dhcp_opts ty req srv)); let len = 240 + of_nat opt;
      Some (if len < 300 then 300 else len, c\<lparr>cli_scratch := b\<rparr>) }"
    unfolding dhcp_build_def dhcp_fixed_eq [OF assms] dhcp_opts_def
    by (simp add: start opt_put_at opt_put_ip_at h)
  moreover have "(240 + of_nat (length (dhcp_opts ty req srv)) :: u32) < 300"
  proof -
    have "unat (of_nat (240 + length (dhcp_opts ty req srv)) :: u32) = 240 + length (dhcp_opts ty req srv)"
      using length_dhcp_opts [of ty req srv] by (intro unat_of_nat_u32) simp
    then show ?thesis using length_dhcp_opts [of ty req srv] by (simp add: word_less_nat_alt)
  qed
  ultimately show ?thesis by (simp add: opt_at_def dhcp_packet_def Let_def)
qed

text \<open>Of the buffer the first 300 bytes are sent.\<close>

lemma take_dhcp_packet: "length hw = 6 \<Longrightarrow> length os \<le> 21 \<Longrightarrow> take 300 (dhcp_packet 576 x ci hw os) = dhcp_packet 300 x ci hw os"
  by (simp add: dhcp_packet_def length_dhcp_head)

section \<open>What is received\<close>

text \<open>What the options can change, and what they leave alone.\<close>

definition opts_stored :: "'w dhcp_client_t \<Rightarrow> 'w dhcp_client_t \<Rightarrow> bool" where
  "opts_stored c c' \<longleftrightarrow> (\<exists>a b d e f. c' = c\<lparr>netmask := a, router := b, dns := d, lease_seconds := e, server_id := f\<rparr>)"

lemma opts_stored_upd:
  "opts_stored c c" "opts_stored c (c\<lparr>netmask := v\<rparr>)" "opts_stored c (c\<lparr>router := v\<rparr>)" "opts_stored c (c\<lparr>dns := v\<rparr>)"
  "opts_stored c (c\<lparr>lease_seconds := v\<rparr>)" "opts_stored c (c\<lparr>server_id := v\<rparr>)"
  unfolding opts_stored_def
  by (rule exI [of _ "netmask c"] exI [of _ v], rule exI [of _ "router c"] exI [of _ v], rule exI [of _ "dns c"] exI [of _ v],
      rule exI [of _ "lease_seconds c"] exI [of _ v], rule exI [of _ "server_id c"] exI [of _ v], simp; fail)+

lemma opts_stored_trans: "opts_stored c d \<Longrightarrow> opts_stored d e \<Longrightarrow> opts_stored c e"
  by (fastforce simp: opts_stored_def)

lemma opts_storedD:
  "opts_stored c d \<Longrightarrow> cli_state d = cli_state c \<and> cli_initialized d = cli_initialized c \<and> mac d = mac c \<and> xid d = xid c \<and> client_ip d = client_ip c \<and>
     offered_ip d = offered_ip c \<and> lease_remaining d = lease_remaining c \<and> cli_udp_tx d = cli_udp_tx c \<and> cli_scratch d = cli_scratch c"
  by (auto simp: opts_stored_def)

lemma dhcp_option_safe:
  assumes "552 \<le> length m" and "i + unat olen \<le> 312"
  shows "\<exists>ty has c'. dhcp_option m code olen i (t0, h0, c) = Some (ty, has, c') \<and> opts_stored c c'"
proof -
  have four: "\<exists>ip. dhcp_get_ip m (240 + i) = Some ip" if "olen \<ge> 4"
    using that ld32_total [of "240 + i" m] assms by (simp add: dhcp_get_ip_def word_le_nat_alt)
  have one: "\<exists>t. c_rd m (240 + i) = Some t" if "olen \<ge> 1" using that assms by (simp add: word_le_nat_alt)
  show ?thesis
  proof (cases "code \<in> {1, 3, 6, 51, 54} \<and> olen \<ge> 4")
    case True
    then show ?thesis using four by (auto simp: dhcp_option_def opts_stored_upd)
  next
    case False
    then show ?thesis using one by (auto simp: dhcp_option_def opts_stored_upd simp del: c_rd_in)
  qed
qed

lemma dhcp_options_safe:
  assumes "552 \<le> length m"
  shows "\<exists>ty has c'. dhcp_options m i (t0, h0, c) = Some (ty, has, c') \<and> opts_stored c c'"
proof (induction "312 - i" arbitrary: i t0 h0 c rule: less_induct)
  case less
  show ?case
  proof (cases "i < 312")
    case True
    note step = dhcp_options.simps [of m i "(t0, h0, c)"]
    have rd: "c_rd m (240 + i) = Some (m ! (240 + i))" using True assms by simp
    let ?o = "m ! (240 + (i + 1))"
    consider (pad) "m ! (240 + i) = 0" | (stop) "m ! (240 + i) = 255 \<or> i + 1 \<ge> 312 \<or> i + 2 + unat ?o > 312" "m ! (240 + i) \<noteq> 0"
      | (opt) "m ! (240 + i) \<noteq> 0" "m ! (240 + i) \<noteq> 255" "i + 1 < 312" "i + 2 + unat ?o \<le> 312" by fastforce
    then show ?thesis
    proof cases
      case pad
      then show ?thesis using less [of "i + 1"] True rd step by simp
    next
      case stop
      then show ?thesis using True rd step assms by (auto simp: opts_stored_upd(1))
    next
      case opt
      from dhcp_option_safe [OF assms opt(4), of "m ! (240 + i)" t0 h0 c] obtain t1 h1 c1 where
        o: "dhcp_option m (m ! (240 + i)) ?o (i + 2) (t0, h0, c) = Some (t1, h1, c1)" "opts_stored c c1" by auto
      have "312 - (i + 2 + unat ?o) < 312 - i" using True by linarith
      from less [OF this, of t1 h1 c1] obtain t2 h2 c2 where
        r: "dhcp_options m (i + 2 + unat ?o) (t1, h1, c1) = Some (t2, h2, c2)" "opts_stored c1 c2" by blast
      have "c_rd m (240 + (i + 1)) = Some ?o" "\<not> 312 \<le> i + 1" "\<not> 312 < i + 2 + unat ?o" using opt(3,4) assms by simp_all
      then have "dhcp_options m i (t0, h0, c) = Some (t2, h2, c2)"
        using True rd opt(1,2) o(1) r(1) by (subst step) (simp only: bind.bind_lunit if_True if_False)
      then show ?thesis using opts_stored_trans [OF o(2) r(2)] by blast
    qed
  qed (simp add: dhcp_options.simps opts_stored_upd(1))
qed

text \<open>Options as RFC 2132 encodes them; a code of zero is padding.\<close>

type_synonym dhcp_opt = "u8 \<times> u8 list"

definition enc_opt :: "dhcp_opt \<Rightarrow> u8 list" where
  "enc_opt opt = (case opt of (code, d) \<Rightarrow> if code = 0 then [0] else code # of_nat (length d) # d)"

definition opt_ok :: "dhcp_opt \<Rightarrow> bool" where
  "opt_ok opt \<longleftrightarrow> fst opt \<noteq> 255 \<and> length (snd opt) < 256"

text \<open>The last option with a code decides.\<close>

fun opt_type :: "dhcp_opt list \<Rightarrow> u8 \<Rightarrow> u8" where
  "opt_type [] v = v"
| "opt_type ((code, d) # os) v = opt_type os (if code = 53 \<and> d \<noteq> [] then d ! 0 else v)"

fun opt_addr :: "u8 \<Rightarrow> dhcp_opt list \<Rightarrow> u32 \<Rightarrow> u32" where
  "opt_addr k [] v = v"
| "opt_addr k ((code, d) # os) v = opt_addr k os (if code = k \<and> 4 \<le> length d then the (ld32 d 0) else v)"

definition opt_has :: "u8 \<Rightarrow> dhcp_opt list \<Rightarrow> bool" where
  "opt_has k os = list_ex (\<lambda>(code, d). code = k \<and> 4 \<le> length d) os"

definition with_opts :: "dhcp_opt list \<Rightarrow> 'w dhcp_client_t \<Rightarrow> 'w dhcp_client_t" where
  "with_opts os c = c\<lparr>netmask := opt_addr 1 os (netmask c), router := opt_addr 3 os (router c), dns := opt_addr 6 os (dns c),
     lease_seconds := ow_bswap32 (opt_addr 51 os (ow_bswap32 (lease_seconds c))), server_id := opt_addr 54 os (server_id c)\<rparr>"

lemma ld32_data: "length p = off \<Longrightarrow> 4 \<le> length d \<Longrightarrow> ld32 (p @ d @ rest) off = Some (the (ld32 d 0))"
proof -
  assume "length p = off" "4 \<le> length d"
  then have "c_rd (p @ d @ rest) (off + k) = Some (d ! k)" "c_rd d k = Some (d ! k)" if "k < 4" for k using that by (simp_all add: nth_append)
  from this [of 0] this [of 1] this [of 2] this [of 3] show ?thesis by (simp add: ld32_def numeral_2_eq_2 del: c_rd_in)
qed

lemma ld32_be_at: "length p = off \<Longrightarrow> ld32 (p @ be32 v @ rest) off = Some (ow_bswap32 v)"
  by (rule ld32_be) simp_all

lemma with_opts_Nil: "with_opts [] c = c"
  by (simp add: with_opts_def bswap32_id)

lemma dhcp_option_data:
  assumes "m = pre @ d @ rest" and "length pre = 240 + i" and "length d < 256" and "code \<noteq> 0"
  shows "dhcp_option m code (of_nat (length d)) i (t, h, c) =
     Some (opt_type [(code, d)] t, h \<or> opt_has 54 [(code, d)], with_opts [(code, d)] c)"
proof -
  have u: "unat (of_nat (length d) :: u8) = length d" using assms(3) by (simp add: unat_of_nat take_bit_nat_eq_self)
  then have le: "(1 :: u8) \<le> of_nat (length d) \<longleftrightarrow> d \<noteq> []" "(4 :: u8) \<le> of_nat (length d) \<longleftrightarrow> 4 \<le> length d"
    by (auto simp: word_le_nat_alt Suc_le_eq)
  have ip: "4 \<le> length d \<Longrightarrow> dhcp_get_ip m (240 + i) = Some (the (ld32 d 0))"
    unfolding dhcp_get_ip_def assms(1) by (rule ld32_data) (use assms(2) in simp_all)
  have ty: "d \<noteq> [] \<Longrightarrow> c_rd m (240 + i) = Some (d ! 0)"
    using assms(1,2) c_rd_at [of pre "240 + i" "hd d" "tl d @ rest"] by (cases d) simp_all
  show ?thesis
    by (cases "4 \<le> length d"; cases "d = []")
      (auto simp: dhcp_option_def le ip ty with_opts_def opt_has_def bswap32_id simp del: c_rd_in)
qed

lemma opts_Cons:
  "opt_type (opt # os) t = opt_type os (opt_type [opt] t)" "opt_has k (opt # os) \<longleftrightarrow> opt_has k [opt] \<or> opt_has k os"
  "with_opts (opt # os) c = with_opts os (with_opts [opt] c)"
  by (cases opt, simp_all add: opt_has_def with_opts_def bswap32_id)+

lemma pad_opts: "opt_type [(0, d)] t = t" "\<not> opt_has 54 [(0, d)]" "with_opts [(0, d)] c = c"
  by (simp_all add: opt_has_def with_opts_def bswap32_id)

lemma dhcp_options_enc:
  assumes "m = pre @ concat (map enc_opt os) @ rest" and "length pre = 240 + i" and "i + length (concat (map enc_opt os)) < 312" and "list_all opt_ok os"
  shows "dhcp_options m i (t, h, c) = dhcp_options m (i + length (concat (map enc_opt os))) (opt_type os t, h \<or> opt_has 54 os, with_opts os c)"
  using assms
proof (induction os arbitrary: pre i t h c)
  case Nil
  then show ?case by (simp add: opt_has_def with_opts_Nil)
next
  case (Cons opt os)
  obtain code d where opt: "opt = (code, d)" by fastforce
  define tail n where "tail = concat (map enc_opt os) @ rest" and "n = i + length (concat (map enc_opt (opt # os)))"
  have m: "m = pre @ enc_opt opt @ tail" using Cons.prems(1) by (simp add: tail_def)
  note IH = Cons.IH [of "pre @ enc_opt opt"]
  have i: "i < 312" using Cons.prems(3) by simp
  show ?case
  proof (cases "code = 0")
    case True
    then have "c_rd m (240 + i) = Some 0" using Cons.prems(2) by (simp add: m enc_opt_def opt c_rd_at del: c_rd_in)
    moreover have "dhcp_options m (i + 1) (t, h, c) = dhcp_options m n (opt_type os t, h \<or> opt_has 54 os, with_opts os c)"
      using Cons.prems True IH [of "i + 1" t h c] by (simp add: m n_def tail_def enc_opt_def opt)
    ultimately show ?thesis using i True unfolding n_def [symmetric] opts_Cons(1,3) [of opt os] opts_Cons(2) [of _ opt os]
      by (simp add: dhcp_options.simps [of m i] opt pad_opts del: c_rd_in opt_type.simps)
  next
    case False
    have ok: "code \<noteq> 255" "length d < 256" using Cons.prems(4) by (simp_all add: opt_ok_def opt)
    have e: "enc_opt opt = [code, of_nat (length d)] @ d" using False by (simp add: enc_opt_def opt)
    have "unat (of_nat (length d) :: u8) = length d" using ok(2) by (simp add: unat_of_nat take_bit_nat_eq_self)
    moreover have "c_rd m (240 + i) = Some code" "c_rd m (240 + (i + 1)) = Some (of_nat (length d))"
      using Cons.prems(2) c_rd_at [of pre "240 + i" code] c_rd_at [of "pre @ [code]" "240 + (i + 1)" "of_nat (length d)"] by (simp_all add: m e del: c_rd_in)
    moreover have "dhcp_option m code (of_nat (length d)) (i + 2) (t, h, c) = Some (opt_type [opt] t, h \<or> opt_has 54 [opt], with_opts [opt] c)"
      unfolding opt by (rule dhcp_option_data [of _ "pre @ [code, of_nat (length d)]" _ tail]) (use Cons.prems(2) ok False in \<open>simp_all add: m e\<close>)
    moreover have "dhcp_options m (i + 2 + length d) (opt_type [opt] t, h \<or> opt_has 54 [opt], with_opts [opt] c) =
        dhcp_options m n (opt_type os (opt_type [opt] t), (h \<or> opt_has 54 [opt]) \<or> opt_has 54 os, with_opts os (with_opts [opt] c))"
      using Cons.prems IH [of "i + 2 + length d" "opt_type [opt] t" "h \<or> opt_has 54 [opt]" "with_opts [opt] c"] by (simp add: m n_def tail_def e add.assoc)
    moreover have "\<not> 312 \<le> i + 1" "\<not> 312 < i + 2 + length d" using Cons.prems(3) by (simp_all add: e)
    ultimately show ?thesis using i False ok(1) unfolding n_def [symmetric] opts_Cons(1,3) [of opt os] opts_Cons(2) [of _ opt os]
      by (subst dhcp_options.simps) (simp only: bind.bind_lunit if_True if_False disj_assoc)
  qed
qed

lemma dhcp_options_end: "c_rd m (240 + i) = Some 255 \<Longrightarrow> i < 312 \<Longrightarrow> dhcp_options m i st = Some st"
  by (subst dhcp_options.simps) (simp del: c_rd_in)

lemma dhcp_options_short: "length m = 240 + i \<Longrightarrow> i < 312 \<Longrightarrow> dhcp_options m i st = None"
  by (subst dhcp_options.simps) (simp add: c_rd_def)

text \<open>A reply: the fields that the client does not look at are arbitrary.\<close>

record dhcp_reply =
  r_hw :: "u8 list"
  r_secs :: "u8 list"
  r_yiaddr :: u32
  r_siaddr :: u32
  r_giaddr :: "u8 list"
  r_names :: "u8 list"
  r_opts :: "dhcp_opt list"
  r_rest :: "u8 list"

definition reply_head :: "u32 \<Rightarrow> u8 list \<Rightarrow> dhcp_reply \<Rightarrow> u8 list" where
  "reply_head x hw r = [2] @ r_hw r @ be32 x @ r_secs r @ addr_bytes (r_yiaddr r) @ addr_bytes (r_siaddr r) @ r_giaddr r @ hw @ r_names r @ be32 DHCP_MAGIC_COOKIE"

definition enc_reply :: "u32 \<Rightarrow> u8 list \<Rightarrow> dhcp_reply \<Rightarrow> u8 list" where
  "enc_reply x hw r = reply_head x hw r @ concat (map enc_opt (r_opts r)) @ 255 # r_rest r"

definition head_ok :: "dhcp_reply \<Rightarrow> bool" where
  "head_ok r \<longleftrightarrow> length (r_hw r) = 3 \<and> length (r_secs r) = 8 \<and> length (r_giaddr r) = 4 \<and> length (r_names r) = 202"

definition reply_ok :: "dhcp_reply \<Rightarrow> bool" where
  "reply_ok r \<longleftrightarrow> head_ok r \<and>
     list_all opt_ok (r_opts r) \<and> length (concat (map enc_opt (r_opts r))) < 312 \<and>
     60 \<le> length (concat (map enc_opt (r_opts r)) @ 255 # r_rest r) \<and> length (r_rest r) < 2 ^ 16"

text \<open>What a reply does to the client.\<close>

definition dhcp_take :: "u8 \<Rightarrow> bool \<Rightarrow> dhcp_reply \<Rightarrow> 'w dhcp_client_t \<Rightarrow> dhcp_status_t \<times> 'w dhcp_client_t" where
  "dhcp_take ty has r c =
     (if ty = DHCPOFFER then
        if cli_state c \<noteq> DHCP_STATE_SELECTING then (DHCP_ERR_STATE, c)
        else (DHCP_OK, c\<lparr>offered_ip := r_yiaddr r, server_id := (if has then server_id c else r_siaddr r)\<rparr>)
      else if ty = DHCPACK then
        if cli_state c \<noteq> DHCP_STATE_REQUESTING \<and> cli_state c \<noteq> DHCP_STATE_RENEWING then (DHCP_ERR_STATE, c)
        else let lease = (if lease_seconds c = 0 then 3600 else lease_seconds c) in
          (DHCP_OK, c\<lparr>client_ip := r_yiaddr r, lease_seconds := lease, lease_remaining := lease, cli_state := DHCP_STATE_BOUND\<rparr>)
      else if ty = DHCPNAK then (DHCP_ERR_NAK, dhcp_forget c)
      else (DHCP_ERR_BAD_PACKET, c))"

lemma length_reply_head: "head_ok r \<Longrightarrow> length hw = 6 \<Longrightarrow> length (reply_head x hw r) = 240"
  by (simp add: head_ok_def reply_head_def)

lemma dhcp_input_head:
  assumes "dhcp_ok c" and "head_ok r" and "m = reply_head (xid c) (mac c) r @ tail" and "\<not> len < 300"
  shows "dhcp_input (Ref c) (Ref m) len =
     do { (ty, has, c') \<leftarrow> dhcp_parse_options c m; let (rc, c') = dhcp_take ty has r c' in Some (rc, Ref c') }"
proof -
  have hw: "length (mac c) = 6" "cli_initialized c" using assms(1) by (simp_all add: dhcp_ok_def)
  have l: "length (r_hw r) = 3" "length (r_secs r) = 8" "length (r_giaddr r) = 4" "length (r_names r) = 202" using assms(2) by (simp_all add: head_ok_def)
  have m: "m = [2] @ r_hw r @ be32 (xid c) @ drop 8 m" "m = (([2] @ r_hw r) @ be32 (xid c) @ r_secs r) @ addr_bytes (r_yiaddr r) @ drop 20 m"
    "m = (([2] @ r_hw r) @ be32 (xid c) @ r_secs r @ addr_bytes (r_yiaddr r)) @ addr_bytes (r_siaddr r) @ drop 24 m"
    "m = (([2] @ r_hw r) @ be32 (xid c) @ r_secs r @ addr_bytes (r_yiaddr r) @ addr_bytes (r_siaddr r) @ r_giaddr r) @ mac c @ drop 34 m"
    "m = (([2] @ r_hw r) @ be32 (xid c) @ r_secs r @ addr_bytes (r_yiaddr r) @ addr_bytes (r_siaddr r) @ r_giaddr r @ mac c @ r_names r) @ be32 DHCP_MAGIC_COOKIE @ drop 240 m"
    using hw l by (simp_all add: assms(3) reply_head_def)
  have "c_rd m 0 = Some 2" by (subst m(1)) (simp add: c_rd_def)
  moreover have "ld32 m 4 = Some (ow_bswap32 (xid c))" using ld32_be_at [of "[2] @ r_hw r" 4 "xid c" "drop 8 m"] l m(1) by simp
  moreover have "ld32 m 236 = Some (ow_bswap32 DHCP_MAGIC_COOKIE)" by (subst m(5), rule ld32_be_at) (use l hw in simp)
  moreover have "ld32 m 16 = Some (r_yiaddr r)" by (subst m(2), rule ld32_addr) (use l in simp)
  moreover have "ld32 m 20 = Some (r_siaddr r)" by (subst m(3), rule ld32_addr) (use l in simp)
  moreover have "c_rd m (28 + k) = Some (mac c ! k)" "c_rd (mac c) k = Some (mac c ! k)" if "k < 6" for k
    using that hw l by (simp_all add: arg_cong [OF m(4), of "\<lambda>m. c_rd m (28 + k)"] nth_append)
  from this [of 0] this [of 1] this [of 2] have
    "c_rd m 28 = Some (mac c ! 0)" "c_rd m 29 = Some (mac c ! 1)" "c_rd m 30 = Some (mac c ! 2)"
    "c_rd (mac c) 0 = Some (mac c ! 0)" "c_rd (mac c) 1 = Some (mac c ! 1)" "c_rd (mac c) 2 = Some (mac c ! 2)" by simp_all
  ultimately show ?thesis using hw(2) assms(4)
    by (cases "dhcp_parse_options c m") (auto simp: dhcp_input_def dhcp_take_def Let_def bswap32_id simp del: c_rd_in)
qed

lemma long_enough: "300 \<le> n \<Longrightarrow> n < 2 ^ 32 \<Longrightarrow> \<not> of_nat n < (300 :: u32)"
  using unat_of_nat_u32 [of n] by (simp add: word_less_nat_alt)

lemma dhcp_input_reply:
  assumes "dhcp_ok c" and "reply_ok r" and "m = enc_reply (xid c) (mac c) r"
  shows "dhcp_input (Ref c) (Ref m) (of_nat (length m)) =
     (let (rc, c') = dhcp_take (opt_type (r_opts r) 0) (opt_has 54 (r_opts r)) r (with_opts (r_opts r) c) in Some (rc, Ref c'))"
proof -
  let ?e = "concat (map enc_opt (r_opts r))" let ?h = "reply_head (xid c) (mac c) r"
  have ok: "head_ok r" "length ?e < 312" "list_all opt_ok (r_opts r)" "60 \<le> length (?e @ 255 # r_rest r)" "length (r_rest r) < 2 ^ 16"
    using assms(2) by (simp_all add: reply_ok_def)
  have m: "m = ?h @ ?e @ 255 # r_rest r" by (simp add: assms(3) enc_reply_def)
  have head: "length ?h = 240" using assms(1) ok(1) by (simp add: dhcp_ok_def length_reply_head)
  have "\<not> of_nat (length m) < (300 :: u32)" using ok(2,4,5) head by (intro long_enough) (simp_all add: m)
  moreover have "c_rd m (240 + length ?e) = Some 255" using head c_rd_at [of "?h @ ?e" _ 255 "r_rest r"] by (simp add: m del: c_rd_in)
  then have "dhcp_parse_options c m = Some (opt_type (r_opts r) 0, opt_has 54 (r_opts r), with_opts (r_opts r) c)"
    using dhcp_options_enc [OF m, of 0 0 False c] head ok(2,3) by (simp add: dhcp_parse_options_def dhcp_options_end del: c_rd_in)
  ultimately show ?thesis using dhcp_input_head [OF assms(1) ok(1) m] by simp
qed

section \<open>Sequences of calls\<close>

text \<open>In no state but the ones below; an idle client has no address, a bound one has a lease that runs.\<close>

definition dhcp_inv :: "'w dhcp_client_t \<Rightarrow> bool" where
  "dhcp_inv c \<longleftrightarrow> dhcp_ok c \<and> cli_state c \<notin> {DHCP_STATE_RENEWING, DHCP_STATE_RELEASING} \<and>
     (cli_state c = DHCP_STATE_IDLE \<longrightarrow> client_ip c = 0) \<and> (cli_state c = DHCP_STATE_BOUND \<longrightarrow> lease_remaining c \<noteq> 0)"

lemma dhcp_discover_eq:
  assumes "dhcp_ok c" and "cli_udp_tx c = Ref tx"
  shows "dhcp_discover w (Ref c) =
     (let sd = seed c * 1103515245 + 12345; x = drop_bit 8 sd XOR ucast (mac c ! 5); b = dhcp_packet 576 x 0 (mac c) (dhcp_opts DHCPDISCOVER 0 0);
          (rc, w') = tx w 0 68 DHCP_IP_BROADCAST 67 b 300
      in Some (rc, Ref (c\<lparr>seed := sd, xid := x, offered_ip := 0, server_id := 0, cli_scratch := b, cli_state := DHCP_STATE_SELECTING\<rparr>), w'))"
proof -
  let ?sd = "seed c * 1103515245 + 12345" let ?x = "drop_bit 8 ?sd XOR ucast (mac c ! 5)"
  let ?c = "c\<lparr>seed := ?sd, xid := ?x, offered_ip := 0, server_id := 0\<rparr>"
  have "dhcp_ok ?c" using assms(1) by (simp add: dhcp_ok_def)
  from dhcp_build_eq [OF this, of DHCPDISCOVER 0 0] show ?thesis
    using assms by (simp add: dhcp_discover_def dhcp_next_xid_def dhcp_tx_def Let_def dhcp_ok_def split: prod.splits)
qed

lemma dhcp_request_eq:
  assumes "dhcp_ok c" and "cli_udp_tx c = Ref tx"
  shows "dhcp_request w (Ref c) =
     (if cli_state c \<noteq> DHCP_STATE_SELECTING \<or> offered_ip c = 0 \<or> server_id c = 0 then Some (DHCP_ERR_STATE, Ref c, w)
      else let b = dhcp_packet 576 (xid c) 0 (mac c) (dhcp_opts DHCPREQUEST (offered_ip c) (server_id c));
               (rc, w') = tx w 0 68 DHCP_IP_BROADCAST 67 b 300
           in Some (rc, Ref (c\<lparr>cli_scratch := b, cli_state := DHCP_STATE_REQUESTING\<rparr>), w'))"
  using dhcp_build_eq [OF assms(1), of DHCPREQUEST "offered_ip c" "server_id c"] assms
  by (simp add: dhcp_request_def dhcp_tx_def Let_def dhcp_ok_def split: prod.splits)

lemma dhcp_release_eq:
  assumes "dhcp_ok c" and "cli_udp_tx c = Ref tx"
  shows "dhcp_release w (Ref c) =
     (if cli_state c \<noteq> DHCP_STATE_BOUND \<and> cli_state c \<noteq> DHCP_STATE_RENEWING then Some (DHCP_ERR_STATE, Ref c, w)
      else let b = dhcp_packet 576 (xid c) (client_ip c) (mac c) (dhcp_opts DHCPRELEASE 0 (server_id c));
               (rc, w') = tx w (client_ip c) 68 (server_id c) 67 b 300
           in Some (rc, Ref (dhcp_forget (c\<lparr>cli_scratch := b\<rparr>)), w'))"
  using dhcp_build_eq [OF assms(1), of DHCPRELEASE 0 "server_id c"] assms
  by (simp add: dhcp_release_def dhcp_tx_def Let_def dhcp_ok_def dhcp_forget_def split: prod.splits)

lemma length_dhcp_packet: "length hw = 6 \<Longrightarrow> length (dhcp_packet 576 x ci hw (dhcp_opts ty req srv)) = 576"
  using length_dhcp_opts [of ty req srv] by (simp add: dhcp_packet_def length_dhcp_head)

lemma dhcp_input_safe:
  assumes "dhcp_inv c" and "len < 300 \<or> 552 \<le> length m"
  shows "\<exists>rc c'. dhcp_input (Ref c) (Ref m) len = Some (rc, Ref c') \<and> dhcp_inv c'"
proof (cases "552 \<le> length m")
  case True
  from dhcp_options_safe [OF this, of 0 0 False c] obtain ty has c1 where
    o: "dhcp_parse_options c m = Some (ty, has, c1)" "opts_stored c c1" by (auto simp: dhcp_parse_options_def)
  note same = opts_storedD [OF o(2)]
  have inv1: "dhcp_inv c1" using assms(1) same by (simp add: dhcp_inv_def dhcp_ok_def)
  have "\<exists>x. ld32 m 4 = Some x" "\<exists>x. ld32 m 16 = Some x" "\<exists>x. ld32 m 20 = Some x" "\<exists>x. ld32 m 236 = Some x"
    using True by (auto intro!: ld32_total)
  then obtain x yi si mg where ld: "ld32 m 4 = Some x" "ld32 m 16 = Some yi" "ld32 m 20 = Some si" "ld32 m 236 = Some mg" by blast
  have "dhcp_inv (c1\<lparr>offered_ip := yi, server_id := v\<rparr>)" "dhcp_inv (c1\<lparr>offered_ip := yi\<rparr>)" for v using inv1 by (simp_all add: dhcp_inv_def dhcp_ok_def)
  moreover have "dhcp_inv (c1\<lparr>client_ip := yi, lease_seconds := v, lease_remaining := v, cli_state := DHCP_STATE_BOUND\<rparr>)" if "v \<noteq> 0" for v
    using inv1 that by (simp add: dhcp_inv_def dhcp_ok_def)
  moreover have "dhcp_inv (dhcp_forget c1)" using inv1 by (simp add: dhcp_inv_def dhcp_ok_def dhcp_forget_def)
  moreover have "c_rd m 0 = Some (m ! 0)" "c_rd m 28 = Some (m ! 28)" "c_rd m 29 = Some (m ! 29)" "c_rd m 30 = Some (m ! 30)"
    "c_rd (mac c) 0 = Some (mac c ! 0)" "c_rd (mac c) 1 = Some (mac c ! 1)" "c_rd (mac c) 2 = Some (mac c ! 2)" "cli_initialized c"
    using True assms(1) by (auto simp: c_rd_def dhcp_inv_def dhcp_ok_def)
  ultimately show ?thesis using assms(1) inv1
    by (simp add: dhcp_input_def Let_def ld o(1) del: c_rd_in cong: if_cong)
next
  case False
  then have "len < 300" using assms(2) by simp
  then show ?thesis using assms(1) by (simp add: dhcp_input_def)
qed

datatype dhcp_op = C_discover | C_request | C_release | C_input "u8 list" u32 | C_tick u32

definition dhcp_do :: "dhcp_op \<Rightarrow> 'w dhcp_client_t ptr \<times> 'w \<Rightarrow> ('w dhcp_client_t ptr \<times> 'w) comp" where
  "dhcp_do a pw = (case pw of (p, w) \<Rightarrow>
     (case a of
        C_discover \<Rightarrow> do { (_, p, w) \<leftarrow> dhcp_discover w p; Some (p, w) }
      | C_request \<Rightarrow> do { (_, p, w) \<leftarrow> dhcp_request w p; Some (p, w) }
      | C_release \<Rightarrow> do { (_, p, w) \<leftarrow> dhcp_release w p; Some (p, w) }
      | C_input m len \<Rightarrow> do { (_, p) \<leftarrow> dhcp_input p (Ref m) len; Some (p, w) }
      | C_tick n \<Rightarrow> Some (snd (dhcp_tick p n), w)))"

fun dhcp_run :: "dhcp_op list \<Rightarrow> 'w dhcp_client_t ptr \<times> 'w \<Rightarrow> ('w dhcp_client_t ptr \<times> 'w) comp" where
  "dhcp_run [] pw = Some pw"
| "dhcp_run (a # as) pw = do { pw' \<leftarrow> dhcp_do a pw; dhcp_run as pw' }"

text \<open>
  A received packet of \<open>len\<close> bytes lies at the front of a buffer that holds a whole \<open>dhcp_message_t\<close>, or
  is refused as too short.
\<close>

fun dhcp_op_ok :: "dhcp_op \<Rightarrow> bool" where
  "dhcp_op_ok (C_input m len) = (len < 300 \<or> 552 \<le> length m)"
| "dhcp_op_ok _ = True"

lemma dhcp_do_inv:
  assumes "dhcp_inv c" and "dhcp_op_ok a"
  shows "\<exists>c' w'. dhcp_do a (Ref c, w) = Some (Ref c', w') \<and> dhcp_inv c'"
proof -
  have ok: "dhcp_ok c" "length (mac c) = 6" using assms(1) by (simp_all add: dhcp_inv_def dhcp_ok_def)
  obtain tx where tx: "cli_udp_tx c = Ref tx" using ok(1) by (cases "cli_udp_tx c") (auto simp: dhcp_ok_def)
  show ?thesis
  proof (cases a)
    case C_discover
    then show ?thesis using assms(1) ok tx by (simp add: dhcp_do_def dhcp_discover_eq Let_def dhcp_inv_def dhcp_ok_def length_dhcp_packet split: prod.splits)
  next
    case C_request
    then show ?thesis using assms(1) ok tx by (auto simp: dhcp_do_def dhcp_request_eq Let_def dhcp_inv_def dhcp_ok_def length_dhcp_packet split: prod.splits)
  next
    case C_release
    then show ?thesis using assms(1) ok tx by (auto simp: dhcp_do_def dhcp_release_eq Let_def dhcp_inv_def dhcp_ok_def dhcp_forget_def length_dhcp_packet split: prod.splits)
  next
    case (C_input m len)
    then show ?thesis using dhcp_input_safe [OF assms(1), of len m] assms(2) by (auto simp: dhcp_do_def)
  next
    case (C_tick n)
    have "n < lease_remaining c \<Longrightarrow> lease_remaining c - n \<noteq> 0" by auto
    then show ?thesis using assms(1) C_tick by (auto simp: dhcp_do_def dhcp_tick_def dhcp_inv_def dhcp_ok_def not_le)
  qed
qed

lemma dhcp_run_inv: "dhcp_inv c \<Longrightarrow> list_all dhcp_op_ok as \<Longrightarrow> \<exists>c' w'. dhcp_run as (Ref c, w) = Some (Ref c', w') \<and> dhcp_inv c'"
proof (induction as arbitrary: c w)
  case (Cons a as)
  then obtain c1 w1 where "dhcp_do a (Ref c, w) = Some (Ref c1, w1)" "dhcp_inv c1" using dhcp_do_inv [of c a w] by auto
  then show ?case using Cons.IH [of c1 w1] Cons.prems by simp
qed simp

lemma dhcp_init_inv:
  assumes "length hw = 6"
  shows "\<exists>c. dhcp_init (Ref c0) (Ref hw) (Ref tx) = Some (DHCP_OK, Ref c) \<and> dhcp_inv c \<and> mac c = hw \<and> cli_udp_tx c = Ref tx \<and> cli_state c = DHCP_STATE_IDLE"
  using c_for_copy [of 6 hw 0 "replicate 6 0"] assms by (simp add: dhcp_init_def dhcp_inv_def dhcp_ok_def patch_0 del: replicate.simps)

section \<open>Properties\<close>

text \<open>C16: After \<open>dhcp_init\<close>, whatever the order of the calls, whatever packets arrive, with arbitrary contents, and however
  the clock runs, every call returns without an access outside the client and the packet, provided that each packet lies
  in a buffer of at least the 552 bytes of a \<open>dhcp_message_t\<close>; an idle client never has an address, a bound one always has
  lease time left, and the states \<open>RENEWING\<close> and \<open>RELEASING\<close> are never seen from outside.
\<close>

theorem dhcp_run_invariant:
  assumes "length hw = 6" and "list_all dhcp_op_ok as"
  shows "\<exists>c c' w'. dhcp_init (Ref c0) (Ref hw) (Ref tx) = Some (DHCP_OK, Ref c) \<and> dhcp_run as (Ref c, w) = Some (Ref c', w') \<and> dhcp_ok c' \<and>
     cli_state c' \<in> {DHCP_STATE_IDLE, DHCP_STATE_SELECTING, DHCP_STATE_REQUESTING, DHCP_STATE_BOUND} \<and>
     (cli_state c' = DHCP_STATE_IDLE \<longrightarrow> client_ip c' = 0) \<and> (cli_state c' = DHCP_STATE_BOUND \<longrightarrow> lease_remaining c' \<noteq> 0)"
proof -
  obtain c where c: "dhcp_init (Ref c0) (Ref hw) (Ref tx) = Some (DHCP_OK, Ref c)" "dhcp_inv c" using dhcp_init_inv [OF assms(1)] by blast
  obtain c' w' where "dhcp_run as (Ref c, w) = Some (Ref c', w')" "dhcp_inv c'" using dhcp_run_inv [OF c(2) assms(2), of w] by auto
  then show ?thesis using c(1) by (cases "cli_state c'") (auto simp: dhcp_inv_def)
qed

text \<open>A transmit function that keeps what was sent, and the client it makes.\<close>

definition dhcp_wire :: "u8 list list dhcp_udp_tx_fn" where
  "dhcp_wire w sip sport dip dport data len = (DHCP_OK, w @ [take (unat len) data])"

definition sample_cli :: "u8 list list dhcp_client_t" where
  "sample_cli = \<lparr>cli_state = DHCP_STATE_IDLE, cli_initialized = True, mac = [2, 0, 0, 0, 0, 1], xid = 0, client_ip = 0,
     offered_ip = 0, server_id = 0, netmask = 0, router = 0, dns = 0, lease_seconds = 0, lease_remaining = 0,
     seed = 0x2545F491, cli_udp_tx = Ref dhcp_wire, cli_scratch = replicate 576 0\<rparr>"

theorem dhcp_run_invariant_witness:
  "\<exists>c c' w'. dhcp_init (Ref sample_cli) (Ref [2, 0, 0, 0, 0, 1]) (Ref dhcp_wire) = Some (DHCP_OK, Ref c) \<and>
     dhcp_run [C_discover, C_input (replicate 552 2) 320, C_tick 60, C_request, C_input [] 0, C_release] (Ref c, []) = Some (Ref c', w') \<and> dhcp_ok c'"
  using dhcp_run_invariant [of "[2, 0, 0, 0, 0, 1]" "[C_discover, C_input (replicate 552 2) 320, C_tick 60, C_request, C_input [] 0, C_release]" sample_cli dhcp_wire "[]"]
  by (simp del: dhcp_run.simps) blast

text \<open>C39: \<open>dhcp_input\<close> reads behind the end of the packet: it accepts packets from 300 bytes on, but looks for options in all
  312 bytes of the field of \<open>dhcp_message_t\<close>, whatever the length. A reply to the pending transaction of 300 to 551 bytes
  whose well-formed options fill the packet and lack the end marker makes it access memory outside the packet.
\<close>

theorem dhcp_input_overreads:
  assumes "dhcp_ok c" and "head_ok r" and "list_all opt_ok os" and "m = reply_head (xid c) (mac c) r @ concat (map enc_opt os)"
    and "300 \<le> length m" and "length m < 552"
  shows "dhcp_input (Ref c) (Ref m) (of_nat (length m)) = None"
proof -
  let ?e = "concat (map enc_opt os)" let ?h = "reply_head (xid c) (mac c) r"
  have head: "length ?h = 240" using assms(1,2) by (simp add: dhcp_ok_def length_reply_head)
  then have e: "length m = 240 + length ?e" "length ?e < 312" using assms(4,6) by simp_all
  have "dhcp_options m 0 (0, False, c) = dhcp_options m (0 + length ?e) (opt_type os 0, False \<or> opt_has 54 os, with_opts os c)"
    by (rule dhcp_options_enc [of _ ?h _ "[]"]) (use assms(3,4) head e in simp_all)
  then have "dhcp_parse_options c m = None" using dhcp_options_short [OF e] by (simp add: dhcp_parse_options_def)
  moreover have "\<not> of_nat (length m) < (300 :: u32)" using assms(5,6) by (intro long_enough) simp_all
  ultimately show ?thesis using dhcp_input_head [OF assms(1,2,4)] by simp
qed

definition sample_reply :: "u32 \<Rightarrow> dhcp_opt list \<Rightarrow> dhcp_reply" where
  "sample_reply ip os = \<lparr>r_hw = [1, 6, 0], r_secs = replicate 8 0, r_yiaddr = ip, r_siaddr = 0, r_giaddr = [0, 0, 0, 0],
     r_names = replicate 202 0, r_opts = os, r_rest = replicate 60 0\<rparr>"

lemma sample_cli_ok: "dhcp_ok sample_cli" "xid sample_cli = 0" "mac sample_cli = [2, 0, 0, 0, 0, 1]"
  by (simp_all add: dhcp_ok_def sample_cli_def del: replicate.simps)

lemma sample_head_ok: "head_ok (sample_reply ip os)"
  by (simp add: head_ok_def sample_reply_def)

theorem dhcp_input_overreads_witness:
  "dhcp_input (Ref sample_cli) (Ref (reply_head 0 [2, 0, 0, 0, 0, 1] (sample_reply 7 []) @ concat (map enc_opt (replicate 60 (0, [])))))
     (of_nat (length (reply_head 0 [2, 0, 0, 0, 0, 1] (sample_reply 7 []) @ concat (map enc_opt (replicate 60 (0, [])))))) = None"
proof -
  have "length (reply_head 0 [2, 0, 0, 0, 0, 1] (sample_reply 7 []) @ concat (map enc_opt (replicate 60 (0, [])))) = 300"
    by (simp add: length_reply_head sample_head_ok length_concat enc_opt_def sum_list_replicate)
  then show ?thesis
    using dhcp_input_overreads [of sample_cli "sample_reply 7 []" "replicate 60 (0, [])" "reply_head 0 [2, 0, 0, 0, 0, 1] (sample_reply 7 []) @ concat (map enc_opt (replicate 60 (0, [])))"]
    by (simp add: sample_cli_ok sample_head_ok opt_ok_def list_all_iff)
qed

lemma opt_addr_has: "opt_addr k os v = (if opt_has k os then opt_addr k os u else v)"
proof (induction os arbitrary: u v)
  case (Cons opt os)
  then show ?case by (cases opt) (auto simp: opt_has_def)
qed (simp add: opt_has_def)

text \<open>C15: The exchange works: after \<open>dhcp_discover\<close>, an offer of an address by a server that names itself, in an option or in
  \<open>siaddr\<close>, is accepted, \<open>dhcp_request\<close> then asks this server for this address, and an acknowledgement, also in a
  well-formed packet with any further options, leaves the client bound to the address it carries, with the mask, router, name
  server and lease time of the last message that had them; a lease of zero seconds counts as an hour.
\<close>

theorem dhcp_acquires:
  assumes "dhcp_ok c" and "cli_udp_tx c = Ref tx" and "reply_ok r1" and "reply_ok r2" and "opt_type (r_opts r1) 0 = DHCPOFFER"
    and "opt_type (r_opts r2) 0 = DHCPACK" and "r_yiaddr r1 \<noteq> 0" and "sid = opt_addr 54 (r_opts r1) (r_siaddr r1)" and "sid \<noteq> 0"
    and "lease = ow_bswap32 (opt_addr 51 (r_opts r2) (opt_addr 51 (r_opts r1) (ow_bswap32 (lease_seconds c))))"
  shows "\<exists>x f1 f2 c1 c2 c3 c4.
     take 300 f1 = dhcp_packet 300 x 0 (mac c) (dhcp_opts DHCPDISCOVER 0 0) \<and>
     dhcp_discover w (Ref c) = (let (rc, w') = tx w 0 68 DHCP_IP_BROADCAST 67 f1 300 in Some (rc, Ref c1, w')) \<and>
     dhcp_input (Ref c1) (Ref (enc_reply x (mac c) r1)) (of_nat (length (enc_reply x (mac c) r1))) = Some (DHCP_OK, Ref c2) \<and>
     take 300 f2 = dhcp_packet 300 x 0 (mac c) (dhcp_opts DHCPREQUEST (r_yiaddr r1) sid) \<and>
     dhcp_request v (Ref c2) = (let (rc, v') = tx v 0 68 DHCP_IP_BROADCAST 67 f2 300 in Some (rc, Ref c3, v')) \<and>
     dhcp_input (Ref c3) (Ref (enc_reply x (mac c) r2)) (of_nat (length (enc_reply x (mac c) r2))) = Some (DHCP_OK, Ref c4) \<and>
     cli_state c4 = DHCP_STATE_BOUND \<and> client_ip c4 = r_yiaddr r2 \<and>
     netmask c4 = opt_addr 1 (r_opts r2) (opt_addr 1 (r_opts r1) (netmask c)) \<and> router c4 = opt_addr 3 (r_opts r2) (opt_addr 3 (r_opts r1) (router c)) \<and>
     dns c4 = opt_addr 6 (r_opts r2) (opt_addr 6 (r_opts r1) (dns c)) \<and> lease_remaining c4 = (if lease = 0 then 3600 else lease)"
proof -
  have hw: "length (mac c) = 6" using assms(1) by (simp add: dhcp_ok_def)
  define sd where "sd = seed c * 1103515245 + 12345"
  define x where "x = drop_bit 8 sd XOR ucast (mac c ! 5)"
  define f1 where "f1 = dhcp_packet 576 x 0 (mac c) (dhcp_opts DHCPDISCOVER 0 0)"
  define c1 where "c1 = c\<lparr>seed := sd, xid := x, offered_ip := 0, server_id := 0, cli_scratch := f1, cli_state := DHCP_STATE_SELECTING\<rparr>"
  define c2 where "c2 = (with_opts (r_opts r1) c1)\<lparr>offered_ip := r_yiaddr r1, server_id := sid\<rparr>"
  define f2 where "f2 = dhcp_packet 576 x 0 (mac c) (dhcp_opts DHCPREQUEST (r_yiaddr r1) sid)"
  define c3 where "c3 = c2\<lparr>cli_scratch := f2, cli_state := DHCP_STATE_REQUESTING\<rparr>"
  have ok: "dhcp_ok c1" "dhcp_ok c2" "dhcp_ok c3" using assms(1) hw
    by (simp_all add: dhcp_ok_def c1_def c2_def c3_def f1_def f2_def length_dhcp_packet with_opts_def)
  have at: "xid c1 = x" "mac c1 = mac c" "xid c3 = x" "mac c3 = mac c" "cli_udp_tx c2 = Ref tx" "cli_state c2 = DHCP_STATE_SELECTING" "xid c2 = x" "mac c2 = mac c"
    "offered_ip c2 = r_yiaddr r1" "server_id c2 = sid" using assms(2) by (simp_all add: c1_def c2_def c3_def with_opts_def)
  have "dhcp_discover w (Ref c) = (let (rc, w') = tx w 0 68 DHCP_IP_BROADCAST 67 f1 300 in Some (rc, Ref c1, w'))"
    unfolding dhcp_discover_eq [OF assms(1,2)] by (simp add: Let_def c1_def f1_def x_def sd_def)
  moreover have "server_id (with_opts (r_opts r1) c1) = opt_addr 54 (r_opts r1) 0" by (simp add: with_opts_def c1_def)
  then have "sid = (if opt_has 54 (r_opts r1) then server_id (with_opts (r_opts r1) c1) else r_siaddr r1)"
    using opt_addr_has [of 54 "r_opts r1" "r_siaddr r1" 0] assms(8) by simp
  then have "dhcp_input (Ref c1) (Ref (enc_reply x (mac c) r1)) (of_nat (length (enc_reply x (mac c) r1))) = Some (DHCP_OK, Ref c2)"
    using dhcp_input_reply [OF ok(1) assms(3) refl] assms(5) by (simp add: at dhcp_take_def c2_def) (simp add: c1_def with_opts_def)
  moreover have "dhcp_request v (Ref c2) = (let (rc, v') = tx v 0 68 DHCP_IP_BROADCAST 67 f2 300 in Some (rc, Ref c3, v'))"
    using dhcp_request_eq [OF ok(2) at(5), of v] assms(7,9) by (simp add: Let_def at c3_def f2_def)
  moreover have "take 300 f1 = dhcp_packet 300 x 0 (mac c) (dhcp_opts DHCPDISCOVER 0 0)" "take 300 f2 = dhcp_packet 300 x 0 (mac c) (dhcp_opts DHCPREQUEST (r_yiaddr r1) sid)"
    unfolding f1_def f2_def by (rule take_dhcp_packet [OF hw length_dhcp_opts])+
  moreover have "\<exists>c4. dhcp_input (Ref c3) (Ref (enc_reply x (mac c) r2)) (of_nat (length (enc_reply x (mac c) r2))) = Some (DHCP_OK, Ref c4) \<and>
      cli_state c4 = DHCP_STATE_BOUND \<and> client_ip c4 = r_yiaddr r2 \<and>
      netmask c4 = opt_addr 1 (r_opts r2) (opt_addr 1 (r_opts r1) (netmask c)) \<and> router c4 = opt_addr 3 (r_opts r2) (opt_addr 3 (r_opts r1) (router c)) \<and>
      dns c4 = opt_addr 6 (r_opts r2) (opt_addr 6 (r_opts r1) (dns c)) \<and> lease_remaining c4 = (if lease = 0 then 3600 else lease)"
    using dhcp_input_reply [OF ok(3) assms(4) refl] assms(6) unfolding assms(10)
    by (simp add: at dhcp_take_def Let_def) (simp add: c1_def c2_def c3_def with_opts_def bswap32_id)
  ultimately show ?thesis by blast
qed

definition sample_opts :: "u8 \<Rightarrow> dhcp_opt list" where
  "sample_opts ty = [(53, [ty]), (54, [0, 0, 0, 9])]"

theorem dhcp_acquires_witness:
  "\<exists>x c1 c2 c3 c4 f1 f2. dhcp_discover [] (Ref sample_cli) = Some (DHCP_OK, Ref c1, [f1]) \<and>
     dhcp_input (Ref c1) (Ref (enc_reply x [2, 0, 0, 0, 0, 1] (sample_reply 7 (sample_opts 2))))
       (of_nat (length (enc_reply x [2, 0, 0, 0, 0, 1] (sample_reply 7 (sample_opts 2))))) = Some (DHCP_OK, Ref c2) \<and>
     dhcp_request [] (Ref c2) = Some (DHCP_OK, Ref c3, [f2]) \<and>
     dhcp_input (Ref c3) (Ref (enc_reply x [2, 0, 0, 0, 0, 1] (sample_reply 7 (sample_opts 5))))
       (of_nat (length (enc_reply x [2, 0, 0, 0, 0, 1] (sample_reply 7 (sample_opts 5))))) = Some (DHCP_OK, Ref c4) \<and>
     cli_state c4 = DHCP_STATE_BOUND \<and> client_ip c4 = 7 \<and> lease_remaining c4 = 3600"
proof -
  let ?sid = "the (ld32 [0, 0, 0, 9] 0)"
  have "reply_ok (sample_reply 7 (sample_opts ty))" for ty
    using sample_head_ok by (simp add: reply_ok_def) (simp add: sample_reply_def opt_ok_def enc_opt_def sample_opts_def)
  moreover have "?sid \<noteq> 0" by (simp add: ld32_def)
  moreover have "r_opts (sample_reply 7 os) = os" "r_yiaddr (sample_reply 7 os) = 7" for os by (simp_all add: sample_reply_def)
  moreover have "opt_type (sample_opts ty) 0 = ty" "opt_addr 54 (sample_opts ty) v = ?sid" "opt_addr 51 (sample_opts ty) v = v" for ty v
    by (simp_all add: sample_opts_def)
  moreover have "cli_udp_tx sample_cli = Ref dhcp_wire" "lease_seconds sample_cli = 0" by (simp_all add: sample_cli_def)
  ultimately show ?thesis
    using dhcp_acquires [of sample_cli dhcp_wire "sample_reply 7 (sample_opts 2)" "sample_reply 7 (sample_opts 5)" ?sid 0 "[]" "[]"] sample_cli_ok
    by (simp add: dhcp_wire_def bswap32_id) (metis)
qed

end
