(* ===== verification/Spec2Isabelle.thy ===== *)
theory Spec2Isabelle
  imports Fifo Msg Pool Slab Heap Bitmap Pipe Cache Sync Acl Reg Pfwall Ipstack Udp Tcp_Link Sha_Stream Aead Zip Dns Dhcp
begin

text \<open>
  \<^bold>\<open>Verification of the OpenWindows runtime and network stack.\<close>

  The repository is a freestanding C99 system: libraries under \<open>src/DLL\<close>, drivers under \<open>src/Drivers\<close>, programs and
  extensions around them. The modules keep their state in caller-provided structures or static tables and never
  allocate. This development models, function by function, the modules that carry the system's own logic and whose
  behaviour does not depend on hardware registers, and proves them correct. This theory imports all of them; the
  properties stand at the end of the theory of their component, each after a text block with its number.

  \<^bold>\<open>The parts of the program and how they interact.\<close>
  \<^item> Containers and allocators: \<open>owfifo64\<close> (byte ring), \<open>owmsg64\<close> (message queues), \<open>owpipe\<close> (named pipe), \<open>owpool64\<close>,
    \<open>owslab64\<close>, \<open>owheap64\<close> and \<open>owbitmap64\<close> (allocators over an arena of the caller), \<open>owcache64\<close> (block cache).
  \<^item> System services: \<open>owsync64\<close> (spinlock, recursive mutex, barrier), \<open>owacl64\<close> (access control), \<open>owreg64\<close> (registry).
  \<^item> Network: \<open>ipstack\<close> (Ethernet, ARP, IPv4) hands datagrams to \<open>udpcore\<close> and \<open>tcpcore\<close> through callbacks and is
    called by them to transmit; \<open>pfwall\<close> decides on packets; \<open>dnscli\<close> and \<open>dhcpcli\<close> send through a UDP transmit function
    and are given the datagrams that arrive.
  \<^item> Codecs and cryptography: \<open>owzip64\<close> (LZSS, CRC-32, Adler-32), \<open>owcrypt\<close> (SHA-2, HMAC, ChaCha20, Poly1305, sealed
    frames that report BAN codes to a hook).

  \<^bold>\<open>Shared theories.\<close>
  \<^item> \<open>Prelude\<close>: machine integers as words, \<open>'a ptr\<close> for nullable pointers, \<open>'a comp\<close> for computations that may have
    undefined behaviour (\<open>None\<close>), checked array accesses \<open>c_rd\<close> and \<open>c_wr\<close>, table searches, lemmas on lists and words.
  \<^item> \<open>C_Loops\<close>: counted loops \<open>c_for\<close> with an invariant rule, contiguous writes, byte strings as numbers.
  \<^item> \<open>Ring_Queue\<close>: rings in an array, and the locale \<open>bounded_queue\<close>, the contract of a FIFO queue, from which the
    refinement of every sequence of operations to a bounded list follows; \<open>Fifo\<close> and \<open>Msg\<close> interpret it.
  \<^item> \<open>Free_List\<close>: free lists threaded through the blocks, the locale \<open>link_store\<close> for the link accesses and the locale
    \<open>block_allocator\<close>, the contract of a block allocator towards its clients; \<open>Pool\<close> and \<open>Slab\<close> interpret them.
  \<^item> \<open>Inet\<close>: byte order, header fields in a buffer, the Internet checksum; used by \<open>Ipstack\<close>, \<open>Udp\<close>, \<open>Tcp\<close>, \<open>Dns\<close>, \<open>Dhcp\<close>.
  \<^item> \<open>Crypt_Bytes\<close>: the byte order helpers of \<open>owcrypt.c\<close>. The locale \<open>md_hash\<close> of \<open>Sha_Stream\<close> is the contract of a
    compression function; SHA-256 and SHA-512 interpret it.

  \<^bold>\<open>Components.\<close> In each theory the C structures are records with the fields of the source, every function is a
  definition with its name, loops and blocks of a long function are definitions of their own, and early returns are the
  branches of the definition. Then come the invariant, the lemmas per operation, and the properties.
  \<^item> \<open>Fifo\<close>, \<open>Msg\<close>, \<open>Pipe\<close> (\<open>src/DLL/owfifo64\<close>, \<open>src/DLL/owmsg64\<close>, \<open>src/Drivers/owpipe\<close>): every sequence of calls answers
    like a bounded list of bytes, messages or a byte stream; the counters of a message queue account for every message.
  \<^item> \<open>Pool\<close>, \<open>Slab\<close> (\<open>src/DLL/owpool64\<close>, \<open>src/DLL/owslab64\<close>): a client that writes only into its own blocks never gets
    a block twice and is served as long as one is free.
  \<^item> \<open>Heap\<close> (\<open>src/DLL/owheap64\<close>): block headers as bytes of the arena; split and coalesce keep the chain of
    blocks; held blocks are aligned, disjoint and keep their contents; the walks end, and the statistics
    are exact figures of the chain of blocks and of the history of the client.
  \<^item> \<open>Bitmap\<close>, \<open>Cache\<close>, \<open>Reg\<close> (\<open>src/DLL/owbitmap64\<close>, \<open>src/DLL/owcache64\<close>, \<open>src/DLL/owreg64\<close>): refinement of a finite set
    with least free index, of a least-recently-used list, of a finite map.
  \<^item> \<open>Sync\<close> (\<open>src/DLL/owsync64\<close>): step relations over single memory accesses of any number of contexts; the barrier
    holds in every reachable state, and the mutex excludes in every execution in which each call reads its own identity;
    the identity is one shared variable, and when another context overwrites it before the read, exclusion fails.
  \<^item> \<open>Acl\<close>, \<open>Pfwall\<close> (\<open>src/DLL/owacl64\<close>, \<open>src/Drivers/pfwall\<close>): the decision and the rights reported equal a
    declarative policy; the verdict equals the first match in a rule list.
  \<^item> \<open>Ipstack\<close>, \<open>Udp\<close>, \<open>Tcp\<close>, \<open>Tcp_Link\<close> (\<open>src/Drivers/ipstack\<close>, \<open>udpcore\<close>, \<open>tcpcore\<close>): no undefined behaviour for arbitrary
    received bytes; what is sent is received; ARP resolution; longest prefix match for contiguous masks; the three-way handshake; two cores over a network that
    loses, repeats and reorders segments deliver a prefix of what was sent, and all of it once nothing is unacknowledged.
  \<^item> \<open>Dns\<close>, \<open>Dhcp\<close> (\<open>src/Drivers/dnscli\<close>, \<open>src/Drivers/dhcpcli\<close>): the messages sent are those of RFC 1035 and RFC 2131; a
    response resolves the name that was asked for; the exchange binds the client; arbitrary messages keep the state well
    formed, for \<open>dhcp_input\<close> under a bound on the length of the packet that is shown to be necessary.
  \<^item> \<open>Sha\<close>, \<open>Sha_Stream\<close>, \<open>Chacha\<close>, \<open>Poly1305\<close>, \<open>Aead\<close> (\<open>src/DLL/owcrypt/owcrypt.c\<close>): equality with FIPS 180-4, RFC 2104
    and RFC 8439, for Poly1305 outside the values for which the code omits a reduction, where the tag is shown to be
    wrong when the final one is omitted; frames open to what was sealed.
  \<^item> \<open>Zip\<close> (\<open>src/DLL/owzip64\<close>): decompression inverts compression and is safe on every input; CRC-32 is the
    remainder of IEEE 802.3, by long division over the field of two elements.

  \<^bold>\<open>Loops and termination.\<close> Counted loops are \<open>c_for\<close> or \<open>function\<close> with a measure. Loops that the code bounds only by
  the data are \<open>partial_function (option)\<close>, where not returning is \<open>None\<close> as undefined behaviour is: \<open>free_walk\<close>,
  \<open>bmp_shift\<close>, \<open>alloc_loop\<close>, \<open>stats_loop\<close>, \<open>owc_p1305_update\<close>, \<open>zip_encode\<close>, \<open>zip_decode\<close>, \<open>skip_loop\<close>. The theorems state
  that the result is \<open>Some\<close>, which includes that the loop ends. No definition uses fuel.

  \<^bold>\<open>Assumptions.\<close> Objects are smaller than \<open>2 ^ 63\<close> bytes and distinct pointer arguments do not overlap, unless a theorem
  says otherwise; the machine is little-endian; a C string is the list of its bytes before the NUL; callbacks and
  transmit functions act on an arbitrary outside state and do not call back into the module that calls them; where the
  code reads a local variable it has not set, the model has zero. Sequential components are used by one context at a
  time; \<open>Sync\<close> interleaves single accesses in sequentially consistent order.

  \<^bold>\<open>Not modelled.\<close> Drivers and libraries whose effect is on device registers, ports, or the frame buffer (\<open>kernel64\<close>,
  \<open>owtime64\<close>, \<open>owirq64\<close>, \<open>owpci64\<close>, the disk, bus and display drivers, the graphics libraries): their behaviour is that of
  the hardware. The file system drivers: skeletons that read a superblock from a device. The rest of
  \<open>owcrypt\<close> (BLAKE2b, X25519, Ed25519, AES-GCM, random generator), \<open>owtls64\<close>, \<open>netwerk\<close>, \<open>ownet64\<close>, \<open>owxml64\<close>, \<open>owjson64\<close>,
  \<open>engines\<close>, \<open>damage_control\<close>, \<open>owcrt64\<close>, \<open>vipm\<close> and the small libraries over the modelled ones: left for
  later work. Programs under \<open>src/Software\<close> are front ends; \<open>src/vendor\<close> and \<open>src/Artifacts\<close> hold third-party code and copies.
\<close>

end
